(* ===== verification/Prelude.thy ===== *)
theory Prelude
  imports Main "HOL-Library.Word"
begin

unbundle bit_operations_syntax

section \<open>Shared types, automation and lemmas\<close>

text \<open>
  Types and lemmas that every component of the development uses.

  \<^item> \<open>llama_pos\<close>, \<open>llama_seq_id\<close> and \<open>llama_token\<close> are the signed 32-bit integers of
    \<^verbatim>\<open>include/llama.h\<close>. They are modelled by \<open>int\<close>: a signed overflow is undefined in C++, so
    the mathematical integers agree with the code on every execution that C++ defines.
  \<^item> \<open>uint32_t\<close> indices, sizes and counts are \<open>nat\<close>. Where the code relies on (or could suffer
    from) the wrap-around of an unsigned product or sum, the reduction modulo \<open>2 ^ 32\<close> is written
    out in the definition that needs it.
  \<^item> \<open>GGML_ASSERT\<close> and \<open>GGML_ABORT\<close> end the process, \<open>throw\<close> unwinds it: both are the \<open>Inl\<close> side
    of \<open>'a res\<close>. So is a loop that does not end, with the value \<open>DIVERGES\<close>. A plain \<open>assert\<close> is compiled out of release builds; the models are the release
    code, and the invariants proved about them show the asserted facts.
\<close>

type_synonym llama_pos = int
type_synonym llama_seq_id = int
type_synonym llama_token = int

definition LLAMA_MAX_SEQ :: nat where
  "LLAMA_MAX_SEQ = 256"

definition LLAMA_TOKEN_NULL :: llama_token where
  "LLAMA_TOKEN_NULL = -1"

definition INT32_MAX :: int where
  "INT32_MAX = 2147483647"

definition INT32_MIN :: int where
  "INT32_MIN = -2147483648"

datatype ggml_error = GGML_ASSERT string | GGML_ABORT string | RUNTIME_ERROR string | DIVERGES

type_synonym 'a res = "ggml_error + 'a"

definition bind_res :: "'a res \<Rightarrow> ('a \<Rightarrow> 'b res) \<Rightarrow> 'b res" where
  "bind_res m f = (case m of Inl e \<Rightarrow> Inl e | Inr x \<Rightarrow> f x)"

lemma bind_res_simps [simp]:
  "bind_res (Inl e) f = Inl e"
  "bind_res (Inr x) f = f x"
  by (simp_all add: bind_res_def)

lemma bind_res_Inr_iff: "bind_res m f = Inr y \<longleftrightarrow> (\<exists>x. m = Inr x \<and> f x = Inr y)"
  by (cases m) simp_all

definition ggml_assert :: "bool \<Rightarrow> string \<Rightarrow> 'a res \<Rightarrow> 'a res" where
  "ggml_assert b msg k = (if b then k else Inl (GGML_ASSERT msg))"

lemma ggml_assert_simps [simp]:
  "ggml_assert True msg k = k"
  "ggml_assert False msg k = Inl (GGML_ASSERT msg)"
  by (simp_all add: ggml_assert_def)

lemma ggml_assert_Inr_iff: "ggml_assert b msg k = Inr y \<longleftrightarrow> b \<and> k = Inr y"
  by (simp add: ggml_assert_def)

text \<open>A loop whose body can fail, and a loop that may not return (\<open>None\<close>).\<close>

primrec fold_res :: "('a \<Rightarrow> 's \<Rightarrow> 's res) \<Rightarrow> 'a list \<Rightarrow> 's \<Rightarrow> 's res" where
  "fold_res f [] s = Inr s"
| "fold_res f (x # xs) s = bind_res (f x s) (fold_res f xs)"

lemma fold_res_append: "fold_res f (xs @ ys) s = bind_res (fold_res f xs s) (fold_res f ys)"
proof (induction xs arbitrary: s)
  case (Cons x xs)
  then show ?case by (cases "f x s") simp_all
qed simp

lemma fold_res_invariant:
  assumes "I s" and "\<And>x s. x \<in> set xs \<Longrightarrow> I s \<Longrightarrow> \<exists>s'. f x s = Inr s' \<and> I s'"
  shows "\<exists>s'. fold_res f xs s = Inr s' \<and> I s'"
  using assms
proof (induction xs arbitrary: s)
  case (Cons x xs)
  then obtain s1 where "f x s = Inr s1" "I s1" by (metis list.set_intros(1))
  moreover from this Cons obtain s2 where "fold_res f xs s1 = Inr s2" "I s2" by (metis list.set_intros(2))
  ultimately show ?case by simp
qed simp

definition run_loop :: "'a option \<Rightarrow> 'a res" where
  "run_loop r = (case r of None \<Rightarrow> Inl DIVERGES | Some x \<Rightarrow> Inr x)"

lemma run_loop_simps [simp]: "run_loop None = Inl DIVERGES" "run_loop (Some x) = Inr x"
  by (simp_all add: run_loop_def)

lemmas res_Inr_iffs = bind_res_Inr_iff ggml_assert_Inr_iff

named_theorems cells_view \<open>how an operation changes the per-cell view of a cell array\<close>
named_theorems cells_wf_intros \<open>operations that preserve the invariant of a cell array\<close>

text \<open>C++ integer division truncates towards zero.\<close>

definition cdiv :: "int \<Rightarrow> int \<Rightarrow> int" where
  "cdiv a b = sgn a * sgn b * (\<bar>a\<bar> div \<bar>b\<bar>)"

lemma cdiv_pos: "0 \<le> a \<Longrightarrow> 0 < b \<Longrightarrow> cdiv a b = a div b"
  by (cases "a = 0") (simp_all add: cdiv_def)

text \<open>\<open>uint32_t\<close> and \<open>int32_t\<close> conversions of an \<open>int\<close>.\<close>

definition to_u32 :: "int \<Rightarrow> int" where
  "to_u32 x = x mod 2 ^ 32"

definition to_i32 :: "int \<Rightarrow> int" where
  "to_i32 x = (let y = x mod 2 ^ 32 in if y < 2 ^ 31 then y else y - 2 ^ 32)"

lemma to_i32_id: "0 \<le> x \<Longrightarrow> x < 2 ^ 31 \<Longrightarrow> to_i32 x = x"
  by (simp add: to_i32_def Let_def)

lemma to_u32_id: "0 \<le> x \<Longrightarrow> x < 2 ^ 32 \<Longrightarrow> to_u32 x = x"
  by (simp add: to_u32_def)

subsection \<open>Bounds\<close>

text \<open>\<open>GGML_PAD(x, n)\<close> of \<^verbatim>\<open>ggml/include/ggml.h\<close> is \<open>((x) + (n) - 1) & ~((n) - 1)\<close>. Clearing the
  bits of a mask is subtracting the bits that are set in it; below \<open>2 ^ 32\<close> this is the macro.\<close>

definition GGML_PAD :: "nat \<Rightarrow> nat \<Rightarrow> nat" where
  "GGML_PAD x n = (let a = x + n - 1 in a - (a AND (n - 1)))"

lemma and_nat_upper2: "(a::nat) AND b \<le> b"
proof -
  have "int (a AND b) = int a AND int b" by (rule of_nat_and_eq)
  also have "\<dots> \<le> int b" by (rule AND_upper2) simp
  finally show ?thesis by simp
qed

lemma GGML_PAD_ge: "0 < n \<Longrightarrow> x \<le> GGML_PAD x n"
  using and_nat_upper2 [of "x + n - 1" "n - 1"] unfolding GGML_PAD_def Let_def by linarith

lemma GGML_PAD_less: "0 < n \<Longrightarrow> GGML_PAD x n < x + n"
  unfolding GGML_PAD_def Let_def by linarith

lemma GGML_PAD_dvd: "2 ^ k dvd GGML_PAD x (2 ^ k)"
proof -
  have "(x + 2 ^ k - 1) AND (2 ^ k - 1) = (x + 2 ^ k - 1) mod 2 ^ k"
    by (metis mask_eq_exp_minus_1 take_bit_eq_mask take_bit_eq_mod)
  then show ?thesis by (simp add: GGML_PAD_def Let_def minus_mod_eq_mult_div)
qed

subsection \<open>Loops over independent keys\<close>

text \<open>A loop that touches, for each key of a duplicate-free list, only the entry of that key.\<close>

lemma fold_fun_upd_pointwise:
  assumes "distinct xs"
  shows "fold (\<lambda>s f. if P s then f(s := g s (f s)) else f) xs f
         = (\<lambda>s. if s \<in> set xs \<and> P s then g s (f s) else f s)"
  using assms by (induction xs arbitrary: f) auto

lemma fold_invariant_mem:
  assumes "I s" and "\<And>x s. x \<in> set xs \<Longrightarrow> I s \<Longrightarrow> I (f x s)"
  shows "I (fold f xs s)"
  using assms by (induction xs arbitrary: s) auto

lemma fold_upt_Suc: "fold f [0..<Suc n] s = f n (fold f [0..<n] s)"
  by simp

text \<open>One field of a record that a loop updates evolves by its own loop.\<close>

lemma fold_proj:
  assumes "\<And>i u. i \<in> set xs \<Longrightarrow> P u \<Longrightarrow> f (g i u) = h i (f u) \<and> P (g i u)" "P u"
  shows "f (fold g xs u) = fold h xs (f u)"
  using assms by (induction xs arbitrary: u) auto

lemma fold_unchanged [simp]: "fold (\<lambda>i s. s) xs s = s"
  by (induction xs) simp_all

lemma fold_update_nth:
  "fold (\<lambda>i a. a[i := f i]) is xs ! j = (if j \<in> set is \<and> j < length xs then f j else xs ! j)"
proof (induction "is" arbitrary: xs)
  case (Cons i "is")
  show ?case using Cons.IH [of "xs[i := f i]"] by (cases "j = i") (auto simp: nth_list_update list_update_beyond)
qed simp

lemma fold_update_length [simp]: "length (fold (\<lambda>i a. a[i := f i]) is xs) = length xs"
  by (induction "is" arbitrary: xs) simp_all

lemma fold_update_upt:
  assumes "length xs = n"
  shows "fold (\<lambda>i a. a[i := f i]) [0..<n] xs = map f [0..<n]"
  using assms by (intro nth_equalityI) (simp_all add: fold_update_nth)

text \<open>Nested loops that write each cell of an injective index map once.\<close>

lemma fold_update_key:
  assumes "inj_on H (set ps)" "p \<in> set ps" "H p < length l"
  shows "fold (\<lambda>p l. l[H p := V p]) ps l ! H p = V p"
  using assms
proof (induction ps rule: rev_induct)
  case (snoc q ps)
  have len: "length (fold (\<lambda>p l. l[H p := V p]) ps l) = length l"
    by (rule fold_invariant_mem [where I = "\<lambda>x. length x = length l"]) simp_all
  show ?case
  proof (cases "H p = H q")
    case True
    then have "p = q" using inj_onD [OF snoc.prems(1) True] snoc.prems(2) by simp
    then show ?thesis using snoc.prems len by simp
  next
    case False
    then show ?thesis using snoc by auto
  qed
qed simp

lemma fold_nested_product:
  "fold (\<lambda>i. fold (\<lambda>j. f (i, j)) js) is l = fold f (List.product is js) l"
  by (induction "is" arbitrary: l) (simp_all add: fold_map comp_def)

lemma fold_nested_update_nth:
  assumes "inj_on H ({..<m} \<times> {..<n})" "i < m" "j < n" "H (i, j) < length l"
  shows "fold (\<lambda>i. fold (\<lambda>j l. l[H (i, j) := V (i, j)]) [0..<n]) [0..<m] l ! H (i, j) = V (i, j)"
proof -
  have "set (List.product [0..<m] [0..<n]) = {..<m} \<times> {..<n}" by auto
  then show ?thesis
    using fold_update_key [of H "List.product [0..<m] [0..<n]" "(i, j)" l V] assms
    by (simp add: fold_nested_product [where f = "\<lambda>p l. l[H p := V p]"])
qed

lemma row_major_inj: "inj_on (\<lambda>(i, j). i * n + j) (UNIV \<times> {..<n})" for n :: nat
proof (rule inj_onI, clarify)
  fix i j i' j' assume "i * n + j = i' * n + j'" "j < n" "j' < n"
  then show "i = i' \<and> j = j'"
    by (metis add.commute add_left_cancel div_mult_self3 div_less add_0_right gr_implies_not0)
qed

lemma column_major_inj: "inj_on (\<lambda>(i, j). j * n + i) ({..<n} \<times> A)" for n :: nat
proof (rule inj_onI, clarify)
  fix i j i' j' assume "j * n + i = j' * n + i'" "i < n" "i' < n"
  then show "i = i' \<and> j = j'"
    using inj_onD [OF row_major_inj [of n], of "(j, i)" "(j', i')"] by simp
qed

lemma row_major_less: "i < m \<Longrightarrow> j < n \<Longrightarrow> i * n + j < m * n" for i j m n :: nat
  by (metis add_less_cancel_left less_le_trans mult.commute mult_Suc_right mult_le_mono2 Suc_leI add.commute)

lemma map_nth_upt: "map (\<lambda>i. f (xs ! i)) [0..<length xs] = map f xs"
  by (rule nth_equalityI) simp_all

subsection \<open>Counting maps\<close>

text \<open>A \<open>std::map<K, int>\<close> that counts occurrences and drops a key when its count returns to
  zero represents a function into \<open>nat\<close>.\<close>

definition count_map :: "('k \<Rightarrow> nat) \<Rightarrow> 'k \<Rightarrow> nat option" where
  "count_map f k = (if f k = 0 then None else Some (f k))"

lemma dom_count_map: "dom (count_map f) = {k. 0 < f k}"
  by (auto simp: count_map_def dom_def)

lemma count_map_eq_empty_iff: "count_map f = Map.empty \<longleftrightarrow> (\<forall>k. f k = 0)"
  by (auto simp: count_map_def fun_eq_iff)

lemma count_map_zero [simp]: "count_map (\<lambda>_. 0) = Map.empty"
  by (simp add: count_map_eq_empty_iff)

subsection \<open>Lists updated by index\<close>

lemma list_update_map_upt:
  "(map f [0..<n])[i := v] = map (f(i := v)) [0..<n]"
  by (rule nth_equalityI) (auto simp: nth_list_update)

lemma map_update_same [simp]:
  "i < length xs \<Longrightarrow> f (xs ! i) = v \<Longrightarrow> (map f xs)[i := v] = map f xs"
  by (metis length_map list_update_id nth_map)

lemma sum_list_update:
  fixes h :: "'a \<Rightarrow> nat"
  assumes "i < length xs"
  shows "(\<Sum>j<length xs. h (xs[i := v] ! j)) + h (xs ! i) = (\<Sum>j<length xs. h (xs ! j)) + h v"
proof -
  let ?A = "{..<length xs} - {i}"
  have "(\<Sum>j<length xs. h (xs[i := v] ! j)) = h v + (\<Sum>j\<in>?A. h (xs[i := v] ! j))"
    using assms by (subst sum.remove [of _ i]) auto
  moreover have "(\<Sum>j\<in>?A. h (xs[i := v] ! j)) = (\<Sum>j\<in>?A. h (xs ! j))"
    by (rule sum.cong) auto
  moreover have "(\<Sum>j<length xs. h (xs ! j)) = h (xs ! i) + (\<Sum>j\<in>?A. h (xs ! j))"
    using assms by (subst sum.remove [of _ i]) auto
  ultimately show ?thesis by simp
qed

end
