(* ===== verification/Hparams.thy ===== *)
theory Hparams
  imports Prelude
begin

section \<open>Model hyper-parameters\<close>

text \<open>
  \<^verbatim>\<open>src/llama-hparams.cpp\<close> and the inline \<open>is_masked_swa\<close> of \<^verbatim>\<open>src/llama-hparams.h\<close>: the per-layer
  queries the memory modules ask (is a layer sliding-window, recurrent, how wide are its key and
  value rows) and the predicate that decides whether a position lies outside the attention window.

  The scalar fields are \<open>uint32_t\<close> and are kept at that width (\<open>32 word\<close>), so the products of
  \<open>n_embd_k_gqa\<close> or \<open>n_embd_r\<close> wrap exactly as the code's do. The per-layer \<open>std::array\<close>s have
  \<open>LLAMA_MAX_LAYERS\<close> entries; a layer index beyond \<open>n_layer_all\<close> aborts the process, which is the
  \<open>Inl\<close> side of the result. \<open>hparams_ok\<close> is what the model loader guarantees before any of these
  is called: the arrays are large enough for the layers and the next-token layers are among them.
\<close>

type_synonym u32 = "32 word"

definition LLAMA_MAX_LAYERS :: nat where
  "LLAMA_MAX_LAYERS = 512"

datatype llama_swa_type =
    LLAMA_SWA_TYPE_NONE
  | LLAMA_SWA_TYPE_STANDARD
  | LLAMA_SWA_TYPE_CHUNKED
  | LLAMA_SWA_TYPE_SYMMETRIC

datatype llama_rope_type =
    LLAMA_ROPE_TYPE_NONE
  | LLAMA_ROPE_TYPE_NORM
  | LLAMA_ROPE_TYPE_NEOX
  | LLAMA_ROPE_TYPE_MROPE
  | LLAMA_ROPE_TYPE_IMROPE
  | LLAMA_ROPE_TYPE_VISION

record llama_hparams =
  hp_n_embd :: u32
  hp_n_layer_all :: u32
  hp_n_layer_nextn :: u32
  hp_n_layer_kv_from_start :: int
  hp_n_embd_head_k_full :: u32
  hp_n_embd_head_v_full :: u32
  hp_n_embd_head_k_swa :: u32
  hp_n_embd_head_v_swa :: u32
  hp_n_rot_full :: u32
  hp_n_rot_swa :: u32
  hp_n_embd_head_k_mla_impl :: u32
  hp_n_embd_head_v_mla_impl :: u32
  hp_n_shortconv_l_cache :: u32
  hp_n_head_arr :: "u32 list"
  hp_n_head_kv_arr :: "u32 list"
  hp_n_ff_arr :: "u32 list"
  hp_wkv_head_size :: u32
  hp_token_shift_count :: u32
  hp_rope_sections :: "int list"
  hp_is_swa_impl :: "bool list"
  hp_is_recr_impl :: "bool list"
  hp_ssm_d_conv :: u32
  hp_ssm_d_inner :: u32
  hp_ssm_d_state :: u32
  hp_ssm_n_group :: u32
  hp_n_embd_head_kda :: u32
  hp_n_embd_inp_impl :: u32
  hp_n_embd_inp_enc_impl :: u32
  hp_n_embd_out_impl :: u32
  hp_is_indexer_full_impl :: "bool list"
  hp_dsv4_hc_mult :: u32
  hp_ple_ngram_size :: u32
  hp_ple_conv_kernel :: u32
  hp_ple_n_heads :: u32
  hp_is_ple_impl :: "bool list"
  hp_ple_image_token_id :: u32
  hp_ple_eos_token_id :: u32
  hp_n_deepstack_layers :: u32
  hp_rope_type :: llama_rope_type

definition n_layer_hp :: "llama_hparams \<Rightarrow> u32" where
  "n_layer_hp hp = hp_n_layer_all hp - hp_n_layer_nextn hp"

text \<open>An access \<open>arr[il]\<close> guarded by \<open>il < n\<close>, with \<open>GGML_ABORT\<close> as the other branch: the shape of
  every per-layer getter.\<close>

definition layer_get :: "u32 \<Rightarrow> 'a list \<Rightarrow> nat \<Rightarrow> 'a res" where
  "layer_get n arr il = (if il < unat n then Inr (arr ! il) else Inl (GGML_ABORT ''fatal error''))"

definition n_head :: "llama_hparams \<Rightarrow> nat \<Rightarrow> u32 res" where
  "n_head hp il = layer_get (hp_n_layer_all hp) (hp_n_head_arr hp) il"

definition n_head_kv :: "llama_hparams \<Rightarrow> nat \<Rightarrow> u32 res" where
  "n_head_kv hp il = layer_get (hp_n_layer_all hp) (hp_n_head_kv_arr hp) il"

definition n_ff :: "llama_hparams \<Rightarrow> nat \<Rightarrow> u32 res" where
  "n_ff hp il = layer_get (hp_n_layer_all hp) (hp_n_ff_arr hp) il"

definition is_swa :: "llama_hparams \<Rightarrow> nat \<Rightarrow> bool res" where
  "is_swa hp il = layer_get (hp_n_layer_all hp) (hp_is_swa_impl hp) il"

definition is_recr :: "llama_hparams \<Rightarrow> nat \<Rightarrow> bool res" where
  "is_recr hp il = layer_get (hp_n_layer_all hp) (hp_is_recr_impl hp) il"

definition is_ple :: "llama_hparams \<Rightarrow> nat \<Rightarrow> bool res" where
  "is_ple hp il = layer_get (hp_n_layer_all hp) (hp_is_ple_impl hp) il"

definition is_indexer_full :: "llama_hparams \<Rightarrow> nat \<Rightarrow> bool res" where
  "is_indexer_full hp il = layer_get (n_layer_hp hp) (hp_is_indexer_full_impl hp) il"

definition n_gqa :: "llama_hparams \<Rightarrow> nat \<Rightarrow> u32 res" where
  "n_gqa hp il = bind_res (n_head hp il) (\<lambda>nh.
     bind_res (n_head_kv hp il) (\<lambda>nkv.
       if nkv = 0 then Inr 0 else Inr (nh div nkv)))"

definition n_rot :: "llama_hparams \<Rightarrow> nat \<Rightarrow> u32 res" where
  "n_rot hp il = (if il < unat (hp_n_layer_all hp)
     then bind_res (is_swa hp il) (\<lambda>b. Inr (if b then hp_n_rot_swa hp else hp_n_rot_full hp))
     else Inl (GGML_ABORT ''fatal error''))"

definition n_embd_inp :: "llama_hparams \<Rightarrow> u32" where
  "n_embd_inp hp = (if hp_n_embd_inp_impl hp > 0 then hp_n_embd_inp_impl hp
     else if hp_n_deepstack_layers hp > 0
          then hp_n_embd hp + hp_n_embd hp * hp_n_deepstack_layers hp
          else hp_n_embd hp)"

definition n_embd_inp_enc :: "llama_hparams \<Rightarrow> u32" where
  "n_embd_inp_enc hp = (if hp_n_embd_inp_enc_impl hp > 0 then hp_n_embd_inp_enc_impl hp
     else n_embd_inp hp)"

definition n_embd_out :: "llama_hparams \<Rightarrow> u32" where
  "n_embd_out hp = (if hp_n_embd_out_impl hp > 0 then hp_n_embd_out_impl hp else hp_n_embd hp)"

definition n_embd_head_k :: "llama_hparams \<Rightarrow> nat \<Rightarrow> u32 res" where
  "n_embd_head_k hp il = (if il < unat (hp_n_layer_all hp)
     then bind_res (is_swa hp il)
            (\<lambda>b. Inr (if b then hp_n_embd_head_k_swa hp else hp_n_embd_head_k_full hp))
     else Inl (GGML_ABORT ''fatal error''))"

definition n_embd_head_v :: "llama_hparams \<Rightarrow> nat \<Rightarrow> u32 res" where
  "n_embd_head_v hp il = (if il < unat (hp_n_layer_all hp)
     then bind_res (is_swa hp il)
            (\<lambda>b. Inr (if b then hp_n_embd_head_v_swa hp else hp_n_embd_head_v_full hp))
     else Inl (GGML_ABORT ''fatal error''))"

definition n_embd_k_gqa :: "llama_hparams \<Rightarrow> nat \<Rightarrow> u32 res" where
  "n_embd_k_gqa hp il = bind_res (n_head_kv hp il) (\<lambda>nkv.
     bind_res (n_embd_head_k hp il) (\<lambda>k. Inr (k * nkv)))"

definition n_embd_v_gqa :: "llama_hparams \<Rightarrow> nat \<Rightarrow> u32 res" where
  "n_embd_v_gqa hp il = bind_res (n_head_kv hp il) (\<lambda>nkv.
     bind_res (n_embd_head_v hp il) (\<lambda>v. Inr (v * nkv)))"

text \<open>The two loop shapes of the file, over a per-layer query \<open>f\<close> that may abort: is there a layer
  whose value differs from \<open>val\<close>, and the running maximum.\<close>

fun any_differs :: "(nat \<Rightarrow> u32 res) \<Rightarrow> u32 \<Rightarrow> nat list \<Rightarrow> bool res" where
  "any_differs f val [] = Inr False"
| "any_differs f val (il # ils) = bind_res (f il) (\<lambda>x.
     if val \<noteq> x then Inr True else any_differs f val ils)"

fun running_max :: "(nat \<Rightarrow> u32 res) \<Rightarrow> u32 \<Rightarrow> nat list \<Rightarrow> u32 res" where
  "running_max f val [] = Inr val"
| "running_max f val (il # ils) = bind_res (f il) (\<lambda>x. running_max f (max val x) ils)"

definition is_n_embd_k_gqa_variable :: "llama_hparams \<Rightarrow> bool res" where
  "is_n_embd_k_gqa_variable hp = bind_res (n_embd_k_gqa hp 0) (\<lambda>val.
     any_differs (n_embd_k_gqa hp) val [0..<unat (hp_n_layer_all hp)])"

definition is_n_embd_v_gqa_variable :: "llama_hparams \<Rightarrow> bool res" where
  "is_n_embd_v_gqa_variable hp = bind_res (n_embd_v_gqa hp 0) (\<lambda>val.
     any_differs (n_embd_v_gqa hp) val [0..<unat (hp_n_layer_all hp)])"

definition n_embd_k_gqa_max :: "llama_hparams \<Rightarrow> u32 res" where
  "n_embd_k_gqa_max hp = bind_res (n_embd_k_gqa hp 0) (\<lambda>val.
     running_max (n_embd_k_gqa hp) val [0..<unat (hp_n_layer_all hp)])"

definition n_embd_v_gqa_max :: "llama_hparams \<Rightarrow> u32 res" where
  "n_embd_v_gqa_max hp = bind_res (n_embd_v_gqa hp 0) (\<lambda>val.
     running_max (n_embd_v_gqa hp) val [0..<unat (hp_n_layer_all hp)])"

definition n_embd_r :: "llama_hparams \<Rightarrow> u32 res" where
  "n_embd_r hp =
    (if hp_wkv_head_size hp \<noteq> 0 then Inr (hp_token_shift_count hp * hp_n_embd hp)
     else if hp_n_shortconv_l_cache hp \<noteq> 0 then Inr (hp_n_embd hp * (hp_n_shortconv_l_cache hp - 1))
     else if hp_n_embd_head_kda hp \<noteq> 0 then
       bind_res (n_head hp 0) (\<lambda>nh.
         let d_inner = nh * hp_n_embd_head_kda hp
         in Inr (3 * (if hp_ssm_d_conv hp > 0 then hp_ssm_d_conv hp - 1 else 3) * d_inner))
     else Inr ((if hp_ssm_d_conv hp > 0 then hp_ssm_d_conv hp - 1 else 0)
               * (hp_ssm_d_inner hp + 2 * hp_ssm_n_group hp * hp_ssm_d_state hp)))"

definition n_embd_s :: "llama_hparams \<Rightarrow> u32 res" where
  "n_embd_s hp =
    (if hp_wkv_head_size hp \<noteq> 0 then Inr (hp_n_embd hp * hp_wkv_head_size hp)
     else if hp_n_embd_head_kda hp \<noteq> 0 then
       bind_res (n_head hp 0) (\<lambda>nh. Inr (hp_n_embd_head_kda hp * hp_n_embd_head_kda hp * nh))
     else Inr (hp_ssm_d_state hp * hp_ssm_d_inner hp))"

definition ple_conv_state :: "llama_hparams \<Rightarrow> u32" where
  "ple_conv_state hp = (if hp_ple_n_heads hp = 0 \<or> hp_ple_conv_kernel hp = 0 then 0
     else (hp_ple_conv_kernel hp - 1) * hp_ple_ngram_size hp * hp_dsv4_hc_mult hp * hp_n_embd hp)"

definition n_pos_per_embd :: "llama_hparams \<Rightarrow> nat" where
  "n_pos_per_embd hp = (if hp_rope_type hp = LLAMA_ROPE_TYPE_MROPE
                         \<or> hp_rope_type hp = LLAMA_ROPE_TYPE_IMROPE then 4 else 1)"

definition is_mla :: "llama_hparams \<Rightarrow> bool" where
  "is_mla hp \<longleftrightarrow> hp_n_embd_head_k_mla_impl hp \<noteq> 0 \<and> hp_n_embd_head_v_mla_impl hp \<noteq> 0"

definition n_embd_head_k_mla :: "llama_hparams \<Rightarrow> u32 res" where
  "n_embd_head_k_mla hp = (if is_mla hp then Inr (hp_n_embd_head_k_mla_impl hp)
                           else n_embd_head_k hp 0)"

definition n_embd_head_v_mla :: "llama_hparams \<Rightarrow> u32 res" where
  "n_embd_head_v_mla hp = (if is_mla hp then Inr (hp_n_embd_head_v_mla_impl hp)
                           else n_embd_head_v hp 0)"

definition has_kv :: "llama_hparams \<Rightarrow> nat \<Rightarrow> bool" where
  "has_kv hp il = (if hp_n_layer_kv_from_start hp \<ge> 0
     then int il < hp_n_layer_kv_from_start hp else True)"

definition use_mrope :: "llama_hparams \<Rightarrow> bool" where
  "use_mrope hp \<longleftrightarrow> hp_rope_sections hp ! 0 > 0 \<and> hp_rope_sections hp ! 1 > 0"

subsection \<open>Layer patterns\<close>

text \<open>One assignment of the pattern loops: \<open>n_pattern == 0 || il % n_pattern != 0\<close> when the pattern
  starts with a dense layer, \<open>n_pattern == 0 || il % n_pattern < n_pattern - 1\<close> otherwise.\<close>

definition pattern_bit :: "nat \<Rightarrow> bool \<Rightarrow> nat \<Rightarrow> bool" where
  "pattern_bit n_pattern dense_first il = (if dense_first
     then n_pattern = 0 \<or> il mod n_pattern \<noteq> 0
     else n_pattern = 0 \<or> il mod n_pattern < n_pattern - 1)"

definition set_pattern :: "llama_hparams \<Rightarrow> nat \<Rightarrow> bool \<Rightarrow> bool list \<Rightarrow> bool list" where
  "set_pattern hp n_pattern dense_first arr =
    (let arr1 = fold (\<lambda>il a. a[il := pattern_bit n_pattern dense_first il])
                     [0..<unat (n_layer_hp hp)] arr
     in fold (\<lambda>il a. a[il := False]) [unat (n_layer_hp hp)..<unat (hp_n_layer_all hp)] arr1)"

definition set_swa_pattern :: "llama_hparams \<Rightarrow> nat \<Rightarrow> bool \<Rightarrow> llama_hparams" where
  "set_swa_pattern hp n_pattern dense_first =
     hp\<lparr>hp_is_swa_impl := set_pattern hp n_pattern dense_first (hp_is_swa_impl hp)\<rparr>"

definition set_recr_pattern :: "llama_hparams \<Rightarrow> nat \<Rightarrow> bool \<Rightarrow> llama_hparams" where
  "set_recr_pattern hp n_pattern dense_first =
     hp\<lparr>hp_is_recr_impl := set_pattern hp n_pattern dense_first (hp_is_recr_impl hp)\<rparr>"

fun is_swa_any_from :: "bool list \<Rightarrow> nat list \<Rightarrow> bool" where
  "is_swa_any_from arr [] = False"
| "is_swa_any_from arr (il # ils) = (if arr ! il then True else is_swa_any_from arr ils)"

definition is_swa_any :: "llama_hparams \<Rightarrow> bool" where
  "is_swa_any hp = is_swa_any_from (hp_is_swa_impl hp) [0..<unat (hp_n_layer_all hp)]"

subsection \<open>The sliding-window predicate\<close>

text \<open>\<open>p1 / n_swa\<close> mixes \<open>int32_t\<close> and \<open>uint32_t\<close>, so \<open>p1\<close> is first converted to unsigned; the chunk
  start is then converted back to \<open>llama_pos\<close>.\<close>

fun is_masked_swa :: "nat \<Rightarrow> llama_swa_type \<Rightarrow> llama_pos \<Rightarrow> llama_pos \<Rightarrow> bool" where
  "is_masked_swa n_swa LLAMA_SWA_TYPE_NONE p0 p1 = False"
| "is_masked_swa n_swa LLAMA_SWA_TYPE_STANDARD p0 p1 = (p1 - p0 \<ge> to_i32 (int n_swa))"
| "is_masked_swa n_swa LLAMA_SWA_TYPE_CHUNKED p0 p1 =
    (let pos_chunk_start = to_i32 (to_u32 p1 div int n_swa * int n_swa)
     in p0 < pos_chunk_start)"
| "is_masked_swa n_swa LLAMA_SWA_TYPE_SYMMETRIC p0 p1 =
    (let half_n_swa = cdiv (to_i32 (int n_swa)) 2; pos_diff = p1 - p0
     in pos_diff < - half_n_swa \<or> pos_diff > half_n_swa)"

definition hparams_ok :: "llama_hparams \<Rightarrow> bool" where
  "hparams_ok hp \<longleftrightarrow> hp_n_layer_nextn hp \<le> hp_n_layer_all hp \<and> unat (hp_n_layer_all hp) \<le> LLAMA_MAX_LAYERS
     \<and> length (hp_is_swa_impl hp) = LLAMA_MAX_LAYERS \<and> length (hp_is_recr_impl hp) = LLAMA_MAX_LAYERS"

lemma unat_n_layer:
  assumes "hparams_ok hp"
  shows "unat (n_layer_hp hp) = unat (hp_n_layer_all hp) - unat (hp_n_layer_nextn hp)"
  using assms by (simp add: n_layer_hp_def hparams_ok_def unat_sub)

lemma set_pattern_nth:
  assumes "hparams_ok hp" "length arr = LLAMA_MAX_LAYERS" "il < unat (hp_n_layer_all hp)"
  shows "set_pattern hp n b arr ! il \<longleftrightarrow> il < unat (n_layer_hp hp) \<and> pattern_bit n b il"
  using assms unat_n_layer [OF assms(1)]
  by (auto simp: set_pattern_def Let_def fold_update_nth hparams_ok_def)

lemma pattern_bit_dense:
  assumes "0 < n"
  shows "\<not> pattern_bit n b il \<longleftrightarrow> (if b then n dvd il else n dvd il + 1)"
proof (cases b)
  case False
  have "il mod n < n" using assms by simp
  then have "\<not> il mod n < n - 1 \<longleftrightarrow> il mod n + 1 = n" by linarith
  also have "\<dots> \<longleftrightarrow> n dvd il + 1"
  proof
    assume "il mod n + 1 = n"
    then have "(il + 1) mod n = 0" by (metis mod_Suc Suc_eq_plus1)
    then show "n dvd il + 1" by (simp add: dvd_eq_mod_eq_0)
  next
    assume "n dvd il + 1"
    then have "Suc il mod n = 0" by simp
    then show "il mod n + 1 = n" by (simp add: mod_Suc split: if_splits)
  qed
  finally show ?thesis using False assms by (simp add: pattern_bit_def)
qed (use assms in \<open>simp add: pattern_bit_def dvd_eq_mod_eq_0\<close>)

lemma dvd_window_ex1:
  assumes "0 < (n::nat)"
  shows "\<exists>!il. a \<le> il \<and> il < a + n \<and> n dvd il"
proof (rule ex_ex1I)
  let ?q = "(a + n - 1) div n * n"
  have "?q \<le> a + n - 1" by simp
  moreover have "a + n - 1 < ?q + n" using assms div_mult_mod_eq [of "a + n - 1" n]
    by (metis mod_less_divisor nat_add_left_cancel_less)
  ultimately have "a \<le> ?q \<and> ?q < a + n" using assms by linarith
  then have "a \<le> ?q \<and> ?q < a + n \<and> n dvd ?q" by simp
  then show "\<exists>il. a \<le> il \<and> il < a + n \<and> n dvd il" by blast
next
  fix i j assume *: "a \<le> i \<and> i < a + n \<and> n dvd i" "a \<le> j \<and> j < a + n \<and> n dvd j"
  have d: "n dvd j - i" "n dvd i - j" using * by (simp_all add: dvd_diff_nat)
  show "i = j"
  proof (rule ccontr)
    assume "i \<noteq> j"
    then have "0 < j - i \<or> 0 < i - j" by linarith
    moreover have "j - i < n" "i - j < n" using * by linarith+
    ultimately show False using d nat_dvd_not_less by blast
  qed
qed

text \<open>\<open>set_swa_pattern\<close> marks exactly one layer dense in every window of \<open>n_pattern\<close> consecutive
  layers, and no next-token layer sliding-window; layer 0 is dense iff \<open>dense_first\<close> or the period
  is 1. This is the every-nth-layer-is-dense rule that the header documents.\<close>

theorem set_swa_pattern_every_nth_dense:
  assumes ok: "hparams_ok hp" and n: "0 < n_pattern" and a: "a + n_pattern \<le> unat (n_layer_hp hp)"
  shows "(\<exists>!il. a \<le> il \<and> il < a + n_pattern
            \<and> is_swa (set_swa_pattern hp n_pattern dense_first) il = Inr False)
       \<and> (is_swa (set_swa_pattern hp n_pattern dense_first) 0 = Inr False \<longleftrightarrow> dense_first \<or> n_pattern = 1)
       \<and> (\<forall>il. unat (n_layer_hp hp) \<le> il \<and> il < unat (hp_n_layer_all hp)
            \<longrightarrow> is_swa (set_swa_pattern hp n_pattern dense_first) il = Inr False)"
proof -
  let ?hp = "set_swa_pattern hp n_pattern dense_first"
  have le: "unat (n_layer_hp hp) \<le> unat (hp_n_layer_all hp)" using unat_n_layer [OF ok] by simp
  have sw: "is_swa ?hp il = Inr False \<longleftrightarrow> il \<ge> unat (n_layer_hp hp) \<or> \<not> pattern_bit n_pattern dense_first il"
    if "il < unat (hp_n_layer_all hp)" for il
    using set_pattern_nth [OF ok _ that, of "hp_is_swa_impl hp"] ok that
    by (auto simp: is_swa_def layer_get_def set_swa_pattern_def hparams_ok_def)
  have win: "\<exists>!il. a \<le> il \<and> il < a + n_pattern \<and> \<not> pattern_bit n_pattern dense_first il"
  proof (cases dense_first)
    case True
    show ?thesis using dvd_window_ex1 [OF n, of a] by (simp add: pattern_bit_dense [OF n] True)
  next
    case False
    obtain j where j: "a + 1 \<le> j \<and> j < a + 1 + n_pattern \<and> n_pattern dvd j"
      and u: "\<And>k. a + 1 \<le> k \<and> k < a + 1 + n_pattern \<and> n_pattern dvd k \<Longrightarrow> k = j"
      using dvd_window_ex1 [OF n, of "a + 1"] by blast
    show ?thesis
    proof (rule ex1I [of _ "j - 1"])
      show "a \<le> j - 1 \<and> j - 1 < a + n_pattern \<and> \<not> pattern_bit n_pattern dense_first (j - 1)"
        using j by (auto simp: pattern_bit_dense [OF n] False)
      fix il assume "a \<le> il \<and> il < a + n_pattern \<and> \<not> pattern_bit n_pattern dense_first il"
      then have "il + 1 = j" using u [of "il + 1"] by (simp add: pattern_bit_dense [OF n] False)
      then show "il = j - 1" by simp
    qed
  qed
  have eq: "(a \<le> il \<and> il < a + n_pattern \<and> is_swa ?hp il = Inr False)
          \<longleftrightarrow> (a \<le> il \<and> il < a + n_pattern \<and> \<not> pattern_bit n_pattern dense_first il)" for il
    using sw [of il] a le by auto
  have "is_swa ?hp 0 = Inr False \<longleftrightarrow> \<not> pattern_bit n_pattern dense_first 0"
    using sw [of 0] a le n by auto
  also have "\<dots> \<longleftrightarrow> dense_first \<or> n_pattern = 1"
    using pattern_bit_dense [OF n, of dense_first 0] by simp
  finally show ?thesis using win sw by (simp add: eq)
qed

definition demo_hparams :: llama_hparams where
  "demo_hparams = \<lparr>hp_n_embd = 64, hp_n_layer_all = 7, hp_n_layer_nextn = 1, hp_n_layer_kv_from_start = -1,
     hp_n_embd_head_k_full = 16, hp_n_embd_head_v_full = 16, hp_n_embd_head_k_swa = 8,
     hp_n_embd_head_v_swa = 8, hp_n_rot_full = 16, hp_n_rot_swa = 8,
     hp_n_embd_head_k_mla_impl = 0, hp_n_embd_head_v_mla_impl = 0, hp_n_shortconv_l_cache = 0,
     hp_n_head_arr = replicate 512 4, hp_n_head_kv_arr = replicate 512 2, hp_n_ff_arr = replicate 512 256,
     hp_wkv_head_size = 0, hp_token_shift_count = 2, hp_rope_sections = [0, 0, 0, 0],
     hp_is_swa_impl = replicate 512 False, hp_is_recr_impl = replicate 512 False,
     hp_ssm_d_conv = 0, hp_ssm_d_inner = 0, hp_ssm_d_state = 0, hp_ssm_n_group = 0,
     hp_n_embd_head_kda = 0, hp_n_embd_inp_impl = 0, hp_n_embd_inp_enc_impl = 0, hp_n_embd_out_impl = 0,
     hp_is_indexer_full_impl = replicate 512 False, hp_dsv4_hc_mult = 0, hp_ple_ngram_size = 0,
     hp_ple_conv_kernel = 0, hp_ple_n_heads = 0, hp_is_ple_impl = replicate 512 False,
     hp_ple_image_token_id = 0, hp_ple_eos_token_id = 0, hp_n_deepstack_layers = 0, hp_rope_type = LLAMA_ROPE_TYPE_NEOX\<rparr>"

lemma demo_hparams_ok: "hparams_ok demo_hparams" "unat (n_layer_hp demo_hparams) = 6"
  "unat (hp_n_layer_all demo_hparams) = 7"
  by (simp_all add: hparams_ok_def demo_hparams_def LLAMA_MAX_LAYERS_def n_layer_hp_def)

theorem set_swa_pattern_every_nth_dense_witness:
  "hparams_ok demo_hparams \<and> (\<exists>!il. 2 \<le> il \<and> il < 2 + 3 \<and> is_swa (set_swa_pattern demo_hparams 3 False) il = Inr False)"
  using set_swa_pattern_every_nth_dense [OF demo_hparams_ok(1), of 3 2 False]
  by (simp add: demo_hparams_ok)

text \<open>What the getters return below \<open>n_layer_all\<close>.\<close>

lemma n_embd_k_gqa_total: "il < unat (hp_n_layer_all hp) \<Longrightarrow> \<exists>v. n_embd_k_gqa hp il = Inr v"
  by (simp add: n_embd_k_gqa_def n_head_kv_def layer_get_def n_embd_head_k_def is_swa_def)

lemma running_max_spec:
  assumes "\<And>il. il \<in> set ils \<Longrightarrow> \<exists>v. f il = Inr v"
  shows "\<exists>m. running_max f val ils = Inr m \<and> val \<le> m \<and> (m = val \<or> (\<exists>il \<in> set ils. f il = Inr m))
           \<and> (\<forall>il \<in> set ils. \<forall>v. f il = Inr v \<longrightarrow> v \<le> m)"
  using assms
proof (induction ils arbitrary: val)
  case (Cons il ils)
  obtain v where v: "f il = Inr v" using Cons.prems by auto
  obtain m where m: "running_max f (max val v) ils = Inr m" "max val v \<le> m"
    "m = max val v \<or> (\<exists>il \<in> set ils. f il = Inr m)" "\<forall>il \<in> set ils. \<forall>v. f il = Inr v \<longrightarrow> v \<le> m"
    using Cons.IH [of "max val v"] Cons.prems by auto
  show ?case
    using m v by (intro exI [of _ m]) (auto simp: max_def split: if_splits)
qed simp

lemma any_differs_spec:
  assumes "\<And>il. il \<in> set ils \<Longrightarrow> \<exists>v. f il = Inr v"
  shows "any_differs f val ils = Inr (\<exists>il \<in> set ils. f il \<noteq> Inr val)"
  using assms
proof (induction ils)
  case (Cons il ils)
  then obtain v where "f il = Inr v" by auto
  then show ?case using Cons by auto
qed simp

text \<open>C39. \<open>n_embd_k_gqa_max\<close> returns the largest key row of all layers, attained by one of them, and
  \<open>is_n_embd_k_gqa_variable\<close> answers false exactly when every layer has that row size: the graph
  may then use one row stride for the whole cache. Neither query aborts on a model with layers, and
  both abort on one without.\<close>

theorem n_embd_k_gqa_max_correct:
  "(hp_n_layer_all hp > 0 \<longrightarrow>
     (\<exists>m. n_embd_k_gqa_max hp = Inr m
        \<and> (\<exists>il < unat (hp_n_layer_all hp). n_embd_k_gqa hp il = Inr m)
        \<and> (\<forall>il < unat (hp_n_layer_all hp). \<exists>v \<le> m. n_embd_k_gqa hp il = Inr v)
        \<and> (is_n_embd_k_gqa_variable hp = Inr False
             \<longleftrightarrow> (\<forall>il < unat (hp_n_layer_all hp). n_embd_k_gqa hp il = Inr m))
        \<and> is_n_embd_k_gqa_variable hp \<in> {Inr True, Inr False}))
   \<and> (hp_n_layer_all hp = 0 \<longrightarrow> n_embd_k_gqa_max hp = Inl (GGML_ABORT ''fatal error''))"
proof (intro conjI impI)
  assume pos: "hp_n_layer_all hp > 0"
  let ?n = "unat (hp_n_layer_all hp)"
  have n0: "0 < ?n" using pos by (simp add: word_gt_0 unat_gt_0)
  have tot: "\<exists>v. n_embd_k_gqa hp il = Inr v" if "il < ?n" for il by (rule n_embd_k_gqa_total [OF that])
  obtain v0 where v0: "n_embd_k_gqa hp 0 = Inr v0" using tot [OF n0] by blast
  obtain m where m: "running_max (n_embd_k_gqa hp) v0 [0..<?n] = Inr m" "v0 \<le> m"
    "m = v0 \<or> (\<exists>il \<in> set [0..<?n]. n_embd_k_gqa hp il = Inr m)"
    "\<forall>il \<in> set [0..<?n]. \<forall>v. n_embd_k_gqa hp il = Inr v \<longrightarrow> v \<le> m"
    using running_max_spec [of "[0..<?n]" "n_embd_k_gqa hp" v0] tot by auto
  have var: "is_n_embd_k_gqa_variable hp = Inr (\<exists>il < ?n. n_embd_k_gqa hp il \<noteq> Inr v0)"
    using any_differs_spec [of "[0..<?n]" "n_embd_k_gqa hp" v0] tot v0
    by (auto simp: is_n_embd_k_gqa_variable_def)
  have att: "\<exists>il < ?n. n_embd_k_gqa hp il = Inr m" using m(3) v0 n0 by auto
  have ub: "\<forall>il < ?n. \<exists>v \<le> m. n_embd_k_gqa hp il = Inr v" using m(4) tot by fastforce
  have "(\<forall>il < ?n. n_embd_k_gqa hp il = Inr v0) \<longleftrightarrow> (\<forall>il < ?n. n_embd_k_gqa hp il = Inr m)"
    using att v0 n0 by (metis sum.inject(2))
  then show "\<exists>m. n_embd_k_gqa_max hp = Inr m \<and> (\<exists>il < ?n. n_embd_k_gqa hp il = Inr m)
      \<and> (\<forall>il < ?n. \<exists>v \<le> m. n_embd_k_gqa hp il = Inr v)
      \<and> (is_n_embd_k_gqa_variable hp = Inr False \<longleftrightarrow> (\<forall>il < ?n. n_embd_k_gqa hp il = Inr m))
      \<and> is_n_embd_k_gqa_variable hp \<in> {Inr True, Inr False}"
    using m(1) v0 att ub var by (intro exI [of _ m]) (auto simp: n_embd_k_gqa_max_def)
next
  assume "hp_n_layer_all hp = 0"
  then show "n_embd_k_gqa_max hp = Inl (GGML_ABORT ''fatal error'')"
    by (simp add: n_embd_k_gqa_max_def n_embd_k_gqa_def n_head_kv_def layer_get_def)
qed

theorem n_embd_k_gqa_max_correct_witness:
  "(\<exists>m. n_embd_k_gqa_max demo_hparams = Inr m \<and> (\<forall>il < 7. \<exists>v \<le> m. n_embd_k_gqa demo_hparams il = Inr v))"
proof -
  have "hp_n_layer_all demo_hparams > 0" by (simp add: demo_hparams_def)
  then show ?thesis using n_embd_k_gqa_max_correct [of demo_hparams] by (auto simp: demo_hparams_ok)
qed

text \<open>A position that has left the attention window stays outside it for every later query
  position, and every earlier position is outside with it, for each of the window types: this is
  what lets the cache reuse a masked cell and purge all older ones.\<close>

theorem is_masked_swa_monotone:
  assumes "is_masked_swa n_swa t p0 p1" "0 \<le> q0" "q0 \<le> p0" "p0 \<le> p1" "p1 \<le> q1" "q1 < 2 ^ 31"
    and "0 < n_swa" "n_swa < 2 ^ 31"
  shows "is_masked_swa n_swa t q0 q1"
proof (cases t)
  case LLAMA_SWA_TYPE_CHUNKED
  have n: "0 < int n_swa" using assms by simp
  have st: "to_i32 (to_u32 p div int n_swa * int n_swa) = p div int n_swa * int n_swa"
    if "0 \<le> p" "p < 2 ^ 31" for p
  proof -
    have "p div int n_swa * int n_swa \<le> p" 
      using pos_mod_sign [OF n, of p] div_mult_mod_eq [of p "int n_swa"] by linarith
    then show ?thesis using that n
      by (simp add: to_u32_id to_i32_id pos_imp_zdiv_nonneg_iff)
  qed
  have "p1 div int n_swa * int n_swa \<le> q1 div int n_swa * int n_swa"
    using assms n by (intro mult_right_mono zdiv_mono1) simp_all
  moreover have "p0 < p1 div int n_swa * int n_swa"
    using assms LLAMA_SWA_TYPE_CHUNKED by (simp add: st)
  ultimately have "q0 < q1 div int n_swa * int n_swa" using assms(3) by linarith
  then show ?thesis using assms LLAMA_SWA_TYPE_CHUNKED by (simp add: st)
next
  case LLAMA_SWA_TYPE_SYMMETRIC
  have "0 \<le> cdiv (int n_swa) 2" using assms by (simp add: cdiv_pos)
  then show ?thesis using assms LLAMA_SWA_TYPE_SYMMETRIC by (simp add: to_i32_id Let_def)
qed (use assms in auto)

theorem is_masked_swa_monotone_witness:
  "is_masked_swa 4 LLAMA_SWA_TYPE_CHUNKED 3 5 \<and> is_masked_swa 4 LLAMA_SWA_TYPE_CHUNKED 1 11"
proof -
  have "is_masked_swa 4 LLAMA_SWA_TYPE_CHUNKED 3 5"
    by (simp add: to_i32_def to_u32_def)
  then show ?thesis using is_masked_swa_monotone [of 4 LLAMA_SWA_TYPE_CHUNKED 3 5 1 11] by simp
qed

end
