(* ===== verification/Batch.thy ===== *)
theory Batch
  imports Hparams
begin

section \<open>Batches and their splitting into ubatches\<close>

text \<open>
  \<^verbatim>\<open>src/llama-batch.cpp\<close>: \<open>llama_batch_allocr\<close> sanitizes an input batch (\<open>init\<close>), fills in the fields
  the caller left out, and cuts it into ubatches with one of three strategies.

  \<^item> A pointer member that may be null is an \<open>option\<close>. The vectors \<open>pos\<close>, \<open>n_seq_id\<close>, \<open>seq_id\<close> and
    \<open>output\<close> of the class only back the generated members of \<open>batch\<close>, so the model stores the
    generated lists in the batch itself.
  \<^item> \<open>std::bitset<LLAMA_MAX_SEQ>\<close> is a set of sequence ids, \<open>seq_cpl\<close> a set of pairs,
    \<open>seq_set_map\<close> a function that is empty where the \<open>unordered_map\<close> has no entry.
  \<^item> Embedding rows are only copied; a \<open>float\<close> is its 32-bit pattern.
  \<^item> The memory that \<open>init\<close> consults is the pair of its \<open>seq_pos_min\<close> and \<open>seq_pos_max\<close>.
\<close>

type_synonym seq_set_t = "llama_seq_id set"

record llama_batch =
  b_n_tokens :: int
  b_token :: "llama_token list option"
  b_embd :: "u32 list option"
  b_pos :: "llama_pos list option"
  b_n_seq_id :: "nat list option"
  b_seq_id :: "llama_seq_id list list option"
  b_logits :: "int list option"

record llama_ubatch =
  ub_equal_seqs :: bool
  ub_n_tokens :: nat
  ub_n_seq_tokens :: nat
  ub_n_seqs :: nat
  ub_n_seqs_unq :: nat
  ub_n_pos :: nat
  ub_token :: "llama_token list option"
  ub_embd :: "u32 list option"
  ub_pos :: "llama_pos list"
  ub_n_seq_id :: "nat list"
  ub_seq_id :: "llama_seq_id list list"
  ub_seq_id_unq :: "llama_seq_id list"
  ub_seq_idx :: "int list"
  ub_output :: "int list"

record batch_allocr =
  ba_n_pos_per_embd :: nat
  ba_batch :: llama_batch
  ba_n_embd :: nat
  ba_n_seq_max :: nat
  ba_n_outputs :: nat
  ba_seq_id_unq :: "llama_seq_id list"
  ba_seq_idx :: "int list"
  ba_has_cpl :: bool
  ba_seq_pos :: "llama_pos set list"
  ba_seq_cpl :: "(llama_seq_id \<times> llama_seq_id) set"
  ba_seq_set :: "seq_set_t list"
  ba_seq_set_map :: "seq_set_t \<Rightarrow> nat list"
  ba_out_ids :: "nat list"
  ba_n_used :: nat
  ba_used :: "bool list"

text \<open>The arrays behind the pointers. An absent array reads as the empty list, whose elements are
  unspecified, like a dereference of null.\<close>

definition arr :: "'a list option \<Rightarrow> 'a list" where
  "arr x = (case x of None \<Rightarrow> [] | Some xs \<Rightarrow> xs)"

lemma arr_simps [simp]: "arr None = []" "arr (Some xs) = xs"
  by (simp_all add: arr_def)

definition n_tok :: "llama_batch \<Rightarrow> nat" where
  "n_tok b = nat (b_n_tokens b)"

text \<open>The ids the loop \<open>for (s = 0; s < n_seq_id[i]; ++s) seq_id[i][s]\<close> visits.\<close>

definition tok_seqs :: "llama_batch \<Rightarrow> nat \<Rightarrow> llama_seq_id list" where
  "tok_seqs b i = map (\<lambda>s. arr (b_seq_id b) ! i ! s) [0..<arr (b_n_seq_id b) ! i]"

definition batch_null :: llama_batch where
  "batch_null = \<lparr>b_n_tokens = 0, b_token = None, b_embd = None, b_pos = None, b_n_seq_id = None,
     b_seq_id = None, b_logits = None\<rparr>"

definition ubatch_null :: llama_ubatch where
  "ubatch_null = \<lparr>ub_equal_seqs = False, ub_n_tokens = 0, ub_n_seq_tokens = 0, ub_n_seqs = 0,
     ub_n_seqs_unq = 0, ub_n_pos = 0, ub_token = None, ub_embd = None, ub_pos = [], ub_n_seq_id = [],
     ub_seq_id = [], ub_seq_id_unq = [], ub_seq_idx = [], ub_output = []\<rparr>"

definition llama_batch_get_one :: "llama_token list \<Rightarrow> int \<Rightarrow> llama_batch" where
  "llama_batch_get_one tokens n_tokens = \<lparr>b_n_tokens = n_tokens, b_token = Some tokens, b_embd = None,
     b_pos = None, b_n_seq_id = None, b_seq_id = None, b_logits = None\<rparr>"

text \<open>\<open>llama_batch_init\<close>: the allocated arrays hold indeterminate values, the argument \<open>fresh\<close>.\<close>

definition llama_batch_init :: "(nat \<Rightarrow> int) \<Rightarrow> nat \<Rightarrow> nat \<Rightarrow> nat \<Rightarrow> llama_batch" where
  "llama_batch_init fresh n_tokens_alloc embd n_seq_max =
    \<lparr>b_n_tokens = 0,
     b_token = (if embd \<noteq> 0 then None else Some (map fresh [0..<n_tokens_alloc])),
     b_embd = (if embd \<noteq> 0 then Some (map (of_int \<circ> fresh) [0..<n_tokens_alloc * embd]) else None),
     b_pos = Some (map fresh [0..<n_tokens_alloc]),
     b_n_seq_id = Some (map (nat \<circ> fresh) [0..<n_tokens_alloc]),
     b_seq_id = Some (map (\<lambda>i. map fresh [0..<n_seq_max]) [0..<n_tokens_alloc]),
     b_logits = Some (map fresh [0..<n_tokens_alloc])\<rparr>"

definition allocr_new :: "nat \<Rightarrow> batch_allocr" where
  "allocr_new n_pos = \<lparr>ba_n_pos_per_embd = n_pos, ba_batch = batch_null,
     ba_n_embd = 0, ba_n_seq_max = 0, ba_n_outputs = 0, ba_seq_id_unq = [],
     ba_seq_idx = replicate LLAMA_MAX_SEQ (-1), ba_has_cpl = False,
     ba_seq_pos = replicate LLAMA_MAX_SEQ {}, ba_seq_cpl = {}, ba_seq_set = [],
     ba_seq_set_map = (\<lambda>_. []), ba_out_ids = [], ba_n_used = 0, ba_used = []\<rparr>"

definition allocr_clear :: "batch_allocr \<Rightarrow> batch_allocr" where
  "allocr_clear a = a\<lparr>ba_n_outputs := 0, ba_batch := batch_null, ba_seq_id_unq := [],
     ba_seq_pos := map (\<lambda>_. {}) (ba_seq_pos a), ba_seq_cpl := {}, ba_seq_set := [],
     ba_seq_set_map := (\<lambda>_. []), ba_seq_idx := map (\<lambda>_. -1) (ba_seq_idx a)\<rparr>"

definition get_n_tokens :: "batch_allocr \<Rightarrow> nat" where
  "get_n_tokens a = n_tok (ba_batch a)"

definition get_n_outputs :: "batch_allocr \<Rightarrow> nat" where
  "get_n_outputs a = ba_n_outputs a"

definition get_n_used :: "batch_allocr \<Rightarrow> nat" where
  "get_n_used a = ba_n_used a"

definition get_out_ids :: "batch_allocr \<Rightarrow> nat list" where
  "get_out_ids a = ba_out_ids a"

definition allocr_seq_pos_min :: "batch_allocr \<Rightarrow> llama_seq_id \<Rightarrow> llama_pos" where
  "allocr_seq_pos_min a s =
     (if ba_seq_pos a ! nat s = {} then -1 else Min (ba_seq_pos a ! nat s))"

definition allocr_seq_pos_max :: "batch_allocr \<Rightarrow> llama_seq_id \<Rightarrow> llama_pos" where
  "allocr_seq_pos_max a s =
     (if ba_seq_pos a ! nat s = {} then -1 else Max (ba_seq_pos a ! nat s))"

definition split_reset :: "batch_allocr \<Rightarrow> batch_allocr" where
  "split_reset a = a\<lparr>ba_out_ids := [], ba_n_used := 0, ba_used := replicate (get_n_tokens a) False\<rparr>"

subsection \<open>\<open>init\<close>: validation and generated fields\<close>

text \<open>What \<open>init\<close> asks of the memory module.\<close>

record mem_view =
  mv_seq_pos_min :: "llama_seq_id \<Rightarrow> llama_pos"
  mv_seq_pos_max :: "llama_seq_id \<Rightarrow> llama_pos"

definition init_validate :: "nat \<Rightarrow> nat \<Rightarrow> llama_batch \<Rightarrow> bool" where
  "init_validate n_vocab n_seq_max b \<longleftrightarrow>
     \<not> n_seq_max > LLAMA_MAX_SEQ
     \<and> (case b_token b of None \<Rightarrow> True
        | Some tok \<Rightarrow> \<forall>i < n_tok b. \<not> (tok ! i < 0 \<or> tok ! i \<ge> int n_vocab))
     \<and> (case b_seq_id b of None \<Rightarrow> True
        | Some ids \<Rightarrow> \<forall>i < n_tok b. \<forall>s \<in> set (tok_seqs b i). \<not> (s < 0 \<or> s \<ge> int n_seq_max))"

definition gen_n_seq_id :: "llama_batch \<Rightarrow> llama_batch" where
  "gen_n_seq_id b = (case b_n_seq_id b of
     None \<Rightarrow> b\<lparr>b_n_seq_id := Some (replicate (n_tok b) 1)\<rparr> | Some _ \<Rightarrow> b)"

definition gen_seq_id :: "llama_batch \<Rightarrow> llama_batch" where
  "gen_seq_id b = (case b_seq_id b of
     None \<Rightarrow> b\<lparr>b_seq_id := Some (replicate (n_tok b) [0])\<rparr> | Some _ \<Rightarrow> b)"

text \<open>Positions: every token takes the next position of its first sequence, and moves the next
  position of all its sequences past it.\<close>

fun gen_pos_from :: "llama_batch \<Rightarrow> nat list \<Rightarrow> (llama_seq_id \<Rightarrow> llama_pos) \<Rightarrow> llama_pos list" where
  "gen_pos_from b [] p0 = []"
| "gen_pos_from b (i # is) p0 =
    (let p = p0 (arr (b_seq_id b) ! i ! 0)
     in p # gen_pos_from b is (fold (\<lambda>s f. f(s := p + 1)) (tok_seqs b i) p0))"

definition gen_pos :: "mem_view option \<Rightarrow> llama_batch \<Rightarrow> llama_batch" where
  "gen_pos memory b = (case b_pos b of
     None \<Rightarrow>
       let p0 = (\<lambda>s. case memory of None \<Rightarrow> 0 | Some m \<Rightarrow> mv_seq_pos_max m s + 1)
       in b\<lparr>b_pos := Some (gen_pos_from b [0..<n_tok b] p0)\<rparr>
   | Some _ \<Rightarrow> b)"

definition gen_logits :: "bool \<Rightarrow> llama_batch \<Rightarrow> llama_batch" where
  "gen_logits output_all b = (case b_logits b of
     None \<Rightarrow> b\<lparr>b_logits := Some (if output_all then replicate (n_tok b) 1
                                else (replicate (n_tok b) 0)[n_tok b - 1 := 1])\<rparr>
   | Some logits \<Rightarrow>
       if output_all \<and> (\<exists>i < n_tok b. logits ! i = 0)
       then b\<lparr>b_logits := Some (replicate (n_tok b) 1)\<rparr> else b)"

definition init_autogen :: "mem_view option \<Rightarrow> bool \<Rightarrow> llama_batch \<Rightarrow> llama_batch" where
  "init_autogen memory output_all b =
     gen_logits output_all (gen_pos memory (gen_seq_id (gen_n_seq_id b)))"

subsection \<open>\<open>init\<close>: statistics\<close>

definition stats_outputs :: "batch_allocr \<Rightarrow> batch_allocr" where
  "stats_outputs a = a\<lparr>ba_n_outputs := fold (\<lambda>i n. n + (if arr (b_logits (ba_batch a)) ! i \<noteq> 0 then 1 else 0))
     [0..<get_n_tokens a] (ba_n_outputs a)\<rparr>"

definition stats_cpl_token :: "nat \<Rightarrow> batch_allocr \<Rightarrow> batch_allocr" where
  "stats_cpl_token i a =
    (let b = ba_batch a; s0 = arr (b_seq_id b) ! i ! 0
     in fold (\<lambda>s a.
          let s1 = arr (b_seq_id b) ! i ! s;
              a = a\<lparr>ba_seq_pos := (ba_seq_pos a)[nat s1 := insert (arr (b_pos b) ! i) (ba_seq_pos a ! nat s1)]\<rparr>
          in if s > 0 then a\<lparr>ba_seq_cpl := insert (s1, s0) (ba_seq_cpl a), ba_has_cpl := True\<rparr> else a)
        [0..<arr (b_n_seq_id b) ! i] a)"

definition stats_cpl :: "batch_allocr \<Rightarrow> batch_allocr" where
  "stats_cpl a = fold stats_cpl_token [0..<get_n_tokens a] (a\<lparr>ba_has_cpl := False\<rparr>)"

definition stats_set_token :: "nat \<Rightarrow> batch_allocr \<Rightarrow> batch_allocr" where
  "stats_set_token i a =
    (let cur = fold insert (tok_seqs (ba_batch a) i) {}
     in a\<lparr>ba_seq_set := ba_seq_set a @ [cur],
          ba_seq_set_map := (ba_seq_set_map a)(cur := ba_seq_set_map a cur @ [i])\<rparr>)"

text \<open>The unique ids in increasing order, and the place of each in that list.\<close>

definition unq_step :: "seq_set_t \<Rightarrow> nat \<Rightarrow> int list \<times> llama_seq_id list \<Rightarrow> int list \<times> llama_seq_id list" where
  "unq_step S s st = (case st of (idx, unq) \<Rightarrow>
     if int s \<in> S then (idx[s := int (length unq)], unq @ [int s]) else (idx, unq))"

definition stats_unq :: "batch_allocr \<Rightarrow> batch_allocr" where
  "stats_unq a =
    (let S = fold (\<lambda>i S. fold insert (tok_seqs (ba_batch a) i) S) [0..<get_n_tokens a] {};
         (idx, unq) = fold (unq_step S) [0..<ba_n_seq_max a] (ba_seq_idx a, ba_seq_id_unq a)
     in a\<lparr>ba_seq_idx := idx, ba_seq_id_unq := unq\<rparr>)"

definition init_stats :: "nat \<Rightarrow> nat \<Rightarrow> batch_allocr \<Rightarrow> batch_allocr" where
  "init_stats n_embd n_seq_max a =
    (let a = a\<lparr>ba_n_embd := n_embd, ba_n_seq_max := n_seq_max\<rparr>;
         a = stats_cpl (stats_outputs a);
         a = fold stats_set_token [0..<get_n_tokens a] a
     in stats_unq a)"

subsection \<open>\<open>init\<close>: consistency checks\<close>

definition mem_pos_max :: "mem_view option \<Rightarrow> llama_seq_id \<Rightarrow> llama_pos" where
  "mem_pos_max memory s = (case memory of None \<Rightarrow> -1 | Some m \<Rightarrow> mv_seq_pos_max m s)"

definition check_seq_mrope :: "mem_view option \<Rightarrow> batch_allocr \<Rightarrow> llama_seq_id \<Rightarrow> bool" where
  "check_seq_mrope memory a s =
    (if ba_seq_pos a ! nat s = {} then True
     else let p0 = mem_pos_max memory s
          in if b_token (ba_batch a) \<noteq> None
             then \<not> (p0 \<ge> 0 \<and> p0 \<ge> allocr_seq_pos_min a s)
             else \<not> (p0 \<ge> 0 \<and> p0 > allocr_seq_pos_min a s))"

definition check_seq_plain :: "mem_view option \<Rightarrow> batch_allocr \<Rightarrow> llama_seq_id \<Rightarrow> bool" where
  "check_seq_plain memory a s =
    (if ba_seq_pos a ! nat s = {} then True
     else let p0 = mem_pos_max memory s
          in if p0 \<ge> 0 \<and> allocr_seq_pos_min a s \<noteq> p0 + 1 then False
             else \<not> allocr_seq_pos_max a s - allocr_seq_pos_min a s + 1 > int (card (ba_seq_pos a ! nat s)))"

definition check_positions :: "mem_view option \<Rightarrow> batch_allocr \<Rightarrow> bool" where
  "check_positions memory a =
    (if ba_n_pos_per_embd a > 1
     then \<forall>s < ba_n_seq_max a. check_seq_mrope memory a (int s)
     else \<forall>s < ba_n_seq_max a. check_seq_plain memory a (int s))"

definition check_coupled :: "mem_view option \<Rightarrow> batch_allocr \<Rightarrow> bool" where
  "check_coupled memory a = (case memory of None \<Rightarrow> True
     | Some m \<Rightarrow> \<forall>s0 < ba_n_seq_max a. \<forall>s1 < ba_n_seq_max a.
         (int s0, int s1) \<in> ba_seq_cpl a \<longrightarrow>
           \<not> (mv_seq_pos_min m (int s0) \<noteq> mv_seq_pos_min m (int s1)
             \<or> mv_seq_pos_max m (int s0) \<noteq> mv_seq_pos_max m (int s1)))"

text \<open>The last loop: the sequence sets of each sequence are intersected, its positions compared with
  the previous one. \<open>None\<close> is the early \<open>return false\<close>.\<close>

fun check_ids :: "seq_set_t \<Rightarrow> llama_pos \<Rightarrow> llama_seq_id list
    \<Rightarrow> (llama_seq_id \<Rightarrow> seq_set_t) \<times> (llama_seq_id \<Rightarrow> llama_pos)
    \<Rightarrow> ((llama_seq_id \<Rightarrow> seq_set_t) \<times> (llama_seq_id \<Rightarrow> llama_pos)) option" where
  "check_ids S p [] st = Some st"
| "check_ids S p (s # ss) (cs, cp) =
    (let cs = cs(s := cs s \<inter> S)
     in if cs s = {} then None
        else if p < cp s then None
        else check_ids S p ss (cs, cp(s := p)))"

fun check_tokens :: "batch_allocr \<Rightarrow> nat list
    \<Rightarrow> (llama_seq_id \<Rightarrow> seq_set_t) \<times> (llama_seq_id \<Rightarrow> llama_pos) \<Rightarrow> bool" where
  "check_tokens a [] st = True"
| "check_tokens a (i # is) st =
    (case check_ids (ba_seq_set a ! i) (arr (b_pos (ba_batch a)) ! i) (tok_seqs (ba_batch a) i) st of
       None \<Rightarrow> False | Some st \<Rightarrow> check_tokens a is st)"

definition all_seqs :: seq_set_t where
  "all_seqs = {0..<int LLAMA_MAX_SEQ}"

definition check_order :: "batch_allocr \<Rightarrow> bool" where
  "check_order a = check_tokens a [0..<get_n_tokens a] ((\<lambda>_. all_seqs), (\<lambda>_. -1))"

text \<open>\<open>init\<close> returns its verdict together with the state it leaves behind; \<open>n_vocab\<close> is
  \<open>vocab.n_tokens()\<close>.\<close>

definition allocr_init :: "nat \<Rightarrow> mem_view option \<Rightarrow> nat \<Rightarrow> nat \<Rightarrow> bool \<Rightarrow> llama_batch \<Rightarrow> batch_allocr
    \<Rightarrow> (bool \<times> batch_allocr) res" where
  "allocr_init n_vocab memory n_embd n_seq_max output_all batch_inp a =
    (let a = (allocr_clear a)\<lparr>ba_batch := batch_inp\<rparr>
     in ggml_assert (b_n_tokens (ba_batch a) > 0) ''batch.n_tokens > 0''
       (if \<not> init_validate n_vocab n_seq_max (ba_batch a) then Inr (False, a)
        else let a = a\<lparr>ba_batch := init_autogen memory output_all (ba_batch a)\<rparr>;
                 a = init_stats n_embd n_seq_max a
             in if \<not> check_positions memory a then Inr (False, a)
                else if \<not> check_coupled memory a then Inr (False, a)
                else if \<not> check_order a then Inr (False, a)
                else Inr (True, split_reset a)))"

end
