(* ===== verification/Batch_Split.thy ===== *)
theory Batch_Split
  imports Batch "HOL-Library.Multiset"
begin

section \<open>Cutting a batch into ubatches\<close>

text \<open>
  The second half of \<^verbatim>\<open>src/llama-batch.cpp\<close>: \<open>ubatch_reserve\<close>, the three splitting strategies
  \<open>split_simple\<close>, \<open>split_equal\<close> and \<open>split_seq\<close>, and \<open>ubatch_add\<close>, which gathers the selected rows.
  Every strategy first selects batch indices and marks them used (\<open>\<dots>_idxs\<close>) and then calls
  \<open>ubatch_add\<close>; an empty selection is the empty ubatch \<open>{}\<close>, the sign that the batch is consumed.
\<close>

subsection \<open>\<open>ubatch_add\<close>\<close>

record ubatch_data =
  ud_token :: "llama_token list"
  ud_embd :: "u32 list"
  ud_pos :: "llama_pos list"
  ud_n_seq_id :: "nat list"
  ud_output :: "int list"
  ud_seq_id_data :: "llama_seq_id list"
  ud_seq_set_unq :: seq_set_t
  ud_out_ids :: "nat list"

definition gather_token :: "batch_allocr \<Rightarrow> nat list \<Rightarrow> nat \<Rightarrow> ubatch_data \<Rightarrow> ubatch_data" where
  "gather_token a idxs i u =
    (let b = ba_batch a; idx = idxs ! i; n_tokens = length idxs; n_embd = ba_n_embd a;
         u = (case b_token b of None \<Rightarrow> u | Some tok \<Rightarrow> u\<lparr>ud_token := (ud_token u)[i := tok ! idx]\<rparr>);
         u = (case b_embd b of None \<Rightarrow> u
              | Some embd \<Rightarrow> u\<lparr>ud_embd := fold (\<lambda>k e. e[i * n_embd + k := embd ! (idx * n_embd + k)])
                                       [0..<n_embd] (ud_embd u)\<rparr>);
         u = u\<lparr>ud_pos := fold (\<lambda>j p.
                let src_off = (if b_token b \<noteq> None then 0 else j * n_tok b)
                in p[j * n_tokens + i := arr (b_pos b) ! (src_off + idx)])
              [0..<ba_n_pos_per_embd a] (ud_pos u)\<rparr>;
         u = u\<lparr>ud_n_seq_id := (ud_n_seq_id u)[i := arr (b_n_seq_id b) ! idx],
               ud_output := (ud_output u)[i := arr (b_logits b) ! idx]\<rparr>;
         u = fold (\<lambda>s u. u\<lparr>ud_seq_id_data := ud_seq_id_data u @ [s],
                          ud_seq_set_unq := insert s (ud_seq_set_unq u)\<rparr>)
              (map (\<lambda>s. arr (b_seq_id b) ! idx ! s) [0..<ud_n_seq_id u ! i]) u
     in if ud_output u ! i \<noteq> 0 then u\<lparr>ud_out_ids := ud_out_ids u @ [idx]\<rparr> else u)"

text \<open>\<open>seq_id[i]\<close> points into \<open>seq_id_data\<close>; its \<open>n_seq_id[i]\<close> readable entries are a slice of it.\<close>

fun seq_id_ptrs :: "llama_seq_id list \<Rightarrow> nat list \<Rightarrow> llama_seq_id list list" where
  "seq_id_ptrs data [] = []"
| "seq_id_ptrs data (n # ns) = take n data # seq_id_ptrs (drop n data) ns"

definition ubatch_data_new :: "batch_allocr \<Rightarrow> nat list \<Rightarrow> ubatch_data" where
  "ubatch_data_new a idxs = \<lparr>ud_token = replicate (length idxs) 0,
     ud_embd = replicate (if b_embd (ba_batch a) \<noteq> None then length idxs * ba_n_embd a else 0) 0,
     ud_pos = replicate (length idxs * ba_n_pos_per_embd a) 0,
     ud_n_seq_id = replicate (length idxs) 0, ud_output = replicate (length idxs) 0,
     ud_seq_id_data = [], ud_seq_set_unq = {}, ud_out_ids = ba_out_ids a\<rparr>"

definition ubatch_add :: "nat list \<Rightarrow> nat \<Rightarrow> bool \<Rightarrow> batch_allocr \<Rightarrow> llama_ubatch \<times> batch_allocr" where
  "ubatch_add idxs n_seqs equal_seqs a =
    (let b = ba_batch a; n_tokens = length idxs;
         u = fold (gather_token a idxs) [0..<n_tokens] (ubatch_data_new a idxs);
         (idx, unq) = fold (unq_step (ud_seq_set_unq u)) [0..<ba_n_seq_max a]
                           (replicate LLAMA_MAX_SEQ (-1), [])
     in (\<lparr>ub_equal_seqs = equal_seqs, ub_n_tokens = n_tokens, ub_n_seq_tokens = n_tokens div n_seqs,
          ub_n_seqs = n_seqs, ub_n_seqs_unq = length unq, ub_n_pos = ba_n_pos_per_embd a,
          ub_token = (if b_token b \<noteq> None then Some (ud_token u) else None),
          ub_embd = (if b_embd b \<noteq> None then Some (ud_embd u) else None),
          ub_pos = ud_pos u, ub_n_seq_id = ud_n_seq_id u,
          ub_seq_id = seq_id_ptrs (ud_seq_id_data u) (ud_n_seq_id u),
          ub_seq_id_unq = unq, ub_seq_idx = idx, ub_output = ud_output u\<rparr>,
         a\<lparr>ba_out_ids := ud_out_ids u\<rparr>))"

definition ubatch_reserve :: "nat \<Rightarrow> nat \<Rightarrow> batch_allocr \<Rightarrow> llama_ubatch \<times> batch_allocr" where
  "ubatch_reserve n_seq_tokens n_seqs a =
    (let n_tokens = n_seq_tokens * n_seqs mod 2 ^ 32;
         a = split_reset (allocr_clear a);
         (idx, unq) = fold (\<lambda>s (idx, unq). (idx[s := int s], unq @ [int s])) [0..<n_seqs]
                           (replicate LLAMA_MAX_SEQ (-1), [])
     in (\<lparr>ub_equal_seqs = True, ub_n_tokens = n_tokens, ub_n_seq_tokens = n_seq_tokens,
          ub_n_seqs = n_seqs, ub_n_seqs_unq = n_seqs, ub_n_pos = ba_n_pos_per_embd a,
          ub_token = Some (replicate n_tokens 0), ub_embd = None,
          ub_pos = replicate (n_tokens * ba_n_pos_per_embd a) 0, ub_n_seq_id = replicate n_tokens 0,
          ub_seq_id = replicate n_tokens [], ub_seq_id_unq = unq, ub_seq_idx = idx,
          ub_output = replicate n_tokens 0\<rparr>, a))"

subsection \<open>\<open>split_simple\<close>\<close>

text \<open>The first unused token; \<open>length used\<close> when there is none.\<close>

fun first_unused :: "bool list \<Rightarrow> nat" where
  "first_unused [] = 0"
| "first_unused (u # us) = (if u then Suc (first_unused us) else 0)"

definition mark_used :: "nat \<Rightarrow> batch_allocr \<Rightarrow> batch_allocr" where
  "mark_used i a = a\<lparr>ba_used := (ba_used a)[i := True], ba_n_used := ba_n_used a + 1\<rparr>"

function simple_loop :: "nat \<Rightarrow> nat \<Rightarrow> nat list \<Rightarrow> batch_allocr \<Rightarrow> nat list \<times> batch_allocr" where
  "simple_loop n_ubatch cur_idx idxs a =
    (let idxs = idxs @ [cur_idx]; a = mark_used cur_idx a; cur_idx = cur_idx + 1
     in if cur_idx \<ge> length (ba_used a) then (idxs, a)
        else if length idxs \<ge> n_ubatch then (idxs, a)
        else simple_loop n_ubatch cur_idx idxs a)"
  by auto
termination
  by (relation "measure (\<lambda>(n, c, idxs, a). length (ba_used a) - c)") (auto simp: mark_used_def)

declare simple_loop.simps [simp del]

definition split_simple_idxs :: "nat \<Rightarrow> batch_allocr \<Rightarrow> nat list \<times> batch_allocr" where
  "split_simple_idxs n_ubatch a =
    (let cur_idx = first_unused (ba_used a)
     in if cur_idx \<ge> length (ba_used a) then ([], a) else simple_loop n_ubatch cur_idx [] a)"

definition split_simple :: "nat \<Rightarrow> batch_allocr \<Rightarrow> llama_ubatch \<times> batch_allocr" where
  "split_simple n_ubatch a = (case split_simple_idxs n_ubatch a of (idxs, a) \<Rightarrow>
     if idxs = [] then (ubatch_null, a) else ubatch_add idxs (length idxs) False a)"

subsection \<open>\<open>split_seq\<close>\<close>

text \<open>The inner \<open>do ... while\<close>: the next index whose token is unused and whose sequence set lies in the
  current one; \<open>get_n_tokens()\<close> when there is none.\<close>

function seq_next :: "batch_allocr \<Rightarrow> seq_set_t \<Rightarrow> nat \<Rightarrow> nat" where
  "seq_next a S c =
    (let c = c + 1
     in if c < get_n_tokens a \<and> (ba_used a ! c \<or> S \<inter> ba_seq_set a ! c \<noteq> ba_seq_set a ! c)
        then seq_next a S c else c)"
  by auto
termination by (relation "measure (\<lambda>(a, S, c). get_n_tokens a - c)") auto

declare seq_next.simps [simp del]

lemma seq_next_gt: "c < seq_next a S c"
proof (induction a S c rule: seq_next.induct)
  case (1 a S c)
  show ?case
  proof (cases "Suc c < get_n_tokens a \<and> (ba_used a ! Suc c \<or> S \<inter> ba_seq_set a ! Suc c \<noteq> ba_seq_set a ! Suc c)")
    case True
    then have "c + 1 < seq_next a S (c + 1)" using 1 by simp
    then show ?thesis using True by (subst seq_next.simps) (simp add: Let_def)
  next
    case False
    then show ?thesis by (subst seq_next.simps) (simp only: Let_def if_False Suc_eq_plus1 [symmetric] lessI)
  qed
qed

function seq_loop :: "nat \<Rightarrow> nat \<Rightarrow> seq_set_t \<Rightarrow> nat list \<Rightarrow> batch_allocr \<Rightarrow> nat list \<times> batch_allocr" where
  "seq_loop n_ubatch cur_idx S idxs a =
    (let idxs = idxs @ [cur_idx]; a = mark_used cur_idx a
     in if length idxs \<ge> n_ubatch then (idxs, a)
        else let cur_idx = seq_next a S cur_idx
             in if cur_idx \<ge> get_n_tokens a then (idxs, a)
                else seq_loop n_ubatch cur_idx (ba_seq_set a ! cur_idx) idxs a)"
  by auto
termination
proof (relation "measure (\<lambda>(n, c, S, idxs, a). get_n_tokens a - c)", goal_cases)
  case (2 n c S idxs a x y z)
  then have "get_n_tokens y = get_n_tokens a" "c < z" "z < get_n_tokens y"
    using seq_next_gt [of c y S] by (simp_all add: mark_used_def get_n_tokens_def)
  then show ?case by simp
qed simp

declare seq_loop.simps [simp del]

definition split_seq_idxs :: "nat \<Rightarrow> batch_allocr \<Rightarrow> nat list \<times> batch_allocr" where
  "split_seq_idxs n_ubatch a =
    (let cur_idx = first_unused (ba_used a)
     in if cur_idx \<ge> length (ba_used a) then ([], a)
        else seq_loop n_ubatch cur_idx (ba_seq_set a ! cur_idx) [] a)"

definition split_seq :: "nat \<Rightarrow> batch_allocr \<Rightarrow> llama_ubatch \<times> batch_allocr" where
  "split_seq n_ubatch a = (case split_seq_idxs n_ubatch a of (idxs, a) \<Rightarrow>
     if idxs = [] then (ubatch_null, a) else ubatch_add idxs 1 True a)"

subsection \<open>\<open>split_equal\<close>\<close>

fun select_sets :: "batch_allocr \<Rightarrow> bool \<Rightarrow> nat \<Rightarrow> nat list \<Rightarrow> seq_set_t list \<Rightarrow> llama_seq_id
    \<Rightarrow> seq_set_t list" where
  "select_sets a sequential n_ubatch [] cur last_id = cur"
| "select_sets a sequential n_ubatch (i # is) cur last_id =
    (if ba_used a ! i then select_sets a sequential n_ubatch is cur last_id
     else let add = (\<forall>c \<in> set cur. c \<inter> ba_seq_set a ! i = {});
              s0 = arr (b_seq_id (ba_batch a)) ! i ! 0;
              add = (if sequential then add \<and> (cur = [] \<or> s0 = last_id + 1) else add)
          in if add
             then let cur = cur @ [ba_seq_set a ! i]
                  in if length cur > n_ubatch then cur
                     else select_sets a sequential n_ubatch is cur s0
             else select_sets a sequential n_ubatch is cur last_id)"

text \<open>\<open>while (used[seq_set_map[set][cur_idx]]) ++cur_idx\<close>.\<close>

fun skip_used :: "bool list \<Rightarrow> nat list \<Rightarrow> nat" where
  "skip_used used [] = 0"
| "skip_used used (i # is) = (if used ! i then Suc (skip_used used is) else 0)"

record eq_state =
  eq_cur :: "nat list"
  eq_idxs :: "nat list list"
  eq_a :: batch_allocr

definition eq_take :: "seq_set_t list \<Rightarrow> nat \<Rightarrow> eq_state \<Rightarrow> eq_state" where
  "eq_take sets s st =
    (let idx = ba_seq_set_map (eq_a st) (sets ! s) ! (eq_cur st ! s)
     in st\<lparr>eq_idxs := (eq_idxs st)[s := eq_idxs st ! s @ [idx]],
           eq_a := mark_used idx (eq_a st),
           eq_cur := (eq_cur st)[s := eq_cur st ! s + 1]\<rparr>)"

definition eq_round :: "seq_set_t list \<Rightarrow> eq_state \<Rightarrow> eq_state" where
  "eq_round sets st = fold (eq_take sets) [0..<length sets] st"

definition can_expand :: "seq_set_t list \<Rightarrow> eq_state \<Rightarrow> bool" where
  "can_expand sets st \<longleftrightarrow>
     (\<forall>s < length sets. \<not> eq_cur st ! s \<ge> length (ba_seq_set_map (eq_a st) (sets ! s)))"

text \<open>The expansion loop. It is entered with at least one set and a cursor for each (the first
  disjunct of the guard is never taken then).\<close>

lemma eq_take_map [simp]: "ba_seq_set_map (eq_a (eq_take sets s st)) = ba_seq_set_map (eq_a st)"
  by (simp add: eq_take_def Let_def mark_used_def)

lemma eq_take_length [simp]: "length (eq_cur (eq_take sets s st)) = length (eq_cur st)"
  by (simp add: eq_take_def Let_def)

lemma eq_take_cur: "eq_cur (eq_take sets s st) = (eq_cur st)[s := eq_cur st ! s + 1]"
  by (simp add: eq_take_def Let_def)

lemma eq_round_map [simp]: "ba_seq_set_map (eq_a (eq_round sets st)) = ba_seq_set_map (eq_a st)"
proof -
  have "ba_seq_set_map (eq_a (fold (eq_take sets) ss st)) = ba_seq_set_map (eq_a st)" for ss
    by (induction ss arbitrary: st) simp_all
  then show ?thesis by (simp add: eq_round_def)
qed

lemma fold_eq_take_cur:
  "n \<le> length (eq_cur st) \<Longrightarrow> eq_cur (fold (eq_take sets) [0..<n] st)
     = map (\<lambda>s. if s < n then eq_cur st ! s + 1 else eq_cur st ! s) [0..<length (eq_cur st)]"
proof (induction n)
  case 0
  then show ?case by (simp add: map_nth)
next
  case (Suc n)
  then show ?case
    by (auto simp: eq_take_cur intro!: nth_equalityI simp: nth_list_update)
qed

function expand_loop :: "nat \<Rightarrow> seq_set_t list \<Rightarrow> eq_state \<Rightarrow> eq_state" where
  "expand_loop n_ubatch sets st =
    (if sets = [] \<or> length (eq_cur st) \<noteq> length sets then st
     else if \<not> can_expand sets st then st
     else let st = eq_round sets st
          in if (length (eq_idxs st ! 0) + 1) * length sets > n_ubatch then st
             else expand_loop n_ubatch sets st)"
  by auto
termination
proof (relation "measure (\<lambda>(n, sets, st). length (ba_seq_set_map (eq_a st) (sets ! 0)) - eq_cur st ! 0)",
       goal_cases)
  case (2 n sets st x)
  then have "0 < length sets" "eq_cur st ! 0 < length (ba_seq_set_map (eq_a st) (sets ! 0))"
    by (auto simp: can_expand_def)
  moreover have "eq_cur (eq_round sets st) ! 0 = eq_cur st ! 0 + 1"
    using 2 fold_eq_take_cur [of "length sets" st sets] by (simp add: eq_round_def)
  ultimately show ?case using 2 by simp
qed simp

declare expand_loop.simps [simp del]

definition n_remaining :: "seq_set_t list \<Rightarrow> eq_state \<Rightarrow> nat \<Rightarrow> nat" where
  "n_remaining sets st s = length (ba_seq_set_map (eq_a st) (sets ! s)) - eq_cur st ! s"

fun keep_prefix :: "seq_set_t list \<Rightarrow> nat \<Rightarrow> eq_state \<Rightarrow> nat list \<Rightarrow> nat" where
  "keep_prefix sets n_keep_tail st [] = 0"
| "keep_prefix sets n_keep_tail st (s # ss) =
    (let remaining = n_remaining sets st s
     in if remaining \<noteq> 0 \<and> remaining < n_keep_tail then 0
        else Suc (keep_prefix sets n_keep_tail st ss))"

definition unmark_used :: "nat \<Rightarrow> batch_allocr \<Rightarrow> batch_allocr" where
  "unmark_used i a = a\<lparr>ba_used := (ba_used a)[i := False], ba_n_used := ba_n_used a - 1\<rparr>"

text \<open>\<open>while (n_remaining(0) > 0)\<close> takes one more token of the first set each time;
  \<open>while (n_remaining(0) < n_keep_tail)\<close> gives the last one back. Both run a number of times that is
  fixed on entry.\<close>

definition extend_first :: "seq_set_t list \<Rightarrow> eq_state \<Rightarrow> eq_state" where
  "extend_first sets st = (eq_take sets 0 ^^ n_remaining sets st 0) st"

definition give_back :: "eq_state \<Rightarrow> eq_state" where
  "give_back st = st\<lparr>eq_a := unmark_used (last (eq_idxs st ! 0)) (eq_a st),
     eq_idxs := (eq_idxs st)[0 := butlast (eq_idxs st ! 0)],
     eq_cur := (eq_cur st)[0 := eq_cur st ! 0 - 1]\<rparr>"

definition truncate_first :: "seq_set_t list \<Rightarrow> nat \<Rightarrow> eq_state \<Rightarrow> eq_state" where
  "truncate_first sets n_keep_tail st = (give_back ^^ (n_keep_tail - n_remaining sets st 0)) st"

definition keep_tail :: "nat \<Rightarrow> seq_set_t list \<Rightarrow> nat \<Rightarrow> eq_state \<Rightarrow> nat \<times> eq_state" where
  "keep_tail n_ubatch sets n_keep_tail st =
    (let n_keep = keep_prefix sets n_keep_tail st [0..<length sets];
         (n_keep, st) = (if n_keep = 0
           then (1, if length (eq_idxs st ! 0) + n_remaining sets st 0 \<le> n_ubatch
                    then extend_first sets st else truncate_first sets n_keep_tail st)
           else (n_keep, st));
         st = st\<lparr>eq_a := fold (\<lambda>s a. fold unmark_used (eq_idxs st ! s) a) [n_keep..<length sets] (eq_a st)\<rparr>
     in (n_keep, st))"

definition split_equal_idxs :: "nat \<Rightarrow> bool \<Rightarrow> nat \<Rightarrow> batch_allocr \<Rightarrow> (nat list \<times> nat \<times> batch_allocr) res" where
  "split_equal_idxs n_ubatch sequential n_keep_tail a =
    (if sequential \<and> ba_has_cpl a then Inr ([], 0, a)
     else
       let sets = select_sets a sequential n_ubatch [0..<get_n_tokens a] [] (-1)
       in if length sets = 0 then Inr ([], 0, a)
          else let st = expand_loop n_ubatch sets
                     \<lparr>eq_cur = map (\<lambda>S. skip_used (ba_used a) (ba_seq_set_map a S)) sets,
                      eq_idxs = replicate (length sets) [], eq_a = a\<rparr>
               in if n_keep_tail > 0
                  then ggml_assert (n_ubatch > n_keep_tail) ''n_ubatch > n_keep_tail''
                         (case keep_tail n_ubatch sets n_keep_tail st of (n_seqs, st) \<Rightarrow>
                            Inr (concat (take n_seqs (eq_idxs st)), n_seqs, eq_a st))
                  else Inr (concat (take (length sets) (eq_idxs st)), length sets, eq_a st))"

definition split_equal :: "nat \<Rightarrow> bool \<Rightarrow> nat \<Rightarrow> batch_allocr \<Rightarrow> (llama_ubatch \<times> batch_allocr) res" where
  "split_equal n_ubatch sequential n_keep_tail a =
     bind_res (split_equal_idxs n_ubatch sequential n_keep_tail a) (\<lambda>(idxs, n_seqs, a).
       if n_seqs = 0 then Inr (ubatch_null, a) else Inr (ubatch_add idxs n_seqs True a))"


section \<open>What \<open>ubatch_add\<close> gathers\<close>

lemma fold_seq_ids:
  "fold (\<lambda>s u. u\<lparr>ud_seq_id_data := ud_seq_id_data u @ [s], ud_seq_set_unq := insert s (ud_seq_set_unq u)\<rparr>) xs u
   = u\<lparr>ud_seq_id_data := ud_seq_id_data u @ xs, ud_seq_set_unq := set xs \<union> ud_seq_set_unq u\<rparr>"
  by (induction xs arbitrary: u) simp_all

definition gather_len :: "nat list \<Rightarrow> ubatch_data \<Rightarrow> bool" where
  "gather_len idxs u \<longleftrightarrow> length (ud_n_seq_id u) = length idxs \<and> length (ud_output u) = length idxs"

definition pos_src :: "llama_batch \<Rightarrow> nat \<Rightarrow> nat \<Rightarrow> llama_pos" where
  "pos_src b j idx = arr (b_pos b) ! ((if b_token b \<noteq> None then 0 else j * n_tok b) + idx)"

lemma gather_token_fields:
  assumes "gather_len idxs u" "i < length idxs"
  shows "ud_token (gather_token a idxs i u) = (case b_token (ba_batch a) of None \<Rightarrow> ud_token u
            | Some tok \<Rightarrow> (ud_token u)[i := tok ! (idxs ! i)])"
    and "ud_embd (gather_token a idxs i u) = (case b_embd (ba_batch a) of None \<Rightarrow> ud_embd u
            | Some e \<Rightarrow> fold (\<lambda>k v. v[i * ba_n_embd a + k := e ! (idxs ! i * ba_n_embd a + k)])
                          [0..<ba_n_embd a] (ud_embd u))"
    and "ud_pos (gather_token a idxs i u)
          = fold (\<lambda>j p. p[j * length idxs + i := pos_src (ba_batch a) j (idxs ! i)]) [0..<ba_n_pos_per_embd a] (ud_pos u)"
    and "ud_n_seq_id (gather_token a idxs i u) = (ud_n_seq_id u)[i := arr (b_n_seq_id (ba_batch a)) ! (idxs ! i)]"
    and "ud_output (gather_token a idxs i u) = (ud_output u)[i := arr (b_logits (ba_batch a)) ! (idxs ! i)]"
    and "ud_seq_id_data (gather_token a idxs i u) = ud_seq_id_data u @ tok_seqs (ba_batch a) (idxs ! i)"
    and "ud_seq_set_unq (gather_token a idxs i u) = set (tok_seqs (ba_batch a) (idxs ! i)) \<union> ud_seq_set_unq u"
    and "ud_out_ids (gather_token a idxs i u)
          = ud_out_ids u @ filter (\<lambda>i. arr (b_logits (ba_batch a)) ! i \<noteq> 0) [idxs ! i]"
  using assms
  by (simp_all add: gather_len_def gather_token_def Let_def fold_seq_ids tok_seqs_def pos_src_def split: option.splits)

lemma gather_token_len:
  assumes "gather_len idxs u" "i < length idxs"
  shows "gather_len idxs (gather_token a idxs i u)"
  using assms gather_token_fields(4,5) [OF assms] by (simp add: gather_len_def)

lemma fold_append_upt:
  "fold (\<lambda>i d. d @ f (xs ! i)) [0..<length xs] d = d @ concat (map f xs)"
proof -
  have "fold (\<lambda>i d. d @ f (xs ! i)) [0..<m] d = d @ concat (map f (take m xs))" if "m \<le> length xs" for m
    using that by (induction m) (simp_all add: take_Suc_conv_app_nth)
  from this [of "length xs"] show ?thesis by simp
qed

lemma fold_union_upt:
  "fold (\<lambda>i d. f (xs ! i) \<union> d) [0..<length xs] d = \<Union> (f ` set xs) \<union> d"
proof -
  have "fold (\<lambda>i d. f (xs ! i) \<union> d) [0..<m] d = \<Union> (f ` set (take m xs)) \<union> d" if "m \<le> length xs" for m
    using that by (induction m) (auto simp: take_Suc_conv_app_nth)
  from this [of "length xs"] show ?thesis by simp
qed

lemma concat_filter_singletons: "concat (map (\<lambda>x. filter P [x]) xs) = filter P xs"
  by (induction xs) simp_all

lemma gather_fold:
  fixes a :: batch_allocr
  assumes "gather_len idxs u0"
  defines "u \<equiv> fold (gather_token a idxs) [0..<length idxs] u0"
  shows "ud_n_seq_id u = map (\<lambda>i. arr (b_n_seq_id (ba_batch a)) ! i) idxs"
    and "ud_output u = map (\<lambda>i. arr (b_logits (ba_batch a)) ! i) idxs"
    and "ud_seq_id_data u = ud_seq_id_data u0 @ concat (map (tok_seqs (ba_batch a)) idxs)"
    and "ud_seq_set_unq u = (\<Union>i \<in> set idxs. set (tok_seqs (ba_batch a) i)) \<union> ud_seq_set_unq u0"
    and "ud_out_ids u = ud_out_ids u0 @ filter (\<lambda>i. arr (b_logits (ba_batch a)) ! i \<noteq> 0) idxs"
    and "ud_token u = (case b_token (ba_batch a) of None \<Rightarrow> ud_token u0
            | Some tok \<Rightarrow> fold (\<lambda>i l. l[i := tok ! (idxs ! i)]) [0..<length idxs] (ud_token u0))"
    and "ud_embd u = (case b_embd (ba_batch a) of None \<Rightarrow> ud_embd u0
            | Some e \<Rightarrow> fold (\<lambda>i. fold (\<lambda>k v. v[i * ba_n_embd a + k := e ! (idxs ! i * ba_n_embd a + k)])
                          [0..<ba_n_embd a]) [0..<length idxs] (ud_embd u0))"
    and "ud_pos u = fold (\<lambda>i. fold (\<lambda>j p. p[j * length idxs + i := pos_src (ba_batch a) j (idxs ! i)])
                      [0..<ba_n_pos_per_embd a]) [0..<length idxs] (ud_pos u0)"
proof -
  note P = fold_proj [where P = "gather_len idxs" and g = "gather_token a idxs" and xs = "[0..<length idxs]"
      and u = u0, OF _ assms(1)]
  note F = gather_token_fields [of idxs _ _ a]
  have len: "length (ud_n_seq_id u0) = length idxs" "length (ud_output u0) = length idxs"
    using assms(1) by (simp_all add: gather_len_def)
  show "ud_n_seq_id u = map (\<lambda>i. arr (b_n_seq_id (ba_batch a)) ! i) idxs"
    unfolding u_def
    by (subst P [where f = ud_n_seq_id and h = "\<lambda>i l. l[i := arr (b_n_seq_id (ba_batch a)) ! (idxs ! i)]"])
      (simp_all add: F gather_token_len fold_update_upt len map_nth_upt)
  show "ud_output u = map (\<lambda>i. arr (b_logits (ba_batch a)) ! i) idxs"
    unfolding u_def
    by (subst P [where f = ud_output and h = "\<lambda>i l. l[i := arr (b_logits (ba_batch a)) ! (idxs ! i)]"])
      (simp_all add: F gather_token_len fold_update_upt len map_nth_upt)
  show "ud_seq_id_data u = ud_seq_id_data u0 @ concat (map (tok_seqs (ba_batch a)) idxs)"
    unfolding u_def
    by (subst P [where f = ud_seq_id_data and h = "\<lambda>i l. l @ tok_seqs (ba_batch a) (idxs ! i)"])
      (simp_all add: F gather_token_len fold_append_upt)
  show "ud_seq_set_unq u = (\<Union>i \<in> set idxs. set (tok_seqs (ba_batch a) i)) \<union> ud_seq_set_unq u0"
    unfolding u_def
    by (subst P [where f = ud_seq_set_unq and h = "\<lambda>i l. set (tok_seqs (ba_batch a) (idxs ! i)) \<union> l"])
      (simp_all add: F gather_token_len fold_union_upt [where f = "\<lambda>i. set (tok_seqs (ba_batch a) i)"])
  show "ud_out_ids u = ud_out_ids u0 @ filter (\<lambda>i. arr (b_logits (ba_batch a)) ! i \<noteq> 0) idxs"
    unfolding u_def
    by (subst P [where f = ud_out_ids and h = "\<lambda>i l. l @ filter (\<lambda>i. arr (b_logits (ba_batch a)) ! i \<noteq> 0) [idxs ! i]"])
      (simp_all only: F gather_token_len set_upt atLeastLessThan_iff simp_thms
         fold_append_upt [where f = "\<lambda>i. filter (\<lambda>i. arr (b_logits (ba_batch a)) ! i \<noteq> 0) [i]"] concat_filter_singletons)
  show "ud_token u = (case b_token (ba_batch a) of None \<Rightarrow> ud_token u0
            | Some tok \<Rightarrow> fold (\<lambda>i l. l[i := tok ! (idxs ! i)]) [0..<length idxs] (ud_token u0))"
  proof (cases "b_token (ba_batch a)")
    case None
    then show ?thesis unfolding u_def
      using P [where f = ud_token and h = "\<lambda>i l. l"] by (simp add: F gather_token_len)
  next
    case (Some tok)
    then show ?thesis unfolding u_def
      using P [where f = ud_token and h = "\<lambda>i l. l[i := tok ! (idxs ! i)]"] by (simp add: F gather_token_len)
  qed
  show "ud_embd u = (case b_embd (ba_batch a) of None \<Rightarrow> ud_embd u0
            | Some e \<Rightarrow> fold (\<lambda>i. fold (\<lambda>k v. v[i * ba_n_embd a + k := e ! (idxs ! i * ba_n_embd a + k)])
                          [0..<ba_n_embd a]) [0..<length idxs] (ud_embd u0))"
  proof (cases "b_embd (ba_batch a)")
    case None
    then show ?thesis unfolding u_def
      using P [where f = ud_embd and h = "\<lambda>i l. l"] by (simp add: F gather_token_len)
  next
    case (Some e)
    then show ?thesis unfolding u_def
      using P [where f = ud_embd and h = "\<lambda>i. fold (\<lambda>k v. v[i * ba_n_embd a + k := e ! (idxs ! i * ba_n_embd a + k)]) [0..<ba_n_embd a]"]
      by (simp add: F gather_token_len)
  qed
  show "ud_pos u = fold (\<lambda>i. fold (\<lambda>j p. p[j * length idxs + i := pos_src (ba_batch a) j (idxs ! i)])
                      [0..<ba_n_pos_per_embd a]) [0..<length idxs] (ud_pos u0)"
    unfolding u_def
    by (subst P [where f = ud_pos and h = "\<lambda>i. fold (\<lambda>j p. p[j * length idxs + i := pos_src (ba_batch a) j (idxs ! i)])
                      [0..<ba_n_pos_per_embd a]"]) (simp_all add: F gather_token_len)
qed


lemma unq_fold:
  assumes "n \<le> L"
  shows "fold (unq_step S) [0..<n] (replicate L (-1), [])
    = (map (\<lambda>s. if s < n \<and> int s \<in> S then int (length (filter (\<lambda>t. int t \<in> S) [0..<s])) else -1) [0..<L],
       map int (filter (\<lambda>s. int s \<in> S) [0..<n]))"
  using assms
proof (induction n)
  case 0
  show ?case by (auto intro: nth_equalityI)
next
  case (Suc n)
  have "fold (unq_step S) [0..<Suc n] (replicate L (-1), [])
      = unq_step S n (fold (unq_step S) [0..<n] (replicate L (-1), []))" by (rule fold_upt_Suc)
  then show ?case using Suc
    by (auto simp: unq_step_def less_Suc_eq list_update_map_upt)
qed

lemma seq_id_ptrs_concat: "seq_id_ptrs (concat xss) (map length xss) = xss"
  by (induction xss) simp_all

lemma length_tok_seqs: "length (tok_seqs b i) = arr (b_n_seq_id b) ! i"
  by (simp add: tok_seqs_def)

lemma filter_upt_nth_count:
  assumes "j < length (filter P [0..<n])"
  shows "length (filter P [0..<filter P [0..<n] ! j]) = j"
  using assms
proof (induction n)
  case (Suc n)
  show ?case
  proof (cases "j < length (filter P [0..<n])")
    case True
    then show ?thesis using Suc by (simp add: nth_append)
  next
    case False
    then have "P n" "j = length (filter P [0..<n])" using Suc.prems by (auto split: if_splits)
    then show ?thesis by (simp add: nth_append)
  qed
qed simp

lemma ubatch_data_new_len: "gather_len idxs (ubatch_data_new a idxs)"
  by (simp add: ubatch_data_new_def gather_len_def)

lemmas gather_new = gather_fold [OF ubatch_data_new_len]

lemma ubatch_data_new_fields [simp]:
  "ud_token (ubatch_data_new a idxs) = replicate (length idxs) 0"
  "ud_embd (ubatch_data_new a idxs) = replicate (if b_embd (ba_batch a) \<noteq> None then length idxs * ba_n_embd a else 0) 0"
  "ud_pos (ubatch_data_new a idxs) = replicate (length idxs * ba_n_pos_per_embd a) 0"
  "ud_seq_id_data (ubatch_data_new a idxs) = []" "ud_seq_set_unq (ubatch_data_new a idxs) = {}"
  "ud_out_ids (ubatch_data_new a idxs) = ba_out_ids a"
  by (simp_all add: ubatch_data_new_def)

lemma ubatch_add_state:
  "snd (ubatch_add idxs k e a)
   = a\<lparr>ba_out_ids := ba_out_ids a @ filter (\<lambda>i. arr (b_logits (ba_batch a)) ! i \<noteq> 0) idxs\<rparr>"
  by (simp add: ubatch_add_def Let_def split_def gather_new)

text \<open>\<open>ubatch_add\<close> reads only the batch and its dimensions, not the splitting state.\<close>

lemma ubatch_add_fst_cong:
  assumes "ba_batch a = ba_batch a'" "ba_n_embd a = ba_n_embd a'" "ba_n_pos_per_embd a = ba_n_pos_per_embd a'"
    and "ba_n_seq_max a = ba_n_seq_max a'"
  shows "fst (ubatch_add idxs k e a) = fst (ubatch_add idxs k e a')"
  using assms by (simp add: ubatch_add_def Let_def split_def gather_new split: option.splits)

lemma ubatch_add_facts:
  assumes "ba_n_seq_max a \<le> LLAMA_MAX_SEQ" and "fst (ubatch_add idxs n_seqs e a) = u"
  shows "ub_n_tokens u = length idxs
    \<and> ub_token u = map_option (\<lambda>tok. map ((!) tok) idxs) (b_token (ba_batch a))
    \<and> ub_output u = map ((!) (arr (b_logits (ba_batch a)))) idxs
    \<and> ub_seq_id u = map (tok_seqs (ba_batch a)) idxs
    \<and> ub_n_seq_id u = map length (ub_seq_id u)
    \<and> (\<forall>j < ba_n_pos_per_embd a. \<forall>i < length idxs.
         ub_pos u ! (j * length idxs + i) = pos_src (ba_batch a) j (idxs ! i))
    \<and> (\<forall>em. b_embd (ba_batch a) = Some em \<longrightarrow> (\<forall>i < length idxs. \<forall>k < ba_n_embd a.
         arr (ub_embd u) ! (i * ba_n_embd a + k) = em ! (idxs ! i * ba_n_embd a + k)))
    \<and> ub_seq_id_unq u = map int (filter (\<lambda>s. \<exists>i \<in> set idxs. int s \<in> set (tok_seqs (ba_batch a) i)) [0..<ba_n_seq_max a])
    \<and> (\<forall>j < ub_n_seqs_unq u. ub_seq_idx u ! nat (ub_seq_id_unq u ! j) = int j)
    \<and> (\<forall>s < LLAMA_MAX_SEQ. int s \<notin> set (ub_seq_id_unq u) \<longrightarrow> ub_seq_idx u ! s = -1)"
proof -
  let ?n = "length idxs" and ?b = "ba_batch a"
  let ?u0 = "ubatch_data_new a idxs"
  let ?S = "\<Union>i \<in> set idxs. set (tok_seqs ?b i)"
  let ?flt = "filter (\<lambda>s. int s \<in> ?S) [0..<ba_n_seq_max a]"
  have fields: "ub_n_tokens u = ?n" "ub_output u = map ((!) (arr (b_logits ?b))) idxs"
    "ub_n_seq_id u = map (\<lambda>i. arr (b_n_seq_id ?b) ! i) idxs"
    "ub_seq_id u = seq_id_ptrs (concat (map (tok_seqs ?b) idxs)) (map (\<lambda>i. arr (b_n_seq_id ?b) ! i) idxs)"
    "ub_seq_id_unq u = map int ?flt" "ub_n_seqs_unq u = length ?flt"
    "ub_seq_idx u = map (\<lambda>s. if s < ba_n_seq_max a \<and> int s \<in> ?S
        then int (length (filter (\<lambda>t. int t \<in> ?S) [0..<s])) else -1) [0..<LLAMA_MAX_SEQ]"
    "ub_token u = (if b_token ?b \<noteq> None then Some (ud_token (fold (gather_token a idxs) [0..<?n] ?u0)) else None)"
    "ub_embd u = (if b_embd ?b \<noteq> None then Some (ud_embd (fold (gather_token a idxs) [0..<?n] ?u0)) else None)"
    "ub_pos u = ud_pos (fold (gather_token a idxs) [0..<?n] ?u0)"
    by (simp_all add: assms(2) [symmetric] ubatch_add_def Let_def split_def gather_new(1-5) unq_fold [OF assms(1)])
  have seqs: "ub_seq_id u = map (tok_seqs ?b) idxs"
    using seq_id_ptrs_concat [of "map (tok_seqs ?b) idxs"] by (simp add: fields(4) comp_def length_tok_seqs)
  have tok: "ub_token u = map_option (\<lambda>tok. map ((!) tok) idxs) (b_token ?b)"
    by (cases "b_token ?b") (simp_all add: fields(8) gather_new(6) fold_update_upt map_nth_upt)
  have pos: "ub_pos u ! (j * ?n + i) = pos_src ?b j (idxs ! i)" if "j < ba_n_pos_per_embd a" "i < ?n" for i j
  proof -
    let ?H = "\<lambda>(i, j). j * ?n + i"
    have "inj_on ?H ({..<?n} \<times> {..<ba_n_pos_per_embd a})" by (rule column_major_inj)
    from fold_nested_update_nth [OF this, of i j "ud_pos ?u0" "\<lambda>(i, j). pos_src ?b j (idxs ! i)"] that
    show ?thesis using row_major_less [OF that] by (simp add: fields(10) gather_new(8) mult.commute)
  qed
  have embd: "arr (ub_embd u) ! (i * ba_n_embd a + k) = em ! (idxs ! i * ba_n_embd a + k)"
    if "b_embd ?b = Some em" "i < ?n" "k < ba_n_embd a" for em i k
  proof -
    let ?H = "\<lambda>(i, k). i * ba_n_embd a + k"
    have "inj_on ?H ({..<?n} \<times> {..<ba_n_embd a})" by (rule inj_on_subset [OF row_major_inj]) auto
    from fold_nested_update_nth [OF this, of i k "ud_embd ?u0" "\<lambda>(i, k). em ! (idxs ! i * ba_n_embd a + k)"] that
    show ?thesis using row_major_less [OF that(2,3)] by (simp add: fields(9) gather_new(7))
  qed
  have idx: "ub_seq_idx u ! nat (ub_seq_id_unq u ! j) = int j" if "j < ub_n_seqs_unq u" for j
  proof -
    have j: "j < length ?flt" using that fields(6) by simp
    then have "?flt ! j \<in> set ?flt" by (rule nth_mem)
    then have "?flt ! j < ba_n_seq_max a" "int (?flt ! j) \<in> ?S" "?flt ! j < LLAMA_MAX_SEQ" using assms(1) by auto
    then show ?thesis using filter_upt_nth_count [OF j] j by (simp add: fields(5,7))
  qed
  have non: "ub_seq_idx u ! s = -1" if "s < LLAMA_MAX_SEQ" "int s \<notin> set (ub_seq_id_unq u)" for s
    using that by (auto simp: fields(5,7))
  show ?thesis
    using fields(1,2,3,5) seqs tok pos embd idx non by (simp add: comp_def length_tok_seqs)
qed

text \<open>\<open>ubatch_add\<close> gathers: token, embedding row, output flag and sequence ids of entry \<open>i\<close> are those
  of batch index \<open>idxs[i]\<close> (the pointers into the shared id buffer never mix entries), section \<open>j\<close> of
  the positions is the batch's section \<open>j\<close> for embeddings and its only section for text, the unique
  ids are listed in increasing order, and \<open>seq_idx\<close> is the inverse of that list and \<open>-1\<close> elsewhere.\<close>

theorem ubatch_add_gathers:
  assumes "ba_n_seq_max a \<le> LLAMA_MAX_SEQ" and "fst (ubatch_add idxs n_seqs e a) = u"
  shows "ub_n_tokens u = length idxs
    \<and> ub_token u = map_option (\<lambda>tok. map ((!) tok) idxs) (b_token (ba_batch a))
    \<and> ub_output u = map ((!) (arr (b_logits (ba_batch a)))) idxs
    \<and> ub_seq_id u = map (tok_seqs (ba_batch a)) idxs
    \<and> ub_n_seq_id u = map length (ub_seq_id u)
    \<and> (\<forall>j < ba_n_pos_per_embd a. \<forall>i < length idxs.
         ub_pos u ! (j * length idxs + i) = pos_src (ba_batch a) j (idxs ! i))
    \<and> (\<forall>em. b_embd (ba_batch a) = Some em \<longrightarrow> (\<forall>i < length idxs. \<forall>k < ba_n_embd a.
         arr (ub_embd u) ! (i * ba_n_embd a + k) = em ! (idxs ! i * ba_n_embd a + k)))
    \<and> ub_seq_id_unq u = map int (filter (\<lambda>s. \<exists>i \<in> set idxs. int s \<in> set (tok_seqs (ba_batch a) i)) [0..<ba_n_seq_max a])
    \<and> (\<forall>j < ub_n_seqs_unq u. ub_seq_idx u ! nat (ub_seq_id_unq u ! j) = int j)
    \<and> (\<forall>s < LLAMA_MAX_SEQ. int s \<notin> set (ub_seq_id_unq u) \<longrightarrow> ub_seq_idx u ! s = -1)"
  by (rule ubatch_add_facts [OF assms])

end
