(* ===== verification/Batch_Partition.thy ===== *)
theory Batch_Partition
  imports Batch_Split
begin

section \<open>The splitting strategies partition a batch\<close>

text \<open>
  The memory modules drive a split the same way: call it until it returns the empty ubatch, then
  compare \<open>get_n_used\<close> with \<open>get_n_tokens\<close>. The locale \<open>batch_splitter\<close> is what that loop relies on;
  it is interpreted for \<open>split_simple\<close>, \<open>split_seq\<close> and \<open>split_equal\<close>.
\<close>

subsection \<open>The driver loop\<close>

partial_function (option) split_all ::
    "(batch_allocr \<Rightarrow> (llama_ubatch \<times> batch_allocr) res) \<Rightarrow> batch_allocr
     \<Rightarrow> (llama_ubatch list \<times> batch_allocr) res option" where
  "split_all split a = (case split a of
     Inl e \<Rightarrow> Some (Inl e)
   | Inr (ubatch, a) \<Rightarrow>
       if ub_n_tokens ubatch = 0 then Some (Inr ([], a))
       else Option.bind (split_all split a) (\<lambda>r. Some (bind_res r (\<lambda>(us, a). Inr (ubatch # us, a)))))"

declare split_all.simps [code]

text \<open>A selection followed by \<open>ubatch_add\<close>; no sequence set selected is \<open>return {}\<close>.\<close>

definition next_ubatch :: "bool \<Rightarrow> (batch_allocr \<Rightarrow> (nat list \<times> nat \<times> batch_allocr) res) \<Rightarrow> batch_allocr
    \<Rightarrow> (llama_ubatch \<times> batch_allocr) res" where
  "next_ubatch e sel a = bind_res (sel a) (\<lambda>(idxs, n_seqs, a).
     if n_seqs = 0 then Inr (ubatch_null, a) else Inr (ubatch_add idxs n_seqs e a))"

lemma split_equal_next: "split_equal n s k = next_ubatch True (split_equal_idxs n s k)"
  by (simp add: fun_eq_iff split_equal_def next_ubatch_def)

definition simple_sel :: "nat \<Rightarrow> batch_allocr \<Rightarrow> (nat list \<times> nat \<times> batch_allocr) res" where
  "simple_sel n a = (case split_simple_idxs n a of (idxs, a) \<Rightarrow> Inr (idxs, length idxs, a))"

lemma split_simple_next: "Inr (split_simple n a) = next_ubatch False (simple_sel n) a"
  by (simp add: split_simple_def next_ubatch_def simple_sel_def split: prod.splits)

definition seq_sel :: "nat \<Rightarrow> batch_allocr \<Rightarrow> (nat list \<times> nat \<times> batch_allocr) res" where
  "seq_sel n a = (case split_seq_idxs n a of (idxs, a) \<Rightarrow> Inr (idxs, if idxs = [] then 0 else 1, a))"

lemma split_seq_next: "Inr (split_seq n a) = next_ubatch True (seq_sel n) a"
  by (simp add: split_seq_def next_ubatch_def seq_sel_def split: prod.splits)

subsection \<open>Consuming indices\<close>

definition consume :: "nat list \<Rightarrow> batch_allocr \<Rightarrow> batch_allocr" where
  "consume idxs a = a\<lparr>ba_used := fold (\<lambda>i u. u[i := True]) idxs (ba_used a),
                      ba_n_used := ba_n_used a + length idxs\<rparr>"

lemma consume_Nil [simp]: "consume [] a = a"
  by (simp add: consume_def)

lemma mark_used_consume [simp]: "mark_used i (consume idxs a) = consume (idxs @ [i]) a"
  by (simp add: mark_used_def consume_def)

lemma mark_used_eq_consume: "mark_used i a = consume [i] a"
  by (simp add: mark_used_def consume_def)

lemma consume_append: "consume ys (consume xs a) = consume (xs @ ys) a"
  by (simp add: consume_def)

lemma consume_fields [simp]:
  "ba_batch (consume idxs a) = ba_batch a" "ba_seq_set (consume idxs a) = ba_seq_set a"
  "ba_seq_set_map (consume idxs a) = ba_seq_set_map a" "get_n_tokens (consume idxs a) = get_n_tokens a"
  "ba_out_ids (consume idxs a) = ba_out_ids a" "length (ba_used (consume idxs a)) = length (ba_used a)"
  "ba_n_embd (consume idxs a) = ba_n_embd a" "ba_n_pos_per_embd (consume idxs a) = ba_n_pos_per_embd a"
  "ba_n_seq_max (consume idxs a) = ba_n_seq_max a" "ba_has_cpl (consume idxs a) = ba_has_cpl a"
  "ba_n_used (consume idxs a) = ba_n_used a + length idxs"
  by (simp_all add: consume_def get_n_tokens_def)

lemma consume_used:
  "j < length (ba_used a) \<Longrightarrow> ba_used (consume idxs a) ! j \<longleftrightarrow> j \<in> set idxs \<or> ba_used a ! j"
  by (auto simp: consume_def fold_update_nth)

lemma consume_out_ids: "consume idxs (a\<lparr>ba_out_ids := out\<rparr>) = (consume idxs a)\<lparr>ba_out_ids := out\<rparr>"
  by (simp add: consume_def)

definition unused :: "batch_allocr \<Rightarrow> nat list" where
  "unused a = filter (\<lambda>i. \<not> ba_used a ! i) [0..<get_n_tokens a]"

lemma unused_consume:
  assumes "length (ba_used a) = get_n_tokens a"
  shows "unused (consume idxs a) = filter (\<lambda>i. i \<notin> set idxs) (unused a)"
  using assms by (auto simp: unused_def consume_used intro!: filter_cong)

lemma mset_unused_consume:
  assumes "length (ba_used a) = get_n_tokens a" "distinct idxs" "set idxs \<subseteq> set (unused a)"
  shows "mset (unused a) = mset idxs + mset (unused (consume idxs a))"
proof -
  have "mset (filter (\<lambda>i. i \<in> set idxs) (unused a)) = mset idxs"
  proof (rule set_eq_iff_mset_eq_distinct [THEN iffD1])
    show "distinct (filter (\<lambda>i. i \<in> set idxs) (unused a))" by (simp add: unused_def)
    show "set (filter (\<lambda>i. i \<in> set idxs) (unused a)) = set idxs" using assms(3) by auto
  qed (rule assms)
  then show ?thesis
    using multiset_partition [of "mset (unused a)" "\<lambda>i. i \<in> set idxs"] by (simp add: unused_consume [OF assms(1)])
qed

text \<open>The invariant of the splitting state: \<open>n_used\<close> counts the used tokens, \<open>seq_set_map\<close> lists the
  indices of each sequence set in batch order, every token belongs to a sequence, and within each
  sequence set the used tokens come first.\<close>

definition allocr_wf :: "batch_allocr \<Rightarrow> bool" where
  "allocr_wf a \<longleftrightarrow> length (ba_used a) = get_n_tokens a \<and> length (ba_seq_set a) = get_n_tokens a
     \<and> ba_n_used a + length (unused a) = get_n_tokens a
     \<and> (\<forall>S. ba_seq_set_map a S = filter (\<lambda>i. ba_seq_set a ! i = S) [0..<get_n_tokens a])
     \<and> (\<forall>S \<in> set (ba_seq_set a). S \<noteq> {})
     \<and> (\<forall>j < get_n_tokens a. \<forall>i < j. ba_seq_set a ! i = ba_seq_set a ! j \<longrightarrow> ba_used a ! j \<longrightarrow> ba_used a ! i)"

text \<open>A selection that is legal in state \<open>a\<close>: distinct unused tokens, closed under earlier tokens of the
  same sequence set.\<close>

definition selection_ok :: "batch_allocr \<Rightarrow> nat list \<Rightarrow> bool" where
  "selection_ok a idxs \<longleftrightarrow> distinct idxs \<and> set idxs \<subseteq> set (unused a)
     \<and> (\<forall>j \<in> set idxs. \<forall>i < j. ba_seq_set a ! i = ba_seq_set a ! j \<longrightarrow> ba_used a ! i \<or> i \<in> set idxs)"

lemma selection_ok_wf:
  assumes wf: "allocr_wf a" and sel: "selection_ok a idxs"
  shows "allocr_wf (consume idxs a)"
proof -
  have len: "length (ba_used a) = get_n_tokens a" using wf by (simp add: allocr_wf_def)
  have m: "mset (unused a) = mset idxs + mset (unused (consume idxs a))"
    using mset_unused_consume [OF len] sel by (simp add: selection_ok_def)
  then have "length (unused a) = length idxs + length (unused (consume idxs a))"
    by (metis size_mset size_union)
  moreover have "ba_used (consume idxs a) ! i"
    if "j < get_n_tokens a" "i < j" "ba_seq_set a ! i = ba_seq_set a ! j" "ba_used (consume idxs a) ! j" for i j
    using that wf sel by (auto simp: consume_used len allocr_wf_def selection_ok_def)
  ultimately show ?thesis using wf by (simp add: allocr_wf_def)
qed

subsection \<open>The contract of a splitting strategy\<close>

text \<open>\<open>sel\<close> selects; \<open>inv\<close> is its invariant; \<open>good\<close> is what the strategy promises of each selection in the
  state it is made in.\<close>

locale batch_splitter =
  fixes sel :: "batch_allocr \<Rightarrow> (nat list \<times> nat \<times> batch_allocr) res"
    and e :: bool
    and inv :: "batch_allocr \<Rightarrow> bool"
    and good :: "batch_allocr \<Rightarrow> nat list \<Rightarrow> nat \<Rightarrow> bool"
  assumes inv_wf: "inv a \<Longrightarrow> allocr_wf a"
    and inv_out: "inv a \<Longrightarrow> inv (a\<lparr>ba_out_ids := out\<rparr>)"
    and good_out: "good (a\<lparr>ba_out_ids := out\<rparr>) idxs k \<longleftrightarrow> good a idxs k"
    and sel_step: "inv a \<Longrightarrow> \<exists>idxs k. sel a = Inr (idxs, k, consume idxs a) \<and> selection_ok a idxs
          \<and> inv (consume idxs a) \<and> (k = 0 \<longleftrightarrow> idxs = []) \<and> (idxs = [] \<longrightarrow> unused a = [])
          \<and> (idxs \<noteq> [] \<longrightarrow> good a idxs k)"
begin

lemma split_all_partition:
  assumes "inv a"
  shows "\<exists>sels a'. split_all (next_ubatch e sel) a
            = Some (Inr (map (\<lambda>(idxs, k). fst (ubatch_add idxs k e a)) sels, a'))
          \<and> mset (concat (map fst sels)) = mset (unused a)
          \<and> a' = (consume (concat (map fst sels)) a)\<lparr>ba_out_ids := ba_out_ids a
                 @ filter (\<lambda>i. arr (b_logits (ba_batch a)) ! i \<noteq> 0) (concat (map fst sels))\<rparr>
          \<and> (\<forall>j < length sels. fst (sels ! j) \<noteq> []
                 \<and> good (consume (concat (map fst (take j sels))) a) (fst (sels ! j)) (snd (sels ! j)))"
  using assms
proof (induction "length (unused a)" arbitrary: a rule: less_induct)
  case less
  obtain idxs k where sel: "sel a = Inr (idxs, k, consume idxs a)" and ok: "selection_ok a idxs"
    and inv': "inv (consume idxs a)" and k: "k = 0 \<longleftrightarrow> idxs = []" and fin: "idxs = [] \<longrightarrow> unused a = []"
    and gd: "idxs \<noteq> [] \<longrightarrow> good a idxs k"
    using sel_step [OF less.prems] by blast
  show ?case
  proof (cases "idxs = []")
    case True
    then have "split_all (next_ubatch e sel) a = Some (Inr ([], a))"
      using sel k by (subst split_all.simps) (simp add: next_ubatch_def ubatch_null_def)
    then show ?thesis using True fin by (intro exI [of _ "[]"]) simp
  next
    case False
    let ?out = "\<lambda>xs. filter (\<lambda>i. arr (b_logits (ba_batch a)) ! i \<noteq> 0) xs"
    let ?u = "fst (ubatch_add idxs k e a)"
    let ?a = "(consume idxs a)\<lparr>ba_out_ids := ba_out_ids a @ ?out idxs\<rparr>"
    have len: "length (ba_used a) = get_n_tokens a" using inv_wf [OF less.prems] by (simp add: allocr_wf_def)
    have ms: "mset (unused a) = mset idxs + mset (unused (consume idxs a))"
      using mset_unused_consume [OF len] ok by (simp add: selection_ok_def)
    have un: "unused ?a = unused (consume idxs a)" by (simp add: unused_def get_n_tokens_def)
    have nx: "next_ubatch e sel a = Inr (?u, ?a)"
    proof -
      have "ubatch_add idxs k e (consume idxs a) = (?u, ?a)"
        using ubatch_add_state [of idxs k e "consume idxs a"] ubatch_add_fst_cong [of "consume idxs a" a idxs k e]
        by (simp add: prod_eq_iff)
      then show ?thesis using sel k False by (simp add: next_ubatch_def)
    qed
    have "size (mset (unused a)) = size (mset idxs + mset (unused (consume idxs a)))" by (simp only: ms)
    then have "length (unused ?a) < length (unused a)" using False by (simp add: un)
    from less.hyps [OF this inv_out [OF inv']] obtain sels a' where
      r: "split_all (next_ubatch e sel) ?a = Some (Inr (map (\<lambda>(idxs, k). fst (ubatch_add idxs k e ?a)) sels, a'))"
      and m: "mset (concat (map fst sels)) = mset (unused ?a)"
      and a': "a' = (consume (concat (map fst sels)) ?a)\<lparr>ba_out_ids := ba_out_ids ?a @ ?out (concat (map fst sels))\<rparr>"
      and g: "\<forall>j < length sels. fst (sels ! j) \<noteq> []
                \<and> good (consume (concat (map fst (take j sels))) ?a) (fst (sels ! j)) (snd (sels ! j))"
      by auto
    have fs: "(\<lambda>(idxs, k). fst (ubatch_add idxs k e ?a)) = (\<lambda>(idxs, k). fst (ubatch_add idxs k e a))"
      by (auto intro!: ubatch_add_fst_cong)
    have "ub_n_tokens ?u = length idxs" by (simp add: ubatch_add_def Let_def split_def)
    then have all: "split_all (next_ubatch e sel) a
        = Some (Inr (map (\<lambda>(idxs, k). fst (ubatch_add idxs k e a)) ((idxs, k) # sels), a'))"
      using nx r fs False by (subst split_all.simps) simp
    have a2: "a' = (consume (concat (map fst ((idxs, k) # sels))) a)\<lparr>ba_out_ids := ba_out_ids a
                 @ ?out (concat (map fst ((idxs, k) # sels)))\<rparr>"
      using a' by (simp add: consume_out_ids consume_append)
    have gg: "fst (((idxs, k) # sels) ! j) \<noteq> [] \<and> good (consume (concat (map fst (take j ((idxs, k) # sels)))) a)
        (fst (((idxs, k) # sels) ! j)) (snd (((idxs, k) # sels) ! j))" if "j < length ((idxs, k) # sels)" for j
    proof (cases j)
      case 0
      then show ?thesis using gd False by simp
    next
      case (Suc i)
      then show ?thesis using g that by (simp add: consume_out_ids consume_append good_out)
    qed
    show ?thesis
      using all a2 gg m ms un by (intro exI [of _ "(idxs, k) # sels"] exI [of _ a']) simp
  qed
qed

end

subsection \<open>\<open>split_simple\<close>\<close>

lemma first_unused_le: "first_unused us \<le> length us"
  by (induction us) simp_all

lemma first_unused_used: "i < first_unused us \<Longrightarrow> us ! i"
proof (induction us arbitrary: i)
  case (Cons u us)
  then show ?case by (cases i) (auto split: if_splits)
qed simp

lemma first_unused_unused: "first_unused us < length us \<Longrightarrow> \<not> us ! first_unused us"
  by (induction us) auto

lemma first_unused_eq:
  assumes "m \<le> length us" "\<And>i. i < length us \<Longrightarrow> us ! i \<longleftrightarrow> i < m"
  shows "first_unused us = m"
proof (rule antisym)
  show "first_unused us \<le> m"
    using first_unused_used [of m us] first_unused_le [of us] assms(2) [of m] by (meson leI less_irrefl less_le_trans)
  show "m \<le> first_unused us"
    using first_unused_unused [of us] first_unused_le [of us] assms by (metis leI le_neq_implies_less less_le_trans)
qed

lemma unused_Nil_iff:
  assumes "length (ba_used a) = get_n_tokens a"
  shows "unused a = [] \<longleftrightarrow> first_unused (ba_used a) = length (ba_used a)"
proof
  assume "unused a = []"
  then have "\<forall>i < length (ba_used a). ba_used a ! i" using assms by (auto simp: unused_def filter_empty_conv)
  then show "first_unused (ba_used a) = length (ba_used a)"
    using first_unused_unused first_unused_le le_neq_implies_less by blast
next
  assume "first_unused (ba_used a) = length (ba_used a)"
  then show "unused a = []" using first_unused_used assms by (auto simp: unused_def filter_empty_conv)
qed

lemma simple_loop_eq:
  "c < length (ba_used a) \<Longrightarrow> simple_loop n c idxs a
     = (let e = min (length (ba_used a)) (c + max 1 (n - length idxs))
        in (idxs @ [c..<e], consume [c..<e] a))"
proof (induction n c idxs a rule: simple_loop.induct)
  case (1 n c idxs a)
  let ?a = "consume [c] a"
  have unf: "simple_loop n c idxs a = (if c + 1 \<ge> length (ba_used a) then (idxs @ [c], ?a)
      else if length idxs + 1 \<ge> n then (idxs @ [c], ?a) else simple_loop n (c + 1) (idxs @ [c]) ?a)"
    by (subst simple_loop.simps) (simp add: mark_used_eq_consume Let_def)
  show ?case
  proof (cases "c + 1 \<ge> length (ba_used a) \<or> length idxs + 1 \<ge> n")
    case True
    then have "min (length (ba_used a)) (c + max 1 (n - length idxs)) = Suc c"
      using "1.prems" by (auto simp: min_def max_def)
    then show ?thesis using True by (auto simp: unf)
  next
    case False
    define e where "e = min (length (ba_used a)) (c + max 1 (n - length idxs))"
    have e: "min (length (ba_used a)) (c + 1 + max 1 (n - length (idxs @ [c]))) = e" "c < e"
      using False "1.prems" by (auto simp: min_def max_def e_def)
    have IH: "simple_loop n (c + 1) (idxs @ [c]) ?a
        = (let e = min (length (ba_used ?a)) (c + 1 + max 1 (n - length (idxs @ [c])))
           in ((idxs @ [c]) @ [c + 1..<e], consume [c + 1..<e] ?a))"
      by (rule "1.IH" [OF refl _ refl]) (use False in \<open>simp_all add: mark_used_eq_consume\<close>)
    have "simple_loop n (c + 1) (idxs @ [c]) ?a = (idxs @ c # [c + 1..<e], consume ([c] @ [c + 1..<e]) a)"
      unfolding IH consume_fields e(1) Let_def by (simp add: consume_append)
    moreover have "c # [c + 1..<e] = [c..<e]" using e(2) by (simp add: upt_conv_Cons)
    ultimately show ?thesis using False unfolding unf e_def [symmetric] Let_def by simp
  qed
qed

definition simple_inv :: "batch_allocr \<Rightarrow> bool" where
  "simple_inv a \<longleftrightarrow> allocr_wf a \<and> (\<forall>i < get_n_tokens a. ba_used a ! i \<longleftrightarrow> i < first_unused (ba_used a))"

definition simple_good :: "nat \<Rightarrow> batch_allocr \<Rightarrow> nat list \<Rightarrow> nat \<Rightarrow> bool" where
  "simple_good n_ubatch a idxs k \<longleftrightarrow> k = length idxs \<and> length idxs \<le> max 1 n_ubatch
     \<and> idxs = [first_unused (ba_used a)..<first_unused (ba_used a) + length idxs]"

lemma simple_consume:
  assumes inv: "simple_inv a" and e: "first_unused (ba_used a) \<le> e" "e \<le> get_n_tokens a"
  shows "selection_ok a [first_unused (ba_used a)..<e]"
    and "first_unused (ba_used (consume [first_unused (ba_used a)..<e] a)) = e"
    and "simple_inv (consume [first_unused (ba_used a)..<e] a)"
proof -
  let ?m = "first_unused (ba_used a)" and ?c = "consume [first_unused (ba_used a)..<e] a"
  have len: "length (ba_used a) = get_n_tokens a" and wf: "allocr_wf a"
    and u: "\<And>i. i < get_n_tokens a \<Longrightarrow> ba_used a ! i \<longleftrightarrow> i < ?m"
    using inv by (auto simp: simple_inv_def allocr_wf_def)
  show sel: "selection_ok a [?m..<e]" using u e by (auto simp: selection_ok_def unused_def)
  have u': "ba_used ?c ! i \<longleftrightarrow> i < e" if "i < get_n_tokens a" for i
    using that u e len by (auto simp: consume_used)
  show fu: "first_unused (ba_used ?c) = e" by (rule first_unused_eq) (use u' e len in auto)
  show "simple_inv ?c" using selection_ok_wf [OF wf sel] u' fu by (simp add: simple_inv_def)
qed

interpretation simple: batch_splitter "simple_sel n_ubatch" False simple_inv "simple_good n_ubatch"
  for n_ubatch
proof
  fix a out idxs k
  show "simple_inv a \<Longrightarrow> allocr_wf a" by (simp add: simple_inv_def)
  show "simple_inv a \<Longrightarrow> simple_inv (a\<lparr>ba_out_ids := out\<rparr>)"
    by (simp add: simple_inv_def allocr_wf_def get_n_tokens_def unused_def)
  show "simple_good n_ubatch (a\<lparr>ba_out_ids := out\<rparr>) idxs k \<longleftrightarrow> simple_good n_ubatch a idxs k"
    by (simp add: simple_good_def)
next
  fix a assume inv: "simple_inv a"
  let ?m = "first_unused (ba_used a)" and ?L = "length (ba_used a)"
  have len: "?L = get_n_tokens a" using inv by (simp add: simple_inv_def allocr_wf_def)
  show "\<exists>idxs k. simple_sel n_ubatch a = Inr (idxs, k, consume idxs a) \<and> selection_ok a idxs
          \<and> simple_inv (consume idxs a) \<and> (k = 0 \<longleftrightarrow> idxs = []) \<and> (idxs = [] \<longrightarrow> unused a = [])
          \<and> (idxs \<noteq> [] \<longrightarrow> simple_good n_ubatch a idxs k)"
  proof (cases "?m \<ge> ?L")
    case True
    then have "unused a = []" using unused_Nil_iff [OF len] first_unused_le [of "ba_used a"] by simp
    moreover have "simple_sel n_ubatch a = Inr ([], 0, a)"
      using True by (simp add: simple_sel_def split_simple_idxs_def)
    ultimately show ?thesis using inv by (intro exI [of _ "[]"]) (simp add: selection_ok_def)
  next
    case False
    define e where "e = min ?L (?m + max 1 n_ubatch)"
    have e: "?m < e" "e \<le> get_n_tokens a" "e - ?m \<le> max 1 n_ubatch" using False len by (auto simp: min_def e_def)
    have "simple_sel n_ubatch a = Inr ([?m..<e], e - ?m, consume [?m..<e] a)"
      using False by (simp add: simple_sel_def split_simple_idxs_def simple_loop_eq Let_def e_def)
    moreover have "simple_good n_ubatch a [?m..<e] (e - ?m)" using e by (simp add: simple_good_def)
    ultimately show ?thesis using simple_consume(1,3) [OF inv _ e(2)] e(1)
      by (intro exI [of _ "[?m..<e]"] exI [of _ "e - ?m"]) simp
  qed
qed

lemma split_simple_fun: "(\<lambda>a. Inr (split_simple n a)) = next_ubatch False (simple_sel n)"
  by (simp add: fun_eq_iff split_simple_next)

lemma split_reset_simple_inv:
  assumes "allocr_wf (split_reset a)"
  shows "simple_inv (split_reset a)" "unused (split_reset a) = [0..<get_n_tokens a]"
proof -
  have n: "get_n_tokens (split_reset a) = get_n_tokens a" by (simp add: split_reset_def get_n_tokens_def)
  have "first_unused (replicate n False) = 0" for n by (cases n) simp_all
  then show "simple_inv (split_reset a)"
    using assms n by (simp add: simple_inv_def) (simp add: split_reset_def)
  show "unused (split_reset a) = [0..<get_n_tokens a]"
    by (simp add: unused_def n) (simp add: split_reset_def)
qed

lemma ubatch_add_split_reset: "fst (ubatch_add idxs k e (split_reset a)) = fst (ubatch_add idxs k e a)"
  by (rule ubatch_add_fst_cong) (simp_all add: split_reset_def)

lemma split_simple_runs:
  assumes "allocr_wf (split_reset a)"
  shows "\<exists>runs a'. split_all (\<lambda>a. Inr (split_simple n_ubatch a)) (split_reset a)
            = Some (Inr (map (\<lambda>idxs. fst (ubatch_add idxs (length idxs) False a)) runs, a'))
          \<and> concat runs = [0..<get_n_tokens a] \<and> (\<forall>r \<in> set runs. r \<noteq> [] \<and> length r \<le> max 1 n_ubatch)
          \<and> get_n_used a' = get_n_tokens a
          \<and> get_out_ids a' = filter (\<lambda>i. arr (b_logits (ba_batch a)) ! i \<noteq> 0) [0..<get_n_tokens a] \<and> ba_batch a' = ba_batch a"
proof -
  let ?a = "split_reset a"
  obtain sels a' where r: "split_all (next_ubatch False (simple_sel n_ubatch)) ?a
            = Some (Inr (map (\<lambda>(idxs, k). fst (ubatch_add idxs k False ?a)) sels, a'))"
    and m: "mset (concat (map fst sels)) = mset (unused ?a)"
    and a': "a' = (consume (concat (map fst sels)) ?a)\<lparr>ba_out_ids := ba_out_ids ?a
                 @ filter (\<lambda>i. arr (b_logits (ba_batch ?a)) ! i \<noteq> 0) (concat (map fst sels))\<rparr>"
    and g: "\<forall>j < length sels. fst (sels ! j) \<noteq> []
         \<and> simple_good n_ubatch (consume (concat (map fst (take j sels))) ?a) (fst (sels ! j)) (snd (sels ! j))"
    using simple.split_all_partition [OF split_reset_simple_inv(1) [OF assms]] by blast
  have un: "unused ?a = [0..<get_n_tokens a]" by (rule split_reset_simple_inv(2) [OF assms])
  have n: "get_n_tokens ?a = get_n_tokens a" by (simp add: split_reset_def get_n_tokens_def)
  have pre: "j \<le> length sels \<Longrightarrow> concat (map fst (take j sels)) = [0..<length (concat (map fst (take j sels)))]
      \<and> length (concat (map fst (take j sels))) \<le> get_n_tokens a" for j
  proof (induction j)
    case (Suc j)
    let ?p = "concat (map fst (take j sels))"
    have tk: "concat (map fst (take (Suc j) sels)) = ?p @ fst (sels ! j)"
      using Suc.prems by (simp add: take_Suc_conv_app_nth)
    have p: "?p = [0..<length ?p]" "length ?p \<le> get_n_tokens a" using Suc by simp_all
    have fu0: "first_unused (ba_used ?a) = 0" by (cases "get_n_tokens a") (simp_all add: split_reset_def)
    have "first_unused (ba_used (consume ?p ?a)) = length ?p"
      using simple_consume(2) [OF split_reset_simple_inv(1) [OF assms], of "length ?p"] p
      by (simp add: fu0 n)
    moreover have "simple_good n_ubatch (consume ?p ?a) (fst (sels ! j)) (snd (sels ! j))"
      using g Suc.prems by simp
    ultimately have "fst (sels ! j) = [length ?p..<length ?p + length (fst (sels ! j))]"
      unfolding simple_good_def by metis
    then have "concat (map fst (take (Suc j) sels)) = [0..<length (?p @ fst (sels ! j))]"
      using p(1) tk upt_add_eq_append [of 0 "length ?p"] by (metis length_append zero_le)
    moreover have "set (concat (map fst (take (Suc j) sels))) \<subseteq> {..<get_n_tokens a}"
    proof -
      have "set (concat (map fst (take (Suc j) sels))) \<subseteq> set (concat (map fst sels))"
        by (auto dest: in_set_takeD)
      also have "\<dots> = set [0..<get_n_tokens a]" using m un by (metis set_mset_mset)
      finally show ?thesis by auto
    qed
    ultimately show ?case using tk by (metis length_upt minus_nat.diff_0 set_upt ivl_subset atLeast0LessThan le0 leI less_irrefl subset_eq lessThan_iff)
  qed simp
  have len: "length (concat (map fst sels)) = get_n_tokens a"
    using m un by (metis length_upt minus_nat.diff_0 size_mset)
  have cc: "concat (map fst sels) = [0..<get_n_tokens a]" using pre [of "length sels"] len by simp
  have k: "\<forall>(idxs, k) \<in> set sels. idxs \<noteq> [] \<and> k = length idxs \<and> length idxs \<le> max 1 n_ubatch"
    using g by (fastforce simp: simple_good_def in_set_conv_nth)
  have "map (\<lambda>(idxs, k). fst (ubatch_add idxs k False ?a)) sels
      = map (\<lambda>idxs. fst (ubatch_add idxs (length idxs) False a)) (map fst sels)"
    using k by (auto simp: ubatch_add_split_reset)
  then show ?thesis
    using r cc k a' len n
    by (intro exI [of _ "map fst sels"] exI [of _ a'])
      (auto simp: split_simple_fun get_n_used_def get_out_ids_def split_reset_def)
qed

text \<open>C24. The loop over \<open>split_simple\<close> terminates on every well-formed batch and its ubatches are
  consecutive runs of at most \<open>n_ubatch\<close> tokens that, put together, are the batch in order:
  none is lost, repeated or moved. \<open>n_used\<close> then equals \<open>n_tokens\<close>, and \<open>out_ids\<close> lists the output
  tokens in batch order.\<close>

theorem split_simple_partitions_in_order:
  assumes "allocr_wf (split_reset a)"
  shows "\<exists>runs a'. split_all (\<lambda>a. Inr (split_simple n_ubatch a)) (split_reset a)
            = Some (Inr (map (\<lambda>idxs. fst (ubatch_add idxs (length idxs) False a)) runs, a'))
          \<and> concat runs = [0..<get_n_tokens a] \<and> (\<forall>r \<in> set runs. r \<noteq> [] \<and> length r \<le> max 1 n_ubatch)
          \<and> get_n_used a' = get_n_tokens a
          \<and> get_out_ids a' = filter (\<lambda>i. arr (b_logits (ba_batch a)) ! i \<noteq> 0) [0..<get_n_tokens a]"
  using split_simple_runs [OF assms] by blast

subsection \<open>\<open>split_seq\<close>\<close>

lemma seq_next_spec:
  "c < get_n_tokens a \<Longrightarrow> seq_next a S c \<le> get_n_tokens a
     \<and> (\<forall>i. c < i \<and> i < seq_next a S c \<longrightarrow> ba_used a ! i \<or> \<not> ba_seq_set a ! i \<subseteq> S)
     \<and> (seq_next a S c < get_n_tokens a \<longrightarrow> \<not> ba_used a ! seq_next a S c \<and> ba_seq_set a ! seq_next a S c \<subseteq> S)"
proof (induction a S c rule: seq_next.induct)
  case (1 a S c)
  let ?skip = "c + 1 < get_n_tokens a \<and> (ba_used a ! (c + 1) \<or> S \<inter> ba_seq_set a ! (c + 1) \<noteq> ba_seq_set a ! (c + 1))"
  have unf: "seq_next a S c = (if ?skip then seq_next a S (c + 1) else c + 1)"
    by (subst seq_next.simps) (simp only: Let_def)
  show ?case
  proof (cases ?skip)
    case True
    have IH: "seq_next a S (c + 1) \<le> get_n_tokens a
      \<and> (\<forall>i. c + 1 < i \<and> i < seq_next a S (c + 1) \<longrightarrow> ba_used a ! i \<or> \<not> ba_seq_set a ! i \<subseteq> S)
      \<and> (seq_next a S (c + 1) < get_n_tokens a \<longrightarrow> \<not> ba_used a ! seq_next a S (c + 1) \<and> ba_seq_set a ! seq_next a S (c + 1) \<subseteq> S)"
      by (rule "1.IH" [OF refl True]) (use True in simp)
    have "ba_used a ! i \<or> \<not> ba_seq_set a ! i \<subseteq> S" if "c < i" "i < seq_next a S (c + 1)" for i
    proof (cases "i = c + 1")
      case True
      then show ?thesis using \<open>?skip\<close> by (auto simp: Int_absorb1)
    next
      case False
      then show ?thesis using that IH by simp
    qed
    then show ?thesis unfolding unf using True IH by simp
  next
    case False
    then have "c + 1 < get_n_tokens a \<Longrightarrow> \<not> ba_used a ! (c + 1) \<and> ba_seq_set a ! (c + 1) \<subseteq> S" by blast
    moreover have "seq_next a S c = c + 1" using False unfolding unf by (rule if_not_P)
    ultimately show ?thesis using "1.prems" by auto
  qed
qed

definition seq_picked :: "batch_allocr \<Rightarrow> nat \<Rightarrow> nat list \<Rightarrow> bool" where
  "seq_picked a c js \<longleftrightarrow> sorted_wrt (<) (c # js) \<and> set (c # js) \<subseteq> set (unused a)
     \<and> sorted_wrt (\<lambda>i j. ba_seq_set a ! j \<subseteq> ba_seq_set a ! i) (c # js)
     \<and> (\<forall>j \<in> set (c # js). \<forall>i. c \<le> i \<and> i < j \<and> ba_seq_set a ! i = ba_seq_set a ! j
           \<longrightarrow> ba_used a ! i \<or> i \<in> set (c # js))"

lemma seq_picked_Cons:
  assumes c: "c < get_n_tokens a" "\<not> ba_used a ! c" and len: "length (ba_used a) = get_n_tokens a"
    and p: "seq_picked (consume [c] a) c' js"
    and c': "c' = seq_next (consume [c] a) (ba_seq_set a ! c) c" "c' < get_n_tokens a"
  shows "seq_picked a c (c' # js)"
proof -
  let ?a = "consume [c] a"
  have u: "ba_used ?a ! i \<longleftrightarrow> i = c \<or> ba_used a ! i" if "i < get_n_tokens a" for i
    using that len by (simp add: consume_used)
  have lt: "c < c'" using seq_next_gt c'(1) by simp
  have nx: "\<not> ba_used ?a ! c'" "ba_seq_set a ! c' \<subseteq> ba_seq_set a ! c"
    "\<And>i. c < i \<Longrightarrow> i < c' \<Longrightarrow> ba_used ?a ! i \<or> \<not> ba_seq_set a ! i \<subseteq> ba_seq_set a ! c"
    using seq_next_spec [of c ?a "ba_seq_set a ! c"] c(1) c' by simp_all
  have js: "sorted_wrt (<) (c' # js)" "set (c' # js) \<subseteq> set (unused ?a)"
    "sorted_wrt (\<lambda>i j. ba_seq_set a ! j \<subseteq> ba_seq_set a ! i) (c' # js)"
    and cl: "\<And>j i. j \<in> set (c' # js) \<Longrightarrow> c' \<le> i \<Longrightarrow> i < j \<Longrightarrow> ba_seq_set a ! i = ba_seq_set a ! j
             \<Longrightarrow> ba_used ?a ! i \<or> i \<in> set (c' # js)"
    using p by (auto simp: seq_picked_def)
  have sub: "ba_seq_set a ! j \<subseteq> ba_seq_set a ! c" if "j \<in> set (c' # js)" for j
    using js(3) nx(2) that by auto
  have un: "set (c' # js) \<subseteq> set (unused a)" using js(2) u by (auto simp: unused_def)
  have "ba_used a ! i \<or> i \<in> set (c # c' # js)"
    if j: "j \<in> set (c # c' # js)" and i: "c \<le> i" "i < j" "ba_seq_set a ! i = ba_seq_set a ! j" for i j
  proof -
    have j': "j \<in> set (c' # js)" using j i by auto
    then have "j < get_n_tokens a" using un by (auto simp: unused_def)
    then have ui: "ba_used ?a ! i \<longleftrightarrow> i = c \<or> ba_used a ! i" using i u by simp
    consider "i = c" | "c < i" "i < c'" | "c' \<le> i" using i by linarith
    then show ?thesis
    proof cases
      case 2
      then show ?thesis using nx(3) [OF 2] sub [OF j'] i ui by auto
    next
      case 3
      then show ?thesis using cl [OF j' 3 i(2,3)] ui by auto
    qed simp
  qed
  then show ?thesis
    using lt js un sub c by (auto simp: seq_picked_def unused_def intro: less_trans)
qed

lemma seq_loop_spec:
  assumes "c < get_n_tokens a" "\<not> ba_used a ! c" "length (ba_used a) = get_n_tokens a"
  shows "\<exists>js. seq_loop n c (ba_seq_set a ! c) idxs a = (idxs @ c # js, consume (c # js) a)
           \<and> seq_picked a c js \<and> length (idxs @ c # js) \<le> max (length idxs + 1) n"
  using assms
proof (induction "get_n_tokens a - c" arbitrary: c a idxs rule: less_induct)
  case less
  let ?a = "consume [c] a" and ?S = "ba_seq_set a ! c"
  let ?c = "seq_next ?a ?S c"
  have unf: "seq_loop n c ?S idxs a = (if length (idxs @ [c]) \<ge> n \<or> ?c \<ge> get_n_tokens a then (idxs @ [c], ?a)
      else seq_loop n ?c (ba_seq_set ?a ! ?c) (idxs @ [c]) ?a)"
    by (subst seq_loop.simps) (simp add: mark_used_eq_consume Let_def)
  have one: "seq_picked a c []" using less.prems by (auto simp: seq_picked_def unused_def)
  show ?case
  proof (cases "length (idxs @ [c]) \<ge> n \<or> ?c \<ge> get_n_tokens a")
    case True
    then show ?thesis using one by (intro exI [of _ "[]"]) (auto simp: unf)
  next
    case False
    then have c': "?c < get_n_tokens a" "length (idxs @ [c]) < n" by simp_all
    have "\<not> ba_used ?a ! ?c" using seq_next_spec [of c ?a ?S] less.prems(1) c' by simp
    moreover have "get_n_tokens ?a - ?c < get_n_tokens a - c"
      using c' seq_next_gt [of c ?a ?S] by simp
    ultimately obtain js where
      r: "seq_loop n ?c (ba_seq_set ?a ! ?c) (idxs @ [c]) ?a = ((idxs @ [c]) @ ?c # js, consume (?c # js) ?a)"
      and p: "seq_picked ?a ?c js" and l: "length ((idxs @ [c]) @ ?c # js) \<le> max (length (idxs @ [c]) + 1) n"
      using less.hyps [of ?a ?c "idxs @ [c]"] c' less.prems(3) by auto
    have "seq_picked a c (?c # js)" by (rule seq_picked_Cons [OF less.prems(1,2,3) p refl c'(1)])
    moreover have "seq_loop n c ?S idxs a = (idxs @ c # ?c # js, consume (c # ?c # js) a)"
      unfolding unf using False r by (simp add: consume_append)
    ultimately show ?thesis using l c'(2) by (intro exI [of _ "?c # js"]) simp
  qed
qed

definition seq_good :: "nat \<Rightarrow> batch_allocr \<Rightarrow> nat list \<Rightarrow> nat \<Rightarrow> bool" where
  "seq_good n_ubatch a idxs k \<longleftrightarrow> k = 1 \<and> length idxs \<le> max 1 n_ubatch \<and> sorted_wrt (<) idxs
     \<and> sorted_wrt (\<lambda>i j. ba_seq_set a ! j \<subseteq> ba_seq_set a ! i) idxs"

lemma allocr_wf_out: "allocr_wf (a\<lparr>ba_out_ids := out\<rparr>) \<longleftrightarrow> allocr_wf a"
  by (simp add: allocr_wf_def get_n_tokens_def unused_def)

interpretation seqs: batch_splitter "seq_sel n_ubatch" True allocr_wf "seq_good n_ubatch"
  for n_ubatch
proof
  fix a out idxs k
  show "allocr_wf a \<Longrightarrow> allocr_wf a" .
  show "allocr_wf a \<Longrightarrow> allocr_wf (a\<lparr>ba_out_ids := out\<rparr>)" by (simp add: allocr_wf_out)
  show "seq_good n_ubatch (a\<lparr>ba_out_ids := out\<rparr>) idxs k \<longleftrightarrow> seq_good n_ubatch a idxs k"
    by (simp add: seq_good_def)
next
  fix a assume wf: "allocr_wf a"
  let ?m = "first_unused (ba_used a)"
  have len: "length (ba_used a) = get_n_tokens a" using wf by (simp add: allocr_wf_def)
  show "\<exists>idxs k. seq_sel n_ubatch a = Inr (idxs, k, consume idxs a) \<and> selection_ok a idxs
          \<and> allocr_wf (consume idxs a) \<and> (k = 0 \<longleftrightarrow> idxs = []) \<and> (idxs = [] \<longrightarrow> unused a = [])
          \<and> (idxs \<noteq> [] \<longrightarrow> seq_good n_ubatch a idxs k)"
  proof (cases "?m \<ge> length (ba_used a)")
    case True
    then have "unused a = []" using unused_Nil_iff [OF len] first_unused_le [of "ba_used a"] by simp
    moreover have "seq_sel n_ubatch a = Inr ([], 0, a)"
      using True by (simp add: seq_sel_def split_seq_idxs_def)
    ultimately show ?thesis using wf by (intro exI [of _ "[]"]) (simp add: selection_ok_def)
  next
    case False
    then obtain js where r: "seq_loop n_ubatch ?m (ba_seq_set a ! ?m) [] a = (?m # js, consume (?m # js) a)"
      and p: "seq_picked a ?m js" and l: "length (?m # js) \<le> max 1 n_ubatch"
      using seq_loop_spec [of ?m a n_ubatch "[]"] len first_unused_unused by auto
    have "distinct (?m # js)" using p strict_sorted_iff by (auto simp: seq_picked_def strict_sorted_iff)
    then have sel: "selection_ok a (?m # js)"
      using p first_unused_used [of _ "ba_used a"] unfolding selection_ok_def seq_picked_def by (metis leI)
    have "seq_sel n_ubatch a = Inr (?m # js, 1, consume (?m # js) a)"
      using False r by (simp add: seq_sel_def split_seq_idxs_def Let_def)
    then show ?thesis
      using sel selection_ok_wf [OF wf sel] p l
      by (intro exI [of _ "?m # js"] exI [of _ 1]) (simp add: seq_good_def seq_picked_def)
  qed
qed

lemma split_seq_fun: "(\<lambda>a. Inr (split_seq n a)) = next_ubatch True (seq_sel n)"
  by (simp add: fun_eq_iff split_seq_next)

lemma split_seq_chains:
  assumes "allocr_wf (split_reset a)"
  shows "\<exists>chains a'. split_all (\<lambda>a. Inr (split_seq n_ubatch a)) (split_reset a)
            = Some (Inr (map (\<lambda>idxs. fst (ubatch_add idxs 1 True a)) chains, a'))
          \<and> mset (concat chains) = mset [0..<get_n_tokens a] \<and> get_n_used a' = get_n_tokens a
          \<and> (\<forall>c \<in> set chains. c \<noteq> [] \<and> length c \<le> max 1 n_ubatch \<and> sorted_wrt (<) c
               \<and> sorted_wrt (\<lambda>i j. ba_seq_set a ! j \<subseteq> ba_seq_set a ! i) c) \<and> ba_batch a' = ba_batch a"
proof -
  let ?a = "split_reset a"
  obtain sels a' where r: "split_all (next_ubatch True (seq_sel n_ubatch)) ?a
            = Some (Inr (map (\<lambda>(idxs, k). fst (ubatch_add idxs k True ?a)) sels, a'))"
    and m: "mset (concat (map fst sels)) = mset (unused ?a)"
    and a': "a' = (consume (concat (map fst sels)) ?a)\<lparr>ba_out_ids := ba_out_ids ?a
                 @ filter (\<lambda>i. arr (b_logits (ba_batch ?a)) ! i \<noteq> 0) (concat (map fst sels))\<rparr>"
    and g: "\<forall>j < length sels. fst (sels ! j) \<noteq> []
         \<and> seq_good n_ubatch (consume (concat (map fst (take j sels))) ?a) (fst (sels ! j)) (snd (sels ! j))"
    using seqs.split_all_partition [OF assms] by blast
  have un: "unused ?a = [0..<get_n_tokens a]" by (rule split_reset_simple_inv(2) [OF assms])
  have len: "length (concat (map fst sels)) = get_n_tokens a"
    using m un by (metis length_upt minus_nat.diff_0 size_mset)
  have k: "idxs \<noteq> [] \<and> k = 1 \<and> length idxs \<le> max 1 n_ubatch \<and> sorted_wrt (<) idxs
      \<and> sorted_wrt (\<lambda>i j. ba_seq_set a ! j \<subseteq> ba_seq_set a ! i) idxs" if ik: "(idxs, k) \<in> set sels" for idxs k
  proof -
    obtain j where "j < length sels" "sels ! j = (idxs, k)" using ik by (auto simp: in_set_conv_nth)
    moreover have "ba_seq_set ?a = ba_seq_set a" by (simp add: split_reset_def)
    ultimately show ?thesis using g by (force simp: seq_good_def)
  qed
  have "map (\<lambda>(idxs, k). fst (ubatch_add idxs k True ?a)) sels = map (\<lambda>idxs. fst (ubatch_add idxs 1 True a)) (map fst sels)"
    using k by (auto simp: ubatch_add_split_reset)
  moreover have "get_n_used a' = get_n_tokens a" "ba_batch a' = ba_batch a" unfolding a' using len by (simp_all add: get_n_used_def split_reset_def)
  moreover have "\<forall>c \<in> set (map fst sels). c \<noteq> [] \<and> length c \<le> max 1 n_ubatch \<and> sorted_wrt (<) c
      \<and> sorted_wrt (\<lambda>i j. ba_seq_set a ! j \<subseteq> ba_seq_set a ! i) c"
    using k by force
  ultimately show ?thesis
    using r m un by (intro exI [of _ "map fst sels"] exI [of _ a']) (simp only: split_seq_fun simp_thms)
qed

text \<open>C38. The loop over \<open>split_seq\<close> terminates and its ubatches partition the batch. Each ubatch is a list of
  at most \<open>n_ubatch\<close> tokens in batch order whose sequence sets form a descending chain, so that all
  its tokens share the sequences of its last token.\<close>

theorem split_seq_partitions_in_chains:
  assumes "allocr_wf (split_reset a)"
  shows "\<exists>chains a'. split_all (\<lambda>a. Inr (split_seq n_ubatch a)) (split_reset a)
            = Some (Inr (map (\<lambda>idxs. fst (ubatch_add idxs 1 True a)) chains, a'))
          \<and> mset (concat chains) = mset [0..<get_n_tokens a] \<and> get_n_used a' = get_n_tokens a
          \<and> (\<forall>c \<in> set chains. c \<noteq> [] \<and> length c \<le> max 1 n_ubatch \<and> sorted_wrt (<) c
               \<and> sorted_wrt (\<lambda>i j. ba_seq_set a ! j \<subseteq> ba_seq_set a ! i) c)"
  using split_seq_chains [OF assms] by blast

end
