(* ===== verification/Batch_Equal.thy ===== *)
theory Batch_Equal
  imports Batch_Partition
begin

section \<open>\<open>split_equal\<close>\<close>

text \<open>
  \<open>split_equal\<close> satisfies the contract of \<open>batch_splitter\<close>: whatever \<open>n_keep_tail\<close>, a selection is \<open>k\<close>
  disjoint sequence sets with the same number of their next unused tokens each. The states of its
  loops are the states \<open>eq_mk a sets rs\<close>, in which \<open>rs ! s\<close> tokens of the \<open>s\<close>-th set have been taken.
\<close>

subsection \<open>The unused tokens of a sequence set\<close>

definition set_unused :: "batch_allocr \<Rightarrow> seq_set_t \<Rightarrow> nat list" where
  "set_unused a S = filter (\<lambda>i. ba_seq_set a ! i = S \<and> \<not> ba_used a ! i) [0..<get_n_tokens a]"

lemma set_set_unused [simp]:
  "set (set_unused a S) = {i. i < get_n_tokens a \<and> ba_seq_set a ! i = S \<and> \<not> ba_used a ! i}"
  by (auto simp: set_unused_def)

lemma distinct_set_unused [simp]: "distinct (set_unused a S)"
  by (simp add: set_unused_def)

lemma sorted_set_unused: "sorted_wrt (<) (set_unused a S)"
  by (simp add: set_unused_def sorted_wrt_filter)

lemma skip_used_drop:
  assumes "sorted_wrt (<) is" "\<forall>i \<in> set is. \<forall>j \<in> set is. i < j \<longrightarrow> used ! j \<longrightarrow> used ! i"
  shows "drop (skip_used used is) is = filter (\<lambda>i. \<not> used ! i) is"
  using assms
proof (induction "is")
  case (Cons i "is")
  show ?case
  proof (cases "used ! i")
    case True
    then show ?thesis using Cons by simp
  next
    case False
    then have "\<forall>j \<in> set is. \<not> used ! j" using Cons.prems by fastforce
    then show ?thesis using False by (simp add: filter_True)
  qed
qed simp

lemma drop_skip_used:
  assumes "allocr_wf a"
  shows "drop (skip_used (ba_used a) (ba_seq_set_map a S)) (ba_seq_set_map a S) = set_unused a S"
proof -
  have m: "ba_seq_set_map a S = filter (\<lambda>i. ba_seq_set a ! i = S) [0..<get_n_tokens a]"
    using assms by (simp add: allocr_wf_def)
  have "sorted_wrt (<) (ba_seq_set_map a S)" by (simp add: m sorted_wrt_filter)
  moreover have "\<forall>i \<in> set (ba_seq_set_map a S). \<forall>j \<in> set (ba_seq_set_map a S). i < j \<longrightarrow> ba_used a ! j \<longrightarrow> ba_used a ! i"
    using assms m by (auto simp: allocr_wf_def)
  ultimately have "drop (skip_used (ba_used a) (ba_seq_set_map a S)) (ba_seq_set_map a S)
      = filter (\<lambda>i. \<not> ba_used a ! i) (ba_seq_set_map a S)" by (rule skip_used_drop)
  then show ?thesis by (simp add: m set_unused_def)
qed

lemma take_sorted_closed:
  assumes "sorted_wrt (<) xs" "j \<in> set (take r xs)" "i \<in> set xs" "i < (j::nat)"
  shows "i \<in> set (take r xs)"
proof -
  obtain p q where p: "p < length xs" "xs ! p = i" and q: "q < length (take r xs)" "take r xs ! q = j"
    using assms(2,3) by (metis in_set_conv_nth)
  have "p < q"
  proof (rule ccontr)
    assume "\<not> p < q"
    then have "q = p \<or> xs ! q < xs ! p" using assms(1) p q by (metis linorder_neqE_nat sorted_wrt_iff_nth_less)
    then show False using assms(4) p q by auto
  qed
  then show ?thesis using p q by (auto simp: in_set_conv_nth intro!: exI [of _ p])
qed

subsection \<open>Consumption up to order\<close>

lemma consume_mset:
  assumes "mset xs = mset ys"
  shows "consume xs a = consume ys a"
proof -
  have "set xs = set ys" "length xs = length ys" using assms by (metis set_mset_mset, metis size_mset)
  moreover from this have "fold (\<lambda>i u. u[i := True]) xs (ba_used a) = fold (\<lambda>i u. u[i := True]) ys (ba_used a)"
    by (intro nth_equalityI) (simp_all add: fold_update_nth)
  ultimately show ?thesis by (simp add: consume_def)
qed

lemma unmark_used_consume:
  assumes "i \<in> set xs" "distinct xs" "i < length (ba_used a)" "\<not> ba_used a ! i"
  shows "unmark_used i (consume xs a) = consume (remove1 i xs) a"
proof -
  have "(fold (\<lambda>i u. u[i := True]) xs (ba_used a))[i := False] = fold (\<lambda>i u. u[i := True]) (remove1 i xs) (ba_used a)"
    using assms by (intro nth_equalityI) (auto simp: nth_list_update fold_update_nth)
  moreover have "length xs = Suc (length (remove1 i xs))" 
    using length_pos_if_in_set [OF assms(1)] assms(1) by (simp add: length_remove1)
  ultimately show ?thesis by (simp add: unmark_used_def consume_def)
qed

lemma fold_unmark_used_consume:
  assumes "distinct ys" "set ys \<subseteq> set xs" "distinct xs" "\<forall>i \<in> set xs. i < length (ba_used a) \<and> \<not> ba_used a ! i"
  shows "fold unmark_used ys (consume xs a) = consume (filter (\<lambda>i. i \<notin> set ys) xs) a"
  using assms
proof (induction ys arbitrary: xs)
  case (Cons y ys)
  then have "unmark_used y (consume xs a) = consume (remove1 y xs) a" by (simp add: unmark_used_consume)
  moreover have "filter (\<lambda>i. i \<notin> set ys) (remove1 y xs) = filter (\<lambda>i. i \<notin> set (y # ys)) xs"
    using Cons.prems(3) by (auto simp: distinct_remove1_removeAll removeAll_filter_not_eq intro: filter_cong)
  moreover have "set ys \<subseteq> set (remove1 y xs)" using Cons.prems by (auto simp: distinct_remove1_removeAll)
  ultimately show ?case using Cons.IH [of "remove1 y xs"] Cons.prems notin_set_remove1 by fastforce
qed simp

lemma distinct_concat_map:
  assumes "distinct ss" "\<And>s. s \<in> set ss \<Longrightarrow> distinct (f s)"
    and "\<And>s t. s \<in> set ss \<Longrightarrow> t \<in> set ss \<Longrightarrow> s \<noteq> t \<Longrightarrow> set (f s) \<inter> set (f t) = {}"
  shows "distinct (concat (map f ss))"
  using assms
proof (induction ss)
  case (Cons s ss)
  have "distinct (concat (map f ss))" using Cons.IH Cons.prems by simp
  moreover have "set (f s) \<inter> (\<Union>t \<in> set ss. set (f t)) = {}" using Cons.prems(1,3) by fastforce
  ultimately show ?case using Cons.prems(2) by simp
qed simp

lemma mset_concat_update:
  assumes "s < length xss" "mset ys = mset (xss ! s) + M"
  shows "mset (concat (xss[s := ys])) = mset (concat xss) + M"
  using assms
proof (induction xss arbitrary: s)
  case (Cons xs xss)
  then show ?case by (cases s) simp_all
qed simp

subsection \<open>The states of the loops\<close>

definition eq_mk :: "batch_allocr \<Rightarrow> seq_set_t list \<Rightarrow> nat list \<Rightarrow> eq_state" where
  "eq_mk a sets rs =
    (let xss = map (\<lambda>s. take (rs ! s) (set_unused a (sets ! s))) [0..<length sets]
     in \<lparr>eq_cur = map (\<lambda>s. skip_used (ba_used a) (ba_seq_set_map a (sets ! s)) + rs ! s) [0..<length sets],
         eq_idxs = xss, eq_a = consume (concat xss) a\<rparr>)"

lemma eq_mk_fields [simp]:
  "eq_cur (eq_mk a sets rs) = map (\<lambda>s. skip_used (ba_used a) (ba_seq_set_map a (sets ! s)) + rs ! s) [0..<length sets]"
  "eq_idxs (eq_mk a sets rs) = map (\<lambda>s. take (rs ! s) (set_unused a (sets ! s))) [0..<length sets]"
  "eq_a (eq_mk a sets rs) = consume (concat (map (\<lambda>s. take (rs ! s) (set_unused a (sets ! s))) [0..<length sets])) a"
  by (simp_all add: eq_mk_def Let_def)

lemma length_set_unused:
  "allocr_wf a \<Longrightarrow> length (set_unused a S) = length (ba_seq_set_map a S) - skip_used (ba_used a) (ba_seq_set_map a S)"
  using drop_skip_used [of a S] by (metis length_drop)

lemma n_remaining_mk:
  "allocr_wf a \<Longrightarrow> s < length sets \<Longrightarrow> n_remaining sets (eq_mk a sets rs) s = length (set_unused a (sets ! s)) - rs ! s"
  by (simp add: n_remaining_def length_set_unused)

lemma can_expand_mk:
  assumes "allocr_wf a" "\<And>s. s < length sets \<Longrightarrow> set_unused a (sets ! s) \<noteq> []"
  shows "can_expand sets (eq_mk a sets rs) \<longleftrightarrow> (\<forall>s < length sets. rs ! s < length (set_unused a (sets ! s)))"
proof -
  have "skip_used (ba_used a) (ba_seq_set_map a (sets ! s)) < length (ba_seq_set_map a (sets ! s))"
    if "s < length sets" for s
    using assms(2) [OF that] drop_skip_used [OF assms(1), of "sets ! s"] by (metis drop_all leI)
  then show ?thesis by (auto simp: can_expand_def length_set_unused [OF assms(1)] less_diff_conv add.commute)
qed

lemma eq_take_mk:
  assumes wf: "allocr_wf a" and s: "s < length sets" "length rs = length sets"
    and r: "rs ! s < length (set_unused a (sets ! s))"
  shows "eq_take sets s (eq_mk a sets rs) = eq_mk a sets (rs[s := rs ! s + 1])"
proof -
  let ?U = "\<lambda>s. set_unused a (sets ! s)" and ?f = "\<lambda>s. skip_used (ba_used a) (ba_seq_set_map a (sets ! s))"
  let ?xss = "\<lambda>rs. map (\<lambda>s. take (rs ! s) (?U s)) [0..<length sets]"
  have idx: "ba_seq_set_map a (sets ! s) ! (?f s + rs ! s) = ?U s ! (rs ! s)"
    using drop_skip_used [OF wf, of "sets ! s"] r
    by (metis length_drop less_imp_le nat_le_linear diff_is_0_eq' less_nat_zero_code nth_drop)
  have upd: "(?xss rs)[s := take (rs ! s) (?U s) @ [?U s ! (rs ! s)]] = ?xss (rs[s := rs ! s + 1])"
    using s r by (intro nth_equalityI) (auto simp: nth_list_update take_Suc_conv_app_nth)
  have cur: "(map (\<lambda>s. ?f s + rs ! s) [0..<length sets])[s := ?f s + rs ! s + 1]
      = map (\<lambda>t. ?f t + rs[s := rs ! s + 1] ! t) [0..<length sets]"
    using s by (intro nth_equalityI) (auto simp: nth_list_update)
  have "mset (concat ((?xss rs)[s := take (rs ! s) (?U s) @ [?U s ! (rs ! s)]]))
      = mset (concat (?xss rs)) + {# ?U s ! (rs ! s) #}"
    by (rule mset_concat_update) (use s in simp_all)
  then have con: "consume (concat (?xss rs) @ [?U s ! (rs ! s)]) a = consume (concat (?xss (rs[s := rs ! s + 1]))) a"
    by (intro consume_mset) (simp add: upd)
  have "eq_take sets s (eq_mk a sets rs)
      = \<lparr>eq_cur = (map (\<lambda>s. ?f s + rs ! s) [0..<length sets])[s := ?f s + rs ! s + 1],
         eq_idxs = (?xss rs)[s := take (rs ! s) (?U s) @ [?U s ! (rs ! s)]],
         eq_a = consume (concat (?xss rs) @ [?U s ! (rs ! s)]) a\<rparr>"
    using s idx by (simp add: eq_take_def Let_def eq_mk_def)
  then show ?thesis unfolding con upd cur by (simp add: eq_mk_def Let_def)
qed


lemma eq_round_mk:
  assumes wf: "allocr_wf a" and r: "\<And>s. s < length sets \<Longrightarrow> r < length (set_unused a (sets ! s))"
  shows "eq_round sets (eq_mk a sets (replicate (length sets) r)) = eq_mk a sets (replicate (length sets) (r + 1))"
proof -
  let ?k = "length sets"
  have "fold (eq_take sets) [0..<m] (eq_mk a sets (replicate ?k r))
      = eq_mk a sets (replicate m (r + 1) @ replicate (?k - m) r)" if "m \<le> ?k" for m
    using that
  proof (induction m)
    case (Suc m)
    let ?rs = "replicate m (r + 1) @ replicate (?k - m) r"
    have m: "?rs ! m = r" using Suc.prems by (simp add: nth_append)
    have "fold (eq_take sets) [0..<Suc m] (eq_mk a sets (replicate ?k r)) = eq_take sets m (eq_mk a sets ?rs)"
      using Suc by (simp only: fold_upt_Suc Suc_leD)
    also have "\<dots> = eq_mk a sets (?rs[m := ?rs ! m + 1])"
    proof (rule eq_take_mk [OF wf])
      show "?rs ! m < length (set_unused a (sets ! m))" unfolding m using r Suc.prems by simp
    qed (use Suc.prems in simp_all)
    also have "?rs[m := ?rs ! m + 1] = replicate (Suc m) (r + 1) @ replicate (?k - Suc m) r"
      unfolding m using Suc.prems by (intro nth_equalityI) (auto simp: nth_list_update nth_append simp del: replicate_Suc)
    finally show ?case .
  qed simp
  from this [of ?k] show ?thesis by (simp add: eq_round_def)
qed

lemma expand_loop_mk:
  assumes wf: "allocr_wf a" and ne: "sets \<noteq> []"
    and un: "\<And>s. s < length sets \<Longrightarrow> set_unused a (sets ! s) \<noteq> []"
    and r: "\<And>s. s < length sets \<Longrightarrow> r \<le> length (set_unused a (sets ! s))"
    and b: "r = 0 \<or> (r + 1) * length sets \<le> n_ubatch"
  shows "\<exists>r'. expand_loop n_ubatch sets (eq_mk a sets (replicate (length sets) r)) = eq_mk a sets (replicate (length sets) r')
       \<and> 0 < r' \<and> (\<forall>s < length sets. r' \<le> length (set_unused a (sets ! s)))
       \<and> (r' = 1 \<or> r' * length sets \<le> n_ubatch)"
  using r b
proof (induction "length (set_unused a (sets ! 0)) - r" arbitrary: r rule: less_induct)
  case less
  let ?k = "length sets" and ?st = "\<lambda>r. eq_mk a sets (replicate (length sets) r)"
  have ce: "can_expand sets (?st r) \<longleftrightarrow> (\<forall>s < ?k. r < length (set_unused a (sets ! s)))"
    by (simp add: can_expand_mk [OF wf un])
  have unf: "expand_loop n_ubatch sets (?st r) = (if \<not> can_expand sets (?st r) then ?st r
      else if (length (eq_idxs (eq_round sets (?st r)) ! 0) + 1) * ?k > n_ubatch then eq_round sets (?st r)
      else expand_loop n_ubatch sets (eq_round sets (?st r)))"
    using ne by (subst expand_loop.simps) (simp add: Let_def)
  show ?case
  proof (cases "can_expand sets (?st r)")
    case False
    then have "r \<noteq> 0" using un ce by force
    then show ?thesis using False less.prems unf
      by (intro exI [of _ r]) (auto simp: add_mult_distrib)
  next
    case True
    then have lt: "\<And>s. s < ?k \<Longrightarrow> r < length (set_unused a (sets ! s))" using ce by simp
    have rd: "eq_round sets (?st r) = ?st (r + 1)" by (rule eq_round_mk [OF wf lt])
    have k0: "0 < ?k" using ne by simp
    have l0: "length (eq_idxs (?st (r + 1)) ! 0) = r + 1" using lt [OF k0] k0 by simp
    have pos: "r + 1 = 1 \<or> (r + 1) * ?k \<le> n_ubatch" using less.prems(2) by auto
    show ?thesis
    proof (cases "(r + 1 + 1) * ?k > n_ubatch")
      case big: True
      have "expand_loop n_ubatch sets (?st r) = ?st (r + 1)" unfolding unf rd l0 using True big by simp
      then show ?thesis using lt pos by (intro exI [of _ "r + 1"]) (auto intro: Suc_leI)
    next
      case small: False
      have eq: "expand_loop n_ubatch sets (?st r) = expand_loop n_ubatch sets (?st (r + 1))"
        unfolding unf rd l0 using True small by simp
      have "length (set_unused a (sets ! 0)) - (r + 1) < length (set_unused a (sets ! 0)) - r"
        using lt [OF k0] by simp
      from less.hyps [OF this] show ?thesis unfolding eq using lt small by (auto intro: Suc_leI)
    qed
  qed
qed

subsection \<open>\<open>n_keep_tail\<close>\<close>

lemma give_back_mk:
  assumes wf: "allocr_wf a" and ne: "sets \<noteq> []" "length rs = length sets" and r: "0 < rs ! 0" "rs ! 0 \<le> length (set_unused a (sets ! 0))"
    and d: "distinct (concat (eq_idxs (eq_mk a sets rs)))"
  shows "give_back (eq_mk a sets rs) = eq_mk a sets (rs[0 := rs ! 0 - 1])"
proof -
  let ?U = "\<lambda>s. set_unused a (sets ! s)" and ?f = "\<lambda>s. skip_used (ba_used a) (ba_seq_set_map a (sets ! s))"
  let ?xss = "\<lambda>rs. map (\<lambda>s. take (rs ! s) (?U s)) [0..<length sets]"
  let ?x = "?U 0 ! (rs ! 0 - 1)"
  have k0: "0 < length sets" using ne by simp
  have tk: "take (rs ! 0) (?U 0) = take (rs ! 0 - 1) (?U 0) @ [?x]"
    using r take_Suc_conv_app_nth [of "rs ! 0 - 1" "?U 0"] by simp
  have upd: "(?xss rs)[0 := take (rs ! 0 - 1) (?U 0)] = ?xss (rs[0 := rs ! 0 - 1])"
    using ne k0 by (intro nth_equalityI) (auto simp: nth_list_update)
  have cur: "(map (\<lambda>s. ?f s + rs ! s) [0..<length sets])[0 := ?f 0 + rs ! 0 - 1]
      = map (\<lambda>t. ?f t + rs[0 := rs ! 0 - 1] ! t) [0..<length sets]"
    using ne r k0 by (intro nth_equalityI) (auto simp: nth_list_update)
  have x: "?x \<in> set (?U 0)" using r by (intro nth_mem) simp
  have xin: "?x \<in> set (concat (?xss rs))"
    using tk k0 by (auto simp: set_conv_nth [of "[0..<length sets]"] intro!: bexI [of _ 0])
  have len: "length (ba_used a) = get_n_tokens a" using wf by (simp add: allocr_wf_def)
  have "mset (concat (?xss rs)) = mset (concat (?xss (rs[0 := rs ! 0 - 1]))) + {# ?x #}"
  proof -
    let ?A = "(?xss rs)[0 := take (rs ! 0 - 1) (?U 0)]"
    have "?A[0 := take (rs ! 0) (?U 0)] = ?xss rs" using k0 by simp
    moreover have "mset (take (rs ! 0) (?U 0)) = mset (?A ! 0) + {# ?x #}" using tk k0 by simp
    ultimately show ?thesis using mset_concat_update [of 0 ?A "take (rs ! 0) (?U 0)" "{# ?x #}"] k0
      unfolding upd by simp
  qed
  then have "consume (remove1 ?x (concat (?xss rs))) a = consume (concat (?xss (rs[0 := rs ! 0 - 1]))) a"
    by (intro consume_mset) simp
  then have con: "unmark_used ?x (consume (concat (?xss rs)) a) = consume (concat (?xss (rs[0 := rs ! 0 - 1]))) a"
    using unmark_used_consume [OF xin, of a] d x len by simp
  have "give_back (eq_mk a sets rs) = \<lparr>eq_cur = (map (\<lambda>s. ?f s + rs ! s) [0..<length sets])[0 := ?f 0 + rs ! 0 - 1],
      eq_idxs = (?xss rs)[0 := take (rs ! 0 - 1) (?U 0)], eq_a = unmark_used ?x (consume (concat (?xss rs)) a)\<rparr>"
    using k0 tk by (simp add: give_back_def eq_mk_def Let_def)
  then show ?thesis unfolding con upd cur by (simp add: eq_mk_def Let_def)
qed


definition sets_ok :: "batch_allocr \<Rightarrow> seq_set_t list \<Rightarrow> bool" where
  "sets_ok a sets \<longleftrightarrow> sorted_wrt (\<lambda>A B. A \<inter> B = {}) sets \<and> (\<forall>S \<in> set sets. S \<noteq> {} \<and> set_unused a S \<noteq> [])"

lemma sets_ok_neq:
  assumes "sets_ok a sets" "s < length sets" "t < length sets" "s \<noteq> t"
  shows "sets ! s \<noteq> sets ! t"
proof -
  have "sets ! s \<inter> sets ! t = {}"
  proof (cases "s < t")
    case True
    then show ?thesis using assms sorted_wrt_nth_less [of "\<lambda>A B. A \<inter> B = {}" sets s t] by (simp add: sets_ok_def)
  next
    case False
    then show ?thesis using assms sorted_wrt_nth_less [of "\<lambda>A B. A \<inter> B = {}" sets t s] by (simp add: sets_ok_def Int_commute)
  qed
  moreover have "sets ! s \<noteq> {}" using assms by (simp add: sets_ok_def)
  ultimately show ?thesis by auto
qed

lemma distinct_taken:
  assumes ok: "sets_ok a sets" and ss: "distinct ss" "set ss \<subseteq> {..<length sets}"
  shows "distinct (concat (map (\<lambda>s. take (rs ! s) (set_unused a (sets ! s))) ss))"
proof (rule distinct_concat_map [OF ss(1)])
  fix s t assume "s \<in> set ss" "t \<in> set ss" "s \<noteq> t"
  then have "sets ! s \<noteq> sets ! t" using sets_ok_neq [OF ok] ss by auto
  then have "set (set_unused a (sets ! s)) \<inter> set (set_unused a (sets ! t)) = {}" by auto
  then show "set (take (rs ! s) (set_unused a (sets ! s))) \<inter> set (take (rs ! t) (set_unused a (sets ! t))) = {}"
    by (meson disjoint_iff in_set_takeD)
qed simp

lemma extend_first_mk:
  assumes wf: "allocr_wf a" and ne: "sets \<noteq> []" "length rs = length sets"
  shows "rs ! 0 + j \<le> length (set_unused a (sets ! 0))
    \<Longrightarrow> (eq_take sets 0 ^^ j) (eq_mk a sets rs) = eq_mk a sets (rs[0 := rs ! 0 + j])"
proof (induction j)
  case (Suc j)
  have k: "0 < length rs" using ne by simp
  have "(eq_take sets 0 ^^ Suc j) (eq_mk a sets rs) = eq_take sets 0 (eq_mk a sets (rs[0 := rs ! 0 + j]))"
    using Suc by simp
  also have "\<dots> = eq_mk a sets ((rs[0 := rs ! 0 + j])[0 := (rs[0 := rs ! 0 + j]) ! 0 + 1])"
    by (rule eq_take_mk [OF wf]) (use Suc.prems ne k in simp_all)
  finally show ?case using k by simp
qed simp

lemma truncate_first_mk:
  assumes wf: "allocr_wf a" and ne: "sets \<noteq> []" "length rs = length sets" and ok: "sets_ok a sets"
    and r: "rs ! 0 \<le> length (set_unused a (sets ! 0))"
  shows "j \<le> rs ! 0 \<Longrightarrow> (give_back ^^ j) (eq_mk a sets rs) = eq_mk a sets (rs[0 := rs ! 0 - j])"
proof (induction j)
  case (Suc j)
  have k: "0 < length rs" using ne by simp
  have "(give_back ^^ Suc j) (eq_mk a sets rs) = give_back (eq_mk a sets (rs[0 := rs ! 0 - j]))"
    using Suc by simp
  also have "\<dots> = eq_mk a sets ((rs[0 := rs ! 0 - j])[0 := (rs[0 := rs ! 0 - j]) ! 0 - 1])"
  proof (rule give_back_mk [OF wf])
    show "distinct (concat (eq_idxs (eq_mk a sets (rs[0 := rs ! 0 - j]))))"
      unfolding eq_mk_fields by (rule distinct_taken [OF ok]) auto
  qed (use Suc.prems ne k r in simp_all)
  finally show ?case using k by simp
qed simp

lemma keep_prefix_takeWhile:
  "keep_prefix sets kt st ss = length (takeWhile (\<lambda>s. \<not> (n_remaining sets st s \<noteq> 0 \<and> n_remaining sets st s < kt)) ss)"
  by (induction ss) (simp_all add: Let_def)

lemma fold_nested_concat: "fold (\<lambda>s. fold f (g s)) ss x = fold f (concat (map g ss)) x"
  by (induction ss arbitrary: x) simp_all

lemma defer_mk:
  assumes wf: "allocr_wf a" and ok: "sets_ok a sets" and m: "m \<le> length sets"
  shows "fold (\<lambda>s. fold unmark_used (eq_idxs (eq_mk a sets rs) ! s)) [m..<length sets] (eq_a (eq_mk a sets rs))
    = consume (concat (map (\<lambda>s. take (rs ! s) (set_unused a (sets ! s))) [0..<m])) a"
proof -
  let ?f = "\<lambda>s. take (rs ! s) (set_unused a (sets ! s))"
  let ?xs = "concat (map ?f [0..<length sets])" and ?ys = "concat (map ?f [m..<length sets])"
  let ?zs = "concat (map ?f [0..<m])"
  have eq: "map (\<lambda>s. eq_idxs (eq_mk a sets rs) ! s) [m..<length sets] = map ?f [m..<length sets]" by simp
  have sp: "?xs = ?zs @ ?ys" 
    using m upt_add_eq_append [of 0 m "length sets - m"] by simp
  have d: "distinct ?xs" by (rule distinct_taken [OF ok]) auto
  have un: "\<forall>i \<in> set ?xs. i < length (ba_used a) \<and> \<not> ba_used a ! i"
    using wf by (auto simp: allocr_wf_def dest!: in_set_takeD)
  have flt: "filter (\<lambda>i. i \<notin> set ?ys) ?xs = ?zs"
  proof -
    have "set ?zs \<inter> set ?ys = {}" using d sp by (metis distinct_append)
    then have "filter (\<lambda>i. i \<notin> set ?ys) ?zs = ?zs" "filter (\<lambda>i. i \<notin> set ?ys) ?ys = []"
      by (auto simp: filter_id_conv filter_empty_conv simp del: set_concat)
    then show ?thesis unfolding sp by simp
  qed
  have "fold unmark_used ?ys (consume ?xs a) = consume (filter (\<lambda>i. i \<notin> set ?ys) ?xs) a"
    by (rule fold_unmark_used_consume) (use d sp un in auto)
  then show ?thesis unfolding fold_nested_concat eq flt by simp
qed


text \<open>What a call of \<open>split_equal\<close> selects: the next \<open>r\<close> unused tokens of each of the sets \<open>ss\<close>.\<close>

definition equal_sel :: "batch_allocr \<Rightarrow> seq_set_t list \<Rightarrow> nat \<Rightarrow> nat list" where
  "equal_sel a ss r = concat (map (\<lambda>S. take r (set_unused a S)) ss)"

definition equal_ok :: "nat \<Rightarrow> nat \<Rightarrow> batch_allocr \<Rightarrow> seq_set_t list \<Rightarrow> nat \<Rightarrow> bool" where
  "equal_ok n_ubatch kt a ss r \<longleftrightarrow> sets_ok a ss \<and> ss \<noteq> [] \<and> 0 < r
     \<and> (\<forall>S \<in> set ss. r \<le> length (set_unused a S))
     \<and> (r * length ss \<le> n_ubatch \<or> r = 1 \<and> length ss \<le> n_ubatch + 1)
     \<and> (0 < kt \<longrightarrow> (\<forall>S \<in> set ss. length (set_unused a S) - r = 0 \<or> kt \<le> length (set_unused a S) - r))"

lemma concat_take_sets:
  "m \<le> length sets \<Longrightarrow> (\<And>s. s < m \<Longrightarrow> rs ! s = r)
   \<Longrightarrow> concat (map (\<lambda>s. take (rs ! s) (set_unused a (sets ! s))) [0..<m]) = equal_sel a (take m sets) r"
proof -
  assume *: "m \<le> length sets" "\<And>s. s < m \<Longrightarrow> rs ! s = r"
  have "map (\<lambda>s. take (rs ! s) (set_unused a (sets ! s))) [0..<m] = map (\<lambda>S. take r (set_unused a S)) (take m sets)"
    using * by (intro nth_equalityI) simp_all
  then show ?thesis by (simp only: equal_sel_def)
qed

lemma sets_ok_take: "sets_ok a sets \<Longrightarrow> sets_ok a (take m sets)"
  by (auto simp: sets_ok_def sorted_wrt_take dest: in_set_takeD)

lemma keep_tail_mk:
  assumes wf: "allocr_wf a" and ok: "sets_ok a sets" and ne: "sets \<noteq> []"
    and r: "0 < r" "\<And>s. s < length sets \<Longrightarrow> r \<le> length (set_unused a (sets ! s))"
    and b: "r * length sets \<le> n_ubatch \<or> r = 1 \<and> length sets \<le> n_ubatch + 1"
    and kt: "0 < kt" "kt < n_ubatch"
  shows "\<exists>m st' r'. keep_tail n_ubatch sets kt (eq_mk a sets (replicate (length sets) r)) = (m, st')
    \<and> m \<le> length sets \<and> equal_ok n_ubatch kt a (take m sets) r'
    \<and> concat (take m (eq_idxs st')) = equal_sel a (take m sets) r'
    \<and> eq_a st' = consume (equal_sel a (take m sets) r') a"
proof -
  let ?k = "length sets" and ?rs = "replicate (length sets) r" and ?U = "\<lambda>s. set_unused a (sets ! s)"
  let ?st = "eq_mk a sets ?rs"
  let ?P = "\<lambda>s. \<not> (n_remaining sets ?st s \<noteq> 0 \<and> n_remaining sets ?st s < kt)"
  define nk where "nk = keep_prefix sets kt ?st [0..<?k]"
  have k0: "0 < ?k" using ne by simp
  have rem: "s < ?k \<Longrightarrow> n_remaining sets ?st s = length (?U s) - r" for s
    by (simp add: n_remaining_mk [OF wf])
  have nk: "nk = length (takeWhile ?P [0..<?k])" unfolding nk_def by (rule keep_prefix_takeWhile)
  have nk_le: "nk \<le> ?k" using length_takeWhile_le [of ?P "[0..<?k]"] by (simp add: nk)
  have idxs_take: "m \<le> ?k \<Longrightarrow> take m (eq_idxs (eq_mk a sets rs))
      = map (\<lambda>s. take (rs ! s) (?U s)) [0..<m]" for m rs
    by (simp add: take_map)
  show ?thesis
  proof (cases "nk = 0")
    case False
    have P: "?P s" if "s < nk" for s
    proof -
      have l: "s < length (takeWhile ?P [0..<?k])" using that by (simp only: nk)
      have "takeWhile ?P [0..<?k] ! s = [0..<?k] ! s" by (rule takeWhile_nth [OF l])
      then have "takeWhile ?P [0..<?k] ! s = s" using that nk_le by simp
      then have "s \<in> set (takeWhile ?P [0..<?k])" using nth_mem [OF l] by simp
      then show ?thesis by (rule set_takeWhileD [THEN conjunct2])
    qed
    have eqk: "equal_ok n_ubatch kt a (take nk sets) r"
    proof -
      have "r * nk \<le> r * ?k" using nk_le by simp
      then have "r * nk \<le> n_ubatch \<or> r = 1 \<and> nk \<le> n_ubatch + 1" using b nk_le by linarith
      moreover have "length (set_unused a S) - r = 0 \<or> kt \<le> length (set_unused a S) - r" "r \<le> length (set_unused a S)"
        if S: "S \<in> set (take nk sets)" for S
      proof -
        obtain s where "s < nk" "S = sets ! s" using S nk_le by (auto simp: in_set_conv_nth)
        then show "length (set_unused a S) - r = 0 \<or> kt \<le> length (set_unused a S) - r" "r \<le> length (set_unused a S)"
          using P [of s] rem [of s] r(2) [of s] nk_le by auto
      qed
      ultimately show ?thesis using sets_ok_take [OF ok] False ne r(1) nk_le by (simp add: equal_ok_def)
    qed
    have sel: "concat (map (\<lambda>s. take (?rs ! s) (?U s)) [0..<nk]) = equal_sel a (take nk sets) r"
      by (rule concat_take_sets) (use nk_le in simp_all)
    have "keep_tail n_ubatch sets kt ?st = (nk, ?st\<lparr>eq_a := consume (equal_sel a (take nk sets) r) a\<rparr>)"
      using False defer_mk [OF wf ok nk_le, of ?rs] sel
      by (simp add: keep_tail_def Let_def nk_def [symmetric] del: eq_mk_fields)
    then show ?thesis using eqk sel nk_le idxs_take [OF nk_le, of ?rs]
      by (intro exI [of _ nk] exI [of _ "?st\<lparr>eq_a := consume (equal_sel a (take nk sets) r) a\<rparr>"] exI [of _ r])
        (simp del: eq_mk_fields)
  next
    case True
    have "\<not> ?P 0" using True k0 by (auto simp: nk upt_conv_Cons split: if_splits)
    then have r0: "length (?U 0) - r \<noteq> 0" "length (?U 0) - r < kt" using rem [OF k0] by simp_all
    define r' where "r' = (if length (?U 0) \<le> n_ubatch then length (?U 0) else length (?U 0) - kt)"
    have r'b: "0 < r'" "r' \<le> length (?U 0)" "r' \<le> n_ubatch" "length (?U 0) - r' = 0 \<or> kt \<le> length (?U 0) - r'"
    proof -
      have "r \<le> r * ?k" using mult_le_mono2 [OF Suc_leI [OF k0], of r] by simp
      then have "r \<le> n_ubatch" using b kt by linarith
      then show "0 < r'" "r' \<le> length (?U 0)" "r' \<le> n_ubatch" "length (?U 0) - r' = 0 \<or> kt \<le> length (?U 0) - r'"
        using r0 r(1) kt by (auto simp: r'_def)
    qed
    let ?rs' = "?rs[0 := r']"
    have st1: "(if length (eq_idxs ?st ! 0) + n_remaining sets ?st 0 \<le> n_ubatch
               then extend_first sets ?st else truncate_first sets kt ?st) = eq_mk a sets ?rs'"
    proof -
      have "length (eq_idxs ?st ! 0) + n_remaining sets ?st 0 = length (?U 0)"
        using rem [OF k0] r(2) [OF k0] k0 by simp
      moreover have "extend_first sets ?st = eq_mk a sets (?rs[0 := length (?U 0)])"
        using extend_first_mk [OF wf ne, of ?rs "length (?U 0) - r"] rem [OF k0] r(2) [OF k0] k0
        by (simp add: extend_first_def)
      moreover have "truncate_first sets kt ?st = eq_mk a sets (?rs[0 := length (?U 0) - kt])" if "length (?U 0) > n_ubatch"
        using truncate_first_mk [OF wf ne _ ok, of ?rs "kt - (length (?U 0) - r)"] rem [OF k0] r(2) [OF k0] k0 r0 that kt
        by (simp add: truncate_first_def)
      ultimately show ?thesis by (auto simp: r'_def)
    qed
    have sel: "concat (map (\<lambda>s. take (?rs' ! s) (?U s)) [0..<1]) = equal_sel a (take 1 sets) r'"
      by (rule concat_take_sets) (use k0 Suc_leI [OF k0] in simp_all)
    have "keep_tail n_ubatch sets kt ?st = (1, (eq_mk a sets ?rs')\<lparr>eq_a := consume (equal_sel a (take 1 sets) r') a\<rparr>)"
      using True st1 sel defer_mk [OF wf ok, of 1 ?rs'] k0 Suc_leI [OF k0]
      by (simp add: keep_tail_def Let_def nk_def [symmetric] del: eq_mk_fields)
    moreover have "equal_ok n_ubatch kt a (take 1 sets) r'"
      using sets_ok_take [OF ok, of 1] ne r'b k0 by (auto simp: equal_ok_def take_Suc_conv_app_nth)
    ultimately show ?thesis using sel idxs_take [of 1 ?rs'] k0 Suc_leI [OF k0]
      by (intro exI [of _ 1] exI [of _ "(eq_mk a sets ?rs')\<lparr>eq_a := consume (equal_sel a (take 1 sets) r') a\<rparr>"] exI [of _ r'])
        (simp del: eq_mk_fields)
  qed
qed


subsection \<open>The selected sequence sets\<close>

lemma select_sets_spec:
  assumes "\<forall>i \<in> set is. i < get_n_tokens a \<and> ba_seq_set a ! i \<noteq> {}" "sets_ok a cur" "length cur \<le> n_ubatch"
  shows "\<exists>new. select_sets a sequential n_ubatch is cur l = cur @ new \<and> sets_ok a (cur @ new)
      \<and> length (cur @ new) \<le> n_ubatch + 1
      \<and> (cur = [] \<longrightarrow> new = [] \<longrightarrow> (\<forall>i \<in> set is. ba_used a ! i))"
  using assms
proof (induction "is" arbitrary: cur l)
  case (Cons i "is")
  let ?S = "ba_seq_set a ! i" and ?s0 = "arr (b_seq_id (ba_batch a)) ! i ! 0"
  let ?add = "if sequential then (\<forall>c \<in> set cur. c \<inter> ?S = {}) \<and> (cur = [] \<or> ?s0 = l + 1) else (\<forall>c \<in> set cur. c \<inter> ?S = {})"
  show ?case
  proof (cases "ba_used a ! i \<or> \<not> ?add")
    case True
    then have "select_sets a sequential n_ubatch (i # is) cur l = select_sets a sequential n_ubatch is cur l"
      by (auto simp: Let_def)
    then show ?thesis using Cons.IH [of cur l] Cons.prems True by (auto split: if_splits)
  next
    case False
    have "i \<in> set (set_unused a ?S)" using False Cons.prems by simp
    then have "set_unused a ?S \<noteq> []" by (metis empty_iff empty_set)
    moreover have "\<forall>c \<in> set cur. c \<inter> ?S = {}" using False by (simp split: if_splits)
    ultimately have ok: "sets_ok a (cur @ [?S])" using Cons.prems by (simp add: sets_ok_def sorted_wrt_append)
    have eq: "select_sets a sequential n_ubatch (i # is) cur l = (if length (cur @ [?S]) > n_ubatch then cur @ [?S]
        else select_sets a sequential n_ubatch is (cur @ [?S]) ?s0)"
      using False by (auto simp: Let_def)
    show ?thesis
    proof (cases "length (cur @ [?S]) > n_ubatch")
      case True
      then show ?thesis using eq ok Cons.prems by (intro exI [of _ "[?S]"]) simp
    next
      case small: False
      then obtain new where "select_sets a sequential n_ubatch is (cur @ [?S]) ?s0 = (cur @ [?S]) @ new"
        "sets_ok a ((cur @ [?S]) @ new)" "length ((cur @ [?S]) @ new) \<le> n_ubatch + 1"
        using Cons.IH [of "cur @ [?S]" ?s0] Cons.prems ok by auto
      then show ?thesis using eq small by (intro exI [of _ "?S # new"]) simp
    qed
  qed
qed simp

lemma equal_sel_ok:
  assumes wf: "allocr_wf a" and ok: "equal_ok n_ubatch kt a ss r"
  shows "selection_ok a (equal_sel a ss r)" "equal_sel a ss r \<noteq> []" "length (equal_sel a ss r) = r * length ss"
proof -
  have so: "sets_ok a ss" and r: "0 < r" "\<And>S. S \<in> set ss \<Longrightarrow> r \<le> length (set_unused a S)" and ne: "ss \<noteq> []"
    using ok by (auto simp: equal_ok_def)
  have eq: "equal_sel a ss r = concat (map (\<lambda>s. take (replicate (length ss) r ! s) (set_unused a (ss ! s))) [0..<length ss])"
    using concat_take_sets [of "length ss" ss "replicate (length ss) r" r a] by simp
  have "distinct (equal_sel a ss r)" unfolding eq by (rule distinct_taken [OF so]) auto
  moreover have "set (equal_sel a ss r) \<subseteq> set (unused a)"
    by (auto simp: equal_sel_def unused_def dest!: in_set_takeD)
  moreover have "ba_used a ! i \<or> i \<in> set (equal_sel a ss r)"
    if j: "j \<in> set (equal_sel a ss r)" and i: "i < j" "ba_seq_set a ! i = ba_seq_set a ! j" for i j
  proof -
    obtain S where S: "S \<in> set ss" "j \<in> set (take r (set_unused a S))" using j by (auto simp: equal_sel_def)
    then have js: "j < get_n_tokens a" "ba_seq_set a ! j = S" by (auto dest!: in_set_takeD)
    show ?thesis
    proof (cases "ba_used a ! i")
      case False
      then have "i \<in> set (set_unused a S)" using i js by simp
      then have "i \<in> set (take r (set_unused a S))" by (rule take_sorted_closed [OF sorted_set_unused S(2) _ i(1)])
      then show ?thesis using S(1) by (auto simp: equal_sel_def)
    qed simp
  qed
  ultimately show "selection_ok a (equal_sel a ss r)" by (simp add: selection_ok_def)
  have "length (equal_sel a ss r) = sum_list (map (\<lambda>S. length (take r (set_unused a S))) ss)"
    by (simp only: equal_sel_def length_concat map_map comp_def)
  also have "map (\<lambda>S. length (take r (set_unused a S))) ss = map (\<lambda>_. r) ss" using r(2) by simp
  finally show len: "length (equal_sel a ss r) = r * length ss" by (simp add: sum_list_triv)
  show "equal_sel a ss r \<noteq> []" using len r(1) ne by auto
qed

definition equal_good :: "nat \<Rightarrow> nat \<Rightarrow> batch_allocr \<Rightarrow> nat list \<Rightarrow> nat \<Rightarrow> bool" where
  "equal_good n_ubatch kt a idxs k \<longleftrightarrow>
     (\<exists>ss r. equal_ok n_ubatch kt a ss r \<and> idxs = equal_sel a ss r \<and> k = length ss)"

definition equal_inv :: "bool \<Rightarrow> batch_allocr \<Rightarrow> bool" where
  "equal_inv sequential a \<longleftrightarrow> allocr_wf a \<and> \<not> (sequential \<and> ba_has_cpl a)"

lemma split_equal_idxs_spec:
  assumes wf: "allocr_wf a" and cpl: "\<not> (sequential \<and> ba_has_cpl a)" and kt: "0 < kt \<longrightarrow> kt < n_ubatch"
  shows "unused a = [] \<and> split_equal_idxs n_ubatch sequential kt a = Inr ([], 0, a)
    \<or> (\<exists>ss r. split_equal_idxs n_ubatch sequential kt a = Inr (equal_sel a ss r, length ss, consume (equal_sel a ss r) a)
          \<and> equal_ok n_ubatch kt a ss r)"
proof -
  define sets where "sets = select_sets a sequential n_ubatch [0..<get_n_tokens a] [] (-1)"
  have "\<forall>i \<in> set [0..<get_n_tokens a]. i < get_n_tokens a \<and> ba_seq_set a ! i \<noteq> {}"
    using wf by (simp add: allocr_wf_def)
  then have ok: "sets_ok a sets" and len: "length sets \<le> n_ubatch + 1"
    and emp: "sets = [] \<longrightarrow> (\<forall>i \<in> set [0..<get_n_tokens a]. ba_used a ! i)"
    using select_sets_spec [of "[0..<get_n_tokens a]" a "[]" n_ubatch sequential "-1"]
    by (auto simp: sets_def sets_ok_def)
  show ?thesis
  proof (cases "sets = []")
    case True
    then have "unused a = []" using emp by (simp add: unused_def)
    moreover have "split_equal_idxs n_ubatch sequential kt a = Inr ([], 0, a)"
      using True cpl by (simp add: split_equal_idxs_def sets_def Let_def)
    ultimately show ?thesis by simp
  next
    case False
    let ?st0 = "\<lparr>eq_cur = map (\<lambda>S. skip_used (ba_used a) (ba_seq_set_map a S)) sets, eq_idxs = replicate (length sets) [], eq_a = a\<rparr>"
    have st0: "?st0 = eq_mk a sets (replicate (length sets) 0)"
    proof -
      have z: "map (\<lambda>s. take (replicate (length sets) 0 ! s) (set_unused a (sets ! s))) [0..<length sets] = replicate (length sets) []"
        by (intro nth_equalityI) simp_all
      have f: "map (\<lambda>s. skip_used (ba_used a) (ba_seq_set_map a (sets ! s)) + replicate (length sets) 0 ! s) [0..<length sets]
          = map (\<lambda>S. skip_used (ba_used a) (ba_seq_set_map a S)) sets"
        by (intro nth_equalityI) simp_all
      show ?thesis unfolding eq_mk_def z f Let_def by simp
    qed
    have un: "\<And>s. s < length sets \<Longrightarrow> set_unused a (sets ! s) \<noteq> []" using ok by (simp add: sets_ok_def)
    obtain r where ex: "expand_loop n_ubatch sets ?st0 = eq_mk a sets (replicate (length sets) r)"
      and r: "0 < r" "\<forall>s < length sets. r \<le> length (set_unused a (sets ! s))" "r = 1 \<or> r * length sets \<le> n_ubatch"
      using expand_loop_mk [OF wf False un, of 0 n_ubatch] unfolding st0 by auto
    have b: "r * length sets \<le> n_ubatch \<or> r = 1 \<and> length sets \<le> n_ubatch + 1" using r(3) len by auto
    have run: "split_equal_idxs n_ubatch sequential kt a = (if kt > 0
        then case keep_tail n_ubatch sets kt (eq_mk a sets (replicate (length sets) r)) of (n_seqs, st) \<Rightarrow>
               Inr (concat (take n_seqs (eq_idxs st)), n_seqs, eq_a st)
        else Inr (concat (eq_idxs (eq_mk a sets (replicate (length sets) r))), length sets, eq_a (eq_mk a sets (replicate (length sets) r))))"
      unfolding split_equal_idxs_def if_not_P [OF cpl] sets_def [symmetric] Let_def ex
      using False kt by (simp del: eq_mk_fields) simp
    show ?thesis
    proof (cases "kt > 0")
      case True
      then obtain m st' r' where "keep_tail n_ubatch sets kt (eq_mk a sets (replicate (length sets) r)) = (m, st')"
        "m \<le> length sets" "equal_ok n_ubatch kt a (take m sets) r'"
        "concat (take m (eq_idxs st')) = equal_sel a (take m sets) r'" "eq_a st' = consume (equal_sel a (take m sets) r') a"
        using keep_tail_mk [OF wf ok False r(1) _ b] r(2) kt by blast
      then show ?thesis using True run by (intro disjI2 exI [of _ "take m sets"] exI [of _ r']) simp
    next
      case False
      have sel: "concat (eq_idxs (eq_mk a sets (replicate (length sets) r))) = equal_sel a sets r"
        using concat_take_sets [of "length sets" sets "replicate (length sets) r" r a] by simp
      have "equal_ok n_ubatch kt a sets r"
        using ok \<open>sets \<noteq> []\<close> r b False by (auto simp: equal_ok_def in_set_conv_nth)
      then show ?thesis using False run sel by (intro disjI2 exI [of _ sets] exI [of _ r]) simp
    qed
  qed
qed


lemma set_unused_out [simp]: "set_unused (a\<lparr>ba_out_ids := out\<rparr>) = set_unused a"
  by (simp add: fun_eq_iff set_unused_def get_n_tokens_def)

lemma equal_good_out: "equal_good n kt (a\<lparr>ba_out_ids := out\<rparr>) idxs k \<longleftrightarrow> equal_good n kt a idxs k"
  by (simp add: equal_good_def equal_ok_def sets_ok_def equal_sel_def)

text \<open>The contract holds for every \<open>n_keep_tail\<close> below \<open>n_ubatch\<close>; the assertion of the code covers the
  other ones.\<close>

definition equal_sel_capped :: "nat \<Rightarrow> bool \<Rightarrow> nat \<Rightarrow> batch_allocr \<Rightarrow> (nat list \<times> nat \<times> batch_allocr) res" where
  "equal_sel_capped n_ubatch sequential kt =
     split_equal_idxs n_ubatch sequential (if kt < n_ubatch then kt else 0)"

interpretation equal: batch_splitter "equal_sel_capped n_ubatch sequential kt" True "equal_inv sequential"
    "equal_good n_ubatch (if kt < n_ubatch then kt else 0)"
  for n_ubatch sequential kt
proof
  fix a out idxs k
  show "equal_inv sequential a \<Longrightarrow> allocr_wf a" by (simp add: equal_inv_def)
  show "equal_inv sequential a \<Longrightarrow> equal_inv sequential (a\<lparr>ba_out_ids := out\<rparr>)"
    by (simp add: equal_inv_def allocr_wf_out)
  show "equal_good n_ubatch (if kt < n_ubatch then kt else 0) (a\<lparr>ba_out_ids := out\<rparr>) idxs k
      \<longleftrightarrow> equal_good n_ubatch (if kt < n_ubatch then kt else 0) a idxs k"
    by (rule equal_good_out)
next
  fix a assume inv: "equal_inv sequential a"
  let ?kt = "if kt < n_ubatch then kt else 0"
  have wf: "allocr_wf a" and cpl: "\<not> (sequential \<and> ba_has_cpl a)" using inv by (auto simp: equal_inv_def)
  have "0 < ?kt \<longrightarrow> ?kt < n_ubatch" by simp
  from split_equal_idxs_spec [OF wf cpl this]
  consider "unused a = []" "split_equal_idxs n_ubatch sequential ?kt a = Inr ([], 0, a)"
    | ss r where "split_equal_idxs n_ubatch sequential ?kt a = Inr (equal_sel a ss r, length ss, consume (equal_sel a ss r) a)"
        "equal_ok n_ubatch ?kt a ss r" by blast
  then show "\<exists>idxs k. equal_sel_capped n_ubatch sequential kt a = Inr (idxs, k, consume idxs a) \<and> selection_ok a idxs
          \<and> equal_inv sequential (consume idxs a) \<and> (k = 0 \<longleftrightarrow> idxs = []) \<and> (idxs = [] \<longrightarrow> unused a = [])
          \<and> (idxs \<noteq> [] \<longrightarrow> equal_good n_ubatch ?kt a idxs k)"
  proof cases
    case 1
    then show ?thesis using inv by (intro exI [of _ "[]"] exI [of _ 0]) (simp add: equal_sel_capped_def selection_ok_def)
  next
    case (2 ss r)
    note e = equal_sel_ok [OF wf 2(2)]
    have "ss \<noteq> []" using 2(2) by (simp add: equal_ok_def)
    moreover have "equal_inv sequential (consume (equal_sel a ss r) a)"
      using selection_ok_wf [OF wf e(1)] cpl by (simp add: equal_inv_def)
    moreover have "equal_good n_ubatch ?kt a (equal_sel a ss r) (length ss)"
      unfolding equal_good_def using 2(2) by blast
    ultimately show ?thesis using 2(1) e
      by (intro exI [of _ "equal_sel a ss r"] exI [of _ "length ss"]) (simp add: equal_sel_capped_def)
  qed
qed

text \<open>Blocks of equal length in a concatenation.\<close>

lemma nth_concat_uniform:
  assumes "\<forall>xs \<in> set xss. length xs = r" "q < length xss" "p < r"
  shows "concat xss ! (q * r + p) = xss ! q ! p"
  using assms
proof (induction xss arbitrary: q)
  case (Cons xs xss)
  show ?case
  proof (cases q)
    case (Suc q')
    then have "concat (xs # xss) ! (q * r + p) = concat xss ! (q' * r + p)"
      using Cons.prems(1) by (simp add: nth_append)
    then show ?thesis using Cons Suc by simp
  qed (use Cons.prems in \<open>simp add: nth_append\<close>)
qed simp

text \<open>What the ubatch promises to the recurrent and multi-stream code: \<open>k\<close> blocks of \<open>r\<close> tokens, each block
  from one sequence set, the sets of different blocks disjoint, every block in batch order.\<close>

definition equal_blocks :: "batch_allocr \<Rightarrow> nat list \<Rightarrow> nat \<Rightarrow> bool" where
  "equal_blocks a idxs k \<longleftrightarrow> (\<exists>ss r. length ss = k \<and> 0 < r \<and> length idxs = k * r
     \<and> (\<forall>p < k. \<forall>q < k. p \<noteq> q \<longrightarrow> ss ! p \<inter> ss ! q = {})
     \<and> (\<forall>q < k. \<forall>p < r. ba_seq_set a ! (idxs ! (q * r + p)) = ss ! q)
     \<and> (\<forall>q < k. \<forall>p < r. \<forall>p' < p. idxs ! (q * r + p') < idxs ! (q * r + p)))"

lemma equal_ok_blocks:
  assumes "equal_ok n kt a ss r"
  shows "equal_blocks a (equal_sel a ss r) (length ss)"
proof -
  have so: "sets_ok a ss" and r: "0 < r" "\<And>S. S \<in> set ss \<Longrightarrow> r \<le> length (set_unused a S)"
    using assms by (auto simp: equal_ok_def)
  have len: "\<forall>xs \<in> set (map (\<lambda>S. take r (set_unused a S)) ss). length xs = r" using r(2) by auto
  have nth: "equal_sel a ss r ! (q * r + p) = set_unused a (ss ! q) ! p" if "q < length ss" "p < r" for q p
    unfolding equal_sel_def by (subst nth_concat_uniform [OF len]) (use that in simp_all)
  have "ss ! p \<inter> ss ! q = {}" if "p < length ss" "q < length ss" "p \<noteq> q" for p q
    using so that sorted_wrt_nth_less [of "\<lambda>A B. A \<inter> B = {}" ss p q] sorted_wrt_nth_less [of "\<lambda>A B. A \<inter> B = {}" ss q p]
    by (auto simp: sets_ok_def neq_iff)
  moreover have "ba_seq_set a ! (equal_sel a ss r ! (q * r + p)) = ss ! q" if "q < length ss" "p < r" for q p
  proof -
    have "p < length (set_unused a (ss ! q))" using r(2) [of "ss ! q"] that by simp
    from nth_mem [OF this] show ?thesis by (simp add: nth [OF that])
  qed
  moreover have "equal_sel a ss r ! (q * r + p') < equal_sel a ss r ! (q * r + p)" if "q < length ss" "p < r" "p' < p" for q p p'
    using that r(2) [of "ss ! q"] sorted_wrt_nth_less [OF sorted_set_unused that(3), of a "ss ! q"] by (simp add: nth)
  moreover have "length (equal_sel a ss r) = length ss * r"
    using len by (simp add: equal_sel_def length_concat comp_def) (simp add: sum_list_triv cong: map_cong)
  ultimately show ?thesis using r(1) unfolding equal_blocks_def by (intro exI [of _ ss] exI [of _ r]) simp
qed

lemma equal_blocks_consume [simp]: "equal_blocks (consume xs a) = equal_blocks a"
  by (simp add: fun_eq_iff equal_blocks_def)


lemma split_equal_capped:
  assumes "kt = 0 \<or> kt < n_ubatch"
  shows "split_equal n_ubatch sequential kt = next_ubatch True (equal_sel_capped n_ubatch sequential kt)"
  using assms by (auto simp: split_equal_next equal_sel_capped_def)

lemma split_reset_fields [simp]:
  "ba_seq_set (split_reset a) = ba_seq_set a" "ba_has_cpl (split_reset a) = ba_has_cpl a"
  "get_n_tokens (split_reset a) = get_n_tokens a" "ba_n_used (split_reset a) = 0"
  "ba_used (split_reset a) = replicate (get_n_tokens a) False"
  by (simp_all add: split_reset_def get_n_tokens_def)

lemma split_equal_runs:
  assumes wf: "allocr_wf (split_reset a)" and cpl: "\<not> (sequential \<and> ba_has_cpl a)" and kt: "kt = 0 \<or> kt < n_ubatch"
  obtains sels a' where
    "split_all (split_equal n_ubatch sequential kt) (split_reset a)
       = Some (Inr (map (\<lambda>(idxs, k). fst (ubatch_add idxs k True a)) sels, a'))"
    "mset (concat (map fst sels)) = mset [0..<get_n_tokens a]" "get_n_used a' = get_n_tokens a"
    "\<And>j. j < length sels \<Longrightarrow> equal_good n_ubatch kt (consume (concat (map fst (take j sels))) (split_reset a))
       (fst (sels ! j)) (snd (sels ! j))"
    "ba_batch a' = ba_batch a"
proof -
  let ?a = "split_reset a"
  have inv: "equal_inv sequential ?a" using wf cpl by (simp add: equal_inv_def)
  have k: "(if kt < n_ubatch then kt else 0) = kt" using kt by auto
  obtain sels a' where r: "split_all (next_ubatch True (equal_sel_capped n_ubatch sequential kt)) ?a
            = Some (Inr (map (\<lambda>(idxs, k). fst (ubatch_add idxs k True ?a)) sels, a'))"
    and m: "mset (concat (map fst sels)) = mset (unused ?a)"
    and a': "a' = (consume (concat (map fst sels)) ?a)\<lparr>ba_out_ids := ba_out_ids ?a
                 @ filter (\<lambda>i. arr (b_logits (ba_batch ?a)) ! i \<noteq> 0) (concat (map fst sels))\<rparr>"
    and g: "\<forall>j < length sels. fst (sels ! j) \<noteq> []
       \<and> equal_good n_ubatch (if kt < n_ubatch then kt else 0) (consume (concat (map fst (take j sels))) ?a) (fst (sels ! j)) (snd (sels ! j))"
    using equal.split_all_partition [OF inv] by blast
  have un: "unused ?a = [0..<get_n_tokens a]" by (rule split_reset_simple_inv(2) [OF wf])
  have "length (concat (map fst sels)) = get_n_tokens a"
    using m un by (metis length_upt minus_nat.diff_0 size_mset)
  then have "get_n_used a' = get_n_tokens a" "ba_batch a' = ba_batch a" using a' by (simp_all add: get_n_used_def split_reset_def)
  then show thesis
    using that [of sels a'] r m g un by (simp add: split_equal_capped [OF kt] k ubatch_add_split_reset)
qed

lemma split_equal_blocks:
  assumes "allocr_wf (split_reset a)" "\<not> (sequential \<and> ba_has_cpl a)" "n_keep_tail = 0 \<or> n_keep_tail < n_ubatch"
  shows "\<exists>sels a'. split_all (split_equal n_ubatch sequential n_keep_tail) (split_reset a)
            = Some (Inr (map (\<lambda>(idxs, k). fst (ubatch_add idxs k True a)) sels, a'))
          \<and> mset (concat (map fst sels)) = mset [0..<get_n_tokens a] \<and> get_n_used a' = get_n_tokens a
          \<and> (\<forall>(idxs, k) \<in> set sels. 0 < k \<and> equal_blocks a idxs k \<and> length idxs \<le> n_ubatch + 1) \<and> ba_batch a' = ba_batch a"
proof -
  obtain sels a' where r: "split_all (split_equal n_ubatch sequential n_keep_tail) (split_reset a)
       = Some (Inr (map (\<lambda>(idxs, k). fst (ubatch_add idxs k True a)) sels, a'))"
    "mset (concat (map fst sels)) = mset [0..<get_n_tokens a]" "get_n_used a' = get_n_tokens a"
    and g: "\<And>j. j < length sels \<Longrightarrow> equal_good n_ubatch n_keep_tail (consume (concat (map fst (take j sels))) (split_reset a))
       (fst (sels ! j)) (snd (sels ! j))" and b: "ba_batch a' = ba_batch a"
    using split_equal_runs [OF assms] by blast
  have "0 < k \<and> equal_blocks a idxs k \<and> length idxs \<le> n_ubatch + 1" if ik: "(idxs, k) \<in> set sels" for idxs k
  proof -
    obtain j where j: "j < length sels" "sels ! j = (idxs, k)" using ik by (auto simp: in_set_conv_nth)
    let ?a = "consume (concat (map fst (take j sels))) (split_reset a)"
    obtain ss r where s: "equal_ok n_ubatch n_keep_tail ?a ss r" "idxs = equal_sel ?a ss r" "k = length ss"
      using g [OF j(1)] j(2) by (auto simp: equal_good_def)
    have "equal_blocks ?a idxs k" using equal_ok_blocks [OF s(1)] s by simp
    then have b: "equal_blocks a idxs k" unfolding equal_blocks_def by simp
    have "\<forall>xs \<in> set (map (\<lambda>S. take r (set_unused ?a S)) ss). length xs = r" using s(1) by (auto simp: equal_ok_def)
    then have "length idxs = r * k"
      unfolding s(2) s(3) by (simp add: equal_sel_def length_concat comp_def) (simp add: sum_list_triv cong: map_cong)
    then show ?thesis using b s(1,3) by (auto simp: equal_ok_def)
  qed
  then show ?thesis using r b by (intro exI [of _ sels] exI [of _ a']) auto
qed

text \<open>C25. Let \<open>n_keep_tail\<close> be zero or below \<open>n_ubatch\<close>, and let the mode be non-sequential or the batch have no coupled sequences (a sequential split of
  a coupled batch is refused by the code with an empty ubatch). Then the loop over \<open>split_equal\<close> terminates and its ubatches partition the batch. Each ubatch with \<open>n_seqs = k\<close>
  consists of \<open>k\<close> blocks of equal length, one sequence set per block and disjoint sets for different
  blocks, in batch order within a block, and has at most \<open>n_ubatch + 1\<close> tokens.\<close>

theorem split_equal_partitions:
  assumes "allocr_wf (split_reset a)" "\<not> (sequential \<and> ba_has_cpl a)" "n_keep_tail = 0 \<or> n_keep_tail < n_ubatch"
  shows "\<exists>sels a'. split_all (split_equal n_ubatch sequential n_keep_tail) (split_reset a)
            = Some (Inr (map (\<lambda>(idxs, k). fst (ubatch_add idxs k True a)) sels, a'))
          \<and> mset (concat (map fst sels)) = mset [0..<get_n_tokens a] \<and> get_n_used a' = get_n_tokens a
          \<and> (\<forall>(idxs, k) \<in> set sels. 0 < k \<and> equal_blocks a idxs k \<and> length idxs \<le> n_ubatch + 1)"
  using split_equal_blocks [OF assms] by blast

lemma equal_ok_tail:
  "equal_ok n kt a ss r \<Longrightarrow> 0 < kt \<Longrightarrow> S \<in> set ss
   \<Longrightarrow> length (set_unused a S) - r = 0 \<or> kt \<le> length (set_unused a S) - r"
  by (auto simp: equal_ok_def)

lemma equal_sel_left:
  assumes ok: "equal_ok n kt a ss r" "0 < kt" and i: "i \<in> set (equal_sel a ss r)"
  defines "L \<equiv> {i'. i' < get_n_tokens a \<and> ba_seq_set a ! i' = ba_seq_set a ! i \<and> \<not> ba_used a ! i' \<and> i' \<notin> set (equal_sel a ss r)}"
  shows "L = {} \<or> kt \<le> card L"
proof -
  let ?S = "ba_seq_set a ! i"
  let ?U = "set_unused a ?S"
  obtain S where S: "S \<in> set ss" "i \<in> set (take r (set_unused a S))" using i by (auto simp: equal_sel_def)
  then have Si: "S = ?S" by (auto dest!: in_set_takeD)
  have sel: "i' \<in> set (equal_sel a ss r) \<longleftrightarrow> i' \<in> set (take r ?U)" if "ba_seq_set a ! i' = ?S" for i'
  proof
    assume "i' \<in> set (equal_sel a ss r)"
    then obtain T where T: "i' \<in> set (take r (set_unused a T))" unfolding equal_sel_def by auto
    have "T = ?S" using in_set_takeD [OF T] that by simp
    then show "i' \<in> set (take r ?U)" using T by simp
  next
    assume "i' \<in> set (take r ?U)"
    then show "i' \<in> set (equal_sel a ss r)" using S(1) Si unfolding equal_sel_def by auto
  qed
  have "set ?U = set (take r ?U) \<union> set (drop r ?U)" by (metis append_take_drop_id set_append)
  moreover have "set (take r ?U) \<inter> set (drop r ?U) = {}"
    by (rule set_take_disj_set_drop_if_distinct) simp_all
  ultimately have "i' \<in> set (drop r ?U) \<longleftrightarrow> i' \<in> set ?U \<and> i' \<notin> set (take r ?U)" for i' by blast
  then have "L = set (drop r ?U)" unfolding L_def using sel by auto
  moreover have "card (set (drop r ?U)) = length ?U - r" by (simp add: distinct_card)
  moreover have "length ?U - r = 0 \<or> kt \<le> length ?U - r" by (rule equal_ok_tail [OF ok]) (use S(1) Si in simp)
  ultimately show ?thesis by auto
qed

text \<open>The trailing \<open>n_keep_tail\<close> tokens of a sequence set are never spread over two ubatches: after
  every ubatch that contains tokens of a set, either none of its tokens is left or at least
  \<open>n_keep_tail\<close> are.\<close>

theorem split_equal_keeps_tail:
  assumes "allocr_wf (split_reset a)" "\<not> (sequential \<and> ba_has_cpl a)" "0 < n_keep_tail" "n_keep_tail < n_ubatch"
  shows "\<exists>sels a'. split_all (split_equal n_ubatch sequential n_keep_tail) (split_reset a)
            = Some (Inr (map (\<lambda>(idxs, k). fst (ubatch_add idxs k True a)) sels, a'))
          \<and> (\<forall>j < length sels. \<forall>i \<in> set (fst (sels ! j)).
               let left = {i'. i' < get_n_tokens a \<and> ba_seq_set a ! i' = ba_seq_set a ! i
                               \<and> i' \<notin> set (concat (map fst (take (Suc j) sels)))}
               in left = {} \<or> n_keep_tail \<le> card left)"
proof -
  obtain sels a' where r: "split_all (split_equal n_ubatch sequential n_keep_tail) (split_reset a)
       = Some (Inr (map (\<lambda>(idxs, k). fst (ubatch_add idxs k True a)) sels, a'))"
    "mset (concat (map fst sels)) = mset [0..<get_n_tokens a]" "get_n_used a' = get_n_tokens a"
    and g: "\<And>j. j < length sels \<Longrightarrow> equal_good n_ubatch n_keep_tail (consume (concat (map fst (take j sels))) (split_reset a))
       (fst (sels ! j)) (snd (sels ! j))"
    using split_equal_runs [OF assms(1,2) disjI2 [OF assms(4)]] by blast
  have "let left = {i'. i' < get_n_tokens a \<and> ba_seq_set a ! i' = ba_seq_set a ! i
                               \<and> i' \<notin> set (concat (map fst (take (Suc j) sels)))}
               in left = {} \<or> n_keep_tail \<le> card left" if j: "j < length sels" and i: "i \<in> set (fst (sels ! j))" for i j
  proof -
    define p where "p = concat (map fst (take j sels))"
    define b where "b = consume p (split_reset a)"
    obtain ss r where s: "equal_ok n_ubatch n_keep_tail b ss r" "fst (sels ! j) = equal_sel b ss r"
      using g [OF j] unfolding p_def [symmetric] b_def [symmetric] equal_good_def by blast
    have b: "get_n_tokens b = get_n_tokens a" "ba_seq_set b = ba_seq_set a"
      and used: "\<And>i'. i' < get_n_tokens a \<Longrightarrow> ba_used b ! i' \<longleftrightarrow> i' \<in> set p"
      by (simp_all add: b_def consume_used)
    have tk: "set (concat (map fst (take (Suc j) sels))) = set p \<union> set (equal_sel b ss r)"
      using j by (simp add: take_Suc_conv_app_nth p_def s(2) [symmetric])
    let ?L = "{i'. i' < get_n_tokens b \<and> ba_seq_set b ! i' = ba_seq_set b ! i \<and> \<not> ba_used b ! i' \<and> i' \<notin> set (equal_sel b ss r)}"
    have "?L = {i'. i' < get_n_tokens a \<and> ba_seq_set a ! i' = ba_seq_set a ! i
                               \<and> i' \<notin> set (concat (map fst (take (Suc j) sels)))}"
      unfolding tk b using used by (intro Collect_cong) blast
    moreover have "?L = {} \<or> n_keep_tail \<le> card ?L"
      by (rule equal_sel_left [OF s(1) assms(3)]) (use i s(2) in simp)
    ultimately show ?thesis by (simp only: Let_def)
  qed
  then show ?thesis using r(1) by (intro exI [of _ sels] exI [of _ a'] conjI allI impI ballI)
qed

end
