(* ===== verification/Batch_Init.thy ===== *)
theory Batch_Init
  imports Batch_Equal
begin

section \<open>What \<open>init\<close> guarantees\<close>

text \<open>
  \<open>llama_batch_allocr::init\<close>: the statistics it computes, what a batch it accepts satisfies, and that the
  batches of \<open>llama_batch_get_one\<close> are accepted. The results connect \<open>init\<close> with the splitting
  strategies: an accepted batch satisfies \<open>allocr_wf\<close>.
\<close>

subsection \<open>The statistics\<close>

lemma fold_insert_set: "fold insert xs A = set xs \<union> A"
  by (induction xs arbitrary: A) auto

lemma stats_set_fold:
  assumes "m \<le> get_n_tokens a" "ba_seq_set a = []" "ba_seq_set_map a = (\<lambda>_. [])"
  shows "fold stats_set_token [0..<m] a
    = a\<lparr>ba_seq_set := map (\<lambda>i. set (tok_seqs (ba_batch a) i)) [0..<m],
        ba_seq_set_map := (\<lambda>S. filter (\<lambda>i. set (tok_seqs (ba_batch a) i) = S) [0..<m])\<rparr>"
  using assms(1)
proof (induction m)
  case 0
  then show ?case using assms by simp
next
  case (Suc m)
  let ?t = "\<lambda>i. set (tok_seqs (ba_batch a) i)"
  have upd: "(\<lambda>S. filter (\<lambda>i. ?t i = S) [0..<m])(?t m := filter (\<lambda>i. ?t i = ?t m) [0..<m] @ [m])
      = (\<lambda>S. filter (\<lambda>i. ?t i = S) [0..<Suc m])" by (auto simp: fun_eq_iff)
  have "fold stats_set_token [0..<Suc m] a = stats_set_token m (a\<lparr>ba_seq_set := map ?t [0..<m],
      ba_seq_set_map := (\<lambda>S. filter (\<lambda>i. ?t i = S) [0..<m])\<rparr>)"
    unfolding fold_upt_Suc using Suc by simp
  also have "\<dots> = a\<lparr>ba_seq_set := map ?t [0..<Suc m], ba_seq_set_map := (\<lambda>S. filter (\<lambda>i. ?t i = S) [0..<Suc m])\<rparr>"
    unfolding stats_set_token_def Let_def fold_insert_set by (simp add: upd)
  finally show ?case .
qed

text \<open>The positions of sequence \<open>s\<close> in a batch.\<close>

definition batch_positions :: "llama_batch \<Rightarrow> llama_seq_id \<Rightarrow> llama_pos set" where
  "batch_positions b s = (\<lambda>i. arr (b_pos b) ! i) ` {i. i < n_tok b \<and> s \<in> set (tok_seqs b i)}"

definition cpl_pairs :: "llama_batch \<Rightarrow> nat \<Rightarrow> (llama_seq_id \<times> llama_seq_id) set" where
  "cpl_pairs b i = (\<lambda>s. (s, arr (b_seq_id b) ! i ! 0)) ` set (drop 1 (tok_seqs b i))"

text \<open>One token of the coupling loop.\<close>

definition pos_added :: "llama_batch \<Rightarrow> nat \<Rightarrow> llama_seq_id list \<Rightarrow> llama_pos set list \<Rightarrow> llama_pos set list" where
  "pos_added b i ss sp = map (\<lambda>t. if t \<in> nat ` set ss then insert (arr (b_pos b) ! i) (sp ! t) else sp ! t) [0..<length sp]"

lemma pos_added_snoc:
  "(pos_added b i ss sp)[nat s := insert (arr (b_pos b) ! i) (pos_added b i ss sp ! nat s)] = pos_added b i (ss @ [s]) sp"
proof (cases "nat s < length sp")
  case True
  then show ?thesis by (intro nth_equalityI) (auto simp: pos_added_def nth_list_update)
next
  case False
  then show ?thesis by (intro nth_equalityI) (auto simp: pos_added_def list_update_beyond)
qed

lemma stats_cpl_token_eq:
  "stats_cpl_token i a = (let b = ba_batch a; ss = tok_seqs b i in
     a\<lparr>ba_seq_pos := pos_added b i ss (ba_seq_pos a), ba_seq_cpl := cpl_pairs b i \<union> ba_seq_cpl a,
       ba_has_cpl := (ba_has_cpl a \<or> 1 < length ss)\<rparr>)"
proof -
  let ?b = "ba_batch a" and ?ss = "tok_seqs (ba_batch a) i"
  let ?s0 = "arr (b_seq_id ?b) ! i ! 0"
  let ?F = "\<lambda>s a. let s1 = arr (b_seq_id ?b) ! i ! s;
              a = a\<lparr>ba_seq_pos := (ba_seq_pos a)[nat s1 := insert (arr (b_pos ?b) ! i) (ba_seq_pos a ! nat s1)]\<rparr>
          in if s > 0 then a\<lparr>ba_seq_cpl := insert (s1, ?s0) (ba_seq_cpl a), ba_has_cpl := True\<rparr> else a"
  let ?R = "\<lambda>m. a\<lparr>ba_seq_pos := pos_added ?b i (take m ?ss) (ba_seq_pos a),
       ba_seq_cpl := (\<lambda>s. (s, ?s0)) ` set (drop 1 (take m ?ss)) \<union> ba_seq_cpl a,
       ba_has_cpl := (ba_has_cpl a \<or> 1 < m)\<rparr>"
  have "fold ?F [0..<m] a = ?R m" if "m \<le> length ?ss" for m
    using that
  proof (induction m)
    case 0
    show ?case by (simp add: pos_added_def map_nth)
  next
    case (Suc m)
    have nth: "arr (b_seq_id ?b) ! i ! m = ?ss ! m" using Suc.prems by (simp add: tok_seqs_def)
    have tk: "take (Suc m) ?ss = take m ?ss @ [?ss ! m]" using Suc.prems by (simp add: take_Suc_conv_app_nth)
    have "fold ?F [0..<Suc m] a = ?F m (?R m)" unfolding fold_upt_Suc using Suc by simp
    also have "\<dots> = ?R (Suc m)"
    proof -
      have d: "set (drop 1 (take (Suc m) ?ss)) = (if m > 0 then insert (?ss ! m) (set (drop 1 (take m ?ss))) else {})"
        unfolding tk using Suc.prems by (cases m) auto
      have p: "pos_added ?b i (take (Suc m) ?ss) (ba_seq_pos a) = (pos_added ?b i (take m ?ss) (ba_seq_pos a))
          [nat (?ss ! m) := insert (arr (b_pos ?b) ! i) (pos_added ?b i (take m ?ss) (ba_seq_pos a) ! nat (?ss ! m))]"
        unfolding tk pos_added_snoc ..
      show ?thesis unfolding nth Let_def d p by (cases m) simp_all
    qed
    finally show ?case .
  qed
  from this [of "length ?ss"] show ?thesis
    by (simp add: stats_cpl_token_def Let_def length_tok_seqs cpl_pairs_def)
qed

lemma stats_cpl_fold:
  assumes "length (ba_seq_pos a) = LLAMA_MAX_SEQ"
  defines "b \<equiv> ba_batch a"
  shows "fold stats_cpl_token [0..<m] a
    = a\<lparr>ba_seq_pos := map (\<lambda>t. (\<lambda>i. arr (b_pos b) ! i) ` {i. i < m \<and> t \<in> nat ` set (tok_seqs b i)} \<union> ba_seq_pos a ! t) [0..<LLAMA_MAX_SEQ],
        ba_seq_cpl := (\<Union>i < m. cpl_pairs b i) \<union> ba_seq_cpl a,
        ba_has_cpl := (ba_has_cpl a \<or> (\<exists>i < m. 1 < length (tok_seqs b i)))\<rparr>"
proof (induction m)
  case 0
  have "ba_seq_pos a = map ((!) (ba_seq_pos a)) [0..<LLAMA_MAX_SEQ]" using assms by (metis map_nth)
  then show ?case by simp
next
  case (Suc m)
  let ?R = "\<lambda>m. a\<lparr>ba_seq_pos := map (\<lambda>t. (\<lambda>i. arr (b_pos b) ! i) ` {i. i < m \<and> t \<in> nat ` set (tok_seqs b i)} \<union> ba_seq_pos a ! t) [0..<LLAMA_MAX_SEQ],
        ba_seq_cpl := (\<Union>i < m. cpl_pairs b i) \<union> ba_seq_cpl a,
        ba_has_cpl := (ba_has_cpl a \<or> (\<exists>i < m. 1 < length (tok_seqs b i)))\<rparr>"
  have "fold stats_cpl_token [0..<Suc m] a = stats_cpl_token m (?R m)" unfolding fold_upt_Suc Suc ..
  also have "\<dots> = ?R (Suc m)"
  proof -
    have "pos_added b m (tok_seqs b m) (ba_seq_pos (?R m)) = ba_seq_pos (?R (Suc m))"
      by (rule nth_equalityI) (auto simp: pos_added_def less_Suc_eq)
    moreover have "cpl_pairs b m \<union> ((\<Union>i < m. cpl_pairs b i) \<union> ba_seq_cpl a) = (\<Union>i < Suc m. cpl_pairs b i) \<union> ba_seq_cpl a"
      by (simp add: lessThan_Suc Un_assoc)
    moreover have "((ba_has_cpl a \<or> (\<exists>i < m. 1 < length (tok_seqs b i))) \<or> 1 < length (tok_seqs b m))
        = (ba_has_cpl a \<or> (\<exists>i < Suc m. 1 < length (tok_seqs b i)))" by (auto simp: less_Suc_eq)
    ultimately show ?thesis by (simp add: stats_cpl_token_eq Let_def b_def [symmetric] del: One_nat_def)
  qed
  finally show ?case .
qed


lemma stats_unq_frame [simp]:
  "ba_batch (stats_unq a) = ba_batch a" "ba_seq_set (stats_unq a) = ba_seq_set a"
  "ba_seq_set_map (stats_unq a) = ba_seq_set_map a" "ba_n_outputs (stats_unq a) = ba_n_outputs a"
  "ba_n_pos_per_embd (stats_unq a) = ba_n_pos_per_embd a" "ba_n_seq_max (stats_unq a) = ba_n_seq_max a"
  "ba_seq_pos (stats_unq a) = ba_seq_pos a" "ba_seq_cpl (stats_unq a) = ba_seq_cpl a"
  "ba_has_cpl (stats_unq a) = ba_has_cpl a"
  by (simp_all add: stats_unq_def Let_def split_def)

lemma fold_count: "fold (\<lambda>i n. n + (if P i then 1 else 0)) xs (n::nat) = n + length (filter P xs)"
  by (induction xs arbitrary: n) simp_all

lemma init_stats_facts:
  fixes e m b a
  assumes "length (ba_seq_pos a) = LLAMA_MAX_SEQ"
  defines "a1 \<equiv> init_stats e m ((allocr_clear a)\<lparr>ba_batch := b\<rparr>)"
  shows "ba_batch a1 = b" "ba_n_seq_max a1 = m" "ba_n_pos_per_embd a1 = ba_n_pos_per_embd a"
    and "ba_seq_set a1 = map (\<lambda>i. set (tok_seqs b i)) [0..<n_tok b]"
    and "ba_seq_set_map a1 = (\<lambda>S. filter (\<lambda>i. set (tok_seqs b i) = S) [0..<n_tok b])"
    and "ba_has_cpl a1 \<longleftrightarrow> (\<exists>i < n_tok b. 1 < length (tok_seqs b i))"
    and "ba_seq_cpl a1 = (\<Union>i < n_tok b. cpl_pairs b i)"
    and "ba_n_outputs a1 = length (filter (\<lambda>i. arr (b_logits b) ! i \<noteq> 0) [0..<n_tok b])"
    and "ba_seq_pos a1 = map (\<lambda>t. (\<lambda>i. arr (b_pos b) ! i) ` {i. i < n_tok b \<and> t \<in> nat ` set (tok_seqs b i)}) [0..<LLAMA_MAX_SEQ]"
proof -
  let ?a0 = "((allocr_clear a)\<lparr>ba_batch := b, ba_n_embd := e, ba_n_seq_max := m\<rparr>)"
  let ?so = "(stats_outputs ?a0)\<lparr>ba_has_cpl := False\<rparr>"
  have so: "ba_batch ?so = b" "ba_seq_pos ?so = replicate LLAMA_MAX_SEQ {}" "ba_seq_cpl ?so = {}"
    "ba_seq_set ?so = []" "ba_seq_set_map ?so = (\<lambda>_. [])"
    "ba_n_outputs ?so = length (filter (\<lambda>i. arr (b_logits b) ! i \<noteq> 0) [0..<n_tok b])"
    "ba_n_seq_max ?so = m" "ba_n_pos_per_embd ?so = ba_n_pos_per_embd a" "ba_has_cpl ?so = False"
    using assms(1) by (simp_all add: stats_outputs_def allocr_clear_def get_n_tokens_def fold_count map_replicate_const)
  have t: "get_n_tokens ?so = n_tok b" "get_n_tokens (stats_outputs ?a0) = n_tok b"
    by (simp_all add: get_n_tokens_def stats_outputs_def)
  have l: "length (ba_seq_pos ?so) = LLAMA_MAX_SEQ" using so by simp
  let ?c = "stats_cpl (stats_outputs ?a0)"
  have c: "?c = ?so\<lparr>ba_seq_pos := map (\<lambda>t. (\<lambda>i. arr (b_pos b) ! i) ` {i. i < n_tok b \<and> t \<in> nat ` set (tok_seqs b i)} \<union> ba_seq_pos ?so ! t) [0..<LLAMA_MAX_SEQ],
        ba_seq_cpl := (\<Union>i < n_tok b. cpl_pairs b i) \<union> ba_seq_cpl ?so,
        ba_has_cpl := (ba_has_cpl ?so \<or> (\<exists>i < n_tok b. 1 < length (tok_seqs b i)))\<rparr>"
    unfolding stats_cpl_def t(2) stats_cpl_fold [OF l] so(1) ..
  have cf: "ba_batch ?c = b" "ba_seq_set ?c = []" "ba_seq_set_map ?c = (\<lambda>_. [])" "get_n_tokens ?c = n_tok b"
    unfolding c using so by (simp_all add: get_n_tokens_def)
  have a1: "a1 = stats_unq (fold stats_set_token [0..<n_tok b] ?c)"
    unfolding a1_def init_stats_def Let_def using cf(4) by simp
  have a2: "fold stats_set_token [0..<n_tok b] ?c = ?c\<lparr>ba_seq_set := map (\<lambda>i. set (tok_seqs b i)) [0..<n_tok b],
        ba_seq_set_map := (\<lambda>S. filter (\<lambda>i. set (tok_seqs b i) = S) [0..<n_tok b])\<rparr>"
    using stats_set_fold [of "n_tok b" ?c] cf by simp
  show "ba_batch a1 = b" "ba_n_seq_max a1 = m" "ba_n_pos_per_embd a1 = ba_n_pos_per_embd a"
    "ba_seq_set a1 = map (\<lambda>i. set (tok_seqs b i)) [0..<n_tok b]"
    "ba_seq_set_map a1 = (\<lambda>S. filter (\<lambda>i. set (tok_seqs b i) = S) [0..<n_tok b])"
    "ba_has_cpl a1 \<longleftrightarrow> (\<exists>i < n_tok b. 1 < length (tok_seqs b i))"
    "ba_seq_cpl a1 = (\<Union>i < n_tok b. cpl_pairs b i)"
    "ba_n_outputs a1 = length (filter (\<lambda>i. arr (b_logits b) ! i \<noteq> 0) [0..<n_tok b])"
    unfolding a1 a2 using so by (simp_all add: c)
  show "ba_seq_pos a1 = map (\<lambda>t. (\<lambda>i. arr (b_pos b) ! i) ` {i. i < n_tok b \<and> t \<in> nat ` set (tok_seqs b i)}) [0..<LLAMA_MAX_SEQ]"
    unfolding a1 a2 using so by (simp add: c)
qed

subsection \<open>The order check\<close>

lemma check_ids_spec:
  assumes "set ss \<subseteq> S" "\<And>s. s \<in> set ss \<Longrightarrow> s \<in> cs s"
  shows "check_ids S p ss (cs, cp) = (if \<forall>s \<in> set ss. cp s \<le> p
     then Some (\<lambda>s. if s \<in> set ss then cs s \<inter> S else cs s, \<lambda>s. if s \<in> set ss then p else cp s) else None)"
  using assms
proof (induction ss arbitrary: cs cp)
  case (Cons s ss)
  let ?cs = "cs(s := cs s \<inter> S)" and ?cp = "cp(s := p)"
  have IH: "check_ids S p ss (?cs, ?cp) = (if \<forall>s \<in> set ss. ?cp s \<le> p
     then Some (\<lambda>s. if s \<in> set ss then ?cs s \<inter> S else ?cs s, \<lambda>s. if s \<in> set ss then p else ?cp s) else None)"
    using Cons by simp
  have "?cs s \<noteq> {}" using Cons.prems by auto
  then have eq: "check_ids S p (s # ss) (cs, cp) = (if p < cp s then None else check_ids S p ss (?cs, ?cp))"
    by (simp add: Let_def)
  show ?case unfolding eq IH by (auto simp: fun_eq_iff)
qed (simp add: fun_eq_iff)

text \<open>The set test of the loop can never fail: a sequence always belongs to the sets it is intersected
  with. What the loop checks is that the positions of a sequence do not decrease.\<close>

lemma check_tokens_iff:
  assumes "\<And>i. i \<in> set is \<Longrightarrow> ba_seq_set a ! i = set (tok_seqs (ba_batch a) i)"
    and "\<And>i s. i \<in> set is \<Longrightarrow> s \<in> set (tok_seqs (ba_batch a) i) \<Longrightarrow> s \<in> cs s"
  shows "check_tokens a is (cs, cp) \<longleftrightarrow>
      (\<forall>i \<in> set is. \<forall>s \<in> set (tok_seqs (ba_batch a) i). cp s \<le> arr (b_pos (ba_batch a)) ! i)
    \<and> sorted_wrt (\<lambda>i j. set (tok_seqs (ba_batch a) i) \<inter> set (tok_seqs (ba_batch a) j) \<noteq> {}
        \<longrightarrow> arr (b_pos (ba_batch a)) ! i \<le> arr (b_pos (ba_batch a)) ! j) is"
  using assms
proof (induction "is" arbitrary: cs cp)
  case (Cons i "is")
  let ?ss = "\<lambda>i. set (tok_seqs (ba_batch a) i)" and ?p = "\<lambda>i. arr (b_pos (ba_batch a)) ! i"
  let ?cs = "\<lambda>s. if s \<in> ?ss i then cs s \<inter> ?ss i else cs s" and ?cp = "\<lambda>s. if s \<in> ?ss i then ?p i else cp s"
  have ch: "check_ids (ba_seq_set a ! i) (?p i) (tok_seqs (ba_batch a) i) (cs, cp)
      = (if \<forall>s \<in> ?ss i. cp s \<le> ?p i then Some (?cs, ?cp) else None)"
  proof -
    have S: "ba_seq_set a ! i = ?ss i" using Cons.prems by simp
    show ?thesis unfolding S by (rule check_ids_spec) (use Cons.prems in auto)
  qed
  have IH: "check_tokens a is (?cs, ?cp) \<longleftrightarrow> (\<forall>j \<in> set is. \<forall>s \<in> ?ss j. ?cp s \<le> ?p j)
      \<and> sorted_wrt (\<lambda>i j. ?ss i \<inter> ?ss j \<noteq> {} \<longrightarrow> ?p i \<le> ?p j) is"
    by (rule Cons.IH) (use Cons.prems in auto)
  show ?case
  proof (cases "\<forall>s \<in> ?ss i. cp s \<le> ?p i")
    case False
    then show ?thesis using ch by auto
  next
    case True
    have "check_tokens a (i # is) (cs, cp) = check_tokens a is (?cs, ?cp)" using ch True by simp
    moreover have "(\<forall>j \<in> set is. \<forall>s \<in> ?ss j. ?cp s \<le> ?p j)
        \<longleftrightarrow> (\<forall>j \<in> set is. \<forall>s \<in> ?ss j. cp s \<le> ?p j) \<and> (\<forall>j \<in> set is. ?ss i \<inter> ?ss j \<noteq> {} \<longrightarrow> ?p i \<le> ?p j)"
      using True by (auto split: if_splits) force+
    ultimately show ?thesis unfolding IH using True by auto
  qed
qed simp


subsection \<open>Accepted batches\<close>

text \<open>What the caller of \<open>llama_decode\<close> provides: both sequence fields or neither, and at least one
  sequence for each token.\<close>

definition batch_inp_ok :: "llama_batch \<Rightarrow> bool" where
  "batch_inp_ok b \<longleftrightarrow> (case (b_n_seq_id b, b_seq_id b) of
     (None, None) \<Rightarrow> True
   | (Some ns, Some ids) \<Rightarrow> (\<forall>i < n_tok b. 0 < ns ! i)
   | _ \<Rightarrow> False)"

lemma gen_frame [simp]:
  "n_tok (gen_n_seq_id b) = n_tok b" "n_tok (gen_seq_id b) = n_tok b" "n_tok (gen_pos mem b) = n_tok b"
  "n_tok (gen_logits oa b) = n_tok b"
  "b_seq_id (gen_pos mem b) = b_seq_id b" "b_n_seq_id (gen_pos mem b) = b_n_seq_id b"
  "b_seq_id (gen_logits oa b) = b_seq_id b" "b_n_seq_id (gen_logits oa b) = b_n_seq_id b"
  "b_pos (gen_logits oa b) = b_pos b" "b_token (gen_logits oa b) = b_token b" "b_token (gen_pos mem b) = b_token b"
  "b_token (gen_seq_id b) = b_token b" "b_token (gen_n_seq_id b) = b_token b"
  by (simp_all add: gen_n_seq_id_def gen_seq_id_def gen_pos_def gen_logits_def n_tok_def Let_def split: option.splits)

lemma autogen_seqs:
  assumes "batch_inp_ok b" "i < n_tok b"
  shows "tok_seqs (init_autogen mem oa b) i = (if b_seq_id b = None then [0] else tok_seqs b i)"
    and "tok_seqs (init_autogen mem oa b) i \<noteq> []"
proof -
  show eq: "tok_seqs (init_autogen mem oa b) i = (if b_seq_id b = None then [0] else tok_seqs b i)"
    using assms
    by (simp add: batch_inp_ok_def init_autogen_def tok_seqs_def gen_seq_id_def gen_n_seq_id_def n_tok_def split: option.splits)
  show "tok_seqs (init_autogen mem oa b) i \<noteq> []"
    unfolding eq using assms by (auto simp: batch_inp_ok_def tok_seqs_def split: option.splits)
qed

lemma init_True_iff:
  "allocr_init n_vocab memory n_embd n_seq_max output_all binp a = Inr (True, a') \<longleftrightarrow>
    (let a1 = init_stats n_embd n_seq_max ((allocr_clear a)\<lparr>ba_batch := init_autogen memory output_all binp\<rparr>)
     in b_n_tokens binp > 0 \<and> init_validate n_vocab n_seq_max binp \<and> check_positions memory a1
        \<and> check_coupled memory a1 \<and> check_order a1 \<and> a' = split_reset a1)"
  by (auto simp: allocr_init_def Let_def ggml_assert_def)

lemma init_seqs_in_range:
  assumes "init_validate n_vocab n_seq_max b" "batch_inp_ok b" "0 < n_seq_max" "i < n_tok b"
    and "s \<in> set (tok_seqs (init_autogen mem oa b) i)"
  shows "0 \<le> s \<and> s < int n_seq_max"
proof (cases "b_seq_id b")
  case None
  then show ?thesis using assms by (simp add: autogen_seqs)
next
  case (Some ids)
  then have "s \<in> set (tok_seqs b i)" using assms by (simp add: autogen_seqs)
  moreover have "\<forall>i < n_tok b. \<forall>s \<in> set (tok_seqs b i). 0 \<le> s \<and> s < int n_seq_max"
    using assms(1) Some by (simp add: init_validate_def not_less not_le)
  ultimately show ?thesis using assms(4) by blast
qed

lemma init_allocr_wf:
  assumes "length (ba_seq_pos a) = LLAMA_MAX_SEQ" and ne: "\<And>i. i < n_tok b \<Longrightarrow> tok_seqs b i \<noteq> []"
  shows "allocr_wf (split_reset (init_stats e m ((allocr_clear a)\<lparr>ba_batch := b\<rparr>)))"
proof -
  let ?a = "init_stats e m ((allocr_clear a)\<lparr>ba_batch := b\<rparr>)"
  note f = init_stats_facts [OF assms(1), of e m b]
  have n: "get_n_tokens ?a = n_tok b" by (simp add: get_n_tokens_def f)
  have "unused (split_reset ?a) = [0..<n_tok b]" by (simp add: unused_def n)
  moreover have "ba_seq_set_map (split_reset ?a) = (\<lambda>S. filter (\<lambda>i. set (tok_seqs b i) = S) [0..<n_tok b])"
    by (simp add: split_reset_def f)
  moreover have "filter (\<lambda>i. set (tok_seqs b i) = S) [0..<n_tok b] = filter (\<lambda>i. ba_seq_set ?a ! i = S) [0..<n_tok b]" for S
    by (rule filter_cong) (simp_all add: f)
  ultimately show ?thesis using ne by (auto simp: allocr_wf_def n f)
qed

lemma nat_image_iff: "0 \<le> s \<Longrightarrow> \<forall>t \<in> A. 0 \<le> t \<Longrightarrow> nat s \<in> nat ` A \<longleftrightarrow> s \<in> A"
  by (metis imageE image_eqI nat_eq_iff2 nat_0_le)

text \<open>C35. An accepted text batch (one position per token) continues the memory: the positions of every
  sequence are a gap-free interval that starts right after the last position the memory holds for
  it, they never decrease in batch order, all ids are below \<open>n_seq_max\<close>, coupled sequences agree on
  the positions they have in memory, and the splitting state is well formed.\<close>

theorem init_accepts_only_continuations:
  assumes init: "allocr_init n_vocab memory n_embd n_seq_max output_all batch_inp a = Inr (True, a')"
    and inp: "batch_inp_ok batch_inp" and "0 < n_seq_max" "ba_n_pos_per_embd a \<le> 1" "length (ba_seq_pos a) = LLAMA_MAX_SEQ"
  shows "allocr_wf a' \<and> get_n_tokens a' = n_tok batch_inp \<and> get_n_used a' = 0
    \<and> (\<forall>i < get_n_tokens a'. \<forall>s \<in> set (tok_seqs (ba_batch a') i). 0 \<le> s \<and> s < int n_seq_max)
    \<and> (\<forall>s. let P = batch_positions (ba_batch a') s in P \<noteq> {} \<longrightarrow>
          P = {Min P..Max P} \<and> (mem_pos_max memory s \<ge> 0 \<longrightarrow> Min P = mem_pos_max memory s + 1))
    \<and> (\<forall>i j. i < j \<and> j < get_n_tokens a' \<and> set (tok_seqs (ba_batch a') i) \<inter> set (tok_seqs (ba_batch a') j) \<noteq> {}
          \<longrightarrow> arr (b_pos (ba_batch a')) ! i \<le> arr (b_pos (ba_batch a')) ! j)
    \<and> (\<forall>m i s t. memory = Some m \<and> i < get_n_tokens a' \<and> s \<in> set (tok_seqs (ba_batch a') i) \<and> t = tok_seqs (ba_batch a') i ! 0
          \<longrightarrow> mv_seq_pos_min m s = mv_seq_pos_min m t \<and> mv_seq_pos_max m s = mv_seq_pos_max m t)"
proof -
  define b where "b = init_autogen memory output_all batch_inp"
  define a1 where "a1 = init_stats n_embd n_seq_max ((allocr_clear a)\<lparr>ba_batch := b\<rparr>)"
  note f = init_stats_facts [OF assms(5), of n_embd n_seq_max b, folded a1_def]
  have val: "init_validate n_vocab n_seq_max batch_inp" and chp: "check_positions memory a1"
    and chc: "check_coupled memory a1" and cho: "check_order a1" and a': "a' = split_reset a1"
    using init by (simp_all add: init_True_iff Let_def a1_def b_def)
  have nb: "n_tok b = n_tok batch_inp" by (simp add: b_def init_autogen_def)
  have n: "get_n_tokens a1 = n_tok b" "get_n_tokens a' = n_tok b" "ba_batch a' = b"
    unfolding a' by (simp_all add: get_n_tokens_def f split_reset_def)
  have ne: "\<And>i. i < n_tok b \<Longrightarrow> tok_seqs b i \<noteq> []" using autogen_seqs(2) [OF inp] nb by (simp add: b_def)
  have rng: "\<And>i s. i < n_tok b \<Longrightarrow> s \<in> set (tok_seqs b i) \<Longrightarrow> 0 \<le> s \<and> s < int n_seq_max"
    using init_seqs_in_range [OF val inp assms(3)] nb by (simp add: b_def)
  have nm: "n_seq_max \<le> LLAMA_MAX_SEQ" using val by (simp add: init_validate_def)
  have wf: "allocr_wf a'" unfolding a' a1_def by (rule init_allocr_wf [OF assms(5) ne])
  have sp: "ba_seq_pos a1 ! nat s = batch_positions b s" if "0 \<le> s" "s < int n_seq_max" for s
  proof -
    have "{i. i < n_tok b \<and> nat s \<in> nat ` set (tok_seqs b i)} = {i. i < n_tok b \<and> s \<in> set (tok_seqs b i)}"
      using rng that(1) nat_image_iff [of s] by blast
    then show ?thesis using that nm by (simp add: f batch_positions_def)
  qed
  have pos: "P = {Min P..Max P} \<and> (mem_pos_max memory s \<ge> 0 \<longrightarrow> Min P = mem_pos_max memory s + 1)"
    if P: "P = batch_positions b s" "P \<noteq> {}" for s P
  proof -
    have s: "0 \<le> s" "s < int n_seq_max" using P rng by (auto simp: batch_positions_def)
    have fin: "finite P" using P by (simp add: batch_positions_def)
    have "check_seq_plain memory a1 s"
      using chp assms(4) s by (auto simp: check_positions_def f dest: spec [of _ "nat s"])
    then have c: "mem_pos_max memory s \<ge> 0 \<longrightarrow> Min P = mem_pos_max memory s + 1" "Max P - Min P + 1 \<le> int (card P)"
      using P sp [OF s]
      by (auto simp: check_seq_plain_def Let_def allocr_seq_pos_min_def allocr_seq_pos_max_def split: if_splits)
    have sub: "P \<subseteq> {Min P..Max P}" using fin by auto
    have "card {Min P..Max P} \<le> card P" using c(2) by simp
    then have "P = {Min P..Max P}" using sub by (intro card_seteq) simp_all
    then show ?thesis using c(1) by simp
  qed
  have ord: "sorted_wrt (\<lambda>i j. set (tok_seqs b i) \<inter> set (tok_seqs b j) \<noteq> {} \<longrightarrow> arr (b_pos b) ! i \<le> arr (b_pos b) ! j) [0..<n_tok b]"
  proof -
    have "check_tokens a1 [0..<n_tok b] ((\<lambda>_. all_seqs), (\<lambda>_. -1))" using cho n by (simp add: check_order_def)
    then show ?thesis
      by (subst (asm) check_tokens_iff) (use rng nm in \<open>force simp: f all_seqs_def\<close>)+
  qed
  have cpl: "mv_seq_pos_min m s = mv_seq_pos_min m t \<and> mv_seq_pos_max m s = mv_seq_pos_max m t"
    if "memory = Some m" "i < n_tok b" "s \<in> set (tok_seqs b i)" "t = tok_seqs b i ! 0" for m i s t
  proof (cases "s = t")
    case False
    have t0: "arr (b_seq_id b) ! i ! 0 = t" using that(4) ne [OF that(2)] by (simp add: tok_seqs_def)
    have "s \<in> set (drop 1 (tok_seqs b i))"
      using that(3,4) False by (cases "tok_seqs b i") auto
    then have "(s, t) \<in> ba_seq_cpl a1" using that(2) t0 by (auto simp: f cpl_pairs_def)
    moreover have "0 \<le> s" "s < int n_seq_max" "0 \<le> t" "t < int n_seq_max"
      using rng [OF that(2,3)] rng [OF that(2), of t] that(4) ne [OF that(2)] by auto
    moreover have "\<forall>s0 < n_seq_max. \<forall>s1 < n_seq_max. (int s0, int s1) \<in> ba_seq_cpl a1
        \<longrightarrow> mv_seq_pos_min m (int s0) = mv_seq_pos_min m (int s1) \<and> mv_seq_pos_max m (int s0) = mv_seq_pos_max m (int s1)"
      using chc that(1) by (simp add: check_coupled_def f(2))
    ultimately show ?thesis by (metis zero_le_imp_eq_int of_nat_less_iff)
  qed simp
  have "get_n_used a' = 0" unfolding a' by (simp add: get_n_used_def)
  then show ?thesis
    unfolding n using wf nb rng pos ord cpl by (auto simp: Let_def sorted_wrt_iff_nth_less)
qed


subsection \<open>A plain token array is accepted\<close>

lemma gen_pos_from_single:
  assumes "\<And>i. i \<in> set is \<Longrightarrow> arr (b_seq_id b) ! i ! 0 = 0 \<and> tok_seqs b i = [0]"
  shows "gen_pos_from b is p0 = map (\<lambda>k. p0 0 + int k) [0..<length is]"
  using assms
proof (induction "is" arbitrary: p0)
  case (Cons i "is")
  have "gen_pos_from b (i # is) p0 = p0 0 # map (\<lambda>k. p0 0 + 1 + int k) [0..<length is]"
    using Cons by (simp add: Let_def)
  also have "\<dots> = map (\<lambda>k. p0 0 + int k) [0..<length (i # is)]"
    by (rule nth_equalityI) (auto simp: nth_Cons split: nat.splits simp del: upt_Suc)
  finally show ?case .
qed simp

lemma image_add_int: "(\<lambda>k. p + int k) ` {0..<n} = {p..<p + int n}"
proof (intro equalityI subsetI)
  fix x assume "x \<in> {p..<p + int n}"
  then have "x = p + int (nat (x - p))" "nat (x - p) \<in> {0..<n}" by auto
  then show "x \<in> (\<lambda>k. p + int k) ` {0..<n}" by (rule image_eqI)
qed auto

definition next_pos :: "mem_view option \<Rightarrow> llama_pos" where
  "next_pos memory = (case memory of None \<Rightarrow> 0 | Some m \<Rightarrow> mv_seq_pos_max m 0 + 1)"

lemma autogen_get_one:
  fixes memory output_all tokens n
  assumes "0 < n"
  defines "b \<equiv> init_autogen memory output_all (llama_batch_get_one tokens (int n))"
  shows "n_tok b = n" "b_token b = Some tokens" "\<And>i. i < n \<Longrightarrow> tok_seqs b i = [0]"
    and "b_pos b = Some (map (\<lambda>k. next_pos memory + int k) [0..<n])"
    and "b_logits b = Some (if output_all then replicate n 1 else (replicate n 0)[n - 1 := 1])"
proof -
  let ?g = "llama_batch_get_one tokens (int n)"
  have ok: "batch_inp_ok ?g" and n: "n_tok ?g = n" by (simp_all add: llama_batch_get_one_def batch_inp_ok_def n_tok_def)
  show "n_tok b = n" "b_token b = Some tokens" using n by (simp_all add: b_def init_autogen_def llama_batch_get_one_def)
  show t: "\<And>i. i < n \<Longrightarrow> tok_seqs b i = [0]"
    unfolding b_def using autogen_seqs(1) [OF ok] n by (simp add: llama_batch_get_one_def)
  let ?c = "gen_seq_id (gen_n_seq_id ?g)"
  have c: "b_seq_id ?c = Some (replicate n [0])" "b_pos ?c = None" "n_tok ?c = n" "b_n_seq_id ?c = Some (replicate n 1)"
    using n by (simp_all add: gen_seq_id_def gen_n_seq_id_def llama_batch_get_one_def n_tok_def)
  have "gen_pos_from ?c [0..<n] p0 = map (\<lambda>k. p0 0 + int k) [0..<n]" for p0
    using gen_pos_from_single [of "[0..<n]" ?c p0] by (simp add: c tok_seqs_def)
  then show "b_pos b = Some (map (\<lambda>k. next_pos memory + int k) [0..<n])"
    by (simp add: b_def init_autogen_def gen_pos_def c n Let_def next_pos_def split: option.splits)
  show "b_logits b = Some (if output_all then replicate n 1 else (replicate n 0)[n - 1 := 1])"
    using n by (simp add: b_def init_autogen_def gen_logits_def gen_pos_def gen_seq_id_def gen_n_seq_id_def
        llama_batch_get_one_def n_tok_def Let_def split: option.splits)
qed

lemma get_one_accepted:
  assumes "0 < n" "\<forall>i < n. 0 \<le> tokens ! i \<and> tokens ! i < int n_vocab"
    and "0 < n_seq_max" "n_seq_max \<le> LLAMA_MAX_SEQ" "ba_n_pos_per_embd a \<le> 1"
    and "length (ba_seq_pos a) = LLAMA_MAX_SEQ" "\<forall>m. memory = Some m \<longrightarrow> mv_seq_pos_max m 0 \<ge> -1"
  shows "\<exists>a'. allocr_init n_vocab memory n_embd n_seq_max output_all (llama_batch_get_one tokens (int n)) a = Inr (True, a')
    \<and> allocr_wf a' \<and> get_n_tokens a' = n
    \<and> arr (b_pos (ba_batch a')) = map (\<lambda>k. next_pos memory + int k) [0..<n]
    \<and> (\<forall>i < n. tok_seqs (ba_batch a') i = [0]) \<and> \<not> ba_has_cpl a'
    \<and> get_n_outputs a' = (if output_all then n else 1)"
proof -
  let ?g = "llama_batch_get_one tokens (int n)"
  define b where "b = init_autogen memory output_all ?g"
  define a1 where "a1 = init_stats n_embd n_seq_max ((allocr_clear a)\<lparr>ba_batch := b\<rparr>)"
  note f = init_stats_facts [OF assms(6), of n_embd n_seq_max b, folded a1_def]
  note g = autogen_get_one [OF assms(1), where memory = memory and output_all = output_all and tokens = tokens, folded b_def]
  let ?p = "next_pos memory"
  have np: "?p \<ge> 0" "mem_pos_max memory 0 = ?p - 1 \<or> mem_pos_max memory 0 = -1 \<and> ?p = 0"
    using assms(7) by (auto simp: next_pos_def mem_pos_max_def split: option.splits)
  have sp: "ba_seq_pos a1 ! t = (if t = 0 then {?p..<?p + int n} else {})" if "t < LLAMA_MAX_SEQ" for t
  proof -
    have "(!) (map (\<lambda>k. ?p + int k) [0..<n]) ` {0..<n} = (\<lambda>k. ?p + int k) ` {0..<n}"
      by (rule image_cong) simp_all
    then have "(!) (map (\<lambda>k. ?p + int k) [0..<n]) ` {0..<n} = {?p..<?p + int n}"
      by (simp only: image_add_int)
    moreover have "{i. i < n_tok b \<and> t \<in> nat ` set (tok_seqs b i)} = (if t = 0 then {0..<n} else {})"
      using g(1,3) by auto
    ultimately show ?thesis using that by (simp add: f g(4))
  qed
  have plain: "check_seq_plain memory a1 (int s)" if "s < n_seq_max" for s
  proof -
    have "Min {?p..<?p + int n} = ?p" "Max {?p..<?p + int n} = ?p + int n - 1"
      using assms(1) by (auto intro!: Min_eqI Max_eqI)
    then show ?thesis using sp [of s] sp [of 0] that assms(1,4) np
      by (auto simp: check_seq_plain_def Let_def allocr_seq_pos_min_def allocr_seq_pos_max_def LLAMA_MAX_SEQ_def)
  qed
  have pos: "check_positions memory a1" using plain assms(5) by (simp add: check_positions_def f)
  have "cpl_pairs b i = {}" if "i < n" for i using g(3) [OF that] by (simp add: cpl_pairs_def)
  then have "ba_seq_cpl a1 = {}" using g(1) by (simp add: f)
  then have cpl: "check_coupled memory a1" by (simp add: check_coupled_def split: option.splits)
  have ord: "check_order a1"
  proof -
    have "check_tokens a1 [0..<n] ((\<lambda>_. all_seqs), (\<lambda>_. -1))"
      by (subst check_tokens_iff) (use g np in \<open>auto simp: f all_seqs_def LLAMA_MAX_SEQ_def sorted_wrt_iff_nth_less\<close>)
    then show ?thesis by (simp add: check_order_def get_n_tokens_def f g(1))
  qed
  have val: "init_validate n_vocab n_seq_max ?g"
    using assms(2,4) by (auto simp: init_validate_def llama_batch_get_one_def n_tok_def)
  have init: "allocr_init n_vocab memory n_embd n_seq_max output_all ?g a = Inr (True, split_reset a1)"
    using assms(1) val pos cpl ord unfolding init_True_iff a1_def b_def by (simp add: Let_def llama_batch_get_one_def)
  have wf: "allocr_wf (split_reset a1)" unfolding a1_def by (rule init_allocr_wf [OF assms(6)]) (use g in auto)
  have out: "get_n_outputs (split_reset a1) = (if output_all then n else 1)"
  proof -
    have "filter (\<lambda>i. (replicate n (0::int))[n - 1 := 1] ! i \<noteq> 0) [0..<n] = [n - 1]"
    proof -
      obtain m where m: "n = Suc m" using assms(1) by (cases n) auto
      have "filter (\<lambda>i. (replicate n (0::int))[n - 1 := 1] ! i \<noteq> 0) [0..<m] = []"
        by (rule filter_False) (simp add: m nth_list_update del: replicate_Suc)
      then show ?thesis by (simp add: m nth_list_update del: replicate_Suc)
    qed
    moreover have "filter (\<lambda>i. replicate n (1::int) ! i \<noteq> 0) [0..<n] = [0..<n]" by (simp add: filter_id_conv)
    ultimately show ?thesis by (simp add: get_n_outputs_def split_reset_def f g del: upt_Suc)
  qed
  have "\<not> ba_has_cpl a1" using g by (simp add: f)
  then show ?thesis using init wf out g
    by (intro exI [of _ "split_reset a1"]) (simp add: f split_reset_def get_n_tokens_def)
qed

text \<open>A batch of valid tokens from \<open>llama_batch_get_one\<close> is always accepted: \<open>init\<close> returns true,
  the positions continue sequence 0 of the memory without a gap, every token belongs to sequence 0
  alone, and exactly one output is requested unless all are.\<close>

theorem init_accepts_get_one:
  assumes "0 < n" "\<forall>i < n. 0 \<le> tokens ! i \<and> tokens ! i < int n_vocab"
    and "0 < n_seq_max" "n_seq_max \<le> LLAMA_MAX_SEQ" "ba_n_pos_per_embd a \<le> 1"
    and "length (ba_seq_pos a) = LLAMA_MAX_SEQ" "\<forall>m. memory = Some m \<longrightarrow> mv_seq_pos_max m 0 \<ge> -1"
  shows "\<exists>a'. allocr_init n_vocab memory n_embd n_seq_max output_all (llama_batch_get_one tokens (int n)) a = Inr (True, a')
    \<and> allocr_wf a' \<and> get_n_tokens a' = n
    \<and> arr (b_pos (ba_batch a')) = map (\<lambda>k. next_pos memory + int k) [0..<n]
    \<and> (\<forall>i < n. tok_seqs (ba_batch a') i = [0]) \<and> \<not> ba_has_cpl a'
    \<and> get_n_outputs a' = (if output_all then n else 1)"
  by (rule get_one_accepted [OF assms])


subsection \<open>Concrete batches\<close>

text \<open>Five text tokens of three sequences, and their state after \<open>init\<close> without a memory.\<close>

definition demo_batch :: llama_batch where
  "demo_batch = \<lparr>b_n_tokens = 5, b_token = Some [11, 12, 13, 14, 15], b_embd = None, b_pos = Some [0, 0, 1, 0, 1],
     b_n_seq_id = Some [1, 1, 1, 1, 1], b_seq_id = Some [[0], [1], [0], [2], [1]], b_logits = Some [0, 0, 1, 1, 1]\<rparr>"

definition demo_allocr :: batch_allocr where
  "demo_allocr = split_reset (init_stats 8 4 ((allocr_clear (allocr_new 1))\<lparr>ba_batch := demo_batch\<rparr>))"

lemma allocr_new_seq_pos: "length (ba_seq_pos (allocr_new k)) = LLAMA_MAX_SEQ"
  by (simp add: allocr_new_def)

lemmas demo_facts = init_stats_facts [OF allocr_new_seq_pos, where e = 8 and m = 4 and b = demo_batch]

lemma demo_tokens: "n_tok demo_batch = 5" by (simp add: demo_batch_def n_tok_def)

lemma demo_allocr_wf: "allocr_wf demo_allocr"
  unfolding demo_allocr_def
proof (rule init_allocr_wf [OF allocr_new_seq_pos])
  fix i assume "i < n_tok demo_batch"
  then have "i \<in> {0, 1, 2, 3, 4}" by (auto simp: demo_tokens)
  then show "tok_seqs demo_batch i \<noteq> []" by (auto simp: demo_batch_def tok_seqs_def)
qed


lemma split_reset_idem [simp]: "split_reset (split_reset a) = split_reset a"
  by (simp add: split_reset_def get_n_tokens_def)

lemma demo_reset: "split_reset demo_allocr = demo_allocr"
  by (simp add: demo_allocr_def)

lemma demo_get_n_tokens: "get_n_tokens demo_allocr = 5"
  by (simp add: demo_allocr_def split_reset_def get_n_tokens_def demo_facts demo_tokens)

lemma demo_no_cpl: "\<not> ba_has_cpl demo_allocr"
  by code_simp

theorem ubatch_add_gathers_witness:
  "ub_token (fst (ubatch_add [1, 3] 2 True demo_allocr)) = Some [12, 14]
   \<and> ub_seq_id (fst (ubatch_add [1, 3] 2 True demo_allocr)) = [[1], [2]]"
proof -
  have n: "ba_n_seq_max demo_allocr = 4" and b: "ba_batch demo_allocr = demo_batch"
    by (simp_all add: demo_allocr_def split_reset_def demo_facts)
  show ?thesis
    using ubatch_add_gathers [of demo_allocr "[1, 3]" 2 True, OF _ refl]
    by (simp add: n b LLAMA_MAX_SEQ_def) (simp add: demo_batch_def tok_seqs_def)
qed

theorem split_simple_partitions_in_order_witness:
  "allocr_wf demo_allocr \<and> (\<exists>runs a'. split_all (\<lambda>a. Inr (split_simple 3 a)) demo_allocr
      = Some (Inr (map (\<lambda>idxs. fst (ubatch_add idxs (length idxs) False demo_allocr)) runs, a'))
    \<and> concat runs = [0..<5] \<and> get_n_used a' = 5)"
  using split_simple_partitions_in_order [of demo_allocr 3] demo_allocr_wf
  by (auto simp: demo_reset demo_get_n_tokens)

theorem split_seq_partitions_in_chains_witness:
  "allocr_wf demo_allocr \<and> (\<exists>chains a'. split_all (\<lambda>a. Inr (split_seq 3 a)) demo_allocr
      = Some (Inr (map (\<lambda>idxs. fst (ubatch_add idxs 1 True demo_allocr)) chains, a'))
    \<and> mset (concat chains) = mset [0..<5])"
  using split_seq_partitions_in_chains [of demo_allocr 3] demo_allocr_wf
  by (auto simp: demo_reset demo_get_n_tokens)

theorem split_equal_partitions_witness:
  "allocr_wf demo_allocr \<and> (\<exists>sels a'. split_all (split_equal 4 True 1) demo_allocr
      = Some (Inr (map (\<lambda>(idxs, k). fst (ubatch_add idxs k True demo_allocr)) sels, a'))
    \<and> mset (concat (map fst sels)) = mset [0..<5] \<and> get_n_used a' = 5)"
  using split_equal_partitions [of demo_allocr True 1 4] demo_allocr_wf demo_no_cpl
  by (auto simp: demo_reset demo_get_n_tokens)

theorem split_equal_keeps_tail_witness:
  "allocr_wf demo_allocr \<and> \<not> ba_has_cpl demo_allocr \<and> (\<exists>sels a'. split_all (split_equal 4 True 2) demo_allocr
      = Some (Inr (map (\<lambda>(idxs, k). fst (ubatch_add idxs k True demo_allocr)) sels, a')))"
  using split_equal_keeps_tail [of demo_allocr True 2 4] demo_allocr_wf demo_no_cpl
  by (auto simp: demo_reset)

lemma demo_init: "allocr_init 100 None 8 4 False demo_batch (allocr_new 1) = Inr (True, demo_allocr)"
proof -
  have "init_autogen None False demo_batch = demo_batch"
    by (simp add: init_autogen_def gen_logits_def gen_pos_def gen_seq_id_def gen_n_seq_id_def demo_batch_def)
  moreover have "init_validate 100 4 demo_batch" by code_simp
  moreover have "check_positions None (init_stats 8 4 ((allocr_clear (allocr_new 1))\<lparr>ba_batch := demo_batch\<rparr>))"
    "check_coupled None (init_stats 8 4 ((allocr_clear (allocr_new 1))\<lparr>ba_batch := demo_batch\<rparr>))"
    "check_order (init_stats 8 4 ((allocr_clear (allocr_new 1))\<lparr>ba_batch := demo_batch\<rparr>))" by code_simp+
  moreover have "b_n_tokens demo_batch > 0" by (simp add: demo_batch_def)
  ultimately show ?thesis unfolding init_True_iff demo_allocr_def Let_def by simp
qed

theorem init_accepts_only_continuations_witness:
  "allocr_init 100 None 8 4 False demo_batch (allocr_new 1) = Inr (True, demo_allocr)
   \<and> (\<forall>s. let P = batch_positions (ba_batch demo_allocr) s in P \<noteq> {} \<longrightarrow> P = {Min P..Max P})"
proof -
  have "batch_inp_ok demo_batch" by (auto simp: batch_inp_ok_def demo_batch_def n_tok_def less_Suc_eq numeral_eq_Suc)
  then show ?thesis
    using init_accepts_only_continuations [OF demo_init] demo_init by (simp add: allocr_new_def Let_def)
qed

theorem init_accepts_get_one_witness:
  "\<exists>a'. allocr_init 100 (Some \<lparr>mv_seq_pos_min = (\<lambda>_. 0), mv_seq_pos_max = (\<lambda>_. 6)\<rparr>) 8 4 False (llama_batch_get_one [3, 4, 5] 3) (allocr_new 1)
      = Inr (True, a') \<and> arr (b_pos (ba_batch a')) = [7, 8, 9]"
proof -
  have "\<forall>i < (3::nat). 0 \<le> [3, 4, 5 :: int] ! i \<and> [3, 4, 5 :: int] ! i < int 100"
    by (auto simp: less_Suc_eq numeral_eq_Suc)
  then show ?thesis
    using init_accepts_get_one [of 3 "[3, 4, 5]" 100 4 "allocr_new 1" "Some \<lparr>mv_seq_pos_min = (\<lambda>_. 0), mv_seq_pos_max = (\<lambda>_. 6)\<rparr>" 8 False]
    by (auto simp: allocr_new_def LLAMA_MAX_SEQ_def next_pos_def upt_rec)
qed

subsection \<open>Where the code does less than its comments say\<close>

text \<open>\<open>split_equal\<close> stops collecting sequence sets only when it has more than \<open>n_ubatch\<close> of them, so three
  sequences and \<open>n_ubatch = 2\<close> give an ubatch of three tokens.\<close>

theorem split_equal_exceeds_n_ubatch:
  "allocr_wf demo_allocr \<and> map_sum id fst (split_equal_idxs 2 True 0 demo_allocr) = Inr [0, 1, 3]"
proof
  show "map_sum id fst (split_equal_idxs 2 True 0 demo_allocr) = Inr [0, 1, 3]" by code_simp
qed (rule demo_allocr_wf)

text \<open>The batch shape that the comment in \<open>init\<close> calls invalid (partial sequence sub-sets) is accepted.\<close>

definition subset_batch :: llama_batch where
  "subset_batch = \<lparr>b_n_tokens = 3, b_token = Some [1, 2, 3], b_embd = None, b_pos = Some [0, 1, 1],
     b_n_seq_id = Some [3, 2, 2], b_seq_id = Some [[0, 1, 2], [0, 1], [1, 2]], b_logits = None\<rparr>"

theorem init_accepts_partial_subsets:
  "map_sum id fst (allocr_init 100 None 8 4 False subset_batch (allocr_new 1)) = Inr True"
  by code_simp

end
