(* ===== verification/KV_Cells.thy ===== *)
theory KV_Cells
  imports Prelude
begin

section \<open>The KV cell array (\<^verbatim>\<open>src/llama-kv-cells.h\<close>)\<close>

text \<open>
  \<open>llama_kv_cells\<close> keeps the metadata of one stream of the KV cache: for every cell its position,
  the set of sequences that share it, the accumulated position shift and extra data. Two members
  are indices derived from that data and maintained incrementally: \<open>used\<close>, the set of non-empty
  cells, and \<open>seq_pos\<close>, for each sequence a counting map of the positions it holds.

  The record keeps the class's members (prefixed \<open>c_\<close>); every public and private method is one
  definition. \<open>std::bitset<LLAMA_MAX_SEQ>\<close> is a set of sequence ids, \<open>std::set<uint32_t>\<close> a set of
  indices, \<open>std::map<llama_pos, int>\<close> a partial function. The invariant \<open>cells_wf\<close> says that the
  two indices agree with the cells and that empty cells hold no data; each operation is shown to
  preserve it and to act on the per-cell view \<open>cells_list\<close> at one index only.
\<close>

subsection \<open>Data\<close>

record kv_cell_ext =
  ext_x :: llama_pos
  ext_y :: llama_pos
  ext_tok :: llama_token

type_synonym cell_ext = kv_cell_ext

definition ext_default :: kv_cell_ext where
  "ext_default = \<lparr>ext_x = 0, ext_y = 0, ext_tok = LLAMA_TOKEN_NULL\<rparr>"

definition is_2d_gt :: "kv_cell_ext \<Rightarrow> llama_pos \<Rightarrow> llama_pos \<Rightarrow> bool" where
  "is_2d_gt e ox oy = (ext_y e > oy \<or> (ext_y e = oy \<and> ext_x e > ox))"

text \<open>\<open>llama_kv_cell_shift\<close> is an array of four positions, \<open>[t, y, x, other]\<close>.\<close>

record kv_cell_shift =
  sh_t :: llama_pos
  sh_y :: llama_pos
  sh_x :: llama_pos
  sh_other :: llama_pos

definition shift_zero :: kv_cell_shift where
  "shift_zero = \<lparr>sh_t = 0, sh_y = 0, sh_x = 0, sh_other = 0\<rparr>"

definition shift_axis :: "kv_cell_shift \<Rightarrow> nat \<Rightarrow> llama_pos" where
  "shift_axis d dim = [sh_t d, sh_y d, sh_x d, sh_other d] ! dim"

definition shift_is_zero :: "kv_cell_shift \<Rightarrow> bool" where
  "shift_is_zero d = (d = shift_zero)"

record kv_cells =
  c_has_shift :: bool
  c_used :: "nat set"
  c_pos :: "llama_pos list"
  c_ext :: "kv_cell_ext list"
  c_shift :: "kv_cell_shift list"
  c_seq :: "llama_seq_id set list"
  c_seq_pos :: "llama_seq_id \<Rightarrow> llama_pos \<Rightarrow> nat option"

subsection \<open>Private helpers: the position index\<close>

text \<open>\<open>seq_pos_dec\<close> finds the entry of \<open>p\<close> (the source asserts that there is one), decrements it
  and erases it at zero; \<open>seq_pos_inc\<close> is \<open>seq_pos[s][p]++\<close>, which creates a missing entry as 0.\<close>

definition map_dec :: "(llama_pos \<rightharpoonup> nat) \<Rightarrow> llama_pos \<Rightarrow> (llama_pos \<rightharpoonup> nat)" where
  "map_dec m p = (case m p of
      None \<Rightarrow> m
    | Some k \<Rightarrow> if k - 1 = 0 then m(p := None) else m(p \<mapsto> k - 1))"

definition map_inc :: "(llama_pos \<rightharpoonup> nat) \<Rightarrow> llama_pos \<Rightarrow> (llama_pos \<rightharpoonup> nat)" where
  "map_inc m p = m(p \<mapsto> (case m p of None \<Rightarrow> 0 | Some k \<Rightarrow> k) + 1)"

definition seq_pos_dec :: "llama_seq_id \<Rightarrow> llama_pos \<Rightarrow> kv_cells \<Rightarrow> kv_cells" where
  "seq_pos_dec s p c = c\<lparr>c_seq_pos := (c_seq_pos c)(s := map_dec (c_seq_pos c s) p)\<rparr>"

definition seq_pos_inc :: "llama_seq_id \<Rightarrow> llama_pos \<Rightarrow> kv_cells \<Rightarrow> kv_cells" where
  "seq_pos_inc s p c = c\<lparr>c_seq_pos := (c_seq_pos c)(s := map_inc (c_seq_pos c s) p)\<rparr>"

definition all_seq_ids :: "llama_seq_id list" where
  "all_seq_ids = map int [0..<LLAMA_MAX_SEQ]"

definition seq_pos_rm :: "nat \<Rightarrow> kv_cells \<Rightarrow> kv_cells" where
  "seq_pos_rm i c =
     fold (\<lambda>s c. if s \<in> c_seq c ! i then seq_pos_dec s (c_pos c ! i) c else c) all_seq_ids c"

definition seq_pos_add :: "nat \<Rightarrow> kv_cells \<Rightarrow> kv_cells" where
  "seq_pos_add i c =
     fold (\<lambda>s c. if s \<in> c_seq c ! i then seq_pos_inc s (c_pos c ! i) c else c) all_seq_ids c"

subsection \<open>Whole-array operations\<close>

definition cells_size :: "kv_cells \<Rightarrow> nat" where
  "cells_size c = length (c_pos c)"

definition cells_reset :: "kv_cells \<Rightarrow> kv_cells" where
  "cells_reset c = c\<lparr>
     c_pos := map (\<lambda>_. -1) (c_pos c),
     c_ext := map (\<lambda>_. ext_default) (c_ext c),
     c_shift := map (\<lambda>_. shift_zero) (c_shift c),
     c_seq := map (\<lambda>_. {}) (c_seq c),
     c_has_shift := False,
     c_used := {},
     c_seq_pos := (\<lambda>s. if 0 \<le> s \<and> s < int LLAMA_MAX_SEQ then Map.empty else c_seq_pos c s)\<rparr>"

definition reset_shift :: "kv_cells \<Rightarrow> kv_cells" where
  "reset_shift c = c\<lparr>c_has_shift := False, c_shift := map (\<lambda>_. shift_zero) (c_shift c)\<rparr>"

text \<open>\<open>std::vector::resize\<close>: truncate, or pad with value-initialised elements.\<close>

definition vec_resize :: "nat \<Rightarrow> 'a \<Rightarrow> 'a list \<Rightarrow> 'a list" where
  "vec_resize n d xs = take n xs @ replicate (n - length xs) d"

definition cells_resize :: "nat \<Rightarrow> kv_cells \<Rightarrow> kv_cells" where
  "cells_resize n c = cells_reset (c\<lparr>
     c_pos := vec_resize n 0 (c_pos c),
     c_ext := vec_resize n ext_default (c_ext c),
     c_shift := vec_resize n shift_zero (c_shift c),
     c_seq := vec_resize n {} (c_seq c)\<rparr>)"

text \<open>A default-constructed object: empty vectors, no flags.\<close>

definition cells_new :: kv_cells where
  "cells_new = \<lparr>c_has_shift = False, c_used = {}, c_pos = [], c_ext = [], c_shift = [],
                c_seq = [], c_seq_pos = (\<lambda>_. Map.empty)\<rparr>"

subsection \<open>Queries\<close>

definition cells_is_empty :: "kv_cells \<Rightarrow> nat \<Rightarrow> bool" where
  "cells_is_empty c i = (c_pos c ! i = -1)"

definition get_used :: "kv_cells \<Rightarrow> nat" where
  "get_used c = card (c_used c)"

definition used_min :: "kv_cells \<Rightarrow> nat" where
  "used_min c = (if c_used c = {} then 0 else Min (c_used c))"

definition used_max_p1 :: "kv_cells \<Rightarrow> nat" where
  "used_max_p1 c = (if c_used c = {} then 0 else Max (c_used c) + 1)"

definition get_has_shift :: "kv_cells \<Rightarrow> bool" where
  "get_has_shift c = c_has_shift c"

definition seq_count :: "kv_cells \<Rightarrow> nat \<Rightarrow> nat" where
  "seq_count c i = card (c_seq c ! i)"

definition seq_has :: "kv_cells \<Rightarrow> nat \<Rightarrow> llama_seq_id \<Rightarrow> bool" where
  "seq_has c i s = (s \<in> c_seq c ! i)"

definition seq_get :: "kv_cells \<Rightarrow> nat \<Rightarrow> llama_seq_id" where
  "seq_get c i = (case find (\<lambda>s. s \<in> c_seq c ! i) all_seq_ids of Some s \<Rightarrow> s | None \<Rightarrow> -1)"

definition seq_token_count :: "kv_cells \<Rightarrow> llama_seq_id \<Rightarrow> nat" where
  "seq_token_count c s =
     (if s < 0 then get_used c else card {i \<in> c_used c. s \<in> c_seq c ! i})"

definition cells_seq_pos_min :: "kv_cells \<Rightarrow> llama_seq_id \<Rightarrow> llama_pos" where
  "cells_seq_pos_min c s =
     (if c_seq_pos c s = Map.empty then -1 else Min (dom (c_seq_pos c s)))"

definition cells_seq_pos_max :: "kv_cells \<Rightarrow> llama_seq_id \<Rightarrow> llama_pos" where
  "cells_seq_pos_max c s =
     (if c_seq_pos c s = Map.empty then -1 else Max (dom (c_seq_pos c s)))"

definition pos_get :: "kv_cells \<Rightarrow> nat \<Rightarrow> llama_pos" where
  "pos_get c i = c_pos c ! i"

definition ext_get :: "kv_cells \<Rightarrow> nat \<Rightarrow> kv_cell_ext" where
  "ext_get c i = c_ext c ! i"

definition get_shift :: "kv_cells \<Rightarrow> nat \<Rightarrow> llama_pos" where
  "get_shift c i = sh_t (c_shift c ! i)"

definition get_shift_dim :: "kv_cells \<Rightarrow> nat \<Rightarrow> nat \<Rightarrow> llama_pos" where
  "get_shift_dim c i dim = shift_axis (c_shift c ! i) dim"

definition get_shift_ext :: "kv_cells \<Rightarrow> nat \<Rightarrow> kv_cell_shift" where
  "get_shift_ext c i = c_shift c ! i"

definition pos_in :: "kv_cells \<Rightarrow> nat \<Rightarrow> llama_pos \<Rightarrow> llama_pos \<Rightarrow> bool" where
  "pos_in c i p0 p1 = (c_pos c ! i \<ge> p0 \<and> c_pos c ! i < p1)"

text \<open>The callback of \<open>for_each_token_in\<close> receives the pairs of the cells in the order of the
  index set \<open>used\<close> and, in a cell, of the sequence ids: the model returns that list.\<close>

definition for_each_token_in ::
  "kv_cells \<Rightarrow> llama_seq_id set \<Rightarrow> llama_pos \<Rightarrow> llama_pos \<Rightarrow> (llama_seq_id \<times> llama_pos \<times> llama_token) list" where
  "for_each_token_in c seqs p0 p1 =
     concat (map (\<lambda>i. if c_pos c ! i < p0 \<or> c_pos c ! i \<ge> p1 then []
                      else map (\<lambda>s. (s, c_pos c ! i, ext_tok (c_ext c ! i)))
                             (filter (\<lambda>s. s \<in> c_seq c ! i \<inter> seqs) all_seq_ids))
                 (sorted_list_of_set (c_used c)))"

subsection \<open>Operations on one cell\<close>

definition cells_rm :: "nat \<Rightarrow> kv_cells \<Rightarrow> kv_cells" where
  "cells_rm i c = (let c = seq_pos_rm i c in c\<lparr>
     c_seq := (c_seq c)[i := {}],
     c_pos := (c_pos c)[i := -1],
     c_ext := (c_ext c)[i := ext_default],
     c_shift := (c_shift c)[i := shift_zero],
     c_used := c_used c - {i}\<rparr>)"

definition cells_seq_rm :: "nat \<Rightarrow> llama_seq_id \<Rightarrow> kv_cells \<Rightarrow> bool \<times> kv_cells" where
  "cells_seq_rm i s c =
     (let c = c\<lparr>c_seq := (c_seq c)[i := c_seq c ! i - {s}]\<rparr>;
          c = seq_pos_dec s (c_pos c ! i) c
      in if c_seq c ! i = {}
         then (True, c\<lparr>c_pos := (c_pos c)[i := -1],
                       c_ext := (c_ext c)[i := ext_default],
                       c_shift := (c_shift c)[i := shift_zero],
                       c_used := c_used c - {i}\<rparr>)
         else (False, c))"

definition cells_seq_keep :: "nat \<Rightarrow> llama_seq_id \<Rightarrow> kv_cells \<Rightarrow> bool \<times> kv_cells" where
  "cells_seq_keep i s c =
     (if s \<in> c_seq c ! i then
        (let c = seq_pos_rm i c;
             c = c\<lparr>c_seq := (c_seq c)[i := {}]\<rparr>;
             c = c\<lparr>c_seq := (c_seq c)[i := insert s (c_seq c ! i)]\<rparr>;
             c = seq_pos_inc s (c_pos c ! i) c
         in (False, c))
      else if c_seq c ! i \<noteq> {} then
        (let c = seq_pos_rm i c;
             c = c\<lparr>c_seq := (c_seq c)[i := {}],
                   c_pos := (c_pos c)[i := -1],
                   c_ext := (c_ext c)[i := ext_default],
                   c_shift := (c_shift c)[i := shift_zero],
                   c_used := c_used c - {i}\<rparr>
         in (True, c))
      else (False, c))"

definition cells_seq_add :: "nat \<Rightarrow> llama_seq_id \<Rightarrow> kv_cells \<Rightarrow> kv_cells" where
  "cells_seq_add i s c =
     (let c = c\<lparr>c_seq := (c_seq c)[i := insert s (c_seq c ! i)]\<rparr>
      in seq_pos_inc s (c_pos c ! i) c)"

definition pos_set :: "nat \<Rightarrow> llama_pos \<Rightarrow> kv_cells \<Rightarrow> kv_cells" where
  "pos_set i p c = c\<lparr>c_pos := (c_pos c)[i := p], c_used := insert i (c_used c)\<rparr>"

definition ext_set :: "nat \<Rightarrow> kv_cell_ext \<Rightarrow> kv_cells \<Rightarrow> kv_cells" where
  "ext_set i e c = c\<lparr>c_ext := (c_ext c)[i := e]\<rparr>"

definition ext_move :: "kv_cell_shift \<Rightarrow> kv_cell_ext \<Rightarrow> kv_cell_ext" where
  "ext_move d e = e\<lparr>ext_y := ext_y e + sh_y d, ext_x := ext_x e + sh_x d\<rparr>"

definition shift_plus :: "kv_cell_shift \<Rightarrow> kv_cell_shift \<Rightarrow> kv_cell_shift" where
  "shift_plus a d = \<lparr>sh_t = sh_t a + sh_t d, sh_y = sh_y a + sh_y d,
                     sh_x = sh_x a + sh_x d, sh_other = sh_other a + sh_other d\<rparr>"

definition pos_shift :: "nat \<Rightarrow> kv_cell_shift \<Rightarrow> kv_cells \<Rightarrow> bool \<times> kv_cells" where
  "pos_shift i d c =
     (let c = seq_pos_rm i c;
          c = c\<lparr>c_pos := (c_pos c)[i := c_pos c ! i + sh_t d],
                c_ext := (c_ext c)[i := ext_move d (c_ext c ! i)],
                c_shift := (c_shift c)[i := shift_plus (c_shift c ! i) d],
                c_has_shift := True\<rparr>
      in if c_pos c ! i < 0
         then (True, c\<lparr>c_seq := (c_seq c)[i := {}],
                       c_pos := (c_pos c)[i := -1],
                       c_ext := (c_ext c)[i := ext_default],
                       c_shift := (c_shift c)[i := shift_zero],
                       c_used := c_used c - {i}\<rparr>)
         else (False, seq_pos_add i c))"

definition shift_delta :: "llama_pos \<Rightarrow> bool \<Rightarrow> kv_cell_shift" where
  "shift_delta d shift_ext =
     (let delta = shift_zero\<lparr>sh_t := d\<rparr>
      in if shift_ext then delta\<lparr>sh_y := d, sh_x := d\<rparr> else delta)"

definition pos_add :: "nat \<Rightarrow> llama_pos \<Rightarrow> bool \<Rightarrow> kv_cells \<Rightarrow> bool \<times> kv_cells" where
  "pos_add i d shift_ext c = pos_shift i (shift_delta d shift_ext) c"

definition pos_div :: "nat \<Rightarrow> int \<Rightarrow> kv_cells \<Rightarrow> kv_cells" where
  "pos_div i d c =
     (let p_old = c_pos c ! i;
          c = seq_pos_rm i c;
          c = c\<lparr>c_pos := (c_pos c)[i := cdiv (c_pos c ! i) d]\<rparr>;
          c = c\<lparr>c_shift := (c_shift c)[i :=
                 (c_shift c ! i)\<lparr>sh_t := sh_t (c_shift c ! i) + (p_old - c_pos c ! i)\<rparr>]\<rparr>;
          c = seq_pos_add i c
      in c\<lparr>c_has_shift := True\<rparr>)"

subsection \<open>Save and restore of selected cells\<close>

definition cells_cp_range :: "kv_cells \<Rightarrow> nat \<Rightarrow> nat \<Rightarrow> kv_cells" where
  "cells_cp_range c i n = (let res = cells_resize n cells_new in
     fold (\<lambda>j res. res\<lparr>c_pos := (c_pos res)[j := c_pos c ! (i + j)],
                        c_ext := (c_ext res)[j := c_ext c ! (i + j)],
                        c_seq := (c_seq res)[j := c_seq c ! (i + j)]\<rparr>) [0..<n] res)"

definition cells_cp :: "kv_cells \<Rightarrow> nat list \<Rightarrow> kv_cells" where
  "cells_cp c idxs = (let res = cells_resize (length idxs) cells_new in
     fold (\<lambda>j res. res\<lparr>c_pos := (c_pos res)[j := c_pos c ! (idxs ! j)],
                        c_ext := (c_ext res)[j := c_ext c ! (idxs ! j)],
                        c_seq := (c_seq res)[j := c_seq c ! (idxs ! j)]\<rparr>) [0..<length idxs] res)"

text \<open>The body shared by the two \<open>set\<close> overloads: overwrite cell \<open>idx\<close> by cell \<open>j\<close> of \<open>other\<close>.\<close>

definition cells_set1 :: "nat \<Rightarrow> nat \<Rightarrow> kv_cells \<Rightarrow> kv_cells \<Rightarrow> kv_cells" where
  "cells_set1 idx j other c =
     (let c = (if c_pos c ! idx = -1 \<and> c_pos other ! j \<noteq> -1
               then c\<lparr>c_used := insert idx (c_used c)\<rparr> else c);
          c = (if c_pos c ! idx \<noteq> -1 \<and> c_pos other ! j = -1
               then c\<lparr>c_used := c_used c - {idx}\<rparr> else c);
          c = (if c_pos c ! idx \<noteq> -1 then seq_pos_rm idx c else c);
          c = c\<lparr>c_pos := (c_pos c)[idx := c_pos other ! j],
                c_ext := (c_ext c)[idx := c_ext other ! j],
                c_seq := (c_seq c)[idx := c_seq other ! j]\<rparr>
      in if c_pos c ! idx \<noteq> -1 then seq_pos_add idx c else c)"

definition cells_set_range :: "nat \<Rightarrow> kv_cells \<Rightarrow> kv_cells \<Rightarrow> kv_cells" where
  "cells_set_range i other c =
     fold (\<lambda>j c. cells_set1 (i + j) j other c) [0..<length (c_pos other)] c"

definition cells_set :: "nat list \<Rightarrow> kv_cells \<Rightarrow> kv_cells \<Rightarrow> kv_cells" where
  "cells_set idxs other c =
     fold (\<lambda>j c. cells_set1 (idxs ! j) j other c) [0..<length (c_pos other)] c"

subsection \<open>The abstract cell array and the invariant\<close>

text \<open>
  Abstractly a cell array is the list of its cells and the flag \<open>has_shift\<close>; \<open>mk_cells\<close> is the
  concrete object that represents it, with \<open>used\<close> and \<open>seq_pos\<close> computed from the cells. An object
  is well formed when it is such a representation: then the incremental indices are exact. Every
  operation is a change of one element of the list.
\<close>

record kv_cell =
  k_pos :: llama_pos
  k_ext :: kv_cell_ext
  k_shift :: kv_cell_shift
  k_seq :: "llama_seq_id set"

definition cell_empty :: kv_cell where
  "cell_empty = \<lparr>k_pos = -1, k_ext = ext_default, k_shift = shift_zero, k_seq = {}\<rparr>"

definition valid_seqs :: "llama_seq_id set" where
  "valid_seqs = {0..<int LLAMA_MAX_SEQ}"

definition cell_ok :: "kv_cell \<Rightarrow> bool" where
  "cell_ok k \<longleftrightarrow> -1 \<le> k_pos k \<and> k_seq k \<subseteq> valid_seqs \<and> (k_pos k = -1 \<longrightarrow> k = cell_empty)"

definition cell_ind :: "kv_cell \<Rightarrow> llama_seq_id \<Rightarrow> llama_pos \<Rightarrow> nat" where
  "cell_ind k s p = (if k_pos k = p \<and> s \<in> k_seq k then 1 else 0)"

definition occ :: "kv_cell list \<Rightarrow> llama_seq_id \<Rightarrow> llama_pos \<Rightarrow> nat" where
  "occ ks s p = (\<Sum>i<length ks. cell_ind (ks ! i) s p)"

definition mk_cells :: "kv_cell list \<Rightarrow> bool \<Rightarrow> kv_cells" where
  "mk_cells ks b = \<lparr>c_has_shift = b,
     c_used = {i. i < length ks \<and> k_pos (ks ! i) \<noteq> -1},
     c_pos = map k_pos ks, c_ext = map k_ext ks, c_shift = map k_shift ks, c_seq = map k_seq ks,
     c_seq_pos = (\<lambda>s. count_map (occ ks s))\<rparr>"

definition cell_at :: "kv_cells \<Rightarrow> nat \<Rightarrow> kv_cell" where
  "cell_at c i = \<lparr>k_pos = c_pos c ! i, k_ext = c_ext c ! i, k_shift = c_shift c ! i, k_seq = c_seq c ! i\<rparr>"

definition cells_list :: "kv_cells \<Rightarrow> kv_cell list" where
  "cells_list c = map (cell_at c) [0..<cells_size c]"

definition cells_wf :: "kv_cells \<Rightarrow> bool" where
  "cells_wf c \<longleftrightarrow> c = mk_cells (cells_list c) (c_has_shift c) \<and> (\<forall>k \<in> set (cells_list c). cell_ok k)"

lemma mk_cells_sel [simp]:
  "c_has_shift (mk_cells ks b) = b"
  "c_used (mk_cells ks b) = {i. i < length ks \<and> k_pos (ks ! i) \<noteq> -1}"
  "c_pos (mk_cells ks b) = map k_pos ks"
  "c_ext (mk_cells ks b) = map k_ext ks"
  "c_shift (mk_cells ks b) = map k_shift ks"
  "c_seq (mk_cells ks b) = map k_seq ks"
  "c_seq_pos (mk_cells ks b) = (\<lambda>s. count_map (occ ks s))"
  "cells_size (mk_cells ks b) = length ks"
  by (simp_all add: mk_cells_def cells_size_def)

lemma cell_at_mk [simp]: "i < length ks \<Longrightarrow> cell_at (mk_cells ks b) i = ks ! i"
  by (simp add: cell_at_def)

lemma cells_list_mk [simp]: "cells_list (mk_cells ks b) = ks"
  by (rule nth_equalityI) (simp_all add: cells_list_def)

lemma length_cells_list [simp]: "length (cells_list c) = cells_size c"
  by (simp add: cells_list_def)

lemma cells_wf_mk [intro]: "(\<forall>k \<in> set ks. cell_ok k) \<Longrightarrow> cells_wf (mk_cells ks b)"
  by (simp add: cells_wf_def)

text \<open>The elimination that every operation's proof starts from.\<close>

lemma cells_wfE:
  assumes "cells_wf c"
  obtains ks b where "c = mk_cells ks b" and "\<forall>k \<in> set ks. cell_ok k"
  using assms unfolding cells_wf_def by blast

text \<open>Well-formed objects are determined by their cells: the indices carry no information.\<close>

lemma cells_eqI:
  assumes "cells_wf c" and "cells_wf d" and "cells_list c = cells_list d"
    and "c_has_shift c = c_has_shift d"
  shows "c = d"
proof -
  have "c = mk_cells (cells_list c) (c_has_shift c)" using assms(1) by (simp add: cells_wf_def)
  also have "\<dots> = mk_cells (cells_list d) (c_has_shift d)" using assms(3,4) by simp
  also have "\<dots> = d" using assms(2) by (simp add: cells_wf_def)
  finally show ?thesis .
qed

lemma cells_wf_nth_ok: "cells_wf c \<Longrightarrow> i < cells_size c \<Longrightarrow> cell_ok (cells_list c ! i)"
  by (auto simp: cells_wf_def)

lemma cells_list_nth [simp]: "i < cells_size c \<Longrightarrow> cells_list c ! i = cell_at c i"
  by (simp add: cells_list_def)

lemma cell_ok_empty [simp]: "cell_ok cell_empty"
  by (simp add: cell_ok_def cell_empty_def)

lemma cell_empty_sel [simp]:
  "k_pos cell_empty = -1" "k_ext cell_empty = ext_default"
  "k_shift cell_empty = shift_zero" "k_seq cell_empty = {}"
  by (simp_all add: cell_empty_def)

lemma cell_ok_update:
  "(\<forall>k \<in> set ks. cell_ok k) \<Longrightarrow> cell_ok k \<Longrightarrow> (\<forall>k \<in> set (ks[i := k]). cell_ok k)"
  by (auto dest: set_update_subset_insert [THEN subsetD])

subsection \<open>The position index under one-cell updates\<close>

lemma occ_ge_ind: "i < length ks \<Longrightarrow> cell_ind (ks ! i) s p \<le> occ ks s p"
  unfolding occ_def by (rule member_le_sum) auto

lemma occ_update:
  assumes "i < length ks"
  shows "occ (ks[i := k]) s p = occ ks s p - cell_ind (ks ! i) s p + cell_ind k s p"
proof -
  have "occ (ks[i := k]) s p + cell_ind (ks ! i) s p = occ ks s p + cell_ind k s p"
    unfolding occ_def using sum_list_update [OF assms, of "\<lambda>k. cell_ind k s p" k] by simp
  with occ_ge_ind [OF assms, of s p] show ?thesis by linarith
qed

lemma occ_pos_iff: "0 < occ ks s p \<longleftrightarrow> (\<exists>i < length ks. k_pos (ks ! i) = p \<and> s \<in> k_seq (ks ! i))"
proof -
  have "occ ks s p = 0 \<longleftrightarrow> (\<forall>i < length ks. cell_ind (ks ! i) s p = 0)"
    by (auto simp: occ_def)
  then show ?thesis by (auto simp: cell_ind_def split: if_splits)
qed

lemma occ_empty [simp]: "occ (replicate n cell_empty) s p = 0"
  by (simp add: occ_def cell_ind_def)

lemma map_dec_count: "0 < f p \<Longrightarrow> map_dec (count_map f) p = count_map (\<lambda>q. f q - (if p = q then 1 else 0))"
  by (auto simp: map_dec_def count_map_def fun_eq_iff)

lemma map_inc_count: "map_inc (count_map f) p = count_map (\<lambda>q. f q + (if p = q then 1 else 0))"
  by (auto simp: map_inc_def count_map_def fun_eq_iff)

lemma set_all_seq_ids: "set all_seq_ids = valid_seqs"
proof -
  have "s \<in> int ` {0..<LLAMA_MAX_SEQ}" if "0 \<le> s" "s < int LLAMA_MAX_SEQ" for s
    using that by (intro image_eqI [of _ _ "nat s"]) auto
  then show ?thesis by (auto simp: all_seq_ids_def valid_seqs_def)
qed

lemma distinct_all_seq_ids: "distinct all_seq_ids"
  by (simp add: all_seq_ids_def distinct_map)

lemma seq_pos_rm_eq:
  "seq_pos_rm i c = c\<lparr>c_seq_pos := (\<lambda>s. if s \<in> valid_seqs \<and> s \<in> c_seq c ! i
      then map_dec (c_seq_pos c s) (c_pos c ! i) else c_seq_pos c s)\<rparr>"
proof -
  have "fold (\<lambda>s c. if s \<in> c_seq c ! i then seq_pos_dec s (c_pos c ! i) c else c) xs c
        = c\<lparr>c_seq_pos := fold (\<lambda>s f. if s \<in> c_seq c ! i then f(s := map_dec (f s) (c_pos c ! i)) else f)
              xs (c_seq_pos c)\<rparr>" for xs
    by (induction xs arbitrary: c) (auto simp: seq_pos_dec_def cong: if_cong)
  then show ?thesis
    by (simp add: seq_pos_rm_def set_all_seq_ids fold_fun_upd_pointwise [OF distinct_all_seq_ids,
          where P = "\<lambda>s. s \<in> c_seq c ! i" and g = "\<lambda>s m. map_dec m (c_pos c ! i)"])
qed

lemma seq_pos_add_eq:
  "seq_pos_add i c = c\<lparr>c_seq_pos := (\<lambda>s. if s \<in> valid_seqs \<and> s \<in> c_seq c ! i
      then map_inc (c_seq_pos c s) (c_pos c ! i) else c_seq_pos c s)\<rparr>"
proof -
  have "fold (\<lambda>s c. if s \<in> c_seq c ! i then seq_pos_inc s (c_pos c ! i) c else c) xs c
        = c\<lparr>c_seq_pos := fold (\<lambda>s f. if s \<in> c_seq c ! i then f(s := map_inc (f s) (c_pos c ! i)) else f)
              xs (c_seq_pos c)\<rparr>" for xs
    by (induction xs arbitrary: c) (auto simp: seq_pos_inc_def cong: if_cong)
  then show ?thesis
    by (simp add: seq_pos_add_def set_all_seq_ids fold_fun_upd_pointwise [OF distinct_all_seq_ids,
          where P = "\<lambda>s. s \<in> c_seq c ! i" and g = "\<lambda>s m. map_inc m (c_pos c ! i)"])
qed

text \<open>The two helpers on a represented index: one occurrence less or more at the cell's position
  for each of its sequences.\<close>

lemma seq_pos_rm_count:
  assumes "c_seq_pos c = (\<lambda>s. count_map (f s))" and "c_seq c ! i \<subseteq> valid_seqs"
    and "\<And>s. s \<in> c_seq c ! i \<Longrightarrow> 0 < f s (c_pos c ! i)"
  shows "seq_pos_rm i c = c\<lparr>c_seq_pos :=
    (\<lambda>s. count_map (\<lambda>p. f s p - (if c_pos c ! i = p \<and> s \<in> c_seq c ! i then 1 else 0)))\<rparr>"
proof -
  have "(if s \<in> valid_seqs \<and> s \<in> c_seq c ! i then map_dec (c_seq_pos c s) (c_pos c ! i) else c_seq_pos c s)
      = count_map (\<lambda>p. f s p - (if c_pos c ! i = p \<and> s \<in> c_seq c ! i then 1 else 0))" for s
    using assms by (cases "s \<in> c_seq c ! i") (auto simp: map_dec_count)
  then show ?thesis by (simp add: seq_pos_rm_eq)
qed

lemma seq_pos_add_count:
  assumes "c_seq_pos c = (\<lambda>s. count_map (f s))" and "c_seq c ! i \<subseteq> valid_seqs"
  shows "seq_pos_add i c = c\<lparr>c_seq_pos :=
    (\<lambda>s. count_map (\<lambda>p. f s p + (if c_pos c ! i = p \<and> s \<in> c_seq c ! i then 1 else 0)))\<rparr>"
proof -
  have "(if s \<in> valid_seqs \<and> s \<in> c_seq c ! i then map_inc (c_seq_pos c s) (c_pos c ! i) else c_seq_pos c s)
      = count_map (\<lambda>p. f s p + (if c_pos c ! i = p \<and> s \<in> c_seq c ! i then 1 else 0))" for s
    using assms by (cases "s \<in> c_seq c ! i") (auto simp: map_inc_count)
  then show ?thesis by (simp add: seq_pos_add_eq)
qed

lemma seq_pos_rm_mk:
  assumes "i < length ks" and "\<forall>k \<in> set ks. cell_ok k"
  shows "seq_pos_rm i (mk_cells ks b)
       = (mk_cells ks b)\<lparr>c_seq_pos := (\<lambda>s. count_map (\<lambda>p. occ ks s p - cell_ind (ks ! i) s p))\<rparr>"
proof -
  have "k_seq (ks ! i) \<subseteq> valid_seqs" using assms by (auto simp: cell_ok_def)
  moreover have "0 < occ ks s (k_pos (ks ! i))" if "s \<in> k_seq (ks ! i)" for s
    using assms(1) that by (auto simp: occ_pos_iff)
  ultimately show ?thesis using assms(1)
    by (subst seq_pos_rm_count [where f = "occ ks"]) (auto simp: cell_ind_def)
qed

text \<open>Replacing cell \<open>i\<close> in all vectors and both indices is replacing it in the represented list.\<close>

lemma mk_cells_update:
  assumes "i < length ks"
  shows "mk_cells (ks[i := k]) b' =
    \<lparr>c_has_shift = b',
     c_used = (if k_pos k = -1 then {i. i < length ks \<and> k_pos (ks ! i) \<noteq> -1} - {i}
               else insert i {i. i < length ks \<and> k_pos (ks ! i) \<noteq> -1}),
     c_pos = (map k_pos ks)[i := k_pos k], c_ext = (map k_ext ks)[i := k_ext k],
     c_shift = (map k_shift ks)[i := k_shift k], c_seq = (map k_seq ks)[i := k_seq k],
     c_seq_pos = (\<lambda>s. count_map (\<lambda>p. occ ks s p - cell_ind (ks ! i) s p + cell_ind k s p))\<rparr>"
proof -
  have "occ (ks[i := k]) s = (\<lambda>p. occ ks s p - cell_ind (ks ! i) s p + cell_ind k s p)" for s
    using occ_update [OF assms] by blast
  moreover have "{j. j < length ks \<and> k_pos (ks[i := k] ! j) \<noteq> -1}
      = (if k_pos k = -1 then {i. i < length ks \<and> k_pos (ks ! i) \<noteq> -1} - {i}
         else insert i {i. i < length ks \<and> k_pos (ks ! i) \<noteq> -1})"
    using assms by (auto simp: nth_list_update split: if_splits)
  ultimately show ?thesis by (simp only: mk_cells_def map_update length_list_update)
qed

subsection \<open>Every operation is a one-cell update\<close>

abbreviation cells_ok :: "kv_cell list \<Rightarrow> bool" where
  "cells_ok ks \<equiv> \<forall>k \<in> set ks. cell_ok k"

lemma cells_ok_nth: "cells_ok ks \<Longrightarrow> i < length ks \<Longrightarrow> cell_ok (ks ! i)"
  by simp

lemma cell_ok_seqs: "cells_ok ks \<Longrightarrow> i < length ks \<Longrightarrow> k_seq (ks ! i) \<subseteq> valid_seqs"
  by (simp add: cell_ok_def)

lemma cell_ok_nonneg: "cells_ok ks \<Longrightarrow> i < length ks \<Longrightarrow> k_pos (ks ! i) \<noteq> -1 \<Longrightarrow> 0 \<le> k_pos (ks ! i)"
  using cells_ok_nth [of ks i] by (auto simp: cell_ok_def simp del: nth_mem)

lemma mk_cells_updateI:
  assumes "i < length ks" and "c_has_shift c = b'"
    and "c_used c = (if k_pos k = -1 then {i. i < length ks \<and> k_pos (ks ! i) \<noteq> -1} - {i}
                     else insert i {i. i < length ks \<and> k_pos (ks ! i) \<noteq> -1})"
    and "c_pos c = (map k_pos ks)[i := k_pos k]" and "c_ext c = (map k_ext ks)[i := k_ext k]"
    and "c_shift c = (map k_shift ks)[i := k_shift k]" and "c_seq c = (map k_seq ks)[i := k_seq k]"
    and "c_seq_pos c = (\<lambda>s. count_map (\<lambda>p. occ ks s p - cell_ind (ks ! i) s p + cell_ind k s p))"
  shows "c = mk_cells (ks[i := k]) b'"
  using assms(2-) by (simp add: mk_cells_update [OF assms(1)])

lemma used_mem_iff: "i < length ks \<Longrightarrow> i \<in> {i. i < length ks \<and> k_pos (ks ! i) \<noteq> -1} \<longleftrightarrow> k_pos (ks ! i) \<noteq> -1"
  by simp

lemma cells_rm_mk:
  assumes "i < length ks" and "cells_ok ks"
  shows "cells_rm i (mk_cells ks b) = mk_cells (ks[i := cell_empty]) b"
  using assms
  by (intro mk_cells_updateI) (simp_all add: cells_rm_def seq_pos_rm_mk Let_def cell_ind_def [of cell_empty])

lemma seq_pos_dec_mk:
  assumes "i < length ks" and "s \<in> k_seq (ks ! i)"
  shows "map_dec (count_map (occ ks s)) (k_pos (ks ! i)) = count_map (\<lambda>p. occ ks s p - cell_ind (ks ! i) s p)"
proof -
  have "0 < occ ks s (k_pos (ks ! i))" using assms by (auto simp: occ_pos_iff)
  then have "map_dec (count_map (occ ks s)) (k_pos (ks ! i))
    = count_map (\<lambda>p. occ ks s p - (if k_pos (ks ! i) = p then 1 else 0))" by (rule map_dec_count)
  also have "(\<lambda>p. occ ks s p - (if k_pos (ks ! i) = p then 1 else 0))
    = (\<lambda>p. occ ks s p - cell_ind (ks ! i) s p)"
    using assms(2) by (auto simp: cell_ind_def fun_eq_iff)
  finally show ?thesis .
qed

lemma cell_without_seq_index:
  assumes "i < length ks" and "s \<in> k_seq (ks ! i)" and "k_pos k = k_pos (ks ! i) \<or> k_seq k = {}"
    and "k_seq k = k_seq (ks ! i) - {s}"
  shows "(\<lambda>t. count_map (occ ks t))(s := map_dec (count_map (occ ks s)) (k_pos (ks ! i)))
       = (\<lambda>t. count_map (\<lambda>p. occ ks t p - cell_ind (ks ! i) t p + cell_ind k t p))"
proof (rule ext)
  fix t
  show "((\<lambda>t. count_map (occ ks t))(s := map_dec (count_map (occ ks s)) (k_pos (ks ! i)))) t
      = count_map (\<lambda>p. occ ks t p - cell_ind (ks ! i) t p + cell_ind k t p)"
  proof (cases "t = s")
    case True
    then have "cell_ind k t p = 0" for p using assms(4) by (simp add: cell_ind_def)
    with True assms show ?thesis by (simp add: seq_pos_dec_mk)
  next
    case False
    have mem: "t \<in> k_seq k \<longleftrightarrow> t \<in> k_seq (ks ! i)" using False assms(4) by simp
    have "cell_ind k t p = cell_ind (ks ! i) t p" for p
      using assms(3) mem by (auto simp: cell_ind_def)
    then have "occ ks t p - cell_ind (ks ! i) t p + cell_ind k t p = occ ks t p" for p
      using occ_ge_ind [OF assms(1), of t p] by simp
    with False show ?thesis by simp
  qed
qed

lemma cells_seq_rm_mk:
  assumes "i < length ks" and "cells_ok ks" and "s \<in> k_seq (ks ! i)"
  shows "cells_seq_rm i s (mk_cells ks b) =
    (let k = ks ! i; S = k_seq k - {s}
     in (S = {}, mk_cells (ks[i := if S = {} then cell_empty else k\<lparr>k_seq := S\<rparr>]) b))"
proof -
  have ok: "-1 \<le> k_pos (ks ! i)" "k_pos (ks ! i) \<noteq> -1"
    using assms by (auto simp: cell_ok_def dest!: cells_ok_nth)
  have idx: "(c_seq_pos (mk_cells ks b))(s := map_dec (c_seq_pos (mk_cells ks b) s) (map k_pos ks ! i))
      = (\<lambda>t. count_map (\<lambda>p. occ ks t p - cell_ind (ks ! i) t p + cell_ind k t p))"
    if "k_pos k = k_pos (ks ! i) \<or> k_seq k = {}" "k_seq k = k_seq (ks ! i) - {s}" for k
    using cell_without_seq_index [OF assms(1,3) that] assms(1) by (simp add: fun_upd_def)
  show ?thesis
  proof (cases "k_seq (ks ! i) - {s} = {}")
    case True
    with assms(3) have S: "k_seq (ks ! i) = {s}" by auto
    then have "cells_seq_rm i s (mk_cells ks b) = (True, mk_cells (ks[i := cell_empty]) b)"
      using assms(1) idx [of cell_empty]
      by (auto simp: cells_seq_rm_def seq_pos_dec_def Let_def intro!: mk_cells_updateI)
    with S show ?thesis by (simp add: Let_def)
  next
    case False
    let ?k = "(ks ! i)\<lparr>k_seq := k_seq (ks ! i) - {s}\<rparr>"
    have "cells_seq_rm i s (mk_cells ks b) = (False, mk_cells (ks[i := ?k]) b)"
      using assms(1) False idx [of ?k] ok
      by (auto simp: cells_seq_rm_def seq_pos_dec_def Let_def simp flip: map_update intro!: mk_cells_updateI)
    with False show ?thesis by (simp add: Let_def)
  qed
qed

lemma cell_with_seq_index:
  assumes "i < length ks" and "s \<notin> k_seq (ks ! i)"
    and "k_pos k = k_pos (ks ! i)" and "k_seq k = insert s (k_seq (ks ! i))"
  shows "(\<lambda>t. count_map (occ ks t))(s := map_inc (count_map (occ ks s)) (k_pos (ks ! i)))
       = (\<lambda>t. count_map (\<lambda>p. occ ks t p - cell_ind (ks ! i) t p + cell_ind k t p))"
proof (rule ext)
  fix t
  have "(if t = s then occ ks t p + (if k_pos (ks ! i) = p then 1 else 0) else occ ks t p)
      = occ ks t p - cell_ind (ks ! i) t p + cell_ind k t p" for p
    using assms occ_ge_ind [OF assms(1), of t p] by (cases "t = s") (auto simp: cell_ind_def)
  then show "((\<lambda>t. count_map (occ ks t))(s := map_inc (count_map (occ ks s)) (k_pos (ks ! i)))) t
      = count_map (\<lambda>p. occ ks t p - cell_ind (ks ! i) t p + cell_ind k t p)"
    by (cases "t = s") (simp_all add: map_inc_count)
qed

lemma cells_seq_add_mk:
  assumes "i < length ks" and "s \<notin> k_seq (ks ! i)" and "k_pos (ks ! i) \<noteq> -1"
  shows "cells_seq_add i s (mk_cells ks b)
       = mk_cells (ks[i := (ks ! i)\<lparr>k_seq := insert s (k_seq (ks ! i))\<rparr>]) b"
  using assms cell_with_seq_index [OF assms(1,2), of "(ks ! i)\<lparr>k_seq := insert s (k_seq (ks ! i))\<rparr>"]
  by (auto simp: cells_seq_add_def seq_pos_inc_def Let_def simp flip: map_update intro!: mk_cells_updateI)

lemma pos_set_mk:
  assumes "i < length ks" and "ks ! i = cell_empty" and "p \<noteq> -1"
  shows "pos_set i p (mk_cells ks b) = mk_cells (ks[i := cell_empty\<lparr>k_pos := p\<rparr>]) b"
  using assms
  by (intro mk_cells_updateI)
    (auto simp: pos_set_def cell_ind_def simp flip: map_update)

lemma ext_set_mk:
  assumes "i < length ks"
  shows "ext_set i e (mk_cells ks b) = mk_cells (ks[i := (ks ! i)\<lparr>k_ext := e\<rparr>]) b"
proof (rule mk_cells_updateI)
  have "cell_ind ((ks ! i)\<lparr>k_ext := e\<rparr>) s p = cell_ind (ks ! i) s p" for s p
    by (simp add: cell_ind_def)
  then have "occ ks s p - cell_ind (ks ! i) s p + cell_ind ((ks ! i)\<lparr>k_ext := e\<rparr>) s p = occ ks s p" for s p
    using occ_ge_ind [OF assms, of s p] by simp
  then show "c_seq_pos (ext_set i e (mk_cells ks b))
      = (\<lambda>s. count_map (\<lambda>p. occ ks s p - cell_ind (ks ! i) s p + cell_ind ((ks ! i)\<lparr>k_ext := e\<rparr>) s p))"
    by (simp add: ext_set_def)
qed (use assms in \<open>auto simp: ext_set_def\<close>)

text \<open>Removing the index entries of a cell, changing it arbitrarily and adding its new entries.\<close>

lemma seq_pos_readd:
  assumes "c_seq_pos c = (\<lambda>s. count_map (\<lambda>p. occ ks s p - cell_ind (ks ! i) s p))"
    and "c_seq c ! i = k_seq k" and "c_pos c ! i = k_pos k" and "k_seq k \<subseteq> valid_seqs"
  shows "seq_pos_add i c = c\<lparr>c_seq_pos :=
    (\<lambda>s. count_map (\<lambda>p. occ ks s p - cell_ind (ks ! i) s p + cell_ind k s p))\<rparr>"
  using assms by (subst seq_pos_add_count [OF assms(1)]) (simp_all add: cell_ind_def)

definition cell_shifted :: "kv_cell_shift \<Rightarrow> kv_cell \<Rightarrow> kv_cell" where
  "cell_shifted d k =
     (if k_pos k + sh_t d < 0 then cell_empty
      else k\<lparr>k_pos := k_pos k + sh_t d, k_ext := ext_move d (k_ext k),
             k_shift := shift_plus (k_shift k) d\<rparr>)"

lemma pos_shift_mk:
  assumes "i < length ks" and "cells_ok ks" and "k_pos (ks ! i) \<noteq> -1"
  shows "pos_shift i d (mk_cells ks b)
       = (k_pos (ks ! i) + sh_t d < 0, mk_cells (ks[i := cell_shifted d (ks ! i)]) True)"
proof (cases "k_pos (ks ! i) + sh_t d < 0")
  case True
  with assms show ?thesis
    by (auto simp: pos_shift_def Let_def seq_pos_rm_mk cell_shifted_def cell_ind_def [of cell_empty]
        intro!: mk_cells_updateI)
next
  case False
  let ?k = "cell_shifted d (ks ! i)"
  have v: "k_seq (ks ! i) \<subseteq> valid_seqs" using assms by (auto simp: cell_ok_def)
  have k: "k_seq ?k = k_seq (ks ! i)" "k_pos ?k = k_pos (ks ! i) + sh_t d" "k_pos ?k \<noteq> -1"
    "k_ext ?k = ext_move d (k_ext (ks ! i))" "k_shift ?k = shift_plus (k_shift (ks ! i)) d"
    using False by (simp_all add: cell_shifted_def)
  show ?thesis using False assms v
    by (auto simp: pos_shift_def Let_def seq_pos_rm_mk seq_pos_readd [where k = ?k and ks = ks] k
        insert_absorb intro!: mk_cells_updateI)
qed

definition cell_divided :: "int \<Rightarrow> kv_cell \<Rightarrow> kv_cell" where
  "cell_divided d k = k\<lparr>k_pos := cdiv (k_pos k) d,
     k_shift := (k_shift k)\<lparr>sh_t := sh_t (k_shift k) + (k_pos k - cdiv (k_pos k) d)\<rparr>\<rparr>"

lemma cdiv_nonneg: "0 \<le> a \<Longrightarrow> 0 < d \<Longrightarrow> 0 \<le> cdiv a d \<and> cdiv a d \<le> a"
proof -
  assume a: "0 \<le> a" and d: "0 < d"
  have "cdiv a d = a div d" using a d by (cases "a = 0") (simp_all add: cdiv_def)
  moreover have "a div d \<le> a" using a by (cases "a = 0") (simp_all add: int_div_le_self)
  ultimately show ?thesis using a d by (simp add: pos_imp_zdiv_nonneg_iff)
qed

lemma pos_div_mk:
  assumes "i < length ks" and "cells_ok ks" and "k_pos (ks ! i) \<noteq> -1" and "0 < d"
  shows "pos_div i d (mk_cells ks b) = mk_cells (ks[i := cell_divided d (ks ! i)]) True"
proof -
  let ?k = "cell_divided d (ks ! i)"
  have "cell_ok (ks ! i)" using assms(1,2) by simp
  then have v: "k_seq (ks ! i) \<subseteq> valid_seqs" and "-1 \<le> k_pos (ks ! i)" by (simp_all add: cell_ok_def)
  with assms(3) have "0 \<le> k_pos (ks ! i)" by linarith
  then have p: "0 \<le> cdiv (k_pos (ks ! i)) d" using assms(4) by (simp add: cdiv_nonneg)
  have k: "k_seq ?k = k_seq (ks ! i)" "k_pos ?k = cdiv (k_pos (ks ! i)) d" "k_ext ?k = k_ext (ks ! i)"
    "k_shift ?k = (k_shift (ks ! i))\<lparr>sh_t := sh_t (k_shift (ks ! i)) + (k_pos (ks ! i) - cdiv (k_pos (ks ! i)) d)\<rparr>"
    by (simp_all add: cell_divided_def)
  have "cdiv (k_pos (ks ! i)) d \<noteq> -1" using p by linarith
  then show ?thesis using assms(1-3) v
    by (auto simp: pos_div_def Let_def seq_pos_rm_mk seq_pos_readd [where k = ?k and ks = ks] k
        insert_absorb intro!: mk_cells_updateI)
qed

definition cell_kept :: "llama_seq_id \<Rightarrow> kv_cell \<Rightarrow> kv_cell" where
  "cell_kept s k = (if s \<in> k_seq k then k\<lparr>k_seq := {s}\<rparr> else if k_seq k \<noteq> {} then cell_empty else k)"

lemma cells_seq_keep_mk:
  assumes "i < length ks" and "cells_ok ks"
  shows "cells_seq_keep i s (mk_cells ks b)
       = (s \<notin> k_seq (ks ! i) \<and> k_seq (ks ! i) \<noteq> {}, mk_cells (ks[i := cell_kept s (ks ! i)]) b)"
proof -
  let ?k = "(ks ! i)\<lparr>k_seq := {s}\<rparr>"
  have ok: "cell_ok (ks ! i)" using assms by simp
  consider "s \<in> k_seq (ks ! i)" | "s \<notin> k_seq (ks ! i)" "k_seq (ks ! i) \<noteq> {}"
    | "k_seq (ks ! i) = {}" by blast
  then show ?thesis
  proof cases
    case 1
    then have ne: "k_pos (ks ! i) \<noteq> -1" using ok by (auto simp: cell_ok_def)
    have "(\<lambda>t. count_map (\<lambda>p. occ ks t p - cell_ind (ks ! i) t p))
        (s := map_inc (count_map (\<lambda>p. occ ks s p - cell_ind (ks ! i) s p)) (k_pos (ks ! i)))
      = (\<lambda>t. count_map (\<lambda>p. occ ks t p - cell_ind (ks ! i) t p + cell_ind ?k t p))"
      by (rule ext) (auto simp: map_inc_count cell_ind_def cong: if_cong)
    with 1 ne assms have "cells_seq_keep i s (mk_cells ks b) = (False, mk_cells (ks[i := ?k]) b)"
      by (auto simp: cells_seq_keep_def Let_def seq_pos_rm_mk seq_pos_inc_def insert_absorb
          intro!: mk_cells_updateI)
    with 1 show ?thesis by (simp add: cell_kept_def)
  next
    case 2
    with assms have "cells_seq_keep i s (mk_cells ks b) = (True, mk_cells (ks[i := cell_empty]) b)"
      by (auto simp: cells_seq_keep_def Let_def seq_pos_rm_mk cell_ind_def [of cell_empty]
          intro!: mk_cells_updateI)
    with 2 show ?thesis by (simp add: cell_kept_def)
  next
    case 3
    with assms(1) show ?thesis by (simp add: cells_seq_keep_def cell_kept_def)
  qed
qed

lemma seq_pos_rm_used: "seq_pos_rm i (c\<lparr>c_used := u\<rparr>) = (seq_pos_rm i c)\<lparr>c_used := u\<rparr>"
  by (simp add: seq_pos_rm_eq cong: if_cong)

text \<open>\<open>set\<close> overwrites position, extra data and sequences and leaves the shift as it is; cells are only
  saved and restored while no shift is pending, which the source asserts.\<close>

lemma cells_set1_mk:
  assumes "i < length ks" and "cells_ok ks"
    and "c_pos other ! j = k_pos k" "c_ext other ! j = k_ext k" "c_seq other ! j = k_seq k"
    and "k_shift k = k_shift (ks ! i)" "cell_ok k"
  shows "cells_set1 i j other (mk_cells ks b) = mk_cells (ks[i := k]) b"
proof -
  have v: "k_seq k \<subseteq> valid_seqs" using assms(7) by (simp add: cell_ok_def)
  have e: "k_seq (ks ! i) = {}" if "k_pos (ks ! i) = -1"
    using that assms(1,2) by (auto simp: cell_ok_def)
  have e': "k_seq k = {}" if "k_pos k = -1" using that assms(7) by (auto simp: cell_ok_def)
  have idx: "count_map (occ ks s) = count_map (\<lambda>p. occ ks s p - cell_ind (ks ! i) s p)"
    if "k_pos (ks ! i) = -1" for s
    using e [OF that] by (simp add: cell_ind_def)
  have idx': "(\<lambda>s. count_map (\<lambda>p. occ ks s p - cell_ind (ks ! i) s p + cell_ind k s p))
      = (\<lambda>s. count_map (\<lambda>p. occ ks s p - cell_ind (ks ! i) s p))" if "k_pos k = -1"
    using e' [OF that] by (simp add: cell_ind_def)
  show ?thesis
  proof (cases "k_pos (ks ! i) = -1")
    case True
    then show ?thesis using assms v idx idx'
      by (cases "k_pos k = -1")
        (auto simp: cells_set1_def Let_def seq_pos_readd [where k = k and ks = ks] intro!: mk_cells_updateI)
  next
    case False
    then show ?thesis using assms v idx'
      by (cases "k_pos k = -1")
        (auto simp: cells_set1_def Let_def seq_pos_rm_used seq_pos_rm_mk seq_pos_readd [where k = k and ks = ks] insert_absorb
          intro!: mk_cells_updateI)
  qed
qed

subsection \<open>Whole-array operations on the abstract cells\<close>

lemma occ_invalid: "cells_ok ks \<Longrightarrow> s \<notin> valid_seqs \<Longrightarrow> occ ks s p = 0"
  using occ_pos_iff [of ks s p] by (fastforce simp: cell_ok_def in_set_conv_nth)

lemma occ_replicate_empty: "occ (replicate n cell_empty) = (\<lambda>s p. 0)"
  by (intro ext) simp

lemma cells_reset_mk:
  assumes "cells_ok ks"
  shows "cells_reset (mk_cells ks b) = mk_cells (replicate (length ks) cell_empty) False"
proof -
  have "(\<lambda>s. if 0 \<le> s \<and> s < int LLAMA_MAX_SEQ then Map.empty else count_map (occ ks s)) = (\<lambda>s. Map.empty)"
    using occ_invalid [OF assms]
    by (auto simp: fun_eq_iff count_map_def valid_seqs_def)
  then show ?thesis
    by (simp add: cells_reset_def mk_cells_def occ_replicate_empty map_replicate_const o_def cong: if_cong)
qed

lemma cells_new_mk: "cells_new = mk_cells [] False"
  by (simp add: cells_new_def mk_cells_def occ_def [abs_def])

lemma vec_resize_Nil: "vec_resize n d [] = replicate n d"
  by (simp add: vec_resize_def)

lemma cells_resize_new: "cells_resize n cells_new = mk_cells (replicate n cell_empty) False"
  by (simp add: cells_resize_def cells_new_def cells_reset_def vec_resize_Nil mk_cells_def
      occ_replicate_empty map_replicate_const cong: if_cong)

lemma occ_map_same:
  assumes "\<And>k. k_pos (f k) = k_pos k" and "\<And>k. k_seq (f k) = k_seq k"
  shows "occ (map f ks) = occ ks"
  by (intro ext) (simp add: occ_def cell_ind_def assms)

lemma reset_shift_mk:
  "reset_shift (mk_cells ks b) = mk_cells (map (\<lambda>k. k\<lparr>k_shift := shift_zero\<rparr>) ks) False"
proof -
  have "{i. i < length ks \<and> k_pos (map (\<lambda>k. k\<lparr>k_shift := shift_zero\<rparr>) ks ! i) \<noteq> -1}
      = {i. i < length ks \<and> k_pos (ks ! i) \<noteq> -1}" by auto
  then show ?thesis by (simp add: reset_shift_def mk_cells_def occ_map_same o_def)
qed

subsection \<open>Queries on well-formed arrays\<close>

definition seq_positions :: "kv_cell list \<Rightarrow> llama_seq_id \<Rightarrow> llama_pos set" where
  "seq_positions ks s = {k_pos k |k. k \<in> set ks \<and> s \<in> k_seq k}"

lemma finite_seq_positions [simp]: "finite (seq_positions ks s)"
proof -
  have "seq_positions ks s = k_pos ` {k \<in> set ks. s \<in> k_seq k}" by (auto simp: seq_positions_def)
  then show ?thesis by simp
qed

lemma seq_positions_nth: "seq_positions ks s = {k_pos (ks ! i) |i. i < length ks \<and> s \<in> k_seq (ks ! i)}"
  unfolding seq_positions_def set_conv_nth by blast

lemma dom_seq_pos_mk: "dom (c_seq_pos (mk_cells ks b) s) = seq_positions ks s"
  by (auto simp: dom_count_map occ_pos_iff seq_positions_def in_set_conv_nth)

lemma seq_pos_empty_mk: "c_seq_pos (mk_cells ks b) s = Map.empty \<longleftrightarrow> seq_positions ks s = {}"
  using dom_seq_pos_mk [of ks b s] by (metis dom_eq_empty_conv)

lemma cells_seq_pos_min_mk:
  "cells_seq_pos_min (mk_cells ks b) s = (if seq_positions ks s = {} then -1 else Min (seq_positions ks s))"
  unfolding cells_seq_pos_min_def by (simp only: seq_pos_empty_mk dom_seq_pos_mk)

lemma cells_seq_pos_max_mk:
  "cells_seq_pos_max (mk_cells ks b) s = (if seq_positions ks s = {} then -1 else Max (seq_positions ks s))"
  unfolding cells_seq_pos_max_def by (simp only: seq_pos_empty_mk dom_seq_pos_mk)

lemma seq_positions_nonneg: "cells_ok ks \<Longrightarrow> p \<in> seq_positions ks s \<Longrightarrow> 0 \<le> p"
  by (fastforce simp: seq_positions_def cell_ok_def)

lemma find_all_seq_ids_single:
  assumes "k = {s}" and "s \<in> valid_seqs"
  shows "find (\<lambda>t. t \<in> k) all_seq_ids = Some s"
proof -
  have "find (\<lambda>t. t \<in> k) all_seq_ids \<noteq> None"
    using assms by (simp add: find_None_iff set_all_seq_ids)
  then obtain t where t: "find (\<lambda>t. t \<in> k) all_seq_ids = Some t" by blast
  then have "t \<in> k" by (auto simp: find_Some_iff)
  with t assms(1) show ?thesis by simp
qed

lemma seq_get_mk:
  assumes "i < length ks" and "cells_ok ks" and "k_seq (ks ! i) = {s}"
  shows "seq_get (mk_cells ks b) i = s"
proof -
  have "s \<in> valid_seqs" using cell_ok_seqs [OF assms(2,1)] assms(3) by simp
  then show ?thesis using assms find_all_seq_ids_single [of "k_seq (ks ! i)" s] by (simp add: seq_get_def)
qed

lemma get_used_mk: "get_used (mk_cells ks b) = length (filter (\<lambda>k. k_pos k \<noteq> -1) ks)"
  by (simp add: get_used_def length_filter_conv_card)

lemma get_used_le: "get_used (mk_cells ks b) \<le> length ks"
  by (simp add: get_used_mk)

subsection \<open>Saving and restoring cells\<close>

lemma fold_list_update_upt:
  "n \<le> length xs \<Longrightarrow> fold (\<lambda>j xs. xs[j := g j]) [0..<n] xs = map g [0..<n] @ drop n xs"
proof (induction n)
  case (Suc n)
  then have "fold (\<lambda>j xs. xs[j := g j]) [0..<Suc n] xs = (map g [0..<n] @ drop n xs)[n := g n]" by simp
  also have "\<dots> = map g [0..<Suc n] @ drop (Suc n) xs"
    using Suc.prems by (simp add: list_update_append Cons_nth_drop_Suc [symmetric])
  finally show ?case .
qed simp

lemma cells_cp_sel:
  "c_pos (cells_cp c idxs) = map ((!) (c_pos c)) idxs"
  "c_ext (cells_cp c idxs) = map ((!) (c_ext c)) idxs"
  "c_seq (cells_cp c idxs) = map ((!) (c_seq c)) idxs"
proof -
  let ?f = "\<lambda>j res. res\<lparr>c_pos := (c_pos res)[j := c_pos c ! (idxs ! j)],
       c_ext := (c_ext res)[j := c_ext c ! (idxs ! j)], c_seq := (c_seq res)[j := c_seq c ! (idxs ! j)]\<rparr>"
  have *: "c_pos (fold ?f js res) = fold (\<lambda>j xs. xs[j := c_pos c ! (idxs ! j)]) js (c_pos res)"
    "c_ext (fold ?f js res) = fold (\<lambda>j xs. xs[j := c_ext c ! (idxs ! j)]) js (c_ext res)"
    "c_seq (fold ?f js res) = fold (\<lambda>j xs. xs[j := c_seq c ! (idxs ! j)]) js (c_seq res)" for js res
    by (induction js arbitrary: res) simp_all
  have m: "map (\<lambda>j. g (idxs ! j)) [0..<length idxs] = map g idxs" for g :: "nat \<Rightarrow> 'b"
    by (rule nth_equalityI) simp_all
  show "c_pos (cells_cp c idxs) = map ((!) (c_pos c)) idxs"
    "c_ext (cells_cp c idxs) = map ((!) (c_ext c)) idxs"
    "c_seq (cells_cp c idxs) = map ((!) (c_seq c)) idxs"
    by (simp_all add: cells_cp_def Let_def * cells_resize_new fold_list_update_upt m)
qed

lemma fold_restore_nth:
  "m < length ks \<Longrightarrow> fold (\<lambda>i ks. ks[i := ks0 ! i]) idxs ks ! m = (if m \<in> set idxs then ks0 ! m else ks ! m)"
  by (induction idxs arbitrary: ks) (auto simp: nth_list_update)

lemma fold_restore_length [simp]: "length (fold (\<lambda>i ks. ks[i := ks0 ! i]) idxs ks) = length ks"
  by (induction idxs arbitrary: ks) auto

text \<open>Writing back the cells of \<open>ks0\<close> at \<open>idxs\<close>, one after the other.\<close>

lemma cells_set_cp_mk:
  assumes "cells_ok ks0" and "cells_ok ks" and "length ks = length ks0"
    and "\<And>i. i \<in> set idxs \<Longrightarrow> i < length ks0 \<and> k_shift (ks ! i) = k_shift (ks0 ! i)"
  shows "cells_set idxs (cells_cp (mk_cells ks0 b0) idxs) (mk_cells ks b)
       = mk_cells (fold (\<lambda>i ks. ks[i := ks0 ! i]) idxs ks) b"
proof -
  let ?o = "cells_cp (mk_cells ks0 b0) idxs"
  have step: "cells_set1 (idxs ! j) j ?o (mk_cells ks b) = mk_cells (ks[idxs ! j := ks0 ! (idxs ! j)]) b"
    if "j < length idxs" "cells_ok ks" "length ks = length ks0"
      "\<And>i. i \<in> set idxs \<Longrightarrow> k_shift (ks ! i) = k_shift (ks0 ! i)" for j ks
    using that assms(1,4) by (intro cells_set1_mk) (auto simp: cells_cp_sel)
  have "set js \<subseteq> {0..<length idxs} \<Longrightarrow> cells_ok ks \<Longrightarrow> length ks = length ks0 \<Longrightarrow>
      (\<And>i. i \<in> set idxs \<Longrightarrow> k_shift (ks ! i) = k_shift (ks0 ! i)) \<Longrightarrow>
      fold (\<lambda>j c. cells_set1 (idxs ! j) j ?o c) js (mk_cells ks b)
      = mk_cells (fold (\<lambda>i ks. ks[i := ks0 ! i]) (map ((!) idxs) js) ks) b" for js
  proof (induction js arbitrary: ks)
    case (Cons j js)
    let ?i = "idxs ! j"
    have j: "?i < length ks0" using Cons.prems(1) assms(4) by simp
    have "cells_ok (ks[?i := ks0 ! ?i])"
      using Cons.prems(2) assms(1) j by (intro cell_ok_update) auto
    moreover have "k_shift (ks[?i := ks0 ! ?i] ! i) = k_shift (ks0 ! i)" if "i \<in> set idxs" for i
      using Cons.prems(3,4) that j by (cases "i = ?i") auto
    ultimately show ?case using Cons.prems by (simp add: step Cons.IH)
  qed simp
  from this [of "[0..<length idxs]"] assms(2-4) show ?thesis
    by (simp add: cells_set_def cells_cp_sel map_nth)
qed

lemma cells_restore_mk:
  assumes "cells_ok ks0" and "cells_ok ks" and "length ks = length ks0"
    and "\<And>i. i \<in> set idxs \<Longrightarrow> i < length ks0 \<and> k_shift (ks ! i) = k_shift (ks0 ! i)"
    and "\<And>i. i < length ks0 \<Longrightarrow> i \<notin> set idxs \<Longrightarrow> ks ! i = ks0 ! i"
  shows "cells_set idxs (cells_cp (mk_cells ks0 b0) idxs) (mk_cells ks b) = mk_cells ks0 b"
proof -
  have "fold (\<lambda>i ks. ks[i := ks0 ! i]) idxs ks = ks0"
    using assms(3,5) by (intro nth_equalityI) (auto simp: fold_restore_nth)
  then show ?thesis using cells_set_cp_mk [OF assms(1-4)] by simp
qed

subsection \<open>Loops over all cells\<close>

text \<open>
  The operations of the KV cache run one step per cell, in index order, and remember in
  \<open>new_head\<close> the first cell that a step freed (initially the size of the array). A step changes
  only its own cell; the locale states that contract, and its lemma gives the result of the whole
  loop: the step's function mapped over the cells.
\<close>

definition cells_loop ::
  "(nat \<Rightarrow> kv_cells \<Rightarrow> bool \<times> kv_cells) \<Rightarrow> kv_cells \<Rightarrow> nat \<times> kv_cells" where
  "cells_loop step c =
     fold (\<lambda>i (new_head, c). let (freed, c') = step i c in
             (if freed \<and> new_head = cells_size c then i else new_head, c'))
       [0..<cells_size c] (cells_size c, c)"

definition first_index :: "('a \<Rightarrow> bool) \<Rightarrow> 'a list \<Rightarrow> nat" where
  "first_index P xs = length (takeWhile (\<lambda>x. \<not> P x) xs)"

lemma first_index_le: "first_index P xs \<le> length xs"
  by (simp add: first_index_def length_takeWhile_le)

lemma first_index_snoc:
  "first_index P (xs @ [x]) = (if first_index P xs < length xs then first_index P xs
                               else if P x then length xs else Suc (length xs))"
proof (cases "\<exists>y \<in> set xs. P y")
  case True
  then have "takeWhile (\<lambda>x. \<not> P x) xs \<noteq> xs" by (auto simp: takeWhile_eq_all_conv)
  then have "first_index P xs < length xs" unfolding first_index_def
    by (metis le_neq_implies_less length_takeWhile_le take_all_iff takeWhile_eq_take)
  with True show ?thesis by (auto simp: first_index_def takeWhile_append)
next
  case False
  then have tw: "takeWhile (\<lambda>x. \<not> P x) xs = xs" by (auto simp: takeWhile_eq_all_conv)
  with False show ?thesis by (simp add: first_index_def takeWhile_append tw)
qed

lemma first_index_nth: "first_index P xs < length xs \<Longrightarrow> P (xs ! first_index P xs)"
  unfolding first_index_def using nth_length_takeWhile [of "\<lambda>x. \<not> P x" xs] by simp

locale cell_step =
  fixes step :: "nat \<Rightarrow> kv_cells \<Rightarrow> bool \<times> kv_cells"
    and pre :: "kv_cell \<Rightarrow> bool"
    and new :: "kv_cell \<Rightarrow> kv_cell"
    and frees :: "kv_cell \<Rightarrow> bool"
    and shifts :: "kv_cell \<Rightarrow> bool"
  assumes step_mk: "cells_ok ks \<Longrightarrow> i < length ks \<Longrightarrow> pre (ks ! i) \<Longrightarrow>
      step i (mk_cells ks b) = (frees (ks ! i), mk_cells (ks[i := new (ks ! i)]) (b \<or> shifts (ks ! i)))"
    and new_ok: "cell_ok k \<Longrightarrow> pre k \<Longrightarrow> cell_ok (new k)"
begin

lemma loop_prefix:
  assumes "cells_ok ks" and "\<forall>k \<in> set ks. pre k" and "m \<le> length ks"
  shows "fold (\<lambda>i (new_head, c). let (freed, c') = step i c in
             (if freed \<and> new_head = cells_size c then i else new_head, c'))
           [0..<m] (length ks, mk_cells ks b)
       = (if first_index frees (take m ks) < m then first_index frees (take m ks) else length ks,
          mk_cells (map new (take m ks) @ drop m ks) (b \<or> (\<exists>k \<in> set (take m ks). shifts k)))"
  using assms(3)
proof (induction m)
  case (Suc m)
  let ?ks = "map new (take m ks) @ drop m ks"
  have m: "m < length ks" using Suc.prems by simp
  have nth: "?ks ! m = ks ! m" using m by (simp add: nth_append)
  have ok: "cells_ok ?ks"
    using assms(1,2) new_ok by (auto dest: in_set_takeD in_set_dropD)
  have upd: "?ks[m := new (ks ! m)] = map new (take (Suc m) ks) @ drop (Suc m) ks"
    using m by (simp add: list_update_append take_Suc_conv_app_nth Cons_nth_drop_Suc [symmetric])
  have step: "step m (mk_cells ?ks b') = (frees (ks ! m),
      mk_cells (map new (take (Suc m) ks) @ drop (Suc m) ks) (b' \<or> shifts (ks ! m)))" for b'
    using step_mk [OF ok, of m b'] m assms(2) by (simp add: nth upd)
  have t: "take (Suc m) ks = take m ks @ [ks ! m]" using m by (rule take_Suc_conv_app_nth)
  have l: "length (take m ks) = m" using m by simp
  have ex: "(\<exists>k \<in> set (take (Suc m) ks). shifts k) \<longleftrightarrow> (\<exists>k \<in> set (take m ks). shifts k) \<or> shifts (ks ! m)"
    by (auto simp: t)
  show ?case using Suc m step first_index_le [of frees "take m ks"]
    by (auto simp: ex l first_index_snoc [of frees "take m ks" "ks ! m", folded t, unfolded l])
qed simp

lemma loop_mk:
  assumes "cells_ok ks" and "\<forall>k \<in> set ks. pre k"
  shows "cells_loop step (mk_cells ks b)
       = (first_index frees ks, mk_cells (map new ks) (b \<or> (\<exists>k \<in> set ks. shifts k)))"
  using loop_prefix [OF assms order_refl, of b] first_index_le [of frees ks]
  by (simp add: cells_loop_def)

lemma new_list_ok: "cells_ok ks \<Longrightarrow> \<forall>k \<in> set ks. pre k \<Longrightarrow> cells_ok (map new ks)"
  using new_ok by auto

end

subsection \<open>Preservation of the invariant\<close>

lemma cell_ok_seq_subset: "cell_ok k \<Longrightarrow> k_pos k \<noteq> -1 \<Longrightarrow> S \<subseteq> valid_seqs \<Longrightarrow> cell_ok (k\<lparr>k_seq := S\<rparr>)"
  by (simp add: cell_ok_def)

lemma cell_ok_ne: "cell_ok k \<Longrightarrow> s \<in> k_seq k \<Longrightarrow> k_pos k \<noteq> -1"
  by (auto simp: cell_ok_def)

lemma cell_ok_shifted: "cell_ok k \<Longrightarrow> cell_ok (cell_shifted d k)"
  by (auto simp: cell_shifted_def cell_ok_def)

lemma cell_ok_divided: "cell_ok k \<Longrightarrow> k_pos k \<noteq> -1 \<Longrightarrow> 0 < d \<Longrightarrow> cell_ok (cell_divided d k)"
proof -
  assume k: "cell_ok k" "k_pos k \<noteq> -1" and d: "0 < d"
  then have "0 \<le> k_pos k" by (auto simp: cell_ok_def)
  then have "0 \<le> cdiv (k_pos k) d" using cdiv_nonneg d by blast
  with k show ?thesis by (auto simp: cell_divided_def cell_ok_def)
qed

lemma cell_ok_kept: "cell_ok k \<Longrightarrow> cell_ok (cell_kept s k)"
  by (auto simp: cell_kept_def cell_ok_def)

lemma cell_ok_noshift: "cell_ok k \<Longrightarrow> cell_ok (k\<lparr>k_shift := shift_zero\<rparr>)"
  by (auto simp: cell_ok_def cell_empty_def)

lemmas cell_ok_intros = cell_ok_noshift cell_ok_empty cell_ok_shifted cell_ok_divided cell_ok_kept cell_ok_seq_subset

lemma cells_wf_update:
  assumes "cells_ok ks" and "cell_ok k"
  shows "cells_wf (mk_cells (ks[i := k]) b)"
  using assms by (intro cells_wf_mk cell_ok_update)

text \<open>One rule per mutator of the class, with the preconditions the source asserts for it (and, for
  \<open>seq_add\<close>, \<open>pos_set\<close>, \<open>ext_set\<close> and \<open>pos_div\<close>, those its callers establish: a sequence id below
  \<open>LLAMA_MAX_SEQ\<close>, a position that is not negative, a cell in use, a positive divisor).\<close>

inductive cells_op :: "kv_cells \<Rightarrow> kv_cells \<Rightarrow> bool" where
  op_reset: "cells_op c (cells_reset c)"
| op_reset_shift: "cells_op c (reset_shift c)"
| op_rm: "i < cells_size c \<Longrightarrow> \<not> cells_is_empty c i \<Longrightarrow> cells_op c (cells_rm i c)"
| op_seq_rm: "i < cells_size c \<Longrightarrow> seq_has c i s \<Longrightarrow> cells_op c (snd (cells_seq_rm i s c))"
| op_seq_keep: "i < cells_size c \<Longrightarrow> cells_op c (snd (cells_seq_keep i s c))"
| op_seq_add: "i < cells_size c \<Longrightarrow> \<not> cells_is_empty c i \<Longrightarrow> \<not> seq_has c i s \<Longrightarrow> s \<in> valid_seqs
    \<Longrightarrow> cells_op c (cells_seq_add i s c)"
| op_pos_set: "i < cells_size c \<Longrightarrow> cells_is_empty c i \<Longrightarrow> 0 \<le> p \<Longrightarrow> cells_op c (pos_set i p c)"
| op_ext_set: "i < cells_size c \<Longrightarrow> \<not> cells_is_empty c i \<Longrightarrow> cells_op c (ext_set i e c)"
| op_pos_shift: "i < cells_size c \<Longrightarrow> \<not> cells_is_empty c i \<Longrightarrow> cells_op c (snd (pos_shift i d c))"
| op_pos_add: "i < cells_size c \<Longrightarrow> \<not> cells_is_empty c i \<Longrightarrow> cells_op c (snd (pos_add i dp b c))"
| op_pos_div: "i < cells_size c \<Longrightarrow> \<not> cells_is_empty c i \<Longrightarrow> 0 < dv \<Longrightarrow> cells_op c (pos_div i dv c)"

text \<open>Arrays of all sizes: a new one, the mutators, \<open>resize\<close>, and the two overloads of \<open>set\<close> with cells that \<open>cp\<close> has saved from any reachable array; the cells they overwrite have no
  pending shift, as the source asserts.\<close>

inductive cells_reachable :: "nat \<Rightarrow> kv_cells \<Rightarrow> bool" where
  reach_new: "cells_reachable n (cells_resize n cells_new)"
| reach_op: "cells_reachable n c \<Longrightarrow> cells_op c d \<Longrightarrow> cells_reachable n d"
| reach_resize: "cells_reachable n c \<Longrightarrow> cells_reachable m (cells_resize m c)"
| reach_set: "cells_reachable n c \<Longrightarrow> cells_reachable m c0 \<Longrightarrow> length idxs0 = length idxs \<Longrightarrow> \<forall>i \<in> set idxs0. i < m
    \<Longrightarrow> \<forall>i \<in> set idxs. i < n \<and> shift_is_zero (get_shift_ext c i) \<Longrightarrow> cells_reachable n (cells_set idxs (cells_cp c0 idxs0) c)"
| reach_set_range: "cells_reachable n c \<Longrightarrow> cells_reachable m c0 \<Longrightarrow> i0 + k \<le> m \<Longrightarrow> i + k \<le> n
    \<Longrightarrow> \<forall>j < k. shift_is_zero (get_shift_ext c (i + j)) \<Longrightarrow> cells_reachable n (cells_set_range i (cells_cp_range c0 i0 k) c)"

lemma cells_is_empty_mk: "i < length ks \<Longrightarrow> cells_is_empty (mk_cells ks b) i \<longleftrightarrow> k_pos (ks ! i) = -1"
  by (simp add: cells_is_empty_def)

lemma seq_has_mk: "i < length ks \<Longrightarrow> seq_has (mk_cells ks b) i s \<longleftrightarrow> s \<in> k_seq (ks ! i)"
  by (simp add: seq_has_def)

lemma cell_ok_is_empty: "cells_ok ks \<Longrightarrow> i < length ks \<Longrightarrow> k_pos (ks ! i) = -1 \<Longrightarrow> ks ! i = cell_empty"
  by (simp add: cell_ok_def)

lemmas cells_op_mk = cells_reset_mk reset_shift_mk cells_rm_mk cells_seq_rm_mk cells_seq_keep_mk
  cells_seq_add_mk pos_set_mk ext_set_mk pos_shift_mk pos_div_mk

lemma cells_op_wf:
  assumes "cells_op c d" and "cells_wf c"
  shows "cells_wf d \<and> cells_size d = cells_size c"
proof -
  obtain ks b where c: "c = mk_cells ks b" and ok: "cells_ok ks" using assms(2) by (rule cells_wfE)
  have nth: "cell_ok (ks ! i)" if "i < length ks" for i using ok that by simp
  have "cells_wf d \<and> cells_size d = length ks" using assms(1) unfolding c
  proof cases
    case op_reset
    then show ?thesis by (auto simp: cells_reset_mk ok)
  next
    case op_reset_shift
    then show ?thesis using ok by (auto simp: reset_shift_mk intro!: cells_wf_mk cell_ok_noshift)
  next
    case (op_rm i)
    then show ?thesis using ok by (simp add: cells_rm_mk cells_wf_update)
  next
    case (op_seq_rm i s)
    then have "s \<in> k_seq (ks ! i)" "i < length ks" by (simp_all add: seq_has_mk)
    moreover from this have "k_pos (ks ! i) \<noteq> -1" using nth cell_ok_ne by blast
    moreover from calculation have "cell_ok ((ks ! i)\<lparr>k_seq := k_seq (ks ! i) - {s}\<rparr>)"
      using nth [of i] by (intro cell_ok_seq_subset) (auto simp: cell_ok_def)
    ultimately show ?thesis using op_seq_rm ok
      by (simp add: cells_seq_rm_mk Let_def cells_wf_update)
  next
    case (op_seq_keep i s)
    then show ?thesis using ok nth by (simp add: cells_seq_keep_mk cells_wf_update cell_ok_kept)
  next
    case (op_seq_add i s)
    then have *: "i < length ks" "k_pos (ks ! i) \<noteq> -1" "s \<notin> k_seq (ks ! i)" "s \<in> valid_seqs"
      by (simp_all add: seq_has_mk cells_is_empty_mk)
    then have "cell_ok ((ks ! i)\<lparr>k_seq := insert s (k_seq (ks ! i))\<rparr>)"
      using nth [of i] by (intro cell_ok_seq_subset) (auto simp: cell_ok_def)
    then show ?thesis using op_seq_add(1) * ok by (simp add: cells_seq_add_mk cells_wf_update)
  next
    case (op_pos_set i p)
    then have "i < length ks" "ks ! i = cell_empty"
      using ok by (simp_all add: cells_is_empty_mk cell_ok_is_empty)
    then show ?thesis using op_pos_set ok by (simp add: pos_set_mk cells_wf_update cell_ok_def)
  next
    case (op_ext_set i e)
    then have "cell_ok ((ks ! i)\<lparr>k_ext := e\<rparr>)"
      using nth [of i] by (simp add: cells_is_empty_mk cell_ok_def)
    then show ?thesis using op_ext_set ok by (simp add: ext_set_mk cells_wf_update)
  next
    case (op_pos_shift i d)
    then show ?thesis using ok nth
      by (simp add: cells_is_empty_mk pos_shift_mk cells_wf_update cell_ok_shifted)
  next
    case (op_pos_add i dp b)
    then show ?thesis using ok nth
      by (simp add: cells_is_empty_mk pos_add_def pos_shift_mk cells_wf_update cell_ok_shifted)
  next
    case (op_pos_div i dv)
    then show ?thesis using ok nth
      by (simp add: cells_is_empty_mk pos_div_mk cells_wf_update cell_ok_divided)
  qed
  then show ?thesis by (simp add: c)
qed

lemma cells_wf_new: "cells_wf (cells_resize n cells_new)"
  by (auto simp: cells_resize_new)

lemma cells_cp_range_cp: "cells_cp_range c i n = cells_cp c [i..<i + n]"
  unfolding cells_cp_range_def cells_cp_def Let_def by (auto intro!: fold_cong)

lemma cells_set_range_set: "cells_set_range i other c = cells_set [i..<i + length (c_pos other)] other c"
  unfolding cells_set_range_def cells_set_def by (auto intro!: fold_cong)

lemma cells_set1_wf:
  assumes "cells_wf c" and "i < cells_size c" and "shift_is_zero (get_shift_ext c i)"
    and "cells_wf o1" and "m < cells_size o1"
    and "c_pos other ! j = c_pos o1 ! m" "c_ext other ! j = c_ext o1 ! m" "c_seq other ! j = c_seq o1 ! m"
  shows "cells_wf (cells_set1 i j other c) \<and> cells_size (cells_set1 i j other c) = cells_size c
    \<and> c_shift (cells_set1 i j other c) = c_shift c"
proof -
  obtain ks b where c: "c = mk_cells ks b" and ok: "cells_ok ks" using assms(1) by (rule cells_wfE)
  obtain os b' where o: "o1 = mk_cells os b'" and oks: "cells_ok os" using assms(4) by (rule cells_wfE)
  let ?k = "(os ! m)\<lparr>k_shift := shift_zero\<rparr>"
  have k: "cell_ok ?k" using oks assms(5) by (simp add: o cell_ok_noshift)
  have s: "k_shift (ks ! i) = shift_zero" using assms(2,3) by (simp add: c shift_is_zero_def get_shift_ext_def)
  have e: "cells_set1 i j other c = mk_cells (ks[i := ?k]) b"
    unfolding c using assms(2,5-8) ok k s by (intro cells_set1_mk) (simp_all add: c o)
  have "map k_shift (ks[i := ?k]) = map k_shift ks" using s by (simp add: map_update list_update_same_conv c assms(2) [unfolded c, simplified])
  then show ?thesis unfolding e using ok k by (simp add: c cells_wf_update)
qed

lemma cells_set_wf:
  assumes "cells_wf c" "cells_wf o1" "length idxs0 = length idxs" "\<forall>m \<in> set idxs0. m < cells_size o1"
    and "\<forall>i \<in> set idxs. i < cells_size c \<and> shift_is_zero (get_shift_ext c i)"
  shows "cells_wf (cells_set idxs (cells_cp o1 idxs0) c) \<and> cells_size (cells_set idxs (cells_cp o1 idxs0) c) = cells_size c
    \<and> c_shift (cells_set idxs (cells_cp o1 idxs0) c) = c_shift c"
proof -
  let ?o = "cells_cp o1 idxs0" and ?f = "\<lambda>j. cells_set1 (idxs ! j) j (cells_cp o1 idxs0)"
  have step: "cells_wf (?f j d) \<and> cells_size (?f j d) = cells_size c \<and> c_shift (?f j d) = c_shift c"
    if "cells_wf d \<and> cells_size d = cells_size c \<and> c_shift d = c_shift c" "j < length idxs" for d j
  proof -
    have i: "idxs ! j < cells_size d" "shift_is_zero (get_shift_ext d (idxs ! j))" using assms(5) that by (auto simp: get_shift_ext_def)
    have m: "idxs0 ! j < cells_size o1" using assms(3,4) that(2) by simp
    show ?thesis using cells_set1_wf [OF _ i assms(2) m, of ?o j] that assms(3) by (simp add: cells_cp_sel)
  qed
  let ?P = "\<lambda>d. cells_wf d \<and> cells_size d = cells_size c \<and> c_shift d = c_shift c"
  have "?P d \<Longrightarrow> set js \<subseteq> {..<length idxs} \<Longrightarrow> ?P (fold ?f js d)" for js d
  proof (induction js arbitrary: d)
    case (Cons j js)
    then have "?P (?f j d)" using step [of d j] by simp
    then show ?case using Cons.IH [of "?f j d"] Cons.prems(2) by simp
  qed simp
  from this [of c "[0..<length idxs]"] show ?thesis using assms(1,3) by (simp add: cells_set_def cells_cp_sel lessThan_atLeast0)
qed

lemma cells_set_seqs: "set (c_seq (cells_set idxs other c)) \<subseteq> set (c_seq c) \<union> set (c_seq other)" if "length (c_pos other) = length (c_seq other)"
proof -
  have step: "c_seq (cells_set1 i j other c) = (c_seq c)[i := c_seq other ! j]" for i j c
    by (simp add: cells_set1_def Let_def seq_pos_rm_eq seq_pos_add_eq)
  have "set js \<subseteq> {..<length (c_seq other)} \<Longrightarrow> set (c_seq (fold (\<lambda>j. cells_set1 (idxs ! j) j other) js c)) \<subseteq> set (c_seq c) \<union> set (c_seq other)" for js
  proof (induction js arbitrary: c)
    case (Cons j js)
    then have "set (c_seq (cells_set1 (idxs ! j) j other c)) \<subseteq> set (c_seq c) \<union> set (c_seq other)" using set_update_subset_insert by (fastforce simp: step)
    then show ?case using Cons.IH [of "cells_set1 (idxs ! j) j other c"] Cons.prems by auto
  qed simp
  from this [of "[0..<length (c_pos other)]"] show ?thesis using that by (simp add: cells_set_def lessThan_atLeast0)
qed

lemma cells_resize_wf: "cells_wf c \<Longrightarrow> cells_resize n c = mk_cells (replicate n cell_empty) False"
proof -
  assume "cells_wf c"
  then obtain ks b where c: "c = mk_cells ks b" and ok: "cells_ok ks" by (rule cells_wfE)
  have "(\<lambda>s. if 0 \<le> s \<and> s < int LLAMA_MAX_SEQ then Map.empty else count_map (occ ks s)) = (\<lambda>s. Map.empty)"
    using occ_invalid [OF ok] by (auto simp: fun_eq_iff count_map_def valid_seqs_def)
  moreover have "min (length ks) n + (n - length ks) = n" by simp
  ultimately show ?thesis
    by (simp add: c cells_resize_def cells_reset_def vec_resize_def mk_cells_def occ_replicate_empty map_replicate_const o_def cong: if_cong flip: replicate_add)
qed

lemma cells_reachable_wf: "cells_reachable n c \<Longrightarrow> cells_wf c \<and> cells_size c = n"
proof (induction rule: cells_reachable.induct)
  case (reach_new n)
  show ?case by (simp add: cells_wf_new) (simp add: cells_resize_new)
next
  case (reach_op n c d)
  then show ?case using cells_op_wf by metis
next
  case (reach_resize n c m)
  then show ?case by (auto simp: cells_resize_wf)
next
  case (reach_set n c m c0 idxs0 idxs)
  then show ?case using cells_set_wf [of c c0 idxs0 idxs] by simp
next
  case (reach_set_range n c m c0 i0 k i)
  have "\<exists>j < k. x = i + j" if "x \<in> set [i..<i + k]" for x using that by (intro exI [of _ "x - i"]) auto
  then have "\<forall>x \<in> set [i..<i + k]. x < cells_size c \<and> shift_is_zero (get_shift_ext c x)" using reach_set_range by fastforce
  then show ?case using cells_set_wf [of c c0 "[i0..<i0 + k]" "[i..<i + k]"] reach_set_range by (simp add: cells_set_range_set cells_cp_range_cp cells_cp_sel)
qed

subsection \<open>Properties of the cell array\<close>

lemma occ_card: "occ ks s p = card {i. i < length ks \<and> k_pos (ks ! i) = p \<and> s \<in> k_seq (ks ! i)}"
proof -
  have "occ ks s p = (\<Sum>i \<in> {..<length ks}. if k_pos (ks ! i) = p \<and> s \<in> k_seq (ks ! i) then 1 else 0)"
    by (simp add: occ_def cell_ind_def)
  also have "\<dots> = card ({..<length ks} \<inter> {i. k_pos (ks ! i) = p \<and> s \<in> k_seq (ks ! i)})"
    by (simp add: sum.If_cases)
  also have "{..<length ks} \<inter> {i. k_pos (ks ! i) = p \<and> s \<in> k_seq (ks ! i)}
      = {i. i < length ks \<and> k_pos (ks ! i) = p \<and> s \<in> k_seq (ks ! i)}" by auto
  finally show ?thesis .
qed

text \<open>C4. In every state of a cell array that its mutators reach when they are called as their assertions demand (in particular \<open>seq_add\<close> only for a sequence that the cell does not have yet,
  \<open>pos_set\<close> only on an empty cell, \<open>set\<close> only on cells without a pending shift), the two incremental indices are exact: \<open>used\<close> is the set of the non-empty cells, and \<open>seq_pos[s]\<close> maps a
  position to the number of cells of sequence \<open>s\<close> at that position, with no entry for a position the sequence does not hold.\<close>

theorem kv_cells_indices_exact:
  assumes "cells_reachable n c"
  shows "c_used c = {i. i < n \<and> c_pos c ! i \<noteq> -1} \<and>
    (\<forall>s p. c_seq_pos c s p =
       (let m = card {i. i < n \<and> c_pos c ! i = p \<and> s \<in> c_seq c ! i} in if m = 0 then None else Some m))"
proof -
  from cells_reachable_wf [OF assms] obtain ks b where c: "c = mk_cells ks b" and n: "n = length ks"
    by (auto elim!: cells_wfE)
  have "{i. i < n \<and> c_pos c ! i = p \<and> s \<in> c_seq c ! i}
      = {i. i < length ks \<and> k_pos (ks ! i) = p \<and> s \<in> k_seq (ks ! i)}" for s p
    by (auto simp: c n)
  then show ?thesis by (auto simp: c n count_map_def occ_card)
qed

definition demo_cells :: kv_cells where
  "demo_cells = cells_seq_add 0 1 (pos_set 0 5 (cells_resize 2 cells_new))"

lemma demo_cells_mk: "demo_cells = mk_cells [cell_empty\<lparr>k_pos := 5, k_seq := {1}\<rparr>, cell_empty] False"
  by (simp add: demo_cells_def cells_resize_new numeral_2_eq_2 pos_set_mk cells_seq_add_mk)

lemma demo_cells_reachable: "cells_reachable 2 demo_cells"
proof -
  have s: "cells_reachable 2 (pos_set 0 5 (cells_resize 2 cells_new))"
    by (rule reach_op [OF reach_new], rule op_pos_set)
      (simp_all add: cells_resize_new cells_is_empty_def)
  show ?thesis unfolding demo_cells_def
    by (rule reach_op [OF s], rule op_seq_add)
      (simp_all add: cells_resize_new numeral_2_eq_2 pos_set_mk cells_is_empty_def seq_has_def
        valid_seqs_def LLAMA_MAX_SEQ_def)
qed

theorem kv_cells_indices_exact_witness:
  "cells_reachable 2 demo_cells \<and> c_used demo_cells = {i. i < 2 \<and> c_pos demo_cells ! i \<noteq> -1}"
  using demo_cells_reachable kv_cells_indices_exact [OF demo_cells_reachable] by blast

text \<open>\<open>seq_pos_min\<close> and \<open>seq_pos_max\<close>, which read the first and last key of the index, return the
  least and the greatest position the sequence holds in any cell, and -1 when it holds none.\<close>

theorem kv_cells_seq_pos_min_max:
  assumes "cells_reachable n c"
  defines "P s \<equiv> {c_pos c ! i |i. i < n \<and> s \<in> c_seq c ! i}"
  shows "cells_seq_pos_min c s = (if P s = {} then -1 else Min (P s)) \<and>
         cells_seq_pos_max c s = (if P s = {} then -1 else Max (P s))"
proof -
  from cells_reachable_wf [OF assms(1)] obtain ks b where c: "c = mk_cells ks b" and n: "n = length ks"
    by (auto elim!: cells_wfE)
  have "P s = seq_positions ks s"
    unfolding seq_positions_nth by (force simp: P_def c n)
  then show ?thesis unfolding c by (simp only: cells_seq_pos_min_mk cells_seq_pos_max_mk)
qed

theorem kv_cells_seq_pos_min_max_witness:
  "cells_seq_pos_max demo_cells 1 = 5 \<and> cells_seq_pos_min demo_cells 1 = 5 \<and> cells_seq_pos_min demo_cells 0 = -1"
proof -
  have P: "{c_pos demo_cells ! i |i. i < 2 \<and> 1 \<in> c_seq demo_cells ! i} = {5}"
    "{c_pos demo_cells ! i |i. i < 2 \<and> 0 \<in> c_seq demo_cells ! i} = {}"
    by (auto simp: demo_cells_mk less_2_cases_iff nth_Cons')
  show ?thesis
    using kv_cells_seq_pos_min_max [OF demo_cells_reachable, of 1]
      kv_cells_seq_pos_min_max [OF demo_cells_reachable, of 0]
    by (simp add: P)
qed

text \<open>C29. Saving cells with \<open>cp\<close> and writing them back with \<open>set\<close> undoes every change made in between
  to those cells, including the two indices: if a second array differs from the saved one only in
  the saved cells, and no shift is pending in them, the result is the saved array itself.\<close>

theorem kv_cells_save_restore:
  assumes "cells_wf c" and "cells_wf d" and "cells_size d = cells_size c" and "c_has_shift d = c_has_shift c"
    and "\<forall>i \<in> set idxs. i < cells_size c \<and> shift_is_zero (get_shift_ext c i) \<and> shift_is_zero (get_shift_ext d i)"
    and "\<forall>i < cells_size c. i \<notin> set idxs \<longrightarrow> cell_at d i = cell_at c i"
  shows "cells_set idxs (cells_cp c idxs) d = c"
proof -
  obtain ks0 b0 where c: "c = mk_cells ks0 b0" and ok0: "cells_ok ks0" using assms(1) by (rule cells_wfE)
  obtain ks b where d: "d = mk_cells ks b" and ok: "cells_ok ks" using assms(2) by (rule cells_wfE)
  have b: "b = b0" using assms(4) by (simp add: c d)
  have l: "length ks = length ks0" using assms(3) by (simp add: c d)
  have "i < length ks0 \<and> k_shift (ks ! i) = k_shift (ks0 ! i)" if "i \<in> set idxs" for i
    using assms(5) that l by (auto simp: c d shift_is_zero_def get_shift_ext_def)
  moreover have "ks ! i = ks0 ! i" if "i < length ks0" "i \<notin> set idxs" for i
    using assms(6) that l by (simp add: c d)
  ultimately show ?thesis
    unfolding c d b using cells_restore_mk [OF ok0 ok l] by blast
qed

theorem kv_cells_save_restore_witness:
  "cells_set [0] (cells_cp demo_cells [0]) (cells_rm 0 demo_cells) = demo_cells \<and> cells_rm 0 demo_cells \<noteq> demo_cells"
proof -
  let ?k = "cell_empty\<lparr>k_pos := 5, k_seq := {1}\<rparr>"
  have ok: "cells_ok [?k, cell_empty]" by (simp add: cell_ok_def valid_seqs_def LLAMA_MAX_SEQ_def)
  have rm: "cells_rm 0 demo_cells = mk_cells [cell_empty, cell_empty] False"
    using ok by (simp add: demo_cells_mk cells_rm_mk)
  have "cells_set [0] (cells_cp demo_cells [0]) (cells_rm 0 demo_cells) = demo_cells"
  proof (rule kv_cells_save_restore)
    show "cells_wf demo_cells" using ok unfolding demo_cells_mk by (rule cells_wf_mk)
    show "cells_wf (cells_rm 0 demo_cells)" unfolding rm by auto
  qed (auto simp: rm [unfolded demo_cells_mk] demo_cells_mk shift_is_zero_def get_shift_ext_def less_Suc_eq)
  moreover have "c_pos (cells_rm 0 demo_cells) \<noteq> c_pos demo_cells"
    unfolding rm by (simp add: demo_cells_mk)
  ultimately show ?thesis by metis
qed

text \<open>A position shift either frees the cell, exactly when the new position would be negative, or
  records the shift: position minus accumulated shift, in each of the three axes, is the same as
  before, so the position a cell had when its keys were last rotated can be recovered from it. No
  other cell changes, and \<open>has_shift\<close> is set.\<close>

theorem pos_shift_accounting:
  assumes "cells_wf c" and "i < cells_size c" and "\<not> cells_is_empty c i"
    and "pos_shift i d c = (freed, c')"
  shows "(freed \<longleftrightarrow> pos_get c i + sh_t d < 0) \<and>
    (freed \<longrightarrow> cell_at c' i = cell_empty) \<and>
    (\<not> freed \<longrightarrow> pos_get c' i - get_shift c' i = pos_get c i - get_shift c i
        \<and> ext_x (ext_get c' i) - sh_x (get_shift_ext c' i) = ext_x (ext_get c i) - sh_x (get_shift_ext c i)
        \<and> ext_y (ext_get c' i) - sh_y (get_shift_ext c' i) = ext_y (ext_get c i) - sh_y (get_shift_ext c i)
        \<and> c_seq c' ! i = c_seq c ! i) \<and>
    (\<forall>j < cells_size c. j \<noteq> i \<longrightarrow> cell_at c' j = cell_at c j) \<and> get_has_shift c' \<and> cells_wf c'"
proof -
  obtain ks b where c: "c = mk_cells ks b" and ok: "cells_ok ks" using assms(1) by (rule cells_wfE)
  have i: "i < length ks" "k_pos (ks ! i) \<noteq> -1" using assms(2,3) by (simp_all add: c cells_is_empty_mk)
  have *: "freed = (k_pos (ks ! i) + sh_t d < 0)" "c' = mk_cells (ks[i := cell_shifted d (ks ! i)]) True"
    using assms(4) pos_shift_mk [OF i(1) ok i(2), of d b] by (auto simp: c)
  have "cells_wf c'" unfolding * using ok i by (simp add: cells_wf_update cell_ok_shifted)
  then show ?thesis using i
    by (auto simp: * c cell_shifted_def pos_get_def get_shift_def ext_get_def get_shift_ext_def
        get_has_shift_def ext_move_def shift_plus_def)
qed

theorem pos_shift_accounting_witness:
  "\<exists>freed c'. pos_shift 0 (shift_delta 3 False) demo_cells = (freed, c') \<and> \<not> freed
     \<and> pos_get c' 0 - get_shift c' 0 = 5"
proof -
  obtain freed c' where e: "pos_shift 0 (shift_delta 3 False) demo_cells = (freed, c')" by fastforce
  have "cells_wf demo_cells" using cells_reachable_wf [OF demo_cells_reachable] by simp
  from pos_shift_accounting [OF this _ _ e]
  have "freed \<longleftrightarrow> pos_get demo_cells 0 + sh_t (shift_delta 3 False) < 0"
    "\<not> freed \<longrightarrow> pos_get c' 0 - get_shift c' 0 = pos_get demo_cells 0 - get_shift demo_cells 0"
    by (auto simp: demo_cells_mk cells_is_empty_def)
  with e show ?thesis
    by (intro exI [of _ freed] exI [of _ c'])
      (simp add: demo_cells_mk pos_get_def get_shift_def shift_delta_def shift_zero_def)
qed

end
