(* ===== verification/KV_Cache.thy ===== *)
theory KV_Cache
  imports KV_Cells Hparams Batch_Init
begin

section \<open>The KV cache: sequence operations\<close>

text \<open>
  \<^verbatim>\<open>src/llama-kv-cache.cpp\<close>. The cache holds one cell array and one search head per stream. With a
  unified buffer there is one stream for all sequences, otherwise one stream per sequence.

  \<^item> \<open>kv_cache\<close> keeps the members of the class that the modelled methods read or write. The K and V
    tensors, their buffers and the layer tables are not part of it.
  \<^item> \<open>other\<close>, the cache whose cells are shared, is present or not; the only data of it that a method
    reads besides the shared cells is its \<open>seq_to_stream\<close>.
  \<^item> \<open>model.arch == LLM_ARCH_STEP35\<close> is the Boolean \<open>kc_step35\<close>.
  \<^item> The pending stream copies are kept in \<open>kc_sc_info\<close>; \<open>update\<close> performs them on the K and V data,
    which it takes and returns as one value per stream.

  This theory has the sequence operations; \<open>KV_Slots\<close> has slot search and placement.
\<close>

record stream_copy_info =
  sc_ssrc :: "nat list"
  sc_sdst :: "nat list"

record kv_cache =
  kc_hparams :: llama_hparams
  kc_step35 :: bool
  kc_n_seq_max :: nat
  kc_n_stream :: nat
  kc_n_pad :: nat
  kc_n_swa :: nat
  kc_swa_type :: llama_swa_type
  kc_v_heads :: "nat list"
  kc_v_cells :: "kv_cells list"
  kc_seq_to_stream :: "nat list"
  kc_sc_info :: stream_copy_info
  kc_other :: "nat list option"

definition sc_empty :: stream_copy_info where
  "sc_empty = \<lparr>sc_ssrc = [], sc_sdst = []\<rparr>"

text \<open>The part of the constructor that sets up streams, heads and cells (\<open>other = nullptr\<close>).\<close>

definition kv_cache_new :: "llama_hparams \<Rightarrow> bool \<Rightarrow> bool \<Rightarrow> nat \<Rightarrow> nat \<Rightarrow> nat \<Rightarrow> nat \<Rightarrow> llama_swa_type \<Rightarrow> kv_cache res" where
  "kv_cache_new hp step35 unified kv_size n_seq_max n_pad n_swa swa_type =
    (let n_stream = (if unified then 1 else n_seq_max)
     in ggml_assert (kv_size mod n_pad = 0) ''kv_size % n_pad == 0''
       (ggml_assert (n_stream = 1 \<or> n_stream = n_seq_max) ''n_stream == 1 || n_stream == n_seq_max''
         (Inr \<lparr>kc_hparams = hp, kc_step35 = step35, kc_n_seq_max = n_seq_max, kc_n_stream = n_stream,
              kc_n_pad = n_pad, kc_n_swa = n_swa, kc_swa_type = swa_type,
              kc_v_heads = replicate n_stream 0,
              kc_v_cells = replicate n_stream (cells_resize kv_size cells_new),
              kc_seq_to_stream = (if n_stream > 1 then fold (\<lambda>s v. v[s := s]) [0..<n_stream]
                                    (vec_resize n_stream 0 (replicate LLAMA_MAX_SEQ 0))
                                  else replicate LLAMA_MAX_SEQ 0),
              kc_sc_info = sc_empty, kc_other = None\<rparr>)))"

definition uses_mrope_shift :: "llama_hparams \<Rightarrow> bool" where
  "uses_mrope_shift hp \<longleftrightarrow> hp_rope_type hp = LLAMA_ROPE_TYPE_MROPE \<or> hp_rope_type hp = LLAMA_ROPE_TYPE_IMROPE"

definition get_can_shift :: "kv_cache \<Rightarrow> bool" where
  "get_can_shift kc = (let n = n_pos_per_embd (kc_hparams kc)
     in \<not> kc_step35 kc \<and> (n \<le> 1 \<or> (n = 4 \<and> uses_mrope_shift (kc_hparams kc))))"

definition get_size :: "kv_cache \<Rightarrow> nat" where
  "get_size kc = cells_size (kc_v_cells kc ! (kc_seq_to_stream kc ! 0))"

definition get_n_stream :: "kv_cache \<Rightarrow> nat" where
  "get_n_stream kc = kc_n_stream kc"

definition kv_get_has_shift :: "kv_cache \<Rightarrow> bool" where
  "kv_get_has_shift kc = fold (\<lambda>s r. r \<or> get_has_shift (kc_v_cells kc ! s)) [0..<kc_n_stream kc] False"

text \<open>\<open>seq_id >= 0 && (size_t) seq_id < seq_to_stream.size()\<close>, and the stream of a sequence.\<close>

definition seq_in_range :: "kv_cache \<Rightarrow> llama_seq_id \<Rightarrow> bool" where
  "seq_in_range kc s \<longleftrightarrow> s \<ge> 0 \<and> nat s < length (kc_seq_to_stream kc)"

definition strm :: "kv_cache \<Rightarrow> llama_seq_id \<Rightarrow> nat" where
  "strm kc s = kc_seq_to_stream kc ! nat s"

definition get_cells :: "kv_cache \<Rightarrow> llama_seq_id \<Rightarrow> kv_cells res" where
  "get_cells kc s = ggml_assert (seq_in_range kc s) ''seq_id'' (Inr (kc_v_cells kc ! strm kc s))"

definition set_stream :: "nat \<Rightarrow> kv_cells \<Rightarrow> nat \<Rightarrow> kv_cache \<Rightarrow> kv_cache" where
  "set_stream st c h kc = kc\<lparr>kc_v_cells := (kc_v_cells kc)[st := c], kc_v_heads := (kc_v_heads kc)[st := h]\<rparr>"

definition kv_clear :: "kv_cache \<Rightarrow> kv_cache" where
  "kv_clear kc = fold (\<lambda>s kc. set_stream s (cells_reset (kc_v_cells kc ! s)) 0 kc) [0..<kc_n_stream kc] kc"

text \<open>\<open>p0 < 0\<close> and \<open>p1 < 0\<close> stand for the ends of the position range.\<close>

definition range_lo :: "llama_pos \<Rightarrow> llama_pos" where
  "range_lo p0 = (if p0 < 0 then 0 else p0)"

definition range_hi :: "llama_pos \<Rightarrow> llama_pos" where
  "range_hi p1 = (if p1 < 0 then INT32_MAX else p1)"

text \<open>\<open>if (new_head != cells.size() && new_head < head) head = new_head\<close>.\<close>

definition lower_head :: "nat \<Rightarrow> nat \<Rightarrow> nat \<Rightarrow> nat" where
  "lower_head new_head n head = (if new_head \<noteq> n \<and> new_head < head then new_head else head)"

subsection \<open>\<open>seq_rm\<close>\<close>

definition seq_rm_step :: "llama_seq_id \<Rightarrow> llama_pos \<Rightarrow> llama_pos \<Rightarrow> nat \<Rightarrow> kv_cells \<Rightarrow> bool \<times> kv_cells" where
  "seq_rm_step s p0 p1 i c =
    (if \<not> pos_in c i p0 p1 then (False, c)
     else if seq_has c i s then cells_seq_rm i s c else (False, c))"

definition rm_any_step :: "llama_pos \<Rightarrow> llama_pos \<Rightarrow> nat \<Rightarrow> kv_cells \<Rightarrow> bool \<times> kv_cells" where
  "rm_any_step p0 p1 i c = (if \<not> pos_in c i p0 p1 then (False, c) else (True, cells_rm i c))"

definition run_stream :: "(nat \<Rightarrow> kv_cells \<Rightarrow> bool \<times> kv_cells) \<Rightarrow> nat \<Rightarrow> kv_cache \<Rightarrow> kv_cache" where
  "run_stream step st kc =
    (let c = kc_v_cells kc ! st; (new_head, c') = cells_loop step c
     in set_stream st c' (lower_head new_head (cells_size c') (kc_v_heads kc ! st)) kc)"

definition kv_seq_rm :: "llama_seq_id \<Rightarrow> llama_pos \<Rightarrow> llama_pos \<Rightarrow> kv_cache \<Rightarrow> (bool \<times> kv_cache) res" where
  "kv_seq_rm s p0 p1 kc =
    (if kc_other kc \<noteq> None then Inr (True, kc)
     else ggml_assert (s = -1 \<or> seq_in_range kc s) ''seq_id''
       (let p0 = range_lo p0; p1 = range_hi p1
        in Inr (True, if s \<ge> 0 then run_stream (seq_rm_step s p0 p1) (strm kc s) kc
                      else fold (run_stream (rm_any_step p0 p1)) [0..<kc_n_stream kc] kc)))"

subsection \<open>\<open>seq_cp\<close>\<close>

definition seq_cp_step :: "llama_seq_id \<Rightarrow> llama_seq_id \<Rightarrow> llama_pos \<Rightarrow> llama_pos \<Rightarrow> nat \<Rightarrow> kv_cells \<Rightarrow> bool \<times> kv_cells" where
  "seq_cp_step src dst p0 p1 i c =
    (if \<not> pos_in c i p0 p1 then (False, c)
     else if seq_has c i src then (False, cells_seq_add i dst c) else (False, c))"

text \<open>One cell of a copy between streams: it is set up at the position it had when its keys were last
  rotated, and the pending shift is applied again.\<close>

definition cross_cp_step :: "kv_cells \<Rightarrow> llama_seq_id \<Rightarrow> llama_seq_id \<Rightarrow> nat \<Rightarrow> kv_cells \<Rightarrow> kv_cells" where
  "cross_cp_step c0 src dst i c =
    (if seq_has c0 i src then
       let pos = pos_get c0 i; shift = get_shift_ext c0 i; ext = ext_get c0 i;
           (pos, ext) = (if \<not> shift_is_zero shift
             then (pos - sh_t shift, ext\<lparr>ext_y := ext_y ext - sh_y shift, ext_x := ext_x ext - sh_x shift\<rparr>)
             else (pos, ext));
           c = cells_seq_add i dst (ext_set i ext (pos_set i pos c))
       in if \<not> shift_is_zero shift then snd (pos_shift i shift c) else c
     else c)"

definition kv_seq_cp :: "llama_seq_id \<Rightarrow> llama_seq_id \<Rightarrow> llama_pos \<Rightarrow> llama_pos \<Rightarrow> kv_cache \<Rightarrow> kv_cache res" where
  "kv_seq_cp src dst p0 p1 kc =
    (if kc_other kc \<noteq> None then Inr kc
     else ggml_assert (seq_in_range kc src) ''seq_id_src''
       (ggml_assert (seq_in_range kc dst) ''seq_id_dst''
         (let s0 = strm kc src; s1 = strm kc dst
          in if s0 = s1 then
               (if src = dst then Inr kc
                else let (_, c) = cells_loop (seq_cp_step src dst (range_lo p0) (range_hi p1)) (kc_v_cells kc ! s0)
                     in Inr (kc\<lparr>kc_v_cells := (kc_v_cells kc)[s0 := c]\<rparr>))
             else
               let is_full = \<not> (p0 > 0 \<and> p0 + 1 < int (get_size kc)) \<and> \<not> (p1 > 0 \<and> p1 + 1 < int (get_size kc))
               in ggml_assert is_full ''seq_cp() is only supported for full KV buffers''
                 (let c0 = kc_v_cells kc ! s0;
                      c1 = fold (cross_cp_step c0 src dst) [0..<cells_size c0] (cells_reset (kc_v_cells kc ! s1))
                  in Inr ((set_stream s1 c1 (kc_v_heads kc ! s0) kc)
                       \<lparr>kc_sc_info := \<lparr>sc_ssrc = sc_ssrc (kc_sc_info kc) @ [s0], sc_sdst = sc_sdst (kc_sc_info kc) @ [s1]\<rparr>\<rparr>)))))"

subsection \<open>\<open>seq_keep\<close>, \<open>seq_add\<close>, \<open>seq_div\<close>\<close>

definition kv_seq_keep :: "llama_seq_id \<Rightarrow> kv_cache \<Rightarrow> kv_cache res" where
  "kv_seq_keep s kc =
    (if kc_other kc \<noteq> None then Inr kc
     else ggml_assert (seq_in_range kc s) ''seq_id''
       (Inr (run_stream (\<lambda>i. cells_seq_keep i s) (strm kc s) kc)))"

definition seq_add_step :: "llama_seq_id \<Rightarrow> llama_pos \<Rightarrow> llama_pos \<Rightarrow> llama_pos \<Rightarrow> bool \<Rightarrow> nat \<Rightarrow> kv_cells \<Rightarrow> bool \<times> kv_cells" where
  "seq_add_step s p0 p1 shift mrope i c =
    (if \<not> pos_in c i p0 p1 then (False, c)
     else if seq_has c i s then pos_add i shift mrope c else (False, c))"

definition kv_seq_add :: "llama_seq_id \<Rightarrow> llama_pos \<Rightarrow> llama_pos \<Rightarrow> llama_pos \<Rightarrow> kv_cache \<Rightarrow> kv_cache res" where
  "kv_seq_add s p0 p1 shift kc =
    (if kc_other kc \<noteq> None then Inr kc
     else ggml_assert (seq_in_range kc s) ''seq_id''
       (ggml_assert (get_can_shift kc) ''seq_add() is not supported for this model''
         (if shift = 0 then Inr kc
          else let p0 = range_lo p0; p1 = range_hi p1
               in if p0 = p1 then Inr kc
                  else let st = strm kc s; c = kc_v_cells kc ! st;
                           (new_head, c') = cells_loop (seq_add_step s p0 p1 shift (uses_mrope_shift (kc_hparams kc))) c
                       in Inr (set_stream st c' (if new_head \<noteq> cells_size c' then new_head else 0) kc))))"

definition seq_div_step :: "llama_seq_id \<Rightarrow> llama_pos \<Rightarrow> llama_pos \<Rightarrow> int \<Rightarrow> nat \<Rightarrow> kv_cells \<Rightarrow> bool \<times> kv_cells" where
  "seq_div_step s p0 p1 d i c =
    (if \<not> pos_in c i p0 p1 then (False, c)
     else if seq_has c i s then (False, pos_div i d c) else (False, c))"

definition kv_seq_div :: "llama_seq_id \<Rightarrow> llama_pos \<Rightarrow> llama_pos \<Rightarrow> int \<Rightarrow> kv_cache \<Rightarrow> kv_cache res" where
  "kv_seq_div s p0 p1 d kc =
    (if kc_other kc \<noteq> None then Inr kc
     else ggml_assert (seq_in_range kc s) ''seq_id''
       (ggml_assert (get_can_shift kc) ''seq_div() is not supported for this model''
         (if d = 1 then Inr kc
          else ggml_assert (\<not> uses_mrope_shift (kc_hparams kc)) ''seq_div() is not supported for multi-axis M-RoPE shifts''
            (let p0 = range_lo p0; p1 = range_hi p1
             in if p0 = p1 then Inr kc
                else let st = strm kc s; (_, c) = cells_loop (seq_div_step s p0 p1 d) (kc_v_cells kc ! st)
                     in Inr (kc\<lparr>kc_v_cells := (kc_v_cells kc)[st := c]\<rparr>)))))"

subsection \<open>Queries and updates\<close>

definition kv_seq_pos_min :: "kv_cache \<Rightarrow> llama_seq_id \<Rightarrow> llama_pos res" where
  "kv_seq_pos_min kc s = (case kc_other kc of
     Some so \<Rightarrow> ggml_assert (s \<ge> 0 \<and> nat s < length so) ''seq_id'' (Inr (cells_seq_pos_min (kc_v_cells kc ! (so ! nat s)) s))
   | None \<Rightarrow> ggml_assert (seq_in_range kc s) ''seq_id'' (Inr (cells_seq_pos_min (kc_v_cells kc ! strm kc s) s)))"

definition kv_seq_pos_max :: "kv_cache \<Rightarrow> llama_seq_id \<Rightarrow> llama_pos res" where
  "kv_seq_pos_max kc s = (case kc_other kc of
     Some so \<Rightarrow> ggml_assert (s \<ge> 0 \<and> nat s < length so) ''seq_id'' (Inr (cells_seq_pos_max (kc_v_cells kc ! (so ! nat s)) s))
   | None \<Rightarrow> ggml_assert (seq_in_range kc s) ''seq_id'' (Inr (cells_seq_pos_max (kc_v_cells kc ! strm kc s) s)))"

definition kv_seq_token_count :: "kv_cache \<Rightarrow> llama_seq_id \<Rightarrow> nat res" where
  "kv_seq_token_count kc s = (if s < 0
     then Inr (fold (\<lambda>c r. r + seq_token_count c s) (kc_v_cells kc) 0)
     else ggml_assert (nat s < length (kc_seq_to_stream kc)) ''seq_id''
       (Inr (seq_token_count (kc_v_cells kc ! strm kc s) s)))"

definition init_update :: "kv_cache \<Rightarrow> bool \<times> stream_copy_info \<times> kv_cache" where
  "init_update kc = (kv_get_has_shift kc, kc_sc_info kc, kc\<lparr>kc_sc_info := sc_empty\<rparr>)"

text \<open>\<open>update\<close> first performs the stream copies that \<open>init_update\<close> took over, then the K-shift. \<open>bufs\<close> is
  the K and V data of each stream, of any type; \<open>compute_shift\<close> stands for building, allocating and computing
  the K-shift graph on the backend: the new data, or \<open>None\<close> when that fails.\<close>

definition copy_streams :: "stream_copy_info \<Rightarrow> 'b list \<Rightarrow> 'b list" where
  "copy_streams sc bufs = fold (\<lambda>i bufs. bufs[sc_sdst sc ! i := bufs ! (sc_ssrc sc ! i)]) [0..<length (sc_ssrc sc)] bufs"

definition reset_shifts :: "kv_cache \<Rightarrow> kv_cache" where
  "reset_shifts kc = kc\<lparr>kc_v_cells := fold (\<lambda>s v. v[s := reset_shift (v ! s)]) [0..<kc_n_stream kc] (kc_v_cells kc)\<rparr>"

definition kv_update :: "(kv_cells list \<Rightarrow> 'b list \<Rightarrow> 'b list option) \<Rightarrow> bool \<Rightarrow> stream_copy_info \<Rightarrow> kv_cache \<Rightarrow> 'b list
    \<Rightarrow> (bool \<times> kv_cache \<times> 'b list) res" where
  "kv_update compute_shift do_shift sc kc bufs =
    (if kc_other kc \<noteq> None then Inr (True, kc, bufs)
     else let bufs = copy_streams sc bufs in
       if do_shift then
         if \<not> get_can_shift kc then Inl (GGML_ABORT ''The current KV cache / model configuration does not support K-shift'')
         else if hp_rope_type (kc_hparams kc) \<noteq> LLAMA_ROPE_TYPE_NONE then
           case compute_shift (kc_v_cells kc) bufs of
             None \<Rightarrow> Inr (False, kc, bufs)
           | Some bufs \<Rightarrow> Inr (True, reset_shifts kc, bufs)
         else Inr (False, reset_shifts kc, bufs)
       else Inr (False, kc, bufs))"


section \<open>The invariant and the steps of the loops\<close>

abbreviation stream :: "kv_cache \<Rightarrow> nat \<Rightarrow> kv_cell list" where
  "stream kc t \<equiv> cells_list (kc_v_cells kc ! t)"

definition stream_seqs :: "kv_cache \<Rightarrow> nat \<Rightarrow> llama_seq_id set" where
  "stream_seqs kc t = {s. seq_in_range kc s \<and> strm kc s = t}"

definition stream_ok :: "nat \<Rightarrow> kv_cache \<Rightarrow> nat \<Rightarrow> bool" where
  "stream_ok n kc t \<longleftrightarrow> cells_wf (kc_v_cells kc ! t) \<and> cells_size (kc_v_cells kc ! t) = n \<and> kc_v_heads kc ! t \<le> n
     \<and> (\<forall>k \<in> set (stream kc t). k_seq k \<subseteq> stream_seqs kc t)"

text \<open>The invariant of a cache with \<open>n\<close> cells per stream: one well-formed cell array and one head per
  stream, the stream map of the constructor, and no cell that belongs to a sequence of another
  stream.\<close>

definition kv_wf :: "nat \<Rightarrow> kv_cache \<Rightarrow> bool" where
  "kv_wf n kc \<longleftrightarrow> 0 < kc_n_stream kc \<and> kc_n_stream kc \<le> LLAMA_MAX_SEQ
     \<and> length (kc_v_cells kc) = kc_n_stream kc \<and> length (kc_v_heads kc) = kc_n_stream kc
     \<and> kc_seq_to_stream kc = (if kc_n_stream kc > 1 then [0..<kc_n_stream kc] else replicate LLAMA_MAX_SEQ 0)
     \<and> (\<forall>t < kc_n_stream kc. stream_ok n kc t)"

lemma set_stream_fields [simp]:
  "kc_n_stream (set_stream st c h kc) = kc_n_stream kc" "kc_seq_to_stream (set_stream st c h kc) = kc_seq_to_stream kc"
  "kc_v_cells (set_stream st c h kc) = (kc_v_cells kc)[st := c]" "kc_v_heads (set_stream st c h kc) = (kc_v_heads kc)[st := h]"
  "kc_other (set_stream st c h kc) = kc_other kc" "kc_hparams (set_stream st c h kc) = kc_hparams kc"
  "seq_in_range (set_stream st c h kc) = seq_in_range kc" "strm (set_stream st c h kc) = strm kc"
  "stream_seqs (set_stream st c h kc) = stream_seqs kc" "kc_sc_info (set_stream st c h kc) = kc_sc_info kc"
  "kc_n_swa (set_stream st c h kc) = kc_n_swa kc" "kc_swa_type (set_stream st c h kc) = kc_swa_type kc"
  "kc_step35 (set_stream st c h kc) = kc_step35 kc" "kc_n_pad (set_stream st c h kc) = kc_n_pad kc"
  by (simp_all add: set_stream_def seq_in_range_def strm_def stream_seqs_def fun_eq_iff)

lemma kv_wf_stream: "kv_wf n kc \<Longrightarrow> t < kc_n_stream kc \<Longrightarrow> stream_ok n kc t"
  by (simp add: kv_wf_def)

lemma kv_wf_lengths: "kv_wf n kc \<Longrightarrow> length (kc_v_cells kc) = kc_n_stream kc \<and> length (kc_v_heads kc) = kc_n_stream kc"
  by (simp add: kv_wf_def)

lemma strm_less: "kv_wf n kc \<Longrightarrow> seq_in_range kc s \<Longrightarrow> strm kc s < kc_n_stream kc"
  by (auto simp: kv_wf_def seq_in_range_def strm_def)

lemma stream_seqs_valid: "kv_wf n kc \<Longrightarrow> stream_seqs kc t \<subseteq> valid_seqs"
  by (auto simp: kv_wf_def stream_seqs_def seq_in_range_def valid_seqs_def split: if_splits)

lemma stream_cells:
  assumes "kv_wf n kc" "t < kc_n_stream kc"
  obtains b where "kc_v_cells kc ! t = mk_cells (stream kc t) b" "cells_ok (stream kc t)" "length (stream kc t) = n"
    "b = c_has_shift (kc_v_cells kc ! t)"
  using kv_wf_stream [OF assms] by (auto simp: stream_ok_def cells_wf_def)

lemma stream_set: "st < length (kc_v_cells kc) \<Longrightarrow> stream (set_stream st c h kc) t = (if t = st then cells_list c else stream kc t)"
  by (simp add: nth_list_update)

lemma set_stream_wf:
  assumes wf: "kv_wf n kc" and st: "st < kc_n_stream kc"
    and c: "cells_wf c" "cells_size c = n" "h \<le> n" "\<forall>k \<in> set (cells_list c). k_seq k \<subseteq> stream_seqs kc st"
  shows "kv_wf n (set_stream st c h kc)"
proof -
  have l: "st < length (kc_v_cells kc)" "st < length (kc_v_heads kc)" using kv_wf_lengths [OF wf] st by simp_all
  have "stream_ok n (set_stream st c h kc) t" if "t < kc_n_stream kc" for t
  proof (cases "t = st")
    case True
    then show ?thesis using c l by (simp add: stream_ok_def)
  next
    case False
    then show ?thesis using kv_wf_stream [OF wf that] by (simp add: stream_ok_def)
  qed
  then show ?thesis using wf by (simp add: kv_wf_def)
qed

lemma lower_head_le: "h \<le> n \<Longrightarrow> lower_head m n h \<le> n"
  by (simp add: lower_head_def)

context cell_step
begin

lemma run_stream_eq:
  assumes wf: "kv_wf n kc" and st: "st < kc_n_stream kc" and pre: "\<forall>k \<in> set (stream kc st). pre k"
  shows "run_stream step st kc = set_stream st
     (mk_cells (map new (stream kc st)) (c_has_shift (kc_v_cells kc ! st) \<or> (\<exists>k \<in> set (stream kc st). shifts k)))
     (lower_head (first_index frees (stream kc st)) n (kc_v_heads kc ! st)) kc"
proof -
  obtain b where b: "kc_v_cells kc ! st = mk_cells (stream kc st) b" "cells_ok (stream kc st)" "length (stream kc st) = n"
    "b = c_has_shift (kc_v_cells kc ! st)"
    using stream_cells [OF wf st] by blast
  have "cells_loop step (kc_v_cells kc ! st) = (first_index frees (stream kc st),
      mk_cells (map new (stream kc st)) (b \<or> (\<exists>k \<in> set (stream kc st). shifts k)))"
    by (subst b(1)) (rule loop_mk [OF b(2) pre])
  then show ?thesis using b(3,4) by (simp add: run_stream_def Let_def)
qed

lemma run_stream_wf:
  assumes wf: "kv_wf n kc" and st: "st < kc_n_stream kc" and pre: "\<forall>k \<in> set (stream kc st). pre k"
    and seqs: "\<And>k. k \<in> set (stream kc st) \<Longrightarrow> k_seq (new k) \<subseteq> stream_seqs kc st"
  shows "kv_wf n (run_stream step st kc)"
    and "\<And>t. stream (run_stream step st kc) t = (if t = st then map new (stream kc st) else stream kc t)"
    and "kc_v_heads (run_stream step st kc) ! st \<le> kc_v_heads kc ! st"
proof -
  note eq = run_stream_eq [OF wf st pre]
  obtain b where b: "cells_ok (stream kc st)" "length (stream kc st) = n" using stream_cells [OF wf st] by blast
  have l: "st < length (kc_v_cells kc)" "st < length (kc_v_heads kc)" using kv_wf_lengths [OF wf] st by simp_all
  show "kv_wf n (run_stream step st kc)"
    unfolding eq
  proof (rule set_stream_wf [OF wf st])
    show "lower_head (first_index frees (stream kc st)) n (kc_v_heads kc ! st) \<le> n"
      using kv_wf_stream [OF wf st] by (intro lower_head_le) (simp add: stream_ok_def)
    show "cells_wf (mk_cells (map new (stream kc st)) (c_has_shift (kc_v_cells kc ! st) \<or> (\<exists>k \<in> set (stream kc st). shifts k)))"
      by (rule cells_wf_mk) (rule new_list_ok [OF b(1) pre])
  qed (use b(2) seqs in auto)
  show "\<And>t. stream (run_stream step st kc) t = (if t = st then map new (stream kc st) else stream kc t)"
    unfolding eq by (simp add: nth_list_update l)
  show "kc_v_heads (run_stream step st kc) ! st \<le> kc_v_heads kc ! st"
    unfolding eq using l by (simp add: lower_head_def)
qed

end

subsection \<open>The steps\<close>

definition pos_inside :: "llama_pos \<Rightarrow> llama_pos \<Rightarrow> kv_cell \<Rightarrow> bool" where
  "pos_inside p0 p1 k \<longleftrightarrow> p0 \<le> k_pos k \<and> k_pos k < p1"

lemma pos_in_mk: "i < length ks \<Longrightarrow> pos_in (mk_cells ks b) i p0 p1 \<longleftrightarrow> pos_inside p0 p1 (ks ! i)"
  by (simp add: pos_in_def pos_inside_def)

definition cell_seq_rm :: "llama_seq_id \<Rightarrow> llama_pos \<Rightarrow> llama_pos \<Rightarrow> kv_cell \<Rightarrow> kv_cell" where
  "cell_seq_rm s p0 p1 k = (if pos_inside p0 p1 k \<and> s \<in> k_seq k
     then if k_seq k - {s} = {} then cell_empty else k\<lparr>k_seq := k_seq k - {s}\<rparr> else k)"

definition cell_rm_any :: "llama_pos \<Rightarrow> llama_pos \<Rightarrow> kv_cell \<Rightarrow> kv_cell" where
  "cell_rm_any p0 p1 k = (if pos_inside p0 p1 k then cell_empty else k)"

definition cell_seq_cp :: "llama_seq_id \<Rightarrow> llama_seq_id \<Rightarrow> llama_pos \<Rightarrow> llama_pos \<Rightarrow> kv_cell \<Rightarrow> kv_cell" where
  "cell_seq_cp src dst p0 p1 k = (if pos_inside p0 p1 k \<and> src \<in> k_seq k then k\<lparr>k_seq := insert dst (k_seq k)\<rparr> else k)"

definition cell_seq_add :: "llama_seq_id \<Rightarrow> llama_pos \<Rightarrow> llama_pos \<Rightarrow> llama_pos \<Rightarrow> bool \<Rightarrow> kv_cell \<Rightarrow> kv_cell" where
  "cell_seq_add s p0 p1 d m k = (if pos_inside p0 p1 k \<and> s \<in> k_seq k then cell_shifted (shift_delta d m) k else k)"

definition cell_seq_div :: "llama_seq_id \<Rightarrow> llama_pos \<Rightarrow> llama_pos \<Rightarrow> int \<Rightarrow> kv_cell \<Rightarrow> kv_cell" where
  "cell_seq_div s p0 p1 d k = (if pos_inside p0 p1 k \<and> s \<in> k_seq k then cell_divided d k else k)"

interpretation seq_rm: cell_step "seq_rm_step s p0 p1" "\<lambda>_. True" "cell_seq_rm s p0 p1"
    "\<lambda>k. pos_inside p0 p1 k \<and> k_seq k = {s}" "\<lambda>_. False"
  for s p0 p1
proof
  fix ks i b assume ok: "cells_ok ks" and i: "i < length ks"
  show "seq_rm_step s p0 p1 i (mk_cells ks b) = (pos_inside p0 p1 (ks ! i) \<and> k_seq (ks ! i) = {s},
      mk_cells (ks[i := cell_seq_rm s p0 p1 (ks ! i)]) (b \<or> False))"
  proof (cases "pos_inside p0 p1 (ks ! i) \<and> s \<in> k_seq (ks ! i)")
    case True
    then have "(k_seq (ks ! i) - {s} = {}) = (k_seq (ks ! i) = {s})" by auto
    then show ?thesis using True i ok
      by (simp add: seq_rm_step_def pos_in_mk seq_has_mk cells_seq_rm_mk cell_seq_rm_def Let_def)
  next
    case False
    then show ?thesis using i by (auto simp: seq_rm_step_def pos_in_mk seq_has_mk cell_seq_rm_def)
  qed
next
  fix k assume "cell_ok k"
  then show "cell_ok (cell_seq_rm s p0 p1 k)"
    by (auto simp: cell_seq_rm_def cell_ok_def)
qed

interpretation rm_any: cell_step "rm_any_step p0 p1" "\<lambda>_. True" "cell_rm_any p0 p1" "pos_inside p0 p1" "\<lambda>_. False"
  for p0 p1
proof
  fix ks i b assume ok: "cells_ok ks" and i: "i < length ks"
  show "rm_any_step p0 p1 i (mk_cells ks b) = (pos_inside p0 p1 (ks ! i), mk_cells (ks[i := cell_rm_any p0 p1 (ks ! i)]) (b \<or> False))"
    using ok i by (simp add: rm_any_step_def pos_in_mk cells_rm_mk cell_rm_any_def)
qed (simp add: cell_rm_any_def)

interpretation seq_cp: cell_step "seq_cp_step src dst p0 p1"
    "\<lambda>k. dst \<in> valid_seqs \<and> (pos_inside p0 p1 k \<and> src \<in> k_seq k \<longrightarrow> dst \<notin> k_seq k)" "cell_seq_cp src dst p0 p1" "\<lambda>_. False" "\<lambda>_. False"
  for src dst p0 p1
proof
  fix ks i b assume ok: "cells_ok ks" and i: "i < length ks"
    and pre: "dst \<in> valid_seqs \<and> (pos_inside p0 p1 (ks ! i) \<and> src \<in> k_seq (ks ! i) \<longrightarrow> dst \<notin> k_seq (ks ! i))"
  have "src \<in> k_seq (ks ! i) \<Longrightarrow> k_pos (ks ! i) \<noteq> -1" using cell_ok_ne [OF cells_ok_nth [OF ok i]] by blast
  then show "seq_cp_step src dst p0 p1 i (mk_cells ks b) = (False, mk_cells (ks[i := cell_seq_cp src dst p0 p1 (ks ! i)]) (b \<or> False))"
    using pre i by (auto simp: seq_cp_step_def pos_in_mk seq_has_mk cells_seq_add_mk cell_seq_cp_def)
next
  fix k assume "cell_ok k" "dst \<in> valid_seqs \<and> (pos_inside p0 p1 k \<and> src \<in> k_seq k \<longrightarrow> dst \<notin> k_seq k)"
  then show "cell_ok (cell_seq_cp src dst p0 p1 k)" by (auto simp: cell_seq_cp_def cell_ok_def)
qed

interpretation seq_keep: cell_step "\<lambda>i. cells_seq_keep i s" "\<lambda>_. True" "cell_kept s" "\<lambda>k. s \<notin> k_seq k \<and> k_seq k \<noteq> {}" "\<lambda>_. False"
  for s
  by unfold_locales (simp_all add: cells_seq_keep_mk cell_ok_kept)

interpretation seq_add: cell_step "seq_add_step s p0 p1 d m" "\<lambda>_. True" "cell_seq_add s p0 p1 d m"
    "\<lambda>k. pos_inside p0 p1 k \<and> s \<in> k_seq k \<and> k_pos k + d < 0" "\<lambda>k. pos_inside p0 p1 k \<and> s \<in> k_seq k"
  for s p0 p1 d m
proof
  fix ks i b assume ok: "cells_ok ks" and i: "i < length ks"
  have ne: "s \<in> k_seq (ks ! i) \<Longrightarrow> k_pos (ks ! i) \<noteq> -1" using cell_ok_ne [OF cells_ok_nth [OF ok i]] by blast
  have t: "sh_t (shift_delta d m) = d" by (simp add: shift_delta_def shift_zero_def Let_def)
  show "seq_add_step s p0 p1 d m i (mk_cells ks b) = (pos_inside p0 p1 (ks ! i) \<and> s \<in> k_seq (ks ! i) \<and> k_pos (ks ! i) + d < 0,
      mk_cells (ks[i := cell_seq_add s p0 p1 d m (ks ! i)]) (b \<or> (pos_inside p0 p1 (ks ! i) \<and> s \<in> k_seq (ks ! i))))"
    using ne i ok by (auto simp: seq_add_step_def pos_in_mk seq_has_mk pos_add_def pos_shift_mk cell_seq_add_def t)
qed (auto simp: cell_seq_add_def intro: cell_ok_shifted)

interpretation seq_div: cell_step "seq_div_step s p0 p1 d" "\<lambda>_. 0 < d" "cell_seq_div s p0 p1 d"
    "\<lambda>_. False" "\<lambda>k. pos_inside p0 p1 k \<and> s \<in> k_seq k"
  for s p0 p1 d
proof
  fix ks i b assume ok: "cells_ok ks" and i: "i < length ks" and d: "0 < d"
  have ne: "s \<in> k_seq (ks ! i) \<Longrightarrow> k_pos (ks ! i) \<noteq> -1" using cell_ok_ne [OF cells_ok_nth [OF ok i]] by blast
  show "seq_div_step s p0 p1 d i (mk_cells ks b) = (False,
      mk_cells (ks[i := cell_seq_div s p0 p1 d (ks ! i)]) (b \<or> (pos_inside p0 p1 (ks ! i) \<and> s \<in> k_seq (ks ! i))))"
    using ne i ok d by (auto simp: seq_div_step_def pos_in_mk seq_has_mk pos_div_mk cell_seq_div_def)
next
  fix k assume "cell_ok k" "0 < d"
  then show "cell_ok (cell_seq_div s p0 p1 d k)" using cell_ok_ne cell_ok_divided by (auto simp: cell_seq_div_def)
qed

end
