(* ===== verification/KV_Cache_Props.thy ===== *)
theory KV_Cache_Props
  imports KV_Cache
begin

section \<open>The KV cache: what the sequence operations do\<close>

text \<open>
  Each sequence operation of the cache keeps \<open>kv_wf\<close> and changes the positions that the sequences
  hold in the way its contract in \<^verbatim>\<open>include/llama.h\<close> says. \<open>kv_positions\<close> is the abstract view: the
  set of positions a sequence holds in its stream.
\<close>

definition kv_positions :: "kv_cache \<Rightarrow> llama_seq_id \<Rightarrow> llama_pos set" where
  "kv_positions kc s = seq_positions (stream kc (strm kc s)) s"

lemma kv_positions_cong: "stream kc' (strm kc s) = stream kc (strm kc s) \<Longrightarrow> strm kc' = strm kc \<Longrightarrow> kv_positions kc' s = kv_positions kc s"
  by (simp add: kv_positions_def)

lemma seq_positions_image: "seq_positions ks s = k_pos ` {k \<in> set ks. s \<in> k_seq k}"
  by (auto simp: seq_positions_def)

lemma seq_positions_Nil [simp]: "seq_positions [] s = {}"
  by (simp add: seq_positions_image)

lemma seq_positions_Cons: "seq_positions (k # ks) s = (if s \<in> k_seq k then {k_pos k} else {}) \<union> seq_positions ks s"
  by (auto simp: seq_positions_image)

lemma seq_positions_map:
  assumes "\<And>k. k \<in> set ks \<Longrightarrow> s \<in> k_seq (f k) \<longleftrightarrow> P k" "\<And>k. k \<in> set ks \<Longrightarrow> P k \<Longrightarrow> k_pos (f k) = g k"
  shows "seq_positions (map f ks) s = g ` {k \<in> set ks. P k}"
proof -
  have "{k \<in> set (map f ks). s \<in> k_seq k} = f ` {k \<in> set ks. P k}" using assms(1) by auto
  then show ?thesis unfolding seq_positions_image using assms(2) by (simp add: image_image cong: image_cong_simp)
qed

lemma seq_positions_map_filter:
  assumes "\<And>k. k \<in> set ks \<Longrightarrow> s \<in> k_seq (f k) \<longleftrightarrow> s \<in> k_seq k \<and> Q (k_pos k)"
    and "\<And>k. k \<in> set ks \<Longrightarrow> s \<in> k_seq k \<Longrightarrow> Q (k_pos k) \<Longrightarrow> k_pos (f k) = k_pos k"
  shows "seq_positions (map f ks) s = {p \<in> seq_positions ks s. Q p}"
proof -
  have "seq_positions (map f ks) s = k_pos ` {k \<in> set ks. s \<in> k_seq k \<and> Q (k_pos k)}"
    using assms by (intro seq_positions_map) auto
  also have "\<dots> = {p \<in> seq_positions ks s. Q p}" unfolding seq_positions_image by blast
  finally show ?thesis .
qed

lemma seq_positions_map_same:
  assumes "\<And>k. k \<in> set ks \<Longrightarrow> s \<in> k_seq (f k) \<longleftrightarrow> s \<in> k_seq k" "\<And>k. k \<in> set ks \<Longrightarrow> s \<in> k_seq k \<Longrightarrow> k_pos (f k) = k_pos k"
  shows "seq_positions (map f ks) s = seq_positions ks s"
  using seq_positions_map_filter [of ks s f "\<lambda>_. True"] assms by simp

lemma stream_k_seq: "kv_wf n kc \<Longrightarrow> t < kc_n_stream kc \<Longrightarrow> k \<in> set (stream kc t) \<Longrightarrow> k_seq k \<subseteq> stream_seqs kc t"
  using kv_wf_stream by (simp add: stream_ok_def)

lemma run_stream_fields [simp]:
  "kc_n_stream (run_stream f t kc) = kc_n_stream kc" "strm (run_stream f t kc) = strm kc"
  "stream_seqs (run_stream f t kc) = stream_seqs kc" "seq_in_range (run_stream f t kc) = seq_in_range kc"
  "kc_other (run_stream f t kc) = kc_other kc" "kc_hparams (run_stream f t kc) = kc_hparams kc"
  "kc_step35 (run_stream f t kc) = kc_step35 kc"
  by (simp_all add: run_stream_def Let_def split: prod.split)

lemma seq_in_stream_seqs: "seq_in_range kc s \<Longrightarrow> s \<in> stream_seqs kc (strm kc s)"
  by (simp add: stream_seqs_def)

lemma valid_of_range: "kv_wf n kc \<Longrightarrow> seq_in_range kc s \<Longrightarrow> s \<in> valid_seqs"
  using stream_seqs_valid seq_in_stream_seqs by blast

text \<open>A stream that is replaced by one with the same cells up to a cell function.\<close>

lemma replace_stream:
  assumes wf: "kv_wf n kc" and st: "st < kc_n_stream kc" and ok: "cells_ok (map f (stream kc st))" and h: "h \<le> n"
    and seqs: "\<And>k. k \<in> set (stream kc st) \<Longrightarrow> k_seq (f k) \<subseteq> stream_seqs kc st"
  shows "kv_wf n (set_stream st (mk_cells (map f (stream kc st)) b) h kc)"
    "stream (set_stream st (mk_cells (map f (stream kc st)) b) h kc) t = (if t = st then map f (stream kc st) else stream kc t)"
proof -
  obtain b' where "length (stream kc st) = n" using stream_cells [OF wf st] by blast
  then show "kv_wf n (set_stream st (mk_cells (map f (stream kc st)) b) h kc)"
    using seqs by (intro set_stream_wf [OF wf st] cells_wf_mk ok h) auto
  show "stream (set_stream st (mk_cells (map f (stream kc st)) b) h kc) t = (if t = st then map f (stream kc st) else stream kc t)"
    using kv_wf_lengths [OF wf] st by (simp add: nth_list_update)
qed

context cell_step
begin

lemma loop_stream:
  assumes wf: "kv_wf n kc" and st: "st < kc_n_stream kc" and pre: "\<forall>k \<in> set (stream kc st). pre k"
  shows "cells_loop step (kc_v_cells kc ! st) = (first_index frees (stream kc st),
      mk_cells (map new (stream kc st)) (c_has_shift (kc_v_cells kc ! st) \<or> (\<exists>k \<in> set (stream kc st). shifts k)))"
    and "cells_ok (map new (stream kc st))"
proof -
  obtain b where b: "kc_v_cells kc ! st = mk_cells (stream kc st) b" "cells_ok (stream kc st)" "b = c_has_shift (kc_v_cells kc ! st)"
    using stream_cells [OF wf st] by blast
  show "cells_loop step (kc_v_cells kc ! st) = (first_index frees (stream kc st),
      mk_cells (map new (stream kc st)) (c_has_shift (kc_v_cells kc ! st) \<or> (\<exists>k \<in> set (stream kc st). shifts k)))"
    unfolding b(3) [symmetric] by (subst b(1)) (rule loop_mk [OF b(2) pre])
  show "cells_ok (map new (stream kc st))" using new_list_ok [OF b(2) pre] .
qed

end

lemma update_cells_set_stream:
  "st < length (kc_v_heads kc) \<Longrightarrow> kc\<lparr>kc_v_cells := (kc_v_cells kc)[st := c]\<rparr> = set_stream st c (kc_v_heads kc ! st) kc"
  by (simp add: set_stream_def)

subsection \<open>Removing\<close>

lemma cell_seq_rm_seq: "k_seq (cell_seq_rm s p0 p1 k) = (if pos_inside p0 p1 k then k_seq k - {s} else k_seq k)"
  by (auto simp: cell_seq_rm_def)

lemma cell_seq_rm_pos: "s' \<in> k_seq k \<Longrightarrow> s' \<noteq> s \<Longrightarrow> k_pos (cell_seq_rm s p0 p1 k) = k_pos k"
  by (auto simp: cell_seq_rm_def split: if_splits)

lemma kv_seq_rm_run:
  assumes wf: "kv_wf n kc" and o: "kc_other kc = None" and s: "seq_in_range kc s"
  shows "\<exists>kc'. kv_seq_rm s p0 p1 kc = Inr (True, kc') \<and> kv_wf n kc' \<and> kc_other kc' = None
    \<and> seq_in_range kc' = seq_in_range kc \<and> get_can_shift kc' = get_can_shift kc
    \<and> kv_positions kc' s = {p \<in> kv_positions kc s. \<not> (range_lo p0 \<le> p \<and> p < range_hi p1)}
    \<and> (\<forall>s'. s' \<noteq> s \<longrightarrow> kv_positions kc' s' = kv_positions kc s')"
proof -
  let ?st = "strm kc s" and ?f = "cell_seq_rm s (range_lo p0) (range_hi p1)"
  let ?kc = "run_stream (seq_rm_step s (range_lo p0) (range_hi p1)) ?st kc"
  have st: "?st < kc_n_stream kc" using strm_less [OF wf s] .
  have sub: "k_seq (?f k) \<subseteq> stream_seqs kc ?st" if "k \<in> set (stream kc ?st)" for k
    using stream_k_seq [OF wf st that] by (auto simp: cell_seq_rm_seq)
  have wf': "kv_wf n ?kc" by (rule seq_rm.run_stream_wf(1) [OF wf st]) (use sub in auto)
  have v: "stream ?kc t = (if t = ?st then map ?f (stream kc ?st) else stream kc t)" for t
    by (rule seq_rm.run_stream_wf(2) [OF wf st]) (use sub in auto)
  have "seq_positions (map ?f (stream kc ?st)) s = {p \<in> seq_positions (stream kc ?st) s. \<not> (range_lo p0 \<le> p \<and> p < range_hi p1)}"
    by (rule seq_positions_map_filter) (auto simp: cell_seq_rm_def pos_inside_def)
  moreover have "seq_positions (map ?f (stream kc ?st)) s' = seq_positions (stream kc ?st) s'" if "s' \<noteq> s" for s'
    using that by (intro seq_positions_map_same) (auto simp: cell_seq_rm_seq cell_seq_rm_pos)
  moreover have "kv_seq_rm s p0 p1 kc = Inr (True, ?kc)" using o s by (simp add: kv_seq_rm_def seq_in_range_def Let_def)
  ultimately show ?thesis using wf' o by (simp add: kv_positions_def v get_can_shift_def)
qed

text \<open>C5. \<open>seq_rm(s, p0, p1)\<close> always succeeds and leaves sequence \<open>s\<close> exactly the positions outside
  \<open>[p0, p1)\<close>, where a negative bound stands for the end of the range; every other sequence keeps
  exactly its positions, in every stream. The cache invariant is kept, so the positions reported
  afterwards by \<open>seq_pos_min\<close> and \<open>seq_pos_max\<close> are those of the remaining cells.\<close>

theorem kv_seq_rm_removes_range:
  assumes wf: "kv_wf n kc" and o: "kc_other kc = None" and s: "seq_in_range kc s"
  shows "\<exists>kc'. kv_seq_rm s p0 p1 kc = Inr (True, kc') \<and> kv_wf n kc'
    \<and> kv_positions kc' s = {p \<in> kv_positions kc s. \<not> (range_lo p0 \<le> p \<and> p < range_hi p1)}
    \<and> (\<forall>s'. s' \<noteq> s \<longrightarrow> kv_positions kc' s' = kv_positions kc s')"
  using kv_seq_rm_run [OF assms, of p0 p1] by blast

text \<open>\<open>seq_rm(-1, p0, p1)\<close> does so in every stream, for every sequence.\<close>

lemma rm_any_streams:
  fixes p0 p1 :: llama_pos
  assumes wf: "kv_wf n kc" and m: "m \<le> kc_n_stream kc"
  defines "kc' \<equiv> fold (run_stream (rm_any_step p0 p1)) [0..<m] kc"
  shows "kv_wf n kc' \<and> kc_n_stream kc' = kc_n_stream kc \<and> strm kc' = strm kc \<and> stream_seqs kc' = stream_seqs kc
    \<and> (\<forall>t. stream kc' t = (if t < m then map (cell_rm_any p0 p1) (stream kc t) else stream kc t))"
  using m unfolding kc'_def
proof (induction m)
  case 0
  then show ?case using wf by simp
next
  case (Suc m)
  let ?kc = "fold (run_stream (rm_any_step p0 p1)) [0..<m] kc"
  have IH: "kv_wf n ?kc" "m < kc_n_stream ?kc" "strm ?kc = strm kc" "stream_seqs ?kc = stream_seqs kc" "kc_n_stream ?kc = kc_n_stream kc"
    "\<And>t. stream ?kc t = (if t < m then map (cell_rm_any p0 p1) (stream kc t) else stream kc t)"
    using Suc by simp_all
  have sub: "k_seq (cell_rm_any p0 p1 k) \<subseteq> stream_seqs ?kc m" if "k \<in> set (stream ?kc m)" for k
    using stream_k_seq [OF IH(1,2) that] by (auto simp: cell_rm_any_def)
  have "kv_wf n (run_stream (rm_any_step p0 p1) m ?kc)"
    by (rule rm_any.run_stream_wf(1) [OF IH(1,2)]) (use sub in auto)
  moreover have "stream (run_stream (rm_any_step p0 p1) m ?kc) t = (if t = m then map (cell_rm_any p0 p1) (stream ?kc m) else stream ?kc t)" for t
    by (rule rm_any.run_stream_wf(2) [OF IH(1,2)]) (use sub in auto)
  ultimately show ?case using IH(3-5) by (auto simp: IH(6))
qed

lemma kv_seq_rm_any:
  assumes wf: "kv_wf n kc" and o: "kc_other kc = None"
  shows "\<exists>kc'. kv_seq_rm (-1) p0 p1 kc = Inr (True, kc') \<and> kv_wf n kc'
    \<and> (\<forall>s. seq_in_range kc s \<longrightarrow> kv_positions kc' s = {p \<in> kv_positions kc s. \<not> (range_lo p0 \<le> p \<and> p < range_hi p1)})"
proof -
  let ?kc = "fold (run_stream (rm_any_step (range_lo p0) (range_hi p1))) [0..<kc_n_stream kc] kc"
  note * = rm_any_streams [OF wf order_refl, of "range_lo p0" "range_hi p1"]
  have "kv_positions ?kc s = {p \<in> kv_positions kc s. \<not> (range_lo p0 \<le> p \<and> p < range_hi p1)}" if "seq_in_range kc s" for s
  proof -
    have "kv_positions ?kc s = seq_positions (map (cell_rm_any (range_lo p0) (range_hi p1)) (stream kc (strm kc s))) s"
      using * strm_less [OF wf that] by (simp add: kv_positions_def)
    also have "\<dots> = {p \<in> seq_positions (stream kc (strm kc s)) s. \<not> (range_lo p0 \<le> p \<and> p < range_hi p1)}"
      by (rule seq_positions_map_filter) (auto simp: cell_rm_any_def pos_inside_def)
    finally show ?thesis by (simp add: kv_positions_def)
  qed
  then show ?thesis using * o by (simp add: kv_seq_rm_def Let_def)
qed

subsection \<open>Copying and keeping\<close>

lemma kv_seq_cp_within_run:
  assumes wf: "kv_wf n kc" and o: "kc_other kc = None" and r: "seq_in_range kc src" "seq_in_range kc dst"
    and same: "strm kc src = strm kc dst" "src \<noteq> dst"
    and new: "\<forall>k \<in> set (stream kc (strm kc src)). src \<in> k_seq k \<and> range_lo p0 \<le> k_pos k \<and> k_pos k < range_hi p1 \<longrightarrow> dst \<notin> k_seq k"
  shows "\<exists>kc'. kv_seq_cp src dst p0 p1 kc = Inr kc' \<and> kv_wf n kc'
    \<and> kv_positions kc' dst = kv_positions kc dst \<union> {p \<in> kv_positions kc src. range_lo p0 \<le> p \<and> p < range_hi p1}
    \<and> (\<forall>s. s \<noteq> dst \<longrightarrow> kv_positions kc' s = kv_positions kc s)
    \<and> kc_sc_info kc' = kc_sc_info kc"
proof -
  let ?st = "strm kc src" and ?f = "cell_seq_cp src dst (range_lo p0) (range_hi p1)"
  have st: "?st < kc_n_stream kc" using strm_less [OF wf r(1)] .
  have heads: "?st < length (kc_v_heads kc)" "kc_v_heads kc ! ?st \<le> n"
    using kv_wf_lengths [OF wf] st kv_wf_stream [OF wf st] by (simp_all add: stream_ok_def)
  have pre: "\<forall>k \<in> set (stream kc ?st). dst \<in> valid_seqs \<and> (pos_inside (range_lo p0) (range_hi p1) k \<and> src \<in> k_seq k \<longrightarrow> dst \<notin> k_seq k)"
    using new valid_of_range [OF wf r(2)] by (auto simp: pos_inside_def)
  have sub: "k_seq (?f k) \<subseteq> stream_seqs kc ?st" if "k \<in> set (stream kc ?st)" for k
    using stream_k_seq [OF wf st that] seq_in_stream_seqs [OF r(2)] same(1) by (auto simp: cell_seq_cp_def)
  note loop = seq_cp.loop_stream [OF wf st pre]
  note rep = replace_stream [OF wf st loop(2) heads(2) sub]
  let ?kc = "set_stream ?st (mk_cells (map ?f (stream kc ?st)) (c_has_shift (kc_v_cells kc ! ?st) \<or> (\<exists>k\<in>set (stream kc ?st). False))) (kc_v_heads kc ! ?st) kc"
  have "kv_seq_cp src dst p0 p1 kc = Inr ?kc"
    using o r same loop(1) heads(1) by (simp add: kv_seq_cp_def Let_def update_cells_set_stream)
  moreover have "seq_positions (map ?f (stream kc ?st)) dst
      = k_pos ` {k \<in> set (stream kc ?st). dst \<in> k_seq k \<or> src \<in> k_seq k \<and> pos_inside (range_lo p0) (range_hi p1) k}"
    by (rule seq_positions_map) (auto simp: cell_seq_cp_def)
  moreover have "\<dots> = seq_positions (stream kc ?st) dst \<union> {p \<in> seq_positions (stream kc ?st) src. range_lo p0 \<le> p \<and> p < range_hi p1}"
    unfolding seq_positions_image pos_inside_def by blast
  moreover have "seq_positions (map ?f (stream kc ?st)) s = seq_positions (stream kc ?st) s" if "s \<noteq> dst" for s
    using that by (intro seq_positions_map_same) (auto simp: cell_seq_cp_def)
  ultimately show ?thesis using rep same(1) by (simp add: kv_positions_def)
qed

text \<open>C28. Copying inside a stream is a change of metadata only: the destination sequence gets, beside
  the positions it had, the positions of the source sequence in the range, and every other sequence
  keeps its own. The hypothesis is that the destination is not yet in a copied cell; the code adds it
  again there, which counts the position twice in the index.\<close>

theorem kv_seq_cp_within_stream:
  assumes wf: "kv_wf n kc" and o: "kc_other kc = None" and r: "seq_in_range kc src" "seq_in_range kc dst"
    and same: "strm kc src = strm kc dst" "src \<noteq> dst"
    and new: "\<forall>k \<in> set (stream kc (strm kc src)). src \<in> k_seq k \<and> range_lo p0 \<le> k_pos k \<and> k_pos k < range_hi p1 \<longrightarrow> dst \<notin> k_seq k"
  shows "\<exists>kc'. kv_seq_cp src dst p0 p1 kc = Inr kc' \<and> kv_wf n kc'
    \<and> kv_positions kc' dst = kv_positions kc dst \<union> {p \<in> kv_positions kc src. range_lo p0 \<le> p \<and> p < range_hi p1}
    \<and> (\<forall>s. s \<noteq> dst \<longrightarrow> kv_positions kc' s = kv_positions kc s)
    \<and> kc_sc_info kc' = kc_sc_info kc"
  using kv_seq_cp_within_run [OF assms] .

lemma cell_kept_seq: "k_seq (cell_kept s k) = k_seq k \<inter> {s}"
  by (auto simp: cell_kept_def)

text \<open>\<open>seq_keep\<close> empties every other sequence of the stream.\<close>

lemma kv_seq_keep_only:
  assumes wf: "kv_wf n kc" and o: "kc_other kc = None" and s: "seq_in_range kc s"
  shows "\<exists>kc'. kv_seq_keep s kc = Inr kc' \<and> kv_wf n kc' \<and> kv_positions kc' s = kv_positions kc s
    \<and> (\<forall>s'. s' \<noteq> s \<longrightarrow> kv_positions kc' s' = (if strm kc s' = strm kc s then {} else kv_positions kc s'))"
proof -
  let ?st = "strm kc s" and ?kc = "run_stream (\<lambda>i. cells_seq_keep i s) (strm kc s) kc"
  have st: "?st < kc_n_stream kc" using strm_less [OF wf s] .
  have sub: "k_seq (cell_kept s k) \<subseteq> stream_seqs kc ?st" if "k \<in> set (stream kc ?st)" for k
    using stream_k_seq [OF wf st that] by (auto simp: cell_kept_seq)
  have wf': "kv_wf n ?kc" by (rule seq_keep.run_stream_wf(1) [OF wf st]) (use sub in auto)
  have v: "stream ?kc t = (if t = ?st then map (cell_kept s) (stream kc ?st) else stream kc t)" for t
    by (rule seq_keep.run_stream_wf(2) [OF wf st]) (use sub in auto)
  have "seq_positions (map (cell_kept s) (stream kc ?st)) s = seq_positions (stream kc ?st) s"
    by (rule seq_positions_map_same) (auto simp: cell_kept_def)
  moreover have "seq_positions (map (cell_kept s) (stream kc ?st)) s' = {}" if "s' \<noteq> s" for s'
    using that by (auto simp: seq_positions_def cell_kept_seq)
  ultimately show ?thesis using o s wf' by (simp add: kv_seq_keep_def kv_positions_def v)
qed

subsection \<open>Copying between streams\<close>

definition cross_cell :: "llama_seq_id \<Rightarrow> llama_seq_id \<Rightarrow> kv_cell \<Rightarrow> kv_cell" where
  "cross_cell src dst k = (if src \<in> k_seq k then k\<lparr>k_seq := {dst}\<rparr> else cell_empty)"

text \<open>A cell whose position before the pending shift is not negative: the code's \<open>assert(pos >= 0)\<close>.\<close>

definition unshifted_ok :: "kv_cell \<Rightarrow> bool" where
  "unshifted_ok k \<longleftrightarrow> 0 \<le> k_pos k - sh_t (k_shift k)"

lemma shift_plus_zero [simp]: "shift_plus shift_zero d = d"
  by (simp add: shift_plus_def shift_zero_def)

lemma cell_eta: "k_shift k = z \<Longrightarrow> k\<lparr>k_seq := S\<rparr> = \<lparr>k_pos = k_pos k, k_ext = k_ext k, k_shift = z, k_seq = S\<rparr>"
  by simp

lemma kv_wf_sc_info [simp]: "kv_wf n (kc\<lparr>kc_sc_info := x\<rparr>) = kv_wf n kc"
  by (simp add: kv_wf_def stream_ok_def stream_seqs_def seq_in_range_def strm_def)

lemma cross_cp_step_mk:
  assumes k: "k = ks0 ! i" "i < length ks0" "cell_ok k" "src \<in> k_seq k \<longrightarrow> unshifted_ok k"
    and ks: "cells_ok ks" "i < length ks" "ks ! i = cell_empty" and dst: "dst \<in> valid_seqs"
  shows "cross_cp_step (mk_cells ks0 b0) src dst i (mk_cells ks b)
    = mk_cells (ks[i := cross_cell src dst k]) (b \<or> (src \<in> k_seq k \<and> k_shift k \<noteq> shift_zero))"
proof (cases "src \<in> k_seq k")
  case False
  moreover have "ks[i := cell_empty] = ks" using ks(3) by (metis list_update_id)
  ultimately show ?thesis using k by (simp add: cross_cp_step_def seq_has_mk cross_cell_def)
next
  case True
  have k0: "k_pos k \<noteq> -1" "0 \<le> k_pos k" using cell_ok_ne [OF k(3) True] k(3) by (auto simp: cell_ok_def)
  show ?thesis
  proof (cases "k_shift k = shift_zero")
    case True
    show ?thesis using True k ks k0 \<open>src \<in> k_seq k\<close>
      by (simp add: cross_cp_step_def seq_has_mk cross_cell_def pos_get_def get_shift_ext_def ext_get_def shift_is_zero_def
          pos_set_mk ext_set_mk cells_seq_add_mk cell_empty_def cell_eta)
  next
    case False
    let ?p = "k_pos k - sh_t (k_shift k)"
    let ?e = "(k_ext k)\<lparr>ext_y := ext_y (k_ext k) - sh_y (k_shift k), ext_x := ext_x (k_ext k) - sh_x (k_shift k)\<rparr>"
    let ?k = "\<lparr>k_pos = ?p, k_ext = ?e, k_shift = shift_zero, k_seq = {dst}\<rparr>"
    have p: "?p \<noteq> -1" "0 \<le> ?p" using k(4) \<open>src \<in> k_seq k\<close> by (simp_all add: unshifted_ok_def)
    have set: "cells_seq_add i dst (ext_set i ?e (pos_set i ?p (mk_cells ks b))) = mk_cells (ks[i := ?k]) b"
      using ks p by (simp add: pos_set_mk ext_set_mk cells_seq_add_mk cell_empty_def)
    have ok: "cells_ok (ks[i := ?k])"
      using ks(1) p dst by (intro ballI) (auto simp: cell_ok_def dest!: set_update_subset_insert [THEN subsetD])
    have sh: "cell_shifted (k_shift k) ?k = k\<lparr>k_seq := {dst}\<rparr>"
      using k0 by (simp add: cell_shifted_def ext_move_def)
    have "snd (pos_shift i (k_shift k) (mk_cells (ks[i := ?k]) b)) = mk_cells (ks[i := k\<lparr>k_seq := {dst}\<rparr>]) True"
      using pos_shift_mk [OF _ ok, of i "k_shift k" b] ks(2) p sh by simp
    then show ?thesis using k ks k0 \<open>src \<in> k_seq k\<close> False set
      by (simp add: cross_cp_step_def seq_has_mk cross_cell_def pos_get_def get_shift_ext_def ext_get_def shift_is_zero_def)
  qed
qed

lemma cross_cell_ok: "cell_ok k \<Longrightarrow> dst \<in> valid_seqs \<Longrightarrow> cell_ok (cross_cell src dst k)"
  by (auto simp: cross_cell_def cell_ok_def)

lemma cross_cp_loop:
  assumes ok: "cells_ok ks0" and dst: "dst \<in> valid_seqs"
    and un: "\<forall>k \<in> set ks0. src \<in> k_seq k \<longrightarrow> unshifted_ok k" and m: "m \<le> length ks0"
  shows "fold (cross_cp_step (mk_cells ks0 b0) src dst) [0..<m] (mk_cells (replicate (length ks0) cell_empty) False)
    = mk_cells (map (cross_cell src dst) (take m ks0) @ replicate (length ks0 - m) cell_empty)
        (\<exists>k \<in> set (take m ks0). src \<in> k_seq k \<and> k_shift k \<noteq> shift_zero)"
  using m
proof (induction m)
  case (Suc m)
  let ?ks = "map (cross_cell src dst) (take m ks0) @ replicate (length ks0 - m) cell_empty"
  have m: "m < length ks0" using Suc.prems by simp
  have oks: "cells_ok ?ks" using ok cross_cell_ok [OF _ dst] by (auto dest: in_set_takeD)
  have nth: "?ks ! m = cell_empty" using m by (simp add: nth_append)
  have upd: "?ks[m := cross_cell src dst (ks0 ! m)] = map (cross_cell src dst) (take (Suc m) ks0) @ replicate (length ks0 - Suc m) cell_empty"
    using m by (simp add: list_update_append take_Suc_conv_app_nth flip: replicate_Suc Suc_diff_Suc)
      (simp add: Suc_diff_Suc [symmetric] replicate_Suc)
  have step: "cross_cp_step (mk_cells ks0 b0) src dst m (mk_cells ?ks b) = mk_cells (map (cross_cell src dst) (take (Suc m) ks0) @ replicate (length ks0 - Suc m) cell_empty)
      (b \<or> (src \<in> k_seq (ks0 ! m) \<and> k_shift (ks0 ! m) \<noteq> shift_zero))" for b
    using cross_cp_step_mk [OF refl m _ _ oks _ nth dst, of src b0 b] ok un m by (simp add: upd)
  show ?case using Suc m by (simp add: step take_Suc_conv_app_nth) (simp add: disj_commute)
qed simp

lemma kv_seq_cp_across_run:
  assumes wf: "kv_wf n kc" and o: "kc_other kc = None" and r: "seq_in_range kc src" "seq_in_range kc dst"
    and diff: "strm kc src \<noteq> strm kc dst" and p0: "p0 \<le> 0" and p1: "p1 \<le> 0 \<or> int n \<le> p1 + 1"
    and un: "\<forall>k \<in> set (stream kc (strm kc src)). src \<in> k_seq k \<longrightarrow> 0 \<le> k_pos k - sh_t (k_shift k)"
  shows "\<exists>kc'. kv_seq_cp src dst p0 p1 kc = Inr kc' \<and> kv_wf n kc'
    \<and> stream kc' (strm kc dst) = map (\<lambda>k. if src \<in> k_seq k then k\<lparr>k_seq := {dst}\<rparr> else cell_empty) (stream kc (strm kc src))
    \<and> kv_positions kc' dst = kv_positions kc src
    \<and> (\<forall>t. t \<noteq> strm kc dst \<longrightarrow> stream kc' t = stream kc t)
    \<and> sc_ssrc (kc_sc_info kc') = sc_ssrc (kc_sc_info kc) @ [strm kc src]
    \<and> sc_sdst (kc_sc_info kc') = sc_sdst (kc_sc_info kc) @ [strm kc dst]"
proof -
  let ?s0 = "strm kc src" and ?s1 = "strm kc dst"
  have st: "?s0 < kc_n_stream kc" "?s1 < kc_n_stream kc" using strm_less [OF wf] r by auto
  have dst: "dst \<in> valid_seqs" using valid_of_range [OF wf r(2)] .
  obtain b0 where c0: "kc_v_cells kc ! ?s0 = mk_cells (stream kc ?s0) b0" "cells_ok (stream kc ?s0)" "length (stream kc ?s0) = n"
    using stream_cells [OF wf st(1)] by blast
  obtain b1 where c1: "kc_v_cells kc ! ?s1 = mk_cells (stream kc ?s1) b1" "cells_ok (stream kc ?s1)" "length (stream kc ?s1) = n"
    using stream_cells [OF wf st(2)] by blast
  have n: "cells_size (kc_v_cells kc ! ?s0) = n" using c0(3) by simp
  have sz: "get_size kc = n"
  proof -
    have "kc_seq_to_stream kc ! 0 < kc_n_stream kc" using wf by (auto simp: kv_wf_def LLAMA_MAX_SEQ_def)
    then show ?thesis using kv_wf_stream [OF wf] by (simp add: get_size_def stream_ok_def)
  qed
  let ?ks = "map (cross_cell src dst) (stream kc ?s0)" and ?b = "\<exists>k \<in> set (stream kc ?s0). src \<in> k_seq k \<and> k_shift k \<noteq> shift_zero"
  have un': "\<forall>k \<in> set (stream kc ?s0). src \<in> k_seq k \<longrightarrow> unshifted_ok k" using un by (simp add: unshifted_ok_def)
  have reset: "cells_reset (kc_v_cells kc ! ?s1) = mk_cells (replicate (length (stream kc ?s0)) cell_empty) False"
    by (subst c1(1)) (simp only: cells_reset_mk [OF c1(2)] c1(3) c0(3))
  have "fold (cross_cp_step (kc_v_cells kc ! ?s0) src dst) [0..<n] (mk_cells (replicate (length (stream kc ?s0)) cell_empty) False) = mk_cells ?ks ?b"
    by (subst c0(1)) (use cross_cp_loop [OF c0(2) dst un' order_refl, of b0] c0(3) in simp)
  then have loop: "fold (cross_cp_step (kc_v_cells kc ! ?s0) src dst) [0..<n] (cells_reset (kc_v_cells kc ! ?s1)) = mk_cells ?ks ?b"
    unfolding reset .
  let ?upd = "set_stream ?s1 (mk_cells ?ks ?b) (kc_v_heads kc ! ?s0) kc"
  let ?kc = "?upd\<lparr>kc_sc_info := \<lparr>sc_ssrc = sc_ssrc (kc_sc_info kc) @ [?s0], sc_sdst = sc_sdst (kc_sc_info kc) @ [?s1]\<rparr>\<rparr>"
  have "kv_seq_cp src dst p0 p1 kc = Inr ?kc"
    using o r diff p0 p1 sz by (auto simp: kv_seq_cp_def Let_def n loop)
  moreover have "kv_wf n ?upd"
  proof (rule set_stream_wf [OF wf st(2)])
    show "cells_wf (mk_cells ?ks ?b)" using c0(2) cross_cell_ok [OF _ dst] by (intro cells_wf_mk) auto
    show "kc_v_heads kc ! ?s0 \<le> n" using kv_wf_stream [OF wf st(1)] by (simp add: stream_ok_def)
    show "\<forall>k\<in>set (cells_list (mk_cells ?ks ?b)). k_seq k \<subseteq> stream_seqs kc ?s1"
      using seq_in_stream_seqs [OF r(2)] by (auto simp: cross_cell_def)
  qed (use c0(3) in simp)
  then have "kv_wf n ?kc" by simp
  moreover have v: "stream ?kc t = (if t = ?s1 then ?ks else stream kc t)" for t
    using kv_wf_lengths [OF wf] st by (simp add: nth_list_update)
  moreover have "seq_positions ?ks dst = seq_positions (stream kc ?s0) src"
    unfolding seq_positions_image [of "stream kc ?s0"] by (rule seq_positions_map) (auto simp: cross_cell_def)
  then have "kv_positions ?kc dst = kv_positions kc src" using v by (simp add: kv_positions_def strm_def)
  moreover have "stream ?kc ?s1 = map (\<lambda>k. if src \<in> k_seq k then k\<lparr>k_seq := {dst}\<rparr> else cell_empty) (stream kc ?s0)"
    unfolding v by (simp add: cross_cell_def [abs_def])
  ultimately show ?thesis by (intro exI [of _ ?kc]) auto
qed

text \<open>C27. A copy between streams with a range that covers every position of the source sequence (the only ranges the code means to support; it asserts that the range is not
  smaller than the buffer) replaces the whole destination stream: afterwards it holds a copy of
  each cell of the source sequence, at the same index, with the same position, extra data and pending
  shift, owned by the destination sequence alone, and nothing else. The other streams are unchanged
  and the buffer copy of the two streams is queued for the next update. The position a cell had when
  its keys were last rotated must not be negative, as the code asserts.\<close>

theorem kv_seq_cp_across_streams:
  assumes wf: "kv_wf n kc" and o: "kc_other kc = None" and r: "seq_in_range kc src" "seq_in_range kc dst"
    and diff: "strm kc src \<noteq> strm kc dst" and p0: "p0 \<le> 0" and p1: "p1 < 0 \<or> int n \<le> p1 + 1 \<and> (\<forall>p \<in> kv_positions kc src. p < p1)"
    and un: "\<forall>k \<in> set (stream kc (strm kc src)). src \<in> k_seq k \<longrightarrow> 0 \<le> k_pos k - sh_t (k_shift k)"
  shows "\<exists>kc'. kv_seq_cp src dst p0 p1 kc = Inr kc' \<and> kv_wf n kc'
    \<and> stream kc' (strm kc dst) = map (\<lambda>k. if src \<in> k_seq k then k\<lparr>k_seq := {dst}\<rparr> else cell_empty) (stream kc (strm kc src))
    \<and> kv_positions kc' dst = kv_positions kc src
    \<and> (\<forall>t. t \<noteq> strm kc dst \<longrightarrow> stream kc' t = stream kc t)
    \<and> sc_ssrc (kc_sc_info kc') = sc_ssrc (kc_sc_info kc) @ [strm kc src]
    \<and> sc_sdst (kc_sc_info kc') = sc_sdst (kc_sc_info kc) @ [strm kc dst]"
  using kv_seq_cp_across_run [OF wf o r diff p0 _ un] p1 by auto

subsection \<open>Shifting and dividing positions\<close>

lemma cell_seq_add_seq_subset: "k_seq (cell_seq_add s p0 p1 d m k) \<subseteq> k_seq k"
  by (auto simp: cell_seq_add_def cell_shifted_def)

lemma sh_t_shift_delta [simp]: "sh_t (shift_delta d m) = d"
  by (simp add: shift_delta_def shift_zero_def Let_def)

lemma kv_seq_add_eq:
  assumes wf: "kv_wf n kc" and o: "kc_other kc = None" and s: "seq_in_range kc s" and can: "get_can_shift kc"
  shows "\<exists>kc'. kv_seq_add s p0 p1 d kc = Inr kc' \<and> kv_wf n kc' \<and> strm kc' = strm kc \<and> kc_other kc' = None
    \<and> (\<forall>t. stream kc' t = (if t = strm kc s \<and> d \<noteq> 0 \<and> range_lo p0 \<noteq> range_hi p1
         then map (cell_seq_add s (range_lo p0) (range_hi p1) d (uses_mrope_shift (kc_hparams kc))) (stream kc t) else stream kc t))"
proof (cases "d = 0 \<or> range_lo p0 = range_hi p1")
  case True
  then have "kv_seq_add s p0 p1 d kc = Inr kc" using o s can by (auto simp: kv_seq_add_def Let_def)
  then show ?thesis using wf True o by auto
next
  case False
  let ?st = "strm kc s" and ?f = "cell_seq_add s (range_lo p0) (range_hi p1) d (uses_mrope_shift (kc_hparams kc))"
  have st: "?st < kc_n_stream kc" using strm_less [OF wf s] .
  note loop = seq_add.loop_stream [OF wf st, of s "range_lo p0" "range_hi p1" d "uses_mrope_shift (kc_hparams kc)", simplified]
  have sub: "k_seq (?f k) \<subseteq> stream_seqs kc ?st" if "k \<in> set (stream kc ?st)" for k
    using stream_k_seq [OF wf st that] cell_seq_add_seq_subset by blast
  define h where "h = (if first_index (\<lambda>k. pos_inside (range_lo p0) (range_hi p1) k \<and> s \<in> k_seq k \<and> k_pos k + d < 0) (stream kc ?st) \<noteq> n
     then first_index (\<lambda>k. pos_inside (range_lo p0) (range_hi p1) k \<and> s \<in> k_seq k \<and> k_pos k + d < 0) (stream kc ?st) else 0)"
  have n: "cells_size (kc_v_cells kc ! ?st) = n" using kv_wf_stream [OF wf st] by (simp add: stream_ok_def)
  have h: "h \<le> n"
    using first_index_le [of "\<lambda>k. pos_inside (range_lo p0) (range_hi p1) k \<and> s \<in> k_seq k \<and> k_pos k + d < 0" "stream kc ?st"] n
    by (auto simp: h_def)
  have ok: "cells_ok (map ?f (stream kc ?st))" using loop(2) by simp
  have eq: "kv_seq_add s p0 p1 d kc = Inr (set_stream ?st (mk_cells (map ?f (stream kc ?st))
       (c_has_shift (kc_v_cells kc ! ?st) \<or> (\<exists>k\<in>set (stream kc ?st). pos_inside (range_lo p0) (range_hi p1) k \<and> s \<in> k_seq k))) h kc)"
    using False o s can loop(1) n by (simp add: kv_seq_add_def Let_def h_def)
  show ?thesis unfolding eq
    using replace_stream [OF wf st ok h sub] o False by simp
qed

text \<open>\<open>seq_add\<close> moves the positions of the sequence in the range by the shift; a position that would
  become negative leaves the cache. A negative bound stands for the end of the range, and nothing of
  a sequence that shares no cell with \<open>s\<close> changes.\<close>

lemma kv_seq_add_shifts_range:
  assumes wf: "kv_wf n kc" and o: "kc_other kc = None" and s: "seq_in_range kc s" and can: "get_can_shift kc"
  shows "\<exists>kc'. kv_seq_add s p0 p1 d kc = Inr kc' \<and> kv_wf n kc'
    \<and> kv_positions kc' s = {p \<in> kv_positions kc s. \<not> (range_lo p0 \<le> p \<and> p < range_hi p1)}
        \<union> {p + d |p. p \<in> kv_positions kc s \<and> range_lo p0 \<le> p \<and> p < range_hi p1 \<and> 0 \<le> p + d}
    \<and> (\<forall>s'. (\<forall>k \<in> set (stream kc (strm kc s)). \<not> (s \<in> k_seq k \<and> s' \<in> k_seq k)) \<longrightarrow> kv_positions kc' s' = kv_positions kc s')"
proof -
  let ?lo = "range_lo p0" and ?hi = "range_hi p1" and ?ks = "stream kc (strm kc s)"
  let ?f = "cell_seq_add s ?lo ?hi d (uses_mrope_shift (kc_hparams kc))"
  obtain kc' where kc': "kv_seq_add s p0 p1 d kc = Inr kc'" "kv_wf n kc'" "strm kc' = strm kc"
    "\<And>t. stream kc' t = (if t = strm kc s \<and> d \<noteq> 0 \<and> ?lo \<noteq> ?hi then map ?f (stream kc t) else stream kc t)"
    using kv_seq_add_eq [OF assms, of p0 p1 d] by blast
  have nonneg: "0 \<le> p" if "p \<in> seq_positions ?ks s" for p
    using that stream_cells [OF wf strm_less [OF wf s]] seq_positions_nonneg by metis
  let ?g = "\<lambda>k. if pos_inside ?lo ?hi k then k_pos k + d else k_pos k"
  have "seq_positions (map ?f ?ks) s = ?g ` {k \<in> set ?ks. s \<in> k_seq k \<and> (pos_inside ?lo ?hi k \<longrightarrow> 0 \<le> k_pos k + d)}"
    by (rule seq_positions_map) (auto simp: cell_seq_add_def cell_shifted_def)
  also have "\<dots> = {p \<in> seq_positions ?ks s. \<not> (?lo \<le> p \<and> p < ?hi)}
        \<union> {p + d |p. p \<in> seq_positions ?ks s \<and> ?lo \<le> p \<and> p < ?hi \<and> 0 \<le> p + d}"
    unfolding seq_positions_image pos_inside_def by (auto simp: image_iff)
  finally have moved: "seq_positions (map ?f ?ks) s = {p \<in> seq_positions ?ks s. \<not> (?lo \<le> p \<and> p < ?hi)}
        \<union> {p + d |p. p \<in> seq_positions ?ks s \<and> ?lo \<le> p \<and> p < ?hi \<and> 0 \<le> p + d}" .
  have idle: "seq_positions ?ks s = {p \<in> seq_positions ?ks s. \<not> (?lo \<le> p \<and> p < ?hi)}
        \<union> {p + d |p. p \<in> seq_positions ?ks s \<and> ?lo \<le> p \<and> p < ?hi \<and> 0 \<le> p + d}" if "d = 0 \<or> ?lo = ?hi"
    using that nonneg by auto
  have "kv_positions kc' s = {p \<in> kv_positions kc s. \<not> (?lo \<le> p \<and> p < ?hi)}
        \<union> {p + d |p. p \<in> kv_positions kc s \<and> ?lo \<le> p \<and> p < ?hi \<and> 0 \<le> p + d}"
    unfolding kv_positions_def kc'(3,4) using moved idle by auto
  moreover have "kv_positions kc' s' = kv_positions kc s'" if "\<forall>k \<in> set ?ks. \<not> (s \<in> k_seq k \<and> s' \<in> k_seq k)" for s'
  proof -
    have "seq_positions (map ?f ?ks) s' = seq_positions ?ks s'"
      using that by (intro seq_positions_map_same) (auto simp: cell_seq_add_def cell_shifted_def split: if_splits)
    then show ?thesis by (auto simp: kv_positions_def kc'(3,4))
  qed
  ultimately show ?thesis using kc'(1,2) by blast
qed

text \<open>C26. Context shift. When sequence \<open>s\<close> holds the positions \<open>0 \<dots> n_past - 1\<close>, removing
  \<open>[n_keep, n_keep + n_discard)\<close> and moving the rest down by \<open>n_discard\<close> leaves it exactly the
  positions \<open>0 \<dots> n_past - n_discard - 1\<close>: no gap, so that the next batch of the sequence is accepted
  as a continuation.\<close>

theorem kv_context_shift:
  assumes wf: "kv_wf n kc" and o: "kc_other kc = None" and s: "seq_in_range kc s" and can: "get_can_shift kc"
    and pos: "kv_positions kc s = {0..<n_past}" and r: "0 \<le> n_keep" "0 \<le> n_discard" "n_keep + n_discard \<le> n_past"
  shows "\<exists>kc'. bind_res (kv_seq_rm s n_keep (n_keep + n_discard) kc)
        (\<lambda>(_, kc). kv_seq_add s (n_keep + n_discard) n_past (- n_discard) kc) = Inr kc'
    \<and> kv_wf n kc' \<and> kv_positions kc' s = {0..<n_past - n_discard}"
proof -
  obtain kc1 where kc1: "kv_seq_rm s n_keep (n_keep + n_discard) kc = Inr (True, kc1)" "kv_wf n kc1" "kc_other kc1 = None"
    "seq_in_range kc1 s" "get_can_shift kc1" "kv_positions kc1 s = {p \<in> {0..<n_past}. \<not> (n_keep \<le> p \<and> p < n_keep + n_discard)}"
    using kv_seq_rm_run [OF wf o s, of n_keep "n_keep + n_discard"] can s pos r by (auto simp: range_lo_def range_hi_def)
  let ?P = "{p \<in> {0..<n_past}. \<not> (n_keep \<le> p \<and> p < n_keep + n_discard)}"
  obtain kc2 where kc2: "kv_seq_add s (n_keep + n_discard) n_past (- n_discard) kc1 = Inr kc2" "kv_wf n kc2"
    "kv_positions kc2 s = {p \<in> ?P. \<not> (n_keep + n_discard \<le> p \<and> p < n_past)}
       \<union> {p + - n_discard |p. p \<in> ?P \<and> n_keep + n_discard \<le> p \<and> p < n_past \<and> 0 \<le> p + - n_discard}"
    using kv_seq_add_shifts_range [OF kc1(2,3,4,5), of "n_keep + n_discard" n_past "- n_discard"] r
    by (auto simp: kc1(6) range_lo_def range_hi_def)
  have "kv_positions kc2 s = {0..<n_past - n_discard}"
  proof (intro set_eqI iffI)
    fix x assume x: "x \<in> {0..<n_past - n_discard}"
    show "x \<in> kv_positions kc2 s"
    proof (cases "x < n_keep")
      case False
      then show ?thesis unfolding kc2(3)
        using x r by (intro UnI2 CollectI exI [of _ "x + n_discard"]) auto
    qed (use x r in \<open>auto simp: kc2(3)\<close>)
  qed (use r in \<open>auto simp: kc2(3)\<close>)
  then show ?thesis using kc1(1) kc2(1,2) by simp
qed

subsection \<open>Construction, reset and update\<close>

lemma kv_cache_new_wf:
  assumes "kv_cache_new hp step35 unified kv_size n_seq_max n_pad n_swa swa_type = Inr kc"
    and "0 < n_seq_max" "n_seq_max \<le> LLAMA_MAX_SEQ"
  shows "kv_wf kv_size kc \<and> kc_other kc = None \<and> (\<forall>s. seq_in_range kc s \<longrightarrow> kv_positions kc s = {})"
proof -
  let ?n = "if unified then 1 else n_seq_max"
  have kc: "kc_n_stream kc = ?n" "kc_v_heads kc = replicate ?n 0" "kc_v_cells kc = replicate ?n (mk_cells (replicate kv_size cell_empty) False)"
    "kc_other kc = None" "kc_seq_to_stream kc = (if ?n > 1 then fold (\<lambda>s v. v[s := s]) [0..<?n] (vec_resize ?n 0 (replicate LLAMA_MAX_SEQ 0)) else replicate LLAMA_MAX_SEQ 0)"
    using assms(1) by (auto simp: kv_cache_new_def Let_def res_Inr_iffs cells_resize_new)
  have "length (vec_resize ?n 0 (replicate LLAMA_MAX_SEQ 0)) = ?n" by (simp add: vec_resize_def)
  then have seqs: "kc_seq_to_stream kc = (if ?n > 1 then [0..<?n] else replicate LLAMA_MAX_SEQ 0)"
    unfolding kc(5) by (subst fold_update_upt [where f = "\<lambda>i. i"]) simp_all
  have n: "0 < ?n" "?n \<le> LLAMA_MAX_SEQ" using assms(2,3) by auto
  have "stream_ok kv_size kc t" if "t < ?n" for t
    using that cells_wf_mk [of "replicate kv_size cell_empty" False] by (simp add: stream_ok_def kc(2,3))
  then have wf: "kv_wf kv_size kc" using n by (simp add: kv_wf_def kc(1,2,3) seqs)
  moreover have "kv_positions kc s = {}" if "seq_in_range kc s" for s
    using strm_less [OF wf that] by (simp add: kv_positions_def kc(1,3) seq_positions_def)
  ultimately show ?thesis using kc(4) by blast
qed

lemma fold_update_each:
  "fold (\<lambda>s v. v[s := f (v ! s)]) [0..<m] v = map f (take m v) @ drop m v" if "m \<le> length v"
  using that
proof (induction m)
  case (Suc m)
  then have "m < length v" by simp
  then show ?case using Suc
    by (simp add: list_update_append nth_append take_Suc_conv_app_nth Cons_nth_drop_Suc [symmetric])
qed simp

lemma reset_shifts_spec:
  assumes wf: "kv_wf n kc"
  shows "kv_wf n (reset_shifts kc) \<and> strm (reset_shifts kc) = strm kc \<and> \<not> kv_get_has_shift (reset_shifts kc)
    \<and> (\<forall>t < kc_n_stream kc. stream (reset_shifts kc) t = map (\<lambda>k. k\<lparr>k_shift := shift_zero\<rparr>) (stream kc t))"
proof -
  have l: "length (kc_v_cells kc) = kc_n_stream kc" using kv_wf_lengths [OF wf] by simp
  have f: "kc_v_cells (reset_shifts kc) = map reset_shift (kc_v_cells kc)"
    by (simp add: reset_shifts_def fold_update_each l)
  have c: "kc_v_cells (reset_shifts kc) ! t = mk_cells (map (\<lambda>k. k\<lparr>k_shift := shift_zero\<rparr>) (stream kc t)) False" if t: "t < kc_n_stream kc" for t
  proof -
    obtain b where b: "kc_v_cells kc ! t = mk_cells (stream kc t) b" using stream_cells [OF wf t] by blast
    have "reset_shift (kc_v_cells kc ! t) = mk_cells (map (\<lambda>k. k\<lparr>k_shift := shift_zero\<rparr>) (stream kc t)) False"
      by (subst b) (simp only: reset_shift_mk)
    then show ?thesis unfolding f using t l by simp
  qed
  have ok: "stream_ok n (reset_shifts kc) t" if "t < kc_n_stream kc" for t
    using kv_wf_stream [OF wf that] unfolding stream_ok_def c [OF that]
    by (auto simp: reset_shifts_def stream_seqs_def seq_in_range_def strm_def cells_wf_def intro!: cell_ok_noshift)
  have "\<not> fold (\<lambda>s r. r \<or> get_has_shift (kc_v_cells (reset_shifts kc) ! s)) [0..<kc_n_stream kc] False"
    by (rule fold_invariant_mem [where I = Not]) (simp_all add: c get_has_shift_def)
  then have "\<not> kv_get_has_shift (reset_shifts kc)" by (simp add: kv_get_has_shift_def reset_shifts_def)
  moreover have "kv_wf n (reset_shifts kc)"
    using wf ok l f by (simp add: kv_wf_def reset_shifts_def)
  moreover have "strm (reset_shifts kc) = strm kc" by (simp add: reset_shifts_def strm_def fun_eq_iff)
  ultimately show ?thesis using c by simp
qed

lemma kv_clear_spec:
  assumes wf: "kv_wf n kc"
  shows "kv_wf n (kv_clear kc) \<and> (\<forall>t < kc_n_stream kc. stream (kv_clear kc) t = replicate n cell_empty \<and> kc_v_heads (kv_clear kc) ! t = 0)"
proof -
  have "m \<le> kc_n_stream kc \<Longrightarrow> (let kc' = fold (\<lambda>s kc. set_stream s (cells_reset (kc_v_cells kc ! s)) 0 kc) [0..<m] kc in
    kv_wf n kc' \<and> kc_n_stream kc' = kc_n_stream kc \<and> (\<forall>t < m. stream kc' t = replicate n cell_empty \<and> kc_v_heads kc' ! t = 0))" for m
  proof (induction m)
    case 0
    then show ?case using wf by simp
  next
    case (Suc m)
    define kc' where "kc' = fold (\<lambda>s kc. set_stream s (cells_reset (kc_v_cells kc ! s)) 0 kc) [0..<m] kc"
    have IH: "kv_wf n kc'" "kc_n_stream kc' = kc_n_stream kc" "m < kc_n_stream kc'"
      "\<And>t. t < m \<Longrightarrow> stream kc' t = replicate n cell_empty \<and> kc_v_heads kc' ! t = 0"
      using Suc by (simp_all add: kc'_def Let_def)
    obtain b where b: "kc_v_cells kc' ! m = mk_cells (stream kc' m) b" "cells_ok (stream kc' m)" "length (stream kc' m) = n"
      using stream_cells [OF IH(1,3)] by blast
    have r: "cells_reset (kc_v_cells kc' ! m) = mk_cells (replicate n cell_empty) False"
      by (subst b(1)) (simp only: cells_reset_mk [OF b(2)] b(3))
    have "kv_wf n (set_stream m (mk_cells (replicate n cell_empty) False) 0 kc')"
      by (rule set_stream_wf [OF IH(1,3)]) (auto intro!: cells_wf_mk)
    then show ?case using IH kv_wf_lengths [OF IH(1)]
      by (simp add: kc'_def [symmetric] Let_def r nth_list_update less_Suc_eq)
  qed
  from this [OF order_refl] show ?thesis by (simp add: kv_clear_def Let_def)
qed

lemma kv_seq_div_wf:
  assumes wf: "kv_wf n kc" and s: "seq_in_range kc s" and d: "0 < d" and eq: "kv_seq_div s p0 p1 d kc = Inr kc'"
  shows "kv_wf n kc'"
proof (cases "kc' = kc")
  case False
  let ?st = "strm kc s"
  have st: "?st < kc_n_stream kc" using strm_less [OF wf s] .
  note loop = seq_div.loop_stream [OF wf st, of d s "range_lo p0" "range_hi p1", OF ballI, OF d]
  have heads: "?st < length (kc_v_heads kc)" "kc_v_heads kc ! ?st \<le> n"
    using kv_wf_lengths [OF wf] st kv_wf_stream [OF wf st] by (simp_all add: stream_ok_def)
  have sub: "k_seq (cell_seq_div s (range_lo p0) (range_hi p1) d k) \<subseteq> stream_seqs kc ?st" if "k \<in> set (stream kc ?st)" for k
    using stream_k_seq [OF wf st that] by (auto simp: cell_seq_div_def cell_divided_def)
  have "kc' = kc\<lparr>kc_v_cells := (kc_v_cells kc)[?st := snd (cells_loop (seq_div_step s (range_lo p0) (range_hi p1) d) (kc_v_cells kc ! ?st))]\<rparr>"
    using eq False by (auto simp: kv_seq_div_def Let_def res_Inr_iffs split: if_splits prod.splits)
  then show ?thesis using replace_stream(1) [OF wf st loop(2) heads(2) sub] heads(1)
    by (simp add: loop(1) update_cells_set_stream)
qed (use wf in simp)

subsection \<open>A concrete cache\<close>

text \<open>Two streams of three cells; sequence 0 holds positions 0, 1 and 2 in stream 0.\<close>

definition demo_cell :: "llama_pos \<Rightarrow> llama_seq_id \<Rightarrow> kv_cell" where
  "demo_cell p s = cell_empty\<lparr>k_pos := p, k_seq := {s}\<rparr>"

definition demo_cache :: "bool \<Rightarrow> kv_cache" where
  "demo_cache unified = set_stream 0 (mk_cells [demo_cell 0 0, demo_cell 1 0, demo_cell 2 0] False) 0
     (projr (kv_cache_new demo_hparams False unified 3 2 1 0 LLAMA_SWA_TYPE_NONE))"

lemma demo_cache_new:
  obtains kc where "kv_cache_new demo_hparams False unified 3 2 1 0 LLAMA_SWA_TYPE_NONE = Inr kc"
    "kc_hparams kc = demo_hparams" "\<not> kc_step35 kc" "kc_n_stream kc = (if unified then 1 else 2)"
  by (cases unified) (simp_all add: kv_cache_new_def)

lemma demo_cache_wf: "kv_wf 3 (demo_cache u)" "kc_other (demo_cache u) = None" "get_can_shift (demo_cache u)"
  "seq_in_range (demo_cache u) 0" "seq_in_range (demo_cache u) 1" "strm (demo_cache u) 0 = 0" "strm (demo_cache u) 1 = (if u then 0 else 1)"
  "stream (demo_cache u) 0 = [demo_cell 0 0, demo_cell 1 0, demo_cell 2 0]"
proof -
  obtain kc where kc: "kv_cache_new demo_hparams False u 3 2 1 0 LLAMA_SWA_TYPE_NONE = Inr kc"
    "kc_hparams kc = demo_hparams" "\<not> kc_step35 kc" "kc_n_stream kc = (if u then 1 else 2)"
    by (rule demo_cache_new)
  have wf: "kv_wf 3 kc" "kc_other kc = None" using kv_cache_new_wf [OF kc(1)] by (simp_all add: LLAMA_MAX_SEQ_def)
  have d: "demo_cache u = set_stream 0 (mk_cells [demo_cell 0 0, demo_cell 1 0, demo_cell 2 0] False) 0 kc"
    by (simp only: demo_cache_def kc(1) sum.sel)
  have ss: "kc_seq_to_stream kc = (if u then replicate LLAMA_MAX_SEQ 0 else [0, 1])"
    using wf(1) kc(4) by (auto simp: kv_wf_def numeral_2_eq_2)
  have r: "seq_in_range kc 0" "seq_in_range kc 1" "strm kc 0 = 0" "strm kc 1 = (if u then 0 else 1)"
    by (auto simp: seq_in_range_def strm_def ss LLAMA_MAX_SEQ_def)
  show "kv_wf 3 (demo_cache u)" unfolding d
  proof (rule set_stream_wf [OF wf(1)])
    show "cells_wf (mk_cells [demo_cell 0 0, demo_cell 1 0, demo_cell 2 0] False)"
      by (rule cells_wf_mk) (simp add: demo_cell_def cell_ok_def valid_seqs_def LLAMA_MAX_SEQ_def)
  qed (use kc(4) r in \<open>auto simp: demo_cell_def stream_seqs_def\<close>)
  show "get_can_shift (demo_cache u)"
    using kc(2,3) by (simp add: d get_can_shift_def n_pos_per_embd_def demo_hparams_def)
  have "0 < length (kc_v_cells kc)" using kv_wf_lengths [OF wf(1)] kc(4) by simp
  then show "stream (demo_cache u) 0 = [demo_cell 0 0, demo_cell 1 0, demo_cell 2 0]" by (simp add: d)
  show "kc_other (demo_cache u) = None" "seq_in_range (demo_cache u) 0" "seq_in_range (demo_cache u) 1"
    "strm (demo_cache u) 0 = 0" "strm (demo_cache u) 1 = (if u then 0 else 1)"
    using r wf(2) by (simp_all add: d)
qed

lemma demo_cell_sel [simp]: "k_pos (demo_cell p s) = p" "k_seq (demo_cell p s) = {s}" "k_shift (demo_cell p s) = shift_zero"
  by (simp_all add: demo_cell_def)

lemma demo_cache_positions: "kv_positions (demo_cache u) 0 = {0, 1, 2}" "kv_positions (demo_cache True) 1 = {}"
  by (auto simp: kv_positions_def demo_cache_wf seq_positions_Cons)

theorem kv_seq_rm_removes_range_witness:
  "\<exists>kc'. kv_seq_rm 0 1 (-1) (demo_cache True) = Inr (True, kc') \<and> kv_positions kc' 0 = {0}"
proof -
  have "{p \<in> {0, 1, 2 :: int}. \<not> (range_lo 1 \<le> p \<and> p < range_hi (-1))} = {0}" by (auto simp: range_lo_def range_hi_def INT32_MAX_def)
  then show ?thesis
    using kv_seq_rm_removes_range [OF demo_cache_wf(1,2,4), of 1 "-1" True] unfolding demo_cache_positions by metis
qed

theorem kv_seq_cp_within_stream_witness:
  "\<exists>kc'. kv_seq_cp 0 1 1 (-1) (demo_cache True) = Inr kc' \<and> kv_positions kc' 1 = {1, 2} \<and> kv_positions kc' 0 = {0, 1, 2}"
proof -
  have "{} \<union> {p \<in> {0, 1, 2 :: int}. range_lo 1 \<le> p \<and> p < range_hi (-1)} = {1, 2}" by (auto simp: range_lo_def range_hi_def INT32_MAX_def)
  then show ?thesis
    using kv_seq_cp_within_stream [OF demo_cache_wf(1) [of True] demo_cache_wf(2,4,5), of 1 "-1"] demo_cache_positions
    by (simp add: demo_cache_wf) (metis zero_neq_one)
qed

theorem kv_seq_cp_across_streams_witness:
  "\<exists>kc'. kv_seq_cp 0 1 (-1) (-1) (demo_cache False) = Inr kc' \<and> kv_positions kc' 1 = {0, 1, 2}
     \<and> stream kc' 1 = [demo_cell 0 1, demo_cell 1 1, demo_cell 2 1]"
proof -
  have "map (\<lambda>k. if 0 \<in> k_seq k then k\<lparr>k_seq := {1}\<rparr> else cell_empty) [demo_cell 0 0, demo_cell 1 0, demo_cell 2 0]
      = [demo_cell 0 1, demo_cell 1 1, demo_cell 2 1]"
    by (simp add: demo_cell_def)
  then show ?thesis
    using kv_seq_cp_across_streams [OF demo_cache_wf(1) [of False] demo_cache_wf(2,4,5), of "-1" "-1"] demo_cache_positions(1) [of False]
    by (simp add: demo_cache_wf shift_zero_def) metis
qed

theorem kv_context_shift_witness:
  "\<exists>kc'. bind_res (kv_seq_rm 0 1 (1 + 1) (demo_cache True)) (\<lambda>(_, kc). kv_seq_add 0 (1 + 1) 3 (- 1) kc) = Inr kc'
     \<and> kv_positions kc' 0 = {0..<2}"
proof -
  have "kv_positions (demo_cache True) 0 = {0..<3}" unfolding demo_cache_positions by auto
  from kv_context_shift [OF demo_cache_wf(1,2,4,3) this, of 1 1] show ?thesis by auto
qed

end
