(* ===== verification/KV_Slots.thy ===== *)
theory KV_Slots
  imports KV_Cache_Props
begin

section \<open>The KV cache: finding slots and placing ubatches\<close>

text \<open>
  \<^verbatim>\<open>src/llama-kv-cache.cpp\<close>: \<open>find_slot\<close> looks for cells for the tokens of a ubatch, \<open>apply_ubatch\<close>
  writes their metadata, \<open>prepare\<close> tries out all ubatches of a batch and takes the changes back, and
  \<open>init_batch\<close> splits a batch and prepares it.

  \<^item> \<open>slot_info\<close> says for each stream of a ubatch the cell of each token; \<open>return {}\<close> is \<open>slot_none\<close>.
  \<^item> \<open>find_slot\<close> runs its search loop as the partial function \<open>slot_search\<close>, whose value is \<open>None\<close> when
    the loop does not end. The debug output is left out.
\<close>

subsection \<open>Slots\<close>

record slot_info =
  si_s0 :: nat
  si_s1 :: nat
  si_strm :: "nat list"
  si_idxs :: "nat list list"

definition slot_none :: slot_info where
  "slot_none = \<lparr>si_s0 = 0, si_s1 = 0, si_strm = [], si_idxs = []\<rparr>"

definition slot_head :: "slot_info \<Rightarrow> nat res" where
  "slot_head si = ggml_assert (length (si_idxs si) = 1) ''idxs.size() == 1''
     (ggml_assert (si_idxs si ! 0 \<noteq> []) ''!idxs[0].empty()'' (Inr (si_idxs si ! 0 ! 0)))"

definition slot_size :: "slot_info \<Rightarrow> nat res" where
  "slot_size si = ggml_assert (length (si_idxs si) = length (si_strm si)) ''idxs.size() == strm.size()''
     (ggml_assert (si_idxs si \<noteq> []) ''!idxs.empty()'' (Inr (length (si_idxs si ! 0))))"

definition slot_n_stream :: "slot_info \<Rightarrow> nat" where
  "slot_n_stream si = length (si_strm si)"

definition slot_empty :: "slot_info \<Rightarrow> bool" where
  "slot_empty si \<longleftrightarrow> si_idxs si = []"

definition slot_is_contiguous :: "slot_info \<Rightarrow> bool" where
  "slot_is_contiguous si =
    (if si_idxs si = [] \<or> si_idxs si ! 0 = [] then True
     else if length (si_idxs si) > 1 then False
     else let h = si_idxs si ! 0 ! 0 in list_all (\<lambda>i. si_idxs si ! 0 ! i = h + i) [0..<length (si_idxs si ! 0)])"

subsection \<open>\<open>find_slot\<close>\<close>

definition cell_usable :: "kv_cache \<Rightarrow> kv_cells \<Rightarrow> nat \<Rightarrow> bool" where
  "cell_usable kc c idx =
    (if cells_is_empty c idx then True
     else if seq_count c idx = 1 then
       is_masked_swa (kc_n_swa kc) (kc_swa_type kc) (pos_get c idx) (cells_seq_pos_max c (seq_get c idx) + 1)
     else False)"

text \<open>The inner loop: it tests \<open>n_test\<close> cells from \<open>head_cur\<close> on and returns the new \<open>head_cur\<close>, the new
  \<open>n_tested\<close> and the collected indices.\<close>

fun test_run :: "(nat \<Rightarrow> bool) \<Rightarrow> bool \<Rightarrow> nat \<Rightarrow> nat \<Rightarrow> nat \<Rightarrow> nat list \<Rightarrow> nat \<times> nat \<times> nat list" where
  "test_run usable cont 0 head n_tested idxs = (head, n_tested, idxs)"
| "test_run usable cont (Suc k) head n_tested idxs =
    (if usable head then test_run usable cont k (head + 1) (n_tested + 1) (idxs @ [head])
     else if cont then (head + 1, n_tested + 1, idxs)
     else test_run usable cont k (head + 1) (n_tested + 1) idxs)"

partial_function (option) slot_search ::
    "(nat \<Rightarrow> bool) \<Rightarrow> nat \<Rightarrow> bool \<Rightarrow> nat \<Rightarrow> nat \<Rightarrow> nat \<Rightarrow> nat list \<Rightarrow> nat list option option" where
  "slot_search usable n_cells cont n_tokens head n_tested idxs =
    (let n_test = (if cont then n_tokens else 1) in
     if head + n_test > n_cells then slot_search usable n_cells cont n_tokens 0 (n_tested + (n_cells - head)) idxs
     else case test_run usable cont n_test head n_tested idxs of (head, n_tested, idxs) \<Rightarrow>
       if length idxs = n_tokens then Some (Some idxs)
       else let idxs = (if cont then [] else idxs) in
         if n_tested \<ge> n_cells then Some None else slot_search usable n_cells cont n_tokens head n_tested idxs)"

declare slot_search.simps [code]

text \<open>The cells of one sequence; \<open>None\<close> is the early \<open>return {}\<close>.\<close>

definition find_slot_cells :: "kv_cache \<Rightarrow> bool \<Rightarrow> nat \<Rightarrow> llama_seq_id \<Rightarrow> nat list option res" where
  "find_slot_cells kc cont n_tokens seq_id =
    (let c = kc_v_cells kc ! strm kc seq_id;
         head_cur = kc_v_heads kc ! strm kc seq_id;
         head_cur = (if head_cur > get_used c + 2 * n_tokens then 0 else head_cur)
     in if n_tokens > cells_size c then Inr None
        else bind_res (run_loop (slot_search (cell_usable kc c) (cells_size c) cont n_tokens head_cur 0 [])) (\<lambda>r. case r of
          None \<Rightarrow> Inr None
        | Some idxs \<Rightarrow> if length idxs < n_tokens then Inr None else Inr (Some idxs)))"

fun find_slot_seqs :: "kv_cache \<Rightarrow> llama_ubatch \<Rightarrow> bool \<Rightarrow> nat \<Rightarrow> nat list \<Rightarrow> slot_info \<Rightarrow> slot_info res" where
  "find_slot_seqs kc ub cont n_tokens [] si = Inr si"
| "find_slot_seqs kc ub cont n_tokens (s # ss) si =
    (let seq_id = ub_seq_id_unq ub ! s
     in ggml_assert (kc_n_stream kc > 1 \<longrightarrow> ub_n_seq_id ub ! (s * n_tokens) = 1) ''ubatch.n_seq_id[s*n_tokens] == 1''
       (ggml_assert (kc_n_stream kc > 1 \<longrightarrow> ub_seq_id ub ! (s * n_tokens) ! 0 = seq_id) ''ubatch.seq_id[s*n_tokens][0] == seq_id''
         (bind_res (find_slot_cells kc cont n_tokens seq_id) (\<lambda>r. case r of
            None \<Rightarrow> Inr slot_none
          | Some idxs \<Rightarrow> find_slot_seqs kc ub cont n_tokens ss
              \<lparr>si_s0 = min (si_s0 si) (strm kc seq_id), si_s1 = max (si_s1 si) (strm kc seq_id),
               si_strm = si_strm si @ [strm kc seq_id], si_idxs = si_idxs si @ [idxs]\<rparr>))))"

definition find_slot :: "kv_cache \<Rightarrow> llama_ubatch \<Rightarrow> bool \<Rightarrow> slot_info res" where
  "find_slot kc ub cont =
    ggml_assert (kc_n_stream kc > 1 \<longrightarrow> ub_n_tokens ub mod ub_n_seqs_unq ub = 0) ''n_tokens % ubatch.n_seqs_unq == 0''
      (let n_seqs = (if kc_n_stream kc > 1 then ub_n_seqs_unq ub else 1);
           n_tokens = (if kc_n_stream kc > 1 then ub_n_tokens ub div n_seqs else ub_n_tokens ub)
       in find_slot_seqs kc ub cont n_tokens [0..<n_seqs]
            \<lparr>si_s0 = LLAMA_MAX_SEQ, si_s1 = 0, si_strm = [], si_idxs = []\<rparr>)"

subsection \<open>\<open>apply_ubatch\<close>\<close>

definition is_pos_2d :: "llama_ubatch \<Rightarrow> bool" where
  "is_pos_2d ub \<longleftrightarrow> ub_n_pos ub \<ge> 3"

definition token_ext :: "llama_hparams \<Rightarrow> llama_ubatch \<Rightarrow> nat \<Rightarrow> cell_ext" where
  "token_ext hp ub i =
    (let ext = ext_default;
         ext = (if is_pos_2d ub then ext\<lparr>ext_x := ub_pos ub ! (i + ub_n_tokens ub * 2), ext_y := ub_pos ub ! (i + ub_n_tokens ub)\<rparr> else ext)
     in case ub_token ub of
          Some tokens \<Rightarrow> ext\<lparr>ext_tok := tokens ! i\<rparr>
        | None \<Rightarrow> if hp_ple_n_heads hp > 0
            then ext\<lparr>ext_tok := to_i32 (uint (if hp_ple_image_token_id hp \<noteq> 0 then hp_ple_image_token_id hp else hp_ple_eos_token_id hp))\<rparr>
            else ext)"

text \<open>One token: its old content is recorded in \<open>seq_pos_max_rm\<close> and removed, then the cell is filled.\<close>

definition place_token :: "llama_hparams \<Rightarrow> llama_ubatch \<Rightarrow> nat \<Rightarrow> nat \<Rightarrow> kv_cells \<Rightarrow> kv_cells" where
  "place_token hp ub i idx c =
    (let c = pos_set idx (ub_pos ub ! i) c;
         c = (if is_pos_2d ub \<or> ub_token ub \<noteq> None \<or> hp_ple_n_heads hp > 0 then ext_set idx (token_ext hp ub i) c else c)
     in fold (\<lambda>s c. cells_seq_add idx (ub_seq_id ub ! i ! s) c) [0..<ub_n_seq_id ub ! i] c)"

definition apply_token :: "slot_info \<Rightarrow> llama_ubatch \<Rightarrow> nat \<Rightarrow> nat \<Rightarrow> nat
    \<Rightarrow> kv_cache \<times> llama_pos list \<Rightarrow> kv_cache \<times> llama_pos list" where
  "apply_token si ub n s ii = (\<lambda>(kc, seq_pos_max_rm).
    let i = s * n + ii; st = si_strm si ! s; idx = si_idxs si ! s ! ii; c = kc_v_cells kc ! st;
        (c, seq_pos_max_rm) =
          (if \<not> cells_is_empty c idx
           then let seq_id = seq_get c idx; pos = pos_get c idx
                in (cells_rm idx c, seq_pos_max_rm[nat seq_id := max (seq_pos_max_rm ! nat seq_id) pos])
           else (c, seq_pos_max_rm))
    in (kc\<lparr>kc_v_cells := (kc_v_cells kc)[st := place_token (kc_hparams kc) ub i idx c]\<rparr>, seq_pos_max_rm))"

definition purge_seq :: "llama_pos list \<Rightarrow> nat \<Rightarrow> kv_cache \<Rightarrow> kv_cache res" where
  "purge_seq seq_pos_max_rm s kc =
    (if seq_pos_max_rm ! s = -1 then Inr kc
     else ggml_assert (s < length (kc_seq_to_stream kc)) ''s < seq_to_stream.size()''
       (let c = kc_v_cells kc ! (kc_seq_to_stream kc ! s)
        in if cells_seq_pos_min c (int s) \<le> seq_pos_max_rm ! s
           then bind_res (kv_seq_rm (int s) (cells_seq_pos_min c (int s)) (seq_pos_max_rm ! s + 1) kc) (\<lambda>(_, kc). Inr kc)
           else Inr kc))"

definition apply_ubatch :: "slot_info \<Rightarrow> llama_ubatch \<Rightarrow> kv_cache \<Rightarrow> kv_cache res" where
  "apply_ubatch si ub kc =
    (if kc_other kc \<noteq> None then Inr kc
     else bind_res (slot_size si) (\<lambda>n.
       let (kc, seq_pos_max_rm) = fold (\<lambda>s. fold (apply_token si ub n s) [0..<n]) [0..<slot_n_stream si]
             (kc, replicate LLAMA_MAX_SEQ (-1))
       in bind_res (fold_res (purge_seq seq_pos_max_rm) [0..<LLAMA_MAX_SEQ] kc) (\<lambda>kc.
         Inr (fold (\<lambda>s kc. kc\<lparr>kc_v_heads := (kc_v_heads kc)[si_strm si ! s := last (si_idxs si ! s) + 1]\<rparr>)
                [0..<slot_n_stream si] kc))))"

subsection \<open>\<open>prepare\<close> and \<open>init_batch\<close>\<close>

record prepare_state =
  ps_sinfo :: slot_info
  ps_v_heads_old :: "nat list"
  ps_v_cells :: "kv_cells list"

text \<open>The first loop: success, the slots, the recovery stack and the changed cache.\<close>

fun prepare_loop :: "llama_ubatch list \<Rightarrow> kv_cache \<Rightarrow> (bool \<times> slot_info list \<times> prepare_state list \<times> kv_cache) res" where
  "prepare_loop [] kc = Inr (True, [], [], kc)"
| "prepare_loop (ub # ubs) kc =
    bind_res (find_slot kc ub False) (\<lambda>si.
      if slot_empty si then Inr (False, [], [], kc)
      else let state = \<lparr>ps_sinfo = si, ps_v_heads_old = kc_v_heads kc,
                        ps_v_cells = map (\<lambda>s. cells_cp (kc_v_cells kc ! (si_strm si ! s)) (si_idxs si ! s)) [0..<slot_n_stream si]\<rparr>
           in bind_res (apply_ubatch si ub kc) (\<lambda>kc.
                bind_res (prepare_loop ubs kc) (\<lambda>(success, res, states, kc). Inr (success, si # res, state # states, kc))))"

definition restore_state :: "prepare_state \<Rightarrow> kv_cache \<Rightarrow> kv_cache" where
  "restore_state ps kc = fold (\<lambda>s kc. let st = si_strm (ps_sinfo ps) ! s
     in set_stream st (cells_set (si_idxs (ps_sinfo ps) ! s) (ps_v_cells ps ! s) (kc_v_cells kc ! st)) (ps_v_heads_old ps ! s) kc)
     [0..<slot_n_stream (ps_sinfo ps)] kc"

definition prepare :: "llama_ubatch list \<Rightarrow> kv_cache \<Rightarrow> (slot_info list \<times> kv_cache) res" where
  "prepare ubs kc = bind_res (prepare_loop ubs kc) (\<lambda>(success, res, states, kc).
     ggml_assert (states \<noteq> [] \<or> \<not> success) ''!states.empty() || !success''
       (let kc = fold restore_state (rev states) kc
        in Inr (if \<not> success then [] else res, kc)))"

datatype kv_batch_context = KV_CONTEXT "slot_info list" "llama_ubatch list" | FAILED_PREPARE

definition kv_init_batch :: "nat \<Rightarrow> batch_allocr \<Rightarrow> kv_cache \<Rightarrow> (kv_batch_context \<times> batch_allocr \<times> kv_cache) res" where
  "kv_init_batch n_ubatch balloc kc =
    bind_res (bind_res (run_loop (split_all (if kc_n_stream kc = 1 then (\<lambda>a. Inr (split_simple n_ubatch a)) else split_equal n_ubatch True 0)
        (split_reset balloc))) id) (\<lambda>(ubatches, balloc).
      if get_n_used balloc < get_n_tokens balloc then Inr (FAILED_PREPARE, balloc, kc)
      else bind_res (prepare ubatches kc) (\<lambda>(sinfos, kc).
        Inr (if sinfos = [] then FAILED_PREPARE else KV_CONTEXT sinfos ubatches, balloc, kc)))"

definition get_n_kv :: "kv_cache \<Rightarrow> slot_info \<Rightarrow> nat" where
  "get_n_kv kc si = (let n_pad_cur = max (kc_n_pad kc) 256
     in fold (\<lambda>s result. let c = kc_v_cells kc ! (si_strm si ! s)
          in max (min (cells_size c) (max n_pad_cur (GGML_PAD (used_max_p1 c) n_pad_cur))) result) [0..<slot_n_stream si] 0)"

end
