(* ===== verification/KV_Slots_Props.thy ===== *)
theory KV_Slots_Props
  imports KV_Slots
begin

section \<open>The slot search\<close>

text \<open>
  What \<open>find_slot\<close>, \<open>apply_ubatch\<close> and \<open>prepare\<close> do on a cache that satisfies \<open>kv_wf\<close>. The search loop
  is shown to end and to compute a simple function: the first usable cells in cyclic order from the
  head on.
\<close>

definition cyclic :: "nat \<Rightarrow> nat \<Rightarrow> nat list" where
  "cyclic n h = [h..<n] @ [0..<h]"

lemma length_cyclic [simp]: "h \<le> n \<Longrightarrow> length (cyclic n h) = n"
  by (simp add: cyclic_def)

lemma set_cyclic [simp]: "h \<le> n \<Longrightarrow> set (cyclic n h) = {..<n}"
  by (auto simp: cyclic_def)

lemma distinct_cyclic [simp]: "distinct (cyclic n h)"
  by (auto simp: cyclic_def)

lemma cyclic_nth: "h \<le> n \<Longrightarrow> t < n \<Longrightarrow> cyclic n h ! t = (if h + t < n then h + t else h + t - n)"
  by (auto simp: cyclic_def nth_append)

definition first_usable :: "(nat \<Rightarrow> bool) \<Rightarrow> nat \<Rightarrow> nat \<Rightarrow> nat \<Rightarrow> nat list option" where
  "first_usable usable n h k =
    (let cand = filter usable (cyclic n h) in if k \<le> length cand then Some (take k cand) else None)"

text \<open>The loop after \<open>t\<close> tested cells.\<close>

lemma slot_search_from:
  assumes n: "t < n" "h \<le> n" and ix: "ix = filter usable (take t (cyclic n h))" "length ix < k"
    and cur: "cur = cyclic n h ! t \<or> (cur = n \<and> cyclic n h ! t = 0)"
  shows "slot_search usable n False k cur t ix = Some (first_usable usable n h k)"
  using assms
proof (induction "n - t" arbitrary: t cur ix rule: less_induct)
  case less
  let ?c = "cyclic n h"
  define x where "x = ?c ! t"
  define ix' where "ix' = filter usable (take (Suc t) ?c)"
  have x: "x < n" using less.prems(1,2) nth_mem [of t ?c] by (simp add: x_def)
  have tk: "take (Suc t) ?c = take t ?c @ [x]"
    using less.prems(1,2) by (simp add: x_def take_Suc_conv_app_nth)
  have run: "test_run usable False 1 x t ix = (x + 1, t + 1, ix')"
    using less.prems(3) by (simp add: ix'_def tk)
  have cand: "filter usable ?c = ix' @ filter usable (drop (Suc t) ?c)"
    unfolding ix'_def filter_append [symmetric] append_take_drop_id ..
  have len: "length ix' \<le> k" using less.prems(3,4) by (simp add: ix'_def tk)
  have step: "slot_search usable n False k x t ix = Some (first_usable usable n h k)"
  proof (cases "length ix' = k")
    case True
    then show ?thesis using run x by (subst slot_search.simps) (simp add: first_usable_def cand Let_def)
  next
    case False
    show ?thesis
    proof (cases "n \<le> t + 1")
      case True
      then have "filter usable ?c = ix'" using less.prems(2) cand by simp
      then show ?thesis using run x False True len by (subst slot_search.simps) (simp add: first_usable_def Let_def)
    next
      case notlast: False
      then have t: "Suc t < n" by simp
      have cur': "x + 1 = ?c ! Suc t \<or> (x + 1 = n \<and> ?c ! Suc t = 0)"
        using less.prems(1,2) t by (auto simp: x_def cyclic_nth)
      have "slot_search usable n False k (x + 1) (Suc t) ix' = Some (first_usable usable n h k)"
        by (rule less.hyps [OF _ t less.prems(2) ix'_def _ cur']) (use less.prems(1) False len in auto)
      then show ?thesis using run x False notlast by (subst slot_search.simps) (simp add: Let_def)
    qed
  qed
  show ?case
  proof (cases "cur = x")
    case False
    then have "cur = n" "x = 0" using less.prems(5) by (auto simp: x_def)
    then show ?thesis using step less.prems by (subst slot_search.simps) simp
  qed (use step in simp)
qed

text \<open>On a non-empty cell array the search for at least one cell ends, and its result is the first
  \<open>k\<close> usable cells in cyclic order from the head, if there are that many.\<close>

lemma slot_search_correct:
  assumes "h \<le> n" "0 < n" "0 < k"
  shows "slot_search usable n False k h 0 [] = Some (first_usable usable n h k)"
  using assms by (intro slot_search_from) (auto simp: cyclic_nth)

lemma first_usable_SomeD:
  assumes "first_usable usable n h k = Some ix" "h \<le> n"
  shows "length ix = k" "distinct ix" "\<forall>i \<in> set ix. i < n \<and> usable i"
proof -
  have *: "k \<le> length (filter usable (cyclic n h))" "ix = take k (filter usable (cyclic n h))"
    using assms(1) by (auto simp: first_usable_def Let_def split: if_splits)
  show "length ix = k" using * by simp
  show "distinct ix" using *(2) by simp
  show "\<forall>i \<in> set ix. i < n \<and> usable i" using *(2) assms(2) by (auto dest: in_set_takeD)
qed

lemma first_usable_None_iff:
  assumes "h \<le> n"
  shows "first_usable usable n h k = None \<longleftrightarrow> card {i. i < n \<and> usable i} < k"
proof -
  have "length (filter usable (cyclic n h)) = card (set (filter usable (cyclic n h)))"
    by (metis distinct_card distinct_cyclic distinct_filter)
  also have "set (filter usable (cyclic n h)) = {i. i < n \<and> usable i}" using assms by auto
  finally show ?thesis by (auto simp: first_usable_def Let_def)
qed

subsection \<open>Ubatches that a cache can take\<close>

text \<open>\<open>find_slot\<close> treats a ubatch as \<open>slot_seqs\<close> groups of \<open>slot_tokens\<close> tokens: one group for a single
  stream, one per sequence otherwise. \<open>ubatch_ok\<close> is what the batch allocator provides: whole groups
  in distinct streams, positions that are not negative, and for each token distinct sequence ids of
  the stream of its group.\<close>

definition slot_seqs :: "kv_cache \<Rightarrow> llama_ubatch \<Rightarrow> nat" where
  "slot_seqs kc ub = (if kc_n_stream kc > 1 then ub_n_seqs_unq ub else 1)"

definition slot_tokens :: "kv_cache \<Rightarrow> llama_ubatch \<Rightarrow> nat" where
  "slot_tokens kc ub = (if kc_n_stream kc > 1 then ub_n_tokens ub div ub_n_seqs_unq ub else ub_n_tokens ub)"

definition ub_tok_seqs :: "llama_ubatch \<Rightarrow> nat \<Rightarrow> llama_seq_id list" where
  "ub_tok_seqs ub i = map (\<lambda>s. ub_seq_id ub ! i ! s) [0..<ub_n_seq_id ub ! i]"

definition group_strm :: "kv_cache \<Rightarrow> llama_ubatch \<Rightarrow> nat \<Rightarrow> nat" where
  "group_strm kc ub s = strm kc (ub_seq_id_unq ub ! s)"

definition ubatch_ok :: "kv_cache \<Rightarrow> llama_ubatch \<Rightarrow> bool" where
  "ubatch_ok kc ub \<longleftrightarrow> 0 < slot_seqs kc ub \<and> 0 < slot_tokens kc ub \<and> ub_n_tokens ub = slot_seqs kc ub * slot_tokens kc ub
     \<and> (\<forall>s < slot_seqs kc ub. seq_in_range kc (ub_seq_id_unq ub ! s)
          \<and> (kc_n_stream kc > 1 \<longrightarrow> ub_n_seq_id ub ! (s * slot_tokens kc ub) = 1
                \<and> ub_seq_id ub ! (s * slot_tokens kc ub) ! 0 = ub_seq_id_unq ub ! s))
     \<and> distinct (map (group_strm kc ub) [0..<slot_seqs kc ub])
     \<and> (\<forall>s < slot_seqs kc ub. \<forall>ii < slot_tokens kc ub. let i = s * slot_tokens kc ub + ii in
          0 \<le> ub_pos ub ! i \<and> distinct (ub_tok_seqs ub i) \<and> set (ub_tok_seqs ub i) \<subseteq> stream_seqs kc (group_strm kc ub s))"

lemma find_slot_cells_eq:
  assumes wf: "kv_wf n kc" and q: "seq_in_range kc q" and m: "0 < m"
  defines "c \<equiv> kc_v_cells kc ! strm kc q"
  shows "\<exists>h \<le> n. find_slot_cells kc False m q = Inr (first_usable (cell_usable kc c) n h m)"
proof -
  have st: "strm kc q < kc_n_stream kc" using strm_less [OF wf q] .
  have c: "cells_size c = n" "kc_v_heads kc ! strm kc q \<le> n"
    using kv_wf_stream [OF wf st] by (simp_all add: stream_ok_def c_def)
  define h where "h = (if kc_v_heads kc ! strm kc q > get_used c + 2 * m then 0 else kc_v_heads kc ! strm kc q)"
  have h: "h \<le> n" using c(2) by (simp add: h_def)
  show ?thesis
  proof (cases "n < m")
    case True
    have "card {i. i < n \<and> cell_usable kc c i} \<le> card {..<n}" by (rule card_mono) auto
    then have "first_usable (cell_usable kc c) n h m = None" using True h by (simp add: first_usable_None_iff)
    then show ?thesis using True c(1) h by (intro exI [of _ h]) (simp add: find_slot_cells_def c_def [symmetric] Let_def)
  next
    case False
    have "slot_search (cell_usable kc c) n False m h 0 [] = Some (first_usable (cell_usable kc c) n h m)"
      using False m h by (intro slot_search_correct) auto
    moreover have "\<not> length ix < m" if "first_usable (cell_usable kc c) n h m = Some ix" for ix
      using first_usable_SomeD(1) [OF that h] by simp
    ultimately show ?thesis using False c(1) h
      by (intro exI [of _ h]) (simp add: find_slot_cells_def c_def [symmetric] Let_def h_def [symmetric] split: option.split)
  qed
qed

lemma find_slot_seqs_eq:
  assumes "\<And>s. s \<in> set ss \<Longrightarrow> (kc_n_stream kc > 1 \<longrightarrow> ub_n_seq_id ub ! (s * m) = 1 \<and> ub_seq_id ub ! (s * m) ! 0 = ub_seq_id_unq ub ! s)
      \<and> find_slot_cells kc False m (ub_seq_id_unq ub ! s) = Inr (r s)"
  shows "\<exists>s0 s1. find_slot_seqs kc ub False m ss si = Inr (if \<exists>s \<in> set ss. r s = None then slot_none
     else \<lparr>si_s0 = s0, si_s1 = s1, si_strm = si_strm si @ map (group_strm kc ub) ss, si_idxs = si_idxs si @ map (\<lambda>s. the (r s)) ss\<rparr>)"
  using assms
proof (induction ss arbitrary: si)
  case Nil
  show ?case by (intro exI [of _ "si_s0 si"] exI [of _ "si_s1 si"]) simp
next
  case (Cons s ss)
  have s: "kc_n_stream kc > 1 \<longrightarrow> ub_n_seq_id ub ! (s * m) = 1 \<and> ub_seq_id ub ! (s * m) ! 0 = ub_seq_id_unq ub ! s"
    "find_slot_cells kc False m (ub_seq_id_unq ub ! s) = Inr (r s)" using Cons.prems by simp_all
  show ?case
  proof (cases "r s")
    case None
    then show ?thesis using s by (simp add: Let_def)
  next
    case (Some ix)
    define si' where "si' = \<lparr>si_s0 = min (si_s0 si) (strm kc (ub_seq_id_unq ub ! s)), si_s1 = max (si_s1 si) (strm kc (ub_seq_id_unq ub ! s)),
               si_strm = si_strm si @ [strm kc (ub_seq_id_unq ub ! s)], si_idxs = si_idxs si @ [ix]\<rparr>"
    have eq: "find_slot_seqs kc ub False m (s # ss) si = find_slot_seqs kc ub False m ss si'"
      using s Some by (simp add: Let_def si'_def)
    obtain s0 s1 where ih: "find_slot_seqs kc ub False m ss si' = Inr (if \<exists>s \<in> set ss. r s = None then slot_none
       else \<lparr>si_s0 = s0, si_s1 = s1, si_strm = si_strm si' @ map (group_strm kc ub) ss, si_idxs = si_idxs si' @ map (\<lambda>s. the (r s)) ss\<rparr>)"
      using Cons.IH [of si', OF Cons.prems [OF list.set_intros(2)]] by blast
    have fields: "si_strm si' @ xs = si_strm si @ group_strm kc ub s # xs" "si_idxs si' @ ys = si_idxs si @ ix # ys" for xs ys
      by (simp_all add: si'_def group_strm_def)
    show ?thesis unfolding eq ih fields using Some
      by (intro exI [of _ s0] exI [of _ s1]) (simp cong: if_cong)
  qed
qed

definition slot_ok :: "nat \<Rightarrow> kv_cache \<Rightarrow> llama_ubatch \<Rightarrow> slot_info \<Rightarrow> bool" where
  "slot_ok n kc ub si \<longleftrightarrow> si_strm si = map (group_strm kc ub) [0..<slot_seqs kc ub] \<and> length (si_idxs si) = slot_seqs kc ub
     \<and> (\<forall>s < slot_seqs kc ub. length (si_idxs si ! s) = slot_tokens kc ub \<and> distinct (si_idxs si ! s)
          \<and> (\<forall>i \<in> set (si_idxs si ! s). i < n \<and> cell_usable kc (kc_v_cells kc ! group_strm kc ub s) i))"

text \<open>The number of cells of a stream that a new token may take.\<close>

definition n_usable :: "kv_cache \<Rightarrow> nat \<Rightarrow> nat" where
  "n_usable kc t = card {i. i < cells_size (kc_v_cells kc ! t) \<and> cell_usable kc (kc_v_cells kc ! t) i}"

lemma find_slot_spec:
  assumes wf: "kv_wf n kc" and ub: "ubatch_ok kc ub"
  shows "\<exists>si. find_slot kc ub False = Inr si
    \<and> (slot_empty si \<longleftrightarrow> (\<exists>s < slot_seqs kc ub. n_usable kc (group_strm kc ub s) < slot_tokens kc ub))
    \<and> (\<not> slot_empty si \<longrightarrow> slot_ok n kc ub si)"
proof -
  let ?m = "slot_tokens kc ub" and ?k = "slot_seqs kc ub"
  have ok: "0 < ?m" "\<And>s. s < ?k \<Longrightarrow> seq_in_range kc (ub_seq_id_unq ub ! s)" "0 < ?k"
    "\<And>s. s < ?k \<Longrightarrow> kc_n_stream kc > 1 \<longrightarrow> ub_n_seq_id ub ! (s * ?m) = 1 \<and> ub_seq_id ub ! (s * ?m) ! 0 = ub_seq_id_unq ub ! s"
    "ub_n_tokens ub = ?k * ?m"
    using ub by (auto simp: ubatch_ok_def)
  have "\<forall>s. \<exists>h. s < ?k \<longrightarrow> h \<le> n \<and> find_slot_cells kc False ?m (ub_seq_id_unq ub ! s)
      = Inr (first_usable (cell_usable kc (kc_v_cells kc ! group_strm kc ub s)) n h ?m)"
    using find_slot_cells_eq [OF wf ok(2) ok(1)] by (metis group_strm_def)
  then obtain h where h: "\<And>s. s < ?k \<Longrightarrow> h s \<le> n" "\<And>s. s < ?k \<Longrightarrow> find_slot_cells kc False ?m (ub_seq_id_unq ub ! s)
      = Inr (first_usable (cell_usable kc (kc_v_cells kc ! group_strm kc ub s)) n (h s) ?m)" by metis
  define r where "r s = first_usable (cell_usable kc (kc_v_cells kc ! group_strm kc ub s)) n (h s) ?m" for s
  have st: "group_strm kc ub s < kc_n_stream kc" if "s < ?k" for s
    unfolding group_strm_def using strm_less [OF wf ok(2) [OF that]] .
  have sz: "cells_size (kc_v_cells kc ! group_strm kc ub s) = n" if "s < ?k" for s
    using kv_wf_stream [OF wf st [OF that]] by (simp add: stream_ok_def)
  have none: "r s = None \<longleftrightarrow> n_usable kc (group_strm kc ub s) < ?m" if "s < ?k" for s
    using first_usable_None_iff [OF h(1) [OF that]] sz [OF that] by (simp add: r_def n_usable_def)
  define si0 where "si0 = \<lparr>si_s0 = LLAMA_MAX_SEQ, si_s1 = 0, si_strm = [], si_idxs = []\<rparr>"
  have si0: "si_strm si0 @ xs = xs" "si_idxs si0 @ ys = ys" for xs ys by (simp_all add: si0_def)
  have hyp: "(kc_n_stream kc > 1 \<longrightarrow> ub_n_seq_id ub ! (s * ?m) = 1 \<and> ub_seq_id ub ! (s * ?m) ! 0 = ub_seq_id_unq ub ! s)
      \<and> find_slot_cells kc False ?m (ub_seq_id_unq ub ! s) = Inr (r s)" if "s \<in> set [0..<?k]" for s
    using that ok(4) h(2) by (simp add: r_def)
  obtain s0 s1 where fs: "find_slot_seqs kc ub False ?m [0..<?k] si0 = Inr (if \<exists>s \<in> set [0..<?k]. r s = None then slot_none
     else \<lparr>si_s0 = s0, si_s1 = s1, si_strm = map (group_strm kc ub) [0..<?k], si_idxs = map (\<lambda>s. the (r s)) [0..<?k]\<rparr>)"
    using find_slot_seqs_eq [OF hyp, where si = si0] unfolding si0 by blast
  have "kc_n_stream kc > 1 \<longrightarrow> ub_n_tokens ub mod ub_n_seqs_unq ub = 0" using ok(5) by (simp add: slot_seqs_def)
  then have eq: "find_slot kc ub False = find_slot_seqs kc ub False ?m [0..<?k] si0"
    by (simp add: find_slot_def slot_seqs_def slot_tokens_def Let_def si0_def)
  show ?thesis
  proof (cases "\<exists>s < ?k. r s = None")
    case True
    then have "\<exists>s \<in> set [0..<?k]. r s = None" by auto
    then have "find_slot kc ub False = Inr slot_none" unfolding eq fs by (rule arg_cong [OF if_P])
    then show ?thesis using True none by (auto simp: slot_empty_def slot_none_def)
  next
    case False
    define si where "si = \<lparr>si_s0 = s0, si_s1 = s1, si_strm = map (group_strm kc ub) [0..<?k], si_idxs = map (\<lambda>s. the (r s)) [0..<?k]\<rparr>"
    have "\<not> (\<exists>s \<in> set [0..<?k]. r s = None)" using False by auto
    then have f: "find_slot kc ub False = Inr si" unfolding eq fs si_def by (rule arg_cong [OF if_not_P])
    have "length (the (r s)) = ?m \<and> distinct (the (r s)) \<and> (\<forall>i \<in> set (the (r s)). i < n \<and> cell_usable kc (kc_v_cells kc ! group_strm kc ub s) i)"
      if s: "s < ?k" for s
    proof -
      obtain ix where ix: "r s = Some ix" using False s by auto
      show ?thesis using first_usable_SomeD [OF ix [unfolded r_def] h(1) [OF s]] ix by simp
    qed
    then have "slot_ok n kc ub si" by (simp add: slot_ok_def si_def)
    moreover have "\<not> slot_empty si" using ok(3) by (simp add: slot_empty_def si_def)
    moreover have "\<not> (\<exists>s < ?k. n_usable kc (group_strm kc ub s) < ?m)" using False none by blast
    ultimately show ?thesis using f by blast
  qed
qed

subsection \<open>Placing a token\<close>

definition token_cell :: "llama_hparams \<Rightarrow> llama_ubatch \<Rightarrow> nat \<Rightarrow> kv_cell" where
  "token_cell hp ub i = \<lparr>k_pos = ub_pos ub ! i,
     k_ext = (if is_pos_2d ub \<or> ub_token ub \<noteq> None \<or> hp_ple_n_heads hp > 0 then token_ext hp ub i else ext_default),
     k_shift = shift_zero, k_seq = set (ub_tok_seqs ub i)\<rparr>"

lemma fold_seq_add_mk:
  assumes "idx < length ks" "distinct qs" "k_seq (ks ! idx) \<inter> set qs = {}" "k_pos (ks ! idx) \<noteq> -1"
  shows "fold (cells_seq_add idx) qs (mk_cells ks b) = mk_cells (ks[idx := (ks ! idx)\<lparr>k_seq := k_seq (ks ! idx) \<union> set qs\<rparr>]) b"
  using assms
proof (induction qs arbitrary: ks)
  case Nil
  then show ?case by simp
next
  case (Cons q qs)
  let ?ks = "ks[idx := (ks ! idx)\<lparr>k_seq := insert q (k_seq (ks ! idx))\<rparr>]"
  have "fold (cells_seq_add idx) qs (mk_cells ?ks b) = mk_cells (?ks[idx := (?ks ! idx)\<lparr>k_seq := k_seq (?ks ! idx) \<union> set qs\<rparr>]) b"
    using Cons.prems by (intro Cons.IH) auto
  then show ?case using Cons.prems by (simp add: cells_seq_add_mk)
qed

lemma place_token_mk:
  assumes "idx < length ks" "ks ! idx = cell_empty" "0 \<le> ub_pos ub ! i" "distinct (ub_tok_seqs ub i)"
  shows "place_token hp ub i idx (mk_cells ks b) = mk_cells (ks[idx := token_cell hp ub i]) b"
proof -
  define e where "e = (if is_pos_2d ub \<or> ub_token ub \<noteq> None \<or> hp_ple_n_heads hp > 0 then token_ext hp ub i else ext_default)"
  define k where "k = \<lparr>k_pos = ub_pos ub ! i, k_ext = e, k_shift = shift_zero, k_seq = {}\<rparr>"
  have p: "ub_pos ub ! i \<noteq> -1" using assms(3) by linarith
  have "(if is_pos_2d ub \<or> ub_token ub \<noteq> None \<or> hp_ple_n_heads hp > 0
      then ext_set idx (token_ext hp ub i) (pos_set idx (ub_pos ub ! i) (mk_cells ks b)) else pos_set idx (ub_pos ub ! i) (mk_cells ks b))
      = mk_cells (ks[idx := k]) b"
    using assms(1,2) p by (simp add: pos_set_mk ext_set_mk k_def e_def cell_empty_def)
  then have "place_token hp ub i idx (mk_cells ks b) = fold (cells_seq_add idx) (ub_tok_seqs ub i) (mk_cells (ks[idx := k]) b)"
    by (simp add: place_token_def Let_def ub_tok_seqs_def fold_map comp_def)
  also have "\<dots> = mk_cells (ks[idx := k\<lparr>k_seq := set (ub_tok_seqs ub i)\<rparr>]) b"
    using assms p by (subst fold_seq_add_mk) (simp_all add: k_def)
  finally show ?thesis by (simp add: k_def e_def token_cell_def)
qed

lemma token_cell_ok: "0 \<le> ub_pos ub ! i \<Longrightarrow> set (ub_tok_seqs ub i) \<subseteq> valid_seqs \<Longrightarrow> cell_ok (token_cell hp ub i)"
  by (simp add: token_cell_def cell_ok_def)

text \<open>A cell that \<open>find_slot\<close> hands out is empty or belongs to one sequence.\<close>

lemma cell_usable_mk:
  assumes "cells_ok ks" "i < length ks" "cell_usable kc (mk_cells ks b) i" "k_pos (ks ! i) \<noteq> -1"
  obtains q where "k_seq (ks ! i) = {q}" "q \<in> valid_seqs" "seq_get (mk_cells ks b) i = q"
proof -
  have "card (k_seq (ks ! i)) = 1"
    using assms by (simp add: cell_usable_def cells_is_empty_mk seq_count_def split: if_splits)
  then obtain q where q: "k_seq (ks ! i) = {q}" by (rule card_1_singletonE)
  moreover have "q \<in> valid_seqs" using cell_ok_seqs [OF assms(1,2)] q by simp
  moreover have "seq_get (mk_cells ks b) i = q" using assms q by (simp add: seq_get_mk)
  ultimately show ?thesis using that by blast
qed

lemma apply_token_eq:
  assumes wf: "kv_wf n kc" and st: "si_strm si ! s < kc_n_stream kc" and idx: "si_idxs si ! s ! ii < n"
    and tok: "0 \<le> ub_pos ub ! (s * m + ii)" "distinct (ub_tok_seqs ub (s * m + ii))"
      "set (ub_tok_seqs ub (s * m + ii)) \<subseteq> stream_seqs kc (si_strm si ! s)"
    and use: "k_pos (stream kc (si_strm si ! s) ! (si_idxs si ! s ! ii)) \<noteq> -1 \<longrightarrow>
       (\<exists>q. k_seq (stream kc (si_strm si ! s) ! (si_idxs si ! s ! ii)) = {q})"
  defines "k \<equiv> stream kc (si_strm si ! s) ! (si_idxs si ! s ! ii)"
  shows "\<exists>kc'. apply_token si ub m s ii (kc, rm) = (kc', if k_pos k = -1 then rm
        else rm[nat (the_elem (k_seq k)) := max (rm ! nat (the_elem (k_seq k))) (k_pos k)])
    \<and> kv_wf n kc' \<and> kc' = kc\<lparr>kc_v_cells := kc_v_cells kc'\<rparr>
    \<and> map c_has_shift (kc_v_cells kc') = map c_has_shift (kc_v_cells kc)
    \<and> (\<forall>t. stream kc' t = (if t = si_strm si ! s
          then (stream kc t)[si_idxs si ! s ! ii := token_cell (kc_hparams kc) ub (s * m + ii)] else stream kc t))"
proof -
  define t idx ks tc where "t = si_strm si ! s" and "idx = si_idxs si ! s ! ii" and "ks = stream kc (si_strm si ! s)"
    and "tc = token_cell (kc_hparams kc) ub (s * m + ii)"
  note d = t_def [symmetric] idx_def [symmetric] ks_def [symmetric] tc_def [symmetric]
  have kk: "k = ks ! idx" by (simp add: k_def ks_def idx_def)
  have use': "k_pos (ks ! idx) \<noteq> -1 \<longrightarrow> (\<exists>q. k_seq (ks ! idx) = {q})" using use unfolding ks_def idx_def .
  have idx': "idx < n" and st': "t < kc_n_stream kc" using idx st by (simp_all add: d)
  obtain b where b: "kc_v_cells kc ! t = mk_cells ks b" "cells_ok ks" "length ks = n" "b = c_has_shift (kc_v_cells kc ! t)"
    using stream_cells [OF wf st] unfolding t_def ks_def by blast
  have l: "t < length (kc_v_cells kc)" "t < length (kc_v_heads kc)" using kv_wf_lengths [OF wf] st' by simp_all
  have tcok: "cell_ok tc" unfolding tc_def using tok(1,3) stream_seqs_valid [OF wf] by (intro token_cell_ok) auto
  define c' where "c' = mk_cells (ks[idx := tc]) b"
  define kc' where "kc' = kc\<lparr>kc_v_cells := (kc_v_cells kc)[t := c']\<rparr>"
  have place: "place_token (kc_hparams kc) ub (s * m + ii) idx (mk_cells ks' b) = c'"
    if "ks'[idx := tc] = ks[idx := tc]" "length ks' = n" "ks' ! idx = cell_empty" for ks'
    using place_token_mk [of idx ks' ub "s * m + ii" "kc_hparams kc" b] that idx' tok(1,2) by (simp add: c'_def tc_def)
  have e: "k_pos (ks ! idx) = -1 \<Longrightarrow> ks ! idx = cell_empty" using cell_ok_is_empty [OF b(2)] idx' b(3) by blast
  have rmk: "cells_rm idx (mk_cells ks b) = mk_cells (ks[idx := cell_empty]) b" using cells_rm_mk b(2,3) idx' by simp
  have seqget: "seq_get (mk_cells ks b) idx = the_elem (k_seq (ks ! idx))" if "k_pos (ks ! idx) \<noteq> -1"
    using that use' b(2,3) idx' seq_get_mk [of idx ks] by auto
  have "apply_token si ub m s ii (kc, rm) = (kc', if k_pos k = -1 then rm
        else rm[nat (the_elem (k_seq k)) := max (rm ! nat (the_elem (k_seq k))) (k_pos k)])"
  proof (cases "k_pos (ks ! idx) = -1")
    case True
    then show ?thesis using place [of ks] e b(3) idx'
      by (simp add: apply_token_def Let_def d b(1) cells_is_empty_mk kc'_def kk)
  next
    case False
    then show ?thesis using place [of "ks[idx := cell_empty]"] b(3) idx'
      by (simp add: apply_token_def Let_def d b(1) cells_is_empty_mk kc'_def kk rmk seqget pos_get_def)
  qed
  moreover have kcs: "kc' = set_stream t c' (kc_v_heads kc ! t) kc"
    using l by (simp add: kc'_def update_cells_set_stream)
  have "kv_wf n kc'" unfolding kcs
  proof (rule set_stream_wf [OF wf st'])
    have "cells_ok (ks[idx := tc])" using b(2) tcok by (auto dest!: set_update_subset_insert [THEN subsetD])
    then show "cells_wf c'" unfolding c'_def by (rule cells_wf_mk)
    show "kc_v_heads kc ! t \<le> n" using kv_wf_stream [OF wf st'] by (simp add: stream_ok_def)
    have "\<forall>k \<in> set ks. k_seq k \<subseteq> stream_seqs kc t" using stream_k_seq [OF wf st'] by (simp add: ks_def t_def)
    then show "\<forall>k\<in>set (cells_list c'). k_seq k \<subseteq> stream_seqs kc t"
      using tok(3) by (auto simp: c'_def d tc_def token_cell_def dest!: set_update_subset_insert [THEN subsetD])
  qed (simp add: c'_def b(3))
  moreover have "map c_has_shift (kc_v_cells kc') = map c_has_shift (kc_v_cells kc)"
    using l b(4) by (simp add: kc'_def c'_def map_update)
  moreover have "stream kc' t' = (if t' = t then (stream kc t')[idx := tc] else stream kc t')" for t'
    using l by (simp add: kc'_def c'_def nth_list_update ks_def t_def)
  ultimately show ?thesis unfolding t_def [symmetric] idx_def [symmetric] tc_def [symmetric]
    by (intro exI [of _ kc']) (simp add: kc'_def)
qed

end
