(* ===== verification/KV_Apply.thy ===== *)
theory KV_Apply
  imports KV_Slots_Props
begin

section \<open>Placing a ubatch\<close>

text \<open>
  The whole of \<open>apply_ubatch\<close> on a slot that \<open>find_slot\<close> returned: the token loop, the purge of the
  positions that a sliding-window cache would leave behind, and the new heads. Then \<open>prepare\<close>, which
  places all ubatches of a batch and takes the changes back.
\<close>

definition frame :: "kv_cache \<Rightarrow> kv_cache" where
  "frame kc = kc\<lparr>kc_v_cells := [], kc_v_heads := []\<rparr>"

definition same_frame :: "kv_cache \<Rightarrow> kv_cache \<Rightarrow> bool" where
  "same_frame kc kc' \<longleftrightarrow> frame kc' = frame kc"

lemma same_frame_refl [simp]: "same_frame kc kc"
  by (simp add: same_frame_def)

lemma same_frame_trans: "same_frame a b \<Longrightarrow> same_frame b c \<Longrightarrow> same_frame a c"
  by (simp add: same_frame_def)

lemma frame_updates [simp]:
  "frame (kc\<lparr>kc_v_cells := cs\<rparr>) = frame kc" "frame (kc\<lparr>kc_v_heads := hs\<rparr>) = frame kc" "frame (set_stream t c h kc) = frame kc"
  by (simp_all add: frame_def set_stream_def)

lemma frame_sel:
  "kc_hparams (frame kc) = kc_hparams kc" "kc_n_stream (frame kc) = kc_n_stream kc" "kc_n_swa (frame kc) = kc_n_swa kc"
  "kc_swa_type (frame kc) = kc_swa_type kc" "kc_seq_to_stream (frame kc) = kc_seq_to_stream kc" "kc_other (frame kc) = kc_other kc"
  by (simp_all add: frame_def)

lemma same_frame_fields:
  assumes "same_frame kc kc'"
  shows "kc_hparams kc' = kc_hparams kc" "kc_n_stream kc' = kc_n_stream kc" "kc_n_swa kc' = kc_n_swa kc"
    "kc_swa_type kc' = kc_swa_type kc" "kc_seq_to_stream kc' = kc_seq_to_stream kc" "kc_other kc' = kc_other kc"
    "strm kc' = strm kc" "seq_in_range kc' = seq_in_range kc" "stream_seqs kc' = stream_seqs kc"
proof -
  have e: "frame kc' = frame kc" using assms by (simp add: same_frame_def)
  show f: "kc_hparams kc' = kc_hparams kc" "kc_n_stream kc' = kc_n_stream kc" "kc_n_swa kc' = kc_n_swa kc"
    "kc_swa_type kc' = kc_swa_type kc" "kc_seq_to_stream kc' = kc_seq_to_stream kc" "kc_other kc' = kc_other kc"
    using arg_cong [OF e] by (metis frame_sel)+
  show "strm kc' = strm kc" "seq_in_range kc' = seq_in_range kc" "stream_seqs kc' = stream_seqs kc"
    by (simp_all add: f(5) strm_def seq_in_range_def stream_seqs_def fun_eq_iff)
qed

lemma same_frame_eqI:
  assumes "same_frame kc kc'" "kc_v_cells kc' = kc_v_cells kc" "kc_v_heads kc' = kc_v_heads kc"
  shows "kc' = kc"
proof -
  have "kc' = (frame kc')\<lparr>kc_v_cells := kc_v_cells kc', kc_v_heads := kc_v_heads kc'\<rparr>" by (simp add: frame_def)
  also have "\<dots> = (frame kc)\<lparr>kc_v_cells := kc_v_cells kc, kc_v_heads := kc_v_heads kc\<rparr>" using assms by (simp add: same_frame_def)
  also have "\<dots> = kc" by (simp add: frame_def)
  finally show ?thesis .
qed

subsection \<open>The token loop\<close>

definition slot_cell :: "slot_info \<Rightarrow> nat \<times> nat \<Rightarrow> nat \<times> nat" where
  "slot_cell si = (\<lambda>(s, ii). (si_strm si ! s, si_idxs si ! s ! ii))"

abbreviation old_cell :: "kv_cache \<Rightarrow> slot_info \<Rightarrow> nat \<times> nat \<Rightarrow> kv_cell" where
  "old_cell kc si q \<equiv> stream kc (fst (slot_cell si q)) ! snd (slot_cell si q)"

definition rm_step :: "kv_cache \<Rightarrow> slot_info \<Rightarrow> nat \<times> nat \<Rightarrow> llama_pos list \<Rightarrow> llama_pos list" where
  "rm_step kc si q rm = (let k = old_cell kc si q in if k_pos k = -1 then rm
     else rm[nat (the_elem (k_seq k)) := max (rm ! nat (the_elem (k_seq k))) (k_pos k)])"

definition placed :: "nat \<Rightarrow> kv_cache \<Rightarrow> slot_info \<Rightarrow> llama_ubatch \<Rightarrow> nat \<Rightarrow> (nat \<times> nat) list \<Rightarrow> kv_cache \<Rightarrow> bool" where
  "placed n kc si ub m qs kc' \<longleftrightarrow> kv_wf n kc' \<and> same_frame kc kc' \<and> kc_v_heads kc' = kc_v_heads kc
     \<and> map c_has_shift (kc_v_cells kc') = map c_has_shift (kc_v_cells kc)
     \<and> (\<forall>q \<in> set qs. old_cell kc' si q = token_cell (kc_hparams kc) ub (fst q * m + snd q))
     \<and> (\<forall>t < kc_n_stream kc. \<forall>j < n. (t, j) \<notin> slot_cell si ` set qs \<longrightarrow> stream kc' t ! j = stream kc t ! j)"

definition pair_ok :: "nat \<Rightarrow> kv_cache \<Rightarrow> slot_info \<Rightarrow> llama_ubatch \<Rightarrow> nat \<Rightarrow> nat \<times> nat \<Rightarrow> bool" where
  "pair_ok n kc si ub m q \<longleftrightarrow> (let (t, j) = slot_cell si q; i = fst q * m + snd q in
     t < kc_n_stream kc \<and> j < n \<and> 0 \<le> ub_pos ub ! i \<and> distinct (ub_tok_seqs ub i) \<and> set (ub_tok_seqs ub i) \<subseteq> stream_seqs kc t
     \<and> (k_pos (stream kc t ! j) \<noteq> -1 \<longrightarrow> (\<exists>q. k_seq (stream kc t ! j) = {q})))"

lemma token_loop:
  assumes wf: "kv_wf n kc" and ok: "\<forall>q \<in> set qs. pair_ok n kc si ub m q" and inj: "distinct (map (slot_cell si) qs)"
  shows "\<exists>kc'. fold (\<lambda>(s, ii). apply_token si ub m s ii) qs (kc, rm) = (kc', fold (rm_step kc si) qs rm) \<and> placed n kc si ub m qs kc'"
  using ok inj
proof (induction qs rule: rev_induct)
  case Nil
  then show ?case using wf by (simp add: placed_def)
next
  case (snoc q qs)
  obtain s ii where q: "q = (s, ii)" by fastforce
  obtain kc1 where kc1: "fold (\<lambda>(s, ii). apply_token si ub m s ii) qs (kc, rm) = (kc1, fold (rm_step kc si) qs rm)"
    and pl: "placed n kc si ub m qs kc1" using snoc by auto
  have wf1: "kv_wf n kc1" and fr: "same_frame kc kc1" and hd1: "kc_v_heads kc1 = kc_v_heads kc"
    and sh1: "map c_has_shift (kc_v_cells kc1) = map c_has_shift (kc_v_cells kc)"
    and old: "\<forall>q \<in> set qs. old_cell kc1 si q = token_cell (kc_hparams kc) ub (fst q * m + snd q)"
    and rest: "\<And>t j. t < kc_n_stream kc \<Longrightarrow> j < n \<Longrightarrow> (t, j) \<notin> slot_cell si ` set qs \<Longrightarrow> stream kc1 t ! j = stream kc t ! j"
    using pl by (auto simp: placed_def)
  note fields = same_frame_fields [OF fr]
  have new: "slot_cell si q \<notin> slot_cell si ` set qs" using snoc.prems(2) by auto
  define t j where "t = si_strm si ! s" and "j = si_idxs si ! s ! ii"
  have tj: "slot_cell si q = (t, j)" by (simp add: slot_cell_def q t_def j_def)
  have qok: "t < kc_n_stream kc" "j < n" "0 \<le> ub_pos ub ! (s * m + ii)" "distinct (ub_tok_seqs ub (s * m + ii))"
    "set (ub_tok_seqs ub (s * m + ii)) \<subseteq> stream_seqs kc t" "k_pos (stream kc t ! j) \<noteq> -1 \<longrightarrow> (\<exists>q. k_seq (stream kc t ! j) = {q})"
  proof -
    have "pair_ok n kc si ub m q" using snoc.prems(1) by simp
    moreover have "fst q = s" "snd q = ii" using q by simp_all
    ultimately show "t < kc_n_stream kc" "j < n" "0 \<le> ub_pos ub ! (s * m + ii)" "distinct (ub_tok_seqs ub (s * m + ii))"
      "set (ub_tok_seqs ub (s * m + ii)) \<subseteq> stream_seqs kc t" "k_pos (stream kc t ! j) \<noteq> -1 \<longrightarrow> (\<exists>q. k_seq (stream kc t ! j) = {q})"
      by (simp_all add: pair_ok_def tj Let_def)
  qed
  have same: "stream kc1 t ! j = stream kc t ! j" using rest qok(1,2) new tj by metis
  obtain kc2 where a: "apply_token si ub m s ii (kc1, fold (rm_step kc si) qs rm)
       = (kc2, rm_step kc si q (fold (rm_step kc si) qs rm))"
    and wf2: "kv_wf n kc2" and k2: "kc2 = kc1\<lparr>kc_v_cells := kc_v_cells kc2\<rparr>"
    and sh2: "map c_has_shift (kc_v_cells kc2) = map c_has_shift (kc_v_cells kc1)"
    and v2: "\<And>t'. stream kc2 t' = (if t' = t then (stream kc1 t')[j := token_cell (kc_hparams kc1) ub (s * m + ii)] else stream kc1 t')"
    using apply_token_eq [OF wf1, of si s ii ub m "fold (rm_step kc si) qs rm"] qok same fields
    unfolding t_def [symmetric] j_def [symmetric] by (auto simp: rm_step_def tj Let_def)
  have len: "length (stream kc1 t) = n" using stream_cells [OF wf1] qok(1) fields(2) by metis
  have fr2: "same_frame kc1 kc2" unfolding same_frame_def by (subst k2) simp
  have hd2: "kc_v_heads kc2 = kc_v_heads kc1" by (subst k2) simp
  have "old_cell kc2 si q' = token_cell (kc_hparams kc) ub (fst q' * m + snd q')" if "q' \<in> set (qs @ [q])" for q'
  proof (cases "slot_cell si q' = (t, j)")
    case True
    then have "q' \<notin> set qs" using new tj by (metis imageI)
    then have "q' = q" using that by simp
    then have "fst (slot_cell si q') = t" "snd (slot_cell si q') = j" "fst q' = s" "snd q' = ii" using tj q by simp_all
    then show ?thesis using len qok(2) by (simp add: v2 fields)
  next
    case False
    then have "q' \<in> set qs" using that tj by auto
    moreover have "old_cell kc2 si q' = old_cell kc1 si q'" using False by (cases "slot_cell si q'") (auto simp: v2)
    ultimately show ?thesis using old by simp
  qed
  moreover have "stream kc2 t' ! j' = stream kc t' ! j'" if "t' < kc_n_stream kc" "j' < n" "(t', j') \<notin> slot_cell si ` set (qs @ [q])" for t' j'
    using that rest [OF that(1,2)] by (auto simp: v2 tj nth_list_update_neq)
  ultimately have "placed n kc si ub m (qs @ [q]) kc2"
    using wf2 same_frame_trans [OF fr fr2] hd1 hd2 sh1 sh2 by (simp add: placed_def)
  then show ?case using kc1 a q by simp
qed

subsection \<open>The overwritten positions\<close>

text \<open>The positions of sequence \<open>q\<close> in the cells that the ubatch overwrites, and the least bound that
  \<open>seq_pos_max_rm\<close> computes for them (-1 when there is none).\<close>

definition overwritten :: "kv_cache \<Rightarrow> slot_info \<Rightarrow> (nat \<times> nat) list \<Rightarrow> llama_seq_id \<Rightarrow> llama_pos set" where
  "overwritten kc si qs q = {k_pos (old_cell kc si x) |x. x \<in> set qs \<and> k_pos (old_cell kc si x) \<noteq> -1 \<and> k_seq (old_cell kc si x) = {q}}"

definition purge_bound :: "llama_pos set \<Rightarrow> llama_pos" where
  "purge_bound P = Max (insert (-1) P)"

lemma finite_overwritten [simp]: "finite (overwritten kc si qs q)"
proof -
  have "overwritten kc si qs q \<subseteq> (\<lambda>x. k_pos (old_cell kc si x)) ` set qs" by (auto simp: overwritten_def)
  then show ?thesis by (rule finite_subset) simp
qed

lemma purge_bound_ge: "finite P \<Longrightarrow> p \<in> P \<Longrightarrow> p \<le> purge_bound P"
  by (simp add: purge_bound_def)

lemma purge_bound_empty [simp]: "purge_bound {} = -1"
  by (simp add: purge_bound_def)

lemma purge_bound_insert: "finite P \<Longrightarrow> purge_bound (insert p P) = max (purge_bound P) p"
  unfolding purge_bound_def by (subst insert_commute) (simp add: max.commute)

lemma rm_step_list:
  assumes "\<forall>x \<in> set qs. k_pos (old_cell kc si x) \<noteq> -1 \<longrightarrow> (\<exists>q \<in> valid_seqs. k_seq (old_cell kc si x) = {q})" "q \<in> valid_seqs"
  shows "length (fold (rm_step kc si) qs (replicate LLAMA_MAX_SEQ (-1))) = LLAMA_MAX_SEQ
    \<and> fold (rm_step kc si) qs (replicate LLAMA_MAX_SEQ (-1)) ! nat q = purge_bound (overwritten kc si qs q)"
  using assms(1)
proof (induction qs rule: rev_induct)
  case Nil
  then show ?case using assms(2) by (simp add: overwritten_def valid_seqs_def nat_less_iff)
next
  case (snoc x qs)
  define rm where "rm = fold (rm_step kc si) qs (replicate LLAMA_MAX_SEQ (-1))"
  have IH: "length rm = LLAMA_MAX_SEQ" "rm ! nat q = purge_bound (overwritten kc si qs q)"
    using snoc by (simp_all add: rm_def)
  define k where "k = old_cell kc si x"
  have ov: "overwritten kc si (qs @ [x]) q = (if k_pos k \<noteq> -1 \<and> k_seq k = {q} then insert (k_pos k) (overwritten kc si qs q) else overwritten kc si qs q)"
    unfolding overwritten_def k_def set_append by (cases x) auto
  have "k_pos k \<noteq> -1 \<longrightarrow> (\<exists>q' \<in> valid_seqs. k_seq k = {q'})" using snoc.prems by (simp add: k_def)
  then consider "k_pos k = -1" | q' where "k_pos k \<noteq> -1" "k_seq k = {q'}" "q' \<in> valid_seqs" by blast
  then show ?case
  proof cases
    case 1
    then show ?thesis using IH by (simp add: rm_def [symmetric] ov) (simp add: rm_step_def k_def [symmetric])
  next
    case 2
    then have step: "rm_step kc si x rm = rm[nat q' := max (rm ! nat q') (k_pos k)]" by (simp add: rm_step_def k_def [symmetric])
    have q': "nat q' < length rm" "nat q' = nat q \<longleftrightarrow> q' = q" using 2(3) assms(2) IH(1) by (auto simp: valid_seqs_def)
    show ?thesis using IH 2 q' by (simp add: rm_def [symmetric] step ov nth_list_update purge_bound_insert)
  qed
qed

subsection \<open>The purge\<close>

lemma kv_seq_rm_frame: "kv_seq_rm s p0 p1 kc = Inr (r, kc') \<Longrightarrow> 0 \<le> s \<Longrightarrow> same_frame kc kc'"
  by (auto simp: kv_seq_rm_def res_Inr_iffs Let_def same_frame_def run_stream_def split: if_splits prod.splits)

lemma cells_seq_pos_min_stream:
  assumes wf: "kv_wf n kc" and s: "seq_in_range kc q"
  shows "cells_seq_pos_min (kc_v_cells kc ! strm kc q) q = (if kv_positions kc q = {} then -1 else Min (kv_positions kc q))"
proof -
  obtain b where b: "kc_v_cells kc ! strm kc q = mk_cells (stream kc (strm kc q)) b"
    using stream_cells [OF wf strm_less [OF wf s]] by blast
  show ?thesis unfolding kv_positions_def by (subst b) (rule cells_seq_pos_min_mk)
qed

lemma kv_positions_nonneg: "kv_wf n kc \<Longrightarrow> seq_in_range kc q \<Longrightarrow> p \<in> kv_positions kc q \<Longrightarrow> 0 \<le> p"
  using stream_cells [OF _ strm_less] seq_positions_nonneg unfolding kv_positions_def by metis

lemma purge_seq_spec:
  assumes wf: "kv_wf n kc" and o: "kc_other kc = None" and bound: "-1 \<le> rm ! s" and r: "rm ! s \<noteq> -1 \<Longrightarrow> seq_in_range kc (int s)"
  shows "\<exists>kc'. purge_seq rm s kc = Inr kc' \<and> kv_wf n kc' \<and> same_frame kc kc'
    \<and> (seq_in_range kc (int s) \<longrightarrow> kv_positions kc' (int s) = {p \<in> kv_positions kc (int s). rm ! s < p})
    \<and> (\<forall>q. q \<noteq> int s \<longrightarrow> kv_positions kc' q = kv_positions kc q) \<and> (rm ! s = -1 \<longrightarrow> kc' = kc)"
proof (cases "rm ! s = -1")
  case True
  have "{p \<in> kv_positions kc (int s). -1 < p} = kv_positions kc (int s)" if "seq_in_range kc (int s)"
    using kv_positions_nonneg [OF wf that] by force
  then show ?thesis using True wf by (simp add: purge_seq_def)
next
  case False
  have rng: "seq_in_range kc (int s)" using r False by simp
  define P lo where "P = kv_positions kc (int s)" and "lo = cells_seq_pos_min (kc_v_cells kc ! strm kc (int s)) (int s)"
  have lo: "lo = (if P = {} then -1 else Min P)" using cells_seq_pos_min_stream [OF wf rng] by (simp add: P_def lo_def)
  have fin: "finite P" by (simp add: P_def kv_positions_def)
  have nn: "\<And>p. p \<in> P \<Longrightarrow> 0 \<le> p" using kv_positions_nonneg [OF wf rng] by (simp add: P_def)
  have lo_le: "range_lo lo \<le> p" if "p \<in> P" for p
    using that fin nn by (auto simp: lo range_lo_def)
  have u: "purge_seq rm s kc = (if lo \<le> rm ! s then bind_res (kv_seq_rm (int s) lo (rm ! s + 1) kc) (\<lambda>(_, kc). Inr kc) else Inr kc)"
    using False rng by (simp add: purge_seq_def lo_def strm_def seq_in_range_def Let_def)
  show ?thesis
  proof (cases "lo \<le> rm ! s")
    case True
    obtain kc' where kc': "kv_seq_rm (int s) lo (rm ! s + 1) kc = Inr (True, kc')" "kv_wf n kc'"
      "kv_positions kc' (int s) = {p \<in> P. \<not> (range_lo lo \<le> p \<and> p < range_hi (rm ! s + 1))}"
      "\<forall>q. q \<noteq> int s \<longrightarrow> kv_positions kc' q = kv_positions kc q"
      using kv_seq_rm_run [OF wf o rng, of lo "rm ! s + 1"] by (auto simp: P_def)
    have "kv_positions kc' (int s) = {p \<in> P. rm ! s < p}"
      using lo_le bound False unfolding kc'(3) by (auto simp: range_hi_def)
    then show ?thesis using True u kc' False kv_seq_rm_frame [OF kc'(1)] by (auto simp: P_def)
  next
    case notle: False
    then have "rm ! s < p" if "p \<in> P" for p
      using that Min_le [OF fin that] lo by (auto split: if_splits)
    then have "{p \<in> P. rm ! s < p} = P" by blast
    then show ?thesis using notle u wf False by (simp add: P_def)
  qed
qed

lemma purge_loop:
  assumes wf: "kv_wf n kc" and o: "kc_other kc = None"
    and bound: "\<And>s. s < m \<Longrightarrow> -1 \<le> rm ! s" and r: "\<And>s. s < m \<Longrightarrow> rm ! s \<noteq> -1 \<Longrightarrow> seq_in_range kc (int s)"
  shows "\<exists>kc'. fold_res (purge_seq rm) [0..<m] kc = Inr kc' \<and> kv_wf n kc' \<and> same_frame kc kc'
    \<and> (\<forall>q. seq_in_range kc q \<longrightarrow> kv_positions kc' q = (if nat q < m then {p \<in> kv_positions kc q. rm ! nat q < p} else kv_positions kc q))
    \<and> ((\<forall>s < m. rm ! s = -1) \<longrightarrow> kc' = kc)"
  using bound r
proof (induction m)
  case 0
  then show ?case using wf by simp
next
  case (Suc m)
  obtain kc1 where kc1: "fold_res (purge_seq rm) [0..<m] kc = Inr kc1" "kv_wf n kc1" "same_frame kc kc1"
    "\<And>q. seq_in_range kc q \<Longrightarrow> kv_positions kc1 q = (if nat q < m then {p \<in> kv_positions kc q. rm ! nat q < p} else kv_positions kc q)"
    "(\<forall>s < m. rm ! s = -1) \<longrightarrow> kc1 = kc"
    using Suc.IH Suc.prems less_SucI by blast
  note fields = same_frame_fields [OF kc1(3)]
  have o1: "kc_other kc1 = None" using o fields(6) by simp
  obtain kc2 where kc2: "purge_seq rm m kc1 = Inr kc2" "kv_wf n kc2" "same_frame kc1 kc2"
    "seq_in_range kc (int m) \<longrightarrow> kv_positions kc2 (int m) = {p \<in> kv_positions kc1 (int m). rm ! m < p}"
    "\<forall>q. q \<noteq> int m \<longrightarrow> kv_positions kc2 q = kv_positions kc1 q" "rm ! m = -1 \<longrightarrow> kc2 = kc1"
    using purge_seq_spec [OF kc1(2) o1, of rm m] Suc.prems fields(8) by auto
  have "kv_positions kc2 q = (if nat q < Suc m then {p \<in> kv_positions kc q. rm ! nat q < p} else kv_positions kc q)" if "seq_in_range kc q" for q
  proof (cases "q = int m")
    case True
    then show ?thesis using kc2(4) kc1(4) that by simp
  next
    case False
    then have "nat q < Suc m \<longleftrightarrow> nat q < m" using that by (auto simp: seq_in_range_def)
    then show ?thesis using kc2(5) kc1(4) [OF that] False by simp
  qed
  moreover have "(\<forall>s < Suc m. rm ! s = -1) \<longrightarrow> kc2 = kc" using kc1(5) kc2(6) by auto
  ultimately show ?case using kc1(1) kc2(1,2) same_frame_trans [OF kc1(3) kc2(3)]
    by (simp add: fold_res_append)
qed

subsection \<open>The whole operation\<close>

definition slot_pairs :: "kv_cache \<Rightarrow> llama_ubatch \<Rightarrow> (nat \<times> nat) list" where
  "slot_pairs kc ub = List.product [0..<slot_seqs kc ub] [0..<slot_tokens kc ub]"

lemma slot_pairs_iff [simp]: "(s, ii) \<in> set (slot_pairs kc ub) \<longleftrightarrow> s < slot_seqs kc ub \<and> ii < slot_tokens kc ub"
  by (auto simp: slot_pairs_def)

lemma slot_cell_eq: "slot_ok n kc ub si \<Longrightarrow> s < slot_seqs kc ub \<Longrightarrow> slot_cell si (s, ii) = (group_strm kc ub s, si_idxs si ! s ! ii)"
  by (simp add: slot_cell_def slot_ok_def)

lemma slot_cells_distinct:
  assumes ub: "ubatch_ok kc ub" and si: "slot_ok n kc ub si"
  shows "distinct (map (slot_cell si) (slot_pairs kc ub))"
proof -
  have d: "distinct (map (group_strm kc ub) [0..<slot_seqs kc ub])" using ub by (simp add: ubatch_ok_def)
  have "inj_on (slot_cell si) (set (slot_pairs kc ub))"
  proof (rule inj_onI, clarify)
    fix s ii s' ii' assume *: "(s, ii) \<in> set (slot_pairs kc ub)" "(s', ii') \<in> set (slot_pairs kc ub)" "slot_cell si (s, ii) = slot_cell si (s', ii')"
    then have eq: "group_strm kc ub s = group_strm kc ub s'" "si_idxs si ! s ! ii = si_idxs si ! s' ! ii'"
      using slot_cell_eq [OF si] by simp_all
    then have "s = s'" using d * by (auto simp: distinct_map inj_on_def)
    moreover have "distinct (si_idxs si ! s)" "length (si_idxs si ! s) = slot_tokens kc ub" using si * by (simp_all add: slot_ok_def)
    ultimately show "s = s' \<and> ii = ii'" using eq(2) * by (simp add: nth_eq_iff_index_eq)
  qed
  then show ?thesis by (simp add: distinct_map slot_pairs_def distinct_product)
qed

lemma slot_pair_ok:
  assumes wf: "kv_wf n kc" and ub: "ubatch_ok kc ub" and si: "slot_ok n kc ub si" and x: "x \<in> set (slot_pairs kc ub)"
  shows "pair_ok n kc si ub (slot_tokens kc ub) x"
proof -
  obtain s ii where xs: "x = (s, ii)" "s < slot_seqs kc ub" "ii < slot_tokens kc ub" using x by (metis slot_pairs_iff surj_pair)
  define t j where "t = group_strm kc ub s" and "j = si_idxs si ! s ! ii"
  have tj: "slot_cell si x = (t, j)" using slot_cell_eq [OF si] xs by (simp add: t_def j_def)
  have r: "seq_in_range kc (ub_seq_id_unq ub ! s)" using ub xs by (simp add: ubatch_ok_def)
  have t: "t < kc_n_stream kc" using strm_less [OF wf r] by (simp add: t_def group_strm_def)
  have j: "j \<in> set (si_idxs si ! s)" using si xs by (simp add: slot_ok_def j_def)
  then have j: "j < n" "cell_usable kc (kc_v_cells kc ! t) j" using si xs by (auto simp: slot_ok_def t_def)
  obtain b where b: "kc_v_cells kc ! t = mk_cells (stream kc t) b" "cells_ok (stream kc t)" "length (stream kc t) = n"
    using stream_cells [OF wf t] by blast
  have "\<exists>q. k_seq (stream kc t ! j) = {q}" if "k_pos (stream kc t ! j) \<noteq> -1"
  proof -
    have "cell_usable kc (mk_cells (stream kc t) b) j" using j(2) b(1) by simp
    from cell_usable_mk [OF b(2) _ this that] b(3) j(1) show ?thesis by auto
  qed
  moreover have "let i = s * slot_tokens kc ub + ii in 0 \<le> ub_pos ub ! i \<and> distinct (ub_tok_seqs ub i) \<and> set (ub_tok_seqs ub i) \<subseteq> stream_seqs kc t"
    using ub xs unfolding ubatch_ok_def t_def by blast
  ultimately show ?thesis using t j(1) by (simp add: pair_ok_def tj xs(1) [THEN arg_cong [where f = fst]] xs(1) [THEN arg_cong [where f = snd]] Let_def)
qed

lemma slot_size_ok: "ubatch_ok kc ub \<Longrightarrow> slot_ok n kc ub si \<Longrightarrow> slot_size si = Inr (slot_tokens kc ub) \<and> slot_n_stream si = slot_seqs kc ub"
  by (auto simp: slot_ok_def slot_size_def ubatch_ok_def slot_n_stream_def ggml_assert_def)

definition new_positions :: "llama_ubatch \<Rightarrow> llama_seq_id \<Rightarrow> llama_pos set" where
  "new_positions ub q = {ub_pos ub ! i |i. i < ub_n_tokens ub \<and> q \<in> set (ub_tok_seqs ub i)}"

text \<open>The positions after the token loop, above the bound of the overwritten ones.\<close>

lemma placed_positions:
  assumes wf: "kv_wf n kc" and ub: "ubatch_ok kc ub" and si: "slot_ok n kc ub si" and q: "seq_in_range kc q"
    and pl: "placed n kc si ub (slot_tokens kc ub) (slot_pairs kc ub) kc'"
  defines "B \<equiv> purge_bound (overwritten kc si (slot_pairs kc ub) q)"
  shows "{p \<in> kv_positions kc' q. B < p} = {p \<in> kv_positions kc q \<union> new_positions ub q. B < p}" (is "?L = ?R")
proof -
  let ?m = "slot_tokens kc ub" and ?t = "strm kc q" and ?qs = "slot_pairs kc ub"
  have fr: "same_frame kc kc'" and wf': "kv_wf n kc'" using pl by (simp_all add: placed_def)
  note fields = same_frame_fields [OF fr]
  have t: "?t < kc_n_stream kc" using strm_less [OF wf q] .
  have len: "length (stream kc ?t) = n" "length (stream kc' ?t) = n"
    using stream_cells [OF wf t] stream_cells [OF wf'] t fields(2) by metis+
  have tok: "old_cell kc' si x = token_cell (kc_hparams kc) ub (fst x * ?m + snd x)" if "x \<in> set ?qs" for x
    using pl that by (simp add: placed_def)
  have rest: "stream kc' ?t ! j = stream kc ?t ! j" if "j < n" "(?t, j) \<notin> slot_cell si ` set ?qs" for j
    using pl t that by (simp add: placed_def)
  have P: "kv_positions kc q = {k_pos (stream kc ?t ! j) |j. j < n \<and> q \<in> k_seq (stream kc ?t ! j)}"
    "kv_positions kc' q = {k_pos (stream kc' ?t ! j) |j. j < n \<and> q \<in> k_seq (stream kc' ?t ! j)}"
    unfolding kv_positions_def fields(7) seq_positions_nth len by simp_all
  have tot: "ub_n_tokens ub = slot_seqs kc ub * ?m" "0 < ?m" using ub by (simp_all add: ubatch_ok_def)
  show ?thesis
  proof (intro set_eqI iffI)
    fix p assume "p \<in> ?L"
    then obtain j where j: "j < n" "p = k_pos (stream kc' ?t ! j)" "q \<in> k_seq (stream kc' ?t ! j)" and B: "B < p"
      unfolding P(2) by blast
    show "p \<in> ?R"
    proof (cases "(?t, j) \<in> slot_cell si ` set ?qs")
      case True
      then obtain s ii where x: "(s, ii) \<in> set ?qs" "slot_cell si (s, ii) = (?t, j)" by auto
      then have "stream kc' ?t ! j = token_cell (kc_hparams kc) ub (s * ?m + ii)" using tok [OF x(1)] by simp
      moreover have "s * ?m + ii < ub_n_tokens ub" unfolding tot(1) using x(1) by (intro row_major_less) simp_all
      ultimately have "p \<in> new_positions ub q" using j by (auto simp: new_positions_def token_cell_def)
      then show ?thesis using B by simp
    next
      case False
      then show ?thesis using rest [OF j(1) False] j B unfolding P(1) by auto
    qed
  next
    fix p assume R: "p \<in> ?R"
    then consider j where "j < n" "p = k_pos (stream kc ?t ! j)" "q \<in> k_seq (stream kc ?t ! j)"
      | i where "p = ub_pos ub ! i" "i < ub_n_tokens ub" "q \<in> set (ub_tok_seqs ub i)"
      unfolding P(1) new_positions_def by blast
    then show "p \<in> ?L"
    proof cases
      case (1 j)
      have "(?t, j) \<notin> slot_cell si ` set ?qs"
      proof
        assume "(?t, j) \<in> slot_cell si ` set ?qs"
        then obtain x where x: "x \<in> set ?qs" "slot_cell si x = (?t, j)" by auto
        have ne: "k_pos (stream kc ?t ! j) \<noteq> -1"
          using 1 stream_cells [OF wf t] cell_ok_ne len(1) cells_ok_nth by metis
        have "k_pos (stream kc ?t ! j) \<noteq> -1 \<longrightarrow> (\<exists>q. k_seq (stream kc ?t ! j) = {q})"
          using slot_pair_ok [OF wf ub si x(1)] by (simp add: pair_ok_def x(2) Let_def)
        then have "k_seq (stream kc ?t ! j) = {q}" using ne 1(3) by auto
        then have "p \<in> overwritten kc si ?qs q" unfolding overwritten_def using x ne 1(2)
          by (intro CollectI exI [of _ x]) simp
        then have "p \<le> B" unfolding B_def by (intro purge_bound_ge) simp_all
        then show False using R by simp
      qed
      then have "stream kc' ?t ! j = stream kc ?t ! j" using rest 1(1) by blast
      then have "p \<in> kv_positions kc' q" unfolding P(2) using 1 by (intro CollectI exI [of _ j]) simp
      then show ?thesis using R by blast
    next
      case (2 i)
      define s ii where "s = i div ?m" and "ii = i mod ?m"
      have i: "i = s * ?m + ii" "ii < ?m" "s < slot_seqs kc ub"
        using 2(2) tot by (simp_all add: s_def ii_def less_mult_imp_div_less div_mult_mod_eq)
      have x: "(s, ii) \<in> set ?qs" using i by simp
      have pk: "pair_ok n kc si ub ?m (s, ii)" using slot_pair_ok [OF wf ub si x] .
      define j where "j = si_idxs si ! s ! ii"
      have sc: "slot_cell si (s, ii) = (group_strm kc ub s, j)" using slot_cell_eq [OF si i(3)] by (simp add: j_def)
      have "q \<in> stream_seqs kc (group_strm kc ub s)" "j < n" using pk 2(3) i(1) by (auto simp: pair_ok_def sc Let_def)
      then have "group_strm kc ub s = ?t" by (simp add: stream_seqs_def)
      then have "stream kc' ?t ! j = token_cell (kc_hparams kc) ub i" using tok [OF x] sc i(1) by simp
      then have "p \<in> kv_positions kc' q" unfolding P(2) using 2 \<open>j < n\<close>
        by (intro CollectI exI [of _ j]) (simp add: token_cell_def)
      then show ?thesis using R by blast
    qed
  qed
qed

definition slot_heads :: "slot_info \<Rightarrow> nat list \<Rightarrow> nat list" where
  "slot_heads si hs = fold (\<lambda>s h. h[si_strm si ! s := last (si_idxs si ! s) + 1]) [0..<slot_n_stream si] hs"

lemma fold_heads:
  "fold (\<lambda>s kc. kc\<lparr>kc_v_heads := (kc_v_heads kc)[f s := g s]\<rparr>) ss kc
   = kc\<lparr>kc_v_heads := fold (\<lambda>s h. h[f s := g s]) ss (kc_v_heads kc)\<rparr>"
  by (induction ss arbitrary: kc) simp_all

lemma slot_heads_wf:
  assumes wf: "kv_wf n kc" and ub: "ubatch_ok kc0 ub" and si: "slot_ok n kc0 ub si"
  shows "kv_wf n (kc\<lparr>kc_v_heads := slot_heads si (kc_v_heads kc)\<rparr>)"
proof -
  have l: "last (si_idxs si ! s) + 1 \<le> n" if "s < slot_n_stream si" for s
  proof -
    have "s < slot_seqs kc0 ub" using that slot_size_ok [OF ub si] by simp
    then have "si_idxs si ! s \<noteq> []" "\<forall>i \<in> set (si_idxs si ! s). i < n" using si ub by (auto simp: slot_ok_def ubatch_ok_def)
    then show ?thesis using last_in_set by fastforce
  qed
  let ?I = "\<lambda>h. length h = length (kc_v_heads kc) \<and> (\<forall>t < length (kc_v_heads kc). h ! t \<le> n)"
  have step: "?I (h[si_strm si ! s := last (si_idxs si ! s) + 1])" if "s < slot_n_stream si" "?I h" for s h
    using l [OF that(1)] that(2) by (cases "si_strm si ! s < length h") (auto simp: nth_list_update list_update_beyond)
  have "?I (kc_v_heads kc)" using wf by (simp add: kv_wf_def stream_ok_def)
  then have "?I (slot_heads si (kc_v_heads kc))"
    unfolding slot_heads_def using step by (intro fold_invariant_mem [where I = ?I]) simp_all
  moreover have "stream_seqs (kc\<lparr>kc_v_heads := hs\<rparr>) t = stream_seqs kc t" for hs t
    by (simp add: stream_seqs_def seq_in_range_def strm_def)
  ultimately show ?thesis using wf by (simp add: kv_wf_def stream_ok_def)
qed

lemma apply_ubatch_spec:
  assumes wf: "kv_wf n kc" and o: "kc_other kc = None" and ub: "ubatch_ok kc ub" and si: "slot_ok n kc ub si"
  defines "B \<equiv> \<lambda>q. purge_bound (overwritten kc si (slot_pairs kc ub) q)"
  shows "\<exists>kc'. apply_ubatch si ub kc = Inr kc' \<and> kv_wf n kc' \<and> same_frame kc kc'
    \<and> (\<forall>q. seq_in_range kc q \<longrightarrow> kv_positions kc' q = {p \<in> kv_positions kc q \<union> new_positions ub q. B q < p})
    \<and> ((\<forall>q. seq_in_range kc q \<longrightarrow> overwritten kc si (slot_pairs kc ub) q = {}) \<longrightarrow>
        (\<exists>kc1. placed n kc si ub (slot_tokens kc ub) (slot_pairs kc ub) kc1 \<and> kc' = kc1\<lparr>kc_v_heads := slot_heads si (kc_v_heads kc)\<rparr>))"
proof -
  let ?m = "slot_tokens kc ub" and ?qs = "slot_pairs kc ub"
  define rm where "rm = fold (rm_step kc si) ?qs (replicate LLAMA_MAX_SEQ (-1))"
  have pok: "\<forall>x \<in> set ?qs. pair_ok n kc si ub ?m x" using slot_pair_ok [OF wf ub si] by blast
  obtain kc1 where kc1: "fold (\<lambda>(s, ii). apply_token si ub ?m s ii) ?qs (kc, replicate LLAMA_MAX_SEQ (-1)) = (kc1, rm)"
    and pl: "placed n kc si ub ?m ?qs kc1"
    using token_loop [OF wf pok slot_cells_distinct [OF ub si]] unfolding rm_def by blast
  have fr1: "same_frame kc kc1" and wf1: "kv_wf n kc1" and hd1: "kc_v_heads kc1 = kc_v_heads kc" using pl by (simp_all add: placed_def)
  note fields = same_frame_fields [OF fr1]
  have single: "\<exists>q \<in> valid_seqs. k_seq (old_cell kc si x) = {q} \<and> seq_in_range kc q"
    if "x \<in> set ?qs" "k_pos (old_cell kc si x) \<noteq> -1" for x
  proof -
    obtain t j where tj: "slot_cell si x = (t, j)" by fastforce
    have *: "t < kc_n_stream kc" "j < n" "\<exists>q. k_seq (stream kc t ! j) = {q}" using pok that by (auto simp: pair_ok_def tj Let_def)
    moreover have "length (stream kc t) = n" using stream_cells [OF wf *(1)] by metis
    ultimately have "k_seq (stream kc t ! j) \<subseteq> stream_seqs kc t" using stream_k_seq [OF wf *(1)] by (metis nth_mem)
    then show ?thesis using *(3) stream_seqs_valid [OF wf, of t] by (auto simp: tj stream_seqs_def)
  qed
  have rm: "rm ! nat q = B q" if "q \<in> valid_seqs" for q
    unfolding rm_def B_def using rm_step_list [OF _ that, of ?qs kc si] single by blast
  have rm': "rm ! s = B (int s)" if "s < LLAMA_MAX_SEQ" for s using rm [of "int s"] that by (simp add: valid_seqs_def)
  have ge: "-1 \<le> B q" for q by (simp add: B_def purge_bound_def)
  have rng: "seq_in_range kc q" if "B q \<noteq> -1" for q
  proof (rule ccontr)
    assume "\<not> seq_in_range kc q"
    then have "overwritten kc si ?qs q = {}" using single unfolding overwritten_def by fastforce
    then show False using that by (simp add: B_def)
  qed
  obtain kc2 where kc2: "fold_res (purge_seq rm) [0..<LLAMA_MAX_SEQ] kc1 = Inr kc2" "kv_wf n kc2" "same_frame kc1 kc2"
    "\<And>q. seq_in_range kc1 q \<Longrightarrow> kv_positions kc2 q = (if nat q < LLAMA_MAX_SEQ then {p \<in> kv_positions kc1 q. rm ! nat q < p} else kv_positions kc1 q)"
    "(\<forall>s < LLAMA_MAX_SEQ. rm ! s = -1) \<longrightarrow> kc2 = kc1"
    using purge_loop [OF wf1, of LLAMA_MAX_SEQ rm] o rm' ge rng unfolding fields by auto
  define kc3 where "kc3 = kc2\<lparr>kc_v_heads := slot_heads si (kc_v_heads kc2)\<rparr>"
  have "fold (\<lambda>s. fold (apply_token si ub ?m s) [0..<?m]) [0..<slot_seqs kc ub] (kc, replicate LLAMA_MAX_SEQ (-1)) = (kc1, rm)"
    using kc1 fold_nested_product [of "\<lambda>(s, ii). apply_token si ub ?m s ii"] by (simp add: slot_pairs_def)
  then have app: "apply_ubatch si ub kc = Inr kc3"
    using o slot_size_ok [OF ub si] kc2(1) by (simp add: apply_ubatch_def kc3_def slot_heads_def fold_heads)
  have wf3: "kv_wf n kc3" unfolding kc3_def by (rule slot_heads_wf [OF kc2(2) ub si])
  have fr3: "same_frame kc kc3" using same_frame_trans [OF fr1 kc2(3)] by (simp add: same_frame_def kc3_def)
  have pos3: "kv_positions kc3 q = kv_positions kc2 q" for q by (simp add: kc3_def kv_positions_def strm_def)
  have "kv_positions kc3 q = {p \<in> kv_positions kc q \<union> new_positions ub q. B q < p}" if q: "seq_in_range kc q" for q
  proof -
    have v: "q \<in> valid_seqs" using valid_of_range [OF wf q] .
    then have "nat q < LLAMA_MAX_SEQ" by (auto simp: valid_seqs_def)
    then have "kv_positions kc3 q = {p \<in> kv_positions kc1 q. B q < p}"
      using kc2(4) q fields(8) rm [OF v] pos3 by simp
    then show ?thesis using placed_positions [OF wf ub si q pl] by (simp add: B_def)
  qed
  moreover have "kc3 = kc1\<lparr>kc_v_heads := slot_heads si (kc_v_heads kc)\<rparr>"
    if "\<forall>q. seq_in_range kc q \<longrightarrow> overwritten kc si ?qs q = {}"
  proof -
    have "B q = -1" for q using that rng [of q] by (cases "B q = -1") (simp_all add: B_def)
    then have "kc2 = kc1" using kc2(5) rm' by simp
    then show ?thesis by (simp add: kc3_def hd1)
  qed
  ultimately show ?thesis using app wf3 fr3 pl by (intro exI [of _ kc3]) blast
qed

end
