(* ===== verification/KV_Prepare.thy ===== *)
theory KV_Prepare
  imports KV_Apply
begin

section \<open>Trying out a batch\<close>

text \<open>
  \<open>prepare\<close> places all ubatches, collects the slots and restores the cells. The theorems are for caches
  without a sliding window, where only empty cells are handed out; with a window \<open>apply_ubatch\<close> may
  purge cells outside the slot, which \<open>prepare\<close> does not save.
\<close>

lemma usable_iff_empty: "kc_swa_type kc = LLAMA_SWA_TYPE_NONE \<Longrightarrow> cell_usable kc c i \<longleftrightarrow> cells_is_empty c i"
  by (simp add: cell_usable_def)

lemma old_cell_empty:
  assumes wf: "kv_wf n kc" and ub: "ubatch_ok kc ub" and si: "slot_ok n kc ub si" and none: "kc_swa_type kc = LLAMA_SWA_TYPE_NONE"
    and s: "s < slot_seqs kc ub" and i: "i \<in> set (si_idxs si ! s)"
  shows "i < n" "stream kc (group_strm kc ub s) ! i = cell_empty"
proof -
  let ?t = "group_strm kc ub s"
  have t: "?t < kc_n_stream kc" using ub s strm_less [OF wf] by (simp add: ubatch_ok_def group_strm_def)
  obtain b where b: "kc_v_cells kc ! ?t = mk_cells (stream kc ?t) b" "cells_ok (stream kc ?t)" "length (stream kc ?t) = n"
    using stream_cells [OF wf t] by blast
  have "i < n" "cell_usable kc (kc_v_cells kc ! ?t) i" using si s i by (auto simp: slot_ok_def)
  moreover from this have "cells_is_empty (mk_cells (stream kc ?t) b) i" using usable_iff_empty [OF none] b(1) by simp
  ultimately show "i < n" "stream kc ?t ! i = cell_empty"
    using cell_ok_is_empty [OF b(2)] b(3) by (simp_all add: cells_is_empty_mk)
qed

lemma no_overwrite:
  assumes "kv_wf n kc" "ubatch_ok kc ub" "slot_ok n kc ub si" "kc_swa_type kc = LLAMA_SWA_TYPE_NONE"
  shows "overwritten kc si (slot_pairs kc ub) q = {}"
proof -
  have "k_pos (old_cell kc si x) = -1" if x: "x \<in> set (slot_pairs kc ub)" for x
  proof -
    obtain s ii where xs: "x = (s, ii)" "s < slot_seqs kc ub" "ii < slot_tokens kc ub" using x by (metis slot_pairs_iff surj_pair)
    have "si_idxs si ! s ! ii \<in> set (si_idxs si ! s)" using assms(3) xs by (simp add: slot_ok_def)
    then show ?thesis using old_cell_empty(2) [OF assms xs(2)] slot_cell_eq [OF assms(3) xs(2)] by (simp add: xs(1))
  qed
  then show ?thesis by (auto simp: overwritten_def)
qed

lemma placed_token: "placed n kc si ub m qs kc' \<Longrightarrow> x \<in> set qs \<Longrightarrow> old_cell kc' si x = token_cell (kc_hparams kc) ub (fst x * m + snd x)"
  by (simp add: placed_def)

lemma group_strm_inj: "ubatch_ok kc ub \<Longrightarrow> s < slot_seqs kc ub \<Longrightarrow> s' < slot_seqs kc ub \<Longrightarrow> group_strm kc ub s = group_strm kc ub s' \<Longrightarrow> s = s'"
  by (auto simp: ubatch_ok_def distinct_map inj_on_def)

text \<open>The cells of a slot, restored.\<close>

lemma restore_stream:
  assumes wf: "kv_wf n kc" and ub: "ubatch_ok kc ub" and si: "slot_ok n kc ub si" and none: "kc_swa_type kc = LLAMA_SWA_TYPE_NONE"
    and pl: "placed n kc si ub (slot_tokens kc ub) (slot_pairs kc ub) kc1" and s: "s < slot_seqs kc ub"
  defines "t \<equiv> group_strm kc ub s"
  shows "cells_set (si_idxs si ! s) (cells_cp (kc_v_cells kc ! t) (si_idxs si ! s)) (kc_v_cells kc1 ! t) = kc_v_cells kc ! t"
proof -
  have t: "t < kc_n_stream kc" using ub s strm_less [OF wf] by (simp add: ubatch_ok_def group_strm_def t_def)
  have fr: "same_frame kc kc1" and wf1: "kv_wf n kc1" and sh: "map c_has_shift (kc_v_cells kc1) = map c_has_shift (kc_v_cells kc)"
    using pl by (simp_all add: placed_def)
  have t1: "t < kc_n_stream kc1" using t same_frame_fields(2) [OF fr] by simp
  obtain b where b: "kc_v_cells kc ! t = mk_cells (stream kc t) b" "cells_ok (stream kc t)" "length (stream kc t) = n"
    "b = c_has_shift (kc_v_cells kc ! t)" using stream_cells [OF wf t] by blast
  obtain b1 where b1: "kc_v_cells kc1 ! t = mk_cells (stream kc1 t) b1" "cells_ok (stream kc1 t)" "length (stream kc1 t) = n"
    "b1 = c_has_shift (kc_v_cells kc1 ! t)" using stream_cells [OF wf1 t1] by blast
  have "b1 = b" using arg_cong [OF sh, of "\<lambda>l. l ! t"] b(4) b1(4) kv_wf_lengths [OF wf] kv_wf_lengths [OF wf1] t t1 by simp
  moreover have idx: "i < n \<and> k_shift (stream kc1 t ! i) = k_shift (stream kc t ! i)" if i: "i \<in> set (si_idxs si ! s)" for i
  proof -
    obtain ii where ii: "ii < slot_tokens kc ub" "i = si_idxs si ! s ! ii" using i si s by (auto simp: in_set_conv_nth slot_ok_def)
    have x: "(s, ii) \<in> set (slot_pairs kc ub)" using s ii by simp
    have "slot_cell si (s, ii) = (t, i)" using slot_cell_eq [OF si s] ii by (simp add: t_def)
    then have "stream kc1 t ! i = token_cell (kc_hparams kc) ub (s * slot_tokens kc ub + ii)"
      using placed_token [OF pl x] by simp
    then show ?thesis using old_cell_empty [OF wf ub si none s i] by (simp add: t_def token_cell_def)
  qed
  moreover have "stream kc1 t ! i = stream kc t ! i" if i: "i < n" "i \<notin> set (si_idxs si ! s)" for i
  proof -
    have "(t, i) \<notin> slot_cell si ` set (slot_pairs kc ub)"
    proof
      assume "(t, i) \<in> slot_cell si ` set (slot_pairs kc ub)"
      then obtain s' ii where x: "(s', ii) \<in> set (slot_pairs kc ub)" "slot_cell si (s', ii) = (t, i)" by auto
      then have "s' = s" using slot_cell_eq [OF si] group_strm_inj [OF ub] s by (auto simp: t_def)
      then show False using x i(2) si s slot_cell_eq [OF si s] by (auto simp: slot_ok_def)
    qed
    then show ?thesis using pl t i(1) by (simp add: placed_def)
  qed
  ultimately have "cells_set (si_idxs si ! s) (cells_cp (mk_cells (stream kc t) b) (si_idxs si ! s)) (mk_cells (stream kc1 t) b1)
      = mk_cells (stream kc t) b"
    using b(3) b1(3) by (intro trans [OF cells_restore_mk [OF b(2) b1(2)]]) (simp_all del: cells_list_nth length_cells_list)
  then show ?thesis by (metis b(1) b1(1))
qed

lemma other_streams_same:
  assumes wf: "kv_wf n kc" and si: "slot_ok n kc ub si"
    and pl: "placed n kc si ub (slot_tokens kc ub) (slot_pairs kc ub) kc1"
    and t: "t < kc_n_stream kc" "t \<notin> group_strm kc ub ` {..<slot_seqs kc ub}"
  shows "kc_v_cells kc1 ! t = kc_v_cells kc ! t"
proof (rule cells_eqI)
  have fr: "same_frame kc kc1" and wf1: "kv_wf n kc1" and sh: "map c_has_shift (kc_v_cells kc1) = map c_has_shift (kc_v_cells kc)"
    using pl by (simp_all add: placed_def)
  have t1: "t < kc_n_stream kc1" using t same_frame_fields(2) [OF fr] by simp
  have ok: "stream_ok n kc t" "stream_ok n kc1 t" using kv_wf_stream wf wf1 t t1 by blast+
  then show "cells_wf (kc_v_cells kc1 ! t)" "cells_wf (kc_v_cells kc ! t)" by (simp_all add: stream_ok_def)
  show "c_has_shift (kc_v_cells kc1 ! t) = c_has_shift (kc_v_cells kc ! t)"
    using arg_cong [OF sh, of "\<lambda>l. l ! t"] kv_wf_lengths [OF wf] kv_wf_lengths [OF wf1] t t1 by simp
  have "(t, j) \<notin> slot_cell si ` set (slot_pairs kc ub)" for j
    using t(2) slot_cell_eq [OF si] by auto
  then have "\<forall>j < n. stream kc1 t ! j = stream kc t ! j" using pl t(1) by (simp add: placed_def)
  then show "stream kc1 t = stream kc t" using ok by (intro nth_equalityI) (simp_all add: stream_ok_def)
qed

definition saved_state :: "kv_cache \<Rightarrow> slot_info \<Rightarrow> prepare_state" where
  "saved_state kc si = \<lparr>ps_sinfo = si, ps_v_heads_old = kc_v_heads kc,
     ps_v_cells = map (\<lambda>s. cells_cp (kc_v_cells kc ! (si_strm si ! s)) (si_idxs si ! s)) [0..<slot_n_stream si]\<rparr>"

lemma restore_state_cells:
  assumes wf: "kv_wf n kc" and ub: "ubatch_ok kc ub" and si: "slot_ok n kc ub si" and none: "kc_swa_type kc = LLAMA_SWA_TYPE_NONE"
    and pl: "placed n kc si ub (slot_tokens kc ub) (slot_pairs kc ub) kc1"
    and kc2: "same_frame kc kc2" "kc_v_cells kc2 = kc_v_cells kc1" "length (kc_v_heads kc2) = kc_n_stream kc"
  defines "kc3 \<equiv> restore_state (saved_state kc si) kc2"
  shows "same_frame kc kc3 \<and> kc_v_cells kc3 = kc_v_cells kc \<and> length (kc_v_heads kc3) = kc_n_stream kc
    \<and> (kc_n_stream kc = 1 \<longrightarrow> kc_v_heads kc3 = kc_v_heads kc)"
proof -
  let ?k = "slot_seqs kc ub"
  define F where "F = (\<lambda>s kc'. let st = si_strm si ! s in set_stream st
     (cells_set (si_idxs si ! s) (ps_v_cells (saved_state kc si) ! s) (kc_v_cells kc' ! st)) (kc_v_heads kc ! s) kc')"
  have k: "slot_n_stream si = ?k" using slot_size_ok [OF ub si] by simp
  have st: "si_strm si ! s = group_strm kc ub s" if "s < ?k" for s using si that by (simp add: slot_ok_def)
  have saved: "ps_v_cells (saved_state kc si) ! s = cells_cp (kc_v_cells kc ! group_strm kc ub s) (si_idxs si ! s)" if "s < ?k" for s
    using that k st by (simp add: saved_state_def)
  have glt: "group_strm kc ub s < kc_n_stream kc" if "s < ?k" for s
    using ub that strm_less [OF wf] by (simp add: ubatch_ok_def group_strm_def)
  have len: "length (kc_v_cells kc2) = kc_n_stream kc" "length (kc_v_cells kc) = kc_n_stream kc" "length (kc_v_heads kc) = kc_n_stream kc"
    using kv_wf_lengths [OF wf] pl kc2(2) same_frame_fields(2) kv_wf_lengths [of n kc1] by (simp_all add: placed_def)
  have inv: "m \<le> ?k \<Longrightarrow> same_frame kc (fold F [0..<m] kc2) \<and> length (kc_v_heads (fold F [0..<m] kc2)) = kc_n_stream kc
      \<and> length (kc_v_cells (fold F [0..<m] kc2)) = kc_n_stream kc
      \<and> (\<forall>t < kc_n_stream kc. kc_v_cells (fold F [0..<m] kc2) ! t = (if t \<in> group_strm kc ub ` {..<m} then kc_v_cells kc ! t else kc_v_cells kc1 ! t))
      \<and> (kc_n_stream kc = 1 \<longrightarrow> 0 < m \<longrightarrow> kc_v_heads (fold F [0..<m] kc2) = kc_v_heads kc)" for m
  proof (induction m)
    case 0
    then show ?case using kc2 len by simp
  next
    case (Suc m)
    define kcm where "kcm = fold F [0..<m] kc2"
    let ?t = "group_strm kc ub m"
    have m: "m < ?k" using Suc.prems by simp
    have IH: "same_frame kc kcm" "length (kc_v_heads kcm) = kc_n_stream kc" "length (kc_v_cells kcm) = kc_n_stream kc"
      "\<And>t. t < kc_n_stream kc \<Longrightarrow> kc_v_cells kcm ! t = (if t \<in> group_strm kc ub ` {..<m} then kc_v_cells kc ! t else kc_v_cells kc1 ! t)"
      using Suc by (simp_all add: kcm_def)
    have "?t \<notin> group_strm kc ub ` {..<m}"
    proof
      assume "?t \<in> group_strm kc ub ` {..<m}"
      then obtain s' where "s' < m" "?t = group_strm kc ub s'" by blast
      then show False using group_strm_inj [OF ub m, of s'] m by simp
    qed
    then have "kc_v_cells kcm ! ?t = kc_v_cells kc1 ! ?t" using IH(4) [OF glt [OF m]] by simp
    then have step: "F m kcm = set_stream ?t (kc_v_cells kc ! ?t) (kc_v_heads kc ! m) kcm"
      using restore_stream [OF wf ub si none pl m] by (simp add: F_def Let_def st [OF m] saved [OF m])
    have "kc_v_cells (F m kcm) ! t = (if t \<in> group_strm kc ub ` {..<Suc m} then kc_v_cells kc ! t else kc_v_cells kc1 ! t)" if "t < kc_n_stream kc" for t
      using IH(3,4) that glt [OF m] by (auto simp: step nth_list_update lessThan_Suc)
    moreover have "kc_v_heads (F m kcm) = kc_v_heads kc" if one: "kc_n_stream kc = 1"
    proof -
      have "?t = 0" "?k = 1" using glt [OF m] one by (simp_all add: slot_seqs_def)
      moreover from this have "m = 0" using m by simp
      ultimately show ?thesis unfolding step using one IH(2) len(3)
        by (cases "kc_v_heads kcm"; cases "kc_v_heads kc") auto
    qed
    moreover have "same_frame kc (F m kcm)" using IH(1) by (simp add: step same_frame_def)
    ultimately show ?case using IH(2,3) by (simp add: kcm_def [symmetric]) (simp add: step)
  qed
  have kc3: "kc3 = fold F [0..<?k] kc2" by (simp add: kc3_def restore_state_def F_def saved_state_def k)
  have "kc_v_cells kc3 = kc_v_cells kc"
    using inv [OF order_refl] len(2) other_streams_same [OF wf si pl] unfolding kc3 by (intro nth_equalityI) auto
  moreover have "0 < ?k" using ub by (simp add: ubatch_ok_def)
  ultimately show ?thesis using inv [OF order_refl] unfolding kc3 by simp
qed

subsection \<open>The loop\<close>

lemma frame_ubatch:
  assumes "same_frame kc kc'"
  shows "slot_seqs kc' ub = slot_seqs kc ub" "slot_tokens kc' ub = slot_tokens kc ub" "group_strm kc' ub = group_strm kc ub"
    "ubatch_ok kc' ub = ubatch_ok kc ub"
proof -
  note f = same_frame_fields [OF assms]
  show a: "slot_seqs kc' ub = slot_seqs kc ub" "slot_tokens kc' ub = slot_tokens kc ub" "group_strm kc' ub = group_strm kc ub"
    by (simp_all add: slot_seqs_def slot_tokens_def group_strm_def [abs_def] f)
  show "ubatch_ok kc' ub = ubatch_ok kc ub" unfolding ubatch_ok_def a f ..
qed

definition n_free :: "kv_cache \<Rightarrow> nat" where
  "n_free kc = card {i. i < cells_size (kc_v_cells kc ! 0) \<and> cells_is_empty (kc_v_cells kc ! 0) i}"

lemma empty_cells_stream:
  assumes wf: "kv_wf n kc" and t: "t < kc_n_stream kc"
  shows "{i. i < cells_size (kc_v_cells kc ! t) \<and> cells_is_empty (kc_v_cells kc ! t) i} = {i. i < n \<and> k_pos (stream kc t ! i) = -1}"
proof -
  obtain b where b: "kc_v_cells kc ! t = mk_cells (stream kc t) b" "length (stream kc t) = n" using stream_cells [OF wf t] by blast
  have "cells_is_empty (kc_v_cells kc ! t) i \<longleftrightarrow> k_pos (stream kc t ! i) = -1" if "i < n" for i
    using cells_is_empty_mk [of i "stream kc t" b] that b by metis
  then show ?thesis using b(2) by auto
qed

text \<open>With one stream, placing a ubatch takes as many free cells as it has tokens.\<close>

lemma n_free_placed:
  assumes wf: "kv_wf n kc" and ub: "ubatch_ok kc ub" and si: "slot_ok n kc ub si" and none: "kc_swa_type kc = LLAMA_SWA_TYPE_NONE"
    and pl: "placed n kc si ub (slot_tokens kc ub) (slot_pairs kc ub) kc1" and one: "kc_n_stream kc = 1"
  shows "n_free kc = n_free kc1 + ub_n_tokens ub"
proof -
  let ?ix = "si_idxs si ! 0" and ?E = "\<lambda>kc. {i. i < n \<and> k_pos (stream kc 0 ! i) = -1}"
  have seqs: "slot_seqs kc ub = 1" "slot_tokens kc ub = ub_n_tokens ub" using one by (simp_all add: slot_seqs_def slot_tokens_def)
  have g: "group_strm kc ub 0 = 0" using ub strm_less [OF wf] one seqs by (force simp: ubatch_ok_def group_strm_def)
  have wf1: "kv_wf n kc1" "kc_n_stream kc1 = 1" using pl one same_frame_fields(2) by (auto simp: placed_def)
  have ix: "length ?ix = ub_n_tokens ub" "distinct ?ix" using si seqs by (simp_all add: slot_ok_def)
  have old: "i < n \<and> stream kc 0 ! i = cell_empty" if "i \<in> set ?ix" for i
    using old_cell_empty [OF wf ub si none _ that] seqs g by simp
  have new: "k_pos (stream kc1 0 ! i) \<noteq> -1" if i: "i \<in> set ?ix" for i
  proof -
    obtain ii where ii: "ii < ub_n_tokens ub" "i = ?ix ! ii" using i ix by (auto simp: in_set_conv_nth)
    have x: "(0, ii) \<in> set (slot_pairs kc ub)" using ii seqs by simp
    have "stream kc1 0 ! i = token_cell (kc_hparams kc) ub ii"
      using placed_token [OF pl x] slot_cell_eq [OF si, of 0 ii] seqs g ii by simp
    moreover have "0 \<le> ub_pos ub ! ii" using slot_pair_ok [OF wf ub si x] by (simp add: pair_ok_def Let_def split: prod.splits)
    ultimately show ?thesis by (simp add: token_cell_def)
  qed
  have rest: "stream kc1 0 ! i = stream kc 0 ! i" if "i < n" "i \<notin> set ?ix" for i
  proof -
    have "(0, i) \<notin> slot_cell si ` set (slot_pairs kc ub)"
      using that slot_cell_eq [OF si] seqs ix(1) by auto
    then show ?thesis using pl one that by (simp add: placed_def)
  qed
  have "i \<in> ?E kc \<longleftrightarrow> i \<in> ?E kc1 \<union> set ?ix" for i
    using old [of i] new [of i] rest [of i] by (cases "i \<in> set ?ix"; cases "i < n") (simp_all del: cells_list_nth)
  then have "?E kc = ?E kc1 \<union> set ?ix" by blast
  moreover have "?E kc1 \<inter> set ?ix = {}" using new by auto
  ultimately have "card (?E kc) = card (?E kc1) + card (set ?ix)" by (simp add: card_Un_disjoint)
  then show ?thesis using ix distinct_card [OF ix(2)] empty_cells_stream [OF wf, of 0] empty_cells_stream [OF wf1(1), of 0] one wf1(2)
    by (simp add: n_free_def)
qed

lemma prepare_loop_spec:
  assumes "kv_wf n kc" "kc_other kc = None" "kc_swa_type kc = LLAMA_SWA_TYPE_NONE" "\<forall>ub \<in> set ubs. ubatch_ok kc ub"
  shows "\<exists>ok sis states kc'. prepare_loop ubs kc = Inr (ok, sis, states, kc')
    \<and> (let kc'' = fold restore_state (rev states) kc' in same_frame kc kc'' \<and> kc_v_cells kc'' = kc_v_cells kc
         \<and> length (kc_v_heads kc'') = kc_n_stream kc \<and> (kc_n_stream kc = 1 \<longrightarrow> kc_v_heads kc'' = kc_v_heads kc))
    \<and> (ok \<longrightarrow> length sis = length ubs \<and> length states = length ubs \<and> fold_res (\<lambda>(si, ub). apply_ubatch si ub) (zip sis ubs) kc = Inr kc' \<and> kv_wf n kc')
    \<and> (kc_n_stream kc = 1 \<longrightarrow> (ok \<longleftrightarrow> (\<Sum>ub\<leftarrow>ubs. ub_n_tokens ub) \<le> n_free kc))"
  using assms
proof (induction ubs arbitrary: kc)
  case Nil
  then show ?case using kv_wf_lengths [OF Nil(1)] by (intro exI [of _ True]) simp
next
  case (Cons ub ubs)
  have ub: "ubatch_ok kc ub" using Cons.prems by simp
  obtain si where si: "find_slot kc ub False = Inr si"
    "slot_empty si \<longleftrightarrow> (\<exists>s < slot_seqs kc ub. n_usable kc (group_strm kc ub s) < slot_tokens kc ub)"
    "\<not> slot_empty si \<longrightarrow> slot_ok n kc ub si"
    using find_slot_spec [OF Cons.prems(1) ub] by blast
  have emp1: "slot_empty si \<longleftrightarrow> n_free kc < ub_n_tokens ub" if one: "kc_n_stream kc = 1"
  proof -
    have g: "slot_seqs kc ub = 1" "slot_tokens kc ub = ub_n_tokens ub" "group_strm kc ub 0 = 0"
      using ub strm_less [OF Cons.prems(1)] one by (force simp: ubatch_ok_def group_strm_def slot_seqs_def slot_tokens_def)+
    then show ?thesis using si(2) usable_iff_empty [OF Cons.prems(3)] by (simp add: n_usable_def n_free_def)
  qed
  show ?case
  proof (cases "slot_empty si")
    case True
    then show ?thesis using si(1) emp1 kv_wf_lengths [OF Cons.prems(1)] by (intro exI [of _ False]) auto
  next
    case False
    then have sok: "slot_ok n kc ub si" using si(3) by simp
    obtain kc1 where app: "apply_ubatch si ub kc = Inr kc1" "kv_wf n kc1" "same_frame kc kc1"
      and ex: "\<exists>kcp. placed n kc si ub (slot_tokens kc ub) (slot_pairs kc ub) kcp \<and> kc1 = kcp\<lparr>kc_v_heads := slot_heads si (kc_v_heads kc)\<rparr>"
      using apply_ubatch_spec [OF Cons.prems(1,2) ub sok] no_overwrite [OF Cons.prems(1) ub sok Cons.prems(3)] by blast
    obtain kcp where pl: "placed n kc si ub (slot_tokens kc ub) (slot_pairs kc ub) kcp"
      and kc1: "kc1 = kcp\<lparr>kc_v_heads := slot_heads si (kc_v_heads kc)\<rparr>" using ex by blast
    note fields = same_frame_fields [OF app(3)]
    obtain ok sis states kc' where IH: "prepare_loop ubs kc1 = Inr (ok, sis, states, kc')"
      "same_frame kc1 (fold restore_state (rev states) kc')" "kc_v_cells (fold restore_state (rev states) kc') = kc_v_cells kc1"
      "length (kc_v_heads (fold restore_state (rev states) kc')) = kc_n_stream kc1"
      "ok \<longrightarrow> length sis = length ubs \<and> length states = length ubs \<and> fold_res (\<lambda>(si, ub). apply_ubatch si ub) (zip sis ubs) kc1 = Inr kc' \<and> kv_wf n kc'"
      "kc_n_stream kc1 = 1 \<longrightarrow> (ok \<longleftrightarrow> (\<Sum>ub\<leftarrow>ubs. ub_n_tokens ub) \<le> n_free kc1)"
      using Cons.IH [OF app(2)] Cons.prems(2,3,4) fields frame_ubatch(4) [OF app(3)] by (auto simp: Let_def)
    have res: "prepare_loop (ub # ubs) kc = Inr (ok, si # sis, saved_state kc si # states, kc')"
      using si(1) False app(1) IH(1) by (simp add: saved_state_def Let_def)
    have cells: "kc_v_cells kc1 = kc_v_cells kcp" by (simp add: kc1)
    note rs = restore_state_cells [OF Cons.prems(1) ub sok Cons.prems(3) pl same_frame_trans [OF app(3) IH(2)] IH(3) [unfolded cells] IH(4) [unfolded fields]]
    have free: "n_free kc = n_free kc1 + ub_n_tokens ub" if "kc_n_stream kc = 1"
      using n_free_placed [OF Cons.prems(1) ub sok Cons.prems(3) pl that] cells by (simp add: n_free_def)
    have cnt: "kc_n_stream kc = 1 \<longrightarrow> (ok \<longleftrightarrow> (\<Sum>ub\<leftarrow>ub # ubs. ub_n_tokens ub) \<le> n_free kc)"
      using free IH(6) fields(2) by auto
    show ?thesis
      by (rule exI [of _ ok], rule exI [of _ "si # sis"], rule exI [of _ "saved_state kc si # states"], rule exI [of _ kc'])
        (use res rs cnt IH(5) app(1) in \<open>simp add: Let_def\<close>)
  qed
qed

subsection \<open>Properties\<close>

text \<open>C21. On a well-formed cache and a ubatch the batch allocator could produce, \<open>find_slot\<close> returns (its
  search loop ends and no assertion fails). It fails exactly when some stream has fewer usable cells
  than tokens to place there; otherwise it returns for each group of tokens distinct cells of the
  right stream, one per token, each of which is usable: empty, or held by one sequence at a position
  outside the attention window.\<close>

theorem find_slot_complete:
  assumes "kv_wf n kc" and "ubatch_ok kc ub"
  shows "\<exists>si. find_slot kc ub False = Inr si
    \<and> (slot_empty si \<longleftrightarrow> (\<exists>s < slot_seqs kc ub. n_usable kc (group_strm kc ub s) < slot_tokens kc ub))
    \<and> (\<not> slot_empty si \<longrightarrow> si_strm si = map (group_strm kc ub) [0..<slot_seqs kc ub] \<and> length (si_idxs si) = slot_seqs kc ub
        \<and> (\<forall>s < slot_seqs kc ub. length (si_idxs si ! s) = slot_tokens kc ub \<and> distinct (si_idxs si ! s)
            \<and> (\<forall>i \<in> set (si_idxs si ! s). i < n \<and> cell_usable kc (kc_v_cells kc ! group_strm kc ub s) i)))"
  using find_slot_spec [OF assms] unfolding slot_ok_def .

definition gap_free :: "llama_pos set \<Rightarrow> bool" where
  "gap_free P \<longleftrightarrow> (\<forall>a \<in> P. \<forall>b \<in> P. {a..b} \<subseteq> P)"

text \<open>C22. Placing a ubatch in the slot that \<open>find_slot\<close> returned succeeds, keeps the invariant, and gives
  each sequence its old positions and those of its new tokens, above the greatest position of it that
  was overwritten. So a sequence that held a gap-free range of positions, and whose new tokens continue
  it, holds a gap-free range afterwards, also when a sliding-window cache reuses its old cells.\<close>

theorem apply_ubatch_keeps_ranges:
  assumes "kv_wf n kc" and "kc_other kc = None" and "ubatch_ok kc ub" and "find_slot kc ub False = Inr si" and "\<not> slot_empty si"
  shows "\<exists>kc'. apply_ubatch si ub kc = Inr kc' \<and> kv_wf n kc'
    \<and> (\<forall>q. seq_in_range kc q \<longrightarrow>
        kv_positions kc' q = {p \<in> kv_positions kc q \<union> new_positions ub q. purge_bound (overwritten kc si (slot_pairs kc ub) q) < p}
        \<and> (gap_free (kv_positions kc q \<union> new_positions ub q) \<longrightarrow> gap_free (kv_positions kc' q)))"
proof -
  have "slot_ok n kc ub si" using find_slot_spec [OF assms(1,3)] assms(4,5) by auto
  from apply_ubatch_spec [OF assms(1-3) this] obtain kc' where kc': "apply_ubatch si ub kc = Inr kc'" "kv_wf n kc'"
    "\<And>q. seq_in_range kc q \<Longrightarrow> kv_positions kc' q = {p \<in> kv_positions kc q \<union> new_positions ub q. purge_bound (overwritten kc si (slot_pairs kc ub) q) < p}"
    by blast
  have gf: "gap_free P \<Longrightarrow> gap_free {p \<in> P. B < p}" for P B by (force simp: gap_free_def)
  have "gap_free (kv_positions kc' q)" if "seq_in_range kc q" "gap_free (kv_positions kc q \<union> new_positions ub q)" for q
    unfolding kc'(3) [OF that(1)] by (rule gf [OF that(2)])
  then show ?thesis using kc' by blast
qed

lemma prepare_spec:
  assumes "kv_wf n kc" and "kc_other kc = None" and "kc_swa_type kc = LLAMA_SWA_TYPE_NONE" and "kc_n_stream kc = 1"
    and "\<forall>ub \<in> set ubs. ubatch_ok kc ub" and "ubs \<noteq> []"
  shows "\<exists>sis. prepare ubs kc = Inr (sis, kc) \<and> (sis \<noteq> [] \<longleftrightarrow> (\<Sum>ub\<leftarrow>ubs. ub_n_tokens ub) \<le> n_free kc)
    \<and> (sis \<noteq> [] \<longrightarrow> length sis = length ubs
        \<and> (\<exists>kc'. fold_res (\<lambda>(si, ub). apply_ubatch si ub) (zip sis ubs) kc = Inr kc' \<and> kv_wf n kc'))"
proof -
  obtain ok sis states kc' where p: "prepare_loop ubs kc = Inr (ok, sis, states, kc')"
    and r: "same_frame kc (fold restore_state (rev states) kc')" "kc_v_cells (fold restore_state (rev states) kc') = kc_v_cells kc"
      "kc_v_heads (fold restore_state (rev states) kc') = kc_v_heads kc"
    and ok: "ok \<longrightarrow> length sis = length ubs \<and> length states = length ubs \<and> fold_res (\<lambda>(si, ub). apply_ubatch si ub) (zip sis ubs) kc = Inr kc' \<and> kv_wf n kc'"
      "ok \<longleftrightarrow> (\<Sum>ub\<leftarrow>ubs. ub_n_tokens ub) \<le> n_free kc"
    using prepare_loop_spec [OF assms(1-3,5)] assms(4) by (auto simp: Let_def)
  have "fold restore_state (rev states) kc' = kc" using same_frame_eqI [OF r] .
  moreover have "ok \<longrightarrow> states \<noteq> [] \<and> sis \<noteq> []" using ok(1) assms(6) by (metis length_0_conv)
  ultimately have "prepare ubs kc = Inr (if ok then sis else [], kc)" using p by (cases ok) (simp_all add: prepare_def)
  then show ?thesis using ok \<open>ok \<longrightarrow> states \<noteq> [] \<and> sis \<noteq> []\<close> by (cases ok) auto
qed

text \<open>C23. On a cache with one stream and no sliding window, \<open>prepare\<close> leaves the cache exactly as it was,
  and it finds slots for all ubatches if and only if their tokens fit into the free cells. The slots it
  returns are the ones under which placing the ubatches one after the other succeeds.\<close>

theorem prepare_restores_and_decides:
  assumes "kv_wf n kc" and "kc_other kc = None" and "kc_swa_type kc = LLAMA_SWA_TYPE_NONE" and "kc_n_stream kc = 1"
    and "\<forall>ub \<in> set ubs. ubatch_ok kc ub" and "ubs \<noteq> []"
  shows "\<exists>sis. prepare ubs kc = Inr (sis, kc) \<and> (sis \<noteq> [] \<longleftrightarrow> (\<Sum>ub\<leftarrow>ubs. ub_n_tokens ub) \<le> n_free kc)
    \<and> (sis \<noteq> [] \<longrightarrow> length sis = length ubs
        \<and> (\<exists>kc'. fold_res (\<lambda>(si, ub). apply_ubatch si ub) (zip sis ubs) kc = Inr kc' \<and> kv_wf n kc'))"
  by (rule prepare_spec [OF assms])

subsection \<open>A concrete ubatch\<close>

text \<open>An empty cache of one stream with three cells, and a ubatch of two tokens of sequence 0.\<close>

definition demo_empty :: kv_cache where
  "demo_empty = projr (kv_cache_new demo_hparams False True 3 2 1 0 LLAMA_SWA_TYPE_NONE)"

definition demo_ubatch :: llama_ubatch where
  "demo_ubatch = ubatch_null\<lparr>ub_n_tokens := 2, ub_n_seq_tokens := 1, ub_n_seqs := 2, ub_n_seqs_unq := 1, ub_n_pos := 1,
     ub_token := Some [11, 12], ub_pos := [0, 1], ub_n_seq_id := [1, 1], ub_seq_id := [[0], [0]], ub_seq_id_unq := [0]\<rparr>"

lemma demo_empty_eq:
  "kv_cache_new demo_hparams False True 3 2 1 0 LLAMA_SWA_TYPE_NONE = Inr demo_empty"
  by (simp add: demo_empty_def kv_cache_new_def)

lemma demo_empty_facts:
  "kv_wf 3 demo_empty" "kc_other demo_empty = None" "kc_n_stream demo_empty = 1" "kc_swa_type demo_empty = LLAMA_SWA_TYPE_NONE"
  "kc_v_cells demo_empty = [mk_cells [cell_empty, cell_empty, cell_empty] False]" "seq_in_range demo_empty 0" "strm demo_empty 0 = 0"
proof -
  show "kv_wf 3 demo_empty" "kc_other demo_empty = None" using kv_cache_new_wf [OF demo_empty_eq] by (simp_all add: LLAMA_MAX_SEQ_def)
  show "kc_n_stream demo_empty = 1" "kc_swa_type demo_empty = LLAMA_SWA_TYPE_NONE" "seq_in_range demo_empty 0" "strm demo_empty 0 = 0"
    by (simp_all add: demo_empty_def kv_cache_new_def seq_in_range_def strm_def LLAMA_MAX_SEQ_def)
  show "kc_v_cells demo_empty = [mk_cells [cell_empty, cell_empty, cell_empty] False]"
    by (simp add: demo_empty_def kv_cache_new_def cells_resize_new numeral_3_eq_3)
qed

lemma demo_ubatch_ok: "ubatch_ok demo_empty demo_ubatch" "slot_seqs demo_empty demo_ubatch = 1" "slot_tokens demo_empty demo_ubatch = 2"
  "group_strm demo_empty demo_ubatch 0 = 0"
proof -
  show k: "slot_seqs demo_empty demo_ubatch = 1" "slot_tokens demo_empty demo_ubatch = 2" "group_strm demo_empty demo_ubatch 0 = 0"
    by (simp_all add: slot_seqs_def slot_tokens_def group_strm_def demo_empty_facts demo_ubatch_def)
  show "ubatch_ok demo_empty demo_ubatch" unfolding ubatch_ok_def k
    by (auto simp: demo_ubatch_def demo_empty_facts less_2_cases_iff ub_tok_seqs_def stream_seqs_def group_strm_def)
qed

lemma demo_all_free: "n_free demo_empty = 3" "n_usable demo_empty 0 = 3"
proof -
  have "{i. i < 3 \<and> cells_is_empty (mk_cells [cell_empty, cell_empty, cell_empty] False) i} = {..<3}"
    by (auto simp: cells_is_empty_mk less_Suc_eq numeral_3_eq_3)
  then show "n_free demo_empty = 3" "n_usable demo_empty 0 = 3"
    by (simp_all add: n_free_def n_usable_def demo_empty_facts usable_iff_empty numeral_3_eq_3)
qed

theorem find_slot_complete_witness:
  "\<exists>si. find_slot demo_empty demo_ubatch False = Inr si \<and> \<not> slot_empty si \<and> length (si_idxs si ! 0) = 2 \<and> distinct (si_idxs si ! 0)"
  using find_slot_complete [OF demo_empty_facts(1) demo_ubatch_ok(1)] by (auto simp: demo_ubatch_ok demo_all_free)

lemma demo_new_positions: "new_positions demo_ubatch 0 = {0, 1}"
proof -
  have "i < 2 \<Longrightarrow> 0 \<in> set (ub_tok_seqs demo_ubatch i)" for i
    by (auto simp: ub_tok_seqs_def demo_ubatch_def less_2_cases_iff)
  then have "new_positions demo_ubatch 0 = (\<lambda>i. [0, 1] ! i) ` {i. i < 2}"
    by (auto simp: new_positions_def demo_ubatch_def)
  also have "{i. i < 2} = {0, 1 :: nat}" by auto
  finally show ?thesis by simp
qed

lemma demo_no_positions: "kv_positions demo_empty 0 = {}"
  by (simp add: kv_positions_def demo_empty_facts seq_positions_Cons)

theorem apply_ubatch_keeps_ranges_witness:
  "\<exists>si kc'. find_slot demo_empty demo_ubatch False = Inr si \<and> apply_ubatch si demo_ubatch demo_empty = Inr kc' \<and> kv_positions kc' 0 = {0, 1}"
proof -
  obtain si where si: "find_slot demo_empty demo_ubatch False = Inr si" "\<not> slot_empty si" "slot_ok 3 demo_empty demo_ubatch si"
    using find_slot_spec [OF demo_empty_facts(1) demo_ubatch_ok(1)] by (auto simp: demo_ubatch_ok demo_all_free)
  have B: "overwritten demo_empty si (slot_pairs demo_empty demo_ubatch) 0 = {}"
    by (rule no_overwrite [OF demo_empty_facts(1) demo_ubatch_ok(1) si(3) demo_empty_facts(4)])
  have "{p \<in> {} \<union> {0, 1 :: int}. purge_bound {} < p} = {0, 1}" by auto
  then show ?thesis
    using apply_ubatch_keeps_ranges [OF demo_empty_facts(1,2) demo_ubatch_ok(1) si(1,2)] si(1) demo_empty_facts(6)
    by (metis demo_new_positions demo_no_positions B)
qed

theorem prepare_restores_and_decides_witness:
  "\<exists>sis. prepare [demo_ubatch] demo_empty = Inr (sis, demo_empty) \<and> sis \<noteq> []"
  using prepare_restores_and_decides [OF demo_empty_facts(1,2,4,3), of "[demo_ubatch]"]
  by (auto simp: demo_ubatch_ok(1) demo_all_free(1)) (auto simp: demo_ubatch_def)

end
