(* ===== verification/KV_Restore.thy ===== *)
theory KV_Restore
  imports KV_Prepare
begin

section \<open>Trying out a batch keeps the invariant\<close>

text \<open>
  \<open>prepare\<close> on any cache, with several streams and with a sliding window: the cells it restores are not always all cells it changed, but the result is well formed. The
  cells of a slot have no pending shift once a ubatch has been placed in them, and nothing that \<open>prepare\<close> does gives a cell a shift, so \<open>set\<close> is used as its assertion demands.
\<close>

definition unshifted :: "kv_cache \<Rightarrow> nat \<Rightarrow> nat \<Rightarrow> bool" where
  "unshifted kc t i \<longleftrightarrow> c_shift (kc_v_cells kc ! t) ! i = shift_zero"

lemma unshifted_stream: "kv_wf n kc \<Longrightarrow> t < kc_n_stream kc \<Longrightarrow> i < n \<Longrightarrow> unshifted kc t i \<longleftrightarrow> k_shift (stream kc t ! i) = shift_zero"
  using kv_wf_stream [of n kc t] by (simp add: unshifted_def stream_ok_def cell_at_def)

subsection \<open>Placing\<close>

lemma seq_rm_unshifted:
  assumes "kv_wf n kc" "kc_other kc = None" "seq_in_range kc s" "kv_seq_rm s p0 p1 kc = Inr (r, kc')"
  shows "kv_wf n kc' \<and> same_frame kc kc' \<and> (\<forall>t < kc_n_stream kc. \<forall>i < n. unshifted kc t i \<longrightarrow> unshifted kc' t i)"
proof -
  let ?st = "strm kc s" and ?f = "cell_seq_rm s (range_lo p0) (range_hi p1)"
  have st: "?st < kc_n_stream kc" using strm_less [OF assms(1,3)] .
  have wf': "kv_wf n kc'" using kv_seq_rm_run [OF assms(1-3), of p0 p1] assms(4) by auto
  have fr: "same_frame kc kc'" using assms(3) by (intro kv_seq_rm_frame [OF assms(4)]) (simp add: seq_in_range_def)
  have sub: "k_seq (?f k) \<subseteq> stream_seqs kc ?st" if "k \<in> set (stream kc ?st)" for k
    using stream_k_seq [OF assms(1) st that] by (auto simp: cell_seq_rm_seq)
  have kc': "kc' = run_stream (seq_rm_step s (range_lo p0) (range_hi p1)) ?st kc"
    using assms(2-4) by (simp add: kv_seq_rm_def seq_in_range_def Let_def)
  have v: "stream kc' t = (if t = ?st then map ?f (stream kc ?st) else stream kc t)" for t
    unfolding kc' by (rule seq_rm.run_stream_wf(2) [OF assms(1) st]) (use sub in auto)
  have "unshifted kc' t i" if "t < kc_n_stream kc" "i < n" "unshifted kc t i" for t i
  proof -
    have l: "length (stream kc t) = n" using stream_cells [OF assms(1) that(1)] by metis
    have u: "k_shift (stream kc t ! i) = shift_zero" using unshifted_stream [OF assms(1) that(1,2)] that(3) by simp
    have "k_shift (?f k) = shift_zero" if "k_shift k = shift_zero" for k using that by (simp add: cell_seq_rm_def)
    then have "k_shift (stream kc' t ! i) = shift_zero" using u l that(2) unfolding v by (cases "t = ?st") (simp_all del: cells_list_nth)
    then show ?thesis using unshifted_stream [OF wf', of t i] that same_frame_fields(2) [OF fr] by simp
  qed
  then show ?thesis using wf' fr by blast
qed

lemma purge_unshifted:
  assumes "kv_wf n kc" "kc_other kc = None" "purge_seq rm s kc = Inr kc'"
  shows "kv_wf n kc' \<and> same_frame kc kc' \<and> (\<forall>t < kc_n_stream kc. \<forall>i < n. unshifted kc t i \<longrightarrow> unshifted kc' t i)"
proof (cases "kc' = kc")
  case False
  then obtain r p0 p1 where "kv_seq_rm (int s) p0 p1 kc = Inr (r, kc')" "s < length (kc_seq_to_stream kc)"
    using assms(3) by (auto simp: purge_seq_def res_Inr_iffs Let_def split: if_splits)
  then show ?thesis using seq_rm_unshifted [OF assms(1,2), of "int s"] by (simp add: seq_in_range_def)
qed (use assms(1) in simp)

lemma purges_unshifted:
  assumes "kv_wf n kc" "kc_other kc = None" "fold_res (purge_seq rm) ss kc = Inr kc'"
  shows "kv_wf n kc' \<and> same_frame kc kc' \<and> (\<forall>t < kc_n_stream kc. \<forall>i < n. unshifted kc t i \<longrightarrow> unshifted kc' t i)"
  using assms
proof (induction ss arbitrary: kc)
  case (Cons s ss)
  then obtain kc1 where k: "purge_seq rm s kc = Inr kc1" "fold_res (purge_seq rm) ss kc1 = Inr kc'" by (auto simp: bind_res_Inr_iff)
  note p = purge_unshifted [OF Cons.prems(1,2) k(1)]
  then have f: "kc_other kc1 = None" "kc_n_stream kc1 = kc_n_stream kc" using same_frame_fields [of kc kc1] Cons.prems(2) by auto
  then show ?case using Cons.IH [OF _ f(1) k(2)] p same_frame_trans [of kc kc1 kc'] by auto
qed simp

lemma apply_unshifted:
  assumes wf: "kv_wf n kc" and o: "kc_other kc = None" and ub: "ubatch_ok kc ub" and si: "slot_ok n kc ub si" and app: "apply_ubatch si ub kc = Inr kc'"
    and t: "t < kc_n_stream kc" "i < n" and u: "unshifted kc t i \<or> (\<exists>s < slot_seqs kc ub. t = group_strm kc ub s \<and> i \<in> set (si_idxs si ! s))"
  shows "unshifted kc' t i"
proof -
  let ?m = "slot_tokens kc ub" and ?qs = "slot_pairs kc ub" and ?r = "replicate LLAMA_MAX_SEQ (-1)"
  have pok: "\<forall>x \<in> set ?qs. pair_ok n kc si ub ?m x" using slot_pair_ok [OF wf ub si] by blast
  obtain kc1 rm where kc1: "fold (\<lambda>(s, ii). apply_token si ub ?m s ii) ?qs (kc, ?r) = (kc1, rm)" and pl: "placed n kc si ub ?m ?qs kc1"
    using token_loop [OF wf pok slot_cells_distinct [OF ub si]] by blast
  have fr1: "same_frame kc kc1" and wf1: "kv_wf n kc1" using pl by (simp_all add: placed_def)
  have n: "fold (\<lambda>s. fold (apply_token si ub ?m s) [0..<?m]) [0..<slot_seqs kc ub] (kc, ?r) = (kc1, rm)"
    using kc1 fold_nested_product [of "\<lambda>(s, ii). apply_token si ub ?m s ii"] by (simp add: slot_pairs_def)
  obtain kc2 where kc2: "fold_res (purge_seq rm) [0..<LLAMA_MAX_SEQ] kc1 = Inr kc2" "kc_v_cells kc' = kc_v_cells kc2"
    using app o slot_size_ok [OF ub si] n by (auto simp: apply_ubatch_def fold_heads res_Inr_iffs)
  have t1: "t < kc_n_stream kc1" "kc_other kc1 = None" using t(1) o same_frame_fields [OF fr1] by simp_all
  have "unshifted kc1 t i"
  proof (cases "(t, i) \<in> slot_cell si ` set ?qs")
    case True
    then obtain x where x: "x \<in> set ?qs" "slot_cell si x = (t, i)" by auto
    then have "stream kc1 t ! i = token_cell (kc_hparams kc) ub (fst x * ?m + snd x)" using placed_token [OF pl x(1)] by simp
    then show ?thesis using unshifted_stream [OF wf1 t1(1) t(2)] by (simp add: token_cell_def)
  next
    case False
    have "\<not> (\<exists>s < slot_seqs kc ub. t = group_strm kc ub s \<and> i \<in> set (si_idxs si ! s))"
    proof
      assume "\<exists>s < slot_seqs kc ub. t = group_strm kc ub s \<and> i \<in> set (si_idxs si ! s)"
      then obtain s where s: "s < slot_seqs kc ub" "t = group_strm kc ub s" "i \<in> set (si_idxs si ! s)" by blast
      then obtain ii where ii: "ii < ?m" "i = si_idxs si ! s ! ii" using si by (auto simp: in_set_conv_nth slot_ok_def)
      then have "slot_cell si (s, ii) = (t, i)" "(s, ii) \<in> set ?qs" using slot_cell_eq [OF si s(1)] s by simp_all
      then show False using False by (metis imageI)
    qed
    then have "k_shift (stream kc t ! i) = shift_zero" using u unshifted_stream [OF wf t] by blast
    moreover have "stream kc1 t ! i = stream kc t ! i" using pl False t by (simp add: placed_def)
    ultimately show ?thesis using unshifted_stream [OF wf1 t1(1) t(2)] by metis
  qed
  then have "unshifted kc2 t i" using purges_unshifted [OF wf1 t1(2) kc2(1)] t1(1) t(2) by blast
  then show ?thesis using kc2(2) by (simp add: unshifted_def)
qed

subsection \<open>Restoring\<close>

lemma restore_step_wf:
  assumes wf: "kv_wf n kc" and wf0: "kv_wf n kc0" and fr: "same_frame kc0 kc" and t: "t < kc_n_stream kc" and h: "h \<le> n"
    and ix: "\<forall>i \<in> set ix. i < n \<and> unshifted kc t i"
  defines "kc' \<equiv> set_stream t (cells_set ix (cells_cp (kc_v_cells kc0 ! t) ix) (kc_v_cells kc ! t)) h kc"
  shows "kv_wf n kc' \<and> same_frame kc0 kc' \<and> (\<forall>u i. unshifted kc' u i \<longleftrightarrow> unshifted kc u i)"
proof -
  let ?c = "kc_v_cells kc ! t" and ?o = "cells_cp (kc_v_cells kc0 ! t) ix"
  note f = same_frame_fields [OF fr]
  have t0: "t < kc_n_stream kc0" using t f(2) by simp
  have c: "cells_wf ?c" "cells_size ?c = n" using kv_wf_stream [OF wf t] by (simp_all add: stream_ok_def)
  have c0: "cells_wf (kc_v_cells kc0 ! t)" "cells_size (kc_v_cells kc0 ! t) = n" using kv_wf_stream [OF wf0 t0] by (simp_all add: stream_ok_def)
  have s: "cells_wf (cells_set ix ?o ?c)" "cells_size (cells_set ix ?o ?c) = n" "c_shift (cells_set ix ?o ?c) = c_shift ?c"
    using cells_set_wf [OF c(1) c0(1), of ix ix] ix c(2) c0(2) by (simp_all add: unshifted_def shift_is_zero_def get_shift_ext_def)
  have l: "length (c_seq c) = cells_size c" if "cells_wf c" for c using that by (auto elim!: cells_wfE)
  have q: "S \<subseteq> stream_seqs kc t" if "S \<in> set (c_seq (kc_v_cells x ! t))" "kv_wf n x" "stream_seqs x = stream_seqs kc" "t < kc_n_stream x" for S x
  proof -
    have o: "cells_wf (kc_v_cells x ! t)" "cells_size (kc_v_cells x ! t) = n" using kv_wf_stream [OF that(2,4)] by (simp_all add: stream_ok_def)
    note S = that(1)
    obtain i where i: "i < n" "S = c_seq (kc_v_cells x ! t) ! i" using S l [OF o(1)] o(2) by (auto simp: in_set_conv_nth)
    have "stream x t ! i \<in> set (stream x t)" using i(1) o(2) by (intro nth_mem) simp
    then have "k_seq (stream x t ! i) \<subseteq> stream_seqs kc t" using stream_k_seq [OF that(2,4)] that(3) by simp
    then show ?thesis using i o(2) by (simp add: cell_at_def)
  qed
  have "S \<subseteq> stream_seqs kc t" if "S \<in> set (c_seq (cells_set ix ?o ?c))" for S
  proof -
    have "S \<in> set (c_seq ?c) \<or> S \<in> set (c_seq ?o)" using cells_set_seqs [of ?o ix ?c] that by (auto simp: cells_cp_sel)
    moreover have "set (c_seq ?o) \<subseteq> set (c_seq (kc_v_cells kc0 ! t))" using ix l [OF c0(1)] c0(2) by (auto simp: cells_cp_sel)
    ultimately show ?thesis using q [OF _ wf _ t] q [OF _ wf0 _ t0] f(9) by auto
  qed
  note seqs = this
  have "k_seq k \<subseteq> stream_seqs kc t" if "k \<in> set (cells_list (cells_set ix ?o ?c))" for k
  proof -
    obtain i where "i < cells_size (cells_set ix ?o ?c)" "k = cell_at (cells_set ix ?o ?c) i" using \<open>k \<in> _\<close> by (auto simp: cells_list_def)
    then show ?thesis using seqs [of "c_seq (cells_set ix ?o ?c) ! i"] l [OF s(1)] by (simp add: cell_at_def)
  qed
  then have "kv_wf n kc'" unfolding kc'_def by (intro set_stream_wf [OF wf t]) (use s h in auto)
  moreover have "t < length (kc_v_cells kc)" using kv_wf_lengths [OF wf] t by simp
  ultimately show ?thesis using fr s(3) by (auto simp: kc'_def unshifted_def same_frame_def nth_list_update)
qed

lemma slot_seqs_le: "kv_wf n kc \<Longrightarrow> ubatch_ok kc ub \<Longrightarrow> slot_seqs kc ub \<le> kc_n_stream kc"
proof -
  assume wf: "kv_wf n kc" and ub: "ubatch_ok kc ub"
  have "group_strm kc ub ` {..<slot_seqs kc ub} \<subseteq> {..<kc_n_stream kc}" using ub strm_less [OF wf] by (auto simp: ubatch_ok_def group_strm_def)
  moreover have "inj_on (group_strm kc ub) {..<slot_seqs kc ub}" using group_strm_inj [OF ub] by (auto simp: inj_on_def)
  ultimately show ?thesis using card_inj_on_le [of "group_strm kc ub" "{..<slot_seqs kc ub}" "{..<kc_n_stream kc}"] by simp
qed

lemma restore_state_wf:
  assumes wf0: "kv_wf n kc0" and ub: "ubatch_ok kc0 ub" and si: "slot_ok n kc0 ub si" and wf: "kv_wf n kc" and fr: "same_frame kc0 kc"
    and z: "\<And>s i. s < slot_seqs kc0 ub \<Longrightarrow> i \<in> set (si_idxs si ! s) \<Longrightarrow> unshifted kc (group_strm kc0 ub s) i"
  defines "kc' \<equiv> restore_state (saved_state kc0 si) kc"
  shows "kv_wf n kc' \<and> same_frame kc0 kc' \<and> (\<forall>u i. unshifted kc' u i \<longleftrightarrow> unshifted kc u i)"
proof -
  let ?k = "slot_seqs kc0 ub"
  define F where "F = (\<lambda>s x. set_stream (group_strm kc0 ub s) (cells_set (si_idxs si ! s) (cells_cp (kc_v_cells kc0 ! group_strm kc0 ub s) (si_idxs si ! s))
     (kc_v_cells x ! group_strm kc0 ub s)) (kc_v_heads kc0 ! s) x)"
  have k: "slot_n_stream si = ?k" using slot_size_ok [OF ub si] by simp
  have st: "si_strm si ! s = group_strm kc0 ub s" if "s < ?k" for s using si that by (simp add: slot_ok_def)
  have e: "kc' = fold F [0..<?k] kc"
    unfolding kc'_def restore_state_def by (rule fold_cong) (simp_all add: F_def k st saved_state_def Let_def)
  let ?P = "\<lambda>x. kv_wf n x \<and> same_frame kc0 x \<and> (\<forall>u i. unshifted x u i \<longleftrightarrow> unshifted kc u i)"
  have step: "?P (F s x)" if "s < ?k" "?P x" for s x
    unfolding F_def
  proof -
    let ?t = "group_strm kc0 ub s"
    have t: "?t < kc_n_stream kc0" using ub that(1) strm_less [OF wf0] by (simp add: ubatch_ok_def group_strm_def)
    have tx: "?t < kc_n_stream x" using t same_frame_fields(2) [of kc0 x] that(2) by simp
    have "s < kc_n_stream kc0" using slot_seqs_le [OF wf0 ub] that(1) by simp
    then have h: "kc_v_heads kc0 ! s \<le> n" using kv_wf_stream [OF wf0] by (simp add: stream_ok_def)
    have ix: "\<forall>i \<in> set (si_idxs si ! s). i < n \<and> unshifted x ?t i" using si that z by (auto simp: slot_ok_def)
    show "kv_wf n (set_stream ?t (cells_set (si_idxs si ! s) (cells_cp (kc_v_cells kc0 ! ?t) (si_idxs si ! s)) (kc_v_cells x ! ?t)) (kc_v_heads kc0 ! s) x)
      \<and> same_frame kc0 (set_stream ?t (cells_set (si_idxs si ! s) (cells_cp (kc_v_cells kc0 ! ?t) (si_idxs si ! s)) (kc_v_cells x ! ?t)) (kc_v_heads kc0 ! s) x)
      \<and> (\<forall>u i. unshifted (set_stream ?t (cells_set (si_idxs si ! s) (cells_cp (kc_v_cells kc0 ! ?t) (si_idxs si ! s)) (kc_v_cells x ! ?t)) (kc_v_heads kc0 ! s) x) u i
          \<longleftrightarrow> unshifted kc u i)"
      using restore_step_wf [OF _ wf0 _ tx h ix] that(2) by simp
  qed
  have "?P (fold F js kc)" if "set js \<subseteq> {..<?k}" for js
    by (rule fold_invariant [where Q = "\<lambda>s. s < ?k"]) (use that step wf fr in auto)
  then show ?thesis unfolding e by (simp add: lessThan_atLeast0)
qed

lemma prepare_loop_wf:
  assumes "kv_wf n kc" "kc_other kc = None" "\<forall>ub \<in> set ubs. ubatch_ok kc ub" "prepare_loop ubs kc = Inr (ok, sis, states, kc')"
  defines "kc'' \<equiv> fold restore_state (rev states) kc'"
  shows "kv_wf n kc'' \<and> same_frame kc kc'' \<and> (\<forall>t < kc_n_stream kc. \<forall>i < n. unshifted kc t i \<longrightarrow> unshifted kc'' t i)"
  using assms(1-4) unfolding kc''_def
proof (induction ubs arbitrary: kc ok sis states)
  case (Cons ub ubs)
  have ub: "ubatch_ok kc ub" using Cons.prems(3) by simp
  obtain si where si: "find_slot kc ub False = Inr si" "\<not> slot_empty si \<longrightarrow> slot_ok n kc ub si" using find_slot_spec [OF Cons.prems(1) ub] by blast
  show ?case
  proof (cases "slot_empty si")
    case True
    then show ?thesis using Cons.prems(1,4) si(1) by simp
  next
    case False
    then have sok: "slot_ok n kc ub si" using si(2) by simp
    obtain kc1 sis' states' where k: "apply_ubatch si ub kc = Inr kc1" "prepare_loop ubs kc1 = Inr (ok, sis', states', kc')" "states = saved_state kc si # states'"
      using Cons.prems(4) si(1) False by (auto simp: bind_res_Inr_iff saved_state_def Let_def)
    have a: "kv_wf n kc1" "same_frame kc kc1" using apply_ubatch_spec [OF Cons.prems(1,2) ub sok] k(1) by auto
    note f = same_frame_fields [OF a(2)]
    define k2 where "k2 = fold restore_state (rev states') kc'"
    have ih: "kv_wf n k2" "same_frame kc1 k2" "\<And>t i. t < kc_n_stream kc \<Longrightarrow> i < n \<Longrightarrow> unshifted kc1 t i \<Longrightarrow> unshifted k2 t i"
      using Cons.IH [OF a(1) _ _ k(2)] Cons.prems(2,3) f frame_ubatch(4) [OF a(2)] by (simp_all add: k2_def)
    note u = apply_unshifted [OF Cons.prems(1,2) ub sok k(1)]
    have z: "unshifted k2 (group_strm kc ub s) i" if "s < slot_seqs kc ub" "i \<in> set (si_idxs si ! s)" for s i
    proof -
      have t: "group_strm kc ub s < kc_n_stream kc" using ub that(1) strm_less [OF Cons.prems(1)] by (simp add: ubatch_ok_def group_strm_def)
      have "i < n" using sok that by (auto simp: slot_ok_def)
      then show ?thesis using ih(3) [OF t] u [OF t] that by blast
    qed
    note r = restore_state_wf [OF Cons.prems(1) ub sok ih(1) same_frame_trans [OF a(2) ih(2)] z]
    have "fold restore_state (rev states) kc' = restore_state (saved_state kc si) k2" by (simp add: k(3) k2_def)
    then show ?thesis using r ih(3) u by auto
  qed
qed (use assms(1) in simp)

lemma prepare_wf:
  assumes "kv_wf n kc" "kc_other kc = None" "\<forall>ub \<in> set ubs. ubatch_ok kc ub" "prepare ubs kc = Inr (sis, kc')"
  shows "kv_wf n kc' \<and> kc_other kc' = None"
proof -
  obtain ok sis' states kc1 where "prepare_loop ubs kc = Inr (ok, sis', states, kc1)" "kc' = fold restore_state (rev states) kc1"
    using assms(4) by (auto simp: prepare_def res_Inr_iffs Let_def)
  then show ?thesis using prepare_loop_wf [OF assms(1-3)] same_frame_fields(6) [of kc kc'] assms(2) by auto
qed

end
