(* ===== verification/KV_Reach.thy ===== *)
theory KV_Reach
  imports KV_Restore
begin

section \<open>The KV cache as a state machine\<close>

text \<open>
  The states that a cache can reach from its constructor through the operations of the memory
  interface, in any order: \<open>clear\<close>, the five sequence operations, the trial run of \<open>prepare\<close>, placing a
  ubatch, and the updates. The premises of a step are what the caller has to respect (an id in range, a
  positive divisor) and the conditions that the code states as debug assertions, of which the one of \<open>seq_add\<close> on a
  cell matters: a copy inside a stream must not reach a cell that the destination already has.
\<close>

inductive kv_step :: "nat \<Rightarrow> kv_cache \<Rightarrow> kv_cache \<Rightarrow> bool" for n :: nat where
  step_clear: "kv_step n kc (kv_clear kc)"
| step_rm: "s = -1 \<or> seq_in_range kc s \<Longrightarrow> kv_seq_rm s p0 p1 kc = Inr (r, kc') \<Longrightarrow> kv_step n kc kc'"
| step_cp_within: "seq_in_range kc src \<Longrightarrow> seq_in_range kc dst \<Longrightarrow> strm kc src = strm kc dst \<Longrightarrow> src \<noteq> dst
    \<Longrightarrow> \<forall>k \<in> set (stream kc (strm kc src)). src \<in> k_seq k \<and> range_lo p0 \<le> k_pos k \<and> k_pos k < range_hi p1 \<longrightarrow> dst \<notin> k_seq k
    \<Longrightarrow> kv_seq_cp src dst p0 p1 kc = Inr kc' \<Longrightarrow> kv_step n kc kc'"
| step_cp_across: "seq_in_range kc src \<Longrightarrow> seq_in_range kc dst \<Longrightarrow> strm kc src \<noteq> strm kc dst
    \<Longrightarrow> p0 \<le> 0 \<Longrightarrow> p1 \<le> 0 \<or> int n \<le> p1 + 1
    \<Longrightarrow> \<forall>k \<in> set (stream kc (strm kc src)). src \<in> k_seq k \<longrightarrow> 0 \<le> k_pos k - sh_t (k_shift k)
    \<Longrightarrow> kv_seq_cp src dst p0 p1 kc = Inr kc' \<Longrightarrow> kv_step n kc kc'"
| step_keep: "seq_in_range kc s \<Longrightarrow> kv_seq_keep s kc = Inr kc' \<Longrightarrow> kv_step n kc kc'"
| step_add: "seq_in_range kc s \<Longrightarrow> get_can_shift kc \<Longrightarrow> kv_seq_add s p0 p1 d kc = Inr kc' \<Longrightarrow> kv_step n kc kc'"
| step_div: "seq_in_range kc s \<Longrightarrow> 0 < d \<Longrightarrow> kv_seq_div s p0 p1 d kc = Inr kc' \<Longrightarrow> kv_step n kc kc'"
| step_place: "ubatch_ok kc ub \<Longrightarrow> find_slot kc ub False = Inr si \<Longrightarrow> \<not> slot_empty si \<Longrightarrow> apply_ubatch si ub kc = Inr kc' \<Longrightarrow> kv_step n kc kc'"
| step_prepare: "\<forall>ub \<in> set ubs. ubatch_ok kc ub \<Longrightarrow> prepare ubs kc = Inr (sis, kc') \<Longrightarrow> kv_step n kc kc'"
| step_take_copies: "init_update kc = (b, sc, kc') \<Longrightarrow> kv_step n kc kc'"
| step_update: "kv_update f do_shift sc kc (bufs :: nat list) = Inr (b, kc', bufs') \<Longrightarrow> kv_step n kc kc'"

inductive kv_reachable :: "nat \<Rightarrow> kv_cache \<Rightarrow> bool" for n :: nat where
  reach_init: "kv_cache_new hp step35 unified n n_seq_max n_pad n_swa swa_type = Inr kc \<Longrightarrow> 0 < n_seq_max \<Longrightarrow> n_seq_max \<le> LLAMA_MAX_SEQ
    \<Longrightarrow> kv_reachable n kc"
| reach_step: "kv_reachable n kc \<Longrightarrow> kv_step n kc kc' \<Longrightarrow> kv_reachable n kc'"

lemma kv_clear_other: "kc_other (kv_clear kc) = kc_other kc"
  unfolding kv_clear_def by (rule fold_invariant_mem [where I = "\<lambda>x. kc_other x = kc_other kc"]) simp_all

lemma rm_any_other: "kc_other (fold (run_stream f) ts kc) = kc_other kc"
  by (rule fold_invariant_mem [where I = "\<lambda>x. kc_other x = kc_other kc"]) simp_all

lemma kv_seq_rm_other: "kv_seq_rm s p0 p1 kc = Inr (r, kc') \<Longrightarrow> kc_other kc' = kc_other kc"
  by (auto simp: kv_seq_rm_def res_Inr_iffs Let_def rm_any_other split: if_splits)

lemma kv_seq_cp_other: "kv_seq_cp src dst p0 p1 kc = Inr kc' \<Longrightarrow> kc_other kc' = kc_other kc"
  by (auto simp: kv_seq_cp_def res_Inr_iffs Let_def split: if_splits prod.splits)

lemma kv_seq_keep_other: "kv_seq_keep s kc = Inr kc' \<Longrightarrow> kc_other kc' = kc_other kc"
  by (auto simp: kv_seq_keep_def res_Inr_iffs split: if_splits)

lemma kv_seq_div_other: "kv_seq_div s p0 p1 d kc = Inr kc' \<Longrightarrow> kc_other kc' = kc_other kc"
  by (auto simp: kv_seq_div_def res_Inr_iffs Let_def split: if_splits prod.splits)

lemma kv_update_result: "kv_update f do_shift sc kc bufs = Inr (b, kc', bufs') \<Longrightarrow> kc' = kc \<or> kc' = reset_shifts kc"
  by (auto simp: kv_update_def Let_def split: if_splits option.splits)

lemma reset_shifts_other: "kc_other (reset_shifts kc) = kc_other kc"
  by (simp add: reset_shifts_def)

lemma kv_step_invariant:
  assumes "kv_step n kc kc'" and wf: "kv_wf n kc" and o: "kc_other kc = None"
  shows "kv_wf n kc' \<and> kc_other kc' = None"
  using assms(1)
proof cases
  case step_clear
  then show ?thesis using kv_clear_spec [OF wf] kv_clear_other o by simp
next
  case (step_rm s p0 p1 r)
  then have "kv_wf n kc'" using kv_seq_rm_any [OF wf o, of p0 p1] kv_seq_rm_run [OF wf o, of s p0 p1] by auto
  then show ?thesis using kv_seq_rm_other [OF step_rm(2)] o by simp
next
  case (step_cp_within src dst p0 p1)
  then have "kv_wf n kc'" using kv_seq_cp_within_run [OF wf o step_cp_within(1-5)] by auto
  then show ?thesis using kv_seq_cp_other [OF step_cp_within(6)] o by simp
next
  case (step_cp_across src dst p0 p1)
  then have "kv_wf n kc'" using kv_seq_cp_across_run [OF wf o step_cp_across(1-6)] by auto
  then show ?thesis using kv_seq_cp_other [OF step_cp_across(7)] o by simp
next
  case (step_keep s)
  then have "kv_wf n kc'" using kv_seq_keep_only [OF wf o step_keep(1)] by auto
  then show ?thesis using kv_seq_keep_other [OF step_keep(2)] o by simp
next
  case (step_add s p0 p1 d)
  then show ?thesis using kv_seq_add_eq [OF wf o step_add(1,2), of p0 p1 d] by auto
next
  case (step_div s d p0 p1)
  then show ?thesis using kv_seq_div_wf [OF wf step_div] kv_seq_div_other o by auto
next
  case (step_place ub si)
  then have si: "slot_ok n kc ub si" using find_slot_spec [OF wf step_place(1)] by auto
  then show ?thesis using apply_ubatch_spec [OF wf o step_place(1) si] step_place(4) same_frame_fields(6) o by auto
next
  case (step_prepare ubs sis)
  then show ?thesis using prepare_wf [OF wf o] by blast
next
  case (step_take_copies b sc)
  then show ?thesis using wf o by (auto simp: init_update_def)
next
  case (step_update f do_shift sc bufs b bufs')
  then show ?thesis using kv_update_result reset_shifts_spec [OF wf] reset_shifts_other wf o by metis
qed

lemma kv_reachable_wf: "kv_reachable n kc \<Longrightarrow> kv_wf n kc \<and> kc_other kc = None"
proof (induction rule: kv_reachable.induct)
  case reach_init
  then show ?case using kv_cache_new_wf by blast
next
  case reach_step
  then show ?case using kv_step_invariant by blast
qed

text \<open>C6. In every state that a cache reaches through \<open>clear\<close>, \<open>seq_rm\<close>, \<open>seq_keep\<close>, \<open>seq_add\<close>, \<open>seq_div\<close>, copies between
  streams, copies inside a stream to cells that the destination does not have yet, \<open>prepare\<close>, placed ubatches and memory
  updates (reading a saved state is not among them), the queries are exact: \<open>seq_pos_min\<close> and \<open>seq_pos_max\<close> of a
  sequence return the least and the greatest position among the cells of its stream that belong to it
  (-1 when there is none), no stream has a cell of a sequence of another stream, and the search heads
  are inside the cell arrays.\<close>

theorem kv_cache_queries_exact:
  assumes "kv_reachable n kc" and "seq_in_range kc q"
  shows "kv_seq_pos_min kc q = Inr (if kv_positions kc q = {} then -1 else Min (kv_positions kc q))
    \<and> kv_seq_pos_max kc q = Inr (if kv_positions kc q = {} then -1 else Max (kv_positions kc q))
    \<and> (\<forall>t < kc_n_stream kc. q \<in> (\<Union>k \<in> set (stream kc t). k_seq k) \<longrightarrow> t = strm kc q)
    \<and> (\<forall>t < kc_n_stream kc. cells_wf (kc_v_cells kc ! t) \<and> cells_size (kc_v_cells kc ! t) = n \<and> kc_v_heads kc ! t \<le> n)"
proof -
  have wf: "kv_wf n kc" and o: "kc_other kc = None" using kv_reachable_wf [OF assms(1)] by simp_all
  obtain b where b: "kc_v_cells kc ! strm kc q = mk_cells (stream kc (strm kc q)) b"
    using stream_cells [OF wf strm_less [OF wf assms(2)]] by blast
  have "cells_seq_pos_max (kc_v_cells kc ! strm kc q) q = (if kv_positions kc q = {} then -1 else Max (kv_positions kc q))"
    unfolding kv_positions_def by (subst b) (rule cells_seq_pos_max_mk)
  moreover have "t = strm kc q" if "t < kc_n_stream kc" "k \<in> set (stream kc t)" "q \<in> k_seq k" for t k
    using stream_k_seq [OF wf that(1,2)] that(3) by (auto simp: stream_seqs_def)
  moreover have "stream_ok n kc t" if "t < kc_n_stream kc" for t using kv_wf_stream [OF wf that] .
  ultimately show ?thesis using o assms(2) cells_seq_pos_min_stream [OF wf assms(2)]
    by (auto simp: kv_seq_pos_min_def kv_seq_pos_max_def stream_ok_def)
qed

theorem kv_cache_queries_exact_witness:
  "kv_reachable 3 demo_empty \<and> kv_seq_pos_max demo_empty 0 = Inr (-1)"
proof -
  have r: "kv_reachable 3 demo_empty" by (rule reach_init [OF demo_empty_eq]) (simp_all add: LLAMA_MAX_SEQ_def)
  show ?thesis using r kv_cache_queries_exact [OF r demo_empty_facts(6)] demo_no_positions by simp
qed

subsection \<open>The window of the attention graph\<close>

lemma used_max_p1_le:
  assumes "cells_wf c"
  shows "used_max_p1 c \<le> cells_size c" "i \<in> c_used c \<Longrightarrow> i < used_max_p1 c"
proof -
  obtain ks b where c: "c = mk_cells ks b" using assms by (rule cells_wfE)
  have fin: "finite (c_used c)" by (simp add: c)
  have "Max (c_used c) < cells_size c" if "c_used c \<noteq> {}"
    using Max_in [OF fin that] by (simp add: c)
  then show "used_max_p1 c \<le> cells_size c" by (auto simp: used_max_p1_def Suc_le_eq)
  show "i \<in> c_used c \<Longrightarrow> i < used_max_p1 c" using Max_ge [OF fin] by (auto simp: used_max_p1_def less_Suc_eq_le)
qed

lemma fold_max_base: "r \<le> fold (\<lambda>s r. max (f s) r) ss (r :: nat)"
  by (induction ss arbitrary: r) (auto intro: order_trans [OF max.cobounded2])

lemma fold_max_ge: "s \<in> set ss \<Longrightarrow> f s \<le> fold (\<lambda>s r. max (f s) r) ss (r :: nat)"
proof (induction ss arbitrary: r)
  case (Cons a ss)
  then show ?case using order_trans [OF max.cobounded1 [of "f a" r] fold_max_base [of "max (f a) r" f ss]] by (cases "s = a") auto
qed simp

lemma fold_max_le: "r \<le> (b::nat) \<Longrightarrow> \<forall>s \<in> set ss. f s \<le> b \<Longrightarrow> fold (\<lambda>s r. max (f s) r) ss r \<le> b"
  by (induction ss arbitrary: r) auto

text \<open>C34. \<open>get_n_kv\<close>, the number of cells the attention graph looks at, is at most the size of the cache and
  covers every used cell of every stream of the slot, although it is computed from a padded maximum.\<close>

theorem get_n_kv_covers_used:
  assumes "kv_wf n kc" and "\<forall>t \<in> set (si_strm si). t < kc_n_stream kc"
  shows "get_n_kv kc si \<le> n \<and> (\<forall>t \<in> set (si_strm si). \<forall>i \<in> c_used (kc_v_cells kc ! t). i < get_n_kv kc si)"
proof -
  define f where "f s = min (cells_size (kc_v_cells kc ! (si_strm si ! s)))
     (max (max (kc_n_pad kc) 256) (GGML_PAD (used_max_p1 (kc_v_cells kc ! (si_strm si ! s))) (max (kc_n_pad kc) 256)))" for s
  have g: "get_n_kv kc si = fold (\<lambda>s r. max (f s) r) [0..<slot_n_stream si] 0"
    by (simp add: get_n_kv_def f_def Let_def)
  have ok: "stream_ok n kc (si_strm si ! s)" if "s < slot_n_stream si" for s
    using kv_wf_stream [OF assms(1)] assms(2) that by (simp add: slot_n_stream_def)
  have "f s \<le> n" if "s < slot_n_stream si" for s using ok [OF that] by (simp add: f_def stream_ok_def)
  then have "get_n_kv kc si \<le> n" unfolding g by (intro fold_max_le) simp_all
  moreover have "i < get_n_kv kc si" if t: "t \<in> set (si_strm si)" and i: "i \<in> c_used (kc_v_cells kc ! t)" for t i
  proof -
    obtain s where s: "s < slot_n_stream si" "t = si_strm si ! s" using t by (auto simp: in_set_conv_nth slot_n_stream_def)
    have wf: "cells_wf (kc_v_cells kc ! t)" using ok [OF s(1)] s(2) by (simp add: stream_ok_def)
    have "used_max_p1 (kc_v_cells kc ! t) \<le> f s"
      using used_max_p1_le(1) [OF wf] GGML_PAD_ge [of "max (kc_n_pad kc) 256" "used_max_p1 (kc_v_cells kc ! t)"]
      unfolding f_def s(2) [symmetric] by (simp add: max.coboundedI2)
    moreover have "f s \<le> get_n_kv kc si" unfolding g using s(1) by (intro fold_max_ge) simp
    ultimately show ?thesis using used_max_p1_le(2) [OF wf i] by linarith
  qed
  ultimately show ?thesis by blast
qed

theorem get_n_kv_covers_used_witness:
  "get_n_kv (demo_cache True) \<lparr>si_s0 = 0, si_s1 = 0, si_strm = [0], si_idxs = [[0]]\<rparr> \<le> 3"
proof -
  have "0 < kc_n_stream (demo_cache True)" using demo_cache_wf(1) [of True] by (simp add: kv_wf_def)
  then show ?thesis
    using get_n_kv_covers_used [OF demo_cache_wf(1), of "\<lparr>si_s0 = 0, si_s1 = 0, si_strm = [0], si_idxs = [[0]]\<rparr>" True] by simp
qed

end
