(* ===== verification/KV_Inputs.thy ===== *)
theory KV_Inputs
  imports KV_Prepare
begin

section \<open>The inputs of the attention graph\<close>

text \<open>
  \<^verbatim>\<open>src/llama-kv-cache.cpp\<close>: the integer inputs that the cache computes for a graph from the slot and the
  cells. \<open>set_input_k_idxs\<close> and \<open>set_input_v_idxs\<close> say into which row of the buffers each token goes,
  \<open>set_input_k_shift_data\<close> gives the pending shift of each cell, and \<open>set_input_kq_mask\<close> which cells a
  token may attend to.

  \<^item> A tensor's data is the list of its elements; a mask value is \<open>MASK_KEEP\<close> (0), \<open>MASK_DROP\<close> (minus
    infinity) or \<open>MASK_ALIBI d\<close> (the float \<open>d\<close>). The element types \<open>float\<close> and \<open>ggml_fp16_t\<close> differ only
    in how these are stored.
  \<^item> \<open>sinfo.strm[s]*get_size()\<close> is an unsigned 32-bit product, reduced modulo \<open>2 ^ 32\<close>.
  \<^item> \<open>hparams.use_alibi\<close> and \<open>v_trans\<close> are arguments.
\<close>

subsection \<open>Row indices\<close>

definition strm_offset :: "kv_cache \<Rightarrow> slot_info \<Rightarrow> nat \<Rightarrow> nat" where
  "strm_offset kc si s = si_strm si ! s * get_size kc mod 2 ^ 32"

definition set_input_k_idxs :: "kv_cache \<Rightarrow> llama_ubatch \<Rightarrow> slot_info \<Rightarrow> nat list \<Rightarrow> nat list res" where
  "set_input_k_idxs kc ub si data = bind_res (slot_size si) (\<lambda>n.
     ggml_assert (ub_n_tokens ub = n * slot_n_stream si) ''n_tokens == sinfo.size()*sinfo.n_stream()''
       (Inr (fold (\<lambda>s. fold (\<lambda>i data. data[s * n + i := strm_offset kc si s + si_idxs si ! s ! i]) [0..<n]) [0..<slot_n_stream si] data)))"

definition set_input_v_idxs :: "bool \<Rightarrow> kv_cache \<Rightarrow> llama_ubatch \<Rightarrow> slot_info \<Rightarrow> nat list \<Rightarrow> nat list res" where
  "set_input_v_idxs v_trans kc ub si data = bind_res (slot_size si) (\<lambda>n.
     ggml_assert (ub_n_tokens ub = n * slot_n_stream si) ''n_tokens == sinfo.size()*sinfo.n_stream()''
       (if \<not> v_trans
        then Inr (fold (\<lambda>s. fold (\<lambda>i data. data[s * n + i := strm_offset kc si s + si_idxs si ! s ! i]) [0..<n]) [0..<slot_n_stream si] data)
        else bind_res (n_embd_v_gqa_max (kc_hparams kc)) (\<lambda>g. let n_embd = unat g; kv_size = get_size kc
          in Inr (fold (\<lambda>s. fold (\<lambda>i. fold (\<lambda>j data. data[s * n * n_embd + i * n_embd + j
                     := si_strm si ! s * kv_size * n_embd + j * kv_size + si_idxs si ! s ! i]) [0..<n_embd]) [0..<n]) [0..<slot_n_stream si] data))))"

definition set_input_k_shift_data :: "kv_cache \<Rightarrow> llama_pos list \<Rightarrow> llama_pos list" where
  "set_input_k_shift_data kc data =
    (let is_mrope_shift = uses_mrope_shift (kc_hparams kc); n_kv = get_size kc * kc_n_stream kc
     in fold (\<lambda>s data. let c = kc_v_cells kc ! s
          in fold (\<lambda>i data. let idx = s * cells_size c + i
               in if is_mrope_shift
                  then fold (\<lambda>dim data. data[dim * n_kv + idx := if cells_is_empty c i then 0 else get_shift_dim c i dim]) [0..<4] data
                  else data[idx := if cells_is_empty c i then 0 else get_shift c i]) [0..<cells_size c] data) [0..<kc_n_stream kc] data)"

subsection \<open>The KQ mask\<close>

datatype kq_value = MASK_KEEP | MASK_DROP | MASK_ALIBI int

record kq_args =
  ka_ubatch :: llama_ubatch
  ka_v_cells :: "kv_cells list"
  ka_seq_to_stream :: "nat list"
  ka_n_swa :: nat
  ka_swa_type :: llama_swa_type
  ka_n_kv :: nat
  ka_n_stream :: nat
  ka_n_tps :: nat
  ka_causal :: bool
  ka_swa :: bool
  ka_2d :: bool
  ka_alibi :: bool

definition row_seq :: "kq_args \<Rightarrow> nat \<Rightarrow> llama_seq_id" where
  "row_seq a i = ub_seq_id (ka_ubatch a) ! i ! 0"

definition row_cells :: "kq_args \<Rightarrow> nat \<Rightarrow> kv_cells" where
  "row_cells a i = ka_v_cells a ! (ka_seq_to_stream a ! nat (row_seq a i))"

text \<open>The body of the loop over the cells: the value for token \<open>i\<close> and cell \<open>j\<close>.\<close>

definition mask_value :: "kq_args \<Rightarrow> nat \<Rightarrow> nat \<Rightarrow> kq_value" where
  "mask_value a i j =
    (let c = row_cells a i; p1 = ub_pos (ka_ubatch a) ! i;
         p1_x = (if ka_2d a then ub_pos (ka_ubatch a) ! (i + ub_n_tokens (ka_ubatch a) * 2) else 0);
         p1_y = (if ka_2d a then ub_pos (ka_ubatch a) ! (i + ub_n_tokens (ka_ubatch a)) else 0);
         p0 = pos_get c j
     in if cells_is_empty c j then MASK_DROP
        else if \<not> seq_has c j (row_seq a i) then MASK_DROP
        else if ka_causal a \<and> p0 > p1 then MASK_DROP
        else if ka_causal a \<and> ka_2d a \<and> p0 = p1 \<and> is_2d_gt (ext_get c j) p1_x p1_y then MASK_DROP
        else if ka_swa a \<and> is_masked_swa (ka_n_swa a) (ka_swa_type a) p0 p1 then MASK_DROP
        else if ka_alibi a then MASK_ALIBI (- \<bar>p0 - p1\<bar>)
        else MASK_KEEP)"

text \<open>\<open>seq_pos_min\<close>: the least position in the ubatch for each sequence.\<close>

definition batch_pos_min :: "kq_args \<Rightarrow> llama_seq_id \<Rightarrow> llama_pos" where
  "batch_pos_min a = fold (\<lambda>i m. m(row_seq a i := min (m (row_seq a i)) (ub_pos (ka_ubatch a) ! i)))
     [0..<ub_n_tokens (ka_ubatch a)] (\<lambda>_. INT32_MAX)"

text \<open>The cells recorded for the other tokens of the sequence: \<open>p0 + (int32_t) (n_swa + 32) >= seq_pos_min\<close>.\<close>

definition recorded :: "kq_args \<Rightarrow> nat \<Rightarrow> nat \<Rightarrow> bool" where
  "recorded a i j = (let c = row_cells a i
     in \<not> cells_is_empty c j \<and> seq_has c j (row_seq a i)
        \<and> pos_get c j + to_i32 (int (ka_n_swa a + 32)) \<ge> batch_pos_min a (row_seq a i))"

type_synonym kq_state = "kq_value list \<times> (llama_seq_id \<rightharpoonup> nat) \<times> (llama_seq_id \<Rightarrow> nat list)"

definition kq_row :: "kq_args \<Rightarrow> nat \<Rightarrow> kq_state \<Rightarrow> kq_state" where
  "kq_row a i = (\<lambda>(data, seq_srct, seq_idxs).
    let seq_id = row_seq a i; n_kv = ka_n_kv a; idst = n_kv * i
    in case (if ka_alibi a then None else seq_srct seq_id) of
      Some srct \<Rightarrow>
        let data = fold (\<lambda>j data. data[idst + j := data ! (n_kv * srct + j)]) [0..<n_kv] data;
            data = fold (\<lambda>j data. data[idst + j := mask_value a i j]) (take n_kv (seq_idxs seq_id)) data
        in (data, seq_srct, seq_idxs)
    | None \<Rightarrow>
        let (seq_srct, idxs) = (if ka_alibi a then (seq_srct, seq_idxs seq_id) else (seq_srct(seq_id \<mapsto> i), []));
            (data, idxs) = fold (\<lambda>j (data, idxs). (data[idst + j := mask_value a i j],
               if \<not> ka_alibi a \<and> recorded a i j then idxs @ [j] else idxs)) [0..<n_kv] (data, idxs)
        in (data, seq_srct, seq_idxs(seq_id := idxs)))"

definition kq_stream :: "kq_args \<Rightarrow> nat \<Rightarrow> kq_value list \<Rightarrow> kq_value list" where
  "kq_stream a s data = fst (fold (\<lambda>ii. kq_row a (s * ka_n_tps a + ii)) [0..<ka_n_tps a] (data, Map.empty, \<lambda>_. []))"

definition set_input_kq_mask_impl :: "kq_args \<Rightarrow> kq_value list \<Rightarrow> kq_value list" where
  "set_input_kq_mask_impl a data = fold (kq_stream a) [0..<ka_n_stream a] data"

text \<open>The dispatch to the template instances; \<open>ne0\<close> and \<open>ne3\<close> are the dimensions of the tensor.\<close>

definition set_input_kq_mask :: "bool \<Rightarrow> kv_cache \<Rightarrow> llama_ubatch \<Rightarrow> bool \<Rightarrow> nat \<Rightarrow> nat \<Rightarrow> kq_value list \<Rightarrow> kq_value list res" where
  "set_input_kq_mask use_alibi kc ub causal_attn ne0 ne3 data =
    ggml_assert (ub_n_tokens ub mod ne3 = 0) ''n_tokens%n_stream == 0''
      (Inr (set_input_kq_mask_impl
        \<lparr>ka_ubatch = ub, ka_v_cells = kc_v_cells kc, ka_seq_to_stream = kc_seq_to_stream kc, ka_n_swa = kc_n_swa kc,
         ka_swa_type = kc_swa_type kc, ka_n_kv = ne0, ka_n_stream = ne3, ka_n_tps = ub_n_tokens ub div ne3,
         ka_causal = causal_attn, ka_swa = (kc_swa_type kc \<noteq> LLAMA_SWA_TYPE_NONE), ka_2d = is_pos_2d ub, ka_alibi = use_alibi\<rparr> data))"

subsection \<open>The shortcut is exact\<close>

lemma batch_pos_min_le:
  assumes "i < ub_n_tokens (ka_ubatch a)"
  shows "batch_pos_min a (row_seq a i) \<le> ub_pos (ka_ubatch a) ! i"
proof -
  have "\<forall>i < n. fold (\<lambda>i m. m(row_seq a i := min (m (row_seq a i)) (ub_pos (ka_ubatch a) ! i))) [0..<n] m (row_seq a i) \<le> ub_pos (ka_ubatch a) ! i" for n m
  proof (induction n)
    case (Suc n)
    then show ?case by (auto simp: less_Suc_eq min.coboundedI1)
  qed simp
  then show ?thesis using assms by (simp add: batch_pos_min_def)
qed

text \<open>A position far enough below both tokens is masked for both or for none.\<close>

lemma masked_far_below:
  assumes "0 \<le> p0" "p0 + int n + 32 < p1" "int n + 32 < 2 ^ 31" "p1 < 2 ^ 31"
  shows "is_masked_swa n ty p0 p1 \<longleftrightarrow> (ty = LLAMA_SWA_TYPE_CHUNKED \<and> n \<noteq> 0 \<or> ty = LLAMA_SWA_TYPE_STANDARD \<or> ty = LLAMA_SWA_TYPE_SYMMETRIC)"
proof (cases ty)
  case LLAMA_SWA_TYPE_CHUNKED
  have p1: "0 \<le> p1" using assms(1,2) by linarith
  have eq: "p1 = p1 div int n * int n + p1 mod int n" by simp
  have le: "p1 div int n * int n \<le> p1" 
  proof (cases "n = 0")
    case False
    then have "0 \<le> p1 mod int n" by simp
    then show ?thesis using eq by linarith
  qed (use p1 in simp)
  have ge0: "0 \<le> p1 div int n * int n" using p1 by (cases "n = 0") (simp_all add: pos_imp_zdiv_nonneg_iff)
  have gt: "p1 - int n < p1 div int n * int n" if "n \<noteq> 0"
  proof -
    have "p1 mod int n < int n" using that by simp
    then show ?thesis using eq by linarith
  qed
  have "to_u32 p1 = p1" using p1 assms(4) by (intro to_u32_id) auto
  moreover have "to_i32 (p1 div int n * int n) = p1 div int n * int n" using le ge0 assms(4) by (intro to_i32_id) auto
  ultimately have "is_masked_swa n ty p0 p1 \<longleftrightarrow> p0 < p1 div int n * int n" using LLAMA_SWA_TYPE_CHUNKED by (simp add: Let_def)
  then show ?thesis using gt assms(1,2) LLAMA_SWA_TYPE_CHUNKED by (cases "n = 0") auto
next
  case LLAMA_SWA_TYPE_STANDARD
  have "to_i32 (int n) = int n" using assms(3) by (intro to_i32_id) auto
  then show ?thesis using assms LLAMA_SWA_TYPE_STANDARD by simp
next
  case LLAMA_SWA_TYPE_SYMMETRIC
  have "to_i32 (int n) = int n" using assms(3) by (intro to_i32_id) auto
  moreover have "cdiv (int n) 2 \<le> int n" using cdiv_nonneg [of "int n" 2] by simp
  ultimately show ?thesis using assms LLAMA_SWA_TYPE_SYMMETRIC by (simp add: Let_def)
qed simp

definition kq_ok :: "kq_args \<Rightarrow> bool" where
  "kq_ok a \<longleftrightarrow> ub_n_tokens (ka_ubatch a) = ka_n_stream a * ka_n_tps a \<and> int (ka_n_swa a) + 32 < 2 ^ 31
     \<and> (ka_swa a \<longleftrightarrow> ka_swa_type a \<noteq> LLAMA_SWA_TYPE_NONE)
     \<and> (\<forall>i < ub_n_tokens (ka_ubatch a). ub_pos (ka_ubatch a) ! i < 2 ^ 31
          \<and> (\<forall>j < ka_n_kv a. -1 \<le> pos_get (row_cells a i) j))"

lemma mask_value_stable:
  assumes ok: "kq_ok a" and i: "i < ub_n_tokens (ka_ubatch a)" "i' < ub_n_tokens (ka_ubatch a)" "row_seq a i = row_seq a i'"
    and j: "j < ka_n_kv a" "\<not> recorded a i' j" and al: "\<not> ka_alibi a"
  shows "mask_value a i j = mask_value a i' j"
proof -
  let ?c = "row_cells a i" and ?p = "ub_pos (ka_ubatch a)"
  have c: "row_cells a i' = ?c" using i(3) by (simp add: row_cells_def)
  show ?thesis
  proof (cases "cells_is_empty ?c j \<or> \<not> seq_has ?c j (row_seq a i)")
    case True
    then show ?thesis using c i(3) by (auto simp: mask_value_def Let_def)
  next
    case False
    define p0 where "p0 = pos_get ?c j"
    have p0: "0 \<le> p0" using ok i(1) j(1) False by (force simp: kq_ok_def p0_def cells_is_empty_def pos_get_def)
    have k: "to_i32 (int (ka_n_swa a + 32)) = int (ka_n_swa a) + 32" using ok by (subst to_i32_id) (auto simp: kq_ok_def)
    have lt: "p0 + int (ka_n_swa a) + 32 < batch_pos_min a (row_seq a i)"
      using j(2) False c i(3) k by (auto simp: recorded_def Let_def p0_def)
    have far: "p0 + int (ka_n_swa a) + 32 < ?p ! i" "p0 + int (ka_n_swa a) + 32 < ?p ! i'"
      using lt batch_pos_min_le [OF i(1)] batch_pos_min_le [OF i(2)] unfolding i(3) by linarith+
    have b: "int (ka_n_swa a) + 32 < 2 ^ 31" "?p ! i < 2 ^ 31" "?p ! i' < 2 ^ 31" using ok i(1,2) by (auto simp: kq_ok_def)
    have "is_masked_swa (ka_n_swa a) (ka_swa_type a) p0 (?p ! i) = is_masked_swa (ka_n_swa a) (ka_swa_type a) p0 (?p ! i')"
      using masked_far_below [OF p0 far(1) b(1,2)] masked_far_below [OF p0 far(2) b(1,3)] by simp
    then show ?thesis using False c i(3) far al by (auto simp: mask_value_def Let_def p0_def)
  qed
qed

subsection \<open>Rows\<close>

lemma fold_offset_nth:
  assumes "x < length data"
  shows "fold (\<lambda>j data. data[b + j := f j]) js data ! x = (if b \<le> x \<and> x - b \<in> set js then f (x - b) else data ! x)"
proof -
  have "fold (\<lambda>j data. data[b + j := f j]) js data = fold (\<lambda>i a. a[i := f (i - b)]) (map ((+) b) js) data"
    by (simp add: fold_map comp_def)
  moreover have "x \<in> set (map ((+) b) js) \<longleftrightarrow> b \<le> x \<and> x - b \<in> set js" by (force simp: image_iff)
  ultimately show ?thesis using assms by (simp add: fold_update_nth)
qed

lemma fold_offset_length [simp]: "length (fold (\<lambda>j data. data[b + j := f j]) js data) = length data"
  by (rule fold_invariant_mem [where I = "\<lambda>x. length x = length data"]) simp_all

text \<open>Copying a row that lies before the destination.\<close>

lemma fold_copy_row:
  assumes "src + n \<le> dst" "m \<le> n"
  shows "fold (\<lambda>j data. data[dst + j := data ! (src + j)]) [0..<m] data = fold (\<lambda>j d. d[dst + j := data ! (src + j)]) [0..<m] data"
  using assms(2)
proof (induction m)
  case (Suc m)
  let ?d = "fold (\<lambda>j d. d[dst + j := data ! (src + j)]) [0..<m] data"
  have "?d ! (src + m) = data ! (src + m)"
  proof (cases "src + m < length data")
    case True
    then show ?thesis using assms(1) Suc.prems by (simp add: fold_offset_nth)
  next
    case False
    have "fold (\<lambda>j d. d[dst + j := data ! (src + j)]) [0..<m] data = data"
      using False assms(1) Suc.prems
      by (intro fold_invariant_mem [where I = "\<lambda>x. x = data"]) (simp_all add: list_update_beyond)
    then show ?thesis by simp
  qed
  then show ?case using Suc by simp
qed simp

lemma fold_collect:
  "fold (\<lambda>j (data, idxs). (F j data, if P j then idxs @ [j] else idxs)) js (data, idxs) = (fold F js data, idxs @ filter P js)"
  by (induction js arbitrary: data idxs) simp_all

text \<open>The state after the rows \<open>r0 \<dots> r0 + m - 1\<close> of a stream.\<close>

definition rows_ok :: "kq_args \<Rightarrow> kq_value list \<Rightarrow> nat \<Rightarrow> nat \<Rightarrow> kq_state \<Rightarrow> bool" where
  "rows_ok a data0 r0 m = (\<lambda>(data, srct, idxs). length data = length data0
     \<and> (\<forall>i j. r0 \<le> i \<longrightarrow> i < r0 + m \<longrightarrow> j < ka_n_kv a \<longrightarrow> data ! (ka_n_kv a * i + j) = mask_value a i j)
     \<and> (\<forall>i j. i < r0 \<or> r0 + m \<le> i \<longrightarrow> j < ka_n_kv a \<longrightarrow> ka_n_kv a * i + j < length data0 \<longrightarrow> data ! (ka_n_kv a * i + j) = data0 ! (ka_n_kv a * i + j))
     \<and> (\<forall>q r. srct q = Some r \<longrightarrow> r0 \<le> r \<and> r < r0 + m \<and> row_seq a r = q \<and> idxs q = filter (recorded a r) [0..<ka_n_kv a]))"

lemma same_row_iff: "j < n \<Longrightarrow> (n * i \<le> n * i' + j' \<and> n * i' + j' - n * i = j) \<longleftrightarrow> (i' = i \<and> j' = j)" if "j' < n" for n i i' j j' :: nat
proof
  assume j: "j < n" and *: "n * i \<le> n * i' + j' \<and> n * i' + j' - n * i = j"
  then have "n * i' + j' = n * i + j" by linarith
  then show "i' = i \<and> j' = j" using inj_onD [OF row_major_inj [of n], of "(i', j')" "(i, j)"] that j by (simp add: mult.commute)
qed auto

lemma fold_row_nth:
  assumes "n * i' + j' < length data" "j' < n" "\<forall>j \<in> set js. j < n"
  shows "fold (\<lambda>j data. data[n * i + j := f j]) js data ! (n * i' + j') = (if i' = i \<and> j' \<in> set js then f j' else data ! (n * i' + j'))"
proof -
  have "(n * i \<le> n * i' + j' \<and> n * i' + j' - n * i \<in> set js) \<longleftrightarrow> i' = i \<and> j' \<in> set js" (is "?L \<longleftrightarrow> ?R")
  proof
    assume L: ?L
    then have "n * i' + j' - n * i < n" using assms(3) by blast
    then show ?R using same_row_iff [OF assms(2)] L by metis
  qed simp
  moreover have "n * i' + j' - n * i = j'" if "i' = i" using that by simp
  ultimately show ?thesis using assms(1) by (simp add: fold_offset_nth)
qed

lemma kq_row_ok:
  assumes ok: "kq_ok a" and i: "i = r0 + m" "i < ub_n_tokens (ka_ubatch a)" and len: "length data0 = ka_n_kv a * ub_n_tokens (ka_ubatch a)"
    and st: "rows_ok a data0 r0 m st"
  shows "rows_ok a data0 r0 (Suc m) (kq_row a i st)"
proof -
  let ?n = "ka_n_kv a" and ?q = "row_seq a i"
  obtain data srct idxs where s: "st = (data, srct, idxs)" by (cases st)
  have inv: "length data = length data0"
    "\<And>i' j. r0 \<le> i' \<Longrightarrow> i' < i \<Longrightarrow> j < ?n \<Longrightarrow> data ! (?n * i' + j) = mask_value a i' j"
    "\<And>i' j. i' < r0 \<or> i \<le> i' \<Longrightarrow> j < ?n \<Longrightarrow> ?n * i' + j < length data0 \<Longrightarrow> data ! (?n * i' + j) = data0 ! (?n * i' + j)"
    "\<And>q r. srct q = Some r \<Longrightarrow> r0 \<le> r \<and> r < i \<and> row_seq a r = q \<and> idxs q = filter (recorded a r) [0..<?n]"
    using st i(1) by (auto simp: rows_ok_def s)
  have inb: "?n * i' + j < length data" if "i' \<le> i" "j < ?n" for i' j
  proof -
    have "i' * ?n + j < ub_n_tokens (ka_ubatch a) * ?n" using that i(2) by (intro row_major_less) auto
    then show ?thesis using inv(1) len by (simp add: mult.commute)
  qed
  show ?thesis
  proof (cases "if ka_alibi a then None else srct ?q")
    case None
    define D where "D = fold (\<lambda>j data. data[?n * i + j := mask_value a i j]) [0..<?n] data"
    define ix where "ix = (if ka_alibi a then idxs ?q else []) @ filter (\<lambda>j. \<not> ka_alibi a \<and> recorded a i j) [0..<?n]"
    have row: "kq_row a i st = (D, (if ka_alibi a then srct else srct(?q \<mapsto> i)), idxs(?q := ix))"
      unfolding kq_row_def s using None by (simp add: Let_def fold_collect D_def ix_def)
    have nth: "D ! (?n * i' + j) = (if i' = i then mask_value a i j else data ! (?n * i' + j))" if "?n * i' + j < length data0" "j < ?n" for i' j
      using that inv(1) by (simp add: D_def fold_row_nth)
    have ixal: "ix = idxs ?q" if "ka_alibi a" using that by (simp add: ix_def)
    have ixna: "ix = filter (recorded a i) [0..<?n]" if "\<not> ka_alibi a" using that by (simp add: ix_def)
    have "length D = length data0" using inv(1) by (simp add: D_def)
    then show ?thesis unfolding row rows_ok_def
      using nth inv inb i(1) ixal ixna by (auto simp: less_Suc_eq)
  next
    case (Some r)
    then have al: "\<not> ka_alibi a" and r: "srct ?q = Some r" by (simp_all split: if_splits)
    have rr: "r0 \<le> r" "r < i" "row_seq a r = ?q" "idxs ?q = filter (recorded a r) [0..<?n]" using inv(4) [OF r] by simp_all
    let ?ix = "filter (recorded a r) [0..<?n]"
    have le: "?n * r + ?n \<le> ?n * i" using rr(2) by (metis Suc_leI mult_Suc_right mult_le_mono2 add.commute)
    define C where "C = fold (\<lambda>j d. d[?n * i + j := data ! (?n * r + j)]) [0..<?n] data"
    define D where "D = fold (\<lambda>j data. data[?n * i + j := mask_value a i j]) ?ix C"
    have tk: "take ?n ?ix = ?ix" using length_filter_le [of "recorded a r" "[0..<?n]"] by (simp add: take_all)
    have row: "kq_row a i st = (D, srct, idxs)"
      unfolding kq_row_def s using Some al rr(4) fold_copy_row [OF le order_refl, of data]
      by (simp add: Let_def C_def D_def tk)
    have lenC: "length C = length data0" using inv(1) by (simp add: C_def)
    have nth: "D ! (?n * i' + j) = (if i' = i then mask_value a i j else data ! (?n * i' + j))" if "?n * i' + j < length data0" "j < ?n" for i' j
    proof -
      have "C ! (?n * i' + j) = (if i' = i then data ! (?n * r + j) else data ! (?n * i' + j))"
        using that inv(1) by (simp add: C_def fold_row_nth)
      moreover have "D ! (?n * i' + j) = (if i' = i \<and> recorded a r j then mask_value a i j else C ! (?n * i' + j))"
        unfolding D_def using that lenC by (subst fold_row_nth) auto
      moreover have "data ! (?n * r + j) = mask_value a i j" if "\<not> recorded a r j"
        using inv(2) [OF rr(1,2) \<open>j < ?n\<close>] mask_value_stable [OF ok i(2) _ _ \<open>j < ?n\<close> that al] rr i(2) by simp
      ultimately show ?thesis by (cases "i' = i"; cases "recorded a r j") simp_all
    qed
    have "length D = length data0" using lenC by (simp add: D_def)
    then show ?thesis unfolding row rows_ok_def
      using nth inv inb i(1) by (auto simp: less_Suc_eq)
  qed
qed

lemma kq_stream_ok:
  assumes ok: "kq_ok a" and s: "s < ka_n_stream a" and len: "length data0 = ka_n_kv a * ub_n_tokens (ka_ubatch a)"
  shows "length (kq_stream a s data0) = length data0
    \<and> (\<forall>i j. i < ub_n_tokens (ka_ubatch a) \<longrightarrow> j < ka_n_kv a \<longrightarrow> kq_stream a s data0 ! (ka_n_kv a * i + j)
        = (if s * ka_n_tps a \<le> i \<and> i < s * ka_n_tps a + ka_n_tps a then mask_value a i j else data0 ! (ka_n_kv a * i + j)))"
proof -
  let ?r = "s * ka_n_tps a" and ?N = "ub_n_tokens (ka_ubatch a)"
  have N: "?r + m \<le> ?N" if "m \<le> ka_n_tps a" for m
  proof -
    have "Suc s * ka_n_tps a \<le> ka_n_stream a * ka_n_tps a" using s by (intro mult_le_mono1) simp
    then show ?thesis using ok that by (simp add: kq_ok_def)
  qed
  have "m \<le> ka_n_tps a \<Longrightarrow> rows_ok a data0 ?r m (fold (\<lambda>ii. kq_row a (?r + ii)) [0..<m] (data0, Map.empty, \<lambda>_. []))" for m
  proof (induction m)
    case 0
    show ?case by (simp add: rows_ok_def)
  next
    case (Suc m)
    then show ?case using kq_row_ok [OF ok refl _ len, of ?r m] N [of "Suc m"] by simp
  qed
  from this [OF order_refl] obtain data srct idxs where
    f: "fold (\<lambda>ii. kq_row a (?r + ii)) [0..<ka_n_tps a] (data0, Map.empty, \<lambda>_. []) = (data, srct, idxs)" and
    r: "rows_ok a data0 ?r (ka_n_tps a) (data, srct, idxs)" by (metis prod_cases3)
  have k: "kq_stream a s data0 = data" by (simp add: kq_stream_def f)
  have "ka_n_kv a * i + j < length data0" if "i < ?N" "j < ka_n_kv a" for i j
    using row_major_less [OF that] len by (simp add: mult.commute)
  then show ?thesis using r unfolding k rows_ok_def by (auto simp: not_less)
qed

lemma kq_mask_impl_ok:
  assumes ok: "kq_ok a" and len: "length data0 = ka_n_kv a * ub_n_tokens (ka_ubatch a)"
    and i: "i < ub_n_tokens (ka_ubatch a)" "j < ka_n_kv a"
  shows "set_input_kq_mask_impl a data0 ! (ka_n_kv a * i + j) = mask_value a i j"
proof -
  have "m \<le> ka_n_stream a \<Longrightarrow> length (fold (kq_stream a) [0..<m] data0) = length data0
    \<and> (i < m * ka_n_tps a \<longrightarrow> fold (kq_stream a) [0..<m] data0 ! (ka_n_kv a * i + j) = mask_value a i j)" for m
  proof (induction m)
    case (Suc m)
    define d where "d = fold (kq_stream a) [0..<m] data0"
    have IH: "length d = length data0" "i < m * ka_n_tps a \<longrightarrow> d ! (ka_n_kv a * i + j) = mask_value a i j" using Suc by (simp_all add: d_def)
    have m: "m < ka_n_stream a" using Suc.prems by simp
    have ld: "length d = ka_n_kv a * ub_n_tokens (ka_ubatch a)" using IH(1) len by simp
    show ?case using kq_stream_ok [OF ok m ld] IH i by (auto simp: d_def [symmetric] not_le)
  qed simp
  from this [OF order_refl] show ?thesis using i(1) ok by (simp add: set_input_kq_mask_impl_def kq_ok_def)
qed

text \<open>The reference: what a token of sequence \<open>q\<close> at position \<open>p1\<close> may attend to, by the cells alone.\<close>

definition kq_mask_ref :: "bool \<Rightarrow> kv_cache \<Rightarrow> llama_ubatch \<Rightarrow> bool \<Rightarrow> nat \<Rightarrow> nat \<Rightarrow> kq_value" where
  "kq_mask_ref use_alibi kc ub causal i j =
    (let q = ub_seq_id ub ! i ! 0; k = stream kc (strm kc q) ! j; p1 = ub_pos ub ! i;
         later = (k_pos k > p1 \<or> (is_pos_2d ub \<and> k_pos k = p1
           \<and> is_2d_gt (k_ext k) (ub_pos ub ! (i + ub_n_tokens ub * 2)) (ub_pos ub ! (i + ub_n_tokens ub))))
     in if q \<notin> k_seq k \<or> (causal \<and> later) \<or> is_masked_swa (kc_n_swa kc) (kc_swa_type kc) (k_pos k) p1 then MASK_DROP
        else if use_alibi then MASK_ALIBI (- \<bar>k_pos k - p1\<bar>) else MASK_KEEP)"

text \<open>C20. The mask that the cache computes is the reference mask. The code computes the first row of each
  sequence in full and derives the other rows by copying it and recomputing only the cells recorded as
  near the batch; the result is the same as computing every entry on its own, for all window types,
  with and without causal attention, 2D positions and ALiBi.\<close>

theorem kq_mask_matches_reference:
  assumes wf: "kv_wf n kc" and n: "ne0 \<le> n" and ne3: "0 < ne3" "ub_n_tokens ub mod ne3 = 0"
    and tok: "\<forall>i < ub_n_tokens ub. seq_in_range kc (ub_seq_id ub ! i ! 0) \<and> ub_pos ub ! i < 2 ^ 31"
    and swa: "kc_n_swa kc + 32 < 2 ^ 31" and len: "length data = ne0 * ub_n_tokens ub"
  shows "\<exists>data'. set_input_kq_mask use_alibi kc ub causal ne0 ne3 data = Inr data'
    \<and> (\<forall>i < ub_n_tokens ub. \<forall>j < ne0. data' ! (ne0 * i + j) = kq_mask_ref use_alibi kc ub causal i j)"
proof -
  define a where "a = \<lparr>ka_ubatch = ub, ka_v_cells = kc_v_cells kc, ka_seq_to_stream = kc_seq_to_stream kc, ka_n_swa = kc_n_swa kc,
         ka_swa_type = kc_swa_type kc, ka_n_kv = ne0, ka_n_stream = ne3, ka_n_tps = ub_n_tokens ub div ne3,
         ka_causal = causal, ka_swa = (kc_swa_type kc \<noteq> LLAMA_SWA_TYPE_NONE), ka_2d = is_pos_2d ub, ka_alibi = use_alibi\<rparr>"
  have cell: "cell_ok (stream kc (strm kc (row_seq a i)) ! j) \<and> (\<exists>b. row_cells a i = mk_cells (stream kc (strm kc (row_seq a i))) b
      \<and> j < length (stream kc (strm kc (row_seq a i))))" if "i < ub_n_tokens ub" "j < ne0" for i j
  proof -
    have t: "strm kc (row_seq a i) < kc_n_stream kc" using tok that strm_less [OF wf] by (simp add: row_seq_def a_def)
    obtain b where b: "kc_v_cells kc ! strm kc (row_seq a i) = mk_cells (stream kc (strm kc (row_seq a i))) b"
      "cells_ok (stream kc (strm kc (row_seq a i)))" "length (stream kc (strm kc (row_seq a i))) = n" using stream_cells [OF wf t] by blast
    have "row_cells a i = kc_v_cells kc ! strm kc (row_seq a i)" by (simp add: row_cells_def strm_def a_def)
    then show ?thesis using b cells_ok_nth [OF b(2), of j] n that by auto
  qed
  have "-1 \<le> pos_get (row_cells a i) j" if ij: "i < ub_n_tokens ub" "j < ne0" for i j
  proof -
    obtain b where "row_cells a i = mk_cells (stream kc (strm kc (row_seq a i))) b" "j < length (stream kc (strm kc (row_seq a i)))"
      "cell_ok (stream kc (strm kc (row_seq a i)) ! j)" using cell [OF ij] by blast
    then show ?thesis by (simp add: pos_get_def cell_ok_def del: cells_list_nth length_cells_list)
  qed
  then have ok: "kq_ok a" using ne3 tok swa by (auto simp: kq_ok_def a_def)
  have "mask_value a i j = kq_mask_ref use_alibi kc ub causal i j" if ij: "i < ub_n_tokens ub" "j < ne0" for i j
  proof -
    define k where "k = stream kc (strm kc (row_seq a i)) ! j"
    obtain b where c: "row_cells a i = mk_cells (stream kc (strm kc (row_seq a i))) b" "j < length (stream kc (strm kc (row_seq a i)))"
      "cell_ok k" using cell [OF ij] unfolding k_def by blast
    have v: "cells_is_empty (row_cells a i) j \<longleftrightarrow> k_pos k = -1" "seq_has (row_cells a i) j q \<longleftrightarrow> q \<in> k_seq k"
      "pos_get (row_cells a i) j = k_pos k" "ext_get (row_cells a i) j = k_ext k" for q
      using c(1,2) by (simp_all add: cells_is_empty_mk seq_has_mk pos_get_def ext_get_def k_def del: cells_list_nth length_cells_list)
    have none: "k_pos k = -1 \<Longrightarrow> k_seq k = {}" using c(3) by (auto simp: cell_ok_def)
    have q: "row_seq a i = ub_seq_id ub ! i ! 0" by (simp add: row_seq_def a_def)
    show ?thesis unfolding mask_value_def kq_mask_ref_def Let_def v q [symmetric] k_def [symmetric]
      using none by (cases "kc_swa_type kc = LLAMA_SWA_TYPE_NONE") (auto simp: a_def)
  qed
  then show ?thesis using kq_mask_impl_ok [OF ok] len ne3(2)
    by (intro exI [of _ "set_input_kq_mask_impl a data"]) (simp add: set_input_kq_mask_def a_def)
qed

end
