(* ===== verification/KV_Prev_Tokens.thy ===== *)
theory KV_Prev_Tokens
  imports KV_Inputs
begin

section \<open>Row indices and token history\<close>

text \<open>
  Two further inputs of \<^verbatim>\<open>src/llama-kv-cache.cpp\<close>: where \<open>set_input_k_idxs\<close> sends the tokens of a ubatch, and
  \<open>get_prev_tokens\<close>, which looks up the \<open>n\<close> tokens before each token of a ubatch in the cells (the
  n-gram hash of the PLE layers needs them).
\<close>

lemma get_size_wf: "kv_wf n kc \<Longrightarrow> get_size kc = n"
proof -
  assume wf: "kv_wf n kc"
  then have "kc_seq_to_stream kc ! 0 < kc_n_stream kc" by (auto simp: kv_wf_def LLAMA_MAX_SEQ_def)
  then show ?thesis using kv_wf_stream [OF wf] by (simp add: get_size_def stream_ok_def)
qed

lemma fold_rows_nth:
  assumes "length data = k * m" "s < k" "i < m"
  shows "fold (\<lambda>s. fold (\<lambda>i data. data[s * m + i := f s i]) [0..<m]) [0..<k] data ! (s * m + i) = f s i"
proof -
  have "inj_on (\<lambda>(s, i). s * m + i) ({..<k} \<times> {..<m})" by (rule inj_on_subset [OF row_major_inj]) auto
  moreover have "s * m + i < length data" using row_major_less [OF assms(2,3)] assms(1) by simp
  ultimately show ?thesis
    using fold_nested_update_nth [of "\<lambda>(s, i). s * m + i" k m s i data "\<lambda>(s, i). f s i"] assms(2,3) by simp
qed

lemma fold_rows_length: "length (fold (\<lambda>s. fold (\<lambda>i data. data[g s i := f s i]) [0..<m]) ss data) = length data"
  by (intro fold_invariant_mem [where I = "\<lambda>x. length x = length data"] fold_invariant_mem [where I = "\<lambda>x. length x = length data"]) simp_all

text \<open>C31. The row indices that the K write uses send each token into the row of its cell, in the part of
  the buffer that belongs to its stream, and no two tokens of a ubatch into the same row. The buffer
  has at most \<open>2 ^ 32\<close> rows, as the offset is a 32-bit product.\<close>

theorem set_input_k_idxs_rows:
  assumes wf: "kv_wf n kc" and ub: "ubatch_ok kc ub" and si: "find_slot kc ub False = Inr si" "\<not> slot_empty si"
    and small: "kc_n_stream kc * n \<le> 2 ^ 32" and len: "length data = ub_n_tokens ub"
  shows "\<exists>rows. set_input_k_idxs kc ub si data = Inr rows \<and> length rows = ub_n_tokens ub \<and> distinct rows
    \<and> (\<forall>s < slot_seqs kc ub. \<forall>i < slot_tokens kc ub.
         rows ! (s * slot_tokens kc ub + i) = group_strm kc ub s * n + si_idxs si ! s ! i \<and> si_idxs si ! s ! i < n)"
proof -
  let ?k = "slot_seqs kc ub" and ?m = "slot_tokens kc ub"
  have sok: "slot_ok n kc ub si" using find_slot_spec [OF wf ub] si by auto
  have tot: "ub_n_tokens ub = ?k * ?m" using ub by (simp add: ubatch_ok_def)
  define rows where "rows = fold (\<lambda>s. fold (\<lambda>i data. data[s * ?m + i := strm_offset kc si s + si_idxs si ! s ! i]) [0..<?m]) [0..<?k] data"
  have eq: "set_input_k_idxs kc ub si data = Inr rows"
    using slot_size_ok [OF ub sok] tot by (simp add: set_input_k_idxs_def rows_def mult.commute)
  have glt: "group_strm kc ub s < kc_n_stream kc" if "s < ?k" for s using ub that strm_less [OF wf] by (simp add: ubatch_ok_def group_strm_def)
  have idx: "si_idxs si ! s ! i < n" if "s < ?k" "i < ?m" for s i using sok that by (simp add: slot_ok_def)
  have off: "strm_offset kc si s = group_strm kc ub s * n" if s: "s < ?k" for s
  proof -
    have "0 < n" using idx [OF s, of 0] ub by (auto simp: ubatch_ok_def)
    then have "group_strm kc ub s * n < kc_n_stream kc * n" using glt [OF s] by simp
    then have "group_strm kc ub s * n < 2 ^ 32" using small by linarith
    then show ?thesis using sok s by (simp add: strm_offset_def get_size_wf [OF wf] slot_ok_def)
  qed
  have row: "rows ! (s * ?m + i) = group_strm kc ub s * n + si_idxs si ! s ! i" if "s < ?k" "i < ?m" for s i
    unfolding rows_def using fold_rows_nth [of data ?k ?m s i] len tot that off by simp
  have lr: "length rows = ub_n_tokens ub" unfolding rows_def by (simp add: fold_rows_length len)
  have "x = y" if x: "x < length rows" and y: "y < length rows" and xy: "rows ! x = rows ! y" for x y
  proof -
    have m: "0 < ?m" using ub by (simp add: ubatch_ok_def)
    define s i s' i' where d: "s = x div ?m" "i = x mod ?m" "s' = y div ?m" "i' = y mod ?m"
    have e: "x = s * ?m + i" "y = s' * ?m + i'" by (simp_all add: d div_mult_mod_eq)
    have b: "s < ?k" "i < ?m" "s' < ?k" "i' < ?m"
      using x y m lr tot by (simp_all add: d less_mult_imp_div_less)
    have "group_strm kc ub s * n + si_idxs si ! s ! i = group_strm kc ub s' * n + si_idxs si ! s' ! i'"
      using xy row b by (simp add: e)
    then have "group_strm kc ub s = group_strm kc ub s'" "si_idxs si ! s ! i = si_idxs si ! s' ! i'"
      using inj_onD [OF row_major_inj [of n], of "(group_strm kc ub s, si_idxs si ! s ! i)" "(group_strm kc ub s', si_idxs si ! s' ! i')"] idx b by auto
    moreover from this have "s = s'" using group_strm_inj [OF ub b(1,3)] by simp
    moreover have "distinct (si_idxs si ! s)" "length (si_idxs si ! s) = ?m" using sok b by (simp_all add: slot_ok_def)
    ultimately show ?thesis using b by (simp add: e nth_eq_iff_index_eq)
  qed
  then have "distinct rows" by (auto simp: distinct_conv_nth)
  then show ?thesis using eq lr row idx by blast
qed

theorem set_input_k_idxs_rows_witness:
  "\<exists>si rows. find_slot demo_empty demo_ubatch False = Inr si \<and> set_input_k_idxs demo_empty demo_ubatch si [0, 0] = Inr rows \<and> distinct rows"
proof -
  obtain si where si: "find_slot demo_empty demo_ubatch False = Inr si" "\<not> slot_empty si"
    using find_slot_spec [OF demo_empty_facts(1) demo_ubatch_ok(1)] by (auto simp: demo_ubatch_ok demo_all_free)
  have "length [0, 0 :: nat] = ub_n_tokens demo_ubatch" "kc_n_stream demo_empty * 3 \<le> 2 ^ 32"
    by (simp_all add: demo_ubatch_def demo_empty_facts)
  then show ?thesis using set_input_k_idxs_rows [OF demo_empty_facts(1) demo_ubatch_ok(1) si] si by blast
qed

theorem kq_mask_matches_reference_witness:
  "\<exists>data'. set_input_kq_mask False (demo_cache True) demo_ubatch True 3 1 (replicate 6 MASK_DROP) = Inr data'
     \<and> data' ! 3 = MASK_KEEP \<and> data' ! 5 = MASK_DROP"
proof -
  have t: "seq_in_range (demo_cache True) (ub_seq_id demo_ubatch ! i ! 0) \<and> ub_pos demo_ubatch ! i < 2 ^ 31" if "i < ub_n_tokens demo_ubatch" for i
    using that demo_cache_wf(4) [of True] by (auto simp: demo_ubatch_def less_2_cases_iff)
  have n: "kc_n_swa (demo_cache True) = 0" "kc_swa_type (demo_cache True) = LLAMA_SWA_TYPE_NONE"
    by (simp_all add: demo_cache_def kv_cache_new_def)
  have two: "ub_n_tokens demo_ubatch = 2" by (simp add: demo_ubatch_def)
  obtain data' where d: "set_input_kq_mask False (demo_cache True) demo_ubatch True 3 1 (replicate 6 MASK_DROP) = Inr data'"
    "\<And>i j. i < 2 \<Longrightarrow> j < 3 \<Longrightarrow> data' ! (3 * i + j) = kq_mask_ref False (demo_cache True) demo_ubatch True i j"
    using kq_mask_matches_reference [OF demo_cache_wf(1) [of True], of 3 1 demo_ubatch "replicate 6 MASK_DROP" False True] t n two by auto
  have "kq_mask_ref False (demo_cache True) demo_ubatch True 1 0 = MASK_KEEP" "kq_mask_ref False (demo_cache True) demo_ubatch True 1 2 = MASK_DROP"
    using demo_cache_wf [of True] n by (simp_all add: kq_mask_ref_def demo_ubatch_def Let_def is_pos_2d_def del: cells_list_nth)
  then show ?thesis using d(1) d(2) [of 1 0] d(2) [of 1 2] by simp
qed

subsection \<open>\<open>get_prev_tokens\<close>\<close>
















end
