(* ===== verification/State_IO.thy ===== *)
theory State_IO
  imports Prelude
begin

section \<open>Saving and restoring state: bytes, writers and readers\<close>

text \<open>
  \<^verbatim>\<open>src/llama-io.h\<close>, \<^verbatim>\<open>src/llama-io.cpp\<close> and the writers and readers of \<^verbatim>\<open>src/llama-context.cpp\<close>.

  \<^item> A saved state is a list of bytes. Integers are stored as the machine has them in memory; the model
    takes the little-endian order of the supported targets.
  \<^item> A method that writes state is a list of \<open>io_op\<close>s, the calls it makes on the abstract writer
    \<open>llama_io_write_i\<close>. The concrete writers are the three state machines \<open>dummy_\<dots>\<close> (counts bytes),
    \<open>host_\<dots>\<close> (a buffer of fixed size) and \<open>file_\<dots>\<close>; \<open>io_write_i\<close> is the contract they share.
  \<^item> A method that reads state is an \<open>io\<close> computation over the remaining input and the object that is
    restored. The changes of the object made before an error are kept: an exception leaves the object
    as it is at that moment.
\<close>

subsection \<open>Integers in memory\<close>

type_synonym bytes = "8 word list"

fun le_bytes :: "nat \<Rightarrow> nat \<Rightarrow> bytes" where
  "le_bytes 0 v = []"
| "le_bytes (Suc n) v = of_nat (v mod 256) # le_bytes n (v div 256)"

fun le_value :: "bytes \<Rightarrow> nat" where
  "le_value [] = 0"
| "le_value (b # bs) = unat b + 256 * le_value bs"

definition u32_bytes :: "nat \<Rightarrow> bytes" where
  "u32_bytes v = le_bytes 4 v"

definition u64_bytes :: "nat \<Rightarrow> bytes" where
  "u64_bytes v = le_bytes 8 v"

definition i32_bytes :: "int \<Rightarrow> bytes" where
  "i32_bytes v = le_bytes 4 (nat (to_u32 v))"

lemma length_le_bytes [simp]: "length (le_bytes n v) = n"
  by (induction n arbitrary: v) simp_all

lemma length_int_bytes [simp]: "length (u32_bytes v) = 4" "length (u64_bytes v) = 8" "length (i32_bytes i) = 4"
  by (simp_all add: u32_bytes_def u64_bytes_def i32_bytes_def)

lemma u32_bytes_eq: "u32_bytes v = [of_nat (v mod 256), of_nat (v div 256 mod 256), of_nat (v div 256 div 256 mod 256), of_nat (v div 256 div 256 div 256 mod 256)]"
proof -
  have "(4 :: nat) = Suc (Suc (Suc (Suc 0)))" by simp
  then show ?thesis by (simp only: u32_bytes_def le_bytes.simps)
qed

lemma le_value_bytes: "v < 256 ^ n \<Longrightarrow> le_value (le_bytes n v) = v"
proof (induction n arbitrary: v)
  case (Suc n)
  have "v div 256 < 256 ^ n" using Suc.prems by (simp add: div_less_iff_less_mult mult.commute)
  moreover have "unat (of_nat (v mod 256) :: 8 word) = v mod 256" by (simp add: unat_of_nat)
  ultimately show ?case using Suc.IH by simp
qed simp

lemma to_i32_to_u32: "- (2 ^ 31) \<le> v \<Longrightarrow> v < 2 ^ 31 \<Longrightarrow> to_i32 (to_u32 v) = v"
proof (cases "v < 0")
  case True
  assume "- (2 ^ 31) \<le> v"
  moreover from this True have "v mod 2 ^ 32 = v + 2 ^ 32" by (subst mod_add_self2 [symmetric], subst mod_pos_pos_trivial) simp_all
  ultimately show ?thesis using True by (simp add: to_i32_def to_u32_def Let_def)
qed (simp add: to_i32_def to_u32_def Let_def)

lemma to_u32_range: "0 \<le> to_u32 v" "to_u32 v < 2 ^ 32"
  by (simp_all add: to_u32_def)

subsection \<open>Writers\<close>

datatype io_op = WRITE bytes | WRITE_TENSOR bytes

fun op_bytes :: "io_op \<Rightarrow> bytes" where
  "op_bytes (WRITE b) = b"
| "op_bytes (WRITE_TENSOR b) = b"

definition ops_bytes :: "io_op list \<Rightarrow> bytes" where
  "ops_bytes ops = concat (map op_bytes ops)"

lemma ops_bytes_simps [simp]:
  "ops_bytes [] = []" "ops_bytes (op # ops) = op_bytes op @ ops_bytes ops" "ops_bytes (xs @ ys) = ops_bytes xs @ ops_bytes ys"
  by (simp_all add: ops_bytes_def)

lemma ops_bytes_concat: "ops_bytes (concat (map f xs)) = concat (map (\<lambda>x. ops_bytes (f x)) xs)"
  by (induction xs) simp_all

definition write_string :: "string \<Rightarrow> io_op list" where
  "write_string str = [WRITE (u32_bytes (length str)), WRITE (map (\<lambda>c. of_nat (of_char c)) str)]"

text \<open>The calls of a method, made one after the other on a writer.\<close>

fun run_op :: "(bytes \<Rightarrow> 's \<Rightarrow> 's res) \<Rightarrow> (bytes \<Rightarrow> 's \<Rightarrow> 's res) \<Rightarrow> io_op \<Rightarrow> 's \<Rightarrow> 's res" where
  "run_op wr wr_tensor (WRITE b) s = wr b s"
| "run_op wr wr_tensor (WRITE_TENSOR b) s = wr_tensor b s"

definition run_ops :: "(bytes \<Rightarrow> 's \<Rightarrow> 's res) \<Rightarrow> (bytes \<Rightarrow> 's \<Rightarrow> 's res) \<Rightarrow> io_op list \<Rightarrow> 's \<Rightarrow> 's res" where
  "run_ops wr wr_tensor = fold_res (run_op wr wr_tensor)"

lemma run_ops_simps [simp]:
  "run_ops wr wt [] s = Inr s" "run_ops wr wt (op # ops) s = bind_res (run_op wr wt op s) (run_ops wr wt ops)"
  by (simp_all add: run_ops_def)

text \<open>What a caller of \<open>llama_io_write_i\<close> relies on: \<open>n_bytes\<close> counts what was accepted, and a writer
  accepts a call exactly when it has room for it.\<close>

locale io_write_i =
  fixes wr wr_tensor :: "bytes \<Rightarrow> 's \<Rightarrow> 's res" and n_bytes :: "'s \<Rightarrow> nat" and room :: "nat \<Rightarrow> 's \<Rightarrow> bool" and inv :: "'s \<Rightarrow> bool"
  assumes accepts: "inv s \<Longrightarrow> (\<exists>s'. run_op wr wr_tensor op s = Inr s') \<longleftrightarrow> room (length (op_bytes op)) s"
    and counts: "inv s \<Longrightarrow> run_op wr wr_tensor op s = Inr s' \<Longrightarrow> n_bytes s' = n_bytes s + length (op_bytes op)"
    and shrinks: "inv s \<Longrightarrow> run_op wr wr_tensor op s = Inr s' \<Longrightarrow> room n s' \<longleftrightarrow> room (length (op_bytes op) + n) s"
    and keeps: "inv s \<Longrightarrow> run_op wr wr_tensor op s = Inr s' \<Longrightarrow> inv s'"
    and room_mono: "room m s \<Longrightarrow> n \<le> m \<Longrightarrow> room n s"
    and room_0: "inv s \<Longrightarrow> room 0 s"
begin

lemma run_ops_counts:
  assumes "inv s" "room (length (ops_bytes ops)) s"
  shows "\<exists>s'. run_ops wr wr_tensor ops s = Inr s' \<and> n_bytes s' = n_bytes s + length (ops_bytes ops)"
  using assms
proof (induction ops arbitrary: s)
  case (Cons op ops)
  have "room (length (op_bytes op)) s" by (rule room_mono [OF Cons.prems(2)]) simp
  then obtain s1 where s1: "run_op wr wr_tensor op s = Inr s1" using accepts [OF Cons.prems(1)] by blast
  have "room (length (ops_bytes ops)) s1" using shrinks [OF Cons.prems(1) s1] Cons.prems(2) by simp
  then show ?case using Cons.IH [OF keeps [OF Cons.prems(1) s1]] s1 counts [OF Cons.prems(1) s1] by auto
qed simp

lemma run_ops_refuses:
  assumes "inv s" "\<not> room (length (ops_bytes ops)) s"
  shows "\<exists>e. run_ops wr wr_tensor ops s = Inl e"
  using assms
proof (induction ops arbitrary: s)
  case Nil
  then show ?case using room_0 by simp
next
  case (Cons op ops)
  show ?case
  proof (cases "run_op wr wr_tensor op s")
    case (Inr s1)
    then have "\<not> room (length (ops_bytes ops)) s1" using shrinks [OF Cons.prems(1) Inr] Cons.prems(2) by simp
    then show ?thesis using Cons.IH [OF keeps [OF Cons.prems(1) Inr]] Inr by simp
  qed simp
qed

end

text \<open>\<open>llama_io_write_dummy\<close> with \<open>skip_tensors = false\<close> and in general.\<close>

record io_dummy =
  dm_skip_tensors :: bool
  dm_size_written :: nat

definition dummy_write :: "bytes \<Rightarrow> io_dummy \<Rightarrow> io_dummy res" where
  "dummy_write src d = Inr (d\<lparr>dm_size_written := dm_size_written d + length src\<rparr>)"

definition dummy_write_tensor :: "bytes \<Rightarrow> io_dummy \<Rightarrow> io_dummy res" where
  "dummy_write_tensor src d = (if dm_skip_tensors d then Inr d else Inr (d\<lparr>dm_size_written := dm_size_written d + length src\<rparr>))"

text \<open>\<open>llama_io_write_host\<close>: \<open>ptr\<close> advances through a buffer with \<open>buf_size\<close> bytes left; what has been
  written so far is \<open>hw_out\<close>. The tensor bytes are fetched when the writer is destroyed, from tensors
  that do not change in between.\<close>

record io_write_host =
  hw_out :: bytes
  hw_buf_size :: nat
  hw_size_written :: nat

definition host_write :: "bytes \<Rightarrow> io_write_host \<Rightarrow> io_write_host res" where
  "host_write src w = (if length src > hw_buf_size w then Inl (RUNTIME_ERROR ''unexpectedly reached end of buffer'')
     else Inr (w\<lparr>hw_out := hw_out w @ src, hw_size_written := hw_size_written w + length src, hw_buf_size := hw_buf_size w - length src\<rparr>))"

definition host_write_tensor :: "bytes \<Rightarrow> io_write_host \<Rightarrow> io_write_host res" where
  "host_write_tensor src w = (if length src > hw_buf_size w then Inl (RUNTIME_ERROR ''unexpectedly reached end of buffer'')
     else Inr (w\<lparr>hw_out := hw_out w @ src, hw_size_written := hw_size_written w + length src, hw_buf_size := hw_buf_size w - length src\<rparr>))"

text \<open>\<open>llama_io_write_file\<close>: the file grows; a failing disk write is not modelled.\<close>

record io_write_file =
  fw_file :: bytes
  fw_size_written :: nat

definition file_write :: "bytes \<Rightarrow> io_write_file \<Rightarrow> io_write_file res" where
  "file_write src w = Inr (w\<lparr>fw_file := fw_file w @ src, fw_size_written := fw_size_written w + length src\<rparr>)"

definition file_write_tensor :: "bytes \<Rightarrow> io_write_file \<Rightarrow> io_write_file res" where
  "file_write_tensor src w = file_write src w"

interpretation dummy: io_write_i dummy_write dummy_write_tensor dm_size_written "\<lambda>_ _. True" "\<lambda>d. \<not> dm_skip_tensors d"
proof unfold_locales
  fix op s
  show "(\<exists>s'. run_op dummy_write dummy_write_tensor op s = Inr s') \<longleftrightarrow> True"
    by (cases op) (simp_all add: dummy_write_def dummy_write_tensor_def)
next
  fix op s s' assume "\<not> dm_skip_tensors s" "run_op dummy_write dummy_write_tensor op s = Inr s'"
  then show "dm_size_written s' = dm_size_written s + length (op_bytes op)" "\<not> dm_skip_tensors s'"
    by (cases op; auto simp: dummy_write_def dummy_write_tensor_def)+
qed simp_all

interpretation host: io_write_i host_write host_write_tensor hw_size_written "\<lambda>n w. n \<le> hw_buf_size w" "\<lambda>_. True"
proof unfold_locales
  fix op s
  show "(\<exists>s'. run_op host_write host_write_tensor op s = Inr s') \<longleftrightarrow> length (op_bytes op) \<le> hw_buf_size s"
    by (cases op) (simp_all add: host_write_def host_write_tensor_def)
next
  fix op s s' n assume "run_op host_write host_write_tensor op s = Inr s'"
  then show "hw_size_written s' = hw_size_written s + length (op_bytes op)"
    "(n \<le> hw_buf_size s') \<longleftrightarrow> (length (op_bytes op) + n \<le> hw_buf_size s)"
    by (cases op; auto simp: host_write_def host_write_tensor_def split: if_splits)+
qed simp_all

interpretation fwrite: io_write_i file_write file_write_tensor fw_size_written "\<lambda>_ _. True" "\<lambda>_. True"
proof unfold_locales
  fix op s
  show "(\<exists>s'. run_op file_write file_write_tensor op s = Inr s') \<longleftrightarrow> True"
    by (cases op) (simp_all add: file_write_def file_write_tensor_def)
next
  fix op s s' assume "run_op file_write file_write_tensor op s = Inr s'"
  then show "fw_size_written s' = fw_size_written s + length (op_bytes op)"
    by (cases op; auto simp: file_write_def file_write_tensor_def)+
qed simp_all

lemma host_writes_bytes: "run_ops host_write host_write_tensor ops w = Inr w' \<Longrightarrow> hw_out w' = hw_out w @ ops_bytes ops"
proof (induction ops arbitrary: w)
  case (Cons op ops)
  then show ?case by (cases op) (auto simp: host_write_def host_write_tensor_def split: if_splits)
qed simp

text \<open>C37. Sizing a state with the dummy writer and then writing it into a buffer of that size: the write
  succeeds, fills the buffer exactly and leaves the state's bytes in it. A buffer that is any smaller is refused with an
  error.\<close>

theorem state_size_is_exact:
  assumes "run_ops dummy_write dummy_write_tensor ops \<lparr>dm_skip_tensors = False, dm_size_written = 0\<rparr> = Inr d"
  shows "(\<exists>w. run_ops host_write host_write_tensor ops \<lparr>hw_out = [], hw_buf_size = dm_size_written d, hw_size_written = 0\<rparr> = Inr w
      \<and> hw_out w = ops_bytes ops \<and> hw_size_written w = dm_size_written d)
    \<and> (\<forall>n < dm_size_written d. \<exists>e. run_ops host_write host_write_tensor ops \<lparr>hw_out = [], hw_buf_size = n, hw_size_written = 0\<rparr> = Inl e)"
proof -
  have n: "dm_size_written d = length (ops_bytes ops)"
    using dummy.run_ops_counts [of "\<lparr>dm_skip_tensors = False, dm_size_written = 0\<rparr>" ops] assms by simp
  obtain w where w: "run_ops host_write host_write_tensor ops \<lparr>hw_out = [], hw_buf_size = dm_size_written d, hw_size_written = 0\<rparr> = Inr w"
    "hw_size_written w = dm_size_written d"
    using host.run_ops_counts [of ops "\<lparr>hw_out = [], hw_buf_size = dm_size_written d, hw_size_written = 0\<rparr>"] n by auto
  moreover have "hw_out w = ops_bytes ops" using host_writes_bytes [OF w(1)] by simp
  ultimately show ?thesis using host.run_ops_refuses n by auto
qed

theorem state_size_is_exact_witness:
  "\<exists>w. run_ops host_write host_write_tensor [WRITE (u32_bytes 7), WRITE_TENSOR [1, 2]]
     \<lparr>hw_out = [], hw_buf_size = 6, hw_size_written = 0\<rparr> = Inr w \<and> hw_out w = [7, 0, 0, 0, 1, 2]"
  using state_size_is_exact [of "[WRITE (u32_bytes 7), WRITE_TENSOR [1, 2]]" "\<lparr>dm_skip_tensors = False, dm_size_written = 6\<rparr>"]
  by (auto simp: dummy_write_def dummy_write_tensor_def u32_bytes_eq)

subsection \<open>Readers\<close>

type_synonym ('s, 'a) io = "bytes \<times> 's \<Rightarrow> 'a res \<times> bytes \<times> 's"

definition io_return :: "'a \<Rightarrow> ('s, 'a) io" where
  "io_return x s = (Inr x, s)"

definition io_throw :: "ggml_error \<Rightarrow> ('s, 'a) io" where
  "io_throw e s = (Inl e, s)"

definition io_bind :: "('s, 'a) io \<Rightarrow> ('a \<Rightarrow> ('s, 'b) io) \<Rightarrow> ('s, 'b) io" where
  "io_bind m f s = (case m s of (Inl e, s') \<Rightarrow> (Inl e, s') | (Inr x, s') \<Rightarrow> f x s')"

text \<open>\<open>read_to\<close> of the host reader: the next \<open>n\<close> bytes, or an exception.\<close>

definition io_read :: "nat \<Rightarrow> ('s, bytes) io" where
  "io_read n = (\<lambda>(inp, s). if n > length inp then (Inl (RUNTIME_ERROR ''unexpectedly reached end of buffer''), inp, s)
     else (Inr (take n inp), drop n inp, s))"

definition read_u32 :: "('s, nat) io" where
  "read_u32 = io_bind (io_read 4) (\<lambda>b. io_return (le_value b))"

definition read_u64 :: "('s, nat) io" where
  "read_u64 = io_bind (io_read 8) (\<lambda>b. io_return (le_value b))"

definition read_i32 :: "('s, int) io" where
  "read_i32 = io_bind (io_read 4) (\<lambda>b. io_return (to_i32 (int (le_value b))))"

definition read_string :: "('s, string) io" where
  "read_string = io_bind read_u32 (\<lambda>n. io_bind (io_read n) (\<lambda>b. io_return (map (\<lambda>x. char_of (unat x)) b)))"

definition io_get :: "('s, 's) io" where
  "io_get = (\<lambda>(inp, s). (Inr s, inp, s))"

definition io_put :: "'s \<Rightarrow> ('s, unit) io" where
  "io_put s' = (\<lambda>(inp, s). (Inr (), inp, s'))"

definition io_assert :: "bool \<Rightarrow> string \<Rightarrow> ('s, unit) io" where
  "io_assert b msg = (if b then io_return () else io_throw (GGML_ASSERT msg))"

definition io_lift :: "'a res \<Rightarrow> ('s, 'a) io" where
  "io_lift r s = (r, s)"

text \<open>\<open>try { \<dots> } catch (...) { res = false; }\<close>: an exception becomes the value \<open>False\<close>; a failed assertion
  ends the process.\<close>

definition io_catch :: "('s, bool) io \<Rightarrow> ('s, bool) io" where
  "io_catch m s = (case m s of (Inl (RUNTIME_ERROR e), s') \<Rightarrow> (Inr False, s') | r \<Rightarrow> r)"

text \<open>A loop whose body can leave the method with \<open>return false\<close>.\<close>

primrec io_all :: "('a \<Rightarrow> ('s, bool) io) \<Rightarrow> 'a list \<Rightarrow> ('s, bool) io" where
  "io_all f [] = io_return True"
| "io_all f (x # xs) = io_bind (f x) (\<lambda>b. if b then io_all f xs else io_return False)"

primrec io_for :: "('a \<Rightarrow> ('s, unit) io) \<Rightarrow> 'a list \<Rightarrow> ('s, unit) io" where
  "io_for f [] = io_return ()"
| "io_for f (x # xs) = io_bind (f x) (\<lambda>_. io_for f xs)"

lemma io_simps [simp]:
  "io_return x s = (Inr x, s)" "io_throw e s = (Inl e, s)" "io_lift r s = (r, s)"
  "io_get (inp, t) = (Inr t, inp, t)" "io_put t' (inp, t) = (Inr (), inp, t')"
  "io_assert True msg = io_return ()"
  by (simp_all add: io_return_def io_throw_def io_lift_def io_get_def io_put_def io_assert_def)

lemma io_bind_Inr: "m s = (Inr x, s') \<Longrightarrow> io_bind m f s = f x s'"
  by (simp add: io_bind_def)

lemma io_bind_Inl: "m s = (Inl e, s') \<Longrightarrow> io_bind m f s = (Inl e, s')"
  by (simp add: io_bind_def)

lemma io_bind_basic [simp]:
  "io_bind (io_return x) f = f x" "io_bind (io_lift (Inr y)) g = g y"
  "io_bind io_get h (inp, t) = h t (inp, t)" "io_bind (io_put t') k (inp, t) = k () (inp, t')"
  by (simp_all add: io_bind_def fun_eq_iff)

lemma io_bind_assoc: "io_bind (io_bind m f) g = io_bind m (\<lambda>x. io_bind (f x) g)"
  by (rule ext) (auto simp: io_bind_def split: sum.splits prod.splits)

lemma io_read_append [simp]: "length b = n \<Longrightarrow> io_read n (b @ rest, s) = (Inr b, rest, s)"
  by (simp add: io_read_def)

lemma read_u32_bytes: "v < 2 ^ 32 \<Longrightarrow> read_u32 (u32_bytes v @ rest, s) = (Inr v, rest, s)"
  using le_value_bytes [of v 4] by (simp add: read_u32_def io_bind_def u32_bytes_def)

lemma read_u64_bytes: "v < 2 ^ 64 \<Longrightarrow> read_u64 (u64_bytes v @ rest, s) = (Inr v, rest, s)"
  using le_value_bytes [of v 8] by (simp add: read_u64_def io_bind_def u64_bytes_def)

lemma read_i32_bytes:
  assumes "- (2 ^ 31) \<le> v" "v < 2 ^ 31"
  shows "read_i32 (i32_bytes v @ rest, s) = (Inr v, rest, s)"
proof -
  have "nat (to_u32 v) < 256 ^ 4" using to_u32_range [of v] by simp
  then have "int (le_value (i32_bytes v)) = to_u32 v" using to_u32_range(1) [of v] le_value_bytes by (simp add: i32_bytes_def)
  then show ?thesis using to_i32_to_u32 [OF assms] by (simp add: read_i32_def io_bind_def)
qed

named_theorems io_reads \<open>reading back what was written\<close>

lemma bind_read_bytes [io_reads]: "length b = n \<Longrightarrow> io_bind (io_read n) f (b @ rest, s) = f b (rest, s)"
  by (simp add: io_bind_def)

lemma bind_read_u32 [io_reads]: "v < 2 ^ 32 \<Longrightarrow> io_bind read_u32 f (u32_bytes v @ rest, s) = f v (rest, s)"
  by (rule io_bind_Inr) (rule read_u32_bytes)

lemma bind_read_u64 [io_reads]: "v < 2 ^ 64 \<Longrightarrow> io_bind read_u64 f (u64_bytes v @ rest, s) = f v (rest, s)"
  by (rule io_bind_Inr) (rule read_u64_bytes)

lemma bind_read_i32 [io_reads]: "- (2 ^ 31) \<le> v \<Longrightarrow> v < 2 ^ 31 \<Longrightarrow> io_bind read_i32 f (i32_bytes v @ rest, s) = f v (rest, s)"
  by (rule io_bind_Inr) (rule read_i32_bytes)

text \<open>A string written with \<open>write_string\<close> is read back by \<open>read_string\<close>, whatever follows it.\<close>

theorem string_roundtrip:
  assumes "length str < 2 ^ 32"
  shows "read_string (ops_bytes (write_string str) @ rest, s) = (Inr str, rest, s)"
proof -
  have "unat (of_nat (of_char c) :: 8 word) = of_char c" for c by (simp add: unat_of_nat)
  then have "map (\<lambda>x. char_of (unat x)) (map (\<lambda>c. of_nat (of_char c)) str :: 8 word list) = str" by (simp add: comp_def)
  then show ?thesis
    using assms by (simp add: read_string_def write_string_def io_reads)
qed

theorem string_roundtrip_witness: "read_string (ops_bytes (write_string ''kv'') @ [9], ()) = (Inr ''kv'', [9], ())"
  by (rule string_roundtrip) simp

end
