(* ===== verification/KV_State.thy ===== *)
theory KV_State
  imports KV_Reach State_IO
begin

section \<open>Saving and restoring a KV cache\<close>

text \<open>
  \<^verbatim>\<open>src/llama-kv-cache.cpp\<close>: \<open>state_write\<close>, \<open>state_read\<close> and their parts for metadata and tensor data.

  \<^item> \<open>kv_store\<close> joins the cache of \<open>KV_Cache\<close> with what only the state methods look at: the layers with the
    K and V tensors of each stream and \<open>v_trans\<close>.
  \<^item> A tensor has its type number, the two entries of the ggml type table that the methods use, and its
    bytes. \<open>ggml_backend_tensor_get\<close> and \<open>ggml_backend_tensor_set\<close> assert that the range is inside the
    tensor.
  \<^item> \<open>size_t\<close> offsets are \<open>nat\<close>. The two offsets that the code computes in 32 bits are reduced modulo
    \<open>2 ^ 32\<close> (\<open>v_src_offset\<close>, \<open>v_dst_index\<close>).
\<close>

subsection \<open>Tensors and layers\<close>

record kv_tensor =
  t_type :: int
  t_type_size :: nat
  t_blck_size :: nat
  t_data :: bytes

record kv_layer =
  kl_il :: nat
  kl_k_stream :: "kv_tensor list"
  kl_v_stream :: "kv_tensor option list"

record kv_store =
  ks_cache :: kv_cache
  ks_layers :: "kv_layer list"
  ks_v_trans :: bool

definition ggml_row_size :: "kv_tensor \<Rightarrow> nat \<Rightarrow> nat" where
  "ggml_row_size t ne = t_type_size t * ne div t_blck_size t"

definition tensor_get :: "kv_tensor \<Rightarrow> nat \<Rightarrow> nat \<Rightarrow> bytes res" where
  "tensor_get t offset sz = (if sz = 0 then Inr []
     else ggml_assert (offset + sz \<le> length (t_data t)) ''tensor access out of bounds'' (Inr (take sz (drop offset (t_data t)))))"

definition tensor_set :: "nat \<Rightarrow> bytes \<Rightarrow> kv_tensor \<Rightarrow> kv_tensor res" where
  "tensor_set offset b t = (if b = [] then Inr t
     else ggml_assert (offset + length b \<le> length (t_data t)) ''tensor access out of bounds''
       (Inr (t\<lparr>t_data := take offset (t_data t) @ b @ drop (offset + length b) (t_data t)\<rparr>)))"

definition has_cell_ext :: "llama_hparams \<Rightarrow> bool" where
  "has_cell_ext hp \<longleftrightarrow> n_pos_per_embd hp > 1 \<or> hp_ple_n_heads hp > 0"

subsection \<open>Writing\<close>

text \<open>Which cells are saved, and their maximal ranges.\<close>

definition add_cell :: "kv_cache \<Rightarrow> llama_seq_id \<Rightarrow> kv_cells \<Rightarrow> nat \<Rightarrow> bool" where
  "add_cell kc seq_id c i \<longleftrightarrow> \<not> cells_is_empty c i \<and> (seq_id = -1 \<or> seq_has c i seq_id)
     \<and> (seq_id \<noteq> -1 \<longrightarrow> \<not> is_masked_swa (kc_n_swa kc) (kc_swa_type kc) (pos_get c i) (cells_seq_pos_max c seq_id))"

definition range_step :: "nat \<Rightarrow> (nat \<Rightarrow> bool) \<Rightarrow> nat \<Rightarrow> nat \<times> (nat \<times> nat) list \<times> nat \<Rightarrow> nat \<times> (nat \<times> nat) list \<times> nat" where
  "range_step n add i = (\<lambda>(cell_count, cr, cell_range_begin).
     if add i then (cell_count + 1, cr, if cell_range_begin = n then i else cell_range_begin)
     else if cell_range_begin \<noteq> n then (cell_count, cr @ [(cell_range_begin, i)], n)
     else (cell_count, cr, cell_range_begin))"

definition cell_ranges :: "nat \<Rightarrow> (nat \<Rightarrow> bool) \<Rightarrow> nat \<times> (nat \<times> nat) list" where
  "cell_ranges n add = (let (cell_count, cr, b) = fold (range_step n add) [0..<n] (0, [], n)
     in (cell_count, if b \<noteq> n then cr @ [(b, n)] else cr))"

definition ext_bytes :: "cell_ext \<Rightarrow> bytes" where
  "ext_bytes e = i32_bytes (ext_x e) @ i32_bytes (ext_y e) @ i32_bytes (ext_tok e)"

definition write_cell :: "kv_cache \<Rightarrow> llama_seq_id \<Rightarrow> kv_cells \<Rightarrow> nat \<Rightarrow> io_op list" where
  "write_cell kc seq_id c i =
    (let seq_ids = filter (\<lambda>cur. (cur = seq_id \<or> seq_id = -1) \<and> seq_has c i cur) (map int [0..<kc_n_seq_max kc])
     in [WRITE (i32_bytes (pos_get c i)), WRITE (u32_bytes (length seq_ids))]
        @ (if has_cell_ext (kc_hparams kc) then [WRITE (ext_bytes (ext_get c i))] else [])
        @ map (\<lambda>s. WRITE (i32_bytes s)) seq_ids)"

definition state_write_meta :: "kv_cache \<Rightarrow> nat \<Rightarrow> (nat \<times> nat) list \<Rightarrow> llama_seq_id \<Rightarrow> io_op list" where
  "state_write_meta kc st cr seq_id = concat (map (\<lambda>(a, b). concat (map (write_cell kc seq_id (kc_v_cells kc ! st)) [a..<b])) cr)"

text \<open>The ranges of a tensor with one row per cell.\<close>

primrec write_ranges :: "(nat \<times> nat \<Rightarrow> bytes res) \<Rightarrow> (nat \<times> nat) list \<Rightarrow> io_op list res" where
  "write_ranges f [] = Inr []"
| "write_ranges f (r # rs) = bind_res (f r) (\<lambda>b. bind_res (write_ranges f rs) (\<lambda>ops. Inr (WRITE_TENSOR b # ops)))"

primrec write_each :: "('a \<Rightarrow> io_op list res) \<Rightarrow> 'a list \<Rightarrow> io_op list res" where
  "write_each f [] = Inr []"
| "write_each f (x # xs) = bind_res (f x) (\<lambda>o1. bind_res (write_each f xs) (\<lambda>o2. Inr (o1 @ o2)))"

definition write_rows :: "kv_tensor \<Rightarrow> nat \<Rightarrow> (nat \<times> nat) list \<Rightarrow> io_op list res" where
  "write_rows t n_embd cr = (let size_row = ggml_row_size t n_embd
     in bind_res (write_ranges (\<lambda>(a, b). tensor_get t (a * size_row) ((b - a) * size_row)) cr)
       (\<lambda>ops. Inr ([WRITE (i32_bytes (t_type t)), WRITE (u64_bytes size_row)] @ ops)))"

definition write_k_layer :: "llama_hparams \<Rightarrow> nat \<Rightarrow> (nat \<times> nat) list \<Rightarrow> kv_layer \<Rightarrow> io_op list res" where
  "write_k_layer hp st cr l = bind_res (n_embd_k_gqa hp (kl_il l)) (\<lambda>n. write_rows (kl_k_stream l ! st) (unat n) cr)"

definition write_v_layer :: "llama_hparams \<Rightarrow> nat \<Rightarrow> (nat \<times> nat) list \<Rightarrow> kv_layer \<Rightarrow> io_op list res" where
  "write_v_layer hp st cr l = bind_res (n_embd_v_gqa hp (kl_il l)) (\<lambda>n. case kl_v_stream l ! st of
     None \<Rightarrow> Inr []
   | Some v \<Rightarrow> write_rows v (unat n) cr)"

text \<open>\<open>(range.first + j * kv_size) * v_size_el\<close>: every operand is a \<open>uint32_t\<close>.\<close>

definition v_src_offset :: "nat \<Rightarrow> nat \<Rightarrow> nat \<Rightarrow> nat \<Rightarrow> nat" where
  "v_src_offset first j kv_size v_size_el = (first + j * kv_size) mod 2 ^ 32 * v_size_el mod 2 ^ 32"

definition write_v_trans_layer :: "llama_hparams \<Rightarrow> nat \<Rightarrow> nat \<Rightarrow> (nat \<times> nat) list \<Rightarrow> kv_layer \<Rightarrow> io_op list res" where
  "write_v_trans_layer hp kv_size st cr l = bind_res (n_embd_v_gqa hp (kl_il l)) (\<lambda>n. case kl_v_stream l ! st of
     None \<Rightarrow> Inr []
   | Some v \<Rightarrow> let v_size_el = t_type_size v
       in bind_res (write_each (\<lambda>j. write_ranges (\<lambda>(a, b). tensor_get v (v_src_offset a j kv_size v_size_el) ((b - a) * v_size_el)) cr) [0..<unat n])
         (\<lambda>ops. Inr ([WRITE (i32_bytes (t_type v)), WRITE (u32_bytes v_size_el), WRITE (u32_bytes (unat n))] @ ops)))"

definition state_write_data :: "kv_store \<Rightarrow> nat \<Rightarrow> (nat \<times> nat) list \<Rightarrow> io_op list res" where
  "state_write_data ks st cr =
    (let hp = kc_hparams (ks_cache ks); layers = ks_layers ks; kv_size = cells_size (kc_v_cells (ks_cache ks) ! st)
     in bind_res (write_each (write_k_layer hp st cr) layers) (\<lambda>k_ops.
        bind_res (write_each (if ks_v_trans ks then write_v_trans_layer hp kv_size st cr else write_v_layer hp st cr) layers) (\<lambda>v_ops.
          Inr ([WRITE (u32_bytes (if ks_v_trans ks then 1 else 0)), WRITE (u32_bytes (length layers))] @ k_ops @ v_ops))))"

definition state_write_stream :: "kv_store \<Rightarrow> llama_seq_id \<Rightarrow> nat \<Rightarrow> io_op list res" where
  "state_write_stream ks seq_id st =
    (let kc = ks_cache ks; c = kc_v_cells kc ! st; (cell_count, cr) = cell_ranges (cells_size c) (add_cell kc seq_id c);
         cell_count_check = fold (\<lambda>(a, b) n. n + (b - a)) cr 0
     in ggml_assert (cell_count = cell_count_check) ''cell_count == cell_count_check''
       (if cell_count = 0 then Inr [WRITE (u32_bytes cell_count)]
        else bind_res (state_write_data ks st cr) (\<lambda>ops.
          Inr ([WRITE (u32_bytes cell_count)] @ state_write_meta kc st cr seq_id @ ops))))"

definition state_write :: "kv_store \<Rightarrow> llama_seq_id \<Rightarrow> io_op list res" where
  "state_write ks seq_id =
    (if kc_other (ks_cache ks) \<noteq> None then Inr []
     else bind_res (write_each (state_write_stream ks seq_id) [0..<kc_n_stream (ks_cache ks)])
       (\<lambda>ops. Inr (WRITE (u32_bytes (kc_n_stream (ks_cache ks))) # ops)))"

subsection \<open>Reading tensor data\<close>

type_synonym 'a kv_io = "(kv_store, 'a) io"

definition on_cache :: "(kv_cache \<Rightarrow> kv_cache) \<Rightarrow> unit kv_io" where
  "on_cache f = io_bind io_get (\<lambda>ks. io_put (ks\<lparr>ks_cache := f (ks_cache ks)\<rparr>))"

text \<open>The K or V tensor of a layer and stream.\<close>

datatype kv_half = HALF_K | HALF_V

fun get_tensor :: "kv_half \<Rightarrow> nat \<Rightarrow> nat \<Rightarrow> kv_store \<Rightarrow> kv_tensor" where
  "get_tensor HALF_K li st ks = kl_k_stream (ks_layers ks ! li) ! st"
| "get_tensor HALF_V li st ks = the (kl_v_stream (ks_layers ks ! li) ! st)"

fun put_tensor :: "kv_half \<Rightarrow> nat \<Rightarrow> nat \<Rightarrow> kv_tensor \<Rightarrow> kv_store \<Rightarrow> kv_store" where
  "put_tensor HALF_K li st t ks = ks\<lparr>ks_layers := (ks_layers ks)[li := (ks_layers ks ! li)\<lparr>kl_k_stream := (kl_k_stream (ks_layers ks ! li))[st := t]\<rparr>]\<rparr>"
| "put_tensor HALF_V li st t ks = ks\<lparr>ks_layers := (ks_layers ks)[li := (ks_layers ks ! li)\<lparr>kl_v_stream := (kl_v_stream (ks_layers ks ! li))[st := Some t]\<rparr>]\<rparr>"

definition read_tensor :: "kv_half \<Rightarrow> nat \<Rightarrow> nat \<Rightarrow> nat \<Rightarrow> nat \<Rightarrow> unit kv_io" where
  "read_tensor h li st offset n = io_bind (io_read n) (\<lambda>b. io_bind io_get (\<lambda>ks.
     io_bind (io_lift (tensor_set offset b (get_tensor h li st ks))) (\<lambda>t. io_put (put_tensor h li st t ks))))"

text \<open>One tensor with a row per cell: type, row size, then the rows, in one piece or one by one.\<close>

definition read_rows :: "kv_half \<Rightarrow> nat \<Rightarrow> nat \<Rightarrow> nat \<Rightarrow> slot_info \<Rightarrow> nat \<Rightarrow> bool kv_io" where
  "read_rows h li st cell_count sinfo n_embd = io_bind read_i32 (\<lambda>type_ref. io_bind io_get (\<lambda>ks.
     let t = get_tensor h li st ks; size_row = ggml_row_size t n_embd
     in if t_type t \<noteq> type_ref then io_return False
        else io_bind read_u64 (\<lambda>size_row_ref.
          if size_row \<noteq> size_row_ref then io_return False
          else if cell_count = 0 then io_return True
          else io_bind
            (if slot_is_contiguous sinfo
             then io_bind (io_lift (slot_head sinfo)) (\<lambda>h0. read_tensor h li st (h0 * size_row) (cell_count * size_row))
             else io_for (\<lambda>i. read_tensor h li st (si_idxs sinfo ! 0 ! i * size_row) size_row) [0..<cell_count])
            (\<lambda>_. io_return True))))"

definition read_k_layer :: "nat \<Rightarrow> nat \<Rightarrow> slot_info \<Rightarrow> nat \<Rightarrow> bool kv_io" where
  "read_k_layer st cell_count sinfo li = io_bind io_get (\<lambda>ks.
     io_bind (io_lift (n_embd_k_gqa (kc_hparams (ks_cache ks)) (kl_il (ks_layers ks ! li)))) (\<lambda>n.
       read_rows HALF_K li st cell_count sinfo (unat n)))"

definition read_v_layer :: "nat \<Rightarrow> nat \<Rightarrow> slot_info \<Rightarrow> nat \<Rightarrow> bool kv_io" where
  "read_v_layer st cell_count sinfo li = io_bind io_get (\<lambda>ks.
     io_bind (io_lift (n_embd_v_gqa (kc_hparams (ks_cache ks)) (kl_il (ks_layers ks ! li)))) (\<lambda>n.
       if kl_v_stream (ks_layers ks ! li) ! st = None then io_return True
       else read_rows HALF_V li st cell_count sinfo (unat n)))"

text \<open>\<open>h + j * cells.size()\<close> is a 32-bit sum; the factor \<open>v_size_el\<close> is a \<open>size_t\<close> here.\<close>

definition v_dst_index :: "nat \<Rightarrow> nat \<Rightarrow> nat \<Rightarrow> nat" where
  "v_dst_index i j kv_size = (i + j * kv_size) mod 2 ^ 32"

definition read_v_trans_layer :: "nat \<Rightarrow> nat \<Rightarrow> slot_info \<Rightarrow> nat \<Rightarrow> bool kv_io" where
  "read_v_trans_layer st cell_count sinfo li = io_bind io_get (\<lambda>ks.
     io_bind (io_lift (n_embd_v_gqa (kc_hparams (ks_cache ks)) (kl_il (ks_layers ks ! li)))) (\<lambda>n.
       if kl_v_stream (ks_layers ks ! li) ! st = None then io_return True
       else let v = get_tensor HALF_V li st ks; v_size_el = t_type_size v; kv_size = cells_size (kc_v_cells (ks_cache ks) ! st)
         in io_bind read_i32 (\<lambda>type_ref. if t_type v \<noteq> type_ref then io_return False
            else io_bind read_u32 (\<lambda>el_ref. if v_size_el \<noteq> el_ref then io_return False
            else io_bind read_u32 (\<lambda>n_ref. if unat n \<noteq> n_ref then io_return False
            else if cell_count = 0 then io_return True
            else io_bind
              (if slot_is_contiguous sinfo
               then io_bind (io_lift (slot_head sinfo)) (\<lambda>h0. io_for (\<lambda>j.
                      read_tensor HALF_V li st (v_dst_index h0 j kv_size * v_size_el) (cell_count * v_size_el)) [0..<unat n])
               else io_for (\<lambda>j. io_for (\<lambda>i.
                      read_tensor HALF_V li st (v_dst_index (si_idxs sinfo ! 0 ! i) j kv_size * v_size_el) v_size_el) [0..<cell_count]) [0..<unat n])
              (\<lambda>_. io_return True))))))"

definition state_read_data :: "nat \<Rightarrow> nat \<Rightarrow> slot_info \<Rightarrow> bool kv_io" where
  "state_read_data st cell_count sinfo = io_bind read_u32 (\<lambda>v_trans. io_bind read_u32 (\<lambda>n_layer. io_bind io_get (\<lambda>ks.
     if n_layer \<noteq> length (ks_layers ks) then io_return False
     else if cell_count > cells_size (kc_v_cells (ks_cache ks) ! st) then io_return False
     else if ks_v_trans ks \<noteq> (v_trans \<noteq> 0) then io_return False
     else io_bind (io_all (read_k_layer st cell_count sinfo) [0..<length (ks_layers ks)]) (\<lambda>ok.
       if \<not> ok then io_return False
       else io_all (if ks_v_trans ks then read_v_trans_layer st cell_count sinfo else read_v_layer st cell_count sinfo) [0..<length (ks_layers ks)]))))"

subsection \<open>Reading metadata\<close>

definition read_ext :: "cell_ext kv_io" where
  "read_ext = io_bind read_i32 (\<lambda>x. io_bind read_i32 (\<lambda>y. io_bind read_i32 (\<lambda>tok. io_return \<lparr>ext_x = x, ext_y = y, ext_tok = tok\<rparr>)))"

text \<open>A single sequence: the cells are read into a ubatch, \<open>None\<close> is \<open>return false\<close>.\<close>

fun read_ubatch :: "llama_hparams \<Rightarrow> llama_seq_id \<Rightarrow> nat list \<Rightarrow> llama_ubatch \<Rightarrow> llama_ubatch option kv_io" where
  "read_ubatch hp dest [] ub = io_return (Some ub)"
| "read_ubatch hp dest (i # is) ub =
    io_bind read_i32 (\<lambda>pos. io_bind read_u32 (\<lambda>n_seq_id.
      if n_seq_id \<noteq> 1 then io_return None
      else io_bind
        (if has_cell_ext hp then io_bind read_ext (\<lambda>ext.
           let ub = (if n_pos_per_embd hp > 1
                     then ub\<lparr>ub_pos := (ub_pos ub)[i + ub_n_tokens ub := ext_y ext, i + ub_n_tokens ub * 2 := ext_x ext]\<rparr> else ub)
           in io_return (ub\<lparr>ub_token := map_option (\<lambda>t. t[i := ext_tok ext]) (ub_token ub)\<rparr>))
         else io_return ub)
        (\<lambda>ub. io_bind read_i32 (\<lambda>_.
          read_ubatch hp dest is (ub\<lparr>ub_pos := (ub_pos ub)[i := pos], ub_n_seq_id := (ub_n_seq_id ub)[i := n_seq_id],
            ub_seq_id := (ub_seq_id ub)[i := [dest]]\<rparr>)))))"

definition mirror_mismatch :: "slot_info \<Rightarrow> nat \<Rightarrow> bool" where
  "mirror_mismatch si cell_count \<longleftrightarrow> slot_empty si \<or> slot_n_stream si \<noteq> 1 \<or> length (si_idxs si ! 0) \<noteq> cell_count"

definition mirrored_slot :: "nat \<Rightarrow> slot_info \<Rightarrow> slot_info" where
  "mirrored_slot st si = si\<lparr>si_s0 := st, si_s1 := st, si_strm := (si_strm si)[0 := st]\<rparr>"

definition choose_slot :: "nat \<Rightarrow> nat \<Rightarrow> slot_info option \<Rightarrow> llama_ubatch \<Rightarrow> slot_info option kv_io" where
  "choose_slot st cell_count sinfo_in ub = io_bind io_get (\<lambda>ks. case sinfo_in of
     Some si \<Rightarrow> if mirror_mismatch si cell_count then io_return None
       else let si = mirrored_slot st si; c = kc_v_cells (ks_cache ks) ! st
            in if list_all (\<lambda>i. si_idxs si ! 0 ! i < cells_size c \<and> cells_is_empty c (si_idxs si ! 0 ! i)) [0..<cell_count]
               then io_return (Some si) else io_return None
   | None \<Rightarrow> io_bind (io_lift (find_slot (ks_cache ks) ub False)) (\<lambda>si. io_return (if slot_empty si then None else Some si)))"

definition read_meta_seq :: "nat \<Rightarrow> nat \<Rightarrow> llama_seq_id \<Rightarrow> slot_info option \<Rightarrow> slot_info option kv_io" where
  "read_meta_seq st cell_count dest sinfo_in = io_bind io_get (\<lambda>ks. io_bind (io_lift (kv_seq_rm dest (-1) (-1) (ks_cache ks))) (\<lambda>(_, kc).
     io_bind (io_put (ks\<lparr>ks_cache := kc\<rparr>)) (\<lambda>_.
       let ub = fst (ubatch_reserve cell_count 1 (allocr_new (n_pos_per_embd (kc_hparams kc))));
           ub = ub\<lparr>ub_seq_id_unq := (ub_seq_id_unq ub)[0 := dest]\<rparr>
       in io_bind (read_ubatch (kc_hparams kc) dest [0..<cell_count] ub) (\<lambda>r. case r of
            None \<Rightarrow> io_return None
          | Some ub \<Rightarrow> io_bind (choose_slot st cell_count sinfo_in ub) (\<lambda>slot. case slot of
              None \<Rightarrow> io_return None
            | Some sinfo \<Rightarrow> io_bind io_get (\<lambda>ks. io_bind (io_lift (apply_ubatch sinfo ub (ks_cache ks))) (\<lambda>kc.
                io_bind (io_put (ks\<lparr>ks_cache := kc\<rparr>)) (\<lambda>_.
                io_bind (io_assert (slot_n_stream sinfo = 1) ''sinfo.n_stream() == 1'') (\<lambda>_.
                io_bind (io_assert (length (si_idxs sinfo ! 0) = cell_count) ''sinfo.idxs[0].size() == cell_count'') (\<lambda>_.
                io_bind (io_assert (list_all (\<lambda>i. let idx = si_idxs sinfo ! 0 ! i; c = kc_v_cells kc ! st
                    in pos_get c idx = ub_pos ub ! i \<and> seq_has c idx dest) [0..<cell_count]) ''restored cells'') (\<lambda>_.
                io_return (Some sinfo))))))))))))"

definition on_cells :: "nat \<Rightarrow> (kv_cells \<Rightarrow> kv_cells) \<Rightarrow> unit kv_io" where
  "on_cells st f = on_cache (\<lambda>kc. kc\<lparr>kc_v_cells := (kc_v_cells kc)[st := f (kc_v_cells kc ! st)]\<rparr>)"

definition read_cell :: "llama_hparams \<Rightarrow> nat \<Rightarrow> nat \<Rightarrow> nat \<Rightarrow> bool kv_io" where
  "read_cell hp n_seq_max st i = io_bind read_i32 (\<lambda>pos. io_bind read_u32 (\<lambda>n_seq_id.
     io_bind (on_cells st (pos_set i pos)) (\<lambda>_.
     io_bind (if has_cell_ext hp then io_bind read_ext (\<lambda>ext. on_cells st (ext_set i ext)) else io_return ()) (\<lambda>_.
     io_all (\<lambda>_. io_bind read_i32 (\<lambda>seq_id.
       if seq_id < 0 \<or> to_u32 seq_id \<ge> int n_seq_max then io_return False
       else io_bind (on_cells st (cells_seq_add i seq_id)) (\<lambda>_. io_return True))) [0..<n_seq_id]))))"

definition read_meta_all :: "nat \<Rightarrow> nat \<Rightarrow> slot_info option \<Rightarrow> slot_info option kv_io" where
  "read_meta_all st cell_count sinfo_in = io_bind io_get (\<lambda>ks.
     if cell_count > cells_size (kc_v_cells (ks_cache ks) ! st) then io_return None
     else if (case sinfo_in of Some si \<Rightarrow> mirror_mismatch si cell_count | None \<Rightarrow> False) then io_return None
     else io_bind (io_all (read_cell (kc_hparams (ks_cache ks)) (kc_n_seq_max (ks_cache ks)) st) [0..<cell_count]) (\<lambda>ok.
       if \<not> ok then io_return None
       else io_bind (on_cache (\<lambda>kc. kc\<lparr>kc_v_heads := (kc_v_heads kc)[st := 0]\<rparr>)) (\<lambda>_.
         io_return (Some \<lparr>si_s0 = st, si_s1 = st, si_strm = [st], si_idxs = [[0..<cell_count]]\<rparr>))))"

definition state_read_meta :: "nat \<Rightarrow> nat \<Rightarrow> llama_seq_id \<Rightarrow> slot_info option \<Rightarrow> slot_info option kv_io" where
  "state_read_meta st cell_count dest_seq_id sinfo_in =
    (if dest_seq_id \<noteq> -1 then read_meta_seq st cell_count dest_seq_id sinfo_in else read_meta_all st cell_count sinfo_in)"

subsection \<open>\<open>state_read\<close>\<close>

text \<open>\<open>clear(true)\<close> resets the cells and fills the buffers with zeros.\<close>

definition zero_tensor :: "kv_tensor \<Rightarrow> kv_tensor" where
  "zero_tensor t = t\<lparr>t_data := replicate (length (t_data t)) 0\<rparr>"

definition store_clear :: "kv_store \<Rightarrow> kv_store" where
  "store_clear ks = ks\<lparr>ks_cache := kv_clear (ks_cache ks),
     ks_layers := map (\<lambda>l. l\<lparr>kl_k_stream := map zero_tensor (kl_k_stream l), kl_v_stream := map (map_option zero_tensor) (kl_v_stream l)\<rparr>) (ks_layers ks)\<rparr>"

definition restore_failed :: "llama_seq_id \<Rightarrow> 'a kv_io" where
  "restore_failed seq_id = io_bind io_get (\<lambda>ks.
     io_bind (if seq_id = -1 then io_put (store_clear ks)
              else io_bind (io_lift (kv_seq_rm seq_id (-1) (-1) (ks_cache ks))) (\<lambda>(_, kc). io_put (ks\<lparr>ks_cache := kc\<rparr>)))
       (\<lambda>_. io_throw (RUNTIME_ERROR ''failed to restore kv cache'')))"

text \<open>One stream; the result is the slot that it reports, the default slot for an empty stream.\<close>

definition state_read_stream :: "llama_seq_id \<Rightarrow> slot_info list option \<Rightarrow> nat \<Rightarrow> slot_info kv_io" where
  "state_read_stream seq_id sinfos_in s = io_bind read_u32 (\<lambda>cell_count.
     if cell_count = 0 then
       (if (case sinfos_in of Some sis \<Rightarrow> \<not> slot_empty (sis ! s) | None \<Rightarrow> False)
        then io_throw (RUNTIME_ERROR ''failed to restore kv cache: mirrored cache holds cells this one does not'')
        else io_return slot_none)
     else io_bind io_get (\<lambda>ks. let st = (if seq_id = -1 then s else strm (ks_cache ks) seq_id)
       in io_bind (state_read_meta st cell_count seq_id (map_option (\<lambda>sis. sis ! s) sinfos_in)) (\<lambda>r. case r of
            None \<Rightarrow> restore_failed seq_id
          | Some sinfo \<Rightarrow> io_bind (io_catch (state_read_data st cell_count sinfo)) (\<lambda>ok.
              if ok then io_return sinfo else restore_failed seq_id))))"

fun read_streams :: "llama_seq_id \<Rightarrow> slot_info list option \<Rightarrow> nat list \<Rightarrow> slot_info list kv_io" where
  "read_streams seq_id sinfos_in [] = io_return []"
| "read_streams seq_id sinfos_in (s # ss) = io_bind (state_read_stream seq_id sinfos_in s) (\<lambda>si.
     io_bind (read_streams seq_id sinfos_in ss) (\<lambda>sis. io_return (si # sis)))"

definition state_read_sinfo :: "llama_seq_id \<Rightarrow> slot_info list option \<Rightarrow> slot_info list kv_io" where
  "state_read_sinfo seq_id sinfos_in = io_bind io_get (\<lambda>ks. let kc = ks_cache ks in
     if kc_other kc \<noteq> None then io_return []
     else io_bind (io_assert (seq_id = -1 \<or> seq_in_range kc seq_id) ''seq_id'') (\<lambda>_.
       if (case sinfos_in of Some sis \<Rightarrow> length sis \<noteq> kc_n_stream kc | None \<Rightarrow> False)
       then io_throw (RUNTIME_ERROR ''failed to restore kv cache: mirrored slot layout has the wrong stream count'')
       else io_bind read_u32 (\<lambda>n_stream_cur.
         if n_stream_cur \<noteq> kc_n_stream kc then io_throw (RUNTIME_ERROR ''n_stream mismatch'')
         else io_bind (if seq_id = -1 then io_put (store_clear ks) else io_return ()) (\<lambda>_.
           read_streams seq_id sinfos_in [0..<kc_n_stream kc]))))"

definition state_read :: "llama_seq_id \<Rightarrow> unit kv_io" where
  "state_read seq_id = io_bind (state_read_sinfo seq_id None) (\<lambda>_. io_return ())"

end
