(* ===== verification/KV_State_Data.thy ===== *)
theory KV_State_Data
  imports KV_State
begin

section \<open>The parts of a saved cache\<close>

text \<open>
  What the methods of \<open>KV_State\<close> write and read for one cell, one tensor and one stream: the ranges cover
  exactly the selected cells, a cell is read back as \<open>saved_cell\<close>, and the chunks of a tensor arrive at the
  cells where the restored metadata is.
\<close>

subsection \<open>Ranges\<close>

definition range_idxs :: "(nat \<times> nat) list \<Rightarrow> nat list" where
  "range_idxs cr = concat (map (\<lambda>(a, b). [a..<b]) cr)"

lemma range_idxs_simps [simp]: "range_idxs [] = []" "range_idxs (r # rs) = [fst r..<snd r] @ range_idxs rs"
  "range_idxs (xs @ ys) = range_idxs xs @ range_idxs ys"
  by (simp_all add: range_idxs_def split_def)

lemma range_fold:
  assumes "m \<le> n"
  shows "case fold (range_step n add) [0..<m] (0, [], n) of (cnt, cr, b) \<Rightarrow>
    cnt = length (filter add [0..<m]) \<and> (\<forall>(x, y) \<in> set cr. x < y \<and> y \<le> n)
    \<and> (if b = n then range_idxs cr = filter add [0..<m] else b < m \<and> range_idxs cr @ [b..<m] = filter add [0..<m])"
  using assms
proof (induction m)
  case (Suc m)
  obtain cnt cr b where f: "fold (range_step n add) [0..<m] (0, [], n) = (cnt, cr, b)" by (metis prod_cases3)
  show ?case using Suc f by (auto simp: range_step_def split: if_splits)
qed simp

lemma cell_ranges_spec:
  "fst (cell_ranges n add) = length (filter add [0..<n])" "range_idxs (snd (cell_ranges n add)) = filter add [0..<n]"
  "(x, y) \<in> set (snd (cell_ranges n add)) \<Longrightarrow> x < y \<and> y \<le> n"
  using range_fold [of n n add] by (auto simp: cell_ranges_def split: prod.splits if_splits)

lemma range_count: "\<forall>(x, y) \<in> set cr. x \<le> y \<Longrightarrow> fold (\<lambda>(a, b) n. n + (b - a)) cr k = k + length (range_idxs cr)"
  by (induction cr arbitrary: k) auto

lemma cell_count_check:
  "fst (cell_ranges n add) = fold (\<lambda>(a, b) n. n + (b - a)) (snd (cell_ranges n add)) 0"
proof -
  have "\<forall>(x, y) \<in> set (snd (cell_ranges n add)). x \<le> y" using cell_ranges_spec(3) by fastforce
  from range_count [OF this, of 0] show ?thesis using cell_ranges_spec(1,2) [of n add] by simp
qed

subsection \<open>Chunks of a tensor\<close>

definition chunk :: "nat \<Rightarrow> nat \<Rightarrow> bytes \<Rightarrow> bytes" where
  "chunk sz i d = take sz (drop (i * sz) d)"

definition splice :: "nat \<Rightarrow> bytes \<Rightarrow> bytes \<Rightarrow> bytes" where
  "splice off b d = take off d @ b @ drop (off + length b) d"

lemma length_splice [simp]: "off + length b \<le> length d \<Longrightarrow> length (splice off b d) = length d"
  by (simp add: splice_def)

lemma length_chunk [simp]: "(i + 1) * sz \<le> length d \<Longrightarrow> length (chunk sz i d) = sz"
  by (simp add: chunk_def)

lemma take_chunks: "b * sz \<le> length d \<Longrightarrow> a \<le> b \<Longrightarrow> take ((b - a) * sz) (drop (a * sz) d) = concat (map (\<lambda>i. chunk sz i d) [a..<b])"
proof (induction "b - a" arbitrary: b)
  case 0
  then show ?case by simp
next
  case (Suc k)
  then obtain b' where b: "b = Suc b'" "a \<le> b'" by (cases b) auto
  have "take ((b - a) * sz) (drop (a * sz) d) = take ((b' - a) * sz) (drop (a * sz) d) @ take sz (drop ((b' - a) * sz) (drop (a * sz) d))"
    unfolding take_add [symmetric] using b by (simp add: Suc_diff_le add.commute)
  moreover have "drop ((b' - a) * sz) (drop (a * sz) d) = drop (b' * sz) d"
    using b(2) by (simp flip: add_mult_distrib)
  ultimately show ?case using Suc.hyps(1) [of b'] Suc.hyps(2) Suc.prems b by (simp add: chunk_def)
qed

lemma length_chunks: "\<forall>i \<in> set is. (i + 1) * sz \<le> length d \<Longrightarrow> length (concat (map (\<lambda>i. chunk sz i d) is)) = length is * sz"
  by (induction "is") simp_all

lemma chunk_of_chunks:
  assumes "\<forall>i \<in> set is. (i + 1) * sz \<le> length d" "k < length is"
  shows "chunk sz k (concat (map (\<lambda>i. chunk sz i d) is)) = chunk sz (is ! k) d"
  using assms
proof (induction "is" arbitrary: k)
  case (Cons i "is")
  then show ?case by (cases k) (simp_all add: chunk_def [of sz "Suc _"] chunk_def [of sz 0], simp add: chunk_def)
qed simp

lemma chunk_splice:
  assumes "(o1 + m) * sz \<le> length d" "length b = m * sz"
  shows "chunk sz k (splice (o1 * sz) b d) = (if o1 \<le> k \<and> k < o1 + m then chunk sz (k - o1) b else chunk sz k d)"
proof -
  have l: "o1 * sz + m * sz \<le> length d" using assms(1) by (simp add: add_mult_distrib)
  consider "k < o1" | "o1 \<le> k" "k < o1 + m" | "o1 + m \<le> k" by linarith
  then show ?thesis
  proof cases
    case 1
    then have "k * sz + sz \<le> o1 * sz" by (metis Suc_leI mult_Suc mult_le_mono1 add.commute)
    then show ?thesis using 1 l by (simp add: chunk_def splice_def drop_take take_append)
  next
    case 2
    then have "o1 * sz \<le> k * sz" "(k - o1) * sz + sz \<le> m * sz"
      using mult_le_mono1 [of o1 k sz] mult_le_mono1 [of "Suc (k - o1)" m sz] by (simp_all add: add.commute)
    then show ?thesis using 2 l assms(2) by (simp add: chunk_def splice_def take_append diff_mult_distrib)
  next
    case 3
    then have "o1 * sz + m * sz \<le> k * sz" using mult_le_mono1 [of "o1 + m" k sz] by (simp add: add_mult_distrib)
    then show ?thesis using 3 l assms(2) by (simp add: chunk_def splice_def)
  qed
qed

subsection \<open>Metadata\<close>

definition set_cells :: "nat \<Rightarrow> kv_cells \<Rightarrow> kv_store \<Rightarrow> kv_store" where
  "set_cells st c ks = ks\<lparr>ks_cache := (ks_cache ks)\<lparr>kc_v_cells := (kc_v_cells (ks_cache ks))[st := c]\<rparr>\<rparr>"

abbreviation store_cells :: "kv_store \<Rightarrow> nat \<Rightarrow> kv_cells" where
  "store_cells ks st \<equiv> kc_v_cells (ks_cache ks) ! st"

lemma set_cells_simps [simp]:
  "st < length (kc_v_cells (ks_cache ks)) \<Longrightarrow> store_cells (set_cells st c ks) st = c"
  "set_cells st c' (set_cells st c ks) = set_cells st c' ks" "length (kc_v_cells (ks_cache (set_cells st c ks))) = length (kc_v_cells (ks_cache ks))"
  "ks_layers (set_cells st c ks) = ks_layers ks" "ks_v_trans (set_cells st c ks) = ks_v_trans ks"
  "kc_hparams (ks_cache (set_cells st c ks)) = kc_hparams (ks_cache ks)" "kc_n_seq_max (ks_cache (set_cells st c ks)) = kc_n_seq_max (ks_cache ks)"
  by (simp_all add: set_cells_def)

lemma set_cells_id: "set_cells st (store_cells ks st) ks = ks"
  by (simp add: set_cells_def)

lemma bind_on_cells [io_reads]: "io_bind (on_cells st f) g (inp, ks) = g () (inp, set_cells st (f (store_cells ks st)) ks)"
  by (simp add: on_cells_def on_cache_def io_bind_def set_cells_def)

lemma on_cells_run: "on_cells st f (inp, ks) = (Inr (), inp, set_cells st (f (store_cells ks st)) ks)"
  by (simp add: on_cells_def on_cache_def io_bind_def set_cells_def)

definition i32_ok :: "int \<Rightarrow> bool" where
  "i32_ok v \<longleftrightarrow> - (2 ^ 31) \<le> v \<and> v < 2 ^ 31"

definition ext_ok :: "cell_ext \<Rightarrow> bool" where
  "ext_ok e \<longleftrightarrow> i32_ok (ext_x e) \<and> i32_ok (ext_y e) \<and> i32_ok (ext_tok e)"

lemma bind_read_ext: "ext_ok e \<Longrightarrow> io_bind read_ext f (ext_bytes e @ rest, s) = f e (rest, s)"
  by (cases e) (simp add: read_ext_def ext_bytes_def io_bind_assoc ext_ok_def i32_ok_def bind_read_i32)

text \<open>What a cell is after a save and a restore of the whole cache.\<close>

definition saved_cell :: "kv_cache \<Rightarrow> kv_cell \<Rightarrow> kv_cell" where
  "saved_cell kc k = \<lparr>k_pos = k_pos k, k_ext = (if has_cell_ext (kc_hparams kc) then k_ext k else ext_default),
     k_shift = shift_zero, k_seq = k_seq k\<rparr>"

definition cell_saveable :: "nat \<Rightarrow> kv_cell \<Rightarrow> bool" where
  "cell_saveable n_seq_max k \<longleftrightarrow> k_pos k < 2 ^ 31 \<and> ext_ok (k_ext k) \<and> k_seq k \<subseteq> {0..<int n_seq_max}"

lemma read_seq_ids:
  assumes "length xs = length qs" "\<forall>q \<in> set qs. 0 \<le> q \<and> q < int n_seq_max" "n_seq_max < 2 ^ 31" "st < length (kc_v_cells (ks_cache ks))"
  shows "io_all (\<lambda>_. io_bind read_i32 (\<lambda>seq_id. if seq_id < 0 \<or> to_u32 seq_id \<ge> int n_seq_max then io_return False
       else io_bind (on_cells st (cells_seq_add i seq_id)) (\<lambda>_. io_return True))) xs (concat (map i32_bytes qs) @ rest, ks)
    = (Inr True, rest, set_cells st (fold (cells_seq_add i) qs (store_cells ks st)) ks)"
  using assms
proof (induction qs arbitrary: xs ks)
  case Nil
  then show ?case by (simp add: set_cells_id)
next
  case (Cons q qs)
  then obtain x xs' where xs: "xs = x # xs'" by (cases xs) auto
  have q: "0 \<le> q" "q < int n_seq_max" "q < 2 ^ 31" "to_u32 q = q"
    using Cons.prems(2,3) to_u32_id [of q] by (auto intro: less_trans)
  show ?case using Cons.IH [of xs' "set_cells st (cells_seq_add i q (store_cells ks st)) ks"] Cons.prems q
    by (simp add: xs io_bind_assoc bind_read_i32 bind_on_cells)
qed

lemma read_cell_run:
  assumes c: "c = mk_cells src b0" "j < length src" "k_pos (src ! j) \<noteq> -1" "cell_ok (src ! j)" "cell_saveable (kc_n_seq_max kc) (src ! j)" "kc_n_seq_max kc < 2 ^ 31"
    and d: "store_cells ks st = mk_cells ls b" "st < length (kc_v_cells (ks_cache ks))" "i < length ls" "ls ! i = cell_empty"
  shows "read_cell (kc_hparams kc) (kc_n_seq_max kc) st i (ops_bytes (write_cell kc (-1) c j) @ rest, ks)
    = (Inr True, rest, set_cells st (mk_cells (ls[i := saved_cell kc (src ! j)]) b) ks)"
proof -
  define k where "k = src ! j"
  define e where "e = (if has_cell_ext (kc_hparams kc) then k_ext k else ext_default)"
  define qs where "qs = filter (\<lambda>cur. seq_has c j cur) (map int [0..<kc_n_seq_max kc])"
  have pos: "0 \<le> k_pos k" "k_pos k < 2 ^ 31" "k_pos k \<noteq> -1"
    using c(3-5) by (auto simp: k_def cell_ok_def cell_saveable_def)
  have qs: "set qs = k_seq k" "distinct qs" "length qs < 2 ^ 32" "\<forall>q \<in> set qs. 0 \<le> q \<and> q < int (kc_n_seq_max kc)"
  proof -
    have "int ` {0..<kc_n_seq_max kc} = {0..<int (kc_n_seq_max kc)}" by (simp add: image_int_atLeastLessThan)
    moreover have "k_seq k \<subseteq> {0..<int (kc_n_seq_max kc)}" using c(5) by (simp add: k_def cell_saveable_def)
    ultimately show "set qs = k_seq k" using c(1,2) by (auto simp: qs_def k_def seq_has_def)
    show "distinct qs" by (simp add: qs_def distinct_map)
    have "length qs \<le> kc_n_seq_max kc" unfolding qs_def using length_filter_le [of _ "map int [0..<kc_n_seq_max kc]"] by simp
    then show "length qs < 2 ^ 32" using c(6) by simp
  qed (auto simp: qs_def)
  have w: "ops_bytes (write_cell kc (-1) c j) = i32_bytes (k_pos k) @ u32_bytes (length qs)
      @ (if has_cell_ext (kc_hparams kc) then ext_bytes (k_ext k) else []) @ concat (map i32_bytes qs)"
    using c(1,2) by (simp add: write_cell_def qs_def k_def pos_get_def ext_get_def Let_def ops_bytes_def comp_def)
  have ext: "io_bind (if has_cell_ext (kc_hparams kc) then io_bind read_ext (\<lambda>ext. on_cells st (ext_set i ext)) else io_return ()) f
      ((if has_cell_ext (kc_hparams kc) then ext_bytes (k_ext k) else []) @ tl, set_cells st (mk_cells (ls[i := cell_empty\<lparr>k_pos := k_pos k\<rparr>]) b) ks)
      = f () (tl, set_cells st (mk_cells (ls[i := cell_empty\<lparr>k_pos := k_pos k, k_ext := e\<rparr>]) b) ks)" for f tl
    using c(5) d by (auto simp: io_bind_assoc bind_read_ext bind_on_cells ext_set_mk e_def k_def cell_saveable_def cell_empty_def)
  have add: "fold (cells_seq_add i) qs (mk_cells (ls[i := cell_empty\<lparr>k_pos := k_pos k, k_ext := e\<rparr>]) b) = mk_cells (ls[i := saved_cell kc k]) b"
    using d(3) pos(3) qs(1,2) by (subst fold_seq_add_mk) (auto simp: saved_cell_def e_def cell_empty_def)
  show ?thesis
    using pos qs(3,4) c(6) d add
    by (simp add: read_cell_def w bind_read_i32 bind_read_u32 bind_on_cells pos_set_mk ext read_seq_ids flip: k_def)
qed

lemma read_cells_run:
  assumes src: "c = mk_cells src b0" "cells_ok src" "\<forall>j \<in> set sel. j < length src \<and> k_pos (src ! j) \<noteq> -1 \<and> cell_saveable (kc_n_seq_max kc) (src ! j)"
      "kc_n_seq_max kc < 2 ^ 31"
    and d: "store_cells ks st = mk_cells (pre @ replicate r cell_empty) b" "st < length (kc_v_cells (ks_cache ks))" "length sel \<le> r"
  shows "io_all (read_cell (kc_hparams kc) (kc_n_seq_max kc) st) [length pre..<length pre + length sel]
      (concat (map (\<lambda>j. ops_bytes (write_cell kc (-1) c j)) sel) @ rest, ks)
    = (Inr True, rest, set_cells st (mk_cells (pre @ map (\<lambda>j. saved_cell kc (src ! j)) sel @ replicate (r - length sel) cell_empty) b) ks)"
  using src(3) d
proof (induction sel arbitrary: pre r ks)
  case Nil
  then show ?case by (simp add: set_cells_id flip: Nil.prems(2))
next
  case (Cons j sel)
  obtain r' where r: "r = Suc r'" using Cons.prems(4) by (cases r) auto
  let ?k = "saved_cell kc (src ! j)" and ?ks = "set_cells st (mk_cells ((pre @ [saved_cell kc (src ! j)]) @ replicate r' cell_empty) b) ks"
  have j: "j < length src" "k_pos (src ! j) \<noteq> -1" "cell_ok (src ! j)" "cell_saveable (kc_n_seq_max kc) (src ! j)"
    using Cons.prems(1) cells_ok_nth [OF src(2)] by auto
  have one: "io_bind (read_cell (kc_hparams kc) (kc_n_seq_max kc) st (length pre)) f (ops_bytes (write_cell kc (-1) c j) @ tl, ks) = f True (tl, ?ks)"
    for f :: "bool \<Rightarrow> bool kv_io" and tl
    by (rule io_bind_Inr) (use read_cell_run [OF src(1) j src(4) Cons.prems(2,3), of "length pre" tl] in \<open>simp add: r list_update_append\<close>)
  have "[length pre..<length pre + length (j # sel)] = length pre # [length (pre @ [?k])..<length (pre @ [?k]) + length sel]"
    using upt_conv_Cons [of "length pre" "length pre + length (j # sel)"] by (simp del: upt_Suc)
  moreover have "io_all (read_cell (kc_hparams kc) (kc_n_seq_max kc) st) [length (pre @ [?k])..<length (pre @ [?k]) + length sel]
      (concat (map (\<lambda>j. ops_bytes (write_cell kc (-1) c j)) sel) @ rest, ?ks)
    = (Inr True, rest, set_cells st (mk_cells ((pre @ [?k]) @ map (\<lambda>j. saved_cell kc (src ! j)) sel @ replicate (r' - length sel) cell_empty) b) ?ks)"
    by (rule Cons.IH) (use Cons.prems r in simp_all)
  ultimately show ?case by (simp add: one r)
qed

lemma ranges_concat: "concat (map (\<lambda>(a, b). concat (map f [a..<b])) cr) = concat (map f (range_idxs cr))"
  by (induction cr) auto

subsection \<open>Tensor data\<close>

lemma write_ranges_chunks:
  assumes "\<forall>(a, b) \<in> set cr. f (a, b) = tensor_get t ((o1 + a) * sz) ((b - a) * sz) \<and> a \<le> b \<and> (o1 + b) * sz \<le> length (t_data t)"
  shows "\<exists>ops. write_ranges f cr = Inr ops \<and> ops_bytes ops = concat (map (\<lambda>i. chunk sz (o1 + i) (t_data t)) (range_idxs cr))"
  using assms
proof (induction cr)
  case (Cons r cr)
  obtain a b where r: "r = (a, b)" by (cases r)
  have ab: "f (a, b) = tensor_get t ((o1 + a) * sz) ((b - a) * sz)" "a \<le> b" "(o1 + b) * sz \<le> length (t_data t)" using Cons.prems by (auto simp: r)
  have "(o1 + a) * sz + (b - a) * sz = (o1 + b) * sz" using ab(2) by (simp flip: add_mult_distrib)
  then have g: "f (a, b) = Inr (take ((b - a) * sz) (drop ((o1 + a) * sz) (t_data t)))" using ab by (simp add: tensor_get_def)
  have "map (\<lambda>i. chunk sz (o1 + i) (t_data t)) [a..<b] = map (\<lambda>i. chunk sz i (t_data t)) [o1 + a..<o1 + b]"
    by (rule nth_equalityI) (simp_all add: add.assoc)
  then have "take ((b - a) * sz) (drop ((o1 + a) * sz) (t_data t)) = concat (map (\<lambda>i. chunk sz (o1 + i) (t_data t)) [a..<b])"
    using take_chunks [OF ab(3), of "o1 + a"] ab(2) by simp
  then have "f (a, b) = Inr (concat (map (\<lambda>i. chunk sz (o1 + i) (t_data t)) [a..<b]))" using g by simp
  moreover obtain ops where "write_ranges f cr = Inr ops" "ops_bytes ops = concat (map (\<lambda>i. chunk sz (o1 + i) (t_data t)) (range_idxs cr))"
    using Cons.IH Cons.prems by auto
  ultimately show ?case by (simp add: r)
qed simp

lemma write_each_concat:
  assumes "\<forall>x \<in> set xs. \<exists>ops. f x = Inr ops \<and> ops_bytes ops = g x"
  shows "\<exists>ops. write_each f xs = Inr ops \<and> ops_bytes ops = concat (map g xs)"
  using assms by (induction xs) auto

definition has_tensor :: "kv_half \<Rightarrow> nat \<Rightarrow> nat \<Rightarrow> kv_store \<Rightarrow> bool" where
  "has_tensor h li st ks \<longleftrightarrow> li < length (ks_layers ks) \<and> (case h of
     HALF_K \<Rightarrow> st < length (kl_k_stream (ks_layers ks ! li))
   | HALF_V \<Rightarrow> st < length (kl_v_stream (ks_layers ks ! li)) \<and> kl_v_stream (ks_layers ks ! li) ! st \<noteq> None)"

lemma put_tensor_cache [simp]: "ks_cache (put_tensor h li st t ks) = ks_cache ks" "ks_v_trans (put_tensor h li st t ks) = ks_v_trans ks"
  "length (ks_layers (put_tensor h li st t ks)) = length (ks_layers ks)" "kl_il (ks_layers (put_tensor h li st t ks) ! li') = kl_il (ks_layers ks ! li')"
  by (cases h; cases "li < length (ks_layers ks)"; cases "li' = li"; simp add: list_update_beyond)+

lemma get_put_tensor:
  assumes "has_tensor h li st ks"
  shows "get_tensor h' li' st' (put_tensor h li st t ks) = (if h' = h \<and> li' = li \<and> st' = st then t else get_tensor h' li' st' ks)"
  using assms by (cases h; cases h') (auto simp: has_tensor_def nth_list_update)

lemma has_put_tensor:
  assumes "has_tensor h li st ks"
  shows "has_tensor h' li' st' (put_tensor h li st t ks) = has_tensor h' li' st' ks"
  using assms by (cases h; cases h') (auto simp: has_tensor_def nth_list_update split: if_splits)

lemma put_put_tensor [simp]: "put_tensor h li st t' (put_tensor h li st t ks) = put_tensor h li st t' ks"
  by (cases h; cases "li < length (ks_layers ks)") (simp_all add: list_update_beyond)

lemma put_get_tensor: "has_tensor h li st ks \<Longrightarrow> put_tensor h li st (get_tensor h li st ks) ks = ks"
  by (cases h) (auto simp: has_tensor_def)

lemma bind_read_none: "io_bind (io_read 0) f s = f [] s"
  by (cases s) (simp add: io_bind_def io_read_def)

lemma bind_read_tensor:
  assumes "length b = n" "has_tensor h li st ks" "offset + n \<le> length (t_data (get_tensor h li st ks))"
  shows "io_bind (read_tensor h li st offset n) f (b @ rest, ks)
    = f () (rest, put_tensor h li st ((get_tensor h li st ks)\<lparr>t_data := splice offset b (t_data (get_tensor h li st ks))\<rparr>) ks)"
  using assms by (cases "b = []") (simp_all add: read_tensor_def io_bind_assoc bind_read_bytes bind_read_none tensor_set_def splice_def)

text \<open>The bytes that replace the data of a tensor: run \<open>j\<close> of \<open>r\<close> starts at chunk \<open>j * n\<close> and gets the selected
  chunks of the source.\<close>

definition selected_bytes :: "nat \<Rightarrow> nat \<Rightarrow> nat list \<Rightarrow> bytes \<Rightarrow> nat \<Rightarrow> bytes" where
  "selected_bytes n sz sel src j = concat (map (\<lambda>i. chunk sz (j * n + i) src) sel)"

definition restored_data :: "nat \<Rightarrow> nat \<Rightarrow> nat \<Rightarrow> nat list \<Rightarrow> bytes \<Rightarrow> bytes \<Rightarrow> bytes" where
  "restored_data n sz r sel src d = fold (\<lambda>j. splice (j * n * sz) (selected_bytes n sz sel src j)) [0..<r] d"

lemma run_bound: "j < r \<Longrightarrow> i < n \<Longrightarrow> length d = n * r * sz \<Longrightarrow> (j * n + i + 1) * sz \<le> length d" for d :: bytes
proof -
  assume "j < r" "i < n" "length d = n * r * sz"
  moreover from this have "j * n + i + 1 \<le> r * n" using row_major_less [of j r i n] by simp
  ultimately show ?thesis by (metis mult.commute mult_le_mono1)
qed

lemma length_selected:
  assumes "j < r" "\<forall>i \<in> set sel. i < n" "length src = n * r * sz"
  shows "length (selected_bytes n sz sel src j) = length sel * sz"
  using assms length_chunks [of "map ((+) (j * n)) sel" sz src] run_bound [OF assms(1) _ assms(3)]
  by (simp add: selected_bytes_def comp_def)

lemma run_room: "j < r \<Longrightarrow> m \<le> n \<Longrightarrow> (j * n + m) * sz \<le> n * r * sz" for n m :: nat
proof -
  assume "j < r" "m \<le> n"
  then have "j * n + m \<le> (j + 1) * n" "(j + 1) * n \<le> r * n" by (simp, intro mult_le_mono1) simp
  then have "j * n + m \<le> n * r" by (metis mult.commute order_trans)
  then show ?thesis by simp
qed

lemma restored_chunk:
  assumes "j < r" "i < length sel" "\<forall>i \<in> set sel. i < n" "length sel \<le> n" "length src = n * r * sz" "length d = n * r * sz"
  shows "chunk sz (j * n + i) (restored_data n sz r sel src d) = chunk sz (j * n + sel ! i) src"
proof -
  have "m \<le> r \<Longrightarrow> length (restored_data n sz m sel src d) = n * r * sz \<and> (\<forall>j < m. chunk sz (j * n + i) (restored_data n sz m sel src d) = chunk sz (j * n + sel ! i) src)" for m
  proof (induction m)
    case 0
    then show ?case using assms(6) by (simp add: restored_data_def)
  next
    case (Suc m)
    let ?d = "restored_data n sz m sel src d" and ?b = "selected_bytes n sz sel src m"
    have IH: "length ?d = n * r * sz" "\<forall>j < m. chunk sz (j * n + i) ?d = chunk sz (j * n + sel ! i) src" using Suc by simp_all
    have eq: "restored_data n sz (Suc m) sel src d = splice (m * n * sz) ?b ?d" by (simp add: restored_data_def)
    have lb: "length ?b = length sel * sz" using length_selected [of m r] Suc.prems assms(3,5) by simp
    have room: "(m * n + length sel) * sz \<le> length ?d" using run_room [of m r "length sel" n sz] Suc.prems assms(4) IH(1) by simp
    then have room': "m * n * sz + length ?b \<le> length ?d" by (simp add: lb add_mult_distrib)
    have c: "chunk sz k (splice (m * n * sz) ?b ?d) = (if m * n \<le> k \<and> k < m * n + length sel then chunk sz (k - m * n) ?b else chunk sz k ?d)" for k
      using chunk_splice [OF room lb] .
    have "chunk sz i ?b = chunk sz (m * n + sel ! i) src"
      using chunk_of_chunks [of "map ((+) (m * n)) sel" sz src i] run_bound [of m r _ n src sz] Suc.prems assms(2,3,5)
      by (simp add: selected_bytes_def comp_def)
    moreover have "j * n + i < m * n" if "j < m" for j
      using row_major_less [of j m i n] that assms(2,4) by simp
    ultimately have "chunk sz (j * n + i) (splice (m * n * sz) ?b ?d) = chunk sz (j * n + sel ! i) src" if "j < Suc m" for j
      using that IH(2) assms(2) c [of "j * n + i"] by (cases "j = m") (simp, metis less_Suc_eq not_le)
    then show ?case using eq room' IH(1) by simp
  qed
  from this [of r] show ?thesis using assms(1) by simp
qed

lemma length_restored:
  assumes "\<forall>i \<in> set sel. i < n" "length sel \<le> n" "length src = n * r * sz" "length d = n * r * sz" "m \<le> r"
  shows "length (restored_data n sz m sel src d) = n * r * sz"
  using assms(5)
proof (induction m)
  case 0
  then show ?case using assms(4) by (simp add: restored_data_def)
next
  case (Suc m)
  have "length (selected_bytes n sz sel src m) = length sel * sz" using length_selected [of m r] Suc.prems assms(1,3) by simp
  moreover have "(m * n + length sel) * sz \<le> n * r * sz" using run_room [of m r "length sel" n sz] Suc.prems assms(2) by simp
  ultimately show ?case using Suc by (simp add: restored_data_def add_mult_distrib)
qed

subsection \<open>One tensor\<close>

lemma read_runs:
  assumes "has_tensor h li st ks" "\<forall>i \<in> set sel. i < n" "length sel \<le> n" "length src = n * r * sz"
    "length (t_data (get_tensor h li st ks)) = n * r * sz" "m \<le> r"
  shows "io_for (\<lambda>j. read_tensor h li st (j * n * sz) (length sel * sz)) [0..<m] (concat (map (selected_bytes n sz sel src) [0..<m]) @ rest, ks)
    = (Inr (), rest, put_tensor h li st ((get_tensor h li st ks)\<lparr>t_data := restored_data n sz m sel src (t_data (get_tensor h li st ks))\<rparr>) ks)"
  using assms(6)
proof (induction m arbitrary: rest)
  case 0
  then show ?case using put_get_tensor [OF assms(1)] by (simp add: restored_data_def)
next
  case (Suc m)
  let ?t = "get_tensor h li st ks" let ?d = "restored_data n sz m sel src (t_data ?t)"
  have app: "io_for f (xs @ [x]) s = io_bind (io_for f xs) (\<lambda>_. f x) s" for f :: "nat \<Rightarrow> unit kv_io" and xs x s
    by (induction xs arbitrary: s) (auto simp: io_bind_def io_return_def split: sum.splits prod.splits)
  have lb: "length (selected_bytes n sz sel src m) = length sel * sz" using length_selected [of m r] Suc.prems assms(2,4) by simp
  have room: "(m * n + length sel) * sz \<le> n * r * sz" using run_room [of m r "length sel" n sz] Suc.prems assms(3) by simp
  have l: "length ?d = n * r * sz" using length_restored [OF assms(2-5), of m] Suc.prems by simp
  have "io_bind (read_tensor h li st (m * n * sz) (length sel * sz)) io_return (selected_bytes n sz sel src m @ rest, put_tensor h li st (?t\<lparr>t_data := ?d\<rparr>) ks)
    = (Inr (), rest, put_tensor h li st (?t\<lparr>t_data := splice (m * n * sz) (selected_bytes n sz sel src m) ?d\<rparr>) ks)"
    using lb room l assms(1) by (subst bind_read_tensor) (simp_all add: get_put_tensor has_put_tensor add_mult_distrib)
  moreover have "io_bind g io_return = g" for g :: "unit kv_io"
    by (rule ext) (auto simp: io_bind_def io_return_def split: sum.splits prod.splits)
  moreover have "io_bind (io_for (\<lambda>j. read_tensor h li st (j * n * sz) (length sel * sz)) [0..<m]) f
      (concat (map (selected_bytes n sz sel src) [0..<m]) @ tl, ks) = f () (tl, put_tensor h li st (?t\<lparr>t_data := ?d\<rparr>) ks)"
    for f :: "unit \<Rightarrow> unit kv_io" and tl
    by (rule io_bind_Inr) (use Suc in simp)
  ultimately show ?case by (simp add: app restored_data_def)
qed

abbreviation packed_slot :: "nat \<Rightarrow> nat \<Rightarrow> slot_info" where
  "packed_slot st m \<equiv> \<lparr>si_s0 = st, si_s1 = st, si_strm = [st], si_idxs = [[0..<m]]\<rparr>"

lemma packed_slot_simps [simp]: "slot_is_contiguous (packed_slot st m)" "0 < m \<Longrightarrow> slot_head (packed_slot st m) = Inr 0"
  by (auto simp: slot_is_contiguous_def slot_head_def list_all_iff)

text \<open>The descriptions that make two tensors, layers or stores interchangeable for the state methods.\<close>

definition t_shape :: "kv_tensor \<Rightarrow> int \<times> nat \<times> nat \<times> nat" where
  "t_shape t = (t_type t, t_type_size t, t_blck_size t, length (t_data t))"

definition store_shape :: "kv_store \<Rightarrow> (nat \<times> (int \<times> nat \<times> nat \<times> nat) list \<times> (int \<times> nat \<times> nat \<times> nat) option list) list \<times> bool" where
  "store_shape ks = (map (\<lambda>l. (kl_il l, map t_shape (kl_k_stream l), map (map_option t_shape) (kl_v_stream l))) (ks_layers ks), ks_v_trans ks)"

lemma store_shape_layer:
  assumes "store_shape ks = store_shape ks'" "li < length (ks_layers ks)"
  shows "li < length (ks_layers ks')" "kl_il (ks_layers ks ! li) = kl_il (ks_layers ks' ! li)"
    "map t_shape (kl_k_stream (ks_layers ks ! li)) = map t_shape (kl_k_stream (ks_layers ks' ! li))"
    "map (map_option t_shape) (kl_v_stream (ks_layers ks ! li)) = map (map_option t_shape) (kl_v_stream (ks_layers ks' ! li))"
proof -
  have l: "length (ks_layers ks) = length (ks_layers ks')" using assms(1) by (auto simp: store_shape_def dest: map_eq_imp_length_eq)
  then show "li < length (ks_layers ks')" using assms(2) by simp
  have "map (\<lambda>l. (kl_il l, map t_shape (kl_k_stream l), map (map_option t_shape) (kl_v_stream l))) (ks_layers ks) ! li
      = map (\<lambda>l. (kl_il l, map t_shape (kl_k_stream l), map (map_option t_shape) (kl_v_stream l))) (ks_layers ks') ! li"
    using assms(1) by (simp add: store_shape_def)
  then show "kl_il (ks_layers ks ! li) = kl_il (ks_layers ks' ! li)"
    "map t_shape (kl_k_stream (ks_layers ks ! li)) = map t_shape (kl_k_stream (ks_layers ks' ! li))"
    "map (map_option t_shape) (kl_v_stream (ks_layers ks ! li)) = map (map_option t_shape) (kl_v_stream (ks_layers ks' ! li))"
    using assms(2) l by simp_all
qed

lemma store_shape_tensor:
  assumes "store_shape ks = store_shape ks'" "has_tensor h li st ks"
  shows "has_tensor h li st ks'" "t_shape (get_tensor h li st ks) = t_shape (get_tensor h li st ks')"
proof -
  have li: "li < length (ks_layers ks)" using assms(2) by (simp add: has_tensor_def)
  note s = store_shape_layer [OF assms(1) li]
  have len: "length (kl_k_stream (ks_layers ks ! li)) = length (kl_k_stream (ks_layers ks' ! li))"
    "length (kl_v_stream (ks_layers ks ! li)) = length (kl_v_stream (ks_layers ks' ! li))"
    using s(3,4) map_eq_imp_length_eq by blast+
  have k: "st < length (kl_k_stream (ks_layers ks ! li)) \<Longrightarrow> t_shape (kl_k_stream (ks_layers ks ! li) ! st) = t_shape (kl_k_stream (ks_layers ks' ! li) ! st)"
    using arg_cong [OF s(3), of "\<lambda>l. l ! st"] len by simp
  have v: "st < length (kl_v_stream (ks_layers ks ! li))
      \<Longrightarrow> map_option t_shape (kl_v_stream (ks_layers ks ! li) ! st) = map_option t_shape (kl_v_stream (ks_layers ks' ! li) ! st)"
    using arg_cong [OF s(4), of "\<lambda>l. l ! st"] len by simp
  have "has_tensor h li st ks' \<and> t_shape (get_tensor h li st ks) = t_shape (get_tensor h li st ks')"
  proof (cases h)
    case HALF_K
    then show ?thesis using assms(2) s(1) len(1) k by (simp add: has_tensor_def)
  next
    case HALF_V
    then obtain y where y: "st < length (kl_v_stream (ks_layers ks ! li))" "kl_v_stream (ks_layers ks ! li) ! st = Some y"
      using assms(2) by (auto simp: has_tensor_def)
    then obtain y' where "kl_v_stream (ks_layers ks' ! li) ! st = Some y'" "t_shape y = t_shape y'"
      using v by (metis map_option_eq_Some option.sel option.map_sel option.simps(9) option.distinct(1) option.exhaust option.simps(8))
    then show ?thesis using HALF_V s(1) len(2) y by (simp add: has_tensor_def)
  qed
  then show "has_tensor h li st ks'" "t_shape (get_tensor h li st ks) = t_shape (get_tensor h li st ks')" by simp_all
qed

lemma store_shape_put:
  assumes "has_tensor h li st ks" "t_shape t = t_shape (get_tensor h li st ks)"
  shows "store_shape (put_tensor h li st t ks) = store_shape ks"
proof -
  have li: "li < length (ks_layers ks)" using assms(1) by (simp add: has_tensor_def)
  have upd: "map g (xs[k := x]) = map g xs" if "k < length xs" "g x = g (xs ! k)" for g :: "'x \<Rightarrow> 'y" and xs k x
    using that by (simp add: map_update)
  show ?thesis
  proof (cases h)
    case HALF_K
    then have "map t_shape ((kl_k_stream (ks_layers ks ! li))[st := t]) = map t_shape (kl_k_stream (ks_layers ks ! li))"
      using assms by (intro upd) (simp_all add: has_tensor_def)
    then show ?thesis using li HALF_K by (simp add: store_shape_def upd)
  next
    case HALF_V
    then have "map (map_option t_shape) ((kl_v_stream (ks_layers ks ! li))[st := Some t]) = map (map_option t_shape) (kl_v_stream (ks_layers ks ! li))"
      using assms by (intro upd) (auto simp: has_tensor_def)
    then show ?thesis using li HALF_V by (simp add: store_shape_def upd)
  qed
qed

subsection \<open>One layer\<close>

fun layer_embd :: "kv_half \<Rightarrow> kv_store \<Rightarrow> nat \<Rightarrow> u32 res" where
  "layer_embd HALF_K ks li = n_embd_k_gqa (kc_hparams (ks_cache ks)) (kl_il (ks_layers ks ! li))"
| "layer_embd HALF_V ks li = n_embd_v_gqa (kc_hparams (ks_cache ks)) (kl_il (ks_layers ks ! li))"

definition transposed :: "kv_half \<Rightarrow> kv_store \<Rightarrow> bool" where
  "transposed h ks \<longleftrightarrow> h = HALF_V \<and> ks_v_trans ks"

text \<open>The size of the chunks of a tensor and the number of runs of \<open>n\<close> chunks: one row per cell, or for a
  transposed V tensor one row of cells per embedding dimension.\<close>

definition chunk_size :: "kv_half \<Rightarrow> kv_store \<Rightarrow> nat \<Rightarrow> nat \<Rightarrow> nat" where
  "chunk_size h ks li st = (let t = get_tensor h li st ks
     in if transposed h ks then t_type_size t else ggml_row_size t (unat (projr (layer_embd h ks li))))"

definition chunk_runs :: "kv_half \<Rightarrow> kv_store \<Rightarrow> nat \<Rightarrow> nat" where
  "chunk_runs h ks li = (if transposed h ks then unat (projr (layer_embd h ks li)) else 1)"

definition tensor_ok :: "nat \<Rightarrow> kv_store \<Rightarrow> kv_half \<Rightarrow> nat \<Rightarrow> nat \<Rightarrow> bool" where
  "tensor_ok n ks h li st \<longleftrightarrow> (let t = get_tensor h li st ks; sz = chunk_size h ks li st; r = chunk_runs h ks li
     in i32_ok (t_type t) \<and> sz < 2 ^ 64 \<and> length (t_data t) = n * r * sz
        \<and> (transposed h ks \<longrightarrow> sz < 2 ^ 32 \<and> n * r < 2 ^ 32 \<and> n * r * sz < 2 ^ 32))"

definition layers_ok :: "nat \<Rightarrow> kv_store \<Rightarrow> bool" where
  "layers_ok n ks \<longleftrightarrow> length (ks_layers ks) < 2 ^ 32 \<and> (\<forall>li < length (ks_layers ks). \<forall>h. (\<exists>ne. layer_embd h ks li = Inr ne)
     \<and> length (kl_k_stream (ks_layers ks ! li)) = kc_n_stream (ks_cache ks) \<and> length (kl_v_stream (ks_layers ks ! li)) = kc_n_stream (ks_cache ks)
     \<and> (\<forall>st. has_tensor h li st ks \<longrightarrow> tensor_ok n ks h li st))"

definition tensor_bytes :: "nat \<Rightarrow> kv_store \<Rightarrow> nat \<Rightarrow> nat list \<Rightarrow> kv_half \<Rightarrow> nat \<Rightarrow> bytes" where
  "tensor_bytes n ks st sel h li = (let t = get_tensor h li st ks; sz = chunk_size h ks li st; r = chunk_runs h ks li
     in if \<not> has_tensor h li st ks then []
        else i32_bytes (t_type t) @ (if transposed h ks then u32_bytes sz @ u32_bytes r else u64_bytes sz)
          @ concat (map (selected_bytes n sz sel (t_data t)) [0..<r]))"

definition restore_tensor :: "nat \<Rightarrow> kv_store \<Rightarrow> nat \<Rightarrow> nat list \<Rightarrow> kv_half \<Rightarrow> nat \<Rightarrow> kv_store \<Rightarrow> kv_store" where
  "restore_tensor n src st sel h li ks = (if \<not> has_tensor h li st src then ks
     else put_tensor h li st ((get_tensor h li st ks)\<lparr>t_data := restored_data n (chunk_size h src li st) (chunk_runs h src li) sel
            (t_data (get_tensor h li st src)) (t_data (get_tensor h li st ks))\<rparr>) ks)"

definition write_layer :: "kv_half \<Rightarrow> nat \<Rightarrow> (nat \<times> nat) list \<Rightarrow> kv_store \<Rightarrow> nat \<Rightarrow> io_op list res" where
  "write_layer h st cr ks li = (let hp = kc_hparams (ks_cache ks); l = ks_layers ks ! li
     in case h of HALF_K \<Rightarrow> write_k_layer hp st cr l
        | HALF_V \<Rightarrow> if ks_v_trans ks then write_v_trans_layer hp (cells_size (store_cells ks st)) st cr l else write_v_layer hp st cr l)"

definition read_layer :: "kv_half \<Rightarrow> bool \<Rightarrow> nat \<Rightarrow> nat \<Rightarrow> slot_info \<Rightarrow> nat \<Rightarrow> bool kv_io" where
  "read_layer h v_trans = (case h of HALF_K \<Rightarrow> read_k_layer | HALF_V \<Rightarrow> if v_trans then read_v_trans_layer else read_v_layer)"

lemma write_rows_bytes:
  assumes "length (t_data t) = n * 1 * ggml_row_size t ne" "\<And>x y. (x, y) \<in> set cr \<Longrightarrow> x < y \<and> y \<le> n"
  shows "\<exists>ops. write_rows t ne cr = Inr ops \<and> ops_bytes ops = i32_bytes (t_type t) @ u64_bytes (ggml_row_size t ne)
     @ selected_bytes n (ggml_row_size t ne) (range_idxs cr) (t_data t) 0"
proof -
  have "\<forall>(a, b) \<in> set cr. (\<lambda>(a, b). tensor_get t (a * ggml_row_size t ne) ((b - a) * ggml_row_size t ne)) (a, b)
      = tensor_get t ((0 + a) * ggml_row_size t ne) ((b - a) * ggml_row_size t ne) \<and> a \<le> b \<and> (0 + b) * ggml_row_size t ne \<le> length (t_data t)"
    using assms by (auto simp: less_imp_le)
  from write_ranges_chunks [OF this] show ?thesis by (auto simp: write_rows_def Let_def selected_bytes_def)
qed

lemma v_src_offset_exact:
  assumes "j < r" "a \<le> n" "n * r < 2 ^ 32" "n * r * sz < 2 ^ 32" "0 < n"
  shows "a < n \<Longrightarrow> v_src_offset a j n sz = (j * n + a) * sz"
proof -
  assume "a < n"
  then have l: "j * n + a < n * r" using row_major_less [OF assms(1), of a n] by (simp add: mult.commute)
  then have "(j * n + a) * sz \<le> n * r * sz" by simp
  then have "(j * n + a) * sz < 2 ^ 32" using assms(4) by linarith
  then show ?thesis using l assms(3) by (simp add: v_src_offset_def add.commute)
qed

lemma write_trans_bytes:
  assumes t: "length (t_data t) = n * r * sz" "n * r < 2 ^ 32" "n * r * sz < 2 ^ 32" "sz = t_type_size t"
    and cr: "\<And>x y. (x, y) \<in> set cr \<Longrightarrow> x < y \<and> y \<le> n"
  shows "\<exists>ops. write_each (\<lambda>j. write_ranges (\<lambda>(a, b). tensor_get t (v_src_offset a j n sz) ((b - a) * sz)) cr) [0..<r] = Inr ops
     \<and> ops_bytes ops = concat (map (selected_bytes n sz (range_idxs cr) (t_data t)) [0..<r])"
proof (rule write_each_concat, rule ballI)
  fix j assume "j \<in> set [0..<r]"
  then have j: "j < r" by simp
  have "\<forall>(a, b) \<in> set cr. (\<lambda>(a, b). tensor_get t (v_src_offset a j n sz) ((b - a) * sz)) (a, b)
      = tensor_get t ((j * n + a) * sz) ((b - a) * sz) \<and> a \<le> b \<and> (j * n + b) * sz \<le> length (t_data t)"
  proof clarify
    fix a b assume ab: "(a, b) \<in> set cr"
    have "v_src_offset a j n sz = (j * n + a) * sz" using v_src_offset_exact [OF j, of a n sz] cr [OF ab] t(2,3) by auto
    moreover have "(j * n + b) * sz \<le> n * r * sz" using run_room [OF j, of b n sz] cr [OF ab] by simp
    ultimately show "tensor_get t (v_src_offset a j n sz) ((b - a) * sz) = tensor_get t ((j * n + a) * sz) ((b - a) * sz) \<and> a \<le> b \<and> (j * n + b) * sz \<le> length (t_data t)"
      using cr [OF ab] t(1) by simp
  qed
  from write_ranges_chunks [OF this]
  show "\<exists>ops. write_ranges (\<lambda>(a, b). tensor_get t (v_src_offset a j n sz) ((b - a) * sz)) cr = Inr ops \<and> ops_bytes ops = selected_bytes n sz (range_idxs cr) (t_data t) j"
    by (simp add: selected_bytes_def)
qed

lemma write_layer_bytes:
  assumes ok: "layers_ok n ks" "li < length (ks_layers ks)" "st < kc_n_stream (ks_cache ks)" "cells_size (store_cells ks st) = n"
    and cr: "\<And>x y. (x, y) \<in> set cr \<Longrightarrow> x < y \<and> y \<le> n"
  shows "\<exists>ops. write_layer h st cr ks li = Inr ops \<and> ops_bytes ops = tensor_bytes n ks st (range_idxs cr) h li"
proof -
  obtain ne where ne: "layer_embd h ks li = Inr ne" using ok(1,2) unfolding layers_ok_def by blast
  have t: "has_tensor h li st ks \<Longrightarrow> tensor_ok n ks h li st" using ok(1,2) by (auto simp: layers_ok_def)
  have len: "st < length (kl_k_stream (ks_layers ks ! li))" "st < length (kl_v_stream (ks_layers ks ! li))" using ok(1-3) by (auto simp: layers_ok_def)
  show ?thesis
  proof (cases "has_tensor h li st ks")
    case False
    then show ?thesis using ne len ok(2)
      by (cases h) (auto simp: has_tensor_def write_layer_def write_v_layer_def write_v_trans_layer_def tensor_bytes_def Let_def)
  next
    case True
    let ?t = "get_tensor h li st ks"
    show ?thesis
    proof (cases "transposed h ks")
      case tr: True
      then have hv: "h = HALF_V" "ks_v_trans ks" by (simp_all add: transposed_def)
      then have v: "kl_v_stream (ks_layers ks ! li) ! st = Some ?t" using True by (auto simp: has_tensor_def)
      have d: "chunk_size h ks li st = t_type_size ?t" "chunk_runs h ks li = unat ne" using tr ne by (simp_all add: chunk_size_def chunk_runs_def)
      have tok: "length (t_data ?t) = n * unat ne * t_type_size ?t" "n * unat ne < 2 ^ 32" "n * unat ne * t_type_size ?t < 2 ^ 32"
        using t [OF True] tr unfolding tensor_ok_def Let_def d by blast+
      obtain ops where "write_each (\<lambda>j. write_ranges (\<lambda>(a, b). tensor_get ?t (v_src_offset a j n (t_type_size ?t)) ((b - a) * t_type_size ?t)) cr) [0..<unat ne] = Inr ops"
        "ops_bytes ops = concat (map (selected_bytes n (t_type_size ?t) (range_idxs cr) (t_data ?t)) [0..<unat ne])"
        using write_trans_bytes [OF tok refl cr, of cr] by blast
      then show ?thesis using hv v ne d True tr ok(4)
        by (simp add: write_layer_def write_v_trans_layer_def tensor_bytes_def Let_def del: get_tensor.simps)
    next
      case nt: False
      have d: "chunk_size h ks li st = ggml_row_size ?t (unat ne)" "chunk_runs h ks li = 1" using nt ne by (simp_all add: chunk_size_def chunk_runs_def)
      obtain ops where w: "write_rows ?t (unat ne) cr = Inr ops" "ops_bytes ops = i32_bytes (t_type ?t) @ u64_bytes (ggml_row_size ?t (unat ne))
          @ selected_bytes n (ggml_row_size ?t (unat ne)) (range_idxs cr) (t_data ?t) 0"
        using write_rows_bytes [of ?t n "unat ne" cr] cr t [OF True] d by (auto simp: tensor_ok_def Let_def)
      have "write_layer h st cr ks li = write_rows ?t (unat ne) cr"
        using ne nt True by (cases h) (auto simp: write_layer_def write_k_layer_def write_v_layer_def transposed_def has_tensor_def)
      then show ?thesis using w d True nt by (simp add: tensor_bytes_def Let_def)
    qed
  qed
qed

lemma io_for_cong: "(\<And>x. x \<in> set xs \<Longrightarrow> f x = g x) \<Longrightarrow> io_for f xs = io_for g xs"
  by (induction xs) simp_all

lemma read_runs_bind:
  assumes "has_tensor h li st ks" "\<forall>i \<in> set sel. i < n" "length sel \<le> n" "length src = n * r * sz"
    "length (t_data (get_tensor h li st ks)) = n * r * sz"
  shows "io_bind (io_for (\<lambda>j. read_tensor h li st (j * n * sz) (length sel * sz)) [0..<r]) f (concat (map (selected_bytes n sz sel src) [0..<r]) @ rest, ks)
    = f () (rest, put_tensor h li st ((get_tensor h li st ks)\<lparr>t_data := restored_data n sz r sel src (t_data (get_tensor h li st ks))\<rparr>) ks)"
  by (rule io_bind_Inr) (rule read_runs [OF assms], simp)

lemma read_layer_bytes:
  assumes ok: "layers_ok n src" "li < length (ks_layers src)" "st < kc_n_stream (ks_cache src)"
    and d: "store_shape ks = store_shape src" "kc_hparams (ks_cache ks) = kc_hparams (ks_cache src)" "cells_size (store_cells ks st) = n"
    and sel: "\<forall>i \<in> set sel. i < n" "length sel \<le> n" "0 < length sel"
  shows "read_layer h (ks_v_trans ks) st (length sel) (packed_slot st (length sel)) li (tensor_bytes n src st sel h li @ rest, ks)
    = (Inr True, rest, restore_tensor n src st sel h li ks)"
proof -
  obtain ne where ne: "layer_embd h src li = Inr ne" using ok(1,2) unfolding layers_ok_def by blast
  have li: "li < length (ks_layers ks)" and il: "kl_il (ks_layers ks ! li) = kl_il (ks_layers src ! li)"
    using store_shape_layer [OF d(1) [symmetric] ok(2)] by simp_all
  have ned: "layer_embd h ks li = Inr ne" using ne d(2) il by (cases h) simp_all
  have vt: "ks_v_trans ks = ks_v_trans src" "transposed h ks = transposed h src" using d(1) by (simp_all add: store_shape_def transposed_def)
  have has: "has_tensor h li st ks = has_tensor h li st src" using store_shape_tensor(1) d(1) by metis
  show ?thesis
  proof (cases "has_tensor h li st src")
    case False
    moreover have "st < length (kl_k_stream (ks_layers src ! li))" "st < length (kl_v_stream (ks_layers src ! li))" using ok by (auto simp: layers_ok_def)
    moreover have "length (kl_k_stream (ks_layers ks ! li)) = length (kl_k_stream (ks_layers src ! li))"
      "length (kl_v_stream (ks_layers ks ! li)) = length (kl_v_stream (ks_layers src ! li))"
      using store_shape_layer(3,4) [OF d(1) li] map_eq_imp_length_eq by blast+
    ultimately show ?thesis using ned has li
      by (cases h) (auto simp: has_tensor_def read_layer_def read_v_layer_def read_v_trans_layer_def tensor_bytes_def restore_tensor_def)
  next
    case True
    let ?t = "get_tensor h li st ks" and ?s = "get_tensor h li st src" and ?sz = "chunk_size h src li st" and ?r = "chunk_runs h src li"
    have ht: "has_tensor h li st ks" using True has by simp
    have sh: "t_type ?t = t_type ?s" "t_type_size ?t = t_type_size ?s" "t_blck_size ?t = t_blck_size ?s" "length (t_data ?t) = length (t_data ?s)"
      using store_shape_tensor(2) [OF d(1) ht] by (simp_all add: t_shape_def)
    have t: "i32_ok (t_type ?s)" "?sz < 2 ^ 64" "length (t_data ?s) = n * ?r * ?sz"
      "transposed h src \<Longrightarrow> ?sz < 2 ^ 32 \<and> n * ?r < 2 ^ 32 \<and> n * ?r * ?sz < 2 ^ 32"
      using ok(1,2) True by (auto simp: layers_ok_def tensor_ok_def Let_def)
    note runs = read_runs_bind [OF ht sel(1,2) t(3), unfolded sh(4), OF t(3)]
    show ?thesis
    proof (cases "transposed h src")
      case tr: True
      then have hv: "h = HALF_V" "ks_v_trans src" by (simp_all add: transposed_def)
      have c: "?sz = t_type_size ?s" "?r = unat ne" using tr ne by (simp_all add: chunk_size_def chunk_runs_def)
      have "v_dst_index 0 j n = j * n" if "j < unat ne" for j
      proof -
        have "j * n \<le> n * ?r" using that c(2) by simp
        then have "j * n < 2 ^ 32" using t(4) [OF tr] by linarith
        then show ?thesis by (simp add: v_dst_index_def)
      qed
      then have loop: "io_for (\<lambda>j. read_tensor HALF_V li st (v_dst_index 0 j n * el) m) [0..<unat ne]
          = io_for (\<lambda>j. read_tensor HALF_V li st (j * n * el) m) [0..<unat ne]" for el m
        by (intro io_for_cong) simp
      have un: "unat ne < 2 ^ 32" using unsigned_less [of ne] by simp
      obtain y where v: "kl_v_stream (ks_layers ks ! li) ! st = Some y" using ht hv by (auto simp: has_tensor_def)
      note runs' = runs [where f = "\<lambda>_. io_return True", unfolded c hv(1)]
      show ?thesis using hv True tr c ned v sh t(1) t(4) [OF tr] un sel(3) d(3) vt runs'
        by (simp add: read_layer_def read_v_trans_layer_def tensor_bytes_def restore_tensor_def Let_def i32_ok_def bind_read_i32 bind_read_u32 loop
            del: get_tensor.simps put_tensor.simps)
    next
      case nt: False
      have c: "?sz = ggml_row_size ?t (unat ne)" "?r = 1" using nt ne sh by (simp_all add: chunk_size_def chunk_runs_def ggml_row_size_def Let_def)
      have lb: "length (selected_bytes n ?sz sel (t_data ?s) 0) = length sel * ?sz" using length_selected [of 0 1 sel n "t_data ?s" ?sz] sel(1) t(3) c(2) by simp
      have room: "length sel * ?sz \<le> length (t_data ?t)" using sel(2) sh(4) t(3) c(2) by simp
      have r1: "restored_data n ?sz 1 sel (t_data ?s) (t_data ?t) = splice 0 (selected_bytes n ?sz sel (t_data ?s) 0) (t_data ?t)"
        by (simp add: restored_data_def)
      have "read_layer h (ks_v_trans ks) st (length sel) (packed_slot st (length sel)) li (inp, ks)
          = read_rows h li st (length sel) (packed_slot st (length sel)) (unat ne) (inp, ks)" for inp
        using ned ht nt vt by (cases h) (auto simp: read_layer_def read_k_layer_def read_v_layer_def transposed_def has_tensor_def)
      then show ?thesis using True nt c t(1,2) sh(1) sel(3) lb room r1 ht
        by (simp add: read_rows_def tensor_bytes_def restore_tensor_def Let_def i32_ok_def bind_read_i32 bind_read_u64 bind_read_tensor)
    qed
  qed
qed

subsection \<open>All layers of a stream\<close>

lemma restore_tensor_keeps:
  assumes "layers_ok n src" "store_shape ks = store_shape src" "\<forall>i \<in> set sel. i < n" "length sel \<le> n"
  shows "store_shape (restore_tensor n src st sel h li ks) = store_shape src" "ks_cache (restore_tensor n src st sel h li ks) = ks_cache ks"
proof -
  show "ks_cache (restore_tensor n src st sel h li ks) = ks_cache ks" by (simp add: restore_tensor_def)
  show "store_shape (restore_tensor n src st sel h li ks) = store_shape src"
  proof (cases "has_tensor h li st src")
    case True
    then have ht: "has_tensor h li st ks" using store_shape_tensor(1) [OF assms(2) [symmetric]] by simp
    have "tensor_ok n src h li st" using assms(1) True by (auto simp: layers_ok_def has_tensor_def)
    then have l: "length (t_data (get_tensor h li st src)) = n * chunk_runs h src li * chunk_size h src li st" by (simp add: tensor_ok_def Let_def)
    moreover have "length (t_data (get_tensor h li st ks)) = length (t_data (get_tensor h li st src))"
      using store_shape_tensor(2) [OF assms(2) ht] by (simp add: t_shape_def)
    ultimately have "t_shape ((get_tensor h li st ks)\<lparr>t_data := restored_data n (chunk_size h src li st) (chunk_runs h src li) sel
        (t_data (get_tensor h li st src)) (t_data (get_tensor h li st ks))\<rparr>) = t_shape (get_tensor h li st ks)"
      using length_restored [OF assms(3,4) l, of "t_data (get_tensor h li st ks)" "chunk_runs h src li"] by (simp add: t_shape_def)
    then show ?thesis using store_shape_put [OF ht] True assms(2) by (simp add: restore_tensor_def)
  qed (simp add: restore_tensor_def assms(2))
qed

definition restore_layers :: "nat \<Rightarrow> kv_store \<Rightarrow> nat \<Rightarrow> nat list \<Rightarrow> kv_half \<Rightarrow> nat list \<Rightarrow> kv_store \<Rightarrow> kv_store" where
  "restore_layers n src st sel h = fold (restore_tensor n src st sel h)"

lemma restore_layers_keeps:
  assumes "layers_ok n src" "store_shape ks = store_shape src" "\<forall>i \<in> set sel. i < n" "length sel \<le> n"
  shows "store_shape (restore_layers n src st sel h lis ks) = store_shape src" "ks_cache (restore_layers n src st sel h lis ks) = ks_cache ks"
  using assms(2) by (induction lis arbitrary: ks) (simp_all add: restore_layers_def restore_tensor_keeps [OF assms(1) _ assms(3,4)])

lemma restore_layers_get:
  assumes "layers_ok n src" "store_shape ks = store_shape src" "\<forall>i \<in> set sel. i < n" "length sel \<le> n" "distinct lis" "has_tensor h' li' st' src"
  shows "get_tensor h' li' st' (restore_layers n src st sel h lis ks) = (if h' = h \<and> st' = st \<and> li' \<in> set lis
    then (get_tensor h' li' st' ks)\<lparr>t_data := restored_data n (chunk_size h src li' st) (chunk_runs h src li') sel
      (t_data (get_tensor h li' st src)) (t_data (get_tensor h li' st ks))\<rparr> else get_tensor h' li' st' ks)"
  using assms(2,5)
proof (induction lis arbitrary: ks)
  case (Cons li lis)
  let ?ks = "restore_tensor n src st sel h li ks"
  have g: "get_tensor h' li' st' ?ks = (if h' = h \<and> st' = st \<and> li' = li
    then (get_tensor h' li' st' ks)\<lparr>t_data := restored_data n (chunk_size h src li' st) (chunk_runs h src li') sel
      (t_data (get_tensor h li' st src)) (t_data (get_tensor h li' st ks))\<rparr> else get_tensor h' li' st' ks)"
    using get_put_tensor [of h li st ks h' li' st'] store_shape_tensor(1) [OF Cons.prems(1) [symmetric], of h li st] assms(6)
    by (auto simp: restore_tensor_def)
  have "get_tensor h' li' st' (restore_layers n src st sel h lis ?ks) = (if h' = h \<and> st' = st \<and> li' \<in> set lis
    then (get_tensor h' li' st' ?ks)\<lparr>t_data := restored_data n (chunk_size h src li' st) (chunk_runs h src li') sel
      (t_data (get_tensor h li' st src)) (t_data (get_tensor h li' st ?ks))\<rparr> else get_tensor h' li' st' ?ks)"
    using Cons.IH [of ?ks] restore_tensor_keeps(1) [OF assms(1) Cons.prems(1) assms(3,4)] Cons.prems(2) by simp
  then show ?case using g Cons.prems(2) by (auto simp: restore_layers_def)
qed (simp add: restore_layers_def)

lemma read_layers_bytes:
  fixes f :: "bool \<Rightarrow> 'b kv_io"
  assumes ok: "layers_ok n src" "\<forall>li \<in> set lis. li < length (ks_layers src)" "st < kc_n_stream (ks_cache src)"
    and d: "store_shape ks = store_shape src" "kc_hparams (ks_cache ks) = kc_hparams (ks_cache src)" "cells_size (store_cells ks st) = n"
    and sel: "\<forall>i \<in> set sel. i < n" "length sel \<le> n" "0 < length sel"
  shows "io_bind (io_all (read_layer h (ks_v_trans src) st (length sel) (packed_slot st (length sel))) lis) f
      (concat (map (tensor_bytes n src st sel h) lis) @ rest, ks) = f True (rest, restore_layers n src st sel h lis ks)"
  using ok(2) d
proof (induction lis arbitrary: ks)
  case (Cons li lis)
  let ?ks = "restore_tensor n src st sel h li ks"
  have vt: "ks_v_trans ks = ks_v_trans src" using Cons.prems(2) by (simp add: store_shape_def)
  have "io_bind (read_layer h (ks_v_trans src) st (length sel) (packed_slot st (length sel)) li) g (tensor_bytes n src st sel h li @ tl, ks) = g True (tl, ?ks)"
    for g :: "bool \<Rightarrow> 'b kv_io" and tl
    using read_layer_bytes [OF ok(1) _ ok(3) Cons.prems(2-4) sel, of li h tl] Cons.prems(1) vt by (intro io_bind_Inr) simp
  moreover have "store_shape ?ks = store_shape src" "ks_cache ?ks = ks_cache ks" using restore_tensor_keeps [OF ok(1) Cons.prems(2) sel(1,2)] by simp_all
  ultimately show ?case using Cons by (simp add: io_bind_assoc restore_layers_def)
qed (simp add: restore_layers_def)

definition data_bytes :: "nat \<Rightarrow> kv_store \<Rightarrow> nat \<Rightarrow> nat list \<Rightarrow> bytes" where
  "data_bytes n ks st sel = u32_bytes (if ks_v_trans ks then 1 else 0) @ u32_bytes (length (ks_layers ks))
     @ concat (map (tensor_bytes n ks st sel HALF_K) [0..<length (ks_layers ks)])
     @ concat (map (tensor_bytes n ks st sel HALF_V) [0..<length (ks_layers ks)])"

lemma write_each_map: "write_each f (map g xs) = write_each (\<lambda>x. f (g x)) xs"
  by (induction xs) simp_all

lemma write_each_layers: "write_each f ls = write_each (\<lambda>i. f (ls ! i)) [0..<length ls]"
  using write_each_map [of f "(!) ls" "[0..<length ls]"] by (simp add: map_nth)

lemma state_write_data_bytes:
  assumes ok: "layers_ok n ks" "st < kc_n_stream (ks_cache ks)" "cells_size (store_cells ks st) = n" and cr: "\<And>x y. (x, y) \<in> set cr \<Longrightarrow> x < y \<and> y \<le> n"
  shows "\<exists>ops. state_write_data ks st cr = Inr ops \<and> ops_bytes ops = data_bytes n ks st (range_idxs cr)"
proof -
  have each: "\<exists>ops. write_each (write_layer h st cr ks) [0..<length (ks_layers ks)] = Inr ops
      \<and> ops_bytes ops = concat (map (tensor_bytes n ks st (range_idxs cr) h) [0..<length (ks_layers ks)])" for h
    by (rule write_each_concat) (use write_layer_bytes [OF ok(1) _ ok(2,3) cr] in simp)
  have w: "write_each (write_k_layer (kc_hparams (ks_cache ks)) st cr) (ks_layers ks) = write_each (write_layer HALF_K st cr ks) [0..<length (ks_layers ks)]"
    "write_each (if ks_v_trans ks then write_v_trans_layer (kc_hparams (ks_cache ks)) (cells_size (store_cells ks st)) st cr
       else write_v_layer (kc_hparams (ks_cache ks)) st cr) (ks_layers ks) = write_each (write_layer HALF_V st cr ks) [0..<length (ks_layers ks)]"
    by (subst write_each_layers, simp add: write_layer_def [abs_def])+
  obtain k_ops v_ops where "write_each (write_layer HALF_K st cr ks) [0..<length (ks_layers ks)] = Inr k_ops"
    "ops_bytes k_ops = concat (map (tensor_bytes n ks st (range_idxs cr) HALF_K) [0..<length (ks_layers ks)])"
    "write_each (write_layer HALF_V st cr ks) [0..<length (ks_layers ks)] = Inr v_ops"
    "ops_bytes v_ops = concat (map (tensor_bytes n ks st (range_idxs cr) HALF_V) [0..<length (ks_layers ks)])"
    using each [of HALF_K] each [of HALF_V] by blast
  then show ?thesis by (simp add: state_write_data_def Let_def w data_bytes_def)
qed

lemma state_read_data_bytes:
  assumes ok: "layers_ok n src" "st < kc_n_stream (ks_cache src)"
    and d: "store_shape ks = store_shape src" "kc_hparams (ks_cache ks) = kc_hparams (ks_cache src)" "cells_size (store_cells ks st) = n"
    and sel: "\<forall>i \<in> set sel. i < n" "length sel \<le> n" "0 < length sel"
  shows "state_read_data st (length sel) (packed_slot st (length sel)) (data_bytes n src st sel @ rest, ks)
    = (Inr True, rest, restore_layers n src st sel HALF_V [0..<length (ks_layers src)] (restore_layers n src st sel HALF_K [0..<length (ks_layers src)] ks))"
proof -
  let ?lis = "[0..<length (ks_layers src)]"
  have L: "length (ks_layers ks) = length (ks_layers src)" "ks_v_trans ks = ks_v_trans src" using d(1) by (auto simp: store_shape_def dest: map_eq_imp_length_eq)
  have n: "length (ks_layers src) < 2 ^ 32" using ok(1) by (simp add: layers_ok_def)
  let ?k = "restore_layers n src st sel HALF_K ?lis ks"
  have kk: "store_shape ?k = store_shape src" "ks_cache ?k = ks_cache ks" using restore_layers_keeps [OF ok(1) d(1) sel(1,2)] by simp_all
  have K: "io_bind (io_all (read_k_layer st (length sel) (packed_slot st (length sel))) ?lis) f (concat (map (tensor_bytes n src st sel HALF_K) ?lis) @ tl, ks)
      = f True (tl, ?k)" for f :: "bool \<Rightarrow> bool kv_io" and tl
    using read_layers_bytes [OF ok(1) _ ok(2) d sel, of ?lis HALF_K f tl] by (simp add: read_layer_def)
  have V: "io_all (if ks_v_trans src then read_v_trans_layer st (length sel) (packed_slot st (length sel)) else read_v_layer st (length sel) (packed_slot st (length sel)))
      ?lis (concat (map (tensor_bytes n src st sel HALF_V) ?lis) @ rest, ?k) = (Inr True, rest, restore_layers n src st sel HALF_V ?lis ?k)"
  proof -
    have "io_bind g io_return = g" for g :: "bool kv_io" by (rule ext) (auto simp: io_bind_def io_return_def split: sum.splits prod.splits)
    moreover have "io_bind (io_all (read_layer HALF_V (ks_v_trans src) st (length sel) (packed_slot st (length sel))) ?lis) io_return
        (concat (map (tensor_bytes n src st sel HALF_V) ?lis) @ rest, ?k) = io_return True (rest, restore_layers n src st sel HALF_V ?lis ?k)"
      by (rule read_layers_bytes [OF ok(1) _ ok(2) kk(1) _ _ sel]) (simp_all add: kk(2) d)
    ultimately show ?thesis by (simp add: read_layer_def if_distrib [where f = "\<lambda>f. f _"] cong: if_cong)
  qed
  show ?thesis using n sel(2) d(3) L by (simp add: state_read_data_def data_bytes_def bind_read_u32 K V)
qed

end
