(* ===== verification/KV_State_Props.thy ===== *)
theory KV_State_Props
  imports KV_State_Data
begin

section \<open>A saved cache is restored\<close>

text \<open>
  The bytes that \<open>state_write\<close> produces for a whole cache, read by \<open>state_read\<close> into another cache of the
  same shape, give the used cells back, packed to the front of each stream, with their K and V data.
\<close>

definition store_ok :: "nat \<Rightarrow> kv_store \<Rightarrow> bool" where
  "store_ok n ks \<longleftrightarrow> kv_wf n (ks_cache ks) \<and> kc_other (ks_cache ks) = None \<and> layers_ok n ks \<and> n < 2 ^ 32 \<and> kc_n_seq_max (ks_cache ks) < 2 ^ 31
     \<and> (\<forall>st < kc_n_stream (ks_cache ks). \<forall>k \<in> set (stream (ks_cache ks) st). cell_saveable (kc_n_seq_max (ks_cache ks)) k)"

definition compatible :: "nat \<Rightarrow> kv_store \<Rightarrow> kv_store \<Rightarrow> bool" where
  "compatible n src ks \<longleftrightarrow> store_shape ks = store_shape src \<and> kc_hparams (ks_cache ks) = kc_hparams (ks_cache src)
     \<and> kc_n_seq_max (ks_cache ks) = kc_n_seq_max (ks_cache src) \<and> kc_n_stream (ks_cache ks) = kc_n_stream (ks_cache src)
     \<and> kv_wf n (ks_cache ks) \<and> kc_other (ks_cache ks) = None"

text \<open>The cells that a whole save takes from a stream, in order.\<close>

definition used_idxs :: "kv_store \<Rightarrow> nat \<Rightarrow> nat list" where
  "used_idxs ks st = filter (\<lambda>i. \<not> cells_is_empty (store_cells ks st) i) [0..<cells_size (store_cells ks st)]"

definition stream_bytes :: "nat \<Rightarrow> kv_store \<Rightarrow> nat \<Rightarrow> bytes" where
  "stream_bytes n ks st = u32_bytes (length (used_idxs ks st)) @ (if used_idxs ks st = [] then []
     else concat (map (\<lambda>j. ops_bytes (write_cell (ks_cache ks) (-1) (store_cells ks st) j)) (used_idxs ks st)) @ data_bytes n ks st (used_idxs ks st))"

lemma state_write_stream_bytes:
  assumes ok: "store_ok n ks" "st < kc_n_stream (ks_cache ks)"
  shows "\<exists>ops. state_write_stream ks (-1) st = Inr ops \<and> ops_bytes ops = stream_bytes n ks st"
proof -
  let ?c = "store_cells ks st"
  have n: "cells_size ?c = n" "layers_ok n ks" using kv_wf_stream [of n "ks_cache ks" st] ok by (simp_all add: store_ok_def stream_ok_def)
  define cr where "cr = snd (cell_ranges (cells_size ?c) (add_cell (ks_cache ks) (-1) ?c))"
  have idx: "filter (add_cell (ks_cache ks) (-1) ?c) [0..<cells_size ?c] = used_idxs ks st" by (simp add: used_idxs_def add_cell_def [abs_def])
  have cnt: "cell_ranges (cells_size ?c) (add_cell (ks_cache ks) (-1) ?c) = (length (used_idxs ks st), cr)"
    using cell_ranges_spec(1) [of "cells_size ?c" "add_cell (ks_cache ks) (-1) ?c"] idx by (simp add: cr_def prod_eq_iff)
  have r: "range_idxs cr = used_idxs ks st" using cell_ranges_spec(2) [of "cells_size ?c"] idx by (simp add: cr_def)
  have b: "x < y \<and> y \<le> n" if "(x, y) \<in> set cr" for x y using cell_ranges_spec(3) that n(1) unfolding cr_def by blast
  have chk: "fold (\<lambda>(a, b) n. n + (b - a)) cr 0 = length (used_idxs ks st)"
    using cell_count_check [of "cells_size ?c" "add_cell (ks_cache ks) (-1) ?c"] cnt by simp
  obtain ops where "state_write_data ks st cr = Inr ops" "ops_bytes ops = data_bytes n ks st (used_idxs ks st)"
    using state_write_data_bytes [OF n(2) ok(2) n(1), of cr] b r by auto
  moreover have "ops_bytes (state_write_meta (ks_cache ks) st cr (-1)) = concat (map (\<lambda>j. ops_bytes (write_cell (ks_cache ks) (-1) ?c j)) (used_idxs ks st))"
    by (simp add: state_write_meta_def ranges_concat r ops_bytes_concat)
  ultimately show ?thesis by (simp add: state_write_stream_def cnt chk stream_bytes_def)
qed

lemma state_write_bytes:
  assumes ok: "store_ok n ks"
  shows "\<exists>ops. state_write ks (-1) = Inr ops
    \<and> ops_bytes ops = u32_bytes (kc_n_stream (ks_cache ks)) @ concat (map (stream_bytes n ks) [0..<kc_n_stream (ks_cache ks)])"
proof -
  obtain ops where "write_each (state_write_stream ks (-1)) [0..<kc_n_stream (ks_cache ks)] = Inr ops"
    "ops_bytes ops = concat (map (stream_bytes n ks) [0..<kc_n_stream (ks_cache ks)])"
    using write_each_concat [of "[0..<kc_n_stream (ks_cache ks)]" "state_write_stream ks (-1)" "stream_bytes n ks"] state_write_stream_bytes [OF ok] by auto
  then show ?thesis using ok by (simp add: state_write_def store_ok_def)
qed

text \<open>The state of a stream after the restore.\<close>

definition packed_cells :: "nat \<Rightarrow> kv_store \<Rightarrow> nat \<Rightarrow> kv_cell list" where
  "packed_cells n src st = map (\<lambda>j. saved_cell (ks_cache src) (stream (ks_cache src) st ! j)) (used_idxs src st)
     @ replicate (n - length (used_idxs src st)) cell_empty"

definition restore_meta :: "nat \<Rightarrow> kv_store \<Rightarrow> nat \<Rightarrow> kv_store \<Rightarrow> kv_store" where
  "restore_meta n src st ks = ks\<lparr>ks_cache := set_stream st (mk_cells (packed_cells n src st) (c_has_shift (store_cells ks st))) 0 (ks_cache ks)\<rparr>"

definition restore_stream :: "nat \<Rightarrow> kv_store \<Rightarrow> nat \<Rightarrow> kv_store \<Rightarrow> kv_store" where
  "restore_stream n src st ks = (let sel = used_idxs src st; lis = [0..<length (ks_layers src)]
     in if sel = [] then ks else restore_layers n src st sel HALF_V lis (restore_layers n src st sel HALF_K lis (restore_meta n src st ks)))"

lemma used_idxs_facts:
  assumes "store_ok n src" "st < kc_n_stream (ks_cache src)"
  shows "\<forall>i \<in> set (used_idxs src st). i < n" "length (used_idxs src st) \<le> n" "distinct (used_idxs src st)"
    "\<forall>j \<in> set (used_idxs src st). j < length (stream (ks_cache src) st) \<and> k_pos (stream (ks_cache src) st ! j) \<noteq> -1
       \<and> cell_saveable (kc_n_seq_max (ks_cache src)) (stream (ks_cache src) st ! j)"
proof -
  have n: "cells_size (store_cells src st) = n" using kv_wf_stream [of n "ks_cache src" st] assms by (simp add: store_ok_def stream_ok_def)
  show "\<forall>i \<in> set (used_idxs src st). i < n" "distinct (used_idxs src st)" using n by (simp_all add: used_idxs_def)
  show "length (used_idxs src st) \<le> n" using length_filter_le [of _ "[0..<n]"] n by (simp add: used_idxs_def)
  show "\<forall>j \<in> set (used_idxs src st). j < length (stream (ks_cache src) st) \<and> k_pos (stream (ks_cache src) st ! j) \<noteq> -1
       \<and> cell_saveable (kc_n_seq_max (ks_cache src)) (stream (ks_cache src) st ! j)"
  proof
    fix j assume "j \<in> set (used_idxs src st)"
    then have j: "j < cells_size (store_cells src st)" "\<not> cells_is_empty (store_cells src st) j" by (simp_all add: used_idxs_def)
    then have "stream (ks_cache src) st ! j \<in> set (stream (ks_cache src) st)" by (metis length_cells_list nth_mem)
    then show "j < length (stream (ks_cache src) st) \<and> k_pos (stream (ks_cache src) st ! j) \<noteq> -1
       \<and> cell_saveable (kc_n_seq_max (ks_cache src)) (stream (ks_cache src) st ! j)"
      using j assms by (auto simp: store_ok_def cells_is_empty_def cell_at_def)
  qed
qed

lemma state_read_stream_bytes:
  assumes ok: "store_ok n src" "st < kc_n_stream (ks_cache src)"
    and d: "compatible n src ks" "stream (ks_cache ks) st = replicate n cell_empty"
  shows "\<exists>si. state_read_stream (-1) None st (stream_bytes n src st @ rest, ks) = (Inr si, rest, restore_stream n src st ks)"
proof -
  let ?sel = "used_idxs src st" and ?m = "length (used_idxs src st)"
  note u = used_idxs_facts [OF ok]
  have m: "?m < 2 ^ 32" using u(2) ok(1) by (simp add: store_ok_def)
  show ?thesis
  proof (cases "?sel = []")
    case True
    then show ?thesis using m by (simp add: state_read_stream_def stream_bytes_def bind_read_u32 restore_stream_def)
  next
    case False
    have st: "st < kc_n_stream (ks_cache ks)" "st < length (kc_v_cells (ks_cache ks))" using ok(2) d(1) kv_wf_lengths by (auto simp: compatible_def)
    obtain b0 where src: "store_cells src st = mk_cells (stream (ks_cache src) st) b0" "cells_ok (stream (ks_cache src) st)"
      using stream_cells [of n "ks_cache src" st] ok by (auto simp: store_ok_def)
    obtain b where dst: "store_cells ks st = mk_cells (replicate n cell_empty) b" "b = c_has_shift (store_cells ks st)"
      using stream_cells [of n "ks_cache ks" st] st d by (auto simp: compatible_def)
    let ?meta = "concat (map (\<lambda>j. ops_bytes (write_cell (ks_cache src) (-1) (store_cells src st) j)) ?sel)"
    let ?ks1 = "set_cells st (mk_cells (packed_cells n src st) b) ks"
    have meta: "io_bind (io_all (read_cell (kc_hparams (ks_cache src)) (kc_n_seq_max (ks_cache src)) st) [0..<?m]) f (?meta @ tl, ks) = f True (tl, ?ks1)"
      for f :: "bool \<Rightarrow> slot_info option kv_io" and tl
      by (rule io_bind_Inr)
        (use read_cells_run [OF src u(4) _ _ st(2), of "[]" n b tl] dst(1) u(2) ok(1) in \<open>simp add: store_ok_def packed_cells_def\<close>)
    have rm: "ks\<lparr>ks_cache := (ks_cache ?ks1)\<lparr>kc_v_heads := (kc_v_heads (ks_cache ks))[st := 0]\<rparr>\<rparr> = restore_meta n src st ks"
      using dst(2) by (simp add: restore_meta_def set_cells_def set_stream_def)
    have "state_read_meta st ?m (-1) None (?meta @ tl, ks) = (Inr (Some (packed_slot st ?m)), tl, restore_meta n src st ks)" for tl
      using d(1) u(2) dst(1) rm
      by (simp add: state_read_meta_def read_meta_all_def compatible_def meta on_cache_def io_bind_assoc set_cells_def)
    then have M: "io_bind (state_read_meta st ?m (-1) None) f (?meta @ tl, ks) = f (Some (packed_slot st ?m)) (tl, restore_meta n src st ks)"
      for f :: "slot_info option \<Rightarrow> slot_info kv_io" and tl by (rule io_bind_Inr)
    have sh: "store_shape (restore_meta n src st ks) = store_shape src" "kc_hparams (ks_cache (restore_meta n src st ks)) = kc_hparams (ks_cache src)"
      "cells_size (store_cells (restore_meta n src st ks) st) = n"
      using d(1) st u(2) by (simp_all add: compatible_def restore_meta_def store_shape_def packed_cells_def)
    have lay: "layers_ok n src" using ok(1) by (simp add: store_ok_def)
    have D: "io_catch (state_read_data st ?m (packed_slot st ?m)) (data_bytes n src st ?sel @ rest, restore_meta n src st ks)
        = (Inr True, rest, restore_stream n src st ks)"
      using state_read_data_bytes [OF lay ok(2) sh u(1,2)] False by (simp add: io_catch_def restore_stream_def Let_def)
    then have D': "io_bind (io_catch (state_read_data st ?m (packed_slot st ?m))) f (data_bytes n src st ?sel @ rest, restore_meta n src st ks)
        = f True (rest, restore_stream n src st ks)" for f :: "bool \<Rightarrow> slot_info kv_io" by (rule io_bind_Inr)
    show ?thesis using m False by (simp add: state_read_stream_def stream_bytes_def bind_read_u32 M D')
  qed
qed

lemma compatible_seqs:
  assumes "kv_wf n kc" "kv_wf n kc'" "kc_n_stream kc = kc_n_stream kc'"
  shows "stream_seqs kc = stream_seqs kc'"
  using assms by (simp add: kv_wf_def stream_seqs_def [abs_def] seq_in_range_def strm_def)

lemma restore_meta_wf:
  assumes ok: "store_ok n src" "st < kc_n_stream (ks_cache src)" and d: "compatible n src ks"
  shows "compatible n src (restore_meta n src st ks)" "stream (ks_cache (restore_meta n src st ks)) st = packed_cells n src st"
    "s \<noteq> st \<Longrightarrow> stream (ks_cache (restore_meta n src st ks)) s = stream (ks_cache ks) s"
proof -
  have wf: "kv_wf n (ks_cache ks)" "kv_wf n (ks_cache src)" "kc_n_stream (ks_cache ks) = kc_n_stream (ks_cache src)"
    using ok(1) d by (simp_all add: store_ok_def compatible_def)
  have st: "st < length (kc_v_cells (ks_cache ks))" using ok(2) wf kv_wf_lengths by simp
  note u = used_idxs_facts [OF ok]
  obtain b0 where src: "cells_ok (stream (ks_cache src) st)" using stream_cells [OF wf(2) ok(2)] by blast
  have cell: "cell_ok (saved_cell (ks_cache src) k) \<and> k_seq (saved_cell (ks_cache src) k) \<subseteq> stream_seqs (ks_cache ks) st"
    if "k \<in> set (stream (ks_cache src) st)" "k_pos k \<noteq> -1" for k
  proof -
    have "cell_ok k" using src that(1) by blast
    then show ?thesis using that stream_k_seq [OF wf(2) ok(2) that(1)] compatible_seqs [OF wf] by (simp add: saved_cell_def cell_ok_def)
  qed
  have pk: "\<forall>k \<in> set (packed_cells n src st). cell_ok k \<and> k_seq k \<subseteq> stream_seqs (ks_cache ks) st"
    using u(4) cell [OF nth_mem] by (auto simp: packed_cells_def simp del: cells_list_nth length_cells_list)
  have "kv_wf n (set_stream st (mk_cells (packed_cells n src st) b) 0 (ks_cache ks))" for b
    by (rule set_stream_wf [OF wf(1)]) (use ok(2) wf(3) pk u(2) in \<open>auto simp: packed_cells_def\<close>)
  then have "kv_wf n (ks_cache (restore_meta n src st ks))" by (simp add: restore_meta_def)
  then show "compatible n src (restore_meta n src st ks)"
    using d by (simp add: compatible_def restore_meta_def store_shape_def set_stream_def)
  show "stream (ks_cache (restore_meta n src st ks)) st = packed_cells n src st"
    "s \<noteq> st \<Longrightarrow> stream (ks_cache (restore_meta n src st ks)) s = stream (ks_cache ks) s"
    using st by (simp_all add: restore_meta_def)
qed

definition stream_restored :: "nat \<Rightarrow> kv_store \<Rightarrow> nat \<Rightarrow> kv_store \<Rightarrow> bool" where
  "stream_restored n src st ks \<longleftrightarrow> stream (ks_cache ks) st = packed_cells n src st
     \<and> (\<forall>h li j i. has_tensor h li st src \<longrightarrow> j < chunk_runs h src li \<longrightarrow> i < length (used_idxs src st) \<longrightarrow>
          chunk (chunk_size h src li st) (j * n + i) (t_data (get_tensor h li st ks))
          = chunk (chunk_size h src li st) (j * n + used_idxs src st ! i) (t_data (get_tensor h li st src)))"

lemma restore_stream_spec:
  assumes ok: "store_ok n src" "st < kc_n_stream (ks_cache src)" and d: "compatible n src ks" "stream (ks_cache ks) st = replicate n cell_empty"
  shows "compatible n src (restore_stream n src st ks)" "stream_restored n src st (restore_stream n src st ks)"
    "s \<noteq> st \<Longrightarrow> stream (ks_cache (restore_stream n src st ks)) s = stream (ks_cache ks) s"
    "s \<noteq> st \<Longrightarrow> has_tensor h li s src \<Longrightarrow> get_tensor h li s (restore_stream n src st ks) = get_tensor h li s ks"
proof -
  let ?sel = "used_idxs src st" and ?lis = "[0..<length (ks_layers src)]" and ?m = "restore_meta n src st ks"
  let ?k = "restore_layers n src st ?sel HALF_K ?lis ?m" let ?v = "restore_layers n src st ?sel HALF_V ?lis ?k"
  note u = used_idxs_facts [OF ok] and mw = restore_meta_wf [OF ok d(1)]
  have lay: "layers_ok n src" using ok(1) by (simp add: store_ok_def)
  have shm: "store_shape ?m = store_shape src" using mw(1) by (simp add: compatible_def)
  note kk = restore_layers_keeps [OF lay shm u(1,2), of st HALF_K ?lis]
  note vv = restore_layers_keeps [OF lay kk(1) u(1,2), of st HALF_V ?lis]
  have mt: "get_tensor h li s ?m = get_tensor h li s ks" for h li s by (cases h) (simp_all add: restore_meta_def)
  have g: "get_tensor h li s ?v = (if s = st then (get_tensor h li st ks)\<lparr>t_data := restored_data n (chunk_size h src li st) (chunk_runs h src li) ?sel
      (t_data (get_tensor h li st src)) (t_data (get_tensor h li st ks))\<rparr> else get_tensor h li s ks)" if "has_tensor h li s src" for h li s
  proof -
    have "li \<in> set ?lis" using that by (simp add: has_tensor_def)
    then show ?thesis
      using restore_layers_get [OF lay kk(1) u(1,2) _ that, of ?lis st HALF_V] restore_layers_get [OF lay shm u(1,2) _ that, of ?lis st HALF_K]
      by (cases h) (auto simp: mt simp del: get_tensor.simps)
  qed
  have chunks: "chunk (chunk_size h src li st) (j * n + i) (t_data (get_tensor h li st ?v))
      = chunk (chunk_size h src li st) (j * n + ?sel ! i) (t_data (get_tensor h li st src))"
    if "has_tensor h li st src" "j < chunk_runs h src li" "i < length ?sel" for h li j i
  proof -
    have "tensor_ok n src h li st" using lay that(1) by (auto simp: layers_ok_def has_tensor_def)
    then have l: "length (t_data (get_tensor h li st src)) = n * chunk_runs h src li * chunk_size h src li st" by (simp add: tensor_ok_def Let_def)
    have "t_shape (get_tensor h li st src) = t_shape (get_tensor h li st ks)"
      using store_shape_tensor(2) [OF _ that(1), of ks] d(1) by (simp add: compatible_def)
    then have "length (t_data (get_tensor h li st ks)) = n * chunk_runs h src li * chunk_size h src li st" using l by (simp add: t_shape_def)
    then show ?thesis using restored_chunk [OF that(2,3) u(1,2) l] g [OF that(1)] by simp
  qed
  show "compatible n src (restore_stream n src st ks)"
    using d(1) mw(1) kk vv by (simp add: restore_stream_def Let_def compatible_def)
  show "stream_restored n src st (restore_stream n src st ks)"
  proof (cases "?sel = []")
    case True
    then show ?thesis using d(2) by (simp add: restore_stream_def stream_restored_def packed_cells_def)
  next
    case False
    then show ?thesis using chunks kk(2) vv(2) mw(2) by (simp add: restore_stream_def Let_def stream_restored_def)
  qed
  show "s \<noteq> st \<Longrightarrow> stream (ks_cache (restore_stream n src st ks)) s = stream (ks_cache ks) s"
    using kk(2) vv(2) mw(3) by (simp add: restore_stream_def Let_def)
  show "s \<noteq> st \<Longrightarrow> has_tensor h li s src \<Longrightarrow> get_tensor h li s (restore_stream n src st ks) = get_tensor h li s ks"
    using g by (simp add: restore_stream_def Let_def)
qed

lemma read_streams_bytes:
  assumes ok: "store_ok n src" and d: "compatible n src ks" "distinct ss" "\<forall>s \<in> set ss. s < kc_n_stream (ks_cache src) \<and> stream (ks_cache ks) s = replicate n cell_empty"
  shows "\<exists>sis ks'. read_streams (-1) None ss (concat (map (stream_bytes n src) ss) @ rest, ks) = (Inr sis, rest, ks')
    \<and> compatible n src ks' \<and> (\<forall>s \<in> set ss. stream_restored n src s ks')
    \<and> (\<forall>s. s \<notin> set ss \<longrightarrow> stream (ks_cache ks') s = stream (ks_cache ks) s \<and> (\<forall>h li. has_tensor h li s src \<longrightarrow> get_tensor h li s ks' = get_tensor h li s ks))"
  using d
proof (induction ss arbitrary: ks)
  case (Cons s ss)
  let ?ks = "restore_stream n src s ks"
  have s: "s < kc_n_stream (ks_cache src)" "stream (ks_cache ks) s = replicate n cell_empty" using Cons.prems(3) by simp_all
  note r = restore_stream_spec [OF ok s(1) Cons.prems(1) s(2)]
  obtain si where si: "state_read_stream (-1) None s (stream_bytes n src s @ concat (map (stream_bytes n src) ss) @ rest, ks)
      = (Inr si, concat (map (stream_bytes n src) ss) @ rest, ?ks)"
    using state_read_stream_bytes [OF ok s(1) Cons.prems(1) s(2)] by blast
  have "\<forall>s' \<in> set ss. s' < kc_n_stream (ks_cache src) \<and> stream (ks_cache ?ks) s' = replicate n cell_empty"
  proof
    fix s' assume s': "s' \<in> set ss"
    then have "s' \<noteq> s" using Cons.prems(2) by auto
    then show "s' < kc_n_stream (ks_cache src) \<and> stream (ks_cache ?ks) s' = replicate n cell_empty" using r(3) [of s'] Cons.prems(3) s' by simp
  qed
  from Cons.IH [OF r(1) _ this] Cons.prems(2) obtain sis ks' where
    IH: "read_streams (-1) None ss (concat (map (stream_bytes n src) ss) @ rest, ?ks) = (Inr sis, rest, ks')" "compatible n src ks'"
      "\<forall>s' \<in> set ss. stream_restored n src s' ks'"
      "\<forall>s'. s' \<notin> set ss \<longrightarrow> stream (ks_cache ks') s' = stream (ks_cache ?ks) s' \<and> (\<forall>h li. has_tensor h li s' src \<longrightarrow> get_tensor h li s' ks' = get_tensor h li s' ?ks)"
    by auto
  have "stream_restored n src s ks'" using r(2) IH(4) Cons.prems(2) by (simp add: stream_restored_def)
  moreover have "read_streams (-1) None (s # ss) (concat (map (stream_bytes n src) (s # ss)) @ rest, ks) = (Inr (si # sis), rest, ks')"
    using si IH(1) by (simp add: io_bind_def)
  ultimately show ?case using IH(2-4) r(3,4) by auto
qed simp

lemma kv_clear_fields [simp]:
  "kc_hparams (kv_clear kc) = kc_hparams kc" "kc_n_seq_max (kv_clear kc) = kc_n_seq_max kc" "kc_n_stream (kv_clear kc) = kc_n_stream kc"
  unfolding kv_clear_def
  by (rule fold_invariant_mem [where I = "\<lambda>x. kc_hparams x = kc_hparams kc"], simp_all,
      rule fold_invariant_mem [where I = "\<lambda>x. kc_n_seq_max x = kc_n_seq_max kc"], simp_all add: set_stream_def,
      rule fold_invariant_mem [where I = "\<lambda>x. kc_n_stream x = kc_n_stream kc"], simp_all)

lemma store_clear_compatible:
  assumes "compatible n src ks"
  shows "compatible n src (store_clear ks)" "t < kc_n_stream (ks_cache src) \<Longrightarrow> stream (ks_cache (store_clear ks)) t = replicate n cell_empty"
proof -
  have wf: "kv_wf n (ks_cache ks)" using assms by (simp add: compatible_def)
  have "t_shape (zero_tensor t) = t_shape t" for t by (simp add: t_shape_def zero_tensor_def)
  then have "store_shape (store_clear ks) = store_shape ks"
    by (simp add: store_shape_def store_clear_def comp_def option.map_comp)
  then show "compatible n src (store_clear ks)"
    using assms kv_clear_spec [OF wf] kv_clear_other [of "ks_cache ks"] by (simp add: compatible_def store_clear_def)
  show "t < kc_n_stream (ks_cache src) \<Longrightarrow> stream (ks_cache (store_clear ks)) t = replicate n cell_empty"
    using kv_clear_spec [OF wf] assms by (simp add: compatible_def store_clear_def)
qed

text \<open>C7. Saving a whole cache and restoring it into any cache of the same shape succeeds and consumes exactly
  the bytes that were written. Afterwards each stream holds the used cells of the saved stream, in
  order, packed to its front, with their positions, sequences and extra data and no pending shift; and
  every K and V tensor has, at the new place of each cell, the bytes that it had at the old place. The tensors have the sizes of the hyper-parameters and
  every offset into a transposed V tensor is below 4 GiB (\<open>store_ok\<close>).\<close>

theorem state_whole_roundtrip:
  assumes "store_ok n src" "compatible n src dst"
  shows "\<exists>ops dst'. state_write src (-1) = Inr ops \<and> state_read (-1) (ops_bytes ops @ rest, dst) = (Inr (), rest, dst')
    \<and> kv_wf n (ks_cache dst') \<and> (\<forall>st < kc_n_stream (ks_cache src). stream_restored n src st dst')"
proof -
  let ?N = "kc_n_stream (ks_cache src)" and ?c = "store_clear dst"
  obtain ops where ops: "state_write src (-1) = Inr ops" "ops_bytes ops = u32_bytes ?N @ concat (map (stream_bytes n src) [0..<?N])"
    using state_write_bytes [OF assms(1)] by blast
  obtain sis dst' where r: "read_streams (-1) None [0..<?N] (concat (map (stream_bytes n src) [0..<?N]) @ rest, ?c) = (Inr sis, rest, dst')"
    "compatible n src dst'" "\<forall>s \<in> set [0..<?N]. stream_restored n src s dst'"
    using read_streams_bytes [OF assms(1) store_clear_compatible(1) [OF assms(2)], of "[0..<?N]" rest] store_clear_compatible(2) [OF assms(2)] by auto
  have R: "io_bind (read_streams (-1) None [0..<?N]) f (concat (map (stream_bytes n src) [0..<?N]) @ rest, ?c) = f sis (rest, dst')"
    for f :: "slot_info list \<Rightarrow> unit kv_io" by (rule io_bind_Inr) (rule r(1))
  have "?N \<le> LLAMA_MAX_SEQ" using assms(1) by (simp add: store_ok_def kv_wf_def)
  then have N: "?N < 2 ^ 32" by (simp add: LLAMA_MAX_SEQ_def)
  have "state_read (-1) (ops_bytes ops @ rest, dst) = (Inr (), rest, dst')"
    using assms(2) N R by (simp add: state_read_def state_read_sinfo_def io_bind_assoc compatible_def ops(2) bind_read_u32)
  then show ?thesis using ops(1) r(2,3) by (auto simp: compatible_def)
qed

subsection \<open>A truncated state\<close>

lemma bind_read_u32_one: "io_bind read_u32 f (u32_bytes (Suc 0), s) = f (Suc 0) ([], s)"
  using bind_read_u32 [of "Suc 0" f "[]" s] by simp

text \<open>C36. An exception of the reader inside \<open>state_read_meta\<close> is not caught by \<open>state_read_sinfo\<close>, unlike a
  failure of the data section. If the input ends in the middle of the metadata of a cell, \<open>state_read\<close>
  throws and leaves the cells read so far in the cache: here a cell with a position that belongs to
  no sequence.\<close>

theorem state_read_truncated_leaves_cell:
  assumes "compatible n src dst" "\<not> has_cell_ext (kc_hparams (ks_cache dst))" "0 < n" "0 \<le> p" "p < 2 ^ 31"
  shows "\<exists>dst'. state_read (-1) (u32_bytes (kc_n_stream (ks_cache dst)) @ u32_bytes 1 @ i32_bytes p @ u32_bytes 1, dst)
      = (Inl (RUNTIME_ERROR ''unexpectedly reached end of buffer''), [], dst')
    \<and> stream (ks_cache dst') 0 = cell_empty\<lparr>k_pos := p\<rparr> # replicate (n - 1) cell_empty"
proof -
  let ?c = "store_clear dst" and ?N = "kc_n_stream (ks_cache dst)"
  have c: "compatible n src ?c" using store_clear_compatible(1) [OF assms(1)] .
  have N: "0 < ?N" "?N < 2 ^ 32" "?N = kc_n_stream (ks_cache src)" using assms(1) by (auto simp: compatible_def kv_wf_def LLAMA_MAX_SEQ_def)
  have e: "stream (ks_cache ?c) 0 = replicate n cell_empty" using store_clear_compatible(2) [OF assms(1)] N by simp
  have wf: "kv_wf n (ks_cache ?c)" "kc_n_stream (ks_cache ?c) = ?N" using c N by (simp_all add: compatible_def)
  then have l: "0 < length (kc_v_cells (ks_cache ?c))" using kv_wf_lengths N by simp
  obtain b where b: "store_cells ?c 0 = mk_cells (replicate n cell_empty) b" using stream_cells [OF wf(1), of 0] wf(2) N e by metis
  have p: "p \<noteq> -1" using assms(4) by simp
  let ?d = "set_cells 0 (mk_cells ((replicate n cell_empty)[0 := cell_empty\<lparr>k_pos := p\<rparr>]) b) ?c"
  have hx: "\<not> has_cell_ext (kc_hparams (ks_cache ?c))" using assms(2) by (simp add: store_clear_def)
  have short: "io_bind read_i32 f ([], ks) = (Inl (RUNTIME_ERROR ''unexpectedly reached end of buffer''), [], ks)" for f :: "int \<Rightarrow> bool kv_io" and ks
    by (simp add: read_i32_def io_bind_def io_read_def)
  have cell: "read_cell hp m 0 0 (i32_bytes p @ u32_bytes 1, ?c) = (Inl (RUNTIME_ERROR ''unexpectedly reached end of buffer''), [], ?d)"
    if "\<not> has_cell_ext hp" for hp m
    using that assms(3-5) b p
    by (simp add: read_cell_def bind_read_u32_one bind_read_i32 bind_on_cells pos_set_mk short io_bind_Inl)
  have meta: "io_bind (state_read_meta 0 (Suc 0) (-1) None) f (i32_bytes p @ u32_bytes (Suc 0), ?c)
      = (Inl (RUNTIME_ERROR ''unexpectedly reached end of buffer''), [], ?d)" for f :: "slot_info option \<Rightarrow> slot_info kv_io"
    using assms(3) b cell [OF hx] by (intro io_bind_Inl) (simp add: state_read_meta_def read_meta_all_def io_bind_Inl)
  have "read_streams (-1) None (0 # ss) (u32_bytes 1 @ i32_bytes p @ u32_bytes 1, ?c)
      = (Inl (RUNTIME_ERROR ''unexpectedly reached end of buffer''), [], ?d)" for ss
    by (simp, rule io_bind_Inl) (simp add: state_read_stream_def bind_read_u32 meta)
  moreover have "[0..<?N] = 0 # [1..<?N]" using upt_conv_Cons [OF N(1)] by simp
  ultimately have S: "io_bind (read_streams (-1) None [0..<?N]) f (u32_bytes 1 @ i32_bytes p @ u32_bytes 1, ?c)
      = (Inl (RUNTIME_ERROR ''unexpectedly reached end of buffer''), [], ?d)" for f :: "slot_info list \<Rightarrow> unit kv_io"
    by (intro io_bind_Inl) (simp del: read_streams.simps)
  then have "state_read (-1) (u32_bytes ?N @ u32_bytes 1 @ i32_bytes p @ u32_bytes 1, dst)
      = (Inl (RUNTIME_ERROR ''unexpectedly reached end of buffer''), [], ?d)"
    using assms(1) N(2) by (simp add: state_read_def state_read_sinfo_def io_bind_assoc compatible_def bind_read_u32)
  moreover have "stream (ks_cache ?d) 0 = cell_empty\<lparr>k_pos := p\<rparr> # replicate (n - 1) cell_empty"
    using l assms(3) by (cases n) simp_all
  ultimately show ?thesis by blast
qed

subsection \<open>A concrete store\<close>

text \<open>The cache of three cells with one layer, whose keys take two bytes per cell.\<close>

definition demo_store :: kv_store where
  "demo_store = \<lparr>ks_cache = demo_cache True,
     ks_layers = [\<lparr>kl_il = 0, kl_k_stream = [\<lparr>t_type = 1, t_type_size = 2, t_blck_size = 32, t_data = [1, 2, 3, 4, 5, 6]\<rparr>], kl_v_stream = [None]\<rparr>],
     ks_v_trans = False\<rparr>"

lemma demo_embd: "n_embd_k_gqa demo_hparams 0 = Inr 32" "n_embd_v_gqa demo_hparams 0 = Inr 32"
  by (simp_all add: n_embd_k_gqa_def n_embd_v_gqa_def n_head_kv_def layer_get_def n_embd_head_k_def n_embd_head_v_def is_swa_def demo_hparams_def
      LLAMA_MAX_LAYERS_def)

lemma demo_cache_fields: "kc_hparams (demo_cache True) = demo_hparams" "kc_n_seq_max (demo_cache True) = 2" "kc_n_stream (demo_cache True) = 1"
  by (simp_all add: demo_cache_def kv_cache_new_def set_stream_def)

lemma demo_store_ok: "store_ok 3 demo_store" "compatible 3 demo_store demo_store"
proof -
  have e: "layer_embd h demo_store 0 = Inr 32" for h by (cases h) (simp_all add: demo_store_def demo_cache_fields demo_embd)
  have v: "\<not> has_tensor HALF_V 0 st demo_store" for st by (cases st) (simp_all add: has_tensor_def demo_store_def)
  have "has_tensor HALF_K 0 st demo_store \<Longrightarrow> tensor_ok 3 demo_store HALF_K 0 st" for st
    using e [of HALF_K] by (auto simp: has_tensor_def tensor_ok_def chunk_size_def chunk_runs_def transposed_def demo_store_def ggml_row_size_def
        i32_ok_def Let_def)
  then have t: "has_tensor h 0 st demo_store \<longrightarrow> tensor_ok 3 demo_store h 0 st" for h st using v by (cases h) auto
  have "length (ks_layers demo_store) = 1" "length (kl_k_stream (ks_layers demo_store ! 0)) = 1" "length (kl_v_stream (ks_layers demo_store ! 0)) = 1"
    "kc_n_stream (ks_cache demo_store) = 1"
    by (simp_all add: demo_store_def demo_cache_fields)
  then have lay: "layers_ok 3 demo_store" using t e by (simp add: layers_ok_def)
  have "\<forall>st < kc_n_stream (ks_cache demo_store). \<forall>k \<in> set (stream (ks_cache demo_store) st). cell_saveable (kc_n_seq_max (ks_cache demo_store)) k"
    using demo_cache_wf(8) [of True] demo_cache_fields
    by (simp add: demo_store_def cell_saveable_def ext_ok_def i32_ok_def demo_cell_def ext_default_def LLAMA_TOKEN_NULL_def)
  then show "store_ok 3 demo_store" using lay demo_cache_wf(1,2) [of True] by (simp add: store_ok_def demo_store_def demo_cache_fields)
  show "compatible 3 demo_store demo_store" using demo_cache_wf(1,2) [of True] by (simp add: compatible_def demo_store_def)
qed

theorem state_whole_roundtrip_witness:
  "\<exists>ops dst'. state_write demo_store (-1) = Inr ops \<and> state_read (-1) (ops_bytes ops @ [7], demo_store) = (Inr (), [7], dst')
     \<and> stream_restored 3 demo_store 0 dst'"
proof -
  have "0 < kc_n_stream (ks_cache demo_store)" by (simp add: demo_store_def demo_cache_fields)
  then show ?thesis using state_whole_roundtrip [OF demo_store_ok, of "[7]"] by blast
qed

theorem state_read_truncated_leaves_cell_witness:
  "\<exists>dst'. state_read (-1) (u32_bytes 1 @ u32_bytes 1 @ i32_bytes 5 @ u32_bytes 1, demo_store)
      = (Inl (RUNTIME_ERROR ''unexpectedly reached end of buffer''), [], dst')
    \<and> stream (ks_cache dst') 0 ! 0 = cell_empty\<lparr>k_pos := 5\<rparr>"
proof -
  have "\<not> has_cell_ext (kc_hparams (ks_cache demo_store))"
    by (simp add: demo_store_def demo_cache_fields has_cell_ext_def n_pos_per_embd_def demo_hparams_def)
  moreover have "kc_n_stream (ks_cache demo_store) = 1" by (simp add: demo_store_def demo_cache_fields)
  ultimately show ?thesis using state_read_truncated_leaves_cell [OF demo_store_ok(2), of 5] by (auto simp del: cells_list_nth)
qed

text \<open>The offset of a transposed V row is computed in 32 bits when the cache is written and with a 64-bit
  product when it is read: from 4 GiB of V data per layer on the two differ, and the save takes the bytes of
  another row.\<close>

lemma v_src_offset_wraps:
  assumes "first + j * kv_size < 2 ^ 32" "2 ^ 32 \<le> (first + j * kv_size) * v_size_el"
  shows "v_src_offset first j kv_size v_size_el \<noteq> v_dst_index first j kv_size * v_size_el \<and> v_src_offset first j kv_size v_size_el < 2 ^ 32"
proof -
  have "v_src_offset first j kv_size v_size_el < 2 ^ 32" by (simp add: v_src_offset_def)
  moreover have "v_dst_index first j kv_size = first + j * kv_size" using assms(1) by (simp add: v_dst_index_def)
  ultimately show ?thesis using assms(2) by auto
qed

end
