(* ===== verification/Memory.thy ===== *)
theory Memory
  imports KV_Reach
begin

section \<open>The memory interface\<close>

text \<open>
  \<^verbatim>\<open>src/llama-memory.h\<close> and \<^verbatim>\<open>src/llama-memory.cpp\<close>: the interface through which a context uses its memory,
  the memory context that walks through the ubatches of a batch, and their implementation by the KV cache
  (\<open>llama_kv_cache_context\<close> of \<^verbatim>\<open>src/llama-kv-cache.cpp\<close>).

  \<^item> The virtual methods are the fields of the record \<open>llama_memory_i\<close>. Its type parameters are the memory
    object, the K and V data behind it (which only the backend reads and writes) and the memory context.
  \<^item> A memory context of the code holds a pointer to its memory; in the model the memory is passed to
    \<open>apply\<close>.
\<close>

datatype llama_memory_status = LLAMA_MEMORY_STATUS_SUCCESS | LLAMA_MEMORY_STATUS_NO_UPDATE
  | LLAMA_MEMORY_STATUS_FAILED_PREPARE | LLAMA_MEMORY_STATUS_FAILED_COMPUTE

definition llama_memory_status_combine :: "llama_memory_status \<Rightarrow> llama_memory_status \<Rightarrow> llama_memory_status" where
  "llama_memory_status_combine s0 s1 =
    (let second = (\<lambda>has_update. let fin = (\<lambda>has_update. if has_update then LLAMA_MEMORY_STATUS_SUCCESS else LLAMA_MEMORY_STATUS_NO_UPDATE)
       in case s1 of
         LLAMA_MEMORY_STATUS_SUCCESS \<Rightarrow> fin True
       | LLAMA_MEMORY_STATUS_NO_UPDATE \<Rightarrow> fin has_update
       | LLAMA_MEMORY_STATUS_FAILED_PREPARE \<Rightarrow> s1
       | LLAMA_MEMORY_STATUS_FAILED_COMPUTE \<Rightarrow> s1)
     in case s0 of
         LLAMA_MEMORY_STATUS_SUCCESS \<Rightarrow> second True
       | LLAMA_MEMORY_STATUS_NO_UPDATE \<Rightarrow> second False
       | LLAMA_MEMORY_STATUS_FAILED_PREPARE \<Rightarrow> s0
       | LLAMA_MEMORY_STATUS_FAILED_COMPUTE \<Rightarrow> s0)"

definition llama_memory_status_is_fail :: "llama_memory_status \<Rightarrow> bool" where
  "llama_memory_status_is_fail status = (case status of
     LLAMA_MEMORY_STATUS_SUCCESS \<Rightarrow> False | LLAMA_MEMORY_STATUS_NO_UPDATE \<Rightarrow> False
   | LLAMA_MEMORY_STATUS_FAILED_PREPARE \<Rightarrow> True | LLAMA_MEMORY_STATUS_FAILED_COMPUTE \<Rightarrow> True)"

record ('m, 'd, 'c) llama_memory_i =
  mem_init_batch :: "nat \<Rightarrow> bool \<Rightarrow> batch_allocr \<Rightarrow> 'm \<Rightarrow> ('c \<times> batch_allocr \<times> 'm) res"
  mem_init_full :: "'m \<Rightarrow> 'c"
  mem_init_update :: "'m \<Rightarrow> 'c \<times> 'm"
  mem_get_can_shift :: "'m \<Rightarrow> bool"
  mem_clear :: "'m \<Rightarrow> 'm"
  mem_seq_rm :: "llama_seq_id \<Rightarrow> llama_pos \<Rightarrow> llama_pos \<Rightarrow> 'm \<Rightarrow> (bool \<times> 'm) res"
  mem_seq_cp :: "llama_seq_id \<Rightarrow> llama_seq_id \<Rightarrow> llama_pos \<Rightarrow> llama_pos \<Rightarrow> 'm \<Rightarrow> 'm res"
  mem_seq_keep :: "llama_seq_id \<Rightarrow> 'm \<Rightarrow> 'm res"
  mem_seq_add :: "llama_seq_id \<Rightarrow> llama_pos \<Rightarrow> llama_pos \<Rightarrow> llama_pos \<Rightarrow> 'm \<Rightarrow> 'm res"
  mem_seq_div :: "llama_seq_id \<Rightarrow> llama_pos \<Rightarrow> llama_pos \<Rightarrow> int \<Rightarrow> 'm \<Rightarrow> 'm res"
  mem_seq_pos_min :: "'m \<Rightarrow> llama_seq_id \<Rightarrow> llama_pos res"
  mem_seq_pos_max :: "'m \<Rightarrow> llama_seq_id \<Rightarrow> llama_pos res"
  mem_seq_token_count :: "'m \<Rightarrow> llama_seq_id \<Rightarrow> nat res"
  ctx_next :: "'c \<Rightarrow> bool \<times> 'c"
  ctx_apply :: "'c \<Rightarrow> 'm \<times> 'd \<Rightarrow> (bool \<times> 'c \<times> 'm \<times> 'd) res"
  ctx_get_ubatch :: "'c \<Rightarrow> llama_ubatch"
  ctx_get_status :: "'c \<Rightarrow> llama_memory_status"

subsection \<open>\<open>llama_kv_cache_context\<close>\<close>

record kv_cache_context =
  kx_status :: llama_memory_status
  kx_do_shift :: bool
  kx_sc_info :: stream_copy_info
  kx_i_cur :: nat
  kx_sinfos :: "slot_info list"
  kx_ubatches :: "llama_ubatch list"
  kx_n_kv :: nat

text \<open>The four constructors. \<open>n_kv\<close> is not initialised except by the second.\<close>

definition kv_context_status :: "llama_memory_status \<Rightarrow> kv_cache_context" where
  "kv_context_status status = \<lparr>kx_status = status, kx_do_shift = False, kx_sc_info = sc_empty, kx_i_cur = 0, kx_sinfos = [], kx_ubatches = [], kx_n_kv = 0\<rparr>"

definition kv_context_full :: "kv_cache \<Rightarrow> kv_cache_context" where
  "kv_context_full kc = (let n_stream = get_n_stream kc in (kv_context_status LLAMA_MEMORY_STATUS_SUCCESS)
     \<lparr>kx_n_kv := get_size kc,
      kx_sinfos := [\<lparr>si_s0 = 0, si_s1 = n_stream - 1, si_strm = [0..<n_stream], si_idxs = replicate n_stream [0]\<rparr>]\<rparr>)"

definition kv_context_update :: "bool \<Rightarrow> stream_copy_info \<Rightarrow> kv_cache_context" where
  "kv_context_update do_shift sc = (kv_context_status
     (if \<not> do_shift \<and> sc_ssrc sc = [] then LLAMA_MEMORY_STATUS_NO_UPDATE else LLAMA_MEMORY_STATUS_SUCCESS))
     \<lparr>kx_do_shift := do_shift, kx_sc_info := sc\<rparr>"

definition kv_context_batch :: "slot_info list \<Rightarrow> llama_ubatch list \<Rightarrow> kv_cache_context" where
  "kv_context_batch sinfos ubatches = (kv_context_status LLAMA_MEMORY_STATUS_SUCCESS)\<lparr>kx_sinfos := sinfos, kx_ubatches := ubatches\<rparr>"

definition kv_context_next :: "kv_cache_context \<Rightarrow> bool \<times> kv_cache_context" where
  "kv_context_next x = (let x = x\<lparr>kx_i_cur := kx_i_cur x + 1\<rparr> in (\<not> kx_i_cur x \<ge> length (kx_ubatches x), x))"

definition kv_context_apply :: "(kv_cells list \<Rightarrow> 'b list \<Rightarrow> 'b list option) \<Rightarrow> kv_cache_context \<Rightarrow> kv_cache \<times> 'b list
    \<Rightarrow> (bool \<times> kv_cache_context \<times> kv_cache \<times> 'b list) res" where
  "kv_context_apply compute_shift x = (\<lambda>(kc, bufs).
    if kx_ubatches x = [] then
      bind_res (kv_update compute_shift (kx_do_shift x) (kx_sc_info x) kc bufs) (\<lambda>(_, kc, bufs). Inr (True, x, kc, bufs))
    else bind_res (apply_ubatch (kx_sinfos x ! kx_i_cur x) (kx_ubatches x ! kx_i_cur x) kc) (\<lambda>kc.
      Inr (True, x\<lparr>kx_n_kv := get_n_kv kc (kx_sinfos x ! kx_i_cur x)\<rparr>, kc, bufs)))"

definition kv_context_ubatch :: "kv_cache_context \<Rightarrow> llama_ubatch" where
  "kv_context_ubatch x = kx_ubatches x ! kx_i_cur x"

subsection \<open>The KV cache as a memory\<close>

definition kv_mem_init_batch :: "nat \<Rightarrow> bool \<Rightarrow> batch_allocr \<Rightarrow> kv_cache \<Rightarrow> (kv_cache_context \<times> batch_allocr \<times> kv_cache) res" where
  "kv_mem_init_batch n_ubatch embd_all balloc kc = bind_res (kv_init_batch n_ubatch balloc kc) (\<lambda>(r, balloc, kc).
     Inr (case r of KV_CONTEXT sinfos ubatches \<Rightarrow> kv_context_batch sinfos ubatches
          | FAILED_PREPARE \<Rightarrow> kv_context_status LLAMA_MEMORY_STATUS_FAILED_PREPARE, balloc, kc))"

definition kv_mem_init_update :: "kv_cache \<Rightarrow> kv_cache_context \<times> kv_cache" where
  "kv_mem_init_update kc = (let (do_shift, sc, kc) = init_update kc in (kv_context_update do_shift sc, kc))"

definition kv_memory :: "(kv_cells list \<Rightarrow> 'b list \<Rightarrow> 'b list option) \<Rightarrow> (kv_cache, 'b list, kv_cache_context) llama_memory_i" where
  "kv_memory compute_shift = \<lparr>mem_init_batch = kv_mem_init_batch, mem_init_full = kv_context_full, mem_init_update = kv_mem_init_update,
     mem_get_can_shift = get_can_shift, mem_clear = kv_clear,
     mem_seq_rm = kv_seq_rm, mem_seq_cp = kv_seq_cp, mem_seq_keep = kv_seq_keep, mem_seq_add = kv_seq_add, mem_seq_div = kv_seq_div,
     mem_seq_pos_min = kv_seq_pos_min, mem_seq_pos_max = kv_seq_pos_max, mem_seq_token_count = kv_seq_token_count,
     ctx_next = kv_context_next, ctx_apply = kv_context_apply compute_shift, ctx_get_ubatch = kv_context_ubatch, ctx_get_status = kx_status\<rparr>"

subsection \<open>Combining two memory contexts\<close>

lemma combine_is_fail [simp]:
  "llama_memory_status_is_fail (llama_memory_status_combine s0 s1) \<longleftrightarrow> llama_memory_status_is_fail s0 \<or> llama_memory_status_is_fail s1"
  by (cases s0; cases s1) (simp_all add: llama_memory_status_is_fail_def llama_memory_status_combine_def)

lemma combine_no_update:
  "llama_memory_status_combine s0 s1 = LLAMA_MEMORY_STATUS_NO_UPDATE \<longleftrightarrow> s0 = LLAMA_MEMORY_STATUS_NO_UPDATE \<and> s1 = LLAMA_MEMORY_STATUS_NO_UPDATE"
  by (cases s0; cases s1) (simp_all add: llama_memory_status_combine_def)

end
