(* ===== verification/KV_ISWA.thy ===== *)
theory KV_ISWA
  imports Memory
begin

section \<open>The interleaved sliding-window cache\<close>

text \<open>
  \<^verbatim>\<open>src/llama-kv-cache-iswa.cpp\<close>: two KV caches, one for the layers with full attention (base) and one for
  the layers with a sliding window (SWA). Every operation is performed on both. The comment in
  \<open>seq_pos_min\<close> states the invariant on which its answer rests: the base cache is a superset of the SWA
  cache.

  \<^item> The layer filters of the constructor select tensors, which the cache model does not have.
  \<^item> The 32-bit sum in the size of the SWA cache is reduced modulo \<open>2 ^ 32\<close>.
\<close>

record kv_cache_iswa =
  iw_unified :: bool
  iw_base :: kv_cache
  iw_swa :: kv_cache

definition iswa_size_swa :: "nat \<Rightarrow> nat \<Rightarrow> bool \<Rightarrow> nat \<Rightarrow> nat \<Rightarrow> nat" where
  "iswa_size_swa size_base n_swa unified n_seq_max n_ubatch =
    GGML_PAD (min size_base ((n_swa * (if unified then n_seq_max else 1) + n_ubatch) mod 2 ^ 32)) 256"

definition iswa_new :: "llama_hparams \<Rightarrow> bool \<Rightarrow> nat \<Rightarrow> llama_swa_type \<Rightarrow> bool \<Rightarrow> bool \<Rightarrow> nat \<Rightarrow> nat \<Rightarrow> nat \<Rightarrow> nat \<Rightarrow> kv_cache_iswa res" where
  "iswa_new hp step35 n_swa swa_type swa_full unified kv_size n_seq_max n_ubatch n_pad =
    (let size_base = kv_size;
         size_swa = (if swa_full then size_base else iswa_size_swa size_base n_swa unified n_seq_max n_ubatch)
     in bind_res (kv_cache_new hp step35 unified size_base n_seq_max n_pad 0 LLAMA_SWA_TYPE_NONE) (\<lambda>base.
        bind_res (kv_cache_new hp step35 unified size_swa n_seq_max n_pad n_swa swa_type) (\<lambda>swa.
          Inr \<lparr>iw_unified = unified, iw_base = base, iw_swa = swa\<rparr>)))"

text \<open>An operation that is performed on the base cache and then on the SWA cache.\<close>

definition iswa_both :: "(kv_cache \<Rightarrow> kv_cache res) \<Rightarrow> kv_cache_iswa \<Rightarrow> kv_cache_iswa res" where
  "iswa_both f kv = bind_res (f (iw_base kv)) (\<lambda>base. bind_res (f (iw_swa kv)) (\<lambda>swa. Inr (kv\<lparr>iw_base := base, iw_swa := swa\<rparr>)))"

definition iswa_clear :: "kv_cache_iswa \<Rightarrow> kv_cache_iswa" where
  "iswa_clear kv = kv\<lparr>iw_base := kv_clear (iw_base kv), iw_swa := kv_clear (iw_swa kv)\<rparr>"

definition iswa_seq_rm :: "llama_seq_id \<Rightarrow> llama_pos \<Rightarrow> llama_pos \<Rightarrow> kv_cache_iswa \<Rightarrow> (bool \<times> kv_cache_iswa) res" where
  "iswa_seq_rm s p0 p1 kv =
    bind_res (kv_seq_rm s p0 p1 (iw_base kv)) (\<lambda>(r0, base). bind_res (kv_seq_rm s p0 p1 (iw_swa kv)) (\<lambda>(r1, swa).
      Inr (r0 \<and> r1, kv\<lparr>iw_base := base, iw_swa := swa\<rparr>)))"

definition iswa_seq_cp :: "llama_seq_id \<Rightarrow> llama_seq_id \<Rightarrow> llama_pos \<Rightarrow> llama_pos \<Rightarrow> kv_cache_iswa \<Rightarrow> kv_cache_iswa res" where
  "iswa_seq_cp src dst p0 p1 = iswa_both (kv_seq_cp src dst p0 p1)"

definition iswa_seq_keep :: "llama_seq_id \<Rightarrow> kv_cache_iswa \<Rightarrow> kv_cache_iswa res" where
  "iswa_seq_keep s = iswa_both (kv_seq_keep s)"

definition iswa_seq_add :: "llama_seq_id \<Rightarrow> llama_pos \<Rightarrow> llama_pos \<Rightarrow> llama_pos \<Rightarrow> kv_cache_iswa \<Rightarrow> kv_cache_iswa res" where
  "iswa_seq_add s p0 p1 shift = iswa_both (kv_seq_add s p0 p1 shift)"

definition iswa_seq_div :: "llama_seq_id \<Rightarrow> llama_pos \<Rightarrow> llama_pos \<Rightarrow> int \<Rightarrow> kv_cache_iswa \<Rightarrow> kv_cache_iswa res" where
  "iswa_seq_div s p0 p1 d = iswa_both (kv_seq_div s p0 p1 d)"

definition iswa_seq_pos_min :: "kv_cache_iswa \<Rightarrow> llama_seq_id \<Rightarrow> llama_pos res" where
  "iswa_seq_pos_min kv s = kv_seq_pos_min (iw_swa kv) s"

definition iswa_seq_pos_max :: "kv_cache_iswa \<Rightarrow> llama_seq_id \<Rightarrow> llama_pos res" where
  "iswa_seq_pos_max kv s = kv_seq_pos_max (iw_swa kv) s"

definition iswa_seq_token_count :: "kv_cache_iswa \<Rightarrow> llama_seq_id \<Rightarrow> nat res" where
  "iswa_seq_token_count kv s = bind_res (kv_seq_token_count (iw_base kv) s) (\<lambda>b. bind_res (kv_seq_token_count (iw_swa kv) s) (\<lambda>w. Inr (max b w)))"

definition iswa_get_can_shift :: "kv_cache_iswa \<Rightarrow> bool" where
  "iswa_get_can_shift kv \<longleftrightarrow> get_can_shift (iw_base kv) \<and> get_can_shift (iw_swa kv) \<and> get_size (iw_base kv) = get_size (iw_swa kv)"

subsection \<open>\<open>llama_kv_cache_iswa_context\<close>\<close>

record iswa_context =
  ix_i_next :: nat
  ix_ubatches :: "llama_ubatch list"
  ix_base :: kv_cache_context
  ix_swa :: kv_cache_context
  ix_status :: llama_memory_status

text \<open>After the constructor of a failed context the two member contexts are null; the model has
  empty ones there, which no method reads.\<close>

definition iswa_context_status :: "llama_memory_status \<Rightarrow> iswa_context" where
  "iswa_context_status status = \<lparr>ix_i_next = 0, ix_ubatches = [], ix_base = kv_context_status status, ix_swa = kv_context_status status, ix_status = status\<rparr>"

definition iswa_context_of :: "llama_ubatch list \<Rightarrow> kv_cache_context \<Rightarrow> kv_cache_context \<Rightarrow> iswa_context" where
  "iswa_context_of ubatches base swa = \<lparr>ix_i_next = 0, ix_ubatches = ubatches, ix_base = base, ix_swa = swa,
     ix_status = llama_memory_status_combine (kx_status base) (kx_status swa)\<rparr>"

definition iswa_init_full :: "kv_cache_iswa \<Rightarrow> iswa_context" where
  "iswa_init_full kv = iswa_context_of [] (kv_context_full (iw_base kv)) (kv_context_full (iw_swa kv))"

definition iswa_init_update :: "kv_cache_iswa \<Rightarrow> iswa_context \<times> kv_cache_iswa" where
  "iswa_init_update kv = (let (cb, base) = kv_mem_init_update (iw_base kv); (cs, swa) = kv_mem_init_update (iw_swa kv)
     in (iswa_context_of [] cb cs, kv\<lparr>iw_base := base, iw_swa := swa\<rparr>))"

definition iswa_context_batch :: "slot_info list \<Rightarrow> slot_info list \<Rightarrow> llama_ubatch list \<Rightarrow> iswa_context" where
  "iswa_context_batch sinfos_base sinfos_swa ubatches =
    iswa_context_of ubatches (kv_context_batch sinfos_base ubatches) (kv_context_batch sinfos_swa ubatches)"

definition iswa_context_next :: "iswa_context \<Rightarrow> bool \<times> iswa_context" where
  "iswa_context_next x = (let x = x\<lparr>ix_base := snd (kv_context_next (ix_base x)), ix_swa := snd (kv_context_next (ix_swa x)), ix_i_next := ix_i_next x + 1\<rparr>
     in (\<not> ix_i_next x \<ge> length (ix_ubatches x), x))"

definition iswa_context_apply :: "(kv_cells list \<Rightarrow> 'b list \<Rightarrow> 'b list option) \<Rightarrow> iswa_context \<Rightarrow> kv_cache_iswa \<times> 'b list \<times> 'b list
    \<Rightarrow> (bool \<times> iswa_context \<times> kv_cache_iswa \<times> 'b list \<times> 'b list) res" where
  "iswa_context_apply compute_shift x = (\<lambda>(kv, bufs_base, bufs_swa).
    bind_res (kv_context_apply compute_shift (ix_base x) (iw_base kv, bufs_base)) (\<lambda>(r0, cb, base, bufs_base).
    bind_res (kv_context_apply compute_shift (ix_swa x) (iw_swa kv, bufs_swa)) (\<lambda>(r1, cs, swa, bufs_swa).
      Inr (r0 \<and> r1, x\<lparr>ix_base := cb, ix_swa := cs\<rparr>, kv\<lparr>iw_base := base, iw_swa := swa\<rparr>, bufs_base, bufs_swa))))"

definition iswa_context_ubatch :: "iswa_context \<Rightarrow> llama_ubatch" where
  "iswa_context_ubatch x = ix_ubatches x ! ix_i_next x"

subsection \<open>\<open>init_batch\<close>\<close>

text \<open>One attempt with one way of splitting; \<open>None\<close> is the \<open>break\<close> out of it.\<close>

definition iswa_attempt :: "(batch_allocr \<Rightarrow> (llama_ubatch \<times> batch_allocr) res) \<Rightarrow> batch_allocr \<Rightarrow> kv_cache_iswa
    \<Rightarrow> (iswa_context option \<times> batch_allocr \<times> kv_cache_iswa) res" where
  "iswa_attempt split balloc kv =
    bind_res (bind_res (run_loop (split_all split (split_reset balloc))) id) (\<lambda>(ubatches, balloc).
      if get_n_used balloc < get_n_tokens balloc then Inr (None, balloc, kv)
      else bind_res (prepare ubatches (iw_base kv)) (\<lambda>(sinfos_base, base).
        let kv = kv\<lparr>iw_base := base\<rparr> in
        if sinfos_base = [] then Inr (None, balloc, kv)
        else bind_res (prepare ubatches (iw_swa kv)) (\<lambda>(sinfos_swa, swa).
          let kv = kv\<lparr>iw_swa := swa\<rparr> in
          if sinfos_swa = [] then Inr (None, balloc, kv)
          else Inr (Some (iswa_context_batch sinfos_base sinfos_swa ubatches), balloc, kv))))"

definition iswa_init_batch :: "nat \<Rightarrow> bool \<Rightarrow> batch_allocr \<Rightarrow> kv_cache_iswa \<Rightarrow> (iswa_context \<times> batch_allocr \<times> kv_cache_iswa) res" where
  "iswa_init_batch n_ubatch embd_all balloc kv =
    bind_res (if iw_unified kv then iswa_attempt (\<lambda>a. Inr (split_simple n_ubatch a)) balloc kv else Inr (None, balloc, kv))
      (\<lambda>(r, balloc, kv). case r of
         Some x \<Rightarrow> Inr (x, balloc, kv)
       | None \<Rightarrow> bind_res (iswa_attempt (split_equal n_ubatch (\<not> iw_unified kv) 0) balloc kv) (\<lambda>(r, balloc, kv). case r of
           Some x \<Rightarrow> Inr (x, balloc, kv)
         | None \<Rightarrow> Inr (iswa_context_status LLAMA_MEMORY_STATUS_FAILED_PREPARE, balloc, kv)))"

definition iswa_memory :: "(kv_cells list \<Rightarrow> 'b list \<Rightarrow> 'b list option) \<Rightarrow> (kv_cache_iswa, 'b list \<times> 'b list, iswa_context) llama_memory_i" where
  "iswa_memory compute_shift = \<lparr>mem_init_batch = iswa_init_batch, mem_init_full = iswa_init_full, mem_init_update = iswa_init_update,
     mem_get_can_shift = iswa_get_can_shift, mem_clear = iswa_clear,
     mem_seq_rm = iswa_seq_rm, mem_seq_cp = iswa_seq_cp, mem_seq_keep = iswa_seq_keep, mem_seq_add = iswa_seq_add, mem_seq_div = iswa_seq_div,
     mem_seq_pos_min = iswa_seq_pos_min, mem_seq_pos_max = iswa_seq_pos_max, mem_seq_token_count = iswa_seq_token_count,
     ctx_next = iswa_context_next, ctx_apply = iswa_context_apply compute_shift, ctx_get_ubatch = iswa_context_ubatch, ctx_get_status = ix_status\<rparr>"

end
