(* ===== verification/Memory_Spec.thy ===== *)
theory Memory_Spec
  imports KV_ISWA
begin

section \<open>What a memory promises\<close>

text \<open>
  The abstract specification of the sequence operations of \<open>llama_memory_i\<close>: a memory is a map from
  sequences to sets of positions, and every operation is a function on that map. The locale \<open>llama_memory\<close>
  is the contract; it is interpreted for the KV cache and for the base cache of an
  interleaved sliding-window cache, whose invariant includes that the SWA cache holds a subset of the base
  cache.
\<close>

record abs_memory =
  am_seqs :: "llama_seq_id set"
  am_unified :: bool
  am_can_shift :: bool
  am_can_div :: bool
  am_pos :: "llama_seq_id \<Rightarrow> llama_pos set"

datatype mem_op = OP_CLEAR | OP_RM llama_seq_id llama_pos llama_pos | OP_RM_ALL llama_pos llama_pos
  | OP_CP llama_seq_id llama_seq_id llama_pos llama_pos | OP_KEEP llama_seq_id
  | OP_ADD llama_seq_id llama_pos llama_pos llama_pos | OP_DIV llama_seq_id llama_pos llama_pos int

definition in_rng :: "llama_pos \<Rightarrow> llama_pos \<Rightarrow> llama_pos \<Rightarrow> bool" where
  "in_rng p0 p1 p \<longleftrightarrow> range_lo p0 \<le> p \<and> p < range_hi p1"

fun run_op :: "('m, 'd, 'c) llama_memory_i \<Rightarrow> mem_op \<Rightarrow> 'm \<Rightarrow> 'm res" where
  "run_op vt OP_CLEAR m = Inr (mem_clear vt m)"
| "run_op vt (OP_RM s p0 p1) m = bind_res (mem_seq_rm vt s p0 p1 m) (\<lambda>(_, m). Inr m)"
| "run_op vt (OP_RM_ALL p0 p1) m = bind_res (mem_seq_rm vt (-1) p0 p1 m) (\<lambda>(_, m). Inr m)"
| "run_op vt (OP_CP src dst p0 p1) m = mem_seq_cp vt src dst p0 p1 m"
| "run_op vt (OP_KEEP s) m = mem_seq_keep vt s m"
| "run_op vt (OP_ADD s p0 p1 d) m = mem_seq_add vt s p0 p1 d m"
| "run_op vt (OP_DIV s p0 p1 d) m = mem_seq_div vt s p0 p1 d m"

fun abs_pos :: "mem_op \<Rightarrow> (llama_seq_id \<Rightarrow> llama_pos set) \<Rightarrow> llama_seq_id \<Rightarrow> llama_pos set" where
  "abs_pos OP_CLEAR f = (\<lambda>_. {})"
| "abs_pos (OP_RM s p0 p1) f = f(s := {p \<in> f s. \<not> in_rng p0 p1 p})"
| "abs_pos (OP_RM_ALL p0 p1) f = (\<lambda>q. {p \<in> f q. \<not> in_rng p0 p1 p})"
| "abs_pos (OP_CP src dst p0 p1) f = f(dst := f dst \<union> {p \<in> f src. in_rng p0 p1 p})"
| "abs_pos (OP_KEEP s) f = (\<lambda>q. if q = s then f q else {})"
| "abs_pos (OP_ADD s p0 p1 d) f = f(s := {p \<in> f s. \<not> in_rng p0 p1 p} \<union> {p + d |p. p \<in> f s \<and> in_rng p0 p1 p \<and> 0 \<le> p + d})"
| "abs_pos (OP_DIV s p0 p1 d) f = f(s := {p \<in> f s. \<not> in_rng p0 p1 p} \<union> {p div d |p. p \<in> f s \<and> in_rng p0 p1 p})"

definition abs_op :: "mem_op \<Rightarrow> abs_memory \<Rightarrow> abs_memory" where
  "abs_op op a = a\<lparr>am_pos := abs_pos op (am_pos a)\<rparr>"

text \<open>The effects are those that \<^verbatim>\<open>llama.h\<close> documents for the sequence operations. What the caller has to respect: ids in
  range; a copy inside a shared buffer to a destination that does not have the positions yet; \<open>seq_keep\<close> on a shared
  buffer, or when no other sequence holds anything (with one buffer per sequence the code does not remove them); shifts
  where the model supports them and of tokens that no other sequence has.\<close>

definition exclusive :: "llama_seq_id \<Rightarrow> abs_memory \<Rightarrow> bool" where
  "exclusive s a \<longleftrightarrow> (am_unified a \<longrightarrow> (\<forall>q \<in> am_seqs a. q \<noteq> s \<longrightarrow> am_pos a s \<inter> am_pos a q = {}))"

fun abs_pre :: "mem_op \<Rightarrow> abs_memory \<Rightarrow> bool" where
  "abs_pre OP_CLEAR a = True"
| "abs_pre (OP_RM s p0 p1) a = (s \<in> am_seqs a)"
| "abs_pre (OP_RM_ALL p0 p1) a = True"
| "abs_pre (OP_CP src dst p0 p1) a = (src \<in> am_seqs a \<and> dst \<in> am_seqs a \<and> src \<noteq> dst \<and> am_unified a
     \<and> am_pos a dst \<inter> {p \<in> am_pos a src. in_rng p0 p1 p} = {})"
| "abs_pre (OP_KEEP s) a = (s \<in> am_seqs a \<and> (am_unified a \<or> (\<forall>q \<in> am_seqs a. q \<noteq> s \<longrightarrow> am_pos a q = {})))"
| "abs_pre (OP_ADD s p0 p1 d) a = (s \<in> am_seqs a \<and> am_can_shift a \<and> exclusive s a)"
| "abs_pre (OP_DIV s p0 p1 d) a = (s \<in> am_seqs a \<and> am_can_shift a \<and> (d \<noteq> 1 \<longrightarrow> am_can_div a) \<and> 0 < d \<and> exclusive s a)"

fun abs_trace :: "mem_op list \<Rightarrow> abs_memory \<Rightarrow> bool" where
  "abs_trace [] a = True"
| "abs_trace (op # ops) a \<longleftrightarrow> abs_pre op a \<and> abs_trace ops (abs_op op a)"

locale llama_memory =
  fixes vt :: "('m, 'd, 'c) llama_memory_i" and inv :: "'m \<Rightarrow> bool" and absm :: "'m \<Rightarrow> abs_memory"
  assumes op_refines: "inv m \<Longrightarrow> abs_pre op (absm m) \<Longrightarrow> \<exists>m'. run_op vt op m = Inr m' \<and> inv m' \<and> absm m' = abs_op op (absm m)"
begin

lemma trace_refines:
  "inv m \<Longrightarrow> abs_trace ops (absm m) \<Longrightarrow> \<exists>m'. fold_res (run_op vt) ops m = Inr m' \<and> inv m' \<and> absm m' = fold abs_op ops (absm m)"
proof (induction ops arbitrary: m)
  case (Cons op ops)
  from op_refines [OF Cons.prems(1), of op] Cons.prems(2) obtain m1 where m1: "run_op vt op m = Inr m1" "inv m1" "absm m1 = abs_op op (absm m)" by auto
  with Cons.IH [of m1] Cons.prems(2) show ?case by simp
qed simp

end

end
