(* ===== verification/KV_Refine.thy ===== *)
theory KV_Refine
  imports Memory_Spec
begin

section \<open>The KV cache implements the memory contract\<close>

text \<open>
  Every sequence operation of the KV cache commutes with the abstraction to position sets, so \<open>llama_memory\<close>
  holds of it. The cache keeps everything but its cells and heads (\<open>same_frame\<close>).
\<close>

subsection \<open>Frames\<close>

lemma run_stream_frame [simp]: "frame (run_stream f t kc) = frame kc"
  by (simp add: run_stream_def Let_def split: prod.split)

lemma kv_clear_frame: "same_frame kc (kv_clear kc)"
  unfolding kv_clear_def by (rule fold_invariant_mem [where I = "\<lambda>x. same_frame kc x"]) (simp_all add: same_frame_def)

lemma kv_rm_all_frame: "same_frame kc (fold (run_stream f) ts kc)"
  by (rule fold_invariant_mem [where I = "\<lambda>x. same_frame kc x"]) (simp_all add: same_frame_def)

lemma kv_seq_rm_any_frame: "kv_seq_rm s p0 p1 kc = Inr (r, kc') \<Longrightarrow> same_frame kc kc'"
  using kv_rm_all_frame [of kc] by (auto simp: kv_seq_rm_def res_Inr_iffs Let_def same_frame_def split: if_splits)

lemma kv_seq_cp_frame: "kv_seq_cp src dst p0 p1 kc = Inr kc' \<Longrightarrow> strm kc src = strm kc dst \<Longrightarrow> same_frame kc kc'"
  by (auto simp: kv_seq_cp_def res_Inr_iffs Let_def same_frame_def split: if_splits prod.splits)

lemma kv_seq_keep_frame: "kv_seq_keep s kc = Inr kc' \<Longrightarrow> same_frame kc kc'"
  by (auto simp: kv_seq_keep_def res_Inr_iffs same_frame_def split: if_splits)

lemma kv_seq_add_frame: "kv_seq_add s p0 p1 d kc = Inr kc' \<Longrightarrow> same_frame kc kc'"
  by (auto simp: kv_seq_add_def res_Inr_iffs Let_def same_frame_def split: if_splits prod.splits)

lemma kv_seq_div_frame: "kv_seq_div s p0 p1 d kc = Inr kc' \<Longrightarrow> same_frame kc kc'"
  by (auto simp: kv_seq_div_def res_Inr_iffs Let_def same_frame_def split: if_splits prod.splits)

subsection \<open>\<open>seq_div\<close>\<close>

lemma kv_seq_div_divides_range:
  assumes wf: "kv_wf n kc" and o: "kc_other kc = None" and s: "seq_in_range kc s" and can: "get_can_shift kc"
    and d: "0 < d" and m: "d \<noteq> 1 \<longrightarrow> \<not> uses_mrope_shift (kc_hparams kc)"
  shows "\<exists>kc'. kv_seq_div s p0 p1 d kc = Inr kc' \<and> kv_wf n kc'
    \<and> kv_positions kc' s = {p \<in> kv_positions kc s. \<not> in_rng p0 p1 p} \<union> {p div d |p. p \<in> kv_positions kc s \<and> in_rng p0 p1 p}
    \<and> (\<forall>s'. (\<forall>k \<in> set (stream kc (strm kc s)). \<not> (s \<in> k_seq k \<and> s' \<in> k_seq k)) \<longrightarrow> kv_positions kc' s' = kv_positions kc s')"
proof -
  let ?lo = "range_lo p0" and ?hi = "range_hi p1" and ?st = "strm kc s" and ?ks = "stream kc (strm kc s)"
  let ?f = "cell_seq_div s ?lo ?hi d"
  have st: "?st < kc_n_stream kc" using strm_less [OF wf s] .
  have st': "?st < length (kc_v_cells kc)" using kv_wf_lengths [OF wf] st by simp
  note loop = seq_div.loop_stream [OF wf st, of d s ?lo ?hi, OF ballI, OF d]
  obtain kc' where kc': "kv_seq_div s p0 p1 d kc = Inr kc'"
    and eq: "kc' = (if d = 1 \<or> ?lo = ?hi then kc
       else kc\<lparr>kc_v_cells := (kc_v_cells kc)[?st := snd (cells_loop (seq_div_step s ?lo ?hi d) (kc_v_cells kc ! ?st))]\<rparr>)"
    using o s can m by (auto simp: kv_seq_div_def Let_def split: prod.splits)
  have strm': "strm kc' = strm kc" using same_frame_fields(7) [OF kv_seq_div_frame [OF kc']] .
  have str: "stream kc' t = (if t = ?st \<and> d \<noteq> 1 \<and> ?lo \<noteq> ?hi then map ?f (stream kc t) else stream kc t)" for t
    using st' by (simp add: eq loop(1))
  have nonneg: "0 \<le> k_pos k" if "k \<in> set ?ks" "s \<in> k_seq k" for k
  proof -
    have "k_pos k \<in> kv_positions kc s" using that by (auto simp: kv_positions_def seq_positions_def)
    then show ?thesis using kv_positions_nonneg [OF wf s] by blast
  qed
  let ?g = "\<lambda>k. if pos_inside ?lo ?hi k then k_pos k div d else k_pos k"
  have "seq_positions (map ?f ?ks) s = ?g ` {k \<in> set ?ks. s \<in> k_seq k}"
    by (rule seq_positions_map) (auto simp: cell_seq_div_def cell_divided_def cdiv_pos nonneg d)
  also have "\<dots> = {p \<in> kv_positions kc s. \<not> in_rng p0 p1 p} \<union> {p div d |p. p \<in> kv_positions kc s \<and> in_rng p0 p1 p}"
    unfolding kv_positions_def seq_positions_image pos_inside_def in_rng_def by (auto simp: image_iff)
  finally have moved: "seq_positions (map ?f ?ks) s
      = {p \<in> kv_positions kc s. \<not> in_rng p0 p1 p} \<union> {p div d |p. p \<in> kv_positions kc s \<and> in_rng p0 p1 p}" .
  have idle: "kv_positions kc s = {p \<in> kv_positions kc s. \<not> in_rng p0 p1 p} \<union> {p div d |p. p \<in> kv_positions kc s \<and> in_rng p0 p1 p}"
    if "d = 1 \<or> ?lo = ?hi" using that by (auto simp: in_rng_def)
  have 1: "kv_positions kc' s = {p \<in> kv_positions kc s. \<not> in_rng p0 p1 p} \<union> {p div d |p. p \<in> kv_positions kc s \<and> in_rng p0 p1 p}"
  proof (cases "d = 1 \<or> ?lo = ?hi")
    case True
    then have "kv_positions kc' s = kv_positions kc s" by (auto simp: kv_positions_def strm' str)
    then show ?thesis using idle [OF True] by simp
  next
    case False
    then have "kv_positions kc' s = seq_positions (map ?f ?ks) s" by (simp add: kv_positions_def strm' str)
    then show ?thesis using moved by simp
  qed
  have "kv_positions kc' s' = kv_positions kc s'" if "\<forall>k \<in> set ?ks. \<not> (s \<in> k_seq k \<and> s' \<in> k_seq k)" for s'
  proof -
    have "seq_positions (map ?f ?ks) s' = seq_positions ?ks s'"
      using that by (intro seq_positions_map_same) (auto simp: cell_seq_div_def cell_divided_def split: if_splits)
    then show ?thesis by (auto simp: kv_positions_def strm' str)
  qed
  then show ?thesis using kc' kv_seq_div_wf [OF wf s d kc'] 1 by blast
qed

subsection \<open>The abstraction\<close>

definition kv_inv :: "nat \<Rightarrow> kv_cache \<Rightarrow> bool" where
  "kv_inv n kc \<longleftrightarrow> kv_wf n kc \<and> kc_other kc = None"

definition kv_abs :: "kv_cache \<Rightarrow> abs_memory" where
  "kv_abs kc = \<lparr>am_seqs = {s. seq_in_range kc s}, am_unified = (kc_n_stream kc = 1), am_can_shift = get_can_shift kc,
     am_can_div = (\<not> uses_mrope_shift (kc_hparams kc)), am_pos = (\<lambda>s. if seq_in_range kc s then kv_positions kc s else {})\<rparr>"

lemma kv_abs_sel [simp]:
  "s \<in> am_seqs (kv_abs kc) \<longleftrightarrow> seq_in_range kc s" "am_unified (kv_abs kc) \<longleftrightarrow> kc_n_stream kc = 1" "am_can_shift (kv_abs kc) = get_can_shift kc"
  "am_can_div (kv_abs kc) \<longleftrightarrow> \<not> uses_mrope_shift (kc_hparams kc)" "am_pos (kv_abs kc) s = (if seq_in_range kc s then kv_positions kc s else {})"
  by (simp_all add: kv_abs_def)

lemma same_frame_can_shift: "same_frame kc kc' \<Longrightarrow> get_can_shift kc' = get_can_shift kc"
proof -
  assume "same_frame kc kc'"
  then have "frame kc' = frame kc" by (simp add: same_frame_def)
  moreover have "get_can_shift (frame x) = get_can_shift x" for x by (simp add: get_can_shift_def frame_def)
  ultimately show ?thesis by metis
qed

lemma kv_abs_eqI:
  assumes "same_frame kc kc'" "\<And>s. seq_in_range kc s \<Longrightarrow> kv_positions kc' s = abs_pos op (am_pos (kv_abs kc)) s"
    "\<And>s. \<not> seq_in_range kc s \<Longrightarrow> abs_pos op (am_pos (kv_abs kc)) s = {}"
  shows "kv_abs kc' = abs_op op (kv_abs kc)"
  using same_frame_fields [OF assms(1)] same_frame_can_shift [OF assms(1)] assms(2,3)
  by (auto simp: kv_abs_def abs_op_def fun_eq_iff)

text \<open>With one stream all sequences share it, otherwise each has its own.\<close>

lemma strm_same_iff:
  assumes "kv_wf n kc" "seq_in_range kc s" "seq_in_range kc q"
  shows "strm kc s = strm kc q \<longleftrightarrow> kc_n_stream kc = 1 \<or> s = q"
  using assms by (auto simp: kv_wf_def seq_in_range_def strm_def split: if_splits)

lemma exclusive_cells:
  assumes wf: "kv_wf n kc" and s: "seq_in_range kc s" "seq_in_range kc q" "q \<noteq> s" and ex: "exclusive s (kv_abs kc)"
  shows "\<forall>k \<in> set (stream kc (strm kc s)). \<not> (s \<in> k_seq k \<and> q \<in> k_seq k)"
proof (intro ballI notI)
  fix k assume k: "k \<in> set (stream kc (strm kc s))" "s \<in> k_seq k \<and> q \<in> k_seq k"
  then have "strm kc q = strm kc s" using stream_k_seq [OF wf strm_less [OF wf s(1)] k(1)] by (auto simp: stream_seqs_def)
  then have "kc_n_stream kc = 1" using strm_same_iff [OF wf s(1,2)] s(3) by simp
  moreover have "k_pos k \<in> kv_positions kc s \<inter> kv_positions kc q"
    using k \<open>strm kc q = strm kc s\<close> by (auto simp: kv_positions_def seq_positions_def)
  ultimately show False using ex s by (auto simp: exclusive_def)
qed

subsection \<open>The operations\<close>

lemma kv_rm_refines:
  assumes "kv_inv n kc" "seq_in_range kc s"
  shows "\<exists>r kc'. kv_seq_rm s p0 p1 kc = Inr (r, kc') \<and> kv_inv n kc' \<and> kv_abs kc' = abs_op (OP_RM s p0 p1) (kv_abs kc)"
proof -
  have wf: "kv_wf n kc" and o: "kc_other kc = None" using assms(1) by (simp_all add: kv_inv_def)
  obtain kc' where kc': "kv_seq_rm s p0 p1 kc = Inr (True, kc')" "kv_wf n kc'" "kc_other kc' = None"
    "kv_positions kc' s = {p \<in> kv_positions kc s. \<not> (range_lo p0 \<le> p \<and> p < range_hi p1)}"
    "\<forall>s'. s' \<noteq> s \<longrightarrow> kv_positions kc' s' = kv_positions kc s'"
    using kv_seq_rm_run [OF wf o assms(2), of p0 p1] by blast
  have "kv_abs kc' = abs_op (OP_RM s p0 p1) (kv_abs kc)"
    using kc'(4,5) assms(2) by (intro kv_abs_eqI [OF kv_seq_rm_any_frame [OF kc'(1)]]) (auto simp: in_rng_def)
  then show ?thesis using kc' by (auto simp: kv_inv_def)
qed

lemma kv_rm_all_refines:
  assumes "kv_inv n kc"
  shows "\<exists>r kc'. kv_seq_rm (-1) p0 p1 kc = Inr (r, kc') \<and> kv_inv n kc' \<and> kv_abs kc' = abs_op (OP_RM_ALL p0 p1) (kv_abs kc)"
proof -
  have wf: "kv_wf n kc" and o: "kc_other kc = None" using assms(1) by (simp_all add: kv_inv_def)
  obtain kc' where kc': "kv_seq_rm (-1) p0 p1 kc = Inr (True, kc')" "kv_wf n kc'"
    "\<forall>s. seq_in_range kc s \<longrightarrow> kv_positions kc' s = {p \<in> kv_positions kc s. \<not> (range_lo p0 \<le> p \<and> p < range_hi p1)}"
    using kv_seq_rm_any [OF wf o, of p0 p1] by blast
  have "kv_abs kc' = abs_op (OP_RM_ALL p0 p1) (kv_abs kc)"
    using kc'(3) by (intro kv_abs_eqI [OF kv_seq_rm_any_frame [OF kc'(1)]]) (auto simp: in_rng_def)
  then show ?thesis using kc' kv_seq_rm_other [OF kc'(1)] o by (auto simp: kv_inv_def)
qed

lemma kv_clear_refines:
  assumes "kv_inv n kc"
  shows "kv_inv n (kv_clear kc) \<and> kv_abs (kv_clear kc) = abs_op OP_CLEAR (kv_abs kc)"
proof -
  have wf: "kv_wf n kc" and o: "kc_other kc = None" using assms by (simp_all add: kv_inv_def)
  have "kv_positions (kv_clear kc) s = {}" if "seq_in_range kc s" for s
    using kv_clear_spec [OF wf] strm_less [OF wf that] same_frame_fields(7) [OF kv_clear_frame, of kc]
    by (auto simp: kv_positions_def seq_positions_def)
  then have "kv_abs (kv_clear kc) = abs_op OP_CLEAR (kv_abs kc)" by (intro kv_abs_eqI [OF kv_clear_frame]) simp_all
  then show ?thesis using kv_clear_spec [OF wf] kv_clear_other o by (simp add: kv_inv_def)
qed

lemma kv_cp_refines:
  assumes "kv_inv n kc" "abs_pre (OP_CP src dst p0 p1) (kv_abs kc)"
  shows "\<exists>kc'. kv_seq_cp src dst p0 p1 kc = Inr kc' \<and> kv_inv n kc' \<and> kv_abs kc' = abs_op (OP_CP src dst p0 p1) (kv_abs kc)"
proof -
  have wf: "kv_wf n kc" and o: "kc_other kc = None" using assms(1) by (simp_all add: kv_inv_def)
  have pre: "seq_in_range kc src" "seq_in_range kc dst" "src \<noteq> dst" "kc_n_stream kc = 1"
    "kv_positions kc dst \<inter> {p \<in> kv_positions kc src. in_rng p0 p1 p} = {}" using assms(2) by auto
  have same: "strm kc src = strm kc dst" using strm_same_iff [OF wf pre(1,2)] pre(4) by simp
  have new: "\<forall>k \<in> set (stream kc (strm kc src)). src \<in> k_seq k \<and> range_lo p0 \<le> k_pos k \<and> k_pos k < range_hi p1 \<longrightarrow> dst \<notin> k_seq k"
    using pre(5) unfolding kv_positions_def seq_positions_def same in_rng_def by blast
  obtain kc' where kc': "kv_seq_cp src dst p0 p1 kc = Inr kc'" "kv_wf n kc'"
    "kv_positions kc' dst = kv_positions kc dst \<union> {p \<in> kv_positions kc src. range_lo p0 \<le> p \<and> p < range_hi p1}"
    "\<forall>s. s \<noteq> dst \<longrightarrow> kv_positions kc' s = kv_positions kc s"
    using kv_seq_cp_within_run [OF wf o pre(1,2) same pre(3) new] by blast
  have "kv_abs kc' = abs_op (OP_CP src dst p0 p1) (kv_abs kc)"
    using kc'(3,4) pre(1,2) by (intro kv_abs_eqI [OF kv_seq_cp_frame [OF kc'(1) same]]) (auto simp: in_rng_def)
  then show ?thesis using kc' kv_seq_cp_other [OF kc'(1)] o by (simp add: kv_inv_def)
qed

lemma kv_keep_positions:
  assumes "kv_inv n kc" "seq_in_range kc s"
  shows "\<exists>kc'. kv_seq_keep s kc = Inr kc' \<and> kv_inv n kc' \<and> same_frame kc kc'
    \<and> (\<forall>q. seq_in_range kc q \<longrightarrow> kv_positions kc' q = (if q = s \<or> kc_n_stream kc \<noteq> 1 then kv_positions kc q else {}))"
proof -
  have wf: "kv_wf n kc" and o: "kc_other kc = None" using assms(1) by (simp_all add: kv_inv_def)
  obtain kc' where kc': "kv_seq_keep s kc = Inr kc'" "kv_wf n kc'" "kv_positions kc' s = kv_positions kc s"
    "\<forall>s'. s' \<noteq> s \<longrightarrow> kv_positions kc' s' = (if strm kc s' = strm kc s then {} else kv_positions kc s')"
    using kv_seq_keep_only [OF wf o assms(2)] by blast
  have "kv_positions kc' q = (if q = s \<or> kc_n_stream kc \<noteq> 1 then kv_positions kc q else {})" if "seq_in_range kc q" for q
    using kc'(3,4) strm_same_iff [OF wf that assms(2)] by (cases "q = s") simp_all
  then show ?thesis using kc' kv_seq_keep_other [OF kc'(1)] kv_seq_keep_frame [OF kc'(1)] o by (simp add: kv_inv_def)
qed

lemma kv_keep_refines:
  assumes "kv_inv n kc" "abs_pre (OP_KEEP s) (kv_abs kc)"
  shows "\<exists>kc'. kv_seq_keep s kc = Inr kc' \<and> kv_inv n kc' \<and> kv_abs kc' = abs_op (OP_KEEP s) (kv_abs kc)"
proof -
  have pre: "seq_in_range kc s" "kc_n_stream kc = 1 \<or> (\<forall>q. seq_in_range kc q \<and> q \<noteq> s \<longrightarrow> kv_positions kc q = {})" using assms(2) by auto
  obtain kc' where kc': "kv_seq_keep s kc = Inr kc'" "kv_inv n kc'" "same_frame kc kc'"
    "\<forall>q. seq_in_range kc q \<longrightarrow> kv_positions kc' q = (if q = s \<or> kc_n_stream kc \<noteq> 1 then kv_positions kc q else {})"
    using kv_keep_positions [OF assms(1) pre(1)] by blast
  then have "kv_abs kc' = abs_op (OP_KEEP s) (kv_abs kc)" using pre by (intro kv_abs_eqI [OF kc'(3)]) auto
  then show ?thesis using kc' by blast
qed

lemma kv_add_refines:
  assumes "kv_inv n kc" "abs_pre (OP_ADD s p0 p1 d) (kv_abs kc)"
  shows "\<exists>kc'. kv_seq_add s p0 p1 d kc = Inr kc' \<and> kv_inv n kc' \<and> kv_abs kc' = abs_op (OP_ADD s p0 p1 d) (kv_abs kc)"
proof -
  have wf: "kv_wf n kc" and o: "kc_other kc = None" using assms(1) by (simp_all add: kv_inv_def)
  have pre: "seq_in_range kc s" "get_can_shift kc" "exclusive s (kv_abs kc)" using assms(2) by simp_all
  obtain kc' where kc': "kv_seq_add s p0 p1 d kc = Inr kc'" "kv_wf n kc'"
    "kv_positions kc' s = {p \<in> kv_positions kc s. \<not> (range_lo p0 \<le> p \<and> p < range_hi p1)}
        \<union> {p + d |p. p \<in> kv_positions kc s \<and> range_lo p0 \<le> p \<and> p < range_hi p1 \<and> 0 \<le> p + d}"
    "\<And>s'. \<forall>k \<in> set (stream kc (strm kc s)). \<not> (s \<in> k_seq k \<and> s' \<in> k_seq k) \<Longrightarrow> kv_positions kc' s' = kv_positions kc s'"
    using kv_seq_add_shifts_range [OF wf o pre(1,2), of p0 p1 d] by blast
  have "kv_abs kc' = abs_op (OP_ADD s p0 p1 d) (kv_abs kc)"
    using kc'(3) kc'(4) [OF exclusive_cells [OF wf pre(1) _ _ pre(3)]] pre(1)
    by (intro kv_abs_eqI [OF kv_seq_add_frame [OF kc'(1)]]) (auto simp: in_rng_def)
  then show ?thesis using kc' same_frame_fields(6) [OF kv_seq_add_frame [OF kc'(1)]] o by (simp add: kv_inv_def)
qed

lemma kv_div_refines:
  assumes "kv_inv n kc" "abs_pre (OP_DIV s p0 p1 d) (kv_abs kc)"
  shows "\<exists>kc'. kv_seq_div s p0 p1 d kc = Inr kc' \<and> kv_inv n kc' \<and> kv_abs kc' = abs_op (OP_DIV s p0 p1 d) (kv_abs kc)"
proof -
  have wf: "kv_wf n kc" and o: "kc_other kc = None" using assms(1) by (simp_all add: kv_inv_def)
  have pre: "seq_in_range kc s" "get_can_shift kc" "exclusive s (kv_abs kc)" "0 < d" "d \<noteq> 1 \<longrightarrow> \<not> uses_mrope_shift (kc_hparams kc)"
    using assms(2) by simp_all
  obtain kc' where kc': "kv_seq_div s p0 p1 d kc = Inr kc'" "kv_wf n kc'"
    "kv_positions kc' s = {p \<in> kv_positions kc s. \<not> in_rng p0 p1 p} \<union> {p div d |p. p \<in> kv_positions kc s \<and> in_rng p0 p1 p}"
    "\<And>s'. \<forall>k \<in> set (stream kc (strm kc s)). \<not> (s \<in> k_seq k \<and> s' \<in> k_seq k) \<Longrightarrow> kv_positions kc' s' = kv_positions kc s'"
    using kv_seq_div_divides_range [OF wf o pre(1,2,4,5), of p0 p1] by blast
  have "kv_abs kc' = abs_op (OP_DIV s p0 p1 d) (kv_abs kc)"
    using kc'(3) kc'(4) [OF exclusive_cells [OF wf pre(1) _ _ pre(3)]] pre(1)
    by (intro kv_abs_eqI [OF kv_seq_div_frame [OF kc'(1)]]) auto
  then show ?thesis using kc' kv_seq_div_other [OF kc'(1)] o by (simp add: kv_inv_def)
qed

lemma kv_memory_sel [simp]:
  "mem_clear (kv_memory f) = kv_clear" "mem_seq_rm (kv_memory f) = kv_seq_rm" "mem_seq_cp (kv_memory f) = kv_seq_cp"
  "mem_seq_keep (kv_memory f) = kv_seq_keep" "mem_seq_add (kv_memory f) = kv_seq_add" "mem_seq_div (kv_memory f) = kv_seq_div"
  by (simp_all add: kv_memory_def)

lemma kv_op_refines:
  assumes "kv_inv n kc" "abs_pre op (kv_abs kc)"
  shows "\<exists>kc'. run_op (kv_memory f) op kc = Inr kc' \<and> kv_inv n kc' \<and> kv_abs kc' = abs_op op (kv_abs kc)"
proof (cases op)
  case OP_CLEAR
  then show ?thesis using kv_clear_refines [OF assms(1)] by simp
next
  case (OP_RM s p0 p1)
  then show ?thesis using kv_rm_refines [OF assms(1), of s p0 p1] assms(2) by auto
next
  case (OP_RM_ALL p0 p1)
  then show ?thesis using kv_rm_all_refines [OF assms(1), of p0 p1] by auto
next
  case (OP_CP src dst p0 p1)
  then show ?thesis using kv_cp_refines [OF assms(1) assms(2) [unfolded OP_CP]] by simp
next
  case (OP_KEEP s)
  then show ?thesis using kv_keep_refines [OF assms(1) assms(2) [unfolded OP_KEEP]] by simp
next
  case (OP_ADD s p0 p1 d)
  then show ?thesis using kv_add_refines [OF assms(1), of s p0 p1 d] assms(2) by simp
next
  case (OP_DIV s p0 p1 d)
  then show ?thesis using kv_div_refines [OF assms(1), of s p0 p1 d] assms(2) by simp
qed

interpretation kv: llama_memory "kv_memory f" "kv_inv n" kv_abs
  for f :: "kv_cells list \<Rightarrow> 'b list \<Rightarrow> 'b list option" and n :: nat
  by unfold_locales (rule kv_op_refines)

text \<open>C8. The KV cache implements the memory interface as \<^verbatim>\<open>llama.h\<close> documents it: any sequence of operations that the caller is
  allowed to make returns, and the positions it leaves are those of the abstract map after the same operations. Allowed are
  \<open>clear\<close> and \<open>seq_rm\<close>, \<open>seq_cp\<close> between sequences of one buffer to a destination that does not have the positions yet,
  \<open>seq_keep\<close> with one buffer for all sequences or when the other sequences are empty, and, where the model can shift, \<open>seq_add\<close>
  and \<open>seq_div\<close> of tokens that no other sequence shares.\<close>

theorem kv_cache_refines_memory:
  assumes "kv_wf n kc" and "kc_other kc = None" and "abs_trace ops (kv_abs kc)"
  shows "\<exists>kc'. fold_res (run_op (kv_memory f)) ops kc = Inr kc' \<and> kv_wf n kc' \<and> kv_abs kc' = fold abs_op ops (kv_abs kc)"
  using kv.trace_refines [of n kc ops f] assms by (auto simp: kv_inv_def)

text \<open>Removing the middle of sequence 0, closing the gap and copying the result to sequence 1.\<close>

definition demo_ops :: "mem_op list" where
  "demo_ops = [OP_RM 0 1 2, OP_ADD 0 2 (-1) (-1), OP_CP 0 1 (-1) (-1)]"

lemma demo_abs: "am_pos (kv_abs (demo_cache True)) 0 = {0, 1, 2}" "am_pos (kv_abs (demo_cache True)) 1 = {}" "am_can_shift (kv_abs (demo_cache True))"
  "am_unified (kv_abs (demo_cache True))" "0 \<in> am_seqs (kv_abs (demo_cache True))" "1 \<in> am_seqs (kv_abs (demo_cache True))"
  "q \<noteq> 0 \<Longrightarrow> am_pos (kv_abs (demo_cache True)) q = {}"
proof -
  show s: "0 \<in> am_seqs (kv_abs (demo_cache True))" "1 \<in> am_seqs (kv_abs (demo_cache True))" using demo_cache_wf(4,5) by simp_all
  have "strm (demo_cache True) 1 = strm (demo_cache True) 0" using demo_cache_wf(6,7) [of True] by simp
  then show u: "am_unified (kv_abs (demo_cache True))" using strm_same_iff [OF demo_cache_wf(1,5,4), of True] by simp
  show "am_pos (kv_abs (demo_cache True)) 0 = {0, 1, 2}" "am_pos (kv_abs (demo_cache True)) 1 = {}" "am_can_shift (kv_abs (demo_cache True))"
    using demo_cache_wf(3-5) demo_cache_positions by simp_all
  have "kv_positions (demo_cache True) q = {}" if "seq_in_range (demo_cache True) q" "q \<noteq> 0"
  proof -
    have "strm (demo_cache True) q = 0" using strm_same_iff [OF demo_cache_wf(1) that(1) demo_cache_wf(4)] u demo_cache_wf(6) [of True] by simp
    then show ?thesis using demo_cache_wf(8) [of True] that(2) by (simp add: kv_positions_def seq_positions_Cons)
  qed
  then show "q \<noteq> 0 \<Longrightarrow> am_pos (kv_abs (demo_cache True)) q = {}" by simp
qed

lemma demo_trace: "abs_trace demo_ops (kv_abs (demo_cache True))"
  "am_pos (fold abs_op demo_ops (kv_abs (demo_cache True))) 0 = {0, 1}" "am_pos (fold abs_op demo_ops (kv_abs (demo_cache True))) 1 = {0, 1}"
proof -
  let ?a = "kv_abs (demo_cache True)"
  have r: "{p \<in> {0, 1, 2 :: int}. \<not> in_rng 1 2 p} = {0, 2}"
    "{p \<in> {0, 2 :: int}. \<not> in_rng 2 (-1) p} \<union> {p + -1 |p. p \<in> {0, 2 :: int} \<and> in_rng 2 (-1) p \<and> 0 \<le> p + -1} = {0, 1}"
    "{p \<in> {0, 1 :: int}. in_rng (-1) (-1) p} = {0, 1}"
    by (auto simp: in_rng_def range_lo_def range_hi_def INT32_MAX_def)
  define a1 where "a1 = abs_op (OP_RM 0 1 2) ?a"
  have a1: "am_seqs a1 = am_seqs ?a" "am_unified a1 = am_unified ?a" "am_can_shift a1 = am_can_shift ?a" "am_pos a1 = (am_pos ?a)(0 := {0, 2})"
    using r(1) demo_abs(1) by (simp_all add: a1_def abs_op_def)
  define a2 where "a2 = abs_op (OP_ADD 0 2 (-1) (-1)) a1"
  have a2: "am_seqs a2 = am_seqs ?a" "am_unified a2 = am_unified ?a" "am_pos a2 = (am_pos ?a)(0 := {0, 1})"
    using a1 r(2) by (simp_all add: a2_def abs_op_def)
  define a3 where "a3 = abs_op (OP_CP 0 1 (-1) (-1)) a2"
  have a3: "am_pos a3 0 = {0, 1}" "am_pos a3 1 = {0, 1}" using a2(3) r(3) demo_abs(2) by (simp_all add: a3_def abs_op_def)
  have "exclusive 0 a1" using a1 demo_abs(7) by (simp add: exclusive_def del: kv_abs_sel)
  then have "abs_pre (OP_ADD 0 2 (-1) (-1)) a1" using a1 demo_abs by simp
  moreover have "abs_pre (OP_CP 0 1 (-1) (-1)) a2" using a2 demo_abs by simp
  moreover have "abs_pre (OP_RM 0 1 2) ?a" using demo_abs(5) by simp
  ultimately show "abs_trace demo_ops ?a" by (simp only: demo_ops_def abs_trace.simps a1_def a2_def simp_thms)
  have "fold abs_op demo_ops ?a = a3" by (simp add: demo_ops_def a1_def a2_def a3_def)
  then show "am_pos (fold abs_op demo_ops ?a) 0 = {0, 1}" "am_pos (fold abs_op demo_ops ?a) 1 = {0, 1}" using a3 by simp_all
qed

theorem kv_cache_refines_memory_witness:
  "\<exists>kc'. fold_res (run_op (kv_memory (\<lambda>_ (b :: nat list). Some b))) demo_ops (demo_cache True) = Inr kc'
     \<and> am_pos (kv_abs kc') 0 = {0, 1} \<and> am_pos (kv_abs kc') 1 = {0, 1}"
  using kv_cache_refines_memory [OF demo_cache_wf(1,2) demo_trace(1), of "\<lambda>_ (b :: nat list). Some b"] demo_trace(2,3) by metis

end
