(* ===== verification/KV_ISWA_Props.thy ===== *)
theory KV_ISWA_Props
  imports KV_Refine
begin

section \<open>The base cache is a superset of the SWA cache\<close>

text \<open>
  The operations on positions are monotone, and what the caller has to respect for the base cache implies it
  for any cache that holds less. So the interleaved cache implements the memory contract with the positions
  of its base cache as the abstract state, and its invariant includes that the SWA cache holds a subset. Placing a
  ubatch adds the same positions to both and purges positions of the SWA cache only.
\<close>

subsection \<open>Monotonicity of the specification\<close>

definition below :: "abs_memory \<Rightarrow> abs_memory \<Rightarrow> bool" where
  "below a b \<longleftrightarrow> am_seqs a = am_seqs b \<and> am_unified a = am_unified b \<and> am_can_shift a = am_can_shift b \<and> am_can_div a = am_can_div b
     \<and> (\<forall>s. am_pos a s \<subseteq> am_pos b s)"

lemma abs_pos_mono:
  assumes "\<And>s. f s \<subseteq> g s"
  shows "abs_pos op f s \<subseteq> abs_pos op g s"
proof -
  have "p \<in> f q \<Longrightarrow> p \<in> g q" for p q using assms by blast
  then show ?thesis by (cases op) auto
qed

lemma below_op: "below a b \<Longrightarrow> below (abs_op op a) (abs_op op b)"
  using abs_pos_mono [of "am_pos a" "am_pos b" op] by (auto simp: below_def abs_op_def)

lemma below_exclusive: "below a b \<Longrightarrow> exclusive s b \<Longrightarrow> exclusive s a"
  unfolding below_def exclusive_def by blast

lemma below_pre:
  assumes "below a b" "abs_pre op b"
  shows "abs_pre op a"
proof -
  have "am_pos a t \<inter> {p \<in> am_pos a s. in_rng p0 p1 p} \<subseteq> am_pos b t \<inter> {p \<in> am_pos b s. in_rng p0 p1 p}" for s t p0 p1
    using assms(1) unfolding below_def by blast
  then have "am_pos b t \<inter> {p \<in> am_pos b s. in_rng p0 p1 p} = {} \<Longrightarrow> am_pos a t \<inter> {p \<in> am_pos a s. in_rng p0 p1 p} = {}" for s t p0 p1 by blast
  moreover have "am_pos b q = {} \<Longrightarrow> am_pos a q = {}" for q using assms(1) unfolding below_def by blast
  ultimately show ?thesis using assms below_exclusive [OF assms(1)] by (cases op) (auto simp: below_def)
qed

subsection \<open>The interleaved cache as a memory\<close>

definition iswa_inv :: "nat \<Rightarrow> nat \<Rightarrow> kv_cache_iswa \<Rightarrow> bool" where
  "iswa_inv n m kv \<longleftrightarrow> kv_inv n (iw_base kv) \<and> kv_inv m (iw_swa kv) \<and> kc_swa_type (iw_base kv) = LLAMA_SWA_TYPE_NONE
     \<and> below (kv_abs (iw_swa kv)) (kv_abs (iw_base kv))"

lemma iswa_memory_sel [simp]:
  "mem_clear (iswa_memory f) = iswa_clear" "mem_seq_rm (iswa_memory f) = iswa_seq_rm" "mem_seq_cp (iswa_memory f) = iswa_seq_cp"
  "mem_seq_keep (iswa_memory f) = iswa_seq_keep" "mem_seq_add (iswa_memory f) = iswa_seq_add" "mem_seq_div (iswa_memory f) = iswa_seq_div"
  by (simp_all add: iswa_memory_def)

text \<open>An operation of the interleaved cache is the operation on both caches.\<close>

lemma iswa_run_op:
  "run_op (kv_memory f) op (iw_base kv) = Inr base \<Longrightarrow> run_op (kv_memory f) op (iw_swa kv) = Inr swa
   \<Longrightarrow> run_op (iswa_memory f) op kv = Inr (kv\<lparr>iw_base := base, iw_swa := swa\<rparr>)"
  by (cases op) (auto simp: iswa_clear_def iswa_seq_rm_def iswa_seq_cp_def iswa_seq_keep_def iswa_seq_add_def iswa_seq_div_def iswa_both_def
      res_Inr_iffs split: prod.splits)

lemma run_op_frame:
  assumes "kv_inv n kc" "abs_pre op (kv_abs kc)" "run_op (kv_memory f) op kc = Inr kc'"
  shows "same_frame kc kc'"
proof (cases op)
  case (OP_CP src dst p0 p1)
  then have "strm kc src = strm kc dst" using assms(1,2) strm_same_iff [of n kc src dst] by (auto simp: kv_inv_def)
  then show ?thesis using OP_CP assms(3) kv_seq_cp_frame by simp
qed (use assms(3) in \<open>auto simp: res_Inr_iffs kv_clear_frame kv_seq_keep_frame kv_seq_add_frame kv_seq_div_frame dest: kv_seq_rm_any_frame\<close>)

lemma iswa_op_refines:
  assumes "iswa_inv n m kv" "abs_pre op (kv_abs (iw_base kv))"
  shows "\<exists>kv'. run_op (iswa_memory f) op kv = Inr kv' \<and> iswa_inv n m kv' \<and> kv_abs (iw_base kv') = abs_op op (kv_abs (iw_base kv))"
proof -
  have b: "kv_inv n (iw_base kv)" and w: "kv_inv m (iw_swa kv)" and le: "below (kv_abs (iw_swa kv)) (kv_abs (iw_base kv))"
    using assms(1) by (simp_all add: iswa_inv_def)
  obtain base where base: "run_op (kv_memory f) op (iw_base kv) = Inr base" "kv_inv n base" "kv_abs base = abs_op op (kv_abs (iw_base kv))"
    using kv_op_refines [OF b assms(2)] by blast
  obtain swa where swa: "run_op (kv_memory f) op (iw_swa kv) = Inr swa" "kv_inv m swa" "kv_abs swa = abs_op op (kv_abs (iw_swa kv))"
    using kv_op_refines [OF w below_pre [OF le assms(2)]] by blast
  have "kc_swa_type base = LLAMA_SWA_TYPE_NONE"
    using same_frame_fields(4) [OF run_op_frame [OF b assms(2) base(1)]] assms(1) by (simp add: iswa_inv_def)
  then show ?thesis using iswa_run_op [OF base(1) swa(1)] base swa below_op [OF le, of op] by (simp add: iswa_inv_def)
qed

interpretation iswa: llama_memory "iswa_memory f" "iswa_inv n m" "\<lambda>kv. kv_abs (iw_base kv)"
  for f :: "kv_cells list \<Rightarrow> 'b list \<Rightarrow> 'b list option" and n m :: nat
  by unfold_locales (rule iswa_op_refines)

subsection \<open>Placing and updating\<close>

lemma reset_shifts_abs:
  assumes "kv_inv n kc"
  shows "kv_inv n (reset_shifts kc)" "kv_abs (reset_shifts kc) = kv_abs kc" "same_frame kc (reset_shifts kc)"
proof -
  have wf: "kv_wf n kc" using assms by (simp add: kv_inv_def)
  note r = reset_shifts_spec [OF wf]
  show fr: "same_frame kc (reset_shifts kc)" by (simp add: same_frame_def reset_shifts_def)
  show "kv_inv n (reset_shifts kc)" using assms r reset_shifts_other by (simp add: kv_inv_def)
  have "kv_positions (reset_shifts kc) s = kv_positions kc s" if "seq_in_range kc s" for s
  proof -
    have "seq_positions (map (\<lambda>k. k\<lparr>k_shift := shift_zero\<rparr>) (stream kc (strm kc s))) s = seq_positions (stream kc (strm kc s)) s"
      by (rule seq_positions_map_same) simp_all
    then show ?thesis using r strm_less [OF wf that] by (simp add: kv_positions_def)
  qed
  then show "kv_abs (reset_shifts kc) = kv_abs kc"
    using same_frame_fields [OF fr] same_frame_can_shift [OF fr] by (auto simp: kv_abs_def fun_eq_iff)
qed

lemma kv_abs_sc_info [simp]: "kv_abs (kc\<lparr>kc_sc_info := x\<rparr>) = kv_abs kc" "kv_inv n (kc\<lparr>kc_sc_info := x\<rparr>) = kv_inv n kc"
  by (simp_all add: kv_abs_def kv_inv_def seq_in_range_def kv_positions_def strm_def get_can_shift_def fun_eq_iff)

lemma kv_update_abs:
  assumes "kv_inv n kc" "kv_mem_init_update kc = (x, kc1)" "kv_context_apply f x (kc1, bufs) = Inr (r, x', kc', bufs')"
  shows "kv_inv n kc'" "kv_abs kc' = kv_abs kc" "kc_swa_type kc' = kc_swa_type kc"
proof -
  have kc1: "kc1 = kc\<lparr>kc_sc_info := sc_empty\<rparr>" and ub: "kx_ubatches x = []"
    using assms(2) by (auto simp: kv_mem_init_update_def init_update_def kv_context_update_def kv_context_status_def)
  have i1: "kv_inv n kc1" using assms(1) by (simp add: kc1)
  have "kc' = kc1 \<or> kc' = reset_shifts kc1"
    using assms(3) ub by (auto simp: kv_context_apply_def res_Inr_iffs split: prod.splits dest: kv_update_result)
  then show "kv_inv n kc'" "kv_abs kc' = kv_abs kc" "kc_swa_type kc' = kc_swa_type kc"
    using i1 reset_shifts_abs [OF i1] same_frame_fields(4) [OF reset_shifts_abs(3) [OF i1]] by (auto simp: kc1)
qed

lemma kv_slot_abs:
  assumes "kv_inv n kc" "ubatch_ok kc ub" and si: "slot_ok n kc ub si" and "apply_ubatch si ub kc = Inr kc'"
  shows "kv_inv n kc'" "same_frame kc kc'"
    and "am_pos (kv_abs kc') q \<subseteq> am_pos (kv_abs kc) q \<union> (if seq_in_range kc q then new_positions ub q else {})"
    and "kc_swa_type kc = LLAMA_SWA_TYPE_NONE \<Longrightarrow> am_pos (kv_abs kc') q = am_pos (kv_abs kc) q \<union> (if seq_in_range kc q then new_positions ub q else {})"
proof -
  have wf: "kv_wf n kc" and o: "kc_other kc = None" using assms(1) by (simp_all add: kv_inv_def)
  have pos: "kv_wf n kc' \<and> same_frame kc kc' \<and> (\<forall>q. seq_in_range kc q \<longrightarrow>
      kv_positions kc' q = {p \<in> kv_positions kc q \<union> new_positions ub q. purge_bound (overwritten kc si (slot_pairs kc ub) q) < p})"
    using apply_ubatch_spec [OF wf o assms(2) si] assms(4) by auto
  then show "same_frame kc kc'" by blast
  note f = same_frame_fields [OF this]
  show "kv_inv n kc'" using pos f(6) o by (simp add: kv_inv_def)
  show "am_pos (kv_abs kc') q \<subseteq> am_pos (kv_abs kc) q \<union> (if seq_in_range kc q then new_positions ub q else {})"
    using pos f(8) by auto
  have new: "0 \<le> p" if np: "p \<in> new_positions ub q" for p
  proof -
    let ?m = "slot_tokens kc ub"
    obtain i where i: "i < slot_seqs kc ub * ?m" "p = ub_pos ub ! i" using np assms(2) by (auto simp: new_positions_def ubatch_ok_def)
    then have "i div ?m < slot_seqs kc ub" "i mod ?m < ?m" using assms(2) by (simp_all add: less_mult_imp_div_less ubatch_ok_def)
    then have "0 \<le> ub_pos ub ! (i div ?m * ?m + i mod ?m)" using assms(2) by (simp add: ubatch_ok_def Let_def)
    then show ?thesis unfolding div_mult_mod_eq i(2) .
  qed
  show "am_pos (kv_abs kc') q = am_pos (kv_abs kc) q \<union> (if seq_in_range kc q then new_positions ub q else {})"
    if "kc_swa_type kc = LLAMA_SWA_TYPE_NONE"
  proof (cases "seq_in_range kc q")
    case True
    then have "kv_positions kc' q = {p \<in> kv_positions kc q \<union> new_positions ub q. -1 < p}"
      using pos no_overwrite [OF wf assms(2) si that, of q] by simp
    then show ?thesis using True f(8) kv_positions_nonneg [OF wf True] new by force
  qed (use f(8) in simp)
qed

lemma found_slot_ok: "kv_inv n kc \<Longrightarrow> ubatch_ok kc ub \<Longrightarrow> find_slot kc ub False = Inr si \<Longrightarrow> \<not> slot_empty si \<Longrightarrow> slot_ok n kc ub si"
  using find_slot_spec [of n kc ub] by (auto simp: kv_inv_def)

lemmas kv_place_abs = kv_slot_abs [OF _ _ found_slot_ok]

subsection \<open>Reachable states\<close>

inductive iswa_step :: "kv_cache_iswa \<Rightarrow> kv_cache_iswa \<Rightarrow> bool" where
  iswa_op: "abs_pre op (kv_abs (iw_base kv)) \<Longrightarrow> run_op (iswa_memory (\<lambda>_ (b :: nat list). Some b)) op kv = Inr kv' \<Longrightarrow> iswa_step kv kv'"
| iswa_keep: "seq_in_range (iw_base kv) s \<Longrightarrow> iswa_seq_keep s kv = Inr kv' \<Longrightarrow> iswa_step kv kv'"
| iswa_place: "ubatch_ok (iw_base kv) ub \<Longrightarrow> ubatch_ok (iw_swa kv) ub
    \<Longrightarrow> find_slot (iw_base kv) ub False = Inr si0 \<Longrightarrow> \<not> slot_empty si0 \<Longrightarrow> apply_ubatch si0 ub (iw_base kv) = Inr base
    \<Longrightarrow> find_slot (iw_swa kv) ub False = Inr si1 \<Longrightarrow> \<not> slot_empty si1 \<Longrightarrow> apply_ubatch si1 ub (iw_swa kv) = Inr swa
    \<Longrightarrow> iswa_step kv (kv\<lparr>iw_base := base, iw_swa := swa\<rparr>)"
| iswa_update: "iswa_init_update kv = (x, kv1) \<Longrightarrow> iswa_context_apply f x (kv1, d) = Inr (r, x', kv', (d' :: nat list \<times> nat list)) \<Longrightarrow> iswa_step kv kv'"

inductive iswa_reachable :: "kv_cache_iswa \<Rightarrow> bool" where
  iswa_init: "iswa_new hp step35 n_swa swa_type swa_full unified kv_size n_seq_max n_ubatch n_pad = Inr kv
    \<Longrightarrow> 0 < n_seq_max \<Longrightarrow> n_seq_max \<le> LLAMA_MAX_SEQ \<Longrightarrow> iswa_reachable kv"
| iswa_reach: "iswa_reachable kv \<Longrightarrow> iswa_step kv kv' \<Longrightarrow> iswa_reachable kv'"

lemma same_frame_below:
  assumes "same_frame a a'" "same_frame b b'" "below (kv_abs a) (kv_abs b)" "\<And>q. am_pos (kv_abs a') q \<subseteq> am_pos (kv_abs b') q"
  shows "below (kv_abs a') (kv_abs b')"
  using assms same_frame_fields [OF assms(1)] same_frame_fields [OF assms(2)] same_frame_can_shift [OF assms(1)] same_frame_can_shift [OF assms(2)]
  by (simp add: below_def kv_abs_def)

lemma iswa_keep_inv:
  assumes "iswa_inv n m kv" "seq_in_range (iw_base kv) s" "iswa_seq_keep s kv = Inr kv'"
  shows "iswa_inv n m kv'"
proof -
  have i: "kv_inv n (iw_base kv)" "kv_inv m (iw_swa kv)" "kc_swa_type (iw_base kv) = LLAMA_SWA_TYPE_NONE"
    "below (kv_abs (iw_swa kv)) (kv_abs (iw_base kv))" using assms(1) by (simp_all add: iswa_inv_def)
  have r: "seq_in_range (iw_swa kv) = seq_in_range (iw_base kv)" and n: "kc_n_stream (iw_swa kv) = 1 \<longleftrightarrow> kc_n_stream (iw_base kv) = 1"
    using i(4) by (auto simp: below_def kv_abs_def fun_eq_iff)
  obtain base where b: "kv_seq_keep s (iw_base kv) = Inr base" "kv_inv n base" "same_frame (iw_base kv) base"
    "\<forall>q. seq_in_range (iw_base kv) q \<longrightarrow> kv_positions base q = (if q = s \<or> kc_n_stream (iw_base kv) \<noteq> 1 then kv_positions (iw_base kv) q else {})"
    using kv_keep_positions [OF i(1) assms(2)] by blast
  obtain swa where w: "kv_seq_keep s (iw_swa kv) = Inr swa" "kv_inv m swa" "same_frame (iw_swa kv) swa"
    "\<forall>q. seq_in_range (iw_base kv) q \<longrightarrow> kv_positions swa q = (if q = s \<or> kc_n_stream (iw_base kv) \<noteq> 1 then kv_positions (iw_swa kv) q else {})"
    using kv_keep_positions [OF i(2), of s] assms(2) r n by auto
  have "am_pos (kv_abs (iw_swa kv)) q \<subseteq> am_pos (kv_abs (iw_base kv)) q" for q using i(4) unfolding below_def by blast
  then have "kv_positions (iw_swa kv) q \<subseteq> kv_positions (iw_base kv) q" if "seq_in_range (iw_base kv) q" for q using that r by (metis kv_abs_sel(5))
  then have "am_pos (kv_abs swa) q \<subseteq> am_pos (kv_abs base) q" for q
    using b(4) w(4) r same_frame_fields(8) [OF b(3)] same_frame_fields(8) [OF w(3)] by simp
  then have "below (kv_abs swa) (kv_abs base)" by (rule same_frame_below [OF w(3) b(3) i(4)])
  moreover have "kv' = kv\<lparr>iw_base := base, iw_swa := swa\<rparr>" using assms(3) b(1) w(1) by (simp add: iswa_seq_keep_def iswa_both_def)
  ultimately show ?thesis using b(2,3) w(2) i(3) same_frame_fields(4) [OF b(3)] by (simp add: iswa_inv_def)
qed

lemma iswa_context_apply_parts:
  "iswa_context_apply f x (kv, db, ds) = Inr (r, x', kv', d') \<Longrightarrow> \<exists>r0 cb' db' r1 cs' ds'.
     kv_context_apply f (ix_base x) (iw_base kv, db) = Inr (r0, cb', iw_base kv', db')
     \<and> kv_context_apply f (ix_swa x) (iw_swa kv, ds) = Inr (r1, cs', iw_swa kv', ds')"
  by (auto simp: iswa_context_apply_def res_Inr_iffs)

lemma iswa_step_inv:
  assumes "iswa_step kv kv'" "iswa_inv n m kv"
  shows "iswa_inv n m kv'"
  using assms(1)
proof cases
  case (iswa_op op)
  then show ?thesis using iswa_op_refines [OF assms(2) iswa_op(1)] by (metis sum.inject(2))
next
  case (iswa_keep s)
  then show ?thesis using iswa_keep_inv [OF assms(2)] by blast
next
  case (iswa_place ub si0 base si1 swa)
  have i: "kv_inv n (iw_base kv)" "kv_inv m (iw_swa kv)" "kc_swa_type (iw_base kv) = LLAMA_SWA_TYPE_NONE"
    "below (kv_abs (iw_swa kv)) (kv_abs (iw_base kv))" using assms(2) by (simp_all add: iswa_inv_def)
  note b = kv_place_abs [OF i(1) iswa_place(2) i(1) iswa_place(2,4,5,6)] and w = kv_place_abs [OF i(2) iswa_place(3) i(2) iswa_place(3,7,8,9)]
  have "seq_in_range (iw_swa kv) = seq_in_range (iw_base kv)" using i(4) by (auto simp: below_def kv_abs_def fun_eq_iff)
  moreover have "am_pos (kv_abs (iw_swa kv)) q \<subseteq> am_pos (kv_abs (iw_base kv)) q" for q using i(4) unfolding below_def by blast
  ultimately have "am_pos (kv_abs swa) q \<subseteq> am_pos (kv_abs base) q" for q
    using w(3) [of q] b(4) [OF i(3), of q] by (metis (no_types, lifting) Un_mono order_refl order_trans)
  then have "below (kv_abs swa) (kv_abs base)" by (rule same_frame_below [OF w(2) b(2) i(4)])
  then show ?thesis using b(1) w(1) i(3) same_frame_fields(4) [OF b(2)] iswa_place(1) by (simp add: iswa_inv_def)
next
  case (iswa_update x kv1 f d r x' d')
  have i: "kv_inv n (iw_base kv)" "kv_inv m (iw_swa kv)" "kc_swa_type (iw_base kv) = LLAMA_SWA_TYPE_NONE"
    "below (kv_abs (iw_swa kv)) (kv_abs (iw_base kv))" using assms(2) by (simp_all add: iswa_inv_def)
  obtain cb base cs swa where u: "kv_mem_init_update (iw_base kv) = (cb, base)" "kv_mem_init_update (iw_swa kv) = (cs, swa)"
    by (metis surj_pair)
  then have x: "x = iswa_context_of [] cb cs" "kv1 = kv\<lparr>iw_base := base, iw_swa := swa\<rparr>"
    using iswa_update(1) by (auto simp: iswa_init_update_def)
  obtain r0 cb' r1 cs' db' ds' where a: "kv_context_apply f cb (base, fst d) = Inr (r0, cb', iw_base kv', db')"
    "kv_context_apply f cs (swa, snd d) = Inr (r1, cs', iw_swa kv', ds')"
    using iswa_context_apply_parts [of f x kv1 "fst d" "snd d"] iswa_update(2) x by (auto simp: iswa_context_of_def)
  show ?thesis using kv_update_abs [OF i(1) u(1) a(1)] kv_update_abs [OF i(2) u(2) a(2)] i(3,4) by (simp add: iswa_inv_def)
qed

lemma kv_cache_new_fields:
  "kv_cache_new hp step35 unified n n_seq_max n_pad n_swa swa_type = Inr kc \<Longrightarrow> kc_swa_type kc = swa_type \<and> kc_hparams kc = hp \<and> kc_step35 kc = step35
     \<and> kc_n_stream kc = (if unified then 1 else n_seq_max)"
  by (auto simp: kv_cache_new_def res_Inr_iffs Let_def)

lemma iswa_new_inv:
  assumes "iswa_new hp step35 n_swa swa_type swa_full unified kv_size n_seq_max n_ubatch n_pad = Inr kv" "0 < n_seq_max" "n_seq_max \<le> LLAMA_MAX_SEQ"
  shows "\<exists>n m. iswa_inv n m kv"
proof -
  obtain m where new: "kv_cache_new hp step35 unified kv_size n_seq_max n_pad 0 LLAMA_SWA_TYPE_NONE = Inr (iw_base kv)"
    "kv_cache_new hp step35 unified m n_seq_max n_pad n_swa swa_type = Inr (iw_swa kv)"
    using assms(1) by (auto simp: iswa_new_def res_Inr_iffs Let_def)
  note b = kv_cache_new_wf [OF new(1) assms(2,3)] and w = kv_cache_new_wf [OF new(2) assms(2,3)]
  note f = kv_cache_new_fields [OF new(1)] kv_cache_new_fields [OF new(2)]
  then have "kc_seq_to_stream (iw_swa kv) = kc_seq_to_stream (iw_base kv)" using b w by (simp add: kv_wf_def)
  then have "iswa_inv kv_size m kv" using b w f
    by (auto simp: iswa_inv_def kv_inv_def below_def kv_abs_def seq_in_range_def get_can_shift_def)
  then show ?thesis by blast
qed

lemma iswa_reachable_inv: "iswa_reachable kv \<Longrightarrow> \<exists>n m. iswa_inv n m kv"
proof (induction rule: iswa_reachable.induct)
  case iswa_init
  then show ?case using iswa_new_inv by blast
next
  case iswa_reach
  then show ?case using iswa_step_inv by blast
qed

lemma kv_seq_pos_exact:
  assumes wf: "kv_wf n kc" and o: "kc_other kc = None" and q: "seq_in_range kc q"
  shows "kv_seq_pos_min kc q = Inr (if kv_positions kc q = {} then -1 else Min (kv_positions kc q))"
    "kv_seq_pos_max kc q = Inr (if kv_positions kc q = {} then -1 else Max (kv_positions kc q))"
proof -
  obtain b where b: "kc_v_cells kc ! strm kc q = mk_cells (stream kc (strm kc q)) b"
    using stream_cells [OF wf strm_less [OF wf q]] by blast
  have "cells_seq_pos_max (kc_v_cells kc ! strm kc q) q = (if kv_positions kc q = {} then -1 else Max (kv_positions kc q))"
    unfolding kv_positions_def by (subst b) (rule cells_seq_pos_max_mk)
  then show "kv_seq_pos_max kc q = Inr (if kv_positions kc q = {} then -1 else Max (kv_positions kc q))"
    using o q by (simp add: kv_seq_pos_max_def)
  show "kv_seq_pos_min kc q = Inr (if kv_positions kc q = {} then -1 else Min (kv_positions kc q))"
    using o q cells_seq_pos_min_stream [OF wf q] by (simp add: kv_seq_pos_min_def)
qed

text \<open>C19. In every state an interleaved cache reaches through \<open>clear\<close>, \<open>seq_rm\<close>, \<open>seq_keep\<close>, copies inside one buffer to a sequence
  that does not have the positions yet, \<open>seq_add\<close> and \<open>seq_div\<close> of tokens that no other sequence shares, placed ubatches and
  memory updates (not: copies between streams, a trial run of \<open>prepare\<close>, reading a saved state), the SWA cache holds a subset of
  the positions of the base cache, so
  \<open>seq_pos_min\<close> and \<open>seq_pos_max\<close>, which only look at the SWA cache, return the least and the greatest position of
  the sequence that both caches hold, or -1 when there is none.\<close>

theorem iswa_base_superset:
  assumes "iswa_reachable kv" and "seq_in_range (iw_swa kv) q"
  shows "kv_positions (iw_swa kv) q \<subseteq> kv_positions (iw_base kv) q
    \<and> (let P = kv_positions (iw_swa kv) q \<inter> kv_positions (iw_base kv) q in
         iswa_seq_pos_min kv q = Inr (if P = {} then -1 else Min P) \<and> iswa_seq_pos_max kv q = Inr (if P = {} then -1 else Max P))"
proof -
  obtain n m where "iswa_inv n m kv" using iswa_reachable_inv [OF assms(1)] by blast
  then have wf: "kv_wf m (iw_swa kv)" "kc_other (iw_swa kv) = None" and le: "below (kv_abs (iw_swa kv)) (kv_abs (iw_base kv))"
    by (simp_all add: iswa_inv_def kv_inv_def)
  have r: "seq_in_range (iw_base kv) q" using le assms(2) by (auto simp: below_def kv_abs_def)
  then have sub: "kv_positions (iw_swa kv) q \<subseteq> kv_positions (iw_base kv) q"
    using le assms(2) unfolding below_def kv_abs_sel by metis
  then have "kv_positions (iw_swa kv) q \<inter> kv_positions (iw_base kv) q = kv_positions (iw_swa kv) q" by blast
  then show ?thesis using sub kv_seq_pos_exact [OF wf assms(2)] by (simp add: iswa_seq_pos_min_def iswa_seq_pos_max_def)
qed

text \<open>Two empty caches of three cells, and the ubatch of two tokens placed in both.\<close>

definition demo_iswa :: kv_cache_iswa where
  "demo_iswa = \<lparr>iw_unified = True, iw_base = demo_empty, iw_swa = demo_empty\<rparr>"

lemma demo_iswa_reachable: "iswa_reachable demo_iswa"
proof (rule iswa_init)
  show "iswa_new demo_hparams False 0 LLAMA_SWA_TYPE_NONE True True 3 2 8 1 = Inr demo_iswa"
    by (simp add: iswa_new_def demo_empty_eq demo_iswa_def del: One_nat_def)
qed (simp_all add: LLAMA_MAX_SEQ_def)

theorem iswa_base_superset_witness:
  "\<exists>kv. iswa_reachable kv \<and> kv_positions (iw_swa kv) 0 = {0, 1} \<and> iswa_seq_pos_min kv 0 = Inr 0 \<and> iswa_seq_pos_max kv 0 = Inr 1"
proof -
  obtain si where si: "find_slot demo_empty demo_ubatch False = Inr si" "\<not> slot_empty si" "slot_ok 3 demo_empty demo_ubatch si"
    using find_slot_spec [OF demo_empty_facts(1) demo_ubatch_ok(1)] by (auto simp: demo_ubatch_ok demo_all_free)
  obtain kc' where kc': "apply_ubatch si demo_ubatch demo_empty = Inr kc'"
    using apply_ubatch_spec [OF demo_empty_facts(1,2) demo_ubatch_ok(1) si(3)] by blast
  have inv: "kv_inv 3 demo_empty" using demo_empty_facts(1,2) by (simp add: kv_inv_def)
  note p = kv_slot_abs [OF inv demo_ubatch_ok(1) si(3) kc']
  have r: "seq_in_range kc' 0" using same_frame_fields(8) [OF p(2)] demo_empty_facts(6) by simp
  have pos: "kv_positions kc' 0 = {0, 1}"
    using p(4) [OF demo_empty_facts(4), of 0] r demo_empty_facts(6) demo_no_positions demo_new_positions by simp
  define kv where "kv = demo_iswa\<lparr>iw_base := kc', iw_swa := kc'\<rparr>"
  have "iswa_step demo_iswa kv" unfolding kv_def
    by (rule iswa_place [of _ demo_ubatch]) (use demo_ubatch_ok(1) si(1,2) kc' in \<open>simp_all add: demo_iswa_def\<close>)
  then have reach: "iswa_reachable kv" by (rule iswa_reach [OF demo_iswa_reachable])
  have fields: "iw_base kv = kc'" "iw_swa kv = kc'" by (simp_all add: kv_def demo_iswa_def)
  then have "iswa_seq_pos_min kv 0 = Inr 0 \<and> iswa_seq_pos_max kv 0 = Inr 1"
    using iswa_base_superset [OF reach, of 0] r pos by (simp add: Let_def)
  then show ?thesis using reach fields pos by (intro exI [of _ kv]) simp
qed

end
