(* ===== verification/Outputs.thy ===== *)
theory Outputs
  imports Prelude
begin

section \<open>Output rows of a context\<close>

text \<open>
  \<^verbatim>\<open>src/llama-context.cpp\<close>: after the ubatches of a batch are computed, the rows of the output buffers are in
  the order of the ubatches. The end of \<open>decode\<close> sets \<open>output_ids\<close>, the row of each batch token, and
  records the swaps of a selection sort; \<open>output_reorder\<close> performs them when an output is first
  accessed, and \<open>output_resolve_row\<close> translates a batch index into a row.

  \<^item> A buffer is the list of its elements (of any type); a buffer of size 0 is the empty list.
  \<^item> \<open>sampling\<close> is absent when no backend sampler is configured.
\<close>

record 'f sampling_out =
  sa_logits :: "'f list"
  sa_probs :: "'f list"
  sa_candidates :: "llama_token list"
  sa_sampled :: "llama_token list"
  sa_logits_count :: "nat list"
  sa_probs_count :: "nat list"
  sa_candidates_count :: "nat list"

record 'f ctx_outputs =
  co_n_vocab :: nat
  co_n_embd :: nat
  co_n_embd_out :: nat
  co_n_outputs :: nat
  co_output_ids :: "int list"
  co_output_swaps :: "(nat \<times> nat) list"
  co_logits :: "'f list"
  co_embd :: "'f list"
  co_embd_nextn :: "'f list"
  co_embd_layer_inp :: "'f list list"
  co_sampling :: "'f sampling_out option"

subsection \<open>Output mappings\<close>

definition swap_elems :: "nat \<Rightarrow> nat \<Rightarrow> 'a list \<Rightarrow> 'a list" where
  "swap_elems a b xs = xs[a := xs ! b, b := xs ! a]"

text \<open>The selection sort: the least id of the rest, and the swap when it is not in place.\<close>

definition sel_min :: "nat list \<Rightarrow> nat \<Rightarrow> nat" where
  "sel_min out_ids i = fold (\<lambda>j j_min. if out_ids ! j < out_ids ! j_min then j else j_min) [i + 1..<length out_ids] i"

definition sel_step :: "nat \<Rightarrow> nat list \<times> (nat \<times> nat) list \<Rightarrow> nat list \<times> (nat \<times> nat) list" where
  "sel_step i = (\<lambda>(out_ids, swaps). let j_min = sel_min out_ids i
     in if j_min = i then (out_ids, swaps) else (swap_elems i j_min out_ids, swaps @ [(i, j_min)]))"

definition sel_sort :: "nat list \<Rightarrow> (nat \<times> nat) list \<Rightarrow> nat list \<times> (nat \<times> nat) list" where
  "sel_sort out_ids swaps = fold sel_step [0..<length out_ids - 1] (out_ids, swaps)"

definition set_output_mappings :: "nat list \<Rightarrow> 'f ctx_outputs \<Rightarrow> 'f ctx_outputs res" where
  "set_output_mappings out_ids c =
    (if co_n_outputs c = 0 then Inr c
     else ggml_assert (length out_ids = co_n_outputs c) ''out_ids.size() == (size_t) n_outputs''
       (let (output_ids, sorted_output) = fold (\<lambda>i (ids, sorted). (ids[out_ids ! i := int i], sorted \<and> out_ids ! i = i))
              [0..<co_n_outputs c] (co_output_ids c, True)
        in if \<not> sorted_output \<and> co_n_outputs c > 1
           then let (out_ids, swaps) = sel_sort out_ids (co_output_swaps c);
                    output_ids = fold (\<lambda>i ids. ids[out_ids ! i := int i]) [0..<co_n_outputs c] (replicate (length output_ids) (-1))
                in Inr (c\<lparr>co_output_ids := output_ids, co_output_swaps := swaps\<rparr>)
           else Inr (c\<lparr>co_output_ids := output_ids\<rparr>)))"

subsection \<open>\<open>output_reorder\<close>\<close>

definition swap_rows :: "nat \<Rightarrow> nat \<Rightarrow> nat \<Rightarrow> 'a list \<Rightarrow> 'a list" where
  "swap_rows w i0 i1 buf = (if buf = [] then buf else fold (\<lambda>k. swap_elems (i0 * w + k) (i1 * w + k)) [0..<w] buf)"

definition swap_sampling :: "nat \<Rightarrow> nat \<Rightarrow> nat \<Rightarrow> 'f sampling_out \<Rightarrow> 'f sampling_out" where
  "swap_sampling n_vocab i0 i1 sa = sa
     \<lparr>sa_logits := swap_rows n_vocab i0 i1 (sa_logits sa), sa_probs := swap_rows n_vocab i0 i1 (sa_probs sa),
      sa_candidates := swap_rows n_vocab i0 i1 (sa_candidates sa), sa_sampled := swap_elems i0 i1 (sa_sampled sa),
      sa_logits_count := swap_elems i0 i1 (sa_logits_count sa), sa_probs_count := swap_elems i0 i1 (sa_probs_count sa),
      sa_candidates_count := swap_elems i0 i1 (sa_candidates_count sa)\<rparr>"

definition reorder_step :: "nat \<times> nat \<Rightarrow> 'f ctx_outputs \<Rightarrow> 'f ctx_outputs" where
  "reorder_step = (\<lambda>(i0, i1) c. c
     \<lparr>co_logits := swap_rows (co_n_vocab c) i0 i1 (co_logits c),
      co_embd := swap_rows (co_n_embd_out c) i0 i1 (co_embd c),
      co_embd_nextn := swap_rows (co_n_embd_out c) i0 i1 (co_embd_nextn c),
      co_embd_layer_inp := map (swap_rows (co_n_embd c) i0 i1) (co_embd_layer_inp c),
      co_sampling := map_option (swap_sampling (co_n_vocab c) i0 i1) (co_sampling c)\<rparr>)"

definition output_reorder :: "'f ctx_outputs \<Rightarrow> 'f ctx_outputs" where
  "output_reorder c = (fold reorder_step (co_output_swaps c) c)\<lparr>co_output_swaps := []\<rparr>"

definition output_resolve_row :: "'f ctx_outputs \<Rightarrow> int \<Rightarrow> int res" where
  "output_resolve_row c i =
    (let check = (\<lambda>j. if j < 0 then Inl (RUNTIME_ERROR ''batch.logits[i] != true'')
                      else if j \<ge> int (co_n_outputs c) then Inl (RUNTIME_ERROR ''corrupt output buffer'')
                      else Inr j)
     in if i < 0 then
          (let j = int (co_n_outputs c) + i in if j < 0 then Inl (RUNTIME_ERROR ''negative index out of range'') else check j)
        else if nat i \<ge> length (co_output_ids c) then Inl (RUNTIME_ERROR ''out of range'')
        else check (co_output_ids c ! nat i))"

text \<open>\<open>get_logits_ith\<close> and \<open>get_embeddings_ith\<close> of a release build: \<open>None\<close> is the null pointer, otherwise the offset of the row.\<close>

definition get_logits_ith :: "'f ctx_outputs \<Rightarrow> int \<Rightarrow> nat option \<times> 'f ctx_outputs" where
  "get_logits_ith c i = (let c = output_reorder c
     in ((if co_logits c = [] then None
          else case output_resolve_row c i of Inl e \<Rightarrow> None | Inr j \<Rightarrow> Some (nat j * co_n_vocab c)), c))"

definition get_embeddings_ith :: "'f ctx_outputs \<Rightarrow> int \<Rightarrow> nat option \<times> 'f ctx_outputs" where
  "get_embeddings_ith c i = (let c = output_reorder c
     in ((if co_embd c = [] then None
          else case output_resolve_row c i of Inl e \<Rightarrow> None | Inr j \<Rightarrow> Some (nat j * co_n_embd_out c)), c))"

subsection \<open>Swaps and rows\<close>

definition apply_swaps :: "(nat \<times> nat) list \<Rightarrow> 'a list \<Rightarrow> 'a list" where
  "apply_swaps sw xs = fold (\<lambda>(a, b). swap_elems a b) sw xs"

lemma length_swap_elems [simp]: "length (swap_elems a b xs) = length xs"
  by (simp add: swap_elems_def)

lemma length_apply_swaps [simp]: "length (apply_swaps sw xs) = length xs"
  by (induction sw arbitrary: xs) (auto simp: apply_swaps_def)

lemma map_swap_elems: "a < length xs \<Longrightarrow> b < length xs \<Longrightarrow> map f (swap_elems a b xs) = swap_elems a b (map f xs)"
  by (simp add: swap_elems_def map_update)

lemma map_apply_swaps: "\<forall>(a, b) \<in> set sw. a < length xs \<and> b < length xs \<Longrightarrow> map f (apply_swaps sw xs) = apply_swaps sw (map f xs)"
proof (induction sw arbitrary: xs)
  case (Cons s sw)
  then show ?case by (cases s) (simp add: apply_swaps_def map_swap_elems)
qed (simp add: apply_swaps_def)

lemma mset_swap_elems: "a < length xs \<Longrightarrow> b < length xs \<Longrightarrow> set (swap_elems a b xs) = set xs"
  by (simp add: swap_elems_def set_swap)

lemma set_apply_swaps: "\<forall>(a, b) \<in> set sw. a < length xs \<and> b < length xs \<Longrightarrow> set (apply_swaps sw xs) = set xs"
proof (induction sw arbitrary: xs)
  case (Cons s sw)
  then show ?case by (cases s) (simp add: apply_swaps_def mset_swap_elems)
qed (simp add: apply_swaps_def)

lemma distinct_apply_swaps: "\<forall>(a, b) \<in> set sw. a < length xs \<and> b < length xs \<Longrightarrow> distinct xs \<Longrightarrow> distinct (apply_swaps sw xs)"
  using set_apply_swaps [of sw xs] length_apply_swaps [of sw xs] by (metis card_distinct distinct_card)

lemma nth_swap_elems: "a < length xs \<Longrightarrow> b < length xs \<Longrightarrow> swap_elems a b xs ! k = (if k = a then xs ! b else if k = b then xs ! a else xs ! k)"
  by (auto simp: swap_elems_def nth_list_update)

text \<open>The rows of width \<open>w\<close> of a buffer.\<close>

definition row_of :: "nat \<Rightarrow> 'a list \<Rightarrow> nat \<Rightarrow> 'a list" where
  "row_of w buf r = map (\<lambda>k. buf ! (r * w + k)) [0..<w]"

definition rows_of :: "nat \<Rightarrow> nat \<Rightarrow> 'a list \<Rightarrow> 'a list list" where
  "rows_of w n buf = map (row_of w buf) [0..<n]"

lemma swap_rows_nth:
  assumes "i0 < n" "i1 < n" "i0 \<noteq> i1" "n * w \<le> length buf" "r < n" "k < w"
  shows "swap_rows w i0 i1 buf ! (r * w + k) = buf ! ((if r = i0 then i1 else if r = i1 then i0 else r) * w + k)"
    and "length (swap_rows w i0 i1 buf) = length buf"
proof -
  let ?f = "\<lambda>m. fold (\<lambda>k. swap_elems (i0 * w + k) (i1 * w + k)) [0..<m] buf"
  have idx: "i0 * w + k < length buf" "i1 * w + k < length buf" if "k < w" for k
    using row_major_less [OF assms(1) that] row_major_less [OF assms(2) that] assms(4) by simp_all
  have inj: "a * w + k = b * w + l \<longleftrightarrow> a = b \<and> k = l" if "k < w" "l < w" for a b k l
    using inj_onD [OF row_major_inj [of w], of "(a, k)" "(b, l)"] that by auto
  have "m \<le> w \<Longrightarrow> length (?f m) = length buf \<and> (\<forall>k < w. ?f m ! (r * w + k)
      = (if k < m then buf ! ((if r = i0 then i1 else if r = i1 then i0 else r) * w + k) else buf ! (r * w + k)))
      \<and> (\<forall>k < w. m \<le> k \<longrightarrow> ?f m ! (i0 * w + k) = buf ! (i0 * w + k) \<and> ?f m ! (i1 * w + k) = buf ! (i1 * w + k))" for m
  proof (induction m)
    case (Suc m)
    then have IH: "length (?f m) = length buf" "\<forall>k < w. ?f m ! (r * w + k)
      = (if k < m then buf ! ((if r = i0 then i1 else if r = i1 then i0 else r) * w + k) else buf ! (r * w + k))"
      "\<forall>k < w. m \<le> k \<longrightarrow> ?f m ! (i0 * w + k) = buf ! (i0 * w + k) \<and> ?f m ! (i1 * w + k) = buf ! (i1 * w + k)" by simp_all
    have m: "m < w" using Suc.prems by simp
    have sw: "?f (Suc m) ! x = (if x = i0 * w + m then ?f m ! (i1 * w + m) else if x = i1 * w + m then ?f m ! (i0 * w + m) else ?f m ! x)" for x
      using nth_swap_elems [of "i0 * w + m" "?f m" "i1 * w + m" x] idx [OF m] IH(1) by simp
    show ?case
    proof (intro conjI allI impI)
      show "length (?f (Suc m)) = length buf" using IH(1) by simp
      show "?f (Suc m) ! (r * w + k) = (if k < Suc m then buf ! ((if r = i0 then i1 else if r = i1 then i0 else r) * w + k) else buf ! (r * w + k))"
        if k: "k < w" for k
        using sw [of "r * w + k"] inj [OF k m] IH k m by (auto simp: less_Suc_eq)
      show "?f (Suc m) ! (i0 * w + k) = buf ! (i0 * w + k)" "?f (Suc m) ! (i1 * w + k) = buf ! (i1 * w + k)" if k: "k < w" "Suc m \<le> k" for k
        using sw [of "i0 * w + k"] sw [of "i1 * w + k"] inj [OF k(1) m] IH(3) k by auto
    qed
  qed simp
  from this [of w] show "swap_rows w i0 i1 buf ! (r * w + k) = buf ! ((if r = i0 then i1 else if r = i1 then i0 else r) * w + k)"
    "length (swap_rows w i0 i1 buf) = length buf" using assms(6) by (auto simp: swap_rows_def)
qed

lemma rows_swap_rows:
  assumes "i0 < n" "i1 < n" "i0 \<noteq> i1" "n * w \<le> length buf"
  shows "rows_of w n (swap_rows w i0 i1 buf) = swap_elems i0 i1 (rows_of w n buf)" "length (swap_rows w i0 i1 buf) = length buf"
proof -
  have "w = 0 \<Longrightarrow> swap_rows w i0 i1 buf = buf" by (simp add: swap_rows_def)
  then show "length (swap_rows w i0 i1 buf) = length buf" using swap_rows_nth(2) [OF assms assms(1), of 0] by (cases "w = 0") simp_all
  show "rows_of w n (swap_rows w i0 i1 buf) = swap_elems i0 i1 (rows_of w n buf)"
  proof (rule nth_equalityI)
    fix r assume "r < length (rows_of w n (swap_rows w i0 i1 buf))"
    then have r: "r < n" by (simp add: rows_of_def)
    have "row_of w (swap_rows w i0 i1 buf) r = row_of w buf (if r = i0 then i1 else if r = i1 then i0 else r)"
      using swap_rows_nth(1) [OF assms r] by (simp add: row_of_def)
    then show "rows_of w n (swap_rows w i0 i1 buf) ! r = swap_elems i0 i1 (rows_of w n buf) ! r"
      using r assms by (simp add: rows_of_def nth_swap_elems)
  qed (simp add: rows_of_def)
qed

text \<open>A list of swaps that stays inside the first \<open>n\<close> rows.\<close>

definition swaps_ok :: "nat \<Rightarrow> (nat \<times> nat) list \<Rightarrow> bool" where
  "swaps_ok n sw \<longleftrightarrow> (\<forall>(a, b) \<in> set sw. a < n \<and> b < n \<and> a \<noteq> b)"

lemma reorder_rows:
  assumes "swaps_ok n sw" "n * w \<le> length buf"
  shows "rows_of w n (fold (\<lambda>(i0, i1). swap_rows w i0 i1) sw buf) = apply_swaps sw (rows_of w n buf)"
    "length (fold (\<lambda>(i0, i1). swap_rows w i0 i1) sw buf) = length buf"
proof -
  have "rows_of w n (fold (\<lambda>(i0, i1). swap_rows w i0 i1) sw buf) = apply_swaps sw (rows_of w n buf)
      \<and> length (fold (\<lambda>(i0, i1). swap_rows w i0 i1) sw buf) = length buf"
    using assms
  proof (induction sw arbitrary: buf)
    case (Cons s sw)
    obtain a b where s: "s = (a, b)" by (cases s)
    have ab: "a < n" "b < n" "a \<noteq> b" "swaps_ok n sw" using Cons.prems(1) by (auto simp: s swaps_ok_def)
    show ?case using Cons.IH [of "swap_rows w a b buf"] ab Cons.prems(2) rows_swap_rows [OF ab(1-3) Cons.prems(2)]
      by (simp add: s apply_swaps_def)
  qed (simp add: apply_swaps_def)
  then show "rows_of w n (fold (\<lambda>(i0, i1). swap_rows w i0 i1) sw buf) = apply_swaps sw (rows_of w n buf)"
    "length (fold (\<lambda>(i0, i1). swap_rows w i0 i1) sw buf) = length buf" by simp_all
qed

lemma output_reorder_fields:
  "co_n_vocab (output_reorder c) = co_n_vocab c" "co_n_embd_out (output_reorder c) = co_n_embd_out c" "co_n_outputs (output_reorder c) = co_n_outputs c"
  "co_output_ids (output_reorder c) = co_output_ids c"
  "co_logits (output_reorder c) = fold (\<lambda>(i0, i1). swap_rows (co_n_vocab c) i0 i1) (co_output_swaps c) (co_logits c)"
  "co_embd (output_reorder c) = fold (\<lambda>(i0, i1). swap_rows (co_n_embd_out c) i0 i1) (co_output_swaps c) (co_embd c)"
proof -
  have "let d = fold reorder_step sw c in co_n_vocab d = co_n_vocab c \<and> co_n_embd_out d = co_n_embd_out c \<and> co_n_outputs d = co_n_outputs c
    \<and> co_output_ids d = co_output_ids c \<and> co_logits d = fold (\<lambda>(i0, i1). swap_rows (co_n_vocab c) i0 i1) sw (co_logits c)
    \<and> co_embd d = fold (\<lambda>(i0, i1). swap_rows (co_n_embd_out c) i0 i1) sw (co_embd c)" for sw
    by (induction sw rule: rev_induct) (auto simp: reorder_step_def Let_def)
  then show "co_n_vocab (output_reorder c) = co_n_vocab c" "co_n_embd_out (output_reorder c) = co_n_embd_out c"
    "co_n_outputs (output_reorder c) = co_n_outputs c" "co_output_ids (output_reorder c) = co_output_ids c"
    "co_logits (output_reorder c) = fold (\<lambda>(i0, i1). swap_rows (co_n_vocab c) i0 i1) (co_output_swaps c) (co_logits c)"
    "co_embd (output_reorder c) = fold (\<lambda>(i0, i1). swap_rows (co_n_embd_out c) i0 i1) (co_output_swaps c) (co_embd c)"
    by (simp_all add: output_reorder_def Let_def)
qed

subsection \<open>The selection sort\<close>

lemma sel_min_spec:
  assumes "i < length out"
  shows "i \<le> sel_min out i \<and> sel_min out i < length out \<and> (\<forall>j. i \<le> j \<longrightarrow> j < length out \<longrightarrow> out ! sel_min out i \<le> out ! j)"
proof -
  have "m \<le> length out - (i + 1) \<Longrightarrow> (let r = fold (\<lambda>j j_min. if out ! j < out ! j_min then j else j_min) [i + 1..<i + 1 + m] i in
      i \<le> r \<and> r < length out \<and> (\<forall>j. i \<le> j \<longrightarrow> j < i + 1 + m \<longrightarrow> out ! r \<le> out ! j))" for m
  proof (induction m)
    case 0
    then show ?case using assms by (auto simp: less_Suc_eq)
  next
    case (Suc m)
    then show ?case using assms by (auto simp: Let_def less_Suc_eq intro: less_imp_le order_trans)
  qed
  moreover have "i + 1 + (length out - (i + 1)) = length out" using assms by simp
  ultimately show ?thesis by (metis (no_types, lifting) sel_min_def order_refl)
qed

definition sorted_upto :: "nat \<Rightarrow> nat list \<Rightarrow> bool" where
  "sorted_upto m xs \<longleftrightarrow> (\<forall>i < m. \<forall>j. i < j \<longrightarrow> j < length xs \<longrightarrow> xs ! i \<le> xs ! j)"

lemma sel_sort_spec:
  "case sel_sort out [] of (out', sw) \<Rightarrow> out' = apply_swaps sw out \<and> swaps_ok (length out) sw \<and> sorted out'"
proof -
  let ?F = "\<lambda>m. fold sel_step [0..<m] (out, [])"
  have "m \<le> length out - 1 \<Longrightarrow> fst (?F m) = apply_swaps (snd (?F m)) out \<and> swaps_ok (length out) (snd (?F m)) \<and> sorted_upto m (fst (?F m))" for m
  proof (induction m)
    case 0
    then show ?case by (simp add: apply_swaps_def swaps_ok_def sorted_upto_def)
  next
    case (Suc m)
    obtain o1 sw where f: "?F m = (o1, sw)" by (cases "?F m")
    have IH: "o1 = apply_swaps sw out" "swaps_ok (length out) sw" "sorted_upto m o1" using Suc.IH Suc.prems by (auto simp: f)
    have l: "length o1 = length out" using IH(1) by simp
    have m: "m < length o1" using Suc.prems l by simp
    define j where "j = sel_min o1 m"
    have j: "m \<le> j" "j < length o1" "\<And>k. m \<le> k \<Longrightarrow> k < length o1 \<Longrightarrow> o1 ! j \<le> o1 ! k" using sel_min_spec [OF m] by (auto simp: j_def)
    show ?case
    proof (cases "j = m")
      case True
      then have "sorted_upto (Suc m) o1" using IH(3) j(3) by (auto simp: sorted_upto_def less_Suc_eq)
      moreover have "?F (Suc m) = (o1, sw)" using f True by (simp, simp add: sel_step_def j_def)
      ultimately show ?thesis using IH by simp
    next
      case False
      have n: "swap_elems m j o1 ! k = (if k = m then o1 ! j else if k = j then o1 ! m else o1 ! k)" for k
        using nth_swap_elems [OF m j(2)] .
      have "sorted_upto (Suc m) (swap_elems m j o1)" unfolding sorted_upto_def
      proof (intro allI impI)
        fix a b assume ab: "a < Suc m" "a < b" "b < length (swap_elems m j o1)"
        show "swap_elems m j o1 ! a \<le> swap_elems m j o1 ! b"
        proof (cases "a = m")
          case True
          then show ?thesis using ab j n by auto
        next
          case a: False
          then have "a < m" using ab by simp
          then have "o1 ! a \<le> o1 ! x" if "a < x" "x < length o1" for x using IH(3) that by (simp add: sorted_upto_def)
          then show ?thesis using ab a \<open>a < m\<close> j(1,2) m n by auto
        qed
      qed
      moreover have "swaps_ok (length out) (sw @ [(m, j)])" using IH(2) m j False l by (auto simp: swaps_ok_def)
      moreover have "?F (Suc m) = (swap_elems m j o1, sw @ [(m, j)])" using f False by (simp, simp add: sel_step_def j_def Let_def)
      moreover have "swap_elems m j o1 = apply_swaps (sw @ [(m, j)]) out" using IH(1) by (simp add: apply_swaps_def)
      ultimately show ?thesis by simp
    qed
  qed
  from this [OF order_refl] have "fst (sel_sort out []) = apply_swaps (snd (sel_sort out [])) out \<and> swaps_ok (length out) (snd (sel_sort out []))
    \<and> sorted_upto (length out - 1) (fst (sel_sort out []))" unfolding sel_sort_def .
  then have r: "fst (sel_sort out []) = apply_swaps (snd (sel_sort out [])) out" "swaps_ok (length out) (snd (sel_sort out []))"
    "sorted_upto (length out - 1) (fst (sel_sort out []))" by blast+
  have "length (fst (sel_sort out [])) = length out" using r(1) by (metis length_apply_swaps)
  then have "sorted (fst (sel_sort out []))" using r(3) by (auto simp: sorted_iff_nth_mono_less sorted_upto_def)
  then show ?thesis using r(1,2) unfolding split_def by blast
qed

subsection \<open>Each token finds its row\<close>

lemma set_ids_nth:
  assumes "distinct out" "\<forall>x \<in> set out. x < length ids"
  shows "i < length out \<Longrightarrow> fold (\<lambda>i ids. ids[out ! i := int i]) [0..<length out] ids ! (out ! i) = int i"
    "x \<notin> set out \<Longrightarrow> fold (\<lambda>i ids. ids[out ! i := int i]) [0..<length out] ids ! x = ids ! x"
    "length (fold (\<lambda>i ids. ids[out ! i := int i]) [0..<length out] ids) = length ids"
proof -
  have "inj_on ((!) out) (set [0..<length out])" using assms(1) by (simp add: inj_on_def nth_eq_iff_index_eq)
  then show "i < length out \<Longrightarrow> fold (\<lambda>i ids. ids[out ! i := int i]) [0..<length out] ids ! (out ! i) = int i"
    using fold_update_key [of "(!) out" "[0..<length out]" i ids int] assms(2) by simp
  have keep: "s[out ! k := int k] ! x = s ! x" if "x \<notin> set out" "k < length out" for s :: "int list" and k
    using that nth_mem [of k out] by (metis nth_list_update_neq)
  show "x \<notin> set out \<Longrightarrow> fold (\<lambda>i ids. ids[out ! i := int i]) [0..<length out] ids ! x = ids ! x"
    by (rule fold_invariant_mem [where I = "\<lambda>y. y ! x = ids ! x"]) (simp_all add: keep)
  show "length (fold (\<lambda>i ids. ids[out ! i := int i]) [0..<length out] ids) = length ids"
    by (rule fold_invariant_mem [where I = "\<lambda>y. length y = length ids"]) simp_all
qed

lemma mapping_loop:
  "fold (\<lambda>i (ids, sorted). (ids[out ! i := int i], sorted \<and> out ! i = i)) [0..<m] (ids, True)
   = (fold (\<lambda>i ids. ids[out ! i := int i]) [0..<m] ids, \<forall>i < m. out ! i = i)"
  by (induction m) (auto simp: less_Suc_eq)

text \<open>What \<open>decode\<close> leaves: the sorted ids, the swaps, and the row numbers of the ids.\<close>

lemma set_output_mappings_spec:
  assumes "distinct out" "\<forall>x \<in> set out. x < length (co_output_ids c)" "length out = co_n_outputs c" "co_output_swaps c = []"
    and "\<forall>x < length (co_output_ids c). co_output_ids c ! x = -1"
  shows "\<exists>sw out'. set_output_mappings out c = Inr (c\<lparr>co_output_ids := fold (\<lambda>i ids. ids[out' ! i := int i]) [0..<length out'] (replicate (length (co_output_ids c)) (-1)),
      co_output_swaps := sw\<rparr>) \<and> out' = apply_swaps sw out \<and> swaps_ok (length out) sw \<and> sorted out'"
proof -
  let ?n = "length (co_output_ids c)"
  have ids: "co_output_ids c = replicate ?n (-1)" using assms(5) by (intro nth_equalityI) simp_all
  show ?thesis
  proof (cases "co_n_outputs c = 0")
    case True
    then have "set_output_mappings out c = Inr c" "out = []" using assms(3) by (simp_all add: set_output_mappings_def)
    moreover have "c = c\<lparr>co_output_ids := replicate ?n (-1), co_output_swaps := []\<rparr>" using ids assms(4) by simp
    ultimately show ?thesis by (intro exI [of _ "[]"]) (simp add: apply_swaps_def swaps_ok_def)
  next
    case n: False
    show ?thesis
    proof (cases "(\<forall>i < co_n_outputs c. out ! i = i) \<or> co_n_outputs c \<le> 1")
      case True
      then have "sorted out" using assms(3) by (auto simp: sorted_iff_nth_mono_less)
      moreover have "set_output_mappings out c = Inr (c\<lparr>co_output_ids := fold (\<lambda>i ids. ids[out ! i := int i]) [0..<length out] (replicate ?n (-1)), co_output_swaps := []\<rparr>)"
        using True n assms(3,4) ids by (auto simp: set_output_mappings_def mapping_loop)
      ultimately show ?thesis by (intro exI [of _ "[]"] exI [of _ out]) (simp add: apply_swaps_def swaps_ok_def)
    next
      case False
      obtain out' sw where s: "sel_sort out [] = (out', sw)" by (cases "sel_sort out []")
      have sp: "out' = apply_swaps sw out" "swaps_ok (length out) sw" "sorted out'" using sel_sort_spec [of out] unfolding s prod.case by blast+
      have l: "length out' = co_n_outputs c" using sp(1) assms(3) by simp
      have lf: "length (fold (\<lambda>i ids. ids[out ! i := int i]) [0..<co_n_outputs c] (co_output_ids c)) = ?n"
        using set_ids_nth(3) [OF assms(1,2)] assms(3) by simp
      have "set_output_mappings out c = Inr (c\<lparr>co_output_ids := fold (\<lambda>i ids. ids[out' ! i := int i]) [0..<length out'] (replicate ?n (-1)), co_output_swaps := sw\<rparr>)"
        using False n assms(3,4) lf s l by (auto simp: set_output_mappings_def mapping_loop Let_def)
      then show ?thesis using sp by blast
    qed
  qed
qed

text \<open>C30. After a batch is decoded, every token that was flagged for output finds its own row: \<open>output_resolve_row\<close>
  returns a row of the reordered buffers that holds the logits and the embedding computed for that
  token, rows are in the order of the tokens in the batch, and a token without the flag is an error.\<close>

theorem output_rows_follow_tokens:
  assumes "distinct out" "\<forall>x \<in> set out. x < length (co_output_ids c)" "length out = co_n_outputs c" "co_output_swaps c = []"
    and "\<forall>x < length (co_output_ids c). co_output_ids c ! x = -1"
    and "co_n_outputs c * co_n_vocab c \<le> length (co_logits c)" "co_n_outputs c * co_n_embd_out c \<le> length (co_embd c)"
  shows "\<exists>c'. set_output_mappings out c = Inr c' \<and> (\<exists>row. (\<forall>r < co_n_outputs c.
        output_resolve_row (output_reorder c') (int (out ! r)) = Inr (int (row (out ! r)))
        \<and> row_of (co_n_vocab c) (co_logits (output_reorder c')) (row (out ! r)) = row_of (co_n_vocab c) (co_logits c) r
        \<and> row_of (co_n_embd_out c) (co_embd (output_reorder c')) (row (out ! r)) = row_of (co_n_embd_out c) (co_embd c) r)
      \<and> (\<forall>x \<in> set out. \<forall>y \<in> set out. x < y \<longrightarrow> row x < row y))
    \<and> (\<forall>x. x \<notin> set out \<longrightarrow> (\<exists>e. output_resolve_row (output_reorder c') (int x) = Inl e))"
proof -
  let ?n = "co_n_outputs c"
  obtain sw out' where s: "set_output_mappings out c = Inr (c\<lparr>co_output_ids := fold (\<lambda>i ids. ids[out' ! i := int i]) [0..<length out'] (replicate (length (co_output_ids c)) (-1)),
      co_output_swaps := sw\<rparr>)" "out' = apply_swaps sw out" "swaps_ok (length out) sw" "sorted out'"
    using set_output_mappings_spec [OF assms(1-5)] by blast
  define c' where "c' = c\<lparr>co_output_ids := fold (\<lambda>i ids. ids[out' ! i := int i]) [0..<length out'] (replicate (length (co_output_ids c)) (-1)), co_output_swaps := sw\<rparr>"
  have sw: "\<forall>(a, b) \<in> set sw. a < length out \<and> b < length out" "swaps_ok ?n sw" using s(3) assms(3) by (auto simp: swaps_ok_def)
  have o': "set out' = set out" "distinct out'" "length out' = ?n"
    using set_apply_swaps [OF sw(1)] distinct_apply_swaps [OF sw(1) assms(1)] s(2) assms(3) by simp_all
  have o'_less: "\<forall>x \<in> set out'. x < length (replicate (length (co_output_ids c)) (-1 :: int))" using o'(1) assms(2) by simp
  note f = output_reorder_fields [of c']
  have ids: "co_output_ids c' ! (out' ! i) = int i" if "i < ?n" for i
    using set_ids_nth(1) [OF o'(2) o'_less] that o'(3) by (simp add: c'_def)
  have len: "length (co_output_ids c') = length (co_output_ids c)" using set_ids_nth(3) [OF o'(2) o'_less] by (simp add: c'_def)
  have other: "co_output_ids c' ! x = -1" if "x \<notin> set out" "x < length (co_output_ids c)" for x
    using set_ids_nth(2) [OF o'(2) o'_less] that o'(1) by (simp add: c'_def)
  define row where "row x = nat (co_output_ids c' ! x)" for x
  have resolve: "output_resolve_row (output_reorder c') (int x) = Inr (int (row x)) \<and> row x < ?n \<and> out' ! row x = x" if x: "x \<in> set out" for x
  proof -
    obtain i where i: "i < ?n" "x = out' ! i" using x o'(1,3) by (metis in_set_conv_nth)
    then have r: "row x = i" using ids by (simp add: row_def)
    have "output_resolve_row (output_reorder c') (int x) = Inr (int i)"
    proof -
      have "out' ! i < length (co_output_ids (output_reorder c'))" using x i(2) assms(2) len f(4) by simp
      moreover have "co_n_outputs (output_reorder c') = ?n" using f(3) by (simp add: c'_def)
      ultimately show ?thesis using i ids [OF i(1)] f(4) by (simp add: output_resolve_row_def Let_def)
    qed
    then show ?thesis using i r by simp
  qed
  have moved: "rows_of w ?n (fold (\<lambda>(i0, i1). swap_rows w i0 i1) sw buf) ! row (out ! r) = rows_of w ?n buf ! r"
    if "r < ?n" "?n * w \<le> length buf" for r w and buf :: "'b list"
  proof -
    have "rows_of w ?n (fold (\<lambda>(i0, i1). swap_rows w i0 i1) sw buf) = apply_swaps sw (rows_of w ?n buf)" by (rule reorder_rows(1) [OF sw(2) that(2)])
    moreover have "out' ! k = out ! r \<Longrightarrow> apply_swaps sw (rows_of w ?n buf) ! k = rows_of w ?n buf ! r" if k: "k < ?n" for k
    proof -
      assume eq: "out' ! k = out ! r"
      have z: "apply_swaps sw (zip out (rows_of w ?n buf)) ! k \<in> set (zip out (rows_of w ?n buf))"
      proof -
        have "k < length (apply_swaps sw (zip out (rows_of w ?n buf)))" using k assms(3) by (simp add: rows_of_def)
        then have "apply_swaps sw (zip out (rows_of w ?n buf)) ! k \<in> set (apply_swaps sw (zip out (rows_of w ?n buf)))" by (rule nth_mem)
        moreover have "\<forall>(a, b) \<in> set sw. a < length (zip out (rows_of w ?n buf)) \<and> b < length (zip out (rows_of w ?n buf))"
          using sw(1) assms(3) by (simp add: rows_of_def)
        ultimately show ?thesis using set_apply_swaps by metis
      qed
      have len_zip: "\<forall>(a, b) \<in> set sw. a < length (zip out (rows_of w ?n buf)) \<and> b < length (zip out (rows_of w ?n buf))"
        using sw(1) assms(3) by (simp add: rows_of_def)
      have "map fst (apply_swaps sw (zip out (rows_of w ?n buf))) = out'" "map snd (apply_swaps sw (zip out (rows_of w ?n buf))) = apply_swaps sw (rows_of w ?n buf)"
        using map_apply_swaps [OF len_zip, of fst] map_apply_swaps [OF len_zip, of snd] s(2) assms(3) by (simp_all add: rows_of_def)
      moreover have "k < length (apply_swaps sw (zip out (rows_of w ?n buf)))" using k assms(3) by (simp add: rows_of_def)
      ultimately have "apply_swaps sw (zip out (rows_of w ?n buf)) ! k = (out ! r, apply_swaps sw (rows_of w ?n buf) ! k)"
        using eq by (metis nth_map prod.collapse)
      then obtain r' where r': "r' < ?n" "out ! r' = out ! r" "rows_of w ?n buf ! r' = apply_swaps sw (rows_of w ?n buf) ! k"
        using z assms(3) by (auto simp: in_set_zip rows_of_def)
      then have "r' = r" using assms(1,3) \<open>r < ?n\<close> by (simp add: nth_eq_iff_index_eq)
      then show ?thesis using r'(3) by simp
    qed
    ultimately show ?thesis using resolve [of "out ! r"] that(1) assms(3) by simp
  qed
  have data: "row_of w (fold (\<lambda>(i0, i1). swap_rows w i0 i1) sw buf) (row (out ! r)) = row_of w buf r"
    if "r < ?n" "?n * w \<le> length buf" for r w and buf :: "'b list"
    using moved [OF that] resolve [of "out ! r"] that(1) assms(3) by (simp add: rows_of_def)
  have order: "row x < row y" if "x \<in> set out" "y \<in> set out" "x < y" for x y
  proof (rule ccontr)
    assume "\<not> row x < row y"
    then have "out' ! row y \<le> out' ! row x" using sorted_nth_mono [OF s(4), of "row y" "row x"] resolve [OF that(1)] o'(3) by simp
    then show False using resolve that by simp
  qed
  have err: "\<exists>e. output_resolve_row (output_reorder c') (int x) = Inl e" if "x \<notin> set out" for x
    using other [OF that] len f(4) by (auto simp: output_resolve_row_def Let_def)
  have "co_logits (output_reorder c') = fold (\<lambda>(i0, i1). swap_rows (co_n_vocab c) i0 i1) sw (co_logits c)"
    "co_embd (output_reorder c') = fold (\<lambda>(i0, i1). swap_rows (co_n_embd_out c) i0 i1) sw (co_embd c)"
    using f(5,6) by (simp_all add: c'_def)
  then show ?thesis using s(1) resolve data assms(3,6,7) order err unfolding c'_def [symmetric] by (intro exI [of _ c']) (auto intro!: exI [of _ row])
qed

text \<open>Two outputs computed in the order of tokens 2 and 0 of a batch of three.\<close>

definition demo_outputs :: "int ctx_outputs" where
  "demo_outputs = \<lparr>co_n_vocab = 2, co_n_embd = 1, co_n_embd_out = 1, co_n_outputs = 2, co_output_ids = [-1, -1, -1], co_output_swaps = [],
     co_logits = [21, 22, 1, 2], co_embd = [200, 100], co_embd_nextn = [], co_embd_layer_inp = [], co_sampling = None\<rparr>"

lemma demo_outputs_facts: "distinct [2, 0 :: nat]" "\<forall>x \<in> set [2, 0]. x < length (co_output_ids demo_outputs)" "length [2, 0 :: nat] = co_n_outputs demo_outputs"
  "co_output_swaps demo_outputs = []" "\<forall>x < length (co_output_ids demo_outputs). co_output_ids demo_outputs ! x = -1"
  "co_n_outputs demo_outputs * co_n_vocab demo_outputs \<le> length (co_logits demo_outputs)"
  "co_n_outputs demo_outputs * co_n_embd_out demo_outputs \<le> length (co_embd demo_outputs)"
  by (auto simp: demo_outputs_def less_Suc_eq numeral_3_eq_3)

lemma output_rows_follow_tokens_witness:
  "(\<exists>c'. set_output_mappings [2, 0] demo_outputs = Inr c' \<and> (\<exists>e. output_resolve_row (output_reorder c') 1 = Inl e))
   \<and> map_sum id co_output_ids (set_output_mappings [2, 0] demo_outputs) = Inr [0, -1, 1]
   \<and> map_sum id (co_logits \<circ> output_reorder) (set_output_mappings [2, 0] demo_outputs) = Inr [1, 2, 21, 22]"
proof (intro conjI)
  show "\<exists>c'. set_output_mappings [2, 0] demo_outputs = Inr c' \<and> (\<exists>e. output_resolve_row (output_reorder c') 1 = Inl e)"
    using output_rows_follow_tokens [OF demo_outputs_facts] by (auto dest: spec [of _ 1])
qed code_simp+

end
