(* ===== verification/Decode.thy ===== *)
theory Decode
  imports KV_ISWA_Props Outputs
begin

section \<open>Decoding a batch\<close>

text \<open>
  \<^verbatim>\<open>src/llama-context.cpp\<close>: \<open>llama_context::decode\<close> and what it calls, for a context that has a memory and no
  backend samplers (\<open>sampling.samplers\<close> is empty).

  \<^item> The memory is any implementation of \<open>llama_memory_i\<close>; the context holds its state and the K and V data.
  \<^item> The backend is a record of parameters: the computation of one ubatch (building the graph, allocating it,
    setting the inputs and computing it), which returns a failure status or the output tensors and the new
    K and V data; whether a buffer of some size can be allocated; and what the output buffer contains when it is
    reserved (zeros or rows of earlier batches).
  \<^item> Synchronisation, timing, the reservation of the scheduler and logging do not change the modelled state.
  \<^item> A tensor is the list of its elements; a null tensor is \<open>None\<close>; a buffer view without data is empty.
\<close>

datatype ggml_status = GGML_STATUS_ALLOC_FAILED | GGML_STATUS_FAILED | GGML_STATUS_SUCCESS | GGML_STATUS_ABORTED

datatype llama_pooling_type = LLAMA_POOLING_TYPE_UNSPECIFIED | LLAMA_POOLING_TYPE_NONE | LLAMA_POOLING_TYPE_MEAN
  | LLAMA_POOLING_TYPE_CLS | LLAMA_POOLING_TYPE_LAST | LLAMA_POOLING_TYPE_RANK

record llama_cparams =
  cp_n_batch :: nat
  cp_n_ubatch :: nat
  cp_n_seq_max :: nat
  cp_n_outputs_max :: nat
  cp_kv_unified :: bool
  cp_causal_attn :: bool
  cp_embeddings :: bool
  cp_embeddings_nextn :: bool
  cp_embeddings_nextn_masked :: bool
  cp_embeddings_layer_inp :: "bool list"
  cp_pooling_type :: llama_pooling_type
  cp_ctx_mtp :: bool

record 'f graph_result =
  gr_logits :: "'f list option"
  gr_embd :: "'f list option"
  gr_embd_pooled :: "'f list option"
  gr_h_nextn :: "'f list option"
  gr_layer_inp :: "'f list option list"

record ('m, 'd, 'c, 'f) backend =
  be_compute :: "'c \<Rightarrow> llama_ubatch \<Rightarrow> nat \<Rightarrow> 'm \<Rightarrow> 'd \<Rightarrow> (ggml_status + 'f graph_result) \<times> 'd"
  be_alloc :: "nat \<Rightarrow> bool"
  be_content :: "nat \<Rightarrow> 'f"

record ('m, 'd, 'f) llama_context =
  cx_cparams :: llama_cparams
  cx_hparams :: llama_hparams
  cx_n_cls_out :: nat
  cx_arch_t5 :: bool
  cx_balloc :: batch_allocr
  cx_memory :: 'm
  cx_data :: 'd
  cx_out :: "'f ctx_outputs"
  cx_embd_seq :: "llama_seq_id \<rightharpoonup> 'f list"
  cx_buf_output :: "nat option"

subsection \<open>Memory updates\<close>

text \<open>The result, and the context; the graph that is reserved afterwards is not modelled.\<close>

definition memory_update :: "('m, 'd, 'c) llama_memory_i \<Rightarrow> ('m, 'd, 'f) llama_context \<Rightarrow> (bool \<times> ('m, 'd, 'f) llama_context) res" where
  "memory_update vt cx =
    (let (mctx, m) = mem_init_update vt (cx_memory cx); cx = cx\<lparr>cx_memory := m\<rparr>
     in case ctx_get_status vt mctx of
          LLAMA_MEMORY_STATUS_SUCCESS \<Rightarrow>
            bind_res (ctx_apply vt mctx (cx_memory cx, cx_data cx)) (\<lambda>(_, _, m, d). Inr (True, cx\<lparr>cx_memory := m, cx_data := d\<rparr>))
        | LLAMA_MEMORY_STATUS_NO_UPDATE \<Rightarrow> Inr (False, cx)
        | LLAMA_MEMORY_STATUS_FAILED_PREPARE \<Rightarrow> Inr (False, cx)
        | LLAMA_MEMORY_STATUS_FAILED_COMPUTE \<Rightarrow> Inr (False, cx))"

subsection \<open>Reserving the output buffer\<close>

definition SIZEOF_FLOAT :: nat where
  "SIZEOF_FLOAT = 4"

definition out_view :: "('m, 'd, 'c, 'f) backend \<Rightarrow> bool \<Rightarrow> nat \<Rightarrow> nat \<Rightarrow> 'f list" where
  "out_view be has offset n = (if has then map (be_content be) [offset..<offset + n] else [])"

fun layer_inp_views :: "('m, 'd, 'c, 'f) backend \<Rightarrow> bool list \<Rightarrow> nat \<Rightarrow> nat \<Rightarrow> 'f list list" where
  "layer_inp_views be [] n offset = []"
| "layer_inp_views be (e # es) n offset = (if e then out_view be True offset n # layer_inp_views be es n (offset + n)
     else [] # layer_inp_views be es n offset)"

definition output_reserve :: "('m, 'd, 'c, 'f) backend \<Rightarrow> nat \<Rightarrow> ('m, 'd, 'f) llama_context \<Rightarrow> (nat \<times> ('m, 'd, 'f) llama_context) res" where
  "output_reserve be n_outputs cx =
    (let cp = cx_cparams cx; o1 = cx_out cx;
         n_outputs_max = max n_outputs (cp_n_seq_max cp); n_batch = cp_n_batch cp;
         n_vocab = co_n_vocab o1; n_embd = co_n_embd o1; n_embd_out = co_n_embd_out o1;
         has_logits = True; has_embd = cp_embeddings cp \<or> cx_arch_t5 cx; has_embd_nextn = cp_embeddings_nextn cp;
         logits_size = (if has_logits then n_vocab * n_outputs_max else 0);
         embd_size = (if has_embd then n_embd_out * n_outputs_max else 0);
         nextn_size = (if has_embd_nextn then n_embd_out * n_outputs_max else 0);
         nextn_size = (if has_embd_nextn \<and> \<not> cp_embeddings_nextn_masked cp then n_embd_out * n_batch else nextn_size);
         layer_inp_count = fold (\<lambda>enabled c. if enabled then c + n_embd * n_batch else c) (cp_embeddings_layer_inp cp) 0;
         ids = (if co_output_ids o1 = [] then replicate n_batch 0 else co_output_ids o1);
         prev_size = (case cx_buf_output cx of None \<Rightarrow> 0 | Some n \<Rightarrow> n);
         new_size = (logits_size + embd_size + nextn_size + layer_inp_count) * SIZEOF_FLOAT;
         grow = (cx_buf_output cx = None \<or> prev_size < new_size)
     in if grow \<and> \<not> be_alloc be new_size
        then Inr (0, cx\<lparr>cx_buf_output := None, cx_out := o1\<lparr>co_output_ids := ids, co_logits := [], co_embd := [], co_embd_nextn := [],
               co_embd_layer_inp := (if cx_buf_output cx = None then co_embd_layer_inp o1 else map (\<lambda>_. []) (co_embd_layer_inp o1))\<rparr>\<rparr>)
        else let o2 = o1\<lparr>co_logits := out_view be has_logits 0 logits_size,
                        co_embd := out_view be has_embd logits_size embd_size,
                        co_embd_nextn := out_view be has_embd_nextn (logits_size + embd_size) nextn_size,
                        co_embd_layer_inp := layer_inp_views be (cp_embeddings_layer_inp cp) (n_embd * n_batch) (logits_size + embd_size + nextn_size),
                        co_sampling := None,
                        co_output_ids := map (\<lambda>_. -1) ids, co_n_outputs := 0\<rparr>
             in ggml_assert (n_outputs_max \<le> cp_n_outputs_max cp) ''n_outputs_max <= cparams.n_outputs_max''
                  (Inr (n_outputs_max, cx\<lparr>cx_buf_output := Some (if grow then new_size else prev_size), cx_out := o2\<rparr>)))"

subsection \<open>Computing a ubatch\<close>

definition process_ubatch :: "('m, 'd, 'c) llama_memory_i \<Rightarrow> ('m, 'd, 'c, 'f) backend \<Rightarrow> llama_ubatch \<Rightarrow> 'c \<Rightarrow> ('m, 'd, 'f) llama_context
    \<Rightarrow> ((ggml_status + 'f graph_result) \<times> 'c \<times> ('m, 'd, 'f) llama_context) res" where
  "process_ubatch vt be ubatch mctx cx =
    bind_res (ctx_apply vt mctx (cx_memory cx, cx_data cx)) (\<lambda>(ok, mctx, m, d).
      if \<not> ok then Inr (Inl GGML_STATUS_FAILED, mctx, cx\<lparr>cx_memory := m, cx_data := d\<rparr>)
      else let (r, d) = be_compute be mctx ubatch (co_n_outputs (cx_out cx)) m d
           in Inr (r, mctx, cx\<lparr>cx_memory := m, cx_data := d\<rparr>))"

text \<open>A failed ubatch: the least position of each token's first sequence, and the removal of everything from there.\<close>

definition failed_pos_min :: "llama_ubatch \<Rightarrow> llama_pos list" where
  "failed_pos_min ubatch = fold (\<lambda>i pos_min. let seq_id = ub_seq_id ubatch ! i ! 0
     in pos_min[nat seq_id := min (pos_min ! nat seq_id) (ub_pos ubatch ! i)]) [0..<ub_n_tokens ubatch] (replicate LLAMA_MAX_SEQ INT32_MAX)"

definition remove_failed :: "('m, 'd, 'c) llama_memory_i \<Rightarrow> llama_ubatch \<Rightarrow> 'm \<Rightarrow> 'm res" where
  "remove_failed vt ubatch m = (let pos_min = failed_pos_min ubatch
     in fold_res (\<lambda>s m. if pos_min ! s = INT32_MAX then Inr m
          else bind_res (mem_seq_rm vt (int s) (pos_min ! s) (-1) m) (\<lambda>(_, m). Inr m)) [0..<LLAMA_MAX_SEQ] m)"

definition failed_code :: "ggml_status \<Rightarrow> int res" where
  "failed_code status = (case status of
     GGML_STATUS_ABORTED \<Rightarrow> Inr 2 | GGML_STATUS_ALLOC_FAILED \<Rightarrow> Inr (-2) | GGML_STATUS_FAILED \<Rightarrow> Inr (-3)
   | GGML_STATUS_SUCCESS \<Rightarrow> Inl (GGML_ABORT ''should not happen''))"

subsection \<open>Extracting the outputs\<close>

text \<open>\<open>ggml_backend_tensor_get_async\<close>: the first \<open>n\<close> elements of a tensor (from \<open>src\<close> on) are copied to \<open>off\<close>.\<close>

definition buf_write :: "nat \<Rightarrow> 'f list \<Rightarrow> 'f list \<Rightarrow> 'f list" where
  "buf_write off xs buf = take off buf @ xs @ drop (off + length xs) buf"

definition needs_raw_logits :: "llama_ubatch \<Rightarrow> llama_seq_id set \<Rightarrow> bool" where
  "needs_raw_logits ubatch samplers \<longleftrightarrow> list_ex (\<lambda>i. ub_output ubatch ! i \<noteq> 0 \<and>
     list_ex (\<lambda>j. ub_seq_id ubatch ! i ! j \<notin> samplers) [0..<ub_n_seq_id ubatch ! i]) [0..<ub_n_tokens ubatch]"

definition extract_logits :: "'f graph_result \<Rightarrow> llama_ubatch \<Rightarrow> nat \<Rightarrow> nat \<Rightarrow> 'f ctx_outputs \<Rightarrow> 'f ctx_outputs res" where
  "extract_logits res ubatch n_outputs_prev n_outputs_all o1 = (case gr_logits res of
     Some t \<Rightarrow>
       if co_logits o1 \<noteq> [] \<and> co_n_outputs o1 > 0 \<and> needs_raw_logits ubatch {}
       then ggml_assert (n_outputs_prev + co_n_outputs o1 \<le> n_outputs_all) ''n_outputs_prev + n_outputs <= n_outputs_all''
         (ggml_assert ((n_outputs_prev + co_n_outputs o1) * co_n_vocab o1 \<le> length (co_logits o1)) ''(n_outputs_prev + n_outputs)*n_vocab <= (int64_t) logits.size''
           (Inr (o1\<lparr>co_logits := buf_write (n_outputs_prev * co_n_vocab o1) (take (co_n_outputs o1 * co_n_vocab o1) t) (co_logits o1)\<rparr>)))
       else Inr o1
   | None \<Rightarrow> Inr o1)"

text \<open>Pooled embeddings: one row per sequence of the ubatch.\<close>

definition extract_embd_seq :: "nat \<Rightarrow> 'f list \<Rightarrow> llama_ubatch \<Rightarrow> (llama_seq_id \<rightharpoonup> 'f list) \<Rightarrow> (llama_seq_id \<rightharpoonup> 'f list)" where
  "extract_embd_seq w t ubatch es = fold (\<lambda>s es. let seq_id = ub_seq_id_unq ubatch ! s; seq_idx = ub_seq_idx ubatch ! nat seq_id
     in es(seq_id \<mapsto> take w (drop (w * nat seq_idx) t))) [0..<ub_n_seqs_unq ubatch] es"

definition extract_embd :: "'f graph_result \<Rightarrow> llama_ubatch \<Rightarrow> nat \<Rightarrow> nat \<Rightarrow> ('m, 'd, 'f) llama_context \<Rightarrow> ('m, 'd, 'f) llama_context res" where
  "extract_embd res ubatch n_outputs_prev n_outputs_all cx =
    (let o1 = cx_out cx; n_embd_out = co_n_embd_out o1;
         t_embd = (if cp_embeddings (cx_cparams cx) then gr_embd res else None);
         t_embd = (if t_embd \<noteq> None \<and> gr_embd_pooled res \<noteq> None then gr_embd_pooled res else t_embd)
     in case t_embd of
          None \<Rightarrow> Inr cx
        | Some t \<Rightarrow> if co_embd o1 \<noteq> [] \<and> co_n_outputs o1 > 0 then
            (case cp_pooling_type (cx_cparams cx) of
               LLAMA_POOLING_TYPE_NONE \<Rightarrow>
                 ggml_assert (n_outputs_prev + co_n_outputs o1 \<le> n_outputs_all) ''n_outputs_prev + n_outputs <= n_outputs_all''
                   (ggml_assert ((n_outputs_prev + co_n_outputs o1) * n_embd_out \<le> length (co_embd o1)) ''(n_outputs_prev + n_outputs)*n_embd_out <= (int64_t) embd.size''
                     (Inr (cx\<lparr>cx_out := o1\<lparr>co_embd := buf_write (n_outputs_prev * n_embd_out) (take (co_n_outputs o1 * n_embd_out) t) (co_embd o1)\<rparr>\<rparr>)))
             | LLAMA_POOLING_TYPE_MEAN \<Rightarrow> Inr (cx\<lparr>cx_embd_seq := extract_embd_seq n_embd_out t ubatch (cx_embd_seq cx)\<rparr>)
             | LLAMA_POOLING_TYPE_CLS \<Rightarrow> Inr (cx\<lparr>cx_embd_seq := extract_embd_seq n_embd_out t ubatch (cx_embd_seq cx)\<rparr>)
             | LLAMA_POOLING_TYPE_LAST \<Rightarrow> Inr (cx\<lparr>cx_embd_seq := extract_embd_seq n_embd_out t ubatch (cx_embd_seq cx)\<rparr>)
             | LLAMA_POOLING_TYPE_RANK \<Rightarrow> Inr (cx\<lparr>cx_embd_seq := extract_embd_seq (cx_n_cls_out cx) t ubatch (cx_embd_seq cx)\<rparr>)
             | LLAMA_POOLING_TYPE_UNSPECIFIED \<Rightarrow> Inl (GGML_ABORT ''unknown pooling type''))
          else Inr cx)"

definition extract_layer_inputs :: "'f graph_result \<Rightarrow> nat \<Rightarrow> nat \<Rightarrow> llama_cparams \<Rightarrow> 'f ctx_outputs \<Rightarrow> 'f ctx_outputs res" where
  "extract_layer_inputs res token_offset n_tokens cp o1 =
    fold_res (\<lambda>il o1. if \<not> cp_embeddings_layer_inp cp ! il then Inr o1
      else if co_embd_layer_inp o1 ! il = [] then Inl (GGML_ABORT ''output layer input buffer not allocated'')
      else case gr_layer_inp res ! il of
             None \<Rightarrow> Inl (GGML_ABORT ''layer input tensor not found'')
           | Some t \<Rightarrow>
               ggml_assert (n_tokens > 0) ''n_tokens > 0''
                 (ggml_assert (length t mod n_tokens = 0) ''nfloats % n_tokens == 0''
                   (let dst_offset = token_offset * (length t div n_tokens); buf = co_embd_layer_inp o1 ! il
                    in ggml_assert (dst_offset + length t \<le> length buf) ''dst_offset + nfloats <= embd_layer_inp[il].size''
                         (Inr (o1\<lparr>co_embd_layer_inp := (co_embd_layer_inp o1)[il := buf_write dst_offset t buf]\<rparr>)))))
      [0..<length (cp_embeddings_layer_inp cp)] o1"

definition extract_nextn :: "'f graph_result \<Rightarrow> llama_ubatch \<Rightarrow> nat \<Rightarrow> nat \<Rightarrow> llama_cparams \<Rightarrow> 'f ctx_outputs \<Rightarrow> 'f ctx_outputs res" where
  "extract_nextn res ubatch n_outputs_prev n_tokens_prev cp o1 =
    (let masked = cp_embeddings_nextn_masked cp;
         n_rows = (if masked then co_n_outputs o1 else ub_n_tokens ubatch);
         offset = (if masked then n_outputs_prev else n_tokens_prev);
         n_embd = co_n_embd_out o1
     in case (if cp_embeddings_nextn cp then gr_h_nextn res else None) of
          None \<Rightarrow> Inr o1
        | Some t \<Rightarrow> if co_embd_nextn o1 \<noteq> [] \<and> n_rows > 0 \<and> cp_pooling_type cp = LLAMA_POOLING_TYPE_NONE
            then ggml_assert ((offset + n_rows) * n_embd \<le> length (co_embd_nextn o1)) ''(offset + n_rows)*n_embd <= (int64_t) embd_nextn.size''
              (Inr (o1\<lparr>co_embd_nextn := buf_write (offset * n_embd) (take (n_rows * n_embd) t) (co_embd_nextn o1)\<rparr>))
            else Inr o1)"

definition extract_outputs :: "'f graph_result \<Rightarrow> llama_ubatch \<Rightarrow> nat \<Rightarrow> nat \<Rightarrow> nat \<Rightarrow> ('m, 'd, 'f) llama_context \<Rightarrow> ('m, 'd, 'f) llama_context res" where
  "extract_outputs res ubatch n_outputs_prev n_tokens_prev n_outputs_all cx =
    bind_res (extract_logits res ubatch n_outputs_prev n_outputs_all (cx_out cx)) (\<lambda>o1.
    bind_res (extract_embd res ubatch n_outputs_prev n_outputs_all (cx\<lparr>cx_out := o1\<rparr>)) (\<lambda>cx.
    bind_res (extract_layer_inputs res n_tokens_prev (ub_n_tokens ubatch) (cx_cparams cx) (cx_out cx)) (\<lambda>o1.
    bind_res (extract_nextn res ubatch n_outputs_prev n_tokens_prev (cx_cparams cx) o1) (\<lambda>o1. Inr (cx\<lparr>cx_out := o1\<rparr>)))))"

subsection \<open>The ubatch loop\<close>

definition count_outputs :: "nat \<Rightarrow> nat \<Rightarrow> llama_ubatch \<Rightarrow> nat" where
  "count_outputs n_outputs_all n_tokens_all ubatch =
    (if n_outputs_all = n_tokens_all then ub_n_tokens ubatch
     else fold (\<lambda>i n. n + (if ub_output ubatch ! i \<noteq> 0 then 1 else 0)) [0..<ub_n_tokens ubatch] 0)"

text \<open>One round: \<open>Inl\<close> is an early return with its code, \<open>Inr\<close> the new counters and whether there is another ubatch.\<close>

definition decode_ubatch :: "('m, 'd, 'c) llama_memory_i \<Rightarrow> ('m, 'd, 'c, 'f) backend \<Rightarrow> nat \<Rightarrow> nat \<Rightarrow> 'c \<Rightarrow> nat \<Rightarrow> nat \<Rightarrow> ('m, 'd, 'f) llama_context
    \<Rightarrow> ((int + bool \<times> 'c \<times> nat \<times> nat) \<times> ('m, 'd, 'f) llama_context) res" where
  "decode_ubatch vt be n_outputs_all n_tokens_all mctx n_outputs_prev n_tokens_prev cx =
    (let ubatch = ctx_get_ubatch vt mctx; n_outputs = count_outputs n_outputs_all n_tokens_all ubatch;
         cx = cx\<lparr>cx_out := (cx_out cx)\<lparr>co_n_outputs := n_outputs\<rparr>\<rparr>
     in bind_res (process_ubatch vt be ubatch mctx cx) (\<lambda>(r, mctx, cx).
        case r of
          Inl status \<Rightarrow>
            bind_res (remove_failed vt ubatch (cx_memory cx)) (\<lambda>m.
            bind_res (failed_code status) (\<lambda>code. Inr (Inl code, cx\<lparr>cx_memory := m\<rparr>)))
        | Inr res \<Rightarrow>
            bind_res (extract_outputs res ubatch n_outputs_prev n_tokens_prev n_outputs_all cx) (\<lambda>cx.
              let (again, mctx) = ctx_next vt mctx
              in Inr (Inr (again, mctx, n_outputs_prev + n_outputs, n_tokens_prev + ub_n_tokens ubatch), cx))))"

partial_function (option) decode_loop :: "('m, 'd, 'c) llama_memory_i \<Rightarrow> ('m, 'd, 'c, 'f) backend \<Rightarrow> nat \<Rightarrow> nat \<Rightarrow> 'c \<Rightarrow> nat \<Rightarrow> nat
    \<Rightarrow> ('m, 'd, 'f) llama_context \<Rightarrow> (int option \<times> ('m, 'd, 'f) llama_context) res option" where
  "decode_loop vt be n_outputs_all n_tokens_all mctx n_outputs_prev n_tokens_prev cx =
    (case decode_ubatch vt be n_outputs_all n_tokens_all mctx n_outputs_prev n_tokens_prev cx of
       Inl e \<Rightarrow> Some (Inl e)
     | Inr (Inl code, cx) \<Rightarrow> Some (Inr (Some code, cx))
     | Inr (Inr (again, mctx, n_outputs_prev, n_tokens_prev), cx) \<Rightarrow>
         if again then decode_loop vt be n_outputs_all n_tokens_all mctx n_outputs_prev n_tokens_prev cx else Some (Inr (None, cx)))"

declare decode_loop.simps [code]

subsection \<open>\<open>decode\<close>\<close>

text \<open>The loop around \<open>init_batch\<close>: after one failure to prepare it tries again if the memory could be updated.
  \<open>Inl\<close> is an early return.\<close>

definition init_batch_once :: "('m, 'd, 'c) llama_memory_i \<Rightarrow> ('m, 'd, 'f) llama_context \<Rightarrow> ('c \<times> ('m, 'd, 'f) llama_context) res" where
  "init_batch_once vt cx = bind_res (mem_init_batch vt (cp_n_ubatch (cx_cparams cx)) (cp_embeddings (cx_cparams cx)) (cx_balloc cx) (cx_memory cx))
     (\<lambda>(mctx, balloc, m). Inr (mctx, cx\<lparr>cx_balloc := balloc, cx_memory := m\<rparr>))"

fun init_batch_loop :: "('m, 'd, 'c) llama_memory_i \<Rightarrow> nat \<Rightarrow> ('m, 'd, 'f) llama_context \<Rightarrow> ((int + 'c) \<times> ('m, 'd, 'f) llama_context) res" where
  "init_batch_loop vt n_optimize cx = bind_res (init_batch_once vt cx) (\<lambda>(mctx, cx).
     case ctx_get_status vt mctx of
       LLAMA_MEMORY_STATUS_SUCCESS \<Rightarrow> Inr (Inr mctx, cx)
     | LLAMA_MEMORY_STATUS_NO_UPDATE \<Rightarrow> Inr (Inl (-2), cx)
     | LLAMA_MEMORY_STATUS_FAILED_COMPUTE \<Rightarrow> Inr (Inl (-2), cx)
     | LLAMA_MEMORY_STATUS_FAILED_PREPARE \<Rightarrow> (case n_optimize of
         0 \<Rightarrow> Inr (Inl 1, cx)
       | Suc n \<Rightarrow> bind_res (memory_update vt cx) (\<lambda>(updated, cx). if updated then init_batch_loop vt n cx else Inr (Inl 1, cx))))"

definition mem_view_of :: "('m, 'd, 'c) llama_memory_i \<Rightarrow> 'm \<Rightarrow> mem_view" where
  "mem_view_of vt m = \<lparr>mv_seq_pos_min = (\<lambda>s. projr (mem_seq_pos_min vt m s)), mv_seq_pos_max = (\<lambda>s. projr (mem_seq_pos_max vt m s))\<rparr>"

text \<open>From the reserved buffer on: the ubatches, then the output mappings.\<close>

definition decode_batch :: "('m, 'd, 'c) llama_memory_i \<Rightarrow> ('m, 'd, 'c, 'f) backend \<Rightarrow> nat \<Rightarrow> nat \<Rightarrow> 'c \<Rightarrow> ('m, 'd, 'f) llama_context \<Rightarrow> (int \<times> ('m, 'd, 'f) llama_context) res" where
  "decode_batch vt be n_outputs_all n_tokens_all mctx cx =
    bind_res (output_reserve be n_outputs_all cx) (\<lambda>(n, cx).
        if n < n_outputs_all then Inr (-2, cx)
        else bind_res (bind_res (run_loop (decode_loop vt be n_outputs_all n_tokens_all mctx 0 0 cx)) id) (\<lambda>(early, cx).
          case early of
            Some code \<Rightarrow> Inr (code, cx)
          | None \<Rightarrow> bind_res (set_output_mappings (get_out_ids (cx_balloc cx)) ((cx_out cx)\<lparr>co_n_outputs := n_outputs_all\<rparr>)) (\<lambda>o1.
              Inr (0, cx\<lparr>cx_out := o1\<rparr>))))"

text \<open>The call of \<open>balloc->init\<close> with its arguments.\<close>

definition decode_init :: "('m, 'd, 'c) llama_memory_i \<Rightarrow> llama_batch \<Rightarrow> ('m, 'd, 'f) llama_context \<Rightarrow> (bool \<times> batch_allocr) res" where
  "decode_init vt batch_inp cx =
    (let cp = cx_cparams cx; hp = cx_hparams cx; n_vocab = co_n_vocab (cx_out cx);
         mtp_embd = (cp_ctx_mtp cp \<and> b_embd batch_inp \<noteq> None);
         n_embd = unat (if mtp_embd then n_embd_out hp else n_embd_inp hp);
         output_all = cp_embeddings cp;
         n_seq_max = (if cp_kv_unified cp then LLAMA_MAX_SEQ else cp_n_seq_max cp)
     in allocr_init n_vocab (Some (mem_view_of vt (cx_memory cx))) n_embd n_seq_max output_all batch_inp (cx_balloc cx))"

definition decode :: "('m, 'd, 'c) llama_memory_i \<Rightarrow> ('m, 'd, 'c, 'f) backend \<Rightarrow> llama_batch \<Rightarrow> ('m, 'd, 'f) llama_context \<Rightarrow> (int \<times> ('m, 'd, 'f) llama_context) res" where
  "decode vt be batch_inp cx =
    ggml_assert (b_token batch_inp \<noteq> None \<or> b_embd batch_inp \<noteq> None) ''batch_inp.token || batch_inp.embd''
      (if b_n_tokens batch_inp = 0 then Inr (-1, cx)
       else let cp = cx_cparams cx; output_all = cp_embeddings cp
            in bind_res (decode_init vt batch_inp cx) (\<lambda>(ok, balloc).
               let cx = cx\<lparr>cx_balloc := balloc\<rparr> in
               if \<not> ok then Inr (-1, cx)
               else let n_tokens_all = get_n_tokens balloc; n_outputs_all = get_n_outputs balloc in
                 if output_all \<and> n_outputs_all \<noteq> n_tokens_all then Inr (-1, cx)
                 else ggml_assert (n_tokens_all \<le> cp_n_batch cp) ''n_tokens_all <= cparams.n_batch''
                   (ggml_assert (cp_causal_attn cp \<or> cp_n_ubatch cp \<ge> n_tokens_all) ''non-causal attention requires n_ubatch >= n_tokens''
                     (let cx = cx\<lparr>cx_embd_seq := (\<lambda>_. None), cx_out := (cx_out cx)\<lparr>co_output_swaps := []\<rparr>\<rparr>
                      in bind_res (memory_update vt cx) (\<lambda>(_, cx).
                         bind_res (init_batch_loop vt 1 cx) (\<lambda>(r, cx). case r of
                             Inl code \<Rightarrow> Inr (code, cx)
                           | Inr mctx \<Rightarrow> decode_batch vt be n_outputs_all n_tokens_all mctx cx))))))"

end
