(* ===== verification/Decode_Props.thy ===== *)
theory Decode_Props
  imports Decode
begin

section \<open>What decoding does to the memory\<close>

text \<open>
  The loop of \<open>decode\<close> over the ubatches of a memory context, proved once for every memory that satisfies
  the contract \<open>batch_memory\<close> and interpreted for the KV cache without a sliding window.
\<close>

subsection \<open>A failed ubatch\<close>

lemma fold_res_guard: "fold_res (\<lambda>x s. if P x then Inr s else f x s) xs s = fold_res f (filter (\<lambda>x. \<not> P x) xs) s"
proof (induction xs arbitrary: s)
  case (Cons x xs)
  then have "fold_res (\<lambda>x s. if P x then Inr s else f x s) xs = fold_res f (filter (\<lambda>x. \<not> P x) xs)" by (simp add: fun_eq_iff)
  then show ?case by simp
qed simp

lemma fold_res_map: "fold_res f (map g xs) = fold_res (\<lambda>x. f (g x)) xs"
proof (induction xs)
  case (Cons x xs)
  then show ?case by (intro ext) simp
qed (simp add: fun_eq_iff)

definition first_seqs :: "llama_ubatch \<Rightarrow> llama_seq_id \<Rightarrow> llama_pos set" where
  "first_seqs ub q = {ub_pos ub ! i |i. i < ub_n_tokens ub \<and> ub_seq_id ub ! i ! 0 = q}"

lemma failed_pos_min_spec:
  assumes "\<forall>i < ub_n_tokens ub. 0 \<le> ub_seq_id ub ! i ! 0 \<and> ub_seq_id ub ! i ! 0 < int LLAMA_MAX_SEQ \<and> ub_pos ub ! i < INT32_MAX" and "s < LLAMA_MAX_SEQ"
  shows "failed_pos_min ub ! s = (if first_seqs ub (int s) = {} then INT32_MAX else Min (first_seqs ub (int s)))"
proof -
  define P where "P k = {ub_pos ub ! i |i. i < k \<and> ub_seq_id ub ! i ! 0 = int s}" for k
  let ?step = "\<lambda>i pm. let q = ub_seq_id ub ! i ! 0 in pm[nat q := min (pm ! nat q) (ub_pos ub ! i)]"
  have fin: "finite (P k)" for k unfolding P_def by (rule finite_subset [of _ "(\<lambda>i. ub_pos ub ! i) ` {..<k}"]) auto
  have *: "k \<le> ub_n_tokens ub \<Longrightarrow> length (fold ?step [0..<k] (replicate LLAMA_MAX_SEQ INT32_MAX)) = LLAMA_MAX_SEQ
      \<and> fold ?step [0..<k] (replicate LLAMA_MAX_SEQ INT32_MAX) ! s = (if P k = {} then INT32_MAX else Min (P k))" for k
  proof (induction k)
    case 0
    then show ?case using assms(2) by (simp add: P_def)
  next
    case (Suc k)
    let ?q = "ub_seq_id ub ! k ! 0"
    have q: "0 \<le> ?q" "nat ?q < LLAMA_MAX_SEQ" "ub_pos ub ! k < INT32_MAX" using assms(1) Suc.prems by (simp_all add: nat_less_iff Suc_le_eq)
    have P: "P (Suc k) = (if ?q = int s then insert (ub_pos ub ! k) (P k) else P k)" by (auto simp: P_def less_Suc_eq)
    have "nat ?q = s \<longleftrightarrow> ?q = int s" using q(1) by auto
    then show ?case using Suc q(2,3) fin [of k] unfolding P by (auto simp: Let_def nth_list_update min.commute)
  qed
  have "P (ub_n_tokens ub) = first_seqs ub (int s)" by (simp add: P_def first_seqs_def)
  with * [OF order_refl] show ?thesis by (simp only: failed_pos_min_def)
qed

lemma rm_ops_trace:
  assumes "\<forall>s \<in> set ss. int s \<in> am_seqs a" "distinct ss"
  shows "abs_trace (map (\<lambda>s. OP_RM (int s) (g s) (-1)) ss) a"
    "fold abs_op (map (\<lambda>s. OP_RM (int s) (g s) (-1)) ss) a
       = a\<lparr>am_pos := (\<lambda>q. if 0 \<le> q \<and> nat q \<in> set ss then {p \<in> am_pos a q. \<not> in_rng (g (nat q)) (-1) p} else am_pos a q)\<rparr>"
proof -
  have "abs_trace (map (\<lambda>s. OP_RM (int s) (g s) (-1)) ss) a \<and> fold abs_op (map (\<lambda>s. OP_RM (int s) (g s) (-1)) ss) a
       = a\<lparr>am_pos := (\<lambda>q. if 0 \<le> q \<and> nat q \<in> set ss then {p \<in> am_pos a q. \<not> in_rng (g (nat q)) (-1) p} else am_pos a q)\<rparr>"
    using assms
  proof (induction ss arbitrary: a)
    case (Cons s ss)
    let ?a = "abs_op (OP_RM (int s) (g s) (-1)) a"
    have a: "am_seqs ?a = am_seqs a" "am_pos ?a = (am_pos a)(int s := {p \<in> am_pos a (int s). \<not> in_rng (g s) (-1) p})"
      by (simp_all add: abs_op_def)
    have IH: "abs_trace (map (\<lambda>s. OP_RM (int s) (g s) (-1)) ss) ?a" "fold abs_op (map (\<lambda>s. OP_RM (int s) (g s) (-1)) ss) ?a
       = ?a\<lparr>am_pos := (\<lambda>q. if 0 \<le> q \<and> nat q \<in> set ss then {p \<in> am_pos ?a q. \<not> in_rng (g (nat q)) (-1) p} else am_pos ?a q)\<rparr>"
      using Cons.IH [of ?a] Cons.prems a(1) by simp_all
    have upd: "?a\<lparr>am_pos := f\<rparr> = a\<lparr>am_pos := f\<rparr>" for f by (simp add: abs_op_def)
    have "(\<lambda>q. if 0 \<le> q \<and> nat q \<in> set ss then {p \<in> am_pos ?a q. \<not> in_rng (g (nat q)) (-1) p} else am_pos ?a q)
        = (\<lambda>q. if 0 \<le> q \<and> nat q \<in> set (s # ss) then {p \<in> am_pos a q. \<not> in_rng (g (nat q)) (-1) p} else am_pos a q)"
      using Cons.prems(2) unfolding a(2) by (auto simp: fun_eq_iff)
    then show ?case using IH Cons.prems(1) upd by simp
  qed simp
  then show "abs_trace (map (\<lambda>s. OP_RM (int s) (g s) (-1)) ss) a"
    "fold abs_op (map (\<lambda>s. OP_RM (int s) (g s) (-1)) ss) a
       = a\<lparr>am_pos := (\<lambda>q. if 0 \<le> q \<and> nat q \<in> set ss then {p \<in> am_pos a q. \<not> in_rng (g (nat q)) (-1) p} else am_pos a q)\<rparr>" by simp_all
qed

text \<open>The positions that \<open>decode\<close> removes after a failure: from the least position of the tokens whose first
  sequence it is.\<close>

definition without_failed :: "llama_ubatch \<Rightarrow> abs_memory \<Rightarrow> abs_memory" where
  "without_failed ub a = a\<lparr>am_pos := (\<lambda>q. if first_seqs ub q = {} then am_pos a q
     else {p \<in> am_pos a q. \<not> in_rng (Min (first_seqs ub q)) (-1) p})\<rparr>"

definition ubatch_seqs_ok :: "llama_ubatch \<Rightarrow> abs_memory \<Rightarrow> bool" where
  "ubatch_seqs_ok ub a \<longleftrightarrow> (\<forall>i < ub_n_tokens ub. ub_seq_id ub ! i ! 0 \<in> am_seqs a \<and> ub_pos ub ! i < INT32_MAX) \<and> am_seqs a \<subseteq> valid_seqs"

context llama_memory
begin

lemma remove_failed_refines:
  assumes "inv m" "ubatch_seqs_ok ub (absm m)"
  shows "\<exists>m'. remove_failed vt ub m = Inr m' \<and> inv m' \<and> absm m' = without_failed ub (absm m)"
proof -
  let ?g = "\<lambda>s. failed_pos_min ub ! s"
  have v: "0 \<le> q \<and> q < int LLAMA_MAX_SEQ" if "q \<in> am_seqs (absm m)" for q
    using that assms(2) by (auto simp: ubatch_seqs_ok_def valid_seqs_def)
  have tok: "\<forall>i < ub_n_tokens ub. 0 \<le> ub_seq_id ub ! i ! 0 \<and> ub_seq_id ub ! i ! 0 < int LLAMA_MAX_SEQ \<and> ub_pos ub ! i < INT32_MAX"
    using assms(2) v by (auto simp: ubatch_seqs_ok_def)
  have fin: "finite (first_seqs ub q)" for q
    unfolding first_seqs_def by (rule finite_subset [of _ "(\<lambda>i. ub_pos ub ! i) ` {..<ub_n_tokens ub}"]) auto
  have lt: "Min (first_seqs ub q) < INT32_MAX" if "first_seqs ub q \<noteq> {}" for q
    using Min_in [OF fin that] assms(2) by (auto simp: first_seqs_def ubatch_seqs_ok_def)
  have pm: "?g s = (if first_seqs ub (int s) = {} then INT32_MAX else Min (first_seqs ub (int s)))" if "s < LLAMA_MAX_SEQ" for s
    by (rule failed_pos_min_spec [OF tok that])
  then have ne: "?g s \<noteq> INT32_MAX \<longleftrightarrow> first_seqs ub (int s) \<noteq> {}" if "s < LLAMA_MAX_SEQ" for s
    using lt [of "int s"] that by (cases "first_seqs ub (int s) = {}") simp_all
  define ss where "ss = filter (\<lambda>s. ?g s \<noteq> INT32_MAX) [0..<LLAMA_MAX_SEQ]"
  have mem: "s \<in> set ss \<longleftrightarrow> s < LLAMA_MAX_SEQ \<and> first_seqs ub (int s) \<noteq> {}" for s using ne by (auto simp: ss_def)
  have seqs: "\<forall>s \<in> set ss. int s \<in> am_seqs (absm m)"
  proof
    fix s assume "s \<in> set ss"
    then obtain i where "i < ub_n_tokens ub" "ub_seq_id ub ! i ! 0 = int s" using mem [of s] by (auto simp: first_seqs_def)
    then show "int s \<in> am_seqs (absm m)" using assms(2) unfolding ubatch_seqs_ok_def by metis
  qed
  have d: "distinct ss" by (simp add: ss_def)
  have "remove_failed vt ub m = fold_res (run_op vt) (map (\<lambda>s. OP_RM (int s) (?g s) (-1)) ss) m"
    unfolding remove_failed_def Let_def fold_res_guard ss_def [symmetric] fold_res_map run_op.simps(2) [abs_def] by simp
  moreover obtain m' where m': "fold_res (run_op vt) (map (\<lambda>s. OP_RM (int s) (?g s) (-1)) ss) m = Inr m'" "inv m'"
    "absm m' = fold abs_op (map (\<lambda>s. OP_RM (int s) (?g s) (-1)) ss) (absm m)"
    using trace_refines [OF assms(1) rm_ops_trace(1) [OF seqs d]] by blast
  moreover have "(\<lambda>q. if 0 \<le> q \<and> nat q \<in> set ss then {p \<in> am_pos (absm m) q. \<not> in_rng (?g (nat q)) (-1) p} else am_pos (absm m) q)
      = (\<lambda>q. if first_seqs ub q = {} then am_pos (absm m) q else {p \<in> am_pos (absm m) q. \<not> in_rng (Min (first_seqs ub q)) (-1) p})"
  proof
    fix q
    have iff: "0 \<le> q \<and> nat q \<in> set ss \<longleftrightarrow> first_seqs ub q \<noteq> {}"
      using mem [of "nat q"] tok by (auto simp: first_seqs_def)
    have "?g (nat q) = Min (first_seqs ub q)" if ne: "first_seqs ub q \<noteq> {}"
    proof -
      have q: "0 \<le> q" "nat q < LLAMA_MAX_SEQ" using ne iff mem [of "nat q"] by auto
      then have "first_seqs ub (int (nat q)) = first_seqs ub q" by simp
      then show ?thesis using pm [OF q(2)] ne by presburger
    qed
    then show "(if 0 \<le> q \<and> nat q \<in> set ss then {p \<in> am_pos (absm m) q. \<not> in_rng (?g (nat q)) (-1) p} else am_pos (absm m) q)
      = (if first_seqs ub q = {} then am_pos (absm m) q else {p \<in> am_pos (absm m) q. \<not> in_rng (Min (first_seqs ub q)) (-1) p})"
      using iff by presburger
  qed
  ultimately show ?thesis using rm_ops_trace(2) [OF seqs d] by (simp add: without_failed_def)
qed

end

subsection \<open>Extracting the outputs of a ubatch\<close>

text \<open>A context that extracts logits and token embeddings only, room for all outputs of the batch, and
  tensors of the shape the graph gives them.\<close>

definition plain_params :: "llama_cparams \<Rightarrow> bool" where
  "plain_params cp \<longleftrightarrow> cp_pooling_type cp = LLAMA_POOLING_TYPE_NONE \<and> \<not> cp_embeddings_nextn cp \<and> list_all Not (cp_embeddings_layer_inp cp)"

definition out_room :: "nat \<Rightarrow> llama_cparams \<Rightarrow> 'f ctx_outputs \<Rightarrow> bool" where
  "out_room n cp o1 \<longleftrightarrow> n * co_n_vocab o1 \<le> length (co_logits o1) \<and> (cp_embeddings cp \<longrightarrow> n * co_n_embd_out o1 \<le> length (co_embd o1))"

definition good_result :: "nat \<Rightarrow> nat \<Rightarrow> nat \<Rightarrow> 'f graph_result \<Rightarrow> bool" where
  "good_result k w e res \<longleftrightarrow> (\<forall>t. gr_logits res = Some t \<longrightarrow> length t = k * w)
     \<and> (\<forall>t. gr_embd res = Some t \<longrightarrow> length t = k * e) \<and> gr_embd_pooled res = None"

definition same_room :: "'f ctx_outputs \<Rightarrow> 'f ctx_outputs \<Rightarrow> bool" where
  "same_room o1 o2 \<longleftrightarrow> length (co_logits o2) = length (co_logits o1) \<and> length (co_embd o2) = length (co_embd o1)
     \<and> o2\<lparr>co_logits := [], co_embd := [], co_n_outputs := 0\<rparr> = o1\<lparr>co_logits := [], co_embd := [], co_n_outputs := 0\<rparr>"

lemma same_room_refl [simp]: "same_room o1 o1" and same_room_n [simp]: "same_room o1 (o1\<lparr>co_n_outputs := k\<rparr>)"
  by (simp_all add: same_room_def)

lemma same_room_trans: "same_room o1 o2 \<Longrightarrow> same_room o2 o3 \<Longrightarrow> same_room o1 o3"
  by (simp add: same_room_def)

lemma same_room_fields:
  assumes "same_room o1 o2"
  shows "co_n_vocab o2 = co_n_vocab o1" "co_n_embd_out o2 = co_n_embd_out o1" "co_output_ids o2 = co_output_ids o1"
    "co_output_swaps o2 = co_output_swaps o1" "length (co_logits o2) = length (co_logits o1)" "length (co_embd o2) = length (co_embd o1)"
proof -
  have e: "o2\<lparr>co_logits := [], co_embd := [], co_n_outputs := 0\<rparr> = o1\<lparr>co_logits := [], co_embd := [], co_n_outputs := 0\<rparr>"
    using assms by (simp add: same_room_def)
  show "co_n_vocab o2 = co_n_vocab o1" using arg_cong [OF e, of co_n_vocab] by simp
  show "co_n_embd_out o2 = co_n_embd_out o1" using arg_cong [OF e, of co_n_embd_out] by simp
  show "co_output_ids o2 = co_output_ids o1" using arg_cong [OF e, of co_output_ids] by simp
  show "co_output_swaps o2 = co_output_swaps o1" using arg_cong [OF e, of co_output_swaps] by simp
  show "length (co_logits o2) = length (co_logits o1)" "length (co_embd o2) = length (co_embd o1)" using assms by (simp_all add: same_room_def)
qed

lemma same_room_room: "same_room o1 o2 \<Longrightarrow> out_room n cp o2 = out_room n cp o1"
  by (simp add: out_room_def same_room_fields [of o1 o2])

lemma length_buf_write: "off + length xs \<le> length buf \<Longrightarrow> length (buf_write off xs buf) = length buf"
  by (simp add: buf_write_def)

lemma extract_plain:
  assumes p: "plain_params (cx_cparams cx)" and r: "out_room all (cx_cparams cx) (cx_out cx)"
    and g: "good_result (co_n_outputs (cx_out cx)) (co_n_vocab (cx_out cx)) (co_n_embd_out (cx_out cx)) res" and k: "prev + co_n_outputs (cx_out cx) \<le> all"
  shows "\<exists>o1. extract_outputs res ub prev tprev all cx = Inr (cx\<lparr>cx_out := o1\<rparr>) \<and> same_room (cx_out cx) o1"
proof -
  let ?o = "cx_out cx" and ?k = "co_n_outputs (cx_out cx)"
  have le: "prev * w + ?k * w \<le> n" if "all * w \<le> n" for w n
  proof -
    have "(prev + ?k) * w \<le> all * w" using k by (rule mult_le_mono1)
    then show ?thesis using that by (simp add: add_mult_distrib)
  qed
  obtain o1 where o1: "extract_logits res ub prev all ?o = Inr o1" "same_room ?o o1" "co_n_outputs o1 = ?k"
  proof (cases "gr_logits res")
    case None
    then show ?thesis using that [of ?o] by (simp add: extract_logits_def)
  next
    case (Some t)
    have t: "length t = ?k * co_n_vocab ?o" using g Some by (simp add: good_result_def)
    have b: "prev * co_n_vocab ?o + ?k * co_n_vocab ?o \<le> length (co_logits ?o)" using r le by (simp add: out_room_def)
    show ?thesis
    proof (cases "co_logits ?o \<noteq> [] \<and> 0 < ?k \<and> needs_raw_logits ub {}")
      case True
      let ?o1 = "?o\<lparr>co_logits := buf_write (prev * co_n_vocab ?o) t (co_logits ?o)\<rparr>"
      have "extract_logits res ub prev all ?o = Inr ?o1" using Some True k b t by (simp add: extract_logits_def add_mult_distrib)
      moreover have "same_room ?o ?o1" using t b by (simp add: same_room_def length_buf_write)
      ultimately show ?thesis using that [of ?o1] by simp
    next
      case False
      then show ?thesis using that [of ?o] Some by (auto simp: extract_logits_def)
    qed
  qed
  note f1 = same_room_fields [OF o1(2)]
  obtain o2 where o2: "extract_embd res ub prev all (cx\<lparr>cx_out := o1\<rparr>) = Inr (cx\<lparr>cx_out := o2\<rparr>)" "same_room ?o o2"
  proof (cases "cp_embeddings (cx_cparams cx) \<and> gr_embd res \<noteq> None \<and> co_embd o1 \<noteq> [] \<and> 0 < ?k")
    case True
    then obtain t where t: "gr_embd res = Some t" "length t = ?k * co_n_embd_out ?o" using g by (auto simp: good_result_def)
    have b: "prev * co_n_embd_out ?o + ?k * co_n_embd_out ?o \<le> length (co_embd o1)" using r le True f1 by (simp add: out_room_def)
    let ?o2 = "o1\<lparr>co_embd := buf_write (prev * co_n_embd_out ?o) t (co_embd o1)\<rparr>"
    have "extract_embd res ub prev all (cx\<lparr>cx_out := o1\<rparr>) = Inr (cx\<lparr>cx_out := ?o2\<rparr>)"
      using True t b k p g f1 o1(3) by (simp add: extract_embd_def plain_params_def good_result_def add_mult_distrib)
    moreover have "same_room o1 ?o2" using t b by (simp add: same_room_def length_buf_write)
    ultimately show ?thesis using that [of ?o2] same_room_trans [OF o1(2)] by blast
  next
    case False
    then have "extract_embd res ub prev all (cx\<lparr>cx_out := o1\<rparr>) = Inr (cx\<lparr>cx_out := o1\<rparr>)"
      using o1(3) by (auto simp: extract_embd_def Let_def split: option.splits)
    then show ?thesis using that o1(2) by blast
  qed
  have "extract_layer_inputs res tprev m (cx_cparams cx) o2 = Inr o2" for m
  proof -
    have "fold_res f xs o2 = Inr o2" if "\<forall>x \<in> set xs. f x o2 = Inr o2" for f :: "nat \<Rightarrow> 'c ctx_outputs \<Rightarrow> 'c ctx_outputs res" and xs
      using that by (induction xs) auto
    moreover have "\<not> cp_embeddings_layer_inp (cx_cparams cx) ! i" if "i < length (cp_embeddings_layer_inp (cx_cparams cx))" for i
      using p that by (simp add: plain_params_def list_all_length)
    ultimately show ?thesis by (simp add: extract_layer_inputs_def)
  qed
  moreover have "extract_nextn res ub prev tprev (cx_cparams cx) o2 = Inr o2" using p by (simp add: extract_nextn_def plain_params_def)
  ultimately have "extract_outputs res ub prev tprev all cx = Inr (cx\<lparr>cx_out := o2\<rparr>)" using o1(1) o2(1) by (simp add: extract_outputs_def)
  then show ?thesis using o2(2) by blast
qed

lemma nth_buf_write:
  "off + length t \<le> length buf \<Longrightarrow> buf_write off t buf ! i = (if off \<le> i \<and> i < off + length t then t ! (i - off) else buf ! i)"
  by (auto simp: buf_write_def nth_append)

lemma row_of_buf_write:
  assumes "length t = k * w" "(prev + k) * w \<le> length buf"
  shows "row_of w (buf_write (prev * w) t buf) r = (if prev \<le> r \<and> r < prev + k then row_of w t (r - prev) else row_of w buf r)"
proof -
  have l: "prev * w + length t \<le> length buf" using assms by (simp add: add_mult_distrib)
  have in_row: "prev * w \<le> r * w + x \<and> r * w + x < prev * w + length t \<longleftrightarrow> prev \<le> r \<and> r < prev + k" if "x < w" for x
  proof -
    have "(r * w + x) div w = r" using that by simp
    moreover have "prev * w \<le> r * w + x \<longleftrightarrow> prev \<le> (r * w + x) div w" "r * w + x < (prev + k) * w \<longleftrightarrow> (r * w + x) div w < prev + k"
      using that by (metis less_eq_div_iff_mult_less_eq gr_zeroI not_less_zero, metis div_less_iff_less_mult gr_zeroI not_less_zero)
    ultimately show ?thesis using assms(1) by (simp add: add_mult_distrib)
  qed
  have "r * w + x - prev * w = (r - prev) * w + x" if "prev \<le> r" for x using that by (simp add: diff_mult_distrib)
  then show ?thesis using nth_buf_write [OF l] in_row by (cases "prev \<le> r \<and> r < prev + k") (auto simp: row_of_def)
qed

text \<open>C3. The logits of a ubatch go to the rows after those of the earlier ubatches, in the order of the
  result, and no other row of the buffer changes.\<close>

theorem extract_logits_rows:
  assumes "gr_logits res = Some t" "length t = co_n_outputs o1 * co_n_vocab o1" "needs_raw_logits ub {}" "0 < co_n_outputs o1" "co_logits o1 \<noteq> []"
    and "prev + co_n_outputs o1 \<le> all" "all * co_n_vocab o1 \<le> length (co_logits o1)"
  shows "\<exists>o2. extract_logits res ub prev all o1 = Inr o2 \<and> length (co_logits o2) = length (co_logits o1)
    \<and> (\<forall>r. row_of (co_n_vocab o1) (co_logits o2) r
         = (if prev \<le> r \<and> r < prev + co_n_outputs o1 then row_of (co_n_vocab o1) t (r - prev) else row_of (co_n_vocab o1) (co_logits o1) r))"
proof -
  have b: "(prev + co_n_outputs o1) * co_n_vocab o1 \<le> length (co_logits o1)" using assms(6,7) by (meson le_trans mult_le_mono1)
  let ?o = "o1\<lparr>co_logits := buf_write (prev * co_n_vocab o1) t (co_logits o1)\<rparr>"
  have "extract_logits res ub prev all o1 = Inr ?o" using assms b by (simp add: extract_logits_def)
  moreover have "length (co_logits ?o) = length (co_logits o1)" using b assms(2) by (simp add: length_buf_write add_mult_distrib)
  ultimately show ?thesis using row_of_buf_write [OF assms(2) b] by auto
qed

definition demo_result :: "int graph_result" where
  "demo_result = \<lparr>gr_logits = Some [7, 8], gr_embd = None, gr_embd_pooled = None, gr_h_nextn = None, gr_layer_inp = []\<rparr>"

definition demo_rows :: "int ctx_outputs" where
  "demo_rows = \<lparr>co_n_vocab = 2, co_n_embd = 2, co_n_embd_out = 2, co_n_outputs = 1, co_output_ids = [-1, -1, -1], co_output_swaps = [],
     co_logits = [1, 2, 3, 4, 5, 6], co_embd = [], co_embd_nextn = [], co_embd_layer_inp = [], co_sampling = None\<rparr>"

theorem extract_logits_rows_witness:
  "\<exists>o2. extract_logits demo_result (demo_ubatch\<lparr>ub_output := [0, 1]\<rparr>) 1 3 demo_rows = Inr o2
    \<and> row_of 2 (co_logits o2) 0 = [1, 2] \<and> row_of 2 (co_logits o2) 1 = [7, 8] \<and> row_of 2 (co_logits o2) 2 = [5, 6]"
proof -
  have "needs_raw_logits (demo_ubatch\<lparr>ub_output := [0, 1]\<rparr>) {}" by (simp add: needs_raw_logits_def demo_ubatch_def upt_rec)
  then obtain o2 where o2: "extract_logits demo_result (demo_ubatch\<lparr>ub_output := [0, 1]\<rparr>) 1 3 demo_rows = Inr o2"
    "\<And>r. row_of 2 (co_logits o2) r = (if 1 \<le> r \<and> r < 2 then row_of 2 [7, 8] (r - 1) else row_of 2 [1, 2, 3, 4, 5, 6] r)"
    using extract_logits_rows [of demo_result "[7, 8]" demo_rows "demo_ubatch\<lparr>ub_output := [0, 1]\<rparr>" 1 3]
    by (auto simp: demo_result_def demo_rows_def)
  have "row_of 2 (co_logits o2) 0 = [1, 2]" "row_of 2 (co_logits o2) 1 = [7, 8]" "row_of 2 (co_logits o2) 2 = [5, 6]"
    unfolding o2(2) by (simp_all add: row_of_def upt_rec)
  then show ?thesis using o2(1) by blast
qed

subsection \<open>The loop over the ubatches\<close>

definition place_abs :: "llama_ubatch \<Rightarrow> abs_memory \<Rightarrow> abs_memory" where
  "place_abs ub a = a\<lparr>am_pos := (\<lambda>q. if q \<in> am_seqs a then am_pos a q \<union> new_positions ub q else am_pos a q)\<rparr>"

lemma place_abs_sel [simp]: "am_seqs (place_abs ub a) = am_seqs a"
  by (simp add: place_abs_def)

text \<open>The contract of a memory context: when it is ready for a list of ubatches, \<open>apply\<close> places the first and
  \<open>next\<close> makes it ready for the rest.\<close>

locale batch_memory = llama_memory vt inv absm
  for vt :: "('m, 'd, 'c) llama_memory_i" and inv :: "'m \<Rightarrow> bool" and absm :: "'m \<Rightarrow> abs_memory" +
  fixes ready :: "'c \<Rightarrow> llama_ubatch list \<Rightarrow> 'm \<Rightarrow> bool"
  assumes ready_ubatch: "ready x (ub # ubs) m \<Longrightarrow> ctx_get_ubatch vt x = ub"
    and ready_apply: "inv m \<Longrightarrow> ready x (ub # ubs) m \<Longrightarrow> \<exists>x' m'. ctx_apply vt x (m, d) = Inr (True, x', m', d) \<and> inv m'
      \<and> absm m' = place_abs ub (absm m) \<and> fst (ctx_next vt x') = (ubs \<noteq> []) \<and> (ubs \<noteq> [] \<longrightarrow> ready (snd (ctx_next vt x')) ubs m')"
begin

lemma decode_ubatch_ok:
  assumes i: "inv (cx_memory cx)" and r: "ready x (ub # ubs) (cx_memory cx)"
    and p: "plain_params (cx_cparams cx)" "out_room all (cx_cparams cx) (cx_out cx)" "prev + count_outputs all ntok ub \<le> all"
    and be: "\<And>x' k m d. \<exists>res d'. be_compute be x' ub k m d = (Inr res, d') \<and> good_result k (co_n_vocab (cx_out cx)) (co_n_embd_out (cx_out cx)) res"
  shows "\<exists>x' m' d' o1. decode_ubatch vt be all ntok x prev tprev cx
      = Inr (Inr (ubs \<noteq> [], x', prev + count_outputs all ntok ub, tprev + ub_n_tokens ub), cx\<lparr>cx_memory := m', cx_data := d', cx_out := o1\<rparr>)
    \<and> inv m' \<and> absm m' = place_abs ub (absm (cx_memory cx)) \<and> (ubs \<noteq> [] \<longrightarrow> ready x' ubs m') \<and> same_room (cx_out cx) o1"
proof -
  let ?k = "count_outputs all ntok ub"
  let ?o = "(cx_out cx)\<lparr>co_n_outputs := ?k\<rparr>"
  obtain x1 m' where a: "ctx_apply vt x (cx_memory cx, cx_data cx) = Inr (True, x1, m', cx_data cx)" "inv m'"
    "absm m' = place_abs ub (absm (cx_memory cx))" "fst (ctx_next vt x1) = (ubs \<noteq> [])" "ubs \<noteq> [] \<longrightarrow> ready (snd (ctx_next vt x1)) ubs m'"
    using ready_apply [OF i r, of "cx_data cx"] by blast
  obtain res d' where c: "be_compute be x1 ub ?k m' (cx_data cx) = (Inr res, d')"
    "good_result ?k (co_n_vocab (cx_out cx)) (co_n_embd_out (cx_out cx)) res" using be by blast
  let ?cx = "cx\<lparr>cx_out := ?o, cx_memory := m', cx_data := d'\<rparr>"
  obtain o1 where o1: "extract_outputs res ub prev tprev all ?cx = Inr (?cx\<lparr>cx_out := o1\<rparr>)" "same_room ?o o1"
  proof -
    have "\<exists>o1. extract_outputs res ub prev tprev all ?cx = Inr (?cx\<lparr>cx_out := o1\<rparr>) \<and> same_room (cx_out ?cx) o1"
      by (rule extract_plain) (use p c(2) in \<open>simp_all add: out_room_def\<close>)
    then obtain o1 where "extract_outputs res ub prev tprev all ?cx = Inr (?cx\<lparr>cx_out := o1\<rparr>)" "same_room (cx_out ?cx) o1" by blast
    then show ?thesis by (intro that [of o1]) simp_all
  qed
  obtain x2 where x2: "ctx_next vt x1 = (ubs \<noteq> [], x2)" using a(4) by (cases "ctx_next vt x1") simp
  have "decode_ubatch vt be all ntok x prev tprev cx
      = Inr (Inr (ubs \<noteq> [], x2, prev + ?k, tprev + ub_n_tokens ub), cx\<lparr>cx_memory := m', cx_data := d', cx_out := o1\<rparr>)"
    using ready_ubatch [OF r] a(1) c(1) o1(1) x2 by (simp add: decode_ubatch_def process_ubatch_def Let_def)
  then show ?thesis using a x2 same_room_trans [OF same_room_n o1(2)] by auto
qed

lemma decode_loop_ok:
  assumes "inv (cx_memory cx)" "ready x ubs (cx_memory cx)" "ubs \<noteq> []"
    and "plain_params (cx_cparams cx)" "out_room all (cx_cparams cx) (cx_out cx)" "prev + (\<Sum>ub\<leftarrow>ubs. count_outputs all ntok ub) \<le> all"
    and "\<And>x' ub k m d. ub \<in> set ubs \<Longrightarrow> \<exists>res d'. be_compute be x' ub k m d = (Inr res, d') \<and> good_result k (co_n_vocab (cx_out cx)) (co_n_embd_out (cx_out cx)) res"
  shows "\<exists>m' d' o1. decode_loop vt be all ntok x prev tprev cx = Some (Inr (None, cx\<lparr>cx_memory := m', cx_data := d', cx_out := o1\<rparr>))
    \<and> inv m' \<and> absm m' = fold place_abs ubs (absm (cx_memory cx)) \<and> same_room (cx_out cx) o1"
  using assms
proof (induction ubs arbitrary: x prev tprev cx)
  case (Cons ub ubs)
  have k: "prev + count_outputs all ntok ub \<le> all" using Cons.prems(6) by simp
  have be: "\<exists>res d'. be_compute be x' ub k m d = (Inr res, d') \<and> good_result k (co_n_vocab (cx_out cx)) (co_n_embd_out (cx_out cx)) res" for x' k m d
    using Cons.prems(7) by simp
  obtain x1 m1 d1 o1 where u: "decode_ubatch vt be all ntok x prev tprev cx
      = Inr (Inr (ubs \<noteq> [], x1, prev + count_outputs all ntok ub, tprev + ub_n_tokens ub), cx\<lparr>cx_memory := m1, cx_data := d1, cx_out := o1\<rparr>)"
    "inv m1" "absm m1 = place_abs ub (absm (cx_memory cx))" "ubs \<noteq> [] \<longrightarrow> ready x1 ubs m1" "same_room (cx_out cx) o1"
    using decode_ubatch_ok [OF Cons.prems(1,2,4,5) k be, of tprev] by blast
  let ?cx = "cx\<lparr>cx_memory := m1, cx_data := d1, cx_out := o1\<rparr>"
  show ?case
  proof (cases "ubs = []")
    case True
    then have "decode_loop vt be all ntok x prev tprev cx = Some (Inr (None, ?cx))" using u(1) by (subst decode_loop.simps) simp
    then show ?thesis using True u by auto
  next
    case False
    have "\<exists>m' d' o2. decode_loop vt be all ntok x1 (prev + count_outputs all ntok ub) (tprev + ub_n_tokens ub) ?cx
        = Some (Inr (None, ?cx\<lparr>cx_memory := m', cx_data := d', cx_out := o2\<rparr>))
      \<and> inv m' \<and> absm m' = fold place_abs ubs (absm (cx_memory ?cx)) \<and> same_room (cx_out ?cx) o2"
    proof (rule Cons.IH)
      show "\<exists>res d'. be_compute be x' ub k m d = (Inr res, d') \<and> good_result k (co_n_vocab (cx_out ?cx)) (co_n_embd_out (cx_out ?cx)) res"
        if "ub \<in> set ubs" for x' ub k m d
        using Cons.prems(7) [of ub] that same_room_fields(1,2) [OF u(5)] by simp
    qed (use u(2,4) False Cons.prems(4,5,6) same_room_room [OF u(5)] in simp_all)
    then obtain m' d' o2 where IH: "decode_loop vt be all ntok x1 (prev + count_outputs all ntok ub) (tprev + ub_n_tokens ub) ?cx
        = Some (Inr (None, cx\<lparr>cx_memory := m', cx_data := d', cx_out := o2\<rparr>))"
      "inv m'" "absm m' = fold place_abs ubs (absm m1)" "same_room o1 o2" by auto
    have "decode_loop vt be all ntok x prev tprev cx = Some (Inr (None, cx\<lparr>cx_memory := m', cx_data := d', cx_out := o2\<rparr>))"
      using u(1) False IH(1) by (subst decode_loop.simps) simp
    then show ?thesis using IH u(3) same_room_trans [OF u(5) IH(4)] by auto
  qed
qed simp

lemma decode_ubatch_failed:
  assumes i: "inv (cx_memory cx)" and r: "ready x (ub # ubs) (cx_memory cx)"
    and be: "\<And>x' k m d. \<exists>d'. be_compute be x' ub k m d = (Inl status, d')" and st: "failed_code status = Inr code"
    and ok: "ubatch_seqs_ok ub (absm (cx_memory cx))"
  shows "\<exists>m' d'. decode_ubatch vt be all ntok x prev tprev cx
      = Inr (Inl code, cx\<lparr>cx_memory := m', cx_data := d', cx_out := (cx_out cx)\<lparr>co_n_outputs := count_outputs all ntok ub\<rparr>\<rparr>)
    \<and> inv m' \<and> absm m' = without_failed ub (place_abs ub (absm (cx_memory cx)))"
proof -
  obtain x1 m1 where a: "ctx_apply vt x (cx_memory cx, cx_data cx) = Inr (True, x1, m1, cx_data cx)" "inv m1"
    "absm m1 = place_abs ub (absm (cx_memory cx))" using ready_apply [OF i r, of "cx_data cx"] by blast
  obtain d' where c: "be_compute be x1 ub (count_outputs all ntok ub) m1 (cx_data cx) = (Inl status, d')" using be by blast
  have "ubatch_seqs_ok ub (absm m1)" using ok by (simp add: ubatch_seqs_ok_def a(3))
  then obtain m' where m': "remove_failed vt ub m1 = Inr m'" "inv m'" "absm m' = without_failed ub (absm m1)"
    using remove_failed_refines [OF a(2)] by blast
  have "decode_ubatch vt be all ntok x prev tprev cx
      = Inr (Inl code, cx\<lparr>cx_memory := m', cx_data := d', cx_out := (cx_out cx)\<lparr>co_n_outputs := count_outputs all ntok ub\<rparr>\<rparr>)"
    using ready_ubatch [OF r] a(1) c m'(1) st by (simp add: decode_ubatch_def process_ubatch_def Let_def)
  then show ?thesis using m' a(3) by auto
qed

end

end
