(* ===== verification/Decode_KV.thy ===== *)
theory Decode_KV
  imports Decode_Props Batch_Init
begin

section \<open>Decoding with a KV cache\<close>

text \<open>
  The contract of \<open>Decode_Props\<close> holds of the KV cache without a sliding window: the slots that \<open>prepare\<close> found stay valid
  while the ubatches are placed one after the other. Together with the batch allocator this gives what
  \<open>decode\<close> does from the batch of the caller to the positions in the cache.
\<close>

subsection \<open>The slots of a memory context\<close>

fun slots_ready :: "nat \<Rightarrow> slot_info list \<Rightarrow> llama_ubatch list \<Rightarrow> kv_cache \<Rightarrow> bool" where
  "slots_ready n [] [] kc = True"
| "slots_ready n (si # sis) (ub # ubs) kc \<longleftrightarrow> ubatch_ok kc ub \<and> slot_ok n kc ub si
     \<and> (\<forall>kc'. apply_ubatch si ub kc = Inr kc' \<longrightarrow> slots_ready n sis ubs kc')"
| "slots_ready n _ _ kc = False"

definition kv_ready :: "nat \<Rightarrow> kv_cache_context \<Rightarrow> llama_ubatch list \<Rightarrow> kv_cache \<Rightarrow> bool" where
  "kv_ready n x ubs kc \<longleftrightarrow> ubs = drop (kx_i_cur x) (kx_ubatches x) \<and> slots_ready n (drop (kx_i_cur x) (kx_sinfos x)) ubs kc"

definition plain_inv :: "nat \<Rightarrow> kv_cache \<Rightarrow> bool" where
  "plain_inv n kc \<longleftrightarrow> kv_inv n kc \<and> kc_swa_type kc = LLAMA_SWA_TYPE_NONE"

lemma slots_ready_Cons: "slots_ready n sis (ub # ubs) kc \<Longrightarrow> \<exists>si sis'. sis = si # sis'"
  by (cases sis) simp_all

lemma kv_abs_place:
  assumes "plain_inv n kc" "ubatch_ok kc ub" "slot_ok n kc ub si" "apply_ubatch si ub kc = Inr kc'"
  shows "plain_inv n kc'" "kv_abs kc' = place_abs ub (kv_abs kc)" "same_frame kc kc'"
proof -
  have i: "kv_inv n kc" and s: "kc_swa_type kc = LLAMA_SWA_TYPE_NONE" using assms(1) by (simp_all add: plain_inv_def)
  note p = kv_slot_abs [OF i assms(2-4)]
  show "same_frame kc kc'" by (rule p(2))
  note f = same_frame_fields [OF p(2)]
  show "plain_inv n kc'" using p(1) f(4) s by (simp add: plain_inv_def)
  have "am_pos (kv_abs kc') = am_pos (place_abs ub (kv_abs kc))" using p(4) [OF s] by (auto simp: fun_eq_iff place_abs_def)
  then show "kv_abs kc' = place_abs ub (kv_abs kc)"
    using f same_frame_can_shift [OF p(2)] by (auto simp: kv_abs_def place_abs_def)
qed

lemma kv_memory_ctx [simp]:
  "ctx_get_ubatch (kv_memory f) = kv_context_ubatch" "ctx_apply (kv_memory f) = kv_context_apply f" "ctx_next (kv_memory f) = kv_context_next"
  "ctx_get_status (kv_memory f) = kx_status" "mem_init_batch (kv_memory f) = kv_mem_init_batch" "mem_init_update (kv_memory f) = kv_mem_init_update"
  by (simp_all add: kv_memory_def)

lemma kv_ready_apply:
  assumes "plain_inv n kc" "kv_ready n x (ub # ubs) kc"
  shows "\<exists>x' kc'. kv_context_apply f x (kc, d) = Inr (True, x', kc', d) \<and> plain_inv n kc' \<and> kv_abs kc' = place_abs ub (kv_abs kc)
    \<and> fst (kv_context_next x') = (ubs \<noteq> []) \<and> (ubs \<noteq> [] \<longrightarrow> kv_ready n (snd (kv_context_next x')) ubs kc')"
proof -
  let ?i = "kx_i_cur x"
  have u: "drop ?i (kx_ubatches x) = ub # ubs" using assms(2) by (simp add: kv_ready_def)
  then have ui: "?i < length (kx_ubatches x)" "kx_ubatches x ! ?i = ub" "drop (Suc ?i) (kx_ubatches x) = ubs"
    by (metis drop_eq_Nil2 list.distinct(1) not_le, metis nth_via_drop, metis drop_Suc list.sel(3) tl_drop)
  obtain si sis where s: "drop ?i (kx_sinfos x) = si # sis" "ubatch_ok kc ub" "slot_ok n kc ub si"
    "\<forall>kc'. apply_ubatch si ub kc = Inr kc' \<longrightarrow> slots_ready n sis ubs kc'"
    using assms(2) slots_ready_Cons by (auto simp: kv_ready_def, metis slots_ready.simps(2))
  have si: "kx_sinfos x ! ?i = si" "drop (Suc ?i) (kx_sinfos x) = sis" using s(1) by (metis nth_via_drop, metis drop_Suc list.sel(3) tl_drop)
  have i: "kv_wf n kc" "kc_other kc = None" using assms(1) by (simp_all add: plain_inv_def kv_inv_def)
  obtain kc' where kc': "apply_ubatch si ub kc = Inr kc'" using apply_ubatch_spec [OF i s(2,3)] by blast
  let ?x = "x\<lparr>kx_n_kv := get_n_kv kc' si\<rparr>"
  have "kv_context_apply f x (kc, d) = Inr (True, ?x, kc', d)" using ui si kc' by (auto simp: kv_context_apply_def)
  moreover have "fst (kv_context_next ?x) = (ubs \<noteq> [])" using ui(1,3) by (auto simp: kv_context_next_def Let_def)
  moreover have "kv_ready n (snd (kv_context_next ?x)) ubs kc'" using ui(3) si(2) s(4) kc' by (simp add: kv_ready_def kv_context_next_def)
  ultimately show ?thesis using kv_abs_place [OF assms(1) s(2,3) kc'] by blast
qed

interpretation kv_plain: llama_memory "kv_memory f" "plain_inv n" kv_abs
  for f :: "kv_cells list \<Rightarrow> 'b list \<Rightarrow> 'b list option" and n :: nat
proof
  fix kc op assume a: "plain_inv n kc" "abs_pre op (kv_abs kc)"
  then have i: "kv_inv n kc" by (simp add: plain_inv_def)
  obtain kc' where kc': "run_op (kv_memory f) op kc = Inr kc'" "kv_inv n kc'" "kv_abs kc' = abs_op op (kv_abs kc)" using kv_op_refines [OF i a(2)] by blast
  then show "\<exists>kc'. run_op (kv_memory f) op kc = Inr kc' \<and> plain_inv n kc' \<and> kv_abs kc' = abs_op op (kv_abs kc)"
    using same_frame_fields(4) [OF run_op_frame [OF i a(2) kc'(1)]] a(1) by (auto simp: plain_inv_def)
qed

interpretation kv_batch: batch_memory "kv_memory f" "plain_inv n" kv_abs "kv_ready n"
  for f :: "kv_cells list \<Rightarrow> 'b list \<Rightarrow> 'b list option" and n :: nat
proof
  show "ctx_get_ubatch (kv_memory f) x = ub" if "kv_ready n x (ub # ubs) kc" for x ub ubs kc
    using that by (metis kv_ready_def kv_context_ubatch_def kv_memory_ctx(1) nth_via_drop)
qed (simp add: kv_ready_apply)

lemma prepare_ready:
  assumes "plain_inv n kc" "\<forall>ub \<in> set ubs. ubatch_ok kc ub" "prepare_loop ubs kc = Inr (True, sis, states, kc')"
  shows "slots_ready n sis ubs kc"
  using assms
proof (induction ubs arbitrary: kc sis states kc')
  case (Cons ub ubs)
  have i: "kv_inv n kc" using Cons.prems(1) by (simp add: plain_inv_def)
  have ub: "ubatch_ok kc ub" using Cons.prems(2) by simp
  obtain si kc1 sis' states' where p: "find_slot kc ub False = Inr si" "\<not> slot_empty si" "apply_ubatch si ub kc = Inr kc1"
    "prepare_loop ubs kc1 = Inr (True, sis', states', kc')" "sis = si # sis'"
    using Cons.prems(3) by (auto simp: res_Inr_iffs Let_def split: if_splits)
  have sok: "slot_ok n kc ub si" by (rule found_slot_ok [OF i ub p(1,2)])
  note a = kv_abs_place [OF Cons.prems(1) ub sok p(3)]
  have "slots_ready n sis' ubs kc1" using Cons.IH [OF a(1) _ p(4)] Cons.prems(2) frame_ubatch(4) [OF a(3)] by simp
  then show ?case using p ub sok by simp
qed simp

subsection \<open>From the batch to the ubatches\<close>

lemma one_stream:
  assumes "kv_wf n kc" "kc_n_stream kc = 1"
  shows "seq_in_range kc s \<longleftrightarrow> s \<in> valid_seqs" "s \<in> valid_seqs \<Longrightarrow> strm kc s = 0" "stream_seqs kc 0 = valid_seqs"
  using assms by (auto simp: kv_wf_def seq_in_range_def strm_def stream_seqs_def valid_seqs_def)

definition batch_ok :: "batch_allocr \<Rightarrow> bool" where
  "batch_ok a \<longleftrightarrow> ba_n_seq_max a \<le> LLAMA_MAX_SEQ \<and> 1 \<le> ba_n_pos_per_embd a
     \<and> (\<forall>i < get_n_tokens a. 0 \<le> arr (b_pos (ba_batch a)) ! i \<and> distinct (tok_seqs (ba_batch a) i) \<and> tok_seqs (ba_batch a) i \<noteq> []
          \<and> (\<forall>s \<in> set (tok_seqs (ba_batch a) i). 0 \<le> s \<and> s < int (ba_n_seq_max a)))"

lemma in_set_not_Nil: "x \<in> set xs \<Longrightarrow> xs \<noteq> []"
  by auto

lemma batch_ubatch:
  fixes k :: nat and e :: bool and a :: batch_allocr and idxs :: "nat list"
  assumes wf: "kv_wf n kc" and one: "kc_n_stream kc = 1" and a: "batch_ok a" and idxs: "idxs \<noteq> []" "set idxs \<subseteq> {..<get_n_tokens a}"
  defines "u \<equiv> fst (ubatch_add idxs k e a)"
  shows "ubatch_ok kc u" "ub_n_tokens u = length idxs" "ub_output u = map ((!) (arr (b_logits (ba_batch a)))) idxs"
    "new_positions u q = (\<lambda>i. arr (b_pos (ba_batch a)) ! i) ` {i \<in> set idxs. q \<in> set (tok_seqs (ba_batch a) i)}"
proof -
  let ?b = "ba_batch a"
  have f: "ub_n_tokens u = length idxs" "ub_output u = map ((!) (arr (b_logits ?b))) idxs" "ub_seq_id u = map (tok_seqs ?b) idxs"
    "ub_n_seq_id u = map length (ub_seq_id u)" "\<And>j i. j < ba_n_pos_per_embd a \<Longrightarrow> i < length idxs \<Longrightarrow> ub_pos u ! (j * length idxs + i) = pos_src ?b j (idxs ! i)"
    "ub_seq_id_unq u = map int (filter (\<lambda>s. \<exists>i \<in> set idxs. int s \<in> set (tok_seqs ?b i)) [0..<ba_n_seq_max a])"
    using ubatch_add_facts [of a idxs k e u] a by (simp_all add: batch_ok_def u_def)
  show "ub_n_tokens u = length idxs" "ub_output u = map ((!) (arr (b_logits ?b))) idxs" by fact+
  have pos: "ub_pos u ! i = arr (b_pos ?b) ! (idxs ! i)" if "i < length idxs" for i
    using f(5) [of 0 i] that a by (auto simp: batch_ok_def pos_src_def)
  have seqs: "ub_tok_seqs u i = tok_seqs ?b (idxs ! i)" if "i < length idxs" for i
    using that by (simp add: ub_tok_seqs_def f(3,4) map_nth)
  have tok: "0 \<le> arr (b_pos ?b) ! i" "distinct (tok_seqs ?b i)" "tok_seqs ?b i \<noteq> []" "set (tok_seqs ?b i) \<subseteq> valid_seqs" if "i \<in> set idxs" for i
  proof -
    have "i < get_n_tokens a" using that idxs(2) by blast
    then have "\<forall>s \<in> set (tok_seqs ?b i). 0 \<le> s \<and> s < int (ba_n_seq_max a)" "0 \<le> arr (b_pos ?b) ! i \<and> distinct (tok_seqs ?b i) \<and> tok_seqs ?b i \<noteq> []"
      using a unfolding batch_ok_def by blast+
    moreover have "int (ba_n_seq_max a) \<le> int LLAMA_MAX_SEQ" using a by (simp add: batch_ok_def)
    ultimately show "0 \<le> arr (b_pos ?b) ! i" "distinct (tok_seqs ?b i)" "tok_seqs ?b i \<noteq> []" "set (tok_seqs ?b i) \<subseteq> valid_seqs"
      unfolding valid_seqs_def by fastforce+
  qed
  have ne: "ub_seq_id_unq u \<noteq> []"
  proof -
    obtain i s where i: "i \<in> set idxs" "s \<in> set (tok_seqs ?b i)" using idxs(1) tok(3) by (metis list.set_intros(1) neq_Nil_conv)
    have "0 \<le> s \<and> s < int (ba_n_seq_max a)" using i idxs(2) a unfolding batch_ok_def by blast
    then have "0 \<le> s" "nat s < ba_n_seq_max a" by auto
    then have "nat s \<in> set [0..<ba_n_seq_max a]" "\<exists>i \<in> set idxs. int (nat s) \<in> set (tok_seqs ?b i)" using i by auto
    then have "nat s \<in> set (filter (\<lambda>s. \<exists>i \<in> set idxs. int s \<in> set (tok_seqs ?b i)) [0..<ba_n_seq_max a])" unfolding set_filter by blast
    then show ?thesis unfolding f(6) map_is_Nil_conv by (rule in_set_not_Nil)
  qed
  then have "ub_seq_id_unq u ! 0 \<in> set (ub_seq_id_unq u)" by simp
  then have "ub_seq_id_unq u ! 0 \<in> valid_seqs" using a unfolding f(6) by (auto simp: valid_seqs_def batch_ok_def)
  note s0 = one_stream(1) [OF wf one, THEN iffD2, OF this] one_stream(2) [OF wf one this]
  have g: "slot_seqs kc u = 1" "slot_tokens kc u = length idxs" "group_strm kc u 0 = 0"
    using one s0(2) f(1) by (simp_all add: slot_seqs_def slot_tokens_def group_strm_def)
  have nth: "idxs ! ii \<in> set idxs" if "ii < length idxs" for ii using that by simp
  show "ubatch_ok kc u" unfolding ubatch_ok_def g Let_def using one s0(1) f(1) idxs(1) g(3)
    by (auto simp: pos seqs tok(1,2) [OF nth] one_stream(3) [OF wf one] dest: subsetD [OF tok(4) [OF nth]])
  have "new_positions u q = {arr (b_pos ?b) ! (idxs ! i) |i. i < length idxs \<and> q \<in> set (tok_seqs ?b (idxs ! i))}"
    unfolding new_positions_def f(1) using pos seqs by (intro Collect_cong) (metis (no_types))
  also have "\<dots> = (\<lambda>i. arr (b_pos ?b) ! i) ` {i \<in> set idxs. q \<in> set (tok_seqs ?b i)}" by (auto simp: in_set_conv_nth image_iff)
  finally show "new_positions u q = (\<lambda>i. arr (b_pos ?b) ! i) ` {i \<in> set idxs. q \<in> set (tok_seqs ?b i)}" .
qed

lemma fold_place_abs:
  "fold place_abs ubs a = a\<lparr>am_pos := (\<lambda>q. if q \<in> am_seqs a then am_pos a q \<union> (\<Union>ub \<in> set ubs. new_positions ub q) else am_pos a q)\<rparr>"
proof (induction ubs arbitrary: a)
  case (Cons ub ubs)
  have "am_pos (place_abs ub a) q = (if q \<in> am_seqs a then am_pos a q \<union> new_positions ub q else am_pos a q)" for q by (simp add: place_abs_def)
  moreover have "(place_abs ub a)\<lparr>am_pos := g\<rparr> = a\<lparr>am_pos := g\<rparr>" for g by (simp add: place_abs_def)
  ultimately show ?case unfolding fold_simps(2) comp_apply Cons by (simp add: Un_assoc cong: if_cong)
next
  case Nil
  have *: "(\<lambda>q. if q \<in> am_seqs a then am_pos a q \<union> (\<Union>ub \<in> set []. new_positions ub q) else am_pos a q) = am_pos a" for a by (rule ext) simp
  show ?case unfolding * by simp
qed


lemma prepare_slots:
  assumes i: "plain_inv n kc" and one: "kc_n_stream kc = 1" and ubs: "\<forall>ub \<in> set ubs. ubatch_ok kc ub" "ubs \<noteq> []"
    and fits: "(\<Sum>ub\<leftarrow>ubs. ub_n_tokens ub) \<le> n_free kc"
  shows "\<exists>sis. prepare ubs kc = Inr (sis, kc) \<and> sis \<noteq> [] \<and> slots_ready n sis ubs kc"
proof -
  have p: "kv_wf n kc" "kc_other kc = None" "kc_swa_type kc = LLAMA_SWA_TYPE_NONE" using i by (simp_all add: plain_inv_def kv_inv_def)
  obtain sis where s: "prepare ubs kc = Inr (sis, kc)" "sis \<noteq> []" using prepare_spec [OF p one ubs] fits by blast
  obtain sis' states kc' where "prepare_loop ubs kc = Inr (True, sis', states, kc')" "sis = sis'"
    using s by (auto simp: prepare_def res_Inr_iffs Let_def split: if_splits)
  then show ?thesis using s prepare_ready [OF i ubs(1)] by blast
qed

definition run_ubatch :: "batch_allocr \<Rightarrow> nat list \<Rightarrow> llama_ubatch" where
  "run_ubatch a idxs = fst (ubatch_add idxs (length idxs) False a)"

lemma kv_init_batch_ready:
  assumes i: "plain_inv n kc" and one: "kc_n_stream kc = 1" and a: "batch_ok a" "allocr_wf (split_reset a)"
    and fits: "0 < get_n_tokens a" "get_n_tokens a \<le> n_free kc"
  shows "\<exists>runs x a'. kv_mem_init_batch n_ubatch embd_all a kc = Inr (x, a', kc) \<and> kx_status x = LLAMA_MEMORY_STATUS_SUCCESS
    \<and> kv_ready n x (map (run_ubatch a) runs) kc \<and> concat runs = [0..<get_n_tokens a] \<and> runs \<noteq> [] \<and> (\<forall>r \<in> set runs. r \<noteq> [] \<and> set r \<subseteq> {..<get_n_tokens a})
    \<and> get_out_ids a' = filter (\<lambda>i. arr (b_logits (ba_batch a)) ! i \<noteq> 0) [0..<get_n_tokens a]"
proof -
  obtain runs a' where r: "split_all (\<lambda>a. Inr (split_simple n_ubatch a)) (split_reset a) = Some (Inr (map (run_ubatch a) runs, a'))"
    and c: "concat runs = [0..<get_n_tokens a]" "\<forall>r \<in> set runs. r \<noteq> []"
    and a': "get_n_used a' = get_n_tokens a" "get_out_ids a' = filter (\<lambda>i. arr (b_logits (ba_batch a)) ! i \<noteq> 0) [0..<get_n_tokens a]" "ba_batch a' = ba_batch a"
    using split_simple_runs [OF a(2), of n_ubatch] by (auto simp: run_ubatch_def [abs_def])
  have sub: "set r \<subseteq> {..<get_n_tokens a}" if "r \<in> set runs" for r
  proof -
    have "set r \<subseteq> set (concat runs)" using that by auto
    then show ?thesis unfolding c(1) by auto
  qed
  have ne: "runs \<noteq> []" using c(1) fits(1) by (metis concat.simps(1) length_0_conv length_upt minus_nat.diff_0 not_gr_zero)
  have wf: "kv_wf n kc" using i by (simp add: plain_inv_def kv_inv_def)
  have ub: "ubatch_ok kc (run_ubatch a r)" "ub_n_tokens (run_ubatch a r) = length r" if "r \<in> set runs" for r
    using batch_ubatch(1,2) [OF wf one a(1) _ sub [OF that], of "length r" False] c(2) that by (auto simp: run_ubatch_def)
  have "(\<Sum>ub\<leftarrow>map (run_ubatch a) runs. ub_n_tokens ub) = (\<Sum>r\<leftarrow>runs. length r)" using ub(2) by (simp add: comp_def cong: map_cong)
  also have "\<dots> = get_n_tokens a" using arg_cong [OF c(1), of length] by (simp add: length_concat)
  finally have "(\<Sum>ub\<leftarrow>map (run_ubatch a) runs. ub_n_tokens ub) \<le> n_free kc" using fits(2) by simp
  then obtain sis where sis: "prepare (map (run_ubatch a) runs) kc = Inr (sis, kc)" "sis \<noteq> []" "slots_ready n sis (map (run_ubatch a) runs) kc"
    using prepare_slots [OF i one, of "map (run_ubatch a) runs"] ub(1) ne by auto
  have n': "get_n_tokens a' = get_n_tokens a" using a'(3) by (simp add: get_n_tokens_def)
  let ?x = "kv_context_batch sis (map (run_ubatch a) runs)"
  have "kv_mem_init_batch n_ubatch embd_all a kc = Inr (?x, a', kc)"
    using r sis(1,2) one a'(1) n' by (simp add: kv_mem_init_batch_def kv_init_batch_def)
  moreover have "kx_status ?x = LLAMA_MEMORY_STATUS_SUCCESS" "kv_ready n ?x (map (run_ubatch a) runs) kc"
    using sis(3) by (simp_all add: kv_context_batch_def kv_context_status_def kv_ready_def)
  ultimately show ?thesis using c ne sub a'(2) by blast
qed

subsection \<open>The update before a batch\<close>

lemma kv_update_returns:
  assumes "do_shift \<longrightarrow> get_can_shift kc"
  shows "\<exists>r. kv_update f do_shift sc kc bufs = Inr r"
  using assms by (auto simp: kv_update_def Let_def split: option.splits)

lemma n_free_reset_shifts:
  assumes "kv_wf n kc"
  shows "n_free (reset_shifts kc) = n_free kc"
proof -
  have t: "0 < kc_n_stream kc" "kc_n_stream (reset_shifts kc) = kc_n_stream kc" using assms by (simp_all add: kv_wf_def reset_shifts_def)
  note r = reset_shifts_spec [OF assms]
  have st: "stream (reset_shifts kc) 0 = map (\<lambda>k. k\<lparr>k_shift := shift_zero\<rparr>) (stream kc 0)" using r t(1) by blast
  have l: "length (stream kc 0) = n" using stream_cells [OF assms t(1)] by blast
  have "{i. i < n \<and> k_pos (stream (reset_shifts kc) 0 ! i) = -1} = {i. i < n \<and> k_pos (stream kc 0 ! i) = -1}" unfolding st using l by auto
  then show ?thesis unfolding n_free_def using empty_cells_stream [OF assms t(1)] empty_cells_stream [of n "reset_shifts kc" 0] r t by simp
qed

lemma kv_memory_update:
  assumes i: "plain_inv n (cx_memory cx)" and sh: "kv_get_has_shift (cx_memory cx) \<longrightarrow> get_can_shift (cx_memory cx)"
  shows "\<exists>b kc' d'. memory_update (kv_memory f) cx = Inr (b, cx\<lparr>cx_memory := kc', cx_data := d'\<rparr>) \<and> plain_inv n kc'
    \<and> kv_abs kc' = kv_abs (cx_memory cx) \<and> kc_n_stream kc' = kc_n_stream (cx_memory cx) \<and> n_free kc' = n_free (cx_memory cx)"
proof -
  let ?kc = "cx_memory cx"
  let ?kc1 = "?kc\<lparr>kc_sc_info := sc_empty\<rparr>" and ?x = "kv_context_update (kv_get_has_shift ?kc) (kc_sc_info ?kc)"
  have u: "kv_mem_init_update ?kc = (?x, ?kc1)" by (simp add: kv_mem_init_update_def init_update_def)
  have iv: "kv_inv n ?kc" "kc_swa_type ?kc = LLAMA_SWA_TYPE_NONE" using i by (simp_all add: plain_inv_def)
  have i1: "plain_inv n ?kc1" "kv_abs ?kc1 = kv_abs ?kc" "n_free ?kc1 = n_free ?kc" using i by (simp_all add: plain_inv_def n_free_def)
  have ub: "kx_ubatches ?x = []" by (simp add: kv_context_update_def kv_context_status_def)
  have sh1: "kx_do_shift ?x \<longrightarrow> get_can_shift ?kc1" using sh by (simp add: kv_context_update_def get_can_shift_def)
  show ?thesis
  proof (cases "kx_status ?x = LLAMA_MEMORY_STATUS_NO_UPDATE")
    case True
    then have "memory_update (kv_memory f) cx = Inr (False, cx\<lparr>cx_memory := ?kc1, cx_data := cx_data cx\<rparr>)" using u by (simp add: memory_update_def)
    then show ?thesis using i1 by (intro exI [of _ False] exI [of _ ?kc1] exI [of _ "cx_data cx"]) simp
  next
    case False
    then have ok: "kx_status ?x = LLAMA_MEMORY_STATUS_SUCCESS" by (simp add: kv_context_update_def kv_context_status_def split: if_splits)
    obtain b kc' d' where up: "kv_update f (kx_do_shift ?x) (kx_sc_info ?x) ?kc1 (cx_data cx) = Inr (b, kc', d')"
      using kv_update_returns [OF sh1] by (metis prod_cases3)
    have ap: "kv_context_apply f ?x (?kc1, cx_data cx) = Inr (True, ?x, kc', d')" using ub up by (simp add: kv_context_apply_def)
    have k: "kc' = ?kc1 \<or> kc' = reset_shifts ?kc1" using up by (rule kv_update_result)
    have wf: "kv_wf n ?kc1" using i1(1) by (simp add: plain_inv_def kv_inv_def)
    have "n_free kc' = n_free ?kc" "kc_n_stream kc' = kc_n_stream ?kc" using k n_free_reset_shifts [OF wf] i1(3) by (auto simp: reset_shifts_def)
    moreover have "plain_inv n kc'" "kv_abs kc' = kv_abs ?kc" using kv_update_abs [OF iv(1) u ap] iv(2) by (simp_all add: plain_inv_def)
    moreover have "memory_update (kv_memory f) cx = Inr (True, cx\<lparr>cx_memory := kc', cx_data := d'\<rparr>)" using u ok ap by (simp add: memory_update_def)
    ultimately show ?thesis by blast
  qed
qed

subsection \<open>Counting outputs\<close>

lemma fold_count_outputs: "fold (\<lambda>i n. n + (if P i then 1 else 0)) xs c = c + length (filter P xs)"
  by (induction xs arbitrary: c) simp_all

lemma length_filter_nth: "length (filter (\<lambda>i. P (xs ! i)) [0..<length xs]) = length (filter P xs)"
proof -
  have "filter P xs = filter P (map ((!) xs) [0..<length xs])" by (simp add: map_nth)
  then show ?thesis by (simp add: filter_map comp_def)
qed

lemma count_outputs_run:
  assumes "ub_n_tokens ub = length r" "ub_output ub = map ((!) lg) r"
  shows "count_outputs all ntok ub = (if all = ntok then length r else length (filter (\<lambda>i. lg ! i \<noteq> 0) r))"
proof -
  have "filter (\<lambda>i. ub_output ub ! i \<noteq> 0) [0..<length r] = filter (\<lambda>i. lg ! (r ! i) \<noteq> 0) [0..<length r]"
    by (rule filter_cong) (simp_all add: assms(2))
  then show ?thesis using length_filter_nth [of "\<lambda>i. lg ! i \<noteq> 0" r] assms(1) by (simp add: count_outputs_def fold_count_outputs)
qed

lemma count_outputs_sum:
  assumes "\<And>r. r \<in> set runs \<Longrightarrow> ub_n_tokens (u r) = length r \<and> ub_output (u r) = map ((!) lg) r" "concat runs = [0..<n]"
    and "all = length (filter (\<lambda>i. lg ! i \<noteq> 0) [0..<n])"
  shows "(\<Sum>ub\<leftarrow>map u runs. count_outputs all n ub) = all"
proof -
  have "map (count_outputs all n) (map u runs) = map (\<lambda>r. if all = n then length r else length (filter (\<lambda>i. lg ! i \<noteq> 0) r)) runs"
    unfolding map_map map_eq_conv comp_apply using assms(1) count_outputs_run by blast
  then have "(\<Sum>ub\<leftarrow>map u runs. count_outputs all n ub) = (\<Sum>r\<leftarrow>runs. if all = n then length r else length (filter (\<lambda>i. lg ! i \<noteq> 0) r))"
    by (rule arg_cong)
  moreover have "(\<Sum>r\<leftarrow>runs. length r) = n" using arg_cong [OF assms(2), of length] by (simp add: length_concat)
  moreover have "(\<Sum>r\<leftarrow>runs. length (filter (\<lambda>i. lg ! i \<noteq> 0) r)) = all"
    using arg_cong [OF assms(2), of "\<lambda>xs. length (filter (\<lambda>i. lg ! i \<noteq> 0) xs)"] assms(3) by (simp add: filter_concat length_concat comp_def)
  ultimately show ?thesis by (cases "all = n") simp_all
qed

subsection \<open>Reserving room for the outputs\<close>

definition out_ids_len :: "llama_cparams \<Rightarrow> 'f ctx_outputs \<Rightarrow> nat" where
  "out_ids_len cp o1 = (if co_output_ids o1 = [] then cp_n_batch cp else length (co_output_ids o1))"

lemma output_reserve_ok:
  assumes al: "\<And>n. be_alloc be n" and m: "max n (cp_n_seq_max (cx_cparams cx)) \<le> cp_n_outputs_max (cx_cparams cx)"
  shows "\<exists>b o1. output_reserve be n cx = Inr (max n (cp_n_seq_max (cx_cparams cx)), cx\<lparr>cx_buf_output := b, cx_out := o1\<rparr>)
    \<and> out_room n (cx_cparams cx) o1 \<and> co_output_ids o1 = replicate (out_ids_len (cx_cparams cx) (cx_out cx)) (-1)
    \<and> co_output_swaps o1 = co_output_swaps (cx_out cx) \<and> co_n_vocab o1 = co_n_vocab (cx_out cx) \<and> co_n_embd_out o1 = co_n_embd_out (cx_out cx)"
proof -
  have room: "n * w \<le> w * max n k" for w k :: nat by (simp add: mult.commute mult_le_mono)
  obtain b o1 where r: "output_reserve be n cx = Inr (max n (cp_n_seq_max (cx_cparams cx)), cx\<lparr>cx_buf_output := b, cx_out := o1\<rparr>)"
    and o1: "o1 = cx_out cx\<lparr>co_logits := co_logits o1, co_embd := co_embd o1, co_embd_nextn := co_embd_nextn o1, co_embd_layer_inp := co_embd_layer_inp o1,
        co_sampling := None, co_output_ids := replicate (out_ids_len (cx_cparams cx) (cx_out cx)) (-1), co_n_outputs := 0\<rparr>"
      "length (co_logits o1) = co_n_vocab (cx_out cx) * max n (cp_n_seq_max (cx_cparams cx))"
      "cp_embeddings (cx_cparams cx) \<longrightarrow> length (co_embd o1) = co_n_embd_out (cx_out cx) * max n (cp_n_seq_max (cx_cparams cx))"
    unfolding output_reserve_def Let_def using al m
    by (simp add: out_view_def out_ids_len_def map_replicate_const)
  have "co_n_vocab o1 = co_n_vocab (cx_out cx)" "co_n_embd_out o1 = co_n_embd_out (cx_out cx)" "co_output_swaps o1 = co_output_swaps (cx_out cx)"
    "co_output_ids o1 = replicate (out_ids_len (cx_cparams cx) (cx_out cx)) (-1)"
    by (subst o1(1), simp)+
  moreover from this have "out_room n (cx_cparams cx) o1" using o1(2,3) room by (simp add: out_room_def)
  ultimately show ?thesis using r by blast
qed

lemma sorted_outputs_rows:
  assumes a: "distinct out" "\<forall>x \<in> set out. x < length (co_output_ids c)" "length out = co_n_outputs c" "co_output_swaps c = []"
    "\<forall>x < length (co_output_ids c). co_output_ids c ! x = -1" and s: "sorted out"
  shows "\<exists>c'. set_output_mappings out c = Inr c' \<and> (\<forall>r < length out. output_resolve_row (output_reorder c') (int (out ! r)) = Inr (int r))"
proof -
  obtain sw out' where m: "set_output_mappings out c = Inr (c\<lparr>co_output_ids := fold (\<lambda>i ids. ids[out' ! i := int i]) [0..<length out'] (replicate (length (co_output_ids c)) (-1)),
      co_output_swaps := sw\<rparr>)" "out' = apply_swaps sw out" "swaps_ok (length out) sw" "sorted out'"
    using set_output_mappings_spec [OF a] by blast
  let ?c = "c\<lparr>co_output_ids := fold (\<lambda>i ids. ids[out' ! i := int i]) [0..<length out'] (replicate (length (co_output_ids c)) (-1)), co_output_swaps := sw\<rparr>"
  have sw: "\<forall>(a, b) \<in> set sw. a < length out \<and> b < length out" using m(3) by (auto simp: swaps_ok_def)
  have "set out' = set out" "distinct out'" using set_apply_swaps [OF sw] distinct_apply_swaps [OF sw a(1)] m(2) by simp_all
  then have o: "out' = out" using sorted_distinct_set_unique m(4) s a(1) by blast
  have lt: "\<forall>x \<in> set out. x < length (replicate (length (co_output_ids c)) (-1 :: int))" using a(2) by simp
  note ids = set_ids_nth [OF a(1) lt]
  note f = output_reorder_fields(3,4) [of ?c]
  have "output_resolve_row (output_reorder ?c) (int (out ! r)) = Inr (int r)" if "r < length out" for r
  proof -
    have "out ! r < length (co_output_ids (output_reorder ?c))" using that a(2) ids(3) by (simp add: output_reorder_fields(4) o)
    moreover have "co_output_ids (output_reorder ?c) ! (out ! r) = int r" using ids(1) that by (simp add: output_reorder_fields(4) o)
    ultimately show ?thesis using that a(3) f(1) by (simp add: output_resolve_row_def)
  qed
  then show ?thesis using m(1) by blast
qed

subsection \<open>The whole of \<open>decode\<close>\<close>

definition backend_ok :: "('m, 'd, 'c, 'f) backend \<Rightarrow> nat \<Rightarrow> nat \<Rightarrow> bool" where
  "backend_ok be w e \<longleftrightarrow> (\<forall>n. be_alloc be n)
     \<and> (\<forall>x ub k m d. \<exists>res d'. be_compute be x ub k m d = (Inr res, d') \<and> good_result k w e res)"

definition kv_context_ok :: "nat \<Rightarrow> (kv_cache, 'b list, 'f) llama_context \<Rightarrow> bool" where
  "kv_context_ok n cx \<longleftrightarrow> plain_inv n (cx_memory cx) \<and> kc_n_stream (cx_memory cx) = 1
     \<and> (kv_get_has_shift (cx_memory cx) \<longrightarrow> get_can_shift (cx_memory cx)) \<and> plain_params (cx_cparams cx)
     \<and> 0 < cp_n_seq_max (cx_cparams cx) \<and> 1 \<le> ba_n_pos_per_embd (cx_balloc cx) \<and> length (ba_seq_pos (cx_balloc cx)) = LLAMA_MAX_SEQ
     \<and> (co_output_ids (cx_out cx) = [] \<or> cp_n_batch (cx_cparams cx) \<le> length (co_output_ids (cx_out cx)))"

definition fits :: "batch_allocr \<Rightarrow> (kv_cache, 'b list, 'f) llama_context \<Rightarrow> bool" where
  "fits a cx \<longleftrightarrow> get_n_tokens a \<le> n_free (cx_memory cx) \<and> get_n_tokens a \<le> cp_n_batch (cx_cparams cx)
     \<and> (cp_causal_attn (cx_cparams cx) \<or> get_n_tokens a \<le> cp_n_ubatch (cx_cparams cx))
     \<and> max (get_n_outputs a) (cp_n_seq_max (cx_cparams cx)) \<le> cp_n_outputs_max (cx_cparams cx)
     \<and> (cp_embeddings (cx_cparams cx) \<longrightarrow> get_n_outputs a = get_n_tokens a)"

definition output_tokens :: "batch_allocr \<Rightarrow> nat list" where
  "output_tokens a = filter (\<lambda>i. arr (b_logits (ba_batch a)) ! i \<noteq> 0) [0..<get_n_tokens a]"

lemma output_tokens_sorted: "sorted (output_tokens a)" "distinct (output_tokens a)"
  by (simp_all add: output_tokens_def sorted_wrt_filter)

lemma get_n_tokens_n_tok: "get_n_tokens a = n_tok (ba_batch a)"
  by (simp add: get_n_tokens_def n_tok_def)

lemma plain_inv_wf: "plain_inv n kc \<Longrightarrow> kv_wf n kc"
  by (simp add: plain_inv_def kv_inv_def)

lemma accepted_batch:
  assumes init: "allocr_init n_vocab memory n_embd n_seq_max output_all b a = Inr (True, a')" and inp: "batch_inp_ok b" and m: "0 < n_seq_max"
    and a: "1 \<le> ba_n_pos_per_embd a" "length (ba_seq_pos a) = LLAMA_MAX_SEQ"
    and tok: "\<forall>i < get_n_tokens a'. 0 \<le> arr (b_pos (ba_batch a')) ! i \<and> distinct (tok_seqs (ba_batch a') i)"
  shows "batch_ok a'" "allocr_wf (split_reset a')" "get_n_outputs a' = length (output_tokens a')" "0 < get_n_tokens a'"
proof -
  define b1 where "b1 = init_autogen memory output_all b"
  define a1 where "a1 = init_stats n_embd n_seq_max ((allocr_clear a)\<lparr>ba_batch := b1\<rparr>)"
  note f = init_stats_facts [OF a(2), of n_embd n_seq_max b1, folded a1_def]
  have v: "0 < b_n_tokens b" "init_validate n_vocab n_seq_max b" "a' = split_reset a1" using init by (simp_all add: init_True_iff Let_def a1_def b1_def)
  have n: "n_tok b1 = n_tok b" "get_n_tokens a' = n_tok b1" "ba_batch a' = b1"
    unfolding v(3) by (simp_all add: b1_def init_autogen_def get_n_tokens_def f split_reset_def)
  have ne: "\<And>i. i < n_tok b1 \<Longrightarrow> tok_seqs b1 i \<noteq> []" using autogen_seqs(2) [OF inp] n(1) by (simp add: b1_def)
  have rng: "\<forall>s \<in> set (tok_seqs b1 i). 0 \<le> s \<and> s < int n_seq_max" if "i < n_tok b1" for i
    using init_seqs_in_range [OF v(2) inp m] that n(1) by (simp add: b1_def)
  have nm: "n_seq_max \<le> LLAMA_MAX_SEQ" using v(2) by (simp add: init_validate_def)
  have g: "ba_n_seq_max a' = n_seq_max" "ba_n_pos_per_embd a' = ba_n_pos_per_embd a" "ba_n_outputs a' = ba_n_outputs a1" unfolding v(3) by (simp_all add: split_reset_def f)
  show "batch_ok a'" unfolding batch_ok_def n(2,3) g(1,2) using nm a(1) tok ne rng n(2,3) by auto
  have "split_reset a' = a'" unfolding v(3) by (simp add: split_reset_def get_n_tokens_def)
  moreover have "allocr_wf a'" unfolding v(3) a1_def by (rule init_allocr_wf [OF a(2) ne])
  ultimately show "allocr_wf (split_reset a')" by simp
  show "get_n_outputs a' = length (output_tokens a')" by (simp add: get_n_outputs_def g(3) f output_tokens_def n)
  show "0 < get_n_tokens a'" using v(1) n by (simp add: n_tok_def)
qed

lemma decode_batch_ok:
  assumes i: "plain_inv n (cx_memory cx)" and r: "kv_ready n x ubs (cx_memory cx)" "ubs \<noteq> []" and p: "plain_params (cx_cparams cx)"
    and be: "backend_ok be (co_n_vocab (cx_out cx)) (co_n_embd_out (cx_out cx))"
    and n: "max all (cp_n_seq_max (cx_cparams cx)) \<le> cp_n_outputs_max (cx_cparams cx)" "(\<Sum>ub\<leftarrow>ubs. count_outputs all ntok ub) = all"
    and out: "get_out_ids (cx_balloc cx) = out" "length out = all" "sorted out" "distinct out"
      "\<forall>t \<in> set out. t < out_ids_len (cx_cparams cx) (cx_out cx)" "co_output_swaps (cx_out cx) = []"
  shows "\<exists>cx'. decode_batch (kv_memory f) be all ntok x cx = Inr (0, cx') \<and> plain_inv n (cx_memory cx')
    \<and> kv_abs (cx_memory cx') = fold place_abs ubs (kv_abs (cx_memory cx))
    \<and> (\<forall>r < all. output_resolve_row (output_reorder (cx_out cx')) (int (out ! r)) = Inr (int r))"
proof -
  let ?m = "max all (cp_n_seq_max (cx_cparams cx))"
  obtain b o1 where rs: "output_reserve be all cx = Inr (?m, cx\<lparr>cx_buf_output := b, cx_out := o1\<rparr>)"
    and o1: "out_room all (cx_cparams cx) o1" "co_output_ids o1 = replicate (out_ids_len (cx_cparams cx) (cx_out cx)) (-1)"
      "co_output_swaps o1 = []" "co_n_vocab o1 = co_n_vocab (cx_out cx)" "co_n_embd_out o1 = co_n_embd_out (cx_out cx)"
    using output_reserve_ok [OF _ n(1), of be] be out(6) by (auto simp: backend_ok_def)
  let ?cx = "cx\<lparr>cx_buf_output := b, cx_out := o1\<rparr>"
  have "\<exists>m' d' o2. decode_loop (kv_memory f) be all ntok x 0 0 ?cx = Some (Inr (None, ?cx\<lparr>cx_memory := m', cx_data := d', cx_out := o2\<rparr>))
    \<and> plain_inv n m' \<and> kv_abs m' = fold place_abs ubs (kv_abs (cx_memory ?cx)) \<and> same_room (cx_out ?cx) o2"
    by (rule kv_batch.decode_loop_ok) (use i r p n(2) be o1 in \<open>simp_all add: backend_ok_def\<close>)
  then obtain m' d' o2 where lp: "decode_loop (kv_memory f) be all ntok x 0 0 ?cx = Some (Inr (None, cx\<lparr>cx_buf_output := b, cx_memory := m', cx_data := d', cx_out := o2\<rparr>))"
    "plain_inv n m'" "kv_abs m' = fold place_abs ubs (kv_abs (cx_memory cx))" "same_room o1 o2" by auto
  note g = same_room_fields(3,4) [OF lp(4)]
  have "\<exists>c'. set_output_mappings out (o2\<lparr>co_n_outputs := all\<rparr>) = Inr c' \<and> (\<forall>r < length out. output_resolve_row (output_reorder c') (int (out ! r)) = Inr (int r))"
    by (rule sorted_outputs_rows) (use out g o1 in simp_all)
  then obtain c' where c': "set_output_mappings out (o2\<lparr>co_n_outputs := all\<rparr>) = Inr c'"
    "\<forall>r < all. output_resolve_row (output_reorder c') (int (out ! r)) = Inr (int r)" using out(2) by blast
  let ?cx' = "cx\<lparr>cx_buf_output := b, cx_memory := m', cx_data := d', cx_out := c'\<rparr>"
  have "decode_batch (kv_memory f) be all ntok x cx = Inr (0, ?cx')" using rs lp(1) c'(1) out(1) by (simp add: decode_batch_def)
  then show ?thesis using lp(2,3) c'(2) by (intro exI [of _ ?cx']) simp
qed

lemma union_runs:
  assumes "concat runs = [0..<n_tok b]" "\<And>r. r \<in> set runs \<Longrightarrow> new_positions (u r) q = (\<lambda>i. arr (b_pos b) ! i) ` {i \<in> set r. q \<in> set (tok_seqs b i)}"
  shows "(\<Union>ub \<in> set (map u runs). new_positions ub q) = batch_positions b q"
proof -
  have "\<Union> (set ` set runs) = {..<n_tok b}" using arg_cong [OF assms(1), of set] by auto
  then have "{i. i < n_tok b \<and> q \<in> set (tok_seqs b i)} = (\<Union>r \<in> set runs. {i \<in> set r. q \<in> set (tok_seqs b i)})" by blast
  then have "batch_positions b q = (\<Union>r \<in> set runs. (\<lambda>i. arr (b_pos b) ! i) ` {i \<in> set r. q \<in> set (tok_seqs b i)})" by (simp add: batch_positions_def image_UN)
  then show ?thesis using assms(2) by simp
qed

lemma batch_placed_positions:
  assumes "plain_inv n kc" "kc_n_stream kc = 1" "plain_inv n kc'" "kv_abs kc' = fold place_abs ubs (kv_abs kc)" "s \<in> valid_seqs"
  shows "kv_positions kc' s = kv_positions kc s \<union> (\<Union>ub \<in> set ubs. new_positions ub s)"
proof -
  let ?a = "kv_abs kc"
  have abs: "kv_abs kc' = ?a\<lparr>am_pos := (\<lambda>q. if q \<in> am_seqs ?a then am_pos ?a q \<union> (\<Union>u \<in> set ubs. new_positions u q) else am_pos ?a q)\<rparr>"
    unfolding assms(4) by (rule fold_place_abs)
  have one': "kc_n_stream kc' = 1" using arg_cong [OF abs, of am_unified] assms(2) by simp
  have "seq_in_range kc s" "seq_in_range kc' s"
    using one_stream(1) [OF plain_inv_wf [OF assms(1)] assms(2)] one_stream(1) [OF plain_inv_wf [OF assms(3)] one'] assms(5) by simp_all
  then show ?thesis using arg_cong [OF abs, of "\<lambda>a. am_pos a s"] by simp
qed

text \<open>C1. Decoding a batch with a unified KV cache returns: when the batch allocator accepts the batch, there are as
  many free cells as tokens, the limits of the context allow its size and the backend computes every ubatch,
  \<open>decode\<close> returns 0, the positions of every sequence are the old ones and those of the batch, nothing else is
  lost from the cache, and the \<open>r\<close>-th token that asked for an output finds it in row \<open>r\<close>.\<close>

theorem decode_stores_batch:
  assumes cx: "kv_context_ok n cx" and be: "backend_ok be (co_n_vocab (cx_out cx)) (co_n_embd_out (cx_out cx))"
    and inp: "batch_inp_ok b" "b_token b \<noteq> None \<or> b_embd b \<noteq> None" and init: "decode_init (kv_memory f) b cx = Inr (True, a)"
    and tok: "\<forall>i < get_n_tokens a. 0 \<le> arr (b_pos (ba_batch a)) ! i \<and> distinct (tok_seqs (ba_batch a) i)" and room: "fits a cx"
  shows "\<exists>cx'. decode (kv_memory f) be b cx = Inr (0, cx') \<and> kv_inv n (cx_memory cx')
    \<and> (\<forall>s \<in> valid_seqs. kv_positions (cx_memory cx') s = kv_positions (cx_memory cx) s \<union> batch_positions (ba_batch a) s)
    \<and> (\<forall>r < get_n_outputs a. output_resolve_row (output_reorder (cx_out cx')) (int (output_tokens a ! r)) = Inr (int r))"
proof -
  let ?cp = "cx_cparams cx"
  have k: "plain_inv n (cx_memory cx)" "kc_n_stream (cx_memory cx) = 1" "kv_get_has_shift (cx_memory cx) \<longrightarrow> get_can_shift (cx_memory cx)"
    "plain_params ?cp" "0 < cp_n_seq_max ?cp" "1 \<le> ba_n_pos_per_embd (cx_balloc cx)" "length (ba_seq_pos (cx_balloc cx)) = LLAMA_MAX_SEQ"
    "co_output_ids (cx_out cx) = [] \<or> cp_n_batch ?cp \<le> length (co_output_ids (cx_out cx))" using cx by (simp_all add: kv_context_ok_def)
  have ft: "get_n_tokens a \<le> n_free (cx_memory cx)" "get_n_tokens a \<le> cp_n_batch ?cp" "cp_causal_attn ?cp \<or> get_n_tokens a \<le> cp_n_ubatch ?cp"
    "max (get_n_outputs a) (cp_n_seq_max ?cp) \<le> cp_n_outputs_max ?cp" "cp_embeddings ?cp \<longrightarrow> get_n_outputs a = get_n_tokens a" using room by (simp_all add: fits_def)
  have sm: "0 < (if cp_kv_unified ?cp then LLAMA_MAX_SEQ else cp_n_seq_max ?cp)" using k(5) by (simp add: LLAMA_MAX_SEQ_def)
  note acc = accepted_batch [OF init [unfolded decode_init_def Let_def] inp(1) sm k(6,7) tok]
  have n0: "b_n_tokens b \<noteq> 0" using init by (simp add: decode_init_def Let_def init_True_iff)
  let ?cx1 = "cx\<lparr>cx_balloc := a, cx_embd_seq := (\<lambda>_. None), cx_out := (cx_out cx)\<lparr>co_output_swaps := []\<rparr>\<rparr>"
  obtain up kc d where mu: "memory_update (kv_memory f) ?cx1 = Inr (up, ?cx1\<lparr>cx_memory := kc, cx_data := d\<rparr>)"
    and kc: "plain_inv n kc" "kv_abs kc = kv_abs (cx_memory cx)" "kc_n_stream kc = 1" "n_free kc = n_free (cx_memory cx)"
    using kv_memory_update [of n ?cx1 f] k(1-3) by auto
  have ft': "get_n_tokens a \<le> n_free kc" using ft(1) kc(4) by simp
  obtain runs x a' where ib: "kv_mem_init_batch (cp_n_ubatch ?cp) (cp_embeddings ?cp) a kc = Inr (x, a', kc)" "kx_status x = LLAMA_MEMORY_STATUS_SUCCESS"
    "kv_ready n x (map (run_ubatch a) runs) kc" and runs: "concat runs = [0..<get_n_tokens a]" "runs \<noteq> []" "\<forall>r \<in> set runs. r \<noteq> [] \<and> set r \<subseteq> {..<get_n_tokens a}"
    and out: "get_out_ids a' = output_tokens a"
    using kv_init_batch_ready [OF kc(1,3) acc(1,2,4) ft'] unfolding output_tokens_def by blast
  let ?cx2 = "?cx1\<lparr>cx_memory := kc, cx_data := d, cx_balloc := a'\<rparr>" and ?ubs = "map (run_ubatch a) runs"
  have wf: "kv_wf n kc" using kc(1) by (simp add: plain_inv_def kv_inv_def)
  have ub: "ub_n_tokens (run_ubatch a r) = length r \<and> ub_output (run_ubatch a r) = map ((!) (arr (b_logits (ba_batch a)))) r"
    "new_positions (run_ubatch a r) q = (\<lambda>i. arr (b_pos (ba_batch a)) ! i) ` {i \<in> set r. q \<in> set (tok_seqs (ba_batch a) i)}" if "r \<in> set runs" for r q
    using batch_ubatch [OF wf kc(3) acc(1), of r "length r" False] runs(3) that by (simp_all add: run_ubatch_def)
  have cnt: "(\<Sum>u\<leftarrow>?ubs. count_outputs (get_n_outputs a) (get_n_tokens a) u) = get_n_outputs a"
    by (rule count_outputs_sum [OF ub(1) runs(1)]) (use acc(3) in \<open>simp_all add: output_tokens_def\<close>)
  have len: "\<forall>t \<in> set (output_tokens a). t < out_ids_len ?cp (cx_out ?cx2)" using ft(2) k(8) by (auto simp: output_tokens_def out_ids_len_def)
  have "\<exists>cx'. decode_batch (kv_memory f) be (get_n_outputs a) (get_n_tokens a) x ?cx2 = Inr (0, cx') \<and> plain_inv n (cx_memory cx')
    \<and> kv_abs (cx_memory cx') = fold place_abs ?ubs (kv_abs (cx_memory ?cx2))
    \<and> (\<forall>r < get_n_outputs a. output_resolve_row (output_reorder (cx_out cx')) (int (output_tokens a ! r)) = Inr (int r))"
    by (rule decode_batch_ok) (use kc ib runs(2) k(4) be ft(4) cnt out acc(3) len output_tokens_sorted in \<open>simp_all\<close>)
  then obtain cx' where cx': "decode_batch (kv_memory f) be (get_n_outputs a) (get_n_tokens a) x ?cx2 = Inr (0, cx')" "plain_inv n (cx_memory cx')"
    "kv_abs (cx_memory cx') = fold place_abs ?ubs (kv_abs (cx_memory cx))"
    "\<forall>r < get_n_outputs a. output_resolve_row (output_reorder (cx_out cx')) (int (output_tokens a ! r)) = Inr (int r)" using kc(2) by auto
  have "init_batch_loop (kv_memory f) 1 (?cx1\<lparr>cx_memory := kc, cx_data := d\<rparr>) = Inr (Inr x, ?cx2)" using ib(1,2) by (simp add: init_batch_once_def)
  then have "decode (kv_memory f) be b cx = Inr (0, cx')"
    using inp(2) init mu ft(2,3,5) cx'(1) n0 by (simp add: decode_def Let_def del: init_batch_loop.simps)
  moreover have "kv_positions (cx_memory cx') s = kv_positions (cx_memory cx) s \<union> batch_positions (ba_batch a) s" if "s \<in> valid_seqs" for s
    using batch_placed_positions [OF k(1,2) cx'(2,3) that] union_runs [of runs "ba_batch a" "run_ubatch a" s] runs(1) ub(2) by (simp add: get_n_tokens_n_tok)
  ultimately show ?thesis using cx'(2,4) by (auto simp: plain_inv_def)
qed

subsection \<open>A ubatch that fails\<close>

text \<open>C2. In a KV cache without a sliding window, let each token of a ubatch belong to exactly one sequence and have a position above those that the cache holds for it.
  When the computation of this ubatch fails, \<open>decode\<close> returns the code of the failure and the cache holds the positions it held before the ubatch was placed.\<close>

theorem decode_failure_removes_ubatch:
  assumes i: "plain_inv n (cx_memory cx)" and r: "kv_ready n x (ub # ubs) (cx_memory cx)"
    and be: "\<forall>x' k m d. fst (be_compute be x' ub k m d) = Inl status" "status \<noteq> GGML_STATUS_SUCCESS"
    and tok: "\<forall>i < ub_n_tokens ub. ub_tok_seqs ub i = [ub_seq_id ub ! i ! 0] \<and> 0 \<le> ub_pos ub ! i \<and> ub_pos ub ! i < INT32_MAX
      \<and> seq_in_range (cx_memory cx) (ub_seq_id ub ! i ! 0) \<and> (\<forall>p \<in> kv_positions (cx_memory cx) (ub_seq_id ub ! i ! 0). p < ub_pos ub ! i)"
  shows "\<exists>code cx'. decode_ubatch (kv_memory f) be all ntok x prev tprev cx = Inr (Inl code, cx') \<and> failed_code status = Inr code \<and> code \<noteq> 0
    \<and> kv_inv n (cx_memory cx') \<and> (\<forall>s. seq_in_range (cx_memory cx) s \<longrightarrow> kv_positions (cx_memory cx') s = kv_positions (cx_memory cx) s)"
proof -
  let ?a = "kv_abs (cx_memory cx)"
  obtain code where code: "failed_code status = Inr code" "code \<noteq> 0" using be(2) by (cases status) (simp_all add: failed_code_def)
  have ok: "ubatch_seqs_ok ub ?a" using tok valid_of_range [OF plain_inv_wf [OF i]] by (auto simp: ubatch_seqs_ok_def)
  have fail: "\<exists>d'. be_compute be x' ub k m d = (Inl status, d')" for x' k m d using be(1) by (metis prod.collapse)
  obtain m' d' where m': "decode_ubatch (kv_memory f) be all ntok x prev tprev cx
      = Inr (Inl code, cx\<lparr>cx_memory := m', cx_data := d', cx_out := (cx_out cx)\<lparr>co_n_outputs := count_outputs all ntok ub\<rparr>\<rparr>)"
    "plain_inv n m'" "kv_abs m' = without_failed ub (place_abs ub ?a)"
    using kv_batch.decode_ubatch_failed [OF i r fail code(1) ok] by blast
  have new: "new_positions ub s = first_seqs ub s" for s
    unfolding new_positions_def first_seqs_def using tok by (intro Collect_cong) auto
  have fin: "finite (first_seqs ub s)" for s
    unfolding first_seqs_def by (rule finite_subset [of _ "(\<lambda>i. ub_pos ub ! i) ` {..<ub_n_tokens ub}"]) auto
  have "am_pos (without_failed ub (place_abs ub ?a)) s = am_pos ?a s" if "seq_in_range (cx_memory cx) s" for s
  proof (cases "first_seqs ub s = {}")
    case True
    then show ?thesis by (simp add: without_failed_def place_abs_def new)
  next
    case False
    have f: "0 \<le> q" "q < INT32_MAX" "\<forall>p \<in> am_pos ?a s. p < q" if "q \<in> first_seqs ub s" for q
      using that tok by (auto simp: first_seqs_def)
    have "in_rng (Min (first_seqs ub s)) (-1) q" if "q \<in> first_seqs ub s" for q
      using f(1) [OF Min_in [OF fin False]] f(2) [OF that] Min_le [OF fin that] by (simp add: in_rng_def range_lo_def range_hi_def)
    moreover have "\<not> in_rng (Min (first_seqs ub s)) (-1) p" if "p \<in> am_pos ?a s" for p
      using f [OF Min_in [OF fin False]] that by (auto simp: in_rng_def range_lo_def)
    ultimately show ?thesis using False that unfolding without_failed_def place_abs_def by (auto simp: new)
  qed
  moreover have rng: "seq_in_range m' s = seq_in_range (cx_memory cx) s" for s
    using arg_cong [OF m'(3), of "\<lambda>a. s \<in> am_seqs a"] by (simp add: without_failed_def)
  ultimately have "\<forall>s. seq_in_range (cx_memory cx) s \<longrightarrow> kv_positions m' s = kv_positions (cx_memory cx) s"
    using m'(3) rng by (metis kv_abs_sel(5))
  then show ?thesis using m'(1,2) code by (auto simp: plain_inv_def)
qed

subsection \<open>Example\<close>

text \<open>A context with an empty cache of three cells and ubatches of one token; a backend that computes zeros and one
  that fails.\<close>

definition demo_context :: "(kv_cache, int list, int) llama_context" where
  "demo_context = \<lparr>cx_cparams = \<lparr>cp_n_batch = 4, cp_n_ubatch = 1, cp_n_seq_max = 1, cp_n_outputs_max = 4, cp_kv_unified = True, cp_causal_attn = True,
       cp_embeddings = False, cp_embeddings_nextn = False, cp_embeddings_nextn_masked = False, cp_embeddings_layer_inp = [False, False],
       cp_pooling_type = LLAMA_POOLING_TYPE_NONE, cp_ctx_mtp = False\<rparr>,
     cx_hparams = demo_hparams, cx_n_cls_out = 0, cx_arch_t5 = False, cx_balloc = allocr_new 1, cx_memory = demo_empty, cx_data = [0],
     cx_out = \<lparr>co_n_vocab = 20, co_n_embd = 2, co_n_embd_out = 2, co_n_outputs = 0, co_output_ids = [], co_output_swaps = [], co_logits = [], co_embd = [],
       co_embd_nextn = [], co_embd_layer_inp = [], co_sampling = None\<rparr>,
     cx_embd_seq = (\<lambda>_. None), cx_buf_output = None\<rparr>"

definition demo_shift :: "kv_cells list \<Rightarrow> int list \<Rightarrow> int list option" where
  "demo_shift cells d = Some d"

definition demo_backend :: "(kv_cache, int list, kv_cache_context, int) backend" where
  "demo_backend = \<lparr>be_compute = (\<lambda>x ub k m d. (Inr \<lparr>gr_logits = Some (replicate (k * 20) 0), gr_embd = None, gr_embd_pooled = None, gr_h_nextn = None,
     gr_layer_inp = [None, None]\<rparr>, d)), be_alloc = (\<lambda>_. True), be_content = (\<lambda>_. 0)\<rparr>"

definition demo_failing :: "(kv_cache, int list, kv_cache_context, int) backend" where
  "demo_failing = demo_backend\<lparr>be_compute := (\<lambda>x ub k m d. (Inl GGML_STATUS_FAILED, d))\<rparr>"

lemma demo_context_ok: "kv_context_ok 3 demo_context" "backend_ok demo_backend (co_n_vocab (cx_out demo_context)) (co_n_embd_out (cx_out demo_context))"
proof -
  have "\<not> kv_get_has_shift demo_empty" by (simp add: kv_get_has_shift_def demo_empty_facts mk_cells_def get_has_shift_def)
  then show "kv_context_ok 3 demo_context"
    by (simp add: kv_context_ok_def demo_context_def plain_inv_def kv_inv_def demo_empty_facts plain_params_def allocr_new_def)
  show "backend_ok demo_backend (co_n_vocab (cx_out demo_context)) (co_n_embd_out (cx_out demo_context))"
    by (auto simp: backend_ok_def demo_backend_def demo_context_def good_result_def)
qed

lemma demo_decode_init:
  "\<exists>a. decode_init (kv_memory demo_shift) (llama_batch_get_one [11, 12] 2) demo_context = Inr (True, a) \<and> get_n_tokens a = 2 \<and> get_n_outputs a = 1
     \<and> arr (b_pos (ba_batch a)) = [0, 1] \<and> (\<forall>i < 2. tok_seqs (ba_batch a) i = [0])"
proof -
  let ?v = "mem_view_of (kv_memory demo_shift) demo_empty"
  have m: "mv_seq_pos_max ?v 0 = -1"
    by (simp add: mem_view_of_def kv_memory_def kv_seq_pos_max_def demo_empty_facts cells_seq_pos_max_mk seq_positions_Cons)
  have "\<forall>i < (2::nat). 0 \<le> [11, 12 :: int] ! i \<and> [11, 12 :: int] ! i < int 20" by (auto simp: less_2_cases_iff)
  then show ?thesis
    using get_one_accepted [of 2 "[11, 12]" 20 LLAMA_MAX_SEQ "allocr_new 1" "Some ?v" "unat (n_embd_inp demo_hparams)" False] m
    by (simp add: decode_init_def demo_context_def allocr_new_def LLAMA_MAX_SEQ_def next_pos_def upt_rec) blast
qed

theorem decode_stores_batch_witness:
  "\<exists>a cx'. decode_init (kv_memory demo_shift) (llama_batch_get_one [11, 12] 2) demo_context = Inr (True, a)
    \<and> decode (kv_memory demo_shift) demo_backend (llama_batch_get_one [11, 12] 2) demo_context = Inr (0, cx') \<and> kv_positions (cx_memory cx') 0 = {0, 1}"
proof -
  obtain a where a: "decode_init (kv_memory demo_shift) (llama_batch_get_one [11, 12] 2) demo_context = Inr (True, a)" "get_n_tokens a = 2" "get_n_outputs a = 1"
    "arr (b_pos (ba_batch a)) = [0, 1]" "\<forall>i < 2. tok_seqs (ba_batch a) i = [0]" using demo_decode_init by blast
  have inp: "batch_inp_ok (llama_batch_get_one [11, 12] 2)" "b_token (llama_batch_get_one [11, 12] 2) \<noteq> None \<or> b_embd (llama_batch_get_one [11, 12] 2) \<noteq> None"
    by (simp_all add: batch_inp_ok_def llama_batch_get_one_def)
  have tok: "\<forall>i < get_n_tokens a. 0 \<le> arr (b_pos (ba_batch a)) ! i \<and> distinct (tok_seqs (ba_batch a) i)" using a by (auto simp: less_2_cases_iff)
  have "fits a demo_context" using a by (simp add: fits_def demo_context_def demo_all_free)
  from decode_stores_batch [OF demo_context_ok inp a(1) tok this]
  obtain cx' where "decode (kv_memory demo_shift) demo_backend (llama_batch_get_one [11, 12] 2) demo_context = Inr (0, cx')"
    "\<forall>s \<in> valid_seqs. kv_positions (cx_memory cx') s = kv_positions (cx_memory demo_context) s \<union> batch_positions (ba_batch a) s" by blast
  moreover have "batch_positions (ba_batch a) 0 = {0, 1}"
  proof -
    have "{i. i < n_tok (ba_batch a) \<and> 0 \<in> set (tok_seqs (ba_batch a) i)} = {0, 1}" using a(2,5) by (auto simp: get_n_tokens_n_tok)
    then show ?thesis by (simp add: batch_positions_def a(4))
  qed
  ultimately show ?thesis using a(1) by (auto simp: demo_context_def demo_no_positions valid_seqs_def LLAMA_MAX_SEQ_def)
qed

theorem decode_failure_removes_ubatch_witness:
  "\<exists>x cx'. kv_ready 3 x [demo_ubatch] demo_empty
    \<and> decode_ubatch (kv_memory demo_shift) demo_failing 0 2 x 0 0 demo_context = Inr (Inl (-3), cx') \<and> kv_positions (cx_memory cx') 0 = {}"
proof -
  have i: "plain_inv 3 demo_empty" by (simp add: plain_inv_def kv_inv_def demo_empty_facts)
  obtain sis where "slots_ready 3 sis [demo_ubatch] demo_empty"
    using prepare_slots [OF i demo_empty_facts(3), of "[demo_ubatch]"] demo_ubatch_ok(1) by (auto simp: demo_ubatch_def demo_all_free)
  then have r: "kv_ready 3 (kv_context_batch sis [demo_ubatch]) [demo_ubatch] demo_empty"
    by (simp add: kv_ready_def kv_context_batch_def kv_context_status_def)
  have m: "cx_memory demo_context = demo_empty" by (simp add: demo_context_def)
  have tok: "\<forall>i < ub_n_tokens demo_ubatch. ub_tok_seqs demo_ubatch i = [ub_seq_id demo_ubatch ! i ! 0] \<and> 0 \<le> ub_pos demo_ubatch ! i \<and> ub_pos demo_ubatch ! i < INT32_MAX
      \<and> seq_in_range demo_empty (ub_seq_id demo_ubatch ! i ! 0) \<and> (\<forall>p \<in> kv_positions demo_empty (ub_seq_id demo_ubatch ! i ! 0). p < ub_pos demo_ubatch ! i)"
    by (auto simp: demo_ubatch_def ub_tok_seqs_def less_2_cases_iff demo_empty_facts demo_no_positions INT32_MAX_def)
  obtain code cx' where "decode_ubatch (kv_memory demo_shift) demo_failing 0 2 (kv_context_batch sis [demo_ubatch]) 0 0 demo_context = Inr (Inl code, cx')"
    "failed_code GGML_STATUS_FAILED = Inr code" "\<forall>s. seq_in_range demo_empty s \<longrightarrow> kv_positions (cx_memory cx') s = kv_positions demo_empty s"
    using decode_failure_removes_ubatch [of 3 demo_context "kv_context_batch sis [demo_ubatch]" demo_ubatch "[]" demo_failing GGML_STATUS_FAILED demo_shift 0 2 0 0]
      i r tok unfolding m by (auto simp: demo_failing_def)
  then show ?thesis using r demo_empty_facts(6) demo_no_positions by (auto simp: failed_code_def)
qed

end
