(* ===== verification/Recurrent.thy ===== *)
theory Recurrent
  imports Memory
begin

section \<open>The recurrent memory\<close>

text \<open>
  \<^verbatim>\<open>src/llama-memory-recurrent.h\<close> and \<^verbatim>\<open>src/llama-memory-recurrent.cpp\<close>: the memory of models whose state is one
  row per sequence (Mamba, RWKV). A cell holds the state of the sequences in its set; \<open>cells[s].tail\<close> is the
  index of the cell that holds the state of sequence \<open>s\<close> (the array plays both roles).

  \<^item> \<open>src\<close> and \<open>src0\<close> say from which row the state of a cell is read by the next graph; \<open>rs_idx\<close> and \<open>n_rs_seq\<close>
    belong to the snapshots used to roll a sequence back by a few tokens.
  \<^item> The tensors (\<open>r_l\<close>, \<open>s_l\<close>, \<open>p_l\<close>) are only read and written by graphs, so \<open>clear\<close> of the data is not part of
    the model.
  \<^item> \<open>used\<close> is an unsigned counter: the decrement wraps at zero.
\<close>

record mem_cell =
  mc_pos :: llama_pos
  mc_src :: int
  mc_src0 :: int
  mc_tail :: int
  mc_seq_id :: "llama_seq_id set"

record memory_recurrent =
  rm_head :: nat
  rm_size :: nat
  rm_used :: nat
  rm_n_rs_seq :: nat
  rm_rs_idx :: "nat list"
  rm_n :: nat
  rm_rs_z :: int
  rm_cells :: "mem_cell list"
  rm_n_seq_max :: nat

definition mc_new :: mem_cell where
  "mc_new = \<lparr>mc_pos = -1, mc_src = -1, mc_src0 = -1, mc_tail = -1, mc_seq_id = {}\<rparr>"

definition mc_has_seq_id :: "mem_cell \<Rightarrow> llama_seq_id \<Rightarrow> bool" where
  "mc_has_seq_id c s \<longleftrightarrow> s \<in> mc_seq_id c"

definition mc_is_empty :: "mem_cell \<Rightarrow> bool" where
  "mc_is_empty c \<longleftrightarrow> mc_seq_id c = {}"

definition recurrent_new :: "nat \<Rightarrow> nat \<Rightarrow> nat \<Rightarrow> memory_recurrent" where
  "recurrent_new mem_size n_seq_max n_rs_seq = \<lparr>rm_head = 0, rm_size = mem_size, rm_used = 0, rm_n_rs_seq = n_rs_seq,
     rm_rs_idx = replicate n_seq_max 0, rm_n = 0, rm_rs_z = -1, rm_cells = replicate mem_size mc_new, rm_n_seq_max = n_seq_max\<rparr>"

text \<open>Access to a cell, and its update in place.\<close>

definition rcell :: "memory_recurrent \<Rightarrow> nat \<Rightarrow> mem_cell" where
  "rcell m i = rm_cells m ! i"

definition upd_cell :: "nat \<Rightarrow> (mem_cell \<Rightarrow> mem_cell) \<Rightarrow> memory_recurrent \<Rightarrow> memory_recurrent" where
  "upd_cell i f m = m\<lparr>rm_cells := (rm_cells m)[i := f (rm_cells m ! i)]\<rparr>"

definition dec_u32 :: "nat \<Rightarrow> nat" where
  "dec_u32 k = (if k = 0 then 2 ^ 32 - 1 else k - 1)"

definition dec_used :: "memory_recurrent \<Rightarrow> memory_recurrent" where
  "dec_used m = m\<lparr>rm_used := dec_u32 (rm_used m)\<rparr>"

subsection \<open>Sequence operations\<close>

definition rm_clear :: "memory_recurrent \<Rightarrow> memory_recurrent" where
  "rm_clear m = (let m = fold (\<lambda>i. upd_cell i (\<lambda>c. c\<lparr>mc_pos := -1, mc_seq_id := {}, mc_src := -1, mc_tail := -1\<rparr>)) [0..<rm_size m] m
     in m\<lparr>rm_head := 0, rm_used := 0, rm_rs_idx := map (\<lambda>_. 0) (rm_rs_idx m)\<rparr>)"

definition set_rs_idx :: "llama_seq_id \<Rightarrow> nat \<Rightarrow> memory_recurrent \<Rightarrow> memory_recurrent" where
  "set_rs_idx s idx m = (if s < 0 \<or> nat s \<ge> length (rm_rs_idx m) then m
     else m\<lparr>rm_rs_idx := (rm_rs_idx m)[nat s := (if idx > rm_n_rs_seq m then rm_n_rs_seq m else idx)]\<rparr>)"

text \<open>The loop of \<open>seq_rm\<close> over the cells; the state is the memory and \<open>new_head\<close>.\<close>

definition rm_seq_rm_cell :: "llama_seq_id \<Rightarrow> llama_pos \<Rightarrow> llama_pos \<Rightarrow> nat \<Rightarrow> memory_recurrent \<times> nat \<Rightarrow> memory_recurrent \<times> nat" where
  "rm_seq_rm_cell s p0 p1 i = (\<lambda>(m, new_head).
    if mc_pos (rcell m i) \<ge> p0 \<and> mc_pos (rcell m i) < p1 then
      if \<not> s < 0 \<and> \<not> mc_has_seq_id (rcell m i) s then (m, new_head)
      else let m = upd_cell i (\<lambda>c. c\<lparr>mc_seq_id := (if s < 0 then {} else mc_seq_id c - {s})\<rparr>) m in
        if mc_is_empty (rcell m i) then
          let m = (if mc_pos (rcell m i) \<ge> 0 then dec_used m else m);
              m = upd_cell i (\<lambda>c. c\<lparr>mc_pos := -1, mc_src := -1\<rparr>) m
          in (m, if new_head = rm_size m then i else new_head)
        else (m, new_head)
    else (m, new_head))"

definition rm_set_head :: "memory_recurrent \<times> nat \<Rightarrow> memory_recurrent" where
  "rm_set_head = (\<lambda>(m, new_head). if new_head \<noteq> rm_size m \<and> new_head < rm_head m then m\<lparr>rm_head := new_head\<rparr> else m)"

definition rm_seq_rm :: "llama_seq_id \<Rightarrow> llama_pos \<Rightarrow> llama_pos \<Rightarrow> memory_recurrent \<Rightarrow> bool \<times> memory_recurrent" where
  "rm_seq_rm s p0 p1 m =
    (let p0 = range_lo p0; p1 = range_hi p1; rm_all = (p0 = 0 \<and> p1 = INT32_MAX);
         m = (if rm_all then if s \<ge> 0 then set_rs_idx s 0 m else m\<lparr>rm_rs_idx := map (\<lambda>_. 0) (rm_rs_idx m)\<rparr> else m);
         clear_cells = (\<lambda>m. (True, rm_set_head (fold (rm_seq_rm_cell s p0 p1) [0..<rm_size m] (m, rm_size m))))
     in if s \<ge> int (rm_size m) then (False, m)
        else if 0 \<le> s then
          let tail_id = mc_tail (rcell m (nat s)) in
          if tail_id \<ge> 0 then
            let cell = rcell m (nat tail_id) in
            if 0 < p0 \<and> p0 \<le> mc_pos cell \<and> p1 > mc_pos cell then
              let rollback = mc_pos cell - (p0 - 1) in
              if rollback \<ge> 1 \<and> rollback \<le> int (rm_n_rs_seq m)
              then (True, upd_cell (nat tail_id) (\<lambda>c. c\<lparr>mc_pos := p0 - 1\<rparr>) (set_rs_idx s (nat rollback) m))
              else (False, m)
            else if p0 \<le> mc_pos cell \<and> mc_pos cell < p1 then clear_cells (upd_cell (nat s) (\<lambda>c. c\<lparr>mc_tail := -1\<rparr>) m)
            else clear_cells m
          else clear_cells m
        else if p0 \<noteq> p1 \<and> (p0 \<noteq> 0 \<or> p1 \<noteq> INT32_MAX) then (False, m)
        else clear_cells m)"

text \<open>A sequence leaves the cell that holds its state: in \<open>seq_cp\<close> for the destination, in \<open>find_slot\<close> for the
  sequences that become shared.\<close>

definition drop_tail :: "llama_seq_id \<Rightarrow> memory_recurrent \<Rightarrow> memory_recurrent" where
  "drop_tail s m = (let t = mc_tail (rcell m (nat s)) in
     if t \<ge> 0 then
       let m = upd_cell (nat t) (\<lambda>c. c\<lparr>mc_seq_id := mc_seq_id c - {s}\<rparr>) m;
           m = upd_cell (nat s) (\<lambda>c. c\<lparr>mc_tail := -1\<rparr>) m
       in if mc_is_empty (rcell m (nat t)) then dec_used (upd_cell (nat t) (\<lambda>c. c\<lparr>mc_pos := -1, mc_src := -1\<rparr>) m) else m
     else m)"

definition rm_seq_cp :: "llama_seq_id \<Rightarrow> llama_seq_id \<Rightarrow> llama_pos \<Rightarrow> llama_pos \<Rightarrow> memory_recurrent \<Rightarrow> memory_recurrent" where
  "rm_seq_cp src dst p0 p1 m =
    (if src = dst then m
     else if to_u32 dst < int (rm_size m) \<and> to_u32 src < int (rm_size m) then
       let m = drop_tail dst m; t = mc_tail (rcell m (nat src)) in
       if t \<ge> 0 then upd_cell (nat dst) (\<lambda>c. c\<lparr>mc_tail := t\<rparr>) (upd_cell (nat t) (\<lambda>c. c\<lparr>mc_seq_id := insert dst (mc_seq_id c)\<rparr>) m)
       else m
     else m)"

definition rm_seq_keep_cell :: "llama_seq_id \<Rightarrow> nat \<Rightarrow> memory_recurrent \<times> nat \<Rightarrow> memory_recurrent \<times> nat" where
  "rm_seq_keep_cell s i = (\<lambda>(m, new_head).
    let m = (if int i \<noteq> s then upd_cell i (\<lambda>c. c\<lparr>mc_tail := -1\<rparr>) m else m) in
    if \<not> mc_has_seq_id (rcell m i) s then
      let m = (if mc_pos (rcell m i) \<ge> 0 then dec_used m else m);
          m = upd_cell i (\<lambda>c. c\<lparr>mc_pos := -1, mc_src := -1, mc_seq_id := {}\<rparr>) m
      in (m, if new_head = rm_size m then i else new_head)
    else (upd_cell i (\<lambda>c. c\<lparr>mc_seq_id := {s}\<rparr>) m, new_head))"

definition rm_seq_keep :: "llama_seq_id \<Rightarrow> memory_recurrent \<Rightarrow> memory_recurrent" where
  "rm_seq_keep s m = rm_set_head (fold (rm_seq_keep_cell s) [0..<rm_size m] (m, rm_size m))"

text \<open>\<open>seq_add\<close> and \<open>seq_div\<close> change the position of the one cell of the sequence.\<close>

definition upd_tail_pos :: "llama_seq_id \<Rightarrow> llama_pos \<Rightarrow> llama_pos \<Rightarrow> (llama_pos \<Rightarrow> llama_pos) \<Rightarrow> memory_recurrent \<Rightarrow> memory_recurrent" where
  "upd_tail_pos s p0 p1 g m =
    (if 0 \<le> s \<and> s < int (rm_size m) then
       let t = mc_tail (rcell m (nat s)) in
       if t \<ge> 0 \<and> mc_has_seq_id (rcell m (nat t)) s \<and> p0 \<le> mc_pos (rcell m (nat t)) \<and> mc_pos (rcell m (nat t)) < p1
       then upd_cell (nat t) (\<lambda>c. c\<lparr>mc_pos := g (mc_pos c)\<rparr>) m else m
     else m)"

definition rm_seq_add :: "llama_seq_id \<Rightarrow> llama_pos \<Rightarrow> llama_pos \<Rightarrow> llama_pos \<Rightarrow> memory_recurrent \<Rightarrow> memory_recurrent" where
  "rm_seq_add s p0 p1 shift m = (if shift = 0 then m
     else let p0 = range_lo p0; p1 = range_hi p1 in if p0 = p1 then m else upd_tail_pos s p0 p1 (\<lambda>p. p + shift) m)"

definition rm_seq_div :: "llama_seq_id \<Rightarrow> llama_pos \<Rightarrow> llama_pos \<Rightarrow> int \<Rightarrow> memory_recurrent \<Rightarrow> memory_recurrent" where
  "rm_seq_div s p0 p1 d m = (if d = 1 then m
     else let p0 = range_lo p0; p1 = range_hi p1 in if p0 = p1 then m else upd_tail_pos s p0 p1 (\<lambda>p. cdiv p d) m)"

definition rm_seq_pos_min :: "memory_recurrent \<Rightarrow> llama_seq_id \<Rightarrow> llama_pos" where
  "rm_seq_pos_min m s = (let r = fold (\<lambda>i r. if mc_has_seq_id (rcell m i) s then min r (mc_pos (rcell m i)) else r) [0..<rm_size m] INT32_MAX
     in if r = INT32_MAX then -1 else r)"

definition rm_seq_pos_max :: "memory_recurrent \<Rightarrow> llama_seq_id \<Rightarrow> llama_pos" where
  "rm_seq_pos_max m s = fold (\<lambda>i r. if mc_has_seq_id (rcell m i) s then max r (mc_pos (rcell m i)) else r) [0..<rm_size m] (-1)"

definition rm_seq_token_count :: "memory_recurrent \<Rightarrow> llama_seq_id \<Rightarrow> nat" where
  "rm_seq_token_count m s = fold (\<lambda>i r. if (if s < 0 then \<not> mc_is_empty (rcell m i) else mc_has_seq_id (rcell m i) s) then r + 1 else r)
     [0..<rm_size m] 0"

subsection \<open>\<open>find_slot\<close>\<close>

text \<open>The sequences of the \<open>s\<close>-th set of a ubatch, and the first loop: every id must be in range, and the
  sequences after the first of their set leave their cells. \<open>False\<close> is the early return.\<close>

definition set_seqs :: "llama_ubatch \<Rightarrow> nat \<Rightarrow> llama_seq_id list" where
  "set_seqs ub s = (let i = s * ub_n_seq_tokens ub in map (\<lambda>j. ub_seq_id ub ! i ! j) [0..<ub_n_seq_id ub ! i])"

definition slot_check_step :: "nat \<times> llama_seq_id \<Rightarrow> bool \<times> memory_recurrent \<Rightarrow> bool \<times> memory_recurrent" where
  "slot_check_step = (\<lambda>(j, s) (ok, m). if \<not> ok then (ok, m)
     else if s < 0 \<or> to_u32 s \<ge> int (rm_size m) then (False, m)
     else if j > 0 then (True, drop_tail s m) else (True, m))"

definition slot_check :: "llama_ubatch \<Rightarrow> memory_recurrent \<Rightarrow> bool \<times> memory_recurrent" where
  "slot_check ub m = fold slot_check_step (concat (map (\<lambda>s. enumerate 0 (set_seqs ub s)) [0..<ub_n_seqs ub])) (True, m)"

text \<open>The two searches for an empty cell; the first argument counts the rounds of the loop.\<close>

fun first_empty :: "nat \<Rightarrow> memory_recurrent \<Rightarrow> nat \<Rightarrow> nat" where
  "first_empty 0 m c = c"
| "first_empty (Suc k) m c = (let c = (if c \<ge> rm_size m then c - rm_size m else c) in if mc_is_empty (rcell m c) then c else first_empty k m (c + 1))"

fun next_empty :: "nat \<Rightarrow> memory_recurrent \<Rightarrow> nat \<Rightarrow> nat" where
  "next_empty 0 m c = c"
| "next_empty (Suc k) m c = (let c = c + 1; c = (if c \<ge> rm_size m then c - rm_size m else c) in if mc_is_empty (rcell m c) then c else next_empty k m c)"

record slot_range =
  sr_next :: nat
  sr_min :: int
  sr_max :: int

text \<open>The second loop: each set gets a cell that its first sequence owns.\<close>

definition claim_cell :: "llama_seq_id \<Rightarrow> nat \<Rightarrow> memory_recurrent \<Rightarrow> memory_recurrent res" where
  "claim_cell s c m =
    (let t = mc_tail (rcell m (nat s)); take_cell = upd_cell (nat s) (\<lambda>x. x\<lparr>mc_tail := int c\<rparr>)
     in ggml_assert (mc_is_empty (rcell m c)) ''empty_cell.is_empty()''
          (if t \<ge> 0 then
             let m = upd_cell c (\<lambda>x. x\<lparr>mc_pos := mc_pos (rcell m (nat t)), mc_src := mc_src (rcell m (nat t))\<rparr>) m;
                 m = upd_cell (nat t) (\<lambda>x. x\<lparr>mc_seq_id := mc_seq_id x - {s}\<rparr>) m;
                 m = upd_cell c (\<lambda>x. x\<lparr>mc_seq_id := insert s (mc_seq_id x)\<rparr>) m
             in ggml_assert (\<not> mc_is_empty (rcell m (nat t))) ''!orig_cell.is_empty()'' (Inr (take_cell m))
           else Inr (take_cell m)))"

definition slot_usable_step :: "llama_ubatch \<Rightarrow> nat \<Rightarrow> memory_recurrent \<times> slot_range \<Rightarrow> (memory_recurrent \<times> slot_range) res" where
  "slot_usable_step ub s = (\<lambda>(m, r).
    let q = ub_seq_id ub ! (s * ub_n_seq_tokens ub) ! 0; t = mc_tail (rcell m (nat q)) in
    ggml_assert (t \<ge> 0 \<longrightarrow> mc_has_seq_id (rcell m (nat t)) q) ''cell.has_seq_id(seq_id)''
      (let has_cell = (t \<ge> 0 \<and> card (mc_seq_id (rcell m (nat t))) = 1) in
       bind_res (if has_cell then Inr (m, r)
                 else bind_res (claim_cell q (sr_next r) m) (\<lambda>m.
                   Inr (m, if s + 1 < ub_n_seqs ub then r\<lparr>sr_next := next_empty (rm_size m) m (sr_next r)\<rparr> else r)))
         (\<lambda>(m, r). let t = mc_tail (rcell m (nat q)) in
            Inr (m, r\<lparr>sr_min := (if sr_min r > t then t else sr_min r), sr_max := (if sr_max r < t then t else sr_max r)\<rparr>))))"

text \<open>The third loop moves the cells to the front of the range, in the order of the sets.\<close>

definition swap_tail :: "int \<Rightarrow> int \<Rightarrow> int \<Rightarrow> int" where
  "swap_tail src_id dst_id t = (if t = src_id then dst_id else if t = dst_id then src_id else t)"

definition swap_cells :: "nat \<Rightarrow> nat \<Rightarrow> memory_recurrent \<Rightarrow> memory_recurrent" where
  "swap_cells d s m =
    (let a = rcell m d; b = rcell m s;
         m = upd_cell d (\<lambda>c. c\<lparr>mc_pos := mc_pos b, mc_src := mc_src b, mc_seq_id := mc_seq_id b\<rparr>) m;
         m = upd_cell s (\<lambda>c. c\<lparr>mc_pos := mc_pos a, mc_src := mc_src a, mc_seq_id := mc_seq_id a\<rparr>) m
     in fold (\<lambda>j. upd_cell j (\<lambda>c. c\<lparr>mc_tail := swap_tail (int s) (int d) (mc_tail c)\<rparr>)) [0..<rm_size m] m)"

definition slot_gather_step :: "llama_ubatch \<Rightarrow> nat \<Rightarrow> nat \<Rightarrow> memory_recurrent \<Rightarrow> memory_recurrent" where
  "slot_gather_step ub lo s m =
    (let dst_id = s + lo; src_id = nat (mc_tail (rcell m (nat (ub_seq_id ub ! (s * ub_n_seq_tokens ub) ! 0))))
     in if dst_id \<noteq> src_id then swap_cells dst_id src_id m else m)"

text \<open>The fourth loop stores the positions and the sets.\<close>

definition slot_store_step :: "llama_ubatch \<Rightarrow> nat \<Rightarrow> nat \<Rightarrow> memory_recurrent \<Rightarrow> memory_recurrent" where
  "slot_store_step ub lo s m =
    (let i = s * ub_n_seq_tokens ub; last_pos = ub_pos ub ! (i + ub_n_seq_tokens ub - 1); cell_id = s + lo;
         m = upd_cell cell_id (\<lambda>c. c\<lparr>mc_pos := last_pos, mc_seq_id := {}\<rparr>) m
     in fold (\<lambda>q m. upd_cell (nat q) (\<lambda>c. c\<lparr>mc_tail := int cell_id\<rparr>) (upd_cell cell_id (\<lambda>c. c\<lparr>mc_seq_id := insert q (mc_seq_id c)\<rparr>) m))
          (set_seqs ub s) m)"

text \<open>The sources: the first cell of the range that no cell reads from is the zero-ed state.\<close>

definition refcounts :: "memory_recurrent \<Rightarrow> nat list" where
  "refcounts m = fold (\<lambda>i r. let src = mc_src (rcell m i) in if src \<ge> 0 then r[nat src := r ! nat src + 1] else r)
     [0..<rm_size m] (replicate (rm_size m) 0)"

definition slot_rs_z :: "nat \<Rightarrow> nat \<Rightarrow> memory_recurrent \<Rightarrow> int" where
  "slot_rs_z lo hi m = (let r = refcounts m in case List.find (\<lambda>i. r ! i = 0) [lo..<Suc hi] of None \<Rightarrow> -1 | Some i \<Rightarrow> int i)"

definition slot_src_step :: "nat \<Rightarrow> memory_recurrent \<Rightarrow> memory_recurrent res" where
  "slot_src_step i m = (if mc_src (rcell m i) < 0
     then ggml_assert (rm_rs_z m \<ge> 0) ''rs_z >= 0'' (Inr (upd_cell i (\<lambda>c. c\<lparr>mc_src0 := rm_rs_z m, mc_src := int i\<rparr>) m))
     else Inr (upd_cell i (\<lambda>c. c\<lparr>mc_src0 := mc_src c, mc_src := int i\<rparr>) m))"

definition count_used :: "memory_recurrent \<Rightarrow> nat" where
  "count_used m = length (filter (\<lambda>c. \<not> mc_is_empty c) (rm_cells m))"

definition slot_finish :: "llama_ubatch \<Rightarrow> nat \<Rightarrow> nat \<Rightarrow> memory_recurrent \<Rightarrow> (bool \<times> memory_recurrent) res" where
  "slot_finish ub lo hi m =
    (let m = m\<lparr>rm_rs_z := slot_rs_z lo hi m\<rparr> in
     bind_res (fold_res slot_src_step [lo..<Suc hi] m) (\<lambda>m.
       let m = m\<lparr>rm_head := lo, rm_n := hi - lo + 1, rm_used := count_used m\<rparr> in Inr (rm_n m \<ge> ub_n_seqs ub, m)))"

definition rm_find_slot :: "llama_ubatch \<Rightarrow> memory_recurrent \<Rightarrow> (bool \<times> memory_recurrent) res" where
  "rm_find_slot ub m =
    (let n_seqs = ub_n_seqs ub; m = (if int (rm_head m) > to_u32 (int (rm_used m + 2 * n_seqs)) then m\<lparr>rm_head := 0\<rparr> else m)
     in ggml_assert (ub_equal_seqs ub) ''ubatch.equal_seqs()''
       (let (ok, m) = slot_check ub m in
        if \<not> ok then Inr (False, m)
        else bind_res (fold_res (slot_usable_step ub) [0..<n_seqs]
               (m, \<lparr>sr_next = first_empty (rm_size m) m (rm_head m), sr_min = int (rm_size m) - 1, sr_max = 0\<rparr>)) (\<lambda>(m, r).
          let lo = nat (sr_min r); hi = nat (sr_max r); m = fold (slot_gather_step ub lo) [0..<n_seqs] m; m = fold (slot_store_step ub lo) [0..<n_seqs] m
          in slot_finish ub lo hi m)))"

subsection \<open>Batches and contexts\<close>

text \<open>\<open>prepare\<close> tries all ubatches and restores the cells, \<open>used\<close> and \<open>head\<close>.\<close>

fun rm_prepare_loop :: "llama_ubatch list \<Rightarrow> memory_recurrent \<Rightarrow> (bool \<times> memory_recurrent) res" where
  "rm_prepare_loop [] m = Inr (True, m)"
| "rm_prepare_loop (ub # ubs) m = bind_res (rm_find_slot ub m) (\<lambda>(ok, m). if \<not> ok then Inr (False, m) else rm_prepare_loop ubs m)"

definition rm_prepare :: "llama_ubatch list \<Rightarrow> memory_recurrent \<Rightarrow> (bool \<times> memory_recurrent) res" where
  "rm_prepare ubs m = bind_res (rm_prepare_loop ubs m) (\<lambda>(success, m').
     Inr (success, m'\<lparr>rm_cells := rm_cells m, rm_used := rm_used m, rm_head := rm_head m\<rparr>))"

record recurrent_context =
  rx_status :: llama_memory_status
  rx_i_next :: nat
  rx_ubatches :: "llama_ubatch list"
  rx_is_full :: bool

definition rx_of_status :: "llama_memory_status \<Rightarrow> recurrent_context" where
  "rx_of_status status = \<lparr>rx_status = status, rx_i_next = 0, rx_ubatches = [], rx_is_full = False\<rparr>"

definition rm_init_full :: "memory_recurrent \<Rightarrow> recurrent_context" where
  "rm_init_full m = (rx_of_status LLAMA_MEMORY_STATUS_SUCCESS)\<lparr>rx_is_full := True\<rparr>"

definition rx_of_batch :: "llama_ubatch list \<Rightarrow> recurrent_context" where
  "rx_of_batch ubatches = (rx_of_status LLAMA_MEMORY_STATUS_SUCCESS)\<lparr>rx_ubatches := ubatches\<rparr>"

definition rm_init_update :: "memory_recurrent \<Rightarrow> recurrent_context \<times> memory_recurrent" where
  "rm_init_update m = (rx_of_status LLAMA_MEMORY_STATUS_NO_UPDATE, m)"

definition rm_init_batch :: "nat \<Rightarrow> bool \<Rightarrow> batch_allocr \<Rightarrow> memory_recurrent \<Rightarrow> (recurrent_context \<times> batch_allocr \<times> memory_recurrent) res" where
  "rm_init_batch n_ubatch embd_all balloc m =
    bind_res (bind_res (run_loop (split_all (if embd_all then (\<lambda>a. Inr (split_seq n_ubatch a))
          else split_equal n_ubatch True (if rm_n_rs_seq m > 0 then rm_n_rs_seq m + 1 else 0)) (split_reset balloc))) id) (\<lambda>(ubatches, balloc).
      if get_n_used balloc < get_n_tokens balloc then Inr (rx_of_status LLAMA_MEMORY_STATUS_FAILED_PREPARE, balloc, m)
      else bind_res (rm_prepare ubatches m) (\<lambda>(ok, m).
        Inr (if \<not> ok then rx_of_status LLAMA_MEMORY_STATUS_FAILED_PREPARE else rx_of_batch ubatches, balloc, m)))"

definition rx_next :: "recurrent_context \<Rightarrow> bool \<times> recurrent_context" where
  "rx_next x = (let x = x\<lparr>rx_i_next := rx_i_next x + 1\<rparr> in (\<not> rx_i_next x \<ge> length (rx_ubatches x), x))"

definition rx_apply :: "recurrent_context \<Rightarrow> memory_recurrent \<times> 'd \<Rightarrow> (bool \<times> recurrent_context \<times> memory_recurrent \<times> 'd) res" where
  "rx_apply x = (\<lambda>(m, d). if rx_ubatches x = [] then Inr (True, x, m, d)
     else bind_res (rm_find_slot (rx_ubatches x ! rx_i_next x) m) (\<lambda>(_, m). Inr (True, x, m, d)))"

definition rx_get_ubatch :: "recurrent_context \<Rightarrow> llama_ubatch" where
  "rx_get_ubatch x = rx_ubatches x ! rx_i_next x"

definition get_n_rs :: "recurrent_context \<Rightarrow> memory_recurrent \<Rightarrow> nat" where
  "get_n_rs x m = (if rx_is_full x then rm_size m else rm_n m)"

definition get_head :: "recurrent_context \<Rightarrow> memory_recurrent \<Rightarrow> nat" where
  "get_head x m = (if rx_is_full x then 0 else rm_head m)"

definition get_rs_z :: "recurrent_context \<Rightarrow> memory_recurrent \<Rightarrow> int" where
  "get_rs_z x m = (if rx_is_full x then 0 else rm_rs_z m)"

text \<open>The row a state is copied from; a pending rollback of the first sequence of the cell is used up.\<close>

definition s_copy :: "nat \<Rightarrow> memory_recurrent \<Rightarrow> int \<times> memory_recurrent" where
  "s_copy i m = (let cell_idx = i + rm_head m; c = rcell m cell_idx in
     if rm_n_rs_seq m = 0 then (mc_src0 c, m)
     else if mc_seq_id c = {} then (mc_src0 c, m)
     else let q = Min (mc_seq_id c) in
       if q \<ge> 0 \<and> nat q < length (rm_rs_idx m)
       then (to_i32 (int (rm_rs_idx m ! nat q * rm_size m)) + mc_src0 c, m\<lparr>rm_rs_idx := (rm_rs_idx m)[nat q := 0]\<rparr>)
       else (mc_src0 c, m))"

definition recurrent_memory :: "(memory_recurrent, 'd, recurrent_context) llama_memory_i" where
  "recurrent_memory = \<lparr>mem_init_batch = rm_init_batch, mem_init_full = rm_init_full, mem_init_update = rm_init_update,
     mem_get_can_shift = (\<lambda>_. True), mem_clear = rm_clear,
     mem_seq_rm = (\<lambda>s p0 p1 m. Inr (rm_seq_rm s p0 p1 m)), mem_seq_cp = (\<lambda>a b p0 p1 m. Inr (rm_seq_cp a b p0 p1 m)), mem_seq_keep = (\<lambda>s m. Inr (rm_seq_keep s m)),
     mem_seq_add = (\<lambda>s p0 p1 d m. Inr (rm_seq_add s p0 p1 d m)), mem_seq_div = (\<lambda>s p0 p1 d m. Inr (rm_seq_div s p0 p1 d m)),
     mem_seq_pos_min = (\<lambda>m s. Inr (rm_seq_pos_min m s)), mem_seq_pos_max = (\<lambda>m s. Inr (rm_seq_pos_max m s)),
     mem_seq_token_count = (\<lambda>m s. Inr (rm_seq_token_count m s)),
     ctx_next = rx_next, ctx_apply = rx_apply, ctx_get_ubatch = rx_get_ubatch, ctx_get_status = rx_status\<rparr>"

end
