(* ===== verification/Recurrent_Slot.thy ===== *)
theory Recurrent_Slot
  imports Recurrent
begin

section \<open>Placing a ubatch in the recurrent memory\<close>

text \<open>
  The cells are viewed as four functions: the cell \<open>T s\<close> of a sequence, the set \<open>Q i\<close>, the position \<open>P i\<close> and the source \<open>C i\<close> of a
  cell. The lemmas about the searches and the loops of \<open>find_slot\<close> are proved for these functions.
\<close>

subsection \<open>Views\<close>

definition rview :: "nat \<Rightarrow> (int \<Rightarrow> int) \<Rightarrow> (nat \<Rightarrow> int set) \<Rightarrow> (nat \<Rightarrow> int) \<Rightarrow> (nat \<Rightarrow> int) \<Rightarrow> memory_recurrent \<Rightarrow> bool" where
  "rview N T Q P C m \<longleftrightarrow> rm_size m = N \<and> length (rm_cells m) = N
     \<and> (\<forall>i < N. mc_tail (rcell m i) = T (int i) \<and> mc_seq_id (rcell m i) = Q i \<and> mc_pos (rcell m i) = P i \<and> mc_src (rcell m i) = C i)"

abbreviation seqs :: "nat \<Rightarrow> int set" where
  "seqs N \<equiv> {0..<int N}"

lemma rcell_upd: "rcell (upd_cell i f m) j = (if i = j \<and> i < length (rm_cells m) then f (rcell m i) else rcell m j)"
  by (cases "i < length (rm_cells m)") (auto simp: rcell_def upd_cell_def nth_list_update list_update_beyond)

lemma upd_cell_fields [simp]:
  "rm_size (upd_cell i f m) = rm_size m" "length (rm_cells (upd_cell i f m)) = length (rm_cells m)" "rm_head (upd_cell i f m) = rm_head m"
  "rm_used (upd_cell i f m) = rm_used m" "rm_n_rs_seq (upd_cell i f m) = rm_n_rs_seq m" "rm_rs_idx (upd_cell i f m) = rm_rs_idx m"
  "rm_n (upd_cell i f m) = rm_n m" "rm_rs_z (upd_cell i f m) = rm_rs_z m" "rm_n_seq_max (upd_cell i f m) = rm_n_seq_max m"
  by (simp_all add: upd_cell_def)

lemma rcell_fields [simp]:
  "rcell (m\<lparr>rm_head := h\<rparr>) = rcell m" "rcell (m\<lparr>rm_used := u\<rparr>) = rcell m" "rcell (m\<lparr>rm_rs_idx := r\<rparr>) = rcell m"
  "rcell (m\<lparr>rm_n := k\<rparr>) = rcell m" "rcell (m\<lparr>rm_rs_z := z\<rparr>) = rcell m" "rcell (dec_used m) = rcell m"
  by (simp_all add: rcell_def dec_used_def fun_eq_iff)

lemma dec_used_fields [simp]:
  "rm_size (dec_used m) = rm_size m" "rm_cells (dec_used m) = rm_cells m" "rm_head (dec_used m) = rm_head m" "rm_used (dec_used m) = dec_u32 (rm_used m)"
  "rm_rs_idx (dec_used m) = rm_rs_idx m" "rm_n_rs_seq (dec_used m) = rm_n_rs_seq m"
  by (simp_all add: dec_used_def)

lemma rview_fields [simp]:
  "rview N T Q P C (m\<lparr>rm_head := h\<rparr>) = rview N T Q P C m" "rview N T Q P C (m\<lparr>rm_used := u\<rparr>) = rview N T Q P C m"
  "rview N T Q P C (m\<lparr>rm_rs_idx := r\<rparr>) = rview N T Q P C m" "rview N T Q P C (m\<lparr>rm_n := k\<rparr>) = rview N T Q P C m"
  "rview N T Q P C (m\<lparr>rm_rs_z := z\<rparr>) = rview N T Q P C m" "rview N T Q P C (dec_used m) = rview N T Q P C m"
  by (simp_all add: rview_def)

lemma rview_size: "rview N T Q P C m \<Longrightarrow> rm_size m = N"
  by (simp add: rview_def)

lemma rview_nth:
  assumes "rview N T Q P C m" "i < N"
  shows "mc_tail (rcell m i) = T (int i)" "mc_seq_id (rcell m i) = Q i" "mc_pos (rcell m i) = P i" "mc_src (rcell m i) = C i"
  using assms by (simp_all add: rview_def)

lemma rview_tail: "rview N T Q P C m \<Longrightarrow> s \<in> seqs N \<Longrightarrow> mc_tail (rcell m (nat s)) = T s"
  by (simp add: rview_def nat_less_iff)

text \<open>Updates of a single field.\<close>

lemma rview_set_tail: "rview N T Q P C m \<Longrightarrow> s \<in> seqs N \<Longrightarrow> rview N (T(s := t)) Q P C (upd_cell (nat s) (\<lambda>c. c\<lparr>mc_tail := t\<rparr>) m)"
  by (auto simp: rview_def rcell_upd nat_less_iff)

lemma rview_set_seqs: "rview N T Q P C m \<Longrightarrow> i < N \<Longrightarrow> rview N T (Q(i := f (Q i))) P C (upd_cell i (\<lambda>c. c\<lparr>mc_seq_id := f (mc_seq_id c)\<rparr>) m)"
  by (auto simp: rview_def rcell_upd)

lemma rview_set_pos_src: "rview N T Q P C m \<Longrightarrow> i < N \<Longrightarrow> rview N T Q (P(i := p)) (C(i := c')) (upd_cell i (\<lambda>c. c\<lparr>mc_pos := p, mc_src := c'\<rparr>) m)"
  by (auto simp: rview_def rcell_upd)

subsection \<open>The links between sequences and cells\<close>

text \<open>\<open>K\<close> are the first sequences of the sets that already have a cell of their own; such a cell can still be empty.\<close>

definition links :: "nat \<Rightarrow> (int \<Rightarrow> int) \<Rightarrow> (nat \<Rightarrow> int set) \<Rightarrow> int set \<Rightarrow> bool" where
  "links N T Q K \<longleftrightarrow> (\<forall>i < N. Q i \<subseteq> seqs N) \<and> (\<forall>s \<in> seqs N. -1 \<le> T s \<and> T s < int N)
     \<and> (\<forall>i < N. \<forall>s \<in> Q i. T s = int i)
     \<and> (\<forall>s \<in> seqs N. 0 \<le> T s \<longrightarrow> s \<in> Q (nat (T s)) \<or> s \<in> K \<and> Q (nat (T s)) = {})
     \<and> (\<forall>s \<in> K. s \<in> seqs N \<and> 0 \<le> T s \<and> (\<forall>q \<in> seqs N. T q = T s \<longrightarrow> q = s))"

definition free_cell :: "nat \<Rightarrow> (int \<Rightarrow> int) \<Rightarrow> nat \<Rightarrow> bool" where
  "free_cell N T c \<longleftrightarrow> c < N \<and> (\<forall>q \<in> seqs N. T q \<noteq> int c)"

lemma linksD:
  assumes "links N T Q K"
  shows "i < N \<Longrightarrow> Q i \<subseteq> seqs N" "s \<in> seqs N \<Longrightarrow> -1 \<le> T s \<and> T s < int N" "i < N \<Longrightarrow> s \<in> Q i \<Longrightarrow> T s = int i"
    "s \<in> seqs N \<Longrightarrow> 0 \<le> T s \<Longrightarrow> s \<in> Q (nat (T s)) \<or> s \<in> K \<and> Q (nat (T s)) = {}"
    "s \<in> K \<Longrightarrow> s \<in> seqs N \<and> 0 \<le> T s" "s \<in> K \<Longrightarrow> q \<in> seqs N \<Longrightarrow> T q = T s \<Longrightarrow> q = s"
  using assms unfolding links_def by blast+

lemma free_empty: "links N T Q K \<Longrightarrow> free_cell N T c \<Longrightarrow> Q c = {}"
  unfolding free_cell_def links_def by blast

lemma links_own:
  assumes "links N T Q K" "s \<in> seqs N" "s \<notin> K" "0 \<le> T s" "Q (nat (T s)) = {s}"
  shows "links N T Q (insert s K)"
proof -
  have own: "q = s" if "q \<in> seqs N" "T q = T s" for q
  proof -
    have "q \<in> Q (nat (T s)) \<or> Q (nat (T s)) = {}" using linksD(4) [OF assms(1) that(1)] that(2) assms(4) by auto
    then show ?thesis using assms(5) by auto
  qed
  have 1: "\<forall>s \<in> seqs N. 0 \<le> T s \<longrightarrow> s \<in> Q (nat (T s)) \<or> s \<in> K \<and> Q (nat (T s)) = {}"
    and 2: "\<forall>s \<in> K. s \<in> seqs N \<and> 0 \<le> T s \<and> (\<forall>q \<in> seqs N. T q = T s \<longrightarrow> q = s)"
    and 3: "(\<forall>i < N. Q i \<subseteq> seqs N) \<and> (\<forall>s \<in> seqs N. -1 \<le> T s \<and> T s < int N) \<and> (\<forall>i < N. \<forall>s \<in> Q i. T s = int i)"
    using assms(1) unfolding links_def by blast+
  show ?thesis unfolding links_def using 1 2 3 own assms(2,4) by blast
qed

text \<open>A sequence without a cell of its own always finds one: there are as many cells as sequences, and the other
  sequences use fewer.\<close>

lemma ex_free_cell:
  assumes l: "links N T Q K" and s: "s \<in> seqs N" "s \<notin> K" and no: "\<not> (0 \<le> T s \<and> Q (nat (T s)) = {s})"
  shows "\<exists>c. free_cell N T c"
proof -
  let ?U = "(\<lambda>q. nat (T q)) ` (seqs N - {s})"
  have "card ?U \<le> card (seqs N - {s})" by (rule card_image_le) simp
  also have "\<dots> < N" using s(1) by (cases N) auto
  finally have "card ?U < card {..<N}" by simp
  then have "\<not> {..<N} \<subseteq> ?U" using card_mono [of ?U "{..<N}"] by auto
  then obtain c where c: "c < N" "c \<notin> ?U" by auto
  have "T q \<noteq> int c" if q: "q \<in> seqs N" for q
  proof (cases "q = s")
    case False
    then show ?thesis using c(2) q by force
  next
    case True
    show ?thesis
    proof
      assume t: "T q = int c"
      then have "s \<in> Q c" using linksD(4) [OF l s(1)] s(2) True by auto
      moreover have "Q c \<noteq> {s}" using no t True by auto
      ultimately obtain s' where s': "s' \<in> Q c" "s' \<noteq> s" by blast
      then have "T s' = int c" "s' \<in> seqs N" using linksD(1,3) [OF l c(1)] by blast+
      then show False using c(2) s'(2) by force
    qed
  qed
  then show ?thesis using c(1) by (auto simp: free_cell_def)
qed

text \<open>Taking a free cell: the sequence leaves a shared cell with its position and source, or starts a new state.\<close>

definition claimed :: "int \<Rightarrow> nat \<Rightarrow> (int \<Rightarrow> int) \<Rightarrow> (nat \<Rightarrow> int set) \<Rightarrow> nat \<Rightarrow> int set" where
  "claimed s c T Q = (if 0 \<le> T s then Q(nat (T s) := Q (nat (T s)) - {s}, c := {s}) else Q)"

lemma links_claim:
  assumes l: "links N T Q K" and s: "s \<in> seqs N" "s \<notin> K" and c: "free_cell N T c"
  shows "links N (T(s := int c)) (claimed s c T Q) (insert s K)"
proof -
  let ?T = "T(s := int c)" and ?Q = "claimed s c T Q"
  have Qc: "Q c = {}" by (rule free_empty [OF l c])
  have cN: "c < N" and cT: "\<And>q. q \<in> seqs N \<Longrightarrow> T q \<noteq> int c" using c by (auto simp: free_cell_def)
  have sub: "?Q i \<subseteq> insert s (Q i)" for i by (auto simp: claimed_def)
  have "?Q i \<subseteq> seqs N" if "i < N" for i using sub [of i] linksD(1) [OF l that] s(1) by blast
  moreover have "-1 \<le> ?T q \<and> ?T q < int N" if "q \<in> seqs N" for q using linksD(2) [OF l that] cN by auto
  moreover have "?T q = int i" if "i < N" "q \<in> ?Q i" for i q
  proof (cases "q = s")
    case True
    have "i = c"
    proof (rule ccontr)
      assume "i \<noteq> c"
      then have "s \<in> Q i" "\<not> (0 \<le> T s \<and> i = nat (T s))" using that(2) True by (auto simp: claimed_def split: if_splits)
      then show False using linksD(3) [OF l that(1)] by auto
    qed
    then show ?thesis using True by simp
  next
    case False
    then have "q \<in> Q i" using that(2) sub by blast
    then show ?thesis using linksD(3) [OF l that(1)] False by simp
  qed
  moreover have "q \<in> ?Q (nat (?T q)) \<or> q \<in> insert s K \<and> ?Q (nat (?T q)) = {}" if q: "q \<in> seqs N" "0 \<le> ?T q" for q
  proof (cases "q = s")
    case True
    then show ?thesis using Qc by (simp add: claimed_def)
  next
    case False
    then have t: "0 \<le> T q" "nat (T q) \<noteq> c" using q cT [OF q(1)] by auto
    have "q \<in> Q (nat (T q)) \<or> q \<in> K \<and> Q (nat (T q)) = {}" by (rule linksD(4) [OF l q(1) t(1)])
    then show ?thesis using False t(2) by (auto simp: claimed_def)
  qed
  moreover have "q \<in> seqs N \<and> 0 \<le> ?T q \<and> (\<forall>r \<in> seqs N. ?T r = ?T q \<longrightarrow> r = q)" if "q \<in> insert s K" for q
  proof (cases "q = s")
    case True
    then show ?thesis using s(1) cT by (auto split: if_splits)
  next
    case False
    then have "q \<in> K" using that by simp
    then have "q \<in> seqs N" "0 \<le> T q" "T q \<noteq> int c" "\<And>r. r \<in> seqs N \<Longrightarrow> T r = T q \<Longrightarrow> r = q" using linksD(5,6) [OF l] cT by blast+
    then show ?thesis using False by auto
  qed
  ultimately show ?thesis unfolding links_def by blast
qed

subsection \<open>The searches for an empty cell\<close>

lemma view_empty: "rview N T Q P C m \<Longrightarrow> i < N \<Longrightarrow> mc_is_empty (rcell m i) \<longleftrightarrow> Q i = {}"
  by (simp add: mc_is_empty_def rview_nth)

lemma wrap_mod: "0 < N \<Longrightarrow> c \<le> N \<Longrightarrow> (if c \<ge> N then c - N else c) = c mod N" for c N :: nat
  by (cases "c = N") simp_all

lemma first_empty_least:
  assumes v: "rview N T Q P C m" and "0 < N" "c \<le> N" "\<exists>p < k. Q ((c + p) mod N) = {}"
  shows "\<exists>p < k. first_empty k m c = (c + p) mod N \<and> Q ((c + p) mod N) = {} \<and> (\<forall>p' < p. Q ((c + p') mod N) \<noteq> {})"
  using assms(2-)
proof (induction k arbitrary: c)
  case (Suc k)
  have w: "(if c \<ge> rm_size m then c - rm_size m else c) = c mod N" unfolding rview_size [OF v] by (rule wrap_mod [OF Suc.prems(1,2)])
  have lt: "c mod N < N" using Suc.prems(1) by simp
  show ?case
  proof (cases "Q (c mod N) = {}")
    case True
    then have "first_empty (Suc k) m c = c mod N" using w view_empty [OF v lt] by (simp only: first_empty.simps Let_def if_True simp_thms)
    then show ?thesis using True by (intro exI [of _ 0]) simp
  next
    case False
    have eq: "(c mod N + 1 + p) mod N = (c + Suc p) mod N" for p using mod_add_left_eq [of c N "Suc p"] by simp
    obtain p where p: "p < Suc k" "Q ((c + p) mod N) = {}" using Suc.prems(3) by blast
    with False obtain p1 where "p = Suc p1" by (cases p) auto
    with p have "\<exists>p < k. Q ((c mod N + 1 + p) mod N) = {}" unfolding eq by auto
    then obtain p where p: "p < k" "first_empty k m (c mod N + 1) = (c + Suc p) mod N" "Q ((c + Suc p) mod N) = {}" "\<forall>p' < p. Q ((c + Suc p') mod N) \<noteq> {}"
      using Suc.IH [OF Suc.prems(1), of "c mod N + 1"] lt unfolding eq by auto
    have "first_empty (Suc k) m c = (c + Suc p) mod N" using w view_empty [OF v lt] False p(2) by (simp only: first_empty.simps Let_def if_False)
    moreover have "\<forall>p' < Suc p. Q ((c + p') mod N) \<noteq> {}" using p(4) False by (auto simp: less_Suc_eq_0_disj)
    ultimately show ?thesis using p(1,3) by blast
  qed
qed simp

lemma next_empty_least:
  assumes v: "rview N T Q P C m" and "c < N" "\<exists>p < k. Q ((c + Suc p) mod N) = {}"
  shows "\<exists>p < k. next_empty k m c = (c + Suc p) mod N \<and> Q ((c + Suc p) mod N) = {} \<and> (\<forall>p' < p. Q ((c + Suc p') mod N) \<noteq> {})"
  using assms(2-)
proof (induction k arbitrary: c)
  case (Suc k)
  let ?c = "(c + 1) mod N"
  have w: "(if c + 1 \<ge> rm_size m then c + 1 - rm_size m else c + 1) = ?c" unfolding rview_size [OF v] by (rule wrap_mod) (use Suc.prems(1) in simp_all)
  have lt: "?c < N" using Suc.prems(1) by simp
  show ?case
  proof (cases "Q ?c = {}")
    case True
    then have "next_empty (Suc k) m c = ?c" using w view_empty [OF v lt] by (simp only: next_empty.simps Let_def if_True simp_thms)
    then show ?thesis using True by (intro exI [of _ 0]) simp
  next
    case False
    have eq: "(?c + Suc p) mod N = (c + Suc (Suc p)) mod N" for p using mod_add_left_eq [of "c + 1" N "Suc p"] by simp
    obtain p where p: "p < Suc k" "Q ((c + Suc p) mod N) = {}" using Suc.prems(2) by blast
    with False obtain p1 where "p = Suc p1" by (cases p) auto
    with p have "\<exists>p < k. Q ((?c + Suc p) mod N) = {}" unfolding eq by auto
    then obtain p where p: "p < k" "next_empty k m ?c = (c + Suc (Suc p)) mod N" "Q ((c + Suc (Suc p)) mod N) = {}"
      "\<forall>p' < p. Q ((c + Suc (Suc p')) mod N) \<noteq> {}" using Suc.IH [OF lt] unfolding eq by auto
    have "next_empty (Suc k) m c = (c + Suc (Suc p)) mod N" using w view_empty [OF v lt] False p(2) by (simp only: next_empty.simps Let_def if_False)
    moreover have "\<forall>p' < Suc p. Q ((c + Suc p') mod N) \<noteq> {}" using p(4) False by (auto simp: less_Suc_eq_0_disj)
    ultimately show ?thesis using p(1,3) by blast
  qed
qed simp

text \<open>The search goes round the cells once: \<open>c\<close> is free, the cells passed so far are not, and an empty cell ahead is free.\<close>

definition scan :: "nat \<Rightarrow> (int \<Rightarrow> int) \<Rightarrow> (nat \<Rightarrow> int set) \<Rightarrow> nat \<Rightarrow> bool" where
  "scan N T Q c \<longleftrightarrow> ((\<exists>x. free_cell N T x) \<longrightarrow> free_cell N T c \<and> (\<exists>e p. p < N \<and> c = (e + p) mod N
     \<and> (\<forall>p' < p. \<not> free_cell N T ((e + p') mod N))
     \<and> (\<forall>p'. p \<le> p' \<and> p' < N \<and> Q ((e + p') mod N) = {} \<longrightarrow> free_cell N T ((e + p') mod N))))"

lemma ex_offset: "x < N \<Longrightarrow> \<exists>p < N. x = (e + p) mod N" for x N e :: nat
proof -
  assume x: "x < N"
  let ?p = "(x + N - e mod N) mod N"
  have "(e + ?p) mod N = (e mod N + (x + N - e mod N)) mod N" by (simp add: mod_simps)
  also have "e mod N + (x + N - e mod N) = x + N" using x mod_less_divisor [of N e] by linarith
  finally have "(e + ?p) mod N = x" using x by simp
  moreover have "?p < N" using x by simp
  ultimately show ?thesis by metis
qed

lemma offset_inj: "p < N \<Longrightarrow> p' < N \<Longrightarrow> (e + p) mod N = (e + p') mod N \<Longrightarrow> p = p'" for p p' N e :: nat
proof (induction p p' rule: linorder_wlog)
  case (le p p')
  then have "N dvd p' - p" using mod_eq_dvd_iff_nat [of "e + p" "e + p'" N] by simp
  then show ?case using le(1,3) by (metis diff_is_0_eq dvd_imp_le le_antisym less_imp_diff_less not_gr_zero not_le)
qed simp

lemma scan_first:
  assumes v: "rview N T Q P C m" and l: "links N T Q {}" and h: "rm_head m < N"
  shows "scan N T Q (first_empty N m (rm_head m))"
proof -
  let ?h = "rm_head m"
  have free: "free_cell N T x" if "x < N" "Q x = {}" for x
  proof -
    have "T q \<noteq> int x" if q: "q \<in> seqs N" for q
      using linksD(4) [OF l q] \<open>Q x = {}\<close> by auto
    then show ?thesis using that(1) by (simp add: free_cell_def)
  qed
  show ?thesis unfolding scan_def
  proof
    assume "\<exists>x. free_cell N T x"
    then obtain x where x: "free_cell N T x" by blast
    then have "Q x = {}" "x < N" using free_empty [OF l x] by (simp_all add: free_cell_def)
    then have "\<exists>p < N. Q ((?h + p) mod N) = {}" using ex_offset [of x N ?h] by metis
    moreover have N: "0 < N" "?h \<le> N" using h by simp_all
    ultimately obtain p where p: "p < N" "first_empty N m ?h = (?h + p) mod N" "Q ((?h + p) mod N) = {}" "\<forall>p' < p. Q ((?h + p') mod N) \<noteq> {}"
      using first_empty_least [OF v N] by blast
    have "\<forall>p' < p. \<not> free_cell N T ((?h + p') mod N)" using p(4) free_empty [OF l] by blast
    moreover have "\<forall>p'. p \<le> p' \<and> p' < N \<and> Q ((?h + p') mod N) = {} \<longrightarrow> free_cell N T ((?h + p') mod N)" using free h by simp
    ultimately show "free_cell N T (first_empty N m ?h) \<and> (\<exists>e p. p < N \<and> first_empty N m ?h = (e + p) mod N
      \<and> (\<forall>p' < p. \<not> free_cell N T ((e + p') mod N)) \<and> (\<forall>p'. p \<le> p' \<and> p' < N \<and> Q ((e + p') mod N) = {} \<longrightarrow> free_cell N T ((e + p') mod N)))"
      using p(1,2) free [OF mod_less_divisor [OF N(1)] p(3)] by (intro conjI exI [of _ ?h] exI [of _ p]) simp_all
  qed
qed

lemma free_claimed:
  assumes l: "links N T Q K" and s: "s \<in> seqs N" "s \<notin> K" and no: "\<not> (0 \<le> T s \<and> Q (nat (T s)) = {s})"
  shows "free_cell N (T(s := int c)) x \<longleftrightarrow> free_cell N T x \<and> x \<noteq> c"
proof
  assume f: "free_cell N (T(s := int c)) x"
  then have x: "x < N" "x \<noteq> c" "\<And>q. q \<in> seqs N \<Longrightarrow> q \<noteq> s \<Longrightarrow> T q \<noteq> int x" using s(1) by (auto simp: free_cell_def split: if_splits)
  have "T s \<noteq> int x"
  proof
    assume t: "T s = int x"
    then have "s \<in> Q x" "Q x \<noteq> {s}" using linksD(4) [OF l s(1)] s(2) no by auto
    then obtain s' where "s' \<in> Q x" "s' \<noteq> s" by blast
    then show False using linksD(1,3) [OF l x(1)] x(3) by blast
  qed
  then have "\<forall>q \<in> seqs N. T q \<noteq> int x" using x(3) by metis
  then show "free_cell N T x \<and> x \<noteq> c" using x(1,2) by (simp add: free_cell_def)
qed (use s(1) in \<open>auto simp: free_cell_def\<close>)

lemma claimed_empty:
  assumes l: "links N T Q K" and s: "s \<in> seqs N" "s \<notin> K" and no: "\<not> (0 \<le> T s \<and> Q (nat (T s)) = {s})" and e: "claimed s c T Q x = {}"
  shows "Q x = {}"
proof (rule ccontr)
  assume ne: "Q x \<noteq> {}"
  have t: "0 \<le> T s" "x = nat (T s)" "x \<noteq> c" "Q x - {s} = {}" using e ne by (auto simp: claimed_def split: if_splits)
  then have "s \<in> Q x" using linksD(4) [OF l s(1)] s(2) by auto
  then show False using t no by auto
qed

lemma scan_next:
  assumes v: "rview N (T(s := int c)) (claimed s c T Q) P C m" and l: "links N T Q K" and s: "s \<in> seqs N" "s \<notin> K"
    and no: "\<not> (0 \<le> T s \<and> Q (nat (T s)) = {s})" and sc: "scan N T Q c"
  shows "scan N (T(s := int c)) (claimed s c T Q) (next_empty N m c)"
proof -
  let ?T = "T(s := int c)" and ?Q = "claimed s c T Q"
  note fc = free_claimed [OF l s no]
  have cl: "?Q x = {} \<Longrightarrow> Q x = {}" for x by (rule claimed_empty [OF l s no])
  show ?thesis unfolding scan_def
  proof
    assume "\<exists>x. free_cell N ?T x"
    then obtain x where x: "free_cell N T x" "x \<noteq> c" "free_cell N ?T x" using fc by blast
    then obtain e p where c: "free_cell N T c" "p < N" "c = (e + p) mod N" "\<forall>p' < p. \<not> free_cell N T ((e + p') mod N)"
      "\<forall>p'. p \<le> p' \<and> p' < N \<and> Q ((e + p') mod N) = {} \<longrightarrow> free_cell N T ((e + p') mod N)" using sc unfolding scan_def by blast
    have N: "0 < N" using c(2) by simp
    obtain px where px: "px < N" "x = (e + px) mod N" using ex_offset [of x N e] x(1) by (auto simp: free_cell_def)
    have "p < px" using c(3,4) px x(1,2) by (metis linorder_neqE_nat)
    have eq: "(c + Suc o1) mod N = (e + (p + Suc o1)) mod N" for o1 unfolding c(3) by (metis add.assoc mod_add_left_eq)
    have Qx: "?Q x = {}" by (rule free_empty [OF links_claim [OF l s c(1)] x(3)])
    have "\<exists>o1 < N. ?Q ((c + Suc o1) mod N) = {}" unfolding eq using \<open>p < px\<close> px Qx by (intro exI [of _ "px - p - 1"]) simp
    then obtain o1 where o1: "o1 < N" "next_empty N m c = (c + Suc o1) mod N" "?Q ((c + Suc o1) mod N) = {}" "\<forall>o2 < o1. ?Q ((c + Suc o2) mod N) \<noteq> {}"
      using next_empty_least [OF v, of c N] c(1) by (auto simp: free_cell_def)
    let ?p = "p + Suc o1"
    have "o1 \<le> px - p - 1" using o1(4) \<open>p < px\<close> px Qx eq [of "px - p - 1"] by (metis Suc_diff_Suc add_diff_inverse_nat diff_Suc_1 le_less_linear less_imp_not_less diff_diff_left plus_1_eq_Suc)
    then have p1: "?p < N" "p \<le> ?p" using \<open>p < px\<close> px(1) by simp_all
    have ahead: "free_cell N ?T ((e + p') mod N)" if "p < p'" "p' < N" "?Q ((e + p') mod N) = {}" for p'
    proof -
      have "free_cell N T ((e + p') mod N)" using c(5) that cl by simp
      moreover have "(e + p') mod N \<noteq> c" using offset_inj [of p' N p e] that c(2,3) by auto
      ultimately show ?thesis using fc by simp
    qed
    have "\<not> free_cell N ?T ((e + p') mod N)" if "p' < ?p" for p'
    proof (cases "p' \<le> p")
      case True
      then show ?thesis using fc c(3,4) by (metis le_neq_implies_less)
    next
      case False
      then have "p' = p + Suc (p' - p - 1)" "p' - p - 1 < o1" using that by arith+
      then have "?Q ((e + p') mod N) \<noteq> {}" using o1(4) eq [of "p' - p - 1"] by metis
      then show ?thesis using free_empty [OF links_claim [OF l s c(1)]] by blast
    qed
    moreover have "free_cell N ?T (next_empty N m c)" using ahead [of ?p] p1 o1(2,3) eq by simp
    ultimately show "free_cell N ?T (next_empty N m c) \<and> (\<exists>e p. p < N \<and> next_empty N m c = (e + p) mod N \<and> (\<forall>p' < p. \<not> free_cell N ?T ((e + p') mod N))
      \<and> (\<forall>p'. p \<le> p' \<and> p' < N \<and> ?Q ((e + p') mod N) = {} \<longrightarrow> free_cell N ?T ((e + p') mod N)))"
      using p1 o1(2) eq ahead by (intro conjI exI [of _ e] exI [of _ ?p]) auto
  qed
qed

subsection \<open>A cell for every set\<close>

definition only_cells :: "memory_recurrent \<Rightarrow> memory_recurrent \<Rightarrow> bool" where
  "only_cells m m' \<longleftrightarrow> m' = m\<lparr>rm_cells := rm_cells m'\<rparr>"

lemma only_cells_refl [simp]: "only_cells m m" and only_cells_upd [simp]: "only_cells m (upd_cell i f m)"
  by (simp_all add: only_cells_def upd_cell_def)

lemma only_cells_trans: "only_cells a b \<Longrightarrow> only_cells b c \<Longrightarrow> only_cells a c"
  by (cases a; cases b; cases c) (simp add: only_cells_def)

text \<open>The position and the source that a sequence has in its cell, and what is known of the data in the cells;
  only in the range \<open>lo\<close> to \<open>hi\<close> a cell can have the source of another.\<close>

definition keeps :: "nat \<Rightarrow> (int \<Rightarrow> int) \<Rightarrow> (nat \<Rightarrow> int) \<Rightarrow> (nat \<Rightarrow> int) \<Rightarrow> (int \<Rightarrow> int) \<Rightarrow> (nat \<Rightarrow> int) \<Rightarrow> (nat \<Rightarrow> int) \<Rightarrow> int \<Rightarrow> bool" where
  "keeps N T0 P0 C0 T P C s \<longleftrightarrow> (0 \<le> T0 s \<longrightarrow> 0 \<le> T s \<and> P (nat (T s)) = P0 (nat (T0 s)) \<and> C (nat (T s)) = C0 (nat (T0 s)))"

definition cells_data :: "nat \<Rightarrow> (nat \<Rightarrow> int set) \<Rightarrow> (nat \<Rightarrow> int) \<Rightarrow> (nat \<Rightarrow> int) \<Rightarrow> int \<Rightarrow> int \<Rightarrow> bool" where
  "cells_data N Q P C lo hi \<longleftrightarrow> (\<forall>x < N. (Q x = {} \<longrightarrow> P x = -1) \<and> (Q x \<noteq> {} \<longrightarrow> 0 \<le> P x) \<and> -1 \<le> C x \<and> C x < int N
     \<and> (C x = -1 \<or> C x = int x \<or> lo \<le> int x \<and> int x \<le> hi))"

definition moved :: "int \<Rightarrow> nat \<Rightarrow> (int \<Rightarrow> int) \<Rightarrow> (nat \<Rightarrow> int) \<Rightarrow> nat \<Rightarrow> int" where
  "moved s c T D = (if 0 \<le> T s then D(c := D (nat (T s))) else D)"

lemma claim_cell_view:
  assumes v: "rview N T Q P C m" and l: "links N T Q K" and s: "s \<in> seqs N" "s \<notin> K"
    and no: "\<not> (0 \<le> T s \<and> Q (nat (T s)) = {s})" and c: "free_cell N T c"
  shows "\<exists>m'. claim_cell s c m = Inr m' \<and> rview N (T(s := int c)) (claimed s c T Q) (moved s c T P) (moved s c T C) m' \<and> only_cells m m'"
proof -
  have Qc: "Q c = {}" by (rule free_empty [OF l c])
  have cN: "c < N" using c by (simp add: free_cell_def)
  have e: "mc_is_empty (rcell m c)" using view_empty [OF v cN] Qc by simp
  have t: "mc_tail (rcell m (nat s)) = T s" by (rule rview_tail [OF v s(1)])
  show ?thesis
  proof (cases "0 \<le> T s")
    case False
    then have "claim_cell s c m = Inr (upd_cell (nat s) (\<lambda>x. x\<lparr>mc_tail := int c\<rparr>) m)" using t e by (simp add: claim_cell_def)
    then show ?thesis using rview_set_tail [OF v s(1), of "int c"] False by (simp add: claimed_def moved_def)
  next
    case True
    let ?t = "nat (T s)"
    have tN: "?t < N" using linksD(2) [OF l s(1)] True by (simp add: nat_less_iff)
    have sQ: "s \<in> Q ?t" using linksD(4) [OF l s(1) True] s(2) by blast
    then have ct: "?t \<noteq> c" using Qc by auto
    let ?m1 = "upd_cell c (\<lambda>x. x\<lparr>mc_pos := P ?t, mc_src := C ?t\<rparr>) m"
    let ?m2 = "upd_cell ?t (\<lambda>x. x\<lparr>mc_seq_id := mc_seq_id x - {s}\<rparr>) ?m1"
    let ?m3 = "upd_cell c (\<lambda>x. x\<lparr>mc_seq_id := insert s (mc_seq_id x)\<rparr>) ?m2"
    let ?m4 = "upd_cell (nat s) (\<lambda>x. x\<lparr>mc_tail := int c\<rparr>) ?m3"
    have v1: "rview N T Q (P(c := P ?t)) (C(c := C ?t)) ?m1" by (rule rview_set_pos_src [OF v cN])
    have v2: "rview N T (Q(?t := Q ?t - {s})) (P(c := P ?t)) (C(c := C ?t)) ?m2" by (rule rview_set_seqs [OF v1 tN, of "\<lambda>A. A - {s}"])
    have v3: "rview N T (Q(?t := Q ?t - {s}, c := {s})) (P(c := P ?t)) (C(c := C ?t)) ?m3"
      using rview_set_seqs [OF v2 cN, of "insert s"] Qc ct by simp
    have "rview N (T(s := int c)) (Q(?t := Q ?t - {s}, c := {s})) (P(c := P ?t)) (C(c := C ?t)) ?m4" by (rule rview_set_tail [OF v3 s(1)])
    moreover have "\<not> mc_is_empty (rcell ?m3 ?t)" using view_empty [OF v3 tN] sQ no True ct by auto
    then have "claim_cell s c m = Inr ?m4"
      using t e True rview_nth(3,4) [OF v tN] by (simp add: claim_cell_def Let_def)
    moreover have "only_cells m ?m4" by (meson only_cells_trans only_cells_upd)
    ultimately show ?thesis using True by (simp add: claimed_def moved_def)
  qed
qed

lemma keeps_claim:
  assumes "links N T Q K" "s \<in> seqs N" "free_cell N T c" "q \<in> seqs N" "keeps N T0 P0 C0 T P C q"
  shows "keeps N T0 P0 C0 (T(s := int c)) (moved s c T P) (moved s c T C) q"
proof (cases "q = s")
  case True
  then show ?thesis using assms(5) by (auto simp: keeps_def moved_def)
next
  case False
  then have "nat (T q) \<noteq> c \<or> \<not> 0 \<le> T q" using assms(3,4) by (auto simp: free_cell_def)
  then show ?thesis using assms(5) False by (auto simp: keeps_def moved_def)
qed

lemma cells_data_mono:
  assumes "cells_data N Q P C lo hi" "lo' \<le> lo" "hi \<le> hi'"
  shows "cells_data N Q P C lo' hi'"
  unfolding cells_data_def
proof (intro allI impI)
  fix x assume "x < N"
  then have "(Q x = {} \<longrightarrow> P x = -1) \<and> (Q x \<noteq> {} \<longrightarrow> 0 \<le> P x) \<and> -1 \<le> C x \<and> C x < int N \<and> (C x = -1 \<or> C x = int x \<or> lo \<le> int x \<and> int x \<le> hi)"
    using assms(1) by (simp add: cells_data_def)
  then show "(Q x = {} \<longrightarrow> P x = -1) \<and> (Q x \<noteq> {} \<longrightarrow> 0 \<le> P x) \<and> -1 \<le> C x \<and> C x < int N \<and> (C x = -1 \<or> C x = int x \<or> lo' \<le> int x \<and> int x \<le> hi')"
    using assms(2,3) by auto
qed

lemma cells_data_claim:
  assumes l: "links N T Q K" and s: "s \<in> seqs N" "s \<notin> K" and no: "\<not> (0 \<le> T s \<and> Q (nat (T s)) = {s})" and c: "free_cell N T c"
    and d: "cells_data N Q P C lo hi" and r: "lo' \<le> lo" "hi \<le> hi'" "lo' \<le> int c" "int c \<le> hi'"
  shows "cells_data N (claimed s c T Q) (moved s c T P) (moved s c T C) lo' hi'"
proof (cases "0 \<le> T s")
  case False
  then show ?thesis using cells_data_mono [OF d r(1,2)] by (simp add: claimed_def moved_def)
next
  case True
  let ?t = "nat (T s)"
  have tN: "?t < N" using linksD(2) [OF l s(1)] True by (simp add: nat_less_iff)
  have sQ: "s \<in> Q ?t" using linksD(4) [OF l s(1) True] s(2) by blast
  then have ne: "Q ?t - {s} \<noteq> {}" "?t \<noteq> c" using no True free_empty [OF l c] by auto
  have dt: "0 \<le> P ?t" "-1 \<le> C ?t" "C ?t < int N" using d tN sQ by (auto simp: cells_data_def)
  show ?thesis unfolding cells_data_def
  proof (intro allI impI)
    fix x assume x: "x < N"
    have dx: "(Q x = {} \<longrightarrow> P x = -1) \<and> (Q x \<noteq> {} \<longrightarrow> 0 \<le> P x) \<and> -1 \<le> C x \<and> C x < int N \<and> (C x = -1 \<or> C x = int x \<or> lo \<le> int x \<and> int x \<le> hi)"
      using d x by (simp add: cells_data_def)
    show "(claimed s c T Q x = {} \<longrightarrow> moved s c T P x = -1) \<and> (claimed s c T Q x \<noteq> {} \<longrightarrow> 0 \<le> moved s c T P x) \<and> -1 \<le> moved s c T C x
      \<and> moved s c T C x < int N \<and> (moved s c T C x = -1 \<or> moved s c T C x = int x \<or> lo' \<le> int x \<and> int x \<le> hi')"
    proof (cases "x = c")
      case True
      then show ?thesis using \<open>0 \<le> T s\<close> dt r by (simp add: claimed_def moved_def)
    next
      case False
      then have m: "moved s c T P x = P x" "moved s c T C x = C x" "claimed s c T Q x = {} \<longleftrightarrow> Q x = {}"
        using True ne sQ by (auto simp: claimed_def moved_def)
      show ?thesis unfolding m using dx r by auto
    qed
  qed
qed

text \<open>What a sequence without a state starts from: nothing, or the row of a cell that was free.\<close>

definition fresh_src :: "nat \<Rightarrow> (int \<Rightarrow> int) \<Rightarrow> int \<Rightarrow> bool" where
  "fresh_src N T0 c \<longleftrightarrow> c = -1 \<or> (\<exists>x. c = int x \<and> free_cell N T0 x)"

definition fresh :: "nat \<Rightarrow> (int \<Rightarrow> int) \<Rightarrow> (int \<Rightarrow> int) \<Rightarrow> (nat \<Rightarrow> int) \<Rightarrow> bool" where
  "fresh N T0 T C \<longleftrightarrow> (\<forall>q \<in> seqs N. T0 q < 0 \<and> 0 \<le> T q \<longrightarrow> fresh_src N T0 (C (nat (T q))))"

definition untouched :: "nat \<Rightarrow> (int \<Rightarrow> int) \<Rightarrow> (int \<Rightarrow> int) \<Rightarrow> (nat \<Rightarrow> int) \<Rightarrow> bool" where
  "untouched N T0 T C \<longleftrightarrow> (\<forall>x. free_cell N T x \<longrightarrow> free_cell N T0 x \<and> (C x = -1 \<or> C x = int x))"

lemma untouched_claim:
  assumes "links N T Q K" "s \<in> seqs N" "s \<notin> K" "\<not> (0 \<le> T s \<and> Q (nat (T s)) = {s})" "untouched N T0 T C"
  shows "untouched N T0 (T(s := int c)) (moved s c T C)"
  using assms(5) free_claimed [OF assms(1-4)] by (simp add: untouched_def moved_def)

lemma fresh_claim:
  assumes u: "untouched N T0 T C" and f: "fresh N T0 T C" and c: "free_cell N T c" and s: "T s = T0 s"
  shows "fresh N T0 (T(s := int c)) (moved s c T C)"
  unfolding fresh_def
proof (intro ballI impI)
  fix q assume q: "q \<in> seqs N" "T0 q < 0 \<and> 0 \<le> (T(s := int c)) q"
  show "fresh_src N T0 (moved s c T C (nat ((T(s := int c)) q)))"
  proof (cases "q = s")
    case True
    then have "moved s c T C = C" using q(2) s by (simp add: moved_def)
    moreover have "fresh_src N T0 (C c)" using u c unfolding untouched_def fresh_src_def by blast
    ultimately show ?thesis using True by simp
  next
    case False
    then have "fresh_src N T0 (C (nat (T q)))" "nat (T q) \<noteq> c" using f q c unfolding fresh_def free_cell_def by auto
    then show ?thesis using False by (simp add: moved_def)
  qed
qed

definition first_seq :: "llama_ubatch \<Rightarrow> nat \<Rightarrow> llama_seq_id" where
  "first_seq ub s = ub_seq_id ub ! (s * ub_n_seq_tokens ub) ! 0"

text \<open>The state of the second loop after \<open>k\<close> sets.\<close>

definition usable_inv :: "nat \<Rightarrow> llama_ubatch \<Rightarrow> (int \<Rightarrow> int) \<Rightarrow> (nat \<Rightarrow> int) \<Rightarrow> (nat \<Rightarrow> int) \<Rightarrow> memory_recurrent \<Rightarrow> nat \<Rightarrow> memory_recurrent \<times> slot_range \<Rightarrow> bool" where
  "usable_inv N ub T0 P0 C0 m0 k = (\<lambda>(m, r). \<exists>T Q P C. rview N T Q P C m \<and> only_cells m0 m \<and> links N T Q (first_seq ub ` {..<k})
     \<and> (k < ub_n_seqs ub \<longrightarrow> scan N T Q (sr_next r)) \<and> (\<forall>s \<in> seqs N. keeps N T0 P0 C0 T P C s)
     \<and> (\<forall>s \<in> seqs N - first_seq ub ` {..<k}. T s = T0 s) \<and> cells_data N Q P C (sr_min r) (sr_max r) \<and> untouched N T0 T C \<and> fresh N T0 T C
     \<and> (\<forall>j < k. sr_min r \<le> T (first_seq ub j) \<and> T (first_seq ub j) \<le> sr_max r)
     \<and> (if k = 0 then sr_min r = int N - 1 \<and> sr_max r = 0 else 0 \<le> sr_min r \<and> sr_max r < int N))"

lemma usable_invI:
  assumes "rview N T Q P C m" "only_cells m0 m" "links N T Q (first_seq ub ` {..<k})" "k < ub_n_seqs ub \<Longrightarrow> scan N T Q (sr_next r)"
    "\<forall>s \<in> seqs N. keeps N T0 P0 C0 T P C s" "\<forall>s \<in> seqs N - first_seq ub ` {..<k}. T s = T0 s" "cells_data N Q P C (sr_min r) (sr_max r)"
    "\<forall>j < k. sr_min r \<le> T (first_seq ub j) \<and> T (first_seq ub j) \<le> sr_max r"
    "if k = 0 then sr_min r = int N - 1 \<and> sr_max r = 0 else 0 \<le> sr_min r \<and> sr_max r < int N" "untouched N T0 T C" "fresh N T0 T C"
  shows "usable_inv N ub T0 P0 C0 m0 k (m, r)"
  unfolding usable_inv_def using assms by blast

lemma usable_step:
  assumes inv: "usable_inv N ub T0 P0 C0 m0 k (m, r)" and k: "k < ub_n_seqs ub"
    and f: "first_seq ub k \<in> seqs N" "first_seq ub k \<notin> first_seq ub ` {..<k}"
  shows "\<exists>x. slot_usable_step ub k (m, r) = Inr x \<and> usable_inv N ub T0 P0 C0 m0 (Suc k) x"
proof -
  let ?K = "first_seq ub ` {..<k}" and ?q = "first_seq ub k"
  obtain T Q P C where v: "rview N T Q P C m" and oc: "only_cells m0 m" and l: "links N T Q ?K" and sc: "scan N T Q (sr_next r)"
    and kp: "\<forall>s \<in> seqs N. keeps N T0 P0 C0 T P C s" and same: "\<forall>s \<in> seqs N - ?K. T s = T0 s" and d: "cells_data N Q P C (sr_min r) (sr_max r)"
    and rg: "\<forall>j < k. sr_min r \<le> T (first_seq ub j) \<and> T (first_seq ub j) \<le> sr_max r"
    and bd: "if k = 0 then sr_min r = int N - 1 \<and> sr_max r = 0 else 0 \<le> sr_min r \<and> sr_max r < int N"
    and un: "untouched N T0 T C" and fr: "fresh N T0 T C"
    using inv k unfolding usable_inv_def by auto
  have t: "mc_tail (rcell m (nat ?q)) = T ?q" by (rule rview_tail [OF v f(1)])
  have K': "first_seq ub ` {..<Suc k} = insert ?q ?K" by (auto simp: lessThan_Suc)
  have tQ: "?q \<in> Q (nat (T ?q))" "nat (T ?q) < N" if "0 \<le> T ?q"
    using linksD(4) [OF l f(1) that] f(2) linksD(2) [OF l f(1)] that by auto
  have has: "mc_has_seq_id (rcell m (nat (T ?q))) ?q" "card (mc_seq_id (rcell m (nat (T ?q)))) = 1 \<longleftrightarrow> Q (nat (T ?q)) = {?q}" if "0 \<le> T ?q"
    using tQ [OF that] rview_nth(2) [OF v, of "nat (T ?q)"] by (auto simp: mc_has_seq_id_def card_1_singleton_iff)
  define upd where "upd t r = r\<lparr>sr_min := (if sr_min r > t then t else sr_min r), sr_max := (if sr_max r < t then t else sr_max r)\<rparr>" for t and r :: slot_range
  have upd: "sr_min (upd t r) \<le> t" "t \<le> sr_max (upd t r)" "sr_min (upd t r) \<le> sr_min r" "sr_max r \<le> sr_max (upd t r)" "sr_next (upd t r) = sr_next r" for t r
    by (simp_all add: upd_def)
  have bd': "0 \<le> sr_min (upd t r) \<and> sr_max (upd t r) < int N" if "0 \<le> t" "t < int N" for t
    using bd that by (auto simp: upd_def split: if_splits)
  show ?thesis
  proof (cases "0 \<le> T ?q \<and> Q (nat (T ?q)) = {?q}")
    case True
    then have "slot_usable_step ub k (m, r) = Inr (m, upd (T ?q) r)"
      using t has by (simp add: slot_usable_step_def first_seq_def [symmetric] Let_def upd_def)
    moreover have "usable_inv N ub T0 P0 C0 m0 (Suc k) (m, upd (T ?q) r)"
    proof (rule usable_invI [OF v oc])
      show "links N T Q (first_seq ub ` {..<Suc k})" unfolding K' using links_own [OF l f] True by blast
      show "cells_data N Q P C (sr_min (upd (T ?q) r)) (sr_max (upd (T ?q) r))" by (rule cells_data_mono [OF d upd(3,4)])
      show "\<forall>j < Suc k. sr_min (upd (T ?q) r) \<le> T (first_seq ub j) \<and> T (first_seq ub j) \<le> sr_max (upd (T ?q) r)"
        using rg upd(1,2) [of "T ?q" r] upd(3) [of "T ?q" r] upd(4) [of r "T ?q"] by (fastforce simp: less_Suc_eq)
      show "\<forall>s \<in> seqs N - first_seq ub ` {..<Suc k}. T s = T0 s" unfolding K' using same by blast
    qed (use kp un fr sc upd(5) bd' [of "T ?q"] True linksD(2) [OF l f(1)] in simp_all)
    ultimately show ?thesis by blast
  next
    case False
    let ?c = "sr_next r"
    have c: "free_cell N T ?c" using ex_free_cell [OF l f False] sc unfolding scan_def by blast
    obtain m' where m': "claim_cell ?q ?c m = Inr m'" "rview N (T(?q := int ?c)) (claimed ?q ?c T Q) (moved ?q ?c T P) (moved ?q ?c T C) m'" "only_cells m m'"
      using claim_cell_view [OF v l f False c] by blast
    let ?r = "if k + 1 < ub_n_seqs ub then r\<lparr>sr_next := next_empty N m' ?c\<rparr> else r"
    have t': "mc_tail (rcell m' (nat ?q)) = int ?c" using rview_tail [OF m'(2) f(1)] by simp
    have rr: "sr_min ?r = sr_min r" "sr_max ?r = sr_max r" by simp_all
    have "slot_usable_step ub k (m, r) = Inr (m', upd (int ?c) ?r)"
      using t t' has False m'(1) rview_size [OF m'(2)] by (auto simp: slot_usable_step_def first_seq_def [symmetric] Let_def upd_def)
    moreover have "usable_inv N ub T0 P0 C0 m0 (Suc k) (m', upd (int ?c) ?r)"
    proof -
      let ?T = "T(?q := int ?c)" and ?Q = "claimed ?q ?c T Q" and ?P = "moved ?q ?c T P" and ?C = "moved ?q ?c T C"
      have cN: "?c < N" using c by (simp add: free_cell_def)
      have "links N ?T ?Q (insert ?q ?K)" by (rule links_claim [OF l f c])
      moreover have "Suc k < ub_n_seqs ub \<longrightarrow> scan N ?T ?Q (sr_next (upd (int ?c) ?r))" using scan_next [OF m'(2) l f False sc] upd(5) by simp
      moreover have "\<forall>s \<in> seqs N. keeps N T0 P0 C0 ?T ?P ?C s" using keeps_claim [OF l f(1) c] kp by blast
      moreover have "\<forall>s \<in> seqs N - insert ?q ?K. ?T s = T0 s" using same by auto
      moreover have "cells_data N ?Q ?P ?C (sr_min (upd (int ?c) ?r)) (sr_max (upd (int ?c) ?r))"
        by (rule cells_data_claim [OF l f False c d]) (use upd(1-3,5) [of "int ?c" ?r] upd(4) [of ?r "int ?c"] rr in simp_all)
      moreover have "\<forall>j < Suc k. sr_min (upd (int ?c) ?r) \<le> ?T (first_seq ub j) \<and> ?T (first_seq ub j) \<le> sr_max (upd (int ?c) ?r)"
        using rg upd(1-3,5) [of "int ?c" ?r] upd(4) [of ?r "int ?c"] rr f(2) by (auto simp: less_Suc_eq intro: order_trans)
      moreover have "0 \<le> sr_min (upd (int ?c) ?r) \<and> sr_max (upd (int ?c) ?r) < int N" using bd' [of "int ?c"] cN by (auto simp: upd_def split: if_splits)
      moreover have "untouched N T0 ?T ?C" by (rule untouched_claim [OF l f False un])
      moreover have "fresh N T0 ?T ?C" by (rule fresh_claim [OF un fr c]) (use same f in blast)
      ultimately show ?thesis using usable_invI [OF m'(2) only_cells_trans [OF oc m'(3)], of ub "Suc k" "upd (int ?c) ?r" T0 P0 C0] unfolding K' by simp
    qed
    ultimately show ?thesis by blast
  qed
qed

lemma usable_loop:
  assumes "usable_inv N ub T0 P0 C0 m0 0 (m, r)" "\<forall>k < ub_n_seqs ub. first_seq ub k \<in> seqs N" "inj_on (first_seq ub) {..<ub_n_seqs ub}" "k \<le> ub_n_seqs ub"
  shows "\<exists>x. fold_res (slot_usable_step ub) [0..<k] (m, r) = Inr x \<and> usable_inv N ub T0 P0 C0 m0 k x"
  using assms(4)
proof (induction k)
  case 0
  then show ?case using assms(1) by simp
next
  case (Suc k)
  then obtain m' r' where IH: "fold_res (slot_usable_step ub) [0..<k] (m, r) = Inr (m', r')" "usable_inv N ub T0 P0 C0 m0 k (m', r')" by auto
  have f: "first_seq ub k \<in> seqs N" "first_seq ub k \<notin> first_seq ub ` {..<k}"
    using assms(2) Suc.prems inj_onD [OF assms(3), of k] by (simp, fastforce)
  show ?case using usable_step [OF IH(2) _ f] Suc.prems IH(1) by (auto simp: fold_res_append)
qed

subsection \<open>Moving the cells to the front\<close>

definition flip :: "nat \<Rightarrow> nat \<Rightarrow> nat \<Rightarrow> nat" where
  "flip d s x = (if x = s then d else if x = d then s else x)"

lemma flip_flip [simp]: "flip d s (flip d s x) = x"
  by (simp add: flip_def)

lemma flip_less: "d < N \<Longrightarrow> s < N \<Longrightarrow> x < N \<Longrightarrow> flip d s x < N"
  by (simp add: flip_def)

lemma swap_tail_flip: "swap_tail (int s) (int d) t = (if 0 \<le> t then int (flip d s (nat t)) else t)"
  by (auto simp: swap_tail_def flip_def)

lemma fold_upd_all:
  "k \<le> length (rm_cells m) \<Longrightarrow> fold (\<lambda>j. upd_cell j f) [0..<k] m = m\<lparr>rm_cells := map f (take k (rm_cells m)) @ drop k (rm_cells m)\<rparr>"
proof -
  assume k: "k \<le> length (rm_cells m)"
  have "fold (\<lambda>j. upd_cell j f) js m = m\<lparr>rm_cells := fold (\<lambda>j v. v[j := f (v ! j)]) js (rm_cells m)\<rparr>" for js
    by (induction js arbitrary: m) (simp_all add: upd_cell_def)
  then show ?thesis using fold_update_each [OF k, of f] by simp
qed

lemma swap_cells_view:
  assumes v: "rview N T Q P C m" and d: "d < N" "s < N"
  shows "rview N (\<lambda>q. swap_tail (int s) (int d) (T q)) (\<lambda>x. Q (flip d s x)) (\<lambda>x. P (flip d s x)) (\<lambda>x. C (flip d s x)) (swap_cells d s m)"
    "only_cells m (swap_cells d s m)"
proof -
  let ?a = "rcell m d" and ?b = "rcell m s"
  let ?m1 = "upd_cell d (\<lambda>c. c\<lparr>mc_pos := mc_pos ?b, mc_src := mc_src ?b, mc_seq_id := mc_seq_id ?b\<rparr>) m"
  let ?m2 = "upd_cell s (\<lambda>c. c\<lparr>mc_pos := mc_pos ?a, mc_src := mc_src ?a, mc_seq_id := mc_seq_id ?a\<rparr>) ?m1"
  let ?f = "\<lambda>c. c\<lparr>mc_tail := swap_tail (int s) (int d) (mc_tail c)\<rparr>"
  have sz: "rm_size m = N" "length (rm_cells m) = N" using v by (simp_all add: rview_def)
  have eq: "swap_cells d s m = ?m2\<lparr>rm_cells := map ?f (rm_cells ?m2)\<rparr>"
    using fold_upd_all [of N ?m2 ?f] sz by (simp add: swap_cells_def Let_def)
  have "rcell (swap_cells d s m) x = ?f (rcell ?m2 x)" if "x < N" for x using that sz by (simp add: eq rcell_def)
  then show "rview N (\<lambda>q. swap_tail (int s) (int d) (T q)) (\<lambda>x. Q (flip d s x)) (\<lambda>x. P (flip d s x)) (\<lambda>x. C (flip d s x)) (swap_cells d s m)"
    using v d sz unfolding rview_def by (simp add: eq rcell_upd flip_def)
  have "only_cells m ?m2" by (meson only_cells_trans only_cells_upd)
  then show "only_cells m (swap_cells d s m)" unfolding eq only_cells_def by (simp add: upd_cell_def)
qed

lemma links_flip:
  assumes l: "links N T Q K" and d: "d < N" "s < N"
  shows "links N (\<lambda>q. swap_tail (int s) (int d) (T q)) (\<lambda>x. Q (flip d s x)) K"
proof -
  let ?T = "\<lambda>q. swap_tail (int s) (int d) (T q)"
  have nonneg: "0 \<le> ?T q \<longleftrightarrow> 0 \<le> T q" for q by (simp add: swap_tail_flip)
  have nat: "nat (?T q) = flip d s (nat (T q))" if "0 \<le> T q" for q using that by (simp add: swap_tail_flip)
  have inj: "?T q = ?T r \<Longrightarrow> T q = T r" for q r by (auto simp: swap_tail_def split: if_splits)
  have "-1 \<le> ?T q \<and> ?T q < int N" if "q \<in> seqs N" for q using linksD(2) [OF l that] d by (auto simp: swap_tail_def)
  moreover have "?T q = int i" if "i < N" "q \<in> Q (flip d s i)" for i q
    using linksD(3) [OF l flip_less [OF d that(1)] that(2)] by (simp add: swap_tail_flip)
  moreover have "q \<in> Q (flip d s (nat (?T q))) \<or> q \<in> K \<and> Q (flip d s (nat (?T q))) = {}" if "q \<in> seqs N" "0 \<le> ?T q" for q
    using linksD(4) [OF l that(1)] that(2) nonneg nat by simp
  moreover have "Q (flip d s i) \<subseteq> seqs N" if "i < N" for i using linksD(1) [OF l flip_less [OF d that]] .
  moreover have "q \<in> seqs N \<and> 0 \<le> ?T q \<and> (\<forall>r \<in> seqs N. ?T r = ?T q \<longrightarrow> r = q)" if "q \<in> K" for q
    using linksD(5,6) [OF l that] nonneg inj by blast
  ultimately show ?thesis unfolding links_def by blast
qed

lemma keeps_flip:
  "keeps N T0 P0 C0 T P C q \<Longrightarrow> keeps N T0 P0 C0 (\<lambda>q. swap_tail (int s) (int d) (T q)) (\<lambda>x. P (flip d s x)) (\<lambda>x. C (flip d s x)) q"
  by (simp add: keeps_def swap_tail_flip)

lemma fresh_flip: "fresh N T0 T C \<Longrightarrow> fresh N T0 (\<lambda>q. swap_tail (int s) (int d) (T q)) (\<lambda>x. C (flip d s x))"
  by (simp add: fresh_def swap_tail_flip)

lemma cells_data_flip:
  assumes "cells_data N Q P C lo hi" "d < N" "s < N" "lo \<le> int d" "int d \<le> hi" "lo \<le> int s" "int s \<le> hi"
  shows "cells_data N (\<lambda>x. Q (flip d s x)) (\<lambda>x. P (flip d s x)) (\<lambda>x. C (flip d s x)) lo hi"
  unfolding cells_data_def
proof (intro allI impI)
  fix x assume x: "x < N"
  let ?y = "flip d s x"
  have "(Q ?y = {} \<longrightarrow> P ?y = -1) \<and> (Q ?y \<noteq> {} \<longrightarrow> 0 \<le> P ?y) \<and> -1 \<le> C ?y \<and> C ?y < int N \<and> (C ?y = -1 \<or> C ?y = int ?y \<or> lo \<le> int ?y \<and> int ?y \<le> hi)"
    using assms(1) flip_less [OF assms(2,3) x] unfolding cells_data_def by blast
  moreover have "?y = x \<or> lo \<le> int x \<and> int x \<le> hi" using assms(4-7) by (auto simp: flip_def)
  ultimately show "(Q ?y = {} \<longrightarrow> P ?y = -1) \<and> (Q ?y \<noteq> {} \<longrightarrow> 0 \<le> P ?y) \<and> -1 \<le> C ?y \<and> C ?y < int N \<and> (C ?y = -1 \<or> C ?y = int x \<or> lo \<le> int x \<and> int x \<le> hi)"
    by auto
qed

end
