(* ===== verification/Recurrent_Place.thy ===== *)
theory Recurrent_Place
  imports Recurrent_Slot
begin

section \<open>\<open>find_slot\<close> of the recurrent memory\<close>

text \<open>
  The loops of \<open>find_slot\<close> put together: it never fails an assertion, every set of the ubatch gets the next cell of a
  contiguous range, and all other sequences keep their state.
\<close>

subsection \<open>The third loop\<close>

text \<open>The state after \<open>j\<close> sets have been moved: \<open>n\<close> sets in all, in the range \<open>lo\<close> to \<open>hi\<close>.\<close>

definition gather_inv :: "nat \<Rightarrow> llama_ubatch \<Rightarrow> (int \<Rightarrow> int) \<Rightarrow> (nat \<Rightarrow> int) \<Rightarrow> (nat \<Rightarrow> int) \<Rightarrow> memory_recurrent \<Rightarrow> nat \<Rightarrow> nat \<Rightarrow> nat \<Rightarrow> memory_recurrent \<Rightarrow> bool" where
  "gather_inv N ub T0 P0 C0 m0 lo hi j m \<longleftrightarrow> (\<exists>T Q P C. rview N T Q P C m \<and> only_cells m0 m \<and> links N T Q (first_seq ub ` {..<ub_n_seqs ub})
     \<and> (\<forall>s \<in> seqs N. keeps N T0 P0 C0 T P C s) \<and> (\<forall>s \<in> seqs N - first_seq ub ` {..<ub_n_seqs ub}. 0 \<le> T s \<longleftrightarrow> 0 \<le> T0 s)
     \<and> cells_data N Q P C (int lo) (int hi) \<and> (\<forall>k < ub_n_seqs ub. int lo \<le> T (first_seq ub k) \<and> T (first_seq ub k) \<le> int hi)
     \<and> fresh N T0 T C \<and> (\<forall>k < j. T (first_seq ub k) = int (lo + k)))"

lemma range_room:
  assumes "inj_on g {..<n}" "\<forall>k < n. int lo \<le> g k \<and> g k \<le> int hi" "k < n"
  shows "lo + k \<le> hi"
proof -
  have "card (g ` {..<n}) \<le> card {int lo..int hi}" by (rule card_mono) (use assms(2) in auto)
  then have "n \<le> nat (int hi - int lo + 1)" using card_image [OF assms(1)] by simp
  then show ?thesis using assms(3) by linarith
qed

lemma gather_step:
  assumes inv: "gather_inv N ub T0 P0 C0 m0 lo hi j m" and j: "j < ub_n_seqs ub" and hi: "hi < N" and inj: "inj_on (first_seq ub) {..<ub_n_seqs ub}"
  shows "gather_inv N ub T0 P0 C0 m0 lo hi (Suc j) (slot_gather_step ub lo j m)"
proof -
  let ?f = "first_seq ub" and ?n = "ub_n_seqs ub"
  obtain T Q P C where v: "rview N T Q P C m" and oc: "only_cells m0 m" and l: "links N T Q (?f ` {..<?n})"
    and kp: "\<forall>s \<in> seqs N. keeps N T0 P0 C0 T P C s" and oth: "\<forall>s \<in> seqs N - ?f ` {..<?n}. 0 \<le> T s \<longleftrightarrow> 0 \<le> T0 s"
    and d: "cells_data N Q P C (int lo) (int hi)" and rg: "\<forall>k < ?n. int lo \<le> T (?f k) \<and> T (?f k) \<le> int hi" and dn: "\<forall>k < j. T (?f k) = int (lo + k)"
    and fr: "fresh N T0 T C" using inv unfolding gather_inv_def by blast
  have fN: "?f k \<in> seqs N" if "k < ?n" for k using linksD(5) [OF l] that by blast
  have own: "k = k'" if "k < ?n" "k' < ?n" "T (?f k) = T (?f k')" for k k'
  proof -
    have "?f k = ?f k'" by (rule linksD(6) [OF l _ fN [OF that(1)] that(3)]) (use that(2) in auto)
    then show ?thesis using inj_onD [OF inj] that(1,2) by blast
  qed
  then have "inj_on (\<lambda>k. T (?f k)) {..<?n}" by (auto simp: inj_on_def)
  then have le: "lo + j \<le> hi" using range_room [of "\<lambda>k. T (?f k)" ?n lo hi j] rg j by blast
  define s where "s = nat (T (?f j))"
  have s: "int lo \<le> int s" "int s \<le> int hi" "T (?f j) = int s" using rg j by (auto simp: s_def)
  have tl: "mc_tail (rcell m (nat (?f j))) = int s" using rview_tail [OF v fN [OF j]] s(3) by simp
  show ?thesis
  proof (cases "j + lo = s")
    case True
    then have "slot_gather_step ub lo j m = m" using tl by (simp add: slot_gather_step_def first_seq_def [symmetric])
    then show ?thesis unfolding gather_inv_def using v oc l kp oth d rg fr dn s(3) True
      by (intro exI [of _ T] exI [of _ Q] exI [of _ P] exI [of _ C]) (auto simp: less_Suc_eq)
  next
    case False
    let ?d = "j + lo" and ?T = "\<lambda>q. swap_tail (int s) (int (j + lo)) (T q)"
    have dN: "?d < N" "s < N" using le hi s(2) by simp_all
    have eq: "slot_gather_step ub lo j m = swap_cells ?d s m" using tl False by (simp add: slot_gather_step_def first_seq_def [symmetric])
    note w = swap_cells_view [OF v dN]
    have "\<forall>q \<in> seqs N - ?f ` {..<?n}. 0 \<le> ?T q \<longleftrightarrow> 0 \<le> T0 q" using oth unfolding swap_tail_flip by simp
    moreover have "\<forall>k < ?n. int lo \<le> ?T (?f k) \<and> ?T (?f k) \<le> int hi" using rg s le by (auto simp: swap_tail_def)
    moreover have "?T (?f k) = int (lo + k)" if "k < Suc j" for k
    proof (cases "k = j")
      case True
      then show ?thesis using s(3) by (simp add: swap_tail_def)
    next
      case False
      then have k: "k < j" using that by simp
      then have "T (?f k) = int (lo + k)" "T (?f k) \<noteq> int s" using dn own [of k j] j s(3) by auto
      then show ?thesis using k by (simp add: swap_tail_def)
    qed
    moreover have "cells_data N (\<lambda>x. Q (flip ?d s x)) (\<lambda>x. P (flip ?d s x)) (\<lambda>x. C (flip ?d s x)) (int lo) (int hi)"
      by (rule cells_data_flip [OF d dN]) (use s le in simp_all)
    ultimately show ?thesis unfolding gather_inv_def eq
      using w(1) only_cells_trans [OF oc w(2)] links_flip [OF l dN] kp keeps_flip fresh_flip [OF fr] by blast
  qed
qed

lemma gather_loop:
  assumes "gather_inv N ub T0 P0 C0 m0 lo hi 0 m" "hi < N" "inj_on (first_seq ub) {..<ub_n_seqs ub}" "j \<le> ub_n_seqs ub"
  shows "gather_inv N ub T0 P0 C0 m0 lo hi j (fold (slot_gather_step ub lo) [0..<j] m)"
  using assms(4)
proof (induction j)
  case (Suc j)
  then show ?case using gather_step [OF _ _ assms(2,3)] by simp
qed (use assms(1) in simp)

subsection \<open>The fourth loop\<close>

definition last_pos :: "llama_ubatch \<Rightarrow> nat \<Rightarrow> llama_pos" where
  "last_pos ub k = ub_pos ub ! (k * ub_n_seq_tokens ub + ub_n_seq_tokens ub - 1)"

lemma store_seqs_view:
  assumes "rview N T Q P C m" "x < N" "set ss \<subseteq> seqs N"
  shows "rview N (\<lambda>q. if q \<in> set ss then int x else T q) (Q(x := Q x \<union> set ss)) P C
      (fold (\<lambda>q m. upd_cell (nat q) (\<lambda>c. c\<lparr>mc_tail := int x\<rparr>) (upd_cell x (\<lambda>c. c\<lparr>mc_seq_id := insert q (mc_seq_id c)\<rparr>) m)) ss m)"
    "only_cells m (fold (\<lambda>q m. upd_cell (nat q) (\<lambda>c. c\<lparr>mc_tail := int x\<rparr>) (upd_cell x (\<lambda>c. c\<lparr>mc_seq_id := insert q (mc_seq_id c)\<rparr>) m)) ss m)"
proof -
  let ?g = "\<lambda>q m. upd_cell (nat q) (\<lambda>c. c\<lparr>mc_tail := int x\<rparr>) (upd_cell x (\<lambda>c. c\<lparr>mc_seq_id := insert q (mc_seq_id c)\<rparr>) m)"
  have "rview N (\<lambda>q. if q \<in> set ss then int x else T q) (Q(x := Q x \<union> set ss)) P C (fold ?g ss m) \<and> only_cells m (fold ?g ss m)"
    using assms
  proof (induction ss arbitrary: m T Q)
    case (Cons q ss)
    have ss: "set ss \<subseteq> seqs N" using Cons.prems(3) by simp
    have v: "rview N (T(q := int x)) (Q(x := insert q (Q x))) P C (?g q m)"
      using rview_set_tail [OF rview_set_seqs [OF Cons.prems(1,2), of "insert q"], of q "int x"] Cons.prems(3) by simp
    have IH: "rview N (\<lambda>r. if r \<in> set ss then int x else (T(q := int x)) r) ((Q(x := insert q (Q x)))(x := (Q(x := insert q (Q x))) x \<union> set ss)) P C (fold ?g ss (?g q m))"
      "only_cells (?g q m) (fold ?g ss (?g q m))" using Cons.IH [OF v Cons.prems(2) ss] by blast+
    have "(\<lambda>r. if r \<in> set ss then int x else (T(q := int x)) r) = (\<lambda>r. if r \<in> set (q # ss) then int x else T r)" by auto
    moreover have "(Q(x := insert q (Q x)))(x := (Q(x := insert q (Q x))) x \<union> set ss) = Q(x := Q x \<union> set (q # ss))" by auto
    moreover have "only_cells m (?g q m)" by (meson only_cells_trans only_cells_upd)
    ultimately show ?case using IH only_cells_trans by (simp only: fold_simps(2) comp_apply)
  qed simp
  then show "rview N (\<lambda>q. if q \<in> set ss then int x else T q) (Q(x := Q x \<union> set ss)) P C (fold ?g ss m)" "only_cells m (fold ?g ss m)" by simp_all
qed

lemma rview_set_pos_seqs: "rview N T Q P C m \<Longrightarrow> i < N \<Longrightarrow> rview N T (Q(i := A)) (P(i := p)) C (upd_cell i (\<lambda>c. c\<lparr>mc_pos := p, mc_seq_id := A\<rparr>) m)"
  by (auto simp: rview_def rcell_upd)

lemma store_step_view:
  assumes "rview N T Q P C m" "lo + k < N" "set (set_seqs ub k) \<subseteq> seqs N"
  shows "rview N (\<lambda>q. if q \<in> set (set_seqs ub k) then int (lo + k) else T q) (Q(lo + k := set (set_seqs ub k))) (P(lo + k := last_pos ub k)) C (slot_store_step ub lo k m)"
    "only_cells m (slot_store_step ub lo k m)"
proof -
  let ?m = "upd_cell (k + lo) (\<lambda>c. c\<lparr>mc_pos := last_pos ub k, mc_seq_id := {}\<rparr>) m"
  have v: "rview N T (Q(lo + k := {})) (P(lo + k := last_pos ub k)) C ?m" using rview_set_pos_seqs [OF assms(1,2)] by (simp add: add.commute)
  note w = store_seqs_view [OF v assms(2,3)]
  have eq: "slot_store_step ub lo k m = fold (\<lambda>q m. upd_cell (nat q) (\<lambda>c. c\<lparr>mc_tail := int (lo + k)\<rparr>) (upd_cell (lo + k) (\<lambda>c. c\<lparr>mc_seq_id := insert q (mc_seq_id c)\<rparr>) m)) (set_seqs ub k) ?m"
    by (simp add: slot_store_step_def Let_def last_pos_def add.commute)
  show "rview N (\<lambda>q. if q \<in> set (set_seqs ub k) then int (lo + k) else T q) (Q(lo + k := set (set_seqs ub k))) (P(lo + k := last_pos ub k)) C (slot_store_step ub lo k m)"
    using w(1) unfolding eq by simp
  show "only_cells m (slot_store_step ub lo k m)" unfolding eq by (rule only_cells_trans [OF only_cells_upd w(2)])
qed

text \<open>Disjoint sets of sequences in range, with their positions.\<close>

definition rs_ubatch_ok :: "nat \<Rightarrow> llama_ubatch \<Rightarrow> bool" where
  "rs_ubatch_ok N ub \<longleftrightarrow> ub_equal_seqs ub \<and> 0 < ub_n_seqs ub
     \<and> (\<forall>k < ub_n_seqs ub. set_seqs ub k \<noteq> [] \<and> distinct (set_seqs ub k) \<and> set (set_seqs ub k) \<subseteq> seqs N \<and> 0 \<le> last_pos ub k
          \<and> (\<forall>k' < k. set (set_seqs ub k) \<inter> set (set_seqs ub k') = {}))"

abbreviation batch_seqs :: "llama_ubatch \<Rightarrow> nat \<Rightarrow> llama_seq_id set" where
  "batch_seqs ub n \<equiv> \<Union>k < n. set (set_seqs ub k)"

lemma ubatch_sets:
  assumes "rs_ubatch_ok N ub"
  shows "k < ub_n_seqs ub \<Longrightarrow> set (set_seqs ub k) \<subseteq> seqs N" "k < ub_n_seqs ub \<Longrightarrow> first_seq ub k \<in> set (set_seqs ub k)"
    "k < ub_n_seqs ub \<Longrightarrow> k' < ub_n_seqs ub \<Longrightarrow> q \<in> set (set_seqs ub k) \<Longrightarrow> q \<in> set (set_seqs ub k') \<Longrightarrow> k = k'"
    "inj_on (first_seq ub) {..<ub_n_seqs ub}"
proof -
  show a: "set (set_seqs ub k) \<subseteq> seqs N" if "k < ub_n_seqs ub" for k using assms that by (simp add: rs_ubatch_ok_def)
  have "first_seq ub k = set_seqs ub k ! 0" if "set_seqs ub k \<noteq> []" for k using that by (auto simp: first_seq_def set_seqs_def Let_def)
  then show b: "first_seq ub k \<in> set (set_seqs ub k)" if "k < ub_n_seqs ub" for k using assms that by (simp add: rs_ubatch_ok_def)
  have "set (set_seqs ub k) \<inter> set (set_seqs ub k') = {}" if "k < ub_n_seqs ub" "k' < k" for k k' using assms that by (simp add: rs_ubatch_ok_def)
  then show c: "k = k'" if "k < ub_n_seqs ub" "k' < ub_n_seqs ub" "q \<in> set (set_seqs ub k)" "q \<in> set (set_seqs ub k')" for k k' q
    using that by (metis disjoint_iff linorder_neqE_nat)
  show "inj_on (first_seq ub) {..<ub_n_seqs ub}" unfolding inj_on_def using b c by (metis lessThan_iff)
qed

lemma store_loop_view:
  assumes v: "rview N T Q P C m" and ub: "rs_ubatch_ok N ub" and lo: "lo + ub_n_seqs ub \<le> N" and j: "j \<le> ub_n_seqs ub"
  shows "\<exists>T' Q' P'. rview N T' Q' P' C (fold (slot_store_step ub lo) [0..<j] m) \<and> only_cells m (fold (slot_store_step ub lo) [0..<j] m)
    \<and> (\<forall>k < j. (\<forall>q \<in> set (set_seqs ub k). T' q = int (lo + k)) \<and> Q' (lo + k) = set (set_seqs ub k) \<and> P' (lo + k) = last_pos ub k)
    \<and> (\<forall>q. q \<notin> batch_seqs ub j \<longrightarrow> T' q = T q) \<and> (\<forall>x. x < lo \<or> lo + j \<le> x \<longrightarrow> Q' x = Q x \<and> P' x = P x)"
  using j
proof (induction j)
  case 0
  then show ?case using v by auto
next
  case (Suc j)
  then obtain T' Q' P' where IH: "rview N T' Q' P' C (fold (slot_store_step ub lo) [0..<j] m)" "only_cells m (fold (slot_store_step ub lo) [0..<j] m)"
    "\<forall>k < j. (\<forall>q \<in> set (set_seqs ub k). T' q = int (lo + k)) \<and> Q' (lo + k) = set (set_seqs ub k) \<and> P' (lo + k) = last_pos ub k"
    "\<forall>q. q \<notin> batch_seqs ub j \<longrightarrow> T' q = T q" "\<forall>x. x < lo \<or> lo + j \<le> x \<longrightarrow> Q' x = Q x \<and> P' x = P x" by auto
  have jn: "j < ub_n_seqs ub" "lo + j < N" using Suc.prems lo by simp_all
  note w = store_step_view [OF IH(1) jn(2) ubatch_sets(1) [OF ub jn(1)]]
  let ?T = "\<lambda>q. if q \<in> set (set_seqs ub j) then int (lo + j) else T' q" and ?Q = "Q'(lo + j := set (set_seqs ub j))" and ?P = "P'(lo + j := last_pos ub j)"
  have fe: "fold (slot_store_step ub lo) [0..<Suc j] m = slot_store_step ub lo j (fold (slot_store_step ub lo) [0..<j] m)" by simp
  have A: "(\<forall>q \<in> set (set_seqs ub k). ?T q = int (lo + k)) \<and> ?Q (lo + k) = set (set_seqs ub k) \<and> ?P (lo + k) = last_pos ub k" if "k < Suc j" for k
  proof (cases "k = j")
    case False
    then have k: "k < j" using that by simp
    moreover have "\<forall>q \<in> set (set_seqs ub k). q \<notin> set (set_seqs ub j)" using ubatch_sets(3) [OF ub, of k j] k jn(1) by auto
    ultimately show ?thesis using IH(3) by auto
  qed simp
  have B: "\<forall>q. q \<notin> batch_seqs ub (Suc j) \<longrightarrow> ?T q = T q" using IH(4) by (auto simp: less_Suc_eq)
  have D: "\<forall>x. x < lo \<or> lo + Suc j \<le> x \<longrightarrow> ?Q x = Q x \<and> ?P x = P x" using IH(5) by auto
  show ?case unfolding fe using w(1) only_cells_trans [OF IH(2) w(2)] A B D
    by (intro exI [of _ ?T] exI [of _ ?Q] exI [of _ ?P] conjI) blast+
qed

lemma links_store:
  assumes l: "links N T Q (first_seq ub ` {..<n})" and n: "n = ub_n_seqs ub" and ub: "rs_ubatch_ok N ub" and lo: "lo + n \<le> N"
    and own: "\<forall>k < n. T (first_seq ub k) = int (lo + k)" and none: "\<forall>k < n. \<forall>q \<in> set (set_seqs ub k) - {first_seq ub k}. T q = -1"
    and new: "\<forall>k < n. (\<forall>q \<in> set (set_seqs ub k). T' q = int (lo + k)) \<and> Q' (lo + k) = set (set_seqs ub k)"
    and old: "\<forall>q. q \<notin> batch_seqs ub n \<longrightarrow> T' q = T q" "\<forall>x. x < lo \<or> lo + n \<le> x \<longrightarrow> Q' x = Q x"
  shows "links N T' Q' {}"
proof -
  note S = ubatch_sets [OF ub, folded n]
  have cell: "(\<exists>k < n. i = lo + k) \<or> i < lo \<or> lo + n \<le> i" for i by (metis add_less_cancel_left le_add_diff_inverse not_le)
  have bt: "T q = -1 \<or> T q = int (lo + k)" if "k < n" "q \<in> set (set_seqs ub k)" for k q using that own none by (cases "q = first_seq ub k") auto
  have "-1 \<le> T' q \<and> T' q < int N" if "q \<in> seqs N" for q
    using that linksD(2) [OF l that] new old(1) lo by (cases "q \<in> batch_seqs ub n") auto
  moreover have "Q' i \<subseteq> seqs N" if "i < N" for i using cell [of i] new old(2) S(1) linksD(1) [OF l that] by metis
  moreover have "T' q = int i" if i: "i < N" "q \<in> Q' i" for i q
  proof (cases "\<exists>k < n. i = lo + k")
    case True
    then show ?thesis using new i(2) by auto
  next
    case False
    then have "q \<in> Q i" using cell [of i] old(2) i(2) by auto
    then have t: "T q = int i" by (rule linksD(3) [OF l i(1)])
    then have "q \<notin> batch_seqs ub n" using bt False by fastforce
    then show ?thesis using t old(1) by simp
  qed
  moreover have "q \<in> Q' (nat (T' q))" if q: "q \<in> seqs N" "0 \<le> T' q" for q
  proof (cases "q \<in> batch_seqs ub n")
    case True
    then obtain k where "k < n" "q \<in> set (set_seqs ub k)" by auto
    then show ?thesis using new by (metis nat_int)
  next
    case False
    then have t: "T' q = T q" "0 \<le> T q" using old(1) q(2) by auto
    have nf: "q \<notin> first_seq ub ` {..<n}" using False S(2) by auto
    then have "q \<in> Q (nat (T q))" using linksD(4) [OF l q(1) t(2)] by blast
    moreover have "nat (T q) \<noteq> lo + k" if "k < n" for k
    proof
      assume "nat (T q) = lo + k"
      then have "T q = T (first_seq ub k)" using own that t(2) by auto
      then have "q = first_seq ub k" using linksD(6) [OF l _ q(1)] that by blast
      then show False using nf that by blast
    qed
    then have "Q' (nat (T q)) = Q (nat (T q))" using cell [of "nat (T q)"] old(2) by blast
    ultimately show ?thesis using t(1) by simp
  qed
  ultimately show ?thesis unfolding links_def by blast
qed

subsection \<open>The sources\<close>

lemma refcounts_zero:
  assumes v: "rview N T Q P C m" and C: "\<forall>x < N. C x < int N" and i: "i < N"
  shows "refcounts m ! i = 0 \<longleftrightarrow> (\<forall>x < N. C x \<noteq> int i)"
proof -
  let ?g = "\<lambda>x r. let src = mc_src (rcell m x) in if src \<ge> 0 then r[nat src := r ! nat src + 1] else r"
  have "k \<le> N \<Longrightarrow> length (fold ?g [0..<k] (replicate N (0 :: nat))) = N \<and> (fold ?g [0..<k] (replicate N 0) ! i = (0 :: nat) \<longleftrightarrow> (\<forall>x < k. C x \<noteq> int i))" for k
  proof (induction k)
    case (Suc k)
    then have "C k < int N" "mc_src (rcell m k) = C k" using C rview_nth(4) [OF v, of k] by simp_all
    moreover define r where "r = fold ?g [0..<k] (replicate N (0 :: nat))"
    ultimately have g: "fold ?g [0..<Suc k] (replicate N 0) = (if C k \<ge> 0 then r[nat (C k) := r ! nat (C k) + 1] else r)" "C k \<ge> 0 \<Longrightarrow> nat (C k) < N"
      by (simp_all add: nat_less_iff Let_def)
    have r: "length r = N" "r ! i = 0 \<longleftrightarrow> (\<forall>x < k. C x \<noteq> int i)" using Suc.IH Suc.prems unfolding r_def by simp_all
    have "(if C k \<ge> 0 then r[nat (C k) := r ! nat (C k) + 1] else r) ! i = 0 \<longleftrightarrow> r ! i = 0 \<and> C k \<noteq> int i"
      using g(2) r(1) by (auto simp: nth_list_update)
    then show ?case unfolding g(1) using r by (auto simp: less_Suc_eq)
  qed (use i in simp)
  then show ?thesis using rview_size [OF v] by (simp add: refcounts_def)
qed

lemma slot_rs_z_ok:
  assumes v: "rview N T Q P C m" and d: "cells_data N Q P C (int lo) (int hi)" and hi: "hi < N" and x: "lo \<le> x" "x \<le> hi" "C x = -1"
  shows "\<exists>z. slot_rs_z lo hi m = int z \<and> lo \<le> z \<and> z \<le> hi \<and> (\<forall>y < N. C y \<noteq> int z)"
proof -
  let ?R = "{lo..hi}"
  have C: "\<forall>x < N. C x < int N" using d by (simp add: cells_data_def)
  let ?I = "(\<lambda>y. nat (C y)) ` (?R - {x})"
  have "card ?I \<le> card (?R - {x})" by (rule card_image_le) simp
  also have "\<dots> < card ?R" by (rule card_Diff1_less) (use x(1,2) in simp_all)
  finally have "card ?I < card ?R" .
  moreover have "card ?R \<le> card ?I" if "?R \<subseteq> ?I" by (rule card_mono [OF _ that]) simp
  ultimately have "\<not> ?R \<subseteq> ?I" by linarith
  then obtain z where z: "lo \<le> z" "z \<le> hi" "z \<notin> ?I" unfolding subset_iff by auto
  have no: "C y \<noteq> int z" if "y < N" for y
  proof
    assume e: "C y = int z"
    then have "C y = int y \<or> int lo \<le> int y \<and> int y \<le> int hi" using d that unfolding cells_data_def by fastforce
    then have "y \<in> ?R" using e z by auto
    then show False using e z(3) x(3) by force
  qed
  then have "\<exists>i \<in> set [lo..<Suc hi]. refcounts m ! i = 0" using refcounts_zero [OF v C, of z] z hi by (intro bexI [of _ z]) (auto simp del: upt_Suc)
  then have "List.find (\<lambda>i. refcounts m ! i = 0) [lo..<Suc hi] \<noteq> None" unfolding find_None_iff by blast
  then obtain w where w: "List.find (\<lambda>i. refcounts m ! i = 0) [lo..<Suc hi] = Some w" unfolding not_None_eq by blast
  then have "refcounts m ! w = 0" "w \<in> set [lo..<Suc hi]" unfolding find_Some_iff by (auto simp del: upt_Suc)
  then show ?thesis using w refcounts_zero [OF v C, of w] hi by (intro exI [of _ w]) (auto simp: slot_rs_z_def simp del: upt_Suc)
qed

definition srcs :: "nat \<Rightarrow> nat \<Rightarrow> (nat \<Rightarrow> int) \<Rightarrow> nat \<Rightarrow> int" where
  "srcs lo k C x = (if lo \<le> x \<and> x < k then int x else C x)"

lemma src_step_view:
  assumes v: "rview N T Q P (srcs lo k C) m" and z: "C k < 0 \<Longrightarrow> 0 \<le> rm_rs_z m" and k: "lo \<le> k" "k < N"
  shows "\<exists>m'. slot_src_step k m = Inr m' \<and> rview N T Q P (srcs lo (Suc k) C) m' \<and> only_cells m m'
    \<and> mc_src0 (rcell m' k) = (if C k < 0 then rm_rs_z m else C k) \<and> (\<forall>x. x \<noteq> k \<longrightarrow> rcell m' x = rcell m x)"
proof -
  have s: "mc_src (rcell m k) = C k" using rview_nth(4) [OF v k(2)] by (simp add: srcs_def)
  have len: "length (rm_cells m) = N" using v by (simp add: rview_def)
  let ?m = "upd_cell k (\<lambda>c. c\<lparr>mc_src0 := (if C k < 0 then rm_rs_z m else C k), mc_src := int k\<rparr>) m"
  have "slot_src_step k m = Inr ?m" using s z by (auto simp: slot_src_step_def upd_cell_def rcell_def)
  moreover have "srcs lo (Suc k) C = (srcs lo k C)(k := int k)" using k(1) by (auto simp: srcs_def fun_eq_iff)
  then have "rview N T Q P (srcs lo (Suc k) C) ?m" using v unfolding rview_def by (simp add: rcell_upd)
  ultimately show ?thesis using k(2) len by (intro exI [of _ ?m]) (simp add: rcell_upd)
qed

lemma only_cells_rs_z: "only_cells m m' \<Longrightarrow> rm_rs_z m' = rm_rs_z m"
  by (cases m; cases m') (simp add: only_cells_def)

lemma src_loop:
  assumes v: "rview N T Q P C m" and z: "\<forall>x. lo \<le> x \<and> x < lo + j \<and> C x < 0 \<longrightarrow> 0 \<le> rm_rs_z m" and j: "lo + j \<le> N"
  shows "\<exists>m'. fold_res slot_src_step [lo..<lo + j] m = Inr m' \<and> rview N T Q P (srcs lo (lo + j) C) m' \<and> only_cells m m'
    \<and> (\<forall>x. lo \<le> x \<and> x < lo + j \<longrightarrow> mc_src0 (rcell m' x) = (if C x < 0 then rm_rs_z m else C x))"
  using z j
proof (induction j)
  case 0
  have "srcs lo lo C = C" by (auto simp: srcs_def)
  then show ?case using v by (intro exI [of _ m]) simp
next
  case (Suc j)
  have "\<forall>x. lo \<le> x \<and> x < lo + j \<and> C x < 0 \<longrightarrow> 0 \<le> rm_rs_z m" "lo + j \<le> N" using Suc.prems by (simp_all add: less_SucI) (metis less_SucI)
  from Suc.IH [OF this] obtain m' where IH: "fold_res slot_src_step [lo..<lo + j] m = Inr m'" "rview N T Q P (srcs lo (lo + j) C) m'" "only_cells m m'"
    "\<forall>x. lo \<le> x \<and> x < lo + j \<longrightarrow> mc_src0 (rcell m' x) = (if C x < 0 then rm_rs_z m else C x)" by blast
  note zz = only_cells_rs_z [OF IH(3)]
  have "C (lo + j) < 0 \<Longrightarrow> 0 \<le> rm_rs_z m'" using Suc.prems(1) zz by auto
  then obtain m1 where m1: "slot_src_step (lo + j) m' = Inr m1" "rview N T Q P (srcs lo (Suc (lo + j)) C) m1" "only_cells m' m1"
    "mc_src0 (rcell m1 (lo + j)) = (if C (lo + j) < 0 then rm_rs_z m' else C (lo + j))" "\<forall>x. x \<noteq> lo + j \<longrightarrow> rcell m1 x = rcell m' x"
    using src_step_view [OF IH(2)] Suc.prems(2) by auto
  have "fold_res slot_src_step [lo..<lo + Suc j] m = Inr m1" using IH(1) m1(1) by (simp add: fold_res_append)
  moreover have "mc_src0 (rcell m1 x) = (if C x < 0 then rm_rs_z m else C x)" if "lo \<le> x" "x < lo + Suc j" for x
    using IH(4) m1(4,5) zz that by (cases "x = lo + j") auto
  ultimately show ?case using m1(2) only_cells_trans [OF IH(3) m1(3)] by auto
qed

lemma slot_finish_ok:
  assumes v: "rview N T Q P C m" and d: "cells_data N Q P C (int lo) (int hi)" and hi: "lo \<le> hi" "hi < N"
  shows "\<exists>m'. slot_finish ub lo hi m = Inr (hi - lo + 1 \<ge> ub_n_seqs ub, m') \<and> rview N T Q P (srcs lo (Suc hi) C) m' \<and> rm_head m' = lo \<and> rm_n m' = hi - lo + 1
    \<and> rm_used m' = count_used m' \<and> (\<forall>x. lo \<le> x \<and> x \<le> hi \<longrightarrow> mc_src0 (rcell m' x) = (if C x = -1 then rm_rs_z m' else C x))
    \<and> ((\<exists>x. lo \<le> x \<and> x \<le> hi \<and> C x = -1) \<longrightarrow> (\<exists>z. rm_rs_z m' = int z \<and> lo \<le> z \<and> z \<le> hi \<and> (\<forall>y < N. C y \<noteq> int z)))
    \<and> rm_rs_idx m' = rm_rs_idx m \<and> rm_n_rs_seq m' = rm_n_rs_seq m \<and> rm_n_seq_max m' = rm_n_seq_max m"
proof -
  let ?m = "m\<lparr>rm_rs_z := slot_rs_z lo hi m\<rparr>"
  have neg: "C x < 0 \<longleftrightarrow> C x = -1" if "x \<le> hi" for x
  proof -
    have "-1 \<le> C x" using d that hi(2) unfolding cells_data_def by (meson le_less_trans)
    then show ?thesis by linarith
  qed
  have v1: "rview N T Q P C ?m" using v by simp
  have z: "\<forall>x. lo \<le> x \<and> x < Suc hi \<and> C x < 0 \<longrightarrow> 0 \<le> rm_rs_z ?m"
  proof (intro allI impI)
    fix x assume x: "lo \<le> x \<and> x < Suc hi \<and> C x < 0"
    then show "0 \<le> rm_rs_z ?m" using slot_rs_z_ok [OF v d hi(2), of x] neg [of x] by auto
  qed
  have k: "lo + (Suc hi - lo) = Suc hi" "Suc hi \<le> N" using hi by simp_all
  obtain m' where m': "fold_res slot_src_step [lo..<Suc hi] ?m = Inr m'" "rview N T Q P (srcs lo (Suc hi) C) m'" "only_cells ?m m'"
    "\<forall>x. lo \<le> x \<and> x < Suc hi \<longrightarrow> mc_src0 (rcell m' x) = (if C x < 0 then rm_rs_z ?m else C x)"
    using src_loop [OF v1, of lo "Suc hi - lo"] z k by (simp only:) blast
  have f: "m' = ?m\<lparr>rm_cells := rm_cells m'\<rparr>" using m'(3) by (simp add: only_cells_def)
  have zz: "rm_rs_z m' = slot_rs_z lo hi m" "rm_rs_idx m' = rm_rs_idx m" "rm_n_rs_seq m' = rm_n_rs_seq m" "rm_n_seq_max m' = rm_n_seq_max m" by (subst f, simp)+
  let ?m' = "m'\<lparr>rm_head := lo, rm_n := hi - lo + 1, rm_used := count_used m'\<rparr>"
  have "slot_finish ub lo hi m = Inr (hi - lo + 1 \<ge> ub_n_seqs ub, ?m')" using m'(1) by (simp add: slot_finish_def Let_def del: upt_Suc)
  moreover have "mc_src0 (rcell ?m' x) = (if C x = -1 then rm_rs_z ?m' else C x)" if "lo \<le> x" "x \<le> hi" for x
    using m'(4) that neg [OF that(2)] zz by simp
  moreover have "\<exists>z. rm_rs_z ?m' = int z \<and> lo \<le> z \<and> z \<le> hi \<and> (\<forall>y < N. C y \<noteq> int z)" if "lo \<le> x" "x \<le> hi" "C x = -1" for x
    using slot_rs_z_ok [OF v d hi(2) that] zz by simp
  ultimately show ?thesis using m'(2) zz by (intro exI [of _ ?m']) (auto simp: count_used_def)
qed

subsection \<open>The first loop\<close>

definition same_rest :: "memory_recurrent \<Rightarrow> memory_recurrent \<Rightarrow> bool" where
  "same_rest m m' \<longleftrightarrow> m' = m\<lparr>rm_cells := rm_cells m', rm_used := rm_used m'\<rparr>"

lemma same_rest_fields:
  assumes "same_rest m m'"
  shows "rm_head m' = rm_head m" "rm_size m' = rm_size m" "rm_n_rs_seq m' = rm_n_rs_seq m" "rm_rs_idx m' = rm_rs_idx m" "rm_n_seq_max m' = rm_n_seq_max m"
    "rm_n m' = rm_n m" "rm_rs_z m' = rm_rs_z m"
  by (subst assms [unfolded same_rest_def], simp)+

lemma same_rest_intros [simp]: "same_rest m m" "same_rest m (upd_cell i f m)" "same_rest m (dec_used m)"
  by (simp_all add: same_rest_def upd_cell_def dec_used_def)

lemma same_rest_trans: "same_rest a b \<Longrightarrow> same_rest b c \<Longrightarrow> same_rest a c"
  by (cases a; cases b; cases c) (simp add: same_rest_def)

lemma only_cells_rest: "only_cells m m' \<Longrightarrow> same_rest m m'"
  by (cases m; cases m') (simp add: only_cells_def same_rest_def)

definition left_cell :: "int \<Rightarrow> (int \<Rightarrow> int) \<Rightarrow> (nat \<Rightarrow> int set) \<Rightarrow> nat \<Rightarrow> int set" where
  "left_cell s T Q = (if 0 \<le> T s then Q(nat (T s) := Q (nat (T s)) - {s}) else Q)"

definition wiped :: "int \<Rightarrow> (int \<Rightarrow> int) \<Rightarrow> (nat \<Rightarrow> int set) \<Rightarrow> (nat \<Rightarrow> int) \<Rightarrow> nat \<Rightarrow> int" where
  "wiped s T Q D = (if 0 \<le> T s \<and> Q (nat (T s)) = {s} then D(nat (T s) := -1) else D)"

lemma drop_tail_view:
  assumes v: "rview N T Q P C m" and l: "links N T Q {}" and s: "s \<in> seqs N"
  shows "rview N (T(s := -1)) (left_cell s T Q) (wiped s T Q P) (wiped s T Q C) (drop_tail s m)" "same_rest m (drop_tail s m)"
    "rm_used (drop_tail s m) = (if 0 \<le> T s \<and> Q (nat (T s)) = {s} then dec_u32 (rm_used m) else rm_used m)"
proof -
  have t: "mc_tail (rcell m (nat s)) = T s" by (rule rview_tail [OF v s])
  have "rview N (T(s := -1)) (left_cell s T Q) (wiped s T Q P) (wiped s T Q C) (drop_tail s m) \<and> same_rest m (drop_tail s m)
    \<and> rm_used (drop_tail s m) = (if 0 \<le> T s \<and> Q (nat (T s)) = {s} then dec_u32 (rm_used m) else rm_used m)"
  proof (cases "0 \<le> T s")
    case False
    then have "T s = -1" using linksD(2) [OF l s] by simp
    then have "T(s := -1) = T" by auto
    then show ?thesis using False v t by (simp add: drop_tail_def left_cell_def wiped_def)
  next
    case True
    let ?t = "nat (T s)"
    have tN: "?t < N" using linksD(2) [OF l s] True by (simp add: nat_less_iff)
    have sQ: "s \<in> Q ?t" using linksD(4) [OF l s True] by blast
    let ?m1 = "upd_cell ?t (\<lambda>c. c\<lparr>mc_seq_id := mc_seq_id c - {s}\<rparr>) m"
    let ?m2 = "upd_cell (nat s) (\<lambda>c. c\<lparr>mc_tail := -1\<rparr>) ?m1"
    have v2: "rview N (T(s := -1)) (Q(?t := Q ?t - {s})) P C ?m2"
      by (rule rview_set_tail [OF rview_set_seqs [OF v tN, of "\<lambda>A. A - {s}"] s])
    have e: "mc_is_empty (rcell ?m2 ?t) \<longleftrightarrow> Q ?t = {s}" using view_empty [OF v2 tN] sQ by auto
    have rest: "same_rest m ?m2" by (meson same_rest_intros(2) same_rest_trans)
    show ?thesis
    proof (cases "Q ?t = {s}")
      case True
      let ?m3 = "upd_cell ?t (\<lambda>c. c\<lparr>mc_pos := -1, mc_src := -1\<rparr>) ?m2"
      have "drop_tail s m = dec_used ?m3" using t \<open>0 \<le> T s\<close> e True by (simp add: drop_tail_def Let_def)
      moreover have "same_rest m (dec_used ?m3)" by (meson rest same_rest_intros(2,3) same_rest_trans)
      moreover have "rview N (T(s := -1)) (Q(?t := Q ?t - {s})) (P(?t := -1)) (C(?t := -1)) ?m3" by (rule rview_set_pos_src [OF v2 tN])
      ultimately show ?thesis using \<open>0 \<le> T s\<close> True by (simp add: left_cell_def wiped_def)
    next
      case False
      then have "drop_tail s m = ?m2" using t \<open>0 \<le> T s\<close> e by (simp add: drop_tail_def Let_def)
      then show ?thesis using \<open>0 \<le> T s\<close> False v2 rest by (simp add: left_cell_def wiped_def)
    qed
  qed
  then show "rview N (T(s := -1)) (left_cell s T Q) (wiped s T Q P) (wiped s T Q C) (drop_tail s m)" "same_rest m (drop_tail s m)"
    "rm_used (drop_tail s m) = (if 0 \<le> T s \<and> Q (nat (T s)) = {s} then dec_u32 (rm_used m) else rm_used m)" by blast+
qed

lemma links_drop:
  assumes l: "links N T Q {}" and s: "s \<in> seqs N"
  shows "links N (T(s := -1)) (left_cell s T Q) {}"
proof -
  have sub: "left_cell s T Q i \<subseteq> Q i" for i by (auto simp: left_cell_def)
  have "s \<notin> left_cell s T Q i" if "i < N" for i
  proof
    assume a: "s \<in> left_cell s T Q i"
    then have "T s = int i" using linksD(3) [OF l that] sub by blast
    then show False using a by (simp add: left_cell_def)
  qed
  then have "(T(s := -1)) q = int i" if "i < N" "q \<in> left_cell s T Q i" for i q using linksD(3) [OF l that(1), of q] that sub by auto
  moreover have "q \<in> left_cell s T Q (nat (T q))" if "q \<in> seqs N" "q \<noteq> s" "0 \<le> T q" for q
    using linksD(4) [OF l that(1,3)] that(2) by (auto simp: left_cell_def)
  moreover have "left_cell s T Q i \<subseteq> seqs N" if "i < N" for i using sub linksD(1) [OF l that] by blast
  ultimately show ?thesis using linksD(2) [OF l] unfolding links_def by auto
qed

lemma keeps_drop:
  assumes l: "links N T Q {}" and q: "q \<in> seqs N" "q \<noteq> s"
  shows "keeps N T P C (T(s := -1)) (wiped s T Q P) (wiped s T Q C) q"
proof -
  have "nat (T q) \<noteq> nat (T s) \<or> Q (nat (T s)) \<noteq> {s}" if "0 \<le> T q"
    using linksD(4) [OF l q(1) that] q(2) by (metis empty_iff singletonD)
  then show ?thesis using q(2) by (simp add: keeps_def wiped_def) metis
qed

lemma cells_data_drop:
  assumes l: "links N T Q {}" and s: "s \<in> seqs N" and d: "cells_data N Q P C lo hi"
  shows "cells_data N (left_cell s T Q) (wiped s T Q P) (wiped s T Q C) lo hi"
  unfolding cells_data_def
proof (intro allI impI)
  fix x assume x: "x < N"
  have dx: "(Q x = {} \<longrightarrow> P x = -1) \<and> (Q x \<noteq> {} \<longrightarrow> 0 \<le> P x) \<and> -1 \<le> C x \<and> C x < int N \<and> (C x = -1 \<or> C x = int x \<or> lo \<le> int x \<and> int x \<le> hi)"
    using d x by (simp add: cells_data_def)
  have "s \<in> Q (nat (T s))" if "0 \<le> T s" using linksD(4) [OF l s that] by blast
  then show "(left_cell s T Q x = {} \<longrightarrow> wiped s T Q P x = -1) \<and> (left_cell s T Q x \<noteq> {} \<longrightarrow> 0 \<le> wiped s T Q P x) \<and> -1 \<le> wiped s T Q C x
      \<and> wiped s T Q C x < int N \<and> (wiped s T Q C x = -1 \<or> wiped s T Q C x = int x \<or> lo \<le> int x \<and> int x \<le> hi)"
    using dx x by (auto simp: left_cell_def wiped_def)
qed

end
