(* ===== verification/Recurrent_Find.thy ===== *)
theory Recurrent_Find
  imports Recurrent_Place
begin

section \<open>The recurrent memory: invariant and operations\<close>

text \<open>
  The invariant of the recurrent memory, that \<open>find_slot\<close> and the sequence operations keep it, and the reachable states.
\<close>

subsection \<open>The invariant\<close>

definition tail_of :: "memory_recurrent \<Rightarrow> int \<Rightarrow> int" where
  "tail_of m s = mc_tail (rcell m (nat s))"

definition seqs_of :: "memory_recurrent \<Rightarrow> nat \<Rightarrow> int set" where
  "seqs_of m i = mc_seq_id (rcell m i)"

definition pos_of :: "memory_recurrent \<Rightarrow> nat \<Rightarrow> int" where
  "pos_of m i = mc_pos (rcell m i)"

definition src_of :: "memory_recurrent \<Rightarrow> nat \<Rightarrow> int" where
  "src_of m i = mc_src (rcell m i)"

text \<open>Every sequence of a cell has its tail there and the other way round, an empty cell has no position, a source is the cell itself, and \<open>used\<close>
  counts the cells in use.\<close>

definition rs_wf :: "nat \<Rightarrow> memory_recurrent \<Rightarrow> bool" where
  "rs_wf N m \<longleftrightarrow> 0 < N \<and> N < 2 ^ 31 \<and> rm_size m = N \<and> length (rm_cells m) = N \<and> rm_head m < N
     \<and> links N (tail_of m) (seqs_of m) {} \<and> cells_data N (seqs_of m) (pos_of m) (src_of m) 1 0
     \<and> (\<forall>x < N. seqs_of m x \<noteq> {} \<longrightarrow> src_of m x = int x) \<and> rm_used m = count_used m"

lemma view_self: "rm_size m = N \<Longrightarrow> length (rm_cells m) = N \<Longrightarrow> rview N (tail_of m) (seqs_of m) (pos_of m) (src_of m) m"
  by (simp add: rview_def tail_of_def seqs_of_def pos_of_def src_of_def)

lemma rs_wf_view: "rs_wf N m \<Longrightarrow> rview N (tail_of m) (seqs_of m) (pos_of m) (src_of m) m"
  by (simp add: rs_wf_def view_self)

lemma links_cong:
  assumes T: "\<And>s. s \<in> seqs N \<Longrightarrow> T s = T' s" and Q: "\<And>i. i < N \<Longrightarrow> Q i = Q' i" and l: "links N T Q {}"
  shows "links N T' Q' {}"
proof -
  have sub: "Q' i \<subseteq> seqs N" if "i < N" for i using linksD(1) [OF l that] Q [OF that] by simp
  moreover have "T' s = int i" if "i < N" "s \<in> Q' i" for i s
  proof -
    have s: "s \<in> seqs N" using sub that by blast
    show ?thesis using linksD(3) [OF l that(1), of s] Q [OF that(1)] T [OF s] that(2) by simp
  qed
  moreover have "s \<in> Q' (nat (T' s))" if s: "s \<in> seqs N" "0 \<le> T' s" for s
  proof -
    have t: "T s = T' s" by (rule T [OF s(1)])
    then have "nat (T' s) < N" "s \<in> Q (nat (T' s))" using linksD(2,4) [OF l s(1)] s(2) by auto
    then show ?thesis using Q by simp
  qed
  moreover have "-1 \<le> T' s \<and> T' s < int N" if "s \<in> seqs N" for s using linksD(2) [OF l that] T [OF that] by simp
  ultimately show ?thesis unfolding links_def by blast
qed

lemma rs_wfI:
  assumes v: "rview N T Q P C m" and l: "links N T Q {}" and d: "cells_data N Q P C lo hi" "hi < lo"
    and own: "\<And>x. x < N \<Longrightarrow> Q x \<noteq> {} \<Longrightarrow> C x = int x" and N: "0 < N" "N < 2 ^ 31" "rm_head m < N" "rm_used m = count_used m"
  shows "rs_wf N m"
proof -
  have "links N (tail_of m) (seqs_of m) {}"
    by (rule links_cong [OF _ _ l]) (use v in \<open>simp_all add: tail_of_def seqs_of_def rview_tail rview_nth\<close>)
  moreover have "cells_data N (seqs_of m) (pos_of m) (src_of m) 1 0"
    using d unfolding cells_data_def by (auto simp: seqs_of_def pos_of_def src_of_def rview_nth [OF v])
  moreover have "\<forall>x < N. seqs_of m x \<noteq> {} \<longrightarrow> src_of m x = int x" using own by (simp add: seqs_of_def src_of_def rview_nth [OF v])
  ultimately show ?thesis using v N by (simp add: rs_wf_def rview_def)
qed

text \<open>The position of a sequence.\<close>

definition rs_pos :: "memory_recurrent \<Rightarrow> llama_seq_id \<Rightarrow> llama_pos option" where
  "rs_pos m s = (if tail_of m s < 0 then None else Some (pos_of m (nat (tail_of m s))))"

subsection \<open>\<open>find_slot\<close>\<close>

lemma keeps_trans: "keeps N T0 P0 C0 T1 P1 C1 s \<Longrightarrow> keeps N T1 P1 C1 T2 P2 C2 s \<Longrightarrow> keeps N T0 P0 C0 T2 P2 C2 s"
  by (simp add: keeps_def)

lemma keeps_refl: "keeps N T P C T P C s"
  by (simp add: keeps_def)

definition dropped :: "(nat \<times> llama_seq_id) list \<Rightarrow> llama_seq_id \<Rightarrow> bool" where
  "dropped xs s \<longleftrightarrow> (\<exists>j > 0. (j, s) \<in> set xs)"

lemma dropped_simps [simp]: "\<not> dropped [] s" "dropped ((j, q) # xs) s \<longleftrightarrow> 0 < j \<and> q = s \<or> dropped xs s"
  by (auto simp: dropped_def)

lemma slot_check_list:
  assumes "rview N T Q P C m" "links N T Q {}" "cells_data N Q P C lo hi" "\<forall>(j, s) \<in> set xs. s \<in> seqs N" "N < 2 ^ 31"
  shows "\<exists>m' T' Q' P' C'. fold slot_check_step xs (True, m) = (True, m') \<and> rview N T' Q' P' C' m' \<and> links N T' Q' {} \<and> cells_data N Q' P' C' lo hi \<and> same_rest m m'
    \<and> (\<forall>s. T' s = (if dropped xs s then -1 else T s)) \<and> (\<forall>s \<in> seqs N. \<not> dropped xs s \<longrightarrow> keeps N T P C T' P' C' s)"
  using assms
proof (induction xs arbitrary: m T Q P C)
  case Nil
  then show ?case using keeps_refl by (intro exI [of _ m] exI [of _ T] exI [of _ Q] exI [of _ P] exI [of _ C]) simp
next
  case (Cons x xs)
  obtain j s where x: "x = (j, s)" by fastforce
  have s: "s \<in> seqs N" and xs: "\<forall>(j, s) \<in> set xs. s \<in> seqs N" using Cons.prems(4) x by auto
  have rng: "\<not> (s < 0 \<or> to_u32 s \<ge> int (rm_size m))" using s Cons.prems(5) rview_size [OF Cons.prems(1)] by (simp add: to_u32_id)
  show ?case
  proof (cases "j > 0")
    case False
    then have "slot_check_step x (True, m) = (True, m)" using rng x by (simp add: slot_check_step_def)
    then show ?thesis using Cons.IH [OF Cons.prems(1-3) xs Cons.prems(5)] False x by simp
  next
    case True
    have st: "slot_check_step x (True, m) = (True, drop_tail s m)" using rng x True by (simp add: slot_check_step_def)
    note v = drop_tail_view [OF Cons.prems(1,2) s]
    obtain m' T' Q' P' C' where IH: "fold slot_check_step xs (True, drop_tail s m) = (True, m')" "rview N T' Q' P' C' m'" "links N T' Q' {}" "cells_data N Q' P' C' lo hi"
      "same_rest (drop_tail s m) m'" "\<forall>q. T' q = (if dropped xs q then -1 else (T(s := -1)) q)"
      "\<forall>q \<in> seqs N. \<not> dropped xs q \<longrightarrow> keeps N (T(s := -1)) (wiped s T Q P) (wiped s T Q C) T' P' C' q"
      using Cons.IH [OF v(1) links_drop [OF Cons.prems(2) s] cells_data_drop [OF Cons.prems(2) s Cons.prems(3)] xs Cons.prems(5)] by blast
    have "T' q = (if dropped (x # xs) q then -1 else T q)" for q using IH(6) x True by auto
    moreover have "keeps N T P C T' P' C' q" if "q \<in> seqs N" "\<not> dropped (x # xs) q" for q
    proof -
      have q: "q \<noteq> s" "\<not> dropped xs q" using that(2) x True by auto
      show ?thesis by (rule keeps_trans [OF keeps_drop [OF Cons.prems(2) that(1) q(1)]]) (use IH(7) that(1) q(2) in blast)
    qed
    moreover have "fold slot_check_step (x # xs) (True, m) = (True, m')" using st IH(1) by simp
    ultimately show ?thesis using IH(2-4) same_rest_trans [OF v(2) IH(5)] by blast
  qed
qed

lemma enumerate_tl:
  assumes "distinct xs"
  shows "(\<exists>j > 0. (j, s) \<in> set (enumerate 0 xs)) \<longleftrightarrow> s \<in> set xs - {xs ! 0}"
proof
  assume "\<exists>j > 0. (j, s) \<in> set (enumerate 0 xs)"
  then obtain j where j: "0 < j" "j < length xs" "xs ! j = s" by (auto simp: in_set_enumerate_eq)
  then have "xs ! j \<noteq> xs ! 0" using nth_eq_iff_index_eq [OF assms] by (metis gr_implies_not0 length_pos_if_in_set nth_mem)
  then show "s \<in> set xs - {xs ! 0}" using j by auto
next
  assume "s \<in> set xs - {xs ! 0}"
  then obtain j where j: "j < length xs" "xs ! j = s" "j \<noteq> 0" by (metis DiffE in_set_conv_nth singletonI)
  then have "0 < j \<and> (j, s) \<in> set (enumerate 0 xs)" by (simp add: in_set_enumerate_eq)
  then show "\<exists>j > 0. (j, s) \<in> set (enumerate 0 xs)" by blast
qed

definition shared_seqs :: "llama_ubatch \<Rightarrow> llama_seq_id set" where
  "shared_seqs ub = (\<Union>k < ub_n_seqs ub. set (set_seqs ub k) - {first_seq ub k})"

lemma first_seq_nth: "set_seqs ub k \<noteq> [] \<Longrightarrow> first_seq ub k = set_seqs ub k ! 0"
  by (auto simp: first_seq_def set_seqs_def Let_def)

lemma slot_check_ok:
  assumes v: "rview N T Q P C m" "links N T Q {}" "cells_data N Q P C lo hi" and ub: "rs_ubatch_ok N ub" "N < 2 ^ 31"
  shows "\<exists>m' T' Q' P' C'. slot_check ub m = (True, m') \<and> rview N T' Q' P' C' m' \<and> links N T' Q' {} \<and> cells_data N Q' P' C' lo hi \<and> same_rest m m'
    \<and> (\<forall>s. T' s = (if s \<in> shared_seqs ub then -1 else T s)) \<and> (\<forall>s \<in> seqs N - shared_seqs ub. keeps N T P C T' P' C' s)"
proof -
  let ?xs = "concat (map (\<lambda>s. enumerate 0 (set_seqs ub s)) [0..<ub_n_seqs ub])"
  have rng: "\<forall>(j, s) \<in> set ?xs. s \<in> seqs N"
  proof
    fix x assume "x \<in> set ?xs"
    then obtain k where k: "k < ub_n_seqs ub" "x \<in> set (enumerate 0 (set_seqs ub k))" by auto
    from k(2) have "snd x \<in> set (set_seqs ub k)" unfolding in_set_enumerate_eq by (metis add_0_right diff_zero nth_mem)
    then show "case x of (j, s) \<Rightarrow> s \<in> seqs N" using ubatch_sets(1) [OF ub(1) k(1)] by (cases x) auto
  qed
  have en: "(\<exists>j > 0. (j, s) \<in> set (enumerate 0 (set_seqs ub k))) \<longleftrightarrow> s \<in> set (set_seqs ub k) - {first_seq ub k}" if "k < ub_n_seqs ub" for k s
    using ub(1) that enumerate_tl [of "set_seqs ub k"] first_seq_nth [of ub k] by (simp add: rs_ubatch_ok_def)
  have dr: "dropped ?xs s \<longleftrightarrow> (\<exists>k < ub_n_seqs ub. \<exists>j > 0. (j, s) \<in> set (enumerate 0 (set_seqs ub k)))" for s by (simp add: dropped_def Bex_def) blast
  have sh: "dropped ?xs s \<longleftrightarrow> s \<in> shared_seqs ub" for s
    unfolding dr shared_seqs_def UN_iff lessThan_iff Bex_def using en by blast
  show ?thesis using slot_check_list [OF v rng ub(2)] unfolding slot_check_def sh by blast
qed

text \<open>The second and the third loop: every set has its own cell, in the order of the sets.\<close>

lemma cells_data_any: "cells_data N Q P C 1 0 \<Longrightarrow> cells_data N Q P C lo hi"
  unfolding cells_data_def by force

lemma usable_start:
  assumes v: "rview N T Q P C m" and l: "links N T Q {}" and d: "cells_data N Q P C 1 0" and h: "rm_head m < N"
  shows "usable_inv N ub T P C m 0 (m, \<lparr>sr_next = first_empty (rm_size m) m (rm_head m), sr_min = int (rm_size m) - 1, sr_max = 0\<rparr>)"
proof (rule usable_invI [OF v only_cells_refl])
  show "untouched N T T C" using d unfolding untouched_def cells_data_def free_cell_def by force
  show "fresh N T T C" by (auto simp: fresh_def)
qed (use l cells_data_any [OF d] scan_first [OF v l h] rview_size [OF v] in \<open>simp_all add: keeps_refl\<close>)

lemma gather_all:
  assumes v: "rview N T Q P C m" and l: "links N T Q {}" and d: "cells_data N Q P C 1 0" and h: "rm_head m < N" and ub: "rs_ubatch_ok N ub"
  shows "\<exists>m1 r. fold_res (slot_usable_step ub) [0..<ub_n_seqs ub] (m, \<lparr>sr_next = first_empty (rm_size m) m (rm_head m), sr_min = int (rm_size m) - 1, sr_max = 0\<rparr>) = Inr (m1, r)
    \<and> nat (sr_max r) < N
    \<and> gather_inv N ub T P C m (nat (sr_min r)) (nat (sr_max r)) (ub_n_seqs ub) (fold (slot_gather_step ub (nat (sr_min r))) [0..<ub_n_seqs ub] m1)"
proof -
  let ?n = "ub_n_seqs ub"
  have n: "0 < ?n" using ub by (simp add: rs_ubatch_ok_def)
  note S = ubatch_sets [OF ub]
  have f: "\<forall>k < ?n. first_seq ub k \<in> seqs N" using S(1,2) by blast
  obtain m1 r where r: "fold_res (slot_usable_step ub) [0..<?n] (m, \<lparr>sr_next = first_empty (rm_size m) m (rm_head m), sr_min = int (rm_size m) - 1, sr_max = 0\<rparr>) = Inr (m1, r)"
    "usable_inv N ub T P C m ?n (m1, r)" using usable_loop [OF usable_start [OF v l d h] f S(4) order_refl] by auto
  obtain T1 Q1 P1 C1 where i: "rview N T1 Q1 P1 C1 m1" "only_cells m m1" "links N T1 Q1 (first_seq ub ` {..<?n})" "\<forall>s \<in> seqs N. keeps N T P C T1 P1 C1 s"
    "\<forall>s \<in> seqs N - first_seq ub ` {..<?n}. T1 s = T s" "cells_data N Q1 P1 C1 (sr_min r) (sr_max r)" "fresh N T T1 C1"
    "\<forall>j < ?n. sr_min r \<le> T1 (first_seq ub j) \<and> T1 (first_seq ub j) \<le> sr_max r" "0 \<le> sr_min r \<and> sr_max r < int N"
    using r(2) n unfolding usable_inv_def by auto
  have b: "int (nat (sr_min r)) = sr_min r" "int (nat (sr_max r)) = sr_max r" "nat (sr_max r) < N" using i(8,9) n by force+
  have "gather_inv N ub T P C m (nat (sr_min r)) (nat (sr_max r)) 0 m1"
    unfolding gather_inv_def b using i(1-8) by (intro exI [of _ T1] exI [of _ Q1] exI [of _ P1] exI [of _ C1] conjI) simp_all
  from gather_loop [OF this b(3) S(4) order_refl] show ?thesis using r(1) b(3) by blast
qed

subsection \<open>The rows read by the next graph\<close>

text \<open>The graph reads the state of a cell in the range from the row \<open>src0\<close> of that cell and leaves all other rows in place.\<close>

definition read_row :: "memory_recurrent \<Rightarrow> nat \<Rightarrow> int" where
  "read_row m x = (if rm_head m \<le> x \<and> x < rm_head m + rm_n m then mc_src0 (rcell m x) else int x)"

text \<open>What a successful \<open>find_slot\<close> has done, given the cells \<open>T\<close> and the positions \<open>P\<close> of the sequences before.\<close>

definition rs_placed :: "nat \<Rightarrow> llama_ubatch \<Rightarrow> (int \<Rightarrow> int) \<Rightarrow> (nat \<Rightarrow> int) \<Rightarrow> memory_recurrent \<Rightarrow> bool" where
  "rs_placed N ub T P m \<longleftrightarrow> rm_head m + ub_n_seqs ub \<le> rm_head m + rm_n m \<and> rm_head m + rm_n m \<le> N
     \<and> (\<forall>k < ub_n_seqs ub. seqs_of m (rm_head m + k) = set (set_seqs ub k) \<and> pos_of m (rm_head m + k) = last_pos ub k)
     \<and> (\<forall>k < ub_n_seqs ub. T (first_seq ub k) < 0 \<longrightarrow> (\<forall>s \<in> seqs N. 0 \<le> T s \<longrightarrow> read_row m (rm_head m + k) \<noteq> T s))
     \<and> (\<forall>s \<in> seqs N. 0 \<le> T s \<longrightarrow> read_row m (nat (tail_of m s)) = T s)
     \<and> (\<forall>s \<in> seqs N - batch_seqs ub (ub_n_seqs ub). rs_pos m s = (if T s < 0 then None else Some (P (nat (T s)))))"

lemma cells_data_store:
  assumes d: "cells_data N Q P C lo hi" and ub: "rs_ubatch_ok N ub" and n: "n = ub_n_seqs ub"
    and new: "\<forall>k < n. Q' (a + k) = set (set_seqs ub k) \<and> P' (a + k) = last_pos ub k" and old: "\<forall>x. x < a \<or> a + n \<le> x \<longrightarrow> Q' x = Q x \<and> P' x = P x"
  shows "cells_data N Q' P' C lo hi"
  unfolding cells_data_def
proof (intro allI impI)
  fix x assume x: "x < N"
  have dx: "(Q x = {} \<longrightarrow> P x = -1) \<and> (Q x \<noteq> {} \<longrightarrow> 0 \<le> P x) \<and> -1 \<le> C x \<and> C x < int N \<and> (C x = -1 \<or> C x = int x \<or> lo \<le> int x \<and> int x \<le> hi)"
    using d x by (simp add: cells_data_def)
  show "(Q' x = {} \<longrightarrow> P' x = -1) \<and> (Q' x \<noteq> {} \<longrightarrow> 0 \<le> P' x) \<and> -1 \<le> C x \<and> C x < int N \<and> (C x = -1 \<or> C x = int x \<or> lo \<le> int x \<and> int x \<le> hi)"
  proof (cases "a \<le> x \<and> x < a + n")
    case True
    then obtain k where "x = a + k" "k < n" by (metis le_add_diff_inverse add_less_cancel_left)
    then show ?thesis using new ub dx unfolding n rs_ubatch_ok_def by auto
  next
    case False
    then show ?thesis using old dx by auto
  qed
qed

lemma row_source:
  assumes l: "links N T Q {}" and own: "\<forall>x < N. Q x \<noteq> {} \<longrightarrow> C x = int x" and k: "keeps N T P C T1 P1 C1 s" and s: "s \<in> seqs N" "0 \<le> T s"
  shows "0 \<le> T1 s" "C1 (nat (T1 s)) = T s" "P1 (nat (T1 s)) = P (nat (T s))"
proof -
  have "s \<in> Q (nat (T s))" "nat (T s) < N" using linksD(2,4) [OF l s(1)] s(2) by auto
  then have "C (nat (T s)) = T s" using own s(2) by auto
  then show "0 \<le> T1 s" "C1 (nat (T1 s)) = T s" "P1 (nat (T1 s)) = P (nat (T s))" using k s(2) by (simp_all add: keeps_def)
qed

lemma shared_no_tail:
  fixes T :: "int \<Rightarrow> int"
  assumes l1: "links N T1 Q1 K" and oth: "\<forall>s \<in> seqs N - first_seq ub ` {..<ub_n_seqs ub}. 0 \<le> T1 s \<longleftrightarrow> 0 \<le> T s"
    and sh: "\<And>s. s \<in> shared_seqs ub \<Longrightarrow> T s = -1" and ub: "rs_ubatch_ok N ub" and k: "k < ub_n_seqs ub" and q: "q \<in> set (set_seqs ub k) - {first_seq ub k}"
  shows "T1 q = -1"
proof -
  note S = ubatch_sets [OF ub]
  have qN: "q \<in> seqs N" using S(1) [OF k] q by blast
  have "q \<notin> first_seq ub ` {..<ub_n_seqs ub}"
  proof
    assume "q \<in> first_seq ub ` {..<ub_n_seqs ub}"
    then obtain k' where "k' < ub_n_seqs ub" "q = first_seq ub k'" by blast
    then show False using S(3) [OF k, of k' q] S(2) [of k'] q by blast
  qed
  moreover have "T q = -1" by (rule sh) (use k q in \<open>auto simp: shared_seqs_def\<close>)
  ultimately have "\<not> 0 \<le> T1 q" using bspec [OF oth, of q] qN by simp
  then show ?thesis using linksD(2) [OF l1 qN] by simp
qed

text \<open>After the gathering, the cells \<open>lo\<close>, \<open>lo + 1\<close>, \<open>\<dots>\<close> belong to the sets.\<close>

definition gathered :: "nat \<Rightarrow> llama_ubatch \<Rightarrow> nat \<Rightarrow> nat \<Rightarrow> (int \<Rightarrow> int) \<Rightarrow> (nat \<Rightarrow> int) \<Rightarrow> (int \<Rightarrow> int) \<Rightarrow> (nat \<Rightarrow> int set) \<Rightarrow> (nat \<Rightarrow> int) \<Rightarrow> (nat \<Rightarrow> int) \<Rightarrow> bool" where
  "gathered N ub lo hi T P T1 Q1 P1 C1 \<longleftrightarrow> links N T1 Q1 (first_seq ub ` {..<ub_n_seqs ub})
     \<and> (\<forall>s \<in> seqs N - first_seq ub ` {..<ub_n_seqs ub}. 0 \<le> T1 s \<longleftrightarrow> 0 \<le> T s) \<and> cells_data N Q1 P1 C1 (int lo) (int hi)
     \<and> fresh N T T1 C1 \<and> (\<forall>k < ub_n_seqs ub. T1 (first_seq ub k) = int (lo + k) \<and> lo + k \<le> hi)
     \<and> (\<forall>s \<in> seqs N. 0 \<le> T s \<longrightarrow> 0 \<le> T1 s \<and> C1 (nat (T1 s)) = T s \<and> P1 (nat (T1 s)) = P (nat (T s)))"

lemma gatheredD:
  assumes "gathered N ub lo hi T P T1 Q1 P1 C1"
  shows "links N T1 Q1 (first_seq ub ` {..<ub_n_seqs ub})" "\<forall>s \<in> seqs N - first_seq ub ` {..<ub_n_seqs ub}. 0 \<le> T1 s \<longleftrightarrow> 0 \<le> T s"
    "cells_data N Q1 P1 C1 (int lo) (int hi)" "fresh N T T1 C1" "\<forall>k < ub_n_seqs ub. T1 (first_seq ub k) = int (lo + k)" "k < ub_n_seqs ub \<Longrightarrow> lo + k \<le> hi"
    "s \<in> seqs N \<Longrightarrow> 0 \<le> T s \<Longrightarrow> 0 \<le> T1 s" "s \<in> seqs N \<Longrightarrow> 0 \<le> T s \<Longrightarrow> C1 (nat (T1 s)) = T s"
    "s \<in> seqs N \<Longrightarrow> 0 \<le> T s \<Longrightarrow> P1 (nat (T1 s)) = P (nat (T s))"
    "x < N \<Longrightarrow> \<not> (lo \<le> x \<and> x \<le> hi) \<Longrightarrow> C1 x = -1 \<or> C1 x = int x" "s \<in> seqs N \<Longrightarrow> nat (T1 s) < N"
proof -
  show l: "links N T1 Q1 (first_seq ub ` {..<ub_n_seqs ub})" and d: "cells_data N Q1 P1 C1 (int lo) (int hi)" using assms unfolding gathered_def by blast+
  show "x < N \<Longrightarrow> \<not> (lo \<le> x \<and> x \<le> hi) \<Longrightarrow> C1 x = -1 \<or> C1 x = int x" using d unfolding cells_data_def by auto
  show "s \<in> seqs N \<Longrightarrow> nat (T1 s) < N" using linksD(2) [OF l, of s] by auto
qed (use assms in \<open>unfold gathered_def, blast\<close>)+

lemma gathered_own:
  assumes g: "gathered N ub lo hi T P T1 Q1 P1 C1" and x: "x < N" "Q1 x \<noteq> {}" "\<not> (lo \<le> x \<and> x \<le> hi)"
  shows "C1 x = int x"
proof -
  obtain s where "s \<in> Q1 x" using x(2) by blast
  then have t: "T1 s = int x" "s \<in> seqs N" using linksD(1,3) [OF gatheredD(1) [OF g] x(1)] by blast+
  have "s \<notin> first_seq ub ` {..<ub_n_seqs ub}" using t(1) gatheredD(5,6) [OF g] x(3) by fastforce
  then have "0 \<le> T s" using bspec [OF gatheredD(2) [OF g], of s] t by simp
  then have "C1 x \<noteq> -1" using gatheredD(8) [OF g t(2)] t(1) by auto
  then show ?thesis using gatheredD(10) [OF g x(1,3)] by blast
qed

lemma gathered_apart:
  assumes g: "gathered N ub lo hi T P T1 Q1 P1 C1" and ub: "rs_ubatch_ok N ub" and s: "s \<in> seqs N" "s \<notin> batch_seqs ub (ub_n_seqs ub)" "0 \<le> T1 s"
  shows "nat (T1 s) < lo \<or> lo + ub_n_seqs ub \<le> nat (T1 s)"
proof -
  have "nat (T1 s) \<noteq> lo + k" if k: "k < ub_n_seqs ub" for k
  proof
    assume "nat (T1 s) = lo + k"
    then have "T1 s = T1 (first_seq ub k)" using gatheredD(5) [OF g] k s(3) by auto
    then have "s = first_seq ub k" using linksD(6) [OF gatheredD(1) [OF g] _ s(1)] k by blast
    then show False using s(2) ubatch_sets(2) [OF ub k] k by blast
  qed
  then show ?thesis by (metis add_less_cancel_left le_add_diff_inverse not_le)
qed

text \<open>After the stores and the sources.\<close>

definition stored :: "llama_ubatch \<Rightarrow> nat \<Rightarrow> nat \<Rightarrow> (int \<Rightarrow> int) \<Rightarrow> (nat \<Rightarrow> int set) \<Rightarrow> (nat \<Rightarrow> int) \<Rightarrow> (int \<Rightarrow> int) \<Rightarrow> (nat \<Rightarrow> int set) \<Rightarrow> (nat \<Rightarrow> int) \<Rightarrow> bool" where
  "stored ub lo n T1 Q1 P1 T2 Q2 P2 \<longleftrightarrow> (\<forall>k < n. (\<forall>q \<in> set (set_seqs ub k). T2 q = int (lo + k)) \<and> Q2 (lo + k) = set (set_seqs ub k) \<and> P2 (lo + k) = last_pos ub k)
     \<and> (\<forall>q. q \<notin> batch_seqs ub n \<longrightarrow> T2 q = T1 q) \<and> (\<forall>x. x < lo \<or> lo + n \<le> x \<longrightarrow> Q2 x = Q1 x \<and> P2 x = P1 x)"

definition sources :: "nat \<Rightarrow> nat \<Rightarrow> nat \<Rightarrow> (nat \<Rightarrow> int) \<Rightarrow> memory_recurrent \<Rightarrow> bool" where
  "sources N lo hi C1 m \<longleftrightarrow> rm_head m = lo \<and> rm_n m = hi - lo + 1
     \<and> (\<forall>x. lo \<le> x \<and> x \<le> hi \<longrightarrow> mc_src0 (rcell m x) = (if C1 x = -1 then rm_rs_z m else C1 x))
     \<and> ((\<exists>x. lo \<le> x \<and> x \<le> hi \<and> C1 x = -1) \<longrightarrow> (\<exists>z. rm_rs_z m = int z \<and> lo \<le> z \<and> z \<le> hi \<and> (\<forall>y < N. C1 y \<noteq> int z)))"

lemma sources_row: "sources N lo hi C1 m \<Longrightarrow> lo \<le> hi \<Longrightarrow> read_row m x = (if lo \<le> x \<and> x \<le> hi then if C1 x = -1 then rm_rs_z m else C1 x else int x)"
  by (auto simp: sources_def read_row_def)

lemma fresh_row:
  assumes g: "gathered N ub lo hi T P T1 Q1 P1 C1" and so: "sources N lo hi C1 m" and lo: "lo \<le> hi" and ub: "rs_ubatch_ok N ub"
    and k: "k < ub_n_seqs ub" "T (first_seq ub k) < 0" and s: "s \<in> seqs N" "0 \<le> T s"
  shows "read_row m (lo + k) \<noteq> T s"
proof -
  have fN: "first_seq ub k \<in> seqs N" using ubatch_sets(1,2) [OF ub k(1)] by blast
  have t1: "T1 (first_seq ub k) = int (lo + k)" using gatheredD(5) [OF g] k(1) by blast
  have f: "fresh_src N T (C1 (lo + k))" using bspec [OF gatheredD(4) [OF g, unfolded fresh_def] fN] k(2) unfolding t1 nat_int by simp
  note row = sources_row [OF so lo, of "lo + k"] and room = gatheredD(6) [OF g k(1)]
  show ?thesis
  proof (cases "C1 (lo + k) = -1")
    case True
    then obtain z where "rm_rs_z m = int z" "\<forall>y < N. C1 y \<noteq> int z" using so room unfolding sources_def by (meson le_add1)
    then show ?thesis using row True gatheredD(8,11) [OF g s(1)] s(2) room by auto
  next
    case False
    then show ?thesis using f row s(1) room unfolding fresh_src_def free_cell_def by auto
  qed
qed

lemma same_tail:
  assumes g: "gathered N ub lo hi T P T1 Q1 P1 C1" and st: "stored ub lo (ub_n_seqs ub) T1 Q1 P1 T2 Q2 P2"
    and sh: "\<And>s. s \<in> shared_seqs ub \<Longrightarrow> T s = -1" and s: "0 \<le> T s"
  shows "T2 s = T1 s"
proof (cases "s \<in> batch_seqs ub (ub_n_seqs ub)")
  case True
  then obtain k where k: "k < ub_n_seqs ub" "s \<in> set (set_seqs ub k)" by auto
  then have "s = first_seq ub k" using sh [of s] s unfolding shared_seqs_def by force
  then show ?thesis using st gatheredD(5) [OF g] k unfolding stored_def by auto
qed (use st in \<open>unfold stored_def, blast\<close>)

lemma stored_pos:
  assumes g: "gathered N ub lo hi T P T1 Q1 P1 C1" and st: "stored ub lo (ub_n_seqs ub) T1 Q1 P1 T2 Q2 P2" and v: "rview N T2 Q2 P2 C2 m"
    and ub: "rs_ubatch_ok N ub" and s: "s \<in> seqs N" "s \<notin> batch_seqs ub (ub_n_seqs ub)"
  shows "rs_pos m s = (if T s < 0 then None else Some (P (nat (T s))))"
proof -
  have t: "tail_of m s = T1 s" using rview_tail [OF v s(1)] st s(2) by (simp add: tail_of_def stored_def)
  show ?thesis
  proof (cases "T s < 0")
    case True
    moreover have "s \<notin> first_seq ub ` {..<ub_n_seqs ub}" using s(2) ubatch_sets(2) [OF ub] by auto
    ultimately have "T1 s < 0" using bspec [OF gatheredD(2) [OF g], of s] s(1) by simp
    then show ?thesis using True t by (simp add: rs_pos_def)
  next
    case False
    then have p: "0 \<le> T1 s" "P1 (nat (T1 s)) = P (nat (T s))" using gatheredD(7,9) [OF g s(1)] by auto
    then have "P2 (nat (T1 s)) = P1 (nat (T1 s))" using gathered_apart [OF g ub s p(1)] st unfolding stored_def by blast
    then show ?thesis using False p t rview_nth(3) [OF v gatheredD(11) [OF g s(1)]] by (simp add: rs_pos_def pos_of_def)
  qed
qed

definition same_cfg :: "memory_recurrent \<Rightarrow> memory_recurrent \<Rightarrow> bool" where
  "same_cfg m m' \<longleftrightarrow> rm_size m' = rm_size m \<and> rm_rs_idx m' = rm_rs_idx m \<and> rm_n_rs_seq m' = rm_n_rs_seq m \<and> rm_n_seq_max m' = rm_n_seq_max m"

lemma only_cells_cfg: "only_cells m m' \<Longrightarrow> same_cfg m m'"
  by (cases m; cases m') (simp add: only_cells_def same_cfg_def)

lemma same_rest_cfg: "same_rest m m' \<Longrightarrow> same_cfg m m'"
  by (simp add: same_cfg_def same_rest_fields)

lemma same_cfg_trans: "same_cfg a b \<Longrightarrow> same_cfg b c \<Longrightarrow> same_cfg a c"
  by (simp add: same_cfg_def)

lemma slot_places:
  assumes l: "links N T Q {}" and own: "\<forall>x < N. Q x \<noteq> {} \<longrightarrow> C x = int x" and sh: "\<And>s. s \<in> shared_seqs ub \<Longrightarrow> T s = -1"
    and ub: "rs_ubatch_ok N ub" and N: "N < 2 ^ 31" and gi: "gather_inv N ub T P C m0 lo hi (ub_n_seqs ub) m" and hi: "hi < N"
  shows "\<exists>m'. slot_finish ub lo hi (fold (slot_store_step ub lo) [0..<ub_n_seqs ub] m) = Inr (True, m') \<and> rs_wf N m' \<and> rs_placed N ub T P m' \<and> same_cfg m0 m'"
proof -
  let ?n = "ub_n_seqs ub" and ?f = "first_seq ub"
  have n: "0 < ?n" using ub by (simp add: rs_ubatch_ok_def)
  obtain T1 Q1 P1 C1 where v1: "rview N T1 Q1 P1 C1 m" and o1: "only_cells m0 m" and l1: "links N T1 Q1 (?f ` {..<?n})" and kp: "\<forall>s \<in> seqs N. keeps N T P C T1 P1 C1 s"
    and oth: "\<forall>s \<in> seqs N - ?f ` {..<?n}. 0 \<le> T1 s \<longleftrightarrow> 0 \<le> T s" and d1: "cells_data N Q1 P1 C1 (int lo) (int hi)"
    and rg: "\<forall>k < ?n. T1 (?f k) \<le> int hi" and fr: "fresh N T T1 C1" and at: "\<forall>k < ?n. T1 (?f k) = int (lo + k)"
    using gi unfolding gather_inv_def by auto
  have room: "lo + k \<le> hi" if "k < ?n" for k using rg at that by (metis of_nat_le_iff)
  then have lo: "lo \<le> hi" "lo + ?n \<le> N" "?n \<le> hi - lo + 1" using n hi room [of "?n - 1"] room [of 0] by linarith+
  have g: "gathered N ub lo hi T P T1 Q1 P1 C1" unfolding gathered_def using l1 oth d1 fr at room row_source [OF l own bspec [OF kp]] by blast
  obtain T2 Q2 P2 where v2: "rview N T2 Q2 P2 C1 (fold (slot_store_step ub lo) [0..<?n] m)" and st: "stored ub lo ?n T1 Q1 P1 T2 Q2 P2"
    and o2: "only_cells m (fold (slot_store_step ub lo) [0..<?n] m)"
    using store_loop_view [OF v1 ub lo(2) order_refl] unfolding stored_def by blast
  have none: "\<forall>k < ?n. \<forall>q \<in> set (set_seqs ub k) - {?f k}. T1 q = -1" using shared_no_tail [OF l1 oth sh ub] by blast
  have l2: "links N T2 Q2 {}" by (rule links_store [OF l1 refl ub lo(2) at none]) (use st in \<open>simp_all add: stored_def\<close>)
  have d2: "cells_data N Q2 P2 C1 (int lo) (int hi)" by (rule cells_data_store [OF d1 ub refl, where a = lo]) (use st in \<open>simp_all add: stored_def\<close>)
  obtain m' where m': "slot_finish ub lo hi (fold (slot_store_step ub lo) [0..<?n] m) = Inr (?n \<le> hi - lo + 1, m')" "rview N T2 Q2 P2 (srcs lo (Suc hi) C1) m'"
    "sources N lo hi C1 m'" "rm_used m' = count_used m'" "same_cfg (fold (slot_store_step ub lo) [0..<?n] m) m'"
    using slot_finish_ok [OF v2 d2 lo(1) hi, of ub] rview_size [OF v2] rview_size unfolding sources_def same_cfg_def by metis
  have head: "rm_head m' = lo" "rm_n m' = hi - lo + 1" using m'(3) by (simp_all add: sources_def)
  have own2: "srcs lo (Suc hi) C1 x = int x" if x: "x < N" "Q2 x \<noteq> {}" for x
  proof (cases "lo \<le> x \<and> x \<le> hi")
    case False
    then have "x < lo \<or> lo + ?n \<le> x" using lo by linarith
    then have "Q1 x \<noteq> {}" using st x(2) unfolding stored_def by blast
    then show ?thesis using gathered_own [OF g x(1) _ False] by (simp add: srcs_def)
  qed (simp add: srcs_def)
  have "cells_data N Q2 P2 (srcs lo (Suc hi) C1) 1 0" using d2 gatheredD(10) [OF g] unfolding cells_data_def srcs_def by (auto simp: less_Suc_eq_le)
  then have "rs_wf N m'" by (rule rs_wfI [OF m'(2) l2]) (use own2 N head m'(4) lo hi in auto)
  moreover have "rs_placed N ub T P m'"
  proof -
    have view: "tail_of m' s = T2 s" if "s \<in> seqs N" for s unfolding tail_of_def by (rule rview_tail [OF m'(2) that])
    have cell: "seqs_of m' (lo + k) = set (set_seqs ub k)" "pos_of m' (lo + k) = last_pos ub k" if "k < ?n" for k
      using rview_nth [OF m'(2), of "lo + k"] st that room [OF that] hi by (simp_all add: seqs_of_def pos_of_def stored_def)
    have rows: "read_row m' (nat (T2 s)) = T s" if s: "s \<in> seqs N" "0 \<le> T s" for s
      using sources_row [OF m'(3) lo(1), of "nat (T1 s)"] same_tail [OF g st sh s(2)] gatheredD(7,8) [OF g s] gatheredD(10) [OF g gatheredD(11) [OF g s(1)]] s(2) by auto
    show ?thesis unfolding rs_placed_def head using cell fresh_row [OF g m'(3) lo(1) ub] stored_pos [OF g st m'(2) ub] rows view lo hi by simp
  qed
  moreover have "same_cfg m0 m'" by (meson same_cfg_trans only_cells_cfg o1 o2 m'(5))
  ultimately show ?thesis using m'(1) lo(3) by auto
qed

text \<open>\<open>find_slot\<close> on a ubatch of disjoint sets in range.\<close>

lemma find_slot_ok:
  assumes wf: "rs_wf N m" and ub: "rs_ubatch_ok N ub"
  shows "\<exists>m' T P. rm_find_slot ub m = Inr (True, m') \<and> rs_wf N m' \<and> rs_placed N ub T P m' \<and> same_cfg m m' \<and> (\<forall>s. T s = (if s \<in> shared_seqs ub then -1 else tail_of m s))
    \<and> (\<forall>s \<in> seqs N - shared_seqs ub. 0 \<le> T s \<longrightarrow> P (nat (T s)) = pos_of m (nat (T s)))"
proof -
  let ?m = "if int (rm_head m) > to_u32 (int (rm_used m + 2 * ub_n_seqs ub)) then m\<lparr>rm_head := 0\<rparr> else m"
  have w: "0 < N" "N < 2 ^ 31" "rm_head ?m < N" "links N (tail_of m) (seqs_of m) {}" "cells_data N (seqs_of m) (pos_of m) (src_of m) 1 0"
    "\<forall>x < N. seqs_of m x \<noteq> {} \<longrightarrow> src_of m x = int x" using wf by (simp_all add: rs_wf_def)
  have v: "rview N (tail_of m) (seqs_of m) (pos_of m) (src_of m) ?m" using rs_wf_view [OF wf] by simp
  obtain m1 T Q P C where c: "slot_check ub ?m = (True, m1)" and v1: "rview N T Q P C m1" and l1: "links N T Q {}" and d1: "cells_data N Q P C 1 0"
    and r1: "same_rest ?m m1" and T: "\<forall>s. T s = (if s \<in> shared_seqs ub then -1 else tail_of m s)"
    and kp: "\<forall>s \<in> seqs N - shared_seqs ub. keeps N (tail_of m) (pos_of m) (src_of m) T P C s"
    using slot_check_ok [OF v w(4,5) ub w(2)] by blast
  have h1: "rm_head m1 < N" using same_rest_fields(1) [OF r1] w(3) by simp
  have own: "\<forall>x < N. Q x \<noteq> {} \<longrightarrow> C x = int x"
  proof (intro allI impI)
    fix x assume x: "x < N" "Q x \<noteq> {}"
    then obtain s where "s \<in> Q x" by blast
    then have s: "T s = int x" "s \<in> seqs N" using linksD(1,3) [OF l1 x(1)] by blast+
    then have t: "tail_of m s = int x" "s \<in> seqs N - shared_seqs ub" using T [rule_format, of s] by (auto split: if_splits)
    from row_source(2) [OF w(4,6) bspec [OF kp t(2)] s(2)] s(1) t(1) show "C x = int x" by simp
  qed
  obtain m2 r where u: "fold_res (slot_usable_step ub) [0..<ub_n_seqs ub] (m1, \<lparr>sr_next = first_empty (rm_size m1) m1 (rm_head m1), sr_min = int (rm_size m1) - 1, sr_max = 0\<rparr>) = Inr (m2, r)"
    "nat (sr_max r) < N" "gather_inv N ub T P C m1 (nat (sr_min r)) (nat (sr_max r)) (ub_n_seqs ub) (fold (slot_gather_step ub (nat (sr_min r))) [0..<ub_n_seqs ub] m2)"
    using gather_all [OF v1 l1 d1 h1 ub] by blast
  obtain m' where m': "slot_finish ub (nat (sr_min r)) (nat (sr_max r)) (fold (slot_store_step ub (nat (sr_min r))) [0..<ub_n_seqs ub]
      (fold (slot_gather_step ub (nat (sr_min r))) [0..<ub_n_seqs ub] m2)) = Inr (True, m')" "rs_wf N m'" "rs_placed N ub T P m'" "same_cfg m1 m'"
    using slot_places [OF l1 own _ ub w(2) u(3,2)] T by auto
  have "rm_find_slot ub m = Inr (True, m')" using c u(1) m'(1) ub by (simp add: rm_find_slot_def rs_ubatch_ok_def Let_def)
  moreover have "P (nat (T s)) = pos_of m (nat (T s))" if "s \<in> seqs N - shared_seqs ub" "0 \<le> T s" for s
    using bspec [OF kp that(1)] that T [rule_format, of s] by (auto simp: keeps_def)
  moreover have c0: "same_cfg m ?m" by (simp add: same_cfg_def)
  have "same_cfg m m'" by (rule same_cfg_trans [OF c0 same_cfg_trans [OF same_rest_cfg [OF r1] m'(4)]])
  ultimately show ?thesis using m'(2,3) T by blast
qed

end
