(* ===== verification/Recurrent_Ops.thy ===== *)
theory Recurrent_Ops
  imports Recurrent_Find
begin

section \<open>The sequence operations of the recurrent memory\<close>

text \<open>
  The sequence operations keep the invariant, and act on the positions of the sequences like the updates of a map from sequences to
  positions.
\<close>

subsection \<open>The number of cells in use\<close>

definition n_cells :: "nat \<Rightarrow> (nat \<Rightarrow> int set) \<Rightarrow> nat" where
  "n_cells N Q = card {x. x < N \<and> Q x \<noteq> {}}"

lemma count_used_view:
  assumes "rview N T Q P C m"
  shows "count_used m = n_cells N Q"
proof -
  have "count_used m = card {i. i < length (rm_cells m) \<and> \<not> mc_is_empty (rm_cells m ! i)}"
    by (simp add: count_used_def length_filter_conv_card)
  also have "{i. i < length (rm_cells m) \<and> \<not> mc_is_empty (rm_cells m ! i)} = {x. x < N \<and> Q x \<noteq> {}}"
    using assms by (auto simp: rview_def rcell_def mc_is_empty_def)
  finally show ?thesis by (simp add: n_cells_def)
qed

lemma n_cells_left:
  assumes "x < N" "Q x \<noteq> {}"
  shows "n_cells N (Q(x := {})) = n_cells N Q - 1" "0 < n_cells N Q"
proof -
  let ?S = "{y. y < N \<and> Q y \<noteq> {}}"
  have "{y. y < N \<and> (Q(x := {})) y \<noteq> {}} = ?S - {x}" by auto
  moreover have "x \<in> ?S" "finite ?S" using assms by simp_all
  ultimately show "n_cells N (Q(x := {})) = n_cells N Q - 1" "0 < n_cells N Q" unfolding n_cells_def by (auto simp: card_gt_0_iff)
qed

lemma n_cells_cong: "(\<And>x. x < N \<Longrightarrow> Q x = {} \<longleftrightarrow> Q' x = {}) \<Longrightarrow> n_cells N Q = n_cells N Q'"
  unfolding n_cells_def by (metis (no_types, lifting))

text \<open>A well-formed memory, seen through its view.\<close>

definition rs_view_ok :: "nat \<Rightarrow> (int \<Rightarrow> int) \<Rightarrow> (nat \<Rightarrow> int set) \<Rightarrow> (nat \<Rightarrow> int) \<Rightarrow> (nat \<Rightarrow> int) \<Rightarrow> bool" where
  "rs_view_ok N T Q P C \<longleftrightarrow> links N T Q {} \<and> cells_data N Q P C 1 0 \<and> (\<forall>x < N. Q x \<noteq> {} \<longrightarrow> C x = int x)"

lemma rs_wf_intro:
  assumes "rview N T Q P C m" "rs_view_ok N T Q P C" "0 < N" "N < 2 ^ 31" "rm_head m < N" "rm_used m = n_cells N Q"
  shows "rs_wf N m"
  using rs_wfI [OF assms(1), of 1 0] assms(2-) count_used_view [OF assms(1)] unfolding rs_view_ok_def by simp

lemma rs_wf_elim:
  assumes "rs_wf N m"
  shows "rview N (tail_of m) (seqs_of m) (pos_of m) (src_of m) m" "rs_view_ok N (tail_of m) (seqs_of m) (pos_of m) (src_of m)"
    "0 < N" "N < 2 ^ 31" "rm_head m < N" "rm_used m = n_cells N (seqs_of m)" "rm_size m = N" "length (rm_cells m) = N"
  using assms rs_wf_view [OF assms] count_used_view [OF rs_wf_view [OF assms]] by (simp_all add: rs_wf_def rs_view_ok_def)

lemma rs_view_okD:
  assumes "rs_view_ok N T Q P C"
  shows "links N T Q {}" "cells_data N Q P C 1 0" "\<forall>x < N. Q x \<noteq> {} \<longrightarrow> C x = int x"
  using assms by (simp_all add: rs_view_ok_def)

lemma rs_pos_view: "rview N T Q P C m \<Longrightarrow> s \<in> seqs N \<Longrightarrow> T s < int N \<Longrightarrow> rs_pos m s = (if T s < 0 then None else Some (P (nat (T s))))"
  using rview_tail [of N T Q P C m s] rview_nth(3) [of N T Q P C m "nat (T s)"] by (simp add: rs_pos_def tail_of_def pos_of_def)

lemma rs_pos_links: "rview N T Q P C m \<Longrightarrow> links N T Q {} \<Longrightarrow> s \<in> seqs N \<Longrightarrow> rs_pos m s = (if T s < 0 then None else Some (P (nat (T s))))"
  using rs_pos_view linksD(2) by blast

subsection \<open>A sequence leaves its cell\<close>

lemma drop_view_ok:
  assumes "rs_view_ok N T Q P C" "s \<in> seqs N"
  shows "rs_view_ok N (T(s := -1)) (left_cell s T Q) (wiped s T Q P) (wiped s T Q C)"
proof -
  note w = rs_view_okD [OF assms(1)]
  have "wiped s T Q C x = int x" if "x < N" "left_cell s T Q x \<noteq> {}" for x
    using w(3) that by (auto simp: wiped_def left_cell_def split: if_splits)
  then show ?thesis unfolding rs_view_ok_def using links_drop [OF w(1) assms(2)] cells_data_drop [OF w(1) assms(2) w(2)] by blast
qed

lemma n_cells_drop:
  assumes l: "links N T Q {}" and s: "s \<in> seqs N"
  shows "n_cells N (left_cell s T Q) = (if 0 \<le> T s \<and> Q (nat (T s)) = {s} then n_cells N Q - 1 else n_cells N Q)"
    "0 \<le> T s \<and> Q (nat (T s)) = {s} \<Longrightarrow> 0 < n_cells N Q"
proof -
  have t: "nat (T s) < N" "s \<in> Q (nat (T s))" if "0 \<le> T s" using linksD(2,4) [OF l s] that by auto
  show "n_cells N (left_cell s T Q) = (if 0 \<le> T s \<and> Q (nat (T s)) = {s} then n_cells N Q - 1 else n_cells N Q)"
  proof (cases "0 \<le> T s \<and> Q (nat (T s)) = {s}")
    case True
    then show ?thesis using n_cells_left(1) [of "nat (T s)" N Q] t by (simp add: left_cell_def)
  next
    case False
    then have "n_cells N (left_cell s T Q) = n_cells N Q" using t by (intro n_cells_cong) (auto simp: left_cell_def)
    then show ?thesis using False by auto
  qed
  show "0 \<le> T s \<and> Q (nat (T s)) = {s} \<Longrightarrow> 0 < n_cells N Q" using n_cells_left(2) [of "nat (T s)" N Q] t by auto
qed

lemma drop_used:
  assumes v: "rview N T Q P C m" and l: "links N T Q {}" and s: "s \<in> seqs N" and u: "rm_used m = n_cells N Q"
  shows "rm_used (drop_tail s m) = n_cells N (left_cell s T Q)"
  unfolding drop_tail_view(3) [OF v l s] n_cells_drop(1) [OF l s] using n_cells_drop(2) [OF l s] u by (auto simp: dec_u32_def)

lemma drop_tail_wf:
  assumes wf: "rs_wf N m" and s: "s \<in> seqs N"
  shows "rs_wf N (drop_tail s m)" "q \<in> seqs N \<Longrightarrow> rs_pos (drop_tail s m) q = (if q = s then None else rs_pos m q)"
proof -
  note w = rs_wf_elim [OF wf] and o = rs_view_okD [OF rs_wf_elim(2) [OF wf]]
  note v = drop_tail_view [OF w(1) o(1) s]
  show "rs_wf N (drop_tail s m)"
    by (rule rs_wf_intro [OF v(1) drop_view_ok [OF w(2) s] w(3,4)])
      (use w(5,6) same_rest_fields(1) [OF v(2)] drop_used [OF w(1) o(1) s w(6)] in simp_all)
  assume q: "q \<in> seqs N"
  have l': "links N ((tail_of m)(s := -1)) (left_cell s (tail_of m) (seqs_of m)) {}" by (rule links_drop [OF o(1) s])
  have "rs_pos m q = (if tail_of m q < 0 then None else Some (pos_of m (nat (tail_of m q))))" by (simp add: rs_pos_def)
  moreover have "q \<noteq> s \<Longrightarrow> keeps N (tail_of m) (pos_of m) (src_of m) ((tail_of m)(s := -1)) (wiped s (tail_of m) (seqs_of m) (pos_of m)) (wiped s (tail_of m) (seqs_of m) (src_of m)) q"
    by (rule keeps_drop [OF o(1) q])
  ultimately show "rs_pos (drop_tail s m) q = (if q = s then None else rs_pos m q)"
    using rs_pos_links [OF v(1) l' q] by (auto simp: keeps_def)
qed

subsection \<open>\<open>seq_rm\<close>\<close>

lemma rs_wf_fields [simp]: "rs_wf N (m\<lparr>rm_rs_idx := r\<rparr>) = rs_wf N m" "rs_wf N (set_rs_idx s k m) = rs_wf N m"
  by (simp_all add: rs_wf_def tail_of_def [abs_def] seqs_of_def [abs_def] pos_of_def [abs_def] src_of_def [abs_def] count_used_def set_rs_idx_def)

lemma rs_wf_head: "rs_wf N m \<Longrightarrow> h < N \<Longrightarrow> rs_wf N (m\<lparr>rm_head := h\<rparr>)"
  by (simp add: rs_wf_def tail_of_def [abs_def] seqs_of_def [abs_def] pos_of_def [abs_def] src_of_def [abs_def] count_used_def)

lemma rs_pos_fields [simp]: "rs_pos (m\<lparr>rm_rs_idx := r\<rparr>) = rs_pos m" "rs_pos (m\<lparr>rm_head := h\<rparr>) = rs_pos m" "rs_pos (set_rs_idx s k m) = rs_pos m"
  by (simp_all add: fun_eq_iff rs_pos_def tail_of_def pos_of_def set_rs_idx_def)

lemma set_rs_idx_fields [simp]:
  "rm_size (set_rs_idx s k m) = rm_size m" "rcell (set_rs_idx s k m) = rcell m" "rm_n_rs_seq (set_rs_idx s k m) = rm_n_rs_seq m"
  "tail_of (set_rs_idx s k m) = tail_of m" "rm_head (set_rs_idx s k m) = rm_head m" "rm_cells (set_rs_idx s k m) = rm_cells m"
  by (simp_all add: set_rs_idx_def tail_of_def [abs_def])

lemma set_head_wf: "rs_wf N m \<Longrightarrow> h \<le> N \<Longrightarrow> rs_wf N (rm_set_head (m, h))"
  by (auto simp: rm_set_head_def intro!: rs_wf_head dest: rs_wf_elim(5))

lemma set_head_pos [simp]: "rs_pos (rm_set_head (m, h)) = rs_pos m"
  by (simp add: rm_set_head_def)

lemma fold_skip: "(\<And>i. i \<in> set xs \<Longrightarrow> f i st = st) \<Longrightarrow> fold f xs st = st"
  by (induction xs) auto

lemma rm_cell_skip:
  "0 \<le> s \<Longrightarrow> \<not> (s \<in> mc_seq_id (rcell m i) \<and> p0 \<le> mc_pos (rcell m i) \<and> mc_pos (rcell m i) < p1) \<Longrightarrow> rm_seq_rm_cell s p0 p1 i (m, h) = (m, h)"
  by (auto simp: rm_seq_rm_cell_def mc_has_seq_id_def)

lemma upd_cell_commute:
  "(\<And>c. f (g c) = g (f c)) \<Longrightarrow> upd_cell i f (upd_cell j g m) = upd_cell j g (upd_cell i f m)"
  by (cases "i = j"; cases "i < length (rm_cells m)") (simp_all add: upd_cell_def list_update_swap list_update_beyond)

text \<open>Removing a whole sequence from its only cell.\<close>

lemma rm_cell_drop:
  assumes wf: "rs_wf N m" and s: "s \<in> seqs N" "0 \<le> tail_of m s" and p: "p0 \<le> pos_of m (nat (tail_of m s))" "pos_of m (nat (tail_of m s)) < p1"
  shows "\<exists>h' \<le> N. rm_seq_rm_cell s p0 p1 (nat (tail_of m s)) (upd_cell (nat s) (\<lambda>c. c\<lparr>mc_tail := -1\<rparr>) m, N) = (drop_tail s m, h')"
proof -
  let ?t = "nat (tail_of m s)" and ?m1 = "upd_cell (nat s) (\<lambda>c. c\<lparr>mc_tail := -1\<rparr>) m"
  note w = rs_wf_elim [OF wf] and o = rs_view_okD [OF rs_wf_elim(2) [OF wf]]
  have t: "?t < N" "s \<in> seqs_of m ?t" using linksD(2,4) [OF o(1) s(1)] s(2) by auto
  then have pp: "0 \<le> pos_of m ?t" using o(2) by (auto simp: cells_data_def)
  have c1: "mc_seq_id (rcell ?m1 ?t) = seqs_of m ?t" "mc_pos (rcell ?m1 ?t) = pos_of m ?t" by (simp_all add: rcell_upd seqs_of_def pos_of_def)
  have cm: "upd_cell ?t (\<lambda>c. c\<lparr>mc_seq_id := mc_seq_id c - {s}\<rparr>) ?m1 = upd_cell (nat s) (\<lambda>c. c\<lparr>mc_tail := -1\<rparr>) (upd_cell ?t (\<lambda>c. c\<lparr>mc_seq_id := mc_seq_id c - {s}\<rparr>) m)"
    by (rule upd_cell_commute) simp
  have p2: "mc_pos (rcell (upd_cell (nat s) (\<lambda>c. c\<lparr>mc_tail := -1\<rparr>) (upd_cell ?t (\<lambda>c. c\<lparr>mc_seq_id := mc_seq_id c - {s}\<rparr>) m)) ?t) = pos_of m ?t"
    using t w(8) by (simp add: rcell_upd pos_of_def)
  have d: "upd_cell i f (dec_used x) = dec_used (upd_cell i f x)" for i f x by (simp add: upd_cell_def dec_used_def)
  show ?thesis using s(1,2) p c1 t pp p2 w(7)
    by (simp add: rm_seq_rm_cell_def drop_tail_def tail_of_def [symmetric] mc_has_seq_id_def cm Let_def d)
qed

lemma rm_loop_none:
  assumes wf: "rs_wf N m" and s: "s \<in> seqs N" and p: "0 \<le> tail_of m s \<Longrightarrow> \<not> (p0 \<le> pos_of m (nat (tail_of m s)) \<and> pos_of m (nat (tail_of m s)) < p1)"
  shows "fold (rm_seq_rm_cell s p0 p1) [0..<N] (m, h) = (m, h)"
proof (rule fold_skip, rule rm_cell_skip)
  fix i assume i: "i \<in> set [0..<N]"
  have "tail_of m s = int i" if "s \<in> seqs_of m i" using linksD(3) [OF rs_view_okD(1) [OF rs_wf_elim(2) [OF wf]], of i s] i that by simp
  then show "\<not> (s \<in> mc_seq_id (rcell m i) \<and> p0 \<le> mc_pos (rcell m i) \<and> mc_pos (rcell m i) < p1)" using p by (auto simp: seqs_of_def pos_of_def)
qed (use s in simp)

lemma rm_loop_drop:
  assumes wf: "rs_wf N m" and s: "s \<in> seqs N" "0 \<le> tail_of m s" and p: "p0 \<le> pos_of m (nat (tail_of m s))" "pos_of m (nat (tail_of m s)) < p1"
  shows "\<exists>h' \<le> N. fold (rm_seq_rm_cell s p0 p1) [0..<N] (upd_cell (nat s) (\<lambda>c. c\<lparr>mc_tail := -1\<rparr>) m, N) = (drop_tail s m, h')"
proof -
  let ?t = "nat (tail_of m s)" and ?m1 = "upd_cell (nat s) (\<lambda>c. c\<lparr>mc_tail := -1\<rparr>) m"
  note l = rs_view_okD(1) [OF rs_wf_elim(2) [OF wf]]
  have t: "?t < N" using linksD(2) [OF l s(1)] s(2) by auto
  obtain h' where h': "h' \<le> N" "rm_seq_rm_cell s p0 p1 ?t (?m1, N) = (drop_tail s m, h')" using rm_cell_drop [OF assms] by blast
  have q: "s \<notin> mc_seq_id (rcell ?m1 i)" if "i < N" "i \<noteq> ?t" for i
  proof -
    have "mc_seq_id (rcell ?m1 i) = seqs_of m i" by (simp add: rcell_upd seqs_of_def)
    then show ?thesis using linksD(3) [OF l that(1), of s] that(2) by auto
  qed
  have q': "s \<notin> mc_seq_id (rcell (drop_tail s m) i)" if "i < N" for i
  proof -
    have "tail_of (drop_tail s m) s < 0" using drop_tail_wf(2) [OF wf s(1) s(1)] by (simp add: rs_pos_def split: if_splits)
    then show ?thesis using linksD(3) [OF rs_view_okD(1) [OF rs_wf_elim(2) [OF drop_tail_wf(1) [OF wf s(1)]]] that, of s] by (auto simp: seqs_of_def)
  qed
  have "[0..<N] = [0..<?t] @ ?t # [Suc ?t..<N]" using upt_add_eq_append [of 0 ?t "N - ?t"] upt_conv_Cons [OF t] t by simp
  then show ?thesis using h' fold_skip [of "[0..<?t]" "rm_seq_rm_cell s p0 p1" "(?m1, N)"] fold_skip [of "[Suc ?t..<N]" "rm_seq_rm_cell s p0 p1" "(drop_tail s m, h')"]
      rm_cell_skip [of s] q q' s(1) t by simp
qed

lemma pos_update_wf:
  assumes wf: "rs_wf N m" and t: "t < N" "seqs_of m t \<noteq> {}" and p: "\<And>c. mc_pos c = pos_of m t \<Longrightarrow> g c = p" "0 \<le> p"
  shows "rs_wf N (upd_cell t (\<lambda>c. c\<lparr>mc_pos := g c\<rparr>) m)"
    "q \<in> seqs N \<Longrightarrow> rs_pos (upd_cell t (\<lambda>c. c\<lparr>mc_pos := g c\<rparr>) m) q = (if tail_of m q = int t then Some p else rs_pos m q)"
proof -
  note w = rs_wf_elim [OF wf] and o = rs_view_okD [OF rs_wf_elim(2) [OF wf]]
  have v: "rview N (tail_of m) (seqs_of m) ((pos_of m)(t := p)) (src_of m) (upd_cell t (\<lambda>c. c\<lparr>mc_pos := g c\<rparr>) m)"
    using w(1) t(1) p(1) [of "rcell m t"] by (auto simp: rview_def rcell_upd pos_of_def)
  have "cells_data N (seqs_of m) ((pos_of m)(t := p)) (src_of m) 1 0" using o(2) t(2) p(2) unfolding cells_data_def by auto
  then have ok: "rs_view_ok N (tail_of m) (seqs_of m) ((pos_of m)(t := p)) (src_of m)" using o by (simp add: rs_view_ok_def)
  show "rs_wf N (upd_cell t (\<lambda>c. c\<lparr>mc_pos := g c\<rparr>) m)" by (rule rs_wf_intro [OF v ok w(3,4)]) (use w(5,6) in simp_all)
  assume q: "q \<in> seqs N"
  show "rs_pos (upd_cell t (\<lambda>c. c\<lparr>mc_pos := g c\<rparr>) m) q = (if tail_of m q = int t then Some p else rs_pos m q)"
    using rs_pos_links [OF v o(1) q] by (auto simp: rs_pos_def)
qed

text \<open>A sequence is removed as a whole, or rolled back by at most \<open>n_rs_seq\<close> tokens, together with the sequences that share its cell.\<close>

definition rm_hits :: "memory_recurrent \<Rightarrow> llama_seq_id \<Rightarrow> llama_pos \<Rightarrow> llama_pos \<Rightarrow> bool" where
  "rm_hits m s p0 p1 \<longleftrightarrow> (\<exists>p. rs_pos m s = Some p \<and> p0 \<le> p \<and> p < p1)"

definition rm_after :: "memory_recurrent \<Rightarrow> llama_seq_id \<Rightarrow> llama_pos \<Rightarrow> llama_seq_id \<Rightarrow> llama_pos option" where
  "rm_after m s p0 q = (if p0 \<le> 0 then if q = s then None else rs_pos m q else if tail_of m q = tail_of m s then Some (p0 - 1) else rs_pos m q)"

definition rm_clear_cells :: "nat \<Rightarrow> llama_seq_id \<Rightarrow> llama_pos \<Rightarrow> llama_pos \<Rightarrow> memory_recurrent \<Rightarrow> bool \<times> memory_recurrent" where
  "rm_clear_cells N s p0 p1 m = (True, rm_set_head (fold (rm_seq_rm_cell s p0 p1) [0..<N] (m, N)))"

lemma seq_rm_unfold:
  assumes s: "s \<in> seqs N" and m0: "m0 = (if range_lo p0 = 0 \<and> range_hi p1 = INT32_MAX then set_rs_idx s 0 m else m)" and N: "rm_size m = N"
  shows "rm_seq_rm s p0 p1 m = (let lo = range_lo p0; hi = range_hi p1; t = tail_of m s; p = pos_of m (nat t) in
    if t \<ge> 0 then
      if 0 < lo \<and> lo \<le> p \<and> p < hi then
        if p - (lo - 1) \<le> int (rm_n_rs_seq m) then (True, upd_cell (nat t) (\<lambda>c. c\<lparr>mc_pos := lo - 1\<rparr>) (set_rs_idx s (nat (p - (lo - 1))) m0)) else (False, m0)
      else if lo \<le> p \<and> p < hi then rm_clear_cells N s lo hi (upd_cell (nat s) (\<lambda>c. c\<lparr>mc_tail := -1\<rparr>) m0) else rm_clear_cells N s lo hi m0
    else rm_clear_cells N s lo hi m0)"
proof -
  have e: "(if range_lo p0 = 0 \<and> range_hi p1 = INT32_MAX then if 0 \<le> s then set_rs_idx s 0 m else m\<lparr>rm_rs_idx := map (\<lambda>_. 0) (rm_rs_idx m)\<rparr> else m) = m0"
    using s m0 by simp
  have f: "rcell m0 = rcell m" "rm_size m0 = N" "rm_n_rs_seq m0 = rm_n_rs_seq m" using m0 N by simp_all
  show ?thesis unfolding rm_seq_rm_def Let_def e f tail_of_def pos_of_def upd_cell_fields rm_clear_cells_def using s by simp
qed

lemma seq_rm_effect:
  assumes wf: "rs_wf N m" and s: "s \<in> seqs N"
  shows "\<exists>ok m'. rm_seq_rm s p0 p1 m = (ok, m') \<and> rs_wf N m'
    \<and> (ok \<longleftrightarrow> rm_hits m s (range_lo p0) (range_hi p1) \<and> 0 < range_lo p0 \<longrightarrow> the (rs_pos m s) - (range_lo p0 - 1) \<le> int (rm_n_rs_seq m))
    \<and> (\<forall>q \<in> seqs N. rs_pos m' q = (if ok \<and> rm_hits m s (range_lo p0) (range_hi p1) then rm_after m s (range_lo p0) q else rs_pos m q))"
proof -
  let ?lo = "range_lo p0" and ?hi = "range_hi p1"
  define m0 where "m0 = (if ?lo = 0 \<and> ?hi = INT32_MAX then set_rs_idx s 0 m else m)"
  have m0: "rs_wf N m0" "rs_pos m0 = rs_pos m" "tail_of m0 = tail_of m" "rcell m0 = rcell m" "rm_size m0 = N" "rm_n_rs_seq m0 = rm_n_rs_seq m"
    using wf rs_wf_elim(7) [OF wf] by (simp_all add: m0_def)
  have p0: "pos_of m0 = pos_of m" "seqs_of m0 = seqs_of m" using m0(4) by (simp_all add: pos_of_def [abs_def] seqs_of_def [abs_def])
  have lo: "0 \<le> ?lo" by (simp add: range_lo_def)
  have s0: "\<not> s \<ge> int N" "s \<ge> 0" using s by simp_all
  let ?t = "tail_of m s"
  note eq = seq_rm_unfold [OF s m0_def rs_wf_elim(7) [OF wf], unfolded Let_def rm_clear_cells_def]
  show ?thesis
  proof (cases "rm_hits m s ?lo ?hi")
    case False
    have "fold (rm_seq_rm_cell s ?lo ?hi) [0..<N] (m0, N) = (m0, N)"
      by (rule rm_loop_none [OF m0(1) s]) (use False in \<open>auto simp: rm_hits_def rs_pos_def m0 p0\<close>)
    moreover have "\<not> (?t \<ge> 0 \<and> ?lo \<le> pos_of m (nat ?t) \<and> pos_of m (nat ?t) < ?hi)" using False by (auto simp: rm_hits_def rs_pos_def)
    ultimately have "rm_seq_rm s p0 p1 m = (True, rm_set_head (m0, N))" unfolding eq by auto
    then show ?thesis using False set_head_wf [OF m0(1) order_refl] m0(2) by auto
  next
    case True
    then have t: "?t \<ge> 0" "?lo \<le> pos_of m (nat ?t)" "pos_of m (nat ?t) < ?hi" and pos: "rs_pos m s = Some (pos_of m (nat ?t))"
      by (auto simp: rm_hits_def rs_pos_def split: if_splits)
    note o = rs_view_okD [OF rs_wf_elim(2) [OF wf]]
    have tN: "nat ?t < N" "s \<in> seqs_of m (nat ?t)" using linksD(2,4) [OF o(1) s] t(1) by auto
    show ?thesis
    proof (cases "0 < ?lo")
      case False
      obtain h where h: "h \<le> N" "fold (rm_seq_rm_cell s ?lo ?hi) [0..<N] (upd_cell (nat s) (\<lambda>c. c\<lparr>mc_tail := -1\<rparr>) m0, N) = (drop_tail s m0, h)"
        using rm_loop_drop [OF m0(1) s, of ?lo ?hi] t unfolding m0 p0 by blast
      have "rm_seq_rm s p0 p1 m = (True, rm_set_head (drop_tail s m0, h))" unfolding eq using t False h(2) by simp
      then show ?thesis using True False set_head_wf [OF drop_tail_wf(1) [OF m0(1) s] h(1)] drop_tail_wf(2) [OF m0(1) s]
        by (intro exI [of _ True] exI [of _ "rm_set_head (drop_tail s m0, h)"]) (simp add: rm_after_def m0)
    next
      case lo: True
      show ?thesis
      proof (cases "pos_of m (nat ?t) - (?lo - 1) \<le> int (rm_n_rs_seq m)")
        case False
        then have "rm_seq_rm s p0 p1 m = (False, m0)" unfolding eq using t lo by simp
        then show ?thesis using True False lo pos m0 by (intro exI [of _ False] exI [of _ m0]) simp
      next
        case le: True
        let ?m1 = "set_rs_idx s (nat (pos_of m (nat ?t) - (?lo - 1))) m0"
        have m1: "rs_wf N ?m1" "seqs_of ?m1 (nat ?t) \<noteq> {}" using m0(1,4) tN by (auto simp: seqs_of_def)
        have "rm_seq_rm s p0 p1 m = (True, upd_cell (nat ?t) (\<lambda>c. c\<lparr>mc_pos := ?lo - 1\<rparr>) ?m1)" unfolding eq using t lo le by simp
        then show ?thesis using True lo le pos t(1) pos_update_wf [OF m1(1) tN(1) m1(2), of "\<lambda>_. ?lo - 1" "?lo - 1"]
          by (intro exI [of _ True] exI [of _ "upd_cell (nat ?t) (\<lambda>c. c\<lparr>mc_pos := ?lo - 1\<rparr>) ?m1"]) (simp add: rm_after_def m0)
      qed
    qed
  qed
qed

subsection \<open>\<open>seq_cp\<close>\<close>

lemma links_join:
  assumes l: "links N T Q {}" and d: "d \<in> seqs N" "T d = -1" and s: "s \<in> seqs N" "0 \<le> T s"
  shows "links N (T(d := T s)) (Q(nat (T s) := insert d (Q (nat (T s))))) {}"
proof -
  let ?t = "nat (T s)" and ?T = "T(d := T s)"
  let ?Q = "Q(?t := insert d (Q ?t))"
  have t: "?t < N" "T s = int ?t" using linksD(2) [OF l s(1)] s(2) by auto
  have d0: "d \<notin> Q i" if "i < N" for i using linksD(3) [OF l that, of d] d(2) by auto
  have "?Q i \<subseteq> seqs N" if "i < N" for i using linksD(1) [OF l that] linksD(1) [OF l t(1)] d(1) by auto
  moreover have "-1 \<le> ?T q \<and> ?T q < int N" if "q \<in> seqs N" for q using linksD(2) [OF l that] linksD(2) [OF l s(1)] by simp
  moreover have "?T q = int i" if i: "i < N" "q \<in> ?Q i" for i q
    using d0 [OF i(1)] linksD(3) [OF l i(1), of q] i(2) t(2) by (auto split: if_splits)
  moreover have "q \<in> ?Q (nat (?T q))" if q: "q \<in> seqs N" "0 \<le> ?T q" for q
    using linksD(4) [OF l q(1)] q(2) by auto
  ultimately show ?thesis unfolding links_def by blast
qed

lemma seq_cp_effect:
  assumes wf: "rs_wf N m" and r: "src \<in> seqs N" "dst \<in> seqs N"
  shows "rs_wf N (rm_seq_cp src dst p0 p1 m)" "q \<in> seqs N \<Longrightarrow> rs_pos (rm_seq_cp src dst p0 p1 m) q = (if q = dst then rs_pos m src else rs_pos m q)"
proof -
  have "rs_wf N (rm_seq_cp src dst p0 p1 m) \<and> (\<forall>q \<in> seqs N. rs_pos (rm_seq_cp src dst p0 p1 m) q = (if q = dst then rs_pos m src else rs_pos m q))"
  proof (cases "src = dst")
    case True
    then show ?thesis using wf by (simp add: rm_seq_cp_def)
  next
    case ne: False
    let ?m = "drop_tail dst m" and ?t = "tail_of (drop_tail dst m) src"
    note d = drop_tail_wf [OF wf r(2)]
    note w = rs_wf_elim [OF d(1)] and o = rs_view_okD [OF rs_wf_elim(2) [OF d(1)]]
    have "to_u32 dst < int (rm_size m) \<and> to_u32 src < int (rm_size m)" using r rs_wf_elim(4,7) [OF wf] by (simp add: to_u32_id)
    then have eq: "rm_seq_cp src dst p0 p1 m = (if ?t \<ge> 0 then
        upd_cell (nat dst) (\<lambda>c. c\<lparr>mc_tail := ?t\<rparr>) (upd_cell (nat ?t) (\<lambda>c. c\<lparr>mc_seq_id := insert dst (mc_seq_id c)\<rparr>) ?m) else ?m)"
      using ne by (simp add: rm_seq_cp_def Let_def tail_of_def)
    have td: "tail_of ?m dst = -1" using d(2) [OF r(2)] linksD(2) [OF o(1) r(2)] by (auto simp: rs_pos_def split: if_splits)
    have ps: "rs_pos ?m src = rs_pos m src" using d(2) [OF r(1)] ne by simp
    show ?thesis
    proof (cases "?t \<ge> 0")
      case False
      then have "rs_pos m src = None" using ps by (simp add: rs_pos_def)
      then show ?thesis using eq False d by simp
    next
      case True
      let ?T = "(tail_of ?m)(dst := ?t)" and ?Q = "(seqs_of ?m)(nat ?t := insert dst (seqs_of ?m (nat ?t)))"
      have tN: "nat ?t < N" "src \<in> seqs_of ?m (nat ?t)" using linksD(2,4) [OF o(1) r(1)] True by auto
      have v: "rview N ?T ?Q (pos_of ?m) (src_of ?m) (rm_seq_cp src dst p0 p1 m)"
        using rview_set_tail [OF rview_set_seqs [OF w(1) tN(1), of "insert dst"] r(2), of ?t] eq True by simp
      have l: "links N ?T ?Q {}" by (rule links_join [OF o(1) r(2) td r(1) True])
      have "cells_data N ?Q (pos_of ?m) (src_of ?m) 1 0" "\<forall>x < N. ?Q x \<noteq> {} \<longrightarrow> src_of ?m x = int x" using o(2,3) tN unfolding cells_data_def by auto
      then have ok: "rs_view_ok N ?T ?Q (pos_of ?m) (src_of ?m)" using l by (simp add: rs_view_ok_def)
      have "n_cells N ?Q = n_cells N (seqs_of ?m)" by (rule n_cells_cong) (use tN in auto)
      then have "rs_wf N (rm_seq_cp src dst p0 p1 m)" using rs_wf_intro [OF v ok w(3,4)] w(5,6) eq True by simp
      moreover have "rs_pos (rm_seq_cp src dst p0 p1 m) q = (if q = dst then rs_pos m src else rs_pos m q)" if q: "q \<in> seqs N" for q
        using rs_pos_links [OF v l q] d(2) [OF q] ps True by (cases "q = dst") (simp_all add: rs_pos_def [of "drop_tail dst m"] split: if_splits)
      ultimately show ?thesis by blast
    qed
  qed
  then show "rs_wf N (rm_seq_cp src dst p0 p1 m)" "q \<in> seqs N \<Longrightarrow> rs_pos (rm_seq_cp src dst p0 p1 m) q = (if q = dst then rs_pos m src else rs_pos m q)" by blast+
qed

subsection \<open>\<open>seq_add\<close> and \<open>seq_div\<close>\<close>

lemma upd_tail_pos_effect:
  assumes wf: "rs_wf N m" and g: "\<And>p. rs_pos m s = Some p \<Longrightarrow> p0 \<le> p \<Longrightarrow> p < p1 \<Longrightarrow> 0 \<le> g p" and s: "s \<in> seqs N"
  shows "rs_wf N (upd_tail_pos s p0 p1 g m)"
    "q \<in> seqs N \<Longrightarrow> rs_pos (upd_tail_pos s p0 p1 g m) q = (if rm_hits m s p0 p1 \<and> tail_of m q = tail_of m s then map_option g (rs_pos m s) else rs_pos m q)"
proof -
  note w = rs_wf_elim [OF wf] and o = rs_view_okD [OF rs_wf_elim(2) [OF wf]]
  let ?t = "tail_of m s"
  have tN: "nat ?t < N" "s \<in> seqs_of m (nat ?t)" if "0 \<le> ?t" using linksD(2,4) [OF o(1) s] that by auto
  have eq: "upd_tail_pos s p0 p1 g m = (if rm_hits m s p0 p1 then upd_cell (nat ?t) (\<lambda>c. c\<lparr>mc_pos := g (mc_pos c)\<rparr>) m else m)"
    using s w(7) tN(2) by (auto simp: upd_tail_pos_def rm_hits_def rs_pos_def tail_of_def [symmetric] pos_of_def [symmetric] mc_has_seq_id_def seqs_of_def Let_def)
  have "rs_wf N (upd_tail_pos s p0 p1 g m) \<and> (\<forall>q \<in> seqs N. rs_pos (upd_tail_pos s p0 p1 g m) q
      = (if rm_hits m s p0 p1 \<and> tail_of m q = ?t then map_option g (rs_pos m s) else rs_pos m q))"
  proof (cases "rm_hits m s p0 p1")
    case False
    then show ?thesis using eq wf by simp
  next
    case True
    then have t: "0 \<le> ?t" "p0 \<le> pos_of m (nat ?t)" "pos_of m (nat ?t) < p1" "rs_pos m s = Some (pos_of m (nat ?t))" by (auto simp: rm_hits_def rs_pos_def split: if_splits)
    have ne: "seqs_of m (nat ?t) \<noteq> {}" using tN(2) [OF t(1)] by blast
    have gp: "0 \<le> g (pos_of m (nat ?t))" by (rule g [OF t(4,2,3)])
    note u = pos_update_wf [OF wf tN(1) [OF t(1)] ne _ gp, of "\<lambda>c. g (mc_pos c)"]
    show ?thesis
    proof (intro conjI ballI)
      fix q assume "q \<in> seqs N"
      then show "rs_pos (upd_tail_pos s p0 p1 g m) q = (if rm_hits m s p0 p1 \<and> tail_of m q = ?t then map_option g (rs_pos m s) else rs_pos m q)"
        using u(2) [of q] t(1,4) eq True by simp
    qed (use u(1) eq True in simp)
  qed
  then show "rs_wf N (upd_tail_pos s p0 p1 g m)"
    "q \<in> seqs N \<Longrightarrow> rs_pos (upd_tail_pos s p0 p1 g m) q = (if rm_hits m s p0 p1 \<and> tail_of m q = ?t then map_option g (rs_pos m s) else rs_pos m q)" by blast+
qed

subsection \<open>\<open>seq_keep\<close>, \<open>clear\<close> and a new memory\<close>

text \<open>The cells below \<open>k\<close> have been visited.\<close>

definition kept :: "llama_seq_id \<Rightarrow> nat \<Rightarrow> (nat \<Rightarrow> int set) \<Rightarrow> nat \<Rightarrow> int set" where
  "kept s k Q x = (if x < k then if s \<in> Q x then {s} else {} else Q x)"

definition kept_data :: "llama_seq_id \<Rightarrow> nat \<Rightarrow> (nat \<Rightarrow> int set) \<Rightarrow> (nat \<Rightarrow> int) \<Rightarrow> nat \<Rightarrow> int" where
  "kept_data s k Q D x = (if x < k \<and> s \<notin> Q x then -1 else D x)"

definition kept_tail :: "llama_seq_id \<Rightarrow> nat \<Rightarrow> (int \<Rightarrow> int) \<Rightarrow> int \<Rightarrow> int" where
  "kept_tail s k T q = (if 0 \<le> q \<and> q < int k \<and> q \<noteq> s then -1 else T q)"

lemma keep_loop:
  assumes v: "rview N T Q P C m" and d: "cells_data N Q P C 1 0" and u: "rm_used m = n_cells N Q" and k: "k \<le> N"
  shows "\<exists>m' h. fold (rm_seq_keep_cell s) [0..<k] (m, N) = (m', h) \<and> h \<le> N \<and> rview N (kept_tail s k T) (kept s k Q) (kept_data s k Q P) (kept_data s k Q C) m'
    \<and> rm_used m' = n_cells N (kept s k Q) \<and> rm_head m' = rm_head m"
  using k
proof (induction k)
  case 0
  have "kept_tail s 0 T = T" "kept s 0 Q = Q" "kept_data s 0 Q P = P" "kept_data s 0 Q C = C" by (auto simp: kept_tail_def kept_def kept_data_def)
  then show ?case using v u by simp
next
  case (Suc k)
  let ?T = "kept_tail s k T" and ?Q = "kept s k Q" and ?P = "kept_data s k Q P" and ?C = "kept_data s k Q C"
  have kN: "k < N" "k \<le> N" using Suc.prems by simp_all
  obtain m1 h where IH: "fold (rm_seq_keep_cell s) [0..<k] (m, N) = (m1, h)" "h \<le> N" "rview N ?T ?Q ?P ?C m1" "rm_used m1 = n_cells N ?Q" "rm_head m1 = rm_head m"
    using Suc.IH [OF kN(2)] by blast
  let ?m2 = "if int k \<noteq> s then upd_cell k (\<lambda>c. c\<lparr>mc_tail := -1\<rparr>) m1 else m1"
  have v2: "rview N (kept_tail s (Suc k) T) ?Q ?P ?C ?m2"
  proof -
    have "kept_tail s (Suc k) T = (if int k \<noteq> s then ?T(int k := -1) else ?T)" by (auto simp: kept_tail_def fun_eq_iff)
    then show ?thesis using IH(3) rview_set_tail [OF IH(3), of "int k" "-1"] kN by simp
  qed
  have at: "?Q k = Q k" "?P k = P k" by (simp_all add: kept_def kept_data_def)
  have has: "mc_has_seq_id (rcell ?m2 k) s \<longleftrightarrow> s \<in> Q k" using rview_nth(2) [OF v2 kN(1)] at by (simp add: mc_has_seq_id_def)
  have pos: "mc_pos (rcell ?m2 k) \<ge> 0 \<longleftrightarrow> Q k \<noteq> {}" using rview_nth(3) [OF v2 kN(1)] at d kN(1) unfolding cells_data_def by force
  have fe: "fold (rm_seq_keep_cell s) [0..<Suc k] (m, N) = rm_seq_keep_cell s k (m1, h)" using IH(1) by simp
  show ?case
  proof (cases "s \<in> Q k")
    case True
    let ?m3 = "upd_cell k (\<lambda>c. c\<lparr>mc_seq_id := {s}\<rparr>) ?m2"
    have e: "kept s (Suc k) Q = ?Q(k := {s})" "kept_data s (Suc k) Q P = ?P" "kept_data s (Suc k) Q C = ?C"
      using True by (auto simp: kept_def kept_data_def fun_eq_iff less_Suc_eq)
    have "rm_seq_keep_cell s k (m1, h) = (?m3, h)" using has True by (simp add: rm_seq_keep_cell_def Let_def)
    moreover have "rview N (kept_tail s (Suc k) T) (?Q(k := {s})) ?P ?C ?m3" by (rule rview_set_seqs [OF v2 kN(1), of "\<lambda>_. {s}"])
    moreover have "n_cells N (?Q(k := {s})) = n_cells N ?Q" by (rule n_cells_cong) (use True at in auto)
    then have "rm_used ?m3 = n_cells N (?Q(k := {s}))" using IH(4) by simp
    moreover have "rm_head ?m3 = rm_head m" using IH(5) by simp
    ultimately show ?thesis unfolding fe e using IH(2) by blast
  next
    case False
    let ?m3 = "upd_cell k (\<lambda>c. c\<lparr>mc_pos := -1, mc_src := -1, mc_seq_id := {}\<rparr>) (if Q k \<noteq> {} then dec_used ?m2 else ?m2)"
    let ?h = "if h = N then k else h"
    have e: "kept s (Suc k) Q = ?Q(k := {})" "kept_data s (Suc k) Q P = ?P(k := -1)" "kept_data s (Suc k) Q C = ?C(k := -1)"
      using False by (auto simp: kept_def kept_data_def fun_eq_iff less_Suc_eq)
    have "rm_seq_keep_cell s k (m1, h) = (?m3, ?h)" using has pos False rview_size [OF v2] by (auto simp: rm_seq_keep_cell_def Let_def)
    moreover have "rview N (kept_tail s (Suc k) T) (?Q(k := {})) (?P(k := -1)) (?C(k := -1)) ?m3"
      using v2 kN(1) by (auto simp: rview_def rcell_upd)
    moreover have "rm_used ?m3 = n_cells N (?Q(k := {}))"
    proof (cases "Q k = {}")
      case True
      then have "?Q(k := {}) = ?Q" using at(1) by (metis fun_upd_triv)
      then show ?thesis using True IH(4) by simp
    qed (use IH(4) n_cells_left [of k N ?Q] kN(1) at in \<open>simp add: dec_u32_def\<close>)
    moreover have "rm_head ?m3 = rm_head m" "?h \<le> N" using IH(2,5) kN(2) by simp_all
    ultimately show ?thesis unfolding fe e by blast
  qed
qed

lemma seq_keep_effect:
  assumes wf: "rs_wf N m"
  shows "rs_wf N (rm_seq_keep s m)" "q \<in> seqs N \<Longrightarrow> rs_pos (rm_seq_keep s m) q = (if q = s then rs_pos m q else None)"
proof -
  note w = rs_wf_elim [OF wf] and o = rs_view_okD [OF rs_wf_elim(2) [OF wf]]
  let ?T = "kept_tail s N (tail_of m)" and ?Q = "kept s N (seqs_of m)" and ?P = "kept_data s N (seqs_of m) (pos_of m)" and ?C = "kept_data s N (seqs_of m) (src_of m)"
  obtain m' h where m': "fold (rm_seq_keep_cell s) [0..<N] (m, N) = (m', h)" "h \<le> N" "rview N ?T ?Q ?P ?C m'" "rm_used m' = n_cells N ?Q" "rm_head m' = rm_head m"
    using keep_loop [OF w(1) o(2) w(6) order_refl] by blast
  have eq: "rm_seq_keep s m = rm_set_head (m', h)" using m'(1) w(7) by (simp add: rm_seq_keep_def)
  have tail: "?T q = (if q = s then tail_of m q else -1)" if "q \<in> seqs N" for q using that by (simp add: kept_tail_def)
  have "?Q i \<subseteq> seqs N" if "i < N" for i using linksD(1) [OF o(1) that] that by (auto simp: kept_def)
  moreover have "-1 \<le> ?T q \<and> ?T q < int N" if "q \<in> seqs N" for q using linksD(2) [OF o(1) that] by (simp add: kept_tail_def)
  moreover have "?T q = int i" if "i < N" "q \<in> ?Q i" for i q
    using linksD(3) [OF o(1) that(1), of q] that by (auto simp: kept_def kept_tail_def split: if_splits)
  moreover have "q \<in> ?Q (nat (?T q))" if q: "q \<in> seqs N" "0 \<le> ?T q" for q
  proof -
    have "q = s" "0 \<le> tail_of m q" using tail [OF q(1)] q(2) by (auto split: if_splits)
    then show ?thesis using linksD(2,4) [OF o(1) q(1)] tail [OF q(1)] by (auto simp: kept_def)
  qed
  ultimately have l: "links N ?T ?Q {}" unfolding links_def by blast
  have "cells_data N ?Q ?P ?C 1 0" "\<forall>x < N. ?Q x \<noteq> {} \<longrightarrow> ?C x = int x" using o(2,3) unfolding cells_data_def kept_def kept_data_def by auto
  then have ok: "rs_view_ok N ?T ?Q ?P ?C" using l by (simp add: rs_view_ok_def)
  have "rs_wf N m'" by (rule rs_wf_intro [OF m'(3) ok w(3,4)]) (use m'(4,5) w(5) in simp_all)
  then show "rs_wf N (rm_seq_keep s m)" unfolding eq by (rule set_head_wf [OF _ m'(2)])
  assume q: "q \<in> seqs N"
  have "pos_of m (nat (tail_of m s)) = ?P (nat (tail_of m s))" if "0 \<le> tail_of m s" "q = s"
    using linksD(2,4) [OF o(1) q] that by (auto simp: kept_data_def)
  then show "rs_pos (rm_seq_keep s m) q = (if q = s then rs_pos m q else None)"
    unfolding eq set_head_pos rs_pos_links [OF m'(3) l q] tail [OF q] by (auto simp: rs_pos_def)
qed

end
