(* ===== verification/Recurrent_Reach.thy ===== *)
theory Recurrent_Reach
  imports Recurrent_Ops
begin

section \<open>Reachable states of the recurrent memory\<close>

text \<open>
  The invariant holds in every reachable state, the position queries read the map from sequences to positions, and \<open>prepare\<close> tells whether the
  ubatches can be placed and leaves the cells as they were.
\<close>

subsection \<open>\<open>clear\<close> and a new memory\<close>

lemma blank_wf:
  assumes "rview N T Q P C m" "\<And>s. s \<in> seqs N \<Longrightarrow> T s = -1" "\<And>x. x < N \<Longrightarrow> Q x = {} \<and> P x = -1 \<and> C x = -1" "0 < N" "N < 2 ^ 31" "rm_head m = 0" "rm_used m = 0"
  shows "rs_wf N m" "s \<in> seqs N \<Longrightarrow> rs_pos m s = None"
proof -
  have "links N T Q {}" using assms(2,3) unfolding links_def by simp
  moreover have "cells_data N Q P C 1 0" using assms(3) by (simp add: cells_data_def)
  ultimately have ok: "rs_view_ok N T Q P C" using assms(3) by (simp add: rs_view_ok_def)
  have "{x. x < N \<and> Q x \<noteq> {}} = {}" using assms(3) by auto
  then have "n_cells N Q = 0" by (simp add: n_cells_def)
  then show "rs_wf N m" using rs_wf_intro [OF assms(1) ok assms(4,5)] assms(4,6,7) by simp
  show "s \<in> seqs N \<Longrightarrow> rs_pos m s = None" using rs_pos_links [OF assms(1) rs_view_okD(1) [OF ok], of s] assms(2) by simp
qed

lemma new_wf:
  assumes "0 < N" "N < 2 ^ 31"
  shows "rs_wf N (recurrent_new N n_seq_max n_rs_seq)" "s \<in> seqs N \<Longrightarrow> rs_pos (recurrent_new N n_seq_max n_rs_seq) s = None"
proof -
  have v: "rview N (\<lambda>_. -1) (\<lambda>_. {}) (\<lambda>_. -1) (\<lambda>_. -1) (recurrent_new N n_seq_max n_rs_seq)"
    by (simp add: rview_def recurrent_new_def rcell_def mc_new_def)
  show "rs_wf N (recurrent_new N n_seq_max n_rs_seq)" by (rule blank_wf(1) [OF v]) (use assms in \<open>simp_all add: recurrent_new_def\<close>)
  show "s \<in> seqs N \<Longrightarrow> rs_pos (recurrent_new N n_seq_max n_rs_seq) s = None" by (rule blank_wf(2) [OF v]) (use assms in \<open>simp_all add: recurrent_new_def\<close>)
qed

lemma clear_wf:
  assumes "rs_wf N m"
  shows "rs_wf N (rm_clear m)" "s \<in> seqs N \<Longrightarrow> rs_pos (rm_clear m) s = None"
proof -
  note w = rs_wf_elim [OF assms]
  let ?f = "\<lambda>c. c\<lparr>mc_pos := -1, mc_seq_id := {}, mc_src := -1, mc_tail := -1\<rparr>"
  have eq: "rm_clear m = m\<lparr>rm_cells := map ?f (rm_cells m), rm_head := 0, rm_used := 0, rm_rs_idx := map (\<lambda>_. 0) (rm_rs_idx m)\<rparr>"
    using fold_upd_all [of N m ?f] w(7,8) by (simp add: rm_clear_def)
  have v: "rview N (\<lambda>_. -1) (\<lambda>_. {}) (\<lambda>_. -1) (\<lambda>_. -1) (rm_clear m)" unfolding eq using w(7,8) by (simp add: rview_def rcell_def)
  show "rs_wf N (rm_clear m)" by (rule blank_wf(1) [OF v]) (use w eq in simp_all)
  show "s \<in> seqs N \<Longrightarrow> rs_pos (rm_clear m) s = None" by (rule blank_wf(2) [OF v]) (use w eq in simp_all)
qed

subsection \<open>The queries\<close>

lemma fold_single:
  assumes "t < N" "\<And>i a. i < N \<Longrightarrow> i \<noteq> t \<Longrightarrow> f i a = a"
  shows "fold f [0..<N] a = f t a"
proof -
  have "[0..<N] = [0..<t] @ t # [Suc t..<N]" using upt_add_eq_append [of 0 t "N - t"] upt_conv_Cons [OF assms(1)] assms(1) by simp
  moreover have "fold f [0..<t] a = a" "\<And>b. fold f [Suc t..<N] b = b" using assms by (auto intro!: fold_skip)
  ultimately show ?thesis by simp
qed

lemma only_tail:
  assumes wf: "rs_wf N m" and s: "s \<in> seqs N" and i: "i < N"
  shows "mc_has_seq_id (rcell m i) s \<longleftrightarrow> tail_of m s = int i"
  using linksD(3) [OF rs_view_okD(1) [OF rs_wf_elim(2) [OF wf]] i, of s] linksD(4) [OF rs_view_okD(1) [OF rs_wf_elim(2) [OF wf]] s] i
  by (auto simp: mc_has_seq_id_def seqs_of_def)

lemma seq_fold:
  assumes wf: "rs_wf N m" and s: "s \<in> seqs N"
  shows "fold (\<lambda>i r. if mc_has_seq_id (rcell m i) s then g i r else r) [0..<N] a = (if tail_of m s < 0 then a else g (nat (tail_of m s)) a)"
proof (cases "tail_of m s < 0")
  case True
  then show ?thesis using only_tail [OF wf s] by (auto intro!: fold_skip)
next
  case False
  then have t: "nat (tail_of m s) < N" using linksD(2) [OF rs_view_okD(1) [OF rs_wf_elim(2) [OF wf]] s] by auto
  have "(if mc_has_seq_id (rcell m i) s then g i b else b) = b" if "i < N" "i \<noteq> nat (tail_of m s)" for i b using only_tail [OF wf s that(1)] that(2) by auto
  from fold_single [OF t, of "\<lambda>i r. if mc_has_seq_id (rcell m i) s then g i r else r", OF this] show ?thesis using False only_tail [OF wf s t] by simp
qed

lemma seq_queries:
  assumes wf: "rs_wf N m" and s: "s \<in> seqs N"
  shows "rm_seq_pos_max m s = (case rs_pos m s of None \<Rightarrow> -1 | Some p \<Rightarrow> p)"
    "\<forall>p. rs_pos m s = Some p \<longrightarrow> p < INT32_MAX \<Longrightarrow> rm_seq_pos_min m s = (case rs_pos m s of None \<Rightarrow> -1 | Some p \<Rightarrow> p)"
    "rm_seq_token_count m s = (if rs_pos m s = None then 0 else 1)"
proof -
  note w = rs_wf_elim [OF wf]
  have p: "0 \<le> pos_of m (nat (tail_of m s))" if "0 \<le> tail_of m s"
  proof -
    have "nat (tail_of m s) < N" "s \<in> seqs_of m (nat (tail_of m s))" using linksD(2,4) [OF rs_view_okD(1) [OF w(2)] s] that by auto
    then show ?thesis using rs_view_okD(2) [OF w(2)] by (auto simp: cells_data_def)
  qed
  show "rm_seq_pos_max m s = (case rs_pos m s of None \<Rightarrow> -1 | Some p \<Rightarrow> p)"
    using p unfolding rm_seq_pos_max_def w(7) seq_fold [OF wf s] by (auto simp: rs_pos_def pos_of_def)
  show "rm_seq_pos_min m s = (case rs_pos m s of None \<Rightarrow> -1 | Some p \<Rightarrow> p)" if "\<forall>p. rs_pos m s = Some p \<longrightarrow> p < INT32_MAX"
    using that unfolding rm_seq_pos_min_def w(7) seq_fold [OF wf s] by (simp add: rs_pos_def pos_of_def Let_def split: if_splits)
  show "rm_seq_token_count m s = (if rs_pos m s = None then 0 else 1)"
    using s seq_fold [OF wf s, of "\<lambda>_ r. r + 1" "0 :: nat"] unfolding rm_seq_token_count_def w(7) by (simp add: rs_pos_def)
qed

subsection \<open>Reachable states\<close>

lemma seq_rm_wf:
  assumes "rs_wf N m" "0 \<le> s"
  shows "rs_wf N (snd (rm_seq_rm s p0 p1 m))"
proof (cases "s < int N")
  case True
  then have "s \<in> seqs N" using assms(2) by simp
  then show ?thesis using seq_rm_effect [OF assms(1), of s p0 p1] by force
next
  case False
  then show ?thesis using assms rs_wf_elim(7) [OF assms(1)] by (simp add: rm_seq_rm_def Let_def)
qed

lemma seq_cp_wf:
  assumes "rs_wf N m" "- (2 ^ 31) \<le> a" "a < 2 ^ 31" "- (2 ^ 31) \<le> b" "b < 2 ^ 31"
  shows "rs_wf N (rm_seq_cp a b p0 p1 m)"
proof (cases "a \<in> seqs N \<and> b \<in> seqs N")
  case True
  then show ?thesis using seq_cp_effect(1) [OF assms(1)] by blast
next
  case False
  have "to_u32 x < int N \<longleftrightarrow> x \<in> seqs N" if "- (2 ^ 31) \<le> x" "x < 2 ^ 31" for x
  proof (cases "0 \<le> x")
    case True
    then show ?thesis using that by (simp add: to_u32_id)
  next
    case False
    then have "to_u32 x = x + 2 ^ 32" using mod_pos_pos_trivial [of "x + 2 ^ 32" "2 ^ 32"] that by (simp add: to_u32_def)
    then show ?thesis using False that rs_wf_elim(4) [OF assms(1)] by simp
  qed
  then have "rm_seq_cp a b p0 p1 m = m" using False assms(2-) rs_wf_elim(7) [OF assms(1)] by (auto simp: rm_seq_cp_def)
  then show ?thesis using assms(1) by simp
qed

lemma tail_pos_wf:
  assumes "rs_wf N m" "\<And>p. 0 \<le> p \<Longrightarrow> rm_hits m s p0 p1 \<Longrightarrow> rs_pos m s = Some p \<Longrightarrow> 0 \<le> g p"
  shows "rs_wf N (upd_tail_pos s p0 p1 g m)"
proof (cases "s \<in> seqs N")
  case True
  have "0 \<le> g p" if p: "rs_pos m s = Some p" "p0 \<le> p" "p < p1" for p
  proof -
    have "0 \<le> tail_of m s" "p = pos_of m (nat (tail_of m s))" using p(1) by (auto simp: rs_pos_def split: if_splits)
    moreover have "nat (tail_of m s) < N" "s \<in> seqs_of m (nat (tail_of m s))"
      using linksD(2,4) [OF rs_view_okD(1) [OF rs_wf_elim(2) [OF assms(1)]] True] calculation(1) by auto
    ultimately have "0 \<le> p" using rs_view_okD(2) [OF rs_wf_elim(2) [OF assms(1)]] by (auto simp: cells_data_def)
    then show ?thesis using assms(2) p by (auto simp: rm_hits_def)
  qed
  then show ?thesis by (rule upd_tail_pos_effect(1) [OF assms(1) _ True])
next
  case False
  then have "upd_tail_pos s p0 p1 g m = m" using rs_wf_elim(7) [OF assms(1)] by (auto simp: upd_tail_pos_def)
  then show ?thesis using assms(1) by simp
qed

lemma find_slot_wf: "rs_wf N m \<Longrightarrow> rs_ubatch_ok N ub \<Longrightarrow> rm_find_slot ub m = Inr (ok, m') \<Longrightarrow> ok \<and> rs_wf N m'"
  using find_slot_ok [of N m ub] by auto

text \<open>The operations of the interface, with sequence ids that are 32-bit integers and positions that stay non-negative, and the placement of
  ubatches of disjoint sets. \<open>seq_rm\<close> with a negative id is left out: it does not keep the invariant (below).\<close>

inductive rs_reach :: "nat \<Rightarrow> memory_recurrent \<Rightarrow> bool" for N where
  new: "0 < N \<Longrightarrow> N < 2 ^ 31 \<Longrightarrow> rs_reach N (recurrent_new N n_seq_max n_rs_seq)"
| clear: "rs_reach N m \<Longrightarrow> rs_reach N (rm_clear m)"
| rm: "rs_reach N m \<Longrightarrow> 0 \<le> s \<Longrightarrow> rs_reach N (snd (rm_seq_rm s p0 p1 m))"
| cp: "rs_reach N m \<Longrightarrow> - (2 ^ 31) \<le> a \<Longrightarrow> a < 2 ^ 31 \<Longrightarrow> - (2 ^ 31) \<le> b \<Longrightarrow> b < 2 ^ 31 \<Longrightarrow> rs_reach N (rm_seq_cp a b p0 p1 m)"
| keep: "rs_reach N m \<Longrightarrow> rs_reach N (rm_seq_keep s m)"
| add: "rs_reach N m \<Longrightarrow> (\<And>p. rm_hits m s (range_lo p0) (range_hi p1) \<Longrightarrow> rs_pos m s = Some p \<Longrightarrow> 0 \<le> p + shift) \<Longrightarrow> rs_reach N (rm_seq_add s p0 p1 shift m)"
| div: "rs_reach N m \<Longrightarrow> 0 < d \<Longrightarrow> rs_reach N (rm_seq_div s p0 p1 d m)"
| place: "rs_reach N m \<Longrightarrow> rs_ubatch_ok N ub \<Longrightarrow> rm_find_slot ub m = Inr (ok, m') \<Longrightarrow> rs_reach N m'"
| copy: "rs_reach N m \<Longrightarrow> s_copy i m = (r, m') \<Longrightarrow> rs_reach N m'"

lemma reach_wf: "rs_reach N m \<Longrightarrow> rs_wf N m"
proof (induction rule: rs_reach.induct)
  case (add m s p0 p1 shift)
  then show ?case using tail_pos_wf [OF add.IH, of s "range_lo p0" "range_hi p1" "\<lambda>p. p + shift"] by (simp add: rm_seq_add_def Let_def)
next
  case (div m d s p0 p1)
  then show ?case using tail_pos_wf [OF div.IH, of s "range_lo p0" "range_hi p1" "\<lambda>p. cdiv p d"] by (simp add: rm_seq_div_def Let_def cdiv_nonneg)
next
  case (copy m i r m')
  then show ?case by (auto simp: s_copy_def Let_def split: if_splits)
qed (auto intro: new_wf(1) clear_wf(1) seq_rm_wf seq_cp_wf seq_keep_effect(1) dest: find_slot_wf)

end
