(* ===== verification/Recurrent_Batch.thy ===== *)
theory Recurrent_Batch
  imports Recurrent_Reach Decode_KV
begin

section \<open>Batches in the recurrent memory\<close>

text \<open>
  From the batch to the cells: an accepted batch is split into ubatches of disjoint sequences, \<open>prepare\<close> finds a place for
  all of them and restores the cells, and \<open>init_batch\<close> reports success.
\<close>

subsection \<open>\<open>prepare\<close>\<close>

lemma prepare_loop_ok:
  assumes "rs_wf N m" "\<forall>ub \<in> set ubs. rs_ubatch_ok N ub"
  shows "\<exists>m'. rm_prepare_loop ubs m = Inr (True, m') \<and> rs_wf N m' \<and> same_cfg m m'"
  using assms
proof (induction ubs arbitrary: m)
  case (Cons ub ubs)
  obtain m1 where m1: "rm_find_slot ub m = Inr (True, m1)" "rs_wf N m1" "same_cfg m m1" using find_slot_ok [OF Cons.prems(1), of ub] Cons.prems(2) by auto
  then show ?case using Cons.IH [OF m1(2)] Cons.prems(2) same_cfg_trans [OF m1(3)] by auto
qed (simp add: same_cfg_def)

lemma rm_prepare_ok:
  assumes "rs_wf N m" "\<forall>ub \<in> set ubs. rs_ubatch_ok N ub"
  shows "\<exists>n z. rm_prepare ubs m = Inr (True, m\<lparr>rm_n := n, rm_rs_z := z\<rparr>)"
proof -
  obtain m' where m': "rm_prepare_loop ubs m = Inr (True, m')" "same_cfg m m'" using prepare_loop_ok [OF assms] by blast
  have "m'\<lparr>rm_cells := rm_cells m, rm_used := rm_used m, rm_head := rm_head m\<rparr> = m\<lparr>rm_n := rm_n m', rm_rs_z := rm_rs_z m'\<rparr>"
    using m'(2) by (cases m; cases m') (simp add: same_cfg_def)
  then show ?thesis using m'(1) by (auto simp: rm_prepare_def)
qed

subsection \<open>Ubatches of an accepted batch\<close>

text \<open>Every token belongs to one sequence.\<close>

definition single_seqs :: "batch_allocr \<Rightarrow> bool" where
  "single_seqs a \<longleftrightarrow> (\<forall>i < get_n_tokens a. length (tok_seqs (ba_batch a) i) = 1 \<and> ba_seq_set a ! i = set (tok_seqs (ba_batch a) i))"

lemma block_ubatch:
  fixes a :: batch_allocr and idxs :: "nat list" and k r :: nat
  assumes a: "batch_ok a" "ba_n_seq_max a \<le> N" and idxs: "set idxs \<subseteq> {..<get_n_tokens a}" "length idxs = k * r" "0 < k" "0 < r"
    and dis: "\<And>p q. p < q \<Longrightarrow> q < k \<Longrightarrow> set (tok_seqs (ba_batch a) (idxs ! (q * r))) \<inter> set (tok_seqs (ba_batch a) (idxs ! (p * r))) = {}"
  shows "rs_ubatch_ok N (fst (ubatch_add idxs k True a))"
proof -
  let ?b = "ba_batch a"
  define u where "u = fst (ubatch_add idxs k True a)"
  have f: "ub_seq_id u = map (tok_seqs ?b) idxs" "ub_n_seq_id u = map length (ub_seq_id u)"
    "\<And>j i. j < ba_n_pos_per_embd a \<Longrightarrow> i < length idxs \<Longrightarrow> ub_pos u ! (j * length idxs + i) = pos_src ?b j (idxs ! i)"
    using ubatch_add_facts [of a idxs k True u] a by (simp_all add: batch_ok_def u_def)
  have n: "ub_n_seqs u = k" "ub_equal_seqs u" "ub_n_seq_tokens u = r"
    using idxs by (simp_all add: u_def ubatch_add_def Let_def split_def)
  have pos: "ub_pos u ! i = arr (b_pos ?b) ! (idxs ! i)" if "i < length idxs" for i
    using f(3) [of 0 i] that a(1) by (auto simp: batch_ok_def pos_src_def)
  have lt: "q * r + p < length idxs" if "q < k" "p < r" for q p
  proof -
    have "q * r + p < (q + 1) * r" using that(2) by simp
    also have "\<dots> \<le> k * r" using that(1) by (intro mult_le_mono1) simp
    finally show ?thesis using idxs(2) by simp
  qed
  have tok: "idxs ! i < get_n_tokens a" if "i < length idxs" for i using idxs(1) nth_mem [OF that] by auto
  have seqs: "set_seqs u q = tok_seqs ?b (idxs ! (q * r))" if "q < k" for q
    using lt [OF that idxs(4)] by (simp add: set_seqs_def Let_def n f(1,2) map_nth)
  have last: "0 \<le> last_pos u q" if "q < k" for q
  proof -
    have l: "q * r + (r - 1) < length idxs" using lt [OF that, of "r - 1"] idxs(4) by simp
    have "last_pos u q = arr (b_pos ?b) ! (idxs ! (q * r + (r - 1)))" using pos [OF l] idxs(4) by (simp add: last_pos_def n)
    then show ?thesis using a(1) tok [OF l] by (simp add: batch_ok_def)
  qed
  have ids: "tok_seqs ?b i \<noteq> [] \<and> distinct (tok_seqs ?b i) \<and> set (tok_seqs ?b i) \<subseteq> seqs N" if "i < get_n_tokens a" for i
    using a that unfolding batch_ok_def by force
  show ?thesis unfolding rs_ubatch_ok_def u_def [symmetric] n(1)
    using n(2) idxs(3) seqs last dis ids [OF tok [OF lt [OF _ idxs(4), of _, unfolded add_0_right]]] by (auto simp: seqs)
qed

lemma equal_ubatches_ok:
  assumes a: "batch_ok a" "ba_n_seq_max a \<le> N" "single_seqs a" and b: "equal_blocks a idxs k" "0 < k" and s: "set idxs \<subseteq> {..<get_n_tokens a}"
  shows "rs_ubatch_ok N (fst (ubatch_add idxs k True a))"
proof -
  obtain ss r where r: "length ss = k" "0 < r" "length idxs = k * r" "\<forall>p < k. \<forall>q < k. p \<noteq> q \<longrightarrow> ss ! p \<inter> ss ! q = {}"
    "\<forall>q < k. \<forall>p < r. ba_seq_set a ! (idxs ! (q * r + p)) = ss ! q" using b(1) unfolding equal_blocks_def by blast
  have "set (tok_seqs (ba_batch a) (idxs ! (q * r))) = ss ! q" if q: "q < k" for q
  proof -
    have "q * r < length idxs" using q r(2,3) by simp
    then have "idxs ! (q * r) < get_n_tokens a" using s nth_mem by blast
    then show ?thesis using a(3) r(2) spec [OF r(5), of q] q unfolding single_seqs_def by (metis add_0_right)
  qed
  then show ?thesis using r(4) by (intro block_ubatch [OF a(1,2) s r(3) b(2) r(2)]) auto
qed

lemma chain_ubatch_ok:
  assumes a: "batch_ok a" "ba_n_seq_max a \<le> N" and c: "idxs \<noteq> []" "set idxs \<subseteq> {..<get_n_tokens a}"
  shows "rs_ubatch_ok N (fst (ubatch_add idxs 1 True a))"
  by (rule block_ubatch [OF a c(2), of 1 "length idxs"]) (use c(1) in simp_all)

lemma mset_concat_sub: "mset (concat xss) = mset [0..<n] \<Longrightarrow> xs \<in> set xss \<Longrightarrow> set xs \<subseteq> {..<n}"
  using mset_eq_setD [of "concat xss" "[0..<n]"] by auto

lemma mset_concat_ne: "mset (concat xss) = mset [0..<n] \<Longrightarrow> 0 < n \<Longrightarrow> xss \<noteq> []"
  using mset_eq_setD [of "concat xss" "[0..<n]"] by auto

lemma rm_init_batch_ok:
  assumes wf: "rs_wf N m" and a: "batch_ok a" "ba_n_seq_max a \<le> N" "single_seqs a" "allocr_wf (split_reset a)" "\<not> ba_has_cpl a"
    and kt: "rm_n_rs_seq m = 0 \<or> rm_n_rs_seq m + 1 < n_ubatch" and n: "0 < get_n_tokens a"
  shows "\<exists>ubs a' k z. rm_init_batch n_ubatch embd_all a m = Inr (rx_of_batch ubs, a', m\<lparr>rm_n := k, rm_rs_z := z\<rparr>)
    \<and> ubs \<noteq> [] \<and> (\<forall>ub \<in> set ubs. rs_ubatch_ok N ub)"
proof -
  let ?kt = "if rm_n_rs_seq m > 0 then rm_n_rs_seq m + 1 else 0"
  have "\<exists>ubs a'. split_all (if embd_all then (\<lambda>a. Inr (split_seq n_ubatch a)) else split_equal n_ubatch True ?kt) (split_reset a) = Some (Inr (ubs, a'))
    \<and> get_n_used a' = get_n_tokens a \<and> get_n_tokens a' = get_n_tokens a \<and> ubs \<noteq> [] \<and> (\<forall>ub \<in> set ubs. rs_ubatch_ok N ub)"
  proof (cases embd_all)
    case True
    obtain cs a' where c: "split_all (\<lambda>a. Inr (split_seq n_ubatch a)) (split_reset a) = Some (Inr (map (\<lambda>idxs. fst (ubatch_add idxs 1 True a)) cs, a'))"
      "mset (concat cs) = mset [0..<get_n_tokens a]" "get_n_used a' = get_n_tokens a" "\<forall>c \<in> set cs. c \<noteq> []" "ba_batch a' = ba_batch a" using split_seq_chains [OF a(4)] by blast
    have "cs \<noteq> []" by (rule mset_concat_ne [OF c(2) n])
    moreover have "\<forall>c \<in> set cs. rs_ubatch_ok N (fst (ubatch_add c 1 True a))" using chain_ubatch_ok [OF a(1,2)] c(4) mset_concat_sub [OF c(2)] by blast
    ultimately show ?thesis using c(1,3,5) True by (auto simp: get_n_tokens_def)
  next
    case False
    have k: "?kt = 0 \<or> ?kt < n_ubatch" "\<not> (True \<and> ba_has_cpl a)" using kt a(5) by auto
    obtain sels a' where c: "split_all (split_equal n_ubatch True ?kt) (split_reset a) = Some (Inr (map (\<lambda>(idxs, k). fst (ubatch_add idxs k True a)) sels, a'))"
      "mset (concat (map fst sels)) = mset [0..<get_n_tokens a]" "get_n_used a' = get_n_tokens a"
      "\<forall>(idxs, k) \<in> set sels. 0 < k \<and> equal_blocks a idxs k \<and> length idxs \<le> n_ubatch + 1" "ba_batch a' = ba_batch a" using split_equal_blocks [OF a(4) k(2,1)] by blast
    have "sels \<noteq> []" using mset_concat_ne [OF c(2) n] by simp
    moreover have "\<forall>(idxs, k) \<in> set sels. rs_ubatch_ok N (fst (ubatch_add idxs k True a))"
      using equal_ubatches_ok [OF a(1-3)] c(4) mset_concat_sub [OF c(2)] by fastforce
    ultimately show ?thesis using c(1,3,5) False by (auto simp: get_n_tokens_def)
  qed
  then obtain ubs a' where s: "split_all (if embd_all then (\<lambda>a. Inr (split_seq n_ubatch a)) else split_equal n_ubatch True ?kt) (split_reset a) = Some (Inr (ubs, a'))"
    "get_n_used a' = get_n_tokens a" "get_n_tokens a' = get_n_tokens a" "ubs \<noteq> []" "\<forall>ub \<in> set ubs. rs_ubatch_ok N ub" by blast
  obtain k z where p: "rm_prepare ubs m = Inr (True, m\<lparr>rm_n := k, rm_rs_z := z\<rparr>)" using rm_prepare_ok [OF wf s(5)] by blast
  have "rm_init_batch n_ubatch embd_all a m = Inr (rx_of_batch ubs, a', m\<lparr>rm_n := k, rm_rs_z := z\<rparr>)"
    unfolding rm_init_batch_def s(1) using s(2,3) p by simp
  then show ?thesis using s(4,5) by blast
qed

lemma accepted_single:
  assumes i: "allocr_init n_vocab memory n_embd n_seq_max output_all b a0 = Inr (True, a)" and b: "batch_inp_ok b" "0 < n_seq_max"
    and a0: "length (ba_seq_pos a0) = LLAMA_MAX_SEQ" "1 \<le> ba_n_pos_per_embd a0"
    and pos: "\<forall>i < n_tok b. 0 \<le> arr (b_pos (ba_batch a)) ! i" and cpl: "\<not> ba_has_cpl a"
  shows "batch_ok a" "ba_n_seq_max a = n_seq_max" "single_seqs a" "allocr_wf (split_reset a)" "0 < get_n_tokens a"
proof -
  let ?b = "init_autogen memory output_all b"
  let ?a = "init_stats n_embd n_seq_max ((allocr_clear a0)\<lparr>ba_batch := ?b\<rparr>)"
  have ac: "0 < b_n_tokens b" "init_validate n_vocab n_seq_max b" "a = split_reset ?a" using i by (auto simp: init_True_iff Let_def)
  note f = init_stats_facts [OF a0(1), of n_embd n_seq_max ?b]
  have n: "n_tok ?b = n_tok b" by (simp add: init_autogen_def)
  have ba: "ba_batch a = ?b" "ba_n_seq_max a = n_seq_max" "ba_n_pos_per_embd a = ba_n_pos_per_embd a0" "ba_has_cpl a = ba_has_cpl ?a" "ba_seq_set a = ba_seq_set ?a"
    using f(1-3) by (simp_all add: ac(3) split_reset_def)
  have gt: "get_n_tokens a = n_tok b" using ba(1) n by (simp add: get_n_tokens_def)
  have one: "length (tok_seqs ?b i) = 1" if "i < n_tok b" for i
  proof -
    have "\<not> 1 < length (tok_seqs ?b i)" using cpl f(6) ba(4) n that by auto
    then show ?thesis using autogen_seqs(2) [OF b(1) that, of memory output_all] by (cases "tok_seqs ?b i") auto
  qed
  have ids: "0 \<le> s \<and> s < int n_seq_max" if "i < n_tok b" "s \<in> set (tok_seqs ?b i)" for i s by (rule init_seqs_in_range [OF ac(2) b(1,2) that])
  show "ba_n_seq_max a = n_seq_max" by (rule ba(2))
  have "distinct (tok_seqs ?b i) \<and> tok_seqs ?b i \<noteq> []" if "i < n_tok b" for i using one [OF that] by (cases "tok_seqs ?b i") auto
  then show "batch_ok a" unfolding batch_ok_def gt ba using ids pos ba(1) a0(2) ac(2) by (simp add: init_validate_def)
  show "single_seqs a" unfolding single_seqs_def gt ba using one f(4) n by simp
  show "allocr_wf (split_reset a)" using init_allocr_wf [OF a0(1), of ?b n_embd n_seq_max] autogen_seqs(2) [OF b(1)] n unfolding ac(3) by simp
  show "0 < get_n_tokens a" using ac(1) gt by (simp add: n_tok_def)
qed

subsection \<open>The recurrent memory as a whole\<close>

text \<open>C16. In every state that the recurrent memory reaches through \<open>clear\<close>, \<open>seq_rm\<close> of one sequence (not of all sequences at once, with a negative id), \<open>seq_cp\<close>, \<open>seq_keep\<close>,
  \<open>seq_add\<close> and \<open>seq_div\<close> that leave positions non-negative, the placement of ubatches with disjoint sequence sets and \<open>s_copy\<close>, the two roles of the cell array agree: a sequence is
  in the set of a cell exactly when
  its tail is that cell, so no sequence has two states; only ids in range occur; a cell has a position exactly when it is in use, and then it is its own
  source; \<open>used\<close> counts the cells in use and \<open>head\<close> is a cell. So \<open>seq_pos_max\<close>, which scans all cells, is the position of the tail cell.\<close>

theorem recurrent_cells_consistent:
  assumes "rs_reach N m"
  shows "(\<forall>i < N. mc_seq_id (rcell m i) \<subseteq> {0..<int N}
         \<and> (\<forall>s \<in> {0..<int N}. s \<in> mc_seq_id (rcell m i) \<longleftrightarrow> mc_tail (rcell m (nat s)) = int i)
         \<and> (if mc_is_empty (rcell m i) then mc_pos (rcell m i) = -1 else 0 \<le> mc_pos (rcell m i) \<and> mc_src (rcell m i) = int i))
    \<and> length (rm_cells m) = N \<and> rm_size m = N \<and> rm_head m < N \<and> rm_used m = card {i. i < N \<and> \<not> mc_is_empty (rcell m i)}
    \<and> (\<forall>s \<in> {0..<int N}. rm_seq_pos_max m s = (let t = mc_tail (rcell m (nat s)) in if t < 0 then -1 else mc_pos (rcell m (nat t))))"
proof -
  have wf: "rs_wf N m" by (rule reach_wf [OF assms])
  note w = rs_wf_elim [OF wf] and o = rs_view_okD [OF rs_wf_elim(2) [OF wf]]
  have "mc_seq_id (rcell m i) \<subseteq> {0..<int N}" if "i < N" for i using linksD(1) [OF o(1) that] by (simp add: seqs_of_def)
  moreover have "s \<in> mc_seq_id (rcell m i) \<longleftrightarrow> mc_tail (rcell m (nat s)) = int i" if "i < N" "s \<in> {0..<int N}" for i s
    using only_tail [OF wf that(2,1)] by (simp add: mc_has_seq_id_def tail_of_def)
  moreover have "if mc_is_empty (rcell m i) then mc_pos (rcell m i) = -1 else 0 \<le> mc_pos (rcell m i) \<and> mc_src (rcell m i) = int i" if "i < N" for i
    using o(2,3) that by (auto simp: cells_data_def seqs_of_def pos_of_def src_of_def mc_is_empty_def)
  moreover have "rm_used m = card {i. i < N \<and> \<not> mc_is_empty (rcell m i)}" using w(6) by (simp add: n_cells_def seqs_of_def mc_is_empty_def)
  moreover have "rm_seq_pos_max m s = (let t = mc_tail (rcell m (nat s)) in if t < 0 then -1 else mc_pos (rcell m (nat t)))" if "s \<in> {0..<int N}" for s
    using seq_queries(1) [OF wf that] by (simp add: rs_pos_def tail_of_def pos_of_def Let_def)
  ultimately show ?thesis using w(5,7,8) by blast
qed


text \<open>C17. Let the recurrent memory have at least as many cells as the context has sequences and be in a state that its operations reach (without a \<open>seq_rm\<close> of all sequences at once), and let the rollback window, if
  there is one, fit into a ubatch (\<open>n_rs_seq + 1 < n_ubatch\<close>). Then a batch that the allocator accepts, with one sequence per token and non-negative positions, is placed whatever the memory
  holds: \<open>init_batch\<close> splits it (by sequence when all tokens are output), tries all ubatches and reports success, and leaves the cells, \<open>used\<close> and \<open>head\<close> as they
  were. Every ubatch satisfies the precondition of \<open>find_slot\<close>.\<close>

theorem recurrent_batch_is_placed:
  assumes "rs_reach N m" "allocr_init n_vocab memory n_embd n_seq_max output_all b a0 = Inr (True, a)" "batch_inp_ok b" "0 < n_seq_max" "n_seq_max \<le> N"
    "length (ba_seq_pos a0) = LLAMA_MAX_SEQ" "1 \<le> ba_n_pos_per_embd a0" "\<forall>i < n_tok b. 0 \<le> arr (b_pos (ba_batch a)) ! i" "\<not> ba_has_cpl a"
    "rm_n_rs_seq m = 0 \<or> rm_n_rs_seq m + 1 < n_ubatch"
  shows "\<exists>ubs a' k z. rm_init_batch n_ubatch embd_all a m = Inr (rx_of_batch ubs, a', m\<lparr>rm_n := k, rm_rs_z := z\<rparr>)
    \<and> rx_status (rx_of_batch ubs) = LLAMA_MEMORY_STATUS_SUCCESS \<and> ubs \<noteq> [] \<and> (\<forall>ub \<in> set ubs. rs_ubatch_ok N ub)"
proof -
  note a = accepted_single [OF assms(2-4,6-9)]
  have "ba_n_seq_max a \<le> N" using a(2) assms(5) by simp
  then show ?thesis using rm_init_batch_ok [OF reach_wf [OF assms(1)] a(1) _ a(3,4) assms(9,10) a(5), of embd_all] by (simp add: rx_of_batch_def rx_of_status_def)
qed








subsection \<open>Concrete memories\<close>

text \<open>A ubatch of one token each for two sequences.\<close>

definition rs_demo_ubatch :: llama_ubatch where
  "rs_demo_ubatch = \<lparr>ub_equal_seqs = True, ub_n_tokens = 2, ub_n_seq_tokens = 1, ub_n_seqs = 2, ub_n_seqs_unq = 2, ub_n_pos = 1, ub_token = Some [11, 12], ub_embd = None,
     ub_pos = [5, 7], ub_n_seq_id = [1, 1], ub_seq_id = [[0], [2]], ub_seq_id_unq = [0, 2], ub_seq_idx = [0, -1, 1], ub_output = [1, 1]\<rparr>"

lemma rs_demo_ok: "rs_ubatch_ok 3 rs_demo_ubatch"
  by (simp add: rs_ubatch_ok_def rs_demo_ubatch_def set_seqs_def last_pos_def less_Suc_eq numeral_2_eq_2 numeral_3_eq_3)

lemma rs_demo_new: "rs_reach 3 (recurrent_new 3 3 2)"
  by (rule rs_reach.new) simp_all

lemma rs_demo_placed: "\<exists>m. rm_find_slot rs_demo_ubatch (recurrent_new 3 3 2) = Inr (True, m) \<and> rs_reach 3 m"
  using find_slot_ok [OF reach_wf [OF rs_demo_new] rs_demo_ok] rs_reach.place [OF rs_demo_new rs_demo_ok] by blast

definition one_token :: "llama_seq_id \<Rightarrow> llama_pos \<Rightarrow> llama_ubatch" where
  "one_token s p = \<lparr>ub_equal_seqs = True, ub_n_tokens = 1, ub_n_seq_tokens = 1, ub_n_seqs = 1, ub_n_seqs_unq = 1, ub_n_pos = 1, ub_token = Some [11], ub_embd = None,
     ub_pos = [p], ub_n_seq_id = [1], ub_seq_id = [[s]], ub_seq_id_unq = [s], ub_seq_idx = [], ub_output = [1]\<rparr>"

theorem recurrent_cells_consistent_witness:
  "\<exists>m. rm_find_slot rs_demo_ubatch (recurrent_new 3 3 2) = Inr (True, m) \<and> rs_reach 3 m \<and> rm_head m < 3
     \<and> rm_used m = card {i. i < 3 \<and> \<not> mc_is_empty (rcell m i)}"
  using rs_demo_placed recurrent_cells_consistent by blast


theorem recurrent_batch_is_placed_witness:
  "allocr_init 100 None 8 4 False demo_batch (allocr_new 1) = Inr (True, demo_allocr)
   \<and> (\<exists>ubs a' k z. rm_init_batch 4 False demo_allocr (recurrent_new 4 4 2) = Inr (rx_of_batch ubs, a', (recurrent_new 4 4 2)\<lparr>rm_n := k, rm_rs_z := z\<rparr>) \<and> ubs \<noteq> [])"
proof -
  have r: "rs_reach 4 (recurrent_new 4 4 2)" by (rule rs_reach.new) simp_all
  have b: "ba_batch demo_allocr = demo_batch" by (simp add: demo_allocr_def split_reset_def demo_facts)
  have io: "batch_inp_ok demo_batch" by (simp add: batch_inp_ok_def demo_batch_def n_tok_def less_Suc_eq numeral_eq_Suc)
  have p: "\<forall>i < n_tok demo_batch. 0 \<le> arr (b_pos (ba_batch demo_allocr)) ! i"
    unfolding b by (simp add: demo_batch_def n_tok_def less_Suc_eq numeral_eq_Suc)
  have n: "1 \<le> ba_n_pos_per_embd (allocr_new 1)" "rm_n_rs_seq (recurrent_new 4 4 2) = 0 \<or> rm_n_rs_seq (recurrent_new 4 4 2) + 1 < 4"
    by (simp_all add: allocr_new_def recurrent_new_def)
  show ?thesis using recurrent_batch_is_placed [OF r demo_init io _ _ allocr_new_seq_pos n(1) p demo_no_cpl n(2), of False] demo_init by auto
qed


subsection \<open>Findings\<close>

text \<open>\<open>seq_rm\<close> with a negative id and the full range empties the cells but leaves every \<open>tail\<close>: the next ubatch of such a sequence fails the assertion
  \<open>cell.has_seq_id(seq_id)\<close>.\<close>

theorem recurrent_rm_all_breaks_tails:
  "(case rm_find_slot (one_token 0 0) (recurrent_new 2 2 0) of Inl _ \<Rightarrow> None
    | Inr (_, m) \<Rightarrow> let (ok, m) = rm_seq_rm (-1) (-1) (-1) m in Some (ok, rm_used m, rm_find_slot (one_token 0 0) m))
   = Some (True, 0, Inl (GGML_ASSERT ''cell.has_seq_id(seq_id)''))"
  by code_simp

text \<open>Two sequences that share a cell after \<open>seq_cp\<close>: rolling one back moves the other as well.\<close>

theorem recurrent_rollback_moves_shared:
  "(case rm_find_slot (one_token 0 5) (recurrent_new 2 2 3) of Inl _ \<Rightarrow> None
    | Inr (_, m) \<Rightarrow> let m = rm_seq_cp 0 1 (-1) (-1) m; (ok, m') = rm_seq_rm 0 4 (-1) m in Some (ok, rm_seq_pos_max m 1, rm_seq_pos_max m' 1, rm_rs_idx m'))
   = Some (True, 5, 3, [2, 0])"
  by code_simp

end
