(* ===== verification/Utf8.thy ===== *)
theory Utf8
  imports Prelude
begin

unbundle bit_operations_syntax

section \<open>UTF-8 decoding and encoding\<close>

text \<open>
  The two decoders of \<^verbatim>\<open>src/llama-grammar.cpp\<close> and the encoder of \<^verbatim>\<open>src/unicode.cpp\<close>. A \<open>const char *\<close> into a string is the rest of the string from there; the
  string ends at its end or at a zero byte. Code points are \<open>uint32_t\<close>, bytes are \<open>uint8_t\<close>. The incremental decoder carries an incomplete sequence from one piece of text to the
  next: \<open>utf8_pieces\<close> shows that a text cut into pieces at any byte is decoded to its code points.
\<close>

type_synonym uint8 = "8 word"
type_synonym uint32 = "32 word"

record llama_partial_utf8 =
  pu_value :: uint32
  pu_n_remain :: int

abbreviation NUL :: char where
  "NUL \<equiv> CHR 0x00"

definition u8 :: "char \<Rightarrow> uint8" where
  "u8 c = of_char c"

text \<open>\<open>*pos\<close>, zero at the end of the string.\<close>

definition at_end :: "string \<Rightarrow> bool" where
  "at_end s \<longleftrightarrow> s = [] \<or> hd s = NUL"

definition shift_in :: "uint32 \<Rightarrow> char \<Rightarrow> uint32" where
  "shift_in value c = push_bit 6 value + ucast (u8 c AND 0x3F)"

subsection \<open>The decoder of the grammar parser\<close>

definition parser_lookup :: "nat list" where
  "parser_lookup = [1, 1, 1, 1, 1, 1, 1, 1, 1, 1, 1, 1, 2, 2, 3, 4]"

primrec decode_tail :: "nat \<Rightarrow> string \<Rightarrow> uint32 \<Rightarrow> uint32 \<times> string" where
  "decode_tail 0 pos value = (value, pos)"
| "decode_tail (Suc n) pos value = (if at_end pos then (value, pos) else decode_tail n (tl pos) (shift_in value (hd pos)))"

definition decode_utf8_char :: "string \<Rightarrow> uint32 \<times> string" where
  "decode_utf8_char src =
    (let first_byte = u8 (hd src); highbits = drop_bit 4 first_byte; len = parser_lookup ! unat highbits; mask = (push_bit (8 - len) 1 - 1 :: uint8)
     in decode_tail (len - 1) (tl src) (ucast (first_byte AND mask)))"

subsection \<open>The incremental decoder\<close>

definition decode_lookup :: "int list" where
  "decode_lookup = [1, 1, 1, 1, 1, 1, 1, 1, 0, 0, 0, 0, 2, 2, 3, 4]"

text \<open>The first loop checks the continuation bytes (\<open>None\<close> is the early return), the inner loop of the second one does not.\<close>

fun decode_continue :: "string \<Rightarrow> uint32 \<Rightarrow> int \<Rightarrow> (string \<times> uint32 \<times> int) option" where
  "decode_continue pos value n_remain =
    (if at_end pos \<or> n_remain \<le> 0 then Some (pos, value, n_remain)
     else if drop_bit 6 (u8 (hd pos)) \<noteq> 2 then None
     else decode_continue (tl pos) (shift_in value (hd pos)) (n_remain - 1))"

fun decode_rest :: "string \<Rightarrow> uint32 \<Rightarrow> int \<Rightarrow> string \<times> uint32 \<times> int" where
  "decode_rest pos value n_remain =
    (if at_end pos \<or> n_remain \<le> 0 then (pos, value, n_remain)
     else decode_rest (tl pos) (shift_in value (hd pos)) (n_remain - 1))"

declare decode_continue.simps [simp del] decode_rest.simps [simp del]

lemma decode_rest_length: "length (fst (decode_rest pos v n)) \<le> length pos"
proof (induction pos v n rule: decode_rest.induct)
  case (1 pos v n)
  then show ?case
    by (subst decode_rest.simps) (auto simp: at_end_def intro: le_trans)
qed

function decode_seqs :: "string \<Rightarrow> uint32 \<Rightarrow> int \<Rightarrow> uint32 list \<Rightarrow> uint32 list \<times> llama_partial_utf8" where
  "decode_seqs pos value n_remain code_points =
    (if at_end pos then (code_points @ [0], \<lparr>pu_value = value, pu_n_remain = n_remain\<rparr>)
     else let first_byte = u8 (hd pos); highbits = drop_bit 4 first_byte; n_remain = decode_lookup ! unat highbits - 1
       in if n_remain < 0 then ([0], \<lparr>pu_value = 0, pu_n_remain = n_remain\<rparr>)
          else let mask = (push_bit (7 - nat n_remain) 1 - 1 :: uint8); (pos', value, n_remain) = decode_rest (tl pos) (ucast (first_byte AND mask)) n_remain
            in decode_seqs pos' value n_remain (if n_remain = 0 then code_points @ [value] else code_points))"
  by pat_completeness auto
termination
proof (relation "measure (\<lambda>(pos, _). length pos)")
  fix pos :: string and fb :: uint8 and hb :: uint8 and n :: int and mask :: uint8 and x pos' y and v :: uint32 and nr :: int
  assume "\<not> at_end pos" and "x = decode_rest (tl pos) (ucast (fb AND mask)) n" and "(pos', y) = x"
  then have "pos' = fst (decode_rest (tl pos) (ucast (fb AND mask)) n)" "pos \<noteq> []" by (metis fst_conv, auto simp: at_end_def)
  then show "((pos', v, nr, cps'), (pos, v0, n0, cps)) \<in> measure (\<lambda>(pos, _). length pos)" for cps' v0 n0 cps
    using decode_rest_length [of "tl pos" "ucast (fb AND mask)" n] by (cases pos) auto
qed auto

declare decode_seqs.simps [simp del]

definition decode_utf8 :: "string \<Rightarrow> llama_partial_utf8 \<Rightarrow> uint32 list \<times> llama_partial_utf8" where
  "decode_utf8 src partial_start =
    (case decode_continue src (pu_value partial_start) (pu_n_remain partial_start) of
       None \<Rightarrow> ([0], \<lparr>pu_value = 0, pu_n_remain = -1\<rparr>)
     | Some (pos, value, n_remain) \<Rightarrow>
         decode_seqs pos value n_remain (if pu_n_remain partial_start > 0 \<and> n_remain = 0 then [value] else []))"

subsection \<open>The encoder\<close>

definition byte :: "uint32 \<Rightarrow> char" where
  "byte w = char_of (unat (ucast w :: uint8))"

definition unicode_cpt_to_utf8 :: "uint32 \<Rightarrow> string res" where
  "unicode_cpt_to_utf8 cpt =
    (if cpt \<le> 0x7f then Inr [byte cpt]
     else if 0x80 \<le> cpt \<and> cpt \<le> 0x7ff then Inr [byte (0xc0 OR (drop_bit 6 cpt AND 0x1f)), byte (0x80 OR (cpt AND 0x3f))]
     else if 0x800 \<le> cpt \<and> cpt \<le> 0xffff
       then Inr [byte (0xe0 OR (drop_bit 12 cpt AND 0x0f)), byte (0x80 OR (drop_bit 6 cpt AND 0x3f)), byte (0x80 OR (cpt AND 0x3f))]
     else if 0x10000 \<le> cpt \<and> cpt \<le> 0x10ffff
       then Inr [byte (0xf0 OR (drop_bit 18 cpt AND 0x07)), byte (0x80 OR (drop_bit 12 cpt AND 0x3f)), byte (0x80 OR (drop_bit 6 cpt AND 0x3f)), byte (0x80 OR (cpt AND 0x3f))]
     else Inl (RUNTIME_ERROR ''invalid codepoint''))"

fun unicode_cpts_to_utf8 :: "uint32 list \<Rightarrow> string res" where
  "unicode_cpts_to_utf8 [] = Inr []"
| "unicode_cpts_to_utf8 (c # cps) = bind_res (unicode_cpt_to_utf8 c) (\<lambda>s. bind_res (unicode_cpts_to_utf8 cps) (\<lambda>r. Inr (s @ r)))"

subsection \<open>One byte at a time\<close>

text \<open>The reference: a decoder that looks at one byte at a time, and the texts whose lead and continuation bytes are in their places.\<close>

definition byte_ok :: "llama_partial_utf8 \<Rightarrow> char \<Rightarrow> bool" where
  "byte_ok p c \<longleftrightarrow> c \<noteq> NUL \<and> (if pu_n_remain p > 0 then drop_bit 6 (u8 c) = 2 else decode_lookup ! unat (drop_bit 4 (u8 c)) \<noteq> 0)"

definition feed :: "llama_partial_utf8 \<Rightarrow> char \<Rightarrow> uint32 list \<times> llama_partial_utf8" where
  "feed p c =
    (let (v, n) = if pu_n_remain p > 0 then (shift_in (pu_value p) c, pu_n_remain p - 1)
       else (let n = decode_lookup ! unat (drop_bit 4 (u8 c)) - 1 in (ucast (u8 c AND (push_bit (7 - nat n) 1 - 1)), n))
     in (if n = 0 then [v] else [], \<lparr>pu_value = v, pu_n_remain = n\<rparr>))"

primrec feeds :: "llama_partial_utf8 \<Rightarrow> string \<Rightarrow> uint32 list \<times> llama_partial_utf8" where
  "feeds p [] = ([], p)"
| "feeds p (c # cs) = (fst (feed p c) @ fst (feeds (snd (feed p c)) cs), snd (feeds (snd (feed p c)) cs))"

primrec feeds_ok :: "llama_partial_utf8 \<Rightarrow> string \<Rightarrow> bool" where
  "feeds_ok p [] \<longleftrightarrow> 0 \<le> pu_n_remain p"
| "feeds_ok p (c # cs) \<longleftrightarrow> 0 \<le> pu_n_remain p \<and> byte_ok p c \<and> feeds_ok (snd (feed p c)) cs"

lemma feeds_append: "feeds p (a @ b) = (fst (feeds p a) @ fst (feeds (snd (feeds p a)) b), snd (feeds (snd (feeds p a)) b))"
  by (induction a arbitrary: p) simp_all

lemma feeds_ok_append: "feeds_ok p (a @ b) \<longleftrightarrow> feeds_ok p a \<and> feeds_ok (snd (feeds p a)) b"
proof (induction a arbitrary: p)
  case Nil
  show ?case by (cases b) auto
qed auto

lemma feed_cont: "0 < n \<Longrightarrow> feed \<lparr>pu_value = v, pu_n_remain = n\<rparr> c = (if n = 1 then [shift_in v c] else [], \<lparr>pu_value = shift_in v c, pu_n_remain = n - 1\<rparr>)"
  by (simp add: feed_def)

lemma decode_rest_feeds:
  assumes "feeds_ok \<lparr>pu_value = v, pu_n_remain = n\<rparr> s" "0 < n"
  shows "\<exists>s' v' n'. decode_rest s v n = (s', v', n') \<and> decode_continue s v n = Some (s', v', n') \<and> (n' = 0 \<or> s' = []) \<and> 0 \<le> n' \<and> feeds_ok \<lparr>pu_value = v', pu_n_remain = n'\<rparr> s'
    \<and> feeds \<lparr>pu_value = v, pu_n_remain = n\<rparr> s
      = ((if n' = 0 then [v'] else []) @ fst (feeds \<lparr>pu_value = v', pu_n_remain = n'\<rparr> s'), snd (feeds \<lparr>pu_value = v', pu_n_remain = n'\<rparr> s'))"
  using assms
proof (induction s arbitrary: v n)
  case Nil
  then show ?case by (subst decode_rest.simps, subst decode_continue.simps) (simp add: at_end_def)
next
  case (Cons c s)
  let ?v = "shift_in v c"
  have c: "c \<noteq> NUL" "drop_bit 6 (u8 c) = 2" "feeds_ok \<lparr>pu_value = ?v, pu_n_remain = n - 1\<rparr> s"
    using Cons.prems by (auto simp: byte_ok_def feed_cont split: if_splits)
  have r: "decode_rest (c # s) v n = decode_rest s ?v (n - 1)" "decode_continue (c # s) v n = decode_continue s ?v (n - 1)"
    using c Cons.prems(2) by (subst decode_rest.simps decode_continue.simps, simp add: at_end_def)+
  show ?case
  proof (cases "n = 1")
    case True
    then have "decode_rest s ?v (n - 1) = (s, ?v, 0)" "decode_continue s ?v (n - 1) = Some (s, ?v, 0)"
      by (subst decode_rest.simps decode_continue.simps, simp)+
    then show ?thesis using r c(3) True by (simp add: feed_cont)
  next
    case False
    then have "0 < n - 1" using Cons.prems(2) by simp
    from Cons.IH [OF c(3) this] show ?thesis unfolding r using False Cons.prems(2) by (simp add: feed_cont)
  qed
qed

lemma decode_seqs_feeds:
  "feeds_ok \<lparr>pu_value = v, pu_n_remain = n\<rparr> s \<Longrightarrow> n = 0 \<or> s = [] \<Longrightarrow>
   decode_seqs s v n cps = (cps @ fst (feeds \<lparr>pu_value = v, pu_n_remain = n\<rparr> s) @ [0], snd (feeds \<lparr>pu_value = v, pu_n_remain = n\<rparr> s))"
proof (induction "length s" arbitrary: s v n cps rule: less_induct)
  case less
  show ?case
  proof (cases s)
    case Nil
    then show ?thesis by (subst decode_seqs.simps) (simp add: at_end_def)
  next
    case (Cons c t)
    let ?n = "decode_lookup ! unat (drop_bit 4 (u8 c)) - 1"
    let ?v = "ucast (u8 c AND (push_bit (7 - nat ?n) 1 - 1)) :: uint32"
    have n: "n = 0" using less.prems(2) Cons by simp
    have f: "feed \<lparr>pu_value = v, pu_n_remain = n\<rparr> c = (if ?n = 0 then [?v] else [], \<lparr>pu_value = ?v, pu_n_remain = ?n\<rparr>)"
      using n by (simp add: feed_def Let_def)
    have c: "c \<noteq> NUL" "feeds_ok \<lparr>pu_value = ?v, pu_n_remain = ?n\<rparr> t" using less.prems(1) Cons f by (auto simp: byte_ok_def)
    then have n0: "0 \<le> ?n" by (cases t) auto
    show ?thesis
    proof (cases "?n = 0")
      case True
      have "decode_rest t ?v ?n = (t, ?v, 0)" using True by (subst decode_rest.simps) simp
      moreover have "decode_seqs t ?v 0 (cps @ [?v]) = ((cps @ [?v]) @ fst (feeds \<lparr>pu_value = ?v, pu_n_remain = 0\<rparr> t) @ [0], snd (feeds \<lparr>pu_value = ?v, pu_n_remain = 0\<rparr> t))"
        using c(2) True by (intro less.hyps) (simp_all add: Cons)
      ultimately show ?thesis using c n0 True by (subst decode_seqs.simps) (simp add: Cons f at_end_def Let_def)
    next
      case False
      then obtain s' v' n' where d: "decode_rest t ?v ?n = (s', v', n')" "n' = 0 \<or> s' = []" "feeds_ok \<lparr>pu_value = v', pu_n_remain = n'\<rparr> s'"
        "feeds \<lparr>pu_value = ?v, pu_n_remain = ?n\<rparr> t
          = ((if n' = 0 then [v'] else []) @ fst (feeds \<lparr>pu_value = v', pu_n_remain = n'\<rparr> s'), snd (feeds \<lparr>pu_value = v', pu_n_remain = n'\<rparr> s'))"
        using decode_rest_feeds [OF c(2)] n0 by force
      have "length s' < length s" using decode_rest_length [of t ?v ?n] d(1) Cons by simp
      from less.hyps [OF this d(3,2), of "if n' = 0 then cps @ [v'] else cps"]
      show ?thesis using c n0 False d by (subst decode_seqs.simps) (simp add: Cons f at_end_def Let_def)
    qed
  qed
qed

lemma decode_utf8_feeds: "feeds_ok p s \<Longrightarrow> decode_utf8 s p = (fst (feeds p s) @ [0], snd (feeds p s))"
proof -
  assume ok: "feeds_ok p s"
  obtain v n where p: "p = \<lparr>pu_value = v, pu_n_remain = n\<rparr>" by (cases p) simp
  have n: "0 \<le> n" using ok p by (cases s) auto
  show ?thesis
  proof (cases "n = 0")
    case True
    then have "decode_continue s v n = Some (s, v, 0)" by (subst decode_continue.simps) simp
    then show ?thesis using decode_seqs_feeds [of v 0 s "[]"] ok True by (simp add: decode_utf8_def p)
  next
    case False
    then show ?thesis using decode_rest_feeds [of v n s] ok n p
      by (auto simp: decode_utf8_def decode_seqs_feeds)
  qed
qed

subsection \<open>Encoded characters\<close>

lemma less8: "n < 8 \<Longrightarrow> n = 0 \<or> n = 1 \<or> n = 2 \<or> n = 3 \<or> n = 4 \<or> n = 5 \<or> n = 6 \<or> n = (7::nat)"
  by auto

lemma byte_masks: "(0x3f :: 'a :: len word) = mask 6" "(0x1f :: 'a word) = mask 5" "(0x0f :: 'a word) = mask 4" "(0x07 :: 'a word) = mask 3"
  by (simp_all add: mask_eq_exp_minus_1)

lemma u8_byte: "u8 (byte w) = ucast w"
proof -
  have "u8 (byte w) = of_nat (of_char (char_of (unat (ucast w :: uint8))) :: nat)" by (simp only: u8_def byte_def of_nat_of_char)
  also have "\<dots> = of_nat (unat (ucast w :: uint8) mod 256)" by (simp only: of_char_of)
  also have "unat (ucast w :: uint8) mod 256 = unat (ucast w :: uint8)"
    using unsigned_less [where 'a = nat, of "ucast w :: uint8"] by simp
  finally show ?thesis by simp
qed

lemma byte_not_NUL: "ucast w \<noteq> (0 :: uint8) \<Longrightarrow> byte w \<noteq> NUL"
proof
  assume "ucast w \<noteq> (0 :: uint8)" "byte w = NUL"
  then show False using u8_byte [of w] by (simp add: u8_def)
qed

lemma cont_byte: "drop_bit 6 (0x80 OR (z AND 0x3f) :: uint8) = 2" "(0x80 OR (z AND 0x3f) :: uint8) AND 0x3f = z AND 0x3f"
  by (rule bit_word_eqI, (drule less8 [simplified] | simp)+) (rule bit_word_eqI, (drule less8 [simplified] | simp)+, (elim disjE; simp add: bit_simps))

lemma lead_bytes:
  "drop_bit 4 (0xc0 OR (z AND 0x1f) :: uint8) = 12 OR of_bool (bit z 4)"
  "drop_bit 4 (0xe0 OR (z AND 0x0f) :: uint8) = 14"
  "drop_bit 4 (0xf0 OR (z AND 0x07) :: uint8) = 15"
  "(0xc0 OR (z AND 0x1f) :: uint8) AND 0x3f = z AND 0x1f"
  "(0xe0 OR (z AND 0x0f) :: uint8) AND 0x1f = z AND 0x0f"
  "(0xf0 OR (z AND 0x07) :: uint8) AND 0x0f = z AND 0x07"
  by (rule bit_word_eqI, (drule less8 [simplified] | simp)+, (elim disjE; simp add: bit_simps)?)+

lemma shift_in_or: "shift_in v c = push_bit 6 v OR ucast (u8 c AND 0x3f)"
  unfolding shift_in_def byte_masks by (rule disjunctive_add) (auto simp: bit_simps)

lemma shift_in_cont: "shift_in v (byte (0x80 OR (x AND 0x3f))) = push_bit 6 v OR (x AND 0x3f)"
proof -
  have "u8 (byte (0x80 OR (x AND 0x3f))) = 0x80 OR (ucast x AND 0x3f)" by (simp add: u8_byte unsigned_or_eq unsigned_and_eq)
  moreover have "ucast (ucast x AND 0x3f :: uint8) = x AND (0x3f :: uint32)" unfolding byte_masks by (auto simp: bit_eq_iff bit_simps)
  ultimately show ?thesis by (simp add: shift_in_or cont_byte(2))
qed

lemma feed_cont_byte:
  "0 < n \<Longrightarrow> byte_ok \<lparr>pu_value = v, pu_n_remain = n\<rparr> (byte (0x80 OR (x AND 0x3f)))"
  "0 < n \<Longrightarrow> feed \<lparr>pu_value = v, pu_n_remain = n\<rparr> (byte (0x80 OR (x AND 0x3f)))
     = (if n = 1 then [push_bit 6 v OR (x AND 0x3f)] else [], \<lparr>pu_value = push_bit 6 v OR (x AND 0x3f), pu_n_remain = n - 1\<rparr>)"
proof -
  have u: "u8 (byte (0x80 OR (x AND 0x3f))) = 0x80 OR (ucast x AND 0x3f)" "(ucast (0x80 OR (x AND 0x3f)) :: uint8) = 0x80 OR (ucast x AND 0x3f)"
    by (simp_all add: u8_byte unsigned_or_eq unsigned_and_eq)
  have "(0x80 OR (ucast x AND 0x3f) :: uint8) \<noteq> 0" by (simp add: or_eq_0_iff)
  then show "0 < n \<Longrightarrow> byte_ok \<lparr>pu_value = v, pu_n_remain = n\<rparr> (byte (0x80 OR (x AND 0x3f)))"
    using u cont_byte(1) [of "ucast x"] by (simp add: byte_ok_def byte_not_NUL)
qed (simp add: feed_cont shift_in_cont)

lemma feed_lead:
  assumes "pu_n_remain p = 0" "u8 c \<noteq> 0" "decode_lookup ! unat (drop_bit 4 (u8 c)) = n + 1" "0 \<le> n" "u8 c AND (push_bit (7 - nat n) 1 - 1) = w"
  shows "byte_ok p c" "feed p c = (if n = 0 then [ucast w] else [], \<lparr>pu_value = ucast w, pu_n_remain = n\<rparr>)"
  using assms by (auto simp: byte_ok_def feed_def u8_def)

text \<open>The bytes of a code point are in their places and are read as that code point.\<close>

lemma small_bits:
  fixes c :: uint32
  assumes "c < 2 ^ n" "bit c k"
  shows "k < n"
proof -
  have "take_bit n c = c" using assms(1) by (simp add: take_bit_eq_mask less_mask_eq)
  then show ?thesis using assms(2) by (metis bit_take_bit_iff)
qed

lemma join_bits: "push_bit 6 (drop_bit 6 x) OR (x AND 0x3f) = (x :: uint32)"
  unfolding byte_masks by (auto simp: bit_eq_iff bit_simps)

lemma top_bits:
  fixes c :: uint32
  shows "c < 2 ^ 11 \<Longrightarrow> drop_bit 6 c AND 0x1f = drop_bit 6 c" "c < 2 ^ 16 \<Longrightarrow> drop_bit 12 c AND 0x0f = drop_bit 12 c" "c < 2 ^ 21 \<Longrightarrow> drop_bit 18 c AND 0x07 = drop_bit 18 c"
  unfolding byte_masks by (auto simp: bit_eq_iff bit_simps dest!: small_bits [of c 11, simplified] small_bits [of c 16, simplified] small_bits [of c 21, simplified])

lemma join_chain:
  fixes c :: uint32
  shows "push_bit 6 (drop_bit 12 c) OR (drop_bit 6 c AND 0x3f) = drop_bit 6 c" "push_bit 6 (drop_bit 18 c) OR (drop_bit 12 c AND 0x3f) = drop_bit 12 c"
  using join_bits [of "drop_bit 6 c"] join_bits [of "drop_bit 12 c"] by simp_all

lemma ascii_byte: "c \<le> 0x7f \<Longrightarrow> decode_lookup ! unat (drop_bit 4 (ucast (c :: uint32) :: uint8)) = 1 \<and> (ucast c :: uint8) AND 0x7f = ucast c \<and> ucast (ucast c :: uint8) = c"
proof -
  assume "c \<le> 0x7f"
  then have c: "c < 2 ^ 7" "unat c < 128" by unat_arith+
  have "unat (ucast c :: uint8) = unat c" using c(2) by (simp add: unsigned_ucast_eq take_bit_eq_mod)
  then have "unat (drop_bit 4 (ucast c :: uint8)) < 8" using c(2) by (simp only: unat_drop_bit_eq) (simp add: drop_bit_eq_div)
  then have l: "decode_lookup ! unat (drop_bit 4 (ucast c :: uint8)) = 1" using less8 by (fastforce simp: decode_lookup_def)
  have m: "(0x7f :: uint8) = mask 7" by (simp add: mask_eq_exp_minus_1)
  have "(ucast c :: uint8) AND 0x7f = ucast c" "ucast (ucast c :: uint8) = c" unfolding m by (auto simp: bit_eq_iff bit_simps) (use small_bits [OF c(1)] in fastforce)+
  then show ?thesis using l by simp
qed

lemma encoded_char:
  assumes "unicode_cpt_to_utf8 c = Inr s" "c \<noteq> 0" "pu_n_remain p = 0"
  shows "feeds_ok p s \<and> feeds p s = ([c], \<lparr>pu_value = c, pu_n_remain = 0\<rparr>)"
proof -
  consider (1) "c \<le> 0x7f" "s = [byte c]"
    | (2) "c < 2 ^ 11" "s = [byte (0xc0 OR (drop_bit 6 c AND 0x1f)), byte (0x80 OR (c AND 0x3f))]"
    | (3) "c < 2 ^ 16" "s = [byte (0xe0 OR (drop_bit 12 c AND 0x0f)), byte (0x80 OR (drop_bit 6 c AND 0x3f)), byte (0x80 OR (c AND 0x3f))]"
    | (4) "c < 2 ^ 21" "s = [byte (0xf0 OR (drop_bit 18 c AND 0x07)), byte (0x80 OR (drop_bit 12 c AND 0x3f)), byte (0x80 OR (drop_bit 6 c AND 0x3f)), byte (0x80 OR (c AND 0x3f))]"
  proof -
    have "c \<le> 0x7ff \<Longrightarrow> c < 2 ^ 11" "c \<le> 0xffff \<Longrightarrow> c < 2 ^ 16" "c \<le> 0x10ffff \<Longrightarrow> c < 2 ^ 21" by unat_arith+
    then show ?thesis using assms(1) that by (simp add: unicode_cpt_to_utf8_def split: if_splits)
  qed
  then show ?thesis
  proof cases
    case 1
    have "u8 (byte c) \<noteq> 0" using ascii_byte [OF 1(1)] assms(2) by (metis u8_byte unsigned_0)
    then show ?thesis using feed_lead [of p "byte c" 0 "ucast c"] ascii_byte [OF 1(1)] assms(3) 1(2) by (simp add: u8_byte)
  next
    case 2
    let ?z = "ucast (drop_bit 6 c) :: uint8"
    have u: "u8 (byte (0xc0 OR (drop_bit 6 c AND 0x1f))) = 0xc0 OR (?z AND 0x1f)" by (simp add: u8_byte unsigned_or_eq unsigned_and_eq)
    have w: "ucast (?z AND 0x1f) = drop_bit 6 c AND (0x1f :: uint32)" unfolding byte_masks by (auto simp: bit_eq_iff bit_simps)
    have "decode_lookup ! unat (drop_bit 4 (0xc0 OR (?z AND 0x1f))) = 2" unfolding lead_bytes(1) by (simp add: decode_lookup_def)
    then have "byte_ok p (hd s)" "feed p (hd s) = ([], \<lparr>pu_value = drop_bit 6 c, pu_n_remain = 1\<rparr>)"
      using feed_lead [of p "hd s" 1 "?z AND 0x1f"] 2 u w lead_bytes(4) [of ?z] top_bits(1) assms(3) by (simp_all add: or_eq_0_iff)
    then show ?thesis using 2(2) assms(3) by (simp add: feed_cont_byte join_bits)
  next
    case 3
    let ?z = "ucast (drop_bit 12 c) :: uint8"
    have u: "u8 (byte (0xe0 OR (drop_bit 12 c AND 0x0f))) = 0xe0 OR (?z AND 0x0f)" by (simp add: u8_byte unsigned_or_eq unsigned_and_eq)
    have w: "ucast (?z AND 0x0f) = drop_bit 12 c AND (0x0f :: uint32)" unfolding byte_masks by (auto simp: bit_eq_iff bit_simps)
    have "decode_lookup ! unat (drop_bit 4 (0xe0 OR (?z AND 0x0f))) = 3" unfolding lead_bytes(2) by (simp add: decode_lookup_def)
    then have "byte_ok p (hd s)" "feed p (hd s) = ([], \<lparr>pu_value = drop_bit 12 c, pu_n_remain = 2\<rparr>)"
      using feed_lead [of p "hd s" 2 "?z AND 0x0f"] 3 u w lead_bytes(5) [of ?z] top_bits(2) assms(3) by (simp_all add: or_eq_0_iff)
    then show ?thesis using 3(2) assms(3) by (simp add: feed_cont_byte join_bits join_chain)
  next
    case 4
    let ?z = "ucast (drop_bit 18 c) :: uint8"
    have u: "u8 (byte (0xf0 OR (drop_bit 18 c AND 0x07))) = 0xf0 OR (?z AND 0x07)" by (simp add: u8_byte unsigned_or_eq unsigned_and_eq)
    have w: "ucast (?z AND 0x07) = drop_bit 18 c AND (0x07 :: uint32)" unfolding byte_masks by (auto simp: bit_eq_iff bit_simps)
    have "decode_lookup ! unat (drop_bit 4 (0xf0 OR (?z AND 0x07))) = 4" unfolding lead_bytes(3) by (simp add: decode_lookup_def)
    then have "byte_ok p (hd s)" "feed p (hd s) = ([], \<lparr>pu_value = drop_bit 18 c, pu_n_remain = 3\<rparr>)"
      using feed_lead [of p "hd s" 3 "?z AND 0x07"] 4 u w lead_bytes(6) [of ?z] top_bits(3) assms(3) by (simp_all add: or_eq_0_iff)
    then show ?thesis using 4(2) assms(3) by (simp add: feed_cont_byte join_bits join_chain)
  qed
qed

lemma encoded_text:
  assumes "unicode_cpts_to_utf8 cps = Inr s" "0 \<notin> set cps" "pu_n_remain p = 0"
  shows "feeds_ok p s \<and> fst (feeds p s) = cps \<and> pu_n_remain (snd (feeds p s)) = 0"
  using assms
proof (induction cps arbitrary: s p)
  case (Cons c cps)
  then obtain a b where ab: "unicode_cpt_to_utf8 c = Inr a" "unicode_cpts_to_utf8 cps = Inr b" "s = a @ b"
    by (auto simp: bind_res_Inr_iff)
  then show ?case using encoded_char [OF ab(1), of p] Cons by (simp add: feeds_append feeds_ok_append)
qed simp

text \<open>Decoding the pieces of a text one after the other, the way \<open>llama_grammar_accept_str\<close> does: each piece starts from the partial sequence the previous one left.\<close>

fun decode_pieces :: "string list \<Rightarrow> llama_partial_utf8 \<Rightarrow> uint32 list \<times> llama_partial_utf8" where
  "decode_pieces [] p = ([], p)"
| "decode_pieces (s # ss) p = (let (cps, q) = decode_utf8 s p; (cps', r) = decode_pieces ss q in (butlast cps @ cps', r))"

lemma decode_pieces_feeds: "feeds_ok p (concat ss) \<Longrightarrow> decode_pieces ss p = feeds p (concat ss)"
proof (induction ss arbitrary: p)
  case (Cons s ss)
  then show ?case by (simp add: feeds_ok_append feeds_append decode_utf8_feeds split_beta Let_def)
qed simp

text \<open>C13. A text encoded by \<open>unicode_cpts_to_utf8\<close> (without zero characters) and cut into pieces at any bytes, also inside a character, is decoded piece by piece to its
  code points, and no incomplete sequence is left over.\<close>

theorem utf8_pieces:
  assumes "unicode_cpts_to_utf8 cps = Inr s" "0 \<notin> set cps" "concat pieces = s"
  shows "fst (decode_pieces pieces \<lparr>pu_value = 0, pu_n_remain = 0\<rparr>) = cps \<and> pu_n_remain (snd (decode_pieces pieces \<lparr>pu_value = 0, pu_n_remain = 0\<rparr>)) = 0"
  using encoded_text [OF assms(1,2), of "\<lparr>pu_value = 0, pu_n_remain = 0\<rparr>"] assms(3) by (simp add: decode_pieces_feeds)

theorem utf8_pieces_witness:
  "fst (decode_pieces [[CHR 0x61, CHR 0xE2], [CHR 0x82], [], [CHR 0xAC]] \<lparr>pu_value = 0, pu_n_remain = 0\<rparr>) = [0x61, 0x20AC]"
proof -
  have e: "unicode_cpts_to_utf8 [0x61, 0x20AC] = Inr [CHR 0x61, CHR 0xE2, CHR 0x82, CHR 0xAC]" by code_simp
  show ?thesis using utf8_pieces [OF e, of "[[CHR 0x61, CHR 0xE2], [CHR 0x82], [], [CHR 0xAC]]"] by simp
qed

end
