(* ===== verification/Grammar.thy ===== *)
theory Grammar
  imports Utf8
begin

section \<open>The grammar engine\<close>

text \<open>
  The matching half of \<^verbatim>\<open>src/llama-grammar.cpp\<close>: a grammar is a table of rules, its state a list of pushdown stacks. A \<open>const llama_grammar_element *\<close> into the
  table is the pair of a rule and an index in that rule, so that \<open>pos + 1\<close> is the next index; a stack is kept with \<open>back()\<close> first, and so is the work list \<open>todo\<close>. The closure
  loop of \<open>llama_grammar_advance_stack\<close> may run forever: it is a partial function and its result is then \<open>DIVERGES\<close>. The vocabulary and the regular expressions of the trigger
  patterns are parameters.
\<close>

subsection \<open>Data\<close>

datatype llama_gretype =
  LLAMA_GRETYPE_END | LLAMA_GRETYPE_ALT | LLAMA_GRETYPE_RULE_REF | LLAMA_GRETYPE_CHAR | LLAMA_GRETYPE_CHAR_NOT | LLAMA_GRETYPE_CHAR_RNG_UPPER
  | LLAMA_GRETYPE_CHAR_ALT | LLAMA_GRETYPE_CHAR_ANY | LLAMA_GRETYPE_TOKEN | LLAMA_GRETYPE_TOKEN_NOT

record llama_grammar_element =
  ge_type :: llama_gretype
  ge_value :: uint32

type_synonym llama_grammar_rule = "llama_grammar_element list"
type_synonym llama_grammar_rules = "llama_grammar_rule list"
type_synonym element_pos = "nat \<times> nat"
type_synonym llama_grammar_stack = "element_pos list"
type_synonym llama_grammar_stacks = "llama_grammar_stack list"

record llama_grammar_candidate =
  gc_index :: nat
  gc_array :: "uint32 list"
  gc_offset :: nat
  gc_partial_utf8 :: llama_partial_utf8
  gc_id :: llama_token

text \<open>\<open>*tok.code_points\<close>: the pointer is an offset into the decoded array.\<close>

definition gc_point :: "llama_grammar_candidate \<Rightarrow> uint32" where
  "gc_point tok = gc_array tok ! gc_offset tok"

text \<open>What the grammar uses of the vocabulary. \<open>tokenize\<close> gives the tokens of a text.\<close>

record llama_vocab_i =
  token_to_piece :: "llama_token \<Rightarrow> string"
  is_eog :: "llama_token \<Rightarrow> bool"
  tokenize :: "string \<Rightarrow> llama_token list"

record 'pat llama_grammar =
  gr_rules :: llama_grammar_rules
  gr_stacks :: llama_grammar_stacks
  gr_partial_utf8 :: llama_partial_utf8
  gr_lazy :: bool
  gr_awaiting_trigger :: bool
  gr_trigger_buffer :: string
  gr_trigger_buffer_positions :: "(llama_token \<times> nat \<times> nat) list"
  gr_trigger_tokens :: "llama_token list"
  gr_trigger_patterns :: "'pat list"

definition elem :: "llama_grammar_rules \<Rightarrow> element_pos \<Rightarrow> llama_grammar_element" where
  "elem R p = R ! fst p ! snd p"

definition rest :: "llama_grammar_rules \<Rightarrow> element_pos \<Rightarrow> llama_grammar_rule" where
  "rest R p = drop (snd p) (R ! fst p)"

definition forward :: "element_pos \<Rightarrow> nat \<Rightarrow> element_pos" where
  "forward p k = (fst p, snd p + k)"

subsection \<open>Matching one element\<close>

definition is_end_of_sequence :: "llama_grammar_element \<Rightarrow> bool" where
  "is_end_of_sequence e = (case ge_type e of LLAMA_GRETYPE_END \<Rightarrow> True | LLAMA_GRETYPE_ALT \<Rightarrow> True | _ \<Rightarrow> False)"

definition is_positive_char :: "llama_grammar_element \<Rightarrow> bool" where
  "is_positive_char e \<longleftrightarrow> ge_type e = LLAMA_GRETYPE_CHAR \<or> ge_type e = LLAMA_GRETYPE_CHAR_ANY"

definition next_is :: "llama_gretype \<Rightarrow> llama_grammar_rule \<Rightarrow> bool" where
  "next_is t es \<longleftrightarrow> es \<noteq> [] \<and> ge_type (hd es) = t"

text \<open>The \<open>do .. while\<close> over the alternatives of a character range, from \<open>pos\<close>; the result is whether one matched and how far \<open>pos\<close> moved.\<close>

fun match_alts :: "llama_grammar_rule \<Rightarrow> uint32 \<Rightarrow> bool \<Rightarrow> nat \<Rightarrow> bool \<times> nat" where
  "match_alts [] chr found k = (found, k)"
| "match_alts (e # es) chr found k =
    (if next_is LLAMA_GRETYPE_CHAR_RNG_UPPER es then
       (let found = found \<or> ge_value e \<le> chr \<and> chr \<le> ge_value (hd es)
        in if next_is LLAMA_GRETYPE_CHAR_ALT (tl es) then match_alts (tl es) chr found (k + 2) else (found, k + 2))
     else let found = ge_type e = LLAMA_GRETYPE_CHAR_ANY \<or> found \<or> ge_value e = chr
       in if next_is LLAMA_GRETYPE_CHAR_ALT es then match_alts es chr found (k + 1) else (found, k + 1))"

declare match_alts.simps(2) [simp del]

definition match_char :: "llama_grammar_rules \<Rightarrow> element_pos \<Rightarrow> uint32 \<Rightarrow> (bool \<times> element_pos) res" where
  "match_char R pos chr =
    ggml_assert (is_positive_char (elem R pos) \<or> ge_type (elem R pos) = LLAMA_GRETYPE_CHAR_NOT) ''is_positive_char || pos->type == LLAMA_GRETYPE_CHAR_NOT''
      (let (found, k) = match_alts (rest R pos) chr False 0 in Inr (found = is_positive_char (elem R pos), forward pos k))"

text \<open>The same loop on a range of code points, with its early returns.\<close>

fun match_partial_alts :: "llama_grammar_rule \<Rightarrow> bool \<Rightarrow> uint32 \<Rightarrow> uint32 \<Rightarrow> bool" where
  "match_partial_alts [] positive low high = (\<not> positive)"
| "match_partial_alts (e # es) positive low high =
    (if next_is LLAMA_GRETYPE_CHAR_RNG_UPPER es then
       (if ge_value e \<le> high \<and> low \<le> ge_value (hd es) then positive
        else if next_is LLAMA_GRETYPE_CHAR_ALT (tl es) then match_partial_alts (tl es) positive low high else \<not> positive)
     else if ge_type e = LLAMA_GRETYPE_CHAR_ANY then True
     else if low \<le> ge_value e \<and> ge_value e \<le> high then positive
     else if next_is LLAMA_GRETYPE_CHAR_ALT es then match_partial_alts es positive low high else \<not> positive)"

declare match_partial_alts.simps(2) [simp del]

definition partial_low :: "uint32 \<Rightarrow> int \<Rightarrow> uint32" where
  "partial_low partial_value n_remain =
    (let low = push_bit (nat n_remain * 6) partial_value in if low = 0 then (if n_remain = 2 then push_bit 11 1 else if n_remain = 3 then push_bit 16 1 else low) else low)"

definition partial_high :: "uint32 \<Rightarrow> int \<Rightarrow> uint32" where
  "partial_high partial_value n_remain = push_bit (nat n_remain * 6) partial_value OR (push_bit (nat n_remain * 6) 1 - 1)"

definition match_partial_char :: "llama_grammar_rules \<Rightarrow> element_pos \<Rightarrow> llama_partial_utf8 \<Rightarrow> bool res" where
  "match_partial_char R pos partial_utf8 =
    ggml_assert (is_positive_char (elem R pos) \<or> ge_type (elem R pos) = LLAMA_GRETYPE_CHAR_NOT) ''is_positive_char || pos->type == LLAMA_GRETYPE_CHAR_NOT''
      (let partial_value = pu_value partial_utf8; n_remain = pu_n_remain partial_utf8
       in Inr (if n_remain < 0 \<or> n_remain = 1 \<and> partial_value < 2 then False
               else match_partial_alts (rest R pos) (is_positive_char (elem R pos)) (partial_low partial_value n_remain) (partial_high partial_value n_remain)))"

definition is_token_element :: "llama_grammar_element \<Rightarrow> bool" where
  "is_token_element e \<longleftrightarrow> ge_type e = LLAMA_GRETYPE_TOKEN \<or> ge_type e = LLAMA_GRETYPE_TOKEN_NOT"

definition match_token :: "llama_grammar_element \<Rightarrow> llama_token \<Rightarrow> bool res" where
  "match_token e tok =
    ggml_assert (is_token_element e) ''pos->type == LLAMA_GRETYPE_TOKEN || pos->type == LLAMA_GRETYPE_TOKEN_NOT''
      (Inr (if ge_type e = LLAMA_GRETYPE_TOKEN then ge_value e = word_of_int tok else ge_value e \<noteq> word_of_int tok))"

subsection \<open>Expanding a stack\<close>

text \<open>Where the alternatives of a rule start: the \<open>do .. while (true)\<close> with its scan to the end of an alternative.\<close>

fun alternates :: "llama_grammar_rule \<Rightarrow> nat \<Rightarrow> nat \<Rightarrow> nat list" where
  "alternates [] start i = [start]"
| "alternates (e # es) start i =
    (if ge_type e = LLAMA_GRETYPE_ALT then start # alternates es (Suc i) (Suc i) else if ge_type e = LLAMA_GRETYPE_END then [start] else alternates es start (Suc i))"

definition push_pos :: "llama_grammar_rules \<Rightarrow> element_pos \<Rightarrow> llama_grammar_stack \<Rightarrow> llama_grammar_stack" where
  "push_pos R pos stack = (if is_end_of_sequence (elem R pos) then stack else pos # stack)"

definition next_stack :: "llama_grammar_rules \<Rightarrow> element_pos \<Rightarrow> llama_grammar_stack \<Rightarrow> element_pos \<Rightarrow> llama_grammar_stack" where
  "next_stack R pos stack subpos = push_pos R subpos (push_pos R (forward pos 1) stack)"

definition next_stacks :: "llama_grammar_rules \<Rightarrow> element_pos \<Rightarrow> llama_grammar_stack \<Rightarrow> llama_grammar_stacks" where
  "next_stacks R pos stack = (let rule_id = unat (ge_value (elem R pos)) in map (\<lambda>s. next_stack R pos stack (rule_id, s)) (alternates (R ! rule_id) 0 0))"

definition add_stack :: "llama_grammar_stack \<Rightarrow> llama_grammar_stacks \<Rightarrow> llama_grammar_stacks" where
  "add_stack stack stacks = (if stack \<in> set stacks then stacks else stacks @ [stack])"

definition is_terminal :: "llama_grammar_element \<Rightarrow> bool" where
  "is_terminal e \<longleftrightarrow> ge_type e \<in> {LLAMA_GRETYPE_CHAR, LLAMA_GRETYPE_CHAR_NOT, LLAMA_GRETYPE_CHAR_ANY, LLAMA_GRETYPE_TOKEN, LLAMA_GRETYPE_TOKEN_NOT}"

partial_function (option) advance_loop :: "llama_grammar_rules \<Rightarrow> llama_grammar_stacks \<Rightarrow> llama_grammar_stacks \<Rightarrow> llama_grammar_stacks \<Rightarrow> llama_grammar_stacks res option" where
  [code]: "advance_loop R todo seen new_stacks =
    (case todo of [] \<Rightarrow> Some (Inr new_stacks)
     | curr_stack # todo \<Rightarrow>
         if curr_stack \<in> set seen then advance_loop R todo seen new_stacks
         else (case curr_stack of [] \<Rightarrow> advance_loop R todo (curr_stack # seen) (add_stack curr_stack new_stacks)
           | pos # stack \<Rightarrow>
               if ge_type (elem R pos) = LLAMA_GRETYPE_RULE_REF
               then advance_loop R (rev (next_stacks R pos stack) @ todo) (curr_stack # seen) new_stacks
               else if is_terminal (elem R pos) then advance_loop R todo (curr_stack # seen) (add_stack curr_stack new_stacks)
               else Some (Inl (GGML_ABORT ''fatal error''))))"

definition advance_stack :: "llama_grammar_rules \<Rightarrow> llama_grammar_stack \<Rightarrow> llama_grammar_stacks \<Rightarrow> llama_grammar_stacks res" where
  "advance_stack R stack new_stacks = bind_res (run_loop (advance_loop R [stack] [] new_stacks)) (\<lambda>r. r)"

subsection \<open>Left recursion\<close>

record lr_state =
  rules_visited :: "bool list"
  rules_in_progress :: "bool list"
  rules_may_be_empty :: "bool list"

primrec has_empty_alt :: "llama_grammar_rule \<Rightarrow> bool \<Rightarrow> bool" where
  "has_empty_alt [] at_rule_start = False"
| "has_empty_alt (e # es) at_rule_start = (if is_end_of_sequence e then (if at_rule_start then True else has_empty_alt es True) else has_empty_alt es False)"

text \<open>The second loop, with the recursive call as a parameter; \<open>True\<close> is the early return.\<close>

primrec lr_loop :: "(nat \<Rightarrow> lr_state \<Rightarrow> (bool \<times> lr_state) res) \<Rightarrow> llama_grammar_rule \<Rightarrow> bool \<Rightarrow> lr_state \<Rightarrow> (bool \<times> lr_state) res" where
  "lr_loop rec_call [] recurse st = Inr (False, st)"
| "lr_loop rec_call (e # es) recurse st =
    (if ge_type e = LLAMA_GRETYPE_RULE_REF \<and> recurse then
       bind_res (rec_call (unat (ge_value e)) st) (\<lambda>(left, st).
         if left then Inr (True, st)
         else lr_loop rec_call es (rules_may_be_empty st ! unat (ge_value e)) st)
     else lr_loop rec_call es (is_end_of_sequence e) st)"

text \<open>Marking the rule as in progress, and as possibly empty if it has an empty alternative.\<close>

definition lr_enter :: "llama_grammar_rules \<Rightarrow> nat \<Rightarrow> lr_state \<Rightarrow> lr_state" where
  "lr_enter R rule_index st =
    (let st = st\<lparr>rules_in_progress := (rules_in_progress st)[rule_index := True]\<rparr>
     in if has_empty_alt (R ! rule_index) True then st\<lparr>rules_may_be_empty := (rules_may_be_empty st)[rule_index := True]\<rparr> else st)"

primrec detect_left_recursion :: "nat \<Rightarrow> llama_grammar_rules \<Rightarrow> nat \<Rightarrow> lr_state \<Rightarrow> (bool \<times> lr_state) res" where
  "detect_left_recursion 0 R rule_index st = Inl DIVERGES"
| "detect_left_recursion (Suc fuel) R rule_index st =
    (if rules_in_progress st ! rule_index then Inr (True, st)
     else bind_res (lr_loop (detect_left_recursion fuel R) (R ! rule_index) True (lr_enter R rule_index st)) (\<lambda>(left, st).
       if left then Inr (True, st)
       else Inr (False, st\<lparr>rules_in_progress := (rules_in_progress st)[rule_index := False], rules_visited := (rules_visited st)[rule_index := True]\<rparr>)))"

text \<open>The check of \<open>llama_grammar_init_impl\<close>. A call marks its rule as in progress before it recurses, so the recursion is never deeper than the number of rules plus one.\<close>

primrec detect_all :: "llama_grammar_rules \<Rightarrow> nat list \<Rightarrow> lr_state \<Rightarrow> bool res" where
  "detect_all R [] st = Inr False"
| "detect_all R (i # is) st =
    (if rules_visited st ! i then detect_all R is st
     else bind_res (detect_left_recursion (length R + 1) R i st) (\<lambda>(left, st). if left then Inr True else detect_all R is st))"

definition left_recursive :: "llama_grammar_rules \<Rightarrow> bool res" where
  "left_recursive R =
    (let n_rules = length R
     in detect_all R [0..<n_rules] \<lparr>rules_visited = replicate n_rules False, rules_in_progress = replicate n_rules False, rules_may_be_empty = replicate n_rules False\<rparr>)"

subsection \<open>Accepting text\<close>

definition accept_chr :: "llama_grammar_rules \<Rightarrow> uint32 \<Rightarrow> llama_grammar_stack \<Rightarrow> llama_grammar_stacks \<Rightarrow> llama_grammar_stacks res" where
  "accept_chr R chr stack new_stacks =
    (case stack of [] \<Rightarrow> Inr new_stacks
     | pos # st \<Rightarrow>
         if is_token_element (elem R pos) then Inr new_stacks
         else bind_res (match_char R pos chr) (\<lambda>(matched, pos').
           if matched then advance_stack R (push_pos R pos' st) new_stacks else Inr new_stacks))"

definition accept_stacks :: "llama_grammar_rules \<Rightarrow> llama_grammar_stacks \<Rightarrow> uint32 \<Rightarrow> llama_grammar_stacks res" where
  "accept_stacks R stacks chr = fold_res (accept_chr R chr) stacks []"

definition llama_grammar_accept :: "'pat llama_grammar \<Rightarrow> uint32 \<Rightarrow> 'pat llama_grammar res" where
  "llama_grammar_accept g chr = bind_res (accept_stacks (gr_rules g) (gr_stacks g) chr) (\<lambda>stacks. Inr (g\<lparr>gr_stacks := stacks\<rparr>))"

definition llama_grammar_accept_str :: "'pat llama_grammar \<Rightarrow> string \<Rightarrow> 'pat llama_grammar res" where
  "llama_grammar_accept_str g piece =
    (let (code_points, partial_utf8) = decode_utf8 piece (gr_partial_utf8 g)
     in bind_res (fold_res (\<lambda>c g. llama_grammar_accept g c) (butlast code_points) g) (\<lambda>g.
       let g = g\<lparr>gr_partial_utf8 := partial_utf8\<rparr>
       in if gr_stacks g = [] then Inl (RUNTIME_ERROR ''Unexpected empty grammar stack after accepting piece'') else Inr g))"

fun accept_points :: "llama_grammar_rules \<Rightarrow> uint32 list \<Rightarrow> llama_grammar_stacks \<Rightarrow> llama_grammar_stacks res" where
  "accept_points R [] current_stacks = Inr current_stacks"
| "accept_points R (c # cs) current_stacks =
    bind_res (accept_stacks R current_stacks c) (\<lambda>next_stacks. if next_stacks = [] then Inr next_stacks else accept_points R cs next_stacks)"

definition accept_token_stack :: "llama_grammar_rules \<Rightarrow> llama_token \<Rightarrow> uint32 list \<Rightarrow> llama_grammar_stack \<Rightarrow> llama_grammar_stacks \<Rightarrow> llama_grammar_stacks res" where
  "accept_token_stack R tok points stack stacks_new =
    (case stack of [] \<Rightarrow> Inr stacks_new
     | pos # st \<Rightarrow>
         if is_token_element (elem R pos) then
           bind_res (match_token (elem R pos) tok) (\<lambda>matched.
             if matched then advance_stack R (push_pos R (forward pos 1) st) stacks_new else Inr stacks_new)
         else bind_res (accept_points R points [stack]) (\<lambda>surviving. Inr (fold add_stack surviving stacks_new)))"

definition llama_grammar_accept_token :: "'pat llama_grammar \<Rightarrow> llama_token \<Rightarrow> string \<Rightarrow> 'pat llama_grammar res" where
  "llama_grammar_accept_token g tok piece =
    (let (code_points, partial_utf8) = decode_utf8 piece (gr_partial_utf8 g)
     in bind_res (fold_res (accept_token_stack (gr_rules g) tok (butlast code_points)) (gr_stacks g) []) (\<lambda>stacks_new.
       if stacks_new = [] then Inl (RUNTIME_ERROR ''Unexpected empty grammar stack after accepting piece'')
       else Inr (g\<lparr>gr_stacks := stacks_new, gr_partial_utf8 := partial_utf8\<rparr>)))"

text \<open>Replaying the buffered tokens that overlap with the match of a trigger pattern at \<open>start\<close>.\<close>

definition replay_token :: "nat \<Rightarrow> llama_token \<times> nat \<times> nat \<Rightarrow> 'pat llama_grammar \<Rightarrow> 'pat llama_grammar res" where
  "replay_token start = (\<lambda>(tok, tok_start, tok_end) g.
    if tok_end \<le> start then Inr g
    else let piece_start = (if tok_start < start then start else tok_start); piece_len = tok_end - piece_start
      in llama_grammar_accept_token g tok (take piece_len (drop piece_start (gr_trigger_buffer g))))"

fun try_patterns :: "('pat \<Rightarrow> string \<Rightarrow> nat option) \<Rightarrow> 'pat list \<Rightarrow> 'pat llama_grammar \<Rightarrow> 'pat llama_grammar res" where
  "try_patterns find_pattern [] g = Inr g"
| "try_patterns find_pattern (pat # pats) g =
    (case find_pattern pat (gr_trigger_buffer g) of None \<Rightarrow> try_patterns find_pattern pats g
     | Some start \<Rightarrow>
         bind_res (fold_res (replay_token start) (gr_trigger_buffer_positions g) (g\<lparr>gr_awaiting_trigger := False\<rparr>)) (\<lambda>g.
           Inr (g\<lparr>gr_trigger_buffer := [], gr_trigger_buffer_positions := []\<rparr>)))"

definition llama_grammar_accept_impl :: "('pat \<Rightarrow> string \<Rightarrow> nat option) \<Rightarrow> llama_vocab_i option \<Rightarrow> llama_token \<Rightarrow> 'pat llama_grammar \<Rightarrow> 'pat llama_grammar res" where
  "llama_grammar_accept_impl find_pattern vocab tok g =
    ggml_assert (vocab \<noteq> None) ''grammar.vocab != nullptr''
      (let v = the vocab; piece = token_to_piece v tok
       in if gr_awaiting_trigger g then
            (if tok \<in> set (gr_trigger_tokens g) then llama_grammar_accept_token (g\<lparr>gr_awaiting_trigger := False, gr_trigger_buffer := []\<rparr>) tok piece
             else let position = (length (gr_trigger_buffer g), length (gr_trigger_buffer g) + length piece);
                      g = g\<lparr>gr_trigger_buffer_positions := gr_trigger_buffer_positions g @ [(tok, position)], gr_trigger_buffer := gr_trigger_buffer g @ piece\<rparr>
               in try_patterns find_pattern (gr_trigger_patterns g) g)
          else if is_eog v tok then (if [] \<in> set (gr_stacks g) then Inr g else Inl (GGML_ABORT ''fatal error''))
          else llama_grammar_accept_token g tok piece)"

subsection \<open>Rejecting candidates\<close>

definition gc_forward :: "llama_grammar_candidate \<Rightarrow> llama_grammar_candidate" where
  "gc_forward tok = tok\<lparr>gc_offset := gc_offset tok + 1\<rparr>"

definition gc_back :: "llama_grammar_candidate \<Rightarrow> llama_grammar_candidate" where
  "gc_back tok = tok\<lparr>gc_offset := gc_offset tok - 1\<rparr>"

definition reject_token_step :: "llama_grammar_element \<Rightarrow> llama_grammar_candidate \<Rightarrow> llama_grammar_candidate list \<Rightarrow> llama_grammar_candidate list res" where
  "reject_token_step e tok rejects =
    (if gc_point tok = 0 then Inr (if pu_n_remain (gc_partial_utf8 tok) \<noteq> 0 then rejects @ [tok] else rejects)
     else bind_res (match_token e (gc_id tok)) (\<lambda>matched. Inr (if \<not> matched then rejects @ [tok] else rejects)))"

definition reject_char_step ::
  "llama_grammar_rules \<Rightarrow> element_pos \<Rightarrow> llama_grammar_candidate \<Rightarrow> llama_grammar_candidate list \<times> llama_grammar_candidate list
   \<Rightarrow> (llama_grammar_candidate list \<times> llama_grammar_candidate list) res" where
  "reject_char_step R pos tok = (\<lambda>(rejects, next_candidates).
    if gc_point tok = 0 then
      (if pu_n_remain (gc_partial_utf8 tok) \<noteq> 0
       then bind_res (match_partial_char R pos (gc_partial_utf8 tok)) (\<lambda>matched. Inr (if \<not> matched then rejects @ [tok] else rejects, next_candidates))
       else Inr (rejects, next_candidates))
    else bind_res (match_char R pos (gc_point tok)) (\<lambda>(matched, _).
      if matched then Inr (rejects, next_candidates @ [gc_forward tok]) else Inr (rejects @ [tok], next_candidates)))"

definition reject_with :: "(llama_grammar_stack \<Rightarrow> llama_grammar_candidate list \<Rightarrow> llama_grammar_candidate list res)
    \<Rightarrow> llama_grammar_stacks \<Rightarrow> llama_grammar_candidate list \<Rightarrow> llama_grammar_candidate list res" where
  "reject_with for_stack stacks candidates =
    ggml_assert (stacks \<noteq> []) ''!stacks.empty()''
      (if candidates = [] then Inr [] else bind_res (for_stack (hd stacks) candidates) (fold_res for_stack (tl stacks)))"

text \<open>Every level of the recursion consumes a code point of each candidate; the fuel is the length of the longest array.\<close>

primrec reject_candidates_for_stack :: "nat \<Rightarrow> llama_grammar_rules \<Rightarrow> llama_grammar_stack \<Rightarrow> llama_grammar_candidate list \<Rightarrow> llama_grammar_candidate list res" where
  "reject_candidates_for_stack 0 R stack candidates = Inl DIVERGES"
| "reject_candidates_for_stack (Suc fuel) R stack candidates =
    (case stack of [] \<Rightarrow> Inr (filter (\<lambda>tok. gc_point tok \<noteq> 0 \<or> pu_n_remain (gc_partial_utf8 tok) \<noteq> 0) candidates)
     | stack_pos # st \<Rightarrow>
         if is_token_element (elem R stack_pos) then fold_res (reject_token_step (elem R stack_pos)) candidates []
         else bind_res (fold_res (reject_char_step R stack_pos) candidates ([], [])) (\<lambda>(rejects, next_candidates).
           bind_res (match_char R stack_pos 0) (\<lambda>(_, stack_pos_after).
             bind_res (advance_stack R (push_pos R stack_pos_after st) []) (\<lambda>next_stacks.
               bind_res (reject_with (reject_candidates_for_stack fuel R) next_stacks next_candidates) (\<lambda>next_rejects.
                 Inr (rejects @ map gc_back next_rejects))))))"

definition reject_candidates :: "llama_grammar_rules \<Rightarrow> llama_grammar_stacks \<Rightarrow> llama_grammar_candidate list \<Rightarrow> llama_grammar_candidate list res" where
  "reject_candidates R stacks candidates = reject_with (reject_candidates_for_stack (Suc (fold max (map (length \<circ> gc_array) candidates) 0)) R) stacks candidates"

datatype 'f logit = NEG_INFINITY | LOGIT 'f

record 'f llama_token_data =
  td_id :: llama_token
  td_logit :: "'f logit"
  td_p :: 'f

definition mask_logit :: "'f llama_token_data list \<Rightarrow> nat \<Rightarrow> 'f llama_token_data list" where
  "mask_logit data i = data[i := (data ! i)\<lparr>td_logit := NEG_INFINITY\<rparr>]"

definition collect_step :: "llama_vocab_i \<Rightarrow> llama_partial_utf8 \<Rightarrow> bool \<Rightarrow> nat
    \<Rightarrow> 'f llama_token_data list \<times> llama_grammar_candidate list \<Rightarrow> 'f llama_token_data list \<times> llama_grammar_candidate list" where
  "collect_step v partial_utf8 allow_eog i = (\<lambda>(data, candidates).
    let id = td_id (data ! i); piece = token_to_piece v id
    in if is_eog v id then (if \<not> allow_eog then mask_logit data i else data, candidates)
       else if at_end piece then (mask_logit data i, candidates)
       else let (cps, partial) = decode_utf8 piece partial_utf8
         in (data, candidates @ [\<lparr>gc_index = i, gc_array = cps, gc_offset = 0, gc_partial_utf8 = partial, gc_id = id\<rparr>]))"

definition llama_grammar_apply_impl :: "llama_vocab_i option \<Rightarrow> 'pat llama_grammar \<Rightarrow> 'f llama_token_data list \<Rightarrow> 'f llama_token_data list res" where
  "llama_grammar_apply_impl vocab g data =
    ggml_assert (vocab \<noteq> None) ''grammar.vocab != nullptr''
      (if gr_awaiting_trigger g then Inr data
       else let allow_eog = [] \<in> set (gr_stacks g);
                (data, candidates) = fold (collect_step (the vocab) (gr_partial_utf8 g) allow_eog) [0..<length data] (data, [])
         in bind_res (reject_candidates (gr_rules g) (gr_stacks g) candidates) (\<lambda>rejects.
              Inr (fold (\<lambda>reject data. mask_logit data (gc_index reject)) rejects data)))"

subsection \<open>Initialisation from a table of rules\<close>

definition copy_rule :: "llama_grammar_rule \<Rightarrow> llama_grammar_rule" where
  "copy_rule es = takeWhile (\<lambda>e. ge_type e \<noteq> LLAMA_GRETYPE_END) es @ [\<lparr>ge_type = LLAMA_GRETYPE_END, ge_value = 0\<rparr>]"

definition refs_defined :: "llama_grammar_rules \<Rightarrow> bool" where
  "refs_defined R \<longleftrightarrow> (\<forall>rule \<in> set R. \<forall>e \<in> set rule. ge_type e = LLAMA_GRETYPE_RULE_REF \<longrightarrow> unat (ge_value e) < length R \<and> R ! unat (ge_value e) \<noteq> [])"

definition init_stacks :: "llama_grammar_rules \<Rightarrow> nat \<Rightarrow> llama_grammar_stacks res" where
  "init_stacks R start_rule_index =
    fold_res (\<lambda>s stacks. advance_stack R (push_pos R (start_rule_index, s) []) stacks) (alternates (R ! start_rule_index) 0 0) []"

definition new_grammar :: "llama_grammar_rules \<Rightarrow> llama_grammar_stacks \<Rightarrow> bool \<Rightarrow> llama_token list \<Rightarrow> 'pat list \<Rightarrow> 'pat llama_grammar" where
  "new_grammar R stacks lazy tokens patterns =
    \<lparr>gr_rules = R, gr_stacks = stacks, gr_partial_utf8 = \<lparr>pu_value = 0, pu_n_remain = 0\<rparr>, gr_lazy = lazy, gr_awaiting_trigger = lazy, gr_trigger_buffer = [],
     gr_trigger_buffer_positions = [], gr_trigger_tokens = tokens, gr_trigger_patterns = patterns\<rparr>"

definition llama_grammar_init_rules :: "llama_grammar_rules \<Rightarrow> nat \<Rightarrow> 'pat llama_grammar option res" where
  "llama_grammar_init_rules rules start_rule_index =
    (let vec_rules = map copy_rule rules
     in if \<not> refs_defined vec_rules then Inr None
        else bind_res (left_recursive vec_rules) (\<lambda>left.
          if left then Inr None
          else bind_res (init_stacks vec_rules start_rule_index) (\<lambda>stacks. Inr (Some (new_grammar vec_rules stacks False [] [])))))"

end
