(* ===== verification/Grammar_Lang.thy ===== *)
theory Grammar_Lang
  imports Grammar
begin

section \<open>The language of a grammar\<close>

text \<open>
  What a table of rules means, independently of the engine: \<open>wf_elems\<close> is the format of a rule, \<open>syms\<close> reads the symbols of an alternative, \<open>gen\<close> is leftmost derivation over inputs that are code
  points and tokens. The language of a pushdown stack is that of its symbols. The closure computed by \<open>llama_grammar_advance_stack\<close> is shown to be the terminal stacks reachable by expansion, and to
  have the same language as the stack it started from.
\<close>

subsection \<open>Well-formed rules\<close>

definition modifies :: "llama_grammar_element \<Rightarrow> bool" where
  "modifies e \<longleftrightarrow> ge_type e = LLAMA_GRETYPE_CHAR_ALT \<or> ge_type e = LLAMA_GRETYPE_CHAR_RNG_UPPER"

fun wf_elems :: "nat \<Rightarrow> llama_gretype \<Rightarrow> llama_grammar_rule \<Rightarrow> bool" where
  "wf_elems n prev [] \<longleftrightarrow> False"
| "wf_elems n prev (e # es) \<longleftrightarrow>
    (if ge_type e = LLAMA_GRETYPE_END then es = []
     else (ge_type e = LLAMA_GRETYPE_RULE_REF \<longrightarrow> unat (ge_value e) < n)
        \<and> (ge_type e = LLAMA_GRETYPE_CHAR_ALT \<longrightarrow> prev \<in> {LLAMA_GRETYPE_CHAR, LLAMA_GRETYPE_CHAR_NOT, LLAMA_GRETYPE_CHAR_ALT, LLAMA_GRETYPE_CHAR_RNG_UPPER})
        \<and> (ge_type e = LLAMA_GRETYPE_CHAR_RNG_UPPER \<longrightarrow> prev \<in> {LLAMA_GRETYPE_CHAR, LLAMA_GRETYPE_CHAR_NOT, LLAMA_GRETYPE_CHAR_ALT})
        \<and> wf_elems n (ge_type e) es)"

definition wf_rules :: "llama_grammar_rules \<Rightarrow> bool" where
  "wf_rules R \<longleftrightarrow> (\<forall>rule \<in> set R. wf_elems (length R) LLAMA_GRETYPE_ALT rule)"

lemma wf_elems_drop:
  "wf_elems n prev rule \<Longrightarrow> i < length rule \<Longrightarrow> \<exists>prev'. wf_elems n prev' (drop i rule)"
proof (induction rule arbitrary: prev i)
  case (Cons e es)
  then show ?case by (cases i) (auto split: if_splits)
qed simp

subsection \<open>Symbols and derivations\<close>

datatype gsym = Cls "uint32 set" | Tok "llama_token set" | Ref nat

datatype ginput = Code uint32 | Token llama_token

fun class_set :: "llama_grammar_rule \<Rightarrow> uint32 set" where
  "class_set [] = {}"
| "class_set [e] = {ge_value e}"
| "class_set (e # u # es) =
    (if ge_type u = LLAMA_GRETYPE_CHAR_RNG_UPPER then {ge_value e .. ge_value u} \<union> (if next_is LLAMA_GRETYPE_CHAR_ALT es then class_set es else {})
     else {ge_value e} \<union> (if ge_type u = LLAMA_GRETYPE_CHAR_ALT then class_set (u # es) else {}))"

definition head_sym :: "llama_grammar_rule \<Rightarrow> gsym" where
  "head_sym es = (case ge_type (hd es) of
     LLAMA_GRETYPE_RULE_REF \<Rightarrow> Ref (unat (ge_value (hd es)))
   | LLAMA_GRETYPE_CHAR_NOT \<Rightarrow> Cls (- class_set es)
   | LLAMA_GRETYPE_CHAR_ANY \<Rightarrow> Cls UNIV
   | LLAMA_GRETYPE_TOKEN \<Rightarrow> Tok {t. ge_value (hd es) = word_of_int t}
   | LLAMA_GRETYPE_TOKEN_NOT \<Rightarrow> Tok {t. ge_value (hd es) \<noteq> word_of_int t}
   | _ \<Rightarrow> Cls (class_set es))"

fun syms :: "llama_grammar_rule \<Rightarrow> gsym list" where
  "syms [] = []"
| "syms (e # es) = (if is_end_of_sequence e then [] else if modifies e then syms es else head_sym (e # es) # syms es)"

fun later_bodies :: "llama_grammar_rule \<Rightarrow> llama_grammar_rule list" where
  "later_bodies [] = []"
| "later_bodies (e # es) = (if ge_type e = LLAMA_GRETYPE_ALT then es # later_bodies es else if ge_type e = LLAMA_GRETYPE_END then [] else later_bodies es)"

definition prods :: "llama_grammar_rules \<Rightarrow> nat \<Rightarrow> gsym list set" where
  "prods R i = syms ` set (R ! i # later_bodies (R ! i))"

inductive gen :: "llama_grammar_rules \<Rightarrow> gsym list \<Rightarrow> ginput list \<Rightarrow> bool" for R where
  nil: "gen R [] []"
| cls: "c \<in> S \<Longrightarrow> gen R ss w \<Longrightarrow> gen R (Cls S # ss) (Code c # w)"
| tok: "t \<in> T \<Longrightarrow> gen R ss w \<Longrightarrow> gen R (Tok T # ss) (Token t # w)"
| ref: "body \<in> prods R i \<Longrightarrow> gen R (body @ ss) w \<Longrightarrow> gen R (Ref i # ss) w"

inductive_cases gen_NilE [elim]: "gen R [] w"
inductive_cases gen_ClsE [elim]: "gen R (Cls S # ss) w"
inductive_cases gen_TokE [elim]: "gen R (Tok T # ss) w"
inductive_cases gen_RefE [elim]: "gen R (Ref i # ss) w"

text \<open>Derivation is compositional, as for any context-free grammar.\<close>

lemma gen_append: "gen R a u \<Longrightarrow> gen R b v \<Longrightarrow> gen R (a @ b) (u @ v)"
  by (induction rule: gen.induct) (auto intro: gen.intros)

lemma gen_split: "gen R x w \<Longrightarrow> x = a @ b \<Longrightarrow> \<exists>u v. w = u @ v \<and> gen R a u \<and> gen R b v"
proof (induction arbitrary: a b rule: gen.induct)
  case nil
  then show ?case by (auto intro: gen.nil)
next
  case (cls c S ss w)
  show ?case
  proof (cases a)
    case Nil
    then show ?thesis using cls by (auto intro: gen.intros)
  next
    case (Cons s a')
    then have "ss = a' @ b" using cls.prems by simp
    from cls.IH [OF this] obtain u v where "w = u @ v" "gen R a' u" "gen R b v" by blast
    then show ?thesis using cls Cons by (intro exI [of _ "Code c # u"] exI [of _ v]) (auto intro: gen.cls)
  qed
next
  case (tok t T ss w)
  show ?case
  proof (cases a)
    case Nil
    then show ?thesis using tok by (auto intro: gen.intros)
  next
    case (Cons s a')
    then have "ss = a' @ b" using tok.prems by simp
    from tok.IH [OF this] obtain u v where "w = u @ v" "gen R a' u" "gen R b v" by blast
    then show ?thesis using tok Cons by (intro exI [of _ "Token t # u"] exI [of _ v]) (auto intro: gen.tok)
  qed
next
  case (ref body i ss w)
  show ?case
  proof (cases a)
    case Nil
    then show ?thesis using ref by (auto intro: gen.intros)
  next
    case (Cons s a')
    then have "body @ ss = (body @ a') @ b" using ref.prems by simp
    from ref.IH [OF this] obtain u v where "w = u @ v" "gen R (body @ a') u" "gen R b v" by blast
    then show ?thesis using ref Cons by (auto intro: gen.ref)
  qed
qed

lemma gen_append_iff: "gen R (a @ b) w \<longleftrightarrow> (\<exists>u v. w = u @ v \<and> gen R a u \<and> gen R b v)"
proof
  assume "gen R (a @ b) w"
  from gen_split [OF this refl] show "\<exists>u v. w = u @ v \<and> gen R a u \<and> gen R b v" .
next
  assume "\<exists>u v. w = u @ v \<and> gen R a u \<and> gen R b v"
  then obtain u v where "w = u @ v" "gen R a u" "gen R b v" by blast
  then show "gen R (a @ b) w" using gen_append by simp
qed

lemma gen_Ref_iff: "gen R [Ref i] w \<longleftrightarrow> (\<exists>body \<in> prods R i. gen R body w)"
proof
  assume "gen R [Ref i] w"
  then obtain body where "body \<in> prods R i" "gen R (body @ []) w" by (cases rule: gen.cases) auto
  then show "\<exists>body \<in> prods R i. gen R body w" by auto
next
  assume "\<exists>body \<in> prods R i. gen R body w"
  then show "gen R [Ref i] w" using gen.ref [of _ R i "[]" w] by auto
qed

subsection \<open>Positions and stacks\<close>

definition symbol_start :: "llama_grammar_element \<Rightarrow> bool" where
  "symbol_start e \<longleftrightarrow> \<not> is_end_of_sequence e \<and> \<not> modifies e"

definition good_pos :: "llama_grammar_rules \<Rightarrow> element_pos \<Rightarrow> bool" where
  "good_pos R p \<longleftrightarrow> fst p < length R \<and> snd p < length (R ! fst p) \<and> symbol_start (elem R p)"

definition good_stack :: "llama_grammar_rules \<Rightarrow> llama_grammar_stack \<Rightarrow> bool" where
  "good_stack R st \<longleftrightarrow> (\<forall>p \<in> set st. good_pos R p)"

lemma good_stack_simps [simp]: "good_stack R []" "good_stack R (p # st) \<longleftrightarrow> good_pos R p \<and> good_stack R st"
  by (simp_all add: good_stack_def)

definition sent :: "llama_grammar_rules \<Rightarrow> llama_grammar_stack \<Rightarrow> gsym list" where
  "sent R st = concat (map (\<lambda>p. syms (rest R p)) st)"

lemma sent_simps [simp]: "sent R [] = []" "sent R (p # st) = syms (rest R p) @ sent R st"
  by (simp_all add: sent_def)

lemma rest_Cons: "snd p < length (R ! fst p) \<Longrightarrow> rest R p = elem R p # rest R (forward p 1)"
  by (simp add: rest_def elem_def forward_def Cons_nth_drop_Suc)

lemma rest_nonempty: "rest R p \<noteq> [] \<Longrightarrow> snd p < length (R ! fst p)"
  by (simp add: rest_def)

lemma rest_forward: "rest R (forward p k) = drop k (rest R p)"
  by (simp add: rest_def forward_def add.commute)

lemma good_rest: "good_pos R p \<Longrightarrow> rest R p = elem R p # rest R (forward p 1)"
  by (simp add: good_pos_def rest_Cons)

lemma wf_rest:
  assumes "wf_rules R" "fst p < length R" "snd p < length (R ! fst p)"
  shows "\<exists>prev. wf_elems (length R) prev (rest R p)"
  using wf_elems_drop [of "length R" LLAMA_GRETYPE_ALT "R ! fst p" "snd p"] assms by (auto simp: wf_rules_def rest_def)

lemma wf_good_rest:
  assumes "wf_rules R" "good_pos R p"
  obtains prev where "wf_elems (length R) prev (rest R p)"
  using wf_rest [of R p] assms by (auto simp: good_pos_def)

lemma symbol_start_cases:
  "symbol_start e \<longleftrightarrow> ge_type e = LLAMA_GRETYPE_RULE_REF \<or> is_terminal e"
  by (cases "ge_type e") (simp_all add: symbol_start_def is_terminal_def modifies_def is_end_of_sequence_def)

lemma syms_good: "good_pos R p \<Longrightarrow> syms (rest R p) = head_sym (rest R p) # syms (rest R (forward p 1))"
  by (simp add: good_rest good_pos_def symbol_start_def)

text \<open>A step past a whole symbol leads to the end of the alternative or to the start of a symbol.\<close>

lemma sent_push: "fst p < length R \<Longrightarrow> snd p < length (R ! fst p) \<Longrightarrow> sent R (push_pos R p st) = syms (rest R p) @ sent R st"
  by (simp add: push_pos_def rest_Cons)

lemma good_push:
  assumes "fst p < length R" "snd p < length (R ! fst p)" "\<not> modifies (elem R p)" "good_stack R st"
  shows "good_stack R (push_pos R p st)"
  using assms by (simp add: push_pos_def good_pos_def symbol_start_def)

subsection \<open>Expansion\<close>

lemma alternates_bodies:
  assumes "drop i full = es"
  shows "map (\<lambda>s. drop s full) (alternates es start i) = drop start full # later_bodies es"
  using assms
proof (induction es start i rule: alternates.induct)
  case (2 e es start i)
  then have "drop (Suc i) full = es" by (metis drop_Suc list.sel(3) tl_drop)
  then show ?case using 2 by simp
qed simp

lemma alternates_in_range:
  assumes "drop i full = es" "wf_elems n prev es" "s \<in> set (alternates es start i)" "start < length full"
  shows "s < length full \<and> (s = start \<or> 0 < s \<and> ge_type (full ! (s - 1)) = LLAMA_GRETYPE_ALT)"
  using assms
proof (induction es start i arbitrary: prev rule: alternates.induct)
  case (2 e es start i)
  have es: "drop (Suc i) full = es" using 2(3) by (metis drop_Suc list.sel(3) tl_drop)
  have e: "full ! i = e" using 2(3) by (metis nth_via_drop)
  show ?case
  proof (cases "ge_type e = LLAMA_GRETYPE_END")
    case True
    then show ?thesis using 2(5,6) by simp
  next
    case ne: False
    then have w: "wf_elems n (ge_type e) es" using 2(4) by simp
    then have "es \<noteq> []" by auto
    then have l: "Suc i < length full" using es by (metis drop_eq_Nil2 not_le)
    show ?thesis
    proof (cases "ge_type e = LLAMA_GRETYPE_ALT")
      case True
      then have "s = start \<or> s \<in> set (alternates es (Suc i) (Suc i))" using 2(5) by simp
      then show ?thesis using 2(1) [OF True es w _ l] e True 2(6) by auto
    next
      case False
      then have "s \<in> set (alternates es start (Suc i))" using 2(5) ne by simp
      then show ?thesis using 2(2) [OF False ne es w _ 2(6)] by blast
    qed
  qed
qed simp

text \<open>The alternatives of a rule: in range, at the start of a symbol or at the end of an empty alternative, with the symbols of the productions.\<close>

lemma after_alt_not_modifies:
  assumes "wf_elems n prev rule" "s < length rule" "s = 0 \<and> prev = LLAMA_GRETYPE_ALT \<or> 0 < s \<and> ge_type (rule ! (s - 1)) = LLAMA_GRETYPE_ALT"
  shows "\<not> modifies (rule ! s)"
  using assms
proof (induction rule arbitrary: prev s)
  case (Cons e es)
  show ?case
  proof (cases s)
    case 0
    then show ?thesis using Cons.prems by (auto simp: modifies_def)
  next
    case (Suc k)
    then have "wf_elems n (ge_type e) es" "k < length es" "k = 0 \<and> ge_type e = LLAMA_GRETYPE_ALT \<or> 0 < k \<and> ge_type (es ! (k - 1)) = LLAMA_GRETYPE_ALT"
      using Cons.prems by (auto split: if_splits simp: nth_Cons')
    then show ?thesis using Cons.IH Suc by simp
  qed
qed simp

lemma rule_alternates:
  assumes "wf_rules R" "i < length R"
  shows "\<forall>s \<in> set (alternates (R ! i) 0 0). s < length (R ! i) \<and> \<not> modifies (R ! i ! s)"
    and "(\<lambda>s. syms (rest R (i, s))) ` set (alternates (R ! i) 0 0) = prods R i"
proof -
  have w: "wf_elems (length R) LLAMA_GRETYPE_ALT (R ! i)" using assms by (simp add: wf_rules_def)
  then have "0 < length (R ! i)" by (cases "R ! i") auto
  then have "s < length (R ! i) \<and> (s = 0 \<or> 0 < s \<and> ge_type (R ! i ! (s - 1)) = LLAMA_GRETYPE_ALT)" if "s \<in> set (alternates (R ! i) 0 0)" for s
    using alternates_in_range [of 0 "R ! i" "R ! i" "length R" LLAMA_GRETYPE_ALT s 0] w that by simp
  then show "\<forall>s \<in> set (alternates (R ! i) 0 0). s < length (R ! i) \<and> \<not> modifies (R ! i ! s)"
    using after_alt_not_modifies [OF w] by blast
  have "(\<lambda>s. drop s (R ! i)) ` set (alternates (R ! i) 0 0) = set (R ! i # later_bodies (R ! i))"
    using alternates_bodies [of 0 "R ! i" "R ! i" 0] by (metis drop0 list.set_map)
  then show "(\<lambda>s. syms (rest R (i, s))) ` set (alternates (R ! i) 0 0) = prods R i"
    unfolding prods_def rest_def by (metis (no_types, lifting) fst_conv image_cong image_image snd_conv)
qed

inductive expand :: "llama_grammar_rules \<Rightarrow> llama_grammar_stack \<Rightarrow> llama_grammar_stack \<Rightarrow> bool" for R where
  "ge_type (elem R p) = LLAMA_GRETYPE_RULE_REF \<Longrightarrow> st' \<in> set (next_stacks R p st) \<Longrightarrow> expand R (p # st) st'"

inductive_simps expand_Nil [simp]: "expand R [] st'"
inductive_simps expand_Cons: "expand R (p # st) st'"

definition terminal_stack :: "llama_grammar_rules \<Rightarrow> llama_grammar_stack \<Rightarrow> bool" where
  "terminal_stack R st \<longleftrightarrow> st = [] \<or> is_terminal (elem R (hd st))"

lemma next_in_range:
  assumes "wf_rules R" "good_pos R p" "ge_type (elem R p) \<noteq> LLAMA_GRETYPE_CHAR" "ge_type (elem R p) \<noteq> LLAMA_GRETYPE_CHAR_NOT"
  shows "fst (forward p 1) < length R \<and> snd (forward p 1) < length (R ! fst (forward p 1)) \<and> \<not> modifies (elem R (forward p 1))"
proof -
  obtain prev where w: "wf_elems (length R) prev (rest R p)" using wf_good_rest [OF assms(1,2)] .
  have s: "symbol_start (elem R p)" using assms(2) by (simp add: good_pos_def)
  then have "wf_elems (length R) (ge_type (elem R p)) (rest R (forward p 1))"
    using w by (auto simp: good_rest [OF assms(2)] symbol_start_def is_end_of_sequence_def split: if_splits)
  moreover from this have l: "snd (forward p 1) < length (R ! fst (forward p 1))" by (intro rest_nonempty) auto
  moreover have "ge_type (elem R p) \<noteq> LLAMA_GRETYPE_CHAR_ALT" "ge_type (elem R p) \<noteq> LLAMA_GRETYPE_CHAR_RNG_UPPER" using s by (auto simp: symbol_start_def modifies_def)
  ultimately have "\<not> modifies (elem R (forward p 1))" using assms(3,4) rest_Cons [OF l] by (auto simp: modifies_def split: if_splits)
  then show ?thesis using l assms(2) by (simp add: good_pos_def forward_def)
qed

lemma expand_good:
  assumes "wf_rules R" "expand R st st'" "good_stack R st"
  shows "good_stack R st'"
proof -
  from assms(2) obtain p s where st: "st = p # s" "ge_type (elem R p) = LLAMA_GRETYPE_RULE_REF" "st' \<in> set (next_stacks R p s)" by cases auto
  let ?i = "unat (ge_value (elem R p))"
  obtain prev where "wf_elems (length R) prev (rest R p)" using wf_good_rest [OF assms(1), of p] assms(3) st(1) by auto
  then have i: "?i < length R" using st assms(3) by (simp add: good_rest)
  obtain a where a: "a \<in> set (alternates (R ! ?i) 0 0)" "st' = next_stack R p s (?i, a)" using st(3) by (auto simp: next_stacks_def Let_def)
  then show ?thesis using next_in_range [OF assms(1), of p] rule_alternates(1) [OF assms(1) i] st assms(3) i
    by (auto simp: next_stack_def elem_def intro!: good_push)
qed

lemma expand_sent:
  assumes "wf_rules R" "good_stack R (p # st)" "ge_type (elem R p) = LLAMA_GRETYPE_RULE_REF"
  shows "\<exists>i < length R. \<exists>ss. sent R (p # st) = Ref i # ss \<and> (\<lambda>st'. sent R st') ` {st'. expand R (p # st) st'} = (\<lambda>body. body @ ss) ` prods R i"
proof -
  let ?i = "unat (ge_value (elem R p))" and ?ss = "syms (rest R (forward p 1)) @ sent R st"
  obtain prev where "wf_elems (length R) prev (rest R p)" using wf_good_rest [OF assms(1), of p] assms(2) by auto
  then have i: "?i < length R" using assms(2,3) by (simp add: good_rest)
  have g: "good_pos R p" using assms(2) by simp
  have n: "fst (forward p 1) < length R" "snd (forward p 1) < length (R ! fst (forward p 1))" using next_in_range [OF assms(1) g] assms(3) by auto
  have "sent R (next_stack R p st (?i, a)) = syms (rest R (?i, a)) @ ?ss" if "a \<in> set (alternates (R ! ?i) 0 0)" for a
    using rule_alternates(1) [OF assms(1) i] that i n by (simp add: next_stack_def sent_push)
  then have "sent R ` {st'. expand R (p # st) st'} = (\<lambda>a. syms (rest R (?i, a)) @ ?ss) ` set (alternates (R ! ?i) 0 0)"
    using assms(3) by (auto simp: expand_Cons next_stacks_def Let_def image_image)
  also have "\<dots> = (\<lambda>body. body @ ?ss) ` prods R ?i" unfolding rule_alternates(2) [OF assms(1) i, symmetric] by (simp add: image_image)
  moreover have "sent R (p # st) = Ref ?i # ?ss" using syms_good [OF g] assms(3) by (simp add: head_sym_def good_rest [OF g])
  ultimately show ?thesis using i by auto
qed

text \<open>A stack and its terminal expansions have the same language.\<close>

lemma expands_gen:
  assumes "wf_rules R" "(expand R)\<^sup>*\<^sup>* st t" "good_stack R st" "gen R (sent R t) w"
  shows "gen R (sent R st) w"
  using assms(2,3)
proof (induction rule: converse_rtranclp_induct)
  case base
  then show ?case using assms(4) by simp
next
  case (step st st')
  then have "gen R (sent R st') w" using expand_good [OF assms(1)] by blast
  moreover from step(1) obtain p s where st: "st = p # s" "ge_type (elem R p) = LLAMA_GRETYPE_RULE_REF" by cases auto
  moreover obtain i ss where "sent R (p # s) = Ref i # ss" "sent R ` {st'. expand R (p # s) st'} = (\<lambda>body. body @ ss) ` prods R i"
    using expand_sent [OF assms(1), of p s] step.prems st by blast
  moreover from this obtain body where "body \<in> prods R i" "sent R st' = body @ ss" using step(1) st(1) by blast
  ultimately show ?case by (auto intro: gen.ref)
qed

lemma gen_expands:
  assumes "wf_rules R" "gen R x w" "x = sent R st" "good_stack R st"
  shows "\<exists>t. (expand R)\<^sup>*\<^sup>* st t \<and> terminal_stack R t \<and> gen R (sent R t) w"
  using assms(2-4)
proof (induction arbitrary: st rule: gen.induct)
  case nil
  then show ?case using syms_good [of R] by (cases st) (auto simp: terminal_stack_def intro!: exI [of _ "[]"] gen.nil)
next
  case (cls c S ss w)
  then obtain p s where st: "st = p # s" by (cases st) auto
  then have "head_sym (rest R p) = Cls S" using cls.prems syms_good by auto
  then have "ge_type (elem R p) \<noteq> LLAMA_GRETYPE_RULE_REF" using cls.prems st by (auto simp: good_rest head_sym_def)
  then have "is_terminal (elem R p)" using cls.prems st symbol_start_cases by (auto simp: good_pos_def)
  then show ?case using gen.cls [OF cls.hyps] st unfolding cls.prems(1) by (intro exI [of _ st]) (simp add: terminal_stack_def)
next
  case (tok t T ss w)
  then obtain p s where st: "st = p # s" by (cases st) auto
  then have "head_sym (rest R p) = Tok T" using tok.prems syms_good by auto
  then have "ge_type (elem R p) \<noteq> LLAMA_GRETYPE_RULE_REF" using tok.prems st by (auto simp: good_rest head_sym_def)
  then have "is_terminal (elem R p)" using tok.prems st symbol_start_cases by (auto simp: good_pos_def)
  then show ?case using gen.tok [OF tok.hyps] st unfolding tok.prems(1) by (intro exI [of _ st]) (simp add: terminal_stack_def)
next
  case (ref body i ss w)
  then obtain p s where st: "st = p # s" by (cases st) auto
  have "head_sym (rest R p) = Ref i" using ref.prems st syms_good by auto
  then have t: "ge_type (elem R p) = LLAMA_GRETYPE_RULE_REF" using ref.prems st by (cases "ge_type (elem R p)") (auto simp: good_rest head_sym_def)
  obtain j ss' where "sent R (p # s) = Ref j # ss'" "sent R ` {st'. expand R (p # s) st'} = (\<lambda>body. body @ ss') ` prods R j"
    using expand_sent [OF assms(1) _ t] ref.prems(2) st by blast
  then have "body @ ss \<in> sent R ` {st'. expand R (p # s) st'}" using ref.hyps(1) ref.prems(1) st by simp
  then obtain st' where st': "expand R st st'" "body @ ss = sent R st'" using st by blast
  then show ?case using ref.IH [OF st'(2) expand_good [OF assms(1) st'(1) ref.prems(2)]] by (meson converse_rtranclp_into_rtranclp)
qed

end
