(* ===== verification/Grammar_Advance.thy ===== *)
theory Grammar_Advance
  imports Grammar_Lang
begin

section \<open>The closure of a stack\<close>

text \<open>
  The work list of \<open>llama_grammar_advance_stack\<close>: when it returns, it has added exactly the terminal stacks reachable by expansion; it returns whenever only finitely many stacks are
  reachable, and on well-formed rules it never aborts.
\<close>

subsection \<open>Partial correctness\<close>

lemma set_add_stack [simp]: "set (add_stack st sts) = insert st (set sts)"
  by (auto simp: add_stack_def)

lemma expand_terminal: "terminal_stack R st \<Longrightarrow> \<not> expand R st st'"
  by (auto simp: terminal_stack_def is_terminal_def elim!: expand.cases)

lemma expands_terminal: "terminal_stack R st \<Longrightarrow> (expand R)\<^sup>*\<^sup>* st t \<Longrightarrow> t = st"
  by (metis converse_rtranclpE expand_terminal)

definition seen_inv :: "llama_grammar_rules \<Rightarrow> llama_grammar_stack set \<Rightarrow> llama_grammar_stack set \<Rightarrow> llama_grammar_stack set \<Rightarrow> bool" where
  "seen_inv R todo seen new \<longleftrightarrow> (\<forall>s \<in> seen. (\<forall>t. expand R s t \<longrightarrow> t \<in> seen \<union> todo) \<and> (terminal_stack R s \<longrightarrow> s \<in> new))"

lemma seen_inv_closed:
  assumes "seen_inv R {} seen new" "s \<in> seen" "(expand R)\<^sup>*\<^sup>* s t" "terminal_stack R t"
  shows "t \<in> new"
proof -
  from assms(3) have "t \<in> seen" using assms(2) by (induction rule: rtranclp_induct) (use assms(1) in \<open>auto simp: seen_inv_def\<close>)
  then show ?thesis using assms(1,4) by (auto simp: seen_inv_def)
qed

definition advance_post :: "llama_grammar_rules \<Rightarrow> llama_grammar_stack set \<Rightarrow> llama_grammar_stack set \<Rightarrow> llama_grammar_stack set \<Rightarrow> llama_grammar_stack set \<Rightarrow> bool" where
  "advance_post R todo seen new out \<longleftrightarrow>
     new \<subseteq> out \<and> out \<subseteq> new \<union> {t. terminal_stack R t \<and> (\<exists>s \<in> todo. (expand R)\<^sup>*\<^sup>* s t)}
     \<and> (seen_inv R todo seen new \<longrightarrow> (\<forall>s \<in> seen \<union> todo. \<forall>t. (expand R)\<^sup>*\<^sup>* s t \<longrightarrow> terminal_stack R t \<longrightarrow> t \<in> out))"

lemma advance_post_skip: "advance_post R todo seen new out \<Longrightarrow> s \<in> seen \<Longrightarrow> advance_post R (insert s todo) seen new out"
  unfolding advance_post_def by (intro conjI) (force, blast, simp add: insert_absorb seen_inv_def Un_assoc)

lemma advance_post_terminal:
  assumes "advance_post R todo (insert s seen) (insert s new) out" "terminal_stack R s"
  shows "advance_post R (insert s todo) seen new out"
proof -
  have "seen_inv R (insert s todo) seen new \<Longrightarrow> seen_inv R todo (insert s seen) (insert s new)"
    using expand_terminal [OF assms(2)] by (auto simp: seen_inv_def)
  then show ?thesis using assms unfolding advance_post_def by (intro conjI) (blast, blast, simp)
qed

lemma advance_post_expand:
  assumes "advance_post R (N \<union> todo) (insert s seen) new out" "N = {t. expand R s t}" "\<not> terminal_stack R s"
  shows "advance_post R (insert s todo) seen new out"
  unfolding advance_post_def
proof (intro conjI impI ballI allI)
  show "new \<subseteq> out" using assms(1) by (simp add: advance_post_def)
  have "\<exists>s' \<in> insert s todo. (expand R)\<^sup>*\<^sup>* s' t" if "s' \<in> N \<union> todo" "(expand R)\<^sup>*\<^sup>* s' t" for s' t
    using that assms(2) by (auto intro: converse_rtranclp_into_rtranclp)
  then show "out \<subseteq> new \<union> {t. terminal_stack R t \<and> (\<exists>s \<in> insert s todo. (expand R)\<^sup>*\<^sup>* s t)}"
    using assms(1) unfolding advance_post_def by blast
next
  fix s' t assume i: "seen_inv R (insert s todo) seen new" and s': "s' \<in> seen \<union> insert s todo" and t: "(expand R)\<^sup>*\<^sup>* s' t" "terminal_stack R t"
  have "seen_inv R (N \<union> todo) (insert s seen) new" using i assms(2,3) by (auto simp: seen_inv_def)
  moreover have "s' \<in> insert s seen \<union> (N \<union> todo)" using s' by auto
  ultimately show "t \<in> out" using assms(1) t unfolding advance_post_def by blast
qed

lemma next_stacks_expand: "ge_type (elem R p) = LLAMA_GRETYPE_RULE_REF \<Longrightarrow> set (next_stacks R p st) = {t. expand R (p # st) t}"
  by (auto simp: expand_Cons)

lemma advance_loop_correct:
  assumes "advance_loop R todo seen new = Some (Inr out)"
  shows "advance_post R (set todo) (set seen) (set new) (set out)"
proof -
  let ?P = "\<lambda>R todo seen new (r :: llama_grammar_stacks res). \<forall>out. r = Inr out \<longrightarrow> advance_post R (set todo) (set seen) (set new) (set out)"
  have "?P R todo seen new (Inr out)"
  proof (rule advance_loop.raw_induct [where P = ?P, OF _ assms], intro allI impI)
    fix loop R todo seen new r out
    assume IH: "\<And>R todo seen new r. loop R todo seen new = Some r \<Longrightarrow> ?P R todo seen new r" and r: "r = Inr out"
      and b: "(case todo of [] \<Rightarrow> Some (Inr new)
        | curr_stack # todo \<Rightarrow>
            if curr_stack \<in> set seen then loop R todo seen new
            else (case curr_stack of [] \<Rightarrow> loop R todo (curr_stack # seen) (add_stack curr_stack new)
              | pos # stack \<Rightarrow>
                  if ge_type (elem R pos) = LLAMA_GRETYPE_RULE_REF then loop R (rev (next_stacks R pos stack) @ todo) (curr_stack # seen) new
                  else if is_terminal (elem R pos) then loop R todo (curr_stack # seen) (add_stack curr_stack new)
                  else Some (Inl (GGML_ABORT ''fatal error'')))) = Some r"
    show "advance_post R (set todo) (set seen) (set new) (set out)"
    proof (cases todo)
      case Nil
      then have "out = new" using b r by simp
      then show ?thesis using Nil seen_inv_closed [of R "set seen" "set new"] by (simp add: advance_post_def)
    next
      case (Cons cur todo')
      consider (seen) "cur \<in> set seen" | (terminal) "cur \<notin> set seen" "terminal_stack R cur" | (expand) "cur \<notin> set seen" "\<not> terminal_stack R cur" by blast
      then show ?thesis
      proof cases
        case seen
        then have "loop R todo' seen new = Some r" using b Cons by simp
        from IH [OF this] r show ?thesis using advance_post_skip [OF _ seen] Cons by simp
      next
        case terminal
        then have "loop R todo' (cur # seen) (add_stack cur new) = Some r"
          using b Cons by (auto simp: terminal_stack_def is_terminal_def split: list.splits if_splits)
        from IH [OF this] r show ?thesis using advance_post_terminal [OF _ terminal(2), of "set todo'" "set seen" "set new" "set out"] Cons by simp
      next
        case expand
        then obtain p st where cur: "cur = p # st" by (cases cur) (auto simp: terminal_stack_def)
        have t: "ge_type (elem R p) = LLAMA_GRETYPE_RULE_REF" using b r expand by (auto simp: Cons cur terminal_stack_def split: if_splits)
        then have "loop R (rev (next_stacks R p st) @ todo') (cur # seen) new = Some r" using b Cons expand(1) cur by simp
        from IH [OF this] r show ?thesis
          using advance_post_expand [OF _ next_stacks_expand [OF t] expand(2) [unfolded cur], of "set todo'" "set seen" "set new" "set out"] Cons cur by simp
      qed
    qed
  qed
  then show ?thesis by simp
qed

subsection \<open>Termination\<close>

definition closure :: "llama_grammar_rules \<Rightarrow> llama_grammar_stack \<Rightarrow> llama_grammar_stack set" where
  "closure R st = {t. (expand R)\<^sup>*\<^sup>* st t}"

lemma good_pos_top: "good_pos R p \<Longrightarrow> ge_type (elem R p) = LLAMA_GRETYPE_RULE_REF \<or> is_terminal (elem R p)"
  using symbol_start_cases by (auto simp: good_pos_def)

lemma advance_loop_returns:
  assumes "finite C" "\<And>s t. s \<in> C \<Longrightarrow> expand R s t \<Longrightarrow> t \<in> C" "\<forall>s \<in> C. good_stack R s" "set todo \<subseteq> C"
  shows "\<exists>out. advance_loop R todo seen new = Some (Inr out)"
  using assms(4)
proof (induction "card (C - set seen)" arbitrary: todo seen new rule: less_induct)
  case less
  show ?case using less.prems
  proof (induction todo)
    case Nil
    show ?case by (subst advance_loop.simps) simp
  next
    case (Cons cur todo)
    show ?case
    proof (cases "cur \<in> set seen")
      case True
      then show ?thesis using Cons by (subst advance_loop.simps) simp
    next
      case False
      then have "C - set (cur # seen) \<subset> C - set seen" using Cons.prems by auto
      then have "card (C - set (cur # seen)) < card (C - set seen)" using assms(1) by (simp add: psubset_card_mono)
      then have IH: "set todo' \<subseteq> C \<Longrightarrow> \<exists>out. advance_loop R todo' (cur # seen) new' = Some (Inr out)" for todo' new' using less.hyps by blast
      show ?thesis
      proof (cases cur)
        case Nil
        then show ?thesis using False IH [of todo] Cons.prems by (subst advance_loop.simps) simp
      next
        case (Cons p st)
        have t: "ge_type (elem R p) = LLAMA_GRETYPE_RULE_REF \<or> is_terminal (elem R p)" using good_pos_top [of R p] assms(3) Cons.prems Cons by auto
        have "set (rev (next_stacks R p st) @ todo) \<subseteq> C" if "ge_type (elem R p) = LLAMA_GRETYPE_RULE_REF"
          using next_stacks_expand [OF that, of st] assms(2) [of cur] Cons.prems Cons by auto
        then show ?thesis using False IH t Cons.prems Cons by (subst advance_loop.simps) (auto simp: is_terminal_def)
      qed
    qed
  qed
qed

lemma closure_good: "wf_rules R \<Longrightarrow> good_stack R st \<Longrightarrow> t \<in> closure R st \<Longrightarrow> good_stack R t"
  unfolding closure_def mem_Collect_eq by (rotate_tac 2, induction rule: rtranclp_induct) (auto intro: expand_good)

lemma advance_stack_returns:
  assumes "wf_rules R" "good_stack R st" "finite (closure R st)"
  shows "\<exists>out. advance_stack R st new = Inr out"
proof -
  have "\<exists>out. advance_loop R [st] [] new = Some (Inr out)"
    using closure_good [OF assms(1,2)] by (intro advance_loop_returns [OF assms(3)]) (auto simp: closure_def)
  then show ?thesis by (auto simp: advance_stack_def)
qed

lemma advance_stack_set:
  assumes "advance_stack R st new = Inr out"
  shows "set out = set new \<union> {t \<in> closure R st. terminal_stack R t}"
proof -
  have "advance_loop R [st] [] new = Some (Inr out)"
    using assms by (cases "advance_loop R [st] [] new") (auto simp: advance_stack_def bind_res_Inr_iff)
  from advance_loop_correct [OF this] show ?thesis by (auto simp: advance_post_def seen_inv_def closure_def)
qed

lemma advance_stack_gen:
  assumes "wf_rules R" "good_stack R st" "advance_stack R st new = Inr out"
  shows "(\<exists>t \<in> set out. gen R (sent R t) w) \<longleftrightarrow> (\<exists>t \<in> set new. gen R (sent R t) w) \<or> gen R (sent R st) w"
  using advance_stack_set [OF assms(3)] gen_expands [OF assms(1) _ refl assms(2), of w] expands_gen [OF assms(1) _ assms(2)]
  by (auto simp: closure_def)

text \<open>A stack that is not returned from is reported as divergence, never as an abort.\<close>

lemma advance_loop_no_abort:
  assumes "wf_rules R" "advance_loop R todo seen new = Some r" "\<forall>st \<in> set todo. good_stack R st"
  shows "\<exists>out. r = Inr out"
proof -
  let ?P = "\<lambda>R todo seen new (r :: llama_grammar_stacks res). wf_rules R \<longrightarrow> (\<forall>st \<in> set todo. good_stack R st) \<longrightarrow> (\<exists>out. r = Inr out)"
  have "?P R todo seen new r"
  proof (rule advance_loop.raw_induct [where P = ?P, OF _ assms(2)], intro impI)
    fix loop R todo seen new r
    assume IH: "\<And>R todo seen new r. loop R todo seen new = Some r \<Longrightarrow> ?P R todo seen new r" and w: "wf_rules R" and g: "\<forall>st \<in> set todo. good_stack R st"
      and b: "(case todo of [] \<Rightarrow> Some (Inr new)
        | curr_stack # todo \<Rightarrow>
            if curr_stack \<in> set seen then loop R todo seen new
            else (case curr_stack of [] \<Rightarrow> loop R todo (curr_stack # seen) (add_stack curr_stack new)
              | pos # stack \<Rightarrow>
                  if ge_type (elem R pos) = LLAMA_GRETYPE_RULE_REF then loop R (rev (next_stacks R pos stack) @ todo) (curr_stack # seen) new
                  else if is_terminal (elem R pos) then loop R todo (curr_stack # seen) (add_stack curr_stack new)
                  else Some (Inl (GGML_ABORT ''fatal error'')))) = Some r"
    have ref: "\<exists>out. r = Inr out" if "todo = (p # st) # todo'" "ge_type (elem R p) = LLAMA_GRETYPE_RULE_REF" "loop R (rev (next_stacks R p st) @ todo') s new = Some r" for p st todo' s
      using IH [OF that(3)] w g that expand_good [OF w] next_stacks_expand [OF that(2), of st] by auto
    show "\<exists>out. r = Inr out" using b IH w g ref by (auto split: list.splits if_splits dest: good_pos_top)
  qed
  then show ?thesis using assms by blast
qed

subsection \<open>Grammars without left recursion\<close>

text \<open>The position \<open>k\<close> of rule \<open>i\<close> is a left corner when it starts an alternative or follows a left corner that refers to a rule with a literally empty alternative, which is the notion of
  \<open>llama_grammar_detect_left_recursion\<close>.\<close>

inductive left_corner :: "llama_grammar_rules \<Rightarrow> nat \<Rightarrow> nat \<Rightarrow> bool" for R i where
  start: "left_corner R i 0"
| alt: "ge_type (R ! i ! k) = LLAMA_GRETYPE_ALT \<Longrightarrow> left_corner R i (Suc k)"
| empty: "left_corner R i k \<Longrightarrow> ge_type (R ! i ! k) = LLAMA_GRETYPE_RULE_REF \<Longrightarrow> has_empty_alt (R ! unat (ge_value (R ! i ! k))) True \<Longrightarrow> left_corner R i (Suc k)"

definition calls :: "llama_grammar_rules \<Rightarrow> nat \<Rightarrow> nat \<Rightarrow> bool" where
  "calls R i j \<longleftrightarrow> (\<exists>k < length (R ! i). left_corner R i k \<and> ge_type (R ! i ! k) = LLAMA_GRETYPE_RULE_REF \<and> j = unat (ge_value (R ! i ! k)))"

abbreviation settled :: "llama_grammar_rules \<Rightarrow> nat \<Rightarrow> bool" where
  "settled R \<equiv> Wellfounded.accp (\<lambda>j i. calls R i j)"

lemma closure_step: "closure R st = insert st (\<Union>t \<in> {t. expand R st t}. closure R t)"
  unfolding closure_def by (auto intro: converse_rtranclp_into_rtranclp elim: converse_rtranclpE)

lemma finite_expand: "finite {t. expand R st t}"
proof (cases st)
  case (Cons p s)
  then show ?thesis by (cases "ge_type (elem R p) = LLAMA_GRETYPE_RULE_REF") (auto simp: expand_Cons)
qed simp

lemma finite_closure_step: "(\<And>t. expand R st t \<Longrightarrow> finite (closure R t)) \<Longrightarrow> finite (closure R st)"
  by (subst closure_step) (simp add: finite_expand)

lemma expand_frame: "u \<noteq> [] \<Longrightarrow> expand R (u @ s) t \<Longrightarrow> \<exists>u'. expand R u u' \<and> t = u' @ s"
  by (cases u) (auto simp: expand_Cons next_stacks_def next_stack_def push_pos_def Let_def image_iff split: if_splits)

lemma expands_frame:
  assumes "(expand R)\<^sup>*\<^sup>* (u @ s) t"
  shows "(\<exists>u'. (expand R)\<^sup>*\<^sup>* u u' \<and> t = u' @ s) \<or> (expand R)\<^sup>*\<^sup>* u [] \<and> (expand R)\<^sup>*\<^sup>* s t"
  using assms
proof (induction rule: rtranclp_induct)
  case (step t t')
  consider (above) u' where "(expand R)\<^sup>*\<^sup>* u u'" "t = u' @ s" "u' \<noteq> []" | (below) "(expand R)\<^sup>*\<^sup>* u []" "(expand R)\<^sup>*\<^sup>* s t" using step.IH by fastforce
  then show ?case
  proof cases
    case above
    then show ?thesis using expand_frame [of u' R s t'] step.hyps(2) by (meson rtranclp.rtrancl_into_rtrancl)
  next
    case below
    then show ?thesis using step.hyps(2) by (meson rtranclp.rtrancl_into_rtrancl)
  qed
qed auto

lemma finite_closure_append:
  assumes "finite (closure R u)" "(expand R)\<^sup>*\<^sup>* u [] \<Longrightarrow> finite (closure R s)"
  shows "finite (closure R (u @ s))"
proof (cases "(expand R)\<^sup>*\<^sup>* u []")
  case True
  have "closure R (u @ s) \<subseteq> (\<lambda>u'. u' @ s) ` closure R u \<union> closure R s" using expands_frame [of R u s] by (auto simp: closure_def)
  then show ?thesis using assms True by (meson finite_UnI finite_imageI finite_subset)
next
  case False
  then have "closure R (u @ s) \<subseteq> (\<lambda>u'. u' @ s) ` closure R u" using expands_frame [of R u s] by (auto simp: closure_def)
  then show ?thesis using assms(1) by (meson finite_imageI finite_subset)
qed

lemma finite_closure_terminal: "terminal_stack R st \<Longrightarrow> finite (closure R st)"
  by (rule finite_closure_step) (auto dest: expand_terminal)

end
