(* ===== verification/Grammar_LR.thy ===== *)
theory Grammar_LR
  imports Grammar_Advance
begin

section \<open>Left recursion\<close>

text \<open>
  \<open>llama_grammar_detect_left_recursion\<close> always returns, and when it accepts a table of rules, the relation between a rule and the rules at its left corners is well founded. If moreover every rule
  that can derive the empty string has a literally empty alternative, which is what the detection looks at, then every stack has finitely many expansions and the closure computation ends. The last section
  shows that the side condition cannot be dropped: a table of rules that passes the detection and on which the closure computation runs forever.
\<close>

subsection \<open>No left recursion, finitely many expansions\<close>

definition nullable_is_direct :: "llama_grammar_rules \<Rightarrow> bool" where
  "nullable_is_direct R \<longleftrightarrow> (\<forall>i < length R. gen R [Ref i] [] \<longrightarrow> has_empty_alt (R ! i) True)"

lemma alternates_left_corner:
  assumes "wf_rules R" "i < length R" "s \<in> set (alternates (R ! i) 0 0)"
  shows "left_corner R i s"
proof -
  have w: "wf_elems (length R) LLAMA_GRETYPE_ALT (R ! i)" using assms by (simp add: wf_rules_def)
  then have "R ! i \<noteq> []" by auto
  then have "s = 0 \<or> 0 < s \<and> ge_type (R ! i ! (s - 1)) = LLAMA_GRETYPE_ALT" using alternates_in_range [of 0 "R ! i" "R ! i" "length R" LLAMA_GRETYPE_ALT s 0] w assms(3) by simp
  then show ?thesis using left_corner.start left_corner.alt [of R i "s - 1"] by auto
qed

lemma ref_target:
  assumes "wf_rules R" "good_pos R p" "ge_type (elem R p) = LLAMA_GRETYPE_RULE_REF"
  shows "unat (ge_value (elem R p)) < length R"
proof -
  obtain prev where "wf_elems (length R) prev (rest R p)" by (rule wf_good_rest [OF assms(1,2)])
  then show ?thesis using assms(3) by (simp add: good_rest [OF assms(2)])
qed

lemma alternative_derives:
  assumes "wf_rules R" "i < length R" "s \<in> set (alternates (R ! i) 0 0)" "gen R (syms (rest R (i, s))) w"
  shows "gen R [Ref i] w"
  using rule_alternates(2) [OF assms(1,2)] assms(3,4) by (auto simp: gen_Ref_iff)

text \<open>A property of stacks that holds of the terminal ones, is inherited from the expansions of a stack, and composes: it holds of every stack of an accepted grammar.\<close>

locale closure_property =
  fixes R :: llama_grammar_rules and Q :: "llama_grammar_stack \<Rightarrow> bool"
  assumes Q_terminal: "terminal_stack R st \<Longrightarrow> Q st"
    and Q_step: "expand R st t \<Longrightarrow> (\<And>t. expand R st t \<Longrightarrow> Q t) \<Longrightarrow> Q st"
    and Q_append: "Q u \<Longrightarrow> ((expand R)\<^sup>*\<^sup>* u [] \<Longrightarrow> Q s) \<Longrightarrow> Q (u @ s)"
begin

lemma Q_ref:
  assumes wf: "wf_rules R" and p: "good_pos R p" "ge_type (elem R p) = LLAMA_GRETYPE_RULE_REF" and j: "j = unat (ge_value (elem R p))"
    and sub: "\<And>s. s \<in> set (alternates (R ! j) 0 0) \<Longrightarrow> good_pos R (j, s) \<Longrightarrow> Q [(j, s)]"
    and nxt: "gen R [Ref j] [] \<Longrightarrow> good_pos R (forward p 1) \<Longrightarrow> Q [forward p 1]"
  shows "Q [p]"
proof -
  have jl: "j < length R" using ref_target [OF wf p] j by simp
  have "Q t" if e: "expand R [p] t" for t
  proof -
    obtain s where s: "s \<in> set (alternates (R ! j) 0 0)" and t: "t = push_pos R (j, s) (push_pos R (forward p 1) [])"
      using e p(2) j by (auto simp: expand_Cons next_stacks_def next_stack_def Let_def)
    have sg: "s < length (R ! j)" "\<not> modifies (R ! j ! s)" using rule_alternates(1) [OF wf jl] s by auto
    have ng: "good_pos R (forward p 1) \<or> is_end_of_sequence (elem R (forward p 1))" using next_in_range [OF wf p(1)] p(2) by (auto simp: good_pos_def symbol_start_def)
    have fn: "Q (push_pos R (forward p 1) [])" if "gen R [Ref j] []"
      using nxt that ng Q_terminal [of "[]"] by (auto simp: push_pos_def terminal_stack_def)
    show "Q t"
    proof (cases "is_end_of_sequence (elem R (j, s))")
      case True
      have "rest R (j, s) = elem R (j, s) # rest R (forward (j, s) 1)" using sg(1) by (intro rest_Cons) simp
      then have "gen R [Ref j] []" using alternative_derives [OF wf jl s, of "[]"] True by (simp add: gen.nil)
      then show ?thesis using fn t True by (simp add: push_pos_def)
    next
      case False
      then have g: "good_pos R (j, s)" using sg jl by (simp add: good_pos_def symbol_start_def elem_def)
      have "gen R [Ref j] []" if "(expand R)\<^sup>*\<^sup>* [(j, s)] []"
        using expands_gen [OF wf that, of "[]"] g alternative_derives [OF wf jl s] by (simp add: gen.nil)
      then have "Q ([(j, s)] @ push_pos R (forward p 1) [])" using fn sub [OF s g] by (intro Q_append) auto
      then show ?thesis using t False by (simp add: push_pos_def)
    qed
  qed
  moreover have "expand R [p] (next_stack R p [] (j, hd (alternates (R ! j) 0 0)))"
    using p(2) j alternates_bodies [of 0 "R ! j" "R ! j" 0] by (cases "alternates (R ! j) 0 0") (auto simp: expand_Cons next_stacks_def Let_def)
  ultimately show ?thesis using Q_step by blast
qed

lemma Q_left_corner:
  assumes "settled R i" "wf_rules R" "nullable_is_direct R" "i < length R" "left_corner R i k" "good_pos R (i, k)"
  shows "Q [(i, k)]"
  using assms(1,4-6)
proof (induction arbitrary: k rule: accp.induct)
  case (accI i)
  show ?case using accI.prems(2,3)
  proof (induction "length (R ! i) - k" arbitrary: k rule: less_induct)
    case less
    show ?case
    proof (cases "ge_type (elem R (i, k)) = LLAMA_GRETYPE_RULE_REF")
      case False
      then show ?thesis using good_pos_top [OF less.prems(2)] by (intro Q_terminal) (simp add: terminal_stack_def)
    next
      case True
      let ?j = "unat (ge_value (elem R (i, k)))"
      have k: "k < length (R ! i)" and jl: "?j < length R" using less.prems(2) ref_target [OF assms(2) less.prems(2) True] by (auto simp: good_pos_def)
      have c: "calls R i ?j" using less.prems(1) True k by (auto simp: calls_def elem_def)
      show ?thesis
      proof (rule Q_ref [OF assms(2) less.prems(2) True refl])
        fix s assume "s \<in> set (alternates (R ! ?j) 0 0)" "good_pos R (?j, s)"
        then show "Q [(?j, s)]" using accI.IH [OF c jl] alternates_left_corner [OF assms(2) jl] by blast
      next
        assume "gen R [Ref ?j] []" "good_pos R (forward (i, k) 1)"
        then have "left_corner R i (Suc k)" "good_pos R (i, Suc k)"
          using less.prems(1) True assms(3) jl by (auto simp: nullable_is_direct_def forward_def elem_def intro: left_corner.empty)
        then show "Q [forward (i, k) 1]" using less.hyps [of "Suc k"] k by (simp add: forward_def)
      qed
    qed
  qed
qed

lemma Q_pos:
  assumes "\<forall>i < length R. settled R i" "wf_rules R" "nullable_is_direct R" "good_pos R p"
  shows "Q [p]"
  using assms(4)
proof (induction "length (R ! fst p) - snd p" arbitrary: p rule: less_induct)
  case less
  show ?case
  proof (cases "ge_type (elem R p) = LLAMA_GRETYPE_RULE_REF")
    case False
    then show ?thesis using good_pos_top [OF less.prems] by (intro Q_terminal) (simp add: terminal_stack_def)
  next
    case True
    let ?j = "unat (ge_value (elem R p))"
    have jl: "?j < length R" using ref_target [OF assms(2) less.prems True] .
    show ?thesis
    proof (rule Q_ref [OF assms(2) less.prems True refl])
      fix s assume "s \<in> set (alternates (R ! ?j) 0 0)" "good_pos R (?j, s)"
      then show "Q [(?j, s)]" using Q_left_corner [of ?j s] alternates_left_corner [OF assms(2) jl] assms(1-3) jl by blast
    next
      assume "good_pos R (forward p 1)"
      moreover have "length (R ! fst (forward p 1)) - snd (forward p 1) < length (R ! fst p) - snd p" using less.prems by (auto simp: good_pos_def forward_def)
      ultimately show "Q [forward p 1]" using less.hyps by blast
    qed
  qed
qed

lemma Q_stack:
  assumes "\<forall>i < length R. settled R i" "wf_rules R" "nullable_is_direct R"
  shows "good_stack R st \<Longrightarrow> Q st"
proof (induction st)
  case Nil
  show ?case by (intro Q_terminal) (simp add: terminal_stack_def)
next
  case (Cons p st)
  then show ?case using Q_append [of "[p]" st] Q_pos [OF assms, of p] by simp
qed

end

text \<open>Every stack has a terminal expansion.\<close>

lemma expands_append: "(expand R)\<^sup>*\<^sup>* u u' \<Longrightarrow> (expand R)\<^sup>*\<^sup>* (u @ s) (u' @ s)"
proof (induction rule: rtranclp_induct)
  case (step t t')
  from step.hyps(2) have "expand R (t @ s) (t' @ s)"
    by (cases t) (auto simp: expand_Cons next_stacks_def next_stack_def push_pos_def Let_def)
  then show ?case using step.IH by (meson rtranclp.rtrancl_into_rtrancl)
qed simp

definition terminates_at :: "llama_grammar_rules \<Rightarrow> llama_grammar_stack \<Rightarrow> bool" where
  "terminates_at R st \<longleftrightarrow> (\<exists>t \<in> closure R st. terminal_stack R t)"

lemma terminates_at_terminal: "terminal_stack R st \<Longrightarrow> terminates_at R st"
  by (auto simp: terminates_at_def closure_def)

lemma terminates_at_step: "(expand R)\<^sup>*\<^sup>* st t \<Longrightarrow> terminates_at R t \<Longrightarrow> terminates_at R st"
  unfolding terminates_at_def closure_def by (auto intro: rtranclp_trans)

lemma terminates_at_append:
  assumes "terminates_at R u" "(expand R)\<^sup>*\<^sup>* u [] \<Longrightarrow> terminates_at R s"
  shows "terminates_at R (u @ s)"
proof -
  obtain t where t: "(expand R)\<^sup>*\<^sup>* u t" "terminal_stack R t" using assms(1) by (auto simp: terminates_at_def closure_def)
  show ?thesis
  proof (cases t)
    case Nil
    then show ?thesis using t(1) assms(2) expands_append [of R u "[]" s] terminates_at_step [of R "u @ s" s] by simp
  next
    case (Cons p t')
    then have "terminal_stack R (t @ s)" using t(2) by (simp add: terminal_stack_def)
    then show ?thesis using expands_append [OF t(1), of s] terminates_at_terminal terminates_at_step by blast
  qed
qed

interpretation finite_closures: closure_property R "\<lambda>st. finite (closure R st)" for R
  by unfold_locales (auto intro: finite_closure_terminal finite_closure_step finite_closure_append)

interpretation terminal_closures: closure_property R "terminates_at R" for R
proof
  show "terminal_stack R st \<Longrightarrow> terminates_at R st" for st by (rule terminates_at_terminal)
  show "terminates_at R st" if "expand R st t" "\<And>t. expand R st t \<Longrightarrow> terminates_at R t" for st t
    using terminates_at_step [of R st t] that by blast
  show "terminates_at R (u @ s)" if "terminates_at R u" "(expand R)\<^sup>*\<^sup>* u [] \<Longrightarrow> terminates_at R s" for u s
    using that by (rule terminates_at_append)
qed

subsection \<open>The detection\<close>

definition lr_inv :: "llama_grammar_rules \<Rightarrow> lr_state \<Rightarrow> bool" where
  "lr_inv R st \<longleftrightarrow> length (rules_visited st) = length R \<and> length (rules_in_progress st) = length R \<and> length (rules_may_be_empty st) = length R
     \<and> (\<forall>i < length R. rules_visited st ! i \<longrightarrow> settled R i) \<and> (\<forall>i < length R. rules_may_be_empty st ! i \<longrightarrow> has_empty_alt (R ! i) True)"

definition empty_kept :: "llama_grammar_rules \<Rightarrow> lr_state \<Rightarrow> lr_state \<Rightarrow> bool" where
  "empty_kept R st st' \<longleftrightarrow> (\<forall>x < length R. rules_may_be_empty st ! x \<longrightarrow> rules_may_be_empty st' ! x)"

text \<open>What a recursive call must do: return; and when it reports no left recursion, its rule is settled and the progress marks are as they were.\<close>

definition lr_call :: "llama_grammar_rules \<Rightarrow> nat \<Rightarrow> lr_state \<Rightarrow> (bool \<times> lr_state) res \<Rightarrow> bool" where
  "lr_call R i st r \<longleftrightarrow> (\<exists>left st'. r = Inr (left, st') \<and> (\<not> left \<longrightarrow> lr_inv R st' \<and> rules_in_progress st' = rules_in_progress st \<and> empty_kept R st st' \<and> settled R i
     \<and> (has_empty_alt (R ! i) True \<longrightarrow> rules_may_be_empty st' ! i)))"

definition lr_scanned :: "llama_grammar_rules \<Rightarrow> nat \<Rightarrow> nat \<Rightarrow> lr_state \<Rightarrow> (bool \<times> lr_state) res \<Rightarrow> bool" where
  "lr_scanned R i k st r \<longleftrightarrow> (\<exists>left st'. r = Inr (left, st') \<and> (\<not> left \<longrightarrow> lr_inv R st' \<and> rules_in_progress st' = rules_in_progress st \<and> empty_kept R st st'
     \<and> (\<forall>k' \<ge> k. k' < length (R ! i) \<longrightarrow> left_corner R i k' \<longrightarrow> ge_type (R ! i ! k') = LLAMA_GRETYPE_RULE_REF \<longrightarrow> settled R (unat (ge_value (R ! i ! k'))))))"

lemma lr_scanned_Suc:
  assumes "lr_scanned R i (Suc k) st' r" "rules_in_progress st' = rules_in_progress st" "empty_kept R st st'"
    and "left_corner R i k \<Longrightarrow> ge_type (R ! i ! k) = LLAMA_GRETYPE_RULE_REF \<Longrightarrow> settled R (unat (ge_value (R ! i ! k)))"
  shows "lr_scanned R i k st r"
proof -
  obtain left st2 where r: "r = Inr (left, st2)" and s: "\<not> left \<longrightarrow> lr_inv R st2 \<and> rules_in_progress st2 = rules_in_progress st' \<and> empty_kept R st' st2
     \<and> (\<forall>k' \<ge> Suc k. k' < length (R ! i) \<longrightarrow> left_corner R i k' \<longrightarrow> ge_type (R ! i ! k') = LLAMA_GRETYPE_RULE_REF \<longrightarrow> settled R (unat (ge_value (R ! i ! k'))))"
    using assms(1) unfolding lr_scanned_def by blast
  moreover have "empty_kept R st st2" if "empty_kept R st' st2" using that assms(3) by (simp add: empty_kept_def)
  moreover have "settled R (unat (ge_value (R ! i ! k')))" if "\<not> left" "k \<le> k'" "k' < length (R ! i)" "left_corner R i k'" "ge_type (R ! i ! k') = LLAMA_GRETYPE_RULE_REF" for k'
    using that s assms(4) by (cases "k' = k") auto
  ultimately show ?thesis using assms(2) unfolding lr_scanned_def by (intro exI [of _ left] exI [of _ st2]) simp
qed

lemma lr_loop_scans:
  assumes rec: "\<And>j st'. j < length R \<Longrightarrow> lr_inv R st' \<Longrightarrow> rules_in_progress st' = marks \<Longrightarrow> lr_call R j st' (rec_call j st')"
    and "es = drop k (R ! i)" "es = [] \<or> (\<exists>prev. wf_elems (length R) prev es)" "left_corner R i k \<longrightarrow> recurse" "lr_inv R st" "rules_in_progress st = marks"
  shows "lr_scanned R i k st (lr_loop rec_call es recurse st)"
  using assms(2-)
proof (induction es arbitrary: k recurse st)
  case Nil
  then show ?case by (auto simp: lr_scanned_def empty_kept_def)
next
  case (Cons e es)
  have es: "es = drop (Suc k) (R ! i)" and e: "R ! i ! k = e" using Cons.prems(1) by (metis drop_Suc list.sel(3) tl_drop, metis nth_via_drop)
  have w: "es = [] \<or> (\<exists>prev. wf_elems (length R) prev es)" using Cons.prems(2) by (auto split: if_splits)
  have lc: "left_corner R i (Suc k) \<Longrightarrow> is_end_of_sequence e \<or> left_corner R i k \<and> ge_type e = LLAMA_GRETYPE_RULE_REF \<and> has_empty_alt (R ! unat (ge_value e)) True"
    by (erule left_corner.cases) (auto simp: e is_end_of_sequence_def)
  show ?case
  proof (cases "ge_type e = LLAMA_GRETYPE_RULE_REF \<and> recurse")
    case False
    have "lr_scanned R i (Suc k) st (lr_loop rec_call es (is_end_of_sequence e) st)"
      using lc False Cons.prems(3) by (intro Cons.IH [OF es w _ Cons.prems(4,5)]) (auto simp: is_end_of_sequence_def)
    then show ?thesis using lr_scanned_Suc [of R i k st _ st] False e Cons.prems(3) by (auto simp: empty_kept_def)
  next
    case True
    let ?j = "unat (ge_value e)"
    have j: "?j < length R" using Cons.prems(2) True by auto
    obtain left st1 where r: "rec_call ?j st = Inr (left, st1)" and c: "\<not> left \<longrightarrow> lr_inv R st1 \<and> rules_in_progress st1 = rules_in_progress st \<and> empty_kept R st st1 \<and> settled R ?j
       \<and> (has_empty_alt (R ! ?j) True \<longrightarrow> rules_may_be_empty st1 ! ?j)"
      using rec [OF j Cons.prems(4,5)] unfolding lr_call_def by blast
    show ?thesis
    proof (cases left)
      case True
      then show ?thesis using r \<open>ge_type e = _ \<and> recurse\<close> by (auto simp: lr_scanned_def)
    next
      case False
      then have "lr_scanned R i (Suc k) st1 (lr_loop rec_call es (rules_may_be_empty st1 ! ?j) st1)"
        using c lc True Cons.prems(5) by (intro Cons.IH [OF es w]) (auto simp: is_end_of_sequence_def)
      then show ?thesis using lr_scanned_Suc [of R i k st1 _ st] c False True r e by auto
    qed
  qed
qed

text \<open>The recursion is as deep as there are rules not yet in progress.\<close>

lemma detect_call:
  assumes wf: "wf_rules R"
  shows "i < length R \<Longrightarrow> lr_inv R st \<Longrightarrow> card {x. x < length R \<and> \<not> rules_in_progress st ! x} < fuel \<Longrightarrow> lr_call R i st (detect_left_recursion fuel R i st)"
proof (induction fuel arbitrary: i st)
  case (Suc fuel)
  let ?open = "\<lambda>st. {x. x < length R \<and> \<not> rules_in_progress st ! x}"
  show ?case
  proof (cases "rules_in_progress st ! i")
    case True
    then show ?thesis by (auto simp: lr_call_def)
  next
    case False
    let ?st2 = "lr_enter R i st"
    have i2: "lr_inv R ?st2" "rules_in_progress ?st2 = (rules_in_progress st)[i := True]" "empty_kept R st ?st2" "has_empty_alt (R ! i) True \<longrightarrow> rules_may_be_empty ?st2 ! i"
      using Suc.prems by (auto simp: lr_inv_def nth_list_update empty_kept_def lr_enter_def Let_def)
    have "?open ?st2 = ?open st - {i}" using Suc.prems i2(2) by (auto simp: lr_inv_def nth_list_update)
    moreover have "card (?open st - {i}) < card (?open st)" using Suc.prems(1) False by (intro card_Diff1_less) auto
    ultimately have "card (?open ?st2) < fuel" using Suc.prems(3) by simp
    then have rec: "lr_call R j st' (detect_left_recursion fuel R j st')" if "j < length R" "lr_inv R st'" "rules_in_progress st' = rules_in_progress ?st2" for j st'
      using Suc.IH that by simp
    have w: "\<exists>prev. wf_elems (length R) prev (R ! i)" using wf Suc.prems(1) by (auto simp: wf_rules_def)
    have "lr_scanned R i 0 ?st2 (lr_loop (detect_left_recursion fuel R) (R ! i) True ?st2)"
      using lr_loop_scans [of R "rules_in_progress ?st2" "detect_left_recursion fuel R" "R ! i" 0 i True ?st2] rec w i2(1) by simp
    then obtain left st3 where l: "lr_loop (detect_left_recursion fuel R) (R ! i) True ?st2 = Inr (left, st3)" and s: "\<not> left \<longrightarrow> lr_inv R st3 \<and> rules_in_progress st3 = rules_in_progress ?st2 \<and> empty_kept R ?st2 st3
       \<and> (\<forall>k'. k' < length (R ! i) \<longrightarrow> left_corner R i k' \<longrightarrow> ge_type (R ! i ! k') = LLAMA_GRETYPE_RULE_REF \<longrightarrow> settled R (unat (ge_value (R ! i ! k'))))"
      unfolding lr_scanned_def by auto
    show ?thesis
    proof (cases left)
      case True
      then have "detect_left_recursion (Suc fuel) R i st = Inr (True, st3)" using False l by (simp add: Let_def)
      then show ?thesis unfolding lr_call_def by blast
    next
      case no: False
      have st: "settled R i" by (rule accp.accI) (use s no in \<open>auto simp: calls_def\<close>)
      have "(rules_in_progress st3)[i := False] = rules_in_progress st" using s no i2(2) False Suc.prems by (simp add: lr_inv_def list_update_same_conv)
      moreover have "empty_kept R st st3" "has_empty_alt (R ! i) True \<longrightarrow> rules_may_be_empty st3 ! i" using s no i2(3,4) Suc.prems(1) by (simp_all add: empty_kept_def)
      moreover have "lr_inv R (st3\<lparr>rules_in_progress := (rules_in_progress st3)[i := False], rules_visited := (rules_visited st3)[i := True]\<rparr>)"
        using s no st Suc.prems(1) by (auto simp: lr_inv_def nth_list_update split: if_splits)
      moreover have "detect_left_recursion (Suc fuel) R i st = Inr (False, st3\<lparr>rules_in_progress := (rules_in_progress st3)[i := False], rules_visited := (rules_visited st3)[i := True]\<rparr>)"
        using l no False by simp
      ultimately show ?thesis using st unfolding lr_call_def
        by (intro exI [of _ False] exI [of _ "st3\<lparr>rules_in_progress := (rules_in_progress st3)[i := False], rules_visited := (rules_visited st3)[i := True]\<rparr>"])
          (simp add: empty_kept_def del: detect_left_recursion.simps)
    qed
  qed
qed simp

lemma detect_all_settles:
  assumes "wf_rules R"
  shows "lr_inv R st \<Longrightarrow> set is \<subseteq> {..<length R} \<Longrightarrow> \<exists>left. detect_all R is st = Inr left \<and> (\<not> left \<longrightarrow> (\<forall>i \<in> set is. settled R i))"
proof (induction "is" arbitrary: st)
  case (Cons i "is")
  have i: "i < length R" using Cons.prems(2) by simp
  show ?case
  proof (cases "rules_visited st ! i")
    case True
    then show ?thesis using Cons i by (auto simp: lr_inv_def)
  next
    case False
    have "card {x. x < length R \<and> \<not> rules_in_progress st ! x} \<le> card {..<length R}" by (intro card_mono) auto
    then have "lr_call R i st (detect_left_recursion (length R + 1) R i st)" by (intro detect_call [OF assms i Cons.prems(1)]) simp
    then obtain left st' where d: "detect_left_recursion (length R + 1) R i st = Inr (left, st')" "\<not> left \<longrightarrow> lr_inv R st' \<and> settled R i"
      unfolding lr_call_def by blast
    then show ?thesis using Cons.IH [of st'] Cons.prems(2) False by (cases left) (auto simp del: detect_left_recursion.simps)
  qed
qed auto

lemma left_recursive_total: "wf_rules R \<Longrightarrow> \<exists>left. left_recursive R = Inr left \<and> (\<not> left \<longrightarrow> (\<forall>i < length R. settled R i))"
  using detect_all_settles [of R "\<lparr>rules_visited = replicate (length R) False, rules_in_progress = replicate (length R) False, rules_may_be_empty = replicate (length R) False\<rparr>" "[0..<length R]"]
  by (force simp: left_recursive_def Let_def lr_inv_def lessThan_atLeast0)

subsection \<open>An accepted grammar on which the closure never ends\<close>

text \<open>\<open>root ::= opt root "y" | "z"\<close>, \<open>opt ::= e\<close>, \<open>e ::= "x" |\<close>: \<open>opt\<close> derives the empty string, but not by an empty alternative of its own.\<close>

definition el :: "llama_gretype \<Rightarrow> uint32 \<Rightarrow> llama_grammar_element" where
  "el t v = \<lparr>ge_type = t, ge_value = v\<rparr>"

definition hidden_rules :: llama_grammar_rules where
  "hidden_rules =
    [[el LLAMA_GRETYPE_RULE_REF 1, el LLAMA_GRETYPE_RULE_REF 0, el LLAMA_GRETYPE_CHAR 121, el LLAMA_GRETYPE_ALT 0, el LLAMA_GRETYPE_CHAR 122, el LLAMA_GRETYPE_END 0],
     [el LLAMA_GRETYPE_RULE_REF 2, el LLAMA_GRETYPE_END 0],
     [el LLAMA_GRETYPE_CHAR 120, el LLAMA_GRETYPE_ALT 0, el LLAMA_GRETYPE_END 0]]"

lemma hidden_wf: "wf_rules hidden_rules"
  by code_simp

lemma hidden_not_detected: "left_recursive hidden_rules = Inr False"
  by code_simp

lemma expand_next: "ge_type (elem R p) = LLAMA_GRETYPE_RULE_REF \<Longrightarrow> t \<in> set (next_stacks R p st) \<Longrightarrow> expand R (p # st) t"
  by (simp add: expand_Cons)

lemmas hidden_eval = hidden_rules_def el_def elem_def next_stacks_def next_stack_def push_pos_def forward_def is_end_of_sequence_def

lemma hidden_expands: "(expand hidden_rules)\<^sup>*\<^sup>* [(0, 0)] ((0, 1) # replicate n (0, 2))"
proof (induction n)
  let ?e = "expand hidden_rules"
  have round: "?e\<^sup>*\<^sup>* ((0, 0) # s) ((0, 1) # s)" for s
  proof -
    have "?e ((0, 0) # s) ((1, 0) # (0, 1) # s)" by (rule expand_next) (simp_all add: hidden_eval)
    moreover have "?e ((1, 0) # (0, 1) # s) ((0, 1) # s)" by (rule expand_next) (simp_all add: hidden_eval)
    ultimately show ?thesis by (meson r_into_rtranclp rtranclp.rtrancl_into_rtrancl)
  qed
  {
    case 0
    show ?case using round [of "[]"] by simp
  next
    case (Suc n)
    have "?e ((0, 1) # replicate n (0, 2)) ((0, 0) # replicate (Suc n) (0, 2))" by (rule expand_next) (simp_all add: hidden_eval)
    then show ?case using Suc round [of "replicate (Suc n) (0, 2)"] by (meson rtranclp.rtrancl_into_rtrancl rtranclp_trans)
  }
qed

lemma hidden_terminal: "(0, 4) # replicate (Suc n) (0, 2) \<in> {t \<in> closure hidden_rules [(0, 0)]. terminal_stack hidden_rules t}"
proof -
  have "expand hidden_rules ((0, 1) # replicate n (0, 2)) ((0, 4) # replicate (Suc n) (0, 2))" by (rule expand_next) (simp_all add: hidden_eval)
  then show ?thesis using hidden_expands [of n] by (auto simp: closure_def terminal_stack_def is_terminal_def hidden_rules_def el_def elem_def intro: rtranclp.rtrancl_into_rtrancl)
qed

lemma hidden_infinite: "infinite {t \<in> closure hidden_rules [(0, 0)]. terminal_stack hidden_rules t}"
proof
  assume "finite {t \<in> closure hidden_rules [(0, 0)]. terminal_stack hidden_rules t}"
  then have "finite (range (\<lambda>n. (0 :: nat, 4 :: nat) # replicate (Suc n) (0, 2)))" by (rule rev_finite_subset) (use hidden_terminal in blast)
  moreover have "inj (\<lambda>n. (0 :: nat, 4 :: nat) # replicate (Suc n) (0, 2))" by (rule injI) simp
  ultimately show False using finite_imageD infinite_UNIV_nat by blast
qed

lemma hidden_diverges: "advance_stack hidden_rules [(0, 0)] new = Inl DIVERGES"
proof (cases "advance_loop hidden_rules [[(0, 0)]] [] new")
  case None
  then show ?thesis by (simp add: advance_stack_def)
next
  case (Some r)
  have "good_stack hidden_rules [(0, 0)]" by code_simp
  then obtain out where "r = Inr out" using advance_loop_no_abort [OF hidden_wf Some] by auto
  then have "set out = set new \<union> {t \<in> closure hidden_rules [(0, 0)]. terminal_stack hidden_rules t}" using Some by (intro advance_stack_set) (simp add: advance_stack_def)
  then show ?thesis using hidden_infinite by (metis List.finite_set finite_Un)
qed

text \<open>C12. The left recursion check passes this grammar, whose left recursion is hidden behind a rule that is empty only through another one, and building its first stacks never ends.\<close>

theorem hidden_left_recursion_diverges:
  "left_recursive hidden_rules = Inr False \<and> (llama_grammar_init_rules hidden_rules 0 :: 'pat llama_grammar option res) = Inl DIVERGES"
proof -
  have c: "map copy_rule hidden_rules = hidden_rules" "refs_defined hidden_rules" by code_simp+
  have "alternates (hidden_rules ! 0) 0 0 = [0, 4]" "push_pos hidden_rules (0, 0) [] = [(0, 0)]" by code_simp+
  then have "init_stacks hidden_rules 0 = Inl DIVERGES" using hidden_diverges by (simp add: init_stacks_def)
  then show ?thesis using c hidden_not_detected by (simp add: llama_grammar_init_rules_def)
qed

end
