(* ===== verification/Grammar_Accept.thy ===== *)
theory Grammar_Accept
  imports Grammar_LR
begin

section \<open>Accepting text\<close>

text \<open>
  The language of a list of stacks is what can still be read. Initialisation gives the language of the start rule, accepting a code point takes the derivative of the language by it, accepting a token the
  union of the derivatives by the token and by its text: the stacks hold exactly the completions of what has been accepted.
\<close>

subsection \<open>Matching a character class\<close>

definition char_element :: "llama_grammar_element \<Rightarrow> bool" where
  "char_element e \<longleftrightarrow> ge_type e \<in> {LLAMA_GRETYPE_CHAR, LLAMA_GRETYPE_CHAR_NOT, LLAMA_GRETYPE_CHAR_ANY}"

lemma terminal_cases: "is_terminal e \<longleftrightarrow> is_token_element e \<or> char_element e"
  by (auto simp: is_terminal_def is_token_element_def char_element_def)

lemma match_alts_class:
  assumes "wf_elems n prev (e # es)" "ge_type e \<in> {LLAMA_GRETYPE_CHAR, LLAMA_GRETYPE_CHAR_NOT, LLAMA_GRETYPE_CHAR_ALT}"
  shows "match_alts (e # es) chr found k = (found \<or> chr \<in> class_set (e # es), k + 1 + length (takeWhile modifies es))"
  using assms
proof (induction "length es" arbitrary: e es prev found k rule: less_induct)
  case less
  from less.prems have w: "wf_elems n (ge_type e) es" by (auto split: if_splits)
  then obtain u es' where es: "es = u # es'" by (cases es) auto
  show ?case
  proof (cases "ge_type u = LLAMA_GRETYPE_CHAR_RNG_UPPER")
    case True
    then have w': "wf_elems n LLAMA_GRETYPE_CHAR_RNG_UPPER es'" using w es by simp
    then obtain v es'' where es': "es' = v # es''" by (cases es') auto
    show ?thesis
    proof (cases "ge_type v = LLAMA_GRETYPE_CHAR_ALT")
      case alt: True
      from less.hyps [of es'' LLAMA_GRETYPE_CHAR_RNG_UPPER v "found \<or> ge_value e \<le> chr \<and> chr \<le> ge_value u" "k + 2"] w' show ?thesis
        using True alt by (auto simp: match_alts.simps(2) [of e] es es' next_is_def modifies_def)
    next
      case False
      then have "\<not> modifies v" using w' es' by (auto simp: modifies_def split: if_splits)
      then show ?thesis using True False by (auto simp: match_alts.simps(2) [of e] es es' next_is_def modifies_def)
    qed
  next
    case rng: False
    show ?thesis
    proof (cases "ge_type u = LLAMA_GRETYPE_CHAR_ALT")
      case alt: True
      from less.hyps [of es' "ge_type e" u "found \<or> ge_value e = chr" "k + 1"] w show ?thesis
        using rng alt less.prems(2) by (auto simp: match_alts.simps(2) [of e] es next_is_def modifies_def)
    next
      case False
      then show ?thesis using rng less.prems(2) by (auto simp: match_alts.simps(2) [of e] es next_is_def modifies_def)
    qed
  qed
qed

lemma syms_skip: "syms (drop (length (takeWhile modifies es)) es) = syms es"
  by (induction es) (auto simp: modifies_def is_end_of_sequence_def split: llama_gretype.splits)

lemma wf_elems_skip:
  "wf_elems n prev es \<Longrightarrow> length (takeWhile modifies es) < length es \<and> \<not> modifies (es ! length (takeWhile modifies es))"
proof (induction es arbitrary: prev)
  case (Cons e es)
  show ?case
  proof (cases "modifies e")
    case True
    then have "wf_elems n (ge_type e) es" using Cons.prems by (auto simp: modifies_def)
    then show ?thesis using Cons.IH True by simp
  qed simp
qed simp

lemma match_char_class:
  assumes "wf_rules R" "good_pos R p" "char_element (elem R p)"
  obtains S p' where "head_sym (rest R p) = Cls S" "\<forall>chr. match_char R p chr = Inr (chr \<in> S, p')" "fst p' < length R" "snd p' < length (R ! fst p')" "\<not> modifies (elem R p')"
    "syms (rest R p) = Cls S # syms (rest R p')"
proof -
  let ?e = "elem R p" and ?es = "rest R (forward p 1)"
  let ?k = "Suc (length (takeWhile modifies ?es))"
  obtain prev where w: "wf_elems (length R) prev (rest R p)" by (rule wf_good_rest [OF assms(1,2)])
  then have w': "wf_elems (length R) (ge_type ?e) ?es" using assms(3) by (auto simp: good_rest [OF assms(2)] char_element_def split: if_splits)
  note skip = wf_elems_skip [OF w']
  have p': "fst (forward p ?k) < length R" "snd (forward p ?k) < length (R ! fst (forward p ?k))"
    using skip assms(2) by (auto simp: good_pos_def rest_def forward_def)
  have m: "\<not> modifies (elem R (forward p ?k))" using skip assms(2) by (simp add: elem_def rest_def forward_def good_pos_def Suc_le_eq)
  have s: "syms (rest R p) = head_sym (rest R p) # syms (rest R (forward p ?k))"
    using syms_good [OF assms(2)] syms_skip [of ?es] rest_forward [of R "forward p 1" "length (takeWhile modifies ?es)"] by (simp add: forward_def)
  show ?thesis
  proof (cases "ge_type ?e = LLAMA_GRETYPE_CHAR_ANY")
    case True
    have "takeWhile modifies ?es = []" using w' True by (cases ?es) (auto simp: modifies_def)
    moreover have "\<not> next_is LLAMA_GRETYPE_CHAR_RNG_UPPER ?es" "\<not> next_is LLAMA_GRETYPE_CHAR_ALT ?es" using w' True by (cases ?es; auto simp: next_is_def)+
    ultimately have "match_char R p chr = Inr (chr \<in> UNIV, forward p ?k)" for chr
      using True by (simp add: match_char_def good_rest [OF assms(2)] match_alts.simps(2) is_positive_char_def)
    then show ?thesis using that [of UNIV "forward p ?k"] p' m s True by (simp add: head_sym_def good_rest [OF assms(2)])
  next
    case False
    then have t: "ge_type ?e \<in> {LLAMA_GRETYPE_CHAR, LLAMA_GRETYPE_CHAR_NOT}" using assms(3) by (simp add: char_element_def)
    have a: "match_alts (rest R p) chr False 0 = (chr \<in> class_set (rest R p), ?k)" for chr
      using match_alts_class [of "length R" prev ?e ?es chr False 0] w t by (auto simp: good_rest [OF assms(2)])
    let ?S = "if ge_type ?e = LLAMA_GRETYPE_CHAR then class_set (rest R p) else - class_set (rest R p)"
    have "match_char R p chr = Inr (chr \<in> ?S, forward p ?k)" for chr using t by (auto simp: match_char_def a is_positive_char_def)
    moreover have "head_sym (rest R p) = Cls ?S" using t by (auto simp: head_sym_def good_rest [OF assms(2)])
    ultimately show ?thesis using that [of ?S "forward p ?k"] p' m s by simp
  qed
qed

subsection \<open>Languages of stacks\<close>

definition lang :: "llama_grammar_rules \<Rightarrow> llama_grammar_stacks \<Rightarrow> ginput list set" where
  "lang R stacks = {w. \<exists>st \<in> set stacks. gen R (sent R st) w}"

definition stacks_ok :: "llama_grammar_rules \<Rightarrow> llama_grammar_stacks \<Rightarrow> bool" where
  "stacks_ok R stacks \<longleftrightarrow> (\<forall>st \<in> set stacks. good_stack R st \<and> terminal_stack R st)"

lemma lang_simps [simp]: "lang R [] = {}" "lang R (st # sts) = {w. gen R (sent R st) w} \<union> lang R sts"
  by (auto simp: lang_def)

lemma stacks_ok_simps [simp]: "stacks_ok R []" "stacks_ok R (st # sts) \<longleftrightarrow> good_stack R st \<and> terminal_stack R st \<and> stacks_ok R sts"
  by (auto simp: stacks_ok_def)

lemma advance_stack_lang:
  assumes "wf_rules R" "good_stack R st" "advance_stack R st new = Inr out" "stacks_ok R new"
  shows "lang R out = lang R new \<union> {w. gen R (sent R st) w}" "stacks_ok R out"
proof -
  show "lang R out = lang R new \<union> {w. gen R (sent R st) w}" using advance_stack_gen [OF assms(1-3)] by (auto simp: lang_def)
  show "stacks_ok R out" using advance_stack_set [OF assms(3)] closure_good [OF assms(1,2)] assms(4) by (auto simp: stacks_ok_def)
qed

lemma empty_lang_iff:
  assumes "stacks_ok R stacks"
  shows "[] \<in> lang R stacks \<longleftrightarrow> [] \<in> set stacks"
proof
  assume "[] \<in> lang R stacks"
  then obtain st where st: "st \<in> set stacks" "gen R (sent R st) []" by (auto simp: lang_def)
  have "st = []"
  proof (rule ccontr)
    assume "st \<noteq> []"
    then obtain p s where p: "st = p # s" by (cases st) auto
    then have g: "good_pos R p" "is_terminal (elem R p)" using assms st(1) by (auto simp: stacks_ok_def terminal_stack_def)
    then have "head_sym (rest R p) \<noteq> Ref i" for i by (auto simp: head_sym_def good_rest is_terminal_def)
    moreover have "gen R (head_sym (rest R p) # syms (rest R (forward p 1)) @ sent R s) []" using st(2) p syms_good [OF g(1)] by simp
    ultimately show False by (auto elim: gen.cases)
  qed
  then show "[] \<in> set stacks" using st(1) by simp
qed (auto simp: lang_def intro!: bexI [of _ "[]"] gen.nil)

text \<open>A fold that adds the stacks of each item adds the languages.\<close>

lemma fold_lang:
  assumes "fold_res f xs new = Inr out" "stacks_ok R new"
    and "\<And>x new out. x \<in> set xs \<Longrightarrow> f x new = Inr out \<Longrightarrow> stacks_ok R new \<Longrightarrow> stacks_ok R out \<and> lang R out = lang R new \<union> L x"
  shows "stacks_ok R out \<and> lang R out = lang R new \<union> (\<Union>x \<in> set xs. L x)"
  using assms
proof (induction xs arbitrary: new)
  case (Cons x xs)
  then obtain mid where m: "f x new = Inr mid" "fold_res f xs mid = Inr out" by (auto simp: bind_res_Inr_iff)
  have "stacks_ok R mid \<and> lang R mid = lang R new \<union> L x" using Cons.prems(3) [OF _ m(1) Cons.prems(2)] by simp
  then show ?case using Cons.IH [OF m(2)] Cons.prems(3) by auto
qed simp

lemma init_stacks_lang:
  assumes "wf_rules R" "i < length R" "init_stacks R i = Inr out"
  shows "stacks_ok R out \<and> lang R out = {w. gen R [Ref i] w}"
proof -
  let ?L = "\<lambda>s. {w. gen R (syms (rest R (i, s))) w}"
  have "stacks_ok R out \<and> lang R out = lang R [] \<union> (\<Union>s \<in> set (alternates (R ! i) 0 0). ?L s)"
  proof (rule fold_lang [OF assms(3) [unfolded init_stacks_def]])
    fix s new out assume s: "s \<in> set (alternates (R ! i) 0 0)" and a: "advance_stack R (push_pos R (i, s) []) new = Inr out" and n: "stacks_ok R new"
    have r: "s < length (R ! i)" "\<not> modifies (R ! i ! s)" using rule_alternates(1) [OF assms(1,2)] s by auto
    have "good_stack R (push_pos R (i, s) [])" using r assms(2) by (intro good_push) (auto simp: elem_def)
    moreover have "sent R (push_pos R (i, s) []) = syms (rest R (i, s))" using r assms(2) by (simp add: sent_push)
    ultimately show "stacks_ok R out \<and> lang R out = lang R new \<union> ?L s" using advance_stack_lang [OF assms(1) _ a n] by simp
  qed simp
  moreover have "(\<Union>s \<in> set (alternates (R ! i) 0 0). ?L s) = {w. gen R [Ref i] w}"
    by (auto simp: gen_Ref_iff simp flip: rule_alternates(2) [OF assms(1,2)])
  ultimately show ?thesis by simp
qed

subsection \<open>Code points\<close>

lemma accept_chr_lang:
  assumes "wf_rules R" "good_stack R st" "terminal_stack R st" "accept_chr R c st new = Inr out" "stacks_ok R new"
  shows "stacks_ok R out \<and> lang R out = lang R new \<union> {w. gen R (sent R st) (Code c # w)}"
proof (cases st)
  case Nil
  then show ?thesis using assms by (auto simp: accept_chr_def)
next
  case (Cons p s)
  have g: "good_pos R p" "good_stack R s" "is_terminal (elem R p)" using assms(2,3) Cons by (auto simp: terminal_stack_def)
  show ?thesis
  proof (cases "is_token_element (elem R p)")
    case True
    then have "head_sym (rest R p) = Tok T \<Longrightarrow> \<not> gen R (sent R st) (Code c # w)" for T w using syms_good [OF g(1)] Cons by auto
    moreover have "\<exists>T. head_sym (rest R p) = Tok T" using True by (auto simp: head_sym_def good_rest [OF g(1)] is_token_element_def)
    ultimately show ?thesis using assms(4,5) True Cons by (auto simp: accept_chr_def)
  next
    case False
    then have ch: "char_element (elem R p)" using g(3) terminal_cases by blast
    obtain S p' where "head_sym (rest R p) = Cls S" and m: "\<forall>chr. match_char R p chr = Inr (chr \<in> S, p')" "fst p' < length R" "snd p' < length (R ! fst p')" "\<not> modifies (elem R p')"
      "syms (rest R p) = Cls S # syms (rest R p')" by (rule match_char_class [OF assms(1) g(1) ch])
    have sent: "gen R (sent R st) (Code c # w) \<longleftrightarrow> c \<in> S \<and> gen R (sent R (push_pos R p' s)) w" for w
      using m Cons by (auto simp: sent_push intro: gen.cls)
    show ?thesis
    proof (cases "c \<in> S")
      case True
      then have "advance_stack R (push_pos R p' s) new = Inr out" using assms(4) False m(1) Cons by (simp add: accept_chr_def)
      then show ?thesis using advance_stack_lang [OF assms(1) good_push [OF m(2-4) g(2)]] assms(5) sent True by simp
    next
      case no: False
      then show ?thesis using assms(4,5) False m(1) sent Cons by (simp add: accept_chr_def)
    qed
  qed
qed

lemma accept_stacks_lang:
  assumes "wf_rules R" "stacks_ok R stacks" "accept_stacks R stacks c = Inr out"
  shows "stacks_ok R out \<and> lang R out = {w. Code c # w \<in> lang R stacks}"
proof -
  have "stacks_ok R out \<and> lang R out = lang R [] \<union> (\<Union>st \<in> set stacks. {w. gen R (sent R st) (Code c # w)})"
    using assms(2) by (intro fold_lang [OF assms(3) [unfolded accept_stacks_def]] accept_chr_lang [OF assms(1)]) (auto simp: stacks_ok_def)
  then show ?thesis by (auto simp: lang_def)
qed

lemma accept_points_lang:
  assumes "wf_rules R" "stacks_ok R stacks" "accept_points R cs stacks = Inr out"
  shows "stacks_ok R out \<and> lang R out = {w. map Code cs @ w \<in> lang R stacks}"
  using assms(2,3)
proof (induction cs arbitrary: stacks)
  case (Cons c cs)
  then obtain mid where m: "accept_stacks R stacks c = Inr mid" and r: "(if mid = [] then Inr mid else accept_points R cs mid) = Inr out" by (auto simp: bind_res_Inr_iff)
  note l = accept_stacks_lang [OF assms(1) Cons.prems(1) m]
  show ?case
  proof (cases "mid = []")
    case True
    then show ?thesis using l r by (auto simp: lang_def)
  next
    case False
    then show ?thesis using l r Cons.IH [of mid] by auto
  qed
qed simp

lemma accept_lang:
  assumes "wf_rules (gr_rules g)" "stacks_ok (gr_rules g) (gr_stacks g)" "fold_res (\<lambda>c g. llama_grammar_accept g c) cps g = Inr g'"
  shows "gr_rules g' = gr_rules g \<and> stacks_ok (gr_rules g) (gr_stacks g') \<and> lang (gr_rules g) (gr_stacks g') = {w. map Code cps @ w \<in> lang (gr_rules g) (gr_stacks g)}"
  using assms
proof (induction cps arbitrary: g)
  case (Cons c cps)
  then obtain sts where a: "accept_stacks (gr_rules g) (gr_stacks g) c = Inr sts" "fold_res (\<lambda>c g. llama_grammar_accept g c) cps (g\<lparr>gr_stacks := sts\<rparr>) = Inr g'"
    by (auto simp: llama_grammar_accept_def bind_res_Inr_iff)
  note l = accept_stacks_lang [OF Cons.prems(1,2) a(1)]
  then show ?case using Cons.IH [OF _ _ a(2)] Cons.prems(1) by simp
qed simp

subsection \<open>Tokens\<close>

lemma set_fold_add_stack: "set (fold add_stack xs ys) = set xs \<union> set ys"
  by (induction xs arbitrary: ys) auto

lemma accept_token_stack_lang:
  assumes "wf_rules R" "good_stack R st" "terminal_stack R st" "accept_token_stack R tok points st new = Inr out" "stacks_ok R new" "points \<noteq> []"
  shows "stacks_ok R out \<and> lang R out = lang R new \<union> {w. gen R (sent R st) (Token tok # w) \<or> gen R (sent R st) (map Code points @ w)}"
proof (cases st)
  case Nil
  then show ?thesis using assms by (auto simp: accept_token_stack_def)
next
  case (Cons p s)
  have g: "good_pos R p" "good_stack R s" "is_terminal (elem R p)" using assms(2,3) Cons by (auto simp: terminal_stack_def)
  obtain c cs where pts: "points = c # cs" using assms(6) by (cases points) auto
  show ?thesis
  proof (cases "is_token_element (elem R p)")
    case True
    then obtain T where T: "head_sym (rest R p) = Tok T" "match_token (elem R p) tok = Inr (tok \<in> T)"
      by (auto simp: head_sym_def good_rest [OF g(1)] is_token_element_def match_token_def)
    have n: "fst (forward p 1) < length R" "snd (forward p 1) < length (R ! fst (forward p 1))" "\<not> modifies (elem R (forward p 1))"
      using next_in_range [OF assms(1) g(1)] True by (auto simp: is_token_element_def)
    have sent: "gen R (sent R st) (Token tok # w) \<longleftrightarrow> tok \<in> T \<and> gen R (sent R (push_pos R (forward p 1) s)) w" "\<not> gen R (sent R st) (map Code points @ w)" for w
      using n T(1) syms_good [OF g(1)] Cons pts by (auto simp: sent_push intro: gen.tok)
    show ?thesis
    proof (cases "tok \<in> T")
      case in_T: True
      then have "advance_stack R (push_pos R (forward p 1) s) new = Inr out" using assms(4) True T(2) Cons by (simp add: accept_token_stack_def)
      then show ?thesis using advance_stack_lang [OF assms(1) good_push [OF n g(2)]] assms(5) sent in_T by simp
    next
      case False
      then show ?thesis using assms(4,5) True T(2) sent Cons by (simp add: accept_token_stack_def)
    qed
  next
    case False
    then have ch: "char_element (elem R p)" using g(3) terminal_cases by blast
    obtain sv where sv: "accept_points R points [st] = Inr sv" "out = fold add_stack sv new" using assms(4) False Cons by (auto simp: accept_token_stack_def bind_res_Inr_iff)
    have l: "stacks_ok R sv \<and> lang R sv = {w. map Code points @ w \<in> lang R [st]}" using assms(2,3) by (intro accept_points_lang [OF assms(1) _ sv(1)]) simp
    obtain S p' where "syms (rest R p) = Cls S # syms (rest R p')" using match_char_class [OF assms(1) g(1) ch] by metis
    then have "\<not> gen R (sent R st) (Token tok # w)" for w using Cons by auto
    then show ?thesis using l assms(5) sv(2) set_fold_add_stack [of sv new] by (auto simp: lang_def stacks_ok_def)
  qed
qed

lemma accept_token_lang:
  assumes "wf_rules (gr_rules g)" "stacks_ok (gr_rules g) (gr_stacks g)" "decode_utf8 piece (gr_partial_utf8 g) = (points @ [0], partial)" "points \<noteq> []"
    and "llama_grammar_accept_token g tok piece = Inr g'"
  shows "gr_rules g' = gr_rules g \<and> gr_partial_utf8 g' = partial \<and> stacks_ok (gr_rules g) (gr_stacks g')
    \<and> lang (gr_rules g) (gr_stacks g') = {w. Token tok # w \<in> lang (gr_rules g) (gr_stacks g) \<or> map Code points @ w \<in> lang (gr_rules g) (gr_stacks g)}"
proof -
  let ?R = "gr_rules g"
  obtain sts where f: "fold_res (accept_token_stack ?R tok points) (gr_stacks g) [] = Inr sts" and g': "g' = g\<lparr>gr_stacks := sts, gr_partial_utf8 := partial\<rparr>"
    using assms(5) by (auto simp: llama_grammar_accept_token_def assms(3) bind_res_Inr_iff split: if_splits)
  have "stacks_ok ?R sts \<and> lang ?R sts = lang ?R [] \<union> (\<Union>st \<in> set (gr_stacks g). {w. gen ?R (sent ?R st) (Token tok # w) \<or> gen ?R (sent ?R st) (map Code points @ w)})"
    using assms(2) by (intro fold_lang [OF f] accept_token_stack_lang [OF assms(1) _ _ _ _ assms(4)]) (auto simp: stacks_ok_def)
  then show ?thesis using g' by (auto simp: lang_def)
qed

subsection \<open>Everything returns\<close>

text \<open>Rules on which the closure computation always ends, with at least one stack.\<close>

definition closures_end :: "llama_grammar_rules \<Rightarrow> bool" where
  "closures_end R \<longleftrightarrow> wf_rules R \<and> (\<forall>st. good_stack R st \<longrightarrow> finite (closure R st) \<and> terminates_at R st)"

lemma closures_endI: "wf_rules R \<Longrightarrow> nullable_is_direct R \<Longrightarrow> left_recursive R = Inr False \<Longrightarrow> closures_end R"
  using left_recursive_total [of R] finite_closures.Q_stack [of R] terminal_closures.Q_stack [of R] by (auto simp: closures_end_def)

lemma advance_returns: "closures_end R \<Longrightarrow> good_stack R st \<Longrightarrow> \<exists>out. advance_stack R st new = Inr out"
  using advance_stack_returns by (auto simp: closures_end_def)

lemma accept_chr_returns:
  assumes "closures_end R" "good_stack R st" "terminal_stack R st"
  shows "\<exists>out. accept_chr R c st new = Inr out"
proof (cases st)
  case (Cons p s)
  then have g: "good_pos R p" "good_stack R s" "is_terminal (elem R p)" using assms(2,3) by (auto simp: terminal_stack_def)
  show ?thesis
  proof (cases "is_token_element (elem R p)")
    case False
    then have ch: "char_element (elem R p)" using g(3) terminal_cases by blast
    have wf: "wf_rules R" using assms(1) by (simp add: closures_end_def)
    obtain S p' where "head_sym (rest R p) = Cls S" and m: "\<forall>chr. match_char R p chr = Inr (chr \<in> S, p')" "fst p' < length R" "snd p' < length (R ! fst p')" "\<not> modifies (elem R p')"
      "syms (rest R p) = Cls S # syms (rest R p')" by (rule match_char_class [OF wf g(1) ch])
    then show ?thesis using advance_returns [OF assms(1) good_push [OF m(2-4) g(2)]] Cons False by (simp add: accept_chr_def)
  qed (simp add: accept_chr_def Cons)
qed (simp add: accept_chr_def)

lemma fold_returns: "(\<And>x s. x \<in> set xs \<Longrightarrow> \<exists>s'. f x s = Inr s') \<Longrightarrow> \<exists>s'. fold_res f xs s = Inr s'"
  using fold_res_invariant [of "\<lambda>_. True" s xs f] by auto

lemma accept_stacks_returns: "closures_end R \<Longrightarrow> stacks_ok R stacks \<Longrightarrow> \<exists>out. accept_stacks R stacks c = Inr out"
  unfolding accept_stacks_def by (intro fold_returns accept_chr_returns) (auto simp: stacks_ok_def)

lemma accept_returns:
  assumes "closures_end (gr_rules g)" "stacks_ok (gr_rules g) (gr_stacks g)"
  shows "\<exists>g'. fold_res (\<lambda>c g. llama_grammar_accept g c) cps g = Inr g'"
  using assms
proof (induction cps arbitrary: g)
  case (Cons c cps)
  obtain sts where a: "accept_stacks (gr_rules g) (gr_stacks g) c = Inr sts" using accept_stacks_returns [OF Cons.prems] by blast
  have "stacks_ok (gr_rules g) sts" using accept_stacks_lang [OF _ Cons.prems(2) a] Cons.prems(1) by (simp add: closures_end_def)
  then show ?case using Cons.IH [of "g\<lparr>gr_stacks := sts\<rparr>"] Cons.prems(1) a by (simp add: llama_grammar_accept_def)
qed simp

lemma accept_points_returns:
  assumes "closures_end R" "stacks_ok R stacks"
  shows "\<exists>out. accept_points R cs stacks = Inr out"
  using assms(2)
proof (induction cs arbitrary: stacks)
  case (Cons c cs)
  obtain mid where m: "accept_stacks R stacks c = Inr mid" using accept_stacks_returns [OF assms(1) Cons.prems] by blast
  moreover have "stacks_ok R mid" using accept_stacks_lang [OF _ Cons.prems m] assms(1) by (simp add: closures_end_def)
  ultimately show ?case using Cons.IH by simp
qed simp

lemma init_stacks_returns:
  assumes "closures_end R" "i < length R"
  shows "\<exists>out. init_stacks R i = Inr out"
proof -
  have wf: "wf_rules R" using assms(1) by (simp add: closures_end_def)
  have "good_stack R (push_pos R (i, s) [])" if "s \<in> set (alternates (R ! i) 0 0)" for s
    using rule_alternates(1) [OF wf assms(2)] that assms(2) by (intro good_push) (auto simp: elem_def)
  then show ?thesis unfolding init_stacks_def by (intro fold_returns advance_returns [OF assms(1)]) auto
qed

end
