(* ===== verification/Grammar_Reject.thy ===== *)
theory Grammar_Reject
  imports Grammar_Accept
begin

section \<open>Masking tokens\<close>

text \<open>
  \<open>llama_grammar_apply_impl\<close> masks the candidates that \<open>llama_grammar_reject_candidates\<close> rejects, level by level over the code points of all candidates at once. For a grammar without token
  elements this is the same as asking, for each candidate alone, whether a stack survives its code points and admits the partial character at its end; so what is left unmasked can be accepted.
\<close>

subsection \<open>What one candidate can reach\<close>

definition step_set :: "llama_grammar_rules \<Rightarrow> uint32 \<Rightarrow> llama_grammar_stack \<Rightarrow> llama_grammar_stack set" where
  "step_set R c st = (case accept_chr R c st [] of Inl _ \<Rightarrow> {} | Inr out \<Rightarrow> set out)"

primrec after :: "llama_grammar_rules \<Rightarrow> uint32 list \<Rightarrow> llama_grammar_stack \<Rightarrow> llama_grammar_stack set" where
  "after R [] st = {st}"
| "after R (c # cs) st = (\<Union>t \<in> step_set R c st. after R cs t)"

definition token_free :: "llama_grammar_rules \<Rightarrow> bool" where
  "token_free R \<longleftrightarrow> (\<forall>rule \<in> set R. \<forall>e \<in> set rule. \<not> is_token_element e)"

lemma token_free_elem: "token_free R \<Longrightarrow> good_pos R p \<Longrightarrow> \<not> is_token_element (elem R p)"
  unfolding token_free_def good_pos_def elem_def by (meson nth_mem)

definition char_step :: "llama_grammar_rules \<Rightarrow> element_pos \<Rightarrow> llama_grammar_stack \<Rightarrow> uint32 set \<Rightarrow> element_pos \<Rightarrow> llama_grammar_stack set \<Rightarrow> bool" where
  "char_step R p st S p' nxt \<longleftrightarrow> (\<forall>chr. match_char R p chr = Inr (chr \<in> S, p')) \<and> (\<exists>out. advance_stack R (push_pos R p' st) [] = Inr out \<and> set out = nxt)
     \<and> (\<forall>c. step_set R c (p # st) = (if c \<in> S then nxt else {})) \<and> nxt \<noteq> {} \<and> (\<forall>t \<in> nxt. good_stack R t \<and> terminal_stack R t) \<and> char_element (elem R p)
     \<and> (\<forall>c new. \<exists>out. accept_chr R c (p # st) new = Inr out \<and> set out = set new \<union> step_set R c (p # st))"

lemma char_stack:
  assumes "closures_end R" "token_free R" "good_stack R (p # st)" "terminal_stack R (p # st)"
  shows "\<exists>S p' nxt. char_step R p st S p' nxt"
proof -
  have wf: "wf_rules R" using assms(1) by (simp add: closures_end_def)
  have tk: "\<not> is_token_element (elem R p)" using token_free_elem assms(2,3) by simp
  have ch: "char_element (elem R p)" using tk terminal_cases assms(4) by (auto simp: terminal_stack_def)
  have g: "good_pos R p" "good_stack R st" using assms(3) by simp_all
  obtain S p' where "head_sym (rest R p) = Cls S" and m: "\<forall>chr. match_char R p chr = Inr (chr \<in> S, p')" "fst p' < length R" "snd p' < length (R ! fst p')" "\<not> modifies (elem R p')"
    "syms (rest R p) = Cls S # syms (rest R p')" by (rule match_char_class [OF wf g(1) ch])
  let ?st = "push_pos R p' st"
  let ?nxt = "{t \<in> closure R ?st. terminal_stack R t}"
  have gs: "good_stack R ?st" using good_push [OF m(2-4) g(2)] .
  have adv: "\<exists>out. advance_stack R ?st new = Inr out \<and> set out = set new \<union> ?nxt" for new
    using advance_returns [OF assms(1) gs, of new] advance_stack_set by blast
  have acc: "\<exists>out. accept_chr R c (p # st) new = Inr out \<and> set out = set new \<union> (if c \<in> S then ?nxt else {})" for c new
    using adv [of new] tk m(1) by (auto simp: accept_chr_def)
  have step: "step_set R c (p # st) = (if c \<in> S then ?nxt else {})" for c using acc [of c "[]"] by (auto simp: step_set_def)
  have "?nxt \<noteq> {}" using assms(1) gs by (auto simp: closures_end_def terminates_at_def)
  moreover have "\<forall>t \<in> ?nxt. good_stack R t \<and> terminal_stack R t" using closure_good [OF wf gs] by blast
  moreover have "\<forall>c new. \<exists>out. accept_chr R c (p # st) new = Inr out \<and> set out = set new \<union> step_set R c (p # st)" using acc step by simp
  moreover have "\<exists>out. advance_stack R ?st [] = Inr out \<and> set out = ?nxt" using adv [of "[]"] by simp
  moreover have "\<forall>c. step_set R c (p # st) = (if c \<in> S then ?nxt else {})" using step by blast
  ultimately have "char_step R p st S p' ?nxt" unfolding char_step_def using m(1) ch by (intro conjI)
  then show ?thesis by blast
qed

lemma accept_chr_Nil: "accept_chr R c [] new = Inr new" "step_set R c [] = {}"
  by (simp_all add: accept_chr_def step_set_def)

lemma accept_chr_step:
  assumes "closures_end R" "token_free R" "good_stack R st" "terminal_stack R st"
  shows "\<exists>out. accept_chr R c st new = Inr out \<and> set out = set new \<union> step_set R c st" "\<forall>t \<in> step_set R c st. good_stack R t \<and> terminal_stack R t"
proof -
  have "(\<exists>out. accept_chr R c st new = Inr out \<and> set out = set new \<union> step_set R c st) \<and> (\<forall>t \<in> step_set R c st. good_stack R t \<and> terminal_stack R t)"
  proof (cases st)
    case Nil
    then show ?thesis by (simp add: accept_chr_Nil)
  next
    case (Cons p s)
    obtain S p' nxt where c: "char_step R p s S p' nxt" using char_stack [OF assms [unfolded Cons]] by blast
    then have "\<forall>t \<in> step_set R c st. good_stack R t \<and> terminal_stack R t" by (simp add: char_step_def Cons)
    then show ?thesis using c unfolding char_step_def Cons by blast
  qed
  then show "\<exists>out. accept_chr R c st new = Inr out \<and> set out = set new \<union> step_set R c st" "\<forall>t \<in> step_set R c st. good_stack R t \<and> terminal_stack R t" by blast+
qed

lemma accept_stacks_step:
  assumes "closures_end R" "token_free R" "stacks_ok R stacks"
  shows "\<exists>out. accept_stacks R stacks c = Inr out \<and> set out = (\<Union>st \<in> set stacks. step_set R c st) \<and> stacks_ok R out"
proof -
  have "\<exists>out. fold_res (accept_chr R c) stacks new = Inr out \<and> set out = set new \<union> (\<Union>st \<in> set stacks. step_set R c st)" for new
    using assms(3)
  proof (induction stacks arbitrary: new)
    case (Cons st stacks)
    obtain mid where m: "accept_chr R c st new = Inr mid" "set mid = set new \<union> step_set R c st" using accept_chr_step(1) [OF assms(1,2), of st c new] Cons.prems by auto
    then show ?case using Cons.IH [of mid] Cons.prems by auto
  qed simp
  then obtain out where o: "accept_stacks R stacks c = Inr out" "set out = (\<Union>st \<in> set stacks. step_set R c st)" unfolding accept_stacks_def by fastforce
  moreover have "stacks_ok R out" using accept_stacks_lang [OF _ assms(3) o(1)] assms(1) by (simp add: closures_end_def)
  ultimately show ?thesis by blast
qed

lemma accept_points_after:
  assumes "closures_end R" "token_free R"
  shows "stacks_ok R stacks \<Longrightarrow> \<exists>out. accept_points R cs stacks = Inr out \<and> set out = (\<Union>st \<in> set stacks. after R cs st)"
proof (induction cs arbitrary: stacks)
  case (Cons c cs)
  obtain mid where m: "accept_stacks R stacks c = Inr mid" "set mid = (\<Union>st \<in> set stacks. step_set R c st)" "stacks_ok R mid"
    using accept_stacks_step [OF assms Cons.prems] by blast
  show ?case
  proof (cases "mid = []")
    case True
    then show ?thesis using m by auto
  next
    case False
    then show ?thesis using Cons.IH [OF m(3)] m(1,2) by auto
  qed
qed auto

subsection \<open>Candidates\<close>

definition cand_points :: "llama_grammar_candidate \<Rightarrow> uint32 list" where
  "cand_points tok = takeWhile (\<lambda>c. c \<noteq> 0) (drop (gc_offset tok) (gc_array tok))"

definition cand_ok :: "llama_grammar_candidate \<Rightarrow> bool" where
  "cand_ok tok \<longleftrightarrow> 0 \<in> set (drop (gc_offset tok) (gc_array tok))"

lemma cand_zero: "cand_ok tok \<Longrightarrow> gc_point tok = 0 \<longleftrightarrow> cand_points tok = []"
  by (cases "drop (gc_offset tok) (gc_array tok)") (auto simp: cand_ok_def cand_points_def gc_point_def nth_via_drop)

lemma gc_back_forward [simp]: "gc_back (gc_forward tok) = tok"
  by (simp add: gc_back_def gc_forward_def)

lemma cand_forward:
  assumes "cand_ok tok" "gc_point tok \<noteq> 0"
  shows "cand_points tok = gc_point tok # cand_points (gc_forward tok)" "cand_ok (gc_forward tok)"
proof -
  obtain x xs where d: "drop (gc_offset tok) (gc_array tok) = x # xs" using assms(1) by (cases "drop (gc_offset tok) (gc_array tok)") (auto simp: cand_ok_def)
  have x: "gc_point tok = x" using d by (simp add: gc_point_def nth_via_drop)
  have xs: "drop (gc_offset (gc_forward tok)) (gc_array (gc_forward tok)) = xs" using d by (simp add: gc_forward_def) (metis drop_Suc list.sel(3) tl_drop)
  show "cand_points tok = gc_point tok # cand_points (gc_forward tok)" "cand_ok (gc_forward tok)" using d x xs assms by (simp_all add: cand_points_def cand_ok_def)
qed

definition final_ok :: "llama_grammar_rules \<Rightarrow> llama_partial_utf8 \<Rightarrow> llama_grammar_stack \<Rightarrow> bool" where
  "final_ok R partial st \<longleftrightarrow> pu_n_remain partial = 0 \<or> (st \<noteq> [] \<and> match_partial_char R (hd st) partial = Inr True)"

definition survives :: "llama_grammar_rules \<Rightarrow> llama_grammar_stack \<Rightarrow> llama_grammar_candidate \<Rightarrow> bool" where
  "survives R st tok \<longleftrightarrow> (\<exists>t \<in> after R (cand_points tok) st. final_ok R (gc_partial_utf8 tok) t)"

lemma survives_zero: "cand_ok tok \<Longrightarrow> gc_point tok = 0 \<Longrightarrow> survives R st tok \<longleftrightarrow> final_ok R (gc_partial_utf8 tok) st"
  by (simp add: survives_def cand_zero)

lemma survives_step: "cand_ok tok \<Longrightarrow> gc_point tok \<noteq> 0 \<Longrightarrow> survives R st tok \<longleftrightarrow> (\<exists>t \<in> step_set R (gc_point tok) st. survives R t (gc_forward tok))"
  using cand_forward(1) [of tok] by (simp add: survives_def) (simp add: gc_forward_def)

lemma reject_char_fold:
  assumes "\<forall>chr. match_char R p chr = Inr (chr \<in> S, p')" "char_element (elem R p)"
  shows "fold_res (reject_char_step R p) toks (rej, nxt) = Inr
    (rej @ filter (\<lambda>tok. if gc_point tok = 0 then \<not> final_ok R (gc_partial_utf8 tok) (p # st) else gc_point tok \<notin> S) toks,
     nxt @ map gc_forward (filter (\<lambda>tok. gc_point tok \<noteq> 0 \<and> gc_point tok \<in> S) toks))"
proof (induction toks arbitrary: rej nxt)
  case (Cons tok toks)
  have "\<exists>b. match_partial_char R p q = Inr b" for q using assms(2) by (auto simp: match_partial_char_def char_element_def is_positive_char_def Let_def)
  then obtain b where b: "match_partial_char R p (gc_partial_utf8 tok) = Inr b" by blast
  show ?case using Cons assms(1) b by (auto simp: reject_char_step_def final_ok_def)
qed simp

lemma reject_with_set:
  assumes "stacks \<noteq> []" "\<And>st toks'. toks \<noteq> [] \<Longrightarrow> st \<in> set stacks \<Longrightarrow> set toks' \<subseteq> set toks \<Longrightarrow> \<exists>rej. f st toks' = Inr rej \<and> set rej = {tok \<in> set toks'. \<not> K st tok}"
  shows "\<exists>rej. reject_with f stacks toks = Inr rej \<and> set rej = {tok \<in> set toks. \<forall>st \<in> set stacks. \<not> K st tok}"
proof -
  have fold: "\<exists>rej. fold_res f sts toks' = Inr rej \<and> set rej = {tok \<in> set toks'. \<forall>st \<in> set sts. \<not> K st tok}" if ne: "toks \<noteq> []" and "set sts \<subseteq> set stacks" "set toks' \<subseteq> set toks" for sts toks'
    using that(2,3)
  proof (induction sts arbitrary: toks')
    case (Cons st sts)
    obtain rej where r: "f st toks' = Inr rej" "set rej = {tok \<in> set toks'. \<not> K st tok}" using assms(2) [OF ne, of st toks'] Cons.prems by auto
    have "set rej \<subseteq> set toks" using r(2) Cons.prems(2) by auto
    then show ?case using Cons.IH [of rej] Cons.prems r by auto
  qed simp
  show ?thesis
  proof (cases "toks = []")
    case True
    then show ?thesis using assms(1) by (simp add: reject_with_def)
  next
    case False
    obtain st sts where s: "stacks = st # sts" using assms(1) by (cases stacks) auto
    have "\<exists>rej. fold_res f (st # sts) toks = Inr rej \<and> set rej = {tok \<in> set toks. \<forall>st \<in> set (st # sts). \<not> K st tok}" using s False by (intro fold) simp_all
    then show ?thesis using False s by (simp add: reject_with_def)
  qed
qed

lemma reject_for_stack_set:
  assumes "closures_end R" "token_free R"
  shows "good_stack R st \<Longrightarrow> terminal_stack R st \<Longrightarrow> \<forall>tok \<in> set toks. cand_ok tok \<and> length (cand_points tok) \<le> fuel
    \<Longrightarrow> \<exists>rej. reject_candidates_for_stack (Suc fuel) R st toks = Inr rej \<and> set rej = {tok \<in> set toks. \<not> survives R st tok}"
proof (induction fuel arbitrary: st toks rule: less_induct)
  case (less fuel)
  show ?case
  proof (cases st)
    case Nil
    have "survives R [] tok \<longleftrightarrow> gc_point tok = 0 \<and> pu_n_remain (gc_partial_utf8 tok) = 0" if "tok \<in> set toks" for tok
      using less.prems(3) that survives_zero [of tok R "[]"] survives_step [of tok R "[]"] by (cases "gc_point tok = 0") (auto simp: final_ok_def accept_chr_Nil)
    then show ?thesis using Nil by auto
  next
    case (Cons p s)
    obtain S p' nxt where c: "char_step R p s S p' nxt" using char_stack [OF assms, of p s] less.prems(1,2) Cons by blast
    then have m: "\<forall>chr. match_char R p chr = Inr (chr \<in> S, p')" and step: "\<forall>c. step_set R c (p # s) = (if c \<in> S then nxt else {})"
      and nxt: "nxt \<noteq> {}" "\<forall>t \<in> nxt. good_stack R t \<and> terminal_stack R t" and ch: "char_element (elem R p)" unfolding char_step_def by blast+
    obtain next_stacks where ns: "advance_stack R (push_pos R p' s) [] = Inr next_stacks" "set next_stacks = nxt" using c unfolding char_step_def by blast
    let ?nx = "map gc_forward (filter (\<lambda>tok. gc_point tok \<noteq> 0 \<and> gc_point tok \<in> S) toks)"
    let ?rej = "filter (\<lambda>tok. if gc_point tok = 0 then \<not> final_ok R (gc_partial_utf8 tok) (p # s) else gc_point tok \<notin> S) toks"
    have "\<exists>rej. reject_with (reject_candidates_for_stack fuel R) next_stacks ?nx = Inr rej \<and> set rej = {tok \<in> set ?nx. \<forall>t \<in> set next_stacks. \<not> survives R t tok}"
    proof (rule reject_with_set)
      show "next_stacks \<noteq> []" using ns(2) nxt(1) by auto
      fix t toks' assume ne: "?nx \<noteq> []" and t: "t \<in> set next_stacks" and sub: "set toks' \<subseteq> set ?nx"
      have pts: "cand_ok tok' \<and> Suc (length (cand_points tok')) \<le> fuel" if "tok' \<in> set ?nx" for tok'
        using that less.prems(3) cand_forward by fastforce
      then obtain k where k: "fuel = Suc k" using ne by (cases fuel) (fastforce simp: filter_empty_conv)+
      then show "\<exists>rej. reject_candidates_for_stack fuel R t toks' = Inr rej \<and> set rej = {tok \<in> set toks'. \<not> survives R t tok}"
        using less.IH [of k t toks'] pts sub t ns(2) nxt(2) by fastforce
    qed
    then obtain nr where nr: "reject_with (reject_candidates_for_stack fuel R) next_stacks ?nx = Inr nr" "set nr = {tok \<in> set ?nx. \<forall>t \<in> set next_stacks. \<not> survives R t tok}" by blast
    have tk: "\<not> is_token_element (elem R p)" using token_free_elem [OF assms(2)] less.prems(1) Cons by simp
    have r: "reject_candidates_for_stack (Suc fuel) R st toks = Inr (?rej @ map gc_back nr)"
      using Cons tk m ns(1) nr(1) reject_char_fold [OF m ch, of toks "[]" "[]" s] by simp
    have bk: "gc_back ` set nr = {tok \<in> set toks. gc_point tok \<noteq> 0 \<and> gc_point tok \<in> S \<and> (\<forall>t \<in> nxt. \<not> survives R t (gc_forward tok))}"
    proof -
      have "set nr = gc_forward ` {tok \<in> set toks. gc_point tok \<noteq> 0 \<and> gc_point tok \<in> S \<and> (\<forall>t \<in> nxt. \<not> survives R t (gc_forward tok))}" using nr(2) ns(2) by auto
      then show ?thesis by (simp add: image_image)
    qed
    have k: "survives R st tok \<longleftrightarrow> (if gc_point tok = 0 then final_ok R (gc_partial_utf8 tok) (p # s) else gc_point tok \<in> S \<and> (\<exists>t \<in> nxt. survives R t (gc_forward tok)))" if "tok \<in> set toks" for tok
      using that less.prems(3) survives_zero [of tok R st] survives_step [of tok R st] step Cons by auto
    have "set (?rej @ map gc_back nr) = {tok \<in> set toks. \<not> survives R st tok}" using bk k by (auto split: if_splits)
    then show ?thesis using r by blast
  qed
qed

lemma longest_ge: "x \<in> set xs \<or> x \<le> m \<Longrightarrow> x \<le> fold max xs (m :: nat)"
proof (induction xs arbitrary: m)
  case (Cons y ys)
  have "x \<in> set ys \<or> x \<le> max y m" using Cons.prems by auto
  then show ?case using Cons.IH by simp
qed simp

lemma reject_candidates_set:
  assumes "closures_end R" "token_free R" "stacks_ok R stacks" "stacks \<noteq> []" "\<forall>tok \<in> set toks. cand_ok tok"
  shows "\<exists>rej. reject_candidates R stacks toks = Inr rej \<and> set rej = {tok \<in> set toks. \<forall>st \<in> set stacks. \<not> survives R st tok}"
  unfolding reject_candidates_def
proof (rule reject_with_set [OF assms(4)])
  fix st toks' assume st: "st \<in> set stacks" and sub: "set toks' \<subseteq> set toks"
  have "length (cand_points tok) \<le> fold max (map (length \<circ> gc_array) toks) 0" if "tok \<in> set toks" for tok
  proof -
    have "length (cand_points tok) \<le> length (gc_array tok)" unfolding cand_points_def by (rule order_trans [OF length_takeWhile_le]) simp
    then show ?thesis using longest_ge [of "length (gc_array tok)" "map (length \<circ> gc_array) toks" 0] that by fastforce
  qed
  then show "\<exists>rej. reject_candidates_for_stack (Suc (fold max (map (length \<circ> gc_array) toks) 0)) R st toks' = Inr rej \<and> set rej = {tok \<in> set toks'. \<not> survives R st tok}"
    using st sub assms(3,5) by (intro reject_for_stack_set [OF assms(1,2)]) (auto simp: stacks_ok_def)
qed

subsection \<open>Masked and accepted tokens\<close>

lemma accept_token_stack_after:
  assumes "closures_end R" "token_free R" "good_stack R st" "terminal_stack R st"
  shows "\<exists>out. accept_token_stack R tok points st new = Inr out \<and> set out = set new \<union> (if st = [] then {} else after R points st)"
proof (cases st)
  case Nil
  then show ?thesis by (simp add: accept_token_stack_def)
next
  case (Cons p s)
  have "\<not> is_token_element (elem R p)" using token_free_elem [OF assms(2)] assms(3) Cons by simp
  moreover obtain sv where "accept_points R points [st] = Inr sv" "set sv = after R points st" using accept_points_after [OF assms(1,2), of "[st]" points] assms(3,4) by auto
  ultimately show ?thesis using Cons by (auto simp: accept_token_stack_def set_fold_add_stack)
qed

lemma accept_token_after:
  assumes "closures_end (gr_rules g)" "token_free (gr_rules g)" "stacks_ok (gr_rules g) (gr_stacks g)" "decode_utf8 piece (gr_partial_utf8 g) = (points @ [0], partial)"
  shows "if (\<Union>st \<in> set (gr_stacks g) - {[]}. after (gr_rules g) points st) = {}
    then llama_grammar_accept_token g tok piece = Inl (RUNTIME_ERROR ''Unexpected empty grammar stack after accepting piece'') else \<exists>g'. llama_grammar_accept_token g tok piece = Inr g'"
proof -
  let ?R = "gr_rules g"
  have "\<exists>out. fold_res (accept_token_stack ?R tok points) sts new = Inr out \<and> set out = set new \<union> (\<Union>st \<in> set sts - {[]}. after ?R points st)" if "stacks_ok ?R sts" for sts new
    using that
  proof (induction sts arbitrary: new)
    case (Cons st sts)
    obtain mid where m: "accept_token_stack ?R tok points st new = Inr mid" "set mid = set new \<union> (if st = [] then {} else after ?R points st)"
      using accept_token_stack_after [OF assms(1,2), of st tok points new] Cons.prems by auto
    then show ?case using Cons.IH [of mid] Cons.prems by auto
  qed simp
  from this [OF assms(3), of "[]"] obtain out where o: "fold_res (accept_token_stack ?R tok points) (gr_stacks g) [] = Inr out" "set out = (\<Union>st \<in> set (gr_stacks g) - {[]}. after ?R points st)"
    by auto
  then show ?thesis by (cases out) (auto simp: llama_grammar_accept_token_def assms(4) simp flip: o(2))
qed

end
