(* ===== verification/Grammar_Apply.thy ===== *)
theory Grammar_Apply
  imports Grammar_Reject
begin

section \<open>The grammar sampler\<close>

text \<open>
  Properties of the operations the sampler calls: \<open>llama_grammar_apply_impl\<close> before a token is sampled, \<open>llama_grammar_accept_impl\<close> after it, and of the matching of incomplete characters.
\<close>

subsection \<open>What the decoder returns\<close>

lemma decode_seqs_shape:
  "\<exists>pts. fst (decode_seqs s v n cps) = pts @ [0] \<and> (cps \<noteq> [] \<or> \<not> at_end s \<longrightarrow> pu_n_remain (snd (decode_seqs s v n cps)) = 0 \<longrightarrow> pts \<noteq> [])"
proof (induction s v n cps rule: decode_seqs.induct)
  case (1 s v n cps)
  let ?n = "decode_lookup ! unat (drop_bit 4 (u8 (hd s))) - 1"
  let ?v = "ucast (u8 (hd s) AND (push_bit (7 - nat ?n) 1 - 1)) :: uint32"
  consider (fin) "at_end s" | (bad) "\<not> at_end s" "?n < 0" | (seq) "\<not> at_end s" "\<not> ?n < 0" by blast
  then show ?case
  proof cases
    case seq
    obtain s' v' n' where d: "decode_rest (tl s) ?v ?n = (s', v', n')" by (cases "decode_rest (tl s) ?v ?n") auto
    let ?cps = "if n' = 0 then cps @ [v'] else cps"
    have r: "decode_seqs s v n cps = decode_seqs s' v' n' ?cps" using seq d by (subst decode_seqs.simps) (simp add: Let_def)
    have IH: "\<exists>pts. fst (decode_seqs s' v' n' ?cps) = pts @ [0] \<and> (?cps \<noteq> [] \<or> \<not> at_end s' \<longrightarrow> pu_n_remain (snd (decode_seqs s' v' n' ?cps)) = 0 \<longrightarrow> pts \<noteq> [])"
      using 1 [OF seq(1) refl refl refl seq(2) refl refl] d by simp
    have "pu_n_remain (snd (decode_seqs s' v' n' ?cps)) = n'" if "at_end s'" using that by (subst decode_seqs.simps) simp
    then show ?thesis using IH unfolding r by (cases "at_end s'") auto
  qed (auto simp: decode_seqs.simps [of s] Let_def)
qed

lemma decode_utf8_shape:
  obtains pts where "fst (decode_utf8 s p) = pts @ [0]" "\<not> at_end s \<longrightarrow> pu_n_remain (snd (decode_utf8 s p)) = 0 \<longrightarrow> pts \<noteq> []"
proof (cases "decode_continue s (pu_value p) (pu_n_remain p)")
  case None
  then show ?thesis using that [of "[]"] by (simp add: decode_utf8_def)
next
  case (Some r)
  obtain s' v n where r: "r = (s', v, n)" by (cases r) auto
  let ?cps = "if pu_n_remain p > 0 \<and> n = 0 then [v] else []"
  have d: "decode_utf8 s p = decode_seqs s' v n ?cps" using Some r by (simp add: decode_utf8_def)
  have "\<not> at_end s \<Longrightarrow> pu_n_remain (snd (decode_seqs s' v n ?cps)) = 0 \<Longrightarrow> ?cps \<noteq> [] \<or> \<not> at_end s'"
  proof (rule ccontr)
    assume a: "\<not> at_end s" "pu_n_remain (snd (decode_seqs s' v n ?cps)) = 0" "\<not> (?cps \<noteq> [] \<or> \<not> at_end s')"
    then have "n = 0" by (subst (asm) decode_seqs.simps) simp
    moreover have "pu_n_remain p \<le> 0" using a(3) calculation by (auto split: if_splits)
    ultimately have "s' = s" using Some r by (subst (asm) decode_continue.simps) simp
    then show False using a by simp
  qed
  then show ?thesis using that decode_seqs_shape [of s' v n ?cps] unfolding d by blast
qed

subsection \<open>Apply and accept\<close>

definition masked :: "'f llama_token_data list \<Rightarrow> nat \<Rightarrow> bool" where
  "masked data i \<longleftrightarrow> td_logit (data ! i) = NEG_INFINITY"

lemma mask_logit_simps [simp]: "length (mask_logit data i) = length data" "j < length data \<Longrightarrow> td_id (mask_logit data i ! j) = td_id (data ! j)"
  "j < length data \<Longrightarrow> masked (mask_logit data i) j \<longleftrightarrow> masked data j \<or> i = j"
  by (cases "i < length data"; auto simp: mask_logit_def masked_def nth_list_update list_update_beyond)+

definition text_candidate :: "llama_vocab_i \<Rightarrow> llama_token \<Rightarrow> bool" where
  "text_candidate v t \<longleftrightarrow> \<not> is_eog v t \<and> \<not> at_end (token_to_piece v t)"

definition make_candidate :: "llama_vocab_i \<Rightarrow> llama_partial_utf8 \<Rightarrow> llama_token \<Rightarrow> nat \<Rightarrow> llama_grammar_candidate" where
  "make_candidate v p t i = (let d = decode_utf8 (token_to_piece v t) p in \<lparr>gc_index = i, gc_array = fst d, gc_offset = 0, gc_partial_utf8 = snd d, gc_id = t\<rparr>)"

lemma collect_fold:
  assumes "n \<le> length data" "fold (collect_step v p eog) [0..<n] (data, []) = (data', cands)"
  shows "length data' = length data \<and> (\<forall>j < length data. td_id (data' ! j) = td_id (data ! j)
      \<and> (masked data' j \<longleftrightarrow> masked data j \<or> j < n \<and> \<not> text_candidate v (td_id (data ! j)) \<and> \<not> (eog \<and> is_eog v (td_id (data ! j)))))
    \<and> set cands = (\<lambda>i. make_candidate v p (td_id (data ! i)) i) ` {i. i < n \<and> text_candidate v (td_id (data ! i))}"
  using assms
proof (induction n arbitrary: data' cands)
  case (Suc n)
  obtain d1 c1 where f: "fold (collect_step v p eog) [0..<n] (data, []) = (d1, c1)" by (cases "fold (collect_step v p eog) [0..<n] (data, [])") auto
  have n: "n < length data" using Suc.prems(1) by simp
  note IH = Suc.IH [OF _ f]
  have s: "collect_step v p eog n (d1, c1) = (data', cands)" using Suc.prems(2) f by simp
  have id: "td_id (d1 ! n) = td_id (data ! n)" "length d1 = length data" using IH n by auto
  have set: "{i. i < Suc n \<and> text_candidate v (td_id (data ! i))} = (if text_candidate v (td_id (data ! n)) then insert n else (\<lambda>S. S)) {i. i < n \<and> text_candidate v (td_id (data ! i))}"
    by (auto simp: less_Suc_eq)
  show ?case
  proof (cases "text_candidate v (td_id (data ! n))")
    case True
    then have "data' = d1" "cands = c1 @ [make_candidate v p (td_id (data ! n)) n]"
      using s id by (auto simp: collect_step_def text_candidate_def make_candidate_def Let_def split_beta)
    then show ?thesis unfolding set using IH True n by (auto simp: less_Suc_eq)
  next
    case False
    then have "cands = c1" "data' = (if eog \<and> is_eog v (td_id (data ! n)) then d1 else mask_logit d1 n)"
      using s id by (auto simp: collect_step_def text_candidate_def Let_def split: if_splits)
    then show ?thesis unfolding set using IH False n id(2) by (auto simp: less_Suc_eq)
  qed
qed simp

lemma fold_mask:
  "length (fold (\<lambda>r data. mask_logit data (gc_index r)) rs data) = length data
   \<and> (\<forall>j < length data. masked (fold (\<lambda>r data. mask_logit data (gc_index r)) rs data) j \<longleftrightarrow> masked data j \<or> j \<in> gc_index ` set rs)"
  by (induction rs arbitrary: data) auto

text \<open>A candidate is complete when it ends the generation or when its text does not stop inside a character.\<close>

definition complete :: "llama_vocab_i \<Rightarrow> llama_partial_utf8 \<Rightarrow> llama_token \<Rightarrow> bool" where
  "complete v p t \<longleftrightarrow> is_eog v t \<or> text_candidate v t \<and> pu_n_remain (snd (decode_utf8 (token_to_piece v t) p)) = 0"

lemma make_candidate_ok: "cand_ok (make_candidate v p t i)"
proof -
  obtain pts where "fst (decode_utf8 (token_to_piece v t) p) = pts @ [0]" by (rule decode_utf8_shape)
  then show ?thesis by (simp add: cand_ok_def make_candidate_def Let_def)
qed

lemma text_survives:
  assumes "closures_end (gr_rules g)" "token_free (gr_rules g)" "stacks_ok (gr_rules g) (gr_stacks g)" "text_candidate v t"
    and "0 \<notin> set (butlast (fst (decode_utf8 (token_to_piece v t) (gr_partial_utf8 g))))"
  shows "(\<exists>st \<in> set (gr_stacks g). survives (gr_rules g) st (make_candidate v (gr_partial_utf8 g) t i)) \<Longrightarrow> \<exists>g'. llama_grammar_accept_token g t (token_to_piece v t) = Inr g'"
    and "complete v (gr_partial_utf8 g) t \<Longrightarrow> \<not> (\<exists>st \<in> set (gr_stacks g). survives (gr_rules g) st (make_candidate v (gr_partial_utf8 g) t i))
      \<Longrightarrow> llama_grammar_accept_token g t (token_to_piece v t) = Inl (RUNTIME_ERROR ''Unexpected empty grammar stack after accepting piece'')"
proof -
  let ?R = "gr_rules g" and ?d = "decode_utf8 (token_to_piece v t) (gr_partial_utf8 g)"
  obtain pts where p: "fst ?d = pts @ [0]" "pu_n_remain (snd ?d) = 0 \<longrightarrow> pts \<noteq> []"
    using decode_utf8_shape [of "token_to_piece v t" "gr_partial_utf8 g"] assms(4) by (auto simp: text_candidate_def)
  have z: "0 \<notin> set pts" using assms(5) p(1) by simp
  have tw: "takeWhile (\<lambda>c. c \<noteq> 0) (pts @ [0]) = pts" using z by (induction pts) auto
  have c: "cand_points (make_candidate v (gr_partial_utf8 g) t i) = pts" "gc_partial_utf8 (make_candidate v (gr_partial_utf8 g) t i) = snd ?d"
    using p(1) tw by (simp_all add: cand_points_def make_candidate_def Let_def)
  have k: "survives ?R st (make_candidate v (gr_partial_utf8 g) t i) \<longleftrightarrow> (\<exists>u \<in> after ?R pts st. final_ok ?R (snd ?d) u)" for st by (simp add: survives_def c)
  have empty: "\<not> survives ?R [] (make_candidate v (gr_partial_utf8 g) t i)"
    using p(2) by (cases pts) (auto simp: k final_ok_def accept_chr_Nil)
  have d: "?d = (pts @ [0], snd ?d)" using p(1) by (metis prod.collapse)
  note acc = accept_token_after [OF assms(1-3) d, of t]
  show "\<exists>g'. llama_grammar_accept_token g t (token_to_piece v t) = Inr g'" if e: "\<exists>st \<in> set (gr_stacks g). survives ?R st (make_candidate v (gr_partial_utf8 g) t i)"
  proof -
    obtain st where st: "st \<in> set (gr_stacks g)" "survives ?R st (make_candidate v (gr_partial_utf8 g) t i)" using e by blast
    then have "st \<noteq> []" "after ?R pts st \<noteq> {}" using empty by (auto simp: k)
    then have "(\<Union>st \<in> set (gr_stacks g) - {[]}. after ?R pts st) \<noteq> {}" using st(1) by auto
    then show ?thesis using acc by (simp split: if_splits)
  qed
  assume "complete v (gr_partial_utf8 g) t" and n: "\<not> (\<exists>st \<in> set (gr_stacks g). survives ?R st (make_candidate v (gr_partial_utf8 g) t i))"
  then have "pu_n_remain (snd ?d) = 0" using assms(4) by (auto simp: complete_def text_candidate_def)
  then have "(\<Union>st \<in> set (gr_stacks g) - {[]}. after ?R pts st) = {}" using n by (auto simp: k final_ok_def)
  then show "llama_grammar_accept_token g t (token_to_piece v t) = Inl (RUNTIME_ERROR ''Unexpected empty grammar stack after accepting piece'')" using acc by simp
qed

text \<open>C10. On a grammar without token elements, \<open>llama_grammar_apply_impl\<close> returns, and a token it leaves unmasked is accepted by \<open>llama_grammar_accept_impl\<close>; a token it masks is refused by it, unless
  its text stops inside a character or is empty.\<close>

theorem apply_agrees_with_accept:
  assumes "wf_rules (gr_rules g)" "nullable_is_direct (gr_rules g)" "left_recursive (gr_rules g) = Inr False" "token_free (gr_rules g)"
    and "stacks_ok (gr_rules g) (gr_stacks g)" "gr_stacks g \<noteq> []" "\<not> gr_awaiting_trigger g"
    and "\<forall>t. 0 \<notin> set (butlast (fst (decode_utf8 (token_to_piece v t) (gr_partial_utf8 g))))"
  shows "\<exists>data'. llama_grammar_apply_impl (Some v) g data = Inr data' \<and> length data' = length data
    \<and> (\<forall>i < length data. \<not> masked data' i \<longrightarrow> (\<exists>g'. llama_grammar_accept_impl find_pattern (Some v) (td_id (data ! i)) g = Inr g'))
    \<and> (\<forall>i < length data. \<not> masked data i \<and> masked data' i \<and> complete v (gr_partial_utf8 g) (td_id (data ! i)) \<longrightarrow> (\<exists>e. llama_grammar_accept_impl find_pattern (Some v) (td_id (data ! i)) g = Inl e))"
proof -
  let ?R = "gr_rules g" and ?eog = "[] \<in> set (gr_stacks g)" and ?c = "\<lambda>i. make_candidate v (gr_partial_utf8 g) (td_id (data ! i)) i"
  have ce: "closures_end ?R" using assms(1-3) by (rule closures_endI)
  obtain d1 cands where f: "fold (collect_step v (gr_partial_utf8 g) ?eog) [0..<length data] (data, []) = (d1, cands)" 
    by (cases "fold (collect_step v (gr_partial_utf8 g) ?eog) [0..<length data] (data, [])")
  note col = collect_fold [OF order_refl f]
  have gi: "gc_index (?c i) = i" for i by (simp add: make_candidate_def Let_def)
  have "cand_ok (?c i)" for i by (rule make_candidate_ok)
  then have "\<forall>tok \<in> set cands. cand_ok tok" using col by auto
  then obtain rej where r: "reject_candidates ?R (gr_stacks g) cands = Inr rej" "set rej = {tok \<in> set cands. \<forall>st \<in> set (gr_stacks g). \<not> survives ?R st tok}"
    using reject_candidates_set [OF ce assms(4-6)] by blast
  let ?d = "fold (\<lambda>r data. mask_logit data (gc_index r)) rej d1"
  have app: "llama_grammar_apply_impl (Some v) g data = Inr ?d" using assms(7) f r(1) by (simp add: llama_grammar_apply_impl_def)
  have idx: "i \<in> gc_index ` set rej \<longleftrightarrow> text_candidate v (td_id (data ! i)) \<and> (\<forall>st \<in> set (gr_stacks g). \<not> survives ?R st (?c i))" if "i < length data" for i
  proof
    assume "i \<in> gc_index ` set rej"
    then obtain j where "j < length data" "text_candidate v (td_id (data ! j))" "\<forall>st \<in> set (gr_stacks g). \<not> survives ?R st (?c j)" "i = gc_index (?c j)" using r(2) col by fastforce
    then show "text_candidate v (td_id (data ! i)) \<and> (\<forall>st \<in> set (gr_stacks g). \<not> survives ?R st (?c i))" using gi by simp
  next
    assume a: "text_candidate v (td_id (data ! i)) \<and> (\<forall>st \<in> set (gr_stacks g). \<not> survives ?R st (?c i))"
    then have "?c i \<in> set cands" using col that by blast
    then have "?c i \<in> set rej" using a r(2) by blast
    then show "i \<in> gc_index ` set rej" using gi by (metis imageI)
  qed
  have m: "masked ?d i \<longleftrightarrow> masked data i \<or> (if text_candidate v (td_id (data ! i)) then \<forall>st \<in> set (gr_stacks g). \<not> survives ?R st (?c i) else \<not> (?eog \<and> is_eog v (td_id (data ! i))))"
    if "i < length data" for i
    using fold_mask [of rej d1] col idx [OF that] that by auto
  have tk: "\<exists>g'. llama_grammar_accept_impl find_pattern (Some v) (td_id (data ! i)) g = Inr g'" if "i < length data" "\<not> masked ?d i" for i
    using m [OF that(1)] that(2) text_survives(1) [OF ce assms(4,5) _ spec [OF assms(8)], of "td_id (data ! i)" i] assms(7)
    by (auto simp: llama_grammar_accept_impl_def text_candidate_def Let_def split: if_splits)
  have tr: "\<exists>e. llama_grammar_accept_impl find_pattern (Some v) (td_id (data ! i)) g = Inl e"
    if "i < length data" "\<not> masked data i" "masked ?d i" "complete v (gr_partial_utf8 g) (td_id (data ! i))" for i
    using m [OF that(1)] that(2-4) text_survives(2) [OF ce assms(4,5) _ spec [OF assms(8)], of "td_id (data ! i)" i] assms(7)
    by (auto simp: llama_grammar_accept_impl_def text_candidate_def complete_def Let_def split: if_splits)
  show ?thesis using app tk tr fold_mask [of rej d1] col by (intro exI [of _ ?d]) auto
qed

end
