(* ===== verification/Grammar_Props.thy ===== *)
theory Grammar_Props
  imports Grammar_Apply
begin

section \<open>Properties of the grammar engine\<close>

text \<open>
  The statements about whole runs of the engine: what the stacks mean, that the operations return, how tokens are accepted, and how incomplete characters are matched; and the places where the
  code does not do what it says.
\<close>

subsection \<open>Incomplete characters\<close>

fun ordered_class :: "llama_grammar_rule \<Rightarrow> bool" where
  "ordered_class [] \<longleftrightarrow> True"
| "ordered_class [e] \<longleftrightarrow> True"
| "ordered_class (e # u # es) \<longleftrightarrow> (ge_type u = LLAMA_GRETYPE_CHAR_RNG_UPPER \<longrightarrow> ge_value e \<le> ge_value u) \<and> ordered_class (u # es)"

lemma match_partial_class:
  assumes "wf_elems n prev (e # es)" "ge_type e \<in> {LLAMA_GRETYPE_CHAR, LLAMA_GRETYPE_CHAR_NOT, LLAMA_GRETYPE_CHAR_ALT}" "ordered_class (e # es)" "low \<le> high"
  shows "match_partial_alts (e # es) positive low high \<longleftrightarrow> (positive \<longleftrightarrow> (\<exists>c \<in> class_set (e # es). low \<le> c \<and> c \<le> high))"
  using assms(1-3)
proof (induction "length es" arbitrary: e es prev rule: less_induct)
  case less
  from less.prems have w: "wf_elems n (ge_type e) es" by (auto split: if_splits)
  then obtain u es' where es: "es = u # es'" by (cases es) auto
  show ?case
  proof (cases "ge_type u = LLAMA_GRETYPE_CHAR_RNG_UPPER")
    case True
    then have w': "wf_elems n LLAMA_GRETYPE_CHAR_RNG_UPPER es'" using w es by simp
    then obtain v es'' where es': "es' = v # es''" by (cases es') auto
    have o: "ge_value e \<le> ge_value u" "ordered_class es'" using less.prems(3) True es es' by auto
    have "ge_value e \<le> high \<and> low \<le> ge_value u \<longleftrightarrow> (\<exists>c \<in> {ge_value e .. ge_value u}. low \<le> c \<and> c \<le> high)"
      using o(1) assms(4) by (auto intro!: bexI [of _ "max low (ge_value e)"] dest: order_trans)
    then show ?thesis using less.hyps [of es'' LLAMA_GRETYPE_CHAR_RNG_UPPER v] w' True o(2)
      by (cases "ge_type v = LLAMA_GRETYPE_CHAR_ALT") (auto simp: match_partial_alts.simps(2) [of e] es es' next_is_def)
  next
    case rng: False
    have o: "ordered_class es" using less.prems(3) es by auto
    then show ?thesis using less.hyps [of es' "ge_type e" u] w rng less.prems(2)
      by (cases "ge_type u = LLAMA_GRETYPE_CHAR_ALT") (auto simp: match_partial_alts.simps(2) [of e] es next_is_def)
  qed
qed

definition matches :: "llama_grammar_rules \<Rightarrow> element_pos \<Rightarrow> uint32 \<Rightarrow> bool" where
  "matches R p chr = (case match_char R p chr of Inr (True, _) \<Rightarrow> True | _ \<Rightarrow> False)"

lemma partial_low_le_high: "partial_low v n \<le> partial_high v n" if "0 < n" "n \<le> 3"
proof -
  have n: "n = 1 \<or> n = 2 \<or> n = 3" using that by auto
  show ?thesis
  proof (cases "push_bit (nat n * 6) v = 0")
    case True
    then show ?thesis using n by (auto simp: partial_low_def partial_high_def Let_def)
  next
    case False
    then show ?thesis by (simp add: partial_low_def partial_high_def Let_def le_word_or2)
  qed
qed

lemma partial_char_class:
  assumes "wf_rules R" "good_pos R p" "ge_type (elem R p) \<in> {LLAMA_GRETYPE_CHAR, LLAMA_GRETYPE_CHAR_NOT}" "ordered_class (rest R p)"
    and "0 < pu_n_remain q" "pu_n_remain q \<le> 3" "\<not> (pu_n_remain q = 1 \<and> pu_value q < 2)"
    and "low = partial_low (pu_value q) (pu_n_remain q)" "high = partial_high (pu_value q) (pu_n_remain q)"
  shows "match_partial_char R p q = Inr (is_positive_char (elem R p) \<longleftrightarrow> (\<exists>c \<in> class_set (rest R p). low \<le> c \<and> c \<le> high))"
proof -
  obtain prev where w: "wf_elems (length R) prev (rest R p)" by (rule wf_good_rest [OF assms(1,2)])
  have lh: "low \<le> high" using partial_low_le_high [OF assms(5,6)] assms(8,9) by simp
  have "match_partial_alts (rest R p) (is_positive_char (elem R p)) low high \<longleftrightarrow> (is_positive_char (elem R p) \<longleftrightarrow> (\<exists>c \<in> class_set (rest R p). low \<le> c \<and> c \<le> high))"
    unfolding good_rest [OF assms(2)] using w assms(3,4) by (intro match_partial_class [OF _ _ _ lh]) (simp_all only: good_rest [OF assms(2)], auto)
  then show ?thesis using assms(3,5,7-9) by (auto simp: match_partial_char_def Let_def is_positive_char_def)
qed

text \<open>The code points an incomplete sequence can become: those that the decoder gives when the missing continuation bytes follow. \<open>shortest\<close> is the least code point whose encoding needs so
  many further bytes; smaller ones would be overlong.\<close>

definition completions :: "llama_partial_utf8 \<Rightarrow> uint32 set" where
  "completions q = {c. \<exists>cs. int (length cs) = pu_n_remain q \<and> (\<forall>b \<in> set cs. drop_bit 6 (u8 b) = 2) \<and> fst (decode_utf8 cs q) = [c, 0]}"

definition shortest :: "int \<Rightarrow> uint32" where
  "shortest n = (if n = 1 then 0x80 else if n = 2 then 0x800 else 0x10000)"

lemma cont_not_NUL: "drop_bit 6 (u8 b) = 2 \<Longrightarrow> b \<noteq> NUL"
  by (auto simp: u8_def)

lemma feeds_cont:
  assumes "\<forall>b \<in> set cs. drop_bit 6 (u8 b) = 2" "cs \<noteq> []"
  shows "feeds_ok \<lparr>pu_value = v, pu_n_remain = int (length cs)\<rparr> cs \<and> feeds \<lparr>pu_value = v, pu_n_remain = int (length cs)\<rparr> cs
    = ([foldl shift_in v cs], \<lparr>pu_value = foldl shift_in v cs, pu_n_remain = 0\<rparr>)"
  using assms
proof (induction cs arbitrary: v)
  case (Cons b cs)
  then show ?case by (cases cs) (simp_all add: feed_cont byte_ok_def cont_not_NUL)
qed simp

lemma completions_foldl:
  assumes "0 < n"
  shows "completions \<lparr>pu_value = v, pu_n_remain = int n\<rparr> = {foldl shift_in v cs |cs. length cs = n \<and> (\<forall>b \<in> set cs. drop_bit 6 (u8 b) = 2)}"
proof -
  have "fst (decode_utf8 cs \<lparr>pu_value = v, pu_n_remain = int n\<rparr>) = [foldl shift_in v cs, 0]" if "length cs = n" "\<forall>b \<in> set cs. drop_bit 6 (u8 b) = 2" for cs
  proof -
    have "cs \<noteq> []" using that(1) assms by auto
    then show ?thesis using feeds_cont [OF that(2), of v] that(1) by (simp add: decode_utf8_feeds)
  qed
  then show ?thesis unfolding completions_def by auto
qed

text \<open>Each continuation byte brings six bits.\<close>

lemma foldl_shift_bits:
  "bit (foldl shift_in v cs) (6 * length cs + i) \<longleftrightarrow> bit v i \<and> 6 * length cs + i < 32"
proof (induction cs arbitrary: i rule: rev_induct)
  case Nil
  show ?case using bit_imp_le_length by fastforce
next
  case (snoc b cs)
  have "bit (shift_in w b) (6 + k) \<longleftrightarrow> bit w k \<and> 6 + k < 32" for w k
    unfolding shift_in_or byte_masks by (auto simp: bit_simps)
  from this [of "foldl shift_in v cs" "6 * length cs + i"] snoc.IH [of i] show ?case by (auto simp: algebra_simps)
qed

lemma foldl_shift_surj:
  assumes "\<And>i. bit c (6 * n + i) \<longleftrightarrow> bit v i" "\<And>i. bit v i \<Longrightarrow> 6 * n + i < 32"
  shows "\<exists>cs. length cs = n \<and> (\<forall>b \<in> set cs. drop_bit 6 (u8 b) = 2) \<and> foldl shift_in v cs = c"
  using assms
proof (induction n arbitrary: c)
  case 0
  have "foldl shift_in v [] = c" using 0(1) by (auto intro: bit_eqI)
  then show ?case by (intro exI [of _ "[]"]) simp
next
  case (Suc n)
  have "bit (drop_bit 6 c) (6 * n + i) \<longleftrightarrow> bit v i" for i using Suc.prems(1) [of i] by (simp add: bit_drop_bit_eq algebra_simps)
  moreover have "6 * n + i < 32" if "bit v i" for i using Suc.prems(2) [OF that] by simp
  ultimately obtain cs where cs: "length cs = n" "\<forall>b \<in> set cs. drop_bit 6 (u8 b) = 2" "foldl shift_in v cs = drop_bit 6 c" using Suc.IH by blast
  let ?b = "byte (0x80 OR (c AND 0x3f))"
  have "u8 ?b = 0x80 OR (ucast c AND 0x3f)" by (simp add: u8_byte unsigned_or_eq unsigned_and_eq)
  then have "drop_bit 6 (u8 ?b) = 2" by (simp add: cont_byte(1))
  moreover have "foldl shift_in v (cs @ [?b]) = c" by (simp add: cs(3) shift_in_cont join_bits)
  ultimately show ?case using cs(1,2) by (intro exI [of _ "cs @ [?b]"]) simp
qed

lemma interval_bits:
  fixes c v :: uint32
  assumes "m < 32"
  shows "push_bit m v \<le> c \<and> c \<le> push_bit m v OR mask m \<longleftrightarrow> (\<forall>i. bit c (m + i) \<longleftrightarrow> bit v i \<and> m + i < 32)"
proof -
  let ?l = "push_bit m v" and ?h = "push_bit m v OR mask m"
  have dl: "drop_bit m ?h = drop_bit m ?l" by (auto simp: bit_eq_iff bit_simps)
  have th: "take_bit m ?h = mask m" "take_bit m ?l = 0" by (auto simp: bit_eq_iff bit_simps)
  have split: "unat x = unat (drop_bit m x) * 2 ^ m + unat (take_bit m x)" for x :: uint32
    unfolding unat_drop_bit_eq unsigned_take_bit_eq unfolding drop_bit_eq_div take_bit_eq_mod by (rule div_mult_mod_eq [symmetric])
  have lt: "unat (take_bit m x) < 2 ^ m" for x :: uint32 unfolding unsigned_take_bit_eq by (rule take_bit_nat_less_exp)
  have mk: "unat (mask m :: uint32) = 2 ^ m - 1"
  proof -
    have "unat (mask m :: uint32) = unat (take_bit m (- 1) :: uint32)" by (simp add: take_bit_minus_one_eq_mask)
    also have "\<dots> = take_bit m (mask 32)" unfolding unsigned_take_bit_eq by (simp add: unsigned_minus_1_eq_mask)
    also have "take_bit m (mask 32 :: nat) = mask m" unfolding take_bit_of_mask using assms by (simp only: min_def less_imp_le if_True)
    finally show ?thesis by (simp only: mask_nat_def)
  qed
  define k where "k = unat (drop_bit m ?l) * 2 ^ m"
  have ul: "unat ?l = k" using split [of ?l] unfolding th(2) k_def by (simp only: unsigned_0 add_0_right)
  have uh: "unat ?h = k + (2 ^ m - 1)" using split [of ?h] by (simp only: th(1) dl mk k_def)
  have z: "0 < (2 :: nat) ^ m" by simp
  have div_range: "a * 2 ^ m \<le> unat c \<and> unat c < Suc a * 2 ^ m \<longleftrightarrow> unat (drop_bit m c) = a" for a
  proof
    assume "a * 2 ^ m \<le> unat c \<and> unat c < Suc a * 2 ^ m"
    then show "unat (drop_bit m c) = a" unfolding unat_drop_bit_eq unfolding drop_bit_eq_div by (auto intro!: div_nat_eqI simp: mult.commute)
  next
    assume a: "unat (drop_bit m c) = a"
    show "a * 2 ^ m \<le> unat c \<and> unat c < Suc a * 2 ^ m" using split [of c] lt [of c] unfolding a mult_Suc by linarith
  qed
  have "?l \<le> c \<and> c \<le> ?h \<longleftrightarrow> k \<le> unat c \<and> unat c < 2 ^ m + k" unfolding word_le_nat_alt ul uh using z by linarith
  also have "\<dots> \<longleftrightarrow> unat (drop_bit m ?l) * 2 ^ m \<le> unat c \<and> unat c < Suc (unat (drop_bit m ?l)) * 2 ^ m" by (simp only: k_def mult_Suc)
  also have "\<dots> \<longleftrightarrow> unat (drop_bit m c) = unat (drop_bit m ?l)" by (rule div_range)
  also have "\<dots> \<longleftrightarrow> (\<forall>i. bit c (m + i) \<longleftrightarrow> bit v i \<and> m + i < 32)"
    by (auto simp: bit_eq_iff bit_simps)
  finally show ?thesis .
qed

lemma completions_interval:
  assumes "0 < n" "n \<le> 3" "unat v < 2 ^ (22 - 6 * n)"
  shows "c \<in> completions \<lparr>pu_value = v, pu_n_remain = int n\<rparr> \<longleftrightarrow> push_bit (6 * n) v \<le> c \<and> c \<le> push_bit (6 * n) v OR mask (6 * n)"
proof -
  have b: "6 * n + i < 32" if "bit v i" for i
  proof -
    have "unat (take_bit (22 - 6 * n) v) = unat v" unfolding unsigned_take_bit_eq using assms(3) by (simp add: take_bit_eq_mod)
    then have "take_bit (22 - 6 * n) v = v" by (simp add: word_eq_iff_unsigned [where 'a = nat])
    then have "i < 22 - 6 * n" using that by (metis bit_take_bit_iff)
    then show ?thesis by linarith
  qed
  have "c \<in> completions \<lparr>pu_value = v, pu_n_remain = int n\<rparr> \<longleftrightarrow> (\<forall>i. bit c (6 * n + i) \<longleftrightarrow> bit v i)"
  proof
    assume "c \<in> completions \<lparr>pu_value = v, pu_n_remain = int n\<rparr>"
    then obtain cs where "length cs = n" "c = foldl shift_in v cs" by (auto simp: completions_foldl [OF assms(1)])
    then show "\<forall>i. bit c (6 * n + i) \<longleftrightarrow> bit v i" using foldl_shift_bits [of v cs] b by auto
  next
    assume "\<forall>i. bit c (6 * n + i) \<longleftrightarrow> bit v i"
    then show "c \<in> completions \<lparr>pu_value = v, pu_n_remain = int n\<rparr>" using foldl_shift_surj [of c n v] b by (auto simp: completions_foldl [OF assms(1)])
  qed
  also have "\<dots> \<longleftrightarrow> push_bit (6 * n) v \<le> c \<and> c \<le> push_bit (6 * n) v OR mask (6 * n)"
    using interval_bits [of "6 * n" v c] assms(2) b by auto
  finally show ?thesis .
qed

lemma completions_range:
  assumes "0 < pu_n_remain q" "pu_n_remain q \<le> 3" "unat (pu_value q) < 2 ^ (22 - 6 * nat (pu_n_remain q))"
  shows "c \<in> completions q \<and> shortest (pu_n_remain q) \<le> c \<longleftrightarrow> \<not> (pu_n_remain q = 1 \<and> pu_value q < 2)
    \<and> partial_low (pu_value q) (pu_n_remain q) \<le> c \<and> c \<le> partial_high (pu_value q) (pu_n_remain q)"
proof -
  obtain v n where q: "q = \<lparr>pu_value = v, pu_n_remain = int n\<rparr>" "0 < n" "n \<le> 3" "unat v < 2 ^ (22 - 6 * n)"
    using assms by (cases q) (metis llama_partial_utf8.select_convs nat_0_le less_imp_le of_nat_0_less_iff of_nat_le_iff of_nat_numeral nat_int)
  have h: "partial_high v (int n) = push_bit (6 * n) v OR mask (6 * n)" by (simp add: partial_high_def mask_eq_exp_minus_1 push_bit_of_1 mult.commute)
  have u: "unat (push_bit (6 * n) v) = unat v * 2 ^ (6 * n)"
  proof -
    have "unat v * 2 ^ (6 * n) < 2 ^ (22 - 6 * n) * 2 ^ (6 * n)" using q(4) by simp
    also have "\<dots> = 2 ^ 22" using q(3) by (simp flip: power_add)
    finally have "unat v * 2 ^ (6 * n) < 2 ^ 32" by simp
    then show ?thesis unfolding unsigned_push_bit_eq unfolding push_bit_eq_mult take_bit_eq_mod by simp
  qed
  note ci = completions_interval [OF q(2-4), of c]
  consider "n = 1" | "n = 2" | "n = 3" using q(2,3) by linarith
  then show ?thesis
  proof cases
    case 1
    have "push_bit 6 v OR mask 6 \<le> 0x7f" if "v < 2"
    proof -
      have "v = 0 \<or> v = 1" using that by unat_arith
      then show ?thesis by (auto simp: mask_eq_exp_minus_1)
    qed
    moreover have "0x80 \<le> push_bit 6 v" if "\<not> v < 2" using u 1 that by (simp add: word_le_nat_alt word_less_nat_alt)
    moreover have "\<not> (0x80 \<le> c \<and> c \<le> 0x7f)" by unat_arith
    ultimately show ?thesis using ci 1 h order_trans [of c "push_bit 6 v OR mask 6" "0x7f"] by (cases "v < 2") (auto simp: q(1) shortest_def partial_low_def Let_def)
  next
    case 2
    have "0x800 \<le> push_bit 12 v" if "push_bit 12 v \<noteq> 0" using u 2 that unat_eq_0 [of v] by (cases "unat v") (simp_all add: word_le_nat_alt)
    then show ?thesis using ci 2 h by (auto simp: q(1) shortest_def partial_low_def Let_def)
  next
    case 3
    have "0x10000 \<le> push_bit 18 v" if "push_bit 18 v \<noteq> 0" using u 3 that unat_eq_0 [of v] by (cases "unat v") (simp_all add: word_le_nat_alt)
    then show ?thesis using ci 3 h by (auto simp: q(1) shortest_def partial_low_def Let_def)
  qed
qed

lemma matches_class:
  assumes "wf_rules R" "good_pos R p" "ge_type (elem R p) \<in> {LLAMA_GRETYPE_CHAR, LLAMA_GRETYPE_CHAR_NOT}"
  shows "matches R p c \<longleftrightarrow> (c \<in> class_set (rest R p) \<longleftrightarrow> ge_type (elem R p) = LLAMA_GRETYPE_CHAR)"
proof -
  have ch: "char_element (elem R p)" using assms(3) by (auto simp: char_element_def)
  obtain S p' where S: "head_sym (rest R p) = Cls S" "\<forall>chr. match_char R p chr = Inr (chr \<in> S, p')" using match_char_class [OF assms(1,2) ch] by metis
  then have "matches R p c \<longleftrightarrow> c \<in> S" by (simp add: matches_def split: bool.splits)
  moreover have "S = (if ge_type (elem R p) = LLAMA_GRETYPE_CHAR then class_set (rest R p) else - class_set (rest R p))"
    using S(1) assms(3) by (auto simp: head_sym_def good_rest [OF assms(2)])
  ultimately show ?thesis by auto
qed

text \<open>C32. On the first bytes of a character, \<open>match_partial_char\<close> at a positive class whose ranges are in order is true exactly when some code point that the missing bytes can complete, and that is not
  overlong, matches the class. At an inverted class with ranges in order it is true only when such a code point exists. The value is one that the decoder can leave behind (at most 22 bits less six per missing byte).\<close>

theorem partial_char_ranges:
  assumes "wf_rules R" "good_pos R p" "ge_type (elem R p) \<in> {LLAMA_GRETYPE_CHAR, LLAMA_GRETYPE_CHAR_NOT}" "ordered_class (rest R p)"
    and "0 < pu_n_remain q" "pu_n_remain q \<le> 3" "unat (pu_value q) < 2 ^ (22 - 6 * nat (pu_n_remain q))"
  shows "\<exists>b. match_partial_char R p q = Inr b
    \<and> (ge_type (elem R p) = LLAMA_GRETYPE_CHAR \<longrightarrow> b = (\<exists>c \<in> completions q. shortest (pu_n_remain q) \<le> c \<and> matches R p c))
    \<and> (b \<longrightarrow> (\<exists>c \<in> completions q. shortest (pu_n_remain q) \<le> c \<and> matches R p c))"
proof -
  let ?lo = "partial_low (pu_value q) (pu_n_remain q)" and ?hi = "partial_high (pu_value q) (pu_n_remain q)"
  note rg = completions_range [OF assms(5-7)] and mt = matches_class [OF assms(1-3)]
  show ?thesis
  proof (cases "pu_n_remain q = 1 \<and> pu_value q < 2")
    case True
    then have "match_partial_char R p q = Inr False" using assms(3) by (auto simp: match_partial_char_def is_positive_char_def Let_def)
    then show ?thesis using rg True by auto
  next
    case False
    have le: "?lo \<le> ?hi" by (rule partial_low_le_high [OF assms(5,6)])
    have "(\<exists>c \<in> completions q. shortest (pu_n_remain q) \<le> c \<and> matches R p c) \<longleftrightarrow> (\<exists>c. ?lo \<le> c \<and> c \<le> ?hi \<and> matches R p c)" using rg False by blast
    moreover have "match_partial_char R p q = Inr (is_positive_char (elem R p) \<longleftrightarrow> (\<exists>c \<in> class_set (rest R p). ?lo \<le> c \<and> c \<le> ?hi))"
      by (rule partial_char_class [OF assms(1-6) False refl refl])
    ultimately show ?thesis using assms(3) le mt by (auto simp: is_positive_char_def)
  qed
qed

subsection \<open>The stacks are the completions\<close>

text \<open>C9. After initialisation from a table of rules and any number of accepted code points, the inputs the stacks can still read are exactly the completions of what has been read to a sentence of
  the start rule; an empty stack is present exactly when what has been read is a sentence.\<close>

theorem grammar_stacks_are_completions:
  assumes "wf_rules (map copy_rule rules)" "start < length rules" "llama_grammar_init_rules rules start = Inr (Some g)"
    and "fold_res (\<lambda>c g. llama_grammar_accept g c) cps g = Inr g'"
  shows "lang (gr_rules g') (gr_stacks g') = {w. gen (map copy_rule rules) [Ref start] (map Code cps @ w)}
    \<and> ([] \<in> set (gr_stacks g') \<longleftrightarrow> gen (map copy_rule rules) [Ref start] (map Code cps))"
proof -
  let ?R = "map copy_rule rules"
  obtain stacks where s: "init_stacks ?R start = Inr stacks" "gr_rules g = ?R" "gr_stacks g = stacks"
    using assms(3) by (auto simp: llama_grammar_init_rules_def Let_def new_grammar_def bind_res_Inr_iff split: if_splits)
  have i: "stacks_ok ?R stacks \<and> lang ?R stacks = {w. gen ?R [Ref start] w}" using init_stacks_lang [OF assms(1) _ s(1)] assms(2) by simp
  have a: "gr_rules g' = ?R" "stacks_ok ?R (gr_stacks g')" "lang ?R (gr_stacks g') = {w. map Code cps @ w \<in> lang ?R stacks}"
    using accept_lang [of g cps g'] assms(1,4) s i by auto
  then show ?thesis using i empty_lang_iff [OF a(2)] by auto
qed

text \<open>C11. If every rule that derives the empty string has an empty alternative of its own, initialisation always returns, and when it gives a grammar, every sequence of code points can be accepted:
  no assertion fails and no loop runs forever.\<close>

theorem grammar_operations_return:
  assumes "wf_rules (map copy_rule rules)" "nullable_is_direct (map copy_rule rules)" "start < length rules"
  shows "\<exists>r. (llama_grammar_init_rules rules start :: 'pat llama_grammar option res) = Inr r
    \<and> (\<forall>g cps. r = Some g \<longrightarrow> (\<exists>g'. fold_res (\<lambda>c g. llama_grammar_accept g c) cps g = Inr g'))"
proof -
  let ?R = "map copy_rule rules"
  obtain left where l: "left_recursive ?R = Inr left" using left_recursive_total [OF assms(1)] by blast
  show ?thesis
  proof (cases "refs_defined ?R \<and> \<not> left")
    case False
    then show ?thesis using l by (auto simp: llama_grammar_init_rules_def Let_def)
  next
    case True
    then have ce: "closures_end ?R" using closures_endI [OF assms(1,2)] l by simp
    obtain stacks where s: "init_stacks ?R start = Inr stacks" using init_stacks_returns [OF ce] assms(3) by auto
    have "stacks_ok ?R stacks" using init_stacks_lang [OF assms(1) _ s] assms(3) by simp
    then have "\<exists>g'. fold_res (\<lambda>c g. llama_grammar_accept g c) cps (new_grammar ?R stacks False [] [] :: 'pat llama_grammar) = Inr g'" for cps
      using ce by (intro accept_returns) (simp_all add: new_grammar_def)
    then show ?thesis using True l s by (simp add: llama_grammar_init_rules_def Let_def)
  qed
qed


subsection \<open>Where the code differs from its intention\<close>

text \<open>\<open>root ::= "a" <[5]>\<close> with a token 5 whose text is \<open>ab\<close>: after the \<open>a\<close> of its text the candidate meets the token element and is compared by its id, so it is not masked; accepting it fails.\<close>

definition token_rules :: llama_grammar_rules where
  "token_rules = [[el LLAMA_GRETYPE_CHAR 97, el LLAMA_GRETYPE_TOKEN 5, el LLAMA_GRETYPE_END 0]]"

definition token_vocab :: llama_vocab_i where
  "token_vocab = \<lparr>token_to_piece = (\<lambda>t. ''ab''), is_eog = (\<lambda>t. False), tokenize = (\<lambda>s. [])\<rparr>"

definition token_grammar :: "nat llama_grammar" where
  "token_grammar = new_grammar token_rules [[(0, 0)]] False [] []"

theorem token_element_mid_text:
  "llama_grammar_init_rules token_rules 0 = Inr (Some token_grammar)
   \<and> llama_grammar_apply_impl (Some token_vocab) token_grammar [\<lparr>td_id = 5, td_logit = LOGIT True, td_p = True\<rparr>] = Inr [\<lparr>td_id = 5, td_logit = LOGIT True, td_p = True\<rparr>]
   \<and> llama_grammar_accept_token token_grammar 5 ''ab'' = Inl (RUNTIME_ERROR ''Unexpected empty grammar stack after accepting piece'')"
  by (intro conjI; code_simp)

text \<open>The inverted class of U+00E9 and the first byte of a two-byte character: 63 of the 64 completions match, and the partial character is refused.\<close>

theorem partial_inverse_class_too_strict:
  "match_partial_char [[el LLAMA_GRETYPE_CHAR_NOT 0xE9, el LLAMA_GRETYPE_END 0]] (0, 0) (snd (decode_utf8 [CHR 0xC3] \<lparr>pu_value = 0, pu_n_remain = 0\<rparr>)) = Inr False
   \<and> fst (decode_utf8 [CHR 0xC3, CHR 0xAA] \<lparr>pu_value = 0, pu_n_remain = 0\<rparr>) = [0xEA, 0]
   \<and> match_char [[el LLAMA_GRETYPE_CHAR_NOT 0xE9, el LLAMA_GRETYPE_END 0]] (0, 0) 0xEA = Inr (True, (0, 1))"
  by (intro conjI; code_simp)

subsection \<open>Examples\<close>

text \<open>\<open>root ::= "a" digits\<close>, \<open>digits ::= [0-9] digits |\<close>.\<close>

definition demo_rules :: llama_grammar_rules where
  "demo_rules =
    [[el LLAMA_GRETYPE_CHAR 97, el LLAMA_GRETYPE_RULE_REF 1, el LLAMA_GRETYPE_END 0],
     [el LLAMA_GRETYPE_CHAR 48, el LLAMA_GRETYPE_CHAR_RNG_UPPER 57, el LLAMA_GRETYPE_RULE_REF 1, el LLAMA_GRETYPE_ALT 0, el LLAMA_GRETYPE_END 0]]"

definition demo_grammar :: "nat llama_grammar" where
  "demo_grammar = new_grammar demo_rules [[(0, 0)]] False [] []"

definition demo_vocab :: llama_vocab_i where
  "demo_vocab = \<lparr>token_to_piece = (\<lambda>t. if t = 0 then ''a5'' else ''x''), is_eog = (\<lambda>t. t = 2), tokenize = (\<lambda>s. [])\<rparr>"

lemma demo_wf: "wf_rules demo_rules" "map copy_rule demo_rules = demo_rules" "left_recursive demo_rules = Inr False" "token_free demo_rules"
  by code_simp+

lemma demo_grammar_init: "llama_grammar_init_rules demo_rules 0 = Inr (Some demo_grammar)"
  by code_simp

lemma demo_accept: "fold_res (\<lambda>c g. llama_grammar_accept g c) [97, 53] demo_grammar = Inr (demo_grammar\<lparr>gr_stacks := [[], [(1, 0)]]\<rparr>)"
  by code_simp

lemma demo_stacks: "gr_rules demo_grammar = demo_rules" "gr_stacks demo_grammar = [[(0, 0)]]" "gr_partial_utf8 demo_grammar = \<lparr>pu_value = 0, pu_n_remain = 0\<rparr>" "\<not> gr_awaiting_trigger demo_grammar"
  "stacks_ok demo_rules [[(0, 0)]]"
  by (simp_all add: demo_grammar_def new_grammar_def) code_simp

lemma demo_nullable: "nullable_is_direct demo_rules"
proof -
  have "\<not> gen demo_rules [Ref 0] []"
    by (auto simp: gen_Ref_iff prods_def demo_rules_def el_def head_sym_def is_end_of_sequence_def modifies_def)
  moreover have "has_empty_alt (demo_rules ! 1) True" by code_simp
  moreover have "length demo_rules = 2" by code_simp
  ultimately show ?thesis by (auto simp: nullable_is_direct_def less_Suc_eq numeral_2_eq_2)
qed

theorem grammar_stacks_are_completions_witness:
  "gen (map copy_rule demo_rules) [Ref 0] [Code 97, Code 53] \<and> lang demo_rules [[], [(1, 0)]] = {w. gen (map copy_rule demo_rules) [Ref 0] (Code 97 # Code 53 # w)}"
  using grammar_stacks_are_completions [OF _ _ demo_grammar_init demo_accept] demo_wf demo_stacks(1) by (simp add: demo_rules_def)

theorem grammar_operations_return_witness:
  "llama_grammar_init_rules demo_rules 0 = Inr (Some demo_grammar) \<and> (\<exists>g'. fold_res (\<lambda>c g. llama_grammar_accept g c) [97, 49, 120] demo_grammar = Inr g')"
proof -
  have "0 < length demo_rules" by code_simp
  then obtain r where "llama_grammar_init_rules demo_rules 0 = Inr r" "\<forall>g cps. r = Some g \<longrightarrow> (\<exists>g' :: nat llama_grammar. fold_res (\<lambda>c g. llama_grammar_accept g c) cps g = Inr g')"
    using grammar_operations_return [of demo_rules 0] demo_wf demo_nullable by auto
  moreover from this(1) have "r = Some demo_grammar" using demo_grammar_init by simp
  ultimately have "\<exists>g'. fold_res (\<lambda>c g. llama_grammar_accept g c) [97, 49, 120] demo_grammar = Inr g'" by blast
  then show ?thesis using demo_grammar_init by blast
qed

theorem apply_agrees_with_accept_witness:
  "\<exists>data'. llama_grammar_apply_impl (Some demo_vocab) demo_grammar [\<lparr>td_id = 0, td_logit = LOGIT True, td_p = True\<rparr>, \<lparr>td_id = 1, td_logit = LOGIT True, td_p = True\<rparr>] = Inr data'
     \<and> (\<not> masked data' 0 \<longrightarrow> (\<exists>g'. llama_grammar_accept_impl (\<lambda>p s. None) (Some demo_vocab) 0 demo_grammar = Inr g'))
     \<and> (masked data' 1 \<longrightarrow> (\<exists>e. llama_grammar_accept_impl (\<lambda>p s. None) (Some demo_vocab) 1 demo_grammar = Inl e))"
proof -
  have z: "\<forall>t. 0 \<notin> set (butlast (fst (decode_utf8 (token_to_piece demo_vocab t) \<lparr>pu_value = 0, pu_n_remain = 0\<rparr>)))"
  proof -
    have "0 \<notin> set (butlast (fst (decode_utf8 ''a5'' \<lparr>pu_value = 0, pu_n_remain = 0\<rparr>)))" "0 \<notin> set (butlast (fst (decode_utf8 ''x'' \<lparr>pu_value = 0, pu_n_remain = 0\<rparr>)))" by code_simp+
    then show ?thesis by (simp add: demo_vocab_def)
  qed
  have c: "complete demo_vocab \<lparr>pu_value = 0, pu_n_remain = 0\<rparr> 1" by code_simp
  obtain data' where "llama_grammar_apply_impl (Some demo_vocab) demo_grammar [\<lparr>td_id = 0, td_logit = LOGIT True, td_p = True\<rparr>, \<lparr>td_id = 1, td_logit = LOGIT True, td_p = True\<rparr>] = Inr data'"
    "\<forall>i < 2. \<not> masked data' i \<longrightarrow> (\<exists>g'. llama_grammar_accept_impl (\<lambda>p s. None) (Some demo_vocab) (td_id ([\<lparr>td_id = 0, td_logit = LOGIT True, td_p = True\<rparr>, \<lparr>td_id = 1, td_logit = LOGIT True, td_p = True\<rparr>] ! i)) demo_grammar = Inr g')"
    "\<forall>i < 2. \<not> masked [\<lparr>td_id = 0, td_logit = LOGIT True, td_p = True\<rparr>, \<lparr>td_id = 1, td_logit = LOGIT True, td_p = True\<rparr>] i \<and> masked data' i
       \<and> complete demo_vocab \<lparr>pu_value = 0, pu_n_remain = 0\<rparr> (td_id ([\<lparr>td_id = 0, td_logit = LOGIT True, td_p = True\<rparr>, \<lparr>td_id = 1, td_logit = LOGIT True, td_p = True\<rparr>] ! i))
       \<longrightarrow> (\<exists>e. llama_grammar_accept_impl (\<lambda>p s. None) (Some demo_vocab) (td_id ([\<lparr>td_id = 0, td_logit = LOGIT True, td_p = True\<rparr>, \<lparr>td_id = 1, td_logit = LOGIT True, td_p = True\<rparr>] ! i)) demo_grammar = Inl e)"
    using apply_agrees_with_accept [of demo_grammar demo_vocab "[\<lparr>td_id = 0, td_logit = LOGIT True, td_p = True\<rparr>, \<lparr>td_id = 1, td_logit = LOGIT True, td_p = True\<rparr>]" "\<lambda>p s. None"] demo_wf demo_nullable demo_stacks z
    by (auto simp: numeral_2_eq_2)
  note d = this
  show ?thesis using d(1) d(2) [rule_format, of 0] d(3) [rule_format, of 1] c by (intro exI [of _ data']) (simp add: masked_def)
qed


definition accents :: llama_grammar_rules where
  "accents = [[el LLAMA_GRETYPE_CHAR 0xE0, el LLAMA_GRETYPE_CHAR_RNG_UPPER 0xFF, el LLAMA_GRETYPE_END 0]]"

theorem partial_char_ranges_witness:
  "\<exists>b. match_partial_char accents (0, 0) \<lparr>pu_value = 3, pu_n_remain = 1\<rparr> = Inr b
     \<and> b = (\<exists>c \<in> completions \<lparr>pu_value = 3, pu_n_remain = 1\<rparr>. shortest 1 \<le> c \<and> matches accents (0, 0) c)"
proof -
  let ?q = "\<lparr>pu_value = 3, pu_n_remain = 1\<rparr>"
  have wf: "wf_rules accents" "good_pos accents (0, 0)" "ge_type (elem accents (0, 0)) = LLAMA_GRETYPE_CHAR"
    by (simp_all add: accents_def el_def wf_rules_def good_pos_def symbol_start_def elem_def is_end_of_sequence_def modifies_def)
  have "ordered_class (rest accents (0, 0))" by (simp add: accents_def el_def rest_def)
  then show ?thesis using partial_char_ranges [OF wf(1,2), of ?q] wf(3) by auto
qed

end
