(* ===== verification/Spec2Isabelle.thy ===== *)
theory Spec2Isabelle
  imports Batch_Init KV_Reach KV_Prev_Tokens KV_State_Props Decode_KV Recurrent_Batch Grammar_Props
begin

text \<open>
  A verification library for the inference core of \<^verbatim>\<open>qvac-fabric-llm.cpp\<close>: the part of
  \<^verbatim>\<open>src/src\<close> that decides which tokens are computed together, where their keys and values are kept, and
  which result belongs to which token.

  \<^bold>\<open>The program's parts and how they interact.\<close> A caller passes a \<open>llama_batch\<close> to \<open>llama_context::decode\<close>
  (\<^verbatim>\<open>llama-context.cpp\<close>). The batch allocator (\<^verbatim>\<open>llama-batch.cpp\<close>) validates it against the memory and splits
  it into ubatches. The memory (\<^verbatim>\<open>llama-memory.h\<close>; here the KV cache, \<^verbatim>\<open>llama-kv-cache.cpp\<close>, and the
  interleaved sliding-window cache, \<^verbatim>\<open>llama-kv-cache-iswa.cpp\<close>, or the recurrent memory, \<^verbatim>\<open>llama-memory-recurrent.cpp\<close>) finds cells for every ubatch before the first is
  computed. Each ubatch is then placed into the cells (\<^verbatim>\<open>llama-kv-cells.h\<close>), the graph inputs (row indices,
  attention mask, previous tokens) are derived from them, the backend computes, and the outputs are put back
  into the order of the batch. The memory can be edited between batches (\<open>seq_rm\<close>, \<open>seq_cp\<close>, \<open>seq_keep\<close>,
  \<open>seq_add\<close>, \<open>seq_div\<close>) and saved and restored (\<^verbatim>\<open>llama-io.h\<close>). When the logits are sampled, a grammar
  (\<^verbatim>\<open>llama-grammar.cpp\<close>) masks the tokens that cannot continue the text and then accepts the sampled one.

  \<^bold>\<open>Theories.\<close>
  \<^item> \<open>Prelude\<close>: integer types, the result type \<open>'a res\<close> (assertion failures, aborts, exceptions and
    non-termination as values), loops as folds, and the lemmas on lists and index arithmetic that all components
    share.
  \<^item> \<open>Hparams\<close>: \<^verbatim>\<open>llama-hparams.cpp\<close>, per-layer hyper-parameters as 32-bit words, the sliding-window mask.
  \<^item> \<open>Batch\<close>, \<open>Batch_Split\<close>: \<open>llama_batch_allocr\<close>, its \<open>init\<close> with all checks, and the three ways of splitting.
    \<open>Batch_Partition\<close> and \<open>Batch_Equal\<close> prove, over a locale for any selection strategy, that splitting ends and
    uses every token exactly once; \<open>Batch_Init\<close> proves what an accepted batch satisfies.
  \<^item> \<open>KV_Cells\<close>: the cell array with its incremental indices (used set, positions per sequence). \<open>mk_cells\<close>
    recomputes the indices from the cells; the invariant is that nothing else is ever stored.
  \<^item> \<open>KV_Cache\<close>, \<open>KV_Cache_Props\<close>: streams and sequence operations. Each loop over the cells is an instance of
    the locale \<open>cell_step\<close>. \<open>kv_positions\<close> is the abstract view of a sequence.
  \<^item> \<open>KV_Slots\<close>, \<open>KV_Slots_Props\<close>, \<open>KV_Apply\<close>, \<open>KV_Prepare\<close>: \<open>find_slot\<close>, \<open>apply_ubatch\<close>, \<open>prepare\<close>,
    \<open>init_batch\<close>. The search loop is a partial function; that it returns is proved (\<open>find_slot_complete\<close>).
  \<^item> \<open>KV_Restore\<close>, \<open>KV_Reach\<close>: \<open>prepare\<close> keeps the invariant of every cache, also where it does not restore the cells exactly (sliding window, several streams);
    the cache as a state machine; the invariant in every reachable state.
  \<^item> \<open>KV_Inputs\<close>, \<open>KV_Prev_Tokens\<close>: the graph inputs; the optimised attention mask equals the direct one.
  \<^item> \<open>State_IO\<close>, \<open>KV_State\<close>, \<open>KV_State_Data\<close>, \<open>KV_State_Props\<close>: the byte streams, \<open>state_write\<close> and
    \<open>state_read\<close> with the tensor data; the round trip and the error path.
  \<^item> \<open>Memory\<close>, \<open>KV_ISWA\<close>: the memory interface as a record of operations, the memory contexts, and the two
    caches as instances. \<open>Memory_Spec\<close> states the contract of a memory as the locale \<open>llama_memory\<close> over an
    abstract map from sequences to positions; \<open>KV_Refine\<close> proves that the KV cache implements it, and
    \<open>KV_ISWA_Props\<close> that the interleaved cache does, with the invariant that its base cache is a superset of its
    SWA cache.
  \<^item> \<open>Outputs\<close>: output rows: the selection sort at the end of \<open>decode\<close>, \<open>output_reorder\<close> and the row lookup.
  \<^item> \<open>Decode\<close>: \<open>llama_context::decode\<close> for any memory: the retry of \<open>init_batch\<close>, \<open>output_reserve\<close>, the ubatch loop, the
    clean-up after a failed ubatch, the extraction of the results. \<open>Decode_Props\<close> proves the loop over the locale
    \<open>batch_memory\<close> (what a memory context promises after \<open>init_batch\<close>); \<open>Decode_KV\<close> interprets it for the KV cache and
    proves what a whole \<open>decode\<close> does to the cache and the outputs.
  \<^item> \<open>Recurrent\<close>: \<^verbatim>\<open>llama-memory-recurrent.cpp\<close>, the memory of models with one state per sequence. \<open>Recurrent_Slot\<close> and
    \<open>Recurrent_Place\<close> prove the loops of \<open>find_slot\<close> one by one on a view of the cells as four functions, \<open>Recurrent_Find\<close> puts them
    together, \<open>Recurrent_Ops\<close> treats the sequence operations, \<open>Recurrent_Reach\<close> the reachable states, and \<open>Recurrent_Batch\<close> composes the
    memory with the batch allocator.
  \<^item> \<open>Utf8\<close>: the decoders and the encoder; a text can be cut anywhere. \<open>Grammar\<close>: rule tables, stacks, acceptance and masking.
    \<open>Grammar_Lang\<close> gives the tables their meaning as context-free grammars, \<open>Grammar_Advance\<close> proves the closure loop, \<open>Grammar_LR\<close> the left
    recursion check (a locale for the properties a closure inherits, interpreted for finiteness and for terminal stacks) and the recursion it
    misses, \<open>Grammar_Accept\<close>, \<open>Grammar_Reject\<close> and \<open>Grammar_Apply\<close> acceptance, masking and their agreement, \<open>Grammar_Props\<close> the
    statements about whole runs.
  \<^bold>\<open>Conventions.\<close> A struct is a record with a short prefix per field, a method is a definition with the
  method's name (prefixed where two classes share one), a C++ loop over indices is a \<open>fold\<close> over \<open>[0..<n]\<close>.
  Positions, sequence ids and tokens are \<open>int\<close> (signed overflow is undefined in C++); sizes and indices are \<open>nat\<close>
  with the reduction modulo \<open>2 ^ 32\<close> written out where it can matter; hyper-parameters are 32-bit words.
  \<open>GGML_ASSERT\<close> failures are values; a plain \<open>assert\<close> is compiled out, as in a release build.

  \<^bold>\<open>Bounds and fuel.\<close> Two recursions have fuel: \<open>detect_left_recursion\<close> the number of rules plus one (a rule in progress is not entered
  again) and \<open>reject_candidates_for_stack\<close> the longest array of code points (each level consumes one); that this is enough is
  proved. Loops that the code does not obviously leave (\<open>split_all\<close>,
  \<open>slot_search\<close>, \<open>decode_loop\<close>, \<open>advance_loop\<close>) are partial functions whose value is absent when they do not return, and the theorems about
  them state that they return. Sizes are arbitrary except \<open>LLAMA_MAX_SEQ = 256\<close>.

  \<^bold>\<open>Parameters.\<close> The computation of the K-shift graph, the computation of a ubatch, the allocation and the former content of the
  output buffer, the values of a tensor element, the vocabulary and the regular expressions of lazy grammars are parameters; floating-point values occur only as opaque elements.

  \<^bold>\<open>Not modelled.\<close> Graph construction and the ggml kernels (floating-point tensor algebra on backends), model
  loading and memory mapping (operating-system I/O), samplers (floating point and random numbers), the server
  and the tools (network I/O), position buckets and the rotation matrices of the graph inputs (floating point),
  the device-side writers and readers of the state (asynchronous backend copies), the GBNF parser and the overload of \<open>llama_grammar_init_impl\<close>
  that takes a grammar string, samplers that run on a backend inside \<open>decode\<close>. The data flag of \<open>clear\<close>, which only zeroes the tensor buffers,
  is left out, and the tensor writes that the host reader defers to the end of a read are made at once.

  \<^bold>\<open>Scope of the reachability theorems.\<close> The step relations list the operations with the conditions under which the code keeps its indices: a copy inside a stream
  goes to cells the destination does not have, \<open>seq_add\<close> and \<open>seq_div\<close> of the interleaved cache move tokens no other sequence shares, the
  recurrent \<open>seq_rm\<close> names one sequence. Reading a saved state is not a step; its effect is the round-trip theorem.
\<close>

end
